(* ===== verification/Prelude.thy ===== *)
theory Prelude
  imports Main "HOL-Library.Word" "HOL-Library.Monad_Syntax" "HOL-Library.Tree"
begin

text \<open>
  Shared vocabulary of the development: the machine types of the C++ sources,
  the collections of simplification rules the component theories feed, and the
  generic lemmas on option computations and lists that several of them use.

  Undefined behaviour (a null or dangling dereference, an out-of-range array
  index) and a failed \<open>assert\<close> are the value \<open>None\<close> of an option
  computation; so is a loop that does not end.  A theorem that such a
  computation is \<open>Some\<close> therefore shows that it returns, that every
  pointer it follows is live and that every assertion it meets holds.
\<close>

type_synonym addr = nat
type_synonym off_t = int

named_theorems heap_simps "how the store operations act on a live address"
named_theorems data_simps "operations that leave the payload of the nodes alone"

lemma bind_SomeI: "m = Some x \<Longrightarrow> f x = y \<Longrightarrow> Option.bind m f = y"
  by simp

lemma bind_eq_SomeE:
  assumes "Option.bind m f = Some y"
  obtains x where "m = Some x" "f x = Some y"
  using assms by (cases m) auto

text \<open>The neighbour of an element of a list without duplicates.\<close>

lemma distinct_split_unique:
  assumes "xs @ a # ys = xs' @ a # ys'" "distinct (xs @ a # ys)"
  shows "xs = xs' \<and> ys = ys'"
  using assms
proof (induction xs arbitrary: xs')
  case Nil
  then show ?case by (cases xs') auto
next
  case (Cons x xs)
  then show ?case by (cases xs') auto
qed

lemma height_pos_Node: "0 < height t \<Longrightarrow> \<exists>l a r. t = Node l a r"
  by (cases t) auto

text \<open>The maps of the C++ library as association lists; inserting a key that is present changes nothing.\<close>

definition emplace :: "'k \<Rightarrow> 'v \<Rightarrow> ('k \<times> 'v) list \<Rightarrow> ('k \<times> 'v) list" where
  "emplace k v al = (if map_of al k = None then (k, v) # al else al)"

lemma map_of_emplace: "map_of al k = None \<Longrightarrow> map_of (emplace k v al) = (map_of al)(k \<mapsto> v)"
  by (simp add: emplace_def)

lemma map_of_emplace_all: "map_of (emplace k v al) = (if map_of al k = None then (map_of al)(k \<mapsto> v) else map_of al)"
  by (simp add: emplace_def)

text \<open>Computations that may throw: an \<open>Inl\<close> skips what follows.\<close>

definition ebind :: "('e + 'a) option \<Rightarrow> ('a \<Rightarrow> ('e + 'b) option) \<Rightarrow> ('e + 'b) option" where
  "ebind m f = (case m of None \<Rightarrow> None | Some (Inl e) \<Rightarrow> Some (Inl e) | Some (Inr x) \<Rightarrow> f x)"

lemma ebind_simps [simp]: "ebind (Some (Inr x)) f = f x" "ebind (Some (Inl e)) f = Some (Inl e)" "ebind None f = None"
  by (simp_all add: ebind_def)

lemma ebind_cong [fundef_cong]: "m = m' \<Longrightarrow> (\<And>x. m' = Some (Inr x) \<Longrightarrow> f x = f' x) \<Longrightarrow> ebind m f = ebind m' f'"
  by (auto simp: ebind_def split: option.splits sum.splits)

end
