(* ===== verification/Avl.thy ===== *)
theory Avl
  imports Prelude
begin

text \<open>
  The AVL tree of \<open>src/src/avl.hpp\<close>, at the level of its nodes and pointers.
  The nodes live in an explicit store; an \<open>avltree\<close> is its root pointer, its node
  counter, its deleter and that store.  Every operation is translated statement
  by statement, with the pointer assignments in the order of the source.
\<close>

section \<open>Nodes, store and tree\<close>

datatype child = NONE | LEFT | RIGHT

datatype direction = BEFORE | AFTER

text \<open>\<open>int child = static_cast<int>(dir)\<close> and \<open>1 - child\<close>.\<close>

fun dir_child :: "direction \<Rightarrow> child" where
  "dir_child BEFORE = LEFT"
| "dir_child AFTER = RIGHT"

fun other :: "child \<Rightarrow> child" where
  "other LEFT = RIGHT"
| "other RIGHT = LEFT"
| "other NONE = NONE"

fun child2balance :: "child \<Rightarrow> int" where
  "child2balance LEFT = -1"
| "child2balance RIGHT = 1"
| "child2balance NONE = 0"

text \<open>The table \<open>balance2child[] = {0, 0, 1}\<close>, read at \<open>1 + balance\<close>.\<close>

definition balance2child :: "int \<Rightarrow> child" where
  "balance2child b = (if b \<le> 1 then LEFT else RIGHT)"

record 'a node =
  m_children :: "child \<Rightarrow> addr option"
  m_parent :: "addr option"
  m_which_child :: child
  m_balance :: int
  m_data :: 'a

type_synonym 'a store = "addr \<rightharpoonup> 'a node"

record 'a avltree =
  m_root :: "addr option"
  m_num_nodes :: "32 word"
  m_deleter :: "addr \<Rightarrow> 'a store \<Rightarrow> 'a store"
  m_heap :: "'a store"
  m_brk :: addr

record insertion_point =
  ip_parent :: "addr option"
  ip_child :: child

definition null_point :: insertion_point where
  "null_point = \<lparr>ip_parent = None, ip_child = NONE\<rparr>"

definition default_delete :: "addr \<Rightarrow> 'a store \<Rightarrow> 'a store" where
  "default_delete a h = h(a := None)"

definition empty_tree :: "(addr \<Rightarrow> 'a store \<Rightarrow> 'a store) \<Rightarrow> 'a avltree" where
  "empty_tree del = \<lparr>m_root = None, m_num_nodes = 0, m_deleter = del,
     m_heap = Map.empty, m_brk = 0\<rparr>"

subsection \<open>Assignments through a pointer\<close>

definition modify :: "'a avltree \<Rightarrow> addr \<Rightarrow> ('a node \<Rightarrow> 'a node) \<Rightarrow> 'a avltree option" where
  "modify t a f = do { n \<leftarrow> m_heap t a; Some (t\<lparr>m_heap := (m_heap t)(a \<mapsto> f n)\<rparr>) }"

definition set_child :: "'a avltree \<Rightarrow> addr \<Rightarrow> child \<Rightarrow> addr option \<Rightarrow> 'a avltree option" where
  "set_child t a c p = (if c = NONE then None
     else modify t a (\<lambda>n. n\<lparr>m_children := (m_children n)(c := p)\<rparr>))"

definition set_parent :: "'a avltree \<Rightarrow> addr \<Rightarrow> addr option \<Rightarrow> 'a avltree option" where
  "set_parent t a p = modify t a (\<lambda>n. n\<lparr>m_parent := p\<rparr>)"

definition set_which :: "'a avltree \<Rightarrow> addr \<Rightarrow> child \<Rightarrow> 'a avltree option" where
  "set_which t a c = modify t a (\<lambda>n. n\<lparr>m_which_child := c\<rparr>)"

definition set_balance :: "'a avltree \<Rightarrow> addr \<Rightarrow> int \<Rightarrow> 'a avltree option" where
  "set_balance t a b = modify t a (\<lambda>n. n\<lparr>m_balance := b\<rparr>)"

definition set_data :: "'a avltree \<Rightarrow> addr \<Rightarrow> ('a \<Rightarrow> 'a) \<Rightarrow> 'a avltree option" where
  "set_data t a f = modify t a (\<lambda>n. n\<lparr>m_data := f (m_data n)\<rparr>)"

text \<open>Reading \<open>*data\<close> through an element pointer (\<open>data_to_node\<close> is the identity on addresses).\<close>

definition data_of :: "'a avltree \<Rightarrow> addr \<Rightarrow> 'a option" where
  "data_of t a = map_option m_data (m_heap t a)"

text \<open>
  \<open>if(p != nullptr) { p->m_parent = par; p->m_which_child = c; }\<close>, and
  \<open>if(parent != nullptr) parent->m_children[c] = p; else m_root = p;\<close>
\<close>

definition adopt :: "'a avltree \<Rightarrow> addr option \<Rightarrow> addr \<Rightarrow> child \<Rightarrow> 'a avltree option" where
  "adopt t p par c = (case p of None \<Rightarrow> Some t
     | Some a \<Rightarrow> do { t \<leftarrow> set_parent t a (Some par); set_which t a c })"

definition link_parent ::
  "'a avltree \<Rightarrow> addr option \<Rightarrow> child \<Rightarrow> addr option \<Rightarrow> 'a avltree option" where
  "link_parent t parent c p = (case parent of
       None \<Rightarrow> Some (t\<lparr>m_root := p\<rparr>)
     | Some a \<Rightarrow> set_child t a c p)"

text \<open>\<open>delete node\<close> by a client that owns it.\<close>

definition free_node :: "'a avltree \<Rightarrow> addr \<Rightarrow> 'a avltree option" where
  "free_node t a = do { n \<leftarrow> m_heap t a; Some (t\<lparr>m_heap := (m_heap t)(a := None)\<rparr>) }"

section \<open>Searching and walking\<close>

partial_function (option) find_loop ::
  "('a \<Rightarrow> 'a \<Rightarrow> int) \<Rightarrow> 'a avltree \<Rightarrow> 'a \<Rightarrow> addr option \<Rightarrow> addr option \<Rightarrow> child
     \<Rightarrow> (addr option \<times> insertion_point) option" where
  "find_loop cmp t v node prev child = (case node of
       None \<Rightarrow> Some (None, \<lparr>ip_parent = prev, ip_child = child\<rparr>)
     | Some a \<Rightarrow> do {
         n \<leftarrow> m_heap t a;
         let diff = cmp v (m_data n);
         if \<not> (-1 \<le> diff \<and> diff \<le> 1) then None
         else if diff = 0 then Some (Some a, \<lparr>ip_parent = Some a, ip_child = NONE\<rparr>)
         else do {
           let child = balance2child (1 + diff);
           find_loop cmp t v (m_children n child) (Some a) child } })"

definition find_node ::
  "('a \<Rightarrow> 'a \<Rightarrow> int) \<Rightarrow> 'a avltree \<Rightarrow> 'a \<Rightarrow> (addr option \<times> insertion_point) option" where
  "find_node cmp t v = find_loop cmp t v (m_root t) None LEFT"

definition find ::
  "('a \<Rightarrow> 'a \<Rightarrow> int) \<Rightarrow> 'a avltree \<Rightarrow> 'a \<Rightarrow> (addr option \<times> insertion_point) option" where
  "find cmp t v = do {
     (node, where) \<leftarrow> find_node cmp t v;
     case node of Some a \<Rightarrow> Some (Some a, null_point) | None \<Rightarrow> Some (None, where) }"

text \<open>
  \<open>for(; node->m_children[c] != nullptr; node = node->m_children[c]);\<close>
\<close>

partial_function (option) descend :: "'a avltree \<Rightarrow> addr \<Rightarrow> child \<Rightarrow> addr option" where
  "descend t a c = do {
     n \<leftarrow> m_heap t a;
     case m_children n c of None \<Rightarrow> Some a | Some b \<Rightarrow> descend t b c }"

text \<open>The upward loop of \<open>walk\<close>: the result is the pointer it returns.\<close>

partial_function (option) climb :: "'a avltree \<Rightarrow> addr \<Rightarrow> child \<Rightarrow> addr option option" where
  "climb t a c = do {
     n \<leftarrow> m_heap t a;
     case m_parent n of
       None \<Rightarrow> Some None
     | Some p \<Rightarrow> if m_which_child n = c then Some (Some p) else climb t p c }"

definition walk :: "'a avltree \<Rightarrow> addr option \<Rightarrow> child \<Rightarrow> addr option option" where
  "walk t node c = (let right = other c in case node of
       None \<Rightarrow> Some None
     | Some a \<Rightarrow> do {
         n \<leftarrow> m_heap t a;
         case m_children n c of
           Some b \<Rightarrow> map_option Some (descend t b right)
         | None \<Rightarrow> climb t a right })"

definition next_elem :: "'a avltree \<Rightarrow> addr \<Rightarrow> addr option option" where
  "next_elem t a = walk t (Some a) (dir_child AFTER)"

definition prev_elem :: "'a avltree \<Rightarrow> addr \<Rightarrow> addr option option" where
  "prev_elem t a = walk t (Some a) (dir_child BEFORE)"

text \<open>
  \<open>nearest\<close> takes the address of a member of \<open>*where.m_parent\<close> before it tests
  anything but the null insertion point: with a null parent this is undefined,
  unless the computed address is not used.
\<close>

definition nearest :: "'a avltree \<Rightarrow> insertion_point \<Rightarrow> direction \<Rightarrow> addr option option" where
  "nearest t where dir =
     (if where = null_point then Some None
      else if ip_child where \<noteq> dir_child dir
      then (case ip_parent where of None \<Rightarrow> None | Some a \<Rightarrow> Some (Some a))
      else walk t (ip_parent where) (dir_child dir))"

partial_function (option) end_loop ::
  "'a avltree \<Rightarrow> addr option \<Rightarrow> addr option \<Rightarrow> child \<Rightarrow> addr option option" where
  "end_loop t node prev c = (case node of
       None \<Rightarrow> Some prev
     | Some a \<Rightarrow> do { n \<leftarrow> m_heap t a; end_loop t (m_children n c) (Some a) c })"

definition first_node :: "'a avltree \<Rightarrow> addr option option" where
  "first_node t = end_loop t (m_root t) None LEFT"

definition last_node :: "'a avltree \<Rightarrow> addr option option" where
  "last_node t = end_loop t (m_root t) None RIGHT"

section \<open>Rotation\<close>

definition rotation :: "'a avltree \<Rightarrow> addr \<Rightarrow> int \<Rightarrow> (bool \<times> 'a avltree) option" where
  "rotation t node balance = do {
     let left = (if balance < 0 then LEFT else RIGHT);
     let right = other left;
     let left_heavy = balance div 2;
     let right_heavy = - left_heavy;
     nd \<leftarrow> m_heap t node;
     let parent = m_parent nd;
     child \<leftarrow> m_children nd left;
     let which_child = m_which_child nd;
     ch \<leftarrow> m_heap t child;
     let child_balance = m_balance ch;
     if child_balance \<noteq> right_heavy then do {
       let child_balance = child_balance + right_heavy;
       let cright = m_children ch right;
       t \<leftarrow> set_child t node left cright;
       t \<leftarrow> adopt t cright node left;
       t \<leftarrow> set_child t child right (Some node);
       t \<leftarrow> set_balance t node (- child_balance);
       t \<leftarrow> set_parent t node (Some child);
       t \<leftarrow> set_which t node right;
       t \<leftarrow> set_balance t child child_balance;
       t \<leftarrow> set_which t child which_child;
       t \<leftarrow> set_parent t child parent;
       t \<leftarrow> link_parent t parent which_child (Some child);
       Some (child_balance = 0, t) }
     else do {
       gchild \<leftarrow> m_children ch right;
       gc \<leftarrow> m_heap t gchild;
       let gleft = m_children gc left;
       let gright = m_children gc right;
       t \<leftarrow> set_child t node left gright;
       t \<leftarrow> adopt t gright node left;
       t \<leftarrow> set_child t child right gleft;
       t \<leftarrow> adopt t gleft child right;
       let balance = m_balance gc;
       t \<leftarrow> set_child t gchild left (Some child);
       t \<leftarrow> set_balance t child (if balance = right_heavy then left_heavy else 0);
       t \<leftarrow> set_parent t child (Some gchild);
       t \<leftarrow> set_which t child left;
       t \<leftarrow> set_child t gchild right (Some node);
       t \<leftarrow> set_balance t node (if balance = left_heavy then right_heavy else 0);
       t \<leftarrow> set_parent t node (Some gchild);
       t \<leftarrow> set_which t node right;
       t \<leftarrow> set_balance t gchild 0;
       t \<leftarrow> set_parent t gchild parent;
       t \<leftarrow> set_which t gchild which_child;
       t \<leftarrow> link_parent t parent which_child (Some gchild);
       Some (True, t) } }"

section \<open>Insertion\<close>

text \<open>
  The loop that backs up the tree after an insertion, with \<open>n = parent\<close> as its first
  statement, and the rotation that follows a \<open>break\<close>.
\<close>

partial_function (option) insert_fix ::
  "'a avltree \<Rightarrow> addr option \<Rightarrow> child \<Rightarrow> 'a avltree option" where
  "insert_fix t parent which_child = (case parent of
       None \<Rightarrow> Some t
     | Some n \<Rightarrow> do {
         nd \<leftarrow> m_heap t n;
         let old_balance = m_balance nd;
         let new_balance = old_balance + child2balance which_child;
         if new_balance = 0 then set_balance t n 0
         else if old_balance \<noteq> 0 then do { (_, t) \<leftarrow> rotation t n new_balance; Some t }
         else do {
           t \<leftarrow> set_balance t n new_balance;
           insert_fix t (m_parent nd) (m_which_child nd) } })"

definition new_node :: "addr option \<Rightarrow> child \<Rightarrow> 'a \<Rightarrow> 'a node" where
  "new_node parent which_child d = \<lparr>m_children = (\<lambda>_. None), m_parent = parent,
     m_which_child = which_child, m_balance = 0, m_data = d\<rparr>"

definition insert_at :: "'a avltree \<Rightarrow> 'a \<Rightarrow> insertion_point \<Rightarrow> (addr \<times> 'a avltree) option" where
  "insert_at t new_data where = do {
     let parent = ip_parent where;
     let which_child = ip_child where;
     let n = m_brk t;
     let t = t\<lparr>m_num_nodes := m_num_nodes t + 1, m_brk := Suc n,
               m_heap := (m_heap t)(n \<mapsto> new_node parent which_child new_data)\<rparr>;
     t \<leftarrow> (case parent of
             Some p \<Rightarrow> do {
               pn \<leftarrow> m_heap t p;
               if which_child = NONE \<or> m_children pn which_child \<noteq> None then None
               else set_child t p which_child (Some n) }
           | None \<Rightarrow> if m_root t \<noteq> None then None else Some (t\<lparr>m_root := Some n\<rparr>));
     t \<leftarrow> insert_fix t parent which_child;
     Some (n, t) }"

definition add :: "('a \<Rightarrow> 'a \<Rightarrow> int) \<Rightarrow> 'a avltree \<Rightarrow> 'a \<Rightarrow> (addr \<times> 'a avltree) option" where
  "add cmp t new_data = do {
     (res, where) \<leftarrow> find cmp t new_data;
     if res \<noteq> None then None else insert_at t new_data where }"

definition insert_here :: "'a avltree \<Rightarrow> 'a \<Rightarrow> addr \<Rightarrow> direction \<Rightarrow> (addr \<times> 'a avltree) option" where
  "insert_here t new_data here dir = do {
     let child = dir_child dir;
     nd \<leftarrow> m_heap t here;
     case m_children nd child of
       None \<Rightarrow> insert_at t new_data \<lparr>ip_parent = Some here, ip_child = child\<rparr>
     | Some b \<Rightarrow> do {
         let child = other child;
         node \<leftarrow> descend t b child;
         insert_at t new_data \<lparr>ip_parent = Some node, ip_child = child\<rparr> } }"

section \<open>Removal\<close>

text \<open>
  The block of \<open>remove_node\<close> for a node with two children: its in-order neighbour
  \<open>node\<close> takes its place, and the local variable \<open>tmp\<close>, a copy of that
  neighbour, stands where the neighbour was.  The stack slot of \<open>tmp\<close> is a cell of
  the store; the result is the address of the slot, \<open>to_rm\<close>, and the tree at the last
  statement of the block.
\<close>

definition swap_out :: "'a avltree \<Rightarrow> addr \<Rightarrow> 'a node \<Rightarrow> (addr \<times> 'a avltree) option" where
  "swap_out t to_rm rm = do {
     let old_balance = m_balance rm;
     let left = balance2child (old_balance + 1);
     let right = other left;
     b \<leftarrow> m_children rm left;
     node \<leftarrow> descend t b right;
     nn \<leftarrow> m_heap t node;
     let tmp = m_brk t;
     let t = t\<lparr>m_heap := (m_heap t)(tmp \<mapsto> nn), m_brk := Suc tmp\<rparr>;
     t \<leftarrow> modify t node (\<lambda>n. n\<lparr>m_children := m_children rm, m_parent := m_parent rm,
            m_which_child := m_which_child rm, m_balance := m_balance rm\<rparr>);
     t \<leftarrow> (if m_children rm left = Some node then set_child t node left (Some tmp) else Some t);
     t \<leftarrow> link_parent t (m_parent rm) (m_which_child rm) (Some node);
     n \<leftarrow> m_heap t node;
     l \<leftarrow> m_children n left;
     t \<leftarrow> set_parent t l (Some node);
     n \<leftarrow> m_heap t node;
     r \<leftarrow> m_children n right;
     t \<leftarrow> set_parent t r (Some node);
     tn \<leftarrow> m_heap t tmp;
     parent \<leftarrow> m_parent tn;
     t \<leftarrow> set_child t parent (m_which_child tn) (Some tmp);
     tn \<leftarrow> m_heap t tmp;
     let which_child = (if m_children tn RIGHT \<noteq> None then RIGHT else LEFT);
     t \<leftarrow> (case m_children tn which_child of None \<Rightarrow> Some t
            | Some c \<Rightarrow> set_parent t c (Some tmp));
     Some (tmp, t) }"

text \<open>The \<open>do ... while(parent != nullptr)\<close> loop that shortens the balances upwards.\<close>

partial_function (option) remove_fix ::
  "'a avltree \<Rightarrow> addr \<Rightarrow> child \<Rightarrow> 'a avltree option" where
  "remove_fix t node which_child = do {
     nd \<leftarrow> m_heap t node;
     let old_balance = m_balance nd;
     let new_balance = old_balance - child2balance which_child;
     let parent = m_parent nd;
     let which_child = m_which_child nd;
     if old_balance = 0 then set_balance t node new_balance
     else do {
       (shorter, t) \<leftarrow> (if new_balance = 0
          then do { t \<leftarrow> set_balance t node new_balance; Some (True, t) }
          else rotation t node new_balance);
       if \<not> shorter then Some t
       else (case parent of None \<Rightarrow> Some t | Some p \<Rightarrow> remove_fix t p which_child) } }"

text \<open>The part of \<open>remove_node\<close> after the swap: \<open>to_rm\<close> has at most one child.\<close>

definition cut_out :: "'a avltree \<Rightarrow> addr \<Rightarrow> addr \<Rightarrow> 'a avltree option" where
  "cut_out t old_node to_rm = do {
     t \<leftarrow> (if 0 < m_num_nodes t then Some (t\<lparr>m_num_nodes := m_num_nodes t - 1\<rparr>) else None);
     rm \<leftarrow> m_heap t to_rm;
     let parent = m_parent rm;
     let which_child = m_which_child rm;
     let node = (if m_children rm LEFT \<noteq> None then m_children rm LEFT else m_children rm RIGHT);
     let t = t\<lparr>m_heap := m_deleter t old_node (m_heap t)\<rparr>;
     t \<leftarrow> (case node of None \<Rightarrow> Some t
            | Some a \<Rightarrow> do { t \<leftarrow> set_parent t a parent; set_which t a which_child });
     case parent of
       None \<Rightarrow> Some (t\<lparr>m_root := node\<rparr>)
     | Some p \<Rightarrow> do {
         t \<leftarrow> set_child t p which_child node;
         remove_fix t p which_child } }"

text \<open>
  \<open>tmp\<close> is declared inside the block, so its lifetime ends with the block: the cell is
  gone, and \<open>to_rm\<close>, which the rest of the function reads, points to it.
\<close>

definition remove_node :: "'a avltree \<Rightarrow> addr option \<Rightarrow> 'a avltree option" where
  "remove_node t to_rm = (case to_rm of
       None \<Rightarrow> Some t
     | Some old_node \<Rightarrow> do {
         rm \<leftarrow> m_heap t old_node;
         if m_children rm LEFT \<noteq> None \<and> m_children rm RIGHT \<noteq> None then do {
           (tmp, t) \<leftarrow> swap_out t old_node rm;
           let t = t\<lparr>m_heap := (m_heap t)(tmp := None)\<rparr>;
           cut_out t old_node tmp }
         else cut_out t old_node old_node })"

definition remove_at :: "'a avltree \<Rightarrow> insertion_point \<Rightarrow> 'a avltree option" where
  "remove_at t where = remove_node t (ip_parent where)"

definition remove :: "('a \<Rightarrow> 'a \<Rightarrow> int) \<Rightarrow> 'a avltree \<Rightarrow> 'a \<Rightarrow> 'a avltree option" where
  "remove cmp t d = do {
     (res, where) \<leftarrow> find_node cmp t d;
     if res = None then Some t else remove_at t where }"

text \<open>The loops run: their equations are code equations.\<close>

declare find_loop.simps [code] descend.simps [code] climb.simps [code] end_loop.simps [code]
  insert_fix.simps [code] remove_fix.simps [code]

end
