(* ===== verification/Avl_Shape.thy ===== *)
theory Avl_Shape
  imports Avl
begin

text \<open>
  What it means that the store holds a balanced tree: \<open>avl_at\<close> relates a pointer to a
  tree of addresses, with consistent parent pointers, child indices and balance
  factors.  A position inside the tree is a subtree together with a list of frames
  (its ancestors, nearest first); \<open>ctx\<close> says that the store holds these frames.
\<close>

section \<open>Trees in the store\<close>

fun avl_at :: "'a store \<Rightarrow> addr option \<Rightarrow> child \<Rightarrow> addr option \<Rightarrow> addr tree \<Rightarrow> bool" where
  "avl_at h par w p Leaf \<longleftrightarrow> p = None"
| "avl_at h par w p (Node l a r) \<longleftrightarrow> p = Some a \<and> (\<exists>n. h a = Some n \<and>
     m_parent n = par \<and> m_which_child n = w \<and>
     m_balance n = int (height r) - int (height l) \<and> \<bar>m_balance n\<bar> \<le> 1 \<and>
     avl_at h (Some a) LEFT (m_children n LEFT) l \<and>
     avl_at h (Some a) RIGHT (m_children n RIGHT) r)"

datatype frame = Fr child addr "addr tree"

fun join :: "child \<Rightarrow> addr tree \<Rightarrow> addr \<Rightarrow> addr tree \<Rightarrow> addr tree" where
  "join LEFT t a s = Node t a s"
| "join RIGHT t a s = Node s a t"
| "join NONE t a s = Node t a s"

fun plug :: "addr tree \<Rightarrow> frame list \<Rightarrow> addr tree" where
  "plug t [] = t"
| "plug t (Fr d a s # fs) = plug (join d t a s) fs"

fun ctx_addrs :: "frame list \<Rightarrow> addr set" where
  "ctx_addrs [] = {}"
| "ctx_addrs (Fr d a s # fs) = insert a (set_tree s \<union> ctx_addrs fs)"

fun ctx_distinct :: "frame list \<Rightarrow> bool" where
  "ctx_distinct [] = True"
| "ctx_distinct (Fr d a s # fs) \<longleftrightarrow> a \<notin> set_tree s \<and> a \<notin> ctx_addrs fs \<and>
     set_tree s \<inter> ctx_addrs fs = {} \<and> distinct (inorder s) \<and> ctx_distinct fs"

text \<open>
  \<open>ctx h root p par w k fs\<close>: the frames \<open>fs\<close> lead from \<open>root\<close> to the pointer \<open>p\<close>, whose
  parent is \<open>par\<close> and child index \<open>w\<close>, and their balances are right for a subtree of height \<open>k\<close>.
\<close>

fun ctx :: "'a store \<Rightarrow> addr option \<Rightarrow> addr option \<Rightarrow> addr option \<Rightarrow> child \<Rightarrow> nat \<Rightarrow> frame list \<Rightarrow> bool" where
  "ctx h root p par w k [] \<longleftrightarrow> root = p \<and> par = None"
| "ctx h root p par w k (Fr d a s # fs) \<longleftrightarrow> par = Some a \<and> w = d \<and> d \<noteq> NONE \<and>
     (\<exists>n. h a = Some n \<and> m_children n d = p \<and>
        avl_at h (Some a) (other d) (m_children n (other d)) s \<and>
        m_balance n = child2balance d * (int k - int (height s)) \<and> \<bar>m_balance n\<bar> \<le> 1 \<and>
        ctx h root (Some a) (m_parent n) (m_which_child n) (Suc (max k (height s))) fs)"

lemma other_other [simp]: "other (other d) = d"
  by (cases d) auto

lemma other_neq [simp]: "d \<noteq> NONE \<Longrightarrow> other d \<noteq> d" "d \<noteq> NONE \<Longrightarrow> d \<noteq> other d"
  by (cases d; simp)+

lemma other_NONE [simp]: "other d = NONE \<longleftrightarrow> d = NONE"
  by (cases d) auto

lemma child2balance_simps [simp]:
  "child2balance (other d) = - child2balance d" "child2balance d = 0 \<longleftrightarrow> d = NONE"
  "d \<noteq> NONE \<Longrightarrow> child2balance d * child2balance d = 1"
  "d \<noteq> NONE \<Longrightarrow> \<bar>child2balance d\<bar> = 1"
  by (cases d; simp)+

lemma set_join [simp]: "set_tree (join d t a s) = insert a (set_tree t \<union> set_tree s)"
  by (cases d) auto

lemma height_join [simp]: "height (join d t a s) = Suc (max (height t) (height s))"
  by (cases d) auto

lemma join_neq_Leaf [simp]: "join d t a s \<noteq> Leaf"
  by (cases d) auto

lemma Node_join: "Node l a r = join d (if d = RIGHT then r else l) a (if d = RIGHT then l else r)"
  by (cases d) auto

lemma join_exhaust:
  assumes "t \<noteq> Leaf"
  obtains l a r where "t = join d l a r"
  using assms Node_join that by (cases t) blast+

lemma set_plug [simp]: "set_tree (plug t fs) = set_tree t \<union> ctx_addrs fs"
  by (induction t fs rule: plug.induct) auto

fun pre :: "frame list \<Rightarrow> addr list" where
  "pre [] = []"
| "pre (Fr d a s # fs) = (if d = RIGHT then pre fs @ inorder s @ [a] else pre fs)"

fun post :: "frame list \<Rightarrow> addr list" where
  "post [] = []"
| "post (Fr d a s # fs) = (if d = RIGHT then post fs else a # inorder s @ post fs)"

lemma inorder_join:
  "inorder (join d t a s) = (if d = RIGHT then inorder s @ a # inorder t else inorder t @ a # inorder s)"
  by (cases d) auto

lemma inorder_plug: "inorder (plug t fs) = pre fs @ inorder t @ post fs"
  by (induction t fs rule: plug.induct) (auto simp: inorder_join)

lemma set_pre_post: "set (pre fs) \<union> set (post fs) = ctx_addrs fs"
  by (induction fs rule: pre.induct) auto

lemma distinct_plug:
  "distinct (inorder (plug t fs)) \<longleftrightarrow>
     distinct (inorder t) \<and> ctx_distinct fs \<and> set_tree t \<inter> ctx_addrs fs = {}"
proof (induction t fs rule: plug.induct)
  case (2 t d a s fs)
  then show ?case by (cases d) (auto simp: inorder_join)
qed simp

subsection \<open>The store outside a tree does not matter\<close>

lemma avl_at_cong:
  "(\<And>x. x \<in> set_tree t \<Longrightarrow> h x = h' x) \<Longrightarrow> avl_at h par w p t = avl_at h' par w p t"
  by (induction t arbitrary: par w p) auto

lemma ctx_cong:
  "(\<And>x. x \<in> ctx_addrs fs \<Longrightarrow> h x = h' x) \<Longrightarrow>
     ctx h root p par w k fs = ctx h' root p par w k fs"
proof (induction h root p par w k fs rule: ctx.induct)
  case (2 h root p par w k d a s fs)
  have "avl_at h (Some a) (other d) q s = avl_at h' (Some a) (other d) q s" for q
    by (rule avl_at_cong) (simp add: 2)
  with 2 show ?case by auto
qed simp

lemma avl_at_upd [simp]: "a \<notin> set_tree t \<Longrightarrow> avl_at (h(a := v)) par w p t = avl_at h par w p t"
  by (rule avl_at_cong) auto

lemma ctx_upd [simp]: "a \<notin> ctx_addrs fs \<Longrightarrow> ctx (h(a := v)) root p par w k fs = ctx h root p par w k fs"
  by (rule ctx_cong) auto

lemma avl_at_live: "avl_at h par w p t \<Longrightarrow> x \<in> set_tree t \<Longrightarrow> h x \<noteq> None"
  by (induction t arbitrary: par w p) auto

lemma ctx_live: "ctx h root p par w k fs \<Longrightarrow> x \<in> ctx_addrs fs \<Longrightarrow> h x \<noteq> None"
  by (induction h root p par w k fs rule: ctx.induct) (auto dest: avl_at_live)

lemma avl_at_None: "avl_at h par w None t \<longleftrightarrow> t = Leaf"
  by (cases t) auto

lemma avl_at_Some: "avl_at h par w (Some a) t \<Longrightarrow> \<exists>l r. t = Node l a r"
  by (cases t) auto

subsection \<open>Opening a tree at a position\<close>

lemma avl_at_join:
  assumes "d \<noteq> NONE"
  shows "avl_at h par w p (join d t a s) \<longleftrightarrow> p = Some a \<and> (\<exists>n. h a = Some n \<and>
     m_parent n = par \<and> m_which_child n = w \<and>
     m_balance n = child2balance d * (int (height t) - int (height s)) \<and> \<bar>m_balance n\<bar> \<le> 1 \<and>
     avl_at h (Some a) d (m_children n d) t \<and>
     avl_at h (Some a) (other d) (m_children n (other d)) s)"
  using assms by (cases d) auto

lemma plug_avl_at:
  assumes "ctx h root p par w (height t) fs" "avl_at h par w p t"
  shows "\<exists>w'. avl_at h None w' root (plug t fs)"
  using assms
proof (induction t fs arbitrary: p par w rule: plug.induct)
  case (2 t d a s fs)
  from "2.prems" obtain n where n: "h a = Some n" "m_children n d = p" "par = Some a" "w = d" "d \<noteq> NONE"
    "avl_at h (Some a) (other d) (m_children n (other d)) s"
    "m_balance n = child2balance d * (int (height t) - int (height s))" "\<bar>m_balance n\<bar> \<le> 1"
    and c: "ctx h root (Some a) (m_parent n) (m_which_child n) (height (join d t a s)) fs"
    by auto
  have "avl_at h (m_parent n) (m_which_child n) (Some a) (join d t a s)"
    using n "2.prems" by (simp add: avl_at_join)
  from "2.IH"[OF c this] show ?case by simp
qed auto

lemma avl_at_plug:
  assumes "avl_at h None w root (plug t fs)" "\<forall>f \<in> set fs. \<forall>d a s. f = Fr d a s \<longrightarrow> d \<noteq> NONE"
  shows "\<exists>p par w'. avl_at h par w' p t \<and> ctx h root p par w' (height t) fs"
  using assms
proof (induction t fs rule: plug.induct)
  case (2 t d a s fs)
  then obtain p par w' where IH: "avl_at h par w' p (join d t a s)"
    "ctx h root p par w' (height (join d t a s)) fs" by auto
  have d: "d \<noteq> NONE" using "2.prems" by auto
  from IH(1)[unfolded avl_at_join[OF d]] obtain n where
    n: "p = Some a" "h a = Some n" "m_parent n = par" "m_which_child n = w'"
    "m_balance n = child2balance d * (int (height t) - int (height s))" "\<bar>m_balance n\<bar> \<le> 1"
    "avl_at h (Some a) d (m_children n d) t"
    "avl_at h (Some a) (other d) (m_children n (other d)) s" by auto
  have "avl_at h (Some a) d (m_children n d) t \<and>
      ctx h root (m_children n d) (Some a) d (height t) (Fr d a s # fs)"
    using n d IH(2) by simp
  then show ?case by blast
qed auto

text \<open>Every address of a tree is the root of a subtree in some context.\<close>

lemma position_exists:
  "a \<in> set_tree T \<Longrightarrow> \<exists>l r fs. T = plug (Node l a r) fs \<and>
     (\<forall>f \<in> set fs. \<forall>d b s. f = Fr d b s \<longrightarrow> d \<noteq> NONE)"
proof (induction T)
  case (Node T1 b T2)
  have plug_app: "plug t (fs @ gs) = plug (plug t fs) gs" for t fs gs
    by (induction t fs rule: plug.induct) auto
  consider "a = b" | "a \<in> set_tree T1" | "a \<in> set_tree T2" using Node.prems by auto
  then show ?case
  proof cases
    case 1
    then have "Node T1 b T2 = plug (Node T1 a T2) []" by simp
    then show ?thesis by (metis empty_iff list.set(1))
  next
    case 2
    then obtain l r fs where IH: "T1 = plug (Node l a r) fs"
      "\<forall>f \<in> set fs. \<forall>d b s. f = Fr d b s \<longrightarrow> d \<noteq> NONE" using Node.IH by blast
    then have "Node T1 b T2 = plug (Node l a r) (fs @ [Fr LEFT b T2])" by (simp add: plug_app)
    moreover have "\<forall>f \<in> set (fs @ [Fr LEFT b T2]). \<forall>d b s. f = Fr d b s \<longrightarrow> d \<noteq> NONE"
      using IH(2) by auto
    ultimately show ?thesis by blast
  next
    case 3
    then obtain l r fs where IH: "T2 = plug (Node l a r) fs"
      "\<forall>f \<in> set fs. \<forall>d b s. f = Fr d b s \<longrightarrow> d \<noteq> NONE" using Node.IH by blast
    then have "Node T1 b T2 = plug (Node l a r) (fs @ [Fr RIGHT b T1])" by (simp add: plug_app)
    moreover have "\<forall>f \<in> set (fs @ [Fr RIGHT b T1]). \<forall>d b s. f = Fr d b s \<longrightarrow> d \<noteq> NONE"
      using IH(2) by auto
    ultimately show ?thesis by blast
  qed
qed simp

section \<open>The assignments on a live address\<close>

lemma modify_live [heap_simps]:
  "m_heap t a = Some n \<Longrightarrow> modify t a f = Some (t\<lparr>m_heap := (m_heap t)(a \<mapsto> f n)\<rparr>)"
  by (simp add: modify_def)

lemma set_child_live [heap_simps]:
  "m_heap t a = Some n \<Longrightarrow> c \<noteq> NONE \<Longrightarrow> set_child t a c p =
     Some (t\<lparr>m_heap := (m_heap t)(a \<mapsto> n\<lparr>m_children := (m_children n)(c := p)\<rparr>)\<rparr>)"
  by (simp add: set_child_def heap_simps)

lemma set_parent_live [heap_simps]:
  "m_heap t a = Some n \<Longrightarrow> set_parent t a p = Some (t\<lparr>m_heap := (m_heap t)(a \<mapsto> n\<lparr>m_parent := p\<rparr>)\<rparr>)"
  by (simp add: set_parent_def heap_simps)

lemma set_which_live [heap_simps]:
  "m_heap t a = Some n \<Longrightarrow> set_which t a c = Some (t\<lparr>m_heap := (m_heap t)(a \<mapsto> n\<lparr>m_which_child := c\<rparr>)\<rparr>)"
  by (simp add: set_which_def heap_simps)

lemma set_balance_live [heap_simps]:
  "m_heap t a = Some n \<Longrightarrow> set_balance t a b = Some (t\<lparr>m_heap := (m_heap t)(a \<mapsto> n\<lparr>m_balance := b\<rparr>)\<rparr>)"
  by (simp add: set_balance_def heap_simps)

lemma set_data_live [heap_simps]:
  "m_heap t a = Some n \<Longrightarrow> set_data t a f = Some (t\<lparr>m_heap := (m_heap t)(a \<mapsto> n\<lparr>m_data := f (m_data n)\<rparr>)\<rparr>)"
  by (simp add: set_data_def heap_simps)

text \<open>
  \<open>adopt\<close> and \<open>link_parent\<close> on a tree of the store: the tree they attach gets its new
  parent and index, the frames get the new pointer, and nothing else changes.
\<close>

definition same_but :: "addr set \<Rightarrow> 'a avltree \<Rightarrow> 'a avltree \<Rightarrow> bool" where
  "same_but A t t' \<longleftrightarrow> (\<forall>x. x \<notin> A \<longrightarrow> m_heap t' x = m_heap t x) \<and> data_of t' = data_of t \<and>
     m_num_nodes t' = m_num_nodes t \<and> m_brk t' = m_brk t \<and> m_deleter t' = m_deleter t"

lemma same_but_refl [simp]: "same_but A t t"
  by (simp add: same_but_def)

lemma same_but_trans:
  "same_but A t t' \<Longrightarrow> same_but B t' t'' \<Longrightarrow> A \<subseteq> C \<Longrightarrow> B \<subseteq> C \<Longrightarrow> same_but C t t''"
  by (auto simp: same_but_def) (metis subsetD)

lemma same_but_live: "same_but A t t' \<Longrightarrow> m_heap t' x = None \<longleftrightarrow> m_heap t x = None"
  unfolding same_but_def data_of_def by (metis map_option_is_None)

end
