(* ===== verification/Avl_Rotation.thy ===== *)
theory Avl_Rotation
  imports Avl_Shape
begin

text \<open>
  Rotation re-balances a subtree whose two sides differ by two in height: it keeps
  the order and the payloads, links the subtree back into its context and reports
  whether the subtree got shorter.
\<close>

lemma same_but_set_heap:
  "m_heap t a = Some n \<Longrightarrow> m_data n' = m_data n \<Longrightarrow> a \<in> A \<Longrightarrow>
     same_but A t (t\<lparr>m_heap := (m_heap t)(a \<mapsto> n')\<rparr>)"
  by (auto simp: same_but_def data_of_def fun_eq_iff)

lemma same_but_root [simp]: "same_but A t (t\<lparr>m_root := p\<rparr>)"
  by (simp add: same_but_def data_of_def fun_eq_iff)

lemma link_parent_ctx:
  assumes "ctx (m_heap t) (m_root t) p par w k fs" "ctx_distinct fs"
  shows "\<exists>t'. link_parent t par w q = Some t' \<and> ctx (m_heap t') (m_root t') q par w k fs \<and>
    same_but (ctx_addrs fs) t t'"
proof (cases fs)
  case Nil
  then show ?thesis using assms by (simp add: link_parent_def)
next
  case (Cons f gs)
  obtain d a s where f: "f = Fr d a s" by (cases f)
  from assms Cons f obtain n where n: "m_heap t a = Some n" "par = Some a" "w = d" "d \<noteq> NONE" by auto
  have "link_parent t par w q =
      Some (t\<lparr>m_heap := (m_heap t)(a \<mapsto> n\<lparr>m_children := (m_children n)(d := q)\<rparr>)\<rparr>)"
    using n by (simp add: link_parent_def heap_simps)
  moreover have "same_but (ctx_addrs fs) t
      (t\<lparr>m_heap := (m_heap t)(a \<mapsto> n\<lparr>m_children := (m_children n)(d := q)\<rparr>)\<rparr>)"
    using n Cons f by (intro same_but_set_heap) auto
  moreover have "ctx ((m_heap t)(a \<mapsto> n\<lparr>m_children := (m_children n)(d := q)\<rparr>)) (m_root t) q par w k fs"
    using assms Cons f n by auto
  ultimately show ?thesis by simp
qed

lemma adopt_avl_at:
  assumes "avl_at (m_heap t) par w p s" "distinct (inorder s)"
  shows "\<exists>t'. adopt t p b c = Some t' \<and> avl_at (m_heap t') (Some b) c p s \<and>
    same_but (set_tree s) t t' \<and> m_root t' = m_root t"
proof (cases s)
  case Leaf
  then show ?thesis using assms by (simp add: adopt_def)
next
  case (Node l a r)
  with assms obtain n where n: "m_heap t a = Some n" "p = Some a" by auto
  let ?t = "t\<lparr>m_heap := (m_heap t)(a \<mapsto> n\<lparr>m_parent := Some b, m_which_child := c\<rparr>)\<rparr>"
  have "adopt t p b c = Some ?t" using n by (simp add: adopt_def heap_simps)
  moreover have "same_but (set_tree s) t ?t"
    using n Node by (intro same_but_set_heap) auto
  moreover have "avl_at (m_heap ?t) (Some b) c p s" using assms Node n by auto
  ultimately show ?thesis by simp
qed

lemma rotation_side:
  assumes "d \<noteq> NONE" "balance = 2 * child2balance d"
  shows "(if balance < 0 then LEFT else RIGHT) = d" "balance div 2 = child2balance d"
  using assms by (cases d; simp)+

lemma same_but_heap:
  "same_but A t t' \<Longrightarrow> x \<notin> A \<Longrightarrow> m_heap t' x = m_heap t x"
  by (simp add: same_but_def)

lemma avl_at_same_but:
  "same_but A t t' \<Longrightarrow> A \<inter> set_tree s = {} \<Longrightarrow> avl_at (m_heap t') par w p s = avl_at (m_heap t) par w p s"
  by (rule avl_at_cong) (auto simp: same_but_def)

lemma ctx_same_but:
  "same_but A t t' \<Longrightarrow> A \<inter> ctx_addrs fs = {} \<Longrightarrow>
     ctx (m_heap t') root p par w k fs = ctx (m_heap t) root p par w k fs"
  by (rule ctx_cong) (auto simp: same_but_def)

lemma rotation_single:
  fixes t :: "'a avltree"
  assumes d: "d \<noteq> NONE" "balance = 2 * child2balance d"
    and nd: "m_heap t a = Some nd" "m_children nd d = Some c"
    and ch: "m_heap t c = Some ch" "m_parent ch = Some a" "m_which_child ch = d"
      "m_balance ch = child2balance d * (int (height C1) - int (height C2))"
      "\<bar>int (height C1) - int (height C2)\<bar> \<le> 1" "m_balance ch \<noteq> - child2balance d"
    and C1: "avl_at (m_heap t) (Some c) d (m_children ch d) C1"
    and C2: "avl_at (m_heap t) (Some c) (other d) (m_children ch (other d)) C2"
    and S: "avl_at (m_heap t) (Some a) (other d) (m_children nd (other d)) S"
    and k: "ctx (m_heap t) (m_root t) (Some a) (m_parent nd) (m_which_child nd) k fs"
    and h: "height (join d C1 c C2) = height S + 2"
    and dist: "distinct (inorder (plug (join d (join d C1 c C2) a S) fs))"
  shows "\<exists>b t'. rotation t a balance = Some (b, t') \<and>
    avl_at (m_heap t') (m_parent nd) (m_which_child nd) (Some c) (join d C1 c (join (other d) S a C2)) \<and>
    ctx (m_heap t') (m_root t') (Some c) (m_parent nd) (m_which_child nd) k fs \<and>
    (b \<longleftrightarrow> m_balance ch \<noteq> 0) \<and>
    height (join d C1 c (join (other d) S a C2)) = height S + (if b then 2 else 3) \<and>
    same_but (insert a (insert c (set_tree C1 \<union> set_tree C2 \<union> ctx_addrs fs))) t t'"
proof -
  note side = rotation_side[OF d]
  from dist have ds: "a \<noteq> c" "a \<notin> set_tree C1" "a \<notin> set_tree C2" "a \<notin> set_tree S"
    "c \<notin> set_tree C1" "c \<notin> set_tree C2" "c \<notin> set_tree S" "set_tree C1 \<inter> set_tree C2 = {}"
    "set_tree C2 \<inter> set_tree S = {}" "set_tree C1 \<inter> set_tree S = {}" "distinct (inorder C2)"
    "a \<notin> ctx_addrs fs" "c \<notin> ctx_addrs fs" "set_tree C1 \<inter> ctx_addrs fs = {}"
    "set_tree C2 \<inter> ctx_addrs fs = {}" "set_tree S \<inter> ctx_addrs fs = {}" "ctx_distinct fs"
    unfolding distinct_plug by (cases d; auto simp: inorder_join)+
  let ?cb = "m_balance ch - child2balance d"
  let ?p2 = "m_children ch (other d)"
  let ?nd1 = "nd\<lparr>m_children := (m_children nd)(d := ?p2)\<rparr>"
  let ?t1 = "t\<lparr>m_heap := (m_heap t)(a \<mapsto> ?nd1)\<rparr>"
  have C2': "avl_at (m_heap ?t1) (Some c) (other d) ?p2 C2" using C2 ds by simp
  from adopt_avl_at[OF C2' ds(11)] obtain t2 where t2: "adopt ?t1 ?p2 a d = Some t2"
    "avl_at (m_heap t2) (Some a) d ?p2 C2" "same_but (set_tree C2) ?t1 t2" "m_root t2 = m_root t"
    by fastforce
  have h2: "m_heap t2 a = Some ?nd1" "m_heap t2 c = Some ch"
    using same_but_heap[OF t2(3)] ds ch by auto
  let ?nd2 = "?nd1\<lparr>m_balance := - ?cb, m_parent := Some c, m_which_child := other d\<rparr>"
  let ?ch2 = "ch\<lparr>m_children := (m_children ch)(other d := Some a), m_balance := ?cb,
     m_which_child := m_which_child nd, m_parent := m_parent nd\<rparr>"
  let ?t3 = "t2\<lparr>m_heap := (m_heap t2)(a \<mapsto> ?nd2, c \<mapsto> ?ch2)\<rparr>"
  have sb3: "same_but (insert a (insert c (set_tree C2))) t ?t3"
    using t2(3) nd ch h2 unfolding same_but_def data_of_def by (auto simp: fun_eq_iff)
  have k3: "ctx (m_heap ?t3) (m_root ?t3) (Some a) (m_parent nd) (m_which_child nd) k fs"
    using k ctx_same_but[OF sb3] ds t2(4) by auto
  from link_parent_ctx[OF this ds(17)] obtain t' where
    t': "link_parent ?t3 (m_parent nd) (m_which_child nd) (Some c) = Some t'"
    "ctx (m_heap t') (m_root t') (Some c) (m_parent nd) (m_which_child nd) k fs"
    "same_but (ctx_addrs fs) ?t3 t'" by blast
  have run: "rotation t a balance = Some (?cb = 0, t')"
    unfolding rotation_def Let_def side
    using nd ch d h2 ds t2(1) t'(1) by (simp add: heap_simps fun_upd_twist)
  have at: "avl_at (m_heap t') (m_parent nd) (m_which_child nd) (Some c) (join d C1 c (join (other d) S a C2))"
  proof -
    have "avl_at (m_heap ?t3) (Some c) d (m_children ?ch2 d) C1"
      using C1 d by (subst avl_at_same_but[OF sb3]) (use ds in auto)
    moreover have "avl_at (m_heap ?t3) (Some a) (other d) (m_children ?nd2 (other d)) S"
      using S d by (subst avl_at_same_but[OF sb3]) (use ds in auto)
    moreover have "avl_at (m_heap ?t3) (Some a) d (m_children ?nd2 d) C2"
      using t2(2) ds by simp
    ultimately have "avl_at (m_heap ?t3) (m_parent nd) (m_which_child nd) (Some c) (join d C1 c (join (other d) S a C2))"
      using ds d h ch(4-6) by (cases d) auto
    then show ?thesis by (subst avl_at_same_but[OF t'(3)]) (use ds in auto)
  qed
  have "same_but (insert a (insert c (set_tree C1 \<union> set_tree C2 \<union> ctx_addrs fs))) t t'"
    by (rule same_but_trans[OF sb3 t'(3)]) auto
  moreover have "?cb = 0 \<longleftrightarrow> m_balance ch \<noteq> 0" using ch d by (cases d) auto
  moreover have "height (join d C1 c (join (other d) S a C2)) = height S + (if ?cb = 0 then 2 else 3)"
    using h ch(4-6) d by (cases d) auto
  ultimately show ?thesis using run at t'(2) by blast
qed

lemma rotation_double:
  fixes t :: "'a avltree"
  assumes d: "d \<noteq> NONE" "balance = 2 * child2balance d"
    and nd: "m_heap t a = Some nd" "m_children nd d = Some c"
    and ch: "m_heap t c = Some ch" "m_children ch (other d) = Some g" "m_balance ch = - child2balance d"
    and gc: "m_heap t g = Some gc" "m_balance gc = child2balance d * (int (height G1) - int (height G2))"
      "\<bar>int (height G1) - int (height G2)\<bar> \<le> 1"
    and C1: "avl_at (m_heap t) (Some c) d (m_children ch d) C1"
    and G1: "avl_at (m_heap t) (Some g) d (m_children gc d) G1"
    and G2: "avl_at (m_heap t) (Some g) (other d) (m_children gc (other d)) G2"
    and S: "avl_at (m_heap t) (Some a) (other d) (m_children nd (other d)) S"
    and k: "ctx (m_heap t) (m_root t) (Some a) (m_parent nd) (m_which_child nd) k fs"
    and h: "height C1 = height S" "Suc (max (height G1) (height G2)) = Suc (height S)"
    and dist: "distinct (inorder (plug (join d (join d C1 c (join d G1 g G2)) a S) fs))"
  shows "\<exists>t'. rotation t a balance = Some (True, t') \<and>
    avl_at (m_heap t') (m_parent nd) (m_which_child nd) (Some g)
      (join d (join d C1 c G1) g (join (other d) S a G2)) \<and>
    ctx (m_heap t') (m_root t') (Some g) (m_parent nd) (m_which_child nd) k fs \<and>
    height (join d (join d C1 c G1) g (join (other d) S a G2)) = height S + 2 \<and>
    same_but (insert a (insert c (insert g (set_tree C1 \<union> set_tree G1 \<union> set_tree G2 \<union> ctx_addrs fs)))) t t'"
proof -
  note side = rotation_side[OF d]
  from dist have ds: "distinct (inorder G1)" "distinct (inorder G2)" "ctx_distinct fs"
    "a \<noteq> c" "a \<noteq> g" "c \<noteq> g" "{a, c, g} \<inter> (set_tree C1 \<union> set_tree G1 \<union> set_tree G2 \<union> set_tree S \<union> ctx_addrs fs) = {}"
    "set_tree C1 \<inter> (set_tree G1 \<union> set_tree G2 \<union> set_tree S \<union> ctx_addrs fs) = {}"
    "set_tree G1 \<inter> (set_tree G2 \<union> set_tree S \<union> ctx_addrs fs) = {}"
    "set_tree G2 \<inter> (set_tree S \<union> ctx_addrs fs) = {}" "set_tree S \<inter> ctx_addrs fs = {}"
    unfolding distinct_plug by (cases d; auto simp: inorder_join)+
  let ?gl = "m_children gc d" and ?gr = "m_children gc (other d)"
  let ?nd1 = "nd\<lparr>m_children := (m_children nd)(d := ?gr)\<rparr>"
  let ?t1 = "t\<lparr>m_heap := (m_heap t)(a \<mapsto> ?nd1)\<rparr>"
  have "avl_at (m_heap ?t1) (Some g) (other d) ?gr G2" using G2 ds by simp
  from adopt_avl_at[OF this ds(2)] obtain t2 where t2: "adopt ?t1 ?gr a d = Some t2"
    "avl_at (m_heap t2) (Some a) d ?gr G2" "same_but (set_tree G2) ?t1 t2" "m_root t2 = m_root t"
    by fastforce
  have h2: "m_heap t2 a = Some ?nd1" "m_heap t2 c = Some ch" "m_heap t2 g = Some gc"
    using same_but_heap[OF t2(3)] ds ch gc by auto
  let ?ch1 = "ch\<lparr>m_children := (m_children ch)(other d := ?gl)\<rparr>"
  let ?t3 = "t2\<lparr>m_heap := (m_heap t2)(c \<mapsto> ?ch1)\<rparr>"
  have sb3: "same_but (insert a (insert c (set_tree G2))) t ?t3"
    using t2(3) nd ch h2 unfolding same_but_def data_of_def by (auto simp: fun_eq_iff)
  have "avl_at (m_heap ?t3) (Some g) d ?gl G1"
    using G1 by (subst avl_at_same_but[OF sb3]) (use ds in auto)
  from adopt_avl_at[OF this ds(1)] obtain t4 where t4: "adopt ?t3 ?gl c (other d) = Some t4"
    "avl_at (m_heap t4) (Some c) (other d) ?gl G1" "same_but (set_tree G1) ?t3 t4" "m_root t4 = m_root t"
    using t2(4) by fastforce
  have h4: "m_heap t4 a = Some ?nd1" "m_heap t4 c = Some ?ch1" "m_heap t4 g = Some gc"
    using same_but_heap[OF t4(3)] ds h2 by auto
  have sb4: "same_but (insert a (insert c (set_tree G1 \<union> set_tree G2))) t t4"
    by (rule same_but_trans[OF sb3 t4(3)]) auto
  let ?ch2 = "?ch1\<lparr>m_balance := (if m_balance gc = - child2balance d then child2balance d else 0),
      m_parent := Some g, m_which_child := d\<rparr>"
  let ?nd2 = "?nd1\<lparr>m_balance := (if m_balance gc = child2balance d then - child2balance d else 0),
      m_parent := Some g, m_which_child := other d\<rparr>"
  let ?gc2 = "gc\<lparr>m_children := (m_children gc)(d := Some c, other d := Some a), m_balance := 0,
      m_parent := m_parent nd, m_which_child := m_which_child nd\<rparr>"
  let ?t5 = "t4\<lparr>m_heap := (m_heap t4)(c \<mapsto> ?ch2, a \<mapsto> ?nd2, g \<mapsto> ?gc2)\<rparr>"
  have sb5: "same_but (insert a (insert c (insert g (set_tree G1 \<union> set_tree G2)))) t ?t5"
    using sb4 nd ch gc h4 unfolding same_but_def data_of_def by (auto simp: fun_eq_iff)
  have k5: "ctx (m_heap ?t5) (m_root ?t5) (Some a) (m_parent nd) (m_which_child nd) k fs"
    using k t4(4) by (subst ctx_same_but[OF sb5]) (use ds in auto)
  from link_parent_ctx[OF this ds(3)] obtain t' where
    t': "link_parent ?t5 (m_parent nd) (m_which_child nd) (Some g) = Some t'"
    "ctx (m_heap t') (m_root t') (Some g) (m_parent nd) (m_which_child nd) k fs"
    "same_but (ctx_addrs fs) ?t5 t'" by blast
  have run: "rotation t a balance = Some (True, t')"
    unfolding rotation_def Let_def side
    using nd ch gc d h2 h4 ds t2(1) t4(1) t'(1) by (simp add: heap_simps fun_upd_twist)
  have at: "avl_at (m_heap t') (m_parent nd) (m_which_child nd) (Some g)
      (join d (join d C1 c G1) g (join (other d) S a G2))"
  proof -
    have "avl_at (m_heap ?t5) (Some c) d (m_children ?ch2 d) C1"
      using C1 d by (subst avl_at_same_but[OF sb5]) (use ds in auto)
    moreover have "avl_at (m_heap ?t5) (Some a) (other d) (m_children ?nd2 (other d)) S"
      using S d by (subst avl_at_same_but[OF sb5]) (use ds in auto)
    moreover have "avl_at (m_heap ?t5) (Some c) (other d) (m_children ?ch2 (other d)) G1"
      using t4(2) ds by simp
    moreover have "avl_at (m_heap ?t5) (Some a) d (m_children ?nd2 d) G2"
      using t2(2) ds avl_at_same_but[OF t4(3), of G2] by (simp add: Int_Un_distrib)
    ultimately have "avl_at (m_heap ?t5) (m_parent nd) (m_which_child nd) (Some g)
        (join d (join d C1 c G1) g (join (other d) S a G2))"
      using ds d h gc(2,3) by (cases d) auto
    then show ?thesis by (subst avl_at_same_but[OF t'(3)]) (use ds in auto)
  qed
  have "same_but (insert a (insert c (insert g (set_tree C1 \<union> set_tree G1 \<union> set_tree G2 \<union> ctx_addrs fs)))) t t'"
    by (rule same_but_trans[OF sb5 t'(3)]) auto
  moreover have "height (join d (join d C1 c G1) g (join (other d) S a G2)) = height S + 2"
    using h gc(3) by auto
  ultimately show ?thesis using run at t'(2) by blast
qed

text \<open>Both cases together, as the clients of \<open>rotation\<close> use them.\<close>

lemma rotation_ok:
  fixes t :: "'a avltree"
  assumes d: "d \<noteq> NONE" "balance = 2 * child2balance d"
    and nd: "m_heap t a = Some nd"
    and L: "avl_at (m_heap t) (Some a) d (m_children nd d) L"
    and S: "avl_at (m_heap t) (Some a) (other d) (m_children nd (other d)) S"
    and k: "ctx (m_heap t) (m_root t) (Some a) (m_parent nd) (m_which_child nd) k fs"
    and h: "height L = height S + 2"
    and dist: "distinct (inorder (plug (join d L a S) fs))"
  shows "\<exists>b t' T p. rotation t a balance = Some (b, t') \<and>
    avl_at (m_heap t') (m_parent nd) (m_which_child nd) p T \<and>
    ctx (m_heap t') (m_root t') p (m_parent nd) (m_which_child nd) k fs \<and>
    inorder T = inorder (join d L a S) \<and> height T = height S + (if b then 2 else 3) \<and>
    (\<forall>c ch. m_children nd d = Some c \<longrightarrow> m_heap t c = Some ch \<longrightarrow> m_balance ch \<noteq> 0 \<longrightarrow> b) \<and>
    same_but (insert a (set_tree L \<union> ctx_addrs fs)) t t'"
proof -
  from h have "L \<noteq> Leaf" by auto
  then obtain C1 c C2 where LL: "L = join d C1 c C2"
    by (rule join_exhaust)
  from L[unfolded LL avl_at_join[OF d(1)]] obtain ch where
    c: "m_children nd d = Some c" "m_heap t c = Some ch" "m_parent ch = Some a" "m_which_child ch = d"
      "m_balance ch = child2balance d * (int (height C1) - int (height C2))" "\<bar>m_balance ch\<bar> \<le> 1"
      "avl_at (m_heap t) (Some c) d (m_children ch d) C1"
      "avl_at (m_heap t) (Some c) (other d) (m_children ch (other d)) C2" by auto
  have hc: "\<bar>int (height C1) - int (height C2)\<bar> \<le> 1" using c d by (cases d) auto
  show ?thesis
  proof (cases "m_balance ch = - child2balance d")
    case False
    have hJ: "height (join d C1 c C2) = height S + 2" using h LL by simp
    from rotation_single[OF d nd c(1,2,3,4,5) hc False c(7,8) S k hJ dist[unfolded LL]]
    obtain b t' where *: "rotation t a balance = Some (b, t')"
      "avl_at (m_heap t') (m_parent nd) (m_which_child nd) (Some c) (join d C1 c (join (other d) S a C2))"
      "ctx (m_heap t') (m_root t') (Some c) (m_parent nd) (m_which_child nd) k fs"
      "b \<longleftrightarrow> m_balance ch \<noteq> 0"
      "height (join d C1 c (join (other d) S a C2)) = height S + (if b then 2 else 3)"
      "same_but (insert a (insert c (set_tree C1 \<union> set_tree C2 \<union> ctx_addrs fs))) t t'" by blast
    have "inorder (join d C1 c (join (other d) S a C2)) = inorder (join d L a S)"
      using d LL by (cases d) (auto simp: inorder_join)
    moreover have "insert a (insert c (set_tree C1 \<union> set_tree C2 \<union> ctx_addrs fs)) =
        insert a (set_tree L \<union> ctx_addrs fs)" using LL by auto
    ultimately show ?thesis using * c(1,2)
      by (intro exI[of _ b] exI[of _ t'] exI[of _ "join d C1 c (join (other d) S a C2)"] exI[of _ "Some c"])
        (simp del: height_join)
  next
    case True
    have "C2 \<noteq> Leaf" using True c d h LL by (cases d) auto
    then obtain G1 g G2 where C2: "C2 = join d G1 g G2"
      by (rule join_exhaust)
    from c(8)[unfolded C2 avl_at_join[OF d(1)]] obtain gc where
      g: "m_children ch (other d) = Some g" "m_heap t g = Some gc"
        "m_balance gc = child2balance d * (int (height G1) - int (height G2))" "\<bar>m_balance gc\<bar> \<le> 1"
        "avl_at (m_heap t) (Some g) d (m_children gc d) G1"
        "avl_at (m_heap t) (Some g) (other d) (m_children gc (other d)) G2" by auto
    have hg: "\<bar>int (height G1) - int (height G2)\<bar> \<le> 1" using g d by (cases d) auto
    have hS: "height C1 = height S" "Suc (max (height G1) (height G2)) = Suc (height S)"
      using True c h LL C2 d by (cases d; auto)+
    from rotation_double[OF d nd c(1,2) g(1) True g(2,3) hg c(7) g(5,6) S k hS dist[unfolded LL C2]]
    obtain t' where *: "rotation t a balance = Some (True, t')"
      "avl_at (m_heap t') (m_parent nd) (m_which_child nd) (Some g)
         (join d (join d C1 c G1) g (join (other d) S a G2))"
      "ctx (m_heap t') (m_root t') (Some g) (m_parent nd) (m_which_child nd) k fs"
      "height (join d (join d C1 c G1) g (join (other d) S a G2)) = height S + 2"
      "same_but (insert a (insert c (insert g (set_tree C1 \<union> set_tree G1 \<union> set_tree G2 \<union> ctx_addrs fs)))) t t'"
      by blast
    have "inorder (join d (join d C1 c G1) g (join (other d) S a G2)) = inorder (join d L a S)"
      using d LL C2 by (cases d) (auto simp: inorder_join)
    moreover have "insert a (insert c (insert g (set_tree C1 \<union> set_tree G1 \<union> set_tree G2 \<union> ctx_addrs fs)))
        = insert a (set_tree L \<union> ctx_addrs fs)" using LL C2 by auto
    ultimately show ?thesis using *
      by (intro exI[of _ True] exI[of _ t'] exI[of _ "Some g"]
          exI[of _ "join d (join d C1 c G1) g (join (other d) S a G2)"]) (simp del: height_join)
  qed
qed

end
