(* ===== verification/Avl_Insert.thy ===== *)
theory Avl_Insert
  imports Avl_Rotation
begin

text \<open>
  Insertion keeps the tree balanced, puts the new node where the insertion point
  says and leaves every other payload alone.
\<close>

lemma insert_fix_ok:
  fixes t :: "'a avltree"
  assumes "ctx (m_heap t) (m_root t) p par w k fs" "avl_at (m_heap t) par w p T"
    "height T = Suc k" "distinct (inorder (plug T fs))"
    "\<forall>a n. p = Some a \<longrightarrow> m_heap t a = Some n \<longrightarrow> m_balance n = 0 \<longrightarrow> k = 0"
  shows "\<exists>t' T' w'. insert_fix t par w = Some t' \<and> avl_at (m_heap t') None w' (m_root t') T' \<and>
    inorder T' = inorder (plug T fs) \<and> same_but (set_tree T \<union> ctx_addrs fs) t t'"
  using assms
proof (induction fs arbitrary: t T k p par w)
  case Nil
  then show ?case by (auto simp: insert_fix.simps[of t None])
next
  case (Cons f fs)
  obtain d a s where f: "f = Fr d a s" by (cases f)
  from Cons.prems(1) f obtain n where n: "m_heap t a = Some n" "m_children n d = p" "par = Some a"
    "w = d" "d \<noteq> NONE" "avl_at (m_heap t) (Some a) (other d) (m_children n (other d)) s"
    "m_balance n = child2balance d * (int k - int (height s))" "\<bar>m_balance n\<bar> \<le> 1"
    and c: "ctx (m_heap t) (m_root t) (Some a) (m_parent n) (m_which_child n) (Suc (max k (height s))) fs"
    by auto
  have ds: "a \<notin> set_tree T" "a \<notin> set_tree s" "a \<notin> ctx_addrs fs" "set_tree T \<inter> ctx_addrs fs = {}"
    "set_tree s \<inter> ctx_addrs fs = {}" "ctx_distinct fs"
    using Cons.prems(4) f unfolding distinct_plug by auto
  have bd: "\<bar>int k - int (height s)\<bar> \<le> 1" using n by (cases d) auto
  have nb: "m_balance n + child2balance d = child2balance d * (int k + 1 - int (height s))"
    using n by (simp add: algebra_simps)
  let ?t = "\<lambda>b. t\<lparr>m_heap := (m_heap t)(a \<mapsto> n\<lparr>m_balance := b\<rparr>)\<rparr>"
  have sb: "same_but {a} t (?t b)" for b using n by (intro same_but_set_heap) auto
  have ctx': "ctx (m_heap (?t b)) (m_root (?t b)) (Some a) (m_parent n) (m_which_child n) j fs
      \<longleftrightarrow> ctx (m_heap t) (m_root t) (Some a) (m_parent n) (m_which_child n) j fs" for b j
    using ds by simp
  have at: "avl_at (m_heap (?t b)) (m_parent n) (m_which_child n) (Some a) (join d T a s) \<longleftrightarrow>
      b = child2balance d * (int (height T) - int (height s)) \<and> \<bar>b\<bar> \<le> 1" for b
    using n ds Cons.prems(2) unfolding avl_at_join[OF n(5)] by auto
  consider (even) "height s = Suc k" | (rot) "k = Suc (height s)" | (up) "k = height s"
    using bd by linarith
  then show ?case
  proof cases
    case even
    have run: "insert_fix t par w = Some (?t 0)"
      using n nb even by (simp add: insert_fix.simps[of t "Some a" d] heap_simps)
    have "height (join d T a s) = Suc (max k (height s))" using even Cons.prems(3) by simp
    then have c0: "ctx (m_heap (?t 0)) (m_root (?t 0)) (Some a) (m_parent n) (m_which_child n)
        (height (join d T a s)) fs" using c ctx' by simp
    have "avl_at (m_heap (?t 0)) (m_parent n) (m_which_child n) (Some a) (join d T a s)"
      using at[of 0] even Cons.prems(3) by simp
    from plug_avl_at[OF c0 this] obtain w'
      where "avl_at (m_heap (?t 0)) None w' (m_root (?t 0)) (plug (join d T a s) fs)" by blast
    moreover have "same_but (set_tree T \<union> ctx_addrs (f # fs)) t (?t 0)"
      by (rule same_but_trans[OF sb same_but_refl]) (auto simp: f)
    ultimately show ?thesis using run f by auto
  next
    case rot
    have h: "height T = height s + 2" using rot Cons.prems(3) by simp
    have dist: "distinct (inorder (plug (join d T a s) fs))" using Cons.prems(4) f by simp
    have "m_balance n + child2balance d = 2 * child2balance d" using nb rot by simp
    note nb2 = this
    have Ta: "avl_at (m_heap t) (Some a) d (m_children n d) T" using Cons.prems(2) n by simp
    from rotation_ok[OF n(5) refl n(1) Ta n(6) c h dist] obtain b t' T' q where
      r: "rotation t a (2 * child2balance d) = Some (b, t')"
      "avl_at (m_heap t') (m_parent n) (m_which_child n) q T'"
      "ctx (m_heap t') (m_root t') q (m_parent n) (m_which_child n) (Suc (max k (height s))) fs"
      "inorder T' = inorder (join d T a s)" "height T' = height s + (if b then 2 else 3)"
      "\<forall>c ch. m_children n d = Some c \<longrightarrow> m_heap t c = Some ch \<longrightarrow> m_balance ch \<noteq> 0 \<longrightarrow> b"
      "same_but (insert a (set_tree T \<union> ctx_addrs fs)) t t'" by blast
    have "T \<noteq> Leaf" using h by auto
    then obtain x nx where "p = Some x" "m_heap t x = Some nx"
      using Cons.prems(2) by (cases T) auto
    then have b using r(6) n(2) Cons.prems(5) rot by auto
    have run: "insert_fix t par w = Some t'"
      using n nb nb2 rot r(1) by (simp add: insert_fix.simps[of t "Some a" d])
    have "height T' = Suc (max k (height s))" using r(5) \<open>b\<close> rot by simp
    with r(3) have "ctx (m_heap t') (m_root t') q (m_parent n) (m_which_child n) (height T') fs" by simp
    from plug_avl_at[OF this r(2)] obtain w'
      where "avl_at (m_heap t') None w' (m_root t') (plug T' fs)" by blast
    moreover have "inorder (plug T' fs) = inorder (plug T (f # fs))"
      using r(4) f by (simp add: inorder_plug)
    moreover have "same_but (set_tree T \<union> ctx_addrs (f # fs)) t t'"
      by (rule same_but_trans[OF r(7) same_but_refl]) (auto simp: f)
    ultimately show ?thesis using run by blast
  next
    case up
    let ?b = "child2balance d"
    have run: "insert_fix t par w = insert_fix (?t ?b) (m_parent n) (m_which_child n)"
      using n nb up by (simp add: insert_fix.simps[of t "Some a" d] heap_simps)
    have c1: "ctx (m_heap (?t ?b)) (m_root (?t ?b)) (Some a) (m_parent n) (m_which_child n) (Suc k) fs"
      using c ctx' up by simp
    have a1: "avl_at (m_heap (?t ?b)) (m_parent n) (m_which_child n) (Some a) (join d T a s)"
      using at[of ?b] up Cons.prems(3) n(5) by simp
    have h1: "height (join d T a s) = Suc (Suc k)" using up Cons.prems(3) by simp
    have d1: "distinct (inorder (plug (join d T a s) fs))" using Cons.prems(4) f by simp
    have g1: "\<forall>x nx. Some a = Some x \<longrightarrow> m_heap (?t ?b) x = Some nx \<longrightarrow> m_balance nx = 0 \<longrightarrow> Suc k = 0"
      using n(5) by auto
    from Cons.IH[OF c1 a1 h1 d1 g1] obtain t' T' w' where
      r: "insert_fix (?t ?b) (m_parent n) (m_which_child n) = Some t'"
      "avl_at (m_heap t') None w' (m_root t') T'" "inorder T' = inorder (plug (join d T a s) fs)"
      "same_but (set_tree (join d T a s) \<union> ctx_addrs fs) (?t ?b) t'" by blast
    have "same_but (set_tree T \<union> ctx_addrs (f # fs)) t t'"
      by (rule same_but_trans[OF sb r(4)]) (auto simp: f)
    then show ?thesis using run r f by auto
  qed
qed

section \<open>The represented list\<close>

text \<open>
  \<open>rep t xs\<close>: the tree is a balanced tree whose nodes, in order, are \<open>xs\<close>; its counter
  is their number modulo \<open>2^32\<close> and \<open>m_brk\<close> is above every live address.
  \<open>gap t ip xs ys\<close>: the insertion point \<open>ip\<close> is the place between \<open>xs\<close> and \<open>ys\<close>.
\<close>

definition shape :: "'a avltree \<Rightarrow> addr tree \<Rightarrow> bool" where
  "shape t T \<longleftrightarrow> (\<exists>w. avl_at (m_heap t) None w (m_root t) T)"

definition rep :: "'a avltree \<Rightarrow> addr list \<Rightarrow> bool" where
  "rep t xs \<longleftrightarrow> (\<exists>T. shape t T \<and> inorder T = xs) \<and> distinct xs \<and>
     m_num_nodes t = of_nat (length xs) \<and> (\<forall>x. m_heap t x \<noteq> None \<longrightarrow> x < m_brk t)"

definition gap :: "'a avltree \<Rightarrow> insertion_point \<Rightarrow> addr list \<Rightarrow> addr list \<Rightarrow> bool" where
  "gap t ip xs ys \<longleftrightarrow> (case ip_parent ip of None \<Rightarrow> xs = [] \<and> ys = []
     | Some a \<Rightarrow> (\<exists>n. m_heap t a = Some n \<and> m_children n (ip_child ip) = None) \<and>
         (ip_child ip = LEFT \<and> (\<exists>zs. ys = a # zs) \<or> ip_child ip = RIGHT \<and> (\<exists>zs. xs = zs @ [a])))"

lemma rep_live: "rep t xs \<Longrightarrow> x \<in> set xs \<Longrightarrow> \<exists>n. m_heap t x = Some n"
  by (force simp: rep_def shape_def dest: avl_at_live)

lemma rep_brk: "rep t xs \<Longrightarrow> m_heap t x = Some n \<Longrightarrow> x < m_brk t"
  by (auto simp: rep_def)

lemma rep_brk_notin: "rep t xs \<Longrightarrow> m_brk t \<notin> set xs"
  using rep_live rep_brk by blast

lemma rep_distinct: "rep t xs \<Longrightarrow> distinct xs"
  by (simp add: rep_def)

lemma rep_empty [simp]: "rep (empty_tree del) []"
  by (simp add: rep_def shape_def empty_tree_def exI[of _ Leaf])

text \<open>Opening the tree at one of its nodes.\<close>

lemma shape_open:
  assumes "shape t T" "inorder T = xs" "distinct xs" "a \<in> set xs"
  obtains l r fs n where "T = plug (Node l a r) fs" "m_heap t a = Some n"
    "avl_at (m_heap t) (m_parent n) (m_which_child n) (Some a) (Node l a r)"
    "ctx (m_heap t) (m_root t) (Some a) (m_parent n) (m_which_child n) (Suc (max (height l) (height r))) fs"
proof -
  from assms(2,4) have "a \<in> set_tree T" by auto
  from position_exists[OF this] obtain l r fs where p: "T = plug (Node l a r) fs"
    "\<forall>f \<in> set fs. \<forall>d b s. f = Fr d b s \<longrightarrow> d \<noteq> NONE" by blast
  from assms(1) p(1) obtain w where "avl_at (m_heap t) None w (m_root t) (plug (Node l a r) fs)"
    by (auto simp: shape_def)
  from avl_at_plug[OF this p(2)] obtain q par w' where
    "avl_at (m_heap t) par w' q (Node l a r)" "ctx (m_heap t) (m_root t) q par w' (height (Node l a r)) fs"
    by blast
  then show thesis using that p(1) by auto
qed

lemma bind_Some_Pair: "Option.bind m (\<lambda>t. Some (n, t)) = map_option (Pair n) m"
  by (cases m) auto

lemma insert_at_ok:
  fixes t :: "'a avltree"
  assumes rep: "rep t (xs @ ys)" and gap: "gap t ip xs ys"
  shows "\<exists>t'. insert_at t v ip = Some (m_brk t, t') \<and> rep t' (xs @ m_brk t # ys) \<and>
    data_of t' = (data_of t)(m_brk t \<mapsto> v) \<and> m_brk t' = Suc (m_brk t) \<and> m_deleter t' = m_deleter t"
proof -
  let ?n = "m_brk t"
  let ?nn = "new_node (ip_parent ip) (ip_child ip) v"
  let ?t0 = "t\<lparr>m_num_nodes := m_num_nodes t + 1, m_brk := Suc ?n, m_heap := (m_heap t)(?n \<mapsto> ?nn)\<rparr>"
  have fresh: "m_heap t ?n = None" using rep rep_brk by (metis less_irrefl option.exhaust)
  have nin: "?n \<notin> set (xs @ ys)" using rep by (rule rep_brk_notin)
  from rep obtain T where T: "shape t T" "inorder T = xs @ ys" "distinct (xs @ ys)"
    "m_num_nodes t = of_nat (length (xs @ ys))" by (auto simp: rep_def)
  have d0: "data_of ?t0 = (data_of t)(?n \<mapsto> v)"
    by (auto simp: data_of_def new_node_def fun_eq_iff)
  have leaf: "avl_at h (ip_parent ip) (ip_child ip) (Some ?n) (Node Leaf ?n Leaf)"
    if "h ?n = Some ?nn" for h using that by (simp add: new_node_def)
  obtain t1 fs where t1: "insert_at t v ip = map_option (Pair ?n) (insert_fix t1 (ip_parent ip) (ip_child ip))"
    "ctx (m_heap t1) (m_root t1) (Some ?n) (ip_parent ip) (ip_child ip) 0 fs"
    "avl_at (m_heap t1) (ip_parent ip) (ip_child ip) (Some ?n) (Node Leaf ?n Leaf)"
    "inorder (plug (Node Leaf ?n Leaf) fs) = xs @ ?n # ys" "m_heap t1 ?n = Some ?nn"
    "data_of t1 = data_of ?t0" "m_num_nodes t1 = m_num_nodes ?t0" "m_brk t1 = Suc ?n" "m_deleter t1 = m_deleter t"
  proof (cases "ip_parent ip")
    case None
    with gap have e: "xs = []" "ys = []" by (auto simp: gap_def)
    then have "m_root t = None" using T by (auto simp: shape_def)
    then have "insert_at t v ip =
        map_option (Pair ?n) (insert_fix (?t0\<lparr>m_root := Some ?n\<rparr>) (ip_parent ip) (ip_child ip))"
      using None by (simp add: insert_at_def Let_def bind_Some_Pair)
    then show thesis using that[of "?t0\<lparr>m_root := Some ?n\<rparr>" "[]"] None e leaf[of "m_heap ?t0"]
      by (simp add: data_of_def fun_eq_iff)
  next
    case (Some a)
    define c where "c = ip_child ip"
    from gap Some obtain pn where pn: "m_heap t a = Some pn" "m_children pn c = None" "c \<noteq> NONE" "a \<in> set (xs @ ys)"
      by (auto simp: gap_def c_def)
    from shape_open[OF T(1-3) pn(4)] obtain l r fs n' where o: "T = plug (Node l a r) fs"
      "m_heap t a = Some n'"
      "avl_at (m_heap t) (m_parent n') (m_which_child n') (Some a) (Node l a r)"
      "ctx (m_heap t) (m_root t) (Some a) (m_parent n') (m_which_child n') (Suc (max (height l) (height r))) fs"
      by blast
    have [simp]: "n' = pn" using o(2) pn(1) by simp
    obtain u s where us: "Node l a r = join c u a s"
      using Node_join[of l a r c] by blast
    have uL: "u = Leaf" and at_s: "avl_at (m_heap t) (Some a) (other c) (m_children pn (other c)) s"
      and bal: "m_balance pn = child2balance c * (0 - int (height s))" "\<bar>m_balance pn\<bar> \<le> 1"
      using o(3) pn unfolding us avl_at_join[OF pn(3)] by (auto simp: avl_at_None)
    have hk: "Suc (max (height l) (height r)) = Suc (max 0 (height s))"
      using arg_cong[OF us, of height] uL by simp
    let ?pn = "pn\<lparr>m_children := (m_children pn)(c := Some ?n)\<rparr>"
    let ?t1 = "?t0\<lparr>m_heap := (m_heap ?t0)(a \<mapsto> ?pn)\<rparr>"
    have an: "a \<noteq> ?n" using fresh pn by auto
    have dd: "distinct (inorder (plug (join c Leaf a s) fs))" using T o us uL by auto
    have nn: "?n \<notin> set_tree s" "?n \<notin> ctx_addrs fs" "a \<notin> set_tree s" "a \<notin> ctx_addrs fs"
      using nin dd arg_cong[OF T(2), of set] o(1) us uL unfolding distinct_plug
      by (auto simp: inorder_join split: if_splits)
    have run: "insert_at t v ip = map_option (Pair ?n) (insert_fix ?t1 (ip_parent ip) (ip_child ip))"
      using Some pn an by (simp add: insert_at_def Let_def heap_simps c_def[symmetric] bind_Some_Pair)
    have c1: "ctx (m_heap ?t1) (m_root ?t1) (Some ?n) (ip_parent ip) (ip_child ip) 0 (Fr c a s # fs)"
      using o(4) pn nn an at_s bal hk Some by (simp add: c_def[symmetric])
    have in1: "inorder (plug (Node Leaf ?n Leaf) (Fr c a s # fs)) = xs @ ?n # ys"
    proof -
      have eq: "xs @ ys = pre fs @ inorder (join c Leaf a s) @ post fs"
        using T(2) o(1) us uL by (simp add: inorder_plug)
      from gap Some c_def consider (L) zs where "c = LEFT" "ys = a # zs" | (R) zs where "c = RIGHT" "xs = zs @ [a]"
        by (auto simp: gap_def)
      then show ?thesis
      proof cases
        case L
        then have "xs @ a # zs = pre fs @ a # (inorder s @ post fs)" using eq by simp
        from distinct_split_unique[OF this] L T(3) show ?thesis by (simp add: inorder_plug)
      next
        case R
        then have "zs @ a # ys = (pre fs @ inorder s) @ a # post fs" using eq by simp
        from distinct_split_unique[OF this] R T(3) show ?thesis by (simp add: inorder_plug)
      qed
    qed
    have "data_of ?t1 = data_of ?t0" using pn an by (auto simp: data_of_def fun_eq_iff)
    then show thesis using that[OF run c1 leaf in1] an by simp
  qed
  have dist1: "distinct (inorder (plug (Node Leaf ?n Leaf) fs))" using t1(4) T(3) nin by auto
  have bal1: "\<forall>a n. Some ?n = Some a \<longrightarrow> m_heap t1 a = Some n \<longrightarrow> m_balance n = 0 \<longrightarrow> (0::nat) = 0" by simp
  from insert_fix_ok[OF t1(2,3) _ dist1 bal1] obtain t' T' w' where
    r: "insert_fix t1 (ip_parent ip) (ip_child ip) = Some t'" "avl_at (m_heap t') None w' (m_root t') T'"
    "inorder T' = xs @ ?n # ys" "same_but (set_tree (Node Leaf ?n Leaf) \<union> ctx_addrs fs) t1 t'"
    using t1(4) by auto
  have d': "data_of t' = (data_of t)(?n \<mapsto> v)" using r(4) t1(6) d0 by (simp add: same_but_def)
  have "m_heap t' x \<noteq> None \<Longrightarrow> x < Suc ?n" for x
    using d' rep_brk[OF rep] unfolding data_of_def fun_eq_iff
    by (metis fun_upd_apply less_Suc_eq map_option_is_None not_None_eq)
  moreover have "m_num_nodes t' = of_nat (length (xs @ ?n # ys))"
    using r(4) t1(7) T(4) by (simp add: same_but_def)
  ultimately have "rep t' (xs @ ?n # ys)"
    using r T(3) nin t1(8) by (auto simp: rep_def shape_def same_but_def)
  then show ?thesis using r(1,4) t1(1,8,9) d' by (simp add: same_but_def)
qed

end
