(* ===== verification/Avl_Search.thy ===== *)
theory Avl_Search
  imports Avl_Insert
begin

text \<open>
  Searching and walking: \<open>find\<close> returns the node with an equal key or the gap where the
  key belongs; \<open>nearest\<close>, \<open>next\<close> and \<open>prev\<close> return the neighbours in order.
\<close>

definition hd_opt :: "'a list \<Rightarrow> 'a option" where
  "hd_opt xs = (case xs of [] \<Rightarrow> None | x # _ \<Rightarrow> Some x)"

definition last_opt :: "'a list \<Rightarrow> 'a option" where
  "last_opt xs = (if xs = [] then None else Some (last xs))"

lemma hd_opt_simps [simp]: "hd_opt [] = None" "hd_opt (x # xs) = Some x"
  "hd_opt (xs @ ys) = (if xs = [] then hd_opt ys else hd_opt xs)"
  by (auto simp: hd_opt_def split: list.splits)

lemma last_opt_simps [simp]: "last_opt [] = None" "last_opt (xs @ [x]) = Some x"
  "last_opt (x # xs) = (if xs = [] then Some x else last_opt xs)"
  "last_opt (xs @ ys) = (if ys = [] then last_opt xs else last_opt ys)"
  by (auto simp: last_opt_def)

lemma inorder_Nil [simp]: "inorder t = [] \<longleftrightarrow> t = Leaf"
  by (cases t) auto

section \<open>Walking\<close>

lemma descend_ok:
  assumes "avl_at (m_heap t) par w (Some b) s" "c \<noteq> NONE"
  shows "\<exists>z n. descend t b c = Some z \<and> m_heap t z = Some n \<and> m_children n c = None \<and>
    (if c = LEFT then hd_opt (inorder s) else last_opt (inorder s)) = Some z"
  using assms
proof (induction s arbitrary: par w b)
  case (Node l a r)
  then obtain n where n: "b = a" "m_heap t a = Some n"
    "avl_at (m_heap t) (Some a) LEFT (m_children n LEFT) l"
    "avl_at (m_heap t) (Some a) RIGHT (m_children n RIGHT) r" by auto
  show ?case
  proof (cases "m_children n c")
    case None
    then have "(if c = LEFT then l else r) = Leaf" using n Node.prems(2) by (cases c) (auto simp: avl_at_None)
    then show ?thesis using n None Node.prems(2) by (cases c) (auto simp: descend.simps[of t a])
  next
    case (Some q)
    have run: "descend t b c = descend t q c" using n Some by (simp add: descend.simps[of t a])
    show ?thesis
    proof (cases c)
      case LEFT
      then have "l \<noteq> Leaf" using Some n by auto
      then show ?thesis using Node.IH(1)[of "Some a" LEFT q] n Some LEFT run by auto
    next
      case RIGHT
      then have "r \<noteq> Leaf" using Some n by auto
      then show ?thesis using Node.IH(2)[of "Some a" RIGHT q] n Some RIGHT run by auto
    qed (use Node.prems in auto)
  qed
qed simp

lemma climb_ok:
  assumes "ctx (m_heap t) root (Some a) (m_parent n) (m_which_child n) k fs" "m_heap t a = Some n" "c \<noteq> NONE"
  shows "climb t a c = Some (if c = LEFT then hd_opt (post fs) else last_opt (pre fs))"
  using assms
proof (induction fs arbitrary: a n k)
  case Nil
  then show ?case by (simp add: climb.simps[of t a])
next
  case (Cons f fs)
  obtain d b s where f: "f = Fr d b s" by (cases f)
  with Cons.prems obtain m where m: "m_parent n = Some b" "m_which_child n = d" "d \<noteq> NONE" "m_heap t b = Some m"
    "ctx (m_heap t) root (Some b) (m_parent m) (m_which_child m) (Suc (max k (height s))) fs" by auto
  have "climb t a c = (if d = c then Some (Some b) else climb t b c)"
    using m Cons.prems by (simp add: climb.simps[of t a])
  then show ?case using Cons.IH[OF m(5,4)] Cons.prems(3) m f by (cases c; cases d) auto
qed

lemma rep_open:
  assumes "rep t (us @ a # vs)"
  obtains l r fs n where "shape t (plug (Node l a r) fs)" "m_heap t a = Some n"
    "avl_at (m_heap t) (m_parent n) (m_which_child n) (Some a) (Node l a r)"
    "ctx (m_heap t) (m_root t) (Some a) (m_parent n) (m_which_child n) (Suc (max (height l) (height r))) fs"
    "us = pre fs @ inorder l" "vs = inorder r @ post fs"
proof -
  from assms obtain T where T: "shape t T" "inorder T = us @ a # vs" "distinct (us @ a # vs)"
    by (auto simp: rep_def)
  have "a \<in> set (us @ a # vs)" by simp
  from shape_open[OF T this] obtain l r fs n where o: "T = plug (Node l a r) fs" "m_heap t a = Some n"
    "avl_at (m_heap t) (m_parent n) (m_which_child n) (Some a) (Node l a r)"
    "ctx (m_heap t) (m_root t) (Some a) (m_parent n) (m_which_child n) (Suc (max (height l) (height r))) fs"
    by blast
  have "us @ a # vs = (pre fs @ inorder l) @ a # (inorder r @ post fs)"
    using T(2) o(1) by (simp add: inorder_plug)
  from distinct_split_unique[OF this T(3)] show thesis using that o T(1) by blast
qed

lemma walk_ok:
  assumes rep: "rep t (us @ a # vs)" and c: "c \<noteq> NONE"
  shows "walk t (Some a) c = Some (if c = RIGHT then hd_opt vs else last_opt us)"
proof -
  obtain l r fs n where o0: "shape t (plug (Node l a r) fs)" and o: "m_heap t a = Some n"
    "avl_at (m_heap t) (m_parent n) (m_which_child n) (Some a) (Node l a r)"
    "ctx (m_heap t) (m_root t) (Some a) (m_parent n) (m_which_child n) (Suc (max (height l) (height r))) fs"
    "us = pre fs @ inorder l" "vs = inorder r @ post fs" by (rule rep_open[OF rep])
  have sub: "avl_at (m_heap t) (Some a) LEFT (m_children n LEFT) l"
    "avl_at (m_heap t) (Some a) RIGHT (m_children n RIGHT) r" using o by auto
  show ?thesis
  proof (cases "m_children n c")
    case None
    have "climb t a (other c) = Some (if other c = LEFT then hd_opt (post fs) else last_opt (pre fs))"
      using climb_ok[OF o(3,1), of "other c"] c by simp
    moreover have "(if c = LEFT then l else r) = Leaf"
      using sub None c by (cases c) (auto simp: avl_at_None)
    ultimately show ?thesis using o None c by (cases c) (auto simp: walk_def)
  next
    case (Some b)
    let ?s = "if c = LEFT then l else r"
    have at: "avl_at (m_heap t) (Some a) c (Some b) ?s" using sub Some c by (cases c) auto
    then have "?s \<noteq> Leaf" by auto
    moreover from descend_ok[OF at, of "other c"] c[folded other_NONE[of c]] obtain z where "descend t b (other c) = Some z"
      "(if other c = LEFT then hd_opt (inorder ?s) else last_opt (inorder ?s)) = Some z" by blast
    ultimately show ?thesis using o(1,4,5) Some c by (cases c) (auto simp: walk_def)
  qed
qed

lemma next_elem_ok: "rep t (us @ a # vs) \<Longrightarrow> next_elem t a = Some (hd_opt vs)"
  by (simp add: next_elem_def walk_ok)

lemma prev_elem_ok: "rep t (us @ a # vs) \<Longrightarrow> prev_elem t a = Some (last_opt us)"
  by (simp add: prev_elem_def walk_ok)

lemma end_loop_ok:
  assumes "avl_at (m_heap t) par w p s" "c \<noteq> NONE"
  shows "end_loop t p prev c = Some (if s = Leaf then prev
     else if c = LEFT then hd_opt (inorder s) else last_opt (inorder s))"
  using assms
proof (induction s arbitrary: par w p prev)
  case Leaf
  then show ?case by (simp add: end_loop.simps[of t None])
next
  case (Node l a r)
  then show ?case by (cases c) (auto simp: end_loop.simps[of t "Some a"])
qed

lemma first_node_ok: "rep t xs \<Longrightarrow> first_node t = Some (hd_opt xs)"
  by (auto simp: rep_def shape_def first_node_def dest!: end_loop_ok[where c = LEFT and prev = None])

lemma last_node_ok: "rep t xs \<Longrightarrow> last_node t = Some (last_opt xs)"
  by (auto simp: rep_def shape_def last_node_def dest!: end_loop_ok[where c = RIGHT and prev = None])

section \<open>Neighbours of a gap\<close>

lemma nearest_ok:
  assumes rep: "rep t (us @ vs)" and gap: "gap t ip us vs" and ne: "us @ vs \<noteq> []"
  shows "nearest t ip AFTER = Some (hd_opt vs)" "nearest t ip BEFORE = Some (last_opt us)"
proof -
  from gap ne obtain a where a: "ip_parent ip = Some a"
    "ip_child ip = LEFT \<and> (\<exists>zs. vs = a # zs) \<or> ip_child ip = RIGHT \<and> (\<exists>zs. us = zs @ [a])"
    by (auto simp: gap_def split: option.splits)
  have np: "ip \<noteq> null_point" using a by (auto simp: null_point_def)
  from a(2) have "nearest t ip AFTER = Some (hd_opt vs) \<and> nearest t ip BEFORE = Some (last_opt us)"
  proof (elim disjE conjE exE)
    fix zs assume "ip_child ip = LEFT" "vs = a # zs"
    then show ?thesis using a np walk_ok[of t us a zs LEFT] rep by (simp add: nearest_def)
  next
    fix zs assume "ip_child ip = RIGHT" "us = zs @ [a]"
    then show ?thesis using a np walk_ok[of t zs a vs RIGHT] rep by (simp add: nearest_def)
  qed
  then show "nearest t ip AFTER = Some (hd_opt vs)" "nearest t ip BEFORE = Some (last_opt us)" by auto
qed

lemma insert_here_after_ok:
  fixes t :: "'a avltree"
  assumes rep: "rep t (us @ a # vs)"
  shows "\<exists>t'. insert_here t v a AFTER = Some (m_brk t, t') \<and> rep t' (us @ a # m_brk t # vs) \<and>
    data_of t' = (data_of t)(m_brk t \<mapsto> v) \<and> m_brk t' = Suc (m_brk t) \<and> m_deleter t' = m_deleter t"
proof -
  obtain l r fs n where "shape t (plug (Node l a r) fs)" and o: "m_heap t a = Some n"
    "avl_at (m_heap t) (m_parent n) (m_which_child n) (Some a) (Node l a r)"
    and "ctx (m_heap t) (m_root t) (Some a) (m_parent n) (m_which_child n) (Suc (max (height l) (height r))) fs"
    and uv: "us = pre fs @ inorder l" "vs = inorder r @ post fs" by (rule rep_open[OF rep])
  have r: "avl_at (m_heap t) (Some a) RIGHT (m_children n RIGHT) r" using o by auto
  obtain ip where ip: "insert_here t v a AFTER = insert_at t v ip" "gap t ip (us @ [a]) vs"
  proof (cases "m_children n RIGHT")
    case None
    then show thesis using that[of "\<lparr>ip_parent = Some a, ip_child = RIGHT\<rparr>"] o(1)
      by (simp add: insert_here_def gap_def)
  next
    case (Some b)
    from descend_ok[OF r[unfolded Some], of LEFT] obtain z m where
      z: "descend t b LEFT = Some z" "m_heap t z = Some m" "m_children m LEFT = None" "hd_opt (inorder r) = Some z"
      by auto
    then obtain zs where "vs = z # zs" using uv(2) by (cases "inorder r") auto
    then show thesis using that[of "\<lparr>ip_parent = Some z, ip_child = LEFT\<rparr>"] o(1) Some z
      by (simp add: insert_here_def gap_def)
  qed
  have "rep t ((us @ [a]) @ vs)" using rep by simp
  from insert_at_ok[OF this ip(2), of v] show ?thesis using ip(1) by simp
qed

section \<open>Searching by key\<close>

definition cmp_by :: "('a \<Rightarrow> 'k::linorder) \<Rightarrow> 'a \<Rightarrow> 'a \<Rightarrow> int" where
  "cmp_by key x y = (if key x > key y then 1 else 0) - (if key x < key y then 1 else 0)"

definition key_at :: "('a \<Rightarrow> 'k) \<Rightarrow> 'a avltree \<Rightarrow> addr \<Rightarrow> 'k" where
  "key_at key t a = key (the (data_of t a))"

definition key_sorted :: "('a \<Rightarrow> 'k::linorder) \<Rightarrow> 'a avltree \<Rightarrow> addr list \<Rightarrow> bool" where
  "key_sorted key t xs \<longleftrightarrow> sorted_wrt (\<lambda>a b. key_at key t a < key_at key t b) xs"

lemma gap_extend: "gap t ip us vs \<Longrightarrow> ip_parent ip \<noteq> None \<Longrightarrow> gap t ip (xs @ us) (vs @ ys)"
  by (auto simp: gap_def split: option.splits)

lemma find_loop_ok:
  fixes key :: "'a \<Rightarrow> 'k::linorder"
  assumes "avl_at (m_heap t) par w p s" "key_sorted key t (inorder s)"
  shows "(\<exists>a \<in> set_tree s. key_at key t a = key v \<and>
      find_loop (cmp_by key) t v p prev child = Some (Some a, \<lparr>ip_parent = Some a, ip_child = NONE\<rparr>)) \<or>
    (\<exists>ip us vs. find_loop (cmp_by key) t v p prev child = Some (None, ip) \<and> inorder s = us @ vs \<and>
      (\<forall>x \<in> set us. key_at key t x < key v) \<and> (\<forall>x \<in> set vs. key v < key_at key t x) \<and>
      (if s = Leaf then ip = \<lparr>ip_parent = prev, ip_child = child\<rparr> else gap t ip us vs \<and> ip_parent ip \<noteq> None))"
  using assms
proof (induction s arbitrary: par w p prev child)
  case Leaf
  then show ?case by (simp add: find_loop.simps[of _ t v None])
next
  case (Node l a r)
  let ?f = "find_loop (cmp_by key) t v"
  from Node.prems obtain n where n: "p = Some a" "m_heap t a = Some n"
    "avl_at (m_heap t) (Some a) LEFT (m_children n LEFT) l"
    "avl_at (m_heap t) (Some a) RIGHT (m_children n RIGHT) r" by auto
  have ka: "key_at key t a = key (m_data n)" using n by (simp add: key_at_def data_of_def)
  have srt: "key_sorted key t (inorder l)" "key_sorted key t (inorder r)"
    "\<forall>x \<in> set_tree l. key_at key t x < key_at key t a" "\<forall>x \<in> set_tree r. key_at key t a < key_at key t x"
    using Node.prems(2) by (auto simp: key_sorted_def sorted_wrt_append)
  consider (eq) "key v = key (m_data n)" | (lt) "key v < key (m_data n)" | (gt) "key (m_data n) < key v"
    by (metis less_linear)
  then show ?case
  proof cases
    case eq
    then have "?f p prev child = Some (Some a, \<lparr>ip_parent = Some a, ip_child = NONE\<rparr>)"
      using n by (simp add: find_loop.simps[of _ t v "Some a"] cmp_by_def)
    then show ?thesis using ka eq by auto
  next
    case lt
    then have run: "?f p prev child = ?f (m_children n LEFT) (Some a) LEFT"
      using n by (auto simp: find_loop.simps[of _ t v "Some a"] cmp_by_def balance2child_def)
    from Node.IH(1)[OF n(3) srt(1), of "Some a" LEFT] show ?thesis
    proof (elim disjE bexE exE conjE)
      fix b assume "b \<in> set_tree l" "key_at key t b = key v"
        "?f (m_children n LEFT) (Some a) LEFT = Some (Some b, \<lparr>ip_parent = Some b, ip_child = NONE\<rparr>)"
      then show ?thesis using run by auto
    next
      fix ip us vs assume *: "?f (m_children n LEFT) (Some a) LEFT = Some (None, ip)" "inorder l = us @ vs"
        "\<forall>x \<in> set us. key_at key t x < key v" "\<forall>x \<in> set vs. key v < key_at key t x"
        "if l = Leaf then ip = \<lparr>ip_parent = Some a, ip_child = LEFT\<rparr> else gap t ip us vs \<and> ip_parent ip \<noteq> None"
      have "gap t ip us (vs @ a # inorder r) \<and> ip_parent ip \<noteq> None"
      proof (cases "l = Leaf")
        case True
        then show ?thesis using * n by (simp add: gap_def)
      next
        case False
        then show ?thesis using gap_extend[of t ip us vs "[]" "a # inorder r"] * by simp
      qed
      moreover have "\<forall>x \<in> set (vs @ a # inorder r). key v < key_at key t x"
        using * srt lt ka by auto
      ultimately have "?f p prev child = Some (None, ip) \<and> inorder (Node l a r) = us @ (vs @ a # inorder r) \<and>
        (\<forall>x \<in> set us. key_at key t x < key v) \<and> (\<forall>x \<in> set (vs @ a # inorder r). key v < key_at key t x) \<and>
        gap t ip us (vs @ a # inorder r) \<and> ip_parent ip \<noteq> None" using * run by simp
      then show ?thesis by (metis tree.distinct(1))
    qed
  next
    case gt
    then have run: "?f p prev child = ?f (m_children n RIGHT) (Some a) RIGHT"
      using n by (auto simp: find_loop.simps[of _ t v "Some a"] cmp_by_def balance2child_def)
    from Node.IH(2)[OF n(4) srt(2), of "Some a" RIGHT] show ?thesis
    proof (elim disjE bexE exE conjE)
      fix b assume "b \<in> set_tree r" "key_at key t b = key v"
        "?f (m_children n RIGHT) (Some a) RIGHT = Some (Some b, \<lparr>ip_parent = Some b, ip_child = NONE\<rparr>)"
      then show ?thesis using run by auto
    next
      fix ip us vs assume *: "?f (m_children n RIGHT) (Some a) RIGHT = Some (None, ip)" "inorder r = us @ vs"
        "\<forall>x \<in> set us. key_at key t x < key v" "\<forall>x \<in> set vs. key v < key_at key t x"
        "if r = Leaf then ip = \<lparr>ip_parent = Some a, ip_child = RIGHT\<rparr> else gap t ip us vs \<and> ip_parent ip \<noteq> None"
      have "gap t ip (inorder l @ a # us) vs \<and> ip_parent ip \<noteq> None"
      proof (cases "r = Leaf")
        case True
        then show ?thesis using * n by (simp add: gap_def)
      next
        case False
        then show ?thesis using gap_extend[of t ip us vs "inorder l @ [a]" "[]"] * by simp
      qed
      moreover have "\<forall>x \<in> set (inorder l @ a # us). key_at key t x < key v"
        using * srt gt ka by auto
      ultimately have "?f p prev child = Some (None, ip) \<and> inorder (Node l a r) = (inorder l @ a # us) @ vs \<and>
        (\<forall>x \<in> set (inorder l @ a # us). key_at key t x < key v) \<and> (\<forall>x \<in> set vs. key v < key_at key t x) \<and>
        gap t ip (inorder l @ a # us) vs \<and> ip_parent ip \<noteq> None" using * run by simp
      then show ?thesis by (metis tree.distinct(1))
    qed
  qed
qed

text \<open>What a search on the whole tree returns.\<close>

lemma find_ok:
  fixes key :: "'a \<Rightarrow> 'k::linorder"
  assumes rep: "rep t xs" and srt: "key_sorted key t xs"
  shows "(\<exists>a \<in> set xs. key_at key t a = key v \<and> find (cmp_by key) t v = Some (Some a, null_point)) \<or>
    (\<exists>ip us vs. find (cmp_by key) t v = Some (None, ip) \<and> xs = us @ vs \<and> gap t ip us vs \<and>
      (\<forall>x \<in> set us. key_at key t x < key v) \<and> (\<forall>x \<in> set vs. key v < key_at key t x))"
proof -
  from rep obtain T w where T: "avl_at (m_heap t) None w (m_root t) T" "inorder T = xs"
    by (auto simp: rep_def shape_def)
  have sT: "key_sorted key t (inorder T)" using srt T by simp
  from find_loop_ok[OF T(1) sT, of v None LEFT] show ?thesis
  proof (elim disjE bexE exE conjE)
    fix a assume "a \<in> set_tree T" "key_at key t a = key v"
      "find_loop (cmp_by key) t v (m_root t) None LEFT = Some (Some a, \<lparr>ip_parent = Some a, ip_child = NONE\<rparr>)"
    then show ?thesis using T by (auto simp: find_def find_node_def)
  next
    fix ip us vs assume *: "find_loop (cmp_by key) t v (m_root t) None LEFT = Some (None, ip)" "inorder T = us @ vs"
      "\<forall>x \<in> set us. key_at key t x < key v" "\<forall>x \<in> set vs. key v < key_at key t x"
      "if T = Leaf then ip = \<lparr>ip_parent = None, ip_child = LEFT\<rparr> else gap t ip us vs \<and> ip_parent ip \<noteq> None"
    have "gap t ip us vs" using * by (cases "T = Leaf") (auto simp: gap_def)
    then show ?thesis using * T by (auto simp: find_def find_node_def)
  qed
qed

lemma add_ok:
  fixes key :: "'a \<Rightarrow> 'k::linorder"
  assumes rep: "rep t xs" and srt: "key_sorted key t xs" and new: "\<forall>x \<in> set xs. key_at key t x \<noteq> key v"
  shows "\<exists>t' us vs. add (cmp_by key) t v = Some (m_brk t, t') \<and> xs = us @ vs \<and>
    (\<forall>x \<in> set us. key_at key t x < key v) \<and> (\<forall>x \<in> set vs. key v < key_at key t x) \<and>
    rep t' (us @ m_brk t # vs) \<and> data_of t' = (data_of t)(m_brk t \<mapsto> v) \<and>
    m_brk t' = Suc (m_brk t) \<and> m_deleter t' = m_deleter t"
proof -
  from find_ok[OF rep srt, of v] new obtain ip us vs where
    f: "find (cmp_by key) t v = Some (None, ip)" "xs = us @ vs" "gap t ip us vs"
      "\<forall>x \<in> set us. key_at key t x < key v" "\<forall>x \<in> set vs. key v < key_at key t x" by blast
  have "rep t (us @ vs)" using rep f(2) by simp
  from insert_at_ok[OF this f(3), of v] obtain t' where "insert_at t v ip = Some (m_brk t, t')"
    "rep t' (us @ m_brk t # vs)" "data_of t' = (data_of t)(m_brk t \<mapsto> v)"
    "m_brk t' = Suc (m_brk t)" "m_deleter t' = m_deleter t" by blast
  then have "add (cmp_by key) t v = Some (m_brk t, t')" using f(1) by (simp add: add_def)
  then show ?thesis using f \<open>rep t' _\<close> \<open>data_of t' = _\<close> \<open>m_brk t' = _\<close> \<open>m_deleter t' = _\<close> by blast
qed

end
