(* ===== verification/Avl_Remove.thy ===== *)
theory Avl_Remove
  imports Avl_Search
begin

text \<open>
  Removal: the upward loop restores the balances, a node with at most one child is
  cut out, and a node with two children first trades places with a neighbour, which
  is a renaming of the addresses of the tree.
\<close>

lemma join_swap: "d \<noteq> NONE \<Longrightarrow> join (other d) s a T = join d T a s"
  by (cases d) auto

section \<open>The upward loop\<close>

lemma remove_fix_ok:
  fixes t :: "'a avltree"
  assumes "ctx (m_heap t) (m_root t) p (Some a) w (Suc (height T)) fs" "avl_at (m_heap t) (Some a) w p T"
    "distinct (inorder (plug T fs))"
  shows "\<exists>t' T' w'. remove_fix t a w = Some t' \<and> avl_at (m_heap t') None w' (m_root t') T' \<and>
    inorder T' = inorder (plug T fs) \<and> same_but (set_tree T \<union> ctx_addrs fs) t t'"
  using assms
proof (induction fs arbitrary: t T p a w)
  case Nil
  then show ?case by simp
next
  case (Cons f fs)
  obtain d s where f: "f = Fr d a s" using Cons.prems(1) by (cases f) auto
  let ?k = "Suc (height T)"
  from Cons.prems(1) f obtain n where n: "m_heap t a = Some n" "m_children n d = p" "w = d" "d \<noteq> NONE"
    "avl_at (m_heap t) (Some a) (other d) (m_children n (other d)) s"
    "m_balance n = child2balance d * (int ?k - int (height s))" "\<bar>m_balance n\<bar> \<le> 1"
    and c: "ctx (m_heap t) (m_root t) (Some a) (m_parent n) (m_which_child n) (Suc (max ?k (height s))) fs"
    by auto
  have dist: "distinct (inorder (plug (join d T a s) fs))" using Cons.prems(3) f by simp
  have ds: "a \<notin> set_tree T" "a \<notin> set_tree s" "a \<notin> ctx_addrs fs"
    using dist unfolding distinct_plug by (cases d; auto simp: inorder_join)+
  have bd: "\<bar>int ?k - int (height s)\<bar> \<le> 1" using n by (cases d) auto
  have nb: "m_balance n - child2balance d = child2balance d * (int (height T) - int (height s))"
    using n by (simp add: algebra_simps)
  let ?t = "t\<lparr>m_heap := (m_heap t)(a \<mapsto> n\<lparr>m_balance := m_balance n - child2balance d\<rparr>)\<rparr>"
  have sb: "same_but {a} t ?t" using n by (intro same_but_set_heap) auto
  have at: "avl_at (m_heap ?t) (m_parent n) (m_which_child n) (Some a) (join d T a s)"
    if "\<bar>int (height T) - int (height s)\<bar> \<le> 1"
    using that n ds Cons.prems(2) nb unfolding avl_at_join[OF n(4)] by (cases d) auto
  have ct: "ctx (m_heap ?t) (m_root ?t) (Some a) (m_parent n) (m_which_child n) (Suc (max ?k (height s))) fs"
    using c ds by simp
  have stop: "\<exists>T' w'. avl_at (m_heap t1) None w' (m_root t1) T' \<and> inorder T' = inorder (plug T (f # fs)) \<and>
      same_but (set_tree T \<union> ctx_addrs (f # fs)) t t1"
    if a1: "avl_at (m_heap t1) (m_parent n) (m_which_child n) q T1"
      and c1: "ctx (m_heap t1) (m_root t1) q (m_parent n) (m_which_child n) (height T1) fs"
      and i1: "inorder T1 = inorder (join d T a s)"
      and s1: "same_but (insert a (set_tree T \<union> set_tree s \<union> ctx_addrs fs)) t t1" for t1 q T1
  proof -
    from plug_avl_at[OF c1 a1] obtain w' where "avl_at (m_heap t1) None w' (m_root t1) (plug T1 fs)" by blast
    moreover have "inorder (plug T1 fs) = inorder (plug T (f # fs))" using i1 f by (simp add: inorder_plug)
    moreover have "same_but (set_tree T \<union> ctx_addrs (f # fs)) t t1"
      by (rule same_but_trans[OF s1 same_but_refl]) (auto simp: f)
    ultimately show ?thesis by blast
  qed
  have up: "\<exists>t' T' w'. (case m_parent n of None \<Rightarrow> Some t1 | Some p \<Rightarrow> remove_fix t1 p (m_which_child n)) = Some t' \<and>
      avl_at (m_heap t') None w' (m_root t') T' \<and> inorder T' = inorder (plug T (f # fs)) \<and>
      same_but (set_tree T \<union> ctx_addrs (f # fs)) t t'"
    if a1: "avl_at (m_heap t1) (m_parent n) (m_which_child n) q T1"
      and c1: "ctx (m_heap t1) (m_root t1) q (m_parent n) (m_which_child n) (Suc (height T1)) fs"
      and i1: "inorder T1 = inorder (join d T a s)"
      and s1: "same_but (insert a (set_tree T \<union> set_tree s \<union> ctx_addrs fs)) t t1" for t1 q T1
  proof (cases "m_parent n")
    case None
    then have "fs = []" using c1 by (cases fs rule: ctx_addrs.cases) auto
    then have "ctx (m_heap t1) (m_root t1) q (m_parent n) (m_which_child n) (height T1) fs" using c1 by simp
    from stop[OF a1 this i1 s1] None show ?thesis by auto
  next
    case (Some b)
    have d1: "distinct (inorder (plug T1 fs))" using dist i1 by (simp add: inorder_plug)
    have s2: "set_tree T1 = insert a (set_tree T \<union> set_tree s)" using arg_cong[OF i1, of set] by simp
    from Cons.IH[OF c1[unfolded Some] a1[unfolded Some] d1] obtain t' T' w' where
      r: "remove_fix t1 b (m_which_child n) = Some t'" "avl_at (m_heap t') None w' (m_root t') T'"
      "inorder T' = inorder (plug T1 fs)" "same_but (set_tree T1 \<union> ctx_addrs fs) t1 t'" by blast
    have "inorder (plug T1 fs) = inorder (plug T (f # fs))" using i1 f by (simp add: inorder_plug)
    moreover have "same_but (set_tree T \<union> ctx_addrs (f # fs)) t t'"
      by (rule same_but_trans[OF s1 r(4)]) (auto simp: f s2)
    ultimately show ?thesis using r Some by auto
  qed
  consider (zero) "?k = height s" | (lean) "height T = height s" | (rot) "height s = height T + 2"
    using bd by linarith
  then show ?case
  proof cases
    case zero
    have "m_balance n = 0" using n(6) zero by simp
    then have run: "remove_fix t a w = Some ?t"
      using n(1,3) by (simp add: remove_fix.simps[of t a d] heap_simps Let_def)
    have "ctx (m_heap ?t) (m_root ?t) (Some a) (m_parent n) (m_which_child n) (height (join d T a s)) fs"
      using ct zero[symmetric] by simp
    moreover have "same_but (insert a (set_tree T \<union> set_tree s \<union> ctx_addrs fs)) t ?t"
      by (rule same_but_trans[OF sb same_but_refl]) auto
    ultimately show ?thesis using stop[of ?t "Some a" "join d T a s"] at zero run by auto
  next
    case lean
    have b: "m_balance n \<noteq> 0" "m_balance n - child2balance d = 0" using n(4,6) lean by auto
    then have run: "remove_fix t a w = (case m_parent n of None \<Rightarrow> Some ?t | Some p \<Rightarrow> remove_fix ?t p (m_which_child n))"
      using n(1,3) by (simp add: remove_fix.simps[of t a d] heap_simps Let_def split: option.splits)
    have "ctx (m_heap ?t) (m_root ?t) (Some a) (m_parent n) (m_which_child n) (Suc (height (join d T a s))) fs"
      using ct lean by simp
    moreover have "same_but (insert a (set_tree T \<union> set_tree s \<union> ctx_addrs fs)) t ?t"
      by (rule same_but_trans[OF sb same_but_refl]) auto
    ultimately show ?thesis using up[of ?t "Some a" "join d T a s"] at lean run by auto
  next
    case rot
    have od: "other d \<noteq> NONE" using n(4) by simp
    have b: "m_balance n \<noteq> 0" "m_balance n - child2balance d = 2 * child2balance (other d)"
      "2 * child2balance (other d) \<noteq> 0"
      using n(4) rot by (cases d; simp add: n(6) rot)+
    have T2: "avl_at (m_heap t) (Some a) (other (other d)) (m_children n (other (other d))) T"
      using Cons.prems(2) n(2,3) by simp
    have dist2: "distinct (inorder (plug (join (other d) s a T) fs))" using dist join_swap[OF n(4)] by simp
    from rotation_ok[OF od refl n(1) n(5) T2 c rot dist2] obtain sh t1 T1 q where
      r: "rotation t a (2 * child2balance (other d)) = Some (sh, t1)"
      "avl_at (m_heap t1) (m_parent n) (m_which_child n) q T1"
      "ctx (m_heap t1) (m_root t1) q (m_parent n) (m_which_child n) (Suc (max ?k (height s))) fs"
      "inorder T1 = inorder (join d T a s)" "height T1 = height T + (if sh then 2 else 3)"
      "same_but (insert a (set_tree s \<union> ctx_addrs fs)) t t1"
      using join_swap[OF n(4)] by auto
    have s1: "same_but (insert a (set_tree T \<union> set_tree s \<union> ctx_addrs fs)) t t1"
      by (rule same_but_trans[OF r(6) same_but_refl]) auto
    have run: "remove_fix t a w = (if \<not> sh then Some t1
        else case m_parent n of None \<Rightarrow> Some t1 | Some p \<Rightarrow> remove_fix t1 p (m_which_child n))"
      unfolding n(3) remove_fix.simps[of t a d] Let_def n(1) b(2) bind.simps using b(1,3) r(1) by simp
    show ?thesis
    proof (cases sh)
      case True
      then have "ctx (m_heap t1) (m_root t1) q (m_parent n) (m_which_child n) (Suc (height T1)) fs"
        using r(3,5) rot by simp
      from up[OF r(2) this r(4) s1] run True show ?thesis by simp
    next
      case False
      then have "ctx (m_heap t1) (m_root t1) q (m_parent n) (m_which_child n) (height T1) fs"
        using r(3,5) rot by (simp add: eval_nat_numeral)
      from stop[OF r(2) this r(4) s1] run False show ?thesis by auto
    qed
  qed
qed


section \<open>Cutting out a node with at most one child\<close>

text \<open>A deleter that touches nothing but the node it is given.\<close>

definition local_deleter :: "(addr \<Rightarrow> 'a store \<Rightarrow> 'a store) \<Rightarrow> ('a node option \<Rightarrow> 'a node option) \<Rightarrow> bool" where
  "local_deleter del g \<longleftrightarrow> (\<forall>a h. del a h = h(a := g (h a)))"

lemma set_link:
  assumes "avl_at (m_heap t) par0 w0 p s" "distinct (inorder s)"
  shows "\<exists>t'. (case p of None \<Rightarrow> Some t | Some a \<Rightarrow> do { t \<leftarrow> set_parent t a par; set_which t a w }) = Some t' \<and>
    avl_at (m_heap t') par w p s \<and> same_but (set_tree s) t t' \<and> m_root t' = m_root t"
proof (cases s)
  case Leaf
  then show ?thesis using assms by simp
next
  case (Node l a r)
  with assms obtain n where n: "m_heap t a = Some n" "p = Some a" by auto
  let ?t = "t\<lparr>m_heap := (m_heap t)(a \<mapsto> n\<lparr>m_parent := par, m_which_child := w\<rparr>)\<rparr>"
  have "same_but (set_tree s) t ?t" using n Node by (intro same_but_set_heap) auto
  moreover have "avl_at (m_heap ?t) par w p s" using assms Node n by auto
  ultimately show ?thesis using n by (auto simp: heap_simps)
qed

lemma cut_out_ok:
  fixes t :: "'a avltree"
  assumes x: "m_heap t x = Some rm"
    and at: "avl_at (m_heap t) (m_parent rm) (m_which_child rm) (Some x) (Node l x r)"
    and c: "ctx (m_heap t) (m_root t) (Some x) (m_parent rm) (m_which_child rm) (Suc (max (height l) (height r))) fs"
    and one: "l = Leaf \<or> r = Leaf" and dist: "distinct (inorder (plug (Node l x r) fs))"
    and num: "0 < m_num_nodes t" and del: "local_deleter (m_deleter t) g"
    and old: "old \<notin> set_tree l \<union> set_tree r \<union> ctx_addrs fs"
  shows "\<exists>t' T' w'. cut_out t old x = Some t' \<and> avl_at (m_heap t') None w' (m_root t') T' \<and>
    inorder T' = pre fs @ inorder l @ inorder r @ post fs \<and>
    same_but (set_tree T' \<union> {old}) (t\<lparr>m_num_nodes := m_num_nodes t - 1, m_heap := (m_heap t)(old := g (m_heap t old))\<rparr>) t'"
proof -
  let ?t1 = "t\<lparr>m_num_nodes := m_num_nodes t - 1, m_heap := (m_heap t)(old := g (m_heap t old))\<rparr>"
  define s where "s = (if l \<noteq> Leaf then l else r)"
  define p where "p = (if m_children rm LEFT \<noteq> None then m_children rm LEFT else m_children rm RIGHT)"
  have at0: "avl_at (m_heap t) (Some x) LEFT (m_children rm LEFT) l" "avl_at (m_heap t) (Some x) RIGHT (m_children rm RIGHT) r"
    using at x by auto
  have ps: "\<exists>w. avl_at (m_heap t) (Some x) w p s"
  proof (cases "l = Leaf")
    case True
    then show ?thesis using at0 by (auto simp: p_def s_def)
  next
    case False
    then have "m_children rm LEFT \<noteq> None" using at0(1) avl_at_None by metis
    then show ?thesis using at0 False by (auto simp: p_def s_def)
  qed
  have so: "old \<notin> set_tree s" "old \<notin> ctx_addrs fs" and ds: "distinct (inorder s)" "set_tree s \<inter> ctx_addrs fs = {}" "ctx_distinct fs"
    using old dist unfolding distinct_plug by (auto simp: s_def)
  have i: "inorder l @ inorder r = inorder s" "Suc (max (height l) (height r)) = Suc (height s)"
    using one by (auto simp: s_def)
  have h1: "m_deleter t old (m_heap t) = (m_heap t)(old := g (m_heap t old))"
    using del by (simp add: local_deleter_def)
  from ps obtain w0 where "avl_at (m_heap ?t1) (Some x) w0 p s" using so by auto
  from set_link[OF this ds(1), of "m_parent rm" "m_which_child rm"] obtain t2 where
    t2: "(case p of None \<Rightarrow> Some ?t1 | Some a \<Rightarrow> do { t \<leftarrow> set_parent ?t1 a (m_parent rm); set_which t a (m_which_child rm) }) = Some t2"
    "avl_at (m_heap t2) (m_parent rm) (m_which_child rm) p s" "same_but (set_tree s) ?t1 t2" "m_root t2 = m_root t"
    by auto
  have c1: "ctx (m_heap t2) (m_root t2) (Some x) (m_parent rm) (m_which_child rm) (Suc (height s)) fs"
    using c ctx_same_but[OF t2(3) ds(2)] t2(4) i(2) so by simp
  have run0: "cut_out t old x = (case m_parent rm of None \<Rightarrow> Some (t2\<lparr>m_root := p\<rparr>)
     | Some q \<Rightarrow> do { t \<leftarrow> set_child t2 q (m_which_child rm) p; remove_fix t q (m_which_child rm) })"
    using num x t2(1) h1
    by (cases "m_children rm LEFT"; cases "m_children rm RIGHT"; cases "m_parent rm")
      (simp_all add: cut_out_def Let_def p_def)
  show ?thesis
  proof (cases "m_parent rm")
    case None
    then have "fs = []" using c1 by (cases fs rule: ctx_addrs.cases) auto
    moreover have "same_but (set_tree s \<union> {old}) ?t1 (t2\<lparr>m_root := p\<rparr>)"
      by (rule same_but_trans[OF t2(3) same_but_root]) auto
    ultimately show ?thesis using run0 None t2(2) i by (intro exI[of _ "t2\<lparr>m_root := p\<rparr>"] exI[of _ s]) auto
  next
    case (Some q)
    from link_parent_ctx[OF c1 ds(3), of p] Some obtain t3 where
      t3: "set_child t2 q (m_which_child rm) p = Some t3"
      "ctx (m_heap t3) (m_root t3) p (Some q) (m_which_child rm) (Suc (height s)) fs" "same_but (ctx_addrs fs) t2 t3"
      by (auto simp: link_parent_def)
    have at3: "avl_at (m_heap t3) (Some q) (m_which_child rm) p s"
      using t2(2) Some by (subst avl_at_same_but[OF t3(3)]) (use ds in auto)
    have "distinct (inorder (plug s fs))" using ds unfolding distinct_plug by auto
    from remove_fix_ok[OF t3(2) at3 this] obtain t' T' w' where
      r: "remove_fix t3 q (m_which_child rm) = Some t'" "avl_at (m_heap t') None w' (m_root t') T'"
      "inorder T' = inorder (plug s fs)" "same_but (set_tree s \<union> ctx_addrs fs) t3 t'" by blast
    have sT: "set_tree T' = set_tree s \<union> ctx_addrs fs" using arg_cong[OF r(3), of set] by simp
    have "same_but (set_tree s \<union> ctx_addrs fs) ?t1 t3" by (rule same_but_trans[OF t2(3) t3(3)]) auto
    then have "same_but (set_tree T' \<union> {old}) ?t1 t'" by (rule same_but_trans[OF _ r(4)]) (auto simp: sT)
    moreover have "cut_out t old x = Some t'" using run0 Some t3(1) r(1) by simp
    moreover have "inorder T' = pre fs @ inorder l @ inorder r @ post fs"
      using r(3) i(1) by (simp add: inorder_plug) 
    ultimately show ?thesis using r(2) by blast
  qed
qed


section \<open>Renaming addresses\<close>

definition renamed :: "(addr \<Rightarrow> addr) \<Rightarrow> 'a node \<Rightarrow> 'a node \<Rightarrow> bool" where
  "renamed \<rho> n n' \<longleftrightarrow> (\<forall>c. c \<noteq> NONE \<longrightarrow> m_children n' c = map_option \<rho> (m_children n c)) \<and>
     m_parent n' = map_option \<rho> (m_parent n) \<and> m_which_child n' = m_which_child n \<and> m_balance n' = m_balance n"

lemma avl_at_map:
  assumes "avl_at h par w p T" "\<And>x n. x \<in> set_tree T \<Longrightarrow> h x = Some n \<Longrightarrow> \<exists>n'. h' (\<rho> x) = Some n' \<and> renamed \<rho> n n'"
  shows "avl_at h' (map_option \<rho> par) w (map_option \<rho> p) (map_tree \<rho> T)"
  using assms
proof (induction T arbitrary: par w p)
  case (Node l a r)
  from Node.prems(1) obtain n where n: "p = Some a" "h a = Some n" "m_parent n = par" "m_which_child n = w"
     "m_balance n = int (height r) - int (height l)" "\<bar>m_balance n\<bar> \<le> 1"
     "avl_at h (Some a) LEFT (m_children n LEFT) l" "avl_at h (Some a) RIGHT (m_children n RIGHT) r" by auto
  from Node.prems(2)[of a n] n obtain n' where n': "h' (\<rho> a) = Some n'" "renamed \<rho> n n'" by auto
  have "avl_at h' (Some (\<rho> a)) LEFT (map_option \<rho> (m_children n LEFT)) (map_tree \<rho> l)"
    using Node.IH(1)[OF n(7)] Node.prems(2) by auto
  moreover have "avl_at h' (Some (\<rho> a)) RIGHT (map_option \<rho> (m_children n RIGHT)) (map_tree \<rho> r)"
    using Node.IH(2)[OF n(8)] Node.prems(2) by auto
  ultimately show ?case using n n' by (auto simp: renamed_def)
qed simp

text \<open>The links of a tree are double: a child's parent pointer leads back.\<close>

lemma avl_at_child:
  assumes "avl_at h par w p T" "x \<in> set_tree T" "h x = Some n" "c \<noteq> NONE" "m_children n c = Some y"
  shows "y \<in> set_tree T \<and> (\<exists>m. h y = Some m \<and> m_parent m = Some x \<and> m_which_child m = c)"
  using assms
proof (induction T arbitrary: par w p)
  case (Node l a r)
  from Node.prems(1) obtain n' where n': "h a = Some n'"
     "avl_at h (Some a) LEFT (m_children n' LEFT) l" "avl_at h (Some a) RIGHT (m_children n' RIGHT) r" by auto
  consider "x = a" | "x \<in> set_tree l" | "x \<in> set_tree r" using Node.prems(2) by auto
  then show ?case
  proof cases
    case 1
    then have e: "n' = n" using n' Node.prems(3) by simp
    show ?thesis
    proof (cases c)
      case LEFT
      then have "avl_at h (Some a) LEFT (Some y) l" using n' e Node.prems by simp
      then show ?thesis using 1 LEFT by (cases l) auto
    next
      case RIGHT
      then have "avl_at h (Some a) RIGHT (Some y) r" using n' e Node.prems by simp
      then show ?thesis using 1 RIGHT by (cases r) auto
    qed (use Node.prems in simp)
  qed (use Node n' in auto)
qed simp

lemma avl_at_parent:
  assumes "avl_at h par w p T" "x \<in> set_tree T" "h x = Some n"
  shows "p = Some x \<and> m_parent n = par \<and> m_which_child n = w \<or>
    (\<exists>y m. m_parent n = Some y \<and> y \<in> set_tree T \<and> h y = Some m \<and> m_which_child n \<noteq> NONE \<and>
       m_children m (m_which_child n) = Some x)"
  using assms
proof (induction T arbitrary: par w p)
  case (Node l a r)
  from Node.prems(1) obtain n' where n': "p = Some a" "h a = Some n'" "m_parent n' = par" "m_which_child n' = w"
     "avl_at h (Some a) LEFT (m_children n' LEFT) l" "avl_at h (Some a) RIGHT (m_children n' RIGHT) r" by auto
  consider "x = a" | "x \<in> set_tree l" | "x \<in> set_tree r" using Node.prems(2) by auto
  then show ?case
  proof cases
    case 1
    then show ?thesis using n' Node.prems(3) by simp
  next
    case 2
    from Node.IH(1)[OF n'(5) 2 Node.prems(3)] show ?thesis using n'(2) by auto
  next
    case 3
    from Node.IH(2)[OF n'(6) 3 Node.prems(3)] show ?thesis using n'(2) by auto
  qed
qed simp

end
