(* ===== verification/Avl_Swap.thy ===== *)
theory Avl_Swap
  imports Avl_Remove
begin

section \<open>Trading places with a neighbour\<close>

lemma hd_opt_in: "hd_opt xs = Some z \<Longrightarrow> z \<in> set xs"
  by (cases xs) auto

lemma last_opt_in: "last_opt xs = Some z \<Longrightarrow> z \<in> set xs"
  by (auto simp: last_opt_def split: if_splits)

lemma rep_tree:
  assumes "rep t xs"
  obtains T w where "avl_at (m_heap t) None w (m_root t) T" "inorder T = xs" "set_tree T = set xs"
  using assms by (auto simp: rep_def shape_def)

lemma rep_child:
  assumes "rep t xs" "x \<in> set xs" "m_heap t x = Some n" "c \<noteq> NONE" "m_children n c = Some y"
  shows "y \<in> set xs \<and> (\<exists>m. m_heap t y = Some m \<and> m_parent m = Some x \<and> m_which_child m = c)"
  using assms by (elim rep_tree) (metis avl_at_child)

lemma rep_parent:
  assumes "rep t xs" "x \<in> set xs" "m_heap t x = Some n"
  shows "(m_parent n = None \<and> m_root t = Some x) \<or> (\<exists>y m. m_parent n = Some y \<and> y \<in> set xs \<and>
    m_heap t y = Some m \<and> m_which_child n \<noteq> NONE \<and> m_children m (m_which_child n) = Some x)"
proof -
  obtain T w where T: "avl_at (m_heap t) None w (m_root t) T" "set_tree T = set xs" using assms(1) by (rule rep_tree)
  from avl_at_parent[OF T(1)] T(2) assms(2,3) show ?thesis by blast
qed

lemma rep_child_iff:
  assumes "rep t xs" "y \<in> set xs" "m_heap t y = Some m" "x \<in> set xs" "m_heap t x = Some n" "c \<noteq> NONE"
  shows "m_children m c = Some x \<longleftrightarrow> m_parent n = Some y \<and> m_which_child n = c"
  using rep_child[OF assms(1-3,6)] rep_parent[OF assms(1,4,5)] assms(3,5) by auto

lemma rep_parent_iff:
  assumes "rep t xs" "y \<in> set xs" "m_heap t y = Some m" "x \<in> set xs" "m_heap t x = Some n" "d \<noteq> NONE"
  shows "m_parent n = Some y \<longleftrightarrow> m_children m d = Some x \<or> m_children m (other d) = Some x"
proof -
  have "c = d \<or> c = other d" if "c \<noteq> NONE" for c using assms(6) that by (cases c; cases d) auto
  moreover have "m_parent n = Some y \<Longrightarrow> m_which_child n \<noteq> NONE" using rep_parent[OF assms(1,4,5)] by auto
  moreover note rep_child_iff[OF assms(1-6)] rep_child_iff[OF assms(1-5), of "other d"]
  ultimately show ?thesis using assms(6) by auto
qed

lemma rep_root:
  assumes "rep t xs" "m_root t = Some x" "m_heap t x = Some n"
  shows "x \<in> set xs \<and> m_parent n = None"
proof -
  obtain T w where T: "avl_at (m_heap t) None w (m_root t) T" "set_tree T = set xs" using assms(1) by (rule rep_tree)
  then show ?thesis using assms(2,3) by (cases T) auto
qed

lemma rep_no_self:
  assumes "rep t xs" "x \<in> set xs" "m_heap t x = Some n"
  shows "m_parent n \<noteq> Some x"
proof -
  from assms(2) obtain us vs where xs: "xs = us @ x # vs" by (meson split_list)
  then have rep: "rep t (us @ x # vs)" using assms(1) by simp
  obtain l r fs m where o: "m_heap t x = Some m"
    "ctx (m_heap t) (m_root t) (Some x) (m_parent m) (m_which_child m) (Suc (max (height l) (height r))) fs"
    "us = pre fs @ inorder l" "vs = inorder r @ post fs" by (rule rep_open[OF rep])
  have "x \<notin> ctx_addrs fs" using rep_distinct[OF rep] o(3,4) set_pre_post[of fs] by auto
  then show ?thesis using o(1,2) assms(3) by (cases fs rule: ctx_addrs.cases) auto
qed

definition upd_at :: "'a store \<Rightarrow> addr option \<Rightarrow> ('a node \<Rightarrow> 'a node) \<Rightarrow> 'a store" where
  "upd_at h p f = (\<lambda>y. if p = Some y then map_option f (h y) else h y)"

lemma upd_at_simps [simp]:
  "upd_at h None f = h" "upd_at h p f y = (if p = Some y then map_option f (h y) else h y)"
  by (auto simp: upd_at_def)

lemma modify_upd: "m_heap t a = Some n \<Longrightarrow> modify t a f = Some (t\<lparr>m_heap := upd_at (m_heap t) (Some a) f\<rparr>)"
  by (auto simp: modify_def fun_eq_iff intro!: arg_cong[where f = "\<lambda>h. t\<lparr>m_heap := h\<rparr>"])

text \<open>The situation in which \<open>swap_out\<close> runs.\<close>

lemma swap_setup:
  assumes rep: "rep t (us @ a # vs)" and rm: "m_heap t a = Some rm" "m_children rm LEFT \<noteq> None" "m_children rm RIGHT \<noteq> None"
    and d: "d \<noteq> NONE"
  obtains b r z nz where "m_children rm d = Some b" "m_children rm (other d) = Some r"
    "descend t b (other d) = Some z" "m_heap t z = Some nz" "m_children nz (other d) = None"
    "(if d = LEFT then last_opt us else hd_opt vs) = Some z"
    "z \<noteq> a" "b \<noteq> a" "r \<noteq> a" "r \<noteq> z" "r \<noteq> b" "m_parent rm \<noteq> Some z" "m_parent rm \<noteq> Some a"
    "(if b = z then m_parent nz = Some a \<and> m_which_child nz = d
      else \<exists>y m. m_parent nz = Some y \<and> y \<noteq> a \<and> y \<noteq> z \<and> m_heap t y = Some m \<and> m_which_child nz \<noteq> NONE)"
proof -
  obtain l r fs n where o0: "shape t (plug (Node l a r) fs)" and o: "m_heap t a = Some n"
    "avl_at (m_heap t) (m_parent n) (m_which_child n) (Some a) (Node l a r)"
    "ctx (m_heap t) (m_root t) (Some a) (m_parent n) (m_which_child n) (Suc (max (height l) (height r))) fs"
    "us = pre fs @ inorder l" "vs = inorder r @ post fs" by (rule rep_open[OF rep])
  have [simp]: "n = rm" using o(1) rm(1) by simp
  define L where "L = (if d = LEFT then l else r)"
  define R where "R = (if d = LEFT then r else l)"
  have at: "avl_at (m_heap t) (Some a) d (m_children rm d) L"
    "avl_at (m_heap t) (Some a) (other d) (m_children rm (other d)) R"
    using o(1,2) d by (cases d; auto simp: L_def R_def)+
  obtain b q where bq: "m_children rm d = Some b" "m_children rm (other d) = Some q"
    using rm d by (cases d) auto
  have "distinct (pre fs @ inorder l @ a # inorder r @ post fs)" using rep_distinct[OF rep] o by simp
  then have ds: "set_tree L \<inter> set_tree R = {}" "a \<notin> set_tree L \<union> set_tree R \<union> ctx_addrs fs"
    "(set_tree L \<union> set_tree R) \<inter> ctx_addrs fs = {}"
    using set_pre_post[of fs] by (auto simp: L_def R_def)
  have at2: "avl_at (m_heap t) (Some a) d (Some b) L" "avl_at (m_heap t) (Some a) (other d) (Some q) R"
    using at bq by auto
  then have bL: "b \<in> set_tree L" "q \<in> set_tree R" by (auto dest: avl_at_Some)
  from descend_ok[OF at2(1), of "other d"] d obtain z nz where z: "descend t b (other d) = Some z"
    "m_heap t z = Some nz" "m_children nz (other d) = None"
    "(if other d = LEFT then hd_opt (inorder L) else last_opt (inorder L)) = Some z" by auto
  have Ln: "L \<noteq> Leaf" using bL by auto
  have zL: "z \<in> set_tree L"
    using z(4) hd_opt_in[of "inorder L" z] last_opt_in[of "inorder L" z] by (auto split: if_splits)
  have nb: "(if d = LEFT then last_opt us else hd_opt vs) = Some z"
    using z(4) Ln d o(4,5) by (cases d) (auto simp: L_def)
  have par: "m_parent rm = Some y \<Longrightarrow> y \<in> ctx_addrs fs" for y
    using o(3) by (cases fs rule: ctx_addrs.cases) auto
  have bpar: "b = z \<Longrightarrow> m_parent nz = Some a \<and> m_which_child nz = d"
    using at2(1) z(2) by (cases L) auto
  have "z \<in> set (us @ a # vs)" using nb hd_opt_in[of vs z] last_opt_in[of us z] by (auto split: if_splits)
  from rep_no_self[OF rep this z(2)] avl_at_parent[OF at2(1) zL z(2)]
  have zpar: "if b = z then m_parent nz = Some a \<and> m_which_child nz = d
      else \<exists>y m. m_parent nz = Some y \<and> y \<noteq> a \<and> y \<noteq> z \<and> m_heap t y = Some m \<and> m_which_child nz \<noteq> NONE"
    using ds(2) bpar by auto
  show thesis
    by (rule that[OF bq z(1-3) nb]) (use zL bL ds par zpar in auto)
qed


lemma swap_out_ok:
  fixes t :: "'a avltree"
  assumes rep: "rep t (us @ a # vs)" and rm: "m_heap t a = Some rm" "m_children rm LEFT \<noteq> None" "m_children rm RIGHT \<noteq> None"
    and d: "d = balance2child (m_balance rm + 1)" and z: "(if d = LEFT then last_opt us else hd_opt vs) = Some z"
    and \<rho>: "\<rho> = id(a := z, z := m_brk t)"
  shows "\<exists>t'. swap_out t a rm = Some (m_brk t, t') \<and>
    (\<forall>x \<in> set (us @ a # vs). \<forall>n. m_heap t x = Some n \<longrightarrow> (\<exists>n'. m_heap t' (\<rho> x) = Some n' \<and> renamed \<rho> n n')) \<and>
    m_root t' = map_option \<rho> (m_root t) \<and> data_of t' = (data_of t)(m_brk t := data_of t z) \<and>
    m_heap t' a = Some rm \<and> m_num_nodes t' = m_num_nodes t \<and> m_deleter t' = m_deleter t \<and>
    m_brk t' = Suc (m_brk t) \<and> (\<exists>nz. m_heap t z = Some nz \<and> m_children nz (other d) = None \<and> d \<noteq> NONE)"
proof -
  let ?tmp = "m_brk t" and ?xs = "us @ a # vs"
  have dN: "d \<noteq> NONE" using d by (simp add: balance2child_def)
  obtain b r z' nz where s: "m_children rm d = Some b" "m_children rm (other d) = Some r"
    "descend t b (other d) = Some z'" "m_heap t z' = Some nz" "m_children nz (other d) = None"
    "(if d = LEFT then last_opt us else hd_opt vs) = Some z'"
    "z' \<noteq> a" "b \<noteq> a" "r \<noteq> a" "r \<noteq> z'" "r \<noteq> b" "m_parent rm \<noteq> Some z'" "m_parent rm \<noteq> Some a"
    and zp: "if b = z' then m_parent nz = Some a \<and> m_which_child nz = d
      else \<exists>y m. m_parent nz = Some y \<and> y \<noteq> a \<and> y \<noteq> z' \<and> m_heap t y = Some m \<and> m_which_child nz \<noteq> NONE"
    by (rule swap_setup[OF rep rm dN])
  have [simp]: "z' = z" using s(6) z by simp
  have zin: "z \<in> set ?xs" using z hd_opt_in[of vs z] last_opt_in[of us z] by (auto split: if_splits)
  have fresh: "m_heap t ?tmp = None" "?tmp \<notin> set ?xs"
    using rep_brk[OF rep] rep_brk_notin[OF rep] by (metis less_irrefl option.exhaust, simp)
  note child = rep_child[OF rep]
  note par = rep_parent[OF rep]
  have ain: "a \<in> set ?xs" by simp
  have kids: "b \<in> set ?xs" "r \<in> set ?xs"
    using child[OF ain rm(1) dN s(1)] child[OF ain rm(1) _ s(2)] dN by auto
  have ne: "?tmp \<noteq> a" "?tmp \<noteq> z" "?tmp \<noteq> b" "?tmp \<noteq> r" using fresh(2) zin kids by auto
  have live: "m_heap t b \<noteq> None" "m_heap t r \<noteq> None" using rep_live[OF rep] kids by auto
  have parq: "m_parent rm = Some q \<Longrightarrow> q \<in> set ?xs \<and> (\<exists>m. m_heap t q = Some m) \<and> m_which_child rm \<noteq> NONE" for q
    using par[OF ain rm(1)] by auto
  have zc: "m_children nz d = Some c \<Longrightarrow> c \<in> set ?xs \<and> c \<noteq> z \<and> c \<noteq> a \<and> (\<exists>m. m_heap t c = Some m)" for c
    using child[OF zin s(4)[simplified] dN] rep_no_self[OF rep zin] s(4,12) rm(1) by fastforce
  have zin': "m_parent nz = Some y \<Longrightarrow> y \<in> set ?xs \<and> m_which_child nz \<noteq> NONE" for y using par[OF zin] s(4) by auto
  define ch where "ch = (if b = z then (m_children rm)(d := Some ?tmp) else m_children rm)"
  define zn where "zn = nz\<lparr>m_children := ch, m_parent := m_parent rm, m_which_child := m_which_child rm, m_balance := m_balance rm\<rparr>"
  define b' where "b' = (if b = z then ?tmp else b)"
  define y where "y = (if b = z then z else the (m_parent nz))"
  have ch: "ch d = Some b'" "ch (other d) = Some r" using s(1,2) dN by (auto simp: ch_def b'_def)
  define H0 where "H0 = (m_heap t)(?tmp \<mapsto> nz, z \<mapsto> zn)"
  define H1 where "H1 = upd_at H0 (m_parent rm) (\<lambda>n. n\<lparr>m_children := (m_children n)(m_which_child rm := Some z)\<rparr>)"
  define H2 where "H2 = upd_at H1 (Some b') (\<lambda>n. n\<lparr>m_parent := Some z\<rparr>)"
  define H3 where "H3 = upd_at H2 (Some r) (\<lambda>n. n\<lparr>m_parent := Some z\<rparr>)"
  define H4 where "H4 = upd_at H3 (Some y) (\<lambda>n. n\<lparr>m_children := (m_children n)(m_which_child nz := Some ?tmp)\<rparr>)"
  define H5 where "H5 = upd_at H4 (m_children nz d) (\<lambda>n. n\<lparr>m_parent := Some ?tmp\<rparr>)"
  define t' where "t' = t\<lparr>m_root := map_option \<rho> (m_root t), m_heap := H5, m_brk := Suc ?tmp\<rparr>"
  have rootz: "m_root t \<noteq> Some z" using rep_root[OF rep, of z nz] s(4) zp by (auto split: if_splits)
  have roota: "m_root t = Some a \<longleftrightarrow> m_parent rm = None"
    using rep_root[OF rep, of a rm] rm(1) par[OF ain rm(1)] by auto
  let ?U = "\<lambda>h. t\<lparr>m_root := map_option \<rho> (m_root t), m_heap := h, m_brk := Suc ?tmp\<rparr>"
  have z0: "m_heap t z = Some nz" using s(4) by simp
  have az: "a \<noteq> z" "z \<noteq> a" using s(7) by auto
  have b'z: "b' \<noteq> z" "b' \<noteq> a" "r \<noteq> z" "r \<noteq> b'" "m_parent rm \<noteq> Some z" "m_parent rm \<noteq> Some ?tmp"
    using ne s(7-13) parq fresh(2) by (auto simp: b'_def)
  have y0: "y \<noteq> a" "y \<noteq> ?tmp" "m_which_child nz \<noteq> NONE" "m_heap t y \<noteq> None" "b \<noteq> z \<Longrightarrow> m_parent nz = Some y \<and> y \<noteq> z"
    using zp s(7) zin' fresh(2) ne dN z0 by (auto simp: y_def split: if_splits)
  have zct: "m_children nz d \<noteq> Some ?tmp" "m_children nz d \<noteq> Some z" "m_children nz d \<noteq> Some a"
    using zc fresh(2) by auto
  have s1: "(do { t \<leftarrow> modify (t\<lparr>m_heap := (m_heap t)(?tmp \<mapsto> nz), m_brk := Suc ?tmp\<rparr>) z (\<lambda>n. n\<lparr>m_children := m_children rm, m_parent := m_parent rm,
            m_which_child := m_which_child rm, m_balance := m_balance rm\<rparr>);
      if m_children rm d = Some z then set_child t z d (Some ?tmp) else Some t }) = Some (t\<lparr>m_heap := H0, m_brk := Suc ?tmp\<rparr>)"
  proof -
    have "zn = (if b = z then nz\<lparr>m_parent := m_parent rm, m_which_child := m_which_child rm, m_balance := m_balance rm,
        m_children := (m_children rm)(d \<mapsto> ?tmp)\<rparr> else nz\<lparr>m_children := m_children rm, m_parent := m_parent rm,
        m_which_child := m_which_child rm, m_balance := m_balance rm\<rparr>)"
      by (rule node.equality) (simp_all add: zn_def ch_def)
    then show ?thesis using z0 ne s(1) dN
      by (simp add: heap_simps H0_def fun_upd_twist)
  qed
  have s2: "link_parent (t\<lparr>m_heap := H0, m_brk := Suc ?tmp\<rparr>) (m_parent rm) (m_which_child rm) (Some z) = Some (?U H1)"
  proof (cases "m_parent rm")
    case None
    then show ?thesis using roota ne az by (simp add: link_parent_def H1_def \<rho>)
  next
    case (Some q)
    have "m_root t \<noteq> Some a" using roota Some by simp
    then have "map_option \<rho> (m_root t) = m_root t" using rootz by (cases "m_root t") (auto simp: \<rho>)
    moreover obtain m where "H0 q = Some m" using parq[OF Some] b'z(5,6) Some by (auto simp: H0_def)
    moreover have "m_which_child rm \<noteq> NONE" using parq[OF Some] by simp
    ultimately show ?thesis using Some by (simp add: link_parent_def H1_def set_child_def modify_upd)
  qed
  have h1: "H1 z = Some zn" "\<exists>m. H1 b' = Some m" using b'z ne live by (auto simp: H1_def H0_def b'_def)
  have s3: "set_parent (?U H1) b' (Some z) = Some (?U H2)"
    using h1(2) by (auto simp: set_parent_def modify_upd H2_def)
  have h2: "H2 z = Some zn" "\<exists>m. H2 r = Some m" using b'z ne live h1 by (auto simp: H2_def H1_def H0_def)
  have s4: "set_parent (?U H2) r (Some z) = Some (?U H3)"
    using h2(2) by (auto simp: set_parent_def modify_upd H3_def)
  obtain tn where h3: "H3 ?tmp = Some tn" "m_parent tn = Some y" "m_which_child tn = m_which_child nz" "m_children tn = m_children nz" "m_balance tn = m_balance nz"
  proof -
    have "H3 ?tmp = Some (if b = z then nz\<lparr>m_parent := Some z\<rparr> else nz)"
      using b'z ne by (simp add: H3_def H2_def H1_def H0_def b'_def)
    then show thesis using y0(5) by (intro that[of "if b = z then nz\<lparr>m_parent := Some z\<rparr> else nz"]) (auto simp: y_def)
  qed
  have h3y: "\<exists>m. H3 y = Some m"
    using y0 by (auto simp: H3_def H2_def H1_def H0_def)
  have s5: "set_child (?U H3) y (m_which_child nz) (Some ?tmp) = Some (?U H4)"
    using h3y y0(3) by (auto simp: set_child_def modify_upd H4_def)
  have h4: "H4 ?tmp = Some tn" using h3(1) y0(2) by (simp add: H4_def)
  have s6: "(case m_children nz (if m_children nz RIGHT \<noteq> None then RIGHT else LEFT) of None \<Rightarrow> Some (?U H4)
       | Some c \<Rightarrow> set_parent (?U H4) c (Some ?tmp)) = Some (?U H5)"
  proof -
    have "m_children nz (if m_children nz RIGHT \<noteq> None then RIGHT else LEFT) = m_children nz d"
      using s(5) dN by (cases d) auto
    moreover have "\<exists>m. H4 c = Some m" if "m_children nz d = Some c" for c
      using zc[OF that] by (auto simp: H4_def H3_def H2_def H1_def H0_def)
    ultimately show ?thesis
      by (cases "m_children nz d") (auto simp: H5_def set_parent_def modify_upd)
  qed
  from s1 obtain t1 where s1': "modify (t\<lparr>m_heap := (m_heap t)(?tmp \<mapsto> nz), m_brk := Suc ?tmp\<rparr>) z (\<lambda>n. n\<lparr>m_children := m_children rm, m_parent := m_parent rm,
            m_which_child := m_which_child rm, m_balance := m_balance rm\<rparr>) = Some t1"
      "(if m_children rm d = Some z then set_child t1 z d (Some ?tmp) else Some t1) = Some (t\<lparr>m_heap := H0, m_brk := Suc ?tmp\<rparr>)"
    by (rule bind_eq_SomeE)
  have znd: "m_children zn d = Some b'" "m_children zn (other d) = Some r" using ch by (simp_all add: zn_def)
  have run: "swap_out t a rm = Some (?tmp, ?U H5)"
  proof -
    have dz: "descend t b (other d) = Some z" using s(3) by simp
    show ?thesis
    proof (cases "b = z")
      case True
      then have "set_child t1 z d (Some ?tmp) = Some (t\<lparr>m_heap := H0, m_brk := Suc ?tmp\<rparr>)" using s1'(2) s(1) by simp
      with True show ?thesis unfolding swap_out_def Let_def d[symmetric]
        using dz s(1) z0 s1'(1) s2 s6 by (simp add: h1 h2 h3 h4 s3 s4 s5 znd)
    next
      case False
      then have "t1 = t\<lparr>m_heap := H0, m_brk := Suc ?tmp\<rparr>" using s1'(2) s(1) by simp
      with False show ?thesis unfolding swap_out_def Let_def d[symmetric]
        using dz s(1) z0 s1'(1) s2 s6 by (simp add: h1 h2 h3 h4 s3 s4 s5 znd)
    qed
  qed
  note Hs = H5_def H4_def H3_def H2_def H1_def H0_def
  have at_a: "H5 a = Some rm"
    using rm(1) az ne b'z y0(1) zct(3) s(9,13) by (simp add: Hs)
  have dat: "data_of (?U H5) = (data_of t)(?tmp := data_of t z)"
    using z0 ne by (auto simp: data_of_def fun_eq_iff Hs zn_def option.map_comp comp_def)
  have ren: "\<exists>n'. H5 (\<rho> x) = Some n' \<and> renamed \<rho> n n'" if x: "x \<in> set ?xs" "m_heap t x = Some n" for x n
  proof -
    consider "x = a" | "x = z" | "x \<noteq> a" "x \<noteq> z" by blast
    then show ?thesis
    proof cases
      case 1
      then have [simp]: "n = rm" using x rm(1) by simp
      obtain n' where n': "H5 z = Some n'" "m_parent n' = m_parent rm" "m_which_child n' = m_which_child rm"
        "m_balance n' = m_balance rm" "m_children n' d = Some b'" "m_children n' (other d) = Some r"
        using ne az b'z y0 zct zp s(3) dN ch by (auto simp: Hs zn_def b'_def y_def split: if_splits)
      have "renamed \<rho> rm n'" unfolding renamed_def
      proof (intro conjI allI impI)
        fix c :: child assume "c \<noteq> NONE"
        then have "c = d \<or> c = other d" using dN by (cases c; cases d) auto
        then show "m_children n' c = map_option \<rho> (m_children rm c)"
          using n'(5,6) s(1,2,8-11) b'z by (auto simp: \<rho> b'_def)
      next
        show "m_parent n' = map_option \<rho> (m_parent rm)"
          using n'(2) s(12,13) by (cases "m_parent rm") (auto simp: \<rho>)
      qed (use n' in auto)
      then show ?thesis using n'(1) 1 az by (auto simp: \<rho>)
    next
      case 2
      then have [simp]: "n = nz" using x z0 by simp
      have H: "H5 ?tmp = Some tn" using h4 zct(1) by (simp add: H5_def)
      have p: "m_parent tn = map_option \<rho> (m_parent nz)"
        using h3(2) zp y0 by (auto simp: \<rho> y_def split: if_splits)
      have "renamed \<rho> nz tn" unfolding renamed_def
      proof (intro conjI allI impI)
        fix c :: child assume "c \<noteq> NONE"
        then have "c = d \<or> c = other d" using dN by (cases c; cases d) auto
        then show "m_children tn c = map_option \<rho> (m_children nz c)"
          using s(5) zct by (cases "m_children nz d") (auto simp: \<rho> h3(4))
      qed (use h3 p in auto)
      then show ?thesis using H 2 by (auto simp: \<rho>)
    next
      case 3
      have xt: "x \<noteq> ?tmp" using x(1) fresh(2) by auto
      have ca: "m_children n c = Some a \<longleftrightarrow> m_parent rm = Some x \<and> m_which_child rm = c" if "c \<noteq> NONE" for c
        by (rule rep_child_iff[OF rep x ain rm(1) that])
      have cz: "m_children n c = Some z \<longleftrightarrow> m_parent nz = Some x \<and> m_which_child nz = c" if "c \<noteq> NONE" for c
        by (rule rep_child_iff[OF rep x zin z0 that])
      have pa: "m_parent n = Some a \<longleftrightarrow> b = x \<or> r = x"
        using rep_parent_iff[OF rep ain rm(1) x dN] s(1,2) by simp
      have pz: "m_parent n = Some z \<longleftrightarrow> m_children nz d = Some x"
        using rep_parent_iff[OF rep zin z0 x dN] s(5) by simp
      have yx: "y = x \<longleftrightarrow> m_parent nz = Some x" using zp y0(5) 3 by (auto simp: y_def split: if_splits)
      have bx: "b' = x \<longleftrightarrow> b = x" using xt 3 by (auto simp: b'_def)
      define f1 where "f1 = (if m_parent rm = Some x then \<lambda>n::'a node. n\<lparr>m_children := (m_children n)(m_which_child rm := Some z)\<rparr> else id)"
      define f2 where "f2 = (if b = x \<or> r = x then \<lambda>n::'a node. n\<lparr>m_parent := Some z\<rparr> else id)"
      define f3 where "f3 = (if m_parent nz = Some x then \<lambda>n::'a node. n\<lparr>m_children := (m_children n)(m_which_child nz := Some ?tmp)\<rparr> else id)"
      define f4 where "f4 = (if m_children nz d = Some x then \<lambda>n::'a node. n\<lparr>m_parent := Some ?tmp\<rparr> else id)"
      have H: "H5 x = Some (f4 (f3 (f2 (f1 n))))"
        using x(2) 3 xt b'z(4) by (auto simp: Hs f1_def f2_def f3_def f4_def yx bx)
      have "m_children (f4 (f3 (f2 (f1 n)))) c = map_option \<rho> (m_children n c)" if "c \<noteq> NONE" for c
        using ca[OF that] cz[OF that] az
        by (cases "m_children n c") (auto simp: f1_def f2_def f3_def f4_def \<rho> split: if_splits)
      moreover have "m_parent (f4 (f3 (f2 (f1 n)))) = map_option \<rho> (m_parent n)"
        using pa pz az by (cases "m_parent n") (auto simp: f1_def f2_def f3_def f4_def \<rho> split: if_splits)
      ultimately have "renamed \<rho> n (f4 (f3 (f2 (f1 n))))"
        by (auto simp: renamed_def f1_def f2_def f3_def f4_def)
      then show ?thesis using H 3 by (simp add: \<rho>)
    qed
  qed
  have "\<forall>x \<in> set ?xs. \<forall>n. m_heap t x = Some n \<longrightarrow> (\<exists>n'. m_heap (?U H5) (\<rho> x) = Some n' \<and> renamed \<rho> n n')"
    using ren by simp
  then show ?thesis
    by (intro exI[of _ "?U H5"] conjI run) (use at_a dat z0 s(5) dN in simp_all)
qed


section \<open>Removing a node\<close>

lemma num_nodes_pos:
  assumes "n < 2 ^ 32" "0 < n"
  shows "0 < (of_nat n :: 32 word)"
  using assms by (simp add: word_gt_0 word_of_nat_eq_0_iff nat_dvd_not_less)

lemma one_childE:
  assumes "avl_at h par w (Some x) (Node l x r)" "h x = Some n" "m_children n LEFT = None \<or> m_children n RIGHT = None"
  shows "l = Leaf \<or> r = Leaf"
  using assms by (auto simp: avl_at_None)

text \<open>The shape of the tree after the swap, for a node with two children.\<close>

lemma swap_shape:
  fixes t :: "'a avltree"
  assumes rep: "rep t (us @ a # vs)" and rm: "m_heap t a = Some rm" "m_children rm LEFT \<noteq> None" "m_children rm RIGHT \<noteq> None"
  shows "\<exists>t' A B T tn. swap_out t a rm = Some (m_brk t, t') \<and> shape t' T \<and> inorder T = A @ m_brk t # B \<and>
    A @ B = us @ vs \<and> distinct (A @ m_brk t # B) \<and> m_heap t' (m_brk t) = Some tn \<and>
    (m_children tn LEFT = None \<or> m_children tn RIGHT = None) \<and> m_heap t' a = m_heap t a \<and>
    data_of t' = (data_of t)(m_brk t := data_of t' (m_brk t)) \<and>
    m_num_nodes t' = m_num_nodes t \<and> m_deleter t' = m_deleter t \<and> m_brk t' = Suc (m_brk t)"
proof -
  let ?tmp = "m_brk t"
  define d where "d = balance2child (m_balance rm + 1)"
  have dN: "d \<noteq> NONE" by (simp add: d_def balance2child_def)
  obtain z where z: "(if d = LEFT then last_opt us else hd_opt vs) = Some z" by (rule swap_setup[OF rep rm dN])
  define \<rho> where "\<rho> = id(a := z, z := ?tmp)"
  from swap_out_ok[OF rep rm d_def z \<rho>_def] obtain t' nz where
    r: "swap_out t a rm = Some (?tmp, t')"
    "\<forall>x \<in> set (us @ a # vs). \<forall>n. m_heap t x = Some n \<longrightarrow> (\<exists>n'. m_heap t' (\<rho> x) = Some n' \<and> renamed \<rho> n n')"
    "m_root t' = map_option \<rho> (m_root t)" "data_of t' = (data_of t)(?tmp := data_of t z)" "m_heap t' a = Some rm"
    "m_num_nodes t' = m_num_nodes t" "m_deleter t' = m_deleter t" "m_brk t' = Suc ?tmp"
    "m_heap t z = Some nz" "m_children nz (other d) = None" by blast
  have dist: "distinct (us @ a # vs)" and nin: "?tmp \<notin> set (us @ a # vs)"
    using rep_distinct[OF rep] rep_brk_notin[OF rep] by auto
  obtain T w where T: "avl_at (m_heap t) None w (m_root t) T" "inorder T = us @ a # vs" "set_tree T = set (us @ a # vs)"
    by (rule rep_tree[OF rep])
  have "avl_at (m_heap t') (map_option \<rho> None) w (map_option \<rho> (m_root t)) (map_tree \<rho> T)"
    by (rule avl_at_map[OF T(1)]) (use r(2) T(3) in auto)
  then have sh: "shape t' (map_tree \<rho> T)" using r(3) by (auto simp: shape_def)
  have zin: "z \<in> set (us @ vs)" using z hd_opt_in[of vs z] last_opt_in[of us z] by (auto split: if_splits)
  have idm: "map \<rho> ys = ys" if "a \<notin> set ys" "z \<notin> set ys" for ys
    using that by (intro map_idI) (auto simp: \<rho>_def)
  obtain A B where AB: "map \<rho> (us @ a # vs) = A @ ?tmp # B" "A @ B = us @ vs"
  proof (cases "d = LEFT")
    case True
    then obtain us' where us: "us = us' @ [z]" using z by (cases us rule: rev_cases) auto
    then have "map \<rho> (us @ a # vs) = us' @ ?tmp # z # vs"
      using dist idm[of us'] idm[of vs] by (auto simp: \<rho>_def)
    then show thesis using that us by simp
  next
    case False
    then obtain vs' where vs: "vs = z # vs'" using z by (cases vs) auto
    then have "map \<rho> (us @ a # vs) = (us @ [z]) @ ?tmp # vs'"
      using dist idm[of us] idm[of vs'] by (auto simp: \<rho>_def)
    then show thesis using that[of "us @ [z]" vs'] vs by simp
  qed
  have d2: "distinct (A @ ?tmp # B)"
  proof -
    have "distinct (A @ B)" "?tmp \<notin> set (A @ B)" using dist nin unfolding AB(2) by auto
    then show ?thesis by auto
  qed
  have "z \<in> set (us @ a # vs)" using zin by auto
  with r(2,9) obtain tn where tn: "m_heap t' (\<rho> z) = Some tn" "renamed \<rho> nz tn" by blast
  have one: "m_children tn LEFT = None \<or> m_children tn RIGHT = None"
    using tn(2) r(10) dN unfolding renamed_def by (cases d) auto
  have "data_of t' = (data_of t)(?tmp := data_of t' ?tmp)" using r(4) by (simp add: fun_eq_iff)
  moreover have "inorder (map_tree \<rho> T) = A @ ?tmp # B" using AB(1) T(2) by (simp add: inorder_map)
  ultimately show ?thesis using r rm(1) sh AB(2) d2 one tn(1)
    by (intro exI[of _ t'] exI[of _ A] exI[of _ B] exI[of _ "map_tree \<rho> T"] exI[of _ tn]) (simp add: \<rho>_def)
qed

lemma removed_rep:
  fixes t :: "'a avltree"
  assumes rep: "rep t (us @ a # vs)"
    and at: "avl_at (m_heap t2) None w (m_root t2) T2" "inorder T2 = us @ vs"
    and sb: "same_but A (t0\<lparr>m_num_nodes := m_num_nodes t - 1, m_heap := (m_heap t0)(a := g (m_heap t a))\<rparr>) t2"
    and t0: "data_of t0 = (data_of t)(m_brk t := v)" "m_deleter t0 = m_deleter t" "m_brk t \<le> m_brk t0"
    and t': "t' = t2\<lparr>m_heap := (m_heap t2)(m_brk t := None)\<rparr>"
  shows "rep t' (us @ vs) \<and> data_of t' = (data_of t)(a := map_option m_data (g (m_heap t a))) \<and>
    m_deleter t' = m_deleter t \<and> m_brk t \<le> m_brk t'"
proof -
  have dist: "distinct (us @ vs)" and nin: "m_brk t \<notin> set (us @ vs)" "m_brk t \<noteq> a"
    using rep_distinct[OF rep] rep_brk_notin[OF rep] by auto
  have dead: "data_of t (m_brk t) = None"
    using rep_brk[OF rep] by (metis data_of_def less_irrefl map_option_is_None option.exhaust)
  have d2: "data_of t2 = (data_of t0)(a := map_option m_data (g (m_heap t a)))"
    using sb by (auto simp: same_but_def data_of_def fun_eq_iff)
  have d': "data_of t' = (data_of t)(a := map_option m_data (g (m_heap t a)))"
  proof
    fix y show "data_of t' y = ((data_of t)(a := map_option m_data (g (m_heap t a)))) y"
      using fun_cong[OF d2, of y] fun_cong[OF t0(1), of y] dead nin(2) by (auto simp: t' data_of_def)
  qed
  have brk: "m_brk t' = m_brk t0" "m_deleter t' = m_deleter t" "m_num_nodes t' = m_num_nodes t - 1"
    using sb t0(2) by (auto simp: t' same_but_def)
  have a_live: "a < m_brk t" using rep_live[OF rep, of a] rep_brk[OF rep] by auto
  have "x < m_brk t'" if "m_heap t' x \<noteq> None" for x
  proof -
    have "data_of t' x \<noteq> None" using that by (simp add: data_of_def)
    then have "x = a \<or> data_of t x \<noteq> None" unfolding d' by (auto split: if_splits)
    then have "x < m_brk t" using a_live rep_brk[OF rep] by (auto simp: data_of_def)
    then show ?thesis using t0(3) brk(1) by simp
  qed
  moreover have "avl_at (m_heap t') None w (m_root t') T2"
  proof -
    have "m_brk t \<notin> set_tree T2" using nin(1) at(2) set_inorder[of T2] by auto
    then show ?thesis using at(1) by (simp add: t')
  qed
  moreover have "m_num_nodes t' = of_nat (length (us @ vs))" using rep brk(3) by (simp add: rep_def)
  ultimately have "rep t' (us @ vs)" using at(2) dist unfolding rep_def shape_def by blast
  then show ?thesis using d' brk t0(3) by simp
qed

section \<open>Removal of a node\<close>

definition two_children :: "'a avltree \<Rightarrow> addr \<Rightarrow> bool" where
  "two_children t a \<longleftrightarrow> (case m_heap t a of None \<Rightarrow> False
     | Some n \<Rightarrow> m_children n LEFT \<noteq> None \<and> m_children n RIGHT \<noteq> None)"

lemma two_childrenE:
  assumes "two_children t a"
  obtains n where "m_heap t a = Some n" "m_children n LEFT \<noteq> None" "m_children n RIGHT \<noteq> None"
  using assms by (auto simp: two_children_def split: option.splits)

text \<open>A node with two children has neighbours on both sides of the order.\<close>

lemma two_children_between:
  assumes rep: "rep t (us @ a # vs)" and two: "two_children t a"
  shows "us \<noteq> [] \<and> vs \<noteq> []"
proof -
  obtain l r fs n where o: "m_heap t a = Some n"
    "avl_at (m_heap t) (m_parent n) (m_which_child n) (Some a) (Node l a r)"
    "us = pre fs @ inorder l" "vs = inorder r @ post fs" by (rule rep_open[OF rep])
  then show ?thesis using two by (cases l; cases r) (auto simp: two_children_def)
qed

text \<open>
  Removal of a node with two children reads \<open>tmp\<close> after its block; removal of any other node
  takes it out of the order.
\<close>

lemma remove_node_two:
  assumes "two_children t a"
  shows "remove_node t (Some a) = None"
proof -
  have dead: "cut_out (t\<lparr>m_heap := (m_heap t)(p := None)\<rparr>) b p = None" for t :: "'a avltree" and b p
    by (simp add: cut_out_def Let_def)
  then show ?thesis using assms
    by (elim two_childrenE) (simp add: remove_node_def dead Let_def case_prod_beta bind_eq_None_conv)
qed

lemma remove_node_ok:
  fixes t :: "'a avltree"
  assumes rep: "rep t (us @ a # vs)" and del: "local_deleter (m_deleter t) g" and len: "length (us @ a # vs) < 2 ^ 32"
    and one: "\<not> two_children t a"
  shows "\<exists>t'. remove_node t (Some a) = Some t' \<and> rep t' (us @ vs) \<and>
    data_of t' = (data_of t)(a := map_option m_data (g (m_heap t a))) \<and>
    m_deleter t' = m_deleter t \<and> m_brk t \<le> m_brk t'"
proof -
  obtain rm where rm: "m_heap t a = Some rm" using rep_live[OF rep, of a] by auto
  have num: "0 < m_num_nodes t" using rep len num_nodes_pos[of "length (us @ a # vs)"] by (auto simp: rep_def)
  have nin: "m_brk t \<notin> set (us @ a # vs)" by (rule rep_brk_notin[OF rep])
  have nb: "m_heap t (m_brk t) = None" using rep_brk[OF rep] by (metis less_irrefl option.exhaust)
  have dead: "data_of t (m_brk t) = None" using nb by (simp add: data_of_def)
  have dist: "distinct (us @ a # vs)" by (rule rep_distinct[OF rep])
  have leaf: "\<not> (m_children rm LEFT \<noteq> None \<and> m_children rm RIGHT \<noteq> None)"
    using one rm by (auto simp: two_children_def)
  obtain l r fs n where o: "shape t (plug (Node l a r) fs)" "m_heap t a = Some n"
    "avl_at (m_heap t) (m_parent n) (m_which_child n) (Some a) (Node l a r)"
    "ctx (m_heap t) (m_root t) (Some a) (m_parent n) (m_which_child n) (Suc (max (height l) (height r))) fs"
    "us = pre fs @ inorder l" "vs = inorder r @ post fs" by (rule rep_open[OF rep])
  have one: "l = Leaf \<or> r = Leaf" using one_childE[OF o(3,2)] leaf rm o(2) by auto
  have dp: "distinct (inorder (plug (Node l a r) fs))" using dist o by (simp add: inorder_plug)
  then have old: "a \<notin> set_tree l \<union> set_tree r \<union> ctx_addrs fs" unfolding distinct_plug by auto
  from cut_out_ok[OF o(2,3,4) one dp num del old] obtain t2 T2 w where
    c: "cut_out t a a = Some t2" "avl_at (m_heap t2) None w (m_root t2) T2"
    "inorder T2 = pre fs @ inorder l @ inorder r @ post fs"
    "same_but (set_tree T2 \<union> {a}) (t\<lparr>m_num_nodes := m_num_nodes t - 1, m_heap := (m_heap t)(a := g (m_heap t a))\<rparr>) t2"
    by blast
  have i: "inorder T2 = us @ vs" using c(3) o by simp
  have "m_brk t \<notin> set_tree T2 \<union> {a}" using nin i set_inorder[of T2] by auto
  from same_but_heap[OF c(4) this] have "m_heap t2 (m_brk t) = None" using nb nin by auto
  then have e: "t2 = t2\<lparr>m_heap := (m_heap t2)(m_brk t := None)\<rparr>"
    by (intro avltree.equality) (auto simp: fun_eq_iff)
  have "data_of t = (data_of t)(m_brk t := None)" using dead by (auto simp: fun_eq_iff)
  from removed_rep[where g = g, OF rep c(2) i c(4) this refl order_refl e] c(1) leaf rm show ?thesis
    by (auto simp: remove_node_def)
qed

text \<open>
  The swap itself is right: at the end of its block, cutting out the copy and dropping its slot
  afterwards would be a removal of the node.
\<close>

lemma swap_cut_ok:
  fixes t :: "'a avltree"
  assumes rep: "rep t (us @ a # vs)" and del: "local_deleter (m_deleter t) g" and len: "length (us @ a # vs) < 2 ^ 32"
    and rm: "m_heap t a = Some rm" and two: "m_children rm LEFT \<noteq> None" "m_children rm RIGHT \<noteq> None"
  shows "\<exists>tmp t1 t2. swap_out t a rm = Some (tmp, t1) \<and> cut_out t1 a tmp = Some t2 \<and>
    rep (t2\<lparr>m_heap := (m_heap t2)(tmp := None)\<rparr>) (us @ vs) \<and>
    data_of (t2\<lparr>m_heap := (m_heap t2)(tmp := None)\<rparr>) = (data_of t)(a := map_option m_data (g (m_heap t a)))"
proof -
  have num: "0 < m_num_nodes t" using rep len num_nodes_pos[of "length (us @ a # vs)"] by (auto simp: rep_def)
  have dist: "distinct (us @ a # vs)" by (rule rep_distinct[OF rep])
  from swap_shape[OF rep rm two] obtain t1 A B T tn where
    s: "swap_out t a rm = Some (m_brk t, t1)" "shape t1 T" "inorder T = A @ m_brk t # B"
    "A @ B = us @ vs" "distinct (A @ m_brk t # B)" "m_heap t1 (m_brk t) = Some tn"
    "m_children tn LEFT = None \<or> m_children tn RIGHT = None" "m_heap t1 a = m_heap t a"
    "data_of t1 = (data_of t)(m_brk t := data_of t1 (m_brk t))"
    "m_num_nodes t1 = m_num_nodes t" "m_deleter t1 = m_deleter t" "m_brk t1 = Suc (m_brk t)" by blast
  obtain l r fs n where o: "T = plug (Node l (m_brk t) r) fs" "m_heap t1 (m_brk t) = Some n"
    "avl_at (m_heap t1) (m_parent n) (m_which_child n) (Some (m_brk t)) (Node l (m_brk t) r)"
    "ctx (m_heap t1) (m_root t1) (Some (m_brk t)) (m_parent n) (m_which_child n) (Suc (max (height l) (height r))) fs"
    by (rule shape_open[OF s(2,3,5), of "m_brk t"]) auto
  have one: "l = Leaf \<or> r = Leaf" using one_childE[OF o(3,2)] s(6,7) o(2) by auto
  have dp: "distinct (inorder (plug (Node l (m_brk t) r) fs))" using s(3,5) o(1) by simp
  have "(pre fs @ inorder l) @ m_brk t # (inorder r @ post fs) = A @ m_brk t # B"
    using s(3) o(1) by (simp add: inorder_plug)
  from distinct_split_unique[OF this] dp have AB: "A = pre fs @ inorder l" "B = inorder r @ post fs"
    by (auto simp: inorder_plug)
  have "a \<notin> set (A @ B)" using dist unfolding s(4) by auto
  then have old: "a \<notin> set_tree l \<union> set_tree r \<union> ctx_addrs fs" using AB set_pre_post[of fs] by auto
  have num1: "0 < m_num_nodes t1" "local_deleter (m_deleter t1) g" using num del s(10,11) by auto
  from cut_out_ok[OF o(2,3,4) one dp num1 old] obtain t2 T2 w where
    c: "cut_out t1 a (m_brk t) = Some t2" "avl_at (m_heap t2) None w (m_root t2) T2"
    "inorder T2 = pre fs @ inorder l @ inorder r @ post fs"
    "same_but (set_tree T2 \<union> {a}) (t1\<lparr>m_num_nodes := m_num_nodes t - 1, m_heap := (m_heap t1)(a := g (m_heap t a))\<rparr>) t2"
    unfolding s(8,10) by blast
  have i: "inorder T2 = us @ vs" using c(3) AB s(4) by simp
  have "m_brk t \<le> m_brk t1" using s(12) by simp
  from removed_rep[where g = g, OF rep c(2) i c(4) s(9,11) this refl] c(1) s(1) show ?thesis by blast
qed

text \<open>Removal by key, from an ordered tree.\<close>

lemma remove_absent:
  fixes key :: "'a \<Rightarrow> 'k::linorder"
  assumes "rep t xs" "key_sorted key t xs" "\<forall>x \<in> set xs. key_at key t x \<noteq> key v"
  shows "remove (cmp_by key) t v = Some t"
proof -
  from find_ok[OF assms(1,2), of v] assms(3) obtain ip where "find (cmp_by key) t v = Some (None, ip)" by blast
  then show ?thesis by (auto simp: remove_def find_def split: prod.splits option.splits elim!: bind_eq_SomeE)
qed

end
