(* ===== verification/Avl_Index.thy ===== *)
theory Avl_Index
  imports Avl_Swap
begin

text \<open>
  What a client of the AVL tree relies on, as an interface: the tree holds a list of
  addressed values in the order of their keys; searching, stepping, inserting, removing
  and writing are described on that list.  The interface has the laws; the lemmas in it
  are the combinations of calls that the lock manager makes.  Removal is defined only for
  nodes that are not inner nodes, as the tree has it.  The tree of \<open>Avl\<close> implements the
  interface.
\<close>

definition ksorted :: "('v \<Rightarrow> 'k::linorder) \<Rightarrow> (addr \<times> 'v) list \<Rightarrow> bool" where
  "ksorted key L \<longleftrightarrow> sorted_wrt (\<lambda>x y. key (snd x) < key (snd y)) L"

abbreviation below :: "('v \<Rightarrow> 'k::linorder) \<Rightarrow> (addr \<times> 'v) list \<Rightarrow> 'k \<Rightarrow> bool" where
  "below key L k \<equiv> \<forall>x \<in> set L. key (snd x) < k"

abbreviation above :: "('v \<Rightarrow> 'k::linorder) \<Rightarrow> 'k \<Rightarrow> (addr \<times> 'v) list \<Rightarrow> bool" where
  "above key k L \<equiv> \<forall>x \<in> set L. k < key (snd x)"

definition write_list :: "addr \<Rightarrow> ('v \<Rightarrow> 'v) \<Rightarrow> (addr \<times> 'v) list \<Rightarrow> (addr \<times> 'v) list" where
  "write_list a f L = map (\<lambda>x. if fst x = a then (a, f (snd x)) else x) L"

lemma write_list_other [simp]: "a \<notin> fst ` set L \<Longrightarrow> write_list a f L = L"
  unfolding write_list_def by (rule map_idI) force

lemma write_list_append [simp]:
  "write_list a f (us @ vs) = write_list a f us @ write_list a f vs"
  "write_list a f ((b, v) # vs) = (b, if b = a then f v else v) # write_list a f vs"
  "write_list a f [] = []"
  by (auto simp: write_list_def)

lemma fst_write_list [simp]: "map fst (write_list a f L) = map fst L"
  by (auto simp: write_list_def)

locale ordered_index =
  fixes holds :: "'t \<Rightarrow> (addr \<times> 'v) list \<Rightarrow> bool"
    and val :: "'t \<Rightarrow> addr \<Rightarrow> 'v option"
    and key :: "'v \<Rightarrow> 'k::linorder"
    and look :: "'t \<Rightarrow> 'v \<Rightarrow> (addr option \<times> 'p) option"
    and at_gap :: "'t \<Rightarrow> 'p \<Rightarrow> addr list \<Rightarrow> addr list \<Rightarrow> bool"
    and before :: "'t \<Rightarrow> 'p \<Rightarrow> addr option option"
    and after :: "'t \<Rightarrow> 'p \<Rightarrow> addr option option"
    and succ :: "'t \<Rightarrow> addr \<Rightarrow> addr option option"
    and put :: "'t \<Rightarrow> 'v \<Rightarrow> 'p \<Rightarrow> (addr \<times> 't) option"
    and put_after :: "'t \<Rightarrow> 'v \<Rightarrow> addr \<Rightarrow> (addr \<times> 't) option"
    and inner :: "'t \<Rightarrow> addr \<Rightarrow> bool"
    and discard :: "'t \<Rightarrow> addr \<Rightarrow> 't option"
    and assign :: "'t \<Rightarrow> addr \<Rightarrow> ('v \<Rightarrow> 'v) \<Rightarrow> 't option"
    and free :: "'t \<Rightarrow> addr \<Rightarrow> 't option"
  assumes addrs: "holds t L \<Longrightarrow> distinct (map fst L)"
    and reads: "holds t L \<Longrightarrow> (a, v) \<in> set L \<Longrightarrow> val t a = Some v"
    and looks: "holds t L \<Longrightarrow> ksorted key L \<Longrightarrow>
      (\<exists>us a u vs w. L = us @ (a, u) # vs \<and> key u = key v \<and> look t v = Some (Some a, w)) \<or>
      (\<exists>us vs w. L = us @ vs \<and> below key us (key v) \<and> above key (key v) vs \<and>
         look t v = Some (None, w) \<and> at_gap t w (map fst us) (map fst vs))"
    and befores: "holds t (us @ vs) \<Longrightarrow> at_gap t w (map fst us) (map fst vs) \<Longrightarrow> us @ vs \<noteq> [] \<Longrightarrow>
      before t w = Some (last_opt (map fst us))"
    and afters: "holds t (us @ vs) \<Longrightarrow> at_gap t w (map fst us) (map fst vs) \<Longrightarrow> us @ vs \<noteq> [] \<Longrightarrow>
      after t w = Some (hd_opt (map fst vs))"
    and succs: "holds t (us @ (a, v) # vs) \<Longrightarrow> succ t a = Some (hd_opt (map fst vs))"
    and puts: "holds t (us @ vs) \<Longrightarrow> at_gap t w (map fst us) (map fst vs) \<Longrightarrow>
      \<exists>a t'. put t v w = Some (a, t') \<and> val t a = None \<and> holds t' (us @ (a, v) # vs) \<and> val t' = (val t)(a \<mapsto> v)"
    and puts_after: "holds t (us @ (b, u) # vs) \<Longrightarrow>
      \<exists>a t'. put_after t v b = Some (a, t') \<and> val t a = None \<and> holds t' (us @ (b, u) # (a, v) # vs) \<and>
        val t' = (val t)(a \<mapsto> v)"
    and inner_between: "holds t (us @ (a, v) # vs) \<Longrightarrow> inner t a \<Longrightarrow> us \<noteq> [] \<and> vs \<noteq> []"
    and drops_inner: "inner t a \<Longrightarrow> discard t a = None"
    and drops: "holds t (us @ (a, v) # vs) \<Longrightarrow> length (us @ (a, v) # vs) < 2 ^ 32 \<Longrightarrow> \<not> inner t a \<Longrightarrow>
      \<exists>t'. discard t a = Some t' \<and> holds t' (us @ vs) \<and> val t' = val t"
    and writes: "holds t L \<Longrightarrow> val t a = Some v \<Longrightarrow>
      \<exists>t'. assign t a f = Some t' \<and> holds t' (write_list a f L) \<and> val t' = (val t)(a \<mapsto> f v)"
    and frees: "holds t L \<Longrightarrow> val t a = Some v \<Longrightarrow> a \<notin> fst ` set L \<Longrightarrow>
      \<exists>t'. free t a = Some t' \<and> holds t' L \<and> val t' = (val t)(a := None)"
begin

lemma sorted_split_unique:
  assumes "ksorted key (us @ vs)" "us @ vs = us' @ vs'" "below key us k" "above key k vs"
    "below key us' k" "above key k vs'"
  shows "us = us' \<and> vs = vs'"
proof -
  have "us = filter (\<lambda>x. key (snd x) < k) (us @ vs)" "us' = filter (\<lambda>x. key (snd x) < k) (us' @ vs')"
    using assms(3-6) by (auto simp: filter_empty_conv filter_id_conv intro: less_asym)
  then show ?thesis using assms(2) by (metis same_append_eq)
qed

text \<open>Adding a value whose key is not there: it goes to its place in the order.\<close>

lemma add_new:
  assumes h: "holds t (us @ vs)" and s: "ksorted key (us @ vs)" and b: "below key us (key v)" "above key (key v) vs"
  shows "\<exists>a t'. (do { (res, w) \<leftarrow> look t v; if res \<noteq> None then None else put t v w }) = Some (a, t') \<and>
    val t a = None \<and> holds t' (us @ (a, v) # vs) \<and> val t' = (val t)(a \<mapsto> v)"
  using looks[OF h s, of v]
proof (elim disjE exE conjE)
  fix us' a u vs' w assume "us @ vs = us' @ (a, u) # vs'" "key u = key v"
  then have "(a, u) \<in> set (us @ vs)" "key u = key v" by auto
  then show ?thesis using b by force
next
  fix us' vs' w assume *: "us @ vs = us' @ vs'" "below key us' (key v)" "above key (key v) vs'"
    "look t v = Some (None, w)" "at_gap t w (map fst us') (map fst vs')"
  from sorted_split_unique[OF s *(1) b *(2,3)] * puts[OF h, of w v] show ?thesis by auto
qed

text \<open>The last element whose key is at most the given one.\<close>

lemma floor_found:
  assumes h: "holds t (us @ (a, u) # vs)" and s: "ksorted key (us @ (a, u) # vs)" and k: "key u = key v"
  shows "\<exists>w. look t v = Some (Some a, w)"
  using looks[OF h s, of v]
proof (elim disjE exE conjE)
  fix us' b u' vs' w assume *: "us @ (a, u) # vs = us' @ (b, u') # vs'" "key u' = key v" "look t v = Some (Some b, w)"
  have "(b, u') \<in> set (us @ (a, u) # vs)" unfolding *(1) by simp
  then have "b = a" using s k *(2) by (force simp: ksorted_def sorted_wrt_append)
  then show ?thesis using * by auto
next
  fix us' vs' w assume *: "us @ (a, u) # vs = us' @ vs'" "below key us' (key v)" "above key (key v) vs'"
  have "(a, u) \<in> set (us' @ vs')" unfolding *(1)[symmetric] by simp
  then show ?thesis using *(2,3) k by force
qed

lemma floor_gap:
  assumes h: "holds t (us @ vs)" and s: "ksorted key (us @ vs)" and b: "below key us (key v)" "above key (key v) vs"
  shows "\<exists>w. look t v = Some (None, w) \<and> at_gap t w (map fst us) (map fst vs)"
  using looks[OF h s, of v]
proof (elim disjE exE conjE)
  fix us' a u vs' w assume "us @ vs = us' @ (a, u) # vs'" "key u = key v"
  then have "(a, u) \<in> set (us @ vs)" "key u = key v" by auto
  then show ?thesis using b by force
next
  fix us' vs' w assume *: "us @ vs = us' @ vs'" "below key us' (key v)" "above key (key v) vs'"
    "look t v = Some (None, w)" "at_gap t w (map fst us') (map fst vs')"
  from sorted_split_unique[OF s *(1) b *(2,3)] * show ?thesis by auto
qed

text \<open>Taking a value out, marking it and adding another with the same key in its place.\<close>

lemma replace:
  assumes h: "holds t (us @ (a, v) # vs)" and s: "ksorted key (us @ (a, v) # vs)"
    and n: "length (us @ (a, v) # vs) < 2 ^ 32" and k: "key v' = key v" and i: "\<not> inner t a"
  shows "\<exists>b t'. (do { t \<leftarrow> discard t a; t \<leftarrow> assign t a f; (res, w) \<leftarrow> look t v';
      if res \<noteq> None then None else put t v' w }) = Some (b, t') \<and>
    val t b = None \<and> holds t' (us @ (b, v') # vs) \<and> val t' = (val t)(a \<mapsto> f v, b \<mapsto> v')"
proof -
  have ra: "val t a = Some v" using reads[OF h, of a v] by simp
  from drops[OF h n i] obtain t1 where t1: "discard t a = Some t1" "holds t1 (us @ vs)" "val t1 = val t" by blast
  from addrs[OF h] have out: "a \<notin> fst ` set (us @ vs)" by auto
  from writes[OF t1(2), of a v f] t1(3) ra obtain t2 where
    t2: "assign t1 a f = Some t2" "holds t2 (us @ vs)" "val t2 = (val t)(a \<mapsto> f v)"
    by (metis out write_list_other)
  have s2: "ksorted key (us @ vs)" "below key us (key v')" "above key (key v') vs"
    using s k by (auto simp: ksorted_def sorted_wrt_append)
  from add_new[OF t2(2) s2] obtain b t' where
    r: "(do { (res, w) \<leftarrow> look t2 v'; if res \<noteq> None then None else put t2 v' w }) = Some (b, t')"
    "val t2 b = None" "holds t' (us @ (b, v') # vs)" "val t' = (val t2)(b \<mapsto> v')" by blast
  have "val t b = None" using r(2) t2(3) by (auto split: if_splits)
  then show ?thesis using t1(1) t2 r by auto
qed

end

section \<open>The AVL tree implements the interface\<close>

definition holds :: "'v avltree \<Rightarrow> (addr \<times> 'v) list \<Rightarrow> bool" where
  "holds t L \<longleftrightarrow> rep t (map fst L) \<and> (\<forall>x \<in> set L. data_of t (fst x) = Some (snd x)) \<and> m_deleter t = (\<lambda>_ h. h)"

lemma keep_local: "m_deleter t = (\<lambda>_ h. h) \<Longrightarrow> local_deleter (m_deleter t) id"
  by (simp add: local_deleter_def)

lemma holds_key: "holds t L \<Longrightarrow> x \<in> set L \<Longrightarrow> key_at key t (fst x) = key (snd x)"
  by (auto simp: holds_def key_at_def)

lemma key_sorted_holds: "holds t L \<Longrightarrow> ksorted key L \<Longrightarrow> key_sorted key t (map fst L)"
  unfolding ksorted_def key_sorted_def sorted_wrt_map
  by (erule sorted_wrt_mono_rel[rotated]) (simp add: holds_key)

lemma rep_same_links:
  assumes "rep t xs" "m_root t' = m_root t" "m_num_nodes t' = m_num_nodes t" "m_brk t' = m_brk t"
    "\<And>x n. x \<in> set xs \<Longrightarrow> m_heap t x = Some n \<Longrightarrow> \<exists>n'. m_heap t' x = Some n' \<and> renamed id n n'"
    "\<And>x. m_heap t' x \<noteq> None \<Longrightarrow> m_heap t x \<noteq> None"
  shows "rep t' xs"
proof -
  obtain T w where T: "avl_at (m_heap t) None w (m_root t) T" "inorder T = xs" "set_tree T = set xs"
    by (rule rep_tree[OF assms(1)])
  have "avl_at (m_heap t') (map_option id None) w (map_option id (m_root t)) (map_tree id T)"
    by (rule avl_at_map[OF T(1)]) (use assms(5) T(3) in auto)
  then have "avl_at (m_heap t') None w (m_root t') T"
    using assms(2) by (simp add: tree.map_id option.map_id)
  then show ?thesis using assms(1,3,4,6) T(2) unfolding rep_def shape_def by auto
qed

lemma set_data_holds:
  assumes "holds t L" "data_of t a = Some v"
  shows "\<exists>t'. set_data t a f = Some t' \<and> holds t' (write_list a f L) \<and> data_of t' = (data_of t)(a \<mapsto> f v)"
proof -
  from assms(2) obtain n where n: "m_heap t a = Some n" "m_data n = v" by (auto simp: data_of_def)
  let ?t = "t\<lparr>m_heap := (m_heap t)(a \<mapsto> n\<lparr>m_data := f (m_data n)\<rparr>)\<rparr>"
  have d: "data_of ?t = (data_of t)(a \<mapsto> f v)" using n by (auto simp: data_of_def fun_eq_iff)
  have "rep ?t (map fst L)"
    by (rule rep_same_links[of t]) (use assms(1) n in \<open>auto simp: holds_def renamed_def option.map_id split: if_splits\<close>)
  then have "holds ?t (write_list a f L)" using assms d n unfolding holds_def fst_write_list
    by (auto simp: write_list_def)
  then show ?thesis using d n by (auto simp: set_data_live)
qed

lemma free_node_holds:
  assumes "holds t L" "data_of t a = Some v" "a \<notin> fst ` set L"
  shows "\<exists>t'. free_node t a = Some t' \<and> holds t' L \<and> data_of t' = (data_of t)(a := None)"
proof -
  from assms(2) obtain n where n: "m_heap t a = Some n" by (auto simp: data_of_def)
  let ?t = "t\<lparr>m_heap := (m_heap t)(a := None)\<rparr>"
  have d: "data_of ?t = (data_of t)(a := None)" by (auto simp: data_of_def fun_eq_iff)
  have "rep ?t (map fst L)"
    by (rule rep_same_links[of t]) (use assms(1,3) n in \<open>auto simp: holds_def renamed_def option.map_id split: if_splits\<close>)
  then have "holds ?t L" using assms d unfolding holds_def by force
  then show ?thesis using d n by (auto simp: free_node_def)
qed

lemma holds_upd:
  assumes "rep t' (map fst (us @ (a, v) # vs))" "data_of t' = (data_of t)(a \<mapsto> v)" "holds t (us @ vs)" "m_deleter t' = m_deleter t"
    "a \<notin> fst ` set (us @ vs)"
  shows "holds t' (us @ (a, v) # vs)"
  using assms unfolding holds_def by force

lemma find_holds:
  fixes key :: "'v \<Rightarrow> 'k::linorder"
  assumes h: "holds t L" and s: "ksorted key L"
  shows "(\<exists>us a u vs w. L = us @ (a, u) # vs \<and> key u = key v \<and> find (cmp_by key) t v = Some (Some a, w)) \<or>
      (\<exists>us vs w. L = us @ vs \<and> below key us (key v) \<and> above key (key v) vs \<and>
         find (cmp_by key) t v = Some (None, w) \<and> gap t w (map fst us) (map fst vs))"
proof -
  have "rep t (map fst L)" using h by (simp add: holds_def)
  from find_ok[OF this key_sorted_holds[OF h s], of v] show ?thesis
  proof (elim disjE bexE exE conjE)
    fix a assume a: "a \<in> set (map fst L)" "key_at key t a = key v" "find (cmp_by key) t v = Some (Some a, null_point)"
    then obtain u where u: "(a, u) \<in> set L" by auto
    then obtain us vs where "L = us @ (a, u) # vs" by (meson split_list)
    moreover have "key u = key v" using holds_key[OF h u, of key] a(2) by simp
    ultimately show ?thesis using a(3) by blast
  next
    fix ip xs ys assume f: "find (cmp_by key) t v = Some (None, ip)" "map fst L = xs @ ys" "gap t ip xs ys"
      "\<forall>x \<in> set xs. key_at key t x < key v" "\<forall>x \<in> set ys. key v < key_at key t x"
    obtain us vs where L: "L = us @ vs" "map fst us = xs" "map fst vs = ys"
      using f(2) by (metis map_eq_append_conv)
    have "below key us (key v)" "above key (key v) vs"
      using f(4,5) holds_key[OF h, of _ key] L by force+
    then show ?thesis using f L by blast
  qed
qed

lemma insert_holds:
  assumes "holds t (us @ vs)" "gap t w (map fst us) (map fst vs)"
  shows "\<exists>a t'. insert_at t v w = Some (a, t') \<and> data_of t a = None \<and> holds t' (us @ (a, v) # vs) \<and>
    data_of t' = (data_of t)(a \<mapsto> v)"
proof -
  have r: "rep t (map fst us @ map fst vs)" using assms(1) by (simp add: holds_def)
  from insert_at_ok[OF r assms(2), of v] obtain t' where t': "insert_at t v w = Some (m_brk t, t')"
    "rep t' (map fst us @ m_brk t # map fst vs)" "data_of t' = (data_of t)(m_brk t \<mapsto> v)" "m_deleter t' = m_deleter t" by blast
  have out: "m_brk t \<notin> fst ` set (us @ vs)" using rep_brk_notin[OF r] by auto
  have "data_of t (m_brk t) = None"
    using rep_brk[OF r] by (metis data_of_def less_irrefl map_option_is_None option.exhaust)
  then show ?thesis using t' holds_upd[OF _ t'(3) assms(1) t'(4) out] by simp
qed

lemma insert_after_holds:
  assumes "holds t (us @ (b, u) # vs)"
  shows "\<exists>a t'. insert_here t v b AFTER = Some (a, t') \<and> data_of t a = None \<and>
    holds t' (us @ (b, u) # (a, v) # vs) \<and> data_of t' = (data_of t)(a \<mapsto> v)"
proof -
  have r: "rep t (map fst us @ b # map fst vs)" using assms(1) by (simp add: holds_def)
  from insert_here_after_ok[OF r, of v] obtain t' where t': "insert_here t v b AFTER = Some (m_brk t, t')"
    "rep t' (map fst us @ b # m_brk t # map fst vs)" "data_of t' = (data_of t)(m_brk t \<mapsto> v)" "m_deleter t' = m_deleter t" by blast
  have out: "m_brk t \<notin> fst ` set ((us @ [(b, u)]) @ vs)" using rep_brk_notin[OF r] by auto
  have h: "holds t ((us @ [(b, u)]) @ vs)" using assms by simp
  have "data_of t (m_brk t) = None"
    using rep_brk[OF r] by (metis data_of_def less_irrefl map_option_is_None option.exhaust)
  then show ?thesis using t' holds_upd[OF _ t'(3) h t'(4) out] by simp
qed

lemma remove_holds:
  assumes "holds t (us @ (a, v) # vs)" "length (us @ (a, v) # vs) < 2 ^ 32" "\<not> two_children t a"
  shows "\<exists>t'. remove_node t (Some a) = Some t' \<and> holds t' (us @ vs) \<and> data_of t' = data_of t"
proof -
  have r: "rep t (map fst us @ a # map fst vs)" and k: "m_deleter t = (\<lambda>_ h. h)" using assms(1) by (auto simp: holds_def)
  from remove_node_ok[OF r keep_local[OF k] _ assms(3)] assms(2) obtain t' where
    t': "remove_node t (Some a) = Some t'" "rep t' (map fst us @ map fst vs)"
      "data_of t' = (data_of t)(a := map_option m_data (id (m_heap t a)))" "m_deleter t' = m_deleter t" by auto
  have d: "data_of t' = data_of t" using t'(3) by (auto simp: data_of_def fun_eq_iff)
  then show ?thesis using t' assms(1) by (auto simp: holds_def)
qed

interpretation avl: ordered_index holds data_of key "find (cmp_by key)" gap
  "\<lambda>t w. nearest t w BEFORE" "\<lambda>t w. nearest t w AFTER" next_elem insert_at
  "\<lambda>t v b. insert_here t v b AFTER" two_children "\<lambda>t a. remove_node t (Some a)" set_data free_node
  for key :: "'v \<Rightarrow> 'k::linorder"
proof
  show "holds t L \<Longrightarrow> distinct (map fst L)" for t :: "'v avltree" and L
    using rep_distinct by (auto simp: holds_def)
  show "holds t L \<Longrightarrow> (a, v) \<in> set L \<Longrightarrow> data_of t a = Some v" for t :: "'v avltree" and L a v
    by (force simp: holds_def)
  show "nearest t w BEFORE = Some (last_opt (map fst us))"
    if "holds t (us @ vs)" "gap t w (map fst us) (map fst vs)" "us @ vs \<noteq> []" for t :: "'v avltree" and us vs w
    using nearest_ok(2)[of t "map fst us" "map fst vs" w] that by (simp add: holds_def)
  show "nearest t w AFTER = Some (hd_opt (map fst vs))"
    if "holds t (us @ vs)" "gap t w (map fst us) (map fst vs)" "us @ vs \<noteq> []" for t :: "'v avltree" and us vs w
    using nearest_ok(1)[of t "map fst us" "map fst vs" w] that by (simp add: holds_def)
  show "next_elem t a = Some (hd_opt (map fst vs))"
    if "holds t (us @ (a, v) # vs)" for t :: "'v avltree" and us a v vs
    using next_elem_ok[of t "map fst us" a "map fst vs"] that by (simp add: holds_def)
  show "us \<noteq> [] \<and> vs \<noteq> []"
    if "holds t (us @ (a, v) # vs)" "two_children t a" for t :: "'v avltree" and us a v vs
    using two_children_between[of t "map fst us" a "map fst vs"] that by (simp add: holds_def)
qed (rule find_holds insert_holds insert_after_holds remove_holds remove_node_two set_data_holds free_node_holds; assumption)+

end
