(* ===== verification/Avl_Props.thy ===== *)
theory Avl_Props
  imports Avl_Index
begin

text \<open>
  The properties of the AVL tree as its clients see them: insertion, removal, search and
  neighbours on the ordered list of nodes, its height, and the tree as an implementation
  of a set of keys under any sequence of insertions and removals.
\<close>

section \<open>Removal by key\<close>

lemma remove_present:
  fixes key :: "'a \<Rightarrow> 'k::linorder"
  assumes "rep t xs" "key_sorted key t xs" "x \<in> set xs" "key_at key t x = key v"
  shows "\<exists>a \<in> set xs. key_at key t a = key v \<and> remove (cmp_by key) t v = remove_node t (Some a)"
proof -
  from assms(1) obtain T w where T: "avl_at (m_heap t) None w (m_root t) T" "inorder T = xs" "set_tree T = set xs"
    by (rule rep_tree)
  have sT: "key_sorted key t (inorder T)" using assms(2) T by simp
  from find_loop_ok[OF T(1) sT, of v None LEFT] show ?thesis
  proof (elim disjE bexE exE conjE)
    fix a assume "a \<in> set_tree T" "key_at key t a = key v"
      "find_loop (cmp_by key) t v (m_root t) None LEFT = Some (Some a, \<lparr>ip_parent = Some a, ip_child = NONE\<rparr>)"
    then show ?thesis using T(3) by (intro bexI[of _ a]) (auto simp: remove_def find_node_def remove_at_def)
  next
    fix ip us vs assume *: "inorder T = us @ vs" "\<forall>x \<in> set us. key_at key t x < key v" "\<forall>x \<in> set vs. key v < key_at key t x"
    then have "x \<in> set us \<union> set vs" using assms(3) T(2) by auto
    then show ?thesis using * assms(4) by force
  qed
qed

section \<open>Height\<close>

lemma avl_height_size: "avl_at h par w p T \<Longrightarrow> 2 ^ (height T div 2) \<le> size T + 1"
proof (induction T arbitrary: par w p)
  case (Node l a r)
  then have IH: "2 ^ (height l div 2) \<le> size l + 1" "2 ^ (height r div 2) \<le> size r + 1" and
    b: "\<bar>int (height r) - int (height l)\<bar> \<le> 1" by auto
  define m where "m = max (height l) (height r)"
  have "2 ^ (Suc m div 2) \<le> (2 :: nat) ^ (height l div 2) + 2 ^ (height r div 2)"
  proof (cases "even m")
    case True
    then have "Suc m div 2 = m div 2" by simp
    then show ?thesis unfolding m_def by (simp add: max_def)
  next
    case False
    then obtain k where k: "m = 2 * k + 1" by (elim oddE)
    then have "height l div 2 \<ge> k" "height r div 2 \<ge> k" using b unfolding m_def by auto
    then have "(2 :: nat) ^ k \<le> 2 ^ (height l div 2)" "(2 :: nat) ^ k \<le> 2 ^ (height r div 2)" by (simp_all add: power_increasing)
    then have "2 * 2 ^ k \<le> (2 :: nat) ^ (height l div 2) + 2 ^ (height r div 2)" by linarith
    then show ?thesis using k by simp
  qed
  then show ?case using IH by (simp add: m_def)
qed simp

section \<open>A set of keys\<close>

datatype 'a op = Add 'a | Remove 'a

text \<open>A client adds an element only if its search has not found one with the same key.\<close>

definition run_op :: "('a \<Rightarrow> 'a \<Rightarrow> int) \<Rightarrow> 'a op \<Rightarrow> 'a avltree \<Rightarrow> 'a avltree option" where
  "run_op cmp o1 t = (case o1 of
      Add v \<Rightarrow> do { (res, w) \<leftarrow> find cmp t v;
        case res of Some _ \<Rightarrow> Some t | None \<Rightarrow> do { (_, t) \<leftarrow> insert_at t v w; Some t } }
    | Remove v \<Rightarrow> remove cmp t v)"

fun run_ops :: "('a \<Rightarrow> 'a \<Rightarrow> int) \<Rightarrow> 'a op list \<Rightarrow> 'a avltree \<Rightarrow> 'a avltree option" where
  "run_ops cmp [] t = Some t"
| "run_ops cmp (o1 # os) t = do { t \<leftarrow> run_op cmp o1 t; run_ops cmp os t }"

text \<open>The specification: a set of keys.\<close>

fun op_set :: "('a \<Rightarrow> 'k) \<Rightarrow> 'a op \<Rightarrow> 'k set \<Rightarrow> 'k set" where
  "op_set key (Add v) K = insert (key v) K"
| "op_set key (Remove v) K = K - {key v}"

definition keys_of :: "('a \<Rightarrow> 'k) \<Rightarrow> 'a avltree \<Rightarrow> addr list \<Rightarrow> 'k list" where
  "keys_of key t xs = map (key_at key t) xs"

definition is_set :: "('a \<Rightarrow> 'k::linorder) \<Rightarrow> 'a avltree \<Rightarrow> 'k set \<Rightarrow> bool" where
  "is_set key t K \<longleftrightarrow> (\<exists>xs. rep t xs \<and> key_sorted key t xs \<and> set (keys_of key t xs) = K) \<and> m_deleter t = default_delete"

lemma key_at_other: "data_of t' = (data_of t)(a := d) \<Longrightarrow> x \<noteq> a \<Longrightarrow> key_at key t' x = key_at key t x"
  by (simp add: key_at_def)

lemma map_key_other: "data_of t' = (data_of t)(a := d) \<Longrightarrow> a \<notin> set xs \<Longrightarrow> map (key_at key t') xs = map (key_at key t) xs"
  by (auto simp: key_at_def)

lemma sorted_other:
  assumes "data_of t' = (data_of t)(a := d)" "a \<notin> set xs"
  shows "key_sorted key t' xs \<longleftrightarrow> key_sorted key t xs"
  using map_key_other[OF assms, of key] unfolding key_sorted_def by (metis sorted_wrt_map)

lemma is_set_card: "rep t xs \<Longrightarrow> key_sorted key t xs \<Longrightarrow> length xs = card (set (keys_of key t xs))"
proof -
  assume "rep t xs" "key_sorted key t xs"
  then have "distinct (keys_of key t xs)"
    unfolding keys_of_def key_sorted_def using strict_sorted_iff[of "map (key_at key t) xs"] by (simp add: sorted_wrt_map)
  then show ?thesis using distinct_card[of "keys_of key t xs"] by (simp add: keys_of_def)
qed

lemma run_add:
  assumes s: "is_set key t K"
  shows "\<exists>t'. run_op (cmp_by key) (Add v) t = Some t' \<and> is_set key t' (insert (key v) K)"
proof -
  from s obtain xs where xs: "rep t xs" "key_sorted key t xs" "set (keys_of key t xs) = K" "m_deleter t = default_delete"
    by (auto simp: is_set_def)
  from find_ok[OF xs(1,2), of v] show ?thesis
  proof (elim disjE bexE exE conjE)
    fix a assume a: "a \<in> set xs" "key_at key t a = key v" "find (cmp_by key) t v = Some (Some a, null_point)"
    then have "key v \<in> K" using xs(3) by (force simp: keys_of_def)
    then show ?thesis using a(3) s by (auto simp: run_op_def insert_absorb)
  next
    fix ip us vs assume f: "find (cmp_by key) t v = Some (None, ip)" "xs = us @ vs" "gap t ip us vs"
      "\<forall>x \<in> set us. key_at key t x < key v" "\<forall>x \<in> set vs. key v < key_at key t x"
    have r: "rep t (us @ vs)" using xs(1) f(2) by simp
    let ?n = "m_brk t"
    from insert_at_ok[OF r f(3), of v] obtain t' where t': "insert_at t v ip = Some (?n, t')" "rep t' (us @ ?n # vs)"
      "data_of t' = (data_of t)(?n \<mapsto> v)" "m_deleter t' = m_deleter t" by blast
    have out: "?n \<notin> set us" "?n \<notin> set vs" using rep_brk_notin[OF r] by auto
    have k: "key_at key t' ?n = key v" "\<And>x. x \<in> set us \<union> set vs \<Longrightarrow> key_at key t' x = key_at key t x"
      using t'(3) out key_at_other[OF t'(3)] by (auto simp: key_at_def)
    have "key_sorted key t' us" "key_sorted key t' vs" "\<forall>x \<in> set us. \<forall>y \<in> set vs. key_at key t' x < key_at key t' y"
      using xs(2) f(2) sorted_other[OF t'(3)] out k(2) by (auto simp: key_sorted_def sorted_wrt_append)
    then have "key_sorted key t' (us @ ?n # vs)" using k f(4,5) by (auto simp: key_sorted_def sorted_wrt_append)
    moreover have "set (keys_of key t' (us @ ?n # vs)) = insert (key v) K"
      using xs(3) f(2) k map_key_other[OF t'(3)] out by (auto simp: keys_of_def)
    ultimately have "is_set key t' (insert (key v) K)" using t'(2,4) xs(4) unfolding is_set_def by auto
    then show ?thesis using f(1) t'(1) by (auto simp: run_op_def)
  qed
qed

lemma run_remove:
  assumes s: "is_set key t K" and len: "card K < 2 ^ 32"
  shows "(\<exists>t'. run_op (cmp_by key) (Remove v) t = Some t' \<and> is_set key t' (K - {key v})) \<or>
    (\<exists>a. two_children t a \<and> key_at key t a = key v) \<and> run_op (cmp_by key) (Remove v) t = None"
proof -
  from s obtain xs where xs: "rep t xs" "key_sorted key t xs" "set (keys_of key t xs) = K" "m_deleter t = default_delete"
    by (auto simp: is_set_def)
  show ?thesis
  proof (cases "key v \<in> K")
    case False
    then have "\<forall>x \<in> set xs. key_at key t x \<noteq> key v" using xs(3) by (force simp: keys_of_def)
    from remove_absent[OF xs(1,2) this] show ?thesis using s False by (simp add: run_op_def)
  next
    case True
    then obtain x where "x \<in> set xs" "key_at key t x = key v" using xs(3) by (auto simp: keys_of_def)
    from remove_present[OF xs(1,2) this] obtain a where a: "a \<in> set xs" "key_at key t a = key v"
      "remove (cmp_by key) t v = remove_node t (Some a)" by blast
    show ?thesis
    proof (cases "two_children t a")
      case True
      then show ?thesis using a remove_node_two[OF True] by (auto simp: run_op_def)
    next
      case False
      obtain us vs where L: "xs = us @ a # vs" using a(1) by (meson split_list)
      have r: "rep t (us @ a # vs)" using xs(1) L by simp
      have d: "local_deleter (m_deleter t) (\<lambda>_. None)" using xs(4) by (simp add: local_deleter_def default_delete_def)
      have "length (us @ a # vs) < 2 ^ 32" using is_set_card[OF xs(1,2)] xs(3) len L by simp
      from remove_node_ok[OF r d this False] obtain t' where t': "remove_node t (Some a) = Some t'" "rep t' (us @ vs)"
        "data_of t' = (data_of t)(a := None)" "m_deleter t' = m_deleter t" by auto
      have out: "a \<notin> set (us @ vs)" using rep_distinct[OF r] by auto
      have srt: "key_sorted key t (us @ vs)" "\<forall>x \<in> set (us @ vs). key_at key t x \<noteq> key_at key t a"
        using xs(2) L by (auto simp: key_sorted_def sorted_wrt_append)
      then have "key_sorted key t' (us @ vs)" using sorted_other[OF t'(3) out, of key] by simp
      moreover have "set (keys_of key t' (us @ vs)) = K - {key v}"
        using xs(3) L srt(2) a(2) map_key_other[OF t'(3) out, of key] by (auto simp: keys_of_def)
      ultimately have "is_set key t' (K - {key v})" using t'(2,4) xs(4) unfolding is_set_def by auto
      then show ?thesis using a(3) t'(1) by (simp add: run_op_def)
    qed
  qed
qed

lemma is_set_keys:
  assumes "is_set key t K"
  shows "\<exists>xs. rep t xs \<and> keys_of key t xs = sorted_list_of_set K"
proof -
  from assms obtain xs where xs: "rep t xs" "key_sorted key t xs" "set (keys_of key t xs) = K" by (auto simp: is_set_def)
  have "sorted_wrt (<) (keys_of key t xs)" using xs(2) by (simp add: key_sorted_def keys_of_def sorted_wrt_map)
  then have "keys_of key t xs = sorted_list_of_set K"
    using xs(3) sorted_list_of_set.idem_if_sorted_distinct[of "keys_of key t xs"] by (simp add: strict_sorted_iff)
  then show ?thesis using xs(1) by blast
qed

lemma empty_is_set: "is_set key (empty_tree default_delete) {}"
  by (auto simp: is_set_def keys_of_def key_sorted_def intro!: exI[of _ "[]"]) (simp add: empty_tree_def)

lemma is_set_height:
  assumes "is_set key t K"
  shows "\<exists>T. shape t T \<and> 2 ^ (height T div 2) \<le> card K + 1"
proof -
  from assms obtain xs where xs: "rep t xs" "key_sorted key t xs" "set (keys_of key t xs) = K" by (auto simp: is_set_def)
  obtain T w where T: "avl_at (m_heap t) None w (m_root t) T" "inorder T = xs" by (rule rep_tree[OF xs(1)])
  have "size T = card K" using T(2) is_set_card[OF xs(1,2)] xs(3) by (simp flip: length_inorder)
  then show ?thesis using T(1) avl_height_size[OF T(1)] by (auto simp: shape_def)
qed

lemma card_op_set: "finite K \<Longrightarrow> card (op_set key o1 K) \<le> Suc (card K) \<and> finite (op_set key o1 K)"
  by (cases o1) (auto simp: card_insert_if le_SucI card_Diff1_le le_trans[OF card_mono])

text \<open>
  A sequence stops where it removes a node with two children: the operations before that
  removal have run.
\<close>

definition stops :: "('a \<Rightarrow> 'k::linorder) \<Rightarrow> 'a op list \<Rightarrow> 'a avltree \<Rightarrow> 'k set \<Rightarrow> bool" where
  "stops key os t K \<longleftrightarrow> (\<exists>us v vs t1 a. os = us @ Remove v # vs \<and> run_ops (cmp_by key) us t = Some t1 \<and>
     is_set key t1 (fold (op_set key) us K) \<and> two_children t1 a \<and> key_at key t1 a = key v)"

lemma stops_Cons:
  assumes "run_op (cmp_by key) o1 t = Some t1" "stops key os t1 (op_set key o1 K)"
  shows "stops key (o1 # os) t K"
proof -
  from assms(2) obtain us v vs t2 a where "os = us @ Remove v # vs" "run_ops (cmp_by key) us t1 = Some t2"
    "is_set key t2 (fold (op_set key) us (op_set key o1 K))" "two_children t2 a" "key_at key t2 a = key v"
    unfolding stops_def by blast
  then show ?thesis unfolding stops_def using assms(1)
    by (intro exI[of _ "o1 # us"] exI[of _ v] exI[of _ vs] exI[of _ t2] exI[of _ a]) simp
qed

lemma run_ops_ok:
  assumes "is_set key t K" "finite K" "card K + length os < 2 ^ 32"
  shows "(\<exists>t'. run_ops (cmp_by key) os t = Some t' \<and> is_set key t' (fold (op_set key) os K)) \<or>
    run_ops (cmp_by key) os t = None \<and> stops key os t K"
  using assms
proof (induction os arbitrary: t K)
  case (Cons o1 os)
  have "(\<exists>t1. run_op (cmp_by key) o1 t = Some t1 \<and> is_set key t1 (op_set key o1 K)) \<or>
      run_op (cmp_by key) o1 t = None \<and> stops key (o1 # os) t K"
  proof (cases o1)
    case (Remove v)
    have "stops key (Remove v # os) t K" if "two_children t a" "key_at key t a = key v" for a
      unfolding stops_def using Cons.prems(1) that by (intro exI[of _ "[]"] exI[of _ v] exI[of _ os] exI[of _ t] exI[of _ a]) simp
    then show ?thesis using run_remove[OF Cons.prems(1), of v] Cons.prems(3) Remove by auto
  qed (use run_add[OF Cons.prems(1)] in auto)
  then show ?case
  proof (elim disjE exE conjE)
    fix t1 assume t1: "run_op (cmp_by key) o1 t = Some t1" "is_set key t1 (op_set key o1 K)"
    have "card (op_set key o1 K) + length os < 2 ^ 32" "finite (op_set key o1 K)"
      using card_op_set[OF Cons.prems(2), of key o1] Cons.prems(3) by auto
    from Cons.IH[OF t1(2) this(2,1)] show ?case using t1(1) stops_Cons[OF t1(1), of os K] by auto
  qed simp
qed simp

section \<open>Properties\<close>

text \<open>A tree of three nodes, for the instances below.\<close>

definition ex_node :: "addr option \<Rightarrow> addr option \<Rightarrow> addr option \<Rightarrow> child \<Rightarrow> int \<Rightarrow> int node" where
  "ex_node l r p w d = \<lparr>m_children = (\<lambda>c. if c = LEFT then l else if c = RIGHT then r else None), m_parent = p,
     m_which_child = w, m_balance = 0, m_data = d\<rparr>"

definition ex_tree :: "int avltree" where
  "ex_tree = \<lparr>m_root = Some 1, m_num_nodes = 3, m_deleter = default_delete,
     m_heap = [0 \<mapsto> ex_node None None (Some 1) LEFT 10, 1 \<mapsto> ex_node (Some 0) (Some 2) None LEFT 20,
               2 \<mapsto> ex_node None None (Some 1) RIGHT 30], m_brk = 3\<rparr>"

lemma ex_tree_rep: "rep ex_tree [0, 1, 2]"
proof -
  have "avl_at (m_heap ex_tree) None LEFT (m_root ex_tree) (Node (Node Leaf 0 Leaf) 1 (Node Leaf 2 Leaf))"
    by (simp add: ex_tree_def ex_node_def)
  moreover have "m_heap ex_tree x \<noteq> None \<Longrightarrow> x < 3" for x by (auto simp: ex_tree_def split: if_splits)
  ultimately show ?thesis unfolding rep_def shape_def
    by (auto simp: ex_tree_def intro!: exI[of _ "Node (Node Leaf 0 Leaf) 1 (Node Leaf 2 Leaf)"])
qed

lemma ex_tree_sorted: "key_sorted (\<lambda>x. x) ex_tree [0, 1, 2]"
  by (simp add: key_sorted_def key_at_def data_of_def ex_tree_def ex_node_def)

lemma ex_tree_data: "data_of ex_tree 0 = Some 10" "data_of ex_tree (Suc 0) = Some 20" "data_of ex_tree 2 = Some 30"
  by (simp_all add: data_of_def ex_tree_def ex_node_def)

text \<open>
  \<open>add\<close> on a balanced ordered tree that has no element with the key of \<open>v\<close> returns a new
  node, and the tree is again balanced and ordered, with the new node in its place in the
  order and every other node and payload unchanged.  In particular every pointer it
  follows is live, its assertions hold and its loops end.
\<close>

theorem avl_add:
  fixes key :: "'a \<Rightarrow> 'k::linorder"
  assumes "rep t xs" "key_sorted key t xs" "\<forall>x \<in> set xs. key_at key t x \<noteq> key v"
  shows "\<exists>a t' us vs. add (cmp_by key) t v = Some (a, t') \<and> xs = us @ vs \<and> a \<notin> set xs \<and>
    rep t' (us @ a # vs) \<and> key_sorted key t' (us @ a # vs) \<and> data_of t' = (data_of t)(a \<mapsto> v)"
proof -
  let ?n = "m_brk t"
  from add_ok[OF assms] obtain t' us vs where r: "add (cmp_by key) t v = Some (?n, t')" "xs = us @ vs"
    "\<forall>x \<in> set us. key_at key t x < key v" "\<forall>x \<in> set vs. key v < key_at key t x"
    "rep t' (us @ ?n # vs)" "data_of t' = (data_of t)(?n \<mapsto> v)" by blast
  have out: "?n \<notin> set xs" by (rule rep_brk_notin[OF assms(1)])
  have k: "key_at key t' ?n = key v" "\<And>x. x \<in> set xs \<Longrightarrow> key_at key t' x = key_at key t x"
    using r(6) out by (auto simp: key_at_def)
  have "key_sorted key t' us" "key_sorted key t' vs" "\<forall>x \<in> set us. \<forall>y \<in> set vs. key_at key t' x < key_at key t' y"
    using assms(2) r(2) sorted_other[OF r(6)] out k(2) by (auto simp: key_sorted_def sorted_wrt_append)
  then have "key_sorted key t' (us @ ?n # vs)" using k r(2-4) by (auto simp: key_sorted_def sorted_wrt_append)
  then show ?thesis using r out by blast
qed

theorem avl_add_witness:
  "\<exists>a t' us vs. add (cmp_by (\<lambda>x. x)) ex_tree 25 = Some (a, t') \<and> [0, 1, 2] = us @ vs \<and> a \<notin> set [0, 1, 2] \<and>
    rep t' (us @ a # vs) \<and> key_sorted (\<lambda>x. x) t' (us @ a # vs) \<and> data_of t' = (data_of ex_tree)(a \<mapsto> 25)"
  by (rule avl_add[OF ex_tree_rep ex_tree_sorted]) (simp add: key_at_def ex_tree_data)

text \<open>
  C6: \<open>remove_node\<close> on a node of a balanced tree (of fewer than \<open>2^32\<close> nodes) that does not have two
  children takes exactly that node out of the order and frees it; the rest is a balanced tree
  with the same payloads.  On a node with two children it is undefined, because it reads the
  local variable \<open>tmp\<close> after its block; the block itself is right, since cutting out the copy
  while its slot still exists would give the same result as for any other node.
\<close>

theorem avl_remove_node:
  assumes "rep t (us @ a # vs)" "m_deleter t = default_delete" "length (us @ a # vs) < 2 ^ 32" "m_heap t a = Some rm"
  shows "if m_children rm LEFT \<noteq> None \<and> m_children rm RIGHT \<noteq> None
    then remove_node t (Some a) = None \<and>
      (\<exists>tmp t1 t2 t'. swap_out t a rm = Some (tmp, t1) \<and> cut_out t1 a tmp = Some t2 \<and>
         t' = t2\<lparr>m_heap := (m_heap t2)(tmp := None)\<rparr> \<and> rep t' (us @ vs) \<and> data_of t' = (data_of t)(a := None))
    else \<exists>t'. remove_node t (Some a) = Some t' \<and> rep t' (us @ vs) \<and> data_of t' = (data_of t)(a := None) \<and>
      m_num_nodes t' = m_num_nodes t - 1"
proof -
  have d: "local_deleter (m_deleter t) (\<lambda>_. None)" using assms(2) by (simp add: local_deleter_def default_delete_def)
  have num: "m_num_nodes t' = m_num_nodes t - 1" if "rep t' (us @ vs)" for t' :: "'a avltree"
    using assms(1) that by (simp add: rep_def)
  show ?thesis
  proof (cases "two_children t a")
    case True
    then have "m_children rm LEFT \<noteq> None" "m_children rm RIGHT \<noteq> None" using assms(4) by (auto simp: two_children_def)
    then show ?thesis using remove_node_two[OF True] swap_cut_ok[OF assms(1) d assms(3,4)] by auto
  next
    case False
    then have "\<not> (m_children rm LEFT \<noteq> None \<and> m_children rm RIGHT \<noteq> None)" using assms(4) by (auto simp: two_children_def)
    then show ?thesis using remove_node_ok[OF assms(1) d assms(3) False] num by auto
  qed
qed

theorem avl_remove_node_witness:
  "(\<exists>t'. remove_node ex_tree (Some 0) = Some t' \<and> rep t' [1, 2] \<and> data_of t' = (data_of ex_tree)(0 := None) \<and>
     m_num_nodes t' = m_num_nodes ex_tree - 1) \<and> remove_node ex_tree (Some 1) = None"
  using avl_remove_node[of ex_tree "[]" 0 "[1, 2]" "ex_node None None (Some 1) LEFT 10"]
    avl_remove_node[of ex_tree "[0]" 1 "[2]" "ex_node (Some 0) (Some 2) None LEFT 20"] ex_tree_rep
  by (simp add: ex_tree_def ex_node_def)

text \<open>
  \<open>find\<close> on a balanced ordered tree returns a node with the key it is asked for if there is
  one, and otherwise a null pointer and the insertion point that separates the smaller
  from the greater keys.
\<close>

theorem avl_find:
  fixes key :: "'a \<Rightarrow> 'k::linorder"
  assumes "rep t xs" "key_sorted key t xs"
  shows "\<exists>res w. find (cmp_by key) t v = Some (res, w) \<and>
    (case res of Some a \<Rightarrow> a \<in> set xs \<and> key_at key t a = key v
     | None \<Rightarrow> key v \<notin> set (keys_of key t xs) \<and>
         (\<exists>us vs. xs = us @ vs \<and> gap t w us vs \<and> (\<forall>x \<in> set us. key_at key t x < key v) \<and> (\<forall>x \<in> set vs. key v < key_at key t x)))"
  using find_ok[OF assms, of v]
proof (elim disjE bexE exE conjE)
  fix ip us vs assume f: "find (cmp_by key) t v = Some (None, ip)" "xs = us @ vs" "gap t ip us vs"
    "\<forall>x \<in> set us. key_at key t x < key v" "\<forall>x \<in> set vs. key v < key_at key t x"
  then have "key v \<notin> set (keys_of key t xs)" by (force simp: keys_of_def)
  then show ?thesis using f by auto
qed auto

theorem avl_find_witness:
  "\<exists>res w. find (cmp_by (\<lambda>x. x)) ex_tree 20 = Some (res, w) \<and>
    (case res of Some a \<Rightarrow> a \<in> set [0, 1, 2] \<and> key_at (\<lambda>x. x) ex_tree a = 20
     | None \<Rightarrow> 20 \<notin> set (keys_of (\<lambda>x. x) ex_tree [0, 1, 2]) \<and>
         (\<exists>us vs. [0, 1, 2] = us @ vs \<and> gap ex_tree w us vs \<and> (\<forall>x \<in> set us. key_at (\<lambda>x. x) ex_tree x < 20) \<and>
            (\<forall>x \<in> set vs. 20 < key_at (\<lambda>x. x) ex_tree x)))"
  by (rule avl_find[OF ex_tree_rep ex_tree_sorted])

text \<open>
  On a balanced tree, \<open>next\<close> and \<open>prev\<close> of a node return its neighbours in the order (null
  at the ends), and \<open>first_node\<close> and \<open>last_node\<close> the two ends.
\<close>

theorem avl_neighbours:
  assumes "rep t (us @ a # vs)"
  shows "next_elem t a = Some (hd_opt vs) \<and> prev_elem t a = Some (last_opt us) \<and>
    first_node t = Some (Some (hd (us @ [a]))) \<and> last_node t = Some (Some (last (a # vs)))"
  using next_elem_ok[OF assms] prev_elem_ok[OF assms] first_node_ok[OF assms] last_node_ok[OF assms]
  by (cases us; cases vs rule: rev_cases) auto

theorem avl_neighbours_witness:
  "next_elem ex_tree 1 = Some (hd_opt [2]) \<and> prev_elem ex_tree 1 = Some (last_opt [0]) \<and>
    first_node ex_tree = Some (Some (hd ([0] @ [1]))) \<and> last_node ex_tree = Some (Some (last [1, 2]))"
  by (rule avl_neighbours[of ex_tree "[0]" 1 "[2]"]) (use ex_tree_rep in simp)

text \<open>
  C5: Starting from the empty tree, every sequence of fewer than \<open>2^32\<close> insertions (of keys the
  search has not found) and removals by key either runs to its end, and then the keys of the
  tree, in the order of its nodes, are the sorted list of the set the same sequence computes;
  or it is undefined, and then it has a removal of a node with two children, up to which it
  has run with the set computed so far.
\<close>

theorem avl_implements_set:
  fixes key :: "'a \<Rightarrow> 'k::linorder"
  assumes "length os < 2 ^ 32"
  shows "case run_ops (cmp_by key) os (empty_tree default_delete) of
      Some t \<Rightarrow> \<exists>xs. rep t xs \<and> keys_of key t xs = sorted_list_of_set (fold (op_set key) os {})
    | None \<Rightarrow> stops key os (empty_tree default_delete) {}"
proof -
  from run_ops_ok[OF empty_is_set, of os key] assms show ?thesis using is_set_keys by (auto split: option.split)
qed

theorem avl_implements_set_witness:
  "\<exists>t xs. run_ops (cmp_by (\<lambda>x :: int. x)) [Add 3, Add 1, Add 2, Remove 3] (empty_tree default_delete) = Some t \<and> rep t xs \<and>
    keys_of (\<lambda>x. x) t xs = sorted_list_of_set (fold (op_set (\<lambda>x. x)) [Add 3, Add 1, Add 2, Remove 3] {})"
proof -
  have "run_ops (cmp_by (\<lambda>x :: int. x)) [Add 3, Add 1, Add 2, Remove 3] (empty_tree default_delete) \<noteq> None" by code_simp
  then show ?thesis using avl_implements_set[of "[Add 3, Add 1, Add 2, Remove 3]" "\<lambda>x :: int. x"] by (auto split: option.splits)
qed

text \<open>
  C8: After every sequence of fewer than \<open>2^32\<close> insertions and removals by key that runs to its
  end, the tree has height at most \<open>2 log2 (n + 1) + 1\<close>, where \<open>n\<close> is the size of the set the
  sequence computes: insertion, removal and their rotations keep the search logarithmic.
\<close>

theorem avl_height_after_ops:
  fixes key :: "'a \<Rightarrow> 'k::linorder"
  assumes "length os < 2 ^ 32" "run_ops (cmp_by key) os (empty_tree default_delete) = Some t"
  shows "\<exists>T. shape t T \<and> 2 ^ (height T div 2) \<le> card (fold (op_set key) os {}) + 1"
  using run_ops_ok[OF empty_is_set, of os key] assms is_set_height by auto

theorem avl_height_after_ops_witness:
  "\<exists>t T. run_ops (cmp_by (\<lambda>x :: int. x)) [Add 1, Add 2, Add 3, Add 4, Remove 1] (empty_tree default_delete) = Some t \<and>
    shape t T \<and> 2 ^ (height T div 2) \<le> card (fold (op_set (\<lambda>x :: int. x)) [Add 1, Add 2, Add 3, Add 4, Remove 1] {}) + 1"
proof -
  have "run_ops (cmp_by (\<lambda>x :: int. x)) [Add 1, Add 2, Add 3, Add 4, Remove 1] (empty_tree default_delete) \<noteq> None" by code_simp
  then obtain t where t: "run_ops (cmp_by (\<lambda>x :: int. x)) [Add 1, Add 2, Add 3, Add 4, Remove 1] (empty_tree default_delete) = Some t"
    by blast
  from avl_height_after_ops[OF _ t] t show ?thesis by simp
qed

end
