(* ===== verification/Avl_Destroy.thy ===== *)
theory Avl_Destroy
  imports Avl_Props "HOL-Library.Multiset"
begin

text \<open>
  The destructor of the AVL tree (\<open>src/src/avl.hpp\<close>): \<open>destroy_nodes\<close> returns the nodes of the
  tree one after the other, the children of a node before the node, and the destructor deletes
  each as soon as it has it.  The cursor between two calls is the parent of the node that was
  returned last, and that node is not looked at again.
\<close>

section \<open>The destructor\<close>

text \<open>From the label \<open>done\<close> on.\<close>

definition destroy_done :: "'a avltree \<Rightarrow> addr \<Rightarrow> addr option \<Rightarrow> (addr option \<times> insertion_point \<times> 'a avltree) option" where
  "destroy_done t node parent = (case parent of
       None \<Rightarrow> if m_root t \<noteq> Some node then None else Some (Some node, \<lparr>ip_parent = None, ip_child = RIGHT\<rparr>, t)
     | Some p \<Rightarrow> do { n \<leftarrow> m_heap t node; Some (Some node, \<lparr>ip_parent = Some p, ip_child = m_which_child n\<rparr>, t) })"

text \<open>From the label \<open>check_right_side\<close> on.\<close>

definition destroy_check :: "'a avltree \<Rightarrow> addr \<Rightarrow> addr option \<Rightarrow> (addr option \<times> insertion_point \<times> 'a avltree) option" where
  "destroy_check t node parent = do {
     n \<leftarrow> m_heap t node;
     case m_children n RIGHT of
       Some r \<Rightarrow> if m_balance n \<noteq> 1 then None
         else do {
           c \<leftarrow> m_heap t r;
           if m_children c LEFT \<noteq> None \<or> m_children c RIGHT \<noteq> None then None else destroy_done t r (Some node) }
     | None \<Rightarrow> if m_balance n > 0 then None else destroy_done t node parent }"

partial_function (option) left_loop :: "'a avltree \<Rightarrow> addr \<Rightarrow> addr option \<Rightarrow> (addr \<times> addr option) option" where
  "left_loop t node parent = do {
     n \<leftarrow> m_heap t node;
     case m_children n LEFT of None \<Rightarrow> Some (node, parent) | Some b \<Rightarrow> left_loop t b (Some node) }"

definition destroy_nodes :: "'a avltree \<Rightarrow> insertion_point \<Rightarrow> (addr option \<times> insertion_point \<times> 'a avltree) option" where
  "destroy_nodes t current =
     (if current = null_point then do {
        first \<leftarrow> first_node t;
        case first of
          None \<Rightarrow> Some (None, \<lparr>ip_parent = None, ip_child = RIGHT\<rparr>, t)
        | Some a \<Rightarrow> do { n \<leftarrow> m_heap t a; destroy_check t a (m_parent n) } }
      else case ip_parent current of
          None \<Rightarrow> if m_root t \<noteq> None
            then if m_num_nodes t \<noteq> 1 then None else Some (None, current, t\<lparr>m_root := None, m_num_nodes := 0\<rparr>)
            else Some (None, current, t)
        | Some parent \<Rightarrow> do {
            t \<leftarrow> set_child t parent (ip_child current) None;
            if \<not> 1 < m_num_nodes t then None
            else do {
              let t = t\<lparr>m_num_nodes := m_num_nodes t - 1\<rparr>;
              p \<leftarrow> m_heap t parent;
              case m_children p RIGHT of
                None \<Rightarrow> destroy_done t parent (m_parent p)
              | Some r \<Rightarrow> if ip_child current = RIGHT then destroy_done t parent (m_parent p)
                  else do { (node, parent) \<leftarrow> left_loop t r (Some parent); destroy_check t node parent } } })"

partial_function (option) destroy_loop :: "'a avltree \<Rightarrow> insertion_point \<Rightarrow> 'a avltree option" where
  "destroy_loop t current = do {
     (node, current, t) \<leftarrow> destroy_nodes t current;
     case node of None \<Rightarrow> Some t | Some a \<Rightarrow> do { t \<leftarrow> free_node t a; destroy_loop t current } }"

definition destroy_tree :: "'a avltree \<Rightarrow> 'a avltree option" where
  "destroy_tree t = destroy_loop t null_point"

declare left_loop.simps [code] destroy_loop.simps [code]

section \<open>A tree that is half destroyed\<close>

text \<open>
  The frames above the node that was returned last: a frame on whose left side it was still has
  its right subtree, in a frame on whose right side it was the left subtree is gone.
\<close>

fun up :: "frame list \<Rightarrow> addr option" where
  "up [] = None"
| "up (Fr d a s # fs) = Some a"

fun side :: "frame list \<Rightarrow> child" where
  "side [] = RIGHT"
| "side (Fr d a s # fs) = d"

fun todo :: "frame list \<Rightarrow> addr list" where
  "todo [] = []"
| "todo (Fr d a s # fs) = a # inorder s @ todo fs"

fun remains :: "'a store \<Rightarrow> addr option \<Rightarrow> addr option \<Rightarrow> frame list \<Rightarrow> bool" where
  "remains h root p [] \<longleftrightarrow> root = p"
| "remains h root p (Fr d a s # fs) \<longleftrightarrow> (\<exists>n. h a = Some n \<and> m_children n d = p \<and>
     (if d = LEFT then avl_at h (Some a) RIGHT (m_children n RIGHT) s else d = RIGHT \<and> s = Leaf) \<and>
     m_parent n = up fs \<and> (fs \<noteq> [] \<longrightarrow> m_which_child n = side fs) \<and> remains h root (Some a) fs)"

lemma remains_upd:
  assumes "a \<notin> set (todo fs)"
  shows "remains (h(a := v)) root p fs = remains h root p fs"
  using assms by (induction h root p fs rule: remains.induct) auto

abbreviation cursor :: "frame list \<Rightarrow> insertion_point" where
  "cursor fs \<equiv> \<lparr>ip_parent = up fs, ip_child = side fs\<rparr>"

lemma leftmost:
  assumes "avl_at (m_heap t) (up fs) w (Some r) s" "fs \<noteq> [] \<longrightarrow> w = side fs" "remains (m_heap t) root (Some r) fs"
  shows "\<exists>x rr fs1 w1. left_loop t r (up fs) = Some (x, up fs1) \<and> avl_at (m_heap t) (up fs1) w1 (Some x) (Node Leaf x rr) \<and> (fs1 \<noteq> [] \<longrightarrow> w1 = side fs1) \<and>
    remains (m_heap t) root (Some x) fs1 \<and> mset (x # inorder rr @ todo fs1) = mset (inorder s @ todo fs) \<and> hd_opt (inorder s) = Some x"
  using assms
proof (induction s arbitrary: fs w r)
  case (Node l a rr)
  from Node.prems(1) obtain n where n: "r = a" "m_heap t a = Some n" "m_parent n = up fs" "m_which_child n = w"
    "avl_at (m_heap t) (Some a) LEFT (m_children n LEFT) l" "avl_at (m_heap t) (Some a) RIGHT (m_children n RIGHT) rr" by auto
  show ?case
  proof (cases l)
    case Leaf
    then have "left_loop t r (up fs) = Some (a, up fs)" using n by (subst left_loop.simps) simp
    then show ?thesis using Node.prems n Leaf by (intro exI[of _ a] exI[of _ rr] exI[of _ fs] exI[of _ w]) auto
  next
    case (Node l1 b l2)
    let ?fs = "Fr LEFT a rr # fs"
    have b: "m_children n LEFT = Some b" using n(5) Node by simp
    have p: "avl_at (m_heap t) (up ?fs) LEFT (Some b) l" "?fs \<noteq> [] \<longrightarrow> LEFT = side ?fs" using n(5) b by simp_all
    have "remains (m_heap t) root (Some b) ?fs" using Node.prems n b by auto
    from Node.IH(1)[OF p this] obtain x r' fs1 w1 where
      IH: "left_loop t b (up ?fs) = Some (x, up fs1)" "avl_at (m_heap t) (up fs1) w1 (Some x) (Node Leaf x r')" "fs1 \<noteq> [] \<longrightarrow> w1 = side fs1"
        "remains (m_heap t) root (Some x) fs1" "mset (x # inorder r' @ todo fs1) = mset (inorder l @ todo ?fs)" "hd_opt (inorder l) = Some x" by (elim exE conjE) (rule that)
    have "left_loop t r (up fs) = left_loop t b (up ?fs)" using n b by (subst left_loop.simps) simp
    moreover have "hd_opt (inorder (Node l a rr)) = Some x" using IH(6) by (cases "inorder l") auto
    moreover have "mset (inorder l @ todo ?fs) = mset (inorder (Node l a rr) @ todo fs)" by simp
    ultimately show ?thesis using IH by (intro exI[of _ x] exI[of _ r'] exI[of _ fs1] exI[of _ w1]) simp
  qed
qed simp

text \<open>Where \<open>check_right_side\<close> ends: at a node without children, in a frame of its own.\<close>

lemma destroy_check_run:
  assumes "avl_at (m_heap t) (up fs) w (Some x) (Node Leaf x rr)" "fs \<noteq> [] \<longrightarrow> w = side fs" "remains (m_heap t) (m_root t) (Some x) fs"
  shows "\<exists>y fs'. destroy_check t x (up fs) = Some (Some y, cursor fs', t) \<and> m_heap t y \<noteq> None \<and> remains (m_heap t) (m_root t) (Some y) fs' \<and>
    mset (y # todo fs') = mset (x # inorder rr @ todo fs)"
proof -
  from assms(1) obtain n where n: "m_heap t x = Some n" "m_parent n = up fs" "m_which_child n = w" "m_balance n = int (height rr)" "m_balance n \<le> 1"
    "avl_at (m_heap t) (Some x) RIGHT (m_children n RIGHT) rr" by auto
  show ?thesis
  proof (cases rr)
    case Leaf
    then have c: "m_children n RIGHT = None" using n by simp
    have "destroy_done t x (up fs) = Some (Some x, cursor fs, t)"
      using n(1,3) assms(2,3) by (cases fs rule: up.cases) (auto simp: destroy_done_def)
    then show ?thesis using n c Leaf assms(3) by (intro exI[of _ x] exI[of _ fs]) (simp add: destroy_check_def)
  next
    case (Node l y r)
    then have lr: "l = Leaf" "r = Leaf" using n(4,5) by (auto simp flip: eq_height_0)
    have y: "m_children n RIGHT = Some y" using n(6) Node by simp
    have "remains (m_heap t) (m_root t) (Some y) (Fr RIGHT x Leaf # fs)" using n assms(2,3) y by simp
    moreover have "destroy_check t x (up fs) = Some (Some y, cursor (Fr RIGHT x Leaf # fs), t)"
      using n Node lr y by (auto simp: destroy_check_def destroy_done_def)
    ultimately show ?thesis using n(6) Node lr by (intro exI[of _ y] exI[of _ "Fr RIGHT x Leaf # fs"]) auto
  qed
qed

lemma counted:
  fixes m :: "32 word"
  assumes "m = of_nat (Suc k)" "Suc k < 2 ^ 32"
  shows "0 < k \<Longrightarrow> 1 < m" "m - 1 = of_nat k"
proof -
  have "unat m = Suc k" unfolding assms(1) unat_of_nat using assms(2) by simp
  then show "0 < k \<Longrightarrow> 1 < m" by (simp add: word_less_nat_alt)
  show "m - 1 = of_nat k" using assms(1) by simp
qed

lemma destroy_step:
  assumes r: "remains (m_heap t) (m_root t) p (Fr d a s # fs)" and dis: "distinct (todo (Fr d a s # fs))"
    and n: "m_num_nodes t = of_nat (Suc (length (todo (Fr d a s # fs))))" "Suc (length (todo (Fr d a s # fs))) < 2 ^ 32"
  shows "\<exists>y fs' t'. destroy_nodes t (cursor (Fr d a s # fs)) = Some (Some y, cursor fs', t') \<and> m_heap t' y \<noteq> None \<and> remains (m_heap t') (m_root t') (Some y) fs' \<and>
    mset (y # todo fs') = mset (todo (Fr d a s # fs)) \<and> m_num_nodes t' = of_nat (length (todo (Fr d a s # fs))) \<and> (\<forall>x. x \<noteq> a \<longrightarrow> m_heap t' x = m_heap t x)"
proof -
  let ?F = "Fr d a s # fs"
  from r obtain m where m: "m_heap t a = Some m" "m_children m d = p" "if d = LEFT then avl_at (m_heap t) (Some a) RIGHT (m_children m RIGHT) s else d = RIGHT \<and> s = Leaf"
    "m_parent m = up fs" "fs \<noteq> [] \<longrightarrow> m_which_child m = side fs" "remains (m_heap t) (m_root t) (Some a) fs" by auto
  have d: "d \<noteq> NONE" using m(3) by auto
  let ?m = "m\<lparr>m_children := (m_children m)(d := None)\<rparr>"
  define k where "k = length (todo ?F)"
  let ?t = "t\<lparr>m_heap := (m_heap t)(a \<mapsto> ?m), m_num_nodes := of_nat k\<rparr>"
  have "1 < m_num_nodes t" "m_num_nodes t - 1 = of_nat k" using counted[OF n] by (simp_all add: k_def)
  then have run: "destroy_nodes t (cursor ?F) = (case m_children ?m RIGHT of None \<Rightarrow> destroy_done ?t a (up fs)
    | Some b \<Rightarrow> if d = RIGHT then destroy_done ?t a (up fs) else do { (node, parent) \<leftarrow> left_loop ?t b (Some a); destroy_check ?t node parent })"
    using m(1,4) d by (simp add: destroy_nodes_def null_point_def heap_simps Let_def split: option.splits)
  have out: "a \<notin> set (inorder s)" "a \<notin> set (todo fs)" using dis by auto
  have rs: "remains (m_heap ?t) (m_root ?t) (Some a) fs" using m(6) out(2) by (simp add: remains_upd)
  have dn: "destroy_done ?t a (up fs) = Some (Some a, cursor fs, ?t)"
    using m(5) rs by (cases fs rule: up.cases) (auto simp: destroy_done_def)
  show ?thesis
  proof (cases "s = Leaf")
    case True
    then have "destroy_nodes t (cursor ?F) = Some (Some a, cursor fs, ?t)"
      using run dn m(3) d by (cases d) (auto split: option.splits)
    then show ?thesis using rs True by (intro exI[of _ a] exI[of _ fs] exI[of _ ?t]) (simp add: k_def)
  next
    case False
    then have L: "d = LEFT" "avl_at (m_heap t) (Some a) RIGHT (m_children m RIGHT) s" using m(3) by (auto split: if_splits)
    with False obtain b where b: "m_children m RIGHT = Some b" by (cases s) auto
    let ?fs = "Fr RIGHT a Leaf # fs"
    have s: "avl_at (m_heap ?t) (up ?fs) RIGHT (Some b) s" using L b out(1) by simp
    have "?fs \<noteq> [] \<longrightarrow> RIGHT = side ?fs" "remains (m_heap ?t) (m_root ?t) (Some b) ?fs" using rs m(4,5) b L(1) by simp_all
    from leftmost[OF s this] obtain x rr fs1 w1 where
      x: "left_loop ?t b (up ?fs) = Some (x, up fs1)" "avl_at (m_heap ?t) (up fs1) w1 (Some x) (Node Leaf x rr)" "fs1 \<noteq> [] \<longrightarrow> w1 = side fs1"
        "remains (m_heap ?t) (m_root ?t) (Some x) fs1" "mset (x # inorder rr @ todo fs1) = mset (inorder s @ todo ?fs)" by (elim exE conjE) (rule that)
    from destroy_check_run[OF x(2-4)] obtain y fs' where
      y: "destroy_check ?t x (up fs1) = Some (Some y, cursor fs', ?t)" "m_heap ?t y \<noteq> None" "remains (m_heap ?t) (m_root ?t) (Some y) fs'"
        "mset (y # todo fs') = mset (x # inorder rr @ todo fs1)" by blast
    have "destroy_nodes t (cursor ?F) = Some (Some y, cursor fs', ?t)" using run L(1) b x(1) y(1) by simp
    moreover have "mset (y # todo fs') = mset (todo ?F)" using x(5) y(4) by simp
    ultimately show ?thesis using y(2,3) by (intro exI[of _ y] exI[of _ fs'] exI[of _ ?t]) (simp add: k_def)
  qed
qed

text \<open>The rest of the destructor, from a cursor on.\<close>

lemma destroy_rest:
  assumes "remains (m_heap t) (m_root t) (Some q) fs" "distinct (todo fs)" "m_num_nodes t = of_nat (Suc (length (todo fs)))" "Suc (length (todo fs)) < 2 ^ 32"
  shows "\<exists>t'. destroy_loop t (cursor fs) = Some t' \<and> m_root t' = None \<and> m_num_nodes t' = 0 \<and> m_heap t' = m_heap t |` (- set (todo fs))"
  using assms
proof (induction "length (todo fs)" arbitrary: t q fs rule: less_induct)
  case less
  show ?case
  proof (cases fs)
    case Nil
    let ?t = "t\<lparr>m_root := None, m_num_nodes := 0\<rparr>"
    have "destroy_nodes t (cursor fs) = Some (None, cursor fs, ?t)" using less.prems Nil by (simp add: destroy_nodes_def null_point_def)
    then have "destroy_loop t (cursor fs) = Some ?t" by (subst destroy_loop.simps) simp
    then show ?thesis using Nil by (simp add: restrict_map_def)
  next
    case (Cons f fs0)
    then obtain d a s where F: "fs = Fr d a s # fs0" by (cases f) auto
    from destroy_step[OF less.prems(1)[unfolded F] less.prems(2)[unfolded F] less.prems(3,4)[unfolded F]] obtain y fs' t1 where
      y: "destroy_nodes t (cursor fs) = Some (Some y, cursor fs', t1)" "m_heap t1 y \<noteq> None" "remains (m_heap t1) (m_root t1) (Some y) fs'"
        "mset (y # todo fs') = mset (todo fs)" "m_num_nodes t1 = of_nat (length (todo fs))" "\<forall>x. x \<noteq> a \<longrightarrow> m_heap t1 x = m_heap t x" unfolding F by blast
    have e: "set (todo fs) = insert y (set (todo fs'))" "length (todo fs) = Suc (length (todo fs'))" using y(4) by (metis list.simps(15) set_mset_mset, metis length_Cons size_mset)
    have "distinct (y # todo fs')" using less.prems(2) y(4) by (metis mset_eq_imp_distinct_iff)
    then have ds: "distinct (todo fs')" "y \<notin> set (todo fs')" by simp_all
    let ?t = "t1\<lparr>m_heap := (m_heap t1)(y := None)\<rparr>"
    have "remains (m_heap ?t) (m_root ?t) (Some y) fs'" using y(3) ds(2) by (simp add: remains_upd)
    from less.hyps[OF _ this ds(1)] y(5) e(2) less.prems(4) obtain t' where
      t': "destroy_loop ?t (cursor fs') = Some t'" "m_root t' = None" "m_num_nodes t' = 0" "m_heap t' = m_heap ?t |` (- set (todo fs'))" by auto
    have "free_node t1 y = Some ?t" using y(2) by (auto simp: free_node_def)
    then have "destroy_loop t (cursor fs) = Some t'" using y(1) t'(1) by (subst destroy_loop.simps) simp
    moreover have "a \<in> set (todo fs)" using F by simp
    then have "m_heap t' = m_heap t |` (- set (todo fs))" using t'(4) y(6) unfolding e(1) by (auto simp: restrict_map_def fun_eq_iff)
    ultimately show ?thesis using t'(2,3) by blast
  qed
qed

text \<open>
  C7: The destructor of a balanced tree of fewer than \<open>2^32\<close> nodes ends after it has deleted every
  node of the tree exactly once and nothing else, without looking at a node that is deleted,
  and its assertions hold.
\<close>

theorem avl_destroyed:
  assumes "rep t xs" "length xs < 2 ^ 32"
  shows "\<exists>t'. destroy_tree t = Some t' \<and> m_root t' = None \<and> m_num_nodes t' = 0 \<and> m_heap t' = m_heap t |` (- set xs)"
proof (cases xs)
  case Nil
  then have "m_root t = None" "m_num_nodes t = 0" "first_node t = Some None" using assms(1) first_node_ok[OF assms(1)] by (auto simp: rep_def shape_def)
  then have "destroy_tree t = Some t" unfolding destroy_tree_def by (subst destroy_loop.simps) (simp add: destroy_nodes_def)
  then show ?thesis using Nil \<open>m_root t = None\<close> \<open>m_num_nodes t = 0\<close> by (simp add: restrict_map_def)
next
  case (Cons x0 xs0)
  obtain T w where T: "avl_at (m_heap t) None w (m_root t) T" "inorder T = xs" by (rule rep_tree[OF assms(1)])
  with Cons obtain r where r: "m_root t = Some r" by (cases T) auto
  have "avl_at (m_heap t) (up []) w (Some r) T" "[] \<noteq> [] \<longrightarrow> w = side []" "remains (m_heap t) (m_root t) (Some r) []" using T r by simp_all
  from leftmost[OF this] obtain x rr fs1 w1 where
    x: "avl_at (m_heap t) (up fs1) w1 (Some x) (Node Leaf x rr)" "fs1 \<noteq> [] \<longrightarrow> w1 = side fs1" "remains (m_heap t) (m_root t) (Some x) fs1"
      "mset (x # inorder rr @ todo fs1) = mset xs" "hd_opt xs = Some x" unfolding T(2) todo.simps append_Nil2 by (elim exE conjE) (rule that)
  from destroy_check_run[OF x(1-3)] obtain y fs where
    y: "destroy_check t x (up fs1) = Some (Some y, cursor fs, t)" "m_heap t y \<noteq> None" "remains (m_heap t) (m_root t) (Some y) fs" "mset (y # todo fs) = mset xs" using x(4) by auto
  from x(1) have "destroy_nodes t null_point = Some (Some y, cursor fs, t)" using y(1) first_node_ok[OF assms(1)] x(5) by (auto simp: destroy_nodes_def)
  moreover let ?t = "t\<lparr>m_heap := (m_heap t)(y := None)\<rparr>"
  have "free_node t y = Some ?t" using y(2) by (auto simp: free_node_def)
  ultimately have run: "destroy_tree t = destroy_loop ?t (cursor fs)" unfolding destroy_tree_def by (subst destroy_loop.simps) simp
  have e: "set xs = insert y (set (todo fs))" "length xs = Suc (length (todo fs))" "distinct (y # todo fs)"
    using y(4) assms(1) by (metis list.simps(15) set_mset_mset, metis length_Cons size_mset, metis mset_eq_imp_distinct_iff rep_def)
  have "remains (m_heap ?t) (m_root ?t) (Some y) fs" using y(3) e(3) by (simp add: remains_upd)
  from destroy_rest[OF this] e(2,3) assms obtain t' where
    "destroy_loop ?t (cursor fs) = Some t'" "m_root t' = None" "m_num_nodes t' = 0" "m_heap t' = m_heap ?t |` (- set (todo fs))" by (auto simp: rep_def)
  then show ?thesis using run e(1) by (auto simp: restrict_map_def fun_eq_iff)
qed

theorem avl_destroyed_witness:
  "\<exists>t'. destroy_tree ex_tree = Some t' \<and> m_root t' = None \<and> m_num_nodes t' = 0 \<and> m_heap t' = m_heap ex_tree |` (- set [0, 1, 2])"
  by (rule avl_destroyed[OF ex_tree_rep]) simp

end
