(* ===== verification/Range_Lock.thy ===== *)
theory Range_Lock
  imports Avl
begin

text \<open>
  The byte-range lock manager of \<open>src/src/range_lock.h\<close> and \<open>src/src/range_lock.cpp\<close>.
  Its state is the AVL tree of ranges ordered by their start; the private helpers and
  the public operations are translated over the pointer-level tree of theory \<open>Avl\<close>.

  Condition variables belong to exactly one node of the tree, so a condition variable
  is the address of its node together with the side (reader or writer).  A call that
  would block returns \<open>Wait\<close> with that condition variable; the code after the wait,
  which starts again at the label \<open>retry\<close>, is \<open>reader_retry\<close>.  Releasing a lock returns
  the condition variables it notifies.
\<close>

section \<open>Ranges and handles\<close>

datatype range_type = none | reader | proxy_reader | writer | any

record range =
  m_start :: off_t
  m_end :: off_t
  m_type :: range_type
  m_refs :: int
  m_is_proxy :: bool
  m_read_wanted :: bool
  m_write_wanted :: bool

definition mk_range :: "off_t \<Rightarrow> off_t \<Rightarrow> range_type \<Rightarrow> range" where
  "mk_range s e ty = \<lparr>m_start = s, m_end = e,
     m_type = (if ty = proxy_reader then reader else ty), m_refs = 1,
     m_is_proxy = (ty = proxy_reader), m_read_wanted = False, m_write_wanted = False\<rparr>"

definition range_compare :: "range \<Rightarrow> range \<Rightarrow> int" where
  "range_compare r r2 = (if m_start r > m_start r2 then 1 else 0) - (if m_start r < m_start r2 then 1 else 0)"

datatype lock_type = Reader | Writer

record range_lock =
  rl_start :: off_t
  rl_end :: off_t
  rl_type :: lock_type
  rl_ptr :: "addr option"

type_synonym range_tree = "range avltree"
type_synonym condvar = "addr \<times> lock_type"

text \<open>The deleter of the lock manager's tree does nothing.\<close>

definition keep_node :: "addr \<Rightarrow> range store \<Rightarrow> range store" where
  "keep_node a h = h"

definition lock_manager :: range_tree where
  "lock_manager = empty_tree keep_node"

section \<open>Adding readers\<close>

definition range_new_proxy :: "range_tree \<Rightarrow> off_t \<Rightarrow> int \<Rightarrow> range_tree option" where
  "range_new_proxy t offset len = (if len = 0 then None else do {
     (_, t) \<leftarrow> add range_compare t (mk_range offset (offset + len) proxy_reader);
     Some t })"

definition range_proxify :: "range_tree \<Rightarrow> addr \<Rightarrow> (addr \<times> range_tree) option" where
  "range_proxify t rl = do {
     r \<leftarrow> data_of t rl;
     if m_is_proxy r then Some (rl, t)
     else if \<not> (m_refs r = 1 \<and> \<not> m_read_wanted r \<and> \<not> m_write_wanted r) then None
     else do {
       t \<leftarrow> remove_node t (Some rl);
       t \<leftarrow> set_data t rl (\<lambda>r. r\<lparr>m_refs := 0\<rparr>);
       add range_compare t (mk_range (m_start r) (m_end r) proxy_reader) } }"

definition range_split :: "range_tree \<Rightarrow> addr \<Rightarrow> off_t \<Rightarrow> (addr \<times> addr \<times> range_tree) option" where
  "range_split t rl offset = do {
     r \<leftarrow> data_of t rl;
     if \<not> (m_end r - m_start r > 1 \<and> offset > m_start r \<and> offset < m_end r \<and>
            \<not> m_read_wanted r \<and> \<not> m_write_wanted r) then None
     else do {
       (front, t) \<leftarrow> range_proxify t rl;
       t \<leftarrow> set_data t front (\<lambda>f. f\<lparr>m_end := m_start f + offset - m_start r\<rparr>);
       (rear, t) \<leftarrow> insert_here t (mk_range offset (m_end r) proxy_reader) front AFTER;
       t \<leftarrow> set_data t rear (\<lambda>x. x\<lparr>m_refs := m_refs r\<rparr>);
       Some (front, rear, t) } }"

text \<open>
  The \<open>for\<close> loop of \<open>add_reader\<close>; \<open>prev\<close> is null in the first iteration.  The code after
  the loop adds the remaining end of the range.
\<close>

partial_function (option) add_reader_loop ::
  "range_tree \<Rightarrow> off_t \<Rightarrow> addr option \<Rightarrow> addr option \<Rightarrow> range_tree option" where
  "add_reader_loop t end prev next = (
     let rest = (do { p \<leftarrow> prev; pr \<leftarrow> data_of t p; range_new_proxy t (m_end pr) (end - m_end pr) })
     in case next of
       None \<Rightarrow> rest
     | Some n \<Rightarrow> do {
         nr \<leftarrow> data_of t n;
         if end \<le> m_start nr then rest
         else do {
           t \<leftarrow> (case prev of None \<Rightarrow> Some t
                  | Some p \<Rightarrow> do { pr \<leftarrow> data_of t p;
                      if m_end pr < m_start nr then range_new_proxy t (m_end pr) (m_start nr - m_end pr)
                      else Some t });
           if end = m_end nr then do {
             (q, t) \<leftarrow> range_proxify t n;
             set_data t q (\<lambda>r. r\<lparr>m_refs := m_refs r + 1\<rparr>) }
           else if end < m_end nr then do {
             (front, rear, t) \<leftarrow> range_split t n end;
             set_data t front (\<lambda>r. r\<lparr>m_refs := m_refs r + 1\<rparr>) }
           else do {
             (q, t) \<leftarrow> range_proxify t n;
             t \<leftarrow> set_data t q (\<lambda>r. r\<lparr>m_refs := m_refs r + 1\<rparr>);
             nx \<leftarrow> next_elem t q;
             add_reader_loop t end (Some q) nx } } })"

declare add_reader_loop.simps [code]

definition add_reader ::
  "range_tree \<Rightarrow> range \<Rightarrow> addr option \<Rightarrow> insertion_point \<Rightarrow> (addr option \<times> range_tree) option" where
  "add_reader t new_range prev where = do {
     let start = m_start new_range;
     let end = m_end new_range;
     (prev, t) \<leftarrow> (case prev of
         None \<Rightarrow> Some (None, t)
       | Some p \<Rightarrow> do {
           pr \<leftarrow> data_of t p;
           if m_end pr \<le> start then Some (None, t)
           else if m_start pr \<noteq> start then do {
             (front, rear, t) \<leftarrow> range_split t p start;
             nx \<leftarrow> next_elem t front;
             if nx \<noteq> Some rear then None else Some (nx, t) }
           else Some (Some p, t) });
     next \<leftarrow> (case prev of Some p \<Rightarrow> do { pr \<leftarrow> data_of t p; if m_start pr = start then Some (Some p) else None }
              | None \<Rightarrow> nearest t where AFTER);
     clear \<leftarrow> (case next of None \<Rightarrow> Some True
               | Some n \<Rightarrow> do { nr \<leftarrow> data_of t n; Some (end \<le> m_start nr) });
     if clear then do { (a, t) \<leftarrow> insert_at t new_range where; Some (Some a, t) }
     else do {
       n \<leftarrow> next;
       nr \<leftarrow> data_of t n;
       t \<leftarrow> (if start < m_start nr then range_new_proxy t start (m_start nr - start) else Some t);
       t \<leftarrow> add_reader_loop t end None next;
       Some (None, t) } }"

section \<open>Locking\<close>

datatype attempt = Got range_tree "addr option" | Wait range_tree condvar

definition wait_read :: "range_tree \<Rightarrow> addr \<Rightarrow> attempt option" where
  "wait_read t a = do { t \<leftarrow> set_data t a (\<lambda>r. r\<lparr>m_read_wanted := True\<rparr>); Some (Wait t (a, Reader)) }"

definition wait_write :: "range_tree \<Rightarrow> addr \<Rightarrow> attempt option" where
  "wait_write t a = do { t \<leftarrow> set_data t a (\<lambda>r. r\<lparr>m_write_wanted := True\<rparr>); Some (Wait t (a, Writer)) }"

text \<open>
  The search through the following ranges: \<open>Some b\<close> if the reader has to wait on \<open>b\<close>.
\<close>

partial_function (option) reader_scan :: "range_tree \<Rightarrow> addr option \<Rightarrow> off_t \<Rightarrow> addr option option" where
  "reader_scan t next end = (case next of
       None \<Rightarrow> Some None
     | Some n \<Rightarrow> do {
         nr \<leftarrow> data_of t n;
         if end \<le> m_start nr then Some None
         else if m_type nr = writer \<or> m_write_wanted nr then Some (Some n)
         else if end \<le> m_end nr then Some None
         else do { nx \<leftarrow> next_elem t n; reader_scan t nx end } })"

declare reader_scan.simps [code]

definition reader_retry :: "range_tree \<Rightarrow> off_t \<Rightarrow> off_t \<Rightarrow> attempt option" where
  "reader_retry t start end = do {
     let new_range = mk_range start end reader;
     (res, where) \<leftarrow> find range_compare t new_range;
     prev \<leftarrow> (case res of Some a \<Rightarrow> Some (Some a) | None \<Rightarrow> nearest t where BEFORE);
     let got_lock = (do { (p, t) \<leftarrow> add_reader t new_range prev where; Some (Got t p) });
     let following = (do {
           next \<leftarrow> (case prev of Some a \<Rightarrow> next_elem t a | None \<Rightarrow> nearest t where AFTER);
           w \<leftarrow> reader_scan t next end;
           case w of Some b \<Rightarrow> wait_read t b | None \<Rightarrow> got_lock });
     case prev of
       None \<Rightarrow> following
     | Some p \<Rightarrow> do {
         pr \<leftarrow> data_of t p;
         if start < m_end pr
         then if m_type pr = writer \<or> m_write_wanted pr then wait_read t p
              else if end < m_end pr then got_lock else following
         else following } }"

definition lock_range_reader :: "range_tree \<Rightarrow> off_t \<Rightarrow> off_t \<Rightarrow> attempt option" where
  "lock_range_reader t start end =
     (if m_num_nodes t = 0
      then do { (a, t) \<leftarrow> add range_compare t (mk_range start end reader); Some (Got t (Some a)) }
      else reader_retry t start end)"

text \<open>One iteration of the endless loop of \<open>lock_range_writer\<close>.\<close>

definition lock_range_writer :: "range_tree \<Rightarrow> off_t \<Rightarrow> off_t \<Rightarrow> attempt option" where
  "lock_range_writer t start end = do {
     let new_range = mk_range start end writer;
     if m_num_nodes t = 0
     then do { (a, t) \<leftarrow> add range_compare t new_range; Some (Got t (Some a)) }
     else do {
       (res, where) \<leftarrow> find range_compare t new_range;
       case res of
         Some r \<Rightarrow> wait_write t r
       | None \<Rightarrow> do {
           nx \<leftarrow> nearest t where AFTER;
           after \<leftarrow> (case nx of None \<Rightarrow> Some False | Some a \<Rightarrow> do { r \<leftarrow> data_of t a; Some (m_start r < end) });
           if after then do { a \<leftarrow> nx; wait_write t a }
           else do {
             pv \<leftarrow> nearest t where BEFORE;
             before \<leftarrow> (case pv of None \<Rightarrow> Some False | Some a \<Rightarrow> do { r \<leftarrow> data_of t a; Some (m_end r > start) });
             if before then do { a \<leftarrow> pv; wait_write t a }
             else do { (a, t) \<leftarrow> insert_at t new_range where; Some (Got t (Some a)) } } } } }"

text \<open>\<open>lock_range\<close>: the handle is built from the arguments and the returned pointer.\<close>

definition lock_range :: "range_tree \<Rightarrow> off_t \<Rightarrow> off_t \<Rightarrow> lock_type \<Rightarrow> (range_tree \<times> (condvar + range_lock)) option" where
  "lock_range t start end ty = do {
     r \<leftarrow> (if ty = Reader then lock_range_reader t start end else lock_range_writer t start end);
     case r of
       Got t p \<Rightarrow> Some (t, Inr \<lparr>rl_start = start, rl_end = end, rl_type = ty, rl_ptr = p\<rparr>)
     | Wait t cv \<Rightarrow> Some (t, Inl cv) }"

text \<open>A thread that was blocked in \<open>lock_range\<close> runs on after its wait.\<close>

definition lock_range_again :: "range_tree \<Rightarrow> off_t \<Rightarrow> off_t \<Rightarrow> lock_type \<Rightarrow> (range_tree \<times> (condvar + range_lock)) option" where
  "lock_range_again t start end ty = do {
     r \<leftarrow> (if ty = Reader then reader_retry t start end else lock_range_writer t start end);
     case r of
       Got t p \<Rightarrow> Some (t, Inr \<lparr>rl_start = start, rl_end = end, rl_type = ty, rl_ptr = p\<rparr>)
     | Wait t cv \<Rightarrow> Some (t, Inl cv) }"

section \<open>Unlocking\<close>

text \<open>
  Removing a range from the tree, notifying those that wait on it and freeing its node:
  the common part of the three places that release a range.
\<close>

definition drop_range :: "range_tree \<Rightarrow> addr \<Rightarrow> (condvar list \<times> range_tree) option" where
  "drop_range t a = do {
     t \<leftarrow> remove_node t (Some a);
     r \<leftarrow> data_of t a;
     t \<leftarrow> free_node t a;
     Some ((if m_write_wanted r then [(a, Writer)] else []) @
           (if m_read_wanted r then [(a, Reader)] else []), t) }"

text \<open>
  The \<open>while(len != 0)\<close> loop of \<open>unlock_range_reader\<close>.  \<open>len\<close> is a \<open>size_t\<close> that starts at
  \<open>m_start - m_end\<close>.  The third result is \<open>rl.m_ptr\<close>, cleared when a proxy is freed.
\<close>

partial_function (option) unlock_loop ::
  "range_tree \<Rightarrow> 64 word \<Rightarrow> addr option \<Rightarrow> addr option \<Rightarrow> condvar list \<Rightarrow> (condvar list \<times> addr option \<times> range_tree) option" where
  "unlock_loop t len pr ptr cvs = (if len = 0 then Some (cvs, ptr, t) else do {
     p \<leftarrow> pr;
     r \<leftarrow> data_of t p;
     let len = len - word_of_int (m_start r - m_end r);
     next \<leftarrow> (if len \<noteq> 0 then do {
         nx \<leftarrow> next_elem t p;
         n \<leftarrow> nx;
         nr \<leftarrow> data_of t n;
         if m_end r = m_start nr \<and> m_refs nr \<noteq> 0 \<and> m_type nr = reader then Some (Some n) else None }
       else Some None);
     t \<leftarrow> set_data t p (\<lambda>r. r\<lparr>m_refs := m_refs r - 1\<rparr>);
     if m_refs r - 1 = 0 then do {
       (ns, t) \<leftarrow> drop_range t p;
       unlock_loop t len next None (cvs @ ns) }
     else unlock_loop t len next ptr cvs })"

declare unlock_loop.simps [code]

definition unlock_range_reader :: "range_tree \<Rightarrow> range_lock \<Rightarrow> (condvar list \<times> range_lock \<times> range_tree) option" where
  "unlock_range_reader t rl = do {
     own \<leftarrow> (case rl_ptr rl of None \<Rightarrow> Some False | Some a \<Rightarrow> do { r \<leftarrow> data_of t a; Some (m_refs r \<noteq> 0) });
     if own then do {
       a \<leftarrow> rl_ptr rl;
       (ns, t) \<leftarrow> drop_range t a;
       Some (ns, rl\<lparr>rl_ptr := None\<rparr>, t) }
     else do {
       (pr, _) \<leftarrow> find range_compare t (mk_range (rl_start rl) (rl_end rl) any);
       p \<leftarrow> pr;
       r \<leftarrow> data_of t p;
       if \<not> (m_refs r \<noteq> 0 \<and> m_type r = reader \<and> m_is_proxy r) then None
       else do {
         (cvs, ptr, t) \<leftarrow> unlock_loop t (word_of_int (rl_start rl - rl_end rl)) (Some p) (rl_ptr rl) [];
         t \<leftarrow> (case rl_ptr rl of None \<Rightarrow> Some t | Some a \<Rightarrow> free_node t a);
         Some (cvs, rl\<lparr>rl_ptr := ptr\<rparr>, t) } } }"

definition unlock_range_writer :: "range_tree \<Rightarrow> range_lock \<Rightarrow> (condvar list \<times> range_lock \<times> range_tree) option" where
  "unlock_range_writer t rl = do {
     a \<leftarrow> rl_ptr rl;
     r \<leftarrow> data_of t a;
     if m_refs r = 0 then None
     else do {
       (ns, t) \<leftarrow> drop_range t a;
       Some (ns, rl\<lparr>rl_ptr := None\<rparr>, t) } }"

definition unlock_range :: "range_tree \<Rightarrow> range_lock \<Rightarrow> (condvar list \<times> range_lock \<times> range_tree) option" where
  "unlock_range t rl = (if rl_type rl = Writer then unlock_range_writer t rl else unlock_range_reader t rl)"

text \<open>The destructor of a handle.\<close>

definition destroy_range_lock :: "range_tree \<Rightarrow> range_lock \<Rightarrow> range_tree option" where
  "destroy_range_lock t rl = (case rl_ptr rl of
       None \<Rightarrow> Some t
     | Some a \<Rightarrow> do { r \<leftarrow> data_of t a; if m_refs r = 0 then free_node t a else Some t })"

end
