(* ===== verification/Range_Lock_Tree.thy ===== *)
theory Range_Lock_Tree
  imports Range_Lock Avl_Index
begin

text \<open>
  What the helpers of the lock manager do to the ordered list of ranges that the tree
  holds.  Adding a reader on \<open>[s, e)\<close> cuts the ranges it meets at \<open>s\<close> and \<open>e\<close>, turns them
  into proxies, counts the new reader on those inside, and fills the gaps with new proxies:
  this is the list function \<open>cut_front\<close>.  A range that becomes a proxy is taken out of the
  tree first; where its node has two children that removal is undefined, so each lemma has
  the case that the helper is undefined.
\<close>

section \<open>Ordered lists of ranges\<close>

definition ordered :: "range list \<Rightarrow> bool" where
  "ordered rs \<longleftrightarrow> sorted_wrt (\<lambda>x y. m_end x \<le> m_start y) rs \<and> (\<forall>r \<in> set rs. m_start r < m_end r)"

definition small :: "off_t set \<Rightarrow> range list \<Rightarrow> bool" where
  "small B rs \<longleftrightarrow> finite B \<and> card B < 2 ^ 32 \<and> (\<forall>r \<in> set rs. m_start r \<in> B \<and> m_end r \<in> B)"

lemma ordered_append: "ordered (rs @ ss) \<longleftrightarrow> ordered rs \<and> ordered ss \<and> (\<forall>r \<in> set rs. \<forall>s \<in> set ss. m_end r \<le> m_start s)"
  by (auto simp: ordered_def sorted_wrt_append)

lemma ordered_Cons: "ordered (r # rs) \<longleftrightarrow> m_start r < m_end r \<and> (\<forall>s \<in> set rs. m_end r \<le> m_start s) \<and> ordered rs"
  by (auto simp: ordered_def)

lemma ordered_Nil [simp]: "ordered []"
  by (simp add: ordered_def)

lemma ordered_starts: "ordered rs \<Longrightarrow> sorted_wrt (<) (map m_start rs)"
  by (induction rs) (fastforce simp: ordered_Cons)+

lemma ordered_ksorted: "ordered (map snd L) \<Longrightarrow> ksorted m_start L"
  using ordered_starts[of "map snd L"] by (simp add: ksorted_def sorted_wrt_map comp_def)

lemma ordered_small_length:
  assumes "ordered rs" "small B rs"
  shows "length rs < 2 ^ 32"
proof -
  have "distinct (map m_start rs)" using ordered_starts[OF assms(1)] strict_sorted_iff by blast
  then have "length rs = card (set (map m_start rs))" using distinct_card by fastforce
  also have "\<dots> \<le> card B" using assms(2) by (intro card_mono) (auto simp: small_def)
  finally show ?thesis using assms(2) by (simp add: small_def)
qed

lemma ordered_last: "ordered rs \<Longrightarrow> r \<in> set rs \<Longrightarrow> m_end r \<le> m_end (last rs)"
  by (cases rs rule: rev_cases) (fastforce simp: ordered_append ordered_Cons)+

lemma range_compare_cmp: "range_compare = cmp_by m_start"
  by (auto simp: fun_eq_iff range_compare_def cmp_by_def)

section \<open>The ranges after a reader is added\<close>

definition sharable :: "range \<Rightarrow> bool" where
  "sharable r \<longleftrightarrow> m_type r = reader \<and> \<not> m_read_wanted r \<and> \<not> m_write_wanted r \<and> 0 < m_refs r \<and> (m_is_proxy r \<or> m_refs r = 1)"

definition shared :: "range \<Rightarrow> range" where
  "shared r = r\<lparr>m_is_proxy := True\<rparr>"

definition bump :: "range \<Rightarrow> range" where
  "bump r = r\<lparr>m_is_proxy := True, m_refs := m_refs r + 1\<rparr>"

fun cut :: "off_t \<Rightarrow> off_t \<Rightarrow> range list \<Rightarrow> range list" where
  "cut p e [] = (if p < e then [mk_range p e proxy_reader] else [])"
| "cut p e (r # rs) = (if p < m_start r then [mk_range p (m_start r) proxy_reader] else []) @
     (if m_end r = e then [bump r]
      else if e < m_end r then [bump (r\<lparr>m_end := e\<rparr>), shared (r\<lparr>m_start := e\<rparr>)]
      else bump r # cut (m_end r) e rs)"

fun cut_front :: "off_t \<Rightarrow> off_t \<Rightarrow> range list \<Rightarrow> range list" where
  "cut_front s e [] = cut s e []"
| "cut_front s e (r # rs) = (if m_start r < s then shared (r\<lparr>m_end := s\<rparr>) # cut s e (r\<lparr>m_start := s\<rparr> # rs)
     else cut s e (r # rs))"

section \<open>The helpers on the tree\<close>

text \<open>
  \<open>evolves t ms t'\<close>: the step leaves every node alone that is not among \<open>ms\<close>, and a range
  of \<open>ms\<close> that was not a proxy has become a handle outside the tree, with no references.
\<close>

definition evolves :: "range_tree \<Rightarrow> (addr \<times> range) list \<Rightarrow> range_tree \<Rightarrow> bool" where
  "evolves t ms t' \<longleftrightarrow> (\<forall>x r. data_of t x = Some r \<longrightarrow> x \<notin> fst ` set ms \<longrightarrow> data_of t' x = Some r) \<and>
     (\<forall>x \<in> set ms. \<not> m_is_proxy (snd x) \<longrightarrow> data_of t' (fst x) = Some ((snd x)\<lparr>m_refs := 0\<rparr>))"

lemma evolves_Nil_refl [simp]: "evolves t [] t"
  by (simp add: evolves_def)

lemma evolves_append:
  assumes "evolves t ms t1" "evolves t1 ns t2" "fst ` set ms \<inter> fst ` set ns = {}"
  shows "evolves t (ms @ ns) t2"
  unfolding evolves_def
proof (intro conjI allI impI ballI)
  fix x r assume x: "data_of t x = Some r" "x \<notin> fst ` set (ms @ ns)"
  then have "data_of t1 x = Some r" using assms(1) by (auto simp: evolves_def)
  then show "data_of t2 x = Some r" using assms(2) x(2) by (auto simp: evolves_def)
next
  fix x assume x: "x \<in> set (ms @ ns)" "\<not> m_is_proxy (snd x)"
  show "data_of t2 (fst x) = Some ((snd x)\<lparr>m_refs := 0\<rparr>)"
  proof (cases "x \<in> set ns")
    case True
    then show ?thesis using assms(2) x(2) by (simp add: evolves_def)
  next
    case False
    then have "x \<in> set ms" "fst x \<notin> fst ` set ns" using x(1) assms(3) by auto
    then have "data_of t1 (fst x) = Some ((snd x)\<lparr>m_refs := 0\<rparr>)" using assms(1) x(2) by (auto simp: evolves_def)
    then show ?thesis using assms(2) \<open>fst x \<notin> _\<close> by (auto simp: evolves_def)
  qed
qed

lemma evolves_sub: "evolves t [] t1 \<Longrightarrow> evolves t1 ms t2 \<Longrightarrow> evolves t ms t2"
  using evolves_append[of t "[]" t1 ms t2] by simp

text \<open>The addresses such a step may write to.\<close>

definition own :: "range_tree \<Rightarrow> (addr \<times> range) list \<Rightarrow> addr \<Rightarrow> bool" where
  "own t ms a \<longleftrightarrow> (data_of t a = None \<or> a \<in> fst ` set ms) \<and> (\<forall>x \<in> set ms. \<not> m_is_proxy (snd x) \<longrightarrow> fst x \<noteq> a)"

lemma evolves_upd: "evolves t ms t1 \<Longrightarrow> own t ms a \<Longrightarrow> data_of t2 = (data_of t1)(a := v) \<Longrightarrow> evolves t ms t2"
  unfolding evolves_def own_def by auto

lemma own_fresh: "evolves t ms t1 \<Longrightarrow> data_of t1 a = None \<Longrightarrow> own t ms a"
  unfolding evolves_def own_def by (metis not_None_eq option.distinct(1))

lemma shared_id: "m_is_proxy r \<Longrightarrow> shared r = r"
  by (cases r) (simp add: shared_def)

lemma ordered_around:
  assumes "ordered (map snd us @ v # map snd vs)"
  shows "below m_start us (m_start v)" "above m_start (m_start v) vs"
  using ordered_starts[OF assms] by (auto simp: sorted_wrt_append)

lemma new_proxy_ok:
  assumes h: "holds t (us @ vs)" and o: "ordered (map snd us @ mk_range p q proxy_reader # map snd vs)"
  shows "\<exists>a t'. range_new_proxy t p (q - p) = Some t' \<and>
    holds t' (us @ (a, mk_range p q proxy_reader) # vs) \<and> evolves t [] t'"
proof -
  let ?v = "mk_range p q proxy_reader"
  have pq: "p < q" using o by (simp add: ordered_append ordered_Cons mk_range_def)
  have s: "ksorted m_start (us @ vs)" using o by (intro ordered_ksorted) (auto simp: ordered_append ordered_Cons)
  have b: "below m_start us (m_start ?v)" "above m_start (m_start ?v) vs"
    by (rule ordered_around[OF o])+
  from avl.add_new[OF h s b] obtain a t' where t': "add range_compare t ?v = Some (a, t')" "data_of t a = None"
    "holds t' (us @ (a, ?v) # vs)" "data_of t' = (data_of t)(a \<mapsto> ?v)"
    unfolding add_def range_compare_cmp by blast
  have "evolves t [] t'" using t'(2,4) by (auto simp: evolves_def)
  then show ?thesis using t' pq by (auto simp: range_new_proxy_def)
qed

lemma proxify_ok:
  assumes h: "holds t (us @ (a, r) # vs)" and o: "ordered (map snd (us @ (a, r) # vs))"
    and n: "length (us @ (a, r) # vs) < 2 ^ 32" and r: "sharable r"
  shows "range_proxify t a = None \<or> (\<exists>b t'. range_proxify t a = Some (b, t') \<and>
    holds t' (us @ (b, shared r) # vs) \<and> evolves t [(a, r)] t' \<and> own t [(a, r)] b)"
proof -
  have ra: "data_of t a = Some r" using avl.reads[OF h, of a r] by simp
  show ?thesis
  proof (cases "m_is_proxy r")
    case True
    then show ?thesis using ra h by (auto simp: range_proxify_def shared_id evolves_def own_def)
  next
    case False
    show ?thesis
    proof (cases "two_children t a")
      case True
      then show ?thesis using ra False avl.drops_inner[OF True] by (simp add: range_proxify_def)
    next
      case inner: False
      let ?v = "mk_range (m_start r) (m_end r) proxy_reader"
      have v: "?v = shared r" using r False by (auto simp: mk_range_def shared_def sharable_def intro!: range.equality)
      have k: "m_start (shared r) = m_start r" by (simp add: shared_def)
      from avl.replace[OF h ordered_ksorted[OF o] n k inner, of "\<lambda>r. r\<lparr>m_refs := 0\<rparr>"] obtain b t' where
        t': "(do { t \<leftarrow> remove_node t (Some a); t \<leftarrow> set_data t a (\<lambda>r. r\<lparr>m_refs := 0\<rparr>); add range_compare t ?v }) = Some (b, t')"
        "data_of t b = None" "holds t' (us @ (b, shared r) # vs)"
        "data_of t' = (data_of t)(a \<mapsto> r\<lparr>m_refs := 0\<rparr>, b \<mapsto> shared r)"
        unfolding v add_def range_compare_cmp by blast
      have "b \<noteq> a" using t'(2) ra by auto
      then have "evolves t [(a, r)] t'" "own t [(a, r)] b" using t'(2,4) by (auto simp: evolves_def own_def)
      then show ?thesis using t' ra False r by (auto simp: range_proxify_def sharable_def)
    qed
  qed
qed

lemma holds_write:
  assumes "holds t (us @ (a, v) # vs)"
  shows "\<exists>t'. set_data t a f = Some t' \<and> holds t' (us @ (a, f v) # vs) \<and> data_of t' = (data_of t)(a \<mapsto> f v)"
proof -
  have "a \<notin> fst ` set us" "a \<notin> fst ` set vs" using avl.addrs[OF assms] by auto
  then show ?thesis using avl.writes[OF assms, of a v f] avl.reads[OF assms, of a v] by auto
qed


lemma split_ok:
  assumes h: "holds t (us @ (a, r) # vs)" and o: "ordered (map snd (us @ (a, r) # vs))"
    and n: "length (us @ (a, r) # vs) < 2 ^ 32" and r: "sharable r" and off: "m_start r < q" "q < m_end r"
  shows "range_split t a q = None \<or> (\<exists>f g t'. range_split t a q = Some (f, g, t') \<and>
    holds t' (us @ (f, shared (r\<lparr>m_end := q\<rparr>)) # (g, shared (r\<lparr>m_start := q\<rparr>)) # vs) \<and>
    evolves t [(a, r)] t' \<and> own t [(a, r)] f \<and> own t [(a, r)] g)"
proof -
  have ra: "data_of t a = Some r" using avl.reads[OF h, of a r] by simp
  show ?thesis
  proof (cases "range_proxify t a = None")
    case True
    then show ?thesis using ra by (simp add: range_split_def)
  next
    case False
    from proxify_ok[OF h o n r] False obtain f t1 where t1: "range_proxify t a = Some (f, t1)"
      "holds t1 (us @ (f, shared r) # vs)" "evolves t [(a, r)] t1" "own t [(a, r)] f" by blast
    have fnew: "f \<notin> fst ` set (us @ vs)" using avl.addrs[OF t1(2)] by auto
    let ?e = "\<lambda>f. f\<lparr>m_end := m_start f + q - m_start r\<rparr>"
    have e: "?e (shared r) = shared (r\<lparr>m_end := q\<rparr>)" by (simp add: shared_def)
    from holds_write[OF t1(2), of ?e] obtain t2 where t2: "set_data t1 f ?e = Some t2"
      "holds t2 (us @ (f, shared (r\<lparr>m_end := q\<rparr>)) # vs)" "data_of t2 = (data_of t1)(f \<mapsto> shared (r\<lparr>m_end := q\<rparr>))"
      unfolding e by blast
    from avl.puts_after[OF t2(2), of "mk_range q (m_end r) proxy_reader"] obtain g t3 where
      t3: "insert_here t2 (mk_range q (m_end r) proxy_reader) f AFTER = Some (g, t3)" "data_of t2 g = None"
      "holds t3 ((us @ [(f, shared (r\<lparr>m_end := q\<rparr>))]) @ (g, mk_range q (m_end r) proxy_reader) # vs)"
      "data_of t3 = (data_of t2)(g \<mapsto> mk_range q (m_end r) proxy_reader)" by auto
    let ?m = "\<lambda>x. x\<lparr>m_refs := m_refs r\<rparr>"
    have m: "?m (mk_range q (m_end r) proxy_reader) = shared (r\<lparr>m_start := q\<rparr>)"
      using r by (auto simp: mk_range_def shared_def sharable_def intro!: range.equality)
    from holds_write[OF t3(3), of ?m] obtain t4 where t4: "set_data t3 g ?m = Some t4"
      "holds t4 (us @ (f, shared (r\<lparr>m_end := q\<rparr>)) # (g, shared (r\<lparr>m_start := q\<rparr>)) # vs)"
      "data_of t4 = (data_of t3)(g \<mapsto> shared (r\<lparr>m_start := q\<rparr>))"
      unfolding m by auto
    have run: "range_split t a q = Some (f, g, t4)"
      using ra off r t1(1) t2(1) t3(1) t4(1) by (simp add: range_split_def sharable_def)
    have ev2: "evolves t [(a, r)] t2" by (rule evolves_upd[OF t1(3,4) t2(3)])
    have og: "own t [(a, r)] g" by (rule own_fresh[OF ev2 t3(2)])
    have "evolves t [(a, r)] t4"
      by (rule evolves_upd[OF evolves_upd[OF ev2 og t3(4)] og t4(3)])
    then show ?thesis using run t4(2) t1(4) og by blast
  qed
qed


text \<open>Making a range a proxy and counting one more reader on it.\<close>

lemma proxify_bump_ok:
  assumes h: "holds t (us @ (a, r) # vs)" and o: "ordered (map snd (us @ (a, r) # vs))"
    and n: "length (us @ (a, r) # vs) < 2 ^ 32" and r: "sharable r"
  shows "range_proxify t a = None \<or> (\<exists>b t1 t'. range_proxify t a = Some (b, t1) \<and> set_data t1 b (\<lambda>r. r\<lparr>m_refs := m_refs r + 1\<rparr>) = Some t' \<and>
    holds t' (us @ (b, bump r) # vs) \<and> evolves t [(a, r)] t')"
proof -
  show ?thesis
  proof (cases "range_proxify t a = None")
    case True
    then show ?thesis by simp
  next
    case False
    from proxify_ok[OF h o n r] False obtain b t1 where t1: "range_proxify t a = Some (b, t1)"
      "holds t1 (us @ (b, shared r) # vs)" "evolves t [(a, r)] t1" "own t [(a, r)] b" by blast
    let ?f = "\<lambda>r. r\<lparr>m_refs := m_refs r + 1\<rparr>"
    have e: "?f (shared r) = bump r" by (simp add: shared_def bump_def)
    from holds_write[OF t1(2), of ?f] obtain t2 where t2: "set_data t1 b ?f = Some t2"
      "holds t2 (us @ (b, bump r) # vs)" "data_of t2 = (data_of t1)(b \<mapsto> bump r)" unfolding e by blast
    show ?thesis using t1(1) t2(1,2) evolves_upd[OF t1(3,4) t2(3)] by blast
  qed
qed

lemma split_bump_ok:
  assumes h: "holds t (us @ (a, r) # vs)" and o: "ordered (map snd (us @ (a, r) # vs))"
    and n: "length (us @ (a, r) # vs) < 2 ^ 32" and r: "sharable r" and off: "m_start r < q" "q < m_end r"
  shows "range_split t a q = None \<or> (\<exists>f g t1 t'. range_split t a q = Some (f, g, t1) \<and> set_data t1 f (\<lambda>r. r\<lparr>m_refs := m_refs r + 1\<rparr>) = Some t' \<and>
    holds t' (us @ (f, bump (r\<lparr>m_end := q\<rparr>)) # (g, shared (r\<lparr>m_start := q\<rparr>)) # vs) \<and> evolves t [(a, r)] t')"
proof -
  show ?thesis
  proof (cases "range_split t a q = None")
    case True
    then show ?thesis by simp
  next
    case False
    from split_ok[OF h o n r off] False obtain f g t1 where t1: "range_split t a q = Some (f, g, t1)"
      "holds t1 (us @ (f, shared (r\<lparr>m_end := q\<rparr>)) # (g, shared (r\<lparr>m_start := q\<rparr>)) # vs)"
      "evolves t [(a, r)] t1" "own t [(a, r)] f" by blast
    let ?f = "\<lambda>r. r\<lparr>m_refs := m_refs r + 1\<rparr>"
    have e: "?f (shared (r\<lparr>m_end := q\<rparr>)) = bump (r\<lparr>m_end := q\<rparr>)" by (simp add: shared_def bump_def)
    from holds_write[OF t1(2), of ?f] obtain t2 where t2: "set_data t1 f ?f = Some t2"
      "holds t2 (us @ (f, bump (r\<lparr>m_end := q\<rparr>)) # (g, shared (r\<lparr>m_start := q\<rparr>)) # vs)"
      "data_of t2 = (data_of t1)(f \<mapsto> bump (r\<lparr>m_end := q\<rparr>))" unfolding e by blast
    show ?thesis using t1(1) t2(1,2) evolves_upd[OF t1(3,4) t2(3)] by blast
  qed
qed

section \<open>The loop of add_reader\<close>

lemma ordered_gap:
  assumes "ordered (rs @ r # ss)" "\<forall>x \<in> set rs. m_end x \<le> p" "p < m_start r"
  shows "ordered (rs @ mk_range p (m_start r) proxy_reader # r # ss)"
proof -
  have "m_start r \<le> m_start s" if "s \<in> set ss" for s
    using that assms(1) by (fastforce simp: ordered_append ordered_Cons)
  then show ?thesis using assms by (auto simp: ordered_append ordered_Cons mk_range_def)
qed

lemma ordered_split:
  assumes "ordered (rs @ r # ss)" "m_start r < q" "q < m_end r"
  shows "ordered (rs @ shared (r\<lparr>m_end := q\<rparr>) # shared (r\<lparr>m_start := q\<rparr>) # ss)"
proof -
  have "q \<le> m_start x" "m_end r \<le> m_start x" if "x \<in> set ss" for x
    using that assms by (auto simp: ordered_append ordered_Cons dest: bspec)
  moreover have "m_end x \<le> q" "m_end x \<le> m_start r" if "x \<in> set rs" for x
    using that assms by (auto simp: ordered_append ordered_Cons dest: bspec)
  ultimately show ?thesis using assms by (simp add: ordered_append ordered_Cons shared_def)
qed

lemma prev_bound:
  assumes "ordered (map snd (us @ (a, r) # vs))" "small B (map snd (us @ (a, r) # vs))"
    "case prev of None \<Rightarrow> (a, r) # ms \<noteq> [] \<and> p = m_start (snd (hd ((a, r) # ms)))
       | Some q \<Rightarrow> us \<noteq> [] \<and> fst (last us) = q \<and> p = m_end (snd (last us))"
  shows "p \<le> m_start r \<and> p \<in> B \<and> m_start r \<in> B \<and> m_end r \<in> B \<and> (\<forall>x \<in> set (map snd us). m_end x \<le> p)"
proof (cases prev)
  case None
  then show ?thesis using assms by (auto simp: ordered_append small_def)
next
  case (Some q)
  then have p: "us \<noteq> []" "p = m_end (last (map snd us))" using assms(3) by (auto simp: last_map)
  then have "last (map snd us) \<in> set (map snd us)" by (intro last_in_set) simp
  then have "p \<le> m_start r" "p \<in> B" using assms(1,2) p(2) by (auto simp: ordered_append small_def)
  moreover have "m_end x \<le> p" if "x \<in> set (map snd us)" for x
    using ordered_last[of "map snd us" x] that assms(1) p(2) by (simp add: ordered_append)
  ultimately show ?thesis using assms(2) by (auto simp: small_def)
qed

lemma add_reader_loop_ok:
  assumes "holds t (us @ ms @ vs)" "ordered (map snd (us @ ms @ vs))" "small B (map snd (us @ ms @ vs))"
    "\<forall>x \<in> set ms. sharable (snd x) \<and> m_start (snd x) < e" "\<forall>x \<in> set vs. e \<le> m_start (snd x)"
    "case prev of None \<Rightarrow> ms \<noteq> [] \<and> p = m_start (snd (hd ms))
       | Some q \<Rightarrow> us \<noteq> [] \<and> fst (last us) = q \<and> p = m_end (snd (last us))"
    "p < e" "e \<in> B"
  shows "add_reader_loop t e prev (hd_opt (map fst (ms @ vs))) = None \<or>
    (\<exists>t' mid. add_reader_loop t e prev (hd_opt (map fst (ms @ vs))) = Some t' \<and>
    holds t' (us @ mid @ vs) \<and> map snd mid = cut p e (map snd ms) \<and> evolves t ms t')"
  using assms
proof (induction ms arbitrary: t us prev p)
  case Nil
  then obtain q where q: "prev = Some q" "us \<noteq> []" "fst (last us) = q" "p = m_end (snd (last us))"
    by (auto split: option.splits)
  then have us: "(q, snd (last us)) \<in> set (us @ vs)" by (metis UnCI last_in_set prod.collapse set_append)
  have rq: "data_of t q = Some (snd (last us))" using avl.reads[of t "us @ vs"] Nil.prems(1) us by simp
  have run: "add_reader_loop t e prev (hd_opt (map fst ([] @ vs))) = range_new_proxy t p (e - p)"
  proof (cases vs)
    case Nil
    then show ?thesis using q rq by (simp add: add_reader_loop.simps[of t e "Some q" None])
  next
    case (Cons v vs')
    then have "data_of t (fst v) = Some (snd v)" "e \<le> m_start (snd v)"
      using avl.reads[OF Nil.prems(1), of "fst v" "snd v"] Nil.prems(5) by auto
    then show ?thesis using q rq Cons by (simp add: add_reader_loop.simps[of t e "Some q" "Some (fst v)"])
  qed
  have "m_end r \<le> p" if "r \<in> set (map snd us)" for r
    using ordered_last[of "map snd us" r] that Nil.prems(2) q by (simp add: ordered_append last_map)
  then have o: "ordered (map snd us @ mk_range p e proxy_reader # map snd vs)"
    using Nil.prems(2,5,7) by (auto simp: ordered_append ordered_Cons mk_range_def)
  from Nil.prems(1) have "holds t (us @ vs)" by simp
  from new_proxy_ok[OF this o] obtain a t' where t': "range_new_proxy t p (e - p) = Some t'"
    "holds t' (us @ (a, mk_range p e proxy_reader) # vs)" "evolves t [] t'" by blast
  then show ?case using run Nil.prems(7) by (intro disjI2 exI[of _ t'] exI[of _ "[(a, mk_range p e proxy_reader)]"]) simp
next
  case (Cons m ms)
  obtain a r where m: "m = (a, r)" by (cases m)
  let ?L = "us @ (a, r) # ms @ vs"
  have h: "holds t ?L" and o: "ordered (map snd ?L)" using Cons.prems(1,2) m by auto
  have ra: "data_of t a = Some r" using avl.reads[OF h, of a r] by simp
  have r: "sharable r" "m_start r < e" using Cons.prems(4) m by auto
  have pr: "p \<le> m_start r" "p \<in> B" "m_start r \<in> B" "m_end r \<in> B" "\<forall>x \<in> set (map snd us). m_end x \<le> p"
    using prev_bound[OF Cons.prems(2,3)[unfolded m append_Cons] Cons.prems(6)[unfolded m]] by auto
  define gap where "gap = (if p < m_start r then [mk_range p (m_start r) proxy_reader] else [])"
  obtain t1 gs where t1: "(case prev of None \<Rightarrow> Some t
        | Some q \<Rightarrow> do { pr \<leftarrow> data_of t q;
            if m_end pr < m_start r then range_new_proxy t (m_end pr) (m_start r - m_end pr) else Some t }) = Some t1"
    "holds t1 ((us @ gs) @ (a, r) # ms @ vs)" "map snd gs = gap" "evolves t [] t1"
  proof (cases "prev \<noteq> None \<and> p < m_start r")
    case True
    then obtain q where q: "prev = Some q" "us \<noteq> []" "fst (last us) = q" "p = m_end (snd (last us))"
      using Cons.prems(6) by (auto split: option.splits)
    then have rq: "data_of t q = Some (snd (last us))"
      using avl.reads[OF h, of q "snd (last us)"] by (metis Un_iff last_in_set prod.collapse set_append)
    have og: "ordered (map snd us @ mk_range p (m_start r) proxy_reader # map snd ((a, r) # ms @ vs))"
      using ordered_gap[of "map snd us" r] o pr(5) True by simp
    from new_proxy_ok[OF h og] obtain g t1 where "range_new_proxy t p (m_start r - p) = Some t1"
      "holds t1 (us @ (g, mk_range p (m_start r) proxy_reader) # (a, r) # ms @ vs)" "evolves t [] t1" by blast
    then show thesis using q rq True by (intro that[of t1 "[(g, mk_range p (m_start r) proxy_reader)]"]) (auto simp: gap_def)
  next
    case False
    have "gap = []" "(case prev of None \<Rightarrow> Some t
        | Some q \<Rightarrow> do { pr \<leftarrow> data_of t q;
            if m_end pr < m_start r then range_new_proxy t (m_end pr) (m_start r - m_end pr) else Some t }) = Some t"
    proof -
      show "gap = []" using False Cons.prems(6) m by (auto simp: gap_def split: option.splits)
      have "data_of t q = Some (snd (last us))" if "us \<noteq> []" "fst (last us) = q" for q
        using that avl.reads[OF h, of q "snd (last us)"] by (metis Un_iff last_in_set prod.collapse set_append)
      then show "(case prev of None \<Rightarrow> Some t
        | Some q \<Rightarrow> do { pr \<leftarrow> data_of t q;
            if m_end pr < m_start r then range_new_proxy t (m_end pr) (m_start r - m_end pr) else Some t }) = Some t"
        using False Cons.prems(6) by (auto split: option.splits)
    qed
    then show thesis using h by (intro that[of t "[]"]) auto
  qed
  let ?us = "us @ gs"
  have o1: "ordered (map snd (?us @ (a, r) # ms @ vs))" and s1: "small B (map snd (?us @ (a, r) # ms @ vs))"
    using o pr Cons.prems(3) m ordered_gap[of "map snd us" r "map snd (ms @ vs)" p] unfolding map_append t1(3)
    by (auto simp: gap_def mk_range_def small_def)
  have n1: "length (?us @ (a, r) # ms @ vs) < 2 ^ 32"
    using ordered_small_length[OF o1 s1] by simp
  have nil: "ms = []" if "e \<le> m_end r"
  proof (rule ccontr)
    assume "ms \<noteq> []"
    then have "hd ms \<in> set ms" by simp
    then have "m_start (snd (hd ms)) < e" "m_end r \<le> m_start (snd (hd ms))"
      using Cons.prems(4) o by (auto simp: ordered_append ordered_Cons)
    then show False using that by simp
  qed
  consider (exact) "e = m_end r" | (inside) "e < m_end r" | (past) "m_end r < e" by linarith
  then show ?case
  proof cases
    case exact
    show ?thesis
    proof (cases "range_proxify t1 a = None")
      case True
      then show ?thesis using ra r(2) t1(1) m exact[symmetric] by (simp add: add_reader_loop.simps[of t e prev "Some a"])
    next
      case False
      from proxify_bump_ok[OF t1(2) o1 n1 r(1)] False obtain b t2 t' where t': "range_proxify t1 a = Some (b, t2)"
        "set_data t2 b (\<lambda>r. r\<lparr>m_refs := m_refs r + 1\<rparr>) = Some t'"
        "holds t' (?us @ (b, bump r) # ms @ vs)" "evolves t1 [(a, r)] t'" by blast
      have "add_reader_loop t e prev (Some a) = Some t'"
        using ra r(2) t1(1) t'(1,2) exact[symmetric] by (simp add: add_reader_loop.simps[of t e prev "Some a"])
      moreover have "evolves t [(a, r)] t'" by (rule evolves_sub[OF t1(4) t'(4)])
      ultimately show ?thesis using t'(3) nil exact m t1(3)
        by (intro disjI2 exI[of _ t'] exI[of _ "gs @ [(b, bump r)]"]) (simp add: gap_def)
    qed
  next
    case inside
    show ?thesis
    proof (cases "range_split t1 a e = None")
      case True
      then show ?thesis using ra r(2) t1(1) m inside by (simp add: add_reader_loop.simps[of t e prev "Some a"])
    next
      case False
      from split_bump_ok[OF t1(2) o1 n1 r(1) r(2) inside] False obtain f g t2 t' where t': "range_split t1 a e = Some (f, g, t2)"
        "set_data t2 f (\<lambda>r. r\<lparr>m_refs := m_refs r + 1\<rparr>) = Some t'"
        "holds t' (?us @ (f, bump (r\<lparr>m_end := e\<rparr>)) # (g, shared (r\<lparr>m_start := e\<rparr>)) # ms @ vs)" "evolves t1 [(a, r)] t'" by blast
      have "add_reader_loop t e prev (Some a) = Some t'"
        using ra r(2) t1(1) t'(1,2) inside by (simp add: add_reader_loop.simps[of t e prev "Some a"])
      moreover have "evolves t [(a, r)] t'" by (rule evolves_sub[OF t1(4) t'(4)])
      ultimately show ?thesis using t'(3) nil inside m t1(3)
        by (intro disjI2 exI[of _ t'] exI[of _ "gs @ [(f, bump (r\<lparr>m_end := e\<rparr>)), (g, shared (r\<lparr>m_start := e\<rparr>))]"]) (simp add: gap_def)
    qed
  next
    case past
    show ?thesis
    proof (cases "range_proxify t1 a = None")
      case True
      then show ?thesis using ra r(2) t1(1) m past by (simp add: add_reader_loop.simps[of t e prev "Some a"])
    next
      case False
      from proxify_bump_ok[OF t1(2) o1 n1 r(1)] False obtain b t2 t3 where t3: "range_proxify t1 a = Some (b, t2)"
        "set_data t2 b (\<lambda>r. r\<lparr>m_refs := m_refs r + 1\<rparr>) = Some t3"
        "holds t3 (?us @ (b, bump r) # ms @ vs)" "evolves t1 [(a, r)] t3" by blast
      have nx: "next_elem t3 b = Some (hd_opt (map fst (ms @ vs)))" by (rule avl.succs[OF t3(3)])
      have run: "add_reader_loop t e prev (Some a) = add_reader_loop t3 e (Some b) (hd_opt (map fst (ms @ vs)))"
        using ra r(2) t1(1) t3(1,2) past nx by (simp add: add_reader_loop.simps[of t e prev "Some a"])
      have b: "m_start (bump r) = m_start r" "m_end (bump r) = m_end r" by (simp_all add: bump_def)
      have i1: "holds t3 ((?us @ [(b, bump r)]) @ ms @ vs)" using t3(3) by simp
      have i2: "ordered (map snd ((?us @ [(b, bump r)]) @ ms @ vs))" using o1 b by (simp add: ordered_append ordered_Cons)
      have i3: "small B (map snd ((?us @ [(b, bump r)]) @ ms @ vs))" using s1 b by (simp add: small_def)
      have i4: "\<forall>x \<in> set ms. sharable (snd x) \<and> m_start (snd x) < e" using Cons.prems(4) by simp
      have i5: "case Some b of None \<Rightarrow> ms \<noteq> [] \<and> m_end r = m_start (snd (hd ms))
         | Some q \<Rightarrow> ?us @ [(b, bump r)] \<noteq> [] \<and> fst (last (?us @ [(b, bump r)])) = q \<and> m_end r = m_end (snd (last (?us @ [(b, bump r)])))"
        using b by simp
      show ?thesis
      proof (cases "add_reader_loop t3 e (Some b) (hd_opt (map fst (ms @ vs))) = None")
        case True
        then show ?thesis using run m by simp
      next
        case rec: False
        from Cons.IH[OF i1 i2 i3 i4 Cons.prems(5) i5 past Cons.prems(8)] rec obtain t' mid where
          t': "add_reader_loop t3 e (Some b) (hd_opt (map fst (ms @ vs))) = Some t'"
          "holds t' ((?us @ [(b, bump r)]) @ mid @ vs)" "map snd mid = cut (m_end r) e (map snd ms)" "evolves t3 ms t'" by blast
        have "evolves t [(a, r)] t3" by (rule evolves_sub[OF t1(4) t3(4)])
        moreover have "fst ` set [(a, r)] \<inter> fst ` set ms = {}" using avl.addrs[OF h] by auto
        ultimately have "evolves t ([(a, r)] @ ms) t'" by (rule evolves_append[OF _ t'(4)])
        then show ?thesis using run t' past m t1(3)
          by (intro disjI2 exI[of _ t'] exI[of _ "gs @ (b, bump r) # mid"]) (simp add: gap_def)
      qed
    qed
  qed
qed


section \<open>Adding a reader\<close>

lemma evolves_via:
  assumes "evolves t ms t1" "evolves t1 ns t2" "set ks \<subseteq> set ns" "fst ` set ms \<inter> fst ` set ks = {}"
    "\<forall>x \<in> set ns. x \<in> set ks \<or> own t ms (fst x)"
  shows "evolves t (ms @ ks) t2"
  unfolding evolves_def
proof (intro conjI allI impI ballI)
  fix x r assume x: "data_of t x = Some r" "x \<notin> fst ` set (ms @ ks)"
  then have "data_of t1 x = Some r" using assms(1) by (auto simp: evolves_def)
  moreover have "x \<notin> fst ` set ns" using assms(5) x by (auto simp: own_def)
  ultimately show "data_of t2 x = Some r" using assms(2) by (auto simp: evolves_def)
next
  fix x assume x: "x \<in> set (ms @ ks)" "\<not> m_is_proxy (snd x)"
  show "data_of t2 (fst x) = Some ((snd x)\<lparr>m_refs := 0\<rparr>)"
  proof (cases "x \<in> set ks")
    case True
    then show ?thesis using assms(2,3) x(2) by (auto simp: evolves_def)
  next
    case False
    then have xm: "x \<in> set ms" using x(1) by auto
    then have "data_of t1 (fst x) = Some ((snd x)\<lparr>m_refs := 0\<rparr>)" using assms(1) x(2) by (auto simp: evolves_def)
    moreover have "fst x \<notin> fst ` set ns"
    proof
      assume "fst x \<in> fst ` set ns"
      then obtain y where y: "y \<in> set ns" "fst y = fst x" by auto
      with assms(5) consider "y \<in> set ks" | "own t ms (fst x)" by auto
      then show False using assms(4) xm x(2) y(2) by cases (force, auto simp: own_def)
    qed
    ultimately show ?thesis using assms(2) by (auto simp: evolves_def)
  qed
qed

text \<open>
  What the search before \<open>add_reader\<close> has found: the range that starts at \<open>s\<close>, or the last
  one before \<open>s\<close> together with the place where \<open>s\<close> belongs.
\<close>

definition searched :: "range_tree \<Rightarrow> (addr \<times> range) list \<Rightarrow> off_t \<Rightarrow> addr option \<Rightarrow> insertion_point \<Rightarrow> bool" where
  "searched t L s prev w \<longleftrightarrow>
     (\<exists>us a r vs. L = us @ (a, r) # vs \<and> m_start r = s \<and> prev = Some a) \<or>
     (\<exists>us vs. L = us @ vs \<and> below m_start us s \<and> above m_start s vs \<and> prev = last_opt (map fst us) \<and>
        gap t w (map fst us) (map fst vs))"

lemma searched_gap:
  assumes "searched t (us @ vs) s prev w" "ordered (map snd (us @ vs))" "below m_start us s" "above m_start s vs"
  shows "prev = last_opt (map fst us) \<and> gap t w (map fst us) (map fst vs)"
  using assms(1) unfolding searched_def
proof (elim disjE exE conjE)
  fix us' a r vs' assume "us @ vs = us' @ (a, r) # vs'" "m_start r = s"
  then have "(a, r) \<in> set (us @ vs)" "m_start r = s" by auto
  then show ?thesis using assms(3,4) by force
next
  fix us' vs' assume *: "us @ vs = us' @ vs'" "below m_start us' s" "above m_start s vs'"
    "prev = last_opt (map fst us')" "gap t w (map fst us') (map fst vs')"
  from avl.sorted_split_unique[OF ordered_ksorted[OF assms(2)] *(1) assms(3,4) *(2,3)] * show ?thesis by simp
qed

lemma searched_found:
  assumes "searched t (us @ (a, r) # vs) (m_start r) prev w" "ordered (map snd (us @ (a, r) # vs))"
    "distinct (map fst (us @ (a, r) # vs))"
  shows "prev = Some a"
  using assms(1) unfolding searched_def
proof (elim disjE exE conjE)
  fix us' b q vs' assume *: "us @ (a, r) # vs = us' @ (b, q) # vs'" "m_start q = m_start r" "prev = Some b"
  have "(b, q) \<in> set (us @ (a, r) # vs)" unfolding *(1) by simp
  then have "b = a" using ordered_ksorted[OF assms(2)] *(2) by (force simp: ksorted_def sorted_wrt_append)
  then show ?thesis using * by simp
next
  fix us' vs' assume *: "us @ (a, r) # vs = us' @ vs'" "below m_start us' (m_start r)" "above m_start (m_start r) vs'"
  have "(a, r) \<in> set (us' @ vs')" unfolding *(1)[symmetric] by simp
  then show ?thesis using *(2,3) by force
qed

lemma cut_gap: "p < m_start r \<Longrightarrow> cut p e (r # rs) = mk_range p (m_start r) proxy_reader # cut (m_start r) e (r # rs)"
  by simp

lemma cut_shared: "cut p e (shared r # rs) = cut p e (r # rs)"
  by (simp add: shared_def bump_def)

text \<open>The three parts of the ordered list seen from a new range \<open>[s, e)\<close>.\<close>

definition parts :: "off_t \<Rightarrow> off_t \<Rightarrow> (addr \<times> range) list \<Rightarrow> (addr \<times> range) list \<Rightarrow> (addr \<times> range) list \<Rightarrow> bool" where
  "parts s e us ms vs \<longleftrightarrow> (\<forall>x \<in> set us. m_end (snd x) \<le> s) \<and> (\<forall>x \<in> set ms. m_start (snd x) < e \<and> s < m_end (snd x)) \<and>
     (\<forall>x \<in> set vs. e \<le> m_start (snd x))"

lemma parts_around:
  assumes "parts s e us ms vs" "ordered (map snd us)" "s < e"
  shows "below m_start us s" "above m_start s vs"
proof
  fix x assume x: "x \<in> set us"
  then have "m_start (snd x) < m_end (snd x)" using assms(2) by (simp add: ordered_def)
  also have "\<dots> \<le> s" using x assms(1) by (simp add: parts_def)
  finally show "m_start (snd x) < s" .
next
  show "above m_start s vs" using assms(1,3) by (auto simp: parts_def)
qed

lemma add_reader_free:
  assumes h: "holds t (us @ vs)" and o: "ordered (map snd (us @ vs))" and p: "parts s e us [] vs" and se: "s < e"
    and w: "searched t (us @ vs) s prev w" and ne: "us @ vs \<noteq> []"
  shows "\<exists>a t'. add_reader t (mk_range s e reader) prev w = Some (Some a, t') \<and> data_of t a = None \<and>
    holds t' (us @ (a, mk_range s e reader) # vs) \<and> data_of t' = (data_of t)(a \<mapsto> mk_range s e reader)"
proof -
  have b: "below m_start us s" "above m_start s vs" using parts_around[OF p _ se] o by (simp_all add: ordered_append)
  from searched_gap[OF w o b] have g: "prev = last_opt (map fst us)" "gap t w (map fst us) (map fst vs)" by auto
  have prev: "(case prev of None \<Rightarrow> Some (None, t) | Some p \<Rightarrow> do {
       pr \<leftarrow> data_of t p;
       if m_end pr \<le> s then Some (None, t)
       else if m_start pr \<noteq> s then do {
         (front, rear, t) \<leftarrow> range_split t p s;
         nx \<leftarrow> next_elem t front;
         if nx \<noteq> Some rear then None else Some (nx, t) }
       else Some (Some p, t) }) = Some (None, t)"
  proof (cases us rule: rev_cases)
    case Nil
    then show ?thesis using g by simp
  next
    case (snoc us0 x)
    then have "data_of t (fst x) = Some (snd x)" using avl.reads[OF h, of "fst x" "snd x"] by simp
    then show ?thesis using g p snoc by (simp add: parts_def)
  qed
  have nx: "nearest t w AFTER = Some (hd_opt (map fst vs))" by (rule avl.afters[OF h g(2) ne])
  have clear: "(case hd_opt (map fst vs) of None \<Rightarrow> Some True
      | Some n \<Rightarrow> do { nr \<leftarrow> data_of t n; Some (e \<le> m_start nr) }) = Some True"
  proof (cases vs)
    case (Cons x vs0)
    then have "data_of t (fst x) = Some (snd x)" using avl.reads[OF h, of "fst x" "snd x"] by simp
    then show ?thesis using p Cons by (simp add: parts_def)
  qed simp
  from avl.puts[OF h g(2), of "mk_range s e reader"] obtain a t' where
    t': "insert_at t (mk_range s e reader) w = Some (a, t')" "data_of t a = None"
    "holds t' (us @ (a, mk_range s e reader) # vs)" "data_of t' = (data_of t)(a \<mapsto> mk_range s e reader)" by blast
  have m: "m_start (mk_range s e reader) = s" "m_end (mk_range s e reader) = e" by (simp_all add: mk_range_def)
  have "add_reader t (mk_range s e reader) prev w = Some (Some a, t')"
    unfolding add_reader_def Let_def m prev using nx clear t'(1) by simp
  then show ?thesis using t' by blast
qed


lemma add_reader_busy:
  assumes h: "holds t (us @ ms @ vs)" and o: "ordered (map snd (us @ ms @ vs))" and p: "parts s e us ms vs" and se: "s < e"
    and w: "searched t (us @ ms @ vs) s prev w" and ne: "ms \<noteq> []" and sm: "small B (map snd (us @ ms @ vs))"
    and B: "s \<in> B" "e \<in> B" and sh: "\<forall>x \<in> set ms. sharable (snd x)"
  shows "add_reader t (mk_range s e reader) prev w = None \<or>
    (\<exists>t' mid. add_reader t (mk_range s e reader) prev w = Some (None, t') \<and>
    holds t' (us @ mid @ vs) \<and> map snd mid = cut_front s e (map snd ms) \<and> evolves t ms t')"
proof -
  obtain a r ks where ms: "ms = (a, r) # ks" using ne by (cases ms) auto
  have h': "holds t (us @ (a, r) # ks @ vs)" and o': "ordered (map snd (us @ (a, r) # ks @ vs))"
    and sm': "small B (map snd (us @ (a, r) # ks @ vs))" using h o sm ms by auto
  have ra: "data_of t a = Some r" using avl.reads[OF h', of a r] by simp
  have n: "length (us @ (a, r) # ks @ vs) < 2 ^ 32" using ordered_small_length[OF o' sm'] by simp
  have m: "m_start (mk_range s e reader) = s" "m_end (mk_range s e reader) = e" by (simp_all add: mk_range_def)
  have r: "sharable r" "m_start r < e" "s < m_end r" using sh p ms by (auto simp: parts_def)
  have ks: "\<forall>x \<in> set ks. sharable (snd x) \<and> m_start (snd x) < e" "\<forall>x \<in> set vs. e \<le> m_start (snd x)"
    using sh p ms by (auto simp: parts_def)
  have ab: "below m_start us s" "above m_start s vs" using parts_around[OF p _ se] o by (simp_all add: ordered_append)
  have ab2: "above m_start s (ks @ vs)" 
  proof
    fix x assume "x \<in> set (ks @ vs)"
    then have "m_end r \<le> m_start (snd x)" using o' by (auto simp: ordered_append ordered_Cons)
    then show "s < m_start (snd x)" using r(3) by simp
  qed
  consider (lt) "m_start r < s" | (eq) "m_start r = s" | (gt) "s < m_start r" by linarith
  then show ?thesis
  proof cases
    case lt
    have "prev = last_opt (map fst (us @ [(a, r)]))"
      using searched_gap[of t "us @ [(a, r)]" "ks @ vs" s prev w] w o' ab(1) ab2 lt ms by auto
    then have prev: "prev = Some a" by simp
    show ?thesis
    proof (cases "range_split t a s = None")
      case True
      then show ?thesis unfolding add_reader_def Let_def m using prev ra lt r(3) by simp
    next
      case False
      from split_ok[OF h' o' n r(1) lt r(3)] False obtain f g t1 where t1: "range_split t a s = Some (f, g, t1)"
        "holds t1 ((us @ [(f, shared (r\<lparr>m_end := s\<rparr>))]) @ ((g, shared (r\<lparr>m_start := s\<rparr>)) # ks) @ vs)"
        "evolves t [(a, r)] t1" "own t [(a, r)] g" by auto
      let ?us = "us @ [(f, shared (r\<lparr>m_end := s\<rparr>))]" and ?ms = "(g, shared (r\<lparr>m_start := s\<rparr>)) # ks"
      have s1: "m_start (shared q) = m_start q" "m_end (shared q) = m_end q" for q by (simp_all add: shared_def)
      have o1: "ordered (map snd (?us @ ?ms @ vs))" using ordered_split[OF _ lt r(3), of "map snd us" "map snd (ks @ vs)"] o' by simp
      have sm1: "small B (map snd (?us @ ?ms @ vs))" using sm' B by (auto simp: small_def s1)
      have sh1: "\<forall>x \<in> set ?ms. sharable (snd x) \<and> m_start (snd x) < e"
        using ks(1) r(1) se by (auto simp: sharable_def shared_def)
      have gr: "data_of t1 g = Some (shared (r\<lparr>m_start := s\<rparr>))" using avl.reads[OF t1(2), of g] by simp
      have nx: "next_elem t1 f = Some (Some g)" using avl.succs[of t1 us f _ "?ms @ vs"] t1(2) by simp
      show ?thesis
      proof (cases "add_reader_loop t1 e None (Some g) = None")
        case True
        then show ?thesis unfolding add_reader_def Let_def m using prev ra lt r(3) t1(1) nx gr se s1 by simp
      next
        case rec: False
        from add_reader_loop_ok[where prev = None and p = s, OF t1(2) o1 sm1 sh1 ks(2)] se B(2) rec obtain t' mid where
          t': "add_reader_loop t1 e None (Some g) = Some t'" "holds t' (?us @ mid @ vs)"
          "map snd mid = cut s e (map snd ?ms)" "evolves t1 ?ms t'" by (auto simp: s1)
        have "add_reader t (mk_range s e reader) prev w = Some (None, t')"
          unfolding add_reader_def Let_def m using prev ra lt r(3) t1(1) nx gr se t'(1) s1 by simp
        moreover have "evolves t ([(a, r)] @ ks) t'"
          by (rule evolves_via[OF t1(3) t'(4)]) (use t1(4) avl.addrs[OF h'] in auto)
        ultimately show ?thesis using t'(2,3) lt ms cut_shared
          by (intro disjI2 exI[of _ t'] exI[of _ "(f, shared (r\<lparr>m_end := s\<rparr>)) # mid"]) (simp del: cut.simps)
      qed
    qed
  next
    case eq
    have prev: "prev = Some a" using searched_found[OF _ o'] w ms eq avl.addrs[OF h'] by auto
    have sh1: "\<forall>x \<in> set ((a, r) # ks). sharable (snd x) \<and> m_start (snd x) < e" using ks(1) r by auto
    show ?thesis
    proof (cases "add_reader_loop t e None (Some a) = None")
      case True
      then show ?thesis unfolding add_reader_def Let_def m using prev ra eq r(3) se by simp
    next
      case rec: False
      from add_reader_loop_ok[where prev = None and p = s, OF h[unfolded ms] o[unfolded ms] sm[unfolded ms] sh1 ks(2)] se B(2) eq rec obtain t' mid where
        t': "add_reader_loop t e None (Some a) = Some t'" "holds t' (us @ mid @ vs)"
        "map snd mid = cut s e (map snd ((a, r) # ks))" "evolves t ((a, r) # ks) t'" by auto
      have "add_reader t (mk_range s e reader) prev w = Some (None, t')"
        unfolding add_reader_def Let_def m using prev ra eq r(3) se t'(1) by simp
      then show ?thesis using t'(2-4) eq ms by (intro disjI2 exI[of _ t'] exI[of _ mid]) (simp del: cut.simps)
    qed
  next
    case gt
    have "above m_start s (ms @ vs)" using gt ab2 ms by auto
    from searched_gap[OF w o ab(1) this]
    have g: "prev = last_opt (map fst us)" "gap t w (map fst us) (map fst (ms @ vs))" by auto
    have prev: "(case prev of None \<Rightarrow> Some (None, t) | Some p \<Rightarrow> do {
         pr \<leftarrow> data_of t p;
         if m_end pr \<le> s then Some (None, t)
         else if m_start pr \<noteq> s then do {
           (front, rear, t) \<leftarrow> range_split t p s;
           nx \<leftarrow> next_elem t front;
           if nx \<noteq> Some rear then None else Some (nx, t) }
         else Some (Some p, t) }) = Some (None, t)"
    proof (cases us rule: rev_cases)
      case (snoc us0 x)
      then have "data_of t (fst x) = Some (snd x)" using avl.reads[OF h, of "fst x" "snd x"] by simp
      then show ?thesis using g p snoc by (simp add: parts_def)
    qed (use g in simp)
    have nx: "nearest t w AFTER = Some (Some a)" using avl.afters[OF h g(2)] ms by simp
    have og: "ordered (map snd us @ mk_range s (m_start r) proxy_reader # map snd ((a, r) # ks @ vs))"
      using ordered_gap[of "map snd us" r _ s] o' p gt by (auto simp: parts_def)
    from new_proxy_ok[OF h' og] obtain f t1 where t1: "range_new_proxy t s (m_start r - s) = Some t1"
      "holds t1 ((us @ [(f, mk_range s (m_start r) proxy_reader)]) @ ((a, r) # ks) @ vs)" "evolves t [] t1" by auto
    have ra1: "data_of t1 a = Some r" using avl.reads[OF t1(2), of a] by simp
    let ?us = "us @ [(f, mk_range s (m_start r) proxy_reader)]"
    have o1: "ordered (map snd (?us @ ((a, r) # ks) @ vs))" using og by simp
    have sm1: "small B (map snd (?us @ ((a, r) # ks) @ vs))" using sm' B by (auto simp: small_def mk_range_def)
    have sh1: "\<forall>x \<in> set ((a, r) # ks). sharable (snd x) \<and> m_start (snd x) < e" using ks(1) r by auto
    show ?thesis
    proof (cases "add_reader_loop t1 e None (Some a) = None")
      case True
      then show ?thesis unfolding add_reader_def Let_def m prev using nx ra r(2) gt t1(1) by simp
    next
      case rec: False
      from add_reader_loop_ok[where prev = None and p = "m_start r", OF t1(2) o1 sm1 sh1 ks(2)] r(2) B(2) rec obtain t' mid where
        t': "add_reader_loop t1 e None (Some a) = Some t'" "holds t' (?us @ mid @ vs)"
        "map snd mid = cut (m_start r) e (map snd ((a, r) # ks))" "evolves t1 ((a, r) # ks) t'" by auto
      have "add_reader t (mk_range s e reader) prev w = Some (None, t')"
        unfolding add_reader_def Let_def m prev using nx ra r(2) gt t1(1) t'(1) by simp
      moreover have "evolves t ((a, r) # ks) t'" by (rule evolves_sub[OF t1(3) t'(4)])
      ultimately show ?thesis using t'(2,3) gt ms cut_gap[OF gt, of e "map snd ks"]
        by (intro disjI2 exI[of _ t'] exI[of _ "(f, mk_range s (m_start r) proxy_reader) # mid"]) (simp del: cut.simps)
    qed
  qed
qed

end
