(* ===== verification/Range_Lock_Ops.thy ===== *)
theory Range_Lock_Ops
  imports Range_Lock_Tree
begin

text \<open>
  The lock and unlock operations on the ordered list of ranges: when they block and on
  which range, what the list is after they succeed, and that releasing a range is undefined
  exactly if its node has two children.
\<close>

section \<open>Searching\<close>

lemma search_ok:
  assumes h: "holds t L" and o: "ordered (map snd L)" and ne: "L \<noteq> []" and v: "m_start v = s"
  obtains res w prev where "find range_compare t v = Some (res, w)"
    "(case res of Some a \<Rightarrow> Some (Some a) | None \<Rightarrow> nearest t w BEFORE) = Some prev" "searched t L s prev w"
    "res \<noteq> None \<Longrightarrow> prev = res"
    "res = None \<Longrightarrow> \<exists>us vs. L = us @ vs \<and> below m_start us s \<and> above m_start s vs \<and> gap t w (map fst us) (map fst vs)"
    "res \<noteq> None \<Longrightarrow> \<exists>us a r vs. L = us @ (a, r) # vs \<and> m_start r = s \<and> res = Some a"
  using avl.looks[OF h ordered_ksorted[OF o], of v]
proof (elim disjE exE conjE)
  fix us a u vs w assume "L = us @ (a, u) # vs" "m_start u = m_start v" "find (cmp_by m_start) t v = Some (Some a, w)"
  then show thesis using v by (intro that[of "Some a" w "Some a"]) (auto simp: range_compare_cmp searched_def)
next
  fix us vs w assume *: "L = us @ vs" "below m_start us (m_start v)" "above m_start (m_start v) vs"
    "find (cmp_by m_start) t v = Some (None, w)" "gap t w (map fst us) (map fst vs)"
  have "nearest t w BEFORE = Some (last_opt (map fst us))"
    using avl.befores[of t us vs w] h ne * by simp
  then show thesis using * v
    by (intro that[of None w "last_opt (map fst us)"]) (auto simp: range_compare_cmp searched_def)
qed

definition blocked :: "range \<Rightarrow> bool" where
  "blocked r \<longleftrightarrow> m_type r = writer \<or> m_write_wanted r"

lemma reader_scan_ok:
  assumes "holds t (us @ ks @ vs)" "ordered (map snd (us @ ks @ vs))"
    "\<forall>x \<in> set ks. m_start (snd x) < e" "\<forall>x \<in> set vs. e \<le> m_start (snd x)"
  shows "reader_scan t (hd_opt (map fst (ks @ vs))) e = Some (hd_opt (map fst (filter (\<lambda>x. blocked (snd x)) ks)))"
  using assms
proof (induction ks arbitrary: us)
  case Nil
  show ?case
  proof (cases vs)
    case Nil
    then show ?thesis by (simp add: reader_scan.simps[of t None])
  next
    case (Cons v vs')
    then have "data_of t (fst v) = Some (snd v)" "e \<le> m_start (snd v)"
      using avl.reads[OF Nil.prems(1), of "fst v" "snd v"] Nil.prems(4) by auto
    then show ?thesis using Cons by (simp add: reader_scan.simps[of t "Some (fst v)"])
  qed
next
  case (Cons k ks)
  obtain a r where k: "k = (a, r)" by (cases k)
  have h: "holds t (us @ (a, r) # ks @ vs)" using Cons.prems(1) k by simp
  have ra: "data_of t a = Some r" using avl.reads[OF h, of a r] by simp
  have nx: "next_elem t a = Some (hd_opt (map fst (ks @ vs)))" by (rule avl.succs[OF h])
  have IH: "reader_scan t (hd_opt (map fst (ks @ vs))) e = Some (hd_opt (map fst (filter (\<lambda>x. blocked (snd x)) ks)))"
    using Cons.IH[of "us @ [(a, r)]"] Cons.prems k by simp
  have nil: "ks = []" if "e \<le> m_end r"
  proof (rule ccontr)
    assume "ks \<noteq> []"
    then have "hd ks \<in> set ks" by simp
    then have "m_start (snd (hd ks)) < e" "m_end r \<le> m_start (snd (hd ks))"
      using Cons.prems(2,3) k by (auto simp: ordered_append ordered_Cons)
    then show False using that by simp
  qed
  have se: "m_start r < e" using Cons.prems(3) k by simp
  show ?case
  proof (cases "blocked r")
    case True
    then show ?thesis using ra se k by (simp add: reader_scan.simps[of t "Some a"] blocked_def)
  next
    case False
    then have "reader_scan t (Some a) e = (if e \<le> m_end r then Some None else reader_scan t (hd_opt (map fst (ks @ vs))) e)"
      using ra se nx by (simp add: reader_scan.simps[of t "Some a"] blocked_def)
    then show ?thesis using False IH nil k by auto
  qed
qed

lemma reader_retry_run:
  assumes h: "holds t (us @ ms @ vs)" and o: "ordered (map snd (us @ ms @ vs))" and p: "parts s e us ms vs" and se: "s < e"
    and ne: "us @ ms @ vs \<noteq> []"
  shows "\<exists>prev w. searched t (us @ ms @ vs) s prev w \<and>
    reader_retry t s e = (case hd_opt (map fst (filter (\<lambda>x. blocked (snd x)) ms)) of
        Some b \<Rightarrow> wait_read t b
      | None \<Rightarrow> do { (p, t) \<leftarrow> add_reader t (mk_range s e reader) prev w; Some (Got t p) })"
proof -
  obtain res w prev where f: "find range_compare t (mk_range s e reader) = Some (res, w)"
    "(case res of Some a \<Rightarrow> Some (Some a) | None \<Rightarrow> nearest t w BEFORE) = Some prev" "searched t (us @ ms @ vs) s prev w"
    by (rule search_ok[OF h o ne, of "mk_range s e reader" s]) (auto simp: mk_range_def)
  let ?got = "do { (p, t) \<leftarrow> add_reader t (mk_range s e reader) prev w; Some (Got t p) }"
  let ?bl = "hd_opt (map fst (filter (\<lambda>x. blocked (snd x)) ms))"
  let ?res = "case ?bl of Some b \<Rightarrow> wait_read t b | None \<Rightarrow> ?got"
  have ab: "below m_start us s" "above m_start s vs" using parts_around[OF p _ se] o by (simp_all add: ordered_append)
  have vs: "\<forall>x \<in> set ms. m_start (snd x) < e" "\<forall>x \<in> set vs. e \<le> m_start (snd x)" using p by (auto simp: parts_def)
  have run: "reader_retry t s e = ?res"
  proof (cases "\<exists>a r ks. ms = (a, r) # ks \<and> m_start r \<le> s")
    case True
    then obtain a r ks where ms: "ms = (a, r) # ks" "m_start r \<le> s" by blast
    have h': "holds t (us @ (a, r) # ks @ vs)" and o': "ordered (map snd (us @ (a, r) # ks @ vs))" using h o ms by auto
    have ra: "data_of t a = Some r" using avl.reads[OF h', of a r] by simp
    have r: "s < m_end r" using p ms by (simp add: parts_def)
    have ab2: "above m_start s (ks @ vs)"
    proof
      fix x assume "x \<in> set (ks @ vs)"
      then have "m_end r \<le> m_start (snd x)" using o' by (auto simp: ordered_append ordered_Cons)
      then show "s < m_start (snd x)" using r by simp
    qed
    have prev: "prev = Some a"
    proof (cases "m_start r = s")
      case True
      then show ?thesis using searched_found[OF _ o'] f(3) ms avl.addrs[OF h'] by auto
    next
      case False
      then show ?thesis using searched_gap[of t "us @ [(a, r)]" "ks @ vs" s prev w] f(3) o' ab(1) ab2 ms by auto
    qed
    have nx: "next_elem t a = Some (hd_opt (map fst (ks @ vs)))" by (rule avl.succs[OF h'])
    have scan: "reader_scan t (hd_opt (map fst (ks @ vs))) e = Some (hd_opt (map fst (filter (\<lambda>x. blocked (snd x)) ks)))"
      using reader_scan_ok[of t "us @ [(a, r)]" ks vs e] h' o' vs ms by simp
    have early: "ks = []" if "e < m_end r"
    proof (rule ccontr)
      assume "ks \<noteq> []"
      then have "hd ks \<in> set ks" by simp
      then have "m_start (snd (hd ks)) < e" "m_end r \<le> m_start (snd (hd ks))"
        using vs o' ms by (auto simp: ordered_append ordered_Cons)
      then show False using that by simp
    qed
    show ?thesis
    proof (cases "blocked r")
      case True
      then show ?thesis using f(1,2) prev ra r ms by (simp add: reader_retry_def Let_def blocked_def)
    next
      case False
      then have "reader_retry t s e = (if e < m_end r then ?got
          else (case hd_opt (map fst (filter (\<lambda>x. blocked (snd x)) ks)) of Some b \<Rightarrow> wait_read t b | None \<Rightarrow> ?got))"
        using f(1,2) ra r nx scan unfolding prev by (simp add: reader_retry_def Let_def blocked_def)
      then show ?thesis using early False ms by auto
    qed
  next
    case False
    have ab2: "above m_start s (ms @ vs)"
    proof (cases ms)
      case Nil
      then show ?thesis using ab by simp
    next
      case (Cons m ks)
      then have "s < m_start (snd m)" using False by (cases m) auto
      moreover have "\<forall>x \<in> set (ks @ vs). m_end (snd m) \<le> m_start (snd x)" "m_start (snd m) < m_end (snd m)"
        using o Cons by (auto simp: ordered_append ordered_Cons)
      ultimately have "above m_start s (ks @ vs)" by (meson less_le_trans order.strict_trans)
      then show ?thesis using Cons \<open>s < m_start (snd m)\<close> by simp
    qed
    have g: "prev = last_opt (map fst us)" "gap t w (map fst us) (map fst (ms @ vs))"
      using searched_gap[OF f(3) o ab(1) ab2] by auto
    have scan: "reader_scan t (hd_opt (map fst (ms @ vs))) e = Some ?bl"
      by (rule reader_scan_ok[OF h o vs])
    show ?thesis
    proof (cases us rule: rev_cases)
      case Nil
      then have "nearest t w AFTER = Some (hd_opt (map fst (ms @ vs)))" using avl.afters[OF h g(2) ne] by simp
      moreover have pv: "prev = None" using g(1) Nil by simp
      ultimately show ?thesis using f(1,2) scan unfolding pv by (simp add: reader_retry_def Let_def)
    next
      case (snoc us0 x)
      then have x: "data_of t (fst x) = Some (snd x)" "m_end (snd x) \<le> s"
        using avl.reads[OF h, of "fst x" "snd x"] p by (auto simp: parts_def)
      have "next_elem t (fst x) = Some (hd_opt (map fst (ms @ vs)))"
        using avl.succs[of t us0 "fst x" "snd x" "ms @ vs"] h snoc by simp
      moreover have pv: "prev = Some (fst x)" using g(1) snoc by simp
      ultimately show ?thesis using f(1,2) scan x unfolding pv by (simp add: reader_retry_def Let_def)
    qed
  qed
  then show ?thesis using f(3) by blast
qed

lemma lock_range_writer_run:
  assumes h: "holds t (us @ ms @ vs)" and o: "ordered (map snd (us @ ms @ vs))" and p: "parts s e us ms vs" and se: "s < e"
    and ne: "us @ ms @ vs \<noteq> []" and num: "m_num_nodes t \<noteq> 0"
  shows "(ms \<noteq> [] \<and> (\<exists>x \<in> set ms. lock_range_writer t s e = wait_write t (fst x))) \<or>
    (ms = [] \<and> (\<exists>a t'. lock_range_writer t s e = Some (Got t' (Some a)) \<and> data_of t a = None \<and>
       holds t' (us @ (a, mk_range s e writer) # vs) \<and> data_of t' = (data_of t)(a \<mapsto> mk_range s e writer)))"
proof -
  let ?L = "us @ ms @ vs"
  have len: "\<forall>x \<in> set ?L. m_start (snd x) < m_end (snd x)" using o by (auto simp: ordered_def)
  have inms: "x \<in> set ms" if "x \<in> set ?L" "m_start (snd x) < e" "s < m_end (snd x)" for x
    using that p by (fastforce simp: parts_def)
  obtain res w prev where f: "find range_compare t (mk_range s e writer) = Some (res, w)"
    "(case res of Some a \<Rightarrow> Some (Some a) | None \<Rightarrow> nearest t w BEFORE) = Some prev"
    "res = None \<Longrightarrow> \<exists>us vs. ?L = us @ vs \<and> below m_start us s \<and> above m_start s vs \<and> gap t w (map fst us) (map fst vs)"
    "res \<noteq> None \<Longrightarrow> \<exists>us a r vs. ?L = us @ (a, r) # vs \<and> m_start r = s \<and> res = Some a"
    by (rule search_ok[OF h o ne, of "mk_range s e writer" s]) (auto simp: mk_range_def)
  show ?thesis
  proof (cases res)
    case (Some a)
    then obtain us1 r vs1 where L: "?L = us1 @ (a, r) # vs1" "m_start r = s" using f(4) by auto
    then have "(a, r) \<in> set ?L" by simp
    then have "(a, r) \<in> set ms" using inms[of "(a, r)"] L(2) se len by force
    moreover have "lock_range_writer t s e = wait_write t a"
      using f(1) Some num by (simp add: lock_range_writer_def Let_def)
    ultimately show ?thesis by force
  next
    case None
    then obtain us1 vs1 where L: "?L = us1 @ vs1" "below m_start us1 s" "above m_start s vs1" "gap t w (map fst us1) (map fst vs1)"
      using f(3) by blast
    have h1: "holds t (us1 @ vs1)" and o1: "ordered (map snd (us1 @ vs1))" and ne1: "us1 @ vs1 \<noteq> []" using h o ne L(1) by auto
    have nx: "nearest t w AFTER = Some (hd_opt (map fst vs1))" by (rule avl.afters[OF h1 L(4) ne1])
    have pv: "nearest t w BEFORE = Some (last_opt (map fst us1))" by (rule avl.befores[OF h1 L(4) ne1])
    have rd: "data_of t (fst x) = Some (snd x)" if "x \<in> set (us1 @ vs1)" for x
      using avl.reads[OF h1, of "fst x" "snd x"] that by simp
    consider (after) x vs2 where "vs1 = x # vs2" "m_start (snd x) < e"
      | (before) x us2 where "us1 = us2 @ [x]" "s < m_end (snd x)" "\<forall>y \<in> set vs1. e \<le> m_start (snd y)"
      | (free) "\<forall>y \<in> set vs1. e \<le> m_start (snd y)" "\<forall>y \<in> set us1. m_end (snd y) \<le> s"
    proof (cases "\<forall>y \<in> set vs1. e \<le> m_start (snd y)")
      case True
      show thesis
      proof (cases "us1 \<noteq> [] \<and> s < m_end (snd (last us1))")
        case False
        have "m_end (snd y) \<le> s" if "y \<in> set us1" for y
        proof -
          have "m_end (snd y) \<le> m_end (last (map snd us1))"
            using ordered_last[of "map snd us1" "snd y"] o1 that by (auto simp: ordered_append)
          then show ?thesis using False that by (cases us1 rule: rev_cases) auto
        qed
        then show thesis using free True by blast
      qed (use before[of "butlast us1" "last us1"] True in auto)
    next
      case False
      then obtain x vs2 where x: "vs1 = x # vs2" by (cases vs1) auto
      have "m_start (snd x) < e"
      proof (rule ccontr)
        assume n: "\<not> m_start (snd x) < e"
        have "e \<le> m_start (snd y)" if "y \<in> set vs1" for y
          using that n o1 x by (auto simp: ordered_append ordered_Cons)
        then show False using False by blast
      qed
      then show thesis using after x by blast
    qed
    then show ?thesis
    proof cases
      case after
      then have "lock_range_writer t s e = wait_write t (fst x)"
        using f(1) None num nx rd[of x] by (simp add: lock_range_writer_def Let_def)
      moreover have "x \<in> set ms"
        using inms[of x] after L(1,3) o1 se by (fastforce simp: ordered_append ordered_Cons)
      ultimately show ?thesis by force
    next
      case before
      have "(case hd_opt (map fst vs1) of None \<Rightarrow> Some False | Some a \<Rightarrow> do { r \<leftarrow> data_of t a; Some (m_start r < e) }) = Some False"
        using before(3) rd by (cases vs1) auto
      then have "lock_range_writer t s e = wait_write t (fst x)"
        using before f(1) None num nx pv rd[of x] by (simp add: lock_range_writer_def Let_def)
      moreover have "x \<in> set ms"
        using inms[of x] before L(1,2) se by fastforce
      ultimately show ?thesis by force
    next
      case free
      have fa: "(case hd_opt (map fst vs1) of None \<Rightarrow> Some False | Some a \<Rightarrow> do { r \<leftarrow> data_of t a; Some (m_start r < e) }) = Some False"
        using free(1) rd by (cases vs1) auto
      have fb: "(case last_opt (map fst us1) of None \<Rightarrow> Some False | Some a \<Rightarrow> do { r \<leftarrow> data_of t a; Some (m_end r > s) }) = Some False"
        using free(2) rd by (cases us1 rule: rev_cases) auto
      have msn: "ms = []"
      proof (rule ccontr)
        assume "ms \<noteq> []"
        then have "hd ms \<in> set ?L" "m_start (snd (hd ms)) < e \<and> s < m_end (snd (hd ms))" using p by (auto simp: parts_def)
        then show False using free unfolding L(1) by force
      qed
      have "us = us1 \<and> vs = vs1"
        using avl.sorted_split_unique[of m_start us vs us1 vs1 s] ordered_ksorted[of "us @ vs"] o L(1-3) msn
          parts_around[OF p _ se] by (simp add: ordered_append)
      then have "us1 = us" "vs1 = vs" by simp_all
      note msn
      moreover note \<open>us1 = us\<close> \<open>vs1 = vs\<close>
      moreover from avl.puts[OF h1 L(4), of "mk_range s e writer"] obtain a t' where
        "insert_at t (mk_range s e writer) w = Some (a, t')" "data_of t a = None"
        "holds t' (us1 @ (a, mk_range s e writer) # vs1)" "data_of t' = (data_of t)(a \<mapsto> mk_range s e writer)" by blast
      moreover have "lock_range_writer t s e = Some (Got t' (Some a))"
        using f(1) None num nx pv fa fb \<open>insert_at t _ w = _\<close> by (simp add: lock_range_writer_def Let_def)
      ultimately show ?thesis by blast
    qed
  qed
qed


section \<open>Releasing ranges\<close>

definition notified :: "addr \<Rightarrow> range \<Rightarrow> condvar list" where
  "notified a r = (if m_write_wanted r then [(a, Writer)] else []) @ (if m_read_wanted r then [(a, Reader)] else [])"

lemma drop_range_ok:
  assumes h: "holds t (us @ (a, r) # vs)" and n: "length (us @ (a, r) # vs) < 2 ^ 32"
    and i: "\<not> two_children t a"
  shows "\<exists>t'. drop_range t a = Some (notified a r, t') \<and> holds t' (us @ vs) \<and> data_of t' = (data_of t)(a := None)"
proof -
  have ra: "data_of t a = Some r" using avl.reads[OF h, of a r] by simp
  from avl.drops[OF h n i] obtain t1 where t1: "remove_node t (Some a) = Some t1" "holds t1 (us @ vs)" "data_of t1 = data_of t" by blast
  have "a \<notin> fst ` set (us @ vs)" using avl.addrs[OF h] by auto
  from avl.frees[OF t1(2) _ this] t1(3) ra obtain t2 where "free_node t1 a = Some t2" "holds t2 (us @ vs)"
    "data_of t2 = (data_of t)(a := None)" by auto
  then show ?thesis using t1 ra by (simp add: drop_range_def notified_def)
qed

lemma drop_range_inner: "two_children t a \<Longrightarrow> drop_range t a = None"
  using avl.drops_inner[of t a] by (simp add: drop_range_def)

text \<open>Adjacent ranges that make up \<open>[p, e)\<close>, and the same ranges with one reference less.\<close>

fun chain :: "off_t \<Rightarrow> off_t \<Rightarrow> range list \<Rightarrow> bool" where
  "chain p e [] \<longleftrightarrow> p = e"
| "chain p e (r # rs) \<longleftrightarrow> m_start r = p \<and> p < m_end r \<and> chain (m_end r) e rs"

definition dec :: "(addr \<times> range) list \<Rightarrow> (addr \<times> range) list" where
  "dec ms = map (\<lambda>(a, r). (a, r\<lparr>m_refs := m_refs r - 1\<rparr>)) (filter (\<lambda>x. m_refs (snd x) \<noteq> 1) ms)"

definition gone :: "(addr \<times> range) list \<Rightarrow> (addr \<times> range) list" where
  "gone ms = filter (\<lambda>x. m_refs (snd x) = 1) ms"

definition notified_all :: "(addr \<times> range) list \<Rightarrow> condvar list" where
  "notified_all ms = concat (map (\<lambda>(a, r). notified a r) ms)"

lemma chain_le: "chain p e rs \<Longrightarrow> p \<le> e"
  by (induction p e rs rule: chain.induct) auto

lemma word_neg_eq_0: "0 \<le> n \<Longrightarrow> n < 2 ^ 64 \<Longrightarrow> (word_of_int (- n) :: 64 word) = 0 \<longleftrightarrow> n = 0"
  using zdvd_imp_le[of "2 ^ 64" n] by (cases "n = 0") (auto simp: word_of_int_eq_0_iff)

lemma unlock_loop_ok:
  assumes "holds t (us @ ms @ vs)" "length (us @ ms @ vs) < 2 ^ 32" "chain p e (map snd ms)" "e - p < 2 ^ 64"
    "\<forall>x \<in> set ms. m_type (snd x) = reader \<and> 0 < m_refs (snd x)"
  shows "unlock_loop t (word_of_int (p - e)) (hd_opt (map fst ms)) ptr cvs = None \<or>
    (\<exists>t'. unlock_loop t (word_of_int (p - e)) (hd_opt (map fst ms)) ptr cvs =
      Some (cvs @ notified_all (gone ms), if gone ms = [] then ptr else None, t') \<and>
    holds t' (us @ dec ms @ vs) \<and>
    data_of t' = (\<lambda>x. if x \<in> fst ` set (gone ms) then None
       else if x \<in> fst ` set ms then map_option (\<lambda>r. r\<lparr>m_refs := m_refs r - 1\<rparr>) (data_of t x) else data_of t x))"
  using assms
proof (induction ms arbitrary: t us p ptr cvs)
  case Nil
  then show ?case by (simp add: unlock_loop.simps[of t 0] dec_def gone_def notified_all_def)
next
  case (Cons m ms)
  obtain a r where m: "m = (a, r)" by (cases m)
  have h: "holds t (us @ (a, r) # ms @ vs)" using Cons.prems(1) m by simp
  have ra: "data_of t a = Some r" using avl.reads[OF h, of a r] by simp
  have c: "m_start r = p" "p < m_end r" "chain (m_end r) e (map snd ms)" using Cons.prems(3) m by auto
  have le: "m_end r \<le> e" using chain_le[OF c(3)] .
  have rr: "0 < m_refs r" using Cons.prems(5) m by simp
  have len: "(word_of_int (p - e) :: 64 word) \<noteq> 0"
    using word_neg_eq_0[of "e - p"] Cons.prems(4) le c(2) by simp
  have len': "(word_of_int (p - e) - word_of_int (m_start r - m_end r) :: 64 word) = word_of_int (m_end r - e)"
    using c(1) by (simp flip: of_int_diff) 
  have z: "(word_of_int (m_end r - e) :: 64 word) = 0 \<longleftrightarrow> m_end r = e"
    using word_neg_eq_0[of "e - m_end r"] Cons.prems(4) le c(2) by auto
  have nx: "(if (word_of_int (m_end r - e) :: 64 word) \<noteq> 0 then do {
         nx \<leftarrow> next_elem t a; n \<leftarrow> nx; nr \<leftarrow> data_of t n;
         if m_end r = m_start nr \<and> m_refs nr \<noteq> 0 \<and> m_type nr = reader then Some (Some n) else None }
       else Some None) = Some (hd_opt (map fst ms))"
  proof (cases ms)
    case Nil
    then show ?thesis using c(3) z by simp
  next
    case (Cons k ks)
    then have "m_end r < e" "m_start (snd k) = m_end r" using c(3) chain_le[of "m_end (snd k)" e "map snd ks"] by auto
    moreover have "next_elem t a = Some (Some (fst k))" using avl.succs[OF h] Cons by simp
    moreover have "data_of t (fst k) = Some (snd k)" using avl.reads[OF h, of "fst k" "snd k"] Cons by simp
    ultimately show ?thesis using z Cons.prems Cons m \<open>\<forall>x \<in> set (m # ms). _ x\<close> by auto
  qed
  let ?f = "\<lambda>r. r\<lparr>m_refs := m_refs r - 1\<rparr>"
  from holds_write[OF h, of ?f] obtain t1 where t1: "set_data t a ?f = Some t1"
    "holds t1 (us @ (a, ?f r) # ms @ vs)" "data_of t1 = (data_of t)(a \<mapsto> ?f r)" by blast
  have out: "a \<notin> fst ` set ms" using avl.addrs[OF h] by auto
  show ?case
  proof (cases "m_refs r = 1")
    case True
    have n1: "length (us @ (a, ?f r) # ms @ vs) < 2 ^ 32" using Cons.prems(2) by simp
    show ?thesis
    proof (cases "two_children t1 a")
      case two: True
      have "unlock_loop t (word_of_int (p - e)) (Some a) ptr cvs = None"
        by (subst unlock_loop.simps) (simp only: len ra bind.simps Let_def len' nx t1(1) True drop_range_inner[OF two]
            if_True if_False diff_self refl)
      then show ?thesis using m by simp
    next
      case inner: False
      from drop_range_ok[OF t1(2) n1] inner obtain t2 where t2: "drop_range t1 a = Some (notified a (?f r), t2)"
        "holds t2 (us @ ms @ vs)" "data_of t2 = (data_of t1)(a := None)" by blast
      have nt: "notified a (?f r) = notified a r" by (simp add: notified_def)
      have run: "unlock_loop t (word_of_int (p - e)) (Some a) ptr cvs =
          unlock_loop t2 (word_of_int (m_end r - e)) (hd_opt (map fst ms)) None (cvs @ notified a r)"
        by (subst unlock_loop.simps) (simp only: len ra bind.simps Let_def len' nx t1(1) True t2(1)[unfolded nt]
            if_True if_False diff_self refl prod.case)
      have l2: "length (us @ ms @ vs) < 2 ^ 32" "e - m_end r < 2 ^ 64" using Cons.prems(2,4) c(2) by auto
      show ?thesis
      proof (cases "unlock_loop t2 (word_of_int (m_end r - e)) (hd_opt (map fst ms)) None (cvs @ notified a r) = None")
        case True
        then show ?thesis using run m by simp
      next
        case rec: False
        from Cons.IH[OF t2(2) l2(1) c(3) l2(2), of None "cvs @ notified a r"] Cons.prems(5) rec obtain t' where
          t': "unlock_loop t2 (word_of_int (m_end r - e)) (hd_opt (map fst ms)) None (cvs @ notified a r) =
            Some ((cvs @ notified a r) @ notified_all (gone ms), None, t')" "holds t' (us @ dec ms @ vs)"
          "data_of t' = (\<lambda>x. if x \<in> fst ` set (gone ms) then None
           else if x \<in> fst ` set ms then map_option ?f (data_of t2 x) else data_of t2 x)" by auto
        have "gone (m # ms) = m # gone ms" "dec (m # ms) = dec ms" using True m by (auto simp: gone_def dec_def)
        moreover have "data_of t' = (\<lambda>x. if x \<in> fst ` set (m # gone ms) then None
           else if x \<in> fst ` set (m # ms) then map_option ?f (data_of t x) else data_of t x)"
          using t'(3) t2(3) t1(3) m out by (auto simp: fun_eq_iff)
        ultimately show ?thesis using run t'(1,2) m by (simp add: notified_all_def)
      qed
    qed
  next
    case False
    have f0: "(m_refs r - 1 = 0) = False" using False by simp
    have run: "unlock_loop t (word_of_int (p - e)) (Some a) ptr cvs =
        unlock_loop t1 (word_of_int (m_end r - e)) (hd_opt (map fst ms)) ptr cvs"
      by (subst unlock_loop.simps) (simp only: len ra bind.simps Let_def len' nx t1(1) f0 if_True if_False)
    have h1: "holds t1 ((us @ [(a, ?f r)]) @ ms @ vs)" "length ((us @ [(a, ?f r)]) @ ms @ vs) < 2 ^ 32" "e - m_end r < 2 ^ 64"
      using t1(2) Cons.prems(2,4) c(2) by auto
    show ?thesis
    proof (cases "unlock_loop t1 (word_of_int (m_end r - e)) (hd_opt (map fst ms)) ptr cvs = None")
      case True
      then show ?thesis using run m by simp
    next
      case rec: False
      from Cons.IH[OF h1(1,2) c(3) h1(3), of ptr cvs] Cons.prems(5) rec obtain t' where
        t': "unlock_loop t1 (word_of_int (m_end r - e)) (hd_opt (map fst ms)) ptr cvs =
          Some (cvs @ notified_all (gone ms), if gone ms = [] then ptr else None, t')" "holds t' ((us @ [(a, ?f r)]) @ dec ms @ vs)"
        "data_of t' = (\<lambda>x. if x \<in> fst ` set (gone ms) then None
         else if x \<in> fst ` set ms then map_option ?f (data_of t1 x) else data_of t1 x)" by auto
      have g: "gone (m # ms) = gone ms" "dec (m # ms) = (a, ?f r) # dec ms" using False m by (auto simp: gone_def dec_def)
      have "fst ` set (gone ms) \<subseteq> fst ` set ms" by (auto simp: gone_def)
      then have "data_of t' = (\<lambda>x. if x \<in> fst ` set (gone ms) then None
         else if x \<in> fst ` set (m # ms) then map_option ?f (data_of t x) else data_of t x)"
        using t'(3) t1(3) m out ra by (auto simp: fun_eq_iff)
      then show ?thesis using run t'(1,2) m g by simp
    qed
  qed
qed

end
