(* ===== verification/Range_Cut.thy ===== *)
theory Range_Cut
  imports Range_Lock_Ops
begin

text \<open>
  Properties of the list function that describes \<open>add_reader\<close>: the pieces it makes are
  ordered proxies, they cover the old ranges and the new one, a piece inside the new
  range counts one reader more than the range it comes from, and new pieces count one.
\<close>

definition within :: "range \<Rightarrow> range \<Rightarrow> bool" where
  "within q r \<longleftrightarrow> m_start r \<le> m_start q \<and> m_end q \<le> m_end r"

definition lies :: "off_t \<Rightarrow> off_t \<Rightarrow> range \<Rightarrow> bool" where
  "lies s e r \<longleftrightarrow> s \<le> m_start r \<and> m_end r \<le> e"

definition apart :: "range \<Rightarrow> range \<Rightarrow> bool" where
  "apart q r \<longleftrightarrow> m_end q \<le> m_start r \<or> m_end r \<le> m_start q"

definition hits :: "off_t \<Rightarrow> range \<Rightarrow> bool" where
  "hits x r \<longleftrightarrow> m_start r \<le> x \<and> x < m_end r"

text \<open>Where a piece comes from and what it counts.\<close>

definition piece_of :: "off_t \<Rightarrow> off_t \<Rightarrow> range list \<Rightarrow> range \<Rightarrow> bool" where
  "piece_of s e rs q \<longleftrightarrow> m_type q = reader \<and> m_is_proxy q \<and> \<not> m_read_wanted q \<and> \<not> m_write_wanted q \<and>
     ((\<exists>r \<in> set rs. within q r \<and> (lies s e q \<and> m_refs q = m_refs r + 1 \<or>
         (m_end q \<le> s \<or> e \<le> m_start q) \<and> m_refs q = m_refs r)) \<or>
      (lies s e q \<and> m_refs q = 1 \<and> (\<forall>r \<in> set rs. apart q r)))"

lemma mk_range_sel [simp]:
  "m_start (mk_range s e ty) = s" "m_end (mk_range s e ty) = e" "m_refs (mk_range s e ty) = 1"
  "m_read_wanted (mk_range s e ty) = False" "m_write_wanted (mk_range s e ty) = False"
  "m_type (mk_range s e proxy_reader) = reader" "m_is_proxy (mk_range s e proxy_reader) = True"
  "m_type (mk_range s e reader) = reader" "m_is_proxy (mk_range s e reader) = False"
  "m_type (mk_range s e writer) = writer" "m_is_proxy (mk_range s e writer) = False"
  by (simp_all add: mk_range_def)

lemma bump_sel [simp]:
  "m_start (bump r) = m_start r" "m_end (bump r) = m_end r" "m_refs (bump r) = m_refs r + 1" "m_is_proxy (bump r)"
  "m_type (bump r) = m_type r" "m_read_wanted (bump r) = m_read_wanted r" "m_write_wanted (bump r) = m_write_wanted r"
  by (simp_all add: bump_def)

lemma shared_sel [simp]:
  "m_start (shared r) = m_start r" "m_end (shared r) = m_end r" "m_refs (shared r) = m_refs r" "m_is_proxy (shared r)"
  "m_type (shared r) = m_type r" "m_read_wanted (shared r) = m_read_wanted r" "m_write_wanted (shared r) = m_write_wanted r"
  by (simp_all add: shared_def)

text \<open>A list of ranges that all start inside the remaining part \<open>[p, e)\<close> of the new range.\<close>

definition ahead :: "off_t \<Rightarrow> off_t \<Rightarrow> range list \<Rightarrow> bool" where
  "ahead p e rs \<longleftrightarrow> ordered rs \<and> p < e \<and> (\<forall>r \<in> set rs. p \<le> m_start r \<and> m_start r < e \<and> sharable r)"

lemma ahead_Cons:
  assumes "ahead p e (r # rs)"
  shows "p < e" "p \<le> m_start r" "m_start r < e" "m_start r < m_end r" "sharable r" "ordered rs"
    "e \<le> m_end r \<Longrightarrow> rs = []" "m_end r < e \<Longrightarrow> ahead (m_end r) e rs" "\<forall>x \<in> set rs. m_end r \<le> m_start x"
proof -
  show *: "p < e" "p \<le> m_start r" "m_start r < e" "m_start r < m_end r" "sharable r" "ordered rs" "\<forall>x \<in> set rs. m_end r \<le> m_start x"
    using assms by (auto simp: ahead_def ordered_Cons)
  show "m_end r < e \<Longrightarrow> ahead (m_end r) e rs" using assms by (auto simp: ahead_def ordered_Cons)
  show "rs = []" if "e \<le> m_end r"
  proof (cases rs)
    case (Cons x xs)
    then have "m_end r \<le> m_start x" "m_start x < e" using assms by (auto simp: ahead_def ordered_Cons)
    then show ?thesis using that by simp
  qed simp
qed

lemma cut_ordered:
  assumes "ahead p e rs"
  shows "ordered (cut p e rs) \<and> (\<forall>q \<in> set (cut p e rs). p \<le> m_start q)"
  using assms
proof (induction rs arbitrary: p)
  case Nil
  then show ?case by (auto simp: ahead_def ordered_Cons)
next
  case (Cons r rs)
  note a = ahead_Cons[OF Cons.prems]
  have "ordered (cut (m_end r) e rs) \<and> (\<forall>q \<in> set (cut (m_end r) e rs). m_end r \<le> m_start q \<and> m_start r \<le> m_start q \<and> p \<le> m_start q)"
    if "m_end r < e" using Cons.IH[OF a(8)[OF that]] a(2,4) by auto
  then show ?case using a(1-4) by (auto simp: ordered_Cons)
qed

lemma cut_hits:
  assumes "ahead p e rs"
  shows "(\<exists>q \<in> set (cut p e rs). hits x q) \<longleftrightarrow> p \<le> x \<and> x < e \<or> (\<exists>r \<in> set rs. hits x r)"
  using assms
proof (induction rs arbitrary: p)
  case Nil
  then show ?case by (auto simp: hits_def)
next
  case (Cons r rs)
  note a = ahead_Cons[OF Cons.prems]
  show ?case
  proof (cases "m_end r < e")
    case True
    then have "(\<exists>q \<in> set (cut (m_end r) e rs). hits x q) \<longleftrightarrow> m_end r \<le> x \<and> x < e \<or> (\<exists>r \<in> set rs. hits x r)"
      using Cons.IH a(8) by blast
    then show ?thesis using True a(1-4) by (auto simp: hits_def)
  next
    case False
    then show ?thesis using a(1-4,7) by (auto simp: hits_def)
  qed
qed

lemma cut_bounds:
  assumes "ahead p e rs" "p \<in> B" "e \<in> B" "\<forall>r \<in> set rs. m_start r \<in> B \<and> m_end r \<in> B" "q \<in> set (cut p e rs)"
  shows "m_start q \<in> B \<and> m_end q \<in> B"
  using assms
proof (induction rs arbitrary: p)
  case (Cons r rs)
  note a = ahead_Cons[OF Cons.prems(1)]
  show ?case
  proof (cases "q \<in> set (cut (m_end r) e rs) \<and> m_end r < e")
    case True
    then show ?thesis using Cons.IH[of "m_end r"] a(8) Cons.prems by auto
  next
    case False
    then show ?thesis using Cons.prems by (auto split: if_splits)
  qed
qed (auto split: if_splits)

lemma cut_pieces:
  assumes "ahead p e rs" "s \<le> p" "q \<in> set (cut p e rs)"
  shows "piece_of s e rs q"
  using assms
proof (induction rs arbitrary: p)
  case Nil
  then show ?case by (auto simp: piece_of_def lies_def)
next
  case (Cons r rs)
  note a = ahead_Cons[OF Cons.prems(1)]
  have sh: "m_type r = reader" "\<not> m_read_wanted r" "\<not> m_write_wanted r" using a(5) by (auto simp: sharable_def)
  consider (gap) "q = mk_range p (m_start r) proxy_reader" "p < m_start r"
    | (whole) "q = bump r" "m_end r \<le> e" | (front) "q = bump (r\<lparr>m_end := e\<rparr>)" "e < m_end r"
    | (rear) "q = shared (r\<lparr>m_start := e\<rparr>)" "e < m_end r" | (later) "q \<in> set (cut (m_end r) e rs)" "m_end r < e"
    using Cons.prems(3) by (auto split: if_splits)
  then show ?case
  proof cases
    case gap
    have "\<forall>x \<in> set (r # rs). apart q x" using gap a(2-4,9) by (auto simp: apart_def)
    moreover have "lies s e q" using gap a Cons.prems(2) by (simp add: lies_def)
    ultimately show ?thesis using gap by (simp add: piece_of_def)
  next
    case later
    then have "piece_of s e rs q" using Cons.IH[of "m_end r"] a Cons.prems(2) by simp
    moreover have "apart q r" using cut_ordered[OF a(8)[OF later(2)]] later(1) by (auto simp: apart_def)
    ultimately show ?thesis by (auto simp: piece_of_def)
  qed (use a sh Cons.prems(2) in \<open>auto simp: piece_of_def within_def lies_def\<close>)
qed

section \<open>The whole new range\<close>

definition met :: "off_t \<Rightarrow> off_t \<Rightarrow> range list \<Rightarrow> bool" where
  "met s e rs \<longleftrightarrow> ordered rs \<and> s < e \<and> (\<forall>r \<in> set rs. m_start r < e \<and> s < m_end r \<and> sharable r)"

lemma met_ahead:
  assumes "met s e rs"
  shows "(rs = [] \<or> s \<le> m_start (hd rs)) \<and> ahead s e rs \<or>
    (\<exists>r rs'. rs = r # rs' \<and> m_start r < s \<and> ahead s e (r\<lparr>m_start := s\<rparr> # rs'))"
proof (cases rs)
  case Nil
  then show ?thesis using assms by (auto simp: met_def ahead_def)
next
  case (Cons r rs')
  have later: "\<forall>x \<in> set rs'. m_end r \<le> m_start x" "s < m_end r" using assms Cons by (auto simp: met_def ordered_Cons)
  show ?thesis
  proof (cases "m_start r < s")
    case True
    have "ahead s e (r\<lparr>m_start := s\<rparr> # rs')"
      using assms Cons later by (auto simp: ahead_def met_def ordered_Cons sharable_def)
    then show ?thesis using True Cons by blast
  next
    case False
    then have "ahead s e rs" using assms Cons later by (auto simp: ahead_def met_def ordered_Cons)
    then show ?thesis using False Cons by auto
  qed
qed

lemma cut_front_ordered:
  assumes "met s e rs"
  shows "ordered (cut_front s e rs)"
  using met_ahead[OF assms]
proof (elim disjE exE conjE)
  fix r rs' assume r: "rs = r # rs'" "m_start r < s" "ahead s e (r\<lparr>m_start := s\<rparr> # rs')"
  then show ?thesis using cut_ordered[OF r(3)] by (auto simp: ordered_Cons simp del: cut.simps)
qed (cases rs; use cut_ordered[of s e rs] in \<open>auto simp del: cut.simps\<close>)+

lemma cut_front_hits:
  assumes "met s e rs"
  shows "(\<exists>q \<in> set (cut_front s e rs). hits x q) \<longleftrightarrow> s \<le> x \<and> x < e \<or> (\<exists>r \<in> set rs. hits x r)"
  using met_ahead[OF assms]
proof (elim disjE exE conjE)
  fix r rs' assume r: "rs = r # rs'" "m_start r < s" "ahead s e (r\<lparr>m_start := s\<rparr> # rs')"
  have "s < m_end r" using assms r(1) by (simp add: met_def)
  then show ?thesis using r cut_hits[OF r(3), of x] by (auto simp: hits_def simp del: cut.simps)
qed (cases rs; use cut_hits[of s e rs x] in \<open>auto simp del: cut.simps\<close>)+

lemma cut_front_bounds:
  assumes "met s e rs" "s \<in> B" "e \<in> B" "\<forall>r \<in> set rs. m_start r \<in> B \<and> m_end r \<in> B" "q \<in> set (cut_front s e rs)"
  shows "m_start q \<in> B \<and> m_end q \<in> B"
  using met_ahead[OF assms(1)]
proof (elim disjE exE conjE)
  fix r rs' assume r: "rs = r # rs'" "m_start r < s" "ahead s e (r\<lparr>m_start := s\<rparr> # rs')"
  then show ?thesis using cut_bounds[OF r(3) assms(2,3), of q] assms(2-5) by (auto simp del: cut.simps)
qed (cases rs; use cut_bounds[of s e rs B q] assms in \<open>auto simp del: cut.simps\<close>)+

lemma cut_front_pieces:
  assumes "met s e rs" "q \<in> set (cut_front s e rs)"
  shows "piece_of s e rs q"
  using met_ahead[OF assms(1)]
proof (elim disjE exE conjE)
  fix r rs' assume r: "rs = r # rs'" "m_start r < s" "ahead s e (r\<lparr>m_start := s\<rparr> # rs')"
  have sh: "sharable r" "s < m_end r" using assms(1) r(1) by (auto simp: met_def)
  show ?thesis
  proof (cases "q = shared (r\<lparr>m_end := s\<rparr>)")
    case True
    then show ?thesis using r sh by (auto simp: piece_of_def sharable_def within_def)
  next
    case False
    then have "q \<in> set (cut s e (r\<lparr>m_start := s\<rparr> # rs'))" using assms(2) r by (auto simp del: cut.simps)
    then have "piece_of s e (r\<lparr>m_start := s\<rparr> # rs') q" "m_start q < m_end q"
      using cut_pieces[OF r(3)] cut_ordered[OF r(3)] unfolding ordered_def by blast+
    then show ?thesis using r sh by (auto simp: piece_of_def within_def lies_def apart_def)
  qed
qed (cases rs; use cut_pieces[of s e rs s q] assms(2) in \<open>auto simp del: cut.simps\<close>)+

end
