(* ===== verification/Range_Lock_Safe.thy ===== *)
theory Range_Lock_Safe
  imports Range_Cut
begin

text \<open>
  The invariant of the lock manager that ties the tree to the handles in use, and the
  property it is there for: two locks that overlap are both shared.
\<close>

section \<open>The invariant\<close>

definition inside :: "range_lock \<Rightarrow> range \<Rightarrow> bool" where
  "inside h r \<longleftrightarrow> rl_start h \<le> m_start r \<and> m_end r \<le> rl_end h"

definition meets :: "range_lock \<Rightarrow> range \<Rightarrow> bool" where
  "meets h r \<longleftrightarrow> m_start r < rl_end h \<and> rl_start h < m_end r"

text \<open>A handle whose range is not (any more) a node of the tree.\<close>

definition loose :: "(addr \<times> range) list \<Rightarrow> range_lock \<Rightarrow> bool" where
  "loose L h \<longleftrightarrow> (\<forall>a. rl_ptr h = Some a \<longrightarrow> a \<notin> fst ` set L)"

definition tight_ok :: "(addr \<times> range) list \<Rightarrow> range_lock \<Rightarrow> bool" where
  "tight_ok L h \<longleftrightarrow> (\<forall>a r. rl_ptr h = Some a \<longrightarrow> (a, r) \<in> set L \<longrightarrow>
     m_start r = rl_start h \<and> m_end r = rl_end h \<and> \<not> m_is_proxy r \<and> m_refs r = 1 \<and>
     m_type r = (if rl_type h = Writer then writer else reader))"

definition loose_ok :: "range_tree \<Rightarrow> (addr \<times> range) list \<Rightarrow> range_lock \<Rightarrow> bool" where
  "loose_ok t L h \<longleftrightarrow> rl_type h = Reader \<and>
     (\<forall>a. rl_ptr h = Some a \<longrightarrow> (\<exists>r. data_of t a = Some r \<and> m_refs r = 0)) \<and>
     (\<forall>x \<in> set L. meets h (snd x) \<longrightarrow> inside h (snd x) \<and> m_is_proxy (snd x)) \<and>
     (\<forall>q. rl_start h \<le> q \<longrightarrow> q < rl_end h \<longrightarrow> (\<exists>x \<in> set L. hits q (snd x)))"

definition readers :: "(addr \<times> range) list \<Rightarrow> range_lock list \<Rightarrow> range \<Rightarrow> range_lock list" where
  "readers L H r = filter (\<lambda>h. loose L h \<and> inside h r) H"

definition range_ok :: "(addr \<times> range) list \<Rightarrow> range_lock list \<Rightarrow> addr \<times> range \<Rightarrow> bool" where
  "range_ok L H x \<longleftrightarrow> (let r = snd x in
     (m_read_wanted r \<longrightarrow> blocked r) \<and>
     (if m_is_proxy r then m_type r = reader \<and> m_refs r = int (length (readers L H r)) \<and> 0 < m_refs r
      else \<exists>h \<in> set H. rl_ptr h = Some (fst x)))"

definition ptrs :: "range_lock list \<Rightarrow> addr list" where
  "ptrs H = concat (map (\<lambda>h. case rl_ptr h of None \<Rightarrow> [] | Some a \<Rightarrow> [a]) H)"

definition off_ok :: "off_t \<Rightarrow> bool" where
  "off_ok x \<longleftrightarrow> - (2 ^ 63) \<le> x \<and> x < 2 ^ 63"

definition lock_inv :: "off_t set \<Rightarrow> range_tree \<Rightarrow> (addr \<times> range) list \<Rightarrow> range_lock list \<Rightarrow> bool" where
  "lock_inv B t L H \<longleftrightarrow> holds t L \<and> ordered (map snd L) \<and> small B (map snd L) \<and> distinct (ptrs H) \<and>
     (\<forall>h \<in> set H. rl_start h < rl_end h \<and> off_ok (rl_start h) \<and> off_ok (rl_end h) \<and> tight_ok L h \<and>
        (loose L h \<longrightarrow> loose_ok t L h)) \<and>
     (\<forall>x \<in> set L. range_ok L H x)"

lemma lock_invD:
  assumes "lock_inv B t L H"
  shows "holds t L" "ordered (map snd L)" "small B (map snd L)" "distinct (ptrs H)"
    "h \<in> set H \<Longrightarrow> rl_start h < rl_end h" "h \<in> set H \<Longrightarrow> off_ok (rl_start h)" "h \<in> set H \<Longrightarrow> off_ok (rl_end h)"
    "h \<in> set H \<Longrightarrow> tight_ok L h" "h \<in> set H \<Longrightarrow> loose L h \<Longrightarrow> loose_ok t L h" "x \<in> set L \<Longrightarrow> range_ok L H x"
  using assms by (auto simp: lock_inv_def)

lemma ptrs_simps [simp]: "ptrs [] = []" "ptrs (h # H) = (case rl_ptr h of None \<Rightarrow> [] | Some a \<Rightarrow> [a]) @ ptrs H"
  "ptrs (H @ H') = ptrs H @ ptrs H'"
  by (auto simp: ptrs_def)

lemma set_ptrs: "a \<in> set (ptrs H) \<longleftrightarrow> (\<exists>h \<in> set H. rl_ptr h = Some a)"
  by (induction H) (auto split: option.splits)

lemma tightE:
  assumes "lock_inv B t L H" "h \<in> set H" "\<not> loose L h"
  obtains a r where "rl_ptr h = Some a" "(a, r) \<in> set L" "m_start r = rl_start h" "m_end r = rl_end h"
    "\<not> m_is_proxy r" "m_refs r = 1" "m_type r = (if rl_type h = Writer then writer else reader)"
proof -
  from assms(3) obtain a r where a: "rl_ptr h = Some a" "(a, r) \<in> set L" by (auto simp: loose_def)
  then show thesis using that lock_invD(8)[OF assms(1,2)] by (auto simp: tight_ok_def)
qed

text \<open>An exclusive lock overlaps no other lock.\<close>

lemma ordered_apart:
  assumes "ordered (map snd L)" "(a, r) \<in> set L" "(b, q) \<in> set L" "a \<noteq> b"
  shows "apart r q"
proof -
  from assms(2) obtain us vs where L: "L = us @ (a, r) # vs" by (meson split_list)
  then have "(b, q) \<in> set us \<or> (b, q) \<in> set vs" using assms(3,4) by auto
  then show ?thesis using assms(1) L by (auto simp: ordered_append ordered_Cons apart_def)
qed

lemma ptrs_unique:
  assumes "distinct (ptrs (H1 @ h # H2))" "rl_ptr h = Some a" "g \<in> set (H1 @ H2)"
  shows "rl_ptr g \<noteq> Some a"
  using assms set_ptrs[of a H1] set_ptrs[of a H2] by auto

lemma writer_alone:
  assumes inv: "lock_inv B t L (H1 @ h # H2)" and w: "rl_type h = Writer" and g: "g \<in> set (H1 @ H2)"
  shows "rl_end h \<le> rl_start g \<or> rl_end g \<le> rl_start h"
proof -
  have hH: "h \<in> set (H1 @ h # H2)" and gH: "g \<in> set (H1 @ h # H2)" using g by auto
  have "\<not> loose L h" using lock_invD(9)[OF inv hH] w by (auto simp: loose_ok_def)
  from tightE[OF inv hH this] obtain a r where h: "rl_ptr h = Some a" "(a, r) \<in> set L" "m_start r = rl_start h"
    "m_end r = rl_end h" "\<not> m_is_proxy r" by blast
  show ?thesis
  proof (cases "loose L g")
    case True
    then have "\<not> meets g r" using lock_invD(9)[OF inv gH] h(2,5) by (auto simp: loose_ok_def)
    then show ?thesis using h by (auto simp: meets_def)
  next
    case False
    from tightE[OF inv gH this] obtain b q where q: "rl_ptr g = Some b" "(b, q) \<in> set L" "m_start q = rl_start g"
      "m_end q = rl_end g" by blast
    have "a \<noteq> b" using ptrs_unique[OF lock_invD(4)[OF inv] h(1) g] q(1) by auto
    from ordered_apart[OF lock_invD(2)[OF inv] h(2) q(2) this] show ?thesis using h q by (auto simp: apart_def)
  qed
qed

lemma empty_inv: "lock_inv {} lock_manager [] []"
  by (simp add: lock_inv_def lock_manager_def holds_def small_def) (simp add: empty_tree_def keep_node_def fun_eq_iff)

lemma inv_length: "lock_inv B t L H \<Longrightarrow> length L < 2 ^ 32"
  using ordered_small_length[of "map snd L" B] by (simp add: lock_inv_def)

lemma inv_num_nodes: "lock_inv B t L H \<Longrightarrow> m_num_nodes t = 0 \<longleftrightarrow> L = []"
  using inv_length[of B t L H] num_nodes_pos[of "length L"]
  by (auto simp: lock_inv_def holds_def rep_def word_gt_0)

text \<open>Splitting the ordered list at a new range.\<close>

lemma partsE:
  assumes "ordered (map snd L)" "s < e"
  obtains us ms vs where "L = us @ ms @ vs" "parts s e us ms vs"
proof -
  have "\<exists>us ms vs. L = us @ ms @ vs \<and> parts s e us ms vs" using assms(1)
  proof (induction L)
    case Nil
    then show ?case by (auto simp: parts_def)
  next
    case (Cons x L)
    then obtain us ms vs where IH: "L = us @ ms @ vs" "parts s e us ms vs" by (auto simp: ordered_Cons)
    have o: "m_start (snd x) < m_end (snd x)" "\<forall>y \<in> set L. m_end (snd x) \<le> m_start (snd y)"
      "\<forall>y \<in> set L. m_start (snd y) < m_end (snd y)"
      using Cons.prems by (auto simp: ordered_Cons ordered_def)
    consider "m_end (snd x) \<le> s" | "s < m_end (snd x)" "m_start (snd x) < e" | "e \<le> m_start (snd x)" by linarith
    then show ?case
    proof cases
      case 1
      then have "x # L = (x # us) @ ms @ vs" "parts s e (x # us) ms vs" using IH by (auto simp: parts_def)
      then show ?thesis by blast
    next
      case 2
      have "us = []"
      proof (rule ccontr)
        assume "us \<noteq> []"
        then have "hd us \<in> set L" "m_end (snd (hd us)) \<le> s" using IH by (auto simp: parts_def)
        then show False using o 2(1) by fastforce
      qed
      then have "x # L = [] @ (x # ms) @ vs" "parts s e [] (x # ms) vs" using IH 2 by (auto simp: parts_def)
      then show ?thesis by blast
    next
      case 3
      have "\<forall>y \<in> set L. e \<le> m_start (snd y)" using o 3 by fastforce
      then have "x # L = [] @ [] @ (x # L)" "parts s e [] [] (x # L)" using 3 by (auto simp: parts_def)
      then show ?thesis by blast
    qed
  qed
  then show thesis using that by blast
qed

end
