(* ===== verification/Range_Lock_Add.thy ===== *)
theory Range_Lock_Add
  imports Range_Lock_Safe
begin

text \<open>
  Locking keeps the invariant: a new range in a free place, a new reader over existing
  readers, and a thread that marks the range it waits for.
\<close>

section \<open>A range in a free place\<close>

lemma inv_live_ptr:
  assumes "lock_inv B t L H" "h \<in> set H" "rl_ptr h = Some a"
  shows "data_of t a \<noteq> None"
proof (cases "loose L h")
  case True
  then show ?thesis using lock_invD(9)[OF assms(1,2)] assms(3) by (auto simp: loose_ok_def)
next
  case False
  then obtain b r where "rl_ptr h = Some b" "(b, r) \<in> set L" using tightE[OF assms(1,2)] by blast
  then show ?thesis using avl.reads[OF lock_invD(1)[OF assms(1)]] assms(3) by force
qed

lemma loose_hits: "loose_ok t L h \<Longrightarrow> rl_start h \<le> q \<Longrightarrow> q < rl_end h \<Longrightarrow> \<exists>x \<in> set L. hits q (snd x)"
  by (simp add: loose_ok_def)

lemma loose_meets: "loose_ok t L h \<Longrightarrow> (a, r) \<in> set L \<Longrightarrow> meets h r \<Longrightarrow> inside h r \<and> m_is_proxy r"
  by (force simp: loose_ok_def)

lemma loose_apart:
  assumes "loose_ok t L h" "\<forall>x \<in> set L. apart r (snd x)" "m_start r < m_end r" "rl_start h < rl_end h"
  shows "\<not> meets h r"
proof
  assume m: "meets h r"
  let ?q = "max (m_start r) (rl_start h)"
  have "rl_start h \<le> ?q" "?q < rl_end h" using m assms(4) by (auto simp: meets_def)
  from loose_hits[OF assms(1) this] obtain x where x: "x \<in> set L" "hits ?q (snd x)" by blast
  have "?q < m_end r" using m assms(3) by (auto simp: meets_def)
  then show False using x assms(2) by (auto simp: hits_def apart_def dest!: bspec)
qed

lemma small_insert:
  assumes "small B rs" "card (insert s (insert e B)) < 2 ^ 32" "\<forall>r \<in> set rs'. m_start r \<in> insert s (insert e B) \<and> m_end r \<in> insert s (insert e B)"
  shows "small (insert s (insert e B)) rs'"
  using assms by (auto simp: small_def)

lemma inv_fresh:
  assumes inv: "lock_inv B t (us @ vs) H" and p: "parts s e us [] vs" and se: "s < e" "off_ok s" "off_ok e"
    and a: "data_of t a = None" and h': "holds t' (us @ (a, mk_range s e ty) # vs)"
    and d': "data_of t' = (data_of t)(a \<mapsto> mk_range s e ty)"
    and ty: "ty = (if lt = Writer then writer else reader)" and B: "card (insert s (insert e B)) < 2 ^ 32"
  shows "lock_inv (insert s (insert e B)) t' (us @ (a, mk_range s e ty) # vs)
    (\<lparr>rl_start = s, rl_end = e, rl_type = lt, rl_ptr = Some a\<rparr> # H)"
proof -
  let ?L = "us @ vs" and ?r = "mk_range s e ty" and ?h = "\<lparr>rl_start = s, rl_end = e, rl_type = lt, rl_ptr = Some a\<rparr>"
  let ?L' = "us @ (a, ?r) # vs"
  note I = lock_invD[OF inv]
  have tyc: "ty \<noteq> proxy_reader" using ty by auto
  have fresh: "rl_ptr h \<noteq> Some a" if "h \<in> set H" for h using inv_live_ptr[OF inv that] a by auto
  have loose: "loose ?L' h \<longleftrightarrow> loose ?L h" if "h \<in> set H" for h using fresh[OF that] by (auto simp: loose_def)
  have hl: "\<not> loose ?L' ?h" by (simp add: loose_def)
  have apart: "apart ?r (snd x)" if "x \<in> set ?L" for x using that p by (auto simp: parts_def apart_def)
  have o: "ordered (map snd ?L')" using I(2) p se by (auto simp: parts_def ordered_append ordered_Cons)
  have sm: "small (insert s (insert e B)) (map snd ?L')" by (rule small_insert[OF I(3) B]) (use I(3) in \<open>auto simp: small_def\<close>)
  have d: "distinct (ptrs (?h # H))" using I(4) fresh by (auto simp: set_ptrs)
  have lo: "loose_ok t' ?L' h" if h: "h \<in> set H" "loose ?L' h" for h
  proof -
    have ok: "loose_ok t ?L h" using I(9)[OF h(1)] loose[OF h(1)] h(2) by simp
    have "\<not> meets h ?r" by (rule loose_apart[OF ok]) (use apart se I(5)[OF h(1)] in auto)
    moreover have "data_of t' b = data_of t b" if "rl_ptr h = Some b" for b using fresh[OF h(1)] that d' by auto
    ultimately show ?thesis using ok by (auto simp: loose_ok_def)
  qed
  have tok: "tight_ok ?L' h" if "h \<in> set H" for h using I(8)[OF that] fresh[OF that] by (auto simp: tight_ok_def)
  have tokh: "tight_ok ?L' ?h" using avl.addrs[OF h'] ty by (auto simp: tight_ok_def mk_range_def image_iff)
  have rd: "readers ?L' (?h # H) r = readers ?L H r" for r
    using hl loose by (auto simp: readers_def intro: filter_cong)
  have rok: "range_ok ?L' (?h # H) x" if "x \<in> set ?L'" for x
  proof (cases "x = (a, ?r)")
    case True
    moreover have "\<not> m_is_proxy ?r" using tyc by (simp add: mk_range_def)
    ultimately show ?thesis by (simp add: range_ok_def Let_def)
  next
    case False
    then have "range_ok ?L H x" using that I(10)[of x] by auto
    then show ?thesis unfolding range_ok_def Let_def rd by auto
  qed
  show ?thesis unfolding lock_inv_def
    using h' o sm d lo tok tokh rok se hl I(5-7) by auto
qed

section \<open>Marking a range\<close>

lemma inv_mark:
  assumes inv: "lock_inv B t L H" and x: "(a, r) \<in> set L" and h': "holds t' (write_list a f L)"
    and d': "data_of t' = (data_of t)(a \<mapsto> f r)"
    and f: "\<And>r. m_start (f r) = m_start r \<and> m_end (f r) = m_end r \<and> m_type (f r) = m_type r \<and> m_refs (f r) = m_refs r \<and>
      m_is_proxy (f r) = m_is_proxy r" and wb: "m_read_wanted (f r) \<longrightarrow> blocked (f r)"
  shows "lock_inv B t' (write_list a f L) H"
proof -
  define g where "g = (\<lambda>x. if fst x = a then (a, f (snd x)) else x)"
  note I = lock_invD[OF inv]
  have L': "write_list a f L = map g L" by (simp add: write_list_def g_def)
  have same: "fst (g x) = fst x" "m_start (snd (g x)) = m_start (snd x)" "m_end (snd (g x)) = m_end (snd x)"
    "m_type (snd (g x)) = m_type (snd x)" "m_refs (snd (g x)) = m_refs (snd x)" "m_is_proxy (snd (g x)) = m_is_proxy (snd x)" for x
    using f by (auto simp: g_def)
  have fs: "fst ` set (map g L) = fst ` set L"
    using fst_write_list[of a f L] unfolding L' by (metis list.set_map)
  have loose: "loose (map g L) h = loose L h" for h unfolding loose_def fs ..
  have o: "ordered (map snd (map g L))"
    using I(2) same unfolding ordered_def sorted_wrt_map by (simp add: sorted_wrt_map)
  have sm: "small B (map snd (map g L))" using I(3) same unfolding small_def by auto
  have ua: "u = r" if "(a, u) \<in> set L" for u
    using avl.reads[OF I(1) that] avl.reads[OF I(1) x] by simp
  have "inside h (snd (g y)) = inside h (snd y)" "meets h (snd (g y)) = meets h (snd y)" "hits q (snd (g y)) = hits q (snd y)" for h y q
    using same unfolding inside_def meets_def hits_def by auto
  note geo = this
  have lo: "loose_ok t' (map g L) h" if h: "h \<in> set H" "loose L h" for h
  proof -
    have "rl_ptr h \<noteq> Some a" using h(2) x by (force simp: loose_def)
    then have "data_of t' b = data_of t b" if "rl_ptr h = Some b" for b using that d' by auto
    then show ?thesis using I(9)[OF h] geo same unfolding loose_ok_def by auto
  qed
  have tok: "tight_ok (map g L) h" if "h \<in> set H" for h
    unfolding tight_ok_def
  proof (intro allI impI)
    fix b q assume b: "rl_ptr h = Some b" "(b, q) \<in> set (map g L)"
    then obtain y where y: "y \<in> set L" "g y = (b, q)" by auto
    then have "(b, snd y) \<in> set L" using same(1)[of y] by (metis fst_conv prod.collapse)
    then show "m_start q = rl_start h \<and> m_end q = rl_end h \<and> \<not> m_is_proxy q \<and> m_refs q = 1 \<and>
      m_type q = (if rl_type h = Writer then writer else reader)"
      using I(8)[OF that] b(1) same(2-6)[of y] y(2) by (auto simp: tight_ok_def)
  qed
  have rd: "readers (map g L) H (snd (g y)) = readers L H (snd y)" for y
    unfolding readers_def loose geo ..
  have rok: "range_ok (map g L) H (g y)" if y: "y \<in> set L" for y
  proof -
    have "m_read_wanted (snd (g y)) \<longrightarrow> blocked (snd (g y))"
    proof (cases "fst y = a")
      case True
      then have "snd y = r" using ua[of "snd y"] y by (metis prod.collapse)
      then show ?thesis using True wb by (simp add: g_def)
    next
      case False
      then show ?thesis using I(10)[OF y] by (simp add: range_ok_def Let_def g_def)
    qed
    then show ?thesis using I(10)[OF y] unfolding range_ok_def Let_def rd same by auto
  qed
  show ?thesis unfolding lock_inv_def L'
    using h' o sm I(4-7) lo tok rok loose unfolding L' by auto
qed


section \<open>A reader over existing readers\<close>

text \<open>The situation after \<open>add_reader\<close> has met the ranges \<open>ms\<close>.\<close>

definition busy :: "off_t set \<Rightarrow> range_tree \<Rightarrow> range_lock list \<Rightarrow> off_t \<Rightarrow> off_t \<Rightarrow> (addr \<times> range) list \<Rightarrow>
    (addr \<times> range) list \<Rightarrow> (addr \<times> range) list \<Rightarrow> range_tree \<Rightarrow> (addr \<times> range) list \<Rightarrow> bool" where
  "busy B t H s e us ms vs t' mid \<longleftrightarrow> lock_inv B t (us @ ms @ vs) H \<and> parts s e us ms vs \<and> s < e \<and>
     (\<forall>x \<in> set ms. sharable (snd x)) \<and> holds t' (us @ mid @ vs) \<and> map snd mid = cut_front s e (map snd ms) \<and> evolves t ms t'"

lemma busyD:
  assumes "busy B t H s e us ms vs t' mid"
  shows "lock_inv B t (us @ ms @ vs) H" "parts s e us ms vs" "s < e" "\<forall>x \<in> set ms. sharable (snd x)"
    "holds t' (us @ mid @ vs)" "map snd mid = cut_front s e (map snd ms)" "evolves t ms t'" "met s e (map snd ms)"
  using assms lock_invD(2)[of B t "us @ ms @ vs" H] by (auto simp: busy_def met_def parts_def ordered_append)

lemma busy_mid:
  assumes b: "busy B t H s e us ms vs t' mid" and x: "x \<in> set mid"
  shows "piece_of s e (map snd ms) (snd x)" "m_is_proxy (snd x)" "m_type (snd x) = reader" "0 < m_refs (snd x)"
    "m_start (snd x) < m_end (snd x)" "\<not> m_read_wanted (snd x)"
proof -
  have q: "snd x \<in> set (cut_front s e (map snd ms))" using busyD(6)[OF b] x by (metis image_eqI list.set_map)
  show p: "piece_of s e (map snd ms) (snd x)" by (rule cut_front_pieces[OF busyD(8)[OF b] q])
  then show "m_is_proxy (snd x)" "m_type (snd x) = reader" "\<not> m_read_wanted (snd x)" by (auto simp: piece_of_def)
  have "\<forall>r \<in> set (map snd ms). 0 < m_refs r" using busyD(4)[OF b] by (auto simp: sharable_def)
  then show "0 < m_refs (snd x)" using p by (auto simp: piece_of_def)
  show "m_start (snd x) < m_end (snd x)" using cut_front_ordered[OF busyD(8)[OF b]] q by (auto simp: ordered_def)
qed

lemma busy_ordered:
  assumes b: "busy B t H s e us ms vs t' mid"
  shows "ordered (map snd (us @ mid @ vs))"
proof -
  note p = busyD(2)[OF b, unfolded parts_def]
  have o: "ordered (map snd (us @ ms @ vs))" using lock_invD(2)[OF busyD(1)[OF b]] .
  have us: "\<forall>u \<in> set us. \<forall>r \<in> set (map snd ms). m_end (snd u) \<le> m_start r" and vs: "\<forall>v \<in> set vs. \<forall>r \<in> set (map snd ms). m_end r \<le> m_start (snd v)"
    using o by (auto simp: ordered_append)
  have org: "(\<exists>r \<in> set (map snd ms). within (snd q) r) \<or> lies s e (snd q)" if "q \<in> set mid" for q
    using busy_mid(1)[OF b that] unfolding piece_of_def by blast
  have lo: "m_end (snd u) \<le> m_start (snd q)" if "q \<in> set mid" "u \<in> set us" for u q
    using org[OF that(1)]
  proof (elim disjE bexE)
    fix r assume "r \<in> set (map snd ms)" "within (snd q) r"
    then show ?thesis using us that(2) by (auto simp: within_def dest: bspec intro: order_trans)
  next
    assume "lies s e (snd q)"
    then show ?thesis using p that(2) by (auto simp: lies_def intro: order_trans)
  qed
  have hi: "m_end (snd q) \<le> m_start (snd v)" if "q \<in> set mid" "v \<in> set vs" for v q
    using org[OF that(1)]
  proof (elim disjE bexE)
    fix r assume "r \<in> set (map snd ms)" "within (snd q) r"
    then show ?thesis using vs that(2) by (auto simp: within_def dest: bspec intro: order_trans)
  next
    assume "lies s e (snd q)"
    then show ?thesis using p that(2) by (auto simp: lies_def intro: order_trans)
  qed
  have "ordered (map snd mid)" using busyD(6)[OF b] cut_front_ordered[OF busyD(8)[OF b]] by simp
  moreover have "ordered (map snd us)" "ordered (map snd vs)" "\<forall>u \<in> set us. \<forall>v \<in> set vs. m_end (snd u) \<le> m_start (snd v)"
    using o by (auto simp: ordered_append dest: bspec)
  ultimately show ?thesis using lo hi by (simp add: ordered_append ball_Un)
qed

text \<open>Which handles are loose afterwards.\<close>

lemma busy_retired:
  assumes b: "busy B t H s e us ms vs t' mid" and d: "data_of t' a = Some r" "m_refs r = 0" and out: "a \<notin> fst ` set (us @ vs)"
  shows "a \<notin> fst ` set (us @ mid @ vs)"
proof
  assume "a \<in> fst ` set (us @ mid @ vs)"
  then obtain q where q: "(a, q) \<in> set mid" using out by auto
  then have "data_of t' a = Some q" using avl.reads[OF busyD(5)[OF b], of a q] by simp
  then show False using busy_mid(4)[OF b q] d by simp
qed

lemma busy_loose:
  assumes b: "busy B t H s e us ms vs t' mid" and g: "g \<in> set H"
  shows "loose (us @ mid @ vs) g \<longleftrightarrow> loose (us @ ms @ vs) g \<or> (\<exists>a r. rl_ptr g = Some a \<and> (a, r) \<in> set ms)"
    and "loose (us @ mid @ vs) g \<Longrightarrow> rl_ptr g = Some a \<Longrightarrow> \<exists>r. data_of t' a = Some r \<and> m_refs r = 0"
proof -
  note inv = busyD(1)[OF b]
  have dist: "distinct (map fst (us @ ms @ vs))" by (rule avl.addrs[OF lock_invD(1)[OF inv]])
  have old: "\<exists>r. data_of t' a = Some r \<and> m_refs r = 0" if l: "loose (us @ ms @ vs) g" "rl_ptr g = Some a" for a
  proof -
    obtain r where "data_of t a = Some r" "m_refs r = 0" using lock_invD(9)[OF inv g l(1)] l(2) by (auto simp: loose_ok_def)
    moreover have "a \<notin> fst ` set ms" using l by (auto simp: loose_def)
    ultimately show ?thesis using busyD(7)[OF b] by (auto simp: evolves_def)
  qed
  have new: "data_of t' a = Some (r\<lparr>m_refs := 0\<rparr>)" if "rl_ptr g = Some a" "(a, r) \<in> set ms" for a r
  proof -
    have "\<not> m_is_proxy r" using lock_invD(8)[OF inv g] that by (auto simp: tight_ok_def)
    then show ?thesis using busyD(7)[OF b] that(2) by (auto simp: evolves_def)
  qed
  show *: "loose (us @ mid @ vs) g \<longleftrightarrow> loose (us @ ms @ vs) g \<or> (\<exists>a r. rl_ptr g = Some a \<and> (a, r) \<in> set ms)"
  proof
    assume "loose (us @ mid @ vs) g"
    then show "loose (us @ ms @ vs) g \<or> (\<exists>a r. rl_ptr g = Some a \<and> (a, r) \<in> set ms)" by (force simp: loose_def)
  next
    assume "loose (us @ ms @ vs) g \<or> (\<exists>a r. rl_ptr g = Some a \<and> (a, r) \<in> set ms)"
    then show "loose (us @ mid @ vs) g"
    proof (elim disjE exE conjE)
      assume l: "loose (us @ ms @ vs) g"
      show ?thesis unfolding loose_def
      proof (intro allI impI)
        fix a assume a: "rl_ptr g = Some a"
        obtain r where "data_of t' a = Some r" "m_refs r = 0" using old[OF l a] by blast
        then show "a \<notin> fst ` set (us @ mid @ vs)" by (rule busy_retired[OF b]) (use l a in \<open>auto simp: loose_def\<close>)
      qed
    next
      fix a r assume a: "rl_ptr g = Some a" "(a, r) \<in> set ms"
      have "a \<notin> fst ` set (us @ vs)" using dist a(2) by force
      from busy_retired[OF b new[OF a] _ this] show ?thesis using a(1) by (simp add: loose_def)
    qed
  qed
  show "\<exists>r. data_of t' a = Some r \<and> m_refs r = 0" if "loose (us @ mid @ vs) g" "rl_ptr g = Some a"
    using that * old new by fastforce
qed


text \<open>
  Where a piece meets a handle that was loose before, or a handle that has just come loose.
\<close>

lemma apart_within: "within q r \<Longrightarrow> apart r r' \<Longrightarrow> apart q r'"
  by (auto simp: within_def apart_def)

lemma apart_inside: "apart q r \<Longrightarrow> m_start q < m_end q \<Longrightarrow> inside h q \<Longrightarrow> m_start r = rl_start h \<Longrightarrow> m_end r = rl_end h \<Longrightarrow> False"
  by (auto simp: apart_def inside_def)

lemma inside_meets: "inside h q \<Longrightarrow> m_start q < m_end q \<Longrightarrow> meets h q"
  by (auto simp: inside_def meets_def)

lemma busy_new_gap:
  assumes b: "busy B t H s e us ms vs t' mid" and x: "x \<in> set mid" and q: "lies s e (snd x)" "\<forall>r \<in> set (map snd ms). apart (snd x) r"
    and g: "g \<in> set H" "loose (us @ mid @ vs) g"
  shows "\<not> meets g (snd x)"
proof (cases "loose (us @ ms @ vs) g")
  case True
  note p = busyD(2)[OF b, unfolded parts_def]
  have "\<forall>y \<in> set (us @ ms @ vs). apart (snd x) (snd y)"
    using p q by (auto simp: apart_def lies_def)
  from loose_apart[OF lock_invD(9)[OF busyD(1)[OF b] g(1) True] this busy_mid(5)[OF b x] lock_invD(5)[OF busyD(1)[OF b] g(1)]]
  show ?thesis .
next
  case False
  then obtain a r where a: "rl_ptr g = Some a" "(a, r) \<in> set ms" using busy_loose(1)[OF b g(1)] g(2) by blast
  then have r: "m_start r = rl_start g" "m_end r = rl_end g"
    using lock_invD(8)[OF busyD(1)[OF b] g(1)] by (auto simp: tight_ok_def)
  have "apart (snd x) r" using q(2) a(2) by force
  then show ?thesis using r by (auto simp: apart_def meets_def)
qed

text \<open>A piece of an old range: the handles it counts are those of that range.\<close>

lemma busy_old_piece:
  assumes b: "busy B t H s e us ms vs t' mid" and x: "x \<in> set mid" and ar: "(a, r) \<in> set ms" and w: "within (snd x) r"
    and g: "g \<in> set H"
  shows "loose (us @ mid @ vs) g \<Longrightarrow> meets g (snd x) \<Longrightarrow> inside g (snd x)"
    and "loose (us @ mid @ vs) g \<and> inside g (snd x) \<longleftrightarrow>
      (if m_is_proxy r then loose (us @ ms @ vs) g \<and> inside g r else rl_ptr g = Some a)"
proof -
  note inv = busyD(1)[OF b]
  have arL: "(a, r) \<in> set (us @ ms @ vs)" using ar by simp
  have ne: "m_start (snd x) < m_end (snd x)" by (rule busy_mid(5)[OF b x])
  have old: "inside g r \<and> m_is_proxy r" if "loose (us @ ms @ vs) g" "meets g (snd x)"
  proof -
    have "meets g r" using that(2) w by (auto simp: meets_def within_def)
    then show ?thesis using loose_meets[OF lock_invD(9)[OF inv g that(1)] arL] by simp
  qed
  have new: "c = a \<and> r' = r \<and> \<not> m_is_proxy r \<and> m_start r = rl_start g \<and> m_end r = rl_end g"
    if c: "rl_ptr g = Some c" "(c, r') \<in> set ms" "meets g (snd x)" for c r'
  proof -
    have cL: "(c, r') \<in> set (us @ ms @ vs)" using c(2) by simp
    have r': "m_start r' = rl_start g" "m_end r' = rl_end g" "\<not> m_is_proxy r'"
      using lock_invD(8)[OF inv g] c(1) cL by (auto simp: tight_ok_def)
    have "\<not> apart r r'" using c(3) w r' by (auto simp: apart_def meets_def within_def)
    then have "c = a" using ordered_apart[OF lock_invD(2)[OF inv] arL cL] by auto
    then have "r' = r" using avl.reads[OF lock_invD(1)[OF inv] arL] avl.reads[OF lock_invD(1)[OF inv] cL] by simp
    then show ?thesis using r' \<open>c = a\<close> by simp
  qed
  show "inside g (snd x)" if l: "loose (us @ mid @ vs) g" "meets g (snd x)"
    using busy_loose(1)[OF b g] l(1) old new l(2) w by (fastforce simp: inside_def within_def)
  show "loose (us @ mid @ vs) g \<and> inside g (snd x) \<longleftrightarrow>
      (if m_is_proxy r then loose (us @ ms @ vs) g \<and> inside g r else rl_ptr g = Some a)"
  proof
    assume l: "loose (us @ mid @ vs) g \<and> inside g (snd x)"
    then have m: "meets g (snd x)" using inside_meets ne by blast
    show "if m_is_proxy r then loose (us @ ms @ vs) g \<and> inside g r else rl_ptr g = Some a"
      using l busy_loose(1)[OF b g] old[OF _ m] new[OF _ _ m] by auto
  next
    assume r: "if m_is_proxy r then loose (us @ ms @ vs) g \<and> inside g r else rl_ptr g = Some a"
    show "loose (us @ mid @ vs) g \<and> inside g (snd x)"
    proof (cases "m_is_proxy r")
      case True
      then show ?thesis using r busy_loose(1)[OF b g] w by (auto simp: inside_def within_def)
    next
      case False
      then have "m_start r = rl_start g" "m_end r = rl_end g" using r lock_invD(8)[OF inv g] arL by (auto simp: tight_ok_def)
      then show ?thesis using False r busy_loose(1)[OF b g] ar w by (auto simp: inside_def within_def)
    qed
  qed
qed

lemma filter_unique_ptr:
  assumes "distinct (ptrs H)" "h \<in> set H" "rl_ptr h = Some a"
  shows "length (filter (\<lambda>g. rl_ptr g = Some a) H) = 1"
  using assms
proof (induction H)
  case (Cons g H)
  show ?case
  proof (cases "rl_ptr g = Some a")
    case True
    then have "filter (\<lambda>g. rl_ptr g = Some a) H = []" using Cons.prems(1) by (auto simp: set_ptrs filter_empty_conv)
    then show ?thesis using True by simp
  next
    case False
    then show ?thesis using Cons by (auto split: option.splits)
  qed
qed simp

lemma busy_refs:
  assumes b: "busy B t H s e us ms vs t' mid" and x: "x \<in> set mid"
  shows "m_refs (snd x) = int (length (readers (us @ mid @ vs) (\<lparr>rl_start = s, rl_end = e, rl_type = Reader, rl_ptr = None\<rparr> # H) (snd x)))"
proof -
  note inv = busyD(1)[OF b]
  let ?h = "\<lparr>rl_start = s, rl_end = e, rl_type = Reader, rl_ptr = None\<rparr>" and ?q = "snd x"
  let ?n = "length (filter (\<lambda>g. loose (us @ mid @ vs) g \<and> inside g ?q) H)"
  have ne: "m_start ?q < m_end ?q" by (rule busy_mid(5)[OF b x])
  have h: "loose (us @ mid @ vs) ?h" "inside ?h ?q \<longleftrightarrow> lies s e ?q" by (simp_all add: loose_def inside_def lies_def)
  have tot: "length (readers (us @ mid @ vs) (?h # H) ?q) = ?n + (if lies s e ?q then 1 else 0)"
    using h by (simp add: readers_def)
  from busy_mid(1)[OF b x, unfolded piece_of_def] consider
    (old) r where "r \<in> set (map snd ms)" "within ?q r" "lies s e ?q \<and> m_refs ?q = m_refs r + 1 \<or> (m_end ?q \<le> s \<or> e \<le> m_start ?q) \<and> m_refs ?q = m_refs r"
    | (new) "lies s e ?q" "m_refs ?q = 1" "\<forall>r \<in> set (map snd ms). apart ?q r" by blast
  then show ?thesis
  proof cases
    case old
    then obtain a where a: "(a, r) \<in> set ms" by auto
    then have aL: "(a, r) \<in> set (us @ ms @ vs)" by simp
    have "int ?n = m_refs r"
    proof (cases "m_is_proxy r")
      case True
      then have "filter (\<lambda>g. loose (us @ mid @ vs) g \<and> inside g ?q) H = readers (us @ ms @ vs) H r"
        using busy_old_piece(2)[OF b x a old(2)] unfolding readers_def by (intro filter_cong) auto
      then show ?thesis using lock_invD(10)[OF inv aL] True by (simp add: range_ok_def)
    next
      case False
      then have "filter (\<lambda>g. loose (us @ mid @ vs) g \<and> inside g ?q) H = filter (\<lambda>g. rl_ptr g = Some a) H"
        using busy_old_piece(2)[OF b x a old(2)] by (intro filter_cong) auto
      moreover obtain h where "h \<in> set H" "rl_ptr h = Some a" using lock_invD(10)[OF inv aL] False by (auto simp: range_ok_def)
      ultimately have "?n = 1" using filter_unique_ptr[OF lock_invD(4)[OF inv]] by simp
      then show ?thesis using busyD(4)[OF b] a False by (auto simp: sharable_def)
    qed
    moreover have "\<not> lies s e ?q" if "m_end ?q \<le> s \<or> e \<le> m_start ?q" using that ne by (auto simp: lies_def)
    ultimately show ?thesis using tot old(3) by auto
  next
    case new
    have "filter (\<lambda>g. loose (us @ mid @ vs) g \<and> inside g ?q) H = []"
      using busy_new_gap[OF b x new(1,3)] inside_meets ne by (auto simp: filter_empty_conv)
    then show ?thesis using tot new by simp
  qed
qed


lemma busy_untouched:
  assumes b: "busy B t H s e us ms vs t' mid" and x: "x \<in> set us \<union> set vs"
    and g: "g \<in> set H" "loose (us @ mid @ vs) g"
  shows "meets g (snd x) \<Longrightarrow> loose (us @ ms @ vs) g"
proof (rule ccontr)
  note inv = busyD(1)[OF b]
  assume m: "meets g (snd x)" and n: "\<not> loose (us @ ms @ vs) g"
  then obtain a r where a: "rl_ptr g = Some a" "(a, r) \<in> set ms" using busy_loose(1)[OF b g(1)] g(2) by blast
  then have aL: "(a, r) \<in> set (us @ ms @ vs)" by simp
  have r: "m_start r = rl_start g" "m_end r = rl_end g" using lock_invD(8)[OF inv g(1)] a(1) aL by (auto simp: tight_ok_def)
  have xL: "(fst x, snd x) \<in> set (us @ ms @ vs)" using x by auto
  have "fst x \<notin> fst ` set ms" using avl.addrs[OF lock_invD(1)[OF inv]] x by auto
  then have "fst x \<noteq> a" using a(2) by (metis fst_conv image_eqI)
  from ordered_apart[OF lock_invD(2)[OF inv] xL aL this] show False using m r by (auto simp: apart_def meets_def)
qed

lemma busy_loose_ok:
  assumes b: "busy B t H s e us ms vs t' mid" and g: "g \<in> set H" "loose (us @ mid @ vs) g"
  shows "loose_ok t' (us @ mid @ vs) g"
proof -
  note inv = busyD(1)[OF b]
  note L = busy_loose[OF b g(1)]
  have "rl_type g = Reader"
  proof (cases "loose (us @ ms @ vs) g")
    case True
    then show ?thesis using lock_invD(9)[OF inv g(1)] by (simp add: loose_ok_def)
  next
    case False
    then obtain a r where a: "rl_ptr g = Some a" "(a, r) \<in> set ms" using L(1) g(2) by blast
    then have "m_type r = reader" "m_type r = (if rl_type g = Writer then writer else reader)"
      using busyD(4)[OF b] lock_invD(8)[OF inv g(1)] by (auto simp: sharable_def tight_ok_def)
    then show ?thesis by (cases "rl_type g") auto
  qed
  moreover have "inside g (snd x) \<and> m_is_proxy (snd x)" if x: "x \<in> set (us @ mid @ vs)" "meets g (snd x)" for x
  proof (cases "x \<in> set mid")
    case True
    from busy_mid(1)[OF b True, unfolded piece_of_def] consider
      (old) r where "r \<in> set (map snd ms)" "within (snd x) r"
      | (new) "lies s e (snd x)" "\<forall>r \<in> set (map snd ms). apart (snd x) r" by blast
    then show ?thesis
    proof cases
      case old
      then obtain a where "(a, r) \<in> set ms" by auto
      from busy_old_piece(1)[OF b True this old(2) g x(2)] show ?thesis using busy_mid(2)[OF b True] by simp
    next
      case new
      from busy_new_gap[OF b True new g] show ?thesis using x(2) by simp
    qed
  next
    case False
    then have uv: "x \<in> set us \<union> set vs" using x(1) by auto
    then have "(fst x, snd x) \<in> set (us @ ms @ vs)" by auto
    from loose_meets[OF lock_invD(9)[OF inv g(1) busy_untouched[OF b uv g x(2)]] this x(2)] show ?thesis .
  qed
  moreover have "\<exists>x \<in> set (us @ mid @ vs). hits q (snd x)" if q: "rl_start g \<le> q" "q < rl_end g" for q
  proof -
    have "\<exists>x \<in> set (us @ ms @ vs). hits q (snd x)"
    proof (cases "loose (us @ ms @ vs) g")
      case True
      then show ?thesis using loose_hits[OF lock_invD(9)[OF inv g(1) True] q] by blast
    next
      case False
      then obtain a r where a: "rl_ptr g = Some a" "(a, r) \<in> set ms" using L(1) g(2) by blast
      then have "hits q r" using lock_invD(8)[OF inv g(1)] q by (auto simp: tight_ok_def hits_def)
      then show ?thesis using a(2) by force
    qed
    then obtain x where x: "x \<in> set (us @ ms @ vs)" "hits q (snd x)" by blast
    show ?thesis
    proof (cases "x \<in> set ms")
      case True
      then have "\<exists>r \<in> set (map snd ms). hits q r" using x(2) by auto
      then have "\<exists>p \<in> set (map snd mid). hits q p" using cut_front_hits[OF busyD(8)[OF b], of q] busyD(6)[OF b] by simp
      then show ?thesis by auto
    next
      case False
      then show ?thesis using x by auto
    qed
  qed
  ultimately show ?thesis using L(2)[OF g(2)] by (auto simp: loose_ok_def)
qed

lemma inv_busy:
  assumes b: "busy B t H s e us ms vs t' mid" and se: "off_ok s" "off_ok e" and B: "card (insert s (insert e B)) < 2 ^ 32"
  shows "lock_inv (insert s (insert e B)) t' (us @ mid @ vs) (\<lparr>rl_start = s, rl_end = e, rl_type = Reader, rl_ptr = None\<rparr> # H)"
proof -
  let ?h = "\<lparr>rl_start = s, rl_end = e, rl_type = Reader, rl_ptr = None\<rparr>" and ?L = "us @ ms @ vs" and ?L' = "us @ mid @ vs"
  note inv = busyD(1)[OF b]
  note p = busyD(2)[OF b, unfolded parts_def]
  have sm: "small (insert s (insert e B)) (map snd ?L')"
  proof (rule small_insert[OF lock_invD(3)[OF inv] B], rule ballI)
    fix r assume "r \<in> set (map snd ?L')"
    then consider "r \<in> set (map snd us) \<union> set (map snd vs)" | "r \<in> set (cut_front s e (map snd ms))"
      using busyD(6)[OF b] by (auto simp del: set_map)
    then show "m_start r \<in> insert s (insert e B) \<and> m_end r \<in> insert s (insert e B)"
    proof cases
      case 1
      then show ?thesis using lock_invD(3)[OF inv] by (auto simp: small_def)
    next
      case 2
      then show ?thesis using cut_front_bounds[OF busyD(8)[OF b], of "insert s (insert e B)" r] lock_invD(3)[OF inv] by (auto simp: small_def)
    qed
  qed
  have hl: "loose_ok t' ?L' ?h"
  proof -
    have "inside ?h (snd x) \<and> m_is_proxy (snd x)" if x: "x \<in> set ?L'" "meets ?h (snd x)" for x
    proof -
      have xm: "x \<in> set mid" using x p by (fastforce simp: meets_def)
      show ?thesis using busy_mid(1,2)[OF b xm] x(2) by (auto simp: piece_of_def meets_def inside_def lies_def)
    qed
    moreover have "\<exists>x \<in> set ?L'. hits q (snd x)" if "s \<le> q" "q < e" for q
    proof -
      have "\<exists>r \<in> set (map snd mid). hits q r" using cut_front_hits[OF busyD(8)[OF b], of q] busyD(6)[OF b] that by simp
      then show ?thesis by auto
    qed
    ultimately show ?thesis by (auto simp: loose_ok_def)
  qed
  have tok: "tight_ok ?L' g" if g: "g \<in> set H" for g
    unfolding tight_ok_def
  proof (intro allI impI)
    fix a r assume a: "rl_ptr g = Some a" "(a, r) \<in> set ?L'"
    then have "\<not> loose ?L' g" by (force simp: loose_def)
    then have n: "\<not> loose ?L g" "\<not> (\<exists>a r. rl_ptr g = Some a \<and> (a, r) \<in> set ms)" using busy_loose(1)[OF b g] by auto
    then obtain c r' where c: "rl_ptr g = Some c" "(c, r') \<in> set us \<union> set vs" by (fastforce simp: loose_def)
    then have "data_of t' a = Some r'" using avl.reads[OF busyD(5)[OF b], of c r'] a(1) by auto
    then have "r' = r" using avl.reads[OF busyD(5)[OF b] a(2)] by simp
    then show "m_start r = rl_start g \<and> m_end r = rl_end g \<and> \<not> m_is_proxy r \<and> m_refs r = 1 \<and>
      m_type r = (if rl_type g = Writer then writer else reader)"
      using lock_invD(8)[OF inv g] c a(1) by (auto simp: tight_ok_def)
  qed
  have rok: "range_ok ?L' (?h # H) x" if x: "x \<in> set ?L'" for x
  proof (cases "x \<in> set mid")
    case True
    then show ?thesis using busy_mid[OF b True] busy_refs[OF b True] by (simp add: range_ok_def Let_def)
  next
    case False
    then have uv: "x \<in> set us \<union> set vs" and xL: "x \<in> set ?L" using x by auto
    have ne: "m_start (snd x) < m_end (snd x)" using lock_invD(2)[OF inv] xL by (auto simp: ordered_def)
    have "readers ?L' (?h # H) (snd x) = readers ?L H (snd x)"
    proof -
      have "\<not> inside ?h (snd x)" using uv p ne busyD(3)[OF b] by (fastforce simp: inside_def)
      moreover have "(loose ?L' g \<and> inside g (snd x)) = (loose ?L g \<and> inside g (snd x))" if "g \<in> set H" for g
        using busy_untouched[OF b uv that] busy_loose(1)[OF b that] inside_meets[OF _ ne, of g] by blast
      ultimately show ?thesis by (auto simp: readers_def intro: filter_cong)
    qed
    then show ?thesis using lock_invD(10)[OF inv xL] by (auto simp: range_ok_def Let_def)
  qed
  show ?thesis unfolding lock_inv_def
    using busyD(3,5)[OF b] busy_ordered[OF b] sm lock_invD(4)[OF inv] hl tok rok busy_loose_ok[OF b] se lock_invD(5-7)[OF inv]
    by (auto simp: tight_ok_def)
qed

end
