(* ===== verification/Range_Lock_Release.thy ===== *)
theory Range_Lock_Release
  imports Range_Lock_Add
begin

text \<open>
  Unlocking keeps the invariant: a range that is still a node of the tree is taken out; a
  range that was replaced by proxies gives back one reference on each of them.
\<close>

section \<open>A range that is a node of the tree\<close>

lemma inv_unlock_tight:
  assumes inv: "lock_inv B t (us @ (a, r) # vs) (H1 @ h # H2)" and h: "rl_ptr h = Some a"
    and t': "holds t' (us @ vs)" "data_of t' = (data_of t)(a := None)"
  shows "lock_inv B t' (us @ vs) (H1 @ H2)"
proof -
  let ?L = "us @ (a, r) # vs" and ?H = "H1 @ h # H2"
  note I = lock_invD[OF inv]
  have hH: "h \<in> set ?H" by simp
  have np: "\<not> m_is_proxy r" using I(8)[OF hH] h by (auto simp: tight_ok_def)
  have other: "rl_ptr g \<noteq> Some a" if "g \<in> set (H1 @ H2)" for g using ptrs_unique[OF I(4) h that] .
  have loose: "loose (us @ vs) g \<longleftrightarrow> loose ?L g" if "g \<in> set (H1 @ H2)" for g using other[OF that] by (auto simp: loose_def)
  have nl: "\<not> loose ?L h" using h by (auto simp: loose_def)
  have lo: "loose_ok t' (us @ vs) g" if g: "g \<in> set (H1 @ H2)" "loose (us @ vs) g" for g
  proof -
    have gH: "g \<in> set ?H" using g(1) by auto
    have ok: "loose_ok t ?L g" using I(9)[OF gH] loose[OF g(1)] g(2) by simp
    have "\<not> meets g r" using loose_meets[OF ok, of a r] np by auto
    then have "\<not> hits q r" if "rl_start g \<le> q" "q < rl_end g" for q using that by (auto simp: hits_def meets_def)
    then have "\<exists>x \<in> set (us @ vs). hits q (snd x)" if "rl_start g \<le> q" "q < rl_end g" for q
      using loose_hits[OF ok that] that by auto
    moreover have "data_of t' b = data_of t b" if "rl_ptr g = Some b" for b using other[OF g(1)] that t'(2) by auto
    ultimately show ?thesis using ok by (auto simp: loose_ok_def)
  qed
  have tok: "tight_ok (us @ vs) g" if "g \<in> set (H1 @ H2)" for g using I(8)[of g] that by (auto simp: tight_ok_def)
  have rd: "readers (us @ vs) (H1 @ H2) q = readers ?L ?H q" for q
    using nl loose by (auto simp: readers_def intro!: arg_cong2[where f = "(@)"] filter_cong)
  have rok: "range_ok (us @ vs) (H1 @ H2) x" if x: "x \<in> set (us @ vs)" for x
  proof -
    have "fst x \<noteq> a" using avl.addrs[OF I(1)] x by auto
    then show ?thesis using I(10)[of x] x h unfolding range_ok_def Let_def rd by auto
  qed
  have "ordered (map snd (us @ vs))" "small B (map snd (us @ vs))" "distinct (ptrs (H1 @ H2))"
    using I(2-4) by (auto simp: ordered_append ordered_Cons small_def)
  then show ?thesis unfolding lock_inv_def using t'(1) lo tok rok I(5-7) by auto
qed

section \<open>A range that was replaced by proxies\<close>

lemma dec_in:
  assumes "x \<in> set (dec ms)"
  obtains r where "(fst x, r) \<in> set ms" "m_refs r \<noteq> 1" "snd x = r\<lparr>m_refs := m_refs r - 1\<rparr>"
proof -
  from assms have "\<exists>a r. (a, r) \<in> set ms \<and> m_refs r \<noteq> 1 \<and> x = (a, r\<lparr>m_refs := m_refs r - 1\<rparr>)"
    unfolding dec_def by force
  then show thesis using that by auto
qed

lemma dec_keep: "(a, r) \<in> set ms \<Longrightarrow> m_refs r \<noteq> 1 \<Longrightarrow> (a, r\<lparr>m_refs := m_refs r - 1\<rparr>) \<in> set (dec ms)"
  by (force simp: dec_def)

lemma fst_dec: "fst ` set (dec ms) \<subseteq> fst ` set ms"
  using dec_in[of _ ms] by (metis fst_conv image_eqI image_subsetI)

lemma dec_ordered:
  assumes "ordered (map snd (us @ ms @ vs))"
  shows "ordered (map snd (us @ dec ms @ vs))"
proof -
  have org: "\<exists>r \<in> set (map snd ms). m_start (snd x) = m_start r \<and> m_end (snd x) = m_end r" if "x \<in> set (dec ms)" for x
    using that by (elim dec_in) force
  have "sorted_wrt (\<lambda>x y. m_end (snd x) \<le> m_start (snd y)) (filter (\<lambda>x. m_refs (snd x) \<noteq> 1) ms)"
    using assms by (intro sorted_wrt_filter) (simp add: ordered_def sorted_wrt_append sorted_wrt_map)
  then have "sorted_wrt (\<lambda>x y. m_end (snd x) \<le> m_start (snd y)) (dec ms)"
    unfolding dec_def sorted_wrt_map by (simp add: case_prod_beta)
  moreover have rs: "\<forall>r \<in> set (map snd ms). m_start r < m_end r" "\<forall>u \<in> set us. \<forall>r \<in> set (map snd ms). m_end (snd u) \<le> m_start r"
    "\<forall>v \<in> set vs. \<forall>r \<in> set (map snd ms). m_end r \<le> m_start (snd v)"
    using assms by (auto simp: ordered_append) (auto simp: ordered_def)
  ultimately have "ordered (map snd (dec ms))"
    using org unfolding ordered_def sorted_wrt_map by (metis (no_types, lifting) imageE list.set_map)
  moreover have "m_end (snd u) \<le> m_start (snd x)" if "u \<in> set us" "x \<in> set (dec ms)" for u x
    using org[OF that(2)] rs(2) that(1) by metis
  moreover have "m_end (snd x) \<le> m_start (snd v)" if "v \<in> set vs" "x \<in> set (dec ms)" for v x
    using org[OF that(2)] rs(3) that(1) by metis
  moreover have "ordered (map snd us)" "ordered (map snd vs)" "\<forall>u \<in> set us. \<forall>v \<in> set vs. m_end (snd u) \<le> m_start (snd v)"
    using assms by (auto simp: ordered_append dest: bspec)
  ultimately show ?thesis by (simp add: ordered_append ball_Un)
qed

lemma chain_cover:
  assumes "ordered rs" "\<forall>r \<in> set rs. p \<le> m_start r \<and> m_end r \<le> e" "p \<le> e"
    "\<forall>q. p \<le> q \<longrightarrow> q < e \<longrightarrow> (\<exists>r \<in> set rs. hits q r)"
  shows "chain p e rs"
  using assms
proof (induction rs arbitrary: p)
  case Nil
  then show ?case by force
next
  case (Cons r rs)
  have r: "m_start r < m_end r" "p \<le> m_start r" "m_end r \<le> e" "\<forall>x \<in> set rs. m_end r \<le> m_start x"
    using Cons.prems(1,2) by (auto simp: ordered_Cons)
  have "p < e" using r by linarith
  then obtain x where x: "x \<in> set (r # rs)" "hits p x" using Cons.prems(4) by blast
  have "m_start r = p"
  proof (cases "x = r")
    case True
    then show ?thesis using x(2) r by (simp add: hits_def)
  next
    case False
    then have "m_end r \<le> m_start x" using x(1) r(4) by auto
    then show ?thesis using x(2) r by (simp add: hits_def)
  qed
  moreover have "chain (m_end r) e rs"
  proof (rule Cons.IH)
    show "\<forall>q. m_end r \<le> q \<longrightarrow> q < e \<longrightarrow> (\<exists>r \<in> set rs. hits q r)"
    proof (intro allI impI)
      fix q assume q: "m_end r \<le> q" "q < e"
      then obtain y where "y \<in> set (r # rs)" "hits q y" using Cons.prems(4) r by (meson less_imp_le order_trans)
      then show "\<exists>r \<in> set rs. hits q r" using q by (auto simp: hits_def)
    qed
  qed (use Cons.prems r in \<open>auto simp: ordered_Cons\<close>)
  ultimately show ?case using r by simp
qed

lemma length_filter_remove:
  "P h \<Longrightarrow> length (filter P (H1 @ h # H2)) = Suc (length (filter P (H1 @ H2)))"
  by simp

lemma inv_unlock_loose:
  assumes inv: "lock_inv B t (us @ ms @ vs) (H1 @ h # H2)" and h: "loose (us @ ms @ vs) h"
    and p: "parts (rl_start h) (rl_end h) us ms vs" and t': "holds t' (us @ dec ms @ vs)"
    and d': "\<And>g b. g \<in> set (H1 @ H2) \<Longrightarrow> rl_ptr g = Some b \<Longrightarrow> b \<notin> fst ` set (us @ ms @ vs) \<Longrightarrow> data_of t' b = data_of t b"
  shows "lock_inv B t' (us @ dec ms @ vs) (H1 @ H2)"
proof -
  let ?L = "us @ ms @ vs" and ?L' = "us @ dec ms @ vs" and ?H = "H1 @ h # H2"
  note I = lock_invD[OF inv]
  have hH: "h \<in> set ?H" by simp
  have ok: "loose_ok t ?L h" by (rule I(9)[OF hH h])
  have msi: "inside h (snd x) \<and> m_is_proxy (snd x)" if "x \<in> set ms" for x
    using loose_meets[OF ok, of "fst x" "snd x"] that p by (auto simp: parts_def meets_def)
  have uvi: "\<not> inside h (snd x)" if "x \<in> set us \<union> set vs" for x
  proof -
    have "m_start (snd x) < m_end (snd x)" using I(2) that by (auto simp: ordered_def)
    then show ?thesis using that p I(5)[OF hH] by (fastforce simp: inside_def parts_def)
  qed
  have prox: "m_is_proxy r" if "(a, r) \<in> set ms" for a r using msi[OF that] by simp
  have loose: "loose ?L' g \<longleftrightarrow> loose ?L g" if g: "g \<in> set (H1 @ H2)" for g
  proof
    assume l: "loose ?L' g"
    show "loose ?L g"
    proof (rule ccontr)
      assume "\<not> loose ?L g"
      moreover have "g \<in> set ?H" using g by auto
      ultimately obtain a r where a: "rl_ptr g = Some a" "(a, r) \<in> set ?L" "\<not> m_is_proxy r" using tightE[OF inv] by blast
      then have "(a, r) \<in> set us \<union> set vs" using prox by auto
      then show False using l a(1) by (force simp: loose_def)
    qed
  next
    assume "loose ?L g"
    then show "loose ?L' g" using fst_dec[of ms] unfolding loose_def set_append image_Un by blast
  qed
  have geo: "\<exists>r. (fst x, r) \<in> set ?L \<and> m_start (snd x) = m_start r \<and> m_end (snd x) = m_end r \<and> m_is_proxy (snd x) = m_is_proxy r"
    if "x \<in> set ?L'" for x
  proof (cases "x \<in> set (dec ms)")
    case True
    then show ?thesis by (elim dec_in) auto
  next
    case False
    then show ?thesis using that by (intro exI[of _ "snd x"]) auto
  qed
  have two: "m_refs r \<noteq> 1" if r: "(a, r) \<in> set ms" and g: "g \<in> set (H1 @ H2)" "loose ?L g" "inside g r" for a r g
  proof -
    have "m_refs r = int (length (readers ?L ?H r))" using I(10)[of "(a, r)"] r prox[OF r] by (simp add: range_ok_def)
    moreover have "length (readers ?L ?H r) = Suc (length (readers ?L (H1 @ H2) r))"
      using h msi[OF r] by (simp add: readers_def)
    moreover have "readers ?L (H1 @ H2) r \<noteq> []" using g by (auto simp: readers_def filter_empty_conv)
    ultimately show ?thesis by auto
  qed
  have lo: "loose_ok t' ?L' g" if g: "g \<in> set (H1 @ H2)" "loose ?L' g" for g
  proof -
    have gH: "g \<in> set ?H" and gl: "loose ?L g" using g loose by auto
    have ok: "loose_ok t ?L g" by (rule I(9)[OF gH gl])
    have "inside g (snd x) \<and> m_is_proxy (snd x)" if x: "x \<in> set ?L'" "meets g (snd x)" for x
    proof -
      obtain r where r: "(fst x, r) \<in> set ?L" "m_start (snd x) = m_start r" "m_end (snd x) = m_end r" "m_is_proxy (snd x) = m_is_proxy r"
        using geo[OF x(1)] by blast
      then show ?thesis using loose_meets[OF ok r(1)] x(2) by (auto simp: meets_def inside_def)
    qed
    moreover have "\<exists>x \<in> set ?L'. hits q (snd x)" if q: "rl_start g \<le> q" "q < rl_end g" for q
    proof -
      obtain x where x: "x \<in> set ?L" "hits q (snd x)" using loose_hits[OF ok q] by blast
      show ?thesis
      proof (cases "x \<in> set ms")
        case True
        have "meets g (snd x)" using x(2) q by (auto simp: hits_def meets_def)
        then have "inside g (snd x)" using loose_meets[OF ok, of "fst x" "snd x"] x(1) by simp
        then have "m_refs (snd x) \<noteq> 1" using two[of "fst x" "snd x" g] True g(1) gl by simp
        then have "(fst x, (snd x)\<lparr>m_refs := m_refs (snd x) - 1\<rparr>) \<in> set ?L'" using dec_keep[of "fst x" "snd x" ms] True by simp
        moreover have "hits q ((snd x)\<lparr>m_refs := m_refs (snd x) - 1\<rparr>)" using x(2) by (simp add: hits_def)
        ultimately show ?thesis by (metis snd_conv)
      qed (use x in auto)
    qed
    moreover have "\<exists>r. data_of t' b = Some r \<and> m_refs r = 0" if "rl_ptr g = Some b" for b
      using ok d'[OF g(1) that] gl that by (auto simp: loose_ok_def loose_def)
    ultimately show ?thesis using ok by (auto simp: loose_ok_def)
  qed
  have tok: "tight_ok ?L' g" if g: "g \<in> set (H1 @ H2)" for g
    unfolding tight_ok_def
  proof (intro allI impI)
    fix a r assume a: "rl_ptr g = Some a" "(a, r) \<in> set ?L'"
    have tk: "tight_ok ?L g" using I(8)[of g] g by auto
    have "(a, r) \<notin> set (dec ms)"
    proof
      assume "(a, r) \<in> set (dec ms)"
      then obtain q where "(a, q) \<in> set ms" by (auto elim: dec_in)
      then show False using tk a(1) prox by (auto simp: tight_ok_def)
    qed
    then show "m_start r = rl_start g \<and> m_end r = rl_end g \<and> \<not> m_is_proxy r \<and> m_refs r = 1 \<and>
      m_type r = (if rl_type g = Writer then writer else reader)" using tk a by (auto simp: tight_ok_def)
  qed
  have rdL: "readers ?L' (H1 @ H2) q = readers ?L (H1 @ H2) q" for q
    using loose by (auto simp: readers_def intro!: arg_cong2[where f = "(@)"] filter_cong)
  have rok: "range_ok ?L' (H1 @ H2) x" if x: "x \<in> set ?L'" for x
  proof (cases "x \<in> set (dec ms)")
    case True
    then obtain r where r: "(fst x, r) \<in> set ms" "m_refs r \<noteq> 1" "snd x = r\<lparr>m_refs := m_refs r - 1\<rparr>" by (rule dec_in)
    have "range_ok ?L ?H (fst x, r)" using I(10)[of "(fst x, r)"] r(1) by simp
    moreover have "length (readers ?L ?H r) = Suc (length (readers ?L (H1 @ H2) r))"
      using h msi[OF r(1)] by (simp add: readers_def)
    moreover have "readers ?L (H1 @ H2) (snd x) = readers ?L (H1 @ H2) r" by (simp add: r(3) readers_def inside_def)
    ultimately show ?thesis using r prox[OF r(1)] unfolding range_ok_def Let_def rdL by (auto simp: blocked_def)
  next
    case False
    then have uv: "x \<in> set us \<union> set vs" using x by auto
    then have "range_ok ?L ?H x" using I(10)[of x] by auto
    moreover have "readers ?L ?H (snd x) = readers ?L (H1 @ H2) (snd x)" using uvi[OF uv] by (simp add: readers_def)
    moreover have "rl_ptr h \<noteq> Some (fst x)" using h uv by (force simp: loose_def)
    ultimately show ?thesis unfolding range_ok_def Let_def rdL by auto
  qed
  have "small B (map snd ?L')" using I(3) geo unfolding small_def by (auto simp: ball_Un) (metis snd_conv)+
  moreover have "distinct (ptrs (H1 @ H2))" using I(4) by auto
  ultimately show ?thesis unfolding lock_inv_def using t' dec_ordered[OF I(2)] lo tok rok I(5-7) by auto
qed

end
