(* ===== verification/Range_Lock_Steps.thy ===== *)
theory Range_Lock_Steps
  imports Range_Lock_Release
begin

text \<open>
  The lock manager as a state machine: threads call \<open>lock_range\<close>, block on condition
  variables, wake up and try again, and call \<open>unlock_range\<close>.  A call that is undefined,
  because it removes a range whose node has two children, is no step.
\<close>

section \<open>Each operation keeps the invariant\<close>

definition wanted :: "lock_type \<Rightarrow> range \<Rightarrow> bool" where
  "wanted k r = (case k of Reader \<Rightarrow> m_read_wanted r | Writer \<Rightarrow> m_write_wanted r)"

definition flagged :: "(addr \<times> range) list \<Rightarrow> condvar \<Rightarrow> bool" where
  "flagged L cv \<longleftrightarrow> (\<exists>r. (fst cv, r) \<in> set L \<and> wanted (snd cv) r)"

lemma nonblocked_sharable:
  assumes inv: "lock_inv B t L H" and x: "x \<in> set L" and n: "\<not> blocked (snd x)"
  shows "sharable (snd x)"
proof (cases "m_is_proxy (snd x)")
  case True
  then show ?thesis using lock_invD(10)[OF inv x] n by (auto simp: range_ok_def Let_def sharable_def blocked_def)
next
  case False
  then obtain h where h: "h \<in> set H" "rl_ptr h = Some (fst x)" using lock_invD(10)[OF inv x] by (auto simp: range_ok_def Let_def)
  then show ?thesis using lock_invD(8)[OF inv h(1)] x lock_invD(10)[OF inv x] n
    by (cases x) (auto simp: tight_ok_def range_ok_def Let_def sharable_def blocked_def split: if_splits)
qed

lemma mark_flagged:
  assumes "(a, r) \<in> set L" "wanted k (f r)" "\<And>k r. wanted k r \<Longrightarrow> wanted k (f r)"
  shows "flagged (write_list a f L) (a, k)" "flagged L cv \<Longrightarrow> flagged (write_list a f L) cv"
proof -
  have m: "(if b = a then (a, f q) else (b, q)) \<in> set (write_list a f L)" if "(b, q) \<in> set L" for b q
    using that by (force simp: write_list_def)
  show "flagged (write_list a f L) (a, k)" using m[OF assms(1)] assms(2) by (auto simp: flagged_def)
  assume "flagged L cv"
  then obtain q where "(fst cv, q) \<in> set L" "wanted (snd cv) q" by (auto simp: flagged_def)
  then show "flagged (write_list a f L) cv" using m[of "fst cv" q] assms(3) by (fastforce simp: flagged_def split: if_splits)
qed

lemma wait_read_ok:
  assumes inv: "lock_inv B t L H" and x: "x \<in> set L" and b: "blocked (snd x)"
  shows "\<exists>t' L'. wait_read t (fst x) = Some (Wait t' (fst x, Reader)) \<and> lock_inv B t' L' H \<and>
    flagged L' (fst x, Reader) \<and> (\<forall>cv. flagged L cv \<longrightarrow> flagged L' cv)"
proof -
  let ?f = "\<lambda>r. r\<lparr>m_read_wanted := True\<rparr>"
  have x': "(fst x, snd x) \<in> set L" using x by simp
  from avl.writes[OF lock_invD(1)[OF inv] avl.reads[OF lock_invD(1)[OF inv] x'], of ?f] obtain t' where
    t': "set_data t (fst x) ?f = Some t'" "holds t' (write_list (fst x) ?f L)" "data_of t' = (data_of t)(fst x \<mapsto> ?f (snd x))" by blast
  have "lock_inv B t' (write_list (fst x) ?f L) H"
    by (rule inv_mark[OF inv x' t'(2,3)]) (use b in \<open>auto simp: blocked_def\<close>)
  moreover have w: "wanted k (?f r)" if "wanted k r" for k r using that by (auto simp: wanted_def split: lock_type.splits)
  moreover have "wanted Reader (?f (snd x))" by (simp add: wanted_def)
  ultimately show ?thesis using t'(1) mark_flagged[OF x', of Reader ?f] by (auto simp: wait_read_def)
qed

lemma wait_write_ok:
  assumes inv: "lock_inv B t L H" and x: "x \<in> set L"
  shows "\<exists>t' L'. wait_write t (fst x) = Some (Wait t' (fst x, Writer)) \<and> lock_inv B t' L' H \<and>
    flagged L' (fst x, Writer) \<and> (\<forall>cv. flagged L cv \<longrightarrow> flagged L' cv)"
proof -
  let ?f = "\<lambda>r. r\<lparr>m_write_wanted := True\<rparr>"
  have x': "(fst x, snd x) \<in> set L" using x by simp
  from avl.writes[OF lock_invD(1)[OF inv] avl.reads[OF lock_invD(1)[OF inv] x'], of ?f] obtain t' where
    t': "set_data t (fst x) ?f = Some t'" "holds t' (write_list (fst x) ?f L)" "data_of t' = (data_of t)(fst x \<mapsto> ?f (snd x))" by blast
  have "lock_inv B t' (write_list (fst x) ?f L) H"
    by (rule inv_mark[OF inv x' t'(2,3)]) (auto simp: blocked_def)
  moreover have w: "wanted k (?f r)" if "wanted k r" for k r using that by (auto simp: wanted_def split: lock_type.splits)
  moreover have "wanted Writer (?f (snd x))" by (simp add: wanted_def)
  ultimately show ?thesis using t'(1) mark_flagged[OF x', of Writer ?f] by (auto simp: wait_write_def)
qed

text \<open>
  What an attempt to lock \<open>[s, e)\<close> may do: it blocks on a flagged range that is held against
  it, or it adds a handle; flags that were set stay set.
\<close>

definition conflict :: "range_lock list \<Rightarrow> off_t \<Rightarrow> off_t \<Rightarrow> bool" where
  "conflict H s e \<longleftrightarrow> (\<exists>h \<in> set H. rl_start h < e \<and> s < rl_end h)"

definition attempted :: "off_t set \<Rightarrow> (addr \<times> range) list \<Rightarrow> range_lock list \<Rightarrow> off_t \<Rightarrow> off_t \<Rightarrow> lock_type \<Rightarrow> attempt \<Rightarrow> bool" where
  "attempted B L H s e ty r = (case r of
      Wait t' cv \<Rightarrow> \<exists>L'. lock_inv B t' L' H \<and> flagged L' cv \<and> snd cv = ty \<and> (\<forall>cv. flagged L cv \<longrightarrow> flagged L' cv) \<and> conflict H s e
    | Got t' p \<Rightarrow> \<exists>L'. lock_inv (insert s (insert e B)) t' L' (\<lparr>rl_start = s, rl_end = e, rl_type = ty, rl_ptr = p\<rparr> # H) \<and>
        (\<forall>cv. flagged L cv \<longrightarrow> flagged L' cv))"

lemma range_conflict:
  assumes inv: "lock_inv B t L H" and x: "x \<in> set L" "m_start (snd x) < e" "s < m_end (snd x)"
  shows "conflict H s e"
proof (cases "m_is_proxy (snd x)")
  case True
  then have "readers L H (snd x) \<noteq> []" using lock_invD(10)[OF inv x(1)] by (auto simp: range_ok_def Let_def)
  then obtain h where "h \<in> set H" "inside h (snd x)" by (auto simp: readers_def filter_empty_conv)
  then show ?thesis using x(2,3) unfolding conflict_def inside_def by (intro bexI[of _ h]) auto
next
  case False
  then obtain h where h: "h \<in> set H" "rl_ptr h = Some (fst x)" using lock_invD(10)[OF inv x(1)] by (auto simp: range_ok_def Let_def)
  then have "m_start (snd x) = rl_start h" "m_end (snd x) = rl_end h"
    using lock_invD(8)[OF inv h(1)] x(1) by (cases x, auto simp: tight_ok_def)+
  then show ?thesis using h(1) x(2,3) by (auto simp: conflict_def)
qed

text \<open>A request over ranges that are held, all of them by readers.\<close>

definition over_readers :: "range_lock list \<Rightarrow> off_t \<Rightarrow> off_t \<Rightarrow> bool" where
  "over_readers H s e \<longleftrightarrow> conflict H s e \<and> (\<forall>h \<in> set H. rl_start h < e \<longrightarrow> s < rl_end h \<longrightarrow> rl_type h = Reader)"

lemma sharable_over_readers:
  assumes inv: "lock_inv B t (us @ ms @ vs) H" and p: "parts s e us ms vs" and ne: "ms \<noteq> []"
    and sh: "\<forall>x \<in> set ms. sharable (snd x)"
  shows "over_readers H s e"
proof -
  obtain x where "x \<in> set (us @ ms @ vs)" "m_start (snd x) < e" "s < m_end (snd x)"
    using ne p by (cases ms) (auto simp: parts_def)
  then have c: "conflict H s e" by (rule range_conflict[OF inv])
  have "rl_type h = Reader" if h: "h \<in> set H" "rl_start h < e" "s < rl_end h" for h
  proof (cases "loose (us @ ms @ vs) h")
    case True
    then show ?thesis using lock_invD(9)[OF inv h(1)] by (simp add: loose_ok_def)
  next
    case False
    from tightE[OF inv h(1) False] obtain a r where r: "(a, r) \<in> set (us @ ms @ vs)" "m_start r = rl_start h" "m_end r = rl_end h"
      "m_type r = (if rl_type h = Writer then writer else reader)" by blast
    then have "(a, r) \<in> set ms" using h(2,3) p by (fastforce simp: parts_def)
    then show ?thesis using sh r(4) by (cases "rl_type h") (auto simp: sharable_def)
  qed
  then show ?thesis using c by (simp add: over_readers_def)
qed

lemma fresh_flagged: "flagged (us @ vs) cv \<Longrightarrow> flagged (us @ ms @ vs) cv"
  by (auto simp: flagged_def)

lemma add_first_ok:
  assumes inv: "lock_inv B t [] H" and se: "s < e" "off_ok s" "off_ok e" and B: "card (insert s (insert e B)) < 2 ^ 32"
    and ty: "ty = (if lt = Writer then writer else reader)"
  shows "\<exists>a t'. add range_compare t (mk_range s e ty) = Some (a, t') \<and> attempted B [] H s e lt (Got t' (Some a))"
proof -
  have h: "holds t ([] @ [])" using lock_invD(1)[OF inv] by simp
  have k: "ksorted m_start ([] @ ([] :: (addr \<times> range) list))" by (simp add: ksorted_def)
  from avl.add_new[OF h k, of "mk_range s e ty"] obtain a t' where
    t': "add range_compare t (mk_range s e ty) = Some (a, t')" "data_of t a = None" "holds t' ([] @ (a, mk_range s e ty) # [])"
    "data_of t' = (data_of t)(a \<mapsto> mk_range s e ty)" by (auto simp: add_def range_compare_cmp)
  have "parts s e [] [] []" by (simp add: parts_def)
  from inv_fresh[OF _ this se t'(2-4) ty B] inv have
    "lock_inv (insert s (insert e B)) t' ([] @ (a, mk_range s e ty) # []) (\<lparr>rl_start = s, rl_end = e, rl_type = lt, rl_ptr = Some a\<rparr> # H)" by simp
  then have "attempted B [] H s e lt (Got t' (Some a))"
    unfolding attempted_def by (auto simp: flagged_def intro: exI[of _ "[(a, mk_range s e ty)]"])
  then show ?thesis using t'(1) by blast
qed

lemma reader_retry_ok:
  assumes inv: "lock_inv B t L H" and ne: "L \<noteq> []" and se: "s < e" "off_ok s" "off_ok e"
    and B: "card (insert s (insert e B)) < 2 ^ 32"
  shows "reader_retry t s e = None \<and> over_readers H s e \<or> (\<exists>r. reader_retry t s e = Some r \<and> attempted B L H s e Reader r)"
proof -
  obtain us ms vs where L: "L = us @ ms @ vs" and p: "parts s e us ms vs" by (rule partsE[OF lock_invD(2)[OF inv] se(1)])
  have h: "holds t (us @ ms @ vs)" and o: "ordered (map snd (us @ ms @ vs))" using lock_invD(1,2)[OF inv] L by auto
  have ne': "us @ ms @ vs \<noteq> []" using ne L by simp
  let ?bl = "filter (\<lambda>x. blocked (snd x)) ms"
  from reader_retry_run[OF h o p se(1) ne'] obtain prev w where w: "searched t (us @ ms @ vs) s prev w"
    "reader_retry t s e = (case hd_opt (map fst ?bl) of Some b \<Rightarrow> wait_read t b
      | None \<Rightarrow> do { (p, t) \<leftarrow> add_reader t (mk_range s e reader) prev w; Some (Got t p) })" by blast
  show ?thesis
  proof (cases ?bl)
    case (Cons x xs)
    then have "x \<in> set ?bl" by simp
    then have x: "x \<in> set L" "blocked (snd x)" "m_start (snd x) < e" "s < m_end (snd x)" using L p by (auto simp: parts_def)
    from wait_read_ok[OF inv x(1,2)] have "\<exists>r. reader_retry t s e = Some r \<and> attempted B L H s e Reader r"
      using w(2) Cons range_conflict[OF inv x(1,3,4)] by (auto simp: attempted_def)
    then show ?thesis ..
  next
    case Nil
    then have sh: "\<forall>x \<in> set ms. sharable (snd x)"
      using nonblocked_sharable[OF inv] L by (auto simp: filter_empty_conv)
    show ?thesis
    proof (cases "ms = []")
      case True
      have h0: "holds t (us @ vs)" "ordered (map snd (us @ vs))" "parts s e us [] vs" "searched t (us @ vs) s prev w" "us @ vs \<noteq> []" "lock_inv B t (us @ vs) H"
        using h o p w(1) ne' inv L True by auto
      from add_reader_free[OF h0(1-3) se(1) h0(4,5)] obtain a t' where
        a: "add_reader t (mk_range s e reader) prev w = Some (Some a, t')" "data_of t a = None"
          "holds t' (us @ (a, mk_range s e reader) # vs)" "data_of t' = (data_of t)(a \<mapsto> mk_range s e reader)" by blast
      from inv_fresh[OF h0(6,3) se a(2-4) _ B, of Reader] have
        "attempted B L H s e Reader (Got t' (Some a))"
        using L True by (auto simp: attempted_def flagged_def intro!: exI[of _ "us @ (a, mk_range s e reader) # vs"])
      then show ?thesis using w(2) Nil a(1) by auto
    next
      case False
      have sm: "small (insert s (insert e B)) (map snd (us @ ms @ vs))"
        using lock_invD(3)[OF inv] B L by (auto simp: small_def)
      show ?thesis
      proof (cases "add_reader t (mk_range s e reader) prev w = None")
        case True
        have "over_readers H s e" using sharable_over_readers[OF _ p False sh] inv L by simp
        then show ?thesis using w(2) Nil True by simp
      next
        case run: False
        from add_reader_busy[OF h o p se(1) w(1) False sm _ _ sh] run obtain t' mid where
          a: "add_reader t (mk_range s e reader) prev w = Some (None, t')" "holds t' (us @ mid @ vs)"
            "map snd mid = cut_front s e (map snd ms)" "evolves t ms t'" by blast
        have b: "busy B t H s e us ms vs t' mid" using inv p se(1) sh a(2-4) L by (simp add: busy_def)
        have fl: "flagged (us @ mid @ vs) cv" if f: "flagged L cv" for cv
        proof -
          obtain r where r: "(fst cv, r) \<in> set L" "wanted (snd cv) r" using f by (auto simp: flagged_def)
          then have "(fst cv, r) \<notin> set ms" using sh by (force simp: sharable_def wanted_def split: lock_type.splits)
          then show ?thesis using r L by (auto simp: flagged_def)
        qed
        have "attempted B L H s e Reader (Got t' None)"
          unfolding attempted_def using inv_busy[OF b se(2,3) B] fl by auto
        then show ?thesis using w(2) Nil a(1) by auto
      qed
    qed
  qed
qed

lemma lock_range_writer_ok:
  assumes inv: "lock_inv B t L H" and se: "s < e" "off_ok s" "off_ok e" and B: "card (insert s (insert e B)) < 2 ^ 32"
  shows "\<exists>r. lock_range_writer t s e = Some r \<and> attempted B L H s e Writer r"
proof (cases "L = []")
  case True
  then have "m_num_nodes t = 0" using inv_num_nodes[OF inv] by simp
  then show ?thesis using add_first_ok[OF _ se B, of t H writer Writer] inv True by (auto simp: lock_range_writer_def Let_def)
next
  case False
  obtain us ms vs where L: "L = us @ ms @ vs" and p: "parts s e us ms vs" by (rule partsE[OF lock_invD(2)[OF inv] se(1)])
  have h: "holds t (us @ ms @ vs)" and o: "ordered (map snd (us @ ms @ vs))" using lock_invD(1,2)[OF inv] L by auto
  have ne: "us @ ms @ vs \<noteq> []" "m_num_nodes t \<noteq> 0" using False L inv_num_nodes[OF inv] by auto
  from lock_range_writer_run[OF h o p se(1) ne] show ?thesis
  proof (elim disjE conjE bexE exE)
    fix x assume x: "x \<in> set ms" "lock_range_writer t s e = wait_write t (fst x)"
    then have xL: "x \<in> set L" "m_start (snd x) < e" "s < m_end (snd x)" using L p by (auto simp: parts_def)
    from wait_write_ok[OF inv xL(1)] show ?thesis using x(2) range_conflict[OF inv xL] by (auto simp: attempted_def)
  next
    fix a t' assume ms: "ms = []" and a: "lock_range_writer t s e = Some (Got t' (Some a))" "data_of t a = None"
      "holds t' (us @ (a, mk_range s e writer) # vs)" "data_of t' = (data_of t)(a \<mapsto> mk_range s e writer)"
    have h0: "lock_inv B t (us @ vs) H" "parts s e us [] vs" using inv L ms p by auto
    from inv_fresh[OF h0 se a(2-4) _ B, of Writer] have "attempted B L H s e Writer (Got t' (Some a))"
      using L ms by (auto simp: attempted_def flagged_def intro!: exI[of _ "us @ (a, mk_range s e writer) # vs"])
    then show ?thesis using a(1) by blast
  qed
qed

lemma lock_range_reader_ok:
  assumes inv: "lock_inv B t L H" and se: "s < e" "off_ok s" "off_ok e" and B: "card (insert s (insert e B)) < 2 ^ 32"
  shows "lock_range_reader t s e = None \<and> over_readers H s e \<or>
    (\<exists>r. lock_range_reader t s e = Some r \<and> attempted B L H s e Reader r)"
proof (cases "L = []")
  case True
  then have "m_num_nodes t = 0" using inv_num_nodes[OF inv] by simp
  then show ?thesis using add_first_ok[OF _ se B, of t H reader Reader] inv True by (auto simp: lock_range_reader_def)
next
  case False
  then show ?thesis using reader_retry_ok[OF inv False se B] inv_num_nodes[OF inv] by (simp add: lock_range_reader_def)
qed


section \<open>Unlocking\<close>

definition woken :: "(addr \<times> range) list \<Rightarrow> (addr \<times> range) list \<Rightarrow> condvar list \<Rightarrow> bool" where
  "woken L L' ns \<longleftrightarrow> (\<forall>cv. flagged L cv \<longrightarrow> flagged L' cv \<or> cv \<in> set ns)"

lemma notified_wanted: "wanted k r \<Longrightarrow> (a, k) \<in> set (notified a r)"
  by (cases k) (auto simp: wanted_def notified_def)

lemma unlock_tight_ok:
  assumes inv: "lock_inv B t L (H1 @ h # H2)" and n: "\<not> loose L h" and two: "\<And>a. rl_ptr h = Some a \<Longrightarrow> \<not> two_children t a"
  shows "\<exists>ns h' t' L'. unlock_range t h = Some (ns, h', t') \<and> lock_inv B t' L' (H1 @ H2) \<and> woken L L' ns \<and>
    destroy_range_lock t' h' = Some t'"
proof -
  have hH: "h \<in> set (H1 @ h # H2)" by simp
  from tightE[OF inv hH n] obtain a r where a: "rl_ptr h = Some a" "(a, r) \<in> set L" "m_refs r = 1" by blast
  then obtain us vs where L: "L = us @ (a, r) # vs" by (meson split_list)
  have h: "holds t (us @ (a, r) # vs)" using lock_invD(1)[OF inv] L by simp
  have ra: "data_of t a = Some r" using avl.reads[OF h, of a r] by simp
  from drop_range_ok[OF h _ two[OF a(1)]] inv_length[OF inv] L obtain t' where t': "drop_range t a = Some (notified a r, t')"
    "holds t' (us @ vs)" "data_of t' = (data_of t)(a := None)" by auto
  have "lock_inv B t' (us @ vs) (H1 @ H2)" by (rule inv_unlock_tight[OF _ a(1) t'(2,3)]) (use inv L in simp)
  moreover have "unlock_range t h = Some (notified a r, h\<lparr>rl_ptr := None\<rparr>, t')"
    using a(1,3) ra t'(1) by (simp add: unlock_range_def unlock_range_writer_def unlock_range_reader_def)
  moreover have "woken L (us @ vs) (notified a r)"
    unfolding woken_def
  proof (intro allI impI)
    fix cv assume "flagged L cv"
    then obtain q where q: "(fst cv, q) \<in> set L" "wanted (snd cv) q" by (auto simp: flagged_def)
    show "flagged (us @ vs) cv \<or> cv \<in> set (notified a r)"
    proof (cases "(fst cv, q) = (a, r)")
      case True
      then show ?thesis using notified_wanted[OF q(2), of a] by (cases cv) auto
    qed (use q L in \<open>auto simp: flagged_def\<close>)
  qed
  moreover have "destroy_range_lock t' (h\<lparr>rl_ptr := None\<rparr>) = Some t'" by (simp add: destroy_range_lock_def)
  ultimately show ?thesis by blast
qed

text \<open>Unlocking a range whose node has two children is undefined.\<close>

lemma unlock_tight_two:
  assumes inv: "lock_inv B t L H" and h: "h \<in> set H" "\<not> loose L h" "rl_ptr h = Some a" "two_children t a"
  shows "unlock_range t h = None"
proof -
  from tightE[OF inv h(1,2)] h(3) obtain r where r: "(a, r) \<in> set L" "m_refs r = 1" by auto
  then have "data_of t a = Some r" using avl.reads[OF lock_invD(1)[OF inv]] by blast
  then show ?thesis using h(3) r(2) drop_range_inner[OF h(4)]
    by (simp add: unlock_range_def unlock_range_writer_def unlock_range_reader_def)
qed

lemma dec_flagged:
  assumes "flagged (us @ ms @ vs) cv"
  shows "flagged (us @ dec ms @ vs) cv \<or> cv \<in> set (notified_all (gone ms))"
proof -
  from assms obtain r where r: "(fst cv, r) \<in> set (us @ ms @ vs)" "wanted (snd cv) r" by (auto simp: flagged_def)
  consider "(fst cv, r) \<in> set us \<union> set vs" | (keep) "(fst cv, r) \<in> set ms" "m_refs r \<noteq> 1" | (gone) "(fst cv, r) \<in> set ms" "m_refs r = 1"
    using r(1) by auto
  then show ?thesis
  proof cases
    case keep
    moreover have "wanted (snd cv) (r\<lparr>m_refs := m_refs r - 1\<rparr>)" using r(2) by (simp add: wanted_def split: lock_type.splits)
    ultimately show ?thesis using dec_keep[OF keep] by (auto simp: flagged_def)
  next
    case gone
    then have "(fst cv, r) \<in> set (Range_Lock_Ops.gone ms)" by (simp add: gone_def)
    moreover have "cv \<in> set (notified (fst cv) r)" using notified_wanted[OF r(2), of "fst cv"] by simp
    ultimately show ?thesis by (force simp: notified_all_def)
  qed (use r in \<open>auto simp: flagged_def\<close>)
qed

lemma unlock_loose_ok:
  assumes inv: "lock_inv B t L (H1 @ h # H2)" and l: "loose L h"
  shows "unlock_range t h = None \<or> (\<exists>ns h' t' L'. unlock_range t h = Some (ns, h', t') \<and> lock_inv B t' L' (H1 @ H2) \<and> woken L L' ns \<and>
    rl_ptr h' \<in> {rl_ptr h, None} \<and> (\<forall>a. rl_ptr h = Some a \<longrightarrow> data_of t' a = None))"
proof -
  have hH: "h \<in> set (H1 @ h # H2)" by simp
  note I = lock_invD[OF inv]
  have ok: "loose_ok t L h" by (rule I(9)[OF hH l])
  have se: "rl_start h < rl_end h" by (rule I(5)[OF hH])
  obtain us ms vs where L: "L = us @ ms @ vs" and p: "parts (rl_start h) (rl_end h) us ms vs" by (rule partsE[OF I(2) se])
  have h: "holds t (us @ ms @ vs)" and o: "ordered (map snd (us @ ms @ vs))" and len: "length (us @ ms @ vs) < 2 ^ 32"
    using I(1,2) inv_length[OF inv] L by auto
  have ms: "inside h (snd x) \<and> m_is_proxy (snd x) \<and> m_type (snd x) = reader \<and> 0 < m_refs (snd x)" if x: "x \<in> set ms" for x
    using loose_meets[OF ok, of "fst x" "snd x"] x L p I(10)[of x] by (auto simp: parts_def meets_def range_ok_def Let_def)
  have ch: "chain (rl_start h) (rl_end h) (map snd ms)"
  proof (rule chain_cover)
    show "ordered (map snd ms)" using o by (simp add: ordered_append)
    show "\<forall>r \<in> set (map snd ms). rl_start h \<le> m_start r \<and> m_end r \<le> rl_end h" using ms by (auto simp: inside_def)
    show "\<forall>q. rl_start h \<le> q \<longrightarrow> q < rl_end h \<longrightarrow> (\<exists>r \<in> set (map snd ms). hits q r)"
    proof (intro allI impI)
      fix q assume q: "rl_start h \<le> q" "q < rl_end h"
      obtain x where x: "x \<in> set L" "hits q (snd x)" using loose_hits[OF ok q] by blast
      then have "x \<in> set ms" using L p q by (fastforce simp: parts_def hits_def)
      then show "\<exists>r \<in> set (map snd ms). hits q r" using x(2) by auto
    qed
  qed (use se in simp)
  then obtain a r ks where m: "ms = (a, r) # ks" "m_start r = rl_start h" using se by (cases ms) auto
  have "off_ok (rl_start h)" "off_ok (rl_end h)" using I(6,7)[OF hH] by auto
  then have big: "rl_end h - rl_start h < 2 ^ 64" by (simp add: off_ok_def)
  have own: "(case rl_ptr h of None \<Rightarrow> Some False | Some a \<Rightarrow> do { r \<leftarrow> data_of t a; Some (m_refs r \<noteq> 0) }) = Some False"
    using ok by (auto simp: loose_ok_def split: option.splits)
  have ra: "data_of t a = Some r" using avl.reads[OF h, of a r] m by simp
  have "holds t (us @ (a, r) # ks @ vs)" "ksorted m_start (us @ (a, r) # ks @ vs)" using h ordered_ksorted[OF o] m by auto
  from avl.floor_found[OF this, of "mk_range (rl_start h) (rl_end h) any"] m(2) obtain w where
    f: "find range_compare t (mk_range (rl_start h) (rl_end h) any) = Some (Some a, w)" by (auto simp: range_compare_cmp)
  have rr: "m_refs r \<noteq> 0 \<and> m_type r = reader \<and> m_is_proxy r" using ms[of "(a, r)"] m by auto
  have ty: "rl_type h \<noteq> Writer" using ok by (simp add: loose_ok_def)
  show ?thesis
  proof (cases "unlock_loop t (word_of_int (rl_start h - rl_end h)) (hd_opt (map fst ms)) (rl_ptr h) [] = None")
    case True
    then have "unlock_range t h = None"
      unfolding unlock_range_def unlock_range_reader_def own using ty f ra rr m(1) by simp
    then show ?thesis ..
  next
    case run: False
    from unlock_loop_ok[OF h len ch big, of "rl_ptr h" "[]"] ms run obtain t1 where
      t1: "unlock_loop t (word_of_int (rl_start h - rl_end h)) (hd_opt (map fst ms)) (rl_ptr h) [] =
        Some (notified_all (gone ms), if gone ms = [] then rl_ptr h else None, t1)" "holds t1 (us @ dec ms @ vs)"
      "data_of t1 = (\<lambda>x. if x \<in> fst ` set (gone ms) then None
         else if x \<in> fst ` set ms then map_option (\<lambda>r. r\<lparr>m_refs := m_refs r - 1\<rparr>) (data_of t x) else data_of t x)" by auto
    have gs: "fst ` set (gone ms) \<subseteq> fst ` set ms" by (auto simp: gone_def)
    have same: "data_of t1 b = data_of t b" if "b \<notin> fst ` set L" for b using that t1(3) L gs by auto
    obtain t' where t': "(case rl_ptr h of None \<Rightarrow> Some t1 | Some a \<Rightarrow> free_node t1 a) = Some t'" "holds t' (us @ dec ms @ vs)"
      "data_of t' = (case rl_ptr h of None \<Rightarrow> data_of t1 | Some a \<Rightarrow> (data_of t1)(a := None))"
    proof (cases "rl_ptr h")
      case (Some b)
      then have b: "b \<notin> fst ` set L" using l by (auto simp: loose_def)
      then have "data_of t1 b \<noteq> None" using same ok Some by (auto simp: loose_ok_def)
      moreover have "b \<notin> fst ` set (us @ dec ms @ vs)" using b L fst_dec[of ms] by auto
      ultimately show thesis using avl.frees[OF t1(2)] Some that by force
    qed (use t1(2) that in auto)
    let ?h = "h\<lparr>rl_ptr := if gone ms = [] then rl_ptr h else None\<rparr>"
    have result: "unlock_range t h = Some (notified_all (gone ms), ?h, t')"
      unfolding unlock_range_def unlock_range_reader_def own using ty f ra rr t1(1) t'(1) m(1) by simp
    have "lock_inv B t' (us @ dec ms @ vs) (H1 @ H2)"
    proof (rule inv_unlock_loose[OF _ _ p t'(2)])
      show "data_of t' b = data_of t b" if g: "g \<in> set (H1 @ H2)" "rl_ptr g = Some b" "b \<notin> fst ` set (us @ ms @ vs)" for g b
      proof -
        have "rl_ptr h \<noteq> Some b" using ptrs_unique[OF I(4) _ g(1)] g(2) by blast
        then show ?thesis using t'(3) same[of b] g(3) L by (auto split: option.splits)
      qed
    qed (use inv l L in simp_all)
    moreover have "woken L (us @ dec ms @ vs) (notified_all (gone ms))" using dec_flagged L by (auto simp: woken_def)
    moreover have "\<forall>a. rl_ptr h = Some a \<longrightarrow> data_of t' a = None" using t'(3) by auto
    ultimately show ?thesis using result by (intro disjI2 exI[of _ "notified_all (gone ms)"] exI[of _ ?h] exI[of _ t'] exI[of _ "us @ dec ms @ vs"]) auto
  qed
qed

lemma unlock_range_ok:
  assumes "lock_inv B t L (H1 @ h # H2)"
  shows "unlock_range t h = None \<or>
    (\<exists>ns h' t' L'. unlock_range t h = Some (ns, h', t') \<and> lock_inv B t' L' (H1 @ H2) \<and> woken L L' ns)"
proof (cases "loose L h")
  case True
  then show ?thesis using unlock_loose_ok[OF assms] by blast
next
  case False
  then show ?thesis using unlock_tight_two[OF assms _ False] unlock_tight_ok[OF assms False] by (metis in_set_conv_decomp)
qed


section \<open>The state machine\<close>

type_synonym request = "off_t \<times> off_t \<times> lock_type"

record lock_state =
  ls_tree :: range_tree
  ls_held :: "range_lock list"
  ls_blocked :: "(request \<times> condvar) list"
  ls_ready :: "request list"
  ls_calls :: nat

definition lock_init :: lock_state where
  "lock_init = \<lparr>ls_tree = lock_manager, ls_held = [], ls_blocked = [], ls_ready = [], ls_calls = 0\<rparr>"

inductive lock_step :: "lock_state \<Rightarrow> lock_state \<Rightarrow> bool" where
  call_got: "s < e \<Longrightarrow> off_ok s \<Longrightarrow> off_ok e \<Longrightarrow> lock_range (ls_tree st) s e ty = Some (t', Inr h) \<Longrightarrow>
    lock_step st (st\<lparr>ls_tree := t', ls_held := h # ls_held st, ls_calls := Suc (ls_calls st)\<rparr>)"
| call_wait: "s < e \<Longrightarrow> off_ok s \<Longrightarrow> off_ok e \<Longrightarrow> lock_range (ls_tree st) s e ty = Some (t', Inl cv) \<Longrightarrow>
    lock_step st (st\<lparr>ls_tree := t', ls_blocked := ((s, e, ty), cv) # ls_blocked st, ls_calls := Suc (ls_calls st)\<rparr>)"
| wake: "ls_blocked st = bs @ (rq, cv) # bs' \<Longrightarrow>
    lock_step st (st\<lparr>ls_blocked := bs @ bs', ls_ready := rq # ls_ready st\<rparr>)"
| again_got: "ls_ready st = rs @ (s, e, ty) # rs' \<Longrightarrow> lock_range_again (ls_tree st) s e ty = Some (t', Inr h) \<Longrightarrow>
    lock_step st (st\<lparr>ls_tree := t', ls_held := h # ls_held st, ls_ready := rs @ rs', ls_calls := Suc (ls_calls st)\<rparr>)"
| again_wait: "ls_ready st = rs @ (s, e, ty) # rs' \<Longrightarrow> lock_range_again (ls_tree st) s e ty = Some (t', Inl cv) \<Longrightarrow>
    lock_step st (st\<lparr>ls_tree := t', ls_blocked := ((s, e, ty), cv) # ls_blocked st, ls_ready := rs @ rs',
      ls_calls := Suc (ls_calls st)\<rparr>)"
| release: "ls_held st = H1 @ h # H2 \<Longrightarrow> unlock_range (ls_tree st) h = Some (ns, h', t') \<Longrightarrow>
    lock_step st (st\<lparr>ls_tree := t', ls_held := H1 @ H2,
      ls_blocked := filter (\<lambda>b. snd b \<notin> set ns) (ls_blocked st),
      ls_ready := map fst (filter (\<lambda>b. snd b \<in> set ns) (ls_blocked st)) @ ls_ready st\<rparr>)"

inductive_cases lock_stepE: "lock_step st st'"

definition valid_request :: "request \<Rightarrow> bool" where
  "valid_request rq \<longleftrightarrow> (case rq of (s, e, ty) \<Rightarrow> s < e \<and> off_ok s \<and> off_ok e)"

definition state_inv :: "off_t set \<Rightarrow> (addr \<times> range) list \<Rightarrow> lock_state \<Rightarrow> bool" where
  "state_inv B L st \<longleftrightarrow> lock_inv B (ls_tree st) L (ls_held st) \<and> card B \<le> 2 * ls_calls st \<and>
     (\<forall>b \<in> set (ls_blocked st). valid_request (fst b) \<and> flagged L (snd b)) \<and>
     (\<forall>rq \<in> set (ls_ready st). valid_request rq)"

lemma card_insert2: "card (insert a (insert b B)) \<le> card B + 2"
  by (metis add_2_eq_Suc' card_insert_le_m1 card.infinite finite_insert card_insert_if le_SucI le_refl Suc_le_mono)

definition answer :: "off_t \<Rightarrow> off_t \<Rightarrow> lock_type \<Rightarrow> attempt \<Rightarrow> range_tree \<times> (condvar + range_lock)" where
  "answer s e ty r = (case r of Got t p \<Rightarrow> (t, Inr \<lparr>rl_start = s, rl_end = e, rl_type = ty, rl_ptr = p\<rparr>) | Wait t cv \<Rightarrow> (t, Inl cv))"

lemma lock_range_answer:
  "lock_range t s e ty = map_option (answer s e ty) (if ty = Reader then lock_range_reader t s e else lock_range_writer t s e)"
  "lock_range_again t s e ty = map_option (answer s e ty) (if ty = Reader then reader_retry t s e else lock_range_writer t s e)"
proof -
  have aux: "(do { r \<leftarrow> m; case r of Got t p \<Rightarrow> Some (t, Inr \<lparr>rl_start = s, rl_end = e, rl_type = ty, rl_ptr = p\<rparr>)
     | Wait t cv \<Rightarrow> Some (t, Inl cv) }) = map_option (answer s e ty) m" for m
    by (cases m) (auto simp: answer_def split: attempt.splits)
  show "lock_range t s e ty = map_option (answer s e ty) (if ty = Reader then lock_range_reader t s e else lock_range_writer t s e)"
    unfolding lock_range_def by (rule aux)
  show "lock_range_again t s e ty = map_option (answer s e ty) (if ty = Reader then reader_retry t s e else lock_range_writer t s e)"
    unfolding lock_range_again_def by (rule aux)
qed

lemma lock_range_attempted:
  assumes inv: "lock_inv B t L H" and se: "s < e" "off_ok s" "off_ok e" and B: "card (insert s (insert e B)) < 2 ^ 32"
  shows "lock_range t s e ty = None \<and> ty = Reader \<and> over_readers H s e \<or>
    (\<exists>r. lock_range t s e ty = Some (answer s e ty r) \<and> attempted B L H s e ty r)"
  using lock_range_reader_ok[OF inv se B] lock_range_writer_ok[OF inv se B]
  by (cases ty) (auto simp: lock_range_answer)

lemma lock_range_again_attempted:
  assumes inv: "lock_inv B t L H" and se: "s < e" "off_ok s" "off_ok e" and B: "card (insert s (insert e B)) < 2 ^ 32"
    and ne: "ty = Reader \<Longrightarrow> L \<noteq> []"
  shows "lock_range_again t s e ty = None \<and> ty = Reader \<and> over_readers H s e \<or>
    (\<exists>r. lock_range_again t s e ty = Some (answer s e ty r) \<and> attempted B L H s e ty r)"
  using reader_retry_ok[OF inv _ se B] ne lock_range_writer_ok[OF inv se B]
  by (cases ty) (auto simp: lock_range_answer)

text \<open>After its wait, a reader on an empty tree asks \<open>nearest\<close> for the element after a null node.\<close>

lemma reader_retry_empty: "m_root t = None \<Longrightarrow> reader_retry t s e = None"
  by (simp add: reader_retry_def find_def find_node_def find_loop.simps[of _ t _ None] nearest_def null_point_def walk_def Let_def)

lemma lock_inv_root: "lock_inv B t [] H \<Longrightarrow> m_root t = None"
  by (auto simp: lock_inv_def holds_def rep_def shape_def)

lemma attempted_got:
  assumes "answer s e ty r = (t', Inr h)" "attempted B L H s e ty r"
  shows "\<exists>L'. lock_inv (insert s (insert e B)) t' L' (h # H) \<and> (\<forall>cv. flagged L cv \<longrightarrow> flagged L' cv)"
  using assms by (auto simp: answer_def attempted_def split: attempt.splits)

lemma attempted_wait:
  assumes "answer s e ty r = (t', Inl cv)" "attempted B L H s e ty r"
  shows "\<exists>L'. lock_inv B t' L' H \<and> flagged L' cv \<and> (\<forall>cv. flagged L cv \<longrightarrow> flagged L' cv)" "conflict H s e"
  using assms by (auto simp: answer_def attempted_def split: attempt.splits)

lemma again_nonempty:
  assumes "lock_inv B t L H" "lock_range_again t s e ty = Some x" "ty = Reader"
  shows "L \<noteq> []"
  using assms reader_retry_empty[of t s e] lock_inv_root[of B t H] by (auto simp: lock_range_answer)

lemma step_calls: "lock_step st st' \<Longrightarrow> ls_calls st \<le> ls_calls st'"
  by (induction rule: lock_step.induct) auto

lemma got_state:
  assumes "state_inv B L st" "lock_inv (insert s (insert e B)) t' L' (h # ls_held st)" "\<forall>cv. flagged L cv \<longrightarrow> flagged L' cv"
    "set rs \<subseteq> set (ls_ready st)"
  shows "state_inv (insert s (insert e B)) L' (st\<lparr>ls_tree := t', ls_held := h # ls_held st, ls_ready := rs, ls_calls := Suc (ls_calls st)\<rparr>)"
  using assms card_insert2[of s e B] by (auto simp: state_inv_def)

lemma wait_state:
  assumes "state_inv B L st" "lock_inv B t' L' (ls_held st)" "flagged L' cv" "\<forall>cv. flagged L cv \<longrightarrow> flagged L' cv"
    "valid_request rq" "set rs \<subseteq> set (ls_ready st)"
  shows "state_inv B L' (st\<lparr>ls_tree := t', ls_blocked := (rq, cv) # ls_blocked st, ls_ready := rs, ls_calls := Suc (ls_calls st)\<rparr>)"
  using assms by (auto simp: state_inv_def)

lemma step_inv:
  assumes "lock_step st st'" "state_inv B L st" "ls_calls st' < 2 ^ 31"
  shows "\<exists>B' L'. state_inv B' L' st'"
  using assms(1)
proof (cases rule: lock_step.cases)
  case (call_got s e ty t' h)
  have inv: "lock_inv B (ls_tree st) L (ls_held st)" using assms(2) by (simp add: state_inv_def)
  have "card (insert s (insert e B)) < 2 ^ 32" using assms(2,3) call_got card_insert2[of s e B] by (simp add: state_inv_def)
  from lock_range_attempted[OF inv call_got(2-4) this, of ty] call_got(5) obtain r where "lock_range (ls_tree st) s e ty = Some (answer s e ty r)"
    "attempted B L (ls_held st) s e ty r" by auto
  then show ?thesis using attempted_got[of s e ty r t' h] call_got(5) got_state[OF assms(2), of s e t' _ h "ls_ready st"] call_got(1)
    by fastforce
next
  case (call_wait s e ty t' cv)
  have inv: "lock_inv B (ls_tree st) L (ls_held st)" using assms(2) by (simp add: state_inv_def)
  have "card (insert s (insert e B)) < 2 ^ 32" using assms(2,3) call_wait card_insert2[of s e B] by (simp add: state_inv_def)
  from lock_range_attempted[OF inv call_wait(2-4) this, of ty] call_wait(5) obtain r where r: "lock_range (ls_tree st) s e ty = Some (answer s e ty r)"
    "attempted B L (ls_held st) s e ty r" by auto
  have v: "valid_request (s, e, ty)" using call_wait by (simp add: valid_request_def)
  from r call_wait(5) attempted_wait(1)[of s e ty r t' cv] obtain L' where
    "lock_inv B t' L' (ls_held st)" "flagged L' cv" "\<forall>cv. flagged L cv \<longrightarrow> flagged L' cv" by fastforce
  from wait_state[OF assms(2) this v, of "ls_ready st"] show ?thesis using call_wait(1) by auto
next
  case (wake bs rq cv bs')
  then show ?thesis using assms(2) by (intro exI[of _ B] exI[of _ L]) (auto simp: state_inv_def)
next
  case (again_got rs s e ty rs' t' h)
  have inv: "lock_inv B (ls_tree st) L (ls_held st)" using assms(2) by (simp add: state_inv_def)
  have v: "s < e" "off_ok s" "off_ok e" using assms(2) again_got(2) by (auto simp: state_inv_def valid_request_def)
  have "card (insert s (insert e B)) < 2 ^ 32" using assms(2,3) again_got card_insert2[of s e B] by (simp add: state_inv_def)
  from lock_range_again_attempted[where ty = ty, OF inv v this again_nonempty[OF inv again_got(3)]] again_got(3) obtain r where
    "lock_range_again (ls_tree st) s e ty = Some (answer s e ty r)" "attempted B L (ls_held st) s e ty r" by auto
  then show ?thesis using attempted_got[of s e ty r t' h] again_got(3) got_state[OF assms(2), of s e t' _ h "rs @ rs'"] again_got(1,2)
    by fastforce
next
  case (again_wait rs s e ty rs' t' cv)
  have inv: "lock_inv B (ls_tree st) L (ls_held st)" using assms(2) by (simp add: state_inv_def)
  have v: "s < e" "off_ok s" "off_ok e" using assms(2) again_wait(2) by (auto simp: state_inv_def valid_request_def)
  have "card (insert s (insert e B)) < 2 ^ 32" using assms(2,3) again_wait card_insert2[of s e B] by (simp add: state_inv_def)
  from lock_range_again_attempted[where ty = ty, OF inv v this again_nonempty[OF inv again_wait(3)]] again_wait(3) obtain r where
    r: "lock_range_again (ls_tree st) s e ty = Some (answer s e ty r)" "attempted B L (ls_held st) s e ty r" by auto
  have vr: "valid_request (s, e, ty)" using v by (simp add: valid_request_def)
  from r again_wait(3) attempted_wait(1)[of s e ty r t' cv] obtain L' where
    "lock_inv B t' L' (ls_held st)" "flagged L' cv" "\<forall>cv. flagged L cv \<longrightarrow> flagged L' cv" by fastforce
  from wait_state[OF assms(2) this vr, of "rs @ rs'"] show ?thesis using again_wait(1,2) by auto
next
  case (release H1 h H2 ns h' t')
  have "lock_inv B (ls_tree st) L (H1 @ h # H2)" using assms(2) release(2) by (simp add: state_inv_def)
  from unlock_range_ok[OF this] release(3) obtain L' where "lock_inv B t' L' (H1 @ H2)" "woken L L' ns" by auto
  moreover have "flagged L' (snd b)" if "b \<in> set (ls_blocked st)" "snd b \<notin> set ns" for b
    using that calculation(2) assms(2) unfolding woken_def state_inv_def by blast
  ultimately have "state_inv B L' st'" using assms(2) release(1) by (simp add: state_inv_def ball_Un)
  then show ?thesis by blast
qed

lemma reach_inv:
  assumes "lock_step\<^sup>*\<^sup>* lock_init st" "ls_calls st < 2 ^ 31"
  shows "\<exists>B L. state_inv B L st"
  using assms
proof (induction rule: rtranclp_induct)
  case base
  have "state_inv {} [] lock_init" using empty_inv by (simp add: state_inv_def lock_init_def)
  then show ?case by blast
next
  case (step st st')
  then have "ls_calls st < 2 ^ 31" using step_calls by (meson le_less_trans)
  then show ?case using step step_inv by blast
qed

end
