(* ===== verification/Range_Lock_Props.thy ===== *)
theory Range_Lock_Props
  imports Range_Lock_Steps
begin

text \<open>
  The properties of the range lock manager over every interleaving of lock, wake-up and
  unlock steps: exclusion, immediate grants of free ranges, when a call returns, blocks or is
  undefined, no lost wake-ups, and the faults of the code: the removal of a range whose node has
  two children, the second attempt after a wait, and the destructor of a handle.
\<close>

section \<open>What the invariant gives\<close>

lemma reach_state:
  assumes "lock_step\<^sup>*\<^sup>* lock_init st" "ls_calls st < 2 ^ 31 - 1" "s < e" "off_ok s" "off_ok e"
  shows "\<exists>B L. state_inv B L st \<and> (lock_range (ls_tree st) s e ty = None \<and> ty = Reader \<and> over_readers (ls_held st) s e \<or>
    (\<exists>r. lock_range (ls_tree st) s e ty = Some (answer s e ty r) \<and> attempted B L (ls_held st) s e ty r))"
proof -
  from reach_inv[OF assms(1)] assms(2) obtain B L where i: "state_inv B L st" by auto
  then have inv: "lock_inv B (ls_tree st) L (ls_held st)" and c: "card B \<le> 2 * ls_calls st" by (auto simp: state_inv_def)
  have "card (insert s (insert e B)) < 2 ^ 32" using c assms(2) card_insert2[of s e B] by simp
  from lock_range_attempted[OF inv assms(3-5) this, of ty] show ?thesis using i by blast
qed

lemma attempted_free:
  assumes "attempted B L H s e ty r" "\<not> conflict H s e"
  shows "\<exists>t' p. answer s e ty r = (t', Inr \<lparr>rl_start = s, rl_end = e, rl_type = ty, rl_ptr = p\<rparr>)"
  using assms by (cases r) (auto simp: attempted_def answer_def)

lemma no_holders_empty:
  assumes "lock_inv B t L []"
  shows "L = []"
proof (rule ccontr)
  assume "L \<noteq> []"
  then have "range_ok L [] (hd L)" using lock_invD(10)[OF assms] by simp
  then show False by (auto simp: range_ok_def Let_def readers_def split: if_splits)
qed

lemma held_step:
  assumes "lock_step\<^sup>*\<^sup>* lock_init st" "ls_calls st < 2 ^ 31 - 1" "s < e" "off_ok s" "off_ok e" "\<not> conflict (ls_held st) s e"
  shows "\<exists>st' p. lock_step\<^sup>*\<^sup>* lock_init st' \<and> ls_calls st' = Suc (ls_calls st) \<and> ls_blocked st' = ls_blocked st \<and>
    ls_held st' = \<lparr>rl_start = s, rl_end = e, rl_type = ty, rl_ptr = p\<rparr> # ls_held st \<and> ls_ready st' = ls_ready st"
proof -
  from reach_state[OF assms(1-5), of ty] attempted_free[OF _ assms(6)] assms(6) obtain t' p where
    l: "lock_range (ls_tree st) s e ty = Some (t', Inr \<lparr>rl_start = s, rl_end = e, rl_type = ty, rl_ptr = p\<rparr>)"
    by (fastforce simp: over_readers_def)
  let ?st = "st\<lparr>ls_tree := t', ls_held := \<lparr>rl_start = s, rl_end = e, rl_type = ty, rl_ptr = p\<rparr> # ls_held st, ls_calls := Suc (ls_calls st)\<rparr>"
  have "lock_step\<^sup>*\<^sup>* lock_init ?st" using call_got[OF assms(3-5) l] assms(1) by (rule rtranclp.rtrancl_into_rtrancl[rotated])
  then show ?thesis by (intro exI[of _ ?st] exI[of _ p]) auto
qed

text \<open>A state with a reader of \<open>[0, 10)\<close> and a writer of \<open>[10, 20)\<close>, for the instances below.\<close>

lemma reach_two:
  "\<exists>st p q. lock_step\<^sup>*\<^sup>* lock_init st \<and> ls_calls st = 2 \<and> ls_blocked st = [] \<and>
    ls_held st = [\<lparr>rl_start = 10, rl_end = 20, rl_type = Writer, rl_ptr = p\<rparr>, \<lparr>rl_start = 0, rl_end = 10, rl_type = Reader, rl_ptr = q\<rparr>]"
proof -
  have i: "lock_step\<^sup>*\<^sup>* lock_init lock_init" by simp
  have "ls_calls lock_init < 2 ^ 31 - 1" "\<not> conflict (ls_held lock_init) 0 10" by (simp_all add: lock_init_def conflict_def)
  from held_step[OF i this(1) _ _ _ this(2), of Reader] obtain st q where
    st: "lock_step\<^sup>*\<^sup>* lock_init st" "ls_calls st = 1" "ls_blocked st = []"
      "ls_held st = [\<lparr>rl_start = 0, rl_end = 10, rl_type = Reader, rl_ptr = q\<rparr>]" by (auto simp: off_ok_def lock_init_def)
  have "ls_calls st < 2 ^ 31 - 1" "\<not> conflict (ls_held st) 10 20" using st by (simp_all add: conflict_def)
  from held_step[OF st(1) this(1) _ _ _ this(2), of Writer] show ?thesis using st by (auto simp: off_ok_def)
qed

text \<open>A request that overlaps a held writer lock blocks.\<close>

lemma blocked_step:
  assumes r: "lock_step\<^sup>*\<^sup>* lock_init st" "ls_calls st < 2 ^ 31 - 1" "s < e" "off_ok s" "off_ok e"
    and h: "ls_held st = [h]" "rl_type h = Writer" "rl_start h < e" "s < rl_end h"
  shows "\<exists>st' cv. lock_step\<^sup>*\<^sup>* lock_init st' \<and> ls_calls st' = Suc (ls_calls st) \<and> ls_held st' = [h] \<and>
    ls_blocked st' = ((s, e, ty), cv) # ls_blocked st \<and> ls_ready st' = ls_ready st"
proof -
  have "\<not> over_readers (ls_held st) s e" using h by (auto simp: over_readers_def)
  with reach_state[OF r, of ty] obtain B L x where x: "lock_range (ls_tree st) s e ty = Some (answer s e ty x)"
    "attempted B L (ls_held st) s e ty x" by blast
  show ?thesis
  proof (cases x)
    case (Got t' p)
    then obtain B' L' where "lock_inv B' t' L' ([\<lparr>rl_start = s, rl_end = e, rl_type = ty, rl_ptr = p\<rparr>] @ h # [])"
      using x(2) h(1) by (auto simp: attempted_def)
    from writer_alone[OF this h(2)] h(3,4) show ?thesis by auto
  next
    case (Wait t' cv)
    then have l: "lock_range (ls_tree st) s e ty = Some (t', Inl cv)" using x(1) by (simp add: answer_def)
    let ?st = "st\<lparr>ls_tree := t', ls_blocked := ((s, e, ty), cv) # ls_blocked st, ls_calls := Suc (ls_calls st)\<rparr>"
    have "lock_step\<^sup>*\<^sup>* lock_init ?st" using call_wait[OF r(3-5) l] r(1) by (rule rtranclp.rtrancl_into_rtrancl[rotated])
    then show ?thesis using h(1) by (intro exI[of _ ?st] exI[of _ cv]) auto
  qed
qed

text \<open>A writer holds \<open>[0, 10)\<close> and a reader waits for it.\<close>

lemma reach_blocked:
  "\<exists>st p cv. lock_step\<^sup>*\<^sup>* lock_init st \<and> ls_calls st = 2 \<and> ls_ready st = [] \<and>
    ls_blocked st = [((0, 10, Reader), cv)] \<and> ls_held st = [\<lparr>rl_start = 0, rl_end = 10, rl_type = Writer, rl_ptr = p\<rparr>]"
proof -
  have i: "lock_step\<^sup>*\<^sup>* lock_init lock_init" by simp
  have "ls_calls lock_init < 2 ^ 31 - 1" "\<not> conflict (ls_held lock_init) 0 10" by (simp_all add: lock_init_def conflict_def)
  from held_step[OF i this(1) _ _ _ this(2), of Writer] obtain st q where
    st: "lock_step\<^sup>*\<^sup>* lock_init st" "ls_calls st = 1" "ls_blocked st = []" "ls_ready st = []"
      "ls_held st = [\<lparr>rl_start = 0, rl_end = 10, rl_type = Writer, rl_ptr = q\<rparr>]" by (auto simp: off_ok_def lock_init_def)
  from blocked_step[OF st(1) _ _ _ _ st(5), of 0 10 Reader] show ?thesis using st by (auto simp: off_ok_def)
qed

text \<open>With one holder, a writer, the tree has one node: unlocking it is defined.\<close>

lemma sole_writer:
  assumes inv: "lock_inv B t L [h]" and w: "rl_type h = Writer"
  shows "\<not> loose L h" "rl_ptr h = Some a \<Longrightarrow> \<not> two_children t a"
proof -
  have hH: "h \<in> set [h]" by simp
  show l: "\<not> loose L h" using lock_invD(9)[OF inv hH] w by (auto simp: loose_ok_def)
  assume a: "rl_ptr h = Some a"
  have "fst x = a" if x: "x \<in> set L" for x
    using lock_invD(10)[OF inv x] a l by (auto simp: range_ok_def Let_def readers_def split: if_splits)
  then have "set (map fst L) \<subseteq> {a}" by auto
  then have "card (set (map fst L)) \<le> 1" using card_mono[of "{a}" "set (map fst L)"] by simp
  then have "length L \<le> 1" using distinct_card[OF avl.addrs[OF lock_invD(1)[OF inv]]] by simp
  moreover from tightE[OF inv hH l] a obtain r where "(a, r) \<in> set L" by auto
  ultimately have "L = [] @ (a, r) # []" by (cases L) auto
  then show "\<not> two_children t a" using avl.inner_between[of t "[]" a r "[]"] lock_invD(1)[OF inv] by auto
qed

text \<open>The writer unlocks and the reader is woken; the tree is empty.\<close>

lemma reach_woken:
  "\<exists>st. lock_step\<^sup>*\<^sup>* lock_init st \<and> ls_calls st = 2 \<and> ls_held st = [] \<and> ls_ready st = [(0, 10, Reader)]"
proof -
  from reach_blocked obtain st h cv where st: "lock_step\<^sup>*\<^sup>* lock_init st" "ls_calls st = 2" "ls_ready st = []"
    "ls_blocked st = [((0, 10, Reader), cv)]" "ls_held st = [] @ h # []" "rl_type h = Writer" by auto
  from reach_inv[OF st(1)] st(2) obtain B L where i: "state_inv B L st" by auto
  then have inv: "lock_inv B (ls_tree st) L ([] @ h # [])" and f: "flagged L cv" using st(4,5) by (auto simp: state_inv_def)
  from unlock_tight_ok[OF inv sole_writer(1)[OF inv[unfolded append_Nil] st(6)] sole_writer(2)[OF inv[unfolded append_Nil] st(6)]] f obtain ns h' t' L' where u: "unlock_range (ls_tree st) h = Some (ns, h', t')"
    "lock_inv B t' L' []" "flagged L' cv \<or> cv \<in> set ns" unfolding woken_def append_Nil by blast
  then have "cv \<in> set ns" using no_holders_empty[OF u(2)] by (simp add: flagged_def)
  let ?st = "st\<lparr>ls_tree := t', ls_held := [] @ [], ls_blocked := filter (\<lambda>b. snd b \<notin> set ns) (ls_blocked st),
      ls_ready := map fst (filter (\<lambda>b. snd b \<in> set ns) (ls_blocked st)) @ ls_ready st\<rparr>"
  have "lock_step\<^sup>*\<^sup>* lock_init ?st" using release[OF st(5) u(1)] st(1) by (rule rtranclp.rtrancl_into_rtrancl[rotated])
  then show ?thesis using st \<open>cv \<in> set ns\<close> by (intro exI[of _ ?st]) auto
qed

section \<open>The calls in a reachable state\<close>



text \<open>
  Three writers lock adjacent ranges; the one in the middle, whose node has the other two as
  its children, unlocks.
\<close>

definition unlock_middle :: "(condvar list \<times> range_lock \<times> range_tree) option option" where
  "unlock_middle = do {
     (t, r1) \<leftarrow> lock_range lock_manager 0 10 Writer;
     (t, r2) \<leftarrow> lock_range t 10 20 Writer;
     (t, r3) \<leftarrow> lock_range t 20 30 Writer;
     case r2 of Inl _ \<Rightarrow> None | Inr h2 \<Rightarrow> Some (unlock_range t h2) }"

text \<open>Two readers lock the same range; the first to lock it unlocks and its handle is destroyed.\<close>

definition destroy_after_unlock :: "range_tree option option" where
  "destroy_after_unlock = do {
     (t, r1) \<leftarrow> lock_range lock_manager 0 10 Reader;
     (t, r2) \<leftarrow> lock_range t 0 10 Reader;
     case r1 of Inl _ \<Rightarrow> None | Inr h1 \<Rightarrow> do {
       (ns, h1, t) \<leftarrow> unlock_range t h1;
       Some (destroy_range_lock t h1) } }"

section \<open>Properties\<close>

text \<open>
  C1: In every state reachable by any interleaving of fewer than \<open>2^31\<close> calls, a held writer
  lock overlaps no other held lock.
\<close>

theorem lock_exclusion:
  assumes "lock_step\<^sup>*\<^sup>* lock_init st" "ls_calls st < 2 ^ 31" "ls_held st = H1 @ h # H2" "rl_type h = Writer" "g \<in> set (H1 @ H2)"
  shows "rl_end h \<le> rl_start g \<or> rl_end g \<le> rl_start h"
proof -
  from reach_inv[OF assms(1,2)] obtain B L where "lock_inv B (ls_tree st) L (H1 @ h # H2)"
    using assms(3) by (auto simp: state_inv_def)
  from writer_alone[OF this assms(4,5)] show ?thesis .
qed

theorem lock_exclusion_witness:
  "\<exists>st h g. lock_step\<^sup>*\<^sup>* lock_init st \<and> ls_held st = [h, g] \<and> rl_type h = Writer \<and>
    (rl_end h \<le> rl_start g \<or> rl_end g \<le> rl_start h)"
proof -
  from reach_two obtain st h g where st: "lock_step\<^sup>*\<^sup>* lock_init st" "ls_calls st < 2 ^ 31" "ls_held st = [] @ h # [g]" "rl_type h = Writer"
    by auto
  from lock_exclusion[OF st, of g] show ?thesis using st by auto
qed

text \<open>
  C2: A request for a range that overlaps no held lock is granted at once, in every reachable
  state: \<open>lock_range\<close> does not fail, does not block and returns a handle for exactly the
  range and mode asked for.
\<close>

theorem free_range_granted:
  assumes "lock_step\<^sup>*\<^sup>* lock_init st" "ls_calls st < 2 ^ 31 - 1" "s < e" "off_ok s" "off_ok e"
    "\<forall>h \<in> set (ls_held st). rl_end h \<le> s \<or> e \<le> rl_start h"
  shows "\<exists>t' p. lock_range (ls_tree st) s e ty = Some (t', Inr \<lparr>rl_start = s, rl_end = e, rl_type = ty, rl_ptr = p\<rparr>)"
  using reach_state[OF assms(1-5), of ty]
proof (elim exE conjE disjE)
  have c: "\<not> conflict (ls_held st) s e" using assms(6) by (auto simp: conflict_def)
  show ?thesis if "over_readers (ls_held st) s e" using that c by (simp add: over_readers_def)
  show ?thesis if "lock_range (ls_tree st) s e ty = Some (answer s e ty r)" "attempted B L (ls_held st) s e ty r" for B L r
    using attempted_free[OF that(2) c] that(1) by auto
qed

theorem free_range_granted_witness:
  "\<exists>st t' p. lock_step\<^sup>*\<^sup>* lock_init st \<and> ls_calls st = 2 \<and>
    lock_range (ls_tree st) 20 30 Writer = Some (t', Inr \<lparr>rl_start = 20, rl_end = 30, rl_type = Writer, rl_ptr = p\<rparr>)"
proof -
  from reach_two obtain st where st: "lock_step\<^sup>*\<^sup>* lock_init st" "ls_calls st = 2" "\<forall>h \<in> set (ls_held st). rl_end h \<le> 20 \<or> 30 \<le> rl_start h"
    by force
  from free_range_granted[OF st(1) _ _ _ _ st(3), of Writer] show ?thesis using st by (auto simp: off_ok_def)
qed



text \<open>
  C4: No wake-up is lost: in every reachable state with a thread blocked on a condition
  variable, the range of that variable is still in the tree, marked as wanted by a thread
  of that mode, and some lock is still held; so once all locks are released nobody is
  left blocked.
\<close>

theorem no_lost_wakeup:
  assumes "lock_step\<^sup>*\<^sup>* lock_init st" "ls_calls st < 2 ^ 31" "(rq, (a, ty)) \<in> set (ls_blocked st)"
  shows "(\<exists>r. data_of (ls_tree st) a = Some r \<and> (if ty = Reader then m_read_wanted r else m_write_wanted r)) \<and> ls_held st \<noteq> []"
proof -
  from reach_inv[OF assms(1,2)] obtain B L where i: "state_inv B L st" by blast
  then have inv: "lock_inv B (ls_tree st) L (ls_held st)" and f: "flagged L (a, ty)" using assms(3) by (auto simp: state_inv_def)
  from f obtain r where r: "(a, r) \<in> set L" "wanted ty r" by (auto simp: flagged_def)
  then have "data_of (ls_tree st) a = Some r" using avl.reads[OF lock_invD(1)[OF inv]] by blast
  moreover have "ls_held st \<noteq> []" using no_holders_empty[of B "ls_tree st" L] inv r(1) by auto
  ultimately show ?thesis using r(2) by (cases ty) (auto simp: wanted_def)
qed

theorem no_lost_wakeup_witness:
  "\<exists>st a. lock_step\<^sup>*\<^sup>* lock_init st \<and> (\<exists>ty. ((0, 10, Reader), (a, ty)) \<in> set (ls_blocked st) \<and>
    (\<exists>r. data_of (ls_tree st) a = Some r \<and> (if ty = Reader then m_read_wanted r else m_write_wanted r)) \<and> ls_held st \<noteq> [])"
proof -
  from reach_blocked obtain st a ty where st: "lock_step\<^sup>*\<^sup>* lock_init st" "ls_calls st < 2 ^ 31" "((0, 10, Reader), (a, ty)) \<in> set (ls_blocked st)"
    by force
  from no_lost_wakeup[OF st] show ?thesis using st(1,3) by blast
qed

text \<open>
  C9: A reader that has waited does not look at the size of the tree again: when the last lock is
  released before it runs on, its second attempt passes the insertion point of an empty tree
  to \<open>nearest\<close>, which takes the address of the payload of a null node.  Such a state is
  reachable with one writer and one reader of the same range.
\<close>

theorem woken_reader_fails:
  "\<exists>st. lock_step\<^sup>*\<^sup>* lock_init st \<and> ls_calls st = 2 \<and> ls_ready st = [(0, 10, Reader)] \<and>
    lock_range_again (ls_tree st) 0 10 Reader = None \<and> lock_range (ls_tree st) 0 10 Reader \<noteq> None"
proof -
  from reach_woken obtain st where st: "lock_step\<^sup>*\<^sup>* lock_init st" "ls_calls st = 2" "ls_held st = []" "ls_ready st = [(0, 10, Reader)]" by blast
  have "ls_calls st < 2 ^ 31 - 1" "off_ok 0" "off_ok 10" using st(2) by (simp_all add: off_ok_def)
  from reach_state[OF st(1) this(1) _ this(2,3), of Reader] st(3) obtain B L where x: "state_inv B L st"
    "lock_range (ls_tree st) 0 10 Reader \<noteq> None" by (fastforce simp: over_readers_def conflict_def)
  then have "lock_inv B (ls_tree st) L []" using st(3) by (simp add: state_inv_def)
  then have "m_root (ls_tree st) = None" using no_holders_empty lock_inv_root by blast
  then have "lock_range_again (ls_tree st) 0 10 Reader = None" by (simp add: lock_range_answer reader_retry_empty)
  then show ?thesis using st x(2) by blast
qed

text \<open>
  Three writers lock \<open>[0, 10)\<close>, \<open>[10, 20)\<close> and \<open>[20, 30)\<close>: the node of the second range has
  two children, and unlocking it is undefined.
\<close>

theorem unlock_middle_fails:
  "map_option Option.is_none unlock_middle = Some True"
  by code_simp

text \<open>
  After two readers have locked the same range, unlocking the first handle frees its own
  detached range but leaves the pointer in the handle, because its proxy is still in use:
  the destructor of the handle then reads freed memory.
\<close>

theorem destroy_after_unlock_fails:
  "map_option Option.is_none destroy_after_unlock = Some True"
  by code_simp

end
