(* ===== verification/Segment_Tree.thy ===== *)
theory Segment_Tree
  imports Prelude
begin

text \<open>
  The flat segment tree of \<open>src/src/mdds\<close>: a map from the keys of an interval to values
  that is constant on segments.  Its state is the doubly linked list of leaf nodes, one for
  the start of each segment and one for the end of the interval, and a tree of non-leaf
  nodes over them for searches, which is rebuilt on demand.

  The list of leaves is an Isabelle list of pairs (key, value), a pointer to a leaf is its
  position in the list, and \<open>m_left_leaf\<close> and \<open>m_right_leaf\<close> are its two ends.  A null
  pointer that the code would follow, a failed assertion and an exception are \<open>None\<close>.
\<close>

section \<open>State\<close>

datatype tree_node = Leaf_ref nat | Nonleaf off_t off_t tree_node "tree_node option"

record 'v flat_segment_tree =
  m_leaves :: "(off_t \<times> 'v) list"
  m_root_node :: "tree_node option"
  m_init_val :: 'v
  m_valid_tree :: bool

definition new_segment_tree :: "off_t \<Rightarrow> off_t \<Rightarrow> 'v \<Rightarrow> 'v flat_segment_tree" where
  "new_segment_tree min_val max_val init_val = \<lparr>m_leaves = [(min_val, init_val), (max_val, init_val)],
     m_root_node = None, m_init_val = init_val, m_valid_tree = False\<rparr>"

definition clear :: "'v flat_segment_tree \<Rightarrow> 'v flat_segment_tree" where
  "clear t = t\<lparr>m_leaves := [(fst (hd (m_leaves t)), m_init_val t), last (m_leaves t)], m_root_node := None, m_valid_tree := False\<rparr>"

definition min_key :: "'v flat_segment_tree \<Rightarrow> off_t" where
  "min_key t = fst (hd (m_leaves t))"

definition max_key :: "'v flat_segment_tree \<Rightarrow> off_t" where
  "max_key t = fst (last (m_leaves t))"

section \<open>Searching the leaves\<close>

function get_insertion_pos_leaf :: "(off_t \<times> 'v) list \<Rightarrow> off_t \<Rightarrow> nat \<Rightarrow> nat option" where
  "get_insertion_pos_leaf ls key cur_node = (if cur_node \<ge> length ls then None
     else if key \<le> fst (ls ! cur_node) then Some cur_node
     else get_insertion_pos_leaf ls key (cur_node + 1))"
  by pat_completeness auto
termination by (relation "measure (\<lambda>(ls, key, i). length ls - i)") auto

fun get_insertion_pos_leaf_reverse :: "(off_t \<times> 'v) list \<Rightarrow> off_t \<Rightarrow> nat \<Rightarrow> nat option" where
  "get_insertion_pos_leaf_reverse ls key cur_node = (if key > fst (ls ! cur_node) then Some cur_node
     else (case cur_node of 0 \<Rightarrow> None | Suc i \<Rightarrow> get_insertion_pos_leaf_reverse ls key i))"

declare get_insertion_pos_leaf.simps [simp del] get_insertion_pos_leaf_reverse.simps [simp del]

definition adjust_segment_range :: "'v flat_segment_tree \<Rightarrow> off_t \<Rightarrow> off_t \<Rightarrow> (off_t \<times> off_t) option" where
  "adjust_segment_range t start_key end_key =
     (if start_key \<ge> end_key then None
      else if end_key < min_key t \<or> start_key > max_key t then None
      else Some (if start_key < min_key t then min_key t else start_key,
                 if end_key > max_key t then max_key t else end_key))"

text \<open>The result of a search is the position it found and the bounds of its segment.\<close>

definition search_impl :: "(off_t \<times> 'v) list \<Rightarrow> nat \<Rightarrow> off_t \<Rightarrow> (nat \<times> 'v \<times> off_t) option" where
  "search_impl ls pos key =
     (if fst (ls ! pos) = key then Some (pos, snd (ls ! pos), key)
      else if pos \<noteq> 0 \<and> fst (ls ! (pos - 1)) < key then Some (pos - 1, snd (ls ! (pos - 1)), fst (ls ! (pos - 1)))
      else None)"

definition search :: "'v flat_segment_tree \<Rightarrow> off_t \<Rightarrow> (nat \<times> 'v \<times> off_t) option" where
  "search t key =
     (if key < min_key t \<or> max_key t \<le> key then None
      else case get_insertion_pos_leaf (m_leaves t) key 0 of
             None \<Rightarrow> None
           | Some pos \<Rightarrow> search_impl (m_leaves t) pos key)"

section \<open>Insertion\<close>

text \<open>
  The first part of \<open>insert_to_pos\<close>: the leaves with the start node set, the position of the
  start node, the value it covers and whether something has changed.
\<close>

definition set_start :: "(off_t \<times> 'v) list \<Rightarrow> nat \<Rightarrow> off_t \<Rightarrow> 'v \<Rightarrow> ((off_t \<times> 'v) list \<times> nat \<times> 'v \<times> bool) option" where
  "set_start ls start_pos start_key val =
     (if fst (ls ! start_pos) = start_key
      then if start_pos \<noteq> 0 \<and> snd (ls ! (start_pos - 1)) = val
           then Some (ls, start_pos - 1, snd (ls ! start_pos), False)
           else Some (ls[start_pos := (start_key, val)], start_pos, snd (ls ! start_pos), snd (ls ! start_pos) \<noteq> val)
      else if start_pos = 0 then None
      else if snd (ls ! (start_pos - 1)) = val
      then Some (ls, start_pos - 1, snd (ls ! (start_pos - 1)), False)
      else Some (take start_pos ls @ (start_key, val) # drop start_pos ls, start_pos, snd (ls ! (start_pos - 1)), True))"

text \<open>
  The rest: the nodes between the start node and the end node are unlinked, and the end
  node is set.  The end node is not before the node after the start node, or the loop
  would run off the end of the list.
\<close>

definition set_end :: "(off_t \<times> 'v) list \<Rightarrow> nat \<Rightarrow> 'v \<Rightarrow> bool \<Rightarrow> nat \<Rightarrow> off_t \<Rightarrow> 'v \<Rightarrow> ((off_t \<times> 'v) list \<times> bool) option" where
  "set_end ls new_start old_value changed end_pos end_key val =
     (if end_pos \<le> new_start then None
      else let removed = drop (new_start + 1) (take end_pos ls);
               old_value = (if removed = [] then old_value else snd (last removed));
               pre = take (new_start + 1) ls;
               post = drop end_pos ls;
               changed = (changed \<or> removed \<noteq> [])
           in if fst (ls ! end_pos) = end_key
              then if end_pos + 1 < length ls \<and> snd (ls ! end_pos) = val
                   then Some (pre @ drop 1 post, True)
                   else Some (pre @ post, changed)
              else if old_value = val then Some (pre @ post, changed)
              else Some (pre @ (end_key, old_value) # post, True))"

definition insert_to_pos :: "'v flat_segment_tree \<Rightarrow> nat \<Rightarrow> off_t \<Rightarrow> off_t \<Rightarrow> 'v \<Rightarrow> 'v flat_segment_tree option" where
  "insert_to_pos t start_pos start_key end_key val = do {
     let ls = m_leaves t;
     let end_pos = (case get_insertion_pos_leaf ls end_key start_pos of None \<Rightarrow> length ls - 1 | Some p \<Rightarrow> p);
     (ls', new_start, old_value, changed) \<leftarrow> set_start ls start_pos start_key val;
     (ls'', changed) \<leftarrow> set_end ls' new_start old_value changed (end_pos + (length ls' - length ls)) end_key val;
     Some (t\<lparr>m_leaves := ls'', m_valid_tree := (if changed then False else m_valid_tree t)\<rparr>) }"

definition insert_segment_impl :: "'v flat_segment_tree \<Rightarrow> off_t \<Rightarrow> off_t \<Rightarrow> 'v \<Rightarrow> bool \<Rightarrow> 'v flat_segment_tree option" where
  "insert_segment_impl t start_key end_key val forward = (case adjust_segment_range t start_key end_key of
       None \<Rightarrow> Some t
     | Some (start_key, end_key) \<Rightarrow> do {
         let ls = m_leaves t;
         start_pos \<leftarrow> (if forward then get_insertion_pos_leaf ls start_key 0
            else (case get_insertion_pos_leaf_reverse ls start_key (length ls - 1) of
                    Some p \<Rightarrow> if p + 1 < length ls then Some (p + 1) else None
                  | None \<Rightarrow> Some 0));
         insert_to_pos t start_pos start_key end_key val })"

definition insert_front :: "'v flat_segment_tree \<Rightarrow> off_t \<Rightarrow> off_t \<Rightarrow> 'v \<Rightarrow> 'v flat_segment_tree option" where
  "insert_front t start_key end_key val = insert_segment_impl t start_key end_key val True"

definition insert_back :: "'v flat_segment_tree \<Rightarrow> off_t \<Rightarrow> off_t \<Rightarrow> 'v \<Rightarrow> 'v flat_segment_tree option" where
  "insert_back t start_key end_key val = insert_segment_impl t start_key end_key val False"

section \<open>The tree over the leaves\<close>

definition fill_nonleaf :: "(off_t \<times> 'v) list \<Rightarrow> tree_node \<Rightarrow> tree_node option \<Rightarrow> off_t \<times> off_t" where
  "fill_nonleaf ls left_node right_node =
     ((case left_node of Leaf_ref i \<Rightarrow> fst (ls ! i) | Nonleaf low _ _ _ \<Rightarrow> low),
      (case right_node of
         Some (Leaf_ref i) \<Rightarrow> if i + 1 < length ls then fst (ls ! (i + 1)) else fst (ls ! i)
       | Some (Nonleaf _ high _ _) \<Rightarrow> high
       | None \<Rightarrow> (case left_node of Leaf_ref i \<Rightarrow> fst (ls ! i) | Nonleaf _ high _ _ \<Rightarrow> high)))"

definition make_parent_node :: "(off_t \<times> 'v) list \<Rightarrow> tree_node \<Rightarrow> tree_node option \<Rightarrow> tree_node" where
  "make_parent_node ls n1 n2 = (case fill_nonleaf ls n1 n2 of (low, high) \<Rightarrow> Nonleaf low high n1 n2)"

text \<open>The loop of \<open>tree_builder::build\<close> over the leaves from position \<open>i\<close>.\<close>

function build_leaf_layer :: "(off_t \<times> 'v) list \<Rightarrow> nat \<Rightarrow> tree_node list" where
  "build_leaf_layer ls i =
     (if i + 1 < length ls
      then make_parent_node ls (Leaf_ref i) (Some (Leaf_ref (i + 1))) #
           (if i + 2 < length ls then build_leaf_layer ls (i + 2) else [])
      else [make_parent_node ls (Leaf_ref i) None])"
  by pat_completeness auto
termination by (relation "measure (\<lambda>(ls, i). length ls - i)") auto

declare build_leaf_layer.simps [simp del]

fun pair_layer :: "(off_t \<times> 'v) list \<Rightarrow> tree_node list \<Rightarrow> tree_node list" where
  "pair_layer ls (n1 # n2 # ns) = make_parent_node ls n1 (Some n2) # pair_layer ls ns"
| "pair_layer ls [n1] = [make_parent_node ls n1 None]"
| "pair_layer ls [] = []"

lemma length_pair_layer: "length (pair_layer ls ns) = (length ns + 1) div 2"
  by (induction ls ns rule: pair_layer.induct) auto

function build_tree_non_leaf :: "(off_t \<times> 'v) list \<Rightarrow> tree_node list \<Rightarrow> tree_node option" where
  "build_tree_non_leaf ls ns = (case ns of
       [] \<Rightarrow> None
     | [n] \<Rightarrow> Some n
     | _ \<Rightarrow> build_tree_non_leaf ls (pair_layer ls ns))"
  by pat_completeness auto
termination by (relation "measure (\<lambda>(ls, ns). length ns)") (auto simp: length_pair_layer)

declare build_tree_non_leaf.simps [simp del]

definition build_tree :: "'v flat_segment_tree \<Rightarrow> 'v flat_segment_tree" where
  "build_tree t = t\<lparr>m_root_node := build_tree_non_leaf (m_leaves t) (build_leaf_layer (m_leaves t) 0), m_valid_tree := True\<rparr>"

text \<open>The descent of \<open>search_tree\<close>; \<open>None\<close> is the unsuccessful result.\<close>

fun search_nonleaf :: "(off_t \<times> 'v) list \<Rightarrow> off_t \<Rightarrow> tree_node \<Rightarrow> nat option" where
  "search_nonleaf ls key (Nonleaf low high (Leaf_ref i) right_node) = (case right_node of
       Some (Leaf_ref j) \<Rightarrow>
         if fst (ls ! i) \<le> key \<and> key < fst (ls ! j) then Some i
         else if fst (ls ! j) \<le> key \<and> key < high then Some j
         else None
     | _ \<Rightarrow> None)"
| "search_nonleaf ls key (Nonleaf low high (Nonleaf l h a b) right_node) =
     (if l \<le> key \<and> key < h then search_nonleaf ls key (Nonleaf l h a b)
      else (case right_node of
              Some (Nonleaf l' h' a' b') \<Rightarrow> if l' \<le> key \<and> key < h' then search_nonleaf ls key (Nonleaf l' h' a' b') else None
            | _ \<Rightarrow> None))"
| "search_nonleaf ls key (Leaf_ref i) = None"

definition search_tree :: "'v flat_segment_tree \<Rightarrow> off_t \<Rightarrow> (nat \<times> 'v) option" where
  "search_tree t key = (case m_root_node t of
       None \<Rightarrow> None
     | Some root \<Rightarrow>
         if \<not> m_valid_tree t then None
         else if key < min_key t \<or> max_key t \<le> key then None
         else map_option (\<lambda>i. (i, snd (m_leaves t ! i))) (search_nonleaf (m_leaves t) key root))"

text \<open>The number of non-leaf nodes that \<open>build_tree\<close> reserves.\<close>

function count_needed_nonleaf_nodes :: "nat \<Rightarrow> nat" where
  "count_needed_nonleaf_nodes leaf_count =
     (if leaf_count \<le> 1 then 0
      else let half = (if leaf_count mod 2 = 1 then leaf_count + 1 else leaf_count) div 2
           in half + count_needed_nonleaf_nodes half)"
  by pat_completeness auto
termination by (relation "measure id") (simp, auto simp: less_mult_imp_div_less)

declare count_needed_nonleaf_nodes.simps [simp del]

end
