(* ===== verification/Segment_Map.thy ===== *)
theory Segment_Map
  imports Segment_Tree
begin

text \<open>
  The flat segment tree as a map: insertion overwrites the values of an interval and of
  nothing else, and the search through the tree of non-leaf nodes finds the segment that
  contains a key.
\<close>

section \<open>The map a list of leaves stands for\<close>

definition seg_val :: "(off_t \<times> 'v) list \<Rightarrow> off_t \<Rightarrow> 'v" where
  "seg_val ls k = snd (last (filter (\<lambda>x. fst x \<le> k) ls))"

definition leaves_ok :: "off_t \<Rightarrow> off_t \<Rightarrow> (off_t \<times> 'v) list \<Rightarrow> bool" where
  "leaves_ok lo hi ls \<longleftrightarrow> sorted_wrt (<) (map fst ls) \<and> ls \<noteq> [] \<and> fst (hd ls) = lo \<and> fst (last ls) = hi \<and> lo < hi"

definition tree_ok :: "off_t \<Rightarrow> off_t \<Rightarrow> 'v flat_segment_tree \<Rightarrow> bool" where
  "tree_ok lo hi t \<longleftrightarrow> leaves_ok lo hi (m_leaves t) \<and>
     (m_valid_tree t \<longrightarrow> m_root_node t = build_tree_non_leaf (m_leaves t) (build_leaf_layer (m_leaves t) 0))"

lemma filter_le_all [simp]: "(\<forall>x \<in> set xs. fst x \<le> k) \<Longrightarrow> filter (\<lambda>x. fst x \<le> k) xs = xs"
  by (rule filter_True)

lemma filter_le_none [simp]: "(\<forall>x \<in> set xs. k < fst x) \<Longrightarrow> filter (\<lambda>x. fst x \<le> (k :: int)) xs = []"
  by (rule filter_False) force

section \<open>Positions\<close>

lemma pos_leaf_split:
  assumes "\<forall>x \<in> set us. fst x < key" "\<forall>x \<in> set vs. key \<le> fst x" "vs \<noteq> []" "i \<le> length us"
  shows "get_insertion_pos_leaf (us @ vs) key i = Some (length us)"
  using assms(4)
proof (induction "length us - i" arbitrary: i)
  case 0
  then have "i = length us" by simp
  then show ?case using assms by (subst get_insertion_pos_leaf.simps) (cases vs, auto)
next
  case (Suc n)
  then have i: "i < length us" by simp
  have "fst (us ! i) < key" using bspec[OF assms(1) nth_mem[OF i]] .
  then have "\<not> key \<le> fst ((us @ vs) ! i)" using i by (simp add: nth_append)
  moreover have "get_insertion_pos_leaf (us @ vs) key (i + 1) = Some (length us)" using Suc i by auto
  ultimately show ?case using i by (subst get_insertion_pos_leaf.simps) simp
qed

lemma pos_leaf_reverse_split:
  assumes "\<forall>x \<in> set us. fst x < key" "\<forall>x \<in> set vs. key \<le> fst x" "length us \<le> i + 1" "i < length (us @ vs)"
  shows "get_insertion_pos_leaf_reverse (us @ vs) key i = (if us = [] then None else Some (length us - 1))"
  using assms(3,4)
proof (induction i)
  case 0
  show ?case
  proof (cases us)
    case Nil
    then have "\<not> key > fst ((us @ vs) ! 0)" using assms(2) 0 by (cases vs) auto
    then show ?thesis using Nil by (subst get_insertion_pos_leaf_reverse.simps) simp
  next
    case (Cons u us')
    then show ?thesis using assms(1) 0 by (subst get_insertion_pos_leaf_reverse.simps) auto
  qed
next
  case (Suc i)
  show ?case
  proof (cases "length us = Suc i + 1")
    case True
    then have "fst ((us @ vs) ! Suc i) < key" using assms(1) by (simp add: nth_append)
    then show ?thesis using True by (subst get_insertion_pos_leaf_reverse.simps) auto
  next
    case False
    have "length us \<le> i + 1" using Suc.prems False by simp
    moreover have "vs ! (Suc i - length us) \<in> set vs" using Suc.prems calculation by (intro nth_mem) auto
    ultimately have "\<not> fst ((us @ vs) ! Suc i) < key" using assms(2) by (auto simp: nth_append)
    then show ?thesis using Suc.IH \<open>length us \<le> i + 1\<close> Suc.prems by (subst get_insertion_pos_leaf_reverse.simps) simp
  qed
qed

section \<open>Insertion\<close>

definition starts :: "(off_t \<times> 'v) list \<Rightarrow> off_t \<Rightarrow> 'v \<Rightarrow> (off_t \<times> 'v) list" where
  "starts us s v = (if us \<noteq> [] \<and> snd (last us) = v then us else us @ [(s, v)])"

definition ends :: "'v \<Rightarrow> off_t \<Rightarrow> 'v \<Rightarrow> (off_t \<times> 'v) list \<Rightarrow> (off_t \<times> 'v) list" where
  "ends old e v vs =
     (if fst (hd vs) = e then if tl vs \<noteq> [] \<and> snd (hd vs) = v then tl vs else vs
      else if old = v then vs else (e, old) # vs)"

definition parted :: "off_t \<Rightarrow> off_t \<Rightarrow> (off_t \<times> 'v) list \<Rightarrow> (off_t \<times> 'v) list \<Rightarrow> (off_t \<times> 'v) list \<Rightarrow> bool" where
  "parted s e us ms vs \<longleftrightarrow> s < e \<and> (\<forall>x \<in> set us. fst x < s) \<and> (\<forall>x \<in> set ms. s \<le> fst x \<and> fst x < e) \<and>
     (\<forall>x \<in> set vs. e \<le> fst x) \<and> vs \<noteq> [] \<and> (us = [] \<longrightarrow> ms \<noteq> [] \<and> fst (hd ms) = s)"

lemma leaves_partedE:
  assumes "leaves_ok lo hi ls" "lo \<le> s" "s < e" "e \<le> hi"
  obtains us ms vs where "ls = us @ ms @ vs" "parted s e us ms vs"
proof -
  have sorted: "sorted_wrt (<) (map fst ls)" and ne: "ls \<noteq> []" using assms(1) by (auto simp: leaves_ok_def)
  have split: "xs = filter (\<lambda>x. fst x < k) xs @ filter (\<lambda>x. k \<le> fst x) xs" if "sorted_wrt (<) (map fst xs)" for k :: int and xs :: "(off_t \<times> 'v) list"
    using that
  proof (induction xs)
    case (Cons x xs)
    show ?case
    proof (cases "fst x < k")
      case False
      then have "\<forall>y \<in> set xs. k \<le> fst y" using Cons.prems by fastforce
      then have "filter (\<lambda>x. fst x < k) xs = []" "filter (\<lambda>x. k \<le> fst x) xs = xs" by (auto simp: filter_empty_conv filter_id_conv)
      then show ?thesis using False by simp
    qed (use Cons in auto)
  qed simp
  define us where "us = filter (\<lambda>x. fst x < s) ls"
  define ws where "ws = filter (\<lambda>x. s \<le> fst x) ls"
  define ms where "ms = filter (\<lambda>x. fst x < e) ws"
  define vs where "vs = filter (\<lambda>x. e \<le> fst x) ws"
  have 1: "ls = us @ ws" using split[OF sorted] by (simp add: us_def ws_def)
  have "sorted_wrt (<) (map fst ws)" using sorted 1 by (simp add: sorted_wrt_append)
  then have 2: "ws = ms @ vs" using split[of ws e] by (simp add: ms_def vs_def)
  have "last ls \<in> set ls" "e \<le> fst (last ls)" using assms ne by (auto simp: leaves_ok_def)
  then have "last ls \<in> set vs" using assms(3) by (auto simp: vs_def ws_def)
  then have vs: "vs \<noteq> []" by auto
  moreover have "ms \<noteq> [] \<and> fst (hd ms) = s" if "us = []"
  proof -
    have "fst (hd ls) \<le> s" using assms by (simp add: leaves_ok_def)
    moreover have "hd ls \<in> set ws" using ne 1 that by simp
    ultimately have "hd ls \<in> set ms" using assms(3) by (auto simp: ms_def ws_def)
    then have "ms \<noteq> []" by auto
    then have "hd ms = hd ls" using 1 2 that by simp
    then show ?thesis using \<open>fst (hd ls) \<le> s\<close> \<open>hd ls \<in> set ws\<close> \<open>ms \<noteq> []\<close> by (auto simp: ws_def)
  qed
  ultimately have "parted s e us ms vs" using assms(3) by (auto simp: parted_def us_def ms_def vs_def ws_def)
  then show thesis using that 1 2 by simp
qed

lemma set_start_run:
  assumes p: "parted s e us ms vs"
  shows "\<exists>ls' ns ov ch. set_start (us @ ms @ vs) (length us) s v = Some (ls', ns, ov, ch) \<and>
    take (ns + 1) ls' = starts us s v \<and> ns < length us + length ms + (length ls' - length (us @ ms @ vs)) \<and>
    drop (length us + length ms + (length ls' - length (us @ ms @ vs))) ls' = vs \<and>
    (let rem = drop (ns + 1) (take (length us + length ms + (length ls' - length (us @ ms @ vs))) ls')
     in (if rem = [] then ov else snd (last rem)) = snd (last (us @ ms))) \<and> (\<not> ch \<longrightarrow> ls' = us @ ms @ vs)"
proof (cases "ms \<noteq> [] \<and> fst (hd ms) = s")
  case True
  then obtain ov ms' where ms: "ms = (s, ov) # ms'" by (cases ms) auto
  show ?thesis
  proof (cases "us \<noteq> [] \<and> snd (last us) = v")
    case True
    then have "snd ((us @ ms @ vs) ! (length us - 1)) = v" by (auto simp: nth_append last_conv_nth)
    then show ?thesis using True ms by (auto simp: set_start_def starts_def Let_def nth_append)
  next
    case False
    then have "\<not> (length us \<noteq> 0 \<and> snd ((us @ ms @ vs) ! (length us - 1)) = v)" by (auto simp: nth_append last_conv_nth)
    then show ?thesis using False ms by (auto simp: set_start_def starts_def Let_def nth_append)
  qed
next
  case False
  then have us: "us \<noteq> []" using p by (auto simp: parted_def)
  have k: "fst ((us @ ms @ vs) ! length us) \<noteq> s"
  proof (cases ms)
    case Nil
    then have "(us @ ms @ vs) ! length us = hd vs" using p by (auto simp: parted_def nth_append hd_conv_nth)
    moreover have "hd vs \<in> set vs" using p by (simp add: parted_def)
    ultimately have "e \<le> fst ((us @ ms @ vs) ! length us)" using p by (simp add: parted_def)
    then show ?thesis using p by (simp add: parted_def)
  qed (use False in auto)
  have l: "(us @ ms @ vs) ! (length us - 1) = last us" using us by (simp add: nth_append last_conv_nth)
  show ?thesis
  proof (cases "snd (last us) = v")
    case True
    have "set_start (us @ ms @ vs) (length us) s v = Some (us @ ms @ vs, length us - 1, v, False)"
      using us k l True unfolding set_start_def by simp
    moreover have "length us - 1 < length us + length ms" using us by (cases us) auto
    ultimately show ?thesis using us True by (auto simp: starts_def Let_def)
  next
    case False
    have "set_start (us @ ms @ vs) (length us) s v = Some (us @ (s, v) # ms @ vs, length us, snd (last us), True)"
      using us k l False unfolding set_start_def by simp
    then show ?thesis using us False by (auto simp: starts_def Let_def)
  qed
qed

lemma set_end_run:
  assumes "ns < ep" "drop ep ls = vs" "vs \<noteq> []"
    "(let rem = drop (ns + 1) (take ep ls) in (if rem = [] then ov else snd (last rem)) = old)"
  shows "\<exists>ch. set_end ls ns ov c ep e v = Some (take (ns + 1) ls @ ends old e v vs, ch) \<and>
    (\<not> ch \<longrightarrow> \<not> c \<and> take (ns + 1) ls @ ends old e v vs = ls)"
proof -
  have h: "ep < length ls" using assms(2,3) by (cases "ep < length ls") auto
  then have "ls ! ep = hd vs" using assms(2) hd_drop_conv_nth[of ep ls] by simp
  moreover have "ep + 1 < length ls \<longleftrightarrow> tl vs \<noteq> []" using assms(2) by (auto simp: tl_drop drop_Suc[symmetric] simp flip: drop_Suc)
  moreover have "drop 1 vs = tl vs" by (cases vs) auto
  moreover have "take (ns + 1) ls @ vs = ls" if "drop (ns + 1) (take ep ls) = []"
  proof -
    have "ep = ns + 1" using that assms(1) h by simp
    then show ?thesis using assms(2) append_take_drop_id[of ep ls] by simp
  qed
  ultimately show ?thesis using assms unfolding set_end_def ends_def Let_def by auto
qed

lemma insert_to_pos_run:
  assumes p: "parted s e us ms vs" and l: "m_leaves t = us @ ms @ vs"
  shows "\<exists>ch. insert_to_pos t (length us) s e v =
    Some (t\<lparr>m_leaves := starts us s v @ ends (snd (last (us @ ms))) e v vs, m_valid_tree := (if ch then False else m_valid_tree t)\<rparr>) \<and>
    (\<not> ch \<longrightarrow> starts us s v @ ends (snd (last (us @ ms))) e v vs = us @ ms @ vs)"
proof -
  have "get_insertion_pos_leaf ((us @ ms) @ vs) e (length us) = Some (length (us @ ms))"
    by (rule pos_leaf_split) (use p in \<open>force simp: parted_def\<close>)+
  moreover from set_start_run[OF p, of v] obtain ls' ns ov ch where
    s: "set_start (us @ ms @ vs) (length us) s v = Some (ls', ns, ov, ch)" "take (ns + 1) ls' = starts us s v"
    and m: "ns < length us + length ms + (length ls' - length (us @ ms @ vs))"
      "drop (length us + length ms + (length ls' - length (us @ ms @ vs))) ls' = vs"
      "(let rem = drop (ns + 1) (take (length us + length ms + (length ls' - length (us @ ms @ vs))) ls')
        in (if rem = [] then ov else snd (last rem)) = snd (last (us @ ms)))" and c: "\<not> ch \<longrightarrow> ls' = us @ ms @ vs" by blast
  moreover have "vs \<noteq> []" using p by (simp add: parted_def)
  from set_end_run[OF m(1,2) this m(3), of ch e v] obtain ch' where
    "set_end ls' ns ov ch (length us + length ms + (length ls' - length (us @ ms @ vs))) e v =
      Some (starts us s v @ ends (snd (last (us @ ms))) e v vs, ch')"
    "\<not> ch' \<longrightarrow> \<not> ch \<and> starts us s v @ ends (snd (last (us @ ms))) e v vs = ls'" using s(2) by auto
  ultimately show ?thesis using l c by (intro exI[of _ ch']) (simp add: insert_to_pos_def)
qed

lemma last_starts: "starts us s v \<noteq> []" "snd (last (starts us s v)) = v"
  by (auto simp: starts_def)

lemma new_leaves_val:
  assumes p: "parted s e us ms vs"
  shows "seg_val (starts us s v @ ends (snd (last (us @ ms))) e v vs) k =
    (if s \<le> k \<and> k < e then v else seg_val (us @ ms @ vs) k)"
proof -
  let ?F = "filter (\<lambda>x. fst x \<le> k)"
  have u: "\<forall>x \<in> set us. fst x < s" and m: "\<forall>x \<in> set ms. s \<le> fst x \<and> fst x < e" and v: "\<forall>x \<in> set vs. e \<le> fst x"
    and ne: "vs \<noteq> []" and se: "s < e" and um: "us @ ms \<noteq> []" using p by (auto simp: parted_def)
  obtain x vs' where vs: "vs = x # vs'" using ne by (cases vs) auto
  have en: "\<forall>x \<in> set (ends old e v vs). e \<le> fst x" for old using v vs by (auto simp: ends_def)
  consider "k < s" | "s \<le> k" "k < e" | "e \<le> k" by linarith
  then show ?thesis
  proof cases
    case 1
    have "?F ms = []" "?F vs = []" "?F (ends old e v vs) = []" for old
      using 1 m v en[of old] se by (auto simp: filter_empty_conv)
    moreover have "?F (starts us s v) = ?F us" using 1 by (simp add: starts_def)
    ultimately show ?thesis using 1 by (simp add: seg_val_def)
  next
    case 2
    have "?F (ends old e v vs) = []" for old using 2 en[of old] by (auto simp: filter_empty_conv)
    moreover have "?F (starts us s v) = starts us s v" using 2 u by (auto simp: starts_def filter_id_conv)
    ultimately show ?thesis using 2 last_starts[of us s v] by (simp add: seg_val_def)
  next
    case 3
    have "\<forall>x \<in> set (us @ ms). fst x \<le> k" using 3 u m se by fastforce
    then have um': "?F (us @ ms) = us @ ms" by (rule filter_True)
    have st: "?F (starts us s v) = starts us s v" using 3 u se by (auto simp: starts_def filter_id_conv)
    have old: "seg_val (us @ ms @ vs) k = (if ?F vs = [] then snd (last (us @ ms)) else snd (last (?F vs)))"
    proof -
      have "?F (us @ ms @ vs) = (us @ ms) @ ?F vs" using um' by simp
      then show ?thesis unfolding seg_val_def by (simp only: last_append split: if_split) simp
    qed
    have new: "seg_val (starts us s v @ ends o1 e v vs) k = (if ?F (ends o1 e v vs) = [] then v else snd (last (?F (ends o1 e v vs))))" for o1
      using st last_starts[of us s v] by (simp add: seg_val_def last_append)
    show ?thesis unfolding old new using 3 vs by (auto simp: ends_def)
  qed
qed

lemma new_leaves_ok:
  assumes p: "parted s e us ms vs" and ok: "leaves_ok lo hi (us @ ms @ vs)"
  shows "leaves_ok lo hi (starts us s v @ ends o1 e v vs)"
proof -
  have u: "\<forall>x \<in> set us. fst x < s" and v: "\<forall>x \<in> set vs. e \<le> fst x" and ne: "vs \<noteq> []" and se: "s < e"
    using p by (auto simp: parted_def)
  obtain x vs' where vs: "vs = x # vs'" using ne by (cases vs) auto
  have sorted: "sorted_wrt (<) (map fst us)" "sorted_wrt (<) (map fst vs)"
    using ok by (auto simp: leaves_ok_def sorted_wrt_append)
  have st: "sorted_wrt (<) (map fst (starts us s v))" "\<forall>x \<in> set (starts us s v). fst x \<le> s"
    using sorted(1) u by (auto simp: starts_def sorted_wrt_append)
  have en: "sorted_wrt (<) (map fst (ends o1 e v vs))" "\<forall>x \<in> set (ends o1 e v vs). e \<le> fst x" "last (ends o1 e v vs) = last vs" "ends o1 e v vs \<noteq> []"
    using sorted(2) v vs by (auto simp: ends_def)
  have "fst (hd (starts us s v)) = lo"
    using p ok by (cases us; cases ms) (auto simp: starts_def leaves_ok_def parted_def)
  moreover have "\<forall>x \<in> set (starts us s v). \<forall>y \<in> set (ends o1 e v vs). fst x < fst y" using st(2) en(2) se by fastforce
  ultimately show ?thesis using st(1) en(1,3,4) ok last_starts(1)[of us s v] ne
    by (simp add: leaves_ok_def sorted_wrt_append)
qed


lemma tree_keys: "tree_ok lo hi t \<Longrightarrow> min_key t = lo \<and> max_key t = hi \<and> lo < hi"
  by (simp add: tree_ok_def leaves_ok_def min_key_def max_key_def)

text \<open>Both insertions, from the front and from the back, overwrite exactly the interval.\<close>

lemma insert_segment_run:
  assumes t: "tree_ok lo hi t" and r: "lo \<le> s" "e \<le> hi" and p: "parted s e us ms vs" and l: "m_leaves t = us @ ms @ vs"
  shows "\<exists>t'. insert_segment_impl t s e v fwd = Some t' \<and> tree_ok lo hi t' \<and> m_leaves t' = starts us s v @ ends (snd (last (us @ ms))) e v vs"
proof -
  have ok: "leaves_ok lo hi (m_leaves t)" using t by (simp add: tree_ok_def)
  have adj: "adjust_segment_range t s e = Some (s, e)" using tree_keys[OF t] r p by (simp add: adjust_segment_range_def parted_def)
  have wv: "\<forall>x \<in> set (ms @ vs). s \<le> fst x" "ms @ vs \<noteq> []" "\<forall>x \<in> set us. fst x < s" using p by (fastforce simp: parted_def)+
  have "get_insertion_pos_leaf (us @ ms @ vs) s 0 = Some (length us)"
    by (rule pos_leaf_split) (use wv in auto)
  moreover have "get_insertion_pos_leaf_reverse (us @ ms @ vs) s (length (us @ ms @ vs) - 1) =
      (if us = [] then None else Some (length us - 1))"
    by (rule pos_leaf_reverse_split) (use wv in \<open>auto simp: Suc_le_eq\<close>)
  moreover have "length us < length (us @ ms @ vs)" using wv by simp
  ultimately have start: "(if fwd then get_insertion_pos_leaf (m_leaves t) s 0
      else (case get_insertion_pos_leaf_reverse (m_leaves t) s (length (m_leaves t) - 1) of
              Some p \<Rightarrow> if p + 1 < length (m_leaves t) then Some (p + 1) else None | None \<Rightarrow> Some 0)) = Some (length us)"
    using l by (cases us) auto
  let ?ls = "starts us s v @ ends (snd (last (us @ ms))) e v vs"
  obtain ch where run: "insert_to_pos t (length us) s e v = Some (t\<lparr>m_leaves := ?ls, m_valid_tree := (if ch then False else m_valid_tree t)\<rparr>)"
    "\<not> ch \<longrightarrow> ?ls = us @ ms @ vs" using insert_to_pos_run[OF p l, of v] by blast
  let ?t = "t\<lparr>m_leaves := ?ls, m_valid_tree := (if ch then False else m_valid_tree t)\<rparr>"
  have "insert_segment_impl t s e v fwd = Some ?t" using adj start run(1) unfolding insert_segment_impl_def by simp
  moreover have "tree_ok lo hi ?t" using new_leaves_ok[OF p, of lo hi v] ok l t run(2) by (auto simp: tree_ok_def)
  ultimately show ?thesis by auto
qed

lemma insert_segment_ok:
  assumes t: "tree_ok lo hi t" and r: "lo \<le> s" "s < e" "e \<le> hi"
  shows "\<exists>t'. insert_segment_impl t s e v fwd = Some t' \<and> tree_ok lo hi t' \<and>
    (\<forall>k. seg_val (m_leaves t') k = (if s \<le> k \<and> k < e then v else seg_val (m_leaves t) k))"
proof -
  have "leaves_ok lo hi (m_leaves t)" using t by (simp add: tree_ok_def)
  then obtain us ms vs where l: "m_leaves t = us @ ms @ vs" and p: "parted s e us ms vs" by (rule leaves_partedE[OF _ r])
  from insert_segment_run[OF t r(1,3) p l, of v fwd] new_leaves_val[OF p, of v] show ?thesis using l by auto
qed

section \<open>The tree search\<close>

definition at_pos :: "(off_t \<times> 'v) list \<Rightarrow> off_t \<Rightarrow> nat \<Rightarrow> bool" where
  "at_pos ls k i \<longleftrightarrow> i + 1 < length ls \<and> fst (ls ! i) \<le> k \<and> k < fst (ls ! (i + 1))"

text \<open>A non-leaf node covers the half-open interval it is labelled with.\<close>

definition covers :: "(off_t \<times> 'v) list \<Rightarrow> off_t \<Rightarrow> off_t \<Rightarrow> tree_node \<Rightarrow> bool" where
  "covers ls low high n \<longleftrightarrow> (\<exists>a b. n = Nonleaf low high a b) \<and>
     (\<forall>k. low \<le> k \<longrightarrow> k < high \<longrightarrow> (\<exists>i. search_nonleaf ls k n = Some i \<and> at_pos ls k i))"

fun layer :: "(off_t \<times> 'v) list \<Rightarrow> off_t \<Rightarrow> off_t \<Rightarrow> tree_node list \<Rightarrow> bool" where
  "layer ls lo hi [] \<longleftrightarrow> lo = hi"
| "layer ls lo hi (n # ns) \<longleftrightarrow> (\<exists>mid. covers ls lo mid n \<and> layer ls mid hi ns)"

lemma covers_pair:
  assumes "covers ls lo mid n1" "covers ls mid hi n2"
  shows "covers ls lo hi (make_parent_node ls n1 (Some n2))"
proof -
  obtain a b c d where n: "n1 = Nonleaf lo mid a b" "n2 = Nonleaf mid hi c d" using assms by (auto simp: covers_def)
  then show ?thesis using assms by (auto simp: covers_def make_parent_node_def fill_nonleaf_def)
qed

lemma covers_single:
  assumes "covers ls lo hi n1"
  shows "covers ls lo hi (make_parent_node ls n1 None)"
  using assms by (auto simp: covers_def make_parent_node_def fill_nonleaf_def)

lemma layer_pair: "layer ls lo hi ns \<Longrightarrow> layer ls lo hi (pair_layer ls ns)"
  by (induction ls ns arbitrary: lo rule: pair_layer.induct) (auto intro: covers_pair covers_single)

lemma non_leaf_simps [simp]:
  "build_tree_non_leaf ls [] = None" "build_tree_non_leaf ls [n] = Some n"
  "build_tree_non_leaf ls (n1 # n2 # ns) = build_tree_non_leaf ls (pair_layer ls (n1 # n2 # ns))"
  by (simp_all only: build_tree_non_leaf.simps[of ls "[]"] build_tree_non_leaf.simps[of ls "[n]"]
      build_tree_non_leaf.simps[of ls "n1 # n2 # ns"] list.case)

lemma layer_root: "layer ls lo hi ns \<Longrightarrow> ns \<noteq> [] \<Longrightarrow> \<exists>r. build_tree_non_leaf ls ns = Some r \<and> covers ls lo hi r"
proof (induction ls ns rule: build_tree_non_leaf.induct)
  case (1 ls ns)
  consider n where "ns = [n]" | n1 n2 ns' where "ns = n1 # n2 # ns'" using "1.prems"(2) by (cases ns; cases "tl ns") auto
  then show ?case
  proof cases
    case 2
    then have "layer ls lo hi (pair_layer ls ns)" "pair_layer ls ns \<noteq> []" using layer_pair[OF "1.prems"(1)] by simp_all
    from "1.IH"[OF 2 refl this] show ?thesis unfolding 2 non_leaf_simps .
  qed (use "1.prems" in auto)
qed

lemma covers_leaves:
  assumes "i + 1 < length ls"
  shows "covers ls (fst (ls ! i)) (if i + 2 < length ls then fst (ls ! (i + 2)) else fst (ls ! (i + 1)))
    (make_parent_node ls (Leaf_ref i) (Some (Leaf_ref (i + 1))))"
  using assms by (auto simp: covers_def make_parent_node_def fill_nonleaf_def at_pos_def)

lemma covers_last: "covers ls (fst (ls ! i)) (fst (ls ! i)) (make_parent_node ls (Leaf_ref i) None)"
  by (auto simp: covers_def make_parent_node_def fill_nonleaf_def)

lemma leaf_layer: "i < length ls \<Longrightarrow> layer ls (fst (ls ! i)) (fst (last ls)) (build_leaf_layer ls i)"
proof (induction ls i rule: build_leaf_layer.induct)
  case (1 ls i)
  consider "i + 2 < length ls" | "i + 2 = length ls" | "i + 1 = length ls" using "1.prems" by linarith
  then show ?case
  proof cases
    case 1
    then show ?thesis using "1.IH" covers_leaves[of i ls] by (subst build_leaf_layer.simps) auto
  next
    case 2
    then have "last ls = ls ! (i + 1)" by (metis add_diff_cancel_right' add_2_eq_Suc' diff_Suc_1 last_conv_nth length_0_conv nat.distinct(1) Suc_eq_plus1)
    then show ?thesis using 2 covers_leaves[of i ls] by (subst build_leaf_layer.simps) auto
  next
    case 3
    then have "last ls = ls ! i" by (metis add_diff_cancel_right' last_conv_nth length_0_conv add_is_0 one_neq_zero)
    then show ?thesis using 3 covers_last[of ls i] by (subst build_leaf_layer.simps) auto
  qed
qed

lemma at_pos_val:
  assumes "sorted_wrt (<) (map fst ls)" "at_pos ls k i"
  shows "seg_val ls k = snd (ls ! i)"
proof -
  have i: "i + 1 < length ls" "fst (ls ! i) \<le> k" "k < fst (ls ! (i + 1))" using assms(2) by (auto simp: at_pos_def)
  have split: "ls = take (i + 1) ls @ drop (i + 1) ls" by simp
  have sp: "fst (ls ! a) < fst (ls ! b)" if "a < b" "b < length ls" for a b
    using sorted_wrt_nth_less[OF assms(1) that(1)] that by simp
  have "\<forall>x \<in> set (take (i + 1) ls). fst x \<le> k"
  proof
    fix x assume "x \<in> set (take (i + 1) ls)"
    then obtain j where "j < i + 1" "x = ls ! j" using i(1) by (auto simp: in_set_conv_nth)
    then show "fst x \<le> k" using sp[of j i] i by (cases "j = i") auto
  qed
  moreover have "\<forall>x \<in> set (drop (i + 1) ls). k < fst x"
  proof
    fix x assume "x \<in> set (drop (i + 1) ls)"
    then obtain j where "i + 1 + j < length ls" "x = ls ! (i + 1 + j)" using i by (auto simp: in_set_conv_nth less_diff_conv add.commute)
    then show "k < fst x" using sp[of "i + 1" "i + 1 + j"] i by (cases "j = 0") auto
  qed
  ultimately have "filter (\<lambda>x. fst x \<le> k) ls = take (i + 1) ls"
    by (subst split, subst filter_append) simp
  then show ?thesis using i(1) by (simp add: seg_val_def take_Suc_conv_app_nth)
qed

lemma linear_search:
  assumes s: "sorted_wrt (<) (map fst ls)" and p: "at_pos ls k i"
  shows "(case get_insertion_pos_leaf ls k 0 of None \<Rightarrow> None | Some pos \<Rightarrow> search_impl ls pos k) = Some (i, snd (ls ! i), fst (ls ! i))"
proof -
  have i: "i + 1 < length ls" "fst (ls ! i) \<le> k" "k < fst (ls ! (i + 1))" using p by (auto simp: at_pos_def)
  have sp: "fst (ls ! a) < fst (ls ! b)" if "a < b" "b < length ls" for a b
    using sorted_wrt_nth_less[OF s that(1)] that by simp
  define j where "j = (if fst (ls ! i) = k then i else i + 1)"
  have "\<forall>x \<in> set (take j ls). fst x < k"
  proof
    fix x assume "x \<in> set (take j ls)"
    then obtain a where "a < j" "x = ls ! a" using i(1) by (auto simp: in_set_conv_nth)
    then show "fst x < k" using sp[of a i] i by (cases "a = i") (auto simp: j_def split: if_splits)
  qed
  moreover have "\<forall>x \<in> set (drop j ls). k \<le> fst x"
  proof
    fix x assume "x \<in> set (drop j ls)"
    then obtain a where "j + a < length ls" "x = ls ! (j + a)" by (force simp: in_set_conv_nth less_diff_conv add.commute)
    then show "k \<le> fst x" using sp[of j "j + a"] i by (cases "a = 0") (auto simp: j_def split: if_splits)
  qed
  moreover have "drop j ls \<noteq> []" "length (take j ls) = j" using i(1) by (auto simp: j_def)
  ultimately have "get_insertion_pos_leaf ls k 0 = Some j"
    using pos_leaf_split[of "take j ls" k "drop j ls" 0] by simp
  then show ?thesis using i by (auto simp: j_def search_impl_def)
qed

lemma build_tree_ok: "tree_ok lo hi t \<Longrightarrow> tree_ok lo hi (build_tree t)"
  by (simp add: tree_ok_def build_tree_def)

lemma search_tree_ok:
  assumes t: "tree_ok lo hi t" and v: "m_valid_tree t" and k: "lo \<le> k" "k < hi"
  shows "\<exists>i. search_tree t k = Some (i, seg_val (m_leaves t) k) \<and> at_pos (m_leaves t) k i \<and> snd (m_leaves t ! i) = seg_val (m_leaves t) k"
proof -
  let ?ls = "m_leaves t"
  have ok: "sorted_wrt (<) (map fst ?ls)" "?ls \<noteq> []" "fst (?ls ! 0) = lo" "fst (last ?ls) = hi"
    using t by (auto simp: tree_ok_def leaves_ok_def hd_conv_nth)
  have "layer ?ls lo hi (build_leaf_layer ?ls 0)" using leaf_layer[of 0 ?ls] ok by simp
  moreover have "build_leaf_layer ?ls 0 \<noteq> []" by (subst build_leaf_layer.simps) simp
  ultimately obtain r where r: "m_root_node t = Some r" "covers ?ls lo hi r" using layer_root t v by (metis tree_ok_def)
  then obtain i where i: "search_nonleaf ?ls k r = Some i" "at_pos ?ls k i" using k by (auto simp: covers_def)
  then show ?thesis using r(1) v k tree_keys[OF t] at_pos_val[OF ok(1) i(2)] by (auto simp: search_tree_def)
qed


section \<open>The number of non-leaf nodes\<close>

fun nonleaf_nodes :: "tree_node \<Rightarrow> nat" where
  "nonleaf_nodes (Leaf_ref i) = 0"
| "nonleaf_nodes (Nonleaf l h a None) = Suc (nonleaf_nodes a)"
| "nonleaf_nodes (Nonleaf l h a (Some b)) = Suc (nonleaf_nodes a + nonleaf_nodes b)"

lemma nonleaf_parent: "nonleaf_nodes (make_parent_node ls a b) = Suc (nonleaf_nodes a + (case b of None \<Rightarrow> 0 | Some c \<Rightarrow> nonleaf_nodes c))"
  by (cases b) (auto simp: make_parent_node_def split: prod.split)

lemma nonleaf_pair: "sum_list (map nonleaf_nodes (pair_layer ls ns)) = sum_list (map nonleaf_nodes ns) + (length ns + 1) div 2"
  by (induction ls ns rule: pair_layer.induct) (auto simp: nonleaf_parent)

lemma half_up: "(if n mod 2 = 1 then n + 1 else n) div 2 = (n + 1) div (2 :: nat)"
  by presburger

lemma count_needed_rec: "1 < n \<Longrightarrow> count_needed_nonleaf_nodes n = (n + 1) div 2 + count_needed_nonleaf_nodes ((n + 1) div 2)"
  unfolding count_needed_nonleaf_nodes.simps[of n] half_up Let_def by simp

lemma nonleaf_root:
  "build_tree_non_leaf ls ns = Some r \<Longrightarrow> nonleaf_nodes r = sum_list (map nonleaf_nodes ns) + count_needed_nonleaf_nodes (length ns)"
proof (induction ls ns rule: build_tree_non_leaf.induct)
  case (1 ls ns)
  consider "ns = []" | n where "ns = [n]" | n1 n2 ns' where "ns = n1 # n2 # ns'" by (cases ns; cases "tl ns") auto
  then show ?case
  proof cases
    case 3
    have "build_tree_non_leaf ls (pair_layer ls ns) = Some r" using "1.prems" unfolding 3 non_leaf_simps .
    from "1.IH"[OF 3 refl this] have
      "nonleaf_nodes r = sum_list (map nonleaf_nodes (pair_layer ls ns)) + count_needed_nonleaf_nodes (length (pair_layer ls ns))" .
    then show ?thesis using count_needed_rec[of "length ns"] 3 nonleaf_pair[of ls ns] by (simp add: length_pair_layer)
  qed (use "1.prems" in \<open>auto simp: count_needed_nonleaf_nodes.simps[of "Suc 0"]\<close>)
qed

lemma nonleaf_leaf_layer:
  "i < length ls \<Longrightarrow> sum_list (map nonleaf_nodes (build_leaf_layer ls i)) = (length ls - i + 1) div 2 \<and>
    length (build_leaf_layer ls i) = (length ls - i + 1) div 2"
proof (induction ls i rule: build_leaf_layer.induct)
  case (1 ls i)
  consider "i + 2 < length ls" | "i + 2 = length ls" | "i + 1 = length ls" using "1.prems" by linarith
  then show ?case
  proof cases
    case 1
    then have "(length ls - i + 1) div 2 = Suc ((length ls - (i + 2) + 1) div 2)" by simp
    then show ?thesis using 1 "1.IH" by (simp add: build_leaf_layer.simps[of ls i] nonleaf_parent)
  qed (auto simp: build_leaf_layer.simps[of ls i] nonleaf_parent)
qed

section \<open>Properties\<close>

text \<open>
  C25: Inserting a segment \<open>[s, e)\<close> inside the interval of the tree, from the front or from the
  back, succeeds, keeps the leaves strictly ordered between the same ends, and changes the
  value of exactly the keys of the segment.
\<close>

theorem segment_insert:
  assumes "tree_ok lo hi t" "lo \<le> s" "s < e" "e \<le> hi"
  shows "(\<exists>t'. insert_front t s e v = Some t' \<and> tree_ok lo hi t' \<and>
      (\<forall>k. seg_val (m_leaves t') k = (if s \<le> k \<and> k < e then v else seg_val (m_leaves t) k))) \<and>
    (\<exists>t'. insert_back t s e v = Some t' \<and> tree_ok lo hi t' \<and>
      (\<forall>k. seg_val (m_leaves t') k = (if s \<le> k \<and> k < e then v else seg_val (m_leaves t) k)))"
  using insert_segment_ok[OF assms] unfolding insert_front_def insert_back_def by blast

theorem segment_insert_witness:
  "(\<exists>t'. insert_front (new_segment_tree 0 100 0) 10 20 (7 :: nat) = Some t' \<and> tree_ok 0 100 t' \<and>
      (\<forall>k. seg_val (m_leaves t') k = (if 10 \<le> k \<and> k < 20 then 7 else seg_val (m_leaves (new_segment_tree 0 100 0)) k))) \<and>
    (\<exists>t'. insert_back (new_segment_tree 0 100 0) 10 20 (7 :: nat) = Some t' \<and> tree_ok 0 100 t' \<and>
      (\<forall>k. seg_val (m_leaves t') k = (if 10 \<le> k \<and> k < 20 then 7 else seg_val (m_leaves (new_segment_tree 0 100 0)) k)))"
  by (rule segment_insert) (simp_all add: tree_ok_def leaves_ok_def new_segment_tree_def)

text \<open>
  C26: After \<open>build_tree\<close>, the search through the tree of non-leaf nodes finds, for every key of
  the interval, the leaf that starts the segment of the key and its value: the same leaf
  and value as the linear search over the leaves.
\<close>

theorem segment_search:
  assumes "tree_ok lo hi t" "lo \<le> k" "k < hi"
  shows "\<exists>i. search_tree (build_tree t) k = Some (i, seg_val (m_leaves t) k) \<and>
    i + 1 < length (m_leaves t) \<and> fst (m_leaves t ! i) \<le> k \<and> k < fst (m_leaves t ! (i + 1)) \<and>
    search t k = Some (i, seg_val (m_leaves t) k, fst (m_leaves t ! i))"
proof -
  from search_tree_ok[OF build_tree_ok[OF assms(1)] _ assms(2,3)] obtain i where
    i: "search_tree (build_tree t) k = Some (i, seg_val (m_leaves t) k)" "at_pos (m_leaves t) k i"
      "snd (m_leaves t ! i) = seg_val (m_leaves t) k" by (auto simp: build_tree_def)
  have s: "sorted_wrt (<) (map fst (m_leaves t))" using assms(1) by (simp add: tree_ok_def leaves_ok_def)
  from linear_search[OF s i(2)] have "search t k = Some (i, snd (m_leaves t ! i), fst (m_leaves t ! i))"
    using tree_keys[OF assms(1)] assms(2,3) by (simp add: search_def)
  then show ?thesis using i by (auto simp: at_pos_def)
qed

theorem segment_search_witness:
  "\<exists>i. search_tree (build_tree (new_segment_tree 0 100 True)) 42 = Some (i, seg_val (m_leaves (new_segment_tree 0 100 True)) 42) \<and>
    i + 1 < length (m_leaves (new_segment_tree 0 100 True)) \<and> fst (m_leaves (new_segment_tree 0 100 True) ! i) \<le> 42 \<and>
    42 < fst (m_leaves (new_segment_tree 0 100 True) ! (i + 1)) \<and>
    search (new_segment_tree 0 100 True) 42 = Some (i, seg_val (m_leaves (new_segment_tree 0 100 True)) 42, fst (m_leaves (new_segment_tree 0 100 True) ! i))"
  by (rule segment_search[of 0 100]) (simp_all add: tree_ok_def leaves_ok_def new_segment_tree_def)

text \<open>
  \<open>count_needed_nonleaf_nodes\<close> reserves exactly as many non-leaf nodes as the tree that
  \<open>build_tree\<close> makes over the leaves has, so the pool of the builder is never exhausted.
\<close>

theorem segment_pool:
  assumes "m_leaves t \<noteq> []" "1 < length (m_leaves t)"
  shows "\<exists>r. m_root_node (build_tree t) = Some r \<and> nonleaf_nodes r = count_needed_nonleaf_nodes (length (m_leaves t))"
proof -
  let ?ls = "m_leaves t"
  have "build_leaf_layer ?ls 0 \<noteq> []" by (subst build_leaf_layer.simps) simp
  with leaf_layer[of 0 ?ls] layer_root[of ?ls] assms(1) obtain r where r: "build_tree_non_leaf ?ls (build_leaf_layer ?ls 0) = Some r" by blast
  have "nonleaf_nodes r = (length ?ls + 1) div 2 + count_needed_nonleaf_nodes ((length ?ls + 1) div 2)"
    using nonleaf_root[OF r] nonleaf_leaf_layer[of 0 ?ls] assms(1) by simp
  then show ?thesis using r count_needed_rec[OF assms(2)] by (simp add: build_tree_def)
qed

theorem segment_pool_witness:
  "\<exists>r. m_root_node (build_tree (new_segment_tree 0 9 True)) = Some r \<and>
    nonleaf_nodes r = count_needed_nonleaf_nodes (length (m_leaves (new_segment_tree 0 9 True)))"
  by (rule segment_pool) (simp_all add: new_segment_tree_def)

end
