(* ===== verification/Efs_Common.thy ===== *)
theory Efs_Common
  imports Prelude "HOL-Library.Log_Nat"
begin

text \<open>
  The arithmetic helpers of \<open>src/src/efs-common.h\<close>: \<open>log2\<close> by multiplication with a de Bruijn
  constant and a table, and the alignment of file offsets to blocks.
\<close>

unbundle bit_operations_syntax

section \<open>Conversions between \<open>off_t\<close> and \<open>size_t\<close>\<close>

type_synonym size_t = "64 word"

definition to_size :: "off_t \<Rightarrow> size_t" where
  "to_size n = word_of_int n"

definition to_off :: "size_t \<Rightarrow> off_t" where
  "to_off w = sint w"

section \<open>The functions\<close>

definition log2_table :: "nat list" where
  "log2_table = [
     0, 58, 1, 59, 47, 53, 2, 60, 39, 48, 27, 54, 33, 42, 3, 61,
     51, 37, 40, 49, 18, 28, 20, 55, 30, 34, 11, 43, 14, 22, 4, 62,
     57, 46, 52, 38, 26, 32, 41, 50, 36, 17, 19, 29, 10, 13, 21, 56,
     45, 25, 31, 35, 16, 9, 12, 44, 24, 15, 8, 23, 7, 6, 5, 63]"

definition smear :: "size_t \<Rightarrow> nat \<Rightarrow> size_t" where
  "smear n s = n OR drop_bit s n"

definition log2 :: "size_t \<Rightarrow> nat option" where
  "log2 n = (if n = 0 then None else
     let n = smear n 1; n = smear n 2; n = smear n 4; n = smear n 8; n = smear n 16; n = smear n 32
     in Some (log2_table ! unat (drop_bit 58 (n * 0x03f6eaf2cd271461))))"

definition align :: "off_t \<Rightarrow> size_t \<Rightarrow> off_t" where
  "align n block_size = to_off (to_size n AND NOT (block_size - 1))"

definition xalign :: "off_t \<Rightarrow> size_t \<Rightarrow> off_t" where
  "xalign n block_size = align (to_off (to_size n + block_size)) block_size"

definition block_count :: "off_t \<Rightarrow> size_t \<Rightarrow> size_t \<Rightarrow> int option" where
  "block_count n sz block_size = do {
     let block_start = align n block_size;
     let block_end = align (to_off (to_size n + sz - 1)) block_size;
     k \<leftarrow> log2 block_size;
     Some (block_end div 2 ^ k - block_start div 2 ^ k + 1) }"

section \<open>Bits below the highest\<close>

definition smeared :: "size_t \<Rightarrow> nat \<Rightarrow> size_t \<Rightarrow> bool" where
  "smeared n s x \<longleftrightarrow> (\<forall>i. bit x i \<longleftrightarrow> (\<exists>j. i \<le> j \<and> j < i + s \<and> bit n j))"

lemma smeared_step: "smeared n s x \<Longrightarrow> smeared n (2 * s) (smear x s)"
proof -
  assume x: "smeared n s x"
  have "bit (smear x s) i \<longleftrightarrow> (\<exists>j. i \<le> j \<and> j < i + 2 * s \<and> bit n j)" for i
  proof -
    have "bit (smear x s) i \<longleftrightarrow> bit x i \<or> bit x (s + i)"
      by (simp add: smear_def bit_or_iff bit_drop_bit_eq)
    also have "\<dots> \<longleftrightarrow> (\<exists>j. i \<le> j \<and> j < i + s \<and> bit n j) \<or> (\<exists>j. s + i \<le> j \<and> j < s + i + s \<and> bit n j)"
      using x by (simp add: smeared_def)
    also have "\<dots> \<longleftrightarrow> (\<exists>j. i \<le> j \<and> j < i + 2 * s \<and> bit n j)"
    proof
      assume "\<exists>j. i \<le> j \<and> j < i + 2 * s \<and> bit n j"
      then obtain j where j: "i \<le> j" "j < i + 2 * s" "bit n j" by blast
      then show "(\<exists>j. i \<le> j \<and> j < i + s \<and> bit n j) \<or> (\<exists>j. s + i \<le> j \<and> j < s + i + s \<and> bit n j)"
        by (cases "j < i + s") auto
    next
      assume "(\<exists>j. i \<le> j \<and> j < i + s \<and> bit n j) \<or> (\<exists>j. s + i \<le> j \<and> j < s + i + s \<and> bit n j)"
      then show "\<exists>j. i \<le> j \<and> j < i + 2 * s \<and> bit n j"
      proof (elim disjE exE conjE)
        fix j assume "s + i \<le> j" "j < s + i + s" "bit n j"
        then show ?thesis by (intro exI[of _ j]) simp
      qed (auto intro: trans_less_add1)
    qed
    finally show ?thesis .
  qed
  then show ?thesis by (simp add: smeared_def)
qed

lemma word_highest_bit:
  assumes "2 ^ m \<le> unat n" "unat n < 2 ^ Suc m" "m < 64"
  shows "bit (n :: size_t) m" "bit n j \<Longrightarrow> j \<le> m"
proof -
  have u: "bit n j \<longleftrightarrow> bit (unat n) j" for j by (simp add: bit_unsigned_iff)
  have "unat n div 2 ^ m = 1" by (rule div_nat_eqI) (use assms in auto)
  then show "bit n m" unfolding u by (simp add: bit_iff_odd)
  assume b: "bit n j"
  show "j \<le> m"
  proof (rule ccontr)
    assume "\<not> j \<le> m"
    then have "unat n < 2 ^ j" using assms(2) by (meson Suc_leI less_le_trans not_le one_le_numeral power_increasing)
    then show False using b u by (simp add: bit_iff_odd)
  qed
qed

lemma smear_all:
  assumes "2 ^ m \<le> unat n" "unat n < 2 ^ Suc m" "m < 64"
  shows "smear (smear (smear (smear (smear (smear n 1) 2) 4) 8) 16) 32 = mask (Suc m)"
proof -
  have "smeared n 1 n" by (auto simp: smeared_def) (metis le_antisym less_Suc_eq_le)
  from smeared_step[OF smeared_step[OF smeared_step[OF smeared_step[OF smeared_step[OF smeared_step[OF this]]]]]]
  have s: "smeared n 64 (smear (smear (smear (smear (smear (smear n 1) 2) 4) 8) 16) 32)" by simp
  show ?thesis
  proof (rule bit_word_eqI)
    fix i assume i: "i < LENGTH(64)"
    have "(\<exists>j. i \<le> j \<and> j < i + 64 \<and> bit n j) \<longleftrightarrow> i \<le> m"
      using word_highest_bit[OF assms] assms(3) i by (metis add.commute le_trans less_add_same_cancel1 trans_less_add1 trans_less_add2 zero_less_numeral)
    then show "bit (smear (smear (smear (smear (smear (smear n 1) 2) 4) 8) 16) 32) i \<longleftrightarrow> bit (mask (Suc m) :: size_t) i"
      using s i by (simp add: smeared_def bit_mask_iff less_Suc_eq_le)
  qed
qed

lemma table_lookup: "\<forall>m \<in> set [0..<64]. log2_table ! unat (drop_bit 58 ((mask (Suc m) :: size_t) * 0x03f6eaf2cd271461)) = m"
  by code_simp


section \<open>Alignment\<close>

lemma and_not_low_mask:
  fixes n :: size_t
  assumes "k < 64"
  shows "n AND NOT (2 ^ k - 1) = push_bit k (drop_bit k n)"
  by (rule bit_word_eqI) (use assms in \<open>auto simp: bit_and_iff bit_not_iff bit_mask_iff bit_push_bit_iff bit_drop_bit_eq simp flip: mask_eq_exp_minus_1\<close>)

lemma to_size_unat: "0 \<le> n \<Longrightarrow> n < 2 ^ 64 \<Longrightarrow> uint (to_size n) = n"
  by (simp add: to_size_def uint_word_of_int take_bit_int_eq_self)

lemma to_off_small: "uint w < 2 ^ 63 \<Longrightarrow> to_off w = uint w"
  unfolding to_off_def sint_uint by (rule signed_take_bit_int_eq_self) (auto intro: order_trans[OF _ uint_ge_0])

lemma to_off_to_size: "- (2 ^ 63) \<le> n \<Longrightarrow> n < 2 ^ 63 \<Longrightarrow> to_off (to_size n) = n"
  unfolding to_off_def to_size_def sint_sbintrunc' by (rule signed_take_bit_int_eq_self) auto

lemma align_pow2:
  assumes "0 \<le> n" "n < 2 ^ 63" "k < 63"
  shows "align n (2 ^ k) = n - n mod 2 ^ k"
proof -
  have u: "uint (to_size n) = n" using assms by (simp add: to_size_unat)
  have le: "n div 2 ^ k * 2 ^ k \<le> n" by (simp flip: minus_mod_eq_div_mult)
  have "uint (to_size n AND NOT (2 ^ k - 1)) = n div 2 ^ k * 2 ^ k"
  proof -
    have "uint (push_bit k (drop_bit k (to_size n))) = take_bit 64 (n div 2 ^ k * 2 ^ k)"
      by (simp only: unsigned_push_bit_eq unsigned_drop_bit_eq u)
        (use assms in \<open>simp add: take_bit_int_eq_self push_bit_eq_mult drop_bit_eq_div\<close>)
    also have "\<dots> = n div 2 ^ k * 2 ^ k"
    proof (rule take_bit_int_eq_self)
      show "n div 2 ^ k * 2 ^ k < 2 ^ 64" using assms le by simp
    qed (use assms in \<open>simp add: pos_imp_zdiv_nonneg_iff\<close>)
    finally show ?thesis using and_not_low_mask[of k "to_size n"] assms by simp
  qed
  then show ?thesis unfolding align_def using assms le by (simp add: to_off_small minus_mod_eq_div_mult)
qed


lemma xalign_pow2:
  assumes "0 \<le> n" "n + 2 ^ k < 2 ^ 63" "k < 63"
  shows "xalign n (2 ^ k) = n - n mod 2 ^ k + 2 ^ k"
proof -
  have "to_size n + 2 ^ k = to_size (n + 2 ^ k)" by (simp add: to_size_def)
  moreover have "- (2 ^ 63) \<le> n + 2 ^ k" using add_nonneg_nonneg[OF assms(1), of "2 ^ k"] by simp
  ultimately have "to_off (to_size n + 2 ^ k) = n + 2 ^ k" using to_off_to_size[of "n + 2 ^ k"] assms by simp
  then show ?thesis unfolding xalign_def using align_pow2[of "n + 2 ^ k" k] assms by simp
qed

lemma log2_floor:
  assumes "2 ^ m \<le> unat n" "unat n < 2 ^ Suc m"
  shows "log2 n = Some m"
proof -
  have "(2 :: nat) ^ m < 2 ^ 64" using assms(1) unsigned_less[of n, where ?'a = nat] by simp
  then have m: "m < 64" using power_less_imp_less_exp[of "2 :: nat" m 64] by simp
  have "n \<noteq> 0" using assms(1) by (auto simp: not_le)
  then show ?thesis unfolding log2_def Let_def smear_all[OF assms m] using table_lookup m by simp
qed

section \<open>Properties\<close>

text \<open>
  C28: \<open>log2\<close>, which spreads the highest bit downwards and looks the product with a de Bruijn
  constant up in a table, returns the position of the highest bit of every non-zero
  64-bit number.
\<close>

theorem log2_correct:
  assumes "n \<noteq> 0"
  shows "\<exists>m. log2 n = Some m \<and> m < 64 \<and> 2 ^ m \<le> unat n \<and> unat n < 2 ^ Suc m"
proof -
  have pos: "0 < unat n" using assms by (simp add: unat_gt_0)
  define m where "m = floorlog 2 (unat n) - 1"
  have "floorlog 2 (unat n) \<noteq> 0" using pos by (simp add: floorlog_eq_zero_iff)
  then have "Suc m = floorlog 2 (unat n)" by (simp add: m_def)
  then have "2 ^ m \<le> unat n" "unat n < 2 ^ Suc m" using floorlog_bounds[of "unat n" 2] pos unfolding m_def by auto
  moreover have "m < 64"
  proof -
    have "(2 :: nat) ^ m < 2 ^ 64" using calculation(1) unsigned_less[of n, where ?'a = nat] by simp
    then show ?thesis using power_less_imp_less_exp[of "2 :: nat" m 64] by simp
  qed
  ultimately show ?thesis using log2_floor by blast
qed

theorem log2_correct_witness: "\<exists>m. log2 4096 = Some m \<and> m < 64 \<and> 2 ^ m \<le> unat (4096 :: size_t) \<and> unat (4096 :: size_t) < 2 ^ Suc m"
  by (rule log2_correct) simp

text \<open>
  For a power of two as block size and an offset that does not overflow, \<open>align\<close> is the
  start of the block of the offset, and \<open>xalign\<close> the start of the next block: the end of
  the block, also for an offset that is already aligned.
\<close>

theorem align_blocks:
  assumes "0 \<le> n" "n + 2 ^ k < 2 ^ 63" "k < 63"
  shows "align n (2 ^ k) \<le> n \<and> n < xalign n (2 ^ k) \<and> xalign n (2 ^ k) = align n (2 ^ k) + 2 ^ k \<and> 2 ^ k dvd align n (2 ^ k)"
proof -
  have "(0 :: int) < 2 ^ k" by simp
  then have "n < 2 ^ 63" "n mod 2 ^ k < 2 ^ k" using assms(2) pos_mod_bound[of "2 ^ k" n] by linarith+
  moreover have "2 ^ k dvd n - n mod 2 ^ k" by (simp add: minus_mod_eq_mult_div)
  moreover have "0 \<le> n mod 2 ^ k" by simp
  ultimately show ?thesis using assms xalign_pow2[OF assms] align_pow2[of n k] by auto
qed

theorem align_blocks_witness:
  "align 5000 (2 ^ 12) \<le> 5000 \<and> 5000 < xalign 5000 (2 ^ 12) \<and> xalign 5000 (2 ^ 12) = align 5000 (2 ^ 12) + 2 ^ 12 \<and> 2 ^ 12 dvd align 5000 (2 ^ 12)"
  by (rule align_blocks) simp_all

end
