(* ===== verification/Buffers.thy ===== *)
theory Buffers
  imports Prelude
begin

text \<open>
  Memory and data buffers: the copy routine of
  \<open>src/src/backends/nvram-nvml/fuse_buf_copy_pmem.cpp\<close>, which moves bytes between vectors of
  buffers in memory and behind file descriptors.

  Memory is a set of blocks of bytes; a pointer is the address of a block and a position in
  it, and an access outside a block is \<open>None\<close>.  The system calls are a parameter, a record
  of functions on the state \<open>'w\<close> of the world: their result is an error number or the bytes
  read or the number of bytes written.  Sizes are natural numbers: no buffer is larger than
  the address space.
\<close>

type_synonym byte = "8 word"
type_synonym ptr = "addr \<times> nat"

section \<open>Memory\<close>

record block =
  blk_len :: nat
  blk_byte :: "nat \<Rightarrow> byte"

type_synonym memory = "addr \<rightharpoonup> block"

definition mem_read :: "memory \<Rightarrow> ptr \<Rightarrow> nat \<Rightarrow> byte list option" where
  "mem_read m p len = (case m (fst p) of
       None \<Rightarrow> None
     | Some b \<Rightarrow> if snd p + len \<le> blk_len b then Some (map (blk_byte b) [snd p..<snd p + len]) else None)"

definition blk_write :: "block \<Rightarrow> nat \<Rightarrow> byte list \<Rightarrow> block" where
  "blk_write b off bs = b\<lparr>blk_byte := (\<lambda>i. if off \<le> i \<and> i < off + length bs then bs ! (i - off) else blk_byte b i)\<rparr>"

definition mem_write :: "memory \<Rightarrow> ptr \<Rightarrow> byte list \<Rightarrow> memory option" where
  "mem_write m p bs = (case m (fst p) of
       None \<Rightarrow> None
     | Some b \<Rightarrow> if snd p + length bs \<le> blk_len b then Some (m(fst p \<mapsto> blk_write b (snd p) bs)) else None)"

definition ptr_add :: "ptr \<Rightarrow> nat \<Rightarrow> ptr" where
  "ptr_add p n = (fst p, snd p + n)"

section \<open>Buffers\<close>

record fuse_buf =
  fb_size :: nat
  fb_is_fd :: bool
  fb_fd_seek :: bool
  fb_fd_retry :: bool
  fb_mem :: "ptr option"
  fb_fd :: int
  fb_pos :: off_t

record fuse_bufvec =
  bv_idx :: nat
  bv_off :: nat
  bv_buf :: "fuse_buf list"

record copy_flags =
  cf_no_splice :: bool
  cf_force_splice :: bool

record 'w syscalls =
  sc_read :: "'w \<Rightarrow> int \<Rightarrow> nat \<Rightarrow> off_t option \<Rightarrow> (int + byte list) \<times> 'w"
  sc_write :: "'w \<Rightarrow> int \<Rightarrow> byte list \<Rightarrow> off_t option \<Rightarrow> (int + nat) \<times> 'w"
  sc_splice :: "'w \<Rightarrow> int \<Rightarrow> off_t option \<Rightarrow> int \<Rightarrow> off_t option \<Rightarrow> nat \<Rightarrow> (int + nat) \<times> 'w"

record 'w machine =
  mc_world :: 'w
  mc_mem :: memory

definition SIZE_MAX :: nat where
  "SIZE_MAX = 2 ^ 64 - 1"

definition EINVAL :: int where
  "EINVAL = 22"

definition fuse_buf_size :: "fuse_bufvec \<Rightarrow> nat" where
  "fuse_buf_size bufv = fold (\<lambda>b size. if fb_size b = SIZE_MAX then SIZE_MAX else (size + fb_size b) mod 2 ^ 64) (bv_buf bufv) 0"

definition min_size :: "nat \<Rightarrow> nat \<Rightarrow> nat" where
  "min_size s1 s2 = (if s1 < s2 then s1 else s2)"

definition seek_pos :: "fuse_buf \<Rightarrow> nat \<Rightarrow> off_t option" where
  "seek_pos b off = (if fb_fd_seek b then Some (fb_pos b + int off) else None)"

section \<open>Copying one buffer\<close>

text \<open>The loops of \<open>fuse_buf_write\<close> and \<open>fuse_buf_read\<close>; \<open>copied\<close> is what has been copied so far.\<close>

partial_function (option) fuse_buf_write ::
  "'w syscalls \<Rightarrow> 'w machine \<Rightarrow> fuse_buf \<Rightarrow> nat \<Rightarrow> fuse_buf \<Rightarrow> nat \<Rightarrow> nat \<Rightarrow> nat \<Rightarrow> (int \<times> 'w machine) option" where
  "fuse_buf_write sc s dst dst_off src src_off len copied = (if len = 0 then Some (int copied, s) else do {
     p \<leftarrow> fb_mem src;
     bs \<leftarrow> mem_read (mc_mem s) (ptr_add p src_off) len;
     let (res, w) = sc_write sc (mc_world s) (fb_fd dst) bs (seek_pos dst dst_off);
     let s = s\<lparr>mc_world := w\<rparr>;
     case res of
       Inl errno \<Rightarrow> Some (if copied = 0 then - errno else int copied, s)
     | Inr n \<Rightarrow>
         if n = 0 then Some (int copied, s)
         else if \<not> fb_fd_retry dst then Some (int (copied + n), s)
         else fuse_buf_write sc s dst (dst_off + n) src (src_off + n) (len - n) (copied + n) })"

partial_function (option) fuse_buf_read ::
  "'w syscalls \<Rightarrow> 'w machine \<Rightarrow> fuse_buf \<Rightarrow> nat \<Rightarrow> fuse_buf \<Rightarrow> nat \<Rightarrow> nat \<Rightarrow> nat \<Rightarrow> (int \<times> 'w machine) option" where
  "fuse_buf_read sc s dst dst_off src src_off len copied = (if len = 0 then Some (int copied, s) else do {
     p \<leftarrow> fb_mem dst;
     let (res, w) = sc_read sc (mc_world s) (fb_fd src) len (seek_pos src src_off);
     let s = s\<lparr>mc_world := w\<rparr>;
     case res of
       Inl errno \<Rightarrow> Some (if copied = 0 then - errno else int copied, s)
     | Inr bs \<Rightarrow> do {
         m \<leftarrow> mem_write (mc_mem s) (ptr_add p dst_off) bs;
         let s = s\<lparr>mc_mem := m\<rparr>;
         let n = length bs;
         if n = 0 then Some (int copied, s)
         else if \<not> fb_fd_retry src then Some (int (copied + n), s)
         else fuse_buf_read sc s dst (dst_off + n) src (src_off + n) (len - n) (copied + n) } })"

declare fuse_buf_write.simps [code] fuse_buf_read.simps [code]

text \<open>
  The transfer between two descriptors through a local array of 4096 bytes, which is the
  block at the address \<open>tmp\<close> for the duration of the call.
\<close>

definition tmp_buf :: "addr \<Rightarrow> fuse_buf" where
  "tmp_buf tmp = \<lparr>fb_size = 4096, fb_is_fd = False, fb_fd_seek = False, fb_fd_retry = False, fb_mem = Some (tmp, 0), fb_fd = 0, fb_pos = 0\<rparr>"

partial_function (option) fd_to_fd_loop ::
  "'w syscalls \<Rightarrow> addr \<Rightarrow> 'w machine \<Rightarrow> fuse_buf \<Rightarrow> nat \<Rightarrow> fuse_buf \<Rightarrow> nat \<Rightarrow> nat \<Rightarrow> nat \<Rightarrow> (int \<times> 'w machine) option" where
  "fd_to_fd_loop sc tmp s dst dst_off src src_off len copied = (if len = 0 then Some (int copied, s) else do {
     let this_len = min_size (fb_size (tmp_buf tmp)) len;
     (res, s) \<leftarrow> fuse_buf_read sc s (tmp_buf tmp) 0 src src_off this_len 0;
     if res < 0 then Some (if copied = 0 then res else int copied, s)
     else if res = 0 then Some (int copied, s)
     else do {
       (res, s) \<leftarrow> fuse_buf_write sc s dst dst_off (tmp_buf tmp) 0 (nat res) 0;
       if res < 0 then Some (if copied = 0 then res else int copied, s)
       else if res = 0 then Some (int copied, s)
       else do {
         let n = nat res;
         let copied = copied + n;
         if n < this_len then Some (int copied, s)
         else fd_to_fd_loop sc tmp s dst (dst_off + n) src (src_off + n) (len - n) copied } } })"

declare fd_to_fd_loop.simps [code]

definition fuse_buf_fd_to_fd ::
  "'w syscalls \<Rightarrow> addr \<Rightarrow> 'w machine \<Rightarrow> fuse_buf \<Rightarrow> nat \<Rightarrow> fuse_buf \<Rightarrow> nat \<Rightarrow> nat \<Rightarrow> (int \<times> 'w machine) option" where
  "fuse_buf_fd_to_fd sc tmp s dst dst_off src src_off len = do {
     let old = mc_mem s tmp;
     let s = s\<lparr>mc_mem := (mc_mem s)(tmp \<mapsto> \<lparr>blk_len = 4096, blk_byte = (\<lambda>_. 0)\<rparr>)\<rparr>;
     (n, s) \<leftarrow> fd_to_fd_loop sc tmp s dst dst_off src src_off len 0;
     Some (n, s\<lparr>mc_mem := (mc_mem s)(tmp := old)\<rparr>) }"

text \<open>
  \<open>splice\<close> moves the positions it is given pointers to, so an explicit position advances by
  what was transferred.
\<close>

partial_function (option) splice_loop ::
  "'w syscalls \<Rightarrow> addr \<Rightarrow> 'w machine \<Rightarrow> copy_flags \<Rightarrow> fuse_buf \<Rightarrow> nat \<Rightarrow> fuse_buf \<Rightarrow> nat \<Rightarrow> nat \<Rightarrow> nat \<Rightarrow> (int \<times> 'w machine) option" where
  "splice_loop sc tmp s flags dst dst_off src src_off len copied = (if len = 0 then Some (int copied, s) else
     (let (res, w) = sc_splice sc (mc_world s) (fb_fd src) (seek_pos src (src_off + copied)) (fb_fd dst) (seek_pos dst (dst_off + copied)) len;
          s = s\<lparr>mc_world := w\<rparr>
      in case res of
        Inl errno \<Rightarrow>
          if copied \<noteq> 0 then Some (int copied, s)
          else if errno \<noteq> EINVAL \<or> cf_force_splice flags then Some (- errno, s)
          else fuse_buf_fd_to_fd sc tmp s dst dst_off src src_off len
      | Inr n \<Rightarrow>
          if n = 0 then Some (int copied, s)
          else if \<not> fb_fd_retry src \<and> \<not> fb_fd_retry dst then Some (int (copied + n), s)
          else splice_loop sc tmp s flags dst dst_off src src_off (len - n) (copied + n)))"

declare splice_loop.simps [code]

definition fuse_buf_splice ::
  "bool \<Rightarrow> 'w syscalls \<Rightarrow> addr \<Rightarrow> 'w machine \<Rightarrow> copy_flags \<Rightarrow> fuse_buf \<Rightarrow> nat \<Rightarrow> fuse_buf \<Rightarrow> nat \<Rightarrow> nat \<Rightarrow> (int \<times> 'w machine) option" where
  "fuse_buf_splice have_splice sc tmp s flags dst dst_off src src_off len =
     (if have_splice then splice_loop sc tmp s flags dst dst_off src src_off len 0
      else fuse_buf_fd_to_fd sc tmp s dst dst_off src src_off len)"

text \<open>
  Between two memory buffers \<open>pmem_memcpy_nodrain\<close> and \<open>pmem_memmove_nodrain\<close> both leave the
  source bytes in the destination.
\<close>

definition fuse_buf_copy_one ::
  "bool \<Rightarrow> 'w syscalls \<Rightarrow> addr \<Rightarrow> 'w machine \<Rightarrow> copy_flags \<Rightarrow> fuse_buf \<Rightarrow> nat \<Rightarrow> fuse_buf \<Rightarrow> nat \<Rightarrow> nat \<Rightarrow> (int \<times> 'w machine) option" where
  "fuse_buf_copy_one have_splice sc tmp s flags dst dst_off src src_off len =
     (if \<not> fb_is_fd src \<and> \<not> fb_is_fd dst then do {
        dp \<leftarrow> fb_mem dst;
        sp \<leftarrow> fb_mem src;
        let dstmem = ptr_add dp dst_off;
        let srcmem = ptr_add sp src_off;
        if dstmem \<noteq> srcmem then do {
          bs \<leftarrow> mem_read (mc_mem s) srcmem len;
          m \<leftarrow> mem_write (mc_mem s) dstmem bs;
          Some (int len, s\<lparr>mc_mem := m\<rparr>) }
        else Some (int len, s) }
      else if \<not> fb_is_fd src then fuse_buf_write sc s dst dst_off src src_off len 0
      else if \<not> fb_is_fd dst then fuse_buf_read sc s dst dst_off src src_off len 0
      else if cf_no_splice flags then fuse_buf_fd_to_fd sc tmp s dst dst_off src src_off len
      else fuse_buf_splice have_splice sc tmp s flags dst dst_off src src_off len)"

section \<open>Copying vectors of buffers\<close>

definition fuse_bufvec_current :: "fuse_bufvec \<Rightarrow> fuse_buf option" where
  "fuse_bufvec_current bufv = (if bv_idx bufv < length (bv_buf bufv) then Some (bv_buf bufv ! bv_idx bufv) else None)"

definition fuse_bufvec_advance :: "fuse_bufvec \<Rightarrow> nat \<Rightarrow> (bool \<times> fuse_bufvec) option" where
  "fuse_bufvec_advance bufv len = do {
     buf \<leftarrow> fuse_bufvec_current bufv;
     let off = bv_off bufv + len;
     if \<not> off \<le> fb_size buf then None
     else if off = fb_size buf then
       (let idx = bv_idx bufv + 1
        in if idx = length (bv_buf bufv) then Some (False, bufv\<lparr>bv_idx := idx, bv_off := off\<rparr>)
           else Some (True, bufv\<lparr>bv_idx := idx, bv_off := 0\<rparr>))
     else Some (True, bufv\<lparr>bv_off := off\<rparr>) }"

text \<open>The loop of \<open>fuse_buf_copy_pmem\<close>: the result, the two vectors and the machine.\<close>

partial_function (option) copy_loop ::
  "bool \<Rightarrow> 'w syscalls \<Rightarrow> addr \<Rightarrow> copy_flags \<Rightarrow> 'w machine \<Rightarrow> fuse_bufvec \<Rightarrow> fuse_bufvec \<Rightarrow> nat \<Rightarrow> (int \<times> fuse_bufvec \<times> fuse_bufvec \<times> 'w machine) option" where
  "copy_loop have_splice sc tmp flags s dstv srcv copied =
     (case (fuse_bufvec_current srcv, fuse_bufvec_current dstv) of
        (Some src, Some dst) \<Rightarrow> do {
          let src_len = fb_size src - bv_off srcv;
          let dst_len = fb_size dst - bv_off dstv;
          let len = min_size src_len dst_len;
          (res, s) \<leftarrow> fuse_buf_copy_one have_splice sc tmp s flags dst (bv_off dstv) src (bv_off srcv) len;
          if res < 0 then Some (if copied = 0 then res else int copied, dstv, srcv, s)
          else do {
            let n = nat res;
            let copied = copied + n;
            (more, srcv) \<leftarrow> fuse_bufvec_advance srcv n;
            if \<not> more then Some (int copied, dstv, srcv, s)
            else do {
              (more, dstv) \<leftarrow> fuse_bufvec_advance dstv n;
              if \<not> more then Some (int copied, dstv, srcv, s)
              else if n < len then Some (int copied, dstv, srcv, s)
              else copy_loop have_splice sc tmp flags s dstv srcv copied } } }
      | _ \<Rightarrow> Some (int copied, dstv, srcv, s))"

declare copy_loop.simps [code]

text \<open>\<open>same\<close> tells whether the two pointers point to the same vector.\<close>

definition fuse_buf_copy_pmem ::
  "bool \<Rightarrow> bool \<Rightarrow> 'w syscalls \<Rightarrow> addr \<Rightarrow> 'w machine \<Rightarrow> fuse_bufvec \<Rightarrow> fuse_bufvec \<Rightarrow> copy_flags \<Rightarrow> (int \<times> fuse_bufvec \<times> fuse_bufvec \<times> 'w machine) option" where
  "fuse_buf_copy_pmem same have_splice sc tmp s dstv srcv flags =
     (if same then Some (int (fuse_buf_size dstv), dstv, srcv, s)
      else copy_loop have_splice sc tmp flags s dstv srcv 0)"

section \<open>Memory\<close>

lemma mem_read_Some:
  "mem_read m p len = Some bs \<longleftrightarrow> (\<exists>b. m (fst p) = Some b \<and> snd p + len \<le> blk_len b \<and> bs = map (blk_byte b) [snd p..<snd p + len])"
  by (auto simp: mem_read_def split: option.splits)

lemma mem_read_length: "mem_read m p len = Some bs \<Longrightarrow> length bs = len"
  by (auto simp: mem_read_Some)

lemma mem_read_part:
  assumes "mem_read m p len = Some bs" "k + n \<le> len"
  shows "mem_read m (ptr_add p k) n = Some (take n (drop k bs))"
  using assms by (auto simp: mem_read_Some ptr_add_def take_map drop_map intro!: nth_equalityI)

lemma mem_read_other: "a \<noteq> fst p \<Longrightarrow> mem_read (m(a := b)) p len = mem_read m p len"
  by (simp add: mem_read_def)

lemma blk_write_len [simp]: "blk_len (blk_write b off bs) = blk_len b"
  by (simp add: blk_write_def)

lemma blk_write_nil [simp]: "blk_write b off [] = b"
  by (cases b) (auto simp: blk_write_def fun_eq_iff)

lemma blk_write_append: "blk_write (blk_write b off xs) (off + length xs) ys = blk_write b off (xs @ ys)"
  by (cases b) (auto simp: blk_write_def fun_eq_iff nth_append)

lemma blk_write_read:
  "map (blk_byte (blk_write b off bs)) [off..<off + length bs] = bs"
  by (auto simp: blk_write_def intro!: nth_equalityI)

section \<open>Copying from memory to memory\<close>

definition buf_bytes :: "memory \<Rightarrow> fuse_buf \<Rightarrow> byte list" where
  "buf_bytes m b = (case fb_mem b of None \<Rightarrow> [] | Some p \<Rightarrow> (case mem_read m p (fb_size b) of None \<Rightarrow> [] | Some bs \<Rightarrow> bs))"

definition mem_buf :: "memory \<Rightarrow> addr set \<Rightarrow> fuse_buf \<Rightarrow> bool" where
  "mem_buf m A b \<longleftrightarrow> \<not> fb_is_fd b \<and> (\<exists>p. fb_mem b = Some p \<and> fst p \<notin> A \<and> mem_read m p (fb_size b) \<noteq> None)"

text \<open>The bytes a source vector still has to give.\<close>

definition src_bytes :: "memory \<Rightarrow> fuse_bufvec \<Rightarrow> byte list" where
  "src_bytes m v = (if bv_idx v < length (bv_buf v) then drop (bv_off v) (concat (map (buf_bytes m) (drop (bv_idx v) (bv_buf v)))) else [])"

definition mem_vec :: "memory \<Rightarrow> addr set \<Rightarrow> fuse_bufvec \<Rightarrow> bool" where
  "mem_vec m A v \<longleftrightarrow> (\<forall>b \<in> set (drop (bv_idx v) (bv_buf v)). mem_buf m A b) \<and>
     (bv_idx v < length (bv_buf v) \<longrightarrow> bv_off v \<le> fb_size (bv_buf v ! bv_idx v))"

lemma mem_buf_bytes:
  assumes "mem_buf m A b"
  obtains p where "fb_mem b = Some p" "mem_read m p (fb_size b) = Some (buf_bytes m b)" "fst p \<notin> A" "\<not> fb_is_fd b" "length (buf_bytes m b) = fb_size b"
  using assms mem_read_length by (fastforce simp: mem_buf_def buf_bytes_def)

lemma mem_buf_write: "mem_buf m A b \<Longrightarrow> a \<in> A \<Longrightarrow> mem_buf (m(a := x)) A b \<and> buf_bytes (m(a := x)) b = buf_bytes m b"
proof -
  assume b: "mem_buf m A b" and a: "a \<in> A"
  from b obtain p where p: "fb_mem b = Some p" "fst p \<notin> A" by (auto simp: mem_buf_def)
  then have "mem_read (m(a := x)) p (fb_size b) = mem_read m p (fb_size b)" using a by (intro mem_read_other) auto
  then show ?thesis using b p by (auto simp: mem_buf_def buf_bytes_def)
qed

lemma mem_vec_write: "mem_vec m A v \<Longrightarrow> a \<in> A \<Longrightarrow> mem_vec (m(a := x)) A v \<and> src_bytes (m(a := x)) v = src_bytes m v"
proof -
  assume v: "mem_vec m A v" and a: "a \<in> A"
  then have "\<forall>b \<in> set (drop (bv_idx v) (bv_buf v)). mem_buf (m(a := x)) A b \<and> buf_bytes (m(a := x)) b = buf_bytes m b"
    using mem_buf_write[OF _ a, of m] by (simp add: mem_vec_def)
  then show ?thesis using v by (auto simp: mem_vec_def src_bytes_def cong: map_cong)
qed

lemma src_bytes_split:
  assumes "mem_vec m A v" "bv_idx v < length (bv_buf v)"
  shows "src_bytes m v = drop (bv_off v) (buf_bytes m (bv_buf v ! bv_idx v)) @ concat (map (buf_bytes m) (drop (Suc (bv_idx v)) (bv_buf v)))"
proof -
  have d: "drop (bv_idx v) (bv_buf v) = bv_buf v ! bv_idx v # drop (Suc (bv_idx v)) (bv_buf v)" using assms(2) by (simp add: Cons_nth_drop_Suc)
  then have "mem_buf m A (bv_buf v ! bv_idx v)" using assms(1) by (simp add: mem_vec_def)
  then show ?thesis using assms d by (auto simp: src_bytes_def mem_vec_def elim!: mem_buf_bytes)
qed

lemma advance_inside:
  assumes "bv_idx v < length (bv_buf v)" "bv_off v + n < fb_size (bv_buf v ! bv_idx v)"
  shows "fuse_bufvec_advance v n = Some (True, v\<lparr>bv_off := bv_off v + n\<rparr>)"
  using assms by (simp add: fuse_bufvec_advance_def fuse_bufvec_current_def)

lemma advance_end:
  assumes "bv_idx v < length (bv_buf v)" "bv_off v + n = fb_size (bv_buf v ! bv_idx v)"
  shows "fuse_bufvec_advance v n = Some (if Suc (bv_idx v) = length (bv_buf v)
    then (False, v\<lparr>bv_idx := Suc (bv_idx v), bv_off := bv_off v + n\<rparr>) else (True, v\<lparr>bv_idx := Suc (bv_idx v), bv_off := 0\<rparr>))"
  using assms by (simp add: fuse_bufvec_advance_def fuse_bufvec_current_def)

lemma copy_one_mem:
  assumes v: "mem_vec (mc_mem s) A v" "bv_idx v < length (bv_buf v)" "bv_off v + n \<le> fb_size (bv_buf v ! bv_idx v)"
    and d: "\<not> fb_is_fd db" "fb_mem db = Some (a, k)" "mc_mem s a = Some blk" "k + o1 + n \<le> blk_len blk" "a \<in> A"
  shows "fuse_buf_copy_one hs sc tmp s flags db o1 (bv_buf v ! bv_idx v) (bv_off v) n =
    Some (int n, s\<lparr>mc_mem := (mc_mem s)(a \<mapsto> blk_write blk (k + o1) (take n (src_bytes (mc_mem s) v)))\<rparr>)"
proof -
  let ?b = "bv_buf v ! bv_idx v" let ?bs = "take n (drop (bv_off v) (buf_bytes (mc_mem s) ?b))"
  have "mem_buf (mc_mem s) A ?b" using v by (simp add: mem_vec_def Cons_nth_drop_Suc[symmetric])
  then obtain p where p: "fb_mem ?b = Some p" "mem_read (mc_mem s) p (fb_size ?b) = Some (buf_bytes (mc_mem s) ?b)"
    "fst p \<notin> A" "\<not> fb_is_fd ?b" "length (buf_bytes (mc_mem s) ?b) = fb_size ?b" by (rule mem_buf_bytes)
  have r: "mem_read (mc_mem s) (ptr_add p (bv_off v)) n = Some ?bs" by (rule mem_read_part[OF p(2) v(3)])
  have l: "length ?bs = n" using p(5) v(3) by simp
  have w: "mem_write (mc_mem s) (ptr_add (a, k) o1) ?bs = Some ((mc_mem s)(a \<mapsto> blk_write blk (k + o1) ?bs))"
    using d l by (simp add: mem_write_def ptr_add_def)
  have "take n (src_bytes (mc_mem s) v) = ?bs" using src_bytes_split[OF v(1,2)] v(3) p(5) by simp
  moreover have "ptr_add (a, k) o1 \<noteq> ptr_add p (bv_off v)" using p(3) d(5) by (auto simp: ptr_add_def)
  ultimately show ?thesis using p(1,4) d(1,2) r w by (simp add: fuse_buf_copy_one_def)
qed

text \<open>A destination vector with one memory buffer.\<close>

definition one_buf :: "fuse_buf \<Rightarrow> nat \<Rightarrow> fuse_bufvec" where
  "one_buf db o1 = \<lparr>bv_idx = 0, bv_off = o1, bv_buf = [db]\<rparr>"

lemma copy_loop_mem:
  assumes "mem_vec (mc_mem s) A v" "\<not> fb_is_fd db" "fb_mem db = Some (a, k)" "mc_mem s a = Some blk" "o1 \<le> fb_size db"
    "n = min (length (src_bytes (mc_mem s) v)) (fb_size db - o1)" "k + o1 + n \<le> blk_len blk" and A: "a \<in> A"
  shows "\<exists>dv v'. copy_loop hs sc tmp flags s (one_buf db o1) v copied =
      Some (int (copied + n), dv, v', s\<lparr>mc_mem := (mc_mem s)(a \<mapsto> blk_write blk (k + o1) (take n (src_bytes (mc_mem s) v)))\<rparr>) \<and>
    mem_vec (mc_mem s) A v' \<and> src_bytes (mc_mem s) v' = drop n (src_bytes (mc_mem s) v)"
  using assms(1-7)
proof (induction "length (bv_buf v) - bv_idx v" arbitrary: s v o1 copied blk n)
  case 0
  then have "src_bytes (mc_mem s) v = []" "fuse_bufvec_current v = None" by (auto simp: src_bytes_def fuse_bufvec_current_def)
  then show ?case using 0 by (subst copy_loop.simps) (simp add: fun_upd_idem)
next
  case (Suc r)
  let ?m = "mc_mem s" let ?b = "bv_buf v ! bv_idx v" let ?S = "src_bytes ?m v"
  have i: "bv_idx v < length (bv_buf v)" using Suc.hyps(2) by simp
  have off: "bv_off v \<le> fb_size ?b" using Suc.prems(1) i by (simp add: mem_vec_def)
  have "mem_buf ?m A ?b" using Suc.prems(1) i by (simp add: mem_vec_def Cons_nth_drop_Suc[symmetric])
  then have lb: "length (buf_bytes ?m ?b) = fb_size ?b" by (rule mem_buf_bytes)
  let ?rest = "concat (map (buf_bytes ?m) (drop (Suc (bv_idx v)) (bv_buf v)))"
  have S: "?S = drop (bv_off v) (buf_bytes ?m ?b) @ ?rest" by (rule src_bytes_split[OF Suc.prems(1) i])
  have cur: "fuse_bufvec_current v = Some ?b" "fuse_bufvec_current (one_buf db o1) = Some db" "bv_off (one_buf db o1) = o1"
    using i by (simp_all add: fuse_bufvec_current_def one_buf_def)
  define sl where "sl = fb_size ?b - bv_off v"
  define dl where "dl = fb_size db - o1"
  define len where "len = min_size sl dl"
  have lS: "length ?S = sl + length ?rest" using S lb by (simp add: sl_def)
  have nm: "n = min (sl + length ?rest) dl" using Suc.prems(6) lS by (simp add: dl_def)
  have sb: "bv_off v + sl = fb_size ?b" using off by (simp add: sl_def)
  have len: "len \<le> n" "bv_off v + len \<le> fb_size ?b" "k + o1 + len \<le> blk_len blk" "len = min sl dl"
    using nm sb Suc.prems(7) by (auto simp: len_def min_size_def)
  from copy_one_mem[OF Suc.prems(1) i len(2) Suc.prems(2-4) len(3) A, of hs sc tmp flags]
  have one: "fuse_buf_copy_one hs sc tmp s flags db o1 ?b (bv_off v) len =
    Some (int len, s\<lparr>mc_mem := ?m(a \<mapsto> blk_write blk (k + o1) (take len ?S))\<rparr>)" .
  let ?s = "s\<lparr>mc_mem := ?m(a \<mapsto> blk_write blk (k + o1) (take len ?S))\<rparr>"
  show ?case
  proof (cases "sl \<le> dl")
    case False
    then have l: "len = dl" "n = dl" "bv_off v + len < fb_size ?b" using len nm sb by auto
    have "fuse_bufvec_advance (one_buf db o1) len = Some (False, (one_buf db o1)\<lparr>bv_idx := 1, bv_off := o1 + len\<rparr>)"
      using advance_end[of "one_buf db o1" len] l(1) Suc.prems(5) by (simp add: one_buf_def dl_def)
    then have run: "copy_loop hs sc tmp flags s (one_buf db o1) v copied =
        Some (int (copied + len), (one_buf db o1)\<lparr>bv_idx := 1, bv_off := o1 + len\<rparr>, v\<lparr>bv_off := bv_off v + len\<rparr>, ?s)"
      using one advance_inside[OF i l(3)] cur by (subst copy_loop.simps) (simp add: Let_def len_def[symmetric] sl_def[symmetric] dl_def[symmetric])
    have v': "mem_vec ?m A (v\<lparr>bv_off := bv_off v + len\<rparr>)" using Suc.prems(1) i len(2) by (simp add: mem_vec_def)
    have "src_bytes ?m (v\<lparr>bv_off := bv_off v + len\<rparr>) = drop len ?S"
      using src_bytes_split[OF v'] i S lb l(3) by (simp add: add.commute)
    then show ?thesis using run v' l(1,2) by auto
  next
    case True
    then have l: "len = sl" "bv_off v + len = fb_size ?b" using len sb by auto
    have take: "take len ?S = drop (bv_off v) (buf_bytes ?m ?b)" "drop len ?S = ?rest" using S lb l by auto
    show ?thesis
    proof (cases "Suc (bv_idx v) = length (bv_buf v)")
      case True
      then have n: "n = len" using nm l \<open>sl \<le> dl\<close> by simp
      let ?v = "v\<lparr>bv_idx := Suc (bv_idx v), bv_off := bv_off v + len\<rparr>"
      have "copy_loop hs sc tmp flags s (one_buf db o1) v copied = Some (int (copied + len), one_buf db o1, ?v, ?s)"
        using one advance_end[OF i l(2)] True cur by (subst copy_loop.simps) (simp add: Let_def len_def[symmetric] sl_def[symmetric] dl_def[symmetric])
      moreover have "mem_vec ?m A ?v" "src_bytes ?m ?v = drop len ?S" using True take(2) by (auto simp: mem_vec_def src_bytes_def)
      ultimately show ?thesis using n by auto
    next
      case False
      let ?v = "v\<lparr>bv_idx := Suc (bv_idx v), bv_off := 0\<rparr>"
      have i': "Suc (bv_idx v) < length (bv_buf v)" using False i by simp
      have v': "mem_vec ?m A ?v" using Suc.prems(1) i' i by (simp add: mem_vec_def Cons_nth_drop_Suc[symmetric])
      have S': "src_bytes ?m ?v = drop len ?S" using i' take(2) by (simp add: src_bytes_def)
      have adv: "fuse_bufvec_advance v len = Some (True, ?v)" using advance_end[OF i l(2)] False by simp
      show ?thesis
      proof (cases "len = dl")
        case True
        then have n: "n = len" using len(1) nm by simp
        have "fuse_bufvec_advance (one_buf db o1) len = Some (False, (one_buf db o1)\<lparr>bv_idx := 1, bv_off := o1 + len\<rparr>)"
          using advance_end[of "one_buf db o1" len] True Suc.prems(5) by (simp add: one_buf_def dl_def)
        then have "copy_loop hs sc tmp flags s (one_buf db o1) v copied =
            Some (int (copied + len), (one_buf db o1)\<lparr>bv_idx := 1, bv_off := o1 + len\<rparr>, ?v, ?s)"
          using one adv cur by (subst copy_loop.simps) (simp add: Let_def len_def[symmetric] sl_def[symmetric] dl_def[symmetric])
        then show ?thesis using n v' S' by auto
      next
        case False
        then have o1: "o1 + len < fb_size db" using len(4) Suc.prems(5) by (auto simp: dl_def)
        have "fuse_bufvec_advance (one_buf db o1) len = Some (True, one_buf db (o1 + len))"
          using advance_inside[of "one_buf db o1" len] o1 by (simp add: one_buf_def)
        then have run: "copy_loop hs sc tmp flags s (one_buf db o1) v copied = copy_loop hs sc tmp flags ?s (one_buf db (o1 + len)) ?v (copied + len)"
          using one adv cur by (subst copy_loop.simps) (simp add: Let_def len_def[symmetric] sl_def[symmetric] dl_def[symmetric])
        have r: "r = length (bv_buf ?v) - bv_idx ?v" using Suc.hyps(2) by simp
        have mv: "mem_vec (mc_mem ?s) A ?v" "src_bytes (mc_mem ?s) ?v = drop len ?S" using mem_vec_write[OF v' A] S' by auto
        have b: "mc_mem ?s a = Some (blk_write blk (k + o1) (take len ?S))" by simp
        define n' where "n' = n - len"
        have n': "n' = min (length (src_bytes (mc_mem ?s) ?v)) (fb_size db - (o1 + len))"
          using mv(2) Suc.prems(6) by (simp add: n'_def)
        have k': "k + (o1 + len) + n' \<le> blk_len (blk_write blk (k + o1) (take len ?S))" using Suc.prems(7) len(1) by (simp add: n'_def)
        from Suc.hyps(1)[OF r mv(1) Suc.prems(2,3) b _ n' k', of "copied + len"] o1 obtain dv v'' where
          rec: "copy_loop hs sc tmp flags ?s (one_buf db (o1 + len)) ?v (copied + len) = Some (int (copied + len + n'), dv, v'',
             ?s\<lparr>mc_mem := (mc_mem ?s)(a \<mapsto> blk_write (blk_write blk (k + o1) (take len ?S)) (k + (o1 + len)) (take n' (drop len ?S)))\<rparr>)"
             "mem_vec (mc_mem ?s) A v''" "src_bytes (mc_mem ?s) v'' = drop n' (drop len ?S)" using mv(2) by auto
        have ll: "length (take len ?S) = len" using len lS by (simp add: l(1))
        have "blk_write (blk_write blk (k + o1) (take len ?S)) (k + (o1 + len)) (take n' (drop len ?S)) = blk_write blk (k + o1) (take n ?S)"
          using blk_write_append[of blk "k + o1" "take len ?S" "take n' (drop len ?S)"] ll len(1)
          by (simp add: n'_def take_add[symmetric] add.assoc)
        moreover have "mem_vec ?m A v''" "src_bytes ?m v'' = drop n ?S"
          using mem_vec_write[OF rec(2) A, of "?m a"] rec(3) len(1) by (auto simp: n'_def)
        ultimately show ?thesis using run rec(1) len(1) by (auto simp: n'_def)
      qed
    qed
  qed
qed


section \<open>What copying promises\<close>

text \<open>
  A copying function stores the bytes a vector of memory buffers still has to give into a
  buffer in memory that none of them shares, and moves the vector on.
\<close>

locale memory_copy =
  fixes cp :: "'w machine \<Rightarrow> fuse_bufvec \<Rightarrow> fuse_bufvec \<Rightarrow> copy_flags \<Rightarrow> (int \<times> fuse_bufvec \<times> fuse_bufvec \<times> 'w machine) option"
  assumes copy_bytes: "mem_vec (mc_mem s) A v \<Longrightarrow> a \<in> A \<Longrightarrow> \<not> fb_is_fd db \<Longrightarrow> fb_mem db = Some (a, k) \<Longrightarrow> mc_mem s a = Some blk \<Longrightarrow>
    n = min (length (src_bytes (mc_mem s) v)) (fb_size db) \<Longrightarrow> k + n \<le> blk_len blk \<Longrightarrow>
    \<exists>dv v'. cp s (one_buf db 0) v flags = Some (int n, dv, v', s\<lparr>mc_mem := (mc_mem s)(a \<mapsto> blk_write blk k (take n (src_bytes (mc_mem s) v)))\<rparr>) \<and>
      mem_vec (mc_mem s) A v' \<and> src_bytes (mc_mem s) v' = drop n (src_bytes (mc_mem s) v)"

interpretation pmem: memory_copy "fuse_buf_copy_pmem False hs sc tmp" for hs sc tmp
proof
  fix s :: "'a machine" and A a k n flags and v :: fuse_bufvec and db :: fuse_buf and blk :: block
  assume "mem_vec (mc_mem s) A v" "a \<in> A" "\<not> fb_is_fd db" "fb_mem db = Some (a, k)" "mc_mem s a = Some blk"
    "n = min (length (src_bytes (mc_mem s) v)) (fb_size db)" "k + n \<le> blk_len blk"
  then show "\<exists>dv v'. fuse_buf_copy_pmem False hs sc tmp s (one_buf db 0) v flags =
      Some (int n, dv, v', s\<lparr>mc_mem := (mc_mem s)(a \<mapsto> blk_write blk k (take n (src_bytes (mc_mem s) v)))\<rparr>) \<and>
      mem_vec (mc_mem s) A v' \<and> src_bytes (mc_mem s) v' = drop n (src_bytes (mc_mem s) v)"
    unfolding fuse_buf_copy_pmem_def using copy_loop_mem[of s A v db a k blk 0 n hs sc tmp flags 0] by simp
qed

section \<open>Reading from a descriptor\<close>

text \<open>
  A descriptor whose reads return at least one byte and at most what they are asked for, and
  follow the contents \<open>f\<close> of a file by explicit position.
\<close>

definition reads_file :: "'w syscalls \<Rightarrow> int \<Rightarrow> (off_t \<Rightarrow> byte) \<Rightarrow> bool" where
  "reads_file sc fd f \<longleftrightarrow> (\<forall>w len pos. 0 < len \<longrightarrow> (\<exists>n w'. sc_read sc w fd len (Some pos) = (Inr (map (\<lambda>i. f (pos + int i)) [0..<n]), w') \<and> 0 < n \<and> n \<le> len))"

lemma buf_read_retry:
  assumes "reads_file sc (fb_fd src) f" "fb_fd_seek src" "fb_fd_retry src" "fb_mem dst = Some (a, k)"
    "mc_mem s a = Some blk" "k + dst_off + len \<le> blk_len blk"
  shows "\<exists>w. fuse_buf_read sc s dst dst_off src src_off len copied = Some (int (copied + len), s\<lparr>mc_world := w, mc_mem :=
    (mc_mem s)(a \<mapsto> blk_write blk (k + dst_off) (map (\<lambda>i. f (fb_pos src + int src_off + int i)) [0..<len]))\<rparr>)"
  using assms(5,6)
proof (induction len arbitrary: s dst_off src_off copied blk rule: less_induct)
  case (less len)
  show ?case
  proof (cases "len = 0")
    case True
    then show ?thesis using less.prems by (subst fuse_buf_read.simps) (simp add: fun_upd_idem, metis machine.surjective machine.update_convs(1))
  next
    case False
    then obtain n w where r: "sc_read sc (mc_world s) (fb_fd src) len (Some (fb_pos src + int src_off)) =
        (Inr (map (\<lambda>i. f (fb_pos src + int src_off + int i)) [0..<n]), w)" "0 < n" "n \<le> len"
      using assms(1) unfolding reads_file_def by (meson bot_nat_0.not_eq_extremum)
    let ?bs = "\<lambda>o1 n. map (\<lambda>i. f (fb_pos src + int o1 + int i)) [0..<n]"
    let ?blk = "blk_write blk (k + dst_off) (?bs src_off n)"
    let ?s = "s\<lparr>mc_world := w, mc_mem := (mc_mem s)(a \<mapsto> ?blk)\<rparr>"
    have w: "mem_write (mc_mem s) (ptr_add (a, k) dst_off) (?bs src_off n) = Some ((mc_mem s)(a \<mapsto> ?blk))"
      using less.prems r(3) by (simp add: mem_write_def ptr_add_def)
    have "fuse_buf_read sc s dst dst_off src src_off len copied = fuse_buf_read sc ?s dst (dst_off + n) src (src_off + n) (len - n) (copied + n)"
      using False assms(2-4) r w by (subst fuse_buf_read.simps) (simp add: seek_pos_def)
    moreover have "k + (dst_off + n) + (len - n) \<le> blk_len ?blk" using less.prems(2) r(3) by simp
    moreover have lt: "len - n < len" and b: "mc_mem ?s a = Some ?blk" using r(2) False by auto
    from less.IH[OF lt b \<open>k + (dst_off + n) + (len - n) \<le> blk_len ?blk\<close>] obtain w' where
      "fuse_buf_read sc ?s dst (dst_off + n) src (src_off + n) (len - n) (copied + n) =
        Some (int (copied + n + (len - n)), ?s\<lparr>mc_world := w', mc_mem := (mc_mem ?s)(a \<mapsto> blk_write ?blk (k + (dst_off + n)) (?bs (src_off + n) (len - n)))\<rparr>)"
      by blast
    moreover have "blk_write ?blk (k + (dst_off + n)) (?bs (src_off + n) (len - n)) = blk_write blk (k + dst_off) (?bs src_off len)"
    proof -
      have "?bs src_off len = ?bs src_off n @ ?bs (src_off + n) (len - n)"
        using r(3) by (auto intro!: nth_equalityI simp: nth_append add.assoc)
      then show ?thesis using blk_write_append[of blk "k + dst_off" "?bs src_off n" "?bs (src_off + n) (len - n)"] by (simp add: add.assoc)
    qed
    ultimately have "fuse_buf_read sc s dst dst_off src src_off len copied = Some (int (copied + len), s\<lparr>mc_world := w', mc_mem :=
      (mc_mem s)(a \<mapsto> blk_write blk (k + dst_off) (?bs src_off len))\<rparr>)" using r(3) by simp
    then show ?thesis by blast
  qed
qed

section \<open>Properties\<close>

text \<open>
  Copying a vector of memory buffers into one memory buffer in another block moves exactly
  as many bytes as fit and are left, in order, returns their number, changes no other byte
  of memory, and leaves the source vector where the next copy goes on.
\<close>

theorem buf_copy_memory:
  assumes "mem_vec (mc_mem s) {a} v" "\<not> fb_is_fd db" "fb_mem db = Some (a, k)" "mc_mem s a = Some blk"
    "n = min (length (src_bytes (mc_mem s) v)) (fb_size db)" "k + n \<le> blk_len blk"
  shows "\<exists>dv v'. fuse_buf_copy_pmem False hs sc tmp s (one_buf db 0) v flags =
      Some (int n, dv, v', s\<lparr>mc_mem := (mc_mem s)(a \<mapsto> blk_write blk k (take n (src_bytes (mc_mem s) v)))\<rparr>) \<and>
    mem_vec (mc_mem s) {a} v' \<and> src_bytes (mc_mem s) v' = drop n (src_bytes (mc_mem s) v)"
  by (rule pmem.copy_bytes[OF assms(1) singletonI assms(2-6)])

theorem buf_copy_memory_witness:
  "\<exists>dv v'. fuse_buf_copy_pmem False True
      \<lparr>sc_read = (\<lambda>w _ _ _. (Inl 5, w)), sc_write = (\<lambda>w _ _ _. (Inl 5, w)), sc_splice = (\<lambda>w _ _ _ _ _. (Inl 5, w))\<rparr> 9
      \<lparr>mc_world = (), mc_mem = [0 \<mapsto> \<lparr>blk_len = 2, blk_byte = (\<lambda>i. of_nat (i + 1))\<rparr>, 1 \<mapsto> \<lparr>blk_len = 8, blk_byte = (\<lambda>_. 0)\<rparr>]\<rparr>
      (one_buf \<lparr>fb_size = 4, fb_is_fd = False, fb_fd_seek = False, fb_fd_retry = False, fb_mem = Some (1, 3), fb_fd = 0, fb_pos = 0\<rparr> 0)
      \<lparr>bv_idx = 0, bv_off = 0, bv_buf = [\<lparr>fb_size = 2, fb_is_fd = False, fb_fd_seek = False, fb_fd_retry = False, fb_mem = Some (0, 0), fb_fd = 0, fb_pos = 0\<rparr>]\<rparr>
      \<lparr>cf_no_splice = False, cf_force_splice = False\<rparr> = Some (2, dv, v', \<lparr>mc_world = (), mc_mem = [0 \<mapsto> \<lparr>blk_len = 2, blk_byte = (\<lambda>i. of_nat (i + 1))\<rparr>,
        1 \<mapsto> blk_write \<lparr>blk_len = 8, blk_byte = (\<lambda>_. 0)\<rparr> 3 [1, 2]]\<rparr>)"
proof -
  let ?sc = "\<lparr>sc_read = (\<lambda>w _ _ _. (Inl 5, w)), sc_write = (\<lambda>w _ _ _. (Inl 5, w)), sc_splice = (\<lambda>w _ _ _ _ _. (Inl 5, w))\<rparr> :: unit syscalls"
  let ?m = "[0 \<mapsto> \<lparr>blk_len = 2, blk_byte = (\<lambda>i. of_nat (i + 1))\<rparr>, 1 \<mapsto> \<lparr>blk_len = 8, blk_byte = (\<lambda>_. 0)\<rparr>] :: memory"
  let ?b = "\<lparr>fb_size = 2, fb_is_fd = False, fb_fd_seek = False, fb_fd_retry = False, fb_mem = Some (0, 0), fb_fd = 0, fb_pos = 0\<rparr>"
  let ?v = "\<lparr>bv_idx = 0, bv_off = 0, bv_buf = [?b]\<rparr>"
  let ?db = "\<lparr>fb_size = 4, fb_is_fd = False, fb_fd_seek = False, fb_fd_retry = False, fb_mem = Some (1, 3), fb_fd = 0, fb_pos = 0\<rparr>"
  have b: "buf_bytes ?m ?b = [1, 2]" by (simp add: buf_bytes_def mem_read_def upt_rec[of _ 2])
  then have s: "src_bytes ?m ?v = [1, 2]" by (simp add: src_bytes_def)
  have v: "mem_vec ?m {1} ?v" by (simp add: mem_vec_def mem_buf_def mem_read_def)
  from buf_copy_memory[of "\<lparr>mc_world = (), mc_mem = ?m\<rparr>" 1 ?v ?db 3 "\<lparr>blk_len = 8, blk_byte = (\<lambda>_. 0)\<rparr>" 2 True ?sc 9
      "\<lparr>cf_no_splice = False, cf_force_splice = False\<rparr>"] s v
  show ?thesis by (auto simp: fun_upd_twist)
qed

text \<open>
  C27: Reading from a seekable descriptor in retry mode, whose reads may be short, goes on until
  all requested bytes have been stored: the destination gets the bytes of the file from
  the position of the buffer, and the result is the requested length.
\<close>

theorem buf_read_complete:
  assumes "reads_file sc (fb_fd src) f" "fb_fd_seek src" "fb_fd_retry src" "fb_mem dst = Some (a, k)"
    "mc_mem s a = Some blk" "k + dst_off + len \<le> blk_len blk"
  shows "\<exists>w. fuse_buf_read sc s dst dst_off src src_off len 0 = Some (int len, s\<lparr>mc_world := w, mc_mem :=
    (mc_mem s)(a \<mapsto> blk_write blk (k + dst_off) (map (\<lambda>i. f (fb_pos src + int src_off + int i)) [0..<len]))\<rparr>)"
  using buf_read_retry[OF assms, of src_off 0] by simp

theorem buf_read_complete_witness:
  "\<exists>w. fuse_buf_read \<lparr>sc_read = (\<lambda>w fd len pos. (Inr [of_int (the pos)], w)), sc_write = (\<lambda>w _ _ _. (Inl 5, w)), sc_splice = (\<lambda>w _ _ _ _ _. (Inl 5, w))\<rparr>
      \<lparr>mc_world = (), mc_mem = [1 \<mapsto> \<lparr>blk_len = 8, blk_byte = (\<lambda>_. 0)\<rparr>]\<rparr>
      \<lparr>fb_size = 4, fb_is_fd = False, fb_fd_seek = False, fb_fd_retry = False, fb_mem = Some (1, 0), fb_fd = 0, fb_pos = 0\<rparr> 0
      \<lparr>fb_size = 4, fb_is_fd = True, fb_fd_seek = True, fb_fd_retry = True, fb_mem = None, fb_fd = 3, fb_pos = 100\<rparr> 0 4 0 =
    Some (int 4, \<lparr>mc_world = w, mc_mem = [1 \<mapsto> blk_write \<lparr>blk_len = 8, blk_byte = (\<lambda>_. 0)\<rparr> 0 (map (\<lambda>i. of_int (100 + int 0 + int i)) [0..<4])]\<rparr>)"
proof -
  let ?sc = "\<lparr>sc_read = (\<lambda>w fd len pos. (Inr [of_int (the pos)], w)), sc_write = (\<lambda>w _ _ _. (Inl 5, w)), sc_splice = (\<lambda>w _ _ _ _ _. (Inl 5, w))\<rparr> :: unit syscalls"
  have "reads_file ?sc 3 of_int" by (auto simp: reads_file_def intro!: exI[of _ "1 :: nat"])
  from buf_read_complete[of ?sc "\<lparr>fb_size = 4, fb_is_fd = True, fb_fd_seek = True, fb_fd_retry = True, fb_mem = None, fb_fd = 3, fb_pos = 100\<rparr>" of_int
      "\<lparr>fb_size = 4, fb_is_fd = False, fb_fd_seek = False, fb_fd_retry = False, fb_mem = Some (1, 0), fb_fd = 0, fb_pos = 0\<rparr>" 1 0
      "\<lparr>mc_world = (), mc_mem = [1 \<mapsto> \<lparr>blk_len = 8, blk_byte = (\<lambda>_. 0)\<rparr>]\<rparr>" "\<lparr>blk_len = 8, blk_byte = (\<lambda>_. 0)\<rparr>" 0 4 0] this
  show ?thesis by auto
qed

end
