(* ===== verification/Nvml_Segment.thy ===== *)
theory Nvml_Segment
  imports Buffers Efs_Common Range_Lock
begin

text \<open>
  Pools and segments of \<open>src/src/backends/nvram-nvml/segment.cpp\<close>: a segment is a region of a
  file that is mapped from a file of its own (its pool), or a gap without storage.

  The environment is a parameter: the system calls, the mapping function
  \<open>pmem_map_file\<close> of \<open>libpmem\<close>, the outcome of the file operations on the pool directory, the
  allocator and the clock, and \<open>fuse_buf_copy\<close> of \<open>libfuse\<close>.  The \<open>n\<close>-th pool name generated is
  the number \<open>n\<close>; the pool with that name is mapped at \<open>ne_pool_addr n\<close>, and a new pool is
  filled with zeros.  A C++ exception is the value \<open>Inl\<close> of a result, an operation that waits
  for a range lock is \<open>Inl (Blocked ...)\<close>.
\<close>

section \<open>Results\<close>

datatype fault = Removing_pool | Creating_pmem | Different_size | Removing_subdir | Creating_subdir | Opening_file

datatype stop = Threw fault | Blocked condvar

section \<open>The environment\<close>

record 'w nvml_env =
  ne_calls :: "'w syscalls"
  ne_have_splice :: bool
  ne_tmp :: addr
  ne_copy :: "'w machine \<Rightarrow> fuse_bufvec \<Rightarrow> fuse_bufvec \<Rightarrow> copy_flags \<Rightarrow> (int \<times> fuse_bufvec \<times> fuse_bufvec \<times> 'w machine) option"
  ne_pool_addr :: "nat \<Rightarrow> addr"
  ne_exists :: "nat \<Rightarrow> bool"
  ne_unlink :: "nat \<Rightarrow> bool"
  ne_map_file :: "nat \<Rightarrow> size_t \<Rightarrow> (size_t \<times> bool) option"
  ne_subdir_exists :: bool
  ne_remove_all :: bool
  ne_mkdir :: bool
  ne_memalign :: "'w machine \<Rightarrow> size_t \<Rightarrow> addr option"
  ne_time :: int
  ne_segment_size :: size_t

section \<open>Pools and segments\<close>

record pool =
  p_path :: "nat option"
  p_data :: "addr option"
  p_length :: size_t
  p_is_pmem :: bool

definition new_pool :: pool where
  "new_pool = \<lparr>p_path = None, p_data = None, p_length = 0, p_is_pmem = False\<rparr>"

definition pool_allocate :: "'w nvml_env \<Rightarrow> pool \<Rightarrow> size_t \<Rightarrow> nat \<Rightarrow> 'w machine \<Rightarrow> (stop + (pool \<times> nat \<times> 'w machine)) option" where
  "pool_allocate env p sz n s =
     (if p_data p \<noteq> None then None
      else if ne_exists env n \<and> \<not> ne_unlink env n then Some (Inl (Threw Removing_pool))
      else case ne_map_file env n sz of
          None \<Rightarrow> Some (Inl (Threw Creating_pmem))
        | Some (pool_length, is_pmem) \<Rightarrow>
            if pool_length \<noteq> sz then Some (Inl (Threw Different_size))
            else Some (Inr (\<lparr>p_path = Some n, p_data = Some (ne_pool_addr env n), p_length = pool_length, p_is_pmem = is_pmem\<rparr>, Suc n,
              s\<lparr>mc_mem := (mc_mem s)(ne_pool_addr env n \<mapsto> \<lparr>blk_len = unat pool_length, blk_byte = (\<lambda>_. 0)\<rparr>)\<rparr>)))"

record segment =
  s_offset :: off_t
  s_size :: size_t
  s_is_gap :: bool
  s_pool :: pool
  s_bytes :: size_t

definition new_segment :: "'w nvml_env \<Rightarrow> off_t \<Rightarrow> size_t \<Rightarrow> bool \<Rightarrow> nat \<Rightarrow> 'w machine \<Rightarrow> (stop + (segment \<times> nat \<times> 'w machine)) option" where
  "new_segment env offset sz is_gap n s =
     (let seg = \<lparr>s_offset = offset, s_size = sz, s_is_gap = is_gap, s_pool = new_pool, s_bytes = 0\<rparr>
      in if is_gap then Some (Inr (seg, n, s))
         else ebind (pool_allocate env (s_pool seg) sz n s) (\<lambda>(p, n, s). Some (Inr (seg\<lparr>s_pool := p\<rparr>, n, s))))"

definition segment_allocate :: "'w nvml_env \<Rightarrow> segment \<Rightarrow> off_t \<Rightarrow> size_t \<Rightarrow> nat \<Rightarrow> 'w machine \<Rightarrow> (stop + (segment \<times> nat \<times> 'w machine)) option" where
  "segment_allocate env seg offset sz n s =
     ebind (pool_allocate env (s_pool seg) sz n s)
       (\<lambda>(p, n, s). Some (Inr (seg\<lparr>s_offset := offset, s_size := sz, s_is_gap := False, s_pool := p\<rparr>, n, s)))"

definition is_pmem :: "segment \<Rightarrow> bool" where
  "is_pmem seg = p_is_pmem (s_pool seg)"

definition seg_data :: "segment \<Rightarrow> addr option" where
  "seg_data seg = p_data (s_pool seg)"

definition overlaps :: "segment \<Rightarrow> off_t \<Rightarrow> size_t \<Rightarrow> bool" where
  "overlaps seg op_offset op_size \<longleftrightarrow>
     op_offset < to_off (to_size (s_offset seg) + s_size seg) \<and> s_offset seg < to_off (to_size op_offset + op_size)"

text \<open>Filling with zeros: an offset before the start of the mapping is outside its block.\<close>

definition zero_fill :: "segment \<Rightarrow> off_t \<Rightarrow> size_t \<Rightarrow> 'w machine \<Rightarrow> 'w machine option" where
  "zero_fill seg offset sz s =
     (if s_is_gap seg then Some s
      else if \<not> to_size offset + sz \<le> s_size seg then None
      else do {
        a \<leftarrow> seg_data seg;
        if offset < 0 then None
        else do {
          m \<leftarrow> mem_write (mc_mem s) (a, nat offset) (replicate (unat sz) 0);
          Some (s\<lparr>mc_mem := m\<rparr>) } })"

definition EINTR :: int where
  "EINTR = 4"

definition NVML_TRANSFER_SIZE :: nat where
  "NVML_TRANSFER_SIZE = 4096"

text \<open>
  The loop of \<open>copy_data_to_pmem\<close> and \<open>copy_data_to_non_pmem\<close>, which differ only in the
  function that copies: the bytes read so far are at the start of the pool.
\<close>

partial_function (option) copy_data :: "'w syscalls \<Rightarrow> int \<Rightarrow> addr \<Rightarrow> nat \<Rightarrow> 'w machine \<Rightarrow> (int \<times> 'w machine) option" where
  "copy_data sc fd a sofar s = do {
     let (res, w) = sc_read sc (mc_world s) fd NVML_TRANSFER_SIZE None;
     let s = s\<lparr>mc_world := w\<rparr>;
     case res of
       Inl errno \<Rightarrow> if errno \<noteq> EINTR then Some (-1, s) else copy_data sc fd a sofar s
     | Inr bs \<Rightarrow> if bs = [] then Some (int sofar, s)
         else do {
           m \<leftarrow> mem_write (mc_mem s) (a, sofar) bs;
           copy_data sc fd a (sofar + length bs) (s\<lparr>mc_mem := m\<rparr>) } }"

declare copy_data.simps [code]

definition fill_from :: "'w syscalls \<Rightarrow> segment \<Rightarrow> int \<Rightarrow> 'w machine \<Rightarrow> (size_t \<times> segment \<times> 'w machine) option" where
  "fill_from sc seg fd s = do {
     a \<leftarrow> seg_data seg;
     (n, s) \<leftarrow> copy_data sc fd a 0 s;
     let seg = seg\<lparr>s_bytes := to_size n\<rparr>;
     s \<leftarrow> zero_fill seg (to_off (s_bytes seg)) (s_size seg - s_bytes seg) s;
     Some (s_bytes seg, seg, s) }"

end
