(* ===== verification/Nvml_File.thy ===== *)
theory Nvml_File
  imports Nvml_Segment Segment_Tree
begin

text \<open>
  A file of the NVML back end, \<open>src/src/backends/nvram-nvml/file.cpp\<close>: its segments in a flat
  segment tree over the offsets, the allocation of storage for writes, and reading, writing,
  truncation, preallocation and unloading.

  Segments are shared objects, so the tree holds their addresses and \<open>f_seg\<close> is the store of
  segment objects.  The reader/writer mutexes are not part of the state: an operation of the
  model runs from the point where it has them to its end.  Range locks are taken from the
  lock manager of \<open>Range_Lock\<close>.  Offsets are mathematical integers, \<open>size_t\<close> values are 64-bit
  words, and every conversion between them is written out.
\<close>

section \<open>State\<close>

datatype file_type = temporary | persistent

datatype operation = op_read | op_write

record stat =
  st_ino :: size_t
  st_mode :: nat
  st_nlink :: size_t
  st_uid :: nat
  st_gid :: nat
  st_size :: off_t
  st_blocks :: int
  st_atime :: int
  st_mtime :: int
  st_ctime :: int

record file_region =
  r_address :: "ptr option"
  r_size :: size_t
  r_is_gap :: bool
  r_is_pmem :: bool

definition total_size :: "file_region list \<Rightarrow> size_t" where
  "total_size regions = sum_list (map r_size regions)"

record nvml_file =
  f_type :: file_type
  f_attributes :: stat
  f_alloc_offset :: off_t
  f_used_offset :: off_t
  f_segment_size :: size_t
  f_segments :: "addr option flat_segment_tree"
  f_initialized :: bool
  f_range_mutex :: range_tree
  f_seg :: "addr \<rightharpoonup> segment"
  f_next :: addr
  f_pools :: nat

definition off_max :: off_t where
  "off_max = 2 ^ 63 - 1"

definition null_stat :: stat where
  "null_stat = \<lparr>st_ino = 0, st_mode = 0, st_nlink = 0, st_uid = 0, st_gid = 0, st_size = 0, st_blocks = 0,
     st_atime = 0, st_mtime = 0, st_ctime = 0\<rparr>"

text \<open>The constructor for a file that is not populated.\<close>

definition new_file :: "file_type \<Rightarrow> nat \<Rightarrow> nvml_file" where
  "new_file ty pools = \<lparr>f_type = ty, f_attributes = null_stat, f_alloc_offset = 0, f_used_offset = 0, f_segment_size = 4096,
     f_segments = build_tree (new_segment_tree 0 off_max None), f_initialized = False, f_range_mutex = lock_manager,
     f_seg = (\<lambda>_. None), f_next = 0, f_pools = pools\<rparr>"

definition file_stat :: "nvml_file \<Rightarrow> stat" where
  "file_stat f = f_attributes f"

definition save_attributes :: "nvml_file \<Rightarrow> stat \<Rightarrow> nvml_file" where
  "save_attributes f stbuf = f\<lparr>f_attributes := stbuf\<rparr>"

definition change_type :: "nvml_file \<Rightarrow> file_type \<Rightarrow> nvml_file" where
  "change_type f ty = f\<lparr>f_type := ty\<rparr>"

definition file_size :: "nvml_file \<Rightarrow> size_t" where
  "file_size f = to_size (st_size (f_attributes f))"

definition update_size :: "nvml_file \<Rightarrow> size_t \<Rightarrow> nvml_file" where
  "update_size f sz =
     (if st_size (f_attributes f) < to_off sz
      then f\<lparr>f_used_offset := to_off sz,
             f_attributes := (f_attributes f)\<lparr>st_size := to_off sz, st_blocks := uint (sz div 512)\<rparr>\<rparr>
      else f)"

section \<open>Range locks\<close>

definition file_lock_range :: "nvml_file \<Rightarrow> off_t \<Rightarrow> off_t \<Rightarrow> operation \<Rightarrow> (stop + (range_lock \<times> nvml_file)) option" where
  "file_lock_range f start end op = do {
     (t, r) \<leftarrow> lock_range (f_range_mutex f) start end (if op = op_read then Reader else Writer);
     case r of Inl cv \<Rightarrow> Some (Inl (Blocked cv)) | Inr rl \<Rightarrow> Some (Inr (rl, f\<lparr>f_range_mutex := t\<rparr>)) }"

text \<open>Unlocking, followed by the destructor of the handle at the end of its scope.\<close>

definition file_unlock_range :: "nvml_file \<Rightarrow> range_lock \<Rightarrow> nvml_file option" where
  "file_unlock_range f rl = do {
     (_, rl, t) \<leftarrow> unlock_range (f_range_mutex f) rl;
     t \<leftarrow> destroy_range_lock t rl;
     Some (f\<lparr>f_range_mutex := t\<rparr>) }"

section \<open>Segments\<close>

definition create_segment ::
  "'w nvml_env \<Rightarrow> nvml_file \<Rightarrow> 'w machine \<Rightarrow> off_t \<Rightarrow> size_t \<Rightarrow> bool \<Rightarrow> (stop + (addr \<times> nvml_file \<times> 'w machine)) option" where
  "create_segment env f s base_offset sz is_gap =
     ebind (new_segment env base_offset sz is_gap (f_pools f) s)
       (\<lambda>(seg, n, s). Some (Inr (f_next f, f\<lparr>f_seg := (f_seg f)(f_next f \<mapsto> seg), f_next := Suc (f_next f), f_pools := n\<rparr>, s)))"

definition segment_end :: "segment \<Rightarrow> off_t" where
  "segment_end seg = to_off (to_size (s_offset seg) + s_size seg)"

fun insert_all ::
  "(addr option flat_segment_tree \<Rightarrow> off_t \<Rightarrow> off_t \<Rightarrow> addr option \<Rightarrow> addr option flat_segment_tree option) \<Rightarrow>
   (addr \<rightharpoonup> segment) \<Rightarrow> addr list \<Rightarrow> addr option flat_segment_tree \<Rightarrow> addr option flat_segment_tree option" where
  "insert_all ins h [] t = Some t"
| "insert_all ins h (a # sl) t = do { seg \<leftarrow> h a; t \<leftarrow> ins t (s_offset seg) (segment_end seg) (Some a); insert_all ins h sl t }"

definition append_segments :: "nvml_file \<Rightarrow> addr list \<Rightarrow> nvml_file option" where
  "append_segments f sl = do { t \<leftarrow> insert_all insert_back (f_seg f) sl (f_segments f); Some (f\<lparr>f_segments := build_tree t\<rparr>) }"

definition insert_segments :: "nvml_file \<Rightarrow> addr list \<Rightarrow> nvml_file option" where
  "insert_segments f sl = do { t \<leftarrow> insert_all insert_front (f_seg f) sl (f_segments f); Some (f\<lparr>f_segments := build_tree t\<rparr>) }"

definition region_address :: "segment \<Rightarrow> off_t \<Rightarrow> ptr option option" where
  "region_address seg op_delta = (if s_is_gap seg then Some None
     else do { a \<leftarrow> seg_data seg; if op_delta < 0 then None else Some (Some (a, nat op_delta)) })"

text \<open>
  The part of \<open>lookup_helper\<close> that gives storage to a gap: the gap segment is turned into a
  segment with storage, and gaps are created for what remains before and after it.  The
  result is the new displacement into the segment.
\<close>

definition allocate_gap ::
  "'w nvml_env \<Rightarrow> nvml_file \<Rightarrow> 'w machine \<Rightarrow> addr \<Rightarrow> segment \<Rightarrow> off_t \<Rightarrow> size_t \<Rightarrow> (stop + (off_t \<times> nvml_file \<times> 'w machine)) option" where
  "allocate_gap env f s sid seg range_start req_size = (
     let s_start = s_offset seg;
         s_end = segment_end seg;
         seg_offset = align range_start (ne_segment_size env);
         seg_size = (if to_size range_start + req_size < to_size (s_offset seg) + s_size seg
                     then to_size (xalign (to_off (to_size range_start + req_size)) (ne_segment_size env) - seg_offset)
                     else to_size (s_offset seg) + s_size seg - to_size seg_offset)
     in ebind (segment_allocate env seg seg_offset seg_size (f_pools f) s) (\<lambda>(seg', n, s).
        let f = f\<lparr>f_seg := (f_seg f)(sid \<mapsto> seg'), f_pools := n\<rparr>;
            start_gap_offset = s_start;
            start_gap_size = to_size (seg_offset - s_start)
        in ebind (if start_gap_size \<noteq> 0 then ebind (create_segment env f s start_gap_offset start_gap_size True) (\<lambda>(a, f, s). Some (Inr ([a], f, s)))
                  else Some (Inr ([], f, s))) (\<lambda>(sl, f, s).
        let op_delta = to_off (to_size range_start - (to_size start_gap_offset + start_gap_size));
            end_gap_offset = to_off (to_size seg_offset + seg_size);
            end_gap_size = to_size s_end - (to_size seg_offset + seg_size)
        in ebind (if end_gap_size \<noteq> 0 then ebind (create_segment env f s end_gap_offset end_gap_size True) (\<lambda>(a, f, s). Some (Inr (sl @ [a], f, s)))
                  else Some (Inr (sl, f, s))) (\<lambda>(sl, f, s).
        do { f \<leftarrow> insert_segments f sl; Some (Inr (op_delta, f, s)) }))))"

text \<open>
  The loop of \<open>lookup_helper\<close>.  The iterator is the position of a leaf: the segments that
  \<open>allocate_gap\<close> inserts start at or after the key of that leaf, so the leaf keeps its position.
\<close>

partial_function (option) lookup_loop ::
  "'w nvml_env \<Rightarrow> nvml_file \<Rightarrow> 'w machine \<Rightarrow> nat \<Rightarrow> off_t \<Rightarrow> size_t \<Rightarrow> off_t \<Rightarrow> bool \<Rightarrow> file_region list \<Rightarrow>
     (stop + (file_region list \<times> nvml_file \<times> 'w machine)) option" where
  "lookup_loop env f s it range_start req_size range_end alloc_gaps regions =
     (case snd (m_leaves (f_segments f) ! it) of
        None \<Rightarrow> Some (Inr (regions, f, s))
      | Some sid \<Rightarrow> do {
          seg \<leftarrow> f_seg f sid;
          let s_end = segment_end seg;
          let op_delta = range_start - s_offset seg;
          if op_delta = to_off (s_size seg) then None
          else do {
            let op_size = min (to_off req_size) (to_off (s_size seg) - op_delta);
            r \<leftarrow> (if alloc_gaps \<and> s_is_gap seg then allocate_gap env f s sid seg range_start req_size else Some (Inr (op_delta, f, s)));
            case r of
              Inl e \<Rightarrow> Some (Inl e)
            | Inr (op_delta, f, s) \<Rightarrow> do {
                seg \<leftarrow> f_seg f sid;
                s_addr \<leftarrow> region_address seg op_delta;
                let regions = regions @ [\<lparr>r_address = s_addr, r_size = to_size op_size, r_is_gap = s_is_gap seg, r_is_pmem = is_pmem seg\<rparr>];
                if s_end \<ge> range_end then Some (Inr (regions, f, s))
                else lookup_loop env f s (if it + 1 < length (m_leaves (f_segments f)) then it + 1 else it)
                       s_end (req_size - to_size op_size) range_end alloc_gaps regions } } })"

declare lookup_loop.simps [code]

definition lookup_helper ::
  "'w nvml_env \<Rightarrow> nvml_file \<Rightarrow> 'w machine \<Rightarrow> off_t \<Rightarrow> off_t \<Rightarrow> bool \<Rightarrow> file_region list \<Rightarrow> (stop + (file_region list \<times> nvml_file \<times> 'w machine)) option" where
  "lookup_helper env f s range_start range_end alloc_gaps regions =
     (let req_size = to_size (range_end - range_start)
      in if req_size = 0 then Some (Inr (regions, f, s))
         else do {
           (it, _) \<leftarrow> search_tree (f_segments f) range_start;
           lookup_loop env f s it range_start req_size range_end alloc_gaps regions })"

definition lookup_segments ::
  "'w nvml_env \<Rightarrow> nvml_file \<Rightarrow> 'w machine \<Rightarrow> off_t \<Rightarrow> off_t \<Rightarrow> file_region list \<Rightarrow> (stop + (file_region list \<times> nvml_file \<times> 'w machine)) option" where
  "lookup_segments env f s range_start range_end regions =
     (if \<not> (range_start \<ge> 0 \<and> range_start \<le> range_end \<and> m_valid_tree (f_segments f)) then None
      else lookup_helper env f s range_start range_end True regions)"

definition lookup_data ::
  "'w nvml_env \<Rightarrow> nvml_file \<Rightarrow> 'w machine \<Rightarrow> off_t \<Rightarrow> off_t \<Rightarrow> file_region list \<Rightarrow> (stop + (file_region list \<times> nvml_file \<times> 'w machine)) option" where
  "lookup_data env f s range_start range_end regions =
     (if \<not> (range_start \<ge> 0 \<and> range_start \<le> range_end \<and> m_valid_tree (f_segments f)) then None
      else let range_end = (if range_end > f_used_offset f then f_used_offset f else range_end)
           in lookup_helper env f s range_start range_end False regions)"

text \<open>The second part of \<open>fetch_storage\<close>: new segments at the end of the file.\<close>

definition extend_storage ::
  "'w nvml_env \<Rightarrow> nvml_file \<Rightarrow> 'w machine \<Rightarrow> off_t \<Rightarrow> size_t \<Rightarrow> file_region list \<Rightarrow> (stop + (file_region list \<times> nvml_file \<times> 'w machine)) option" where
  "extend_storage env f s offset sz regions = (
     let ls = m_leaves (f_segments f);
         alloc = f_alloc_offset f
     in if length ls < 2 \<or> ls ! (length ls - 2) \<noteq> (alloc, None) then None
        else let seg_sz = min (f_segment_size f * 2) (ne_segment_size env);
             f = f\<lparr>f_segment_size := seg_sz\<rparr>;
             new_segment_offset = (if offset \<le> alloc then alloc else align offset seg_sz);
             gap_size = to_size (new_segment_offset - alloc);
             new_segment_size = to_size (xalign (to_off (to_size offset + sz)) seg_sz - new_segment_offset)
        in ebind (if gap_size \<noteq> 0
                  then if \<not> offset > alloc then None
                       else ebind (create_segment env f s alloc gap_size True) (\<lambda>(a, f, s). Some (Inr ([a], f, s)))
                  else Some (Inr ([], f, s))) (\<lambda>(sl, f, s).
           ebind (create_segment env f s new_segment_offset new_segment_size False) (\<lambda>(a, f, s).
           do {
             f \<leftarrow> append_segments f (sl @ [a]);
             seg \<leftarrow> f_seg f a;
             let op_delta = (if offset \<le> alloc then 0 else to_size (offset - new_segment_offset));
             d \<leftarrow> seg_data seg;
             let regions = regions @ [\<lparr>r_address = Some (d, unat op_delta), r_size = to_size offset + sz - to_size new_segment_offset,
                                       r_is_gap = False, r_is_pmem = is_pmem seg\<rparr>];
             Some (Inr (regions, f\<lparr>f_alloc_offset := to_off (to_size new_segment_offset + new_segment_size)\<rparr>, s)) })))"

definition fetch_storage ::
  "'w nvml_env \<Rightarrow> nvml_file \<Rightarrow> 'w machine \<Rightarrow> off_t \<Rightarrow> size_t \<Rightarrow> (stop + (file_region list \<times> nvml_file \<times> 'w machine)) option" where
  "fetch_storage env f s offset sz =
     (if offset + to_off sz \<le> f_alloc_offset f
      then lookup_segments env f s offset (to_off (to_size offset + sz)) []
      else if \<not> (offset \<le> to_off (to_size offset + sz) \<and> m_valid_tree (f_segments f)) then None
      else ebind (if offset < f_alloc_offset f then lookup_segments env f s offset (f_alloc_offset f) [] else Some (Inr ([], f, s)))
             (\<lambda>(regions, f, s). extend_storage env f s offset sz regions))"

section \<open>Operations\<close>

text \<open>The first access to a file that was not populated creates its pool directory.\<close>

definition init_subdir :: "'w nvml_env \<Rightarrow> nvml_file \<Rightarrow> (stop + nvml_file) option" where
  "init_subdir env f =
     (if f_initialized f then Some (Inr f)
      else if ne_subdir_exists env \<and> \<not> ne_remove_all env then Some (Inl (Threw Removing_subdir))
      else if \<not> ne_mkdir env then Some (Inl (Threw Creating_subdir))
      else Some (Inr (f\<lparr>f_initialized := True\<rparr>)))"

definition ENOMEM :: int where
  "ENOMEM = 12"

definition set_buf0 :: "fuse_bufvec \<Rightarrow> ptr option \<Rightarrow> nat \<Rightarrow> fuse_bufvec option" where
  "set_buf0 v p n = (case bv_buf v of
       [] \<Rightarrow> None
     | b # bs \<Rightarrow> Some (v\<lparr>bv_buf := b\<lparr>fb_is_fd := False, fb_fd_seek := True, fb_fd_retry := True, fb_mem := p, fb_size := n\<rparr> # bs\<rparr>))"

text \<open>The loop that copies the regions of a read into the buffer at \<open>a\<close>.\<close>

fun copy_regions :: "memory \<Rightarrow> addr \<Rightarrow> nat \<Rightarrow> file_region list \<Rightarrow> (nat \<times> memory) option" where
  "copy_regions m a n [] = Some (n, m)"
| "copy_regions m a n (r # rs) = do {
     bs \<leftarrow> (case r_address r of
               Some p \<Rightarrow> mem_read m p (unat (r_size r))
             | None \<Rightarrow> Some (replicate (unat (r_size r)) 0));
     m \<leftarrow> mem_write m (a, n) bs;
     copy_regions m a (n + unat (r_size r)) rs }"

definition get_data ::
  "'w nvml_env \<Rightarrow> nvml_file \<Rightarrow> 'w machine \<Rightarrow> off_t \<Rightarrow> size_t \<Rightarrow> fuse_bufvec \<Rightarrow> (stop + (int \<times> fuse_bufvec \<times> nvml_file \<times> 'w machine)) option" where
  "get_data env f s start_offset sz fuse_buffer = (
     let end_offset = to_off (to_size start_offset + sz)
     in if \<not> start_offset < end_offset then None
        else ebind (init_subdir env f) (\<lambda>f.
          ebind (file_lock_range f start_offset end_offset op_read) (\<lambda>(rl, f).
          ebind (lookup_data env f s start_offset end_offset []) (\<lambda>(regions, f, s).
          if regions = [] then do {
            v \<leftarrow> set_buf0 fuse_buffer None 0;
            f \<leftarrow> file_unlock_range f rl;
            Some (Inr (0, v, f, s)) }
          else case ne_memalign env s (total_size regions) of
              None \<Rightarrow> do { f \<leftarrow> file_unlock_range f rl; Some (Inr (- ENOMEM, fuse_buffer, f, s)) }
            | Some buffer \<Rightarrow> do {
                let m = (mc_mem s)(buffer \<mapsto> \<lparr>blk_len = unat (total_size regions), blk_byte = (\<lambda>_. 0)\<rparr>);
                (n, m) \<leftarrow> copy_regions m buffer 0 regions;
                if n \<noteq> unat (total_size regions) then None
                else do {
                  v \<leftarrow> set_buf0 fuse_buffer (Some (buffer, 0)) (unat (total_size regions));
                  f \<leftarrow> file_unlock_range f rl;
                  Some (Inr (0, v, f, s\<lparr>mc_mem := m\<rparr>)) } }))))"

definition dst_buf :: "file_region \<Rightarrow> fuse_buf" where
  "dst_buf r = \<lparr>fb_size = unat (r_size r), fb_is_fd = False, fb_fd_seek = True, fb_fd_retry = True, fb_mem = r_address r, fb_fd = -1, fb_pos = 0\<rparr>"

definition splice_move :: copy_flags where
  "splice_move = \<lparr>cf_no_splice = False, cf_force_splice = False\<rparr>"

fun write_regions :: "'w nvml_env \<Rightarrow> 'w machine \<Rightarrow> int \<Rightarrow> fuse_bufvec \<Rightarrow> file_region list \<Rightarrow> (int \<times> fuse_bufvec \<times> 'w machine) option" where
  "write_regions env s n v [] = Some (n, v, s)"
| "write_regions env s n v (r # rs) = do {
     (res, _, v, s) \<leftarrow> (if r_is_pmem r
        then fuse_buf_copy_pmem False (ne_have_splice env) (ne_calls env) (ne_tmp env) s (one_buf (dst_buf r) 0) v splice_move
        else ne_copy env s (one_buf (dst_buf r) 0) v splice_move);
     write_regions env s (n + res) v rs }"

definition put_data ::
  "'w nvml_env \<Rightarrow> nvml_file \<Rightarrow> 'w machine \<Rightarrow> off_t \<Rightarrow> size_t \<Rightarrow> fuse_bufvec \<Rightarrow> (stop + (int \<times> fuse_bufvec \<times> nvml_file \<times> 'w machine)) option" where
  "put_data env f s start_offset sz fuse_buffer =
     ebind (init_subdir env f) (\<lambda>f.
       let end_offset = to_off (to_size start_offset + sz)
       in ebind (fetch_storage env f s start_offset sz) (\<lambda>(regions, f, s).
          ebind (file_lock_range f start_offset end_offset op_write) (\<lambda>(rl, f).
          do {
            (n, v, s) \<leftarrow> write_regions env s 0 fuse_buffer regions;
            let f = update_size f (to_size end_offset);
            f \<leftarrow> file_unlock_range f rl;
            Some (Inr (n, v, f, s)) })))"

definition append_data :: "nvml_file \<Rightarrow> off_t \<Rightarrow> size_t \<Rightarrow> fuse_bufvec \<Rightarrow> int" where
  "append_data f start_offset sz fuse_buffer = 0"

definition file_allocate :: "'w nvml_env \<Rightarrow> nvml_file \<Rightarrow> 'w machine \<Rightarrow> off_t \<Rightarrow> size_t \<Rightarrow> (stop + (int \<times> nvml_file \<times> 'w machine)) option" where
  "file_allocate env f s start_offset sz =
     ebind (init_subdir env f) (\<lambda>f.
       ebind (fetch_storage env f s start_offset sz) (\<lambda>(regions, f, s).
         let f = update_size f (to_size start_offset + sz);
             f = f\<lparr>f_attributes := (f_attributes f)\<lparr>st_ctime := ne_time env\<rparr>\<rparr>
         in Some (Inr (0, f, s))))"

text \<open>
  The loop of \<open>truncate\<close> over the leaves: \<open>sz\<close> adds up the segments seen so far, and \<open>was_cut\<close> is set
  once a segment contains the new end; the pools of the segments after it are unmapped.
\<close>

fun truncate_loop :: "off_t \<Rightarrow> (addr option) list \<Rightarrow> off_t \<Rightarrow> bool \<Rightarrow> (addr \<rightharpoonup> segment) \<Rightarrow> memory \<Rightarrow> ((addr \<rightharpoonup> segment) \<times> memory) option" where
  "truncate_loop end_offset [] sz was_cut h m = Some (h, m)"
| "truncate_loop end_offset (None # vs) sz was_cut h m = truncate_loop end_offset vs sz was_cut h m"
| "truncate_loop end_offset (Some a # vs) sz was_cut h m = do {
     seg \<leftarrow> h a;
     let sz = sz + to_off (if s_bytes seg \<noteq> 0 then s_bytes seg else s_size seg);
     if sz > end_offset
     then if \<not> was_cut
          then truncate_loop end_offset vs sz True (h(a \<mapsto> seg\<lparr>s_bytes := to_size (sz - end_offset)\<rparr>)) m
          else truncate_loop end_offset vs sz was_cut
                 (h(a \<mapsto> seg\<lparr>s_pool := (s_pool seg)\<lparr>p_data := None\<rparr>, s_is_gap := True\<rparr>))
                 (case seg_data seg of Some d \<Rightarrow> m(d := None) | None \<Rightarrow> m)
     else truncate_loop end_offset vs sz was_cut h m }"

definition file_truncate :: "'w nvml_env \<Rightarrow> nvml_file \<Rightarrow> 'w machine \<Rightarrow> off_t \<Rightarrow> (stop + (nvml_file \<times> 'w machine)) option" where
  "file_truncate env f s end_offset =
     (if (ucast (to_size end_offset) :: 32 word) > ucast (file_size f)
      then ebind (file_allocate env f s 0 (to_size end_offset)) (\<lambda>(_, f, s). Some (Inr (f, s)))
      else ebind (file_lock_range f end_offset (to_off (file_size f)) op_write) (\<lambda>(rl, f). do {
        (h, m) \<leftarrow> truncate_loop end_offset (map snd (m_leaves (f_segments f))) 0 False (f_seg f) (mc_mem s);
        let f = f\<lparr>f_seg := h, f_used_offset := end_offset,
                  f_attributes := (f_attributes f)\<lparr>st_size := end_offset, st_blocks := end_offset div 512, st_ctime := ne_time env\<rparr>\<rparr>;
        f \<leftarrow> file_unlock_range f rl;
        Some (Inr (f, s\<lparr>mc_mem := m\<rparr>)) }))"

text \<open>Writing the contents out: writing from a null pointer is undefined.\<close>

fun output_regions :: "memory \<Rightarrow> file_region list \<Rightarrow> byte list option" where
  "output_regions m [] = Some []"
| "output_regions m (r # rs) = do {
     p \<leftarrow> r_address r;
     bs \<leftarrow> mem_read m p (unat (r_size r));
     rest \<leftarrow> output_regions m rs;
     Some (bs @ rest) }"

definition file_unload :: "'w nvml_env \<Rightarrow> nvml_file \<Rightarrow> 'w machine \<Rightarrow> (stop + (int \<times> byte list \<times> nvml_file)) option" where
  "file_unload env f s =
     (if f_type f = temporary then Some (Inr (-1, [], f))
      else ebind (file_lock_range f 0 (to_off (file_size f)) op_read) (\<lambda>(rl, f).
           ebind (lookup_data env f s 0 (to_off (file_size f)) []) (\<lambda>(regions, f, s). do {
             bs \<leftarrow> output_regions (mc_mem s) regions;
             f \<leftarrow> file_unlock_range f rl;
             Some (Inr (0, bs, f)) })))"

text \<open>
  The constructor for a file that is loaded from the underlying file system: \<open>stbuf\<close> is what
  \<open>fstat\<close> returns for it and \<open>fd\<close> its descriptor (\<open>None\<close> if it cannot be opened).
\<close>

definition load_file ::
  "'w nvml_env \<Rightarrow> file_type \<Rightarrow> nat \<Rightarrow> size_t \<Rightarrow> int option \<Rightarrow> stat \<Rightarrow> 'w machine \<Rightarrow> (stop + (nvml_file \<times> 'w machine)) option" where
  "load_file env ty pools inode fd stbuf s =
     (let f = (new_file ty pools)\<lparr>f_segments := new_segment_tree 0 off_max None\<rparr>
      in if ne_subdir_exists env \<and> \<not> ne_remove_all env then Some (Inl (Threw Removing_subdir))
         else if \<not> ne_mkdir env then Some (Inl (Threw Creating_subdir))
         else case fd of
             None \<Rightarrow> Some (Inl (Threw Opening_file))
           | Some fd \<Rightarrow>
               let stbuf = stbuf\<lparr>st_ino := inode\<rparr>;
                   seg_size = to_size (xalign (st_size stbuf) (f_segment_size f))
               in ebind (create_segment env f s 0 seg_size False) (\<lambda>(a, f, s). do {
                    f \<leftarrow> append_segments f [a];
                    seg \<leftarrow> f_seg f a;
                    let f = f\<lparr>f_alloc_offset := to_off (s_size seg)\<rparr>;
                    (n, seg, s) \<leftarrow> fill_from (ne_calls env) seg fd s;
                    let f = f\<lparr>f_seg := (f_seg f)(a \<mapsto> seg), f_used_offset := to_off n\<rparr>;
                    Some (Inr ((save_attributes f stbuf)\<lparr>f_initialized := True\<rparr>, s)) }))"

end
