(* ===== verification/Efs_Errors.thy ===== *)
theory Efs_Errors
  imports Prelude
begin

text \<open>
  The error codes of the daemon (\<open>src/src/errors.h\<close>), their translation into the codes of the
  user library (\<open>src/include/efs-api.h\<close>), and the messages of that library
  (\<open>src/lib/errors.c\<close>).
\<close>

named_theorems api_codes

datatype error_code = success | internal_error | invalid_arguments | bad_request | no_such_task | task_pending | task_in_progress |
  no_such_path | path_already_imported

definition EFS_API_ERRMAX :: int where [api_codes]: "EFS_API_ERRMAX = 512"
definition EFS_API_SUCCESS :: int where [api_codes]: "EFS_API_SUCCESS = 0"
definition EFS_API_ESNAFU :: int where [api_codes]: "EFS_API_ESNAFU = - 1"
definition EFS_API_EINVAL :: int where [api_codes]: "EFS_API_EINVAL = - 2"
definition EFS_API_EBADREQUEST :: int where [api_codes]: "EFS_API_EBADREQUEST = - 3"
definition EFS_API_EBADRESPONSE :: int where [api_codes]: "EFS_API_EBADRESPONSE = - 4"
definition EFS_API_ENOMEM :: int where [api_codes]: "EFS_API_ENOMEM = - 5"
definition EFS_API_ECONNFAILED :: int where [api_codes]: "EFS_API_ECONNFAILED = - 6"
definition EFS_API_ERPCSENDFAILED :: int where [api_codes]: "EFS_API_ERPCSENDFAILED = - 7"
definition EFS_API_ERPCRECVFAILED :: int where [api_codes]: "EFS_API_ERPCRECVFAILED = - 8"
definition EFS_API_EPACKFAILED :: int where [api_codes]: "EFS_API_EPACKFAILED = - 9"
definition EFS_API_EUNPACKFAILED :: int where [api_codes]: "EFS_API_EUNPACKFAILED = - 10"
definition EFS_API_ENOSUCHTASK :: int where [api_codes]: "EFS_API_ENOSUCHTASK = - 12"
definition EFS_API_ETASKPENDING :: int where [api_codes]: "EFS_API_ETASKPENDING = - 11"
definition EFS_API_ETASKINPROGRESS :: int where [api_codes]: "EFS_API_ETASKINPROGRESS = - 13"
definition EFS_API_ENOSUCHPATH :: int where [api_codes]: "EFS_API_ENOSUCHPATH = - 14"
definition EFS_API_EPATHEXISTS :: int where [api_codes]: "EFS_API_EPATHEXISTS = - 15"
definition EFS_API_UNKNOWN :: int where [api_codes]: "EFS_API_UNKNOWN = - EFS_API_ERRMAX"

text \<open>The enumeration has no other values, so the default branch of the switch is never taken.\<close>

fun make_api_error :: "error_code \<Rightarrow> int" where
  "make_api_error success = EFS_API_SUCCESS"
| "make_api_error internal_error = EFS_API_ESNAFU"
| "make_api_error invalid_arguments = EFS_API_EINVAL"
| "make_api_error bad_request = EFS_API_EBADREQUEST"
| "make_api_error no_such_task = EFS_API_ENOSUCHTASK"
| "make_api_error task_pending = EFS_API_ETASKPENDING"
| "make_api_error task_in_progress = EFS_API_ETASKINPROGRESS"
| "make_api_error no_such_path = EFS_API_ENOSUCHPATH"
| "make_api_error path_already_imported = EFS_API_EPATHEXISTS"

fun print_error_code :: "error_code \<Rightarrow> string" where
  "print_error_code success = ''success''"
| "print_error_code internal_error = ''internal error''"
| "print_error_code invalid_arguments = ''invalid arguments''"
| "print_error_code bad_request = ''bad request''"
| "print_error_code no_such_task = ''no such task''"
| "print_error_code task_pending = ''task pending''"
| "print_error_code task_in_progress = ''task in progress''"
| "print_error_code no_such_path = ''path to resource not found''"
| "print_error_code path_already_imported = ''path already exists''"

definition ERR_REMAP :: "int \<Rightarrow> int" where
  "ERR_REMAP n = (if n < 0 then - n else n)"

text \<open>The table has \<open>EFS_API_ERRMAX + 1\<close> entries, and the ones not listed are null pointers.\<close>

definition norns_errlist :: "(int \<times> string) list" where
  "norns_errlist = [(ERR_REMAP EFS_API_SUCCESS, ''Success''),
     (ERR_REMAP EFS_API_ESNAFU, ''Internal error''),
     (ERR_REMAP EFS_API_EINVAL, ''Invalid arguments''),
     (ERR_REMAP EFS_API_EBADREQUEST, ''Bad request''),
     (ERR_REMAP EFS_API_EBADRESPONSE, ''Bad response''),
     (ERR_REMAP EFS_API_ENOMEM, ''Cannot allocate memory''),
     (ERR_REMAP EFS_API_ECONNFAILED, ''Cannot connect to daemon''),
     (ERR_REMAP EFS_API_ERPCSENDFAILED, ''Cannot send requests to daemon''),
     (ERR_REMAP EFS_API_ERPCRECVFAILED, ''Cannot receive responses from daemon''),
     (ERR_REMAP EFS_API_EPACKFAILED, ''Cannot pack request''),
     (ERR_REMAP EFS_API_EUNPACKFAILED, ''Cannot unpack response''),
     (ERR_REMAP EFS_API_ENOSUCHTASK, ''Task does not exist''),
     (ERR_REMAP EFS_API_ETASKPENDING, ''Task pending''),
     (ERR_REMAP EFS_API_ETASKINPROGRESS, ''Task in progress''),
     (ERR_REMAP EFS_API_ENOSUCHPATH, ''Resource not found''),
     (ERR_REMAP EFS_API_EPATHEXISTS, ''Resource already imported''),
     (ERR_REMAP EFS_API_ERRMAX, ''Unknown error'')]"

text \<open>The result \<open>Some None\<close> is a null pointer, \<open>None\<close> an access outside of the table.\<close>

definition efs_strerror :: "int \<Rightarrow> string option option" where
  "efs_strerror errnum =
     (let errnum = (if errnum > EFS_API_ERRMAX then EFS_API_ERRMAX else errnum)
      in if ERR_REMAP errnum > EFS_API_ERRMAX then None else Some (map_of norns_errlist (ERR_REMAP errnum)))"

lemmas errlist_simps = efs_strerror_def norns_errlist_def ERR_REMAP_def Let_def api_codes

text \<open>
  The codes the daemon sends to its clients identify its error codes, are never positive,
  and the client library has a message for every one of them.
\<close>

theorem api_errors:
  "inj make_api_error \<and> make_api_error ec \<in> {- EFS_API_ERRMAX<..0} \<and> (make_api_error ec = EFS_API_SUCCESS) = (ec = success) \<and>
   (\<exists>s. efs_strerror (make_api_error ec) = Some (Some s))"
proof (intro conjI injI)
  show "a = b" if "make_api_error a = make_api_error b" for a b using that by (cases a; cases b) (simp_all add: api_codes)
qed (cases ec; simp add: errlist_simps)+

text \<open>
  A number below the smallest code reads outside of the table of messages, and a code that
  is not in use gives a null pointer.
\<close>

theorem strerror_out_of_table:
  "(\<forall>n < - EFS_API_ERRMAX. efs_strerror n = None) \<and> efs_strerror (- 16) = Some None"
  by (simp add: errlist_simps)

theorem strerror_out_of_table_witness: "(- 513 :: int) < - EFS_API_ERRMAX \<and> efs_strerror (- 513) = None"
  using strerror_out_of_table by (simp add: api_codes)

end
