(* ===== verification/Paths.thy ===== *)
theory Paths
  imports Prelude
begin

text \<open>
  Paths as the code sees them: the names between the slashes, and the elements by which
  \<open>boost::filesystem::path\<close> compares two paths.
\<close>

abbreviation slash :: char where
  "slash \<equiv> CHR ''/''"

section \<open>The components of a path\<close>

fun pieces :: "string \<Rightarrow> string list" where
  "pieces [] = [[]]"
| "pieces (c # p) = (if c = slash then [] # pieces p else (c # hd (pieces p)) # tl (pieces p))"

definition comps :: "string \<Rightarrow> string list" where
  "comps p = filter (\<lambda>x. x \<noteq> []) (pieces p)"

lemma pieces_nonempty [simp]: "pieces p \<noteq> []"
  by (cases p) auto

lemma pieces_append: "pieces (u @ slash # v) = pieces u @ pieces v"
  by (induction u) auto

lemma pieces_name: "slash \<notin> set x \<Longrightarrow> pieces x = [x]"
  by (induction x) auto

lemma comps_append: "comps (u @ slash # v) = comps u @ comps v"
  by (simp add: comps_def pieces_append)

lemma comps_name: "slash \<notin> set x \<Longrightarrow> comps x = (if x = [] then [] else [x])"
  by (simp add: comps_def pieces_name)

lemma comps_Nil [simp]: "comps [] = []"
  by (simp add: comps_def)

lemma comps_slash [simp]: "comps (slash # v) = comps v" "comps (u @ [slash]) = comps u"
  using comps_append[of "[]" v] comps_append[of u "[]"] by simp_all

section \<open>The elements of a path\<close>

text \<open>
  The elements of a \<open>boost::filesystem::path\<close>: a root name (two slashes and a name, or exactly
  two slashes), the root directory, the names, and a dot behind a final slash.  The operator
  \<open>==\<close> compares them one by one.
\<close>

definition root_name :: "string \<Rightarrow> string" where
  "root_name p = (if p = [slash, slash] then p
     else if take 2 p = [slash, slash] \<and> p ! 2 \<noteq> slash then [slash, slash] @ takeWhile (\<lambda>c. c \<noteq> slash) (drop 2 p)
     else [])"

definition path_elements :: "string \<Rightarrow> string list" where
  "path_elements p = (let r = root_name p; rest = drop (length r) p in
     (if r = [] then [] else [r]) @ (if take 1 rest = [slash] then [[slash]] else []) @ comps rest @
     (if comps rest \<noteq> [] \<and> last rest = slash then [''.''] else []))"

definition same_path :: "string \<Rightarrow> string \<Rightarrow> bool" where
  "same_path p q \<longleftrightarrow> path_elements p = path_elements q"

lemma same_path_refl [simp]: "same_path p p"
  by (simp add: same_path_def)

end
