(* ===== verification/Nvml_Backend.thy ===== *)
theory Nvml_Backend
  imports Nvml_File Efs_Errors Paths "HOL-Library.AList"
begin

unbundle bit_operations_syntax

text \<open>
  The name space of the NVML back end, \<open>src/src/backends/nvram-nvml/nvram-nvml.cpp\<close>, and its
  directories, \<open>dir.cpp\<close>.  Files and directories are found by their path in two hash maps;
  a directory holds the names of its entries, and its path ends with a slash.

  A hash map is the list of its entries and a hash set the list of its elements: what the
  theorems say does not depend on their order.  File objects are shared, so \<open>b_files\<close> holds
  their numbers and \<open>b_objs\<close> is the store.  The host system is a parameter.
\<close>

section \<open>Directories\<close>

record dir =
  d_pathname :: string
  d_type :: file_type
  d_files :: "string list"
  d_attributes :: stat

definition new_dir :: "string \<Rightarrow> size_t \<Rightarrow> stat \<Rightarrow> file_type \<Rightarrow> bool \<Rightarrow> dir" where
  "new_dir pathname inode original ty populate =
     \<lparr>d_pathname = pathname, d_type = ty, d_files = [],
      d_attributes = (if populate then original else null_stat)\<lparr>st_ino := inode, st_nlink := 1\<rparr>\<rparr>"

definition touch_links :: "int \<Rightarrow> size_t \<Rightarrow> stat \<Rightarrow> stat" where
  "touch_links now n st = st\<lparr>st_nlink := n, st_mtime := now, st_ctime := now\<rparr>"

definition add_file :: "int \<Rightarrow> dir \<Rightarrow> string \<Rightarrow> dir" where
  "add_file now d name = d\<lparr>d_files := List.insert name (d_files d),
     d_attributes := touch_links now (st_nlink (d_attributes d) + 1) (d_attributes d)\<rparr>"

definition remove_file :: "int \<Rightarrow> dir \<Rightarrow> string \<Rightarrow> dir" where
  "remove_file now d name = d\<lparr>d_files := List.removeAll name (d_files d),
     d_attributes := touch_links now (st_nlink (d_attributes d) - 1) (d_attributes d)\<rparr>"

definition list_files :: "dir \<Rightarrow> string list" where
  "list_files d = d_files d"

definition dir_find :: "dir \<Rightarrow> string \<Rightarrow> bool" where
  "dir_find d name \<longleftrightarrow> name \<in> set (d_files d)"

definition num_links :: "dir \<Rightarrow> nat" where
  "num_links d = length (d_files d)"

definition dir_stat :: "dir \<Rightarrow> stat" where
  "dir_stat d = d_attributes d"

definition dir_save_attributes :: "dir \<Rightarrow> stat \<Rightarrow> dir" where
  "dir_save_attributes d stbuf = d\<lparr>d_attributes := stbuf\<rparr>"

section \<open>State\<close>

record 'w host =
  h_uid :: nat
  h_gid :: nat
  h_time :: int
  h_exists :: "string \<Rightarrow> bool"
  h_is_directory :: "string \<Rightarrow> bool"
  h_entries :: "string \<Rightarrow> string list"
  h_open :: "string \<Rightarrow> int option"
  h_fstat :: "string \<Rightarrow> stat"
  h_mkdir :: "'w \<Rightarrow> string \<Rightarrow> int \<times> 'w"
  h_output :: "'w \<Rightarrow> string \<Rightarrow> byte list \<Rightarrow> 'w"
  h_nvml :: "string \<Rightarrow> 'w nvml_env"

record backend =
  b_capacity :: size_t
  b_root_dir :: string
  b_files :: "(string \<times> nat) list"
  b_objs :: "nat \<rightharpoonup> nvml_file"
  b_next :: nat
  b_dirs :: "(string \<times> dir) list"
  b_inode :: size_t

text \<open>The counter is converted to \<open>int\<close> and back to an inode number.\<close>

definition new_inode :: "backend \<Rightarrow> size_t \<times> backend" where
  "new_inode b = (scast (ucast (b_inode b) :: 32 word), b\<lparr>b_inode := b_inode b + 1\<rparr>)"

definition new_backend :: "'w host \<Rightarrow> size_t \<Rightarrow> size_t \<Rightarrow> string \<Rightarrow> stop + backend" where
  "new_backend h inode0 capacity root_dir = (case h_open h root_dir of
       None \<Rightarrow> Inl (Threw Opening_file)
     | Some _ \<Rightarrow>
         let (ino, b) = new_inode \<lparr>b_capacity = capacity, b_root_dir = root_dir, b_files = [], b_objs = (\<lambda>_. None), b_next = 0, b_dirs = [], b_inode = inode0\<rparr>
         in Inr (b\<lparr>b_dirs := [(''/'', new_dir ''/'' ino (h_fstat h root_dir) persistent True)]\<rparr>))"

section \<open>Paths\<close>

text \<open>\<open>substr(0, rfind('/') + 1)\<close> and \<open>substr(rfind('/') + 1)\<close>.\<close>

definition dir_part :: "string \<Rightarrow> string" where
  "dir_part p = rev (dropWhile (\<lambda>c. c \<noteq> slash) (rev p))"

definition base_part :: "string \<Rightarrow> string" where
  "base_part p = rev (takeWhile (\<lambda>c. c \<noteq> slash) (rev p))"

definition ensure_slash :: "string \<Rightarrow> string" where
  "ensure_slash p = (if p = [] \<or> last p \<noteq> slash then p @ [slash] else p)"

definition parent_of :: "string \<Rightarrow> string" where
  "parent_of p = ensure_slash (dir_part p)"

definition slashed :: "string \<Rightarrow> string" where
  "slashed p = (if length p > 1 then p @ [slash] else p)"

section \<open>Files\<close>

definition exists_file :: "backend \<Rightarrow> string \<Rightarrow> bool" where
  "exists_file b pathname \<longleftrightarrow> map_of (b_files b) pathname \<noteq> None"

definition find_file :: "backend \<Rightarrow> string \<Rightarrow> nat option" where
  "find_file b path = map_of (b_files b) path"

definition ENOENT :: int where "ENOENT = 2"
definition EEXIST :: int where "EEXIST = 17"
definition ENOTEMPTY :: int where "ENOTEMPTY = 39"
definition S_IFDIR :: nat where "S_IFDIR = 16384"

definition do_stat :: "backend \<Rightarrow> string \<Rightarrow> int \<times> stat option" where
  "do_stat b path = (case map_of (b_files b) path of
       Some i \<Rightarrow> (0, map_option file_stat (b_objs b i))
     | None \<Rightarrow> (case map_of (b_dirs b) (slashed path) of
           Some d \<Rightarrow> (0, Some (dir_stat d))
         | None \<Rightarrow> (- ENOENT, None)))"

definition list_in :: "'w host \<Rightarrow> backend \<Rightarrow> string \<Rightarrow> backend" where
  "list_in h b path = b\<lparr>b_dirs := AList.map_entry (parent_of path) (\<lambda>d. add_file (h_time h) d (base_part path)) (b_dirs b)\<rparr>"

definition unlist_in :: "'w host \<Rightarrow> backend \<Rightarrow> string \<Rightarrow> backend" where
  "unlist_in h b path = b\<lparr>b_dirs := AList.map_entry (parent_of path) (\<lambda>d. remove_file (h_time h) d (base_part path)) (b_dirs b)\<rparr>"

definition do_create :: "'w host \<Rightarrow> backend \<Rightarrow> string \<Rightarrow> nat \<Rightarrow> int \<times> nat option \<times> backend" where
  "do_create h b pathname mode =
     (if map_of (b_files b) pathname \<noteq> None then (-1, None, b)
      else if map_of (b_dirs b) (parent_of pathname) = None then (-1, None, b)
      else let b = list_in h b pathname;
               i = b_next b;
               (ino, b) = new_inode b;
               stbuf = \<lparr>st_ino = ino, st_mode = mode, st_nlink = 1, st_uid = h_uid h, st_gid = h_gid h, st_size = 0, st_blocks = 0,
                        st_atime = h_time h, st_mtime = h_time h, st_ctime = h_time h\<rparr>
           in (0, Some i, b\<lparr>b_files := emplace pathname i (b_files b), b_objs := (b_objs b)(i \<mapsto> save_attributes (new_file temporary 0) stbuf),
                            b_next := Suc i\<rparr>))"

definition do_unlink :: "'w host \<Rightarrow> backend \<Rightarrow> string \<Rightarrow> int \<times> backend" where
  "do_unlink h b path =
     (if map_of (b_files b) path = None then (- ENOENT, b)
      else (0, unlist_in h (b\<lparr>b_files := AList.delete path (b_files b)\<rparr>) path))"

definition do_renamedir :: "'w host \<Rightarrow> backend \<Rightarrow> string \<Rightarrow> string \<Rightarrow> int \<times> backend" where
  "do_renamedir h b opath npath =
     (if map_of (b_dirs b) npath \<noteq> None then (- EEXIST, b)
      else case map_of (b_dirs b) opath of
          None \<Rightarrow> (- ENOENT, b)
        | Some d \<Rightarrow>
            let stbuf = (dir_stat d)\<lparr>st_mtime := h_time h, st_ctime := h_time h\<rparr>
            in (0, b\<lparr>b_dirs := AList.delete opath (emplace npath (dir_save_attributes d stbuf) (b_dirs b))\<rparr>))"

text \<open>Without the file at the old path the iterator of \<open>do_rename\<close> is at the end, and the code follows it.\<close>

definition do_rename :: "'w host \<Rightarrow> backend \<Rightarrow> string \<Rightarrow> string \<Rightarrow> (int \<times> backend) option" where
  "do_rename h b opath npath =
     (if map_of (b_dirs b) (slashed opath) \<noteq> None then Some (do_renamedir h b (slashed opath) (slashed npath))
      else if map_of (b_files b) opath = None then Some (- ENOENT, b)
      else let b = (if map_of (b_files b) npath \<noteq> None then unlist_in h (b\<lparr>b_files := AList.delete npath (b_files b)\<rparr>) npath else b)
           in do {
             i \<leftarrow> map_of (b_files b) opath;
             f \<leftarrow> b_objs b i;
             let stbuf = (file_stat f)\<lparr>st_ctime := h_time h, st_mtime := h_time h\<rparr>;
             let b = b\<lparr>b_objs := (b_objs b)(i \<mapsto> save_attributes f stbuf), b_files := AList.delete opath (emplace npath i (b_files b))\<rparr>;
             Some (0, list_in h (unlist_in h b opath) npath) })"

section \<open>Directory operations\<close>

definition do_mkdir :: "'w host \<Rightarrow> backend \<Rightarrow> string \<Rightarrow> nat \<Rightarrow> (int \<times> backend) option" where
  "do_mkdir h b pathname mode = (
     let p = ensure_slash pathname
     in if map_of (b_dirs b) p \<noteq> None then Some (-1, b)
        else let (ino, b) = new_inode b;
                 d = new_dir p ino null_stat temporary False;
                 stbuf = (dir_stat d)\<lparr>st_uid := h_uid h, st_gid := h_gid h, st_mode := mode OR S_IFDIR,
                           st_atime := h_time h, st_mtime := h_time h, st_ctime := h_time h\<rparr>;
                 b = b\<lparr>b_dirs := emplace p (dir_save_attributes d stbuf) (b_dirs b)\<rparr>;
                 q = butlast p
             in if map_of (b_dirs b) (dir_part q) = None then None
                else Some (0, b\<lparr>b_dirs := AList.map_entry (dir_part q) (\<lambda>d. add_file (h_time h) d (base_part q)) (b_dirs b)\<rparr>))"

definition do_rmdir :: "'w host \<Rightarrow> backend \<Rightarrow> string \<Rightarrow> (int \<times> backend) option" where
  "do_rmdir h b pathname = (
     let p = ensure_slash pathname
     in case map_of (b_dirs b) p of
          None \<Rightarrow> Some (- ENOENT, b)
        | Some d \<Rightarrow>
            if st_nlink (dir_stat d) \<noteq> 1 then Some (- ENOTEMPTY, b)
            else let b = b\<lparr>b_dirs := AList.delete p (b_dirs b)\<rparr>;
                     q = butlast p
                 in if map_of (b_dirs b) (dir_part q) = None then None
                    else Some (0, b\<lparr>b_dirs := AList.map_entry (dir_part q) (\<lambda>d. remove_file (h_time h) d (base_part q)) (b_dirs b)\<rparr>))"

text \<open>\<open>do_chmod\<close> and \<open>do_chown\<close> look for a directory first; a path is not empty.\<close>

definition change_attributes :: "'w host \<Rightarrow> backend \<Rightarrow> string \<Rightarrow> (stat \<Rightarrow> stat) \<Rightarrow> (int \<times> backend) option" where
  "change_attributes h b pathname g =
     (if pathname = [] then None
      else let upd = (\<lambda>st. (g st)\<lparr>st_ctime := h_time h\<rparr>)
           in case map_of (b_dirs b) (ensure_slash pathname) of
             Some d \<Rightarrow> Some (0, b\<lparr>b_dirs := AList.map_entry (ensure_slash pathname) (\<lambda>d. dir_save_attributes d (upd (dir_stat d))) (b_dirs b)\<rparr>)
           | None \<Rightarrow> (case map_of (b_files b) pathname of
               None \<Rightarrow> Some (- ENOENT, b)
             | Some i \<Rightarrow> do { f \<leftarrow> b_objs b i; Some (0, b\<lparr>b_objs := (b_objs b)(i \<mapsto> save_attributes f (upd (file_stat f)))\<rparr>) }))"

definition do_chmod :: "'w host \<Rightarrow> backend \<Rightarrow> string \<Rightarrow> nat \<Rightarrow> (int \<times> backend) option" where
  "do_chmod h b pathname mode = change_attributes h b pathname (\<lambda>st. st\<lparr>st_mode := mode\<rparr>)"

definition do_chown :: "'w host \<Rightarrow> backend \<Rightarrow> string \<Rightarrow> nat \<Rightarrow> nat \<Rightarrow> (int \<times> backend) option" where
  "do_chown h b pathname owner grp = change_attributes h b pathname (\<lambda>st. st\<lparr>st_uid := owner, st_gid := grp\<rparr>)"

definition find_s :: "backend \<Rightarrow> string \<Rightarrow> string list" where
  "find_s b path = (let tmp_path = (if path \<noteq> [] \<and> last path \<noteq> slash then path @ [slash] else path)
     in case map_of (b_dirs b) tmp_path of None \<Rightarrow> [] | Some d \<Rightarrow> list_files d)"

definition do_readdir :: "backend \<Rightarrow> string \<Rightarrow> string list" where
  "do_readdir b path = [''.'', ''..''] @ map (\<lambda>f. if f \<noteq> [] \<and> last f = slash then butlast f else f) (find_s b path)"

section \<open>Loading and unloading\<close>

fun find_sub :: "string \<Rightarrow> string \<Rightarrow> nat option" where
  "find_sub pat [] = (if pat = [] then Some 0 else None)"
| "find_sub pat (c # cs) = (if take (length pat) (c # cs) = pat then Some 0 else map_option Suc (find_sub pat cs))"

fun rfind_sub :: "string \<Rightarrow> string \<Rightarrow> nat option" where
  "rfind_sub pat [] = (if pat = [] then Some 0 else None)"
| "rfind_sub pat (c # cs) = (case rfind_sub pat cs of Some i \<Rightarrow> Some (Suc i)
     | None \<Rightarrow> if take (length pat) (c # cs) = pat then Some 0 else None)"

text \<open>The file name of a path, and its parts, as \<open>boost::filesystem::path\<close> gives them.\<close>

definition path_filename :: "string \<Rightarrow> string" where
  "path_filename p = (if p = [] then [] else if last p \<noteq> slash then base_part p else if list_all (\<lambda>c. c = slash) p then [slash] else ''.'')"

fun split_slash :: "string \<Rightarrow> string list" where
  "split_slash [] = [[]]"
| "split_slash (c # cs) = (if c = slash then [] # split_slash cs
     else case split_slash cs of [] \<Rightarrow> [[c]] | w # ws \<Rightarrow> (c # w) # ws)"

definition path_parts :: "string \<Rightarrow> string list" where
  "path_parts p = (if p \<noteq> [] \<and> hd p = slash then [[slash]] else []) @ filter (\<lambda>w. w \<noteq> []) (split_slash p) @
     (if p \<noteq> [] \<and> last p = slash \<and> \<not> list_all (\<lambda>c. c = slash) p then [''.''] else [])"

text \<open>An empty root directory makes the position wrap around, and \<open>substr\<close> throws.\<close>

definition remove_root :: "backend \<Rightarrow> string \<Rightarrow> string option" where
  "remove_root b pathname = (case find_sub (b_root_dir b) pathname of
       None \<Rightarrow> Some (slash # path_filename pathname)
     | Some rdir \<Rightarrow> if b_root_dir b = [] then None else Some (drop (rdir + length (b_root_dir b) - 1) pathname))"

text \<open>The directories on the way to a file that is loaded.\<close>

fun load_dirs :: "'w host \<Rightarrow> backend \<Rightarrow> string \<Rightarrow> string list \<Rightarrow> (stop + (string \<times> backend)) option" where
  "load_dirs h b path [] = Some (Inr (path, b))"
| "load_dirs h b path (part # parts) = (
     let path = path @ part @ [slash]
     in if map_of (b_dirs b) path \<noteq> None then load_dirs h b path parts
        else let (ino, b) = new_inode b
             in case h_open h (b_root_dir b @ path) of
                  None \<Rightarrow> Some (Inl (Threw Opening_file))
                | Some _ \<Rightarrow>
                    let b = b\<lparr>b_dirs := emplace path (new_dir path ino (h_fstat h (b_root_dir b @ path)) persistent True) (b_dirs b)\<rparr>;
                        parent = (case rfind_sub part path of Some i \<Rightarrow> take i path | None \<Rightarrow> path)
                    in if map_of (b_dirs b) parent = None then None
                       else load_dirs h (b\<lparr>b_dirs := AList.map_entry parent (\<lambda>d. add_file (h_time h) d part) (b_dirs b)\<rparr>) path parts)"

definition load_one :: "'w host \<Rightarrow> backend \<Rightarrow> 'w machine \<Rightarrow> string \<Rightarrow> file_type \<Rightarrow> (stop + (error_code \<times> backend \<times> 'w machine)) option" where
  "load_one h b s pathname ty = do {
     path_wo_root \<leftarrow> remove_root b pathname;
     if map_of (b_files b) path_wo_root \<noteq> None then Some (Inr (path_already_imported, b, s))
     else let (ino, b) = new_inode b
          in ebind (load_file (h_nvml h pathname) ty 0 ino (h_open h pathname) (h_fstat h pathname) s) (\<lambda>(f, s).
             let i = b_next b;
                 b = b\<lparr>b_files := emplace path_wo_root i (b_files b), b_objs := (b_objs b)(i \<mapsto> f), b_next := Suc i\<rparr>;
                 m_path = path_parts path_wo_root
             in if m_path = [] then None
                else ebind (load_dirs h b [slash] (tl (butlast m_path))) (\<lambda>(path, b).
                  if map_of (b_dirs b) path = None then Some (Inr (internal_error, b, s))
                  else Some (Inr (success, b\<lparr>b_dirs := AList.map_entry path (\<lambda>d. add_file (h_time h) d (last m_path)) (b_dirs b)\<rparr>, s)))) }"

fun load_entries :: "'w host \<Rightarrow> backend \<Rightarrow> 'w machine \<Rightarrow> string list \<Rightarrow> file_type \<Rightarrow> (stop + (error_code \<times> backend \<times> 'w machine)) option" where
  "load_entries h b s [] ty = Some (Inr (success, b, s))"
| "load_entries h b s (e # es) ty =
     (if h_is_directory h e then load_entries h b s es ty
      else if \<not> h_exists h e then Some (Inr (no_such_path, b, s))
      else ebind (load_one h b s e ty) (\<lambda>(ec, b, s). if ec \<noteq> success then Some (Inr (ec, b, s)) else load_entries h b s es ty))"

definition load :: "'w host \<Rightarrow> backend \<Rightarrow> 'w machine \<Rightarrow> string \<Rightarrow> file_type \<Rightarrow> (stop + (error_code \<times> backend \<times> 'w machine)) option" where
  "load h b s pathname ty =
     (if \<not> h_exists h pathname then Some (Inr (no_such_path, b, s))
      else do {
        _ \<leftarrow> remove_root b pathname;
        if h_is_directory h pathname then load_entries h b s (h_entries h pathname) ty
        else load_one h b s pathname ty })"

definition PATH_MAX :: nat where "PATH_MAX = 4096"

text \<open>The loop of \<open>mkdir_p\<close> from position \<open>i\<close>: every prefix before a slash is created.\<close>

function mkdir_loop :: "'w host \<Rightarrow> 'w \<Rightarrow> string \<Rightarrow> nat \<Rightarrow> int \<times> 'w" where
  "mkdir_loop h w path i =
     (if i < length path
      then if path ! i = slash
           then case h_mkdir h w (take i path) of
                  (e, w) \<Rightarrow> if e \<noteq> 0 \<and> e \<noteq> EEXIST then (-1, w) else mkdir_loop h w path (Suc i)
           else mkdir_loop h w path (Suc i)
      else case h_mkdir h w path of (e, w) \<Rightarrow> if e \<noteq> 0 \<and> e \<noteq> EEXIST then (-1, w) else (0, w))"
  by pat_completeness auto
termination by (relation "measure (\<lambda>(h, w, path, i). length path - i)") auto

declare mkdir_loop.simps [simp del]

text \<open>With an empty path the loop would start behind the terminator of the string.\<close>

definition mkdir_p :: "'w host \<Rightarrow> 'w \<Rightarrow> string \<Rightarrow> (int \<times> 'w) option" where
  "mkdir_p h w path =
     (if length path > PATH_MAX - 1 then Some (-1, w)
      else if path = [] then None
      else Some (mkdir_loop h w path 1))"

text \<open>\<open>substr(0, rfind("/"))\<close>: the whole path if there is no slash.\<close>

definition before_slash :: "string \<Rightarrow> string" where
  "before_slash p = (if slash \<in> set p then butlast (dir_part p) else p)"

fun unload_files :: "'w host \<Rightarrow> backend \<Rightarrow> 'w machine \<Rightarrow> string \<Rightarrow> (string \<times> nat) list \<Rightarrow> (stop + (error_code \<times> backend \<times> 'w machine)) option" where
  "unload_files h b s pathname [] = Some (Inr (success, b, s))"
| "unload_files h b s pathname ((p, i) # fs) = do {
     (err, w) \<leftarrow> mkdir_p h (mc_world s) (pathname @ before_slash p);
     let s = s\<lparr>mc_world := w\<rparr>;
     if err < 0 then Some (Inr (internal_error, b, s))
     else if p = [] then None
     else do {
       f \<leftarrow> b_objs b i;
       ebind (file_unload (h_nvml h p) f s) (\<lambda>(rv, bs, f).
         let s = (if rv < 0 then s else s\<lparr>mc_world := h_output h (mc_world s) (pathname @ tl p) bs\<rparr>)
         in unload_files h (b\<lparr>b_objs := (b_objs b)(i \<mapsto> f)\<rparr>) s pathname fs) } }"

definition unload :: "'w host \<Rightarrow> backend \<Rightarrow> 'w machine \<Rightarrow> string \<Rightarrow> (stop + (error_code \<times> backend \<times> 'w machine)) option" where
  "unload h b s pathname = unload_files h b s pathname (b_files b)"

definition do_change_type :: "backend \<Rightarrow> string \<Rightarrow> file_type \<Rightarrow> backend option" where
  "do_change_type b path ty = do {
     p \<leftarrow> remove_root b path;
     case map_of (b_files b) p of
       None \<Rightarrow> Some b
     | Some i \<Rightarrow> do { f \<leftarrow> b_objs b i; Some (b\<lparr>b_objs := (b_objs b)(i \<mapsto> change_type f ty)\<rparr>) } }"

end
