(* ===== verification/Nvml_Names.thy ===== *)
theory Nvml_Names
  imports Nvml_Backend
begin

text \<open>
  The invariant of the name space: a directory lists exactly the files and directories whose
  path is its own followed by a name, its link count is one more than the number of its
  entries, and every file and directory but the root is in a directory.
\<close>

section \<open>Paths\<close>

definition valid_name :: "string \<Rightarrow> bool" where
  "valid_name n \<longleftrightarrow> n \<noteq> [] \<and> slash \<notin> set n"

definition dir_path :: "string \<Rightarrow> bool" where
  "dir_path p \<longleftrightarrow> p \<noteq> [] \<and> last p = slash"

lemma dir_pathE: "dir_path p \<Longrightarrow> (\<And>q. p = q @ [slash] \<Longrightarrow> thesis) \<Longrightarrow> thesis"
  by (cases p rule: rev_cases) (auto simp: dir_path_def)

lemma dir_path_slash [simp]: "dir_path (p @ [slash])" "dir_path (p @ n @ [slash])" "dir_path [slash]"
  by (simp_all add: dir_path_def)

lemma takeWhile_name: "slash \<notin> set n \<Longrightarrow> takeWhile (\<lambda>c. c \<noteq> slash) (rev n @ slash # q) = rev n" "slash \<notin> set n \<Longrightarrow> dropWhile (\<lambda>c. c \<noteq> slash) (rev n @ slash # q) = slash # q"
  by (induction n rule: rev_induct) auto

lemma parts_of:
  assumes "dir_path p" "slash \<notin> set n"
  shows "dir_part (p @ n) = p" "base_part (p @ n) = n" "parent_of (p @ n) = p"
proof -
  from assms(1) obtain q where p: "p = q @ [slash]" by (rule dir_pathE)
  show d: "dir_part (p @ n) = p" and "base_part (p @ n) = n"
    using takeWhile_name[OF assms(2), of "rev q"] by (simp_all add: dir_part_def base_part_def p)
  then show "parent_of (p @ n) = p" by (simp add: parent_of_def ensure_slash_def p)
qed

lemma path_unique:
  assumes "dir_path p" "dir_path q" "slash \<notin> set n" "slash \<notin> set m" "p @ n = q @ m"
  shows "p = q \<and> n = m"
  using parts_of(1,2)[OF assms(1,3)] parts_of(1,2)[OF assms(2,4)] assms(5) by metis

lemma dir_path_unique:
  assumes "dir_path p" "dir_path q" "slash \<notin> set n" "slash \<notin> set m" "p @ n @ [slash] = q @ m @ [slash]"
  shows "p = q \<and> n = m"
proof -
  have "p @ n = q @ m" using assms(5) by (metis append_assoc butlast_snoc)
  then show ?thesis using path_unique[OF assms(1-4)] by simp
qed

lemma name_not_dir: "valid_name n \<Longrightarrow> \<not> dir_path (p @ n)"
  by (cases n rule: rev_cases) (auto simp: valid_name_def dir_path_def)

section \<open>The invariant\<close>

definition listing_ok :: "string set \<Rightarrow> (string \<times> dir) list \<Rightarrow> bool" where
  "listing_ok F ds \<longleftrightarrow> (\<forall>p d. map_of ds p = Some d \<longrightarrow> dir_path p \<and> distinct (d_files d) \<and>
     (\<forall>n. n \<in> set (d_files d) \<longleftrightarrow> valid_name n \<and> (p @ n \<in> F \<or> p @ n @ [slash] \<in> dom (map_of ds))) \<and>
     st_nlink (d_attributes d) = of_nat (Suc (length (d_files d))))"

definition tree_closed :: "string set \<Rightarrow> string set \<Rightarrow> bool" where
  "tree_closed F D \<longleftrightarrow> [slash] \<in> D \<and> (\<forall>f \<in> F. \<exists>p n. p \<in> D \<and> valid_name n \<and> f = p @ n) \<and>
     (\<forall>q \<in> D. q = [slash] \<or> (\<exists>p n. p \<in> D \<and> valid_name n \<and> q = p @ n @ [slash])) \<and> (\<forall>f \<in> F. f @ [slash] \<notin> D)"

definition ns_files :: "backend \<Rightarrow> string set" where
  "ns_files b = dom (map_of (b_files b))"

definition ns_dirs :: "backend \<Rightarrow> string set" where
  "ns_dirs b = dom (map_of (b_dirs b))"

definition ns_ok :: "backend \<Rightarrow> bool" where
  "ns_ok b \<longleftrightarrow> listing_ok (ns_files b) (b_dirs b) \<and> tree_closed (ns_files b) (ns_dirs b) \<and>
     (\<forall>i \<in> ran (map_of (b_files b)). b_objs b i \<noteq> None)"

lemma map_of_delete [simp]: "map_of (AList.delete k al) = (map_of al)(k := None)"
  by (rule AList.delete_conv')

lemma dom_entry [simp]: "dom (map_of (AList.map_entry k f al)) = dom (map_of al)"
  by (auto simp: map_of_map_entry split: option.splits if_splits)

lemma add_file_simps [simp]: "d_files (add_file now d n) = List.insert n (d_files d)" "st_nlink (d_attributes (add_file now d n)) = st_nlink (d_attributes d) + 1"
  by (simp_all add: add_file_def touch_links_def)

lemma remove_file_simps [simp]: "d_files (remove_file now d n) = List.removeAll n (d_files d)" "st_nlink (d_attributes (remove_file now d n)) = st_nlink (d_attributes d) - 1"
  by (simp_all add: remove_file_def touch_links_def)

lemma length_removeAll_distinct: "distinct xs \<Longrightarrow> x \<in> set xs \<Longrightarrow> Suc (length (removeAll x xs)) = length xs"
  by (induction xs) (auto simp: removeAll_id)

text \<open>A new entry of one directory, whether a file or a directory.\<close>

lemma listing_add:
  assumes L: "listing_ok F ds" and n: "valid_name n" "dir_path p" and fresh: "p @ n \<notin> F" "p @ n @ [slash] \<notin> dom (map_of ds)"
  shows "listing_ok (insert (p @ n) F) (AList.map_entry p (\<lambda>d. add_file now d n) ds)"
  unfolding listing_ok_def
proof (intro allI impI)
  fix q d
  assume q: "map_of (AList.map_entry p (\<lambda>d. add_file now d n) ds) q = Some d"
  then obtain d0 where d0: "map_of ds q = Some d0" "d = (if q = p then add_file now d0 n else d0)"
    by (auto simp: map_of_map_entry split: if_splits option.splits)
  have l: "dir_path q" "distinct (d_files d0)" "\<forall>m. m \<in> set (d_files d0) \<longleftrightarrow> valid_name m \<and> (q @ m \<in> F \<or> q @ m @ [slash] \<in> dom (map_of ds))"
    "st_nlink (d_attributes d0) = of_nat (Suc (length (d_files d0)))" using L d0(1) by (auto simp: listing_ok_def)
  have u: "q @ m = p @ n \<longleftrightarrow> q = p \<and> m = n" if "valid_name m" for m using path_unique[OF l(1) n(2)] n(1) that by (auto simp: valid_name_def)
  have ni: "n \<notin> set (d_files d0)" if "q = p" using l(3) fresh that by auto
  show "dir_path q \<and> distinct (d_files d) \<and> (\<forall>m. m \<in> set (d_files d) \<longleftrightarrow> valid_name m \<and> (q @ m \<in> insert (p @ n) F \<or> q @ m @ [slash] \<in> dom (map_of (AList.map_entry p (\<lambda>d. add_file now d n) ds)))) \<and>
      st_nlink (d_attributes d) = of_nat (Suc (length (d_files d)))"
  proof (cases "q = p")
    case True
    then show ?thesis using l u ni[OF True] n(1) d0(2) by (auto simp: List.insert_def)
  next
    case False
    then show ?thesis using l u d0(2) by auto
  qed
qed

lemma listing_remove:
  assumes L: "listing_ok (insert (p @ n) F) ds" and n: "valid_name n" "dir_path p" and gone: "p @ n \<notin> F" "p @ n @ [slash] \<notin> dom (map_of ds)"
  shows "listing_ok F (AList.map_entry p (\<lambda>d. remove_file now d n) ds)"
  unfolding listing_ok_def
proof (intro allI impI)
  fix q d
  assume q: "map_of (AList.map_entry p (\<lambda>d. remove_file now d n) ds) q = Some d"
  then obtain d0 where d0: "map_of ds q = Some d0" "d = (if q = p then remove_file now d0 n else d0)"
    by (auto simp: map_of_map_entry split: if_splits option.splits)
  have l: "dir_path q" "distinct (d_files d0)" "\<forall>m. m \<in> set (d_files d0) \<longleftrightarrow> valid_name m \<and> (q @ m \<in> insert (p @ n) F \<or> q @ m @ [slash] \<in> dom (map_of ds))"
    "st_nlink (d_attributes d0) = of_nat (Suc (length (d_files d0)))" using L d0(1) by (auto simp: listing_ok_def)
  have u: "q @ m = p @ n \<longleftrightarrow> q = p \<and> m = n" if "valid_name m" for m using path_unique[OF l(1) n(2)] n(1) that by (auto simp: valid_name_def)
  have i: "n \<in> set (d_files d0)" if "q = p" using l(3) n(1) that by simp
  show "dir_path q \<and> distinct (d_files d) \<and> (\<forall>m. m \<in> set (d_files d) \<longleftrightarrow> valid_name m \<and> (q @ m \<in> F \<or> q @ m @ [slash] \<in> dom (map_of (AList.map_entry p (\<lambda>d. remove_file now d n) ds)))) \<and>
      st_nlink (d_attributes d) = of_nat (Suc (length (d_files d)))"
  proof (cases "q = p")
    case True
    have "Suc (length (removeAll n (d_files d0))) = length (d_files d0)" by (rule length_removeAll_distinct[OF l(2) i[OF True]])
    then have "st_nlink (d_attributes d0) = of_nat (Suc (Suc (length (removeAll n (d_files d0)))))" using l(4) by simp
    then have "st_nlink (d_attributes d) = of_nat (Suc (length (d_files d)))" using True d0(2) by simp
    moreover have "m \<in> set (d_files d) \<longleftrightarrow> valid_name m \<and> (q @ m \<in> F \<or> q @ m @ [slash] \<in> dom (map_of ds))" for m
      using l(3) u gone True d0(2) by auto
    ultimately show ?thesis using l(1,2) True d0(2) by (simp add: distinct_removeAll)
  next
    case False
    then show ?thesis using l u d0(2) by auto
  qed
qed


text \<open>A file that becomes an empty directory of the same name, and the reverse.\<close>

lemma listing_dir_of_file:
  assumes L: "listing_ok (insert (p @ n) F) ds" and n: "valid_name n" "dir_path p" and new: "p @ n \<notin> F" "p @ n @ [slash] \<notin> dom (map_of ds)"
    and d: "d_files d = []" "st_nlink (d_attributes d) = 1" and e: "\<And>m. valid_name m \<Longrightarrow> p @ n @ [slash] @ m \<notin> F \<and> p @ n @ [slash] @ m @ [slash] \<notin> dom (map_of ds)"
  shows "listing_ok F ((p @ n @ [slash], d) # ds)"
  unfolding listing_ok_def
proof (intro allI impI)
  fix q c
  let ?ds = "(p @ n @ [slash], d) # ds"
  assume q: "map_of ?ds q = Some c"
  show "dir_path q \<and> distinct (d_files c) \<and> (\<forall>m. m \<in> set (d_files c) \<longleftrightarrow> valid_name m \<and> (q @ m \<in> F \<or> q @ m @ [slash] \<in> dom (map_of ?ds))) \<and>
      st_nlink (d_attributes c) = of_nat (Suc (length (d_files c)))"
  proof (cases "q = p @ n @ [slash]")
    case True
    then show ?thesis using q d e by auto
  next
    case False
    then have c: "map_of ds q = Some c" using q by simp
    have l: "dir_path q" "\<forall>m. m \<in> set (d_files c) \<longleftrightarrow> valid_name m \<and> (q @ m \<in> insert (p @ n) F \<or> q @ m @ [slash] \<in> dom (map_of ds))"
      using L c unfolding listing_ok_def by blast+
    have u: "(q @ m = p @ n \<longleftrightarrow> q = p \<and> m = n) \<and> (q @ m @ [slash] = p @ n @ [slash] \<longleftrightarrow> q = p \<and> m = n)" if "valid_name m" for m
      using path_unique[OF l(1) n(2)] dir_path_unique[OF l(1) n(2)] n(1) that by (auto simp: valid_name_def)
    have "\<forall>m. m \<in> set (d_files c) \<longleftrightarrow> valid_name m \<and> (q @ m \<in> F \<or> q @ m @ [slash] \<in> dom (map_of ?ds))"
      using l(2) u by auto
    then show ?thesis using L c unfolding listing_ok_def by blast
  qed
qed

lemma listing_file_of_dir:
  assumes L: "listing_ok F ds" and n: "valid_name n" "dir_path p" and q: "p @ n @ [slash] \<in> dom (map_of ds)"
  shows "listing_ok (insert (p @ n) F) (AList.delete (p @ n @ [slash]) ds)"
  unfolding listing_ok_def
proof (intro allI impI)
  fix q c
  let ?ds = "AList.delete (p @ n @ [slash]) ds"
  assume "map_of ?ds q = Some c"
  then have c: "map_of ds q = Some c" "q \<noteq> p @ n @ [slash]" by (auto split: if_splits)
  have l: "dir_path q" "\<forall>m. m \<in> set (d_files c) \<longleftrightarrow> valid_name m \<and> (q @ m \<in> F \<or> q @ m @ [slash] \<in> dom (map_of ds))"
    using L c unfolding listing_ok_def by blast+
  have u: "(q @ m = p @ n \<longleftrightarrow> q = p \<and> m = n) \<and> (q @ m @ [slash] = p @ n @ [slash] \<longleftrightarrow> q = p \<and> m = n)" if "valid_name m" for m
    using path_unique[OF l(1) n(2)] dir_path_unique[OF l(1) n(2)] n(1) that by (auto simp: valid_name_def)
  have "\<forall>m. m \<in> set (d_files c) \<longleftrightarrow> valid_name m \<and> (q @ m \<in> insert (p @ n) F \<or> q @ m @ [slash] \<in> dom (map_of ?ds))"
    using l(2) u q by (auto split: if_splits)
  then show "dir_path q \<and> distinct (d_files c) \<and> (\<forall>m. m \<in> set (d_files c) \<longleftrightarrow> valid_name m \<and> (q @ m \<in> insert (p @ n) F \<or> q @ m @ [slash] \<in> dom (map_of ?ds))) \<and>
      st_nlink (d_attributes c) = of_nat (Suc (length (d_files c)))"
    using L c(1) unfolding listing_ok_def by blast
qed

section \<open>Operations\<close>

lemma ns_okD:
  assumes "ns_ok b"
  shows "listing_ok (ns_files b) (b_dirs b)" "tree_closed (ns_files b) (ns_dirs b)" "\<And>i p. map_of (b_files b) p = Some i \<Longrightarrow> \<exists>f. b_objs b i = Some f"
  using assms by (auto simp: ns_ok_def ran_def)

lemma ns_dir_path: "ns_ok b \<Longrightarrow> p \<in> ns_dirs b \<Longrightarrow> dir_path p"
  by (auto simp: ns_ok_def listing_ok_def ns_dirs_def)

lemma new_inode_simps [simp]:
  "b_files (snd (new_inode b)) = b_files b" "b_dirs (snd (new_inode b)) = b_dirs b" "b_objs (snd (new_inode b)) = b_objs b" "b_next (snd (new_inode b)) = b_next b"
  by (simp_all add: new_inode_def)

lemma closed_add_file:
  assumes "tree_closed F D" "p \<in> D" "valid_name n" "p @ n @ [slash] \<notin> D"
  shows "tree_closed (insert (p @ n) F) D"
  using assms by (auto simp: tree_closed_def)

lemma closed_del_file: "tree_closed F D \<Longrightarrow> tree_closed (F - {f}) D"
  by (auto simp: tree_closed_def)

lemma ns_file_path:
  assumes "ns_ok b" "f \<in> ns_files b"
  obtains p n where "p \<in> ns_dirs b" "dir_path p" "valid_name n" "f = p @ n" "p @ n @ [slash] \<notin> ns_dirs b"
  using assms ns_dir_path[OF assms(1)] unfolding ns_ok_def tree_closed_def by (metis append_assoc)

lemma valid_nameD: "valid_name n \<Longrightarrow> slash \<notin> set n"
  by (simp add: valid_name_def)

lemma do_create_run:
  assumes ok: "ns_ok b" and p: "p \<in> ns_dirs b" "valid_name n" and fresh: "p @ n \<notin> ns_files b" "p @ n @ [slash] \<notin> ns_dirs b"
  shows "\<exists>b'. do_create h b (p @ n) mode = (0, Some (b_next b), b') \<and> ns_ok b' \<and> ns_files b' = insert (p @ n) (ns_files b) \<and> ns_dirs b' = ns_dirs b \<and>
    map_of (b_files b') = (map_of (b_files b))(p @ n \<mapsto> b_next b) \<and> (\<exists>st. b_objs b' = (b_objs b)(b_next b \<mapsto> save_attributes (new_file temporary 0) st) \<and> st_size st = 0)"
proof -
  have dp: "dir_path p" by (rule ns_dir_path[OF ok p(1)])
  note P = parts_of[OF dp valid_nameD[OF p(2)]]
  have f: "map_of (b_files b) (p @ n) = None" "map_of (b_dirs b) p \<noteq> None" using fresh(1) p(1) by (auto simp: ns_files_def ns_dirs_def)
  let ?ds = "AList.map_entry p (\<lambda>d. add_file (h_time h) d n) (b_dirs b)"
  have L: "listing_ok (insert (p @ n) (ns_files b)) ?ds"
    using listing_add[OF ns_okD(1)[OF ok] p(2) dp fresh(1), of "h_time h"] fresh(2) by (simp add: ns_dirs_def)
  let ?st = "\<lparr>st_ino = fst (new_inode b), st_mode = mode, st_nlink = 1, st_uid = h_uid h, st_gid = h_gid h, st_size = 0, st_blocks = 0,
      st_atime = h_time h, st_mtime = h_time h, st_ctime = h_time h\<rparr>"
  obtain b' where b': "do_create h b (p @ n) mode = (0, Some (b_next b), b')" "b_files b' = (p @ n, b_next b) # b_files b" "b_dirs b' = ?ds"
      "b_objs b' = (b_objs b)(b_next b \<mapsto> save_attributes (new_file temporary 0) ?st)"
    using f by (auto simp: do_create_def P list_in_def emplace_def new_inode_def Let_def)
  have F: "ns_files b' = insert (p @ n) (ns_files b)" "ns_dirs b' = ns_dirs b" by (auto simp: ns_files_def ns_dirs_def b'(2,3))
  have "ns_ok b'" unfolding ns_ok_def F using L closed_add_file[OF ns_okD(2)[OF ok] p(1,2)] fresh(2) ns_okD(3)[OF ok] b'(2-4)
    by (auto simp: ran_def split: if_splits)
  moreover have "st_size ?st = 0" by simp
  ultimately show ?thesis using b' F by (metis map_of.simps(2) fst_conv snd_conv)
qed

lemma do_unlink_run:
  assumes ok: "ns_ok b" and f: "f \<in> ns_files b"
  shows "\<exists>b'. do_unlink h b f = (0, b') \<and> ns_ok b' \<and> ns_files b' = ns_files b - {f} \<and> ns_dirs b' = ns_dirs b"
proof -
  from ns_file_path[OF ok f] obtain p n where p: "p \<in> ns_dirs b" "dir_path p" "valid_name n" "f = p @ n" "p @ n @ [slash] \<notin> ns_dirs b" .
  note P = parts_of[OF p(2) valid_nameD[OF p(3)]]
  let ?ds = "AList.map_entry p (\<lambda>d. remove_file (h_time h) d n) (b_dirs b)"
  have "insert (p @ n) (ns_files b - {f}) = ns_files b" using f p(4) by auto
  then have L: "listing_ok (ns_files b - {f}) ?ds"
    using listing_remove[of p n "ns_files b - {f}" "b_dirs b" "h_time h"] ns_okD(1)[OF ok] p by (simp add: ns_dirs_def)
  obtain b' where b': "do_unlink h b f = (0, b')" "b_files b' = AList.delete f (b_files b)" "b_dirs b' = ?ds" "b_objs b' = b_objs b"
    using f by (auto simp: do_unlink_def unlist_in_def p(4) P ns_files_def)
  have F: "ns_files b' = ns_files b - {f}" "ns_dirs b' = ns_dirs b" by (auto simp: ns_files_def ns_dirs_def b'(2,3) split: if_splits)
  have "ns_ok b'" unfolding ns_ok_def F using L closed_del_file[OF ns_okD(2)[OF ok]] ns_okD(3)[OF ok] b'(2-4) by (auto simp: ran_def split: if_splits)
  then show ?thesis using b' F by auto
qed


lemma no_entries:
  assumes C: "tree_closed F D" and D: "\<And>x. x \<in> D \<Longrightarrow> dir_path x" and q: "dir_path q" "q \<notin> D" and m: "valid_name m"
  shows "q @ m \<notin> F \<and> q @ m @ [slash] \<notin> D"
proof (intro conjI notI)
  assume "q @ m \<in> F"
  then obtain p' n' where x: "p' \<in> D" "valid_name n'" "q @ m = p' @ n'" using C unfolding tree_closed_def by blast
  then have "q = p'" using path_unique[OF q(1) D[OF x(1)], of m n'] m by (simp add: valid_name_def)
  then show False using x(1) q(2) by simp
next
  assume d: "q @ m @ [slash] \<in> D"
  moreover have "q @ m @ [slash] \<noteq> [slash]" using q(1) by (simp add: dir_path_def)
  ultimately obtain p' n' where x: "p' \<in> D" "valid_name n'" "q @ m @ [slash] = p' @ n' @ [slash]" using C unfolding tree_closed_def by blast
  then have "q = p'" using dir_path_unique[OF q(1) D[OF x(1)], of m n'] m by (simp add: valid_name_def)
  then show False using x(1) q(2) by simp
qed

lemma closed_add_dir:
  assumes "tree_closed F D" "p \<in> D" "valid_name n" "q = p @ n @ [slash]" "\<And>f. f \<in> F \<Longrightarrow> f @ [slash] \<noteq> q"
  shows "tree_closed F (insert q D)"
  unfolding tree_closed_def
proof (intro conjI ballI)
  show "[slash] \<in> insert q D" using assms(1) by (simp add: tree_closed_def)
  show "\<exists>p n. p \<in> insert q D \<and> valid_name n \<and> f = p @ n" if "f \<in> F" for f using assms(1) that unfolding tree_closed_def by (metis insertI2)
  show "f @ [slash] \<notin> insert q D" if "f \<in> F" for f using assms(1,5) that by (auto simp: tree_closed_def)
  show "r = [slash] \<or> (\<exists>p n. p \<in> insert q D \<and> valid_name n \<and> r = p @ n @ [slash])" if "r \<in> insert q D" for r
  proof (cases "r = q")
    case True
    then show ?thesis using assms(2-4) by blast
  next
    case False
    then have "r \<in> D" using that by simp
    then show ?thesis using assms(1) unfolding tree_closed_def by (metis insertI2)
  qed
qed

text \<open>A new directory, as \<open>do_mkdir\<close> and the loading of a file add it.\<close>

lemma listing_mkdir:
  assumes L: "listing_ok F ds" and C: "tree_closed F (dom (map_of ds))" and p: "p \<in> dom (map_of ds)" "valid_name n"
    and fresh: "p @ n \<notin> F" "p @ n @ [slash] \<notin> dom (map_of ds)" and d: "d_files d = []" "st_nlink (d_attributes d) = 1"
  shows "listing_ok F ((p @ n @ [slash], d) # AList.map_entry p (\<lambda>d. add_file now d n) ds) \<and> tree_closed F (insert (p @ n @ [slash]) (dom (map_of ds)))"
proof -
  let ?q = "p @ n @ [slash]" let ?D = "dom (map_of ds)"
  have dpath: "dir_path x" if "x \<in> ?D" for x using L that by (auto simp: listing_ok_def)
  have dp: "dir_path p" by (rule dpath[OF p(1)])
  have e: "?q @ m \<notin> F \<and> ?q @ m @ [slash] \<notin> ?D" if m: "valid_name m" for m
    by (rule no_entries[OF C dpath _ fresh(2) m]) simp_all
  have "listing_ok (insert (p @ n) F) (AList.map_entry p (\<lambda>d. add_file now d n) ds)" by (rule listing_add[OF L p(2) dp fresh])
  then have "listing_ok F ((?q, d) # AList.map_entry p (\<lambda>d. add_file now d n) ds)"
    by (rule listing_dir_of_file[OF _ p(2) dp fresh(1) _ d]) (use e fresh(2) in auto)
  moreover have "f @ [slash] \<noteq> ?q" if "f \<in> F" for f using that fresh(1) by (metis append_assoc butlast_snoc)
  then have "tree_closed F (insert ?q ?D)" using closed_add_dir[OF C p, of ?q] by simp
  ultimately show ?thesis by blast
qed

lemma do_mkdir_run:
  assumes ok: "ns_ok b" and p: "p \<in> ns_dirs b" "valid_name n" and fresh: "p @ n \<notin> ns_files b" "p @ n @ [slash] \<notin> ns_dirs b"
  shows "\<exists>b'. do_mkdir h b (p @ n) mode = Some (0, b') \<and> ns_ok b' \<and> ns_files b' = ns_files b \<and> ns_dirs b' = insert (p @ n @ [slash]) (ns_dirs b)"
proof -
  have dp: "dir_path p" by (rule ns_dir_path[OF ok p(1)])
  note P = parts_of[OF dp valid_nameD[OF p(2)]]
  let ?q = "p @ n @ [slash]" let ?ds = "AList.map_entry p (\<lambda>d. add_file (h_time h) d n) (b_dirs b)"
  have es: "ensure_slash (p @ n) = ?q" using p(2) by (cases n rule: rev_cases) (auto simp: ensure_slash_def valid_name_def)
  have f: "map_of (b_dirs b) ?q = None" "map_of (b_dirs b) p \<noteq> None" using fresh(2) p(1) by (auto simp: ns_dirs_def)
  have bl: "butlast ?q = p @ n" by (metis append_assoc butlast_snoc)
  obtain d b' where b': "do_mkdir h b (p @ n) mode = Some (0, b')" "b_files b' = b_files b" "b_dirs b' = (?q, d) # ?ds" "b_objs b' = b_objs b" "d_files d = []" "st_nlink (d_attributes d) = 1"
    using f P by (auto simp: do_mkdir_def es bl emplace_def new_inode_def Let_def new_dir_def dir_stat_def dir_save_attributes_def)
  have F: "ns_files b' = ns_files b" "ns_dirs b' = insert ?q (ns_dirs b)" by (auto simp: ns_files_def ns_dirs_def b'(2,3))
  have "ns_ok b'" unfolding ns_ok_def F
    using listing_mkdir[of "ns_files b" "b_dirs b" p n d "h_time h"] ns_okD[OF ok] p fresh b'(2-6) unfolding ns_dirs_def by (auto simp: ran_def)
  then show ?thesis using b' F by auto
qed

lemma of_nat_zero: "n < 2 ^ 64 \<Longrightarrow> (of_nat n :: size_t) = 0 \<longleftrightarrow> n = 0"
  by (simp add: word_unat_eq_iff unsigned_of_nat take_bit_nat_eq_self)

lemma do_rmdir_run:
  assumes ok: "ns_ok b" and p: "dir_path p" "valid_name n" and d: "map_of (b_dirs b) (p @ n @ [slash]) = Some d" "length (d_files d) < 2 ^ 64"
  shows "if d_files d \<noteq> [] then do_rmdir h b (p @ n) = Some (- ENOTEMPTY, b)
    else \<exists>b'. do_rmdir h b (p @ n) = Some (0, b') \<and> ns_ok b' \<and> ns_files b' = ns_files b \<and> ns_dirs b' = ns_dirs b - {p @ n @ [slash]}"
proof -
  let ?q = "p @ n @ [slash]"
  note P = parts_of[OF p(1) valid_nameD[OF p(2)]]
  have es: "ensure_slash (p @ n) = ?q" using p(2) by (cases n rule: rev_cases) (auto simp: ensure_slash_def valid_name_def)
  have bl: "butlast ?q = p @ n" by (metis append_assoc butlast_snoc)
  have l: "st_nlink (d_attributes d) = of_nat (Suc (length (d_files d)))" using ns_okD(1)[OF ok] d(1) by (auto simp: listing_ok_def)
  have nl: "st_nlink (d_attributes d) = 1 \<longleftrightarrow> d_files d = []"
  proof -
    have "st_nlink (d_attributes d) = 1 \<longleftrightarrow> (of_nat (length (d_files d)) :: size_t) = 0" unfolding l by simp
    also have "\<dots> \<longleftrightarrow> length (d_files d) = 0" by (rule of_nat_zero[OF d(2)])
    finally show ?thesis by simp
  qed
  show ?thesis
  proof (cases "d_files d = []")
    case False
    then show ?thesis using d(1) nl by (simp add: do_rmdir_def es dir_stat_def)
  next
    case True
    have C: "tree_closed (ns_files b) (ns_dirs b)" by (rule ns_okD(2)[OF ok])
    have q: "?q \<in> ns_dirs b" "?q \<noteq> [slash]" using d(1) p(2) by (auto simp: ns_dirs_def valid_name_def)
    then obtain p' n' where x: "p' \<in> ns_dirs b" "valid_name n'" "?q = p' @ n' @ [slash]" using C unfolding tree_closed_def by blast
    then have pp: "p \<in> ns_dirs b" using dir_path_unique[of p p' n n'] ns_dir_path[OF ok x(1)] p by (simp add: valid_name_def)
    let ?ds = "AList.map_entry p (\<lambda>d. remove_file (h_time h) d n) (AList.delete ?q (b_dirs b))"
    have ne: "p \<noteq> ?q" by simp
    obtain b' where b': "do_rmdir h b (p @ n) = Some (0, b')" "b_files b' = b_files b" "b_dirs b' = ?ds" "b_objs b' = b_objs b"
      using d(1) nl True pp by (auto simp: do_rmdir_def es bl P dir_stat_def ns_dirs_def Let_def)
    have nf: "p @ n \<notin> ns_files b" using C q(1) unfolding tree_closed_def by (metis append_assoc)
    have "listing_ok (insert (p @ n) (ns_files b)) (AList.delete ?q (b_dirs b))"
      by (rule listing_file_of_dir[OF ns_okD(1)[OF ok] p(2,1)]) (use q in \<open>simp add: ns_dirs_def\<close>)
    then have L: "listing_ok (ns_files b) ?ds" by (rule listing_remove[OF _ p(2,1) nf]) simp
    have F: "ns_files b' = ns_files b" "ns_dirs b' = ns_dirs b - {?q}" by (auto simp: ns_files_def ns_dirs_def b'(2,3))
    have em: "\<And>m. valid_name m \<Longrightarrow> ?q @ m \<notin> ns_files b \<and> ?q @ m @ [slash] \<notin> ns_dirs b"
      using ns_okD(1)[OF ok] d(1) True unfolding listing_ok_def ns_dirs_def by (metis empty_iff empty_set append_assoc)
    have "tree_closed (ns_files b) (ns_dirs b - {?q})"
      unfolding tree_closed_def
    proof (intro conjI ballI)
      show "[slash] \<in> ns_dirs b - {?q}" using C q(2) by (auto simp: tree_closed_def)
      fix f assume f: "f \<in> ns_files b"
      then obtain p' n' where "p' \<in> ns_dirs b" "valid_name n'" "f = p' @ n'" using C unfolding tree_closed_def by blast
      moreover have "p' \<noteq> ?q" using calculation f em by auto
      ultimately show "\<exists>p n'. p \<in> ns_dirs b - {?q} \<and> valid_name n' \<and> f = p @ n'" by auto
      show "f @ [slash] \<notin> ns_dirs b - {?q}" using C f by (auto simp: tree_closed_def)
    next
      fix r assume r: "r \<in> ns_dirs b - {?q}"
      show "r = [slash] \<or> (\<exists>p n'. p \<in> ns_dirs b - {?q} \<and> valid_name n' \<and> r = p @ n' @ [slash])"
      proof (cases "r = [slash]")
        case False
        then obtain p' n' where "p' \<in> ns_dirs b" "valid_name n'" "r = p' @ n' @ [slash]" using C r unfolding tree_closed_def by blast
        moreover have "p' \<noteq> ?q" using calculation r em[of n'] by auto
        ultimately show ?thesis by auto
      qed simp
    qed
    then have "ns_ok b'" unfolding ns_ok_def F using L ns_okD(3)[OF ok] b'(2-4) by (auto simp: ran_def)
    then show ?thesis using b' F True by auto
  qed
qed


text \<open>Renaming a file to a free path of an existing directory.\<close>

lemma rename_free:
  assumes ok: "ns_ok b" and f: "map_of (b_files b) f = Some i" and t: "p \<in> ns_dirs b" "valid_name n" "p @ n \<notin> ns_files b" "p @ n @ [slash] \<notin> ns_dirs b"
    and objs: "b_objs b i = Some ob"
    and b': "b' = list_in h (unlist_in h (b\<lparr>b_objs := (b_objs b)(i \<mapsto> ob'), b_files := AList.delete f (emplace (p @ n) i (b_files b))\<rparr>) f) (p @ n)"
  shows "ns_ok b' \<and> ns_files b' = insert (p @ n) (ns_files b - {f}) \<and> ns_dirs b' = ns_dirs b \<and> map_of (b_files b') (p @ n) = Some i"
proof -
  have ff: "f \<in> ns_files b" using f by (auto simp: ns_files_def)
  from ns_file_path[OF ok ff] obtain q m where q: "q \<in> ns_dirs b" "dir_path q" "valid_name m" "f = q @ m" "q @ m @ [slash] \<notin> ns_dirs b" .
  note Q = parts_of[OF q(2) valid_nameD[OF q(3)]]
  have dp: "dir_path p" by (rule ns_dir_path[OF ok t(1)])
  note P = parts_of[OF dp valid_nameD[OF t(2)]]
  let ?F = "ns_files b - {f}" let ?d1 = "AList.map_entry q (\<lambda>d. remove_file (h_time h) d m) (b_dirs b)" let ?d2 = "AList.map_entry p (\<lambda>d. add_file (h_time h) d n) ?d1"
  have "insert (q @ m) ?F = ns_files b" using ff q(4) by auto
  then have L1: "listing_ok ?F ?d1" using listing_remove[of q m ?F "b_dirs b" "h_time h"] ns_okD(1)[OF ok] q by (simp add: ns_dirs_def)
  have L2: "listing_ok (insert (p @ n) ?F) ?d2" using listing_add[OF L1 t(2) dp, of "h_time h"] t(3,4) by (simp add: ns_dirs_def)
  have tn: "map_of (b_files b) (p @ n) = None" using t(3) by (auto simp: ns_files_def)
  have fm: "map_of (b_files b') = (map_of (b_files b))(p @ n \<mapsto> i, f := None)" "b_dirs b' = ?d2" "b_objs b' = (b_objs b)(i \<mapsto> ob')"
    by (simp_all add: b' list_in_def unlist_in_def P q(4) Q map_of_emplace[OF tn])
  have ne: "p @ n \<noteq> f" using ff t(3) by auto
  have F: "ns_files b' = insert (p @ n) ?F" "ns_dirs b' = ns_dirs b" using ne by (auto simp: ns_files_def ns_dirs_def fm(1,2) split: if_splits)
  have "ns_ok b'" unfolding ns_ok_def F using L2 closed_add_file[OF closed_del_file[OF ns_okD(2)[OF ok]] t(1,2,4)] ns_okD(3)[OF ok] fm f
    by (auto simp: ran_def split: if_splits)
  then show ?thesis using F fm(1) ne by simp
qed

lemma file_not_dir:
  assumes ok: "ns_ok b" and f: "f \<in> ns_files b"
  shows "map_of (b_dirs b) (slashed f) = None"
proof -
  from ns_file_path[OF ok f] obtain q m where q: "dir_path q" "valid_name m" "f = q @ m" "q @ m @ [slash] \<notin> ns_dirs b" .
  have "length f > 1" using q by (cases q; cases m) (auto simp: dir_path_def valid_name_def)
  then show ?thesis using q(3,4) by (auto simp: slashed_def ns_dirs_def)
qed

lemma do_rename_run:
  assumes ok: "ns_ok b" and f: "map_of (b_files b) f = Some i" and t: "p \<in> ns_dirs b" "valid_name n" "p @ n \<noteq> f" "p @ n @ [slash] \<notin> ns_dirs b"
  shows "\<exists>b'. do_rename h b f (p @ n) = Some (0, b') \<and> ns_ok b' \<and> ns_files b' = insert (p @ n) (ns_files b - {f}) \<and> ns_dirs b' = ns_dirs b \<and> map_of (b_files b') (p @ n) = Some i"
proof -
  have ff: "f \<in> ns_files b" using f by (auto simp: ns_files_def)
  have nd: "map_of (b_dirs b) (slashed f) = None" by (rule file_not_dir[OF ok ff])
  let ?t = "p @ n"
  obtain ob where ob: "b_objs b i = Some ob" using ns_okD(3)[OF ok f] by blast
  let ?st = "(file_stat ob)\<lparr>st_ctime := h_time h, st_mtime := h_time h\<rparr>"
  define b1 where "b1 = (if map_of (b_files b) ?t \<noteq> None then unlist_in h (b\<lparr>b_files := AList.delete ?t (b_files b)\<rparr>) ?t else b)"
  have b1: "ns_ok b1 \<and> ns_files b1 = ns_files b - {?t} \<and> ns_dirs b1 = ns_dirs b \<and> map_of (b_files b1) f = Some i \<and> b_objs b1 = b_objs b"
  proof (cases "map_of (b_files b) ?t")
    case None
    then show ?thesis using ok f by (auto simp: b1_def ns_files_def)
  next
    case (Some j)
    then have "snd (do_unlink h b ?t) = b1" by (simp add: do_unlink_def b1_def)
    moreover have "b_objs b1 = b_objs b" "map_of (b_files b1) f = Some i" using Some f t(3) by (auto simp: b1_def unlist_in_def)
    moreover obtain b2 where "do_unlink h b ?t = (0, b2)" "ns_ok b2" "ns_files b2 = ns_files b - {?t}" "ns_dirs b2 = ns_dirs b"
      using do_unlink_run[OF ok, of ?t h] Some by (auto simp: ns_files_def)
    ultimately show ?thesis by simp
  qed
  let ?b' = "list_in h (unlist_in h (b1\<lparr>b_objs := (b_objs b1)(i \<mapsto> save_attributes ob ?st), b_files := AList.delete f (emplace ?t i (b_files b1))\<rparr>) f) ?t"
  have run: "do_rename h b f ?t = Some (0, ?b')" using nd f ob b1 unfolding do_rename_def b1_def[symmetric] by (simp add: Let_def)
  have "ns_ok ?b' \<and> ns_files ?b' = insert ?t (ns_files b1 - {f}) \<and> ns_dirs ?b' = ns_dirs b1 \<and> map_of (b_files ?b') ?t = Some i"
    by (rule rename_free[OF _ _ _ _ _ _ _ refl]) (use b1 t ob in auto)
  then show ?thesis using run b1 by auto
qed

lemma do_readdir_run:
  assumes ok: "ns_ok b" and p: "p \<in> ns_dirs b"
  shows "\<exists>xs. do_readdir b p = [''.'', ''..''] @ xs \<and> distinct xs \<and> set xs = {n. valid_name n \<and> (p @ n \<in> ns_files b \<or> p @ n @ [slash] \<in> ns_dirs b)}"
proof -
  obtain d where d: "map_of (b_dirs b) p = Some d" using p by (auto simp: ns_dirs_def)
  have l: "dir_path p" "distinct (d_files d)" "\<forall>n. n \<in> set (d_files d) \<longleftrightarrow> valid_name n \<and> (p @ n \<in> ns_files b \<or> p @ n @ [slash] \<in> ns_dirs b)"
    using ns_okD(1)[OF ok] d unfolding listing_ok_def ns_dirs_def by blast+
  have "last n \<noteq> slash" if "n \<in> set (d_files d)" "n \<noteq> []" for n
  proof -
    have "valid_name n" using l(3) that(1) by blast
    then show ?thesis using last_in_set[OF that(2)] by (metis valid_nameD)
  qed
  then have "map (\<lambda>f. if f \<noteq> [] \<and> last f = slash then butlast f else f) (d_files d) = d_files d" by (intro map_idI) auto
  then have "do_readdir b p = [''.'', ''..''] @ d_files d" using d l(1) by (simp add: do_readdir_def find_s_def dir_path_def list_files_def)
  then show ?thesis using l(2,3) by auto
qed

section \<open>Reachable name spaces\<close>

text \<open>
  The operations as the kernel issues them: a path is an existing directory followed by a name,
  a new name is not taken by an entry of the other kind, a file is not renamed to itself, and a
  directory has fewer than \<open>2 ^ 64\<close> entries.
\<close>

inductive ns_step :: "'w host \<Rightarrow> backend \<Rightarrow> backend \<Rightarrow> bool" for h :: "'w host" where
  create: "p \<in> ns_dirs b \<Longrightarrow> valid_name n \<Longrightarrow> p @ n @ [slash] \<notin> ns_dirs b \<Longrightarrow> do_create h b (p @ n) mode = (r, i, b') \<Longrightarrow> ns_step h b b'"
| unlink: "do_unlink h b f = (r, b') \<Longrightarrow> ns_step h b b'"
| mkdir: "p \<in> ns_dirs b \<Longrightarrow> valid_name n \<Longrightarrow> p @ n \<notin> ns_files b \<Longrightarrow> do_mkdir h b (p @ n) mode = Some (r, b') \<Longrightarrow> ns_step h b b'"
| rmdir: "p \<in> ns_dirs b \<Longrightarrow> valid_name n \<Longrightarrow> (\<And>d. map_of (b_dirs b) (p @ n @ [slash]) = Some d \<Longrightarrow> length (d_files d) < 2 ^ 64) \<Longrightarrow>
    do_rmdir h b (p @ n) = Some (r, b') \<Longrightarrow> ns_step h b b'"
| rename: "f \<in> ns_files b \<Longrightarrow> p \<in> ns_dirs b \<Longrightarrow> valid_name n \<Longrightarrow> p @ n \<noteq> f \<Longrightarrow> p @ n @ [slash] \<notin> ns_dirs b \<Longrightarrow>
    do_rename h b f (p @ n) = Some (r, b') \<Longrightarrow> ns_step h b b'"
| chmod: "do_chmod h b f mode = Some (r, b') \<Longrightarrow> ns_step h b b'"
| chown: "do_chown h b f u g = Some (r, b') \<Longrightarrow> ns_step h b b'"

inductive_cases ns_stepE: "ns_step h b b'"

lemma change_attributes_ok:
  assumes ok: "ns_ok b" and r: "change_attributes h b f g = Some (r, b')" and g: "\<And>st. st_nlink (g st) = st_nlink st"
  shows "ns_ok b' \<and> ns_files b' = ns_files b \<and> ns_dirs b' = ns_dirs b"
proof (cases "map_of (b_dirs b) (ensure_slash f)")
  case (Some d)
  let ?p = "ensure_slash f"
  have ds: "b_files b' = b_files b" "b_objs b' = b_objs b" "b_dirs b' = AList.map_entry ?p (\<lambda>d. dir_save_attributes d ((g (dir_stat d))\<lparr>st_ctime := h_time h\<rparr>)) (b_dirs b)"
    using r Some by (auto simp: change_attributes_def Let_def split: if_splits)
  have F: "ns_files b' = ns_files b" "ns_dirs b' = ns_dirs b" by (simp_all add: ns_files_def ns_dirs_def ds)
  have "listing_ok (ns_files b) (b_dirs b')" unfolding listing_ok_def
  proof (intro allI impI)
    fix q c
    assume "map_of (b_dirs b') q = Some c"
    then obtain c0 where c: "map_of (b_dirs b) q = Some c0" "d_files c = d_files c0" "st_nlink (d_attributes c) = st_nlink (d_attributes c0)"
      using g by (auto simp: ds(3) map_of_map_entry dir_save_attributes_def dir_stat_def split: if_splits option.splits)
    have "dom (map_of (b_dirs b')) = dom (map_of (b_dirs b))" by (simp add: ds(3))
    then show "dir_path q \<and> distinct (d_files c) \<and> (\<forall>n. (n \<in> set (d_files c)) = (valid_name n \<and> (q @ n \<in> ns_files b \<or> q @ n @ [slash] \<in> dom (map_of (b_dirs b'))))) \<and>
        st_nlink (d_attributes c) = of_nat (Suc (length (d_files c)))"
      using ns_okD(1)[OF ok] c unfolding listing_ok_def by (metis (no_types, lifting))
  qed
  then show ?thesis using ns_okD(2,3)[OF ok] F ds by (auto simp: ns_ok_def ran_def)
next
  case None
  then have "b_files b' = b_files b \<and> b_dirs b' = b_dirs b \<and> (\<forall>j. b_objs b j \<noteq> None \<longrightarrow> b_objs b' j \<noteq> None)"
    using r by (auto simp: change_attributes_def Let_def split: if_splits option.splits bind_splits)
  then show ?thesis using ok by (auto simp: ns_ok_def ns_files_def ns_dirs_def)
qed

lemma ns_step_ok:
  assumes "ns_step h b b'" "ns_ok b"
  shows "ns_ok b'"
  using assms(1)
proof cases
  case (create p n mode r i)
  show ?thesis
  proof (cases "p @ n \<in> ns_files b")
    case True
    then show ?thesis using create(4) assms(2) by (auto simp: do_create_def ns_files_def)
  next
    case False
    then show ?thesis using do_create_run[OF assms(2) create(1,2) False create(3), of h mode] create(4) by auto
  qed
next
  case (unlink f r)
  then show ?thesis using do_unlink_run[OF assms(2), of f h] assms(2) by (cases "f \<in> ns_files b") (auto simp: do_unlink_def ns_files_def split: if_splits)
next
  case (mkdir p n mode r)
  show ?thesis
  proof (cases "p @ n @ [slash] \<in> ns_dirs b")
    case True
    have "ensure_slash (p @ n) = p @ n @ [slash]" using mkdir(2) by (cases n rule: rev_cases) (auto simp: ensure_slash_def valid_name_def)
    then show ?thesis using True mkdir(4) assms(2) by (auto simp: do_mkdir_def ns_dirs_def Let_def)
  next
    case False
    then show ?thesis using do_mkdir_run[OF assms(2) mkdir(1-3) False, of h mode] mkdir(4) by auto
  qed
next
  case (rmdir p n r)
  show ?thesis
  proof (cases "map_of (b_dirs b) (p @ n @ [slash])")
    case None
    have "ensure_slash (p @ n) = p @ n @ [slash]" using rmdir(2) by (cases n rule: rev_cases) (auto simp: ensure_slash_def valid_name_def)
    then show ?thesis using None rmdir(4) assms(2) by (auto simp: do_rmdir_def Let_def)
  next
    case (Some d)
    then show ?thesis using do_rmdir_run[OF assms(2) ns_dir_path[OF assms(2) rmdir(1)] rmdir(2) Some rmdir(3)[OF Some], of h] rmdir(4) assms(2) by (auto split: if_splits)
  qed
next
  case (rename f p n r)
  then obtain i where "map_of (b_files b) f = Some i" by (auto simp: ns_files_def)
  from do_rename_run[OF assms(2) this rename(2-5), of h] rename(6) show ?thesis by auto
next
  case (chmod f mode r)
  then show ?thesis using change_attributes_ok[OF assms(2), of h f] by (auto simp: do_chmod_def)
next
  case (chown f u g r)
  then show ?thesis using change_attributes_ok[OF assms(2), of h f] by (auto simp: do_chown_def)
qed

lemma new_backend_ok: "new_backend h i0 cap rd = Inr b \<Longrightarrow> ns_ok b \<and> ns_files b = {} \<and> ns_dirs b = {[slash]}"
  by (auto simp: new_backend_def new_inode_def Let_def ns_ok_def ns_files_def ns_dirs_def listing_ok_def tree_closed_def new_dir_def split: option.splits if_splits)

lemma ns_reach: "(ns_step h)\<^sup>*\<^sup>* b b' \<Longrightarrow> ns_ok b \<Longrightarrow> ns_ok b'"
  by (induction rule: rtranclp_induct) (auto intro: ns_step_ok)

end
