(* ===== verification/Nvml_Load.thy ===== *)
theory Nvml_Load
  imports Nvml_Names
begin

text \<open>Loading a file: the directories on its way are created, and it is listed in the last of them.\<close>

section \<open>Strings\<close>

lemma rfind_none: "pat \<noteq> [] \<Longrightarrow> length ys < length pat \<or> length ys = length pat \<and> ys \<noteq> pat \<Longrightarrow> rfind_sub pat ys = None"
proof (induction ys)
  case (Cons c ys)
  then have "rfind_sub pat ys = None" by auto
  moreover have "take (length pat) (c # ys) = c # ys" using Cons.prems(2) by (intro take_all) auto
  then have "take (length pat) (c # ys) \<noteq> pat" using Cons.prems(2) by auto
  ultimately show ?case by simp
qed simp

lemma rfind_last: "part \<noteq> [] \<Longrightarrow> slash \<notin> set part \<Longrightarrow> rfind_sub part (path @ part @ [slash]) = Some (length path)"
proof (induction path)
  case Nil
  obtain c cs where part: "part = c # cs" using Nil.prems(1) by (cases part) auto
  have "cs @ [slash] \<noteq> part" using Nil.prems(2) by auto
  then have "rfind_sub part (cs @ [slash]) = None" using rfind_none[of part "cs @ [slash]"] part by simp
  then show ?case unfolding part by simp
qed simp

lemma split_slash_append: "slash \<notin> set n \<Longrightarrow> split_slash (n @ r) = (n @ hd (split_slash r)) # tl (split_slash r)"
proof (induction n)
  case Nil
  show ?case by (cases r) (auto split: list.splits)
qed auto

lemma split_names: "(\<forall>n \<in> set ns. slash \<notin> set n) \<Longrightarrow> split_slash (concat (map (Cons slash) ns)) = [] # ns"
  by (induction ns) (simp_all add: split_slash_append)

definition file_path :: "string list \<Rightarrow> string" where
  "file_path ns = concat (map (Cons slash) ns)"

definition dirs_path :: "string list \<Rightarrow> string" where
  "dirs_path ns = slash # concat (map (\<lambda>n. n @ [slash]) ns)"

lemma dirs_path_snoc [simp]: "dirs_path (ns @ [n]) = dirs_path ns @ n @ [slash]" "dirs_path [] = [slash]"
  by (simp_all add: dirs_path_def)

lemma dir_path_dirs: "dir_path (dirs_path ns)"
  by (cases ns rule: rev_cases) (simp_all add: dir_path_def)

lemma file_in_dir: "file_path (ns @ [n]) = dirs_path ns @ n"
proof -
  have "concat (map (Cons slash) ns) @ [slash] = slash # concat (map (\<lambda>n. n @ [slash]) ns)" by (induction ns) simp_all
  then show ?thesis by (simp add: file_path_def dirs_path_def)
qed

lemma path_parts_file:
  assumes "\<forall>n \<in> set ns. valid_name n" "valid_name n"
  shows "path_parts (file_path (ns @ [n])) = [slash] # ns @ [n]"
proof -
  have "\<forall>x \<in> set (ns @ [n]). slash \<notin> set x" "\<forall>x \<in> set (ns @ [n]). x \<noteq> []" using assms by (auto simp: valid_name_def)
  then have "split_slash (file_path (ns @ [n])) = [] # ns @ [n]" "filter (\<lambda>w. w \<noteq> []) (ns @ [n]) = ns @ [n]"
    unfolding file_path_def using split_names[of "ns @ [n]"] by (auto simp: filter_id_conv)
  moreover have "hd (file_path (ns @ [n])) = slash" "file_path (ns @ [n]) \<noteq> []" by (cases ns; simp add: file_path_def)+
  moreover have "last (file_path (ns @ [n])) \<noteq> slash" using name_not_dir[OF assms(2), of "dirs_path ns"] by (simp add: file_in_dir dir_path_def dirs_path_def)
  ultimately show ?thesis by (simp add: path_parts_def)
qed

section \<open>The directories on the way\<close>

definition ns_inv :: "string set \<Rightarrow> backend \<Rightarrow> bool" where
  "ns_inv F b \<longleftrightarrow> listing_ok F (b_dirs b) \<and> tree_closed F (ns_dirs b)"

text \<open>No file has the path of one of the directories.\<close>

fun way_free :: "string set \<Rightarrow> string \<Rightarrow> string list \<Rightarrow> bool" where
  "way_free F path [] \<longleftrightarrow> True"
| "way_free F path (n # ns) \<longleftrightarrow> path @ n \<notin> F \<and> way_free F (path @ n @ [slash]) ns"

lemma load_dirs_run:
  assumes "\<forall>p. h_open h p \<noteq> None" "\<forall>n \<in> set ns. valid_name n" "ns_inv F b" "path \<in> ns_dirs b" "way_free F path ns"
  shows "\<exists>b'. load_dirs h b path ns = Some (Inr (path @ concat (map (\<lambda>n. n @ [slash]) ns), b')) \<and> ns_inv F b' \<and>
    path @ concat (map (\<lambda>n. n @ [slash]) ns) \<in> ns_dirs b' \<and> b_files b' = b_files b \<and> b_objs b' = b_objs b \<and> ns_dirs b \<subseteq> ns_dirs b' \<and>
    (\<forall>x \<in> ns_dirs b'. x \<in> ns_dirs b \<or> length x \<le> length (path @ concat (map (\<lambda>n. n @ [slash]) ns)))"
  using assms(2-)
proof (induction ns arbitrary: b path)
  case (Cons n ns)
  let ?q = "path @ n @ [slash]"
  show ?case
  proof (cases "map_of (b_dirs b) ?q")
    case (Some d)
    then have "?q \<in> ns_dirs b" by (auto simp: ns_dirs_def)
    from Cons.IH[OF _ Cons.prems(2) this] Cons.prems(1,4) Some show ?thesis by simp
  next
    case None
    have n: "valid_name n" "slash \<notin> set n" "n \<noteq> []" using Cons.prems(1) by (auto simp: valid_name_def)
    have nq: "?q \<notin> dom (map_of (b_dirs b))" "path \<in> dom (map_of (b_dirs b))" using None Cons.prems(3) by (auto simp: ns_dirs_def)
    obtain ino b0 where ni: "new_inode b = (ino, b0)" by (cases "new_inode b")
    then have b0: "b_files b0 = b_files b" "b_dirs b0 = b_dirs b" "b_objs b0 = b_objs b" "b_root_dir b0 = b_root_dir b" by (auto simp: new_inode_def)
    obtain fd where fd: "h_open h (b_root_dir b0 @ ?q) = Some fd" using assms(1) by blast
    let ?d = "new_dir ?q ino (h_fstat h (b_root_dir b0 @ ?q)) persistent True"
    let ?b = "b0\<lparr>b_dirs := (?q, ?d) # AList.map_entry path (\<lambda>d. add_file (h_time h) d n) (b_dirs b)\<rparr>"
    have "listing_ok F (b_dirs b)" "tree_closed F (dom (map_of (b_dirs b)))" using Cons.prems(2) by (auto simp: ns_inv_def ns_dirs_def)
    from listing_mkdir[OF this nq(2) n(1) _ nq(1), of ?d "h_time h"] Cons.prems(4) have inv: "ns_inv F ?b" by (simp add: ns_inv_def ns_dirs_def new_dir_def)
    have dm: "ns_dirs ?b = insert ?q (ns_dirs b)" by (auto simp: ns_dirs_def)
    have step: "load_dirs h b path (n # ns) = load_dirs h ?b ?q ns"
      using None ni fd nq(2) rfind_last[OF n(3,2), of path] b0 by (auto simp: Let_def emplace_def)
    have "?q \<in> ns_dirs ?b" using dm by simp
    from Cons.IH[OF _ inv this] Cons.prems(1,4) obtain b' where
      "load_dirs h ?b ?q ns = Some (Inr (?q @ concat (map (\<lambda>n. n @ [slash]) ns), b'))" "ns_inv F b'" "?q @ concat (map (\<lambda>n. n @ [slash]) ns) \<in> ns_dirs b'"
      "b_files b' = b_files ?b" "b_objs b' = b_objs ?b" "ns_dirs ?b \<subseteq> ns_dirs b'"
      "\<forall>x \<in> ns_dirs b'. x \<in> ns_dirs ?b \<or> length x \<le> length (?q @ concat (map (\<lambda>n. n @ [slash]) ns))" by auto
    then show ?thesis using step dm b0 by auto
  qed
qed simp


section \<open>Loading a file\<close>

text \<open>What loading does to the names once the object \<open>i\<close> is made.\<close>

lemma loaded_names:
  assumes ok: "ns_ok b" and p: "\<forall>x \<in> set ns. valid_name x" "valid_name n"
    and free: "file_path (ns @ [n]) \<notin> ns_files b" "dirs_path (ns @ [n]) \<notin> ns_dirs b" "way_free (ns_files b) [slash] ns" and host: "\<forall>p. h_open h p \<noteq> None"
    and b1: "b_files b1 = (file_path (ns @ [n]), i) # b_files b" "b_dirs b1 = b_dirs b" "b_objs b1 = (b_objs b)(i \<mapsto> f)"
  shows "\<exists>b2. load_dirs h b1 [slash] ns = Some (Inr (dirs_path ns, b2)) \<and> dirs_path ns \<in> ns_dirs b2 \<and> b_files b2 = b_files b1 \<and> b_objs b2 = b_objs b1 \<and> ns_dirs b \<subseteq> ns_dirs b2 \<and>
    ns_ok (b2\<lparr>b_dirs := AList.map_entry (dirs_path ns) (\<lambda>d. add_file (h_time h) d n) (b_dirs b2)\<rparr>)"
proof -
  let ?fp = "file_path (ns @ [n])" let ?F = "ns_files b"
  have inv: "ns_inv ?F b1" "[slash] \<in> ns_dirs b1" using ns_okD(1,2)[OF ok] b1(2) by (auto simp: ns_inv_def ns_dirs_def tree_closed_def)
  from load_dirs_run[OF host p(1) inv free(3)] obtain b2 where
    b2: "load_dirs h b1 [slash] ns = Some (Inr (dirs_path ns, b2))" "ns_inv ?F b2" "dirs_path ns \<in> ns_dirs b2" "b_files b2 = b_files b1" "b_objs b2 = b_objs b1"
      "ns_dirs b1 \<subseteq> ns_dirs b2" "\<forall>x \<in> ns_dirs b2. x \<in> ns_dirs b1 \<or> length x \<le> length (dirs_path ns)" by (auto simp: dirs_path_def)
  let ?ds = "AList.map_entry (dirs_path ns) (\<lambda>d. add_file (h_time h) d n) (b_dirs b2)" let ?b' = "b2\<lparr>b_dirs := ?ds\<rparr>"
  have e: "ns_dirs b1 = ns_dirs b" using b1(2) by (simp add: ns_dirs_def)
  then have nd: "dirs_path ns @ n @ [slash] \<notin> ns_dirs b2" using b2(7) free(2) by fastforce
  have L: "listing_ok (insert ?fp ?F) ?ds" unfolding file_in_dir
    using listing_add[of ?F "b_dirs b2" n "dirs_path ns" "h_time h"] b2(2) p(2) free(1) nd dir_path_dirs[of ns] by (simp add: ns_inv_def file_in_dir ns_dirs_def)
  have F: "ns_files ?b' = insert ?fp ?F" "ns_dirs ?b' = ns_dirs b2" using b1(1) b2(4) by (auto simp: ns_files_def ns_dirs_def)
  have "tree_closed (insert ?fp ?F) (ns_dirs b2)" unfolding file_in_dir
    using closed_add_file[of ?F "ns_dirs b2" "dirs_path ns" n] b2(2,3) p(2) nd by (simp add: ns_inv_def)
  then have "ns_ok ?b'" unfolding ns_ok_def F using L ns_okD(3)[OF ok] b1(1,3) b2(4,5) by (auto simp: ran_def split: if_splits)
  then show ?thesis using b2 e by blast
qed

lemma load_one_run:
  assumes ok: "ns_ok b" and p: "remove_root b pathname = Some (file_path (ns @ [n]))" "\<forall>x \<in> set ns. valid_name x" "valid_name n"
    and free: "file_path (ns @ [n]) \<notin> ns_files b" "dirs_path (ns @ [n]) \<notin> ns_dirs b" "way_free (ns_files b) [slash] ns"
    and host: "\<forall>p. h_open h p \<noteq> None" "load_file (h_nvml h pathname) ty 0 (fst (new_inode b)) (h_open h pathname) (h_fstat h pathname) s = Some (Inr (f, s'))"
  shows "\<exists>b'. load_one h b s pathname ty = Some (Inr (success, b', s')) \<and> ns_ok b' \<and> ns_files b' = insert (file_path (ns @ [n])) (ns_files b) \<and>
    dirs_path ns \<in> ns_dirs b' \<and> ns_dirs b \<subseteq> ns_dirs b' \<and> (\<exists>i. map_of (b_files b') (file_path (ns @ [n])) = Some i \<and> b_objs b' i = Some f)"
proof -
  let ?fp = "file_path (ns @ [n])" let ?i = "b_next b"
  obtain ino b0 where ni: "new_inode b = (ino, b0)" by (cases "new_inode b")
  then have b0: "b_files b0 = b_files b" "b_dirs b0 = b_dirs b" "b_objs b0 = b_objs b" "b_next b0 = b_next b" by (auto simp: new_inode_def)
  let ?b1 = "b0\<lparr>b_files := (?fp, ?i) # b_files b, b_objs := (b_objs b)(?i \<mapsto> f), b_next := Suc ?i\<rparr>"
  from loaded_names[OF ok p(2,3) free host(1), of ?b1 ?i f] b0 obtain b2 where
    b2: "load_dirs h ?b1 [slash] ns = Some (Inr (dirs_path ns, b2))" "dirs_path ns \<in> ns_dirs b2" "b_files b2 = b_files ?b1" "b_objs b2 = b_objs ?b1" "ns_dirs b \<subseteq> ns_dirs b2"
      "ns_ok (b2\<lparr>b_dirs := AList.map_entry (dirs_path ns) (\<lambda>d. add_file (h_time h) d n) (b_dirs b2)\<rparr>)" by auto
  have nf: "map_of (b_files b) ?fp = None" using free(1) by (auto simp: ns_files_def)
  have pp: "path_parts ?fp = [slash] # ns @ [n]" by (rule path_parts_file[OF p(2,3)])
  let ?b' = "b2\<lparr>b_dirs := AList.map_entry (dirs_path ns) (\<lambda>d. add_file (h_time h) d n) (b_dirs b2)\<rparr>"
  have run: "load_one h b s pathname ty = Some (Inr (success, ?b', s'))"
    using p(1) nf ni host(2) b0 pp b2(1,2) by (auto simp: load_one_def emplace_def Let_def butlast_append ns_dirs_def)
  have "ns_files ?b' = insert ?fp (ns_files b)" "ns_dirs ?b' = ns_dirs b2" using b2(3) by (auto simp: ns_files_def ns_dirs_def)
  then show ?thesis using run b2 by auto
qed

end
