(* ===== verification/Nvml_Layout.thy ===== *)
theory Nvml_Layout
  imports Nvml_File Segment_Map Range_Lock_Props
begin

text \<open>
  The layout of an NVML file: its segments tile the allocated part of the file, each with
  storage of its own or as a gap, and the contents of the file are the bytes of the
  segments in order.
\<close>

section \<open>A range lock nobody else wants\<close>

definition idle :: "range_tree \<Rightarrow> bool" where
  "idle t \<longleftrightarrow> lock_inv {} t [] []"

lemma idle_init: "idle lock_manager"
  unfolding idle_def by (rule empty_inv)

lemma idle_lock:
  assumes t: "idle t" and se: "s < e" "off_ok s" "off_ok e"
  shows "\<exists>t1 rl ns rl' t2. lock_range t s e ty = Some (t1, Inr rl) \<and> unlock_range t1 rl = Some (ns, rl', t2) \<and>
    destroy_range_lock t2 rl' = Some t2 \<and> idle t2"
proof -
  have inv: "lock_inv {} t [] []" using t by (simp add: idle_def)
  have n: "m_num_nodes t = 0" using inv_num_nodes[OF inv] by simp
  let ?r = "mk_range s e (if ty = Writer then writer else reader)"
  have h: "holds t ([] @ [])" using lock_invD(1)[OF inv] by simp
  have k: "ksorted m_start ([] @ ([] :: (addr \<times> range) list))" by (simp add: ksorted_def)
  from avl.add_new[OF h k, of ?r] obtain a t1 where
    t1: "add range_compare t ?r = Some (a, t1)" "data_of t a = None" "holds t1 ([] @ (a, ?r) # [])" "data_of t1 = (data_of t)(a \<mapsto> ?r)"
    by (auto simp: add_def range_compare_cmp)
  have p: "parts s e [] [] []" by (simp add: parts_def)
  have c: "card (insert s (insert e {})) < 2 ^ 32" by (simp add: card_insert_if)
  let ?rl = "\<lparr>rl_start = s, rl_end = e, rl_type = ty, rl_ptr = Some a\<rparr>"
  have "lock_inv {} t ([] @ []) []" using inv by simp
  from inv_fresh[OF this p se t1(2-4) refl c] have i1: "lock_inv (insert s (insert e {})) t1 [(a, ?r)] ([] @ ?rl # [])" by simp
  have "\<not> loose [(a, ?r)] ?rl" by (simp add: loose_def)
  moreover have "\<not> two_children t1 a" using avl.inner_between[OF t1(3)] by auto
  ultimately obtain ns rl' t2 L2 where
    u: "unlock_range t1 ?rl = Some (ns, rl', t2)" "lock_inv (insert s (insert e {})) t2 L2 []" "destroy_range_lock t2 rl' = Some t2" using unlock_tight_ok[OF i1] by auto
  have "L2 = []" by (rule no_holders_empty[OF u(2)])
  then have "idle t2" using u(2) by (simp add: idle_def lock_inv_def small_def)
  moreover have "lock_range t s e ty = Some (t1, Inr ?rl)"
    using t1(1) n by (cases ty) (simp_all add: lock_range_def lock_range_reader_def lock_range_writer_def Let_def)
  ultimately show ?thesis using u by blast
qed

section \<open>Tiling\<close>

definition seg_bytes :: "(addr \<rightharpoonup> segment) \<Rightarrow> memory \<Rightarrow> addr \<Rightarrow> byte list" where
  "seg_bytes h m a = (case h a of None \<Rightarrow> [] | Some seg \<Rightarrow>
     (case seg_data seg of
        Some d \<Rightarrow> if s_is_gap seg then replicate (unat (s_size seg)) 0 else (case m d of Some b \<Rightarrow> map (blk_byte b) [0..<blk_len b] | None \<Rightarrow> [])
      | None \<Rightarrow> replicate (unat (s_size seg)) 0))"

fun tiles :: "(addr \<rightharpoonup> segment) \<Rightarrow> off_t \<Rightarrow> addr list \<Rightarrow> off_t \<Rightarrow> bool" where
  "tiles h lo [] hi \<longleftrightarrow> lo = hi"
| "tiles h lo (a # sl) hi \<longleftrightarrow> (\<exists>seg. h a = Some seg \<and> s_offset seg = lo \<and> 0 < uint (s_size seg) \<and>
     lo + uint (s_size seg) < 2 ^ 62 \<and> tiles h (lo + uint (s_size seg)) sl hi)"

definition seg_off :: "(addr \<rightharpoonup> segment) \<Rightarrow> addr \<Rightarrow> off_t" where
  "seg_off h a = (case h a of Some seg \<Rightarrow> s_offset seg | None \<Rightarrow> 0)"

definition leaves_of :: "(addr \<rightharpoonup> segment) \<Rightarrow> addr list \<Rightarrow> off_t \<Rightarrow> (off_t \<times> addr option) list" where
  "leaves_of h sl alloc = map (\<lambda>a. (seg_off h a, Some a)) sl @ [(alloc, None), (off_max, None)]"

text \<open>A segment with storage has a block of its own size in the memory.\<close>

definition stored :: "'w nvml_env \<Rightarrow> nat \<Rightarrow> memory \<Rightarrow> segment \<Rightarrow> bool" where
  "stored env pools m seg \<longleftrightarrow> (if s_is_gap seg then seg_data seg = None
     else \<exists>i b. i < pools \<and> seg_data seg = Some (ne_pool_addr env i) \<and> m (ne_pool_addr env i) = Some b \<and> blk_len b = unat (s_size seg))"

definition pow2 :: "size_t \<Rightarrow> bool" where
  "pow2 w \<longleftrightarrow> (\<exists>k. 12 \<le> k \<and> k < 60 \<and> w = 2 ^ k)"

definition datas :: "(addr \<rightharpoonup> segment) \<Rightarrow> addr list \<Rightarrow> addr list" where
  "datas h sl = concat (map (\<lambda>a. case h a of None \<Rightarrow> [] | Some seg \<Rightarrow> (case seg_data seg of None \<Rightarrow> [] | Some d \<Rightarrow> [d])) sl)"

definition layout :: "'w nvml_env \<Rightarrow> addr list \<Rightarrow> nvml_file \<Rightarrow> memory \<Rightarrow> bool" where
  "layout env sl f m \<longleftrightarrow> tree_ok 0 off_max (f_segments f) \<and> m_valid_tree (f_segments f) \<and>
     m_leaves (f_segments f) = leaves_of (f_seg f) sl (f_alloc_offset f) \<and>
     tiles (f_seg f) 0 sl (f_alloc_offset f) \<and> distinct sl \<and> (\<forall>a \<in> set sl. a < f_next f) \<and>
     (\<forall>a \<in> set sl. \<forall>seg. f_seg f a = Some seg \<longrightarrow> stored env (f_pools f) m seg) \<and> distinct (datas (f_seg f) sl) \<and>
     0 \<le> f_used_offset f \<and> f_used_offset f \<le> f_alloc_offset f \<and> f_alloc_offset f < 2 ^ 62 \<and> pow2 (f_segment_size f)"

definition seg_content :: "(addr \<rightharpoonup> segment) \<Rightarrow> memory \<Rightarrow> addr list \<Rightarrow> byte list" where
  "seg_content h m sl = concat (map (seg_bytes h m) sl)"

lemma seg_bytes_length:
  assumes "h a = Some seg" "stored env n m seg"
  shows "length (seg_bytes h m a) = unat (s_size seg)"
  using assms by (auto simp: seg_bytes_def stored_def split: if_splits)

lemma size_nat: "int (unat (w :: size_t)) = uint w"
  by simp

lemma to_size_add: "to_size x + w = to_size (x + uint w)"
  by (simp add: to_size_def)

lemma to_off_mid: "0 \<le> x \<Longrightarrow> x < 2 ^ 62 \<Longrightarrow> to_off (to_size x) = x"
  by (rule to_off_to_size) auto

lemma segment_end_tile: "0 \<le> s_offset seg \<Longrightarrow> s_offset seg + uint (s_size seg) < 2 ^ 62 \<Longrightarrow> segment_end seg = s_offset seg + uint (s_size seg)"
  unfolding segment_end_def to_size_add by (rule to_off_mid) (auto intro: add_nonneg_nonneg)

lemma to_off_tile: "uint (w :: size_t) < 2 ^ 62 \<Longrightarrow> to_off w = uint w"
  by (rule to_off_small) simp

lemma tiles_le: "tiles h lo sl hi \<Longrightarrow> lo \<le> hi"
proof (induction h lo sl hi rule: tiles.induct)
  case (2 h lo a sl hi)
  then show ?case by fastforce
qed simp

lemma tiles_content:
  "tiles h lo sl hi \<Longrightarrow> (\<forall>a \<in> set sl. \<forall>seg. h a = Some seg \<longrightarrow> stored env n m seg) \<Longrightarrow> int (length (seg_content h m sl)) = hi - lo"
proof (induction h lo sl hi rule: tiles.induct)
  case (2 h lo a sl hi)
  then obtain seg where seg: "h a = Some seg" "s_offset seg = lo" "tiles h (lo + uint (s_size seg)) sl hi" by auto
  from 2(1)[OF seg(3)] 2(3) have "int (length (seg_content h m sl)) = hi - (lo + uint (s_size seg))" by simp
  moreover have "length (seg_bytes h m a) = unat (s_size seg)" using seg_bytes_length[of h a seg env n m] 2(3) seg(1) by simp
  ultimately show ?case by (simp add: seg_content_def)
qed (simp add: seg_content_def)


section \<open>Looking a range up\<close>

definition region_of :: "segment \<Rightarrow> off_t \<Rightarrow> off_t \<Rightarrow> file_region" where
  "region_of seg delta n = \<lparr>r_address = (if s_is_gap seg then None else map_option (\<lambda>d. (d, nat delta)) (seg_data seg)),
     r_size = to_size n, r_is_gap = s_is_gap seg, r_is_pmem = is_pmem seg\<rparr>"

text \<open>The regions of \<open>[start, end)\<close> in a list of segments that begins at \<open>lo\<close>.\<close>

fun seg_regions :: "(addr \<rightharpoonup> segment) \<Rightarrow> addr list \<Rightarrow> off_t \<Rightarrow> off_t \<Rightarrow> off_t \<Rightarrow> file_region list" where
  "seg_regions h [] lo start end = []"
| "seg_regions h (a # sl) lo start end = (case h a of None \<Rightarrow> [] | Some seg \<Rightarrow>
     let hi = lo + uint (s_size seg) in
     if hi \<le> start then seg_regions h sl hi start end
     else region_of seg (start - lo) (min end hi - start) # (if end \<le> hi then [] else seg_regions h sl hi hi end))"

lemma tiles_append: "tiles h lo (ps @ ss) hi \<longleftrightarrow> (\<exists>mid. tiles h lo ps mid \<and> tiles h mid ss hi)"
  by (induction ps arbitrary: lo) auto

lemma tiles_find:
  "tiles h lo sl hi \<Longrightarrow> lo \<le> x \<Longrightarrow> x < hi \<Longrightarrow>
    \<exists>ps a ss seg mid. sl = ps @ a # ss \<and> tiles h lo ps mid \<and> tiles h mid (a # ss) hi \<and> h a = Some seg \<and> mid \<le> x \<and> x < mid + uint (s_size seg)"
proof (induction h lo sl hi rule: tiles.induct)
  case (2 h lo a sl hi)
  then obtain seg where seg: "h a = Some seg" "tiles h (lo + uint (s_size seg)) sl hi" by auto
  show ?case
  proof (cases "x < lo + uint (s_size seg)")
    case True
    then have "a # sl = [] @ a # sl \<and> tiles h lo [] lo \<and> tiles h lo (a # sl) hi \<and> h a = Some seg \<and> lo \<le> x \<and> x < lo + uint (s_size seg)"
      using 2 seg by simp
    then show ?thesis by blast
  next
    case False
    then obtain ps b ss seg' mid where "sl = ps @ b # ss" "tiles h (lo + uint (s_size seg)) ps mid" "tiles h mid (b # ss) hi"
      "h b = Some seg'" "mid \<le> x" "x < mid + uint (s_size seg')" using 2(1)[OF seg(2)] 2(4) by auto
    moreover have "tiles h lo (a # ps) mid" using 2(2) seg calculation(2) by auto
    ultimately have "a # sl = (a # ps) @ b # ss \<and> tiles h lo (a # ps) mid \<and> tiles h mid (b # ss) hi \<and> h b = Some seg' \<and> mid \<le> x \<and> x < mid + uint (s_size seg')"
      by simp
    then show ?thesis by blast
  qed
qed simp

lemma seg_regions_skip: "tiles h lo ps mid \<Longrightarrow> mid \<le> start \<Longrightarrow> seg_regions h (ps @ ss) lo start end = seg_regions h ss mid start end"
proof (induction h lo ps mid rule: tiles.induct)
  case (2 h lo a sl hi)
  then obtain seg where seg: "h a = Some seg" "tiles h (lo + uint (s_size seg)) sl hi" by auto
  then have "lo + uint (s_size seg) \<le> start" using tiles_le[OF seg(2)] 2(3) by simp
  then show ?case using 2(1)[OF seg(2) 2(3)] seg(1) by (simp add: Let_def)
qed simp

lemma region_address_of:
  assumes "stored env n m seg" "0 \<le> delta"
  shows "region_address seg delta = Some (r_address (region_of seg delta k))"
  using assms by (auto simp: region_address_def region_of_def stored_def split: if_splits)

lemma leaf_at: "m_leaves (f_segments f) = leaves_of h (ps @ a # ss) alloc \<Longrightarrow> m_leaves (f_segments f) ! length ps = (seg_off h a, Some a)"
  by (simp add: leaves_of_def nth_append)

lemma lookup_loop_run:
  assumes lv: "m_leaves (f_segments f) = leaves_of (f_seg f) (ps @ ss) alloc" and t: "tiles (f_seg f) lo ss alloc"
    and st: "\<forall>a \<in> set ss. \<forall>seg. f_seg f a = Some seg \<longrightarrow> stored env (f_pools f) m seg"
    and r: "0 \<le> lo" "lo \<le> start" "start < end" "end \<le> alloc" and hd: "case ss of [] \<Rightarrow> False | a # _ \<Rightarrow> \<forall>seg. f_seg f a = Some seg \<longrightarrow> start < lo + uint (s_size seg)"
    and ng: "ag \<longrightarrow> (\<forall>r \<in> set (seg_regions (f_seg f) ss lo start end). \<not> r_is_gap r)"
  shows "lookup_loop env f s (length ps) start (to_size (end - start)) end ag regions =
    Some (Inr (regions @ seg_regions (f_seg f) ss lo start end, f, s))"
  using lv t st r hd ng
proof (induction ss arbitrary: ps lo start regions)
  case (Cons a ss)
  from Cons.prems(2) obtain seg where seg: "f_seg f a = Some seg" "s_offset seg = lo" "0 < uint (s_size seg)"
    "lo + uint (s_size seg) < 2 ^ 62" "tiles (f_seg f) (lo + uint (s_size seg)) ss alloc" by auto
  let ?hi = "lo + uint (s_size seg)"
  have lt: "start < ?hi" using Cons.prems(8) seg(1) by simp
  have sz: "to_off (s_size seg) = uint (s_size seg)" using seg(4) Cons.prems(4) by (intro to_off_tile) linarith
  have se: "segment_end seg = ?hi" using segment_end_tile[of seg] seg(2,4) Cons.prems(4) by simp
  have rq: "to_off (to_size (end - start)) = end - start"
  proof (rule to_off_mid)
    have "alloc < 2 ^ 62"
    proof (cases ss rule: rev_cases)
      case Nil then show ?thesis using seg(4,5) by simp
    next
      case (snoc ys y)
      then obtain mid where "tiles (f_seg f) mid [y] alloc" using seg(5) by (auto simp: tiles_append)
      then show ?thesis by auto
    qed
    then show "end - start < 2 ^ 62" using Cons.prems(4,5,7) by linarith
  qed (use Cons.prems(6) in linarith)
  let ?rg = "region_of seg (start - lo) (min end ?hi - start)"
  have os: "min (end - start) (uint (s_size seg) - (start - lo)) = min end ?hi - start" by linarith
  have ra: "region_address seg (start - lo) = Some (r_address ?rg)"
    by (rule region_address_of[of env "f_pools f" m]) (use Cons.prems(3,5) seg(1) in auto)
  have rs: "seg_regions (f_seg f) (a # ss) lo start end = ?rg # (if end \<le> ?hi then [] else seg_regions (f_seg f) ss ?hi ?hi end)"
    using seg(1) lt by (simp add: Let_def)
  have gap: "\<not> (ag \<and> s_is_gap seg)" using Cons.prems(9) unfolding rs by (auto simp: region_of_def)
  have step: "lookup_loop env f s (length ps) start (to_size (end - start)) end ag regions =
    (if ?hi \<ge> end then Some (Inr (regions @ [?rg], f, s))
     else lookup_loop env f s (length (ps @ [a])) ?hi (to_size (end - start) - to_size (min end ?hi - start)) end ag (regions @ [?rg]))"
  proof -
    have "Suc (length ps) < length (m_leaves (f_segments f))" using Cons.prems(1) by (simp add: leaves_of_def)
    moreover have "start - lo \<noteq> uint (s_size seg)" using lt by simp
    ultimately show ?thesis using leaf_at[OF Cons.prems(1)] seg(1,2) sz se rq os ra gap
      by (subst lookup_loop.simps) (auto simp: region_of_def Let_def)
  qed
  show ?case
  proof (cases "end \<le> ?hi")
    case False
    then have ne: "ss \<noteq> []" using seg(5) Cons.prems(7) by auto
    have "to_size (end - start) - to_size (min end ?hi - start) = to_size (end - ?hi)"
      using False by (simp add: to_size_def min_def)
    moreover have "lookup_loop env f s (length (ps @ [a])) ?hi (to_size (end - ?hi)) end ag (regions @ [?rg]) =
        Some (Inr ((regions @ [?rg]) @ seg_regions (f_seg f) ss ?hi ?hi end, f, s))"
    proof (rule Cons.IH)
      show "case ss of [] \<Rightarrow> False | a # _ \<Rightarrow> \<forall>seg'. f_seg f a = Some seg' \<longrightarrow> ?hi < ?hi + uint (s_size seg')"
        using ne seg(5) by (cases ss) auto
      show "ag \<longrightarrow> (\<forall>r \<in> set (seg_regions (f_seg f) ss ?hi ?hi end). \<not> r_is_gap r)" using Cons.prems(9) False unfolding rs by auto
    qed (use Cons.prems(1,3,4,5,7) seg False in auto)
    ultimately show ?thesis unfolding rs step using False by simp
  qed (unfold rs step, simp)
qed simp

lemma at_pos_unique: "sorted_wrt (<) (map fst ls) \<Longrightarrow> at_pos ls k i \<Longrightarrow> at_pos ls k j \<Longrightarrow> i = j"
proof (rule ccontr)
  assume s: "sorted_wrt (<) (map fst ls)" and ij: "at_pos ls k i" "at_pos ls k j" "i \<noteq> j"
  have *: False if "at_pos ls k i" "at_pos ls k j" "i < j" for i j
  proof -
    have "fst (ls ! (i + 1)) \<le> fst (ls ! j)"
    proof (cases "i + 1 = j")
      case False
      then have "fst (ls ! (i + 1)) < fst (ls ! j)" using sorted_wrt_nth_less[OF s, of "i + 1" j] that by (simp add: at_pos_def)
      then show ?thesis by simp
    qed simp
    then show False using that by (simp add: at_pos_def)
  qed
  show False using *[of i j] *[of j i] ij by linarith
qed

lemma layout_search:
  assumes L: "layout env sl f m" and sl: "sl = ps @ a # ss" "tiles (f_seg f) 0 ps mid" "tiles (f_seg f) mid (a # ss) (f_alloc_offset f)"
    "f_seg f a = Some seg" "mid \<le> x" "x < mid + uint (s_size seg)"
  shows "search_tree (f_segments f) x = Some (length ps, Some a)"
proof -
  let ?t = "f_segments f" let ?ls = "m_leaves ?t"
  have t: "tree_ok 0 off_max ?t" "m_valid_tree ?t" "?ls = leaves_of (f_seg f) sl (f_alloc_offset f)"
    "f_alloc_offset f < 2 ^ 62" using L by (auto simp: layout_def)
  have lv: "?ls = map (\<lambda>a. (seg_off (f_seg f) a, Some a)) ps @ (mid, Some a) # map (\<lambda>a. (seg_off (f_seg f) a, Some a)) ss @ [(f_alloc_offset f, None), (off_max, None)]"
    using t(3) sl(1,3,4) by (auto simp: leaves_of_def seg_off_def)
  have nxt: "fst (?ls ! (length ps + 1)) = mid + uint (s_size seg)"
  proof (cases ss)
    case Nil
    then show ?thesis unfolding lv using sl(3,4) by (simp add: nth_append)
  next
    case (Cons b ss')
    then show ?thesis unfolding lv using sl(3,4) by (auto simp: nth_append seg_off_def)
  qed
  have "tiles (f_seg f) (mid + uint (s_size seg)) ss (f_alloc_offset f)" using sl(3,4) by auto
  then have x: "0 \<le> x" "x < off_max" using tiles_le[OF sl(2)] tiles_le sl(5,6) t(4) by (fastforce simp: off_max_def)+
  have "at_pos ?ls x (length ps)"
    using nxt sl(5,6) unfolding at_pos_def by (simp add: lv nth_append)
  moreover obtain i where i: "search_tree ?t x = Some (i, seg_val ?ls x)" "at_pos ?ls x i" "snd (?ls ! i) = seg_val ?ls x"
    using search_tree_ok[OF t(1,2) x] by blast
  moreover have "sorted_wrt (<) (map fst ?ls)" using t(1) by (simp add: tree_ok_def leaves_ok_def)
  ultimately have "i = length ps" using at_pos_unique by blast
  then show ?thesis using i(1,3) lv by (simp add: nth_append)
qed

lemma lookup_helper_run:
  assumes L: "layout env sl f m" and r: "0 \<le> start" "start < end" "end \<le> f_alloc_offset f"
    and ng: "ag \<longrightarrow> (\<forall>r \<in> set (seg_regions (f_seg f) sl 0 start end). \<not> r_is_gap r)"
  shows "lookup_helper env f s start end ag regions = Some (Inr (regions @ seg_regions (f_seg f) sl 0 start end, f, s))"
proof -
  have t: "tiles (f_seg f) 0 sl (f_alloc_offset f)" "\<forall>a \<in> set sl. \<forall>seg. f_seg f a = Some seg \<longrightarrow> stored env (f_pools f) m seg"
    "m_leaves (f_segments f) = leaves_of (f_seg f) sl (f_alloc_offset f)" "f_alloc_offset f < 2 ^ 62" using L by (auto simp: layout_def)
  have "start < f_alloc_offset f" using r by linarith
  from tiles_find[OF t(1) r(1) this] obtain ps a ss seg mid where
    d: "sl = ps @ a # ss" "tiles (f_seg f) 0 ps mid" "tiles (f_seg f) mid (a # ss) (f_alloc_offset f)" "f_seg f a = Some seg" "mid \<le> start" "start < mid + uint (s_size seg)"
    by blast
  have skip: "seg_regions (f_seg f) sl 0 start end = seg_regions (f_seg f) (a # ss) mid start end"
    unfolding d(1) by (rule seg_regions_skip[OF d(2,5)])
  have m0: "0 \<le> mid" by (rule tiles_le[OF d(2)])
  have "uint (to_size (end - start)) = end - start" using r t(4) by (intro to_size_unat) auto
  then have "to_size (end - start) \<noteq> 0" using r(2) by auto
  moreover have "lookup_loop env f s (length ps) start (to_size (end - start)) end ag regions =
      Some (Inr (regions @ seg_regions (f_seg f) (a # ss) mid start end, f, s))"
    by (rule lookup_loop_run[of f ps "a # ss" "f_alloc_offset f" mid env m])
      (use t d m0 r ng skip in auto)
  ultimately show ?thesis using layout_search[OF L d] skip unfolding lookup_helper_def by (simp add: Let_def)
qed

end
