(* ===== verification/Nvml_Read.thy ===== *)
theory Nvml_Read
  imports Nvml_Layout
begin

text \<open>Reading: the regions of a range hold the bytes of the range, and \<open>get_data\<close> copies them out.\<close>

section \<open>The bytes of regions\<close>

definition region_bytes :: "memory \<Rightarrow> file_region \<Rightarrow> byte list" where
  "region_bytes m r = (case r_address r of None \<Rightarrow> replicate (unat (r_size r)) 0
     | Some p \<Rightarrow> (case mem_read m p (unat (r_size r)) of None \<Rightarrow> [] | Some bs \<Rightarrow> bs))"

definition readable :: "memory \<Rightarrow> file_region \<Rightarrow> bool" where
  "readable m r \<longleftrightarrow> (\<forall>p. r_address r = Some p \<longrightarrow> mem_read m p (unat (r_size r)) \<noteq> None)"

lemma region_bytes_length: "readable m r \<Longrightarrow> length (region_bytes m r) = unat (r_size r)"
  by (auto simp: region_bytes_def readable_def mem_read_length split: option.splits)

definition away :: "addr \<Rightarrow> file_region \<Rightarrow> bool" where
  "away a r \<longleftrightarrow> (\<forall>p. r_address r = Some p \<longrightarrow> fst p \<noteq> a)"

lemma away_bytes: "away a r \<Longrightarrow> readable (m(a := b)) r = readable m r" "away a r \<Longrightarrow> region_bytes (m(a := b)) r = region_bytes m r"
  by (auto simp: away_def readable_def region_bytes_def mem_read_other split: option.splits)

lemma copy_regions_run:
  assumes "\<forall>r \<in> set rs. readable m r \<and> away a r" "m a = Some b" "n + sum_list (map (\<lambda>r. unat (r_size r)) rs) \<le> blk_len b"
  shows "copy_regions m a n rs = Some (n + sum_list (map (\<lambda>r. unat (r_size r)) rs), m(a \<mapsto> blk_write b n (concat (map (region_bytes m) rs))))"
  using assms
proof (induction rs arbitrary: m n b)
  case Nil
  then show ?case by (simp add: fun_upd_idem)
next
  case (Cons r rs)
  let ?bs = "region_bytes m r" let ?m = "m(a \<mapsto> blk_write b n ?bs)"
  have l: "length ?bs = unat (r_size r)" using Cons.prems(1) by (simp add: region_bytes_length)
  have rd: "(case r_address r of Some p \<Rightarrow> mem_read m p (unat (r_size r)) | None \<Rightarrow> Some (replicate (unat (r_size r)) 0)) = Some ?bs"
    using Cons.prems(1) by (auto simp: readable_def region_bytes_def split: option.splits)
  have w: "mem_write m (a, n) ?bs = Some ?m" using Cons.prems(2,3) l by (simp add: mem_write_def)
  have "\<forall>r \<in> set rs. readable ?m r \<and> away a r" "?m a = Some (blk_write b n ?bs)" "n + unat (r_size r) + sum_list (map (\<lambda>r. unat (r_size r)) rs) \<le> blk_len (blk_write b n ?bs)"
    using Cons.prems by (auto simp: away_bytes)
  from Cons.IH[OF this] have
    "copy_regions ?m a (n + unat (r_size r)) rs = Some (n + unat (r_size r) + sum_list (map (\<lambda>r. unat (r_size r)) rs),
      ?m(a \<mapsto> blk_write (blk_write b n ?bs) (n + unat (r_size r)) (concat (map (region_bytes ?m) rs))))" .
  moreover have "map (region_bytes ?m) rs = map (region_bytes m) rs" using Cons.prems(1) by (auto simp: away_bytes)
  moreover have "blk_write (blk_write b n ?bs) (n + unat (r_size r)) xs = blk_write b n (?bs @ xs)" for xs
    using blk_write_append[of b n ?bs xs] l by simp
  ultimately show ?case using rd w by (simp add: add.assoc) (auto simp: fun_eq_iff)
qed

lemma region_of_bytes:
  assumes h: "h a = Some seg" and s: "stored env k m seg" and d: "0 \<le> delta" "0 \<le> n" "delta + n \<le> uint (s_size seg)" "n < 2 ^ 62"
  shows "readable m (region_of seg delta n) \<and> region_bytes m (region_of seg delta n) = take (nat n) (drop (nat delta) (seg_bytes h m a)) \<and>
    unat (r_size (region_of seg delta n)) = nat n"
proof -
  have n: "unat (to_size n) = nat n" using to_size_unat[of n] d by (simp add: unat_eq_nat_uint)
  have le: "nat delta + nat n \<le> unat (s_size seg)" 
  proof -
    have "int (nat delta + nat n) \<le> int (unat (s_size seg))" using d by simp
    then show ?thesis by linarith
  qed
  show ?thesis
  proof (cases "s_is_gap seg")
    case True
    then show ?thesis using s n le h by (auto simp: region_of_def readable_def region_bytes_def seg_bytes_def stored_def)
  next
    case False
    then obtain i b where b: "seg_data seg = Some (ne_pool_addr env i)" "m (ne_pool_addr env i) = Some b" "blk_len b = unat (s_size seg)"
      using s by (auto simp: stored_def)
    have "take (nat n) (drop (nat delta) (map (blk_byte b) [0..<blk_len b])) = map (blk_byte b) [nat delta..<nat delta + nat n]"
      using le b(3) by (simp add: drop_map take_map)
    then show ?thesis using False b n le h by (auto simp: region_of_def readable_def region_bytes_def seg_bytes_def mem_read_def)
  qed
qed

section \<open>The bytes of a range\<close>

definition extent :: "nat \<Rightarrow> nat \<Rightarrow> 'a list \<Rightarrow> 'a list" where
  "extent i n xs = take n (drop i xs)"

lemma extent_append:
  "extent i n (xs @ ys) = (if length xs \<le> i then extent (i - length xs) n ys
     else if i + n \<le> length xs then extent i n xs else extent i (length xs - i) xs @ extent 0 (n - (length xs - i)) ys)"
  by (auto simp: extent_def)

lemma seg_regions_bytes:
  "tiles h lo sl hi \<Longrightarrow> (\<forall>a \<in> set sl. \<forall>seg. h a = Some seg \<longrightarrow> stored env k m seg) \<Longrightarrow> lo \<le> start \<Longrightarrow> start < end \<Longrightarrow> end \<le> hi \<Longrightarrow> 0 \<le> lo \<Longrightarrow>
   concat (map (region_bytes m) (seg_regions h sl lo start end)) = extent (nat (start - lo)) (nat (end - start)) (seg_content h m sl) \<and>
   (\<forall>r \<in> set (seg_regions h sl lo start end). readable m r) \<and>
   sum_list (map (\<lambda>r. unat (r_size r)) (seg_regions h sl lo start end)) = nat (end - start) \<and> seg_regions h sl lo start end \<noteq> []"
proof (induction h sl lo start "end" rule: seg_regions.induct)
  case (1 h lo start "end")
  then show ?case by simp
next
  case (2 h a sl lo start "end")
  from "2.prems"(1) obtain seg where seg: "h a = Some seg" "s_offset seg = lo" "0 < uint (s_size seg)"
    "lo + uint (s_size seg) < 2 ^ 62" "tiles h (lo + uint (s_size seg)) sl hi" by auto
  let ?hi = "lo + uint (s_size seg)"
  have st: "stored env k m seg" using "2.prems"(2) seg(1) by simp
  have lB: "length (seg_bytes h m a) = unat (s_size seg)" using seg_bytes_length[of h a seg env k m] seg(1) st by simp
  have u: "int (unat (s_size seg)) = uint (s_size seg)" by simp
  have C: "seg_content h m (a # sl) = seg_bytes h m a @ seg_content h m sl" by (simp add: seg_content_def)
  have st': "\<forall>a \<in> set sl. \<forall>seg. h a = Some seg \<longrightarrow> stored env k m seg" using "2.prems"(2) by simp
  show ?case
  proof (cases "?hi \<le> start")
    case True
    have rg: "seg_regions h (a # sl) lo start end = seg_regions h sl ?hi start end" using seg(1) True by (simp add: Let_def)
    have "nat (start - lo) - unat (s_size seg) = nat (start - ?hi)" "unat (s_size seg) \<le> nat (start - lo)" using True u by linarith+
    then show ?thesis using "2.IH"(1)[OF seg(1) refl True seg(5) st'] True "2.prems"(4,5,6) unfolding rg C by (simp add: extent_append lB)
  next
    case False
    let ?r = "region_of seg (start - lo) (min end ?hi - start)"
    have rb: "readable m ?r \<and> region_bytes m ?r = take (nat (min end ?hi - start)) (drop (nat (start - lo)) (seg_bytes h m a)) \<and>
        unat (r_size ?r) = nat (min end ?hi - start)"
      by (rule region_of_bytes[of h a seg env k m]) (use seg(1) st False "2.prems"(3,4,6) seg(4) in auto)
    have n0: "\<not> unat (s_size seg) \<le> nat (start - lo)" using False "2.prems"(3) u by linarith
    show ?thesis
    proof (cases "end \<le> ?hi")
      case True
      have rg: "seg_regions h (a # sl) lo start end = [?r]" using seg(1) False True by (simp add: Let_def)
      have "nat (start - lo) + nat (end - start) \<le> unat (s_size seg)" using True "2.prems"(3,4) u by linarith
      then show ?thesis using rb True n0 unfolding rg C by (simp add: extent_append lB extent_def)
    next
      case F2: False
      have rg: "seg_regions h (a # sl) lo start end = ?r # seg_regions h sl ?hi ?hi end" using seg(1) False F2 by (simp add: Let_def)
      from "2.IH"(2)[OF seg(1) refl False F2 seg(5) st'] have
        IH: "concat (map (region_bytes m) (seg_regions h sl ?hi ?hi end)) = extent 0 (nat (end - ?hi)) (seg_content h m sl)"
          "\<forall>r \<in> set (seg_regions h sl ?hi ?hi end). readable m r" "sum_list (map (\<lambda>r. unat (r_size r)) (seg_regions h sl ?hi ?hi end)) = nat (end - ?hi)"
        using F2 "2.prems"(5,6) by auto
      have e: "min end ?hi = ?hi" using F2 by simp
      have ns: "nat (?hi - start) = unat (s_size seg) - nat (start - lo)" "nat (end - start) - (unat (s_size seg) - nat (start - lo)) = nat (end - ?hi)"
        "nat (?hi - start) + nat (end - ?hi) = nat (end - start)" "\<not> nat (start - lo) + nat (end - start) \<le> unat (s_size seg)"
        using F2 False "2.prems"(3) u by linarith+
      show ?thesis using rb IH n0 ns unfolding rg C e by (simp add: extent_append lB) (simp add: extent_def lB)
    qed
  qed
qed

lemma sum_words:
  assumes "sum_list (map (\<lambda>r. unat (r_size r)) rs) < 2 ^ 64"
  shows "unat (total_size rs) = sum_list (map (\<lambda>r. unat (r_size r)) rs)"
  using assms
proof (induction rs)
  case (Cons r rs)
  then have "unat (total_size rs) = sum_list (map (\<lambda>r. unat (r_size r)) rs)" by simp
  then have "unat (r_size r + total_size rs) = unat (r_size r) + sum_list (map (\<lambda>r. unat (r_size r)) rs)"
    using Cons.prems by (subst unat_add_lem[THEN iffD1]) auto
  then show ?case by (simp add: total_size_def)
qed (simp add: total_size_def)


section \<open>Reading a range\<close>

definition file_content :: "addr list \<Rightarrow> nvml_file \<Rightarrow> memory \<Rightarrow> byte list" where
  "file_content sl f m = take (nat (f_used_offset f)) (seg_content (f_seg f) m sl)"

lemma readable_away: "readable m r \<Longrightarrow> m a = None \<Longrightarrow> away a r"
  by (auto simp: readable_def away_def mem_read_def)

lemma to_size_nat:
  assumes "0 \<le> x" "x < 2 ^ 62"
  shows "unat (to_size x) = nat x"
proof -
  have "int (unat (to_size x)) = x" using to_size_unat[of x] assms by simp
  then show ?thesis by linarith
qed

lemma layoutD:
  assumes "layout env sl f m"
  shows "tiles (f_seg f) 0 sl (f_alloc_offset f)" "\<forall>a \<in> set sl. \<forall>seg. f_seg f a = Some seg \<longrightarrow> stored env (f_pools f) m seg"
    "m_leaves (f_segments f) = leaves_of (f_seg f) sl (f_alloc_offset f)" "m_valid_tree (f_segments f)" "tree_ok 0 off_max (f_segments f)"
    "0 \<le> f_used_offset f" "f_used_offset f \<le> f_alloc_offset f" "f_alloc_offset f < 2 ^ 62" "pow2 (f_segment_size f)"
    "distinct sl" "\<forall>a \<in> set sl. a < f_next f" "distinct (datas (f_seg f) sl)"
  using assms unfolding layout_def by blast+

lemma layout_mutex [simp]: "layout env sl (f\<lparr>f_range_mutex := t\<rparr>) m = layout env sl f m"
  "file_content sl (f\<lparr>f_range_mutex := t\<rparr>) m = file_content sl f m"
  by (simp_all add: layout_def file_content_def)

lemma end_of_range:
  assumes "0 \<le> off" "off + uint sz < 2 ^ 62"
  shows "to_off (to_size off + sz) = off + uint sz"
  unfolding to_size_add using assms by (intro to_off_mid) (auto intro: add_nonneg_nonneg)

lemma extent_take: "i + n \<le> k \<Longrightarrow> extent i n (take k xs) = extent i n xs"
  by (simp add: extent_def drop_take min_def)

lemma off_ok_range: "0 \<le> x \<Longrightarrow> x < 2 ^ 62 \<Longrightarrow> off_ok x"
  by (simp add: off_ok_def)

lemma get_data_run:
  assumes L: "layout env sl f (mc_mem s)" and i: "idle (f_range_mutex f)" "f_initialized f" and r: "0 \<le> off" "off < f_used_offset f" "0 < sz" "off + uint sz < 2 ^ 62"
    and v: "bv_buf v = b0 # bs" and len: "len = min (f_used_offset f - off) (uint sz)" and al: "ne_memalign env s (to_size len) = Some a" "mc_mem s a = None"
  shows "\<exists>f' s' t. get_data env f s off sz v = Some (Inr (0, v\<lparr>bv_buf := b0\<lparr>fb_is_fd := False, fb_fd_seek := True, fb_fd_retry := True, fb_mem := Some (a, 0), fb_size := nat len\<rparr> # bs\<rparr>, f', s')) \<and>
    f' = f\<lparr>f_range_mutex := t\<rparr> \<and> idle t \<and> mem_read (mc_mem s') (a, 0) (nat len) = Some (extent (nat off) (nat len) (file_content sl f (mc_mem s))) \<and>
    (\<forall>x. x \<noteq> a \<longrightarrow> mc_mem s' x = mc_mem s x) \<and> mc_world s' = mc_world s"
proof -
  note D = layoutD[OF L]
  let ?e = "off + uint sz" let ?e' = "off + len" let ?rs = "seg_regions (f_seg f) sl 0 off (off + len)"
  have p: "0 < uint sz" using r(3) by (simp add: word_less_def)
  have e: "to_off (to_size off + sz) = ?e" by (rule end_of_range[OF r(1,4)])
  have "off < ?e" "off_ok off" "off_ok ?e" using p r D(7,8) by (auto simp: off_ok_def)
  from idle_lock[OF i(1) this, of Reader] obtain t1 rl ns rl' t2 where
    lk: "lock_range (f_range_mutex f) off ?e Reader = Some (t1, Inr rl)" "unlock_range t1 rl = Some (ns, rl', t2)" "destroy_range_lock t2 rl' = Some t2" "idle t2" by blast
  have e': "(if f_used_offset f < ?e then f_used_offset f else ?e) = ?e'" "off < ?e'" "?e' \<le> f_used_offset f" using len p r(2) by auto
  have rg: "lookup_helper env (f\<lparr>f_range_mutex := t1\<rparr>) s off ?e' False [] = Some (Inr (?rs, f\<lparr>f_range_mutex := t1\<rparr>, s))"
    using lookup_helper_run[of env sl "f\<lparr>f_range_mutex := t1\<rparr>" "mc_mem s" off ?e' False s "[]"] L r(1) e' D(7) by simp
  have ld: "lookup_data env (f\<lparr>f_range_mutex := t1\<rparr>) s off ?e [] = Some (Inr (?rs, f\<lparr>f_range_mutex := t1\<rparr>, s))"
    using rg D(4) r(1) p e'(1) unfolding lookup_data_def by (auto simp: Let_def split: if_splits)
  from seg_regions_bytes[OF D(1,2) r(1) e'(2) order_trans[OF e'(3) D(7)]] have
    b: "concat (map (region_bytes (mc_mem s)) ?rs) = extent (nat off) (nat len) (seg_content (f_seg f) (mc_mem s) sl)"
      "\<forall>r \<in> set ?rs. readable (mc_mem s) r" "(\<Sum>r\<leftarrow>?rs. unat (r_size r)) = nat len" "?rs \<noteq> []" by simp_all
  have ts: "unat (total_size ?rs) = nat len" using sum_words[of ?rs] b(3) e'(3) D(7,8) r(1) by simp
  have tz: "total_size ?rs = to_size len" using ts e'(2,3) D(7,8) r(1) to_size_nat[of len] by (simp add: word_unat_eq_iff)
  let ?b = "\<lparr>blk_len = nat len, blk_byte = (\<lambda>_. 0)\<rparr>" let ?m = "(mc_mem s)(a \<mapsto> ?b)"
  have aw: "\<forall>r \<in> set ?rs. readable ?m r \<and> away a r" using b(2) al(2) readable_away[of "mc_mem s" _ a] by (auto simp: away_bytes)
  then have mp: "map (region_bytes ?m) ?rs = map (region_bytes (mc_mem s)) ?rs" by (auto simp: away_bytes)
  have cp: "copy_regions ?m a 0 ?rs = Some (nat len, ?m(a \<mapsto> blk_write ?b 0 (concat (map (region_bytes (mc_mem s)) ?rs))))"
    using copy_regions_run[OF aw, of ?b 0] b(3) mp by simp
  have "length (extent (nat off) (nat len) (seg_content (f_seg f) (mc_mem s) sl)) = nat len"
    using tiles_content[OF D(1,2)] e'(3) D(7) r(1) by (simp add: extent_def)
  then have rd: "mem_read (?m(a \<mapsto> blk_write ?b 0 (concat (map (region_bytes (mc_mem s)) ?rs)))) (a, 0) (nat len) = Some (extent (nat off) (nat len) (seg_content (f_seg f) (mc_mem s) sl))"
    unfolding b(1) using blk_write_read[of ?b 0 "extent (nat off) (nat len) (seg_content (f_seg f) (mc_mem s) sl)"] by (simp add: mem_read_def)
  have fc: "extent (nat off) (nat len) (seg_content (f_seg f) (mc_mem s) sl) = extent (nat off) (nat len) (file_content sl f (mc_mem s))"
    unfolding file_content_def by (rule extent_take[symmetric]) (use e'(3) r(1) e'(2) in linarith)
  have "get_data env f s off sz v = Some (Inr (0, v\<lparr>bv_buf := b0\<lparr>fb_is_fd := False, fb_fd_seek := True, fb_fd_retry := True, fb_mem := Some (a, 0), fb_size := nat len\<rparr> # bs\<rparr>,
      f\<lparr>f_range_mutex := t2\<rparr>, s\<lparr>mc_mem := ?m(a \<mapsto> blk_write ?b 0 (concat (map (region_bytes (mc_mem s)) ?rs)))\<rparr>))"
    using i(2) e p lk ld b(4) al(1) ts cp v unfolding get_data_def init_subdir_def file_lock_range_def file_unlock_range_def
    by (simp add: tz set_buf0_def)
  then show ?thesis using lk(4) rd fc by auto
qed

end
