(* ===== verification/Nvml_Store.thy ===== *)
theory Nvml_Store
  imports Nvml_Read
begin

text \<open>Writing: the bytes of the source vector end up at their offset in the contents of the file.\<close>

section \<open>Storing bytes in regions\<close>

fun store_regions :: "memory \<Rightarrow> file_region list \<Rightarrow> byte list \<Rightarrow> memory" where
  "store_regions m [] bs = m"
| "store_regions m (r # rs) bs = (case r_address r of None \<Rightarrow> m | Some (a, k) \<Rightarrow> (case m a of None \<Rightarrow> m | Some b \<Rightarrow>
     store_regions (m(a \<mapsto> blk_write b k (take (unat (r_size r)) bs))) rs (drop (unat (r_size r)) bs)))"

definition writable :: "memory \<Rightarrow> addr set \<Rightarrow> file_region \<Rightarrow> bool" where
  "writable m A r \<longleftrightarrow> (\<exists>a k b. r_address r = Some (a, k) \<and> a \<in> A \<and> m a = Some b \<and> k + unat (r_size r) \<le> blk_len b)"

lemma writable_write: "m a = Some b \<Longrightarrow> writable (m(a \<mapsto> blk_write b k bs)) A r = writable m A r"
proof (cases "r_address r")
  case (Some p)
  then show "m a = Some b \<Longrightarrow> ?thesis" by (cases p, cases "fst p = a") (auto simp: writable_def)
qed (simp add: writable_def)

lemma write_regions_run:
  assumes cp: "memory_copy (ne_copy env)" and "\<forall>r \<in> set rs. writable (mc_mem s) A r" "mem_vec (mc_mem s) A v"
    "(\<Sum>r\<leftarrow>rs. unat (r_size r)) \<le> length (src_bytes (mc_mem s) v)"
  shows "\<exists>v'. write_regions env s n v rs = Some (n + int (\<Sum>r\<leftarrow>rs. unat (r_size r)), v', s\<lparr>mc_mem := store_regions (mc_mem s) rs (src_bytes (mc_mem s) v)\<rparr>)"
  using assms(2-4)
proof (induction rs arbitrary: s v n)
  case Nil
  then show ?case by simp
next
  case (Cons r rs)
  let ?S = "src_bytes (mc_mem s) v" let ?k = "unat (r_size r)"
  from Cons.prems(1) obtain a k b where r: "r_address r = Some (a, k)" "a \<in> A" "mc_mem s a = Some b" "k + ?k \<le> blk_len b"
    by (auto simp: writable_def)
  let ?m = "(mc_mem s)(a \<mapsto> blk_write b k (take ?k ?S))"
  have len: "?k = min (length ?S) (fb_size (dst_buf r))" using Cons.prems(3) by (simp add: dst_buf_def)
  have db: "\<not> fb_is_fd (dst_buf r)" "fb_mem (dst_buf r) = Some (a, k)" using r(1) by (simp_all add: dst_buf_def)
  have step: "\<exists>dv v'. c s (one_buf (dst_buf r) 0) v splice_move = Some (int ?k, dv, v', s\<lparr>mc_mem := ?m\<rparr>) \<and>
      mem_vec (mc_mem s) A v' \<and> src_bytes (mc_mem s) v' = drop ?k ?S" if "memory_copy c" for c
    by (rule memory_copy.copy_bytes[OF that Cons.prems(2) r(2) db r(3) len r(4)])
  obtain dv v' where v': "(if r_is_pmem r then fuse_buf_copy_pmem False (ne_have_splice env) (ne_calls env) (ne_tmp env) s (one_buf (dst_buf r) 0) v splice_move
        else ne_copy env s (one_buf (dst_buf r) 0) v splice_move) = Some (int ?k, dv, v', s\<lparr>mc_mem := ?m\<rparr>)"
      "mem_vec (mc_mem s) A v'" "src_bytes (mc_mem s) v' = drop ?k ?S"
    using step[OF pmem.memory_copy_axioms[of "ne_have_splice env" "ne_calls env" "ne_tmp env"]] step[OF cp] by (cases "r_is_pmem r") auto
  let ?s = "s\<lparr>mc_mem := ?m\<rparr>"
  have mv: "mem_vec (mc_mem ?s) A v'" "src_bytes (mc_mem ?s) v' = drop ?k ?S" using mem_vec_write[OF v'(2) r(2)] v'(3) by auto
  have w: "\<forall>r \<in> set rs. writable (mc_mem ?s) A r" using Cons.prems(1) r(3) by (simp add: writable_write)
  have l: "(\<Sum>r\<leftarrow>rs. unat (r_size r)) \<le> length (src_bytes (mc_mem ?s) v')" unfolding mv(2) using Cons.prems(3) by simp
  have ms: "mc_mem ?s = ?m" by simp
  have "\<exists>v2. write_regions env ?s (n + int ?k) v' rs = Some (n + int ?k + int (\<Sum>r\<leftarrow>rs. unat (r_size r)), v2, ?s\<lparr>mc_mem := store_regions ?m rs (drop ?k ?S)\<rparr>)"
    using Cons.IH[OF w mv(1) l, of "n + int ?k"] unfolding mv(2) unfolding ms .
  then show ?case using v'(1) r(1,3) by (simp add: add.assoc)
qed


section \<open>The contents after storing\<close>

lemma seg_bytes_cong: "(\<And>seg d. h a = Some seg \<Longrightarrow> seg_data seg = Some d \<Longrightarrow> m' d = m d) \<Longrightarrow> seg_bytes h m' a = seg_bytes h m a"
  by (auto simp: seg_bytes_def split: option.splits)

lemma datas_Cons: "h a = Some seg \<Longrightarrow> datas h (a # sl) = (case seg_data seg of None \<Rightarrow> [] | Some d \<Rightarrow> [d]) @ datas h sl"
  by (simp add: datas_def)

lemma datas_in: "a \<in> set sl \<Longrightarrow> h a = Some seg \<Longrightarrow> seg_data seg = Some d \<Longrightarrow> d \<in> set (datas h sl)"
  by (force simp: datas_def)

lemma seg_content_cong: "(\<And>d. d \<in> set (datas h sl) \<Longrightarrow> m' d = m d) \<Longrightarrow> seg_content h m' sl = seg_content h m sl"
  unfolding seg_content_def by (intro arg_cong[of _ _ concat] map_cong refl seg_bytes_cong) (simp add: datas_in)

lemma stored_cong: "stored env k m seg \<Longrightarrow> (\<And>d. seg_data seg = Some d \<Longrightarrow> m' d = m d) \<Longrightarrow> stored env k m' seg"
  by (auto simp: stored_def split: if_splits)

lemma blk_write_bytes:
  assumes "k + length bs \<le> blk_len b"
  shows "map (blk_byte (blk_write b k bs)) [0..<blk_len b] =
    take k (map (blk_byte b) [0..<blk_len b]) @ bs @ drop (k + length bs) (map (blk_byte b) [0..<blk_len b])"
  using assms by (intro nth_equalityI) (auto simp: blk_write_def nth_append)

definition solid :: "'w nvml_env \<Rightarrow> nat \<Rightarrow> memory \<Rightarrow> (addr \<rightharpoonup> segment) \<Rightarrow> addr list \<Rightarrow> bool" where
  "solid env k m h sl \<longleftrightarrow> (\<forall>a \<in> set sl. \<forall>seg. h a = Some seg \<longrightarrow> stored env k m seg \<and> \<not> s_is_gap seg)"

lemma solid_cong: "solid env k m h sl \<Longrightarrow> (\<And>d. d \<in> set (datas h sl) \<Longrightarrow> m' d = m d) \<Longrightarrow> solid env k m' h sl"
  unfolding solid_def by (meson datas_in stored_cong)

lemma store_segment:
  assumes seg: "h a = Some seg" "stored env k m seg" "\<not> s_is_gap seg" and d: "0 \<le> delta" "0 \<le> n" "delta + n \<le> uint (s_size seg)" "n < 2 ^ 62" "length bs = nat n"
  shows "\<exists>d b. r_address (region_of seg delta n) = Some (d, nat delta) \<and> unat (r_size (region_of seg delta n)) = nat n \<and> seg_data seg = Some d \<and> m d = Some b \<and>
    nat delta + nat n \<le> blk_len b \<and> stored env k (m(d \<mapsto> blk_write b (nat delta) bs)) seg \<and>
    seg_bytes h (m(d \<mapsto> blk_write b (nat delta) bs)) a = take (nat delta) (seg_bytes h m a) @ bs @ drop (nat delta + nat n) (seg_bytes h m a)"
proof -
  from seg obtain i b where b: "i < k" "seg_data seg = Some (ne_pool_addr env i)" "m (ne_pool_addr env i) = Some b" "blk_len b = unat (s_size seg)"
    by (auto simp: stored_def)
  have "int (nat delta + nat n) \<le> int (unat (s_size seg))" using d by simp
  then have le: "nat delta + nat n \<le> blk_len b" using b(4) by linarith
  then show ?thesis using b seg d(5) blk_write_bytes[of "nat delta" bs b] to_size_nat[OF d(2,4)]
    by (auto simp: region_of_def stored_def seg_bytes_def)
qed


definition overwrite :: "nat \<Rightarrow> 'a list \<Rightarrow> 'a list \<Rightarrow> 'a list" where
  "overwrite i bs xs = take i xs @ bs @ drop (i + length bs) xs"

lemma overwrite_length: "i + length bs \<le> length xs \<Longrightarrow> length (overwrite i bs xs) = length xs"
  by (simp add: overwrite_def)

lemma overwrite_append:
  assumes "i + length bs \<le> length xs + length ys"
  shows "overwrite i bs (xs @ ys) = (if length xs \<le> i then xs @ overwrite (i - length xs) bs ys
     else if i + length bs \<le> length xs then overwrite i bs xs @ ys
     else overwrite i (take (length xs - i) bs) xs @ overwrite 0 (drop (length xs - i) bs) ys)"
proof -
  have "bs @ zs = take (length xs - i) bs @ drop (length xs - i) bs @ zs" for zs by (metis append_assoc append_take_drop_id)
  then show ?thesis using assms by (auto simp: overwrite_def add.commute)
qed

definition stores :: "'w nvml_env \<Rightarrow> nat \<Rightarrow> memory \<Rightarrow> (addr \<rightharpoonup> segment) \<Rightarrow> addr list \<Rightarrow> nat \<Rightarrow> byte list \<Rightarrow> file_region list \<Rightarrow> bool" where
  "stores env k m h sl i bs rs \<longleftrightarrow> (let m' = store_regions m rs bs in
     seg_content h m' sl = overwrite i bs (seg_content h m sl) \<and> solid env k m' h sl \<and>
     (\<forall>r \<in> set rs. writable m (set (datas h sl)) r) \<and> (\<forall>x. x \<notin> set (datas h sl) \<longrightarrow> m' x = m x))"

lemma writable_mono: "writable m A r \<Longrightarrow> A \<subseteq> B \<Longrightarrow> writable m B r"
  by (auto simp: writable_def)

lemma seg_regions_stores:
  "tiles h lo sl hi \<Longrightarrow> solid env k m h sl \<Longrightarrow> distinct (datas h sl) \<Longrightarrow> 0 \<le> lo \<Longrightarrow> lo \<le> start \<Longrightarrow> start < end \<Longrightarrow> end \<le> hi \<Longrightarrow>
   length bs = nat (end - start) \<Longrightarrow> stores env k m h sl (nat (start - lo)) bs (seg_regions h sl lo start end)"
proof (induction h sl lo start "end" arbitrary: m bs rule: seg_regions.induct)
  case (1 h lo start "end")
  then show ?case by simp
next
  case (2 h a sl lo start "end")
  from "2.prems"(1) obtain seg where seg: "h a = Some seg" "s_offset seg = lo" "0 < uint (s_size seg)"
    "lo + uint (s_size seg) < 2 ^ 62" "tiles h (lo + uint (s_size seg)) sl hi" by auto
  let ?hi = "lo + uint (s_size seg)" let ?C = "seg_content h m sl" let ?B = "seg_bytes h m a"
  have st: "stored env k m seg" "\<not> s_is_gap seg" "solid env k m h sl" using "2.prems"(2) seg(1) by (auto simp: solid_def)
  obtain d0 where d0: "seg_data seg = Some d0" using st by (auto simp: stored_def)
  have ds: "datas h (a # sl) = d0 # datas h sl" using datas_Cons[of h a seg sl] seg(1) d0 by simp
  have dd: "distinct (datas h sl)" "d0 \<notin> set (datas h sl)" using "2.prems"(3) unfolding ds by auto
  have lB: "length ?B = unat (s_size seg)" using seg_bytes_length[of h a seg env k m] seg(1) st by simp
  have u: "int (unat (s_size seg)) = uint (s_size seg)" by simp
  have C: "seg_content h m' (a # sl) = seg_bytes h m' a @ seg_content h m' sl" for m' by (simp add: seg_content_def)
  have lC: "int (length ?C) = hi - ?hi" by (rule tiles_content[OF seg(5), of env k]) (use st(3) in \<open>auto simp: solid_def\<close>)
  have sol: "solid env k m' h (a # sl) \<longleftrightarrow> stored env k m' seg \<and> solid env k m' h sl" for m' using seg(1) st(2) by (auto simp: solid_def)
  have keep: "seg_bytes h m' a = seg_bytes h m'' a \<and> (stored env k m'' seg \<longrightarrow> stored env k m' seg)" if "m' d0 = m'' d0" for m' m''
    using that seg(1) d0 by (auto intro!: seg_bytes_cong intro: stored_cong)
  show ?case
  proof (cases "?hi \<le> start")
    case True
    have rg: "seg_regions h (a # sl) lo start end = seg_regions h sl ?hi start end" using seg(1) True by (simp add: Let_def)
    have IH: "stores env k m h sl (nat (start - ?hi)) bs (seg_regions h sl ?hi start end)"
      by (rule "2.IH"(1)[OF seg(1) refl True seg(5) st(3) dd(1)]) (use True seg(3) "2.prems"(4,6-8) in auto)
    have "nat (start - ?hi) = nat (start - lo) - length ?B" "length ?B \<le> nat (start - lo)" using True u lB by linarith+
    moreover have "nat (start - lo) + length bs \<le> length ?B + length ?C" using "2.prems"(5-8) lC lB u by linarith
    moreover have "store_regions m (seg_regions h sl ?hi start end) bs d0 = m d0" using IH dd(2) by (simp add: stores_def Let_def)
    note kp = keep[of "store_regions m (seg_regions h sl ?hi start end) bs" m, OF this]
    ultimately show ?thesis using IH kp st(1) writable_mono[of m "set (datas h sl)" _ "set (d0 # datas h sl)"]
      unfolding rg stores_def Let_def C ds sol by (auto simp: overwrite_append)
  next
    case False
    let ?n = "min end ?hi - start" let ?r = "region_of seg (start - lo) ?n" let ?i = "nat (start - lo)"
    have "length (take (nat ?n) bs) = nat ?n" using "2.prems"(6,8) by auto
    moreover have nn: "0 \<le> start - lo" "0 \<le> ?n" "start - lo + ?n \<le> uint (s_size seg)" "?n < 2 ^ 62" using False "2.prems"(4,5,6) seg(4) by auto
    ultimately obtain d b where r: "r_address ?r = Some (d, ?i)" "unat (r_size ?r) = nat ?n" "seg_data seg = Some d" "m d = Some b" "?i + nat ?n \<le> blk_len b"
      "stored env k (m(d \<mapsto> blk_write b ?i (take (nat ?n) bs))) seg"
      "seg_bytes h (m(d \<mapsto> blk_write b ?i (take (nat ?n) bs))) a = take ?i ?B @ take (nat ?n) bs @ drop (?i + nat ?n) ?B"
      using store_segment[of h a seg env k m, OF seg(1) st(1,2) nn, of "take (nat ?n) bs"] by blast
    have dd0: "d = d0" using r(3) d0 by simp
    let ?m = "m(d \<mapsto> blk_write b ?i (take (nat ?n) bs))"
    have sB: "seg_bytes h ?m a = overwrite ?i (take (nat ?n) bs) ?B" using r(7) \<open>length (take (nat ?n) bs) = nat ?n\<close> by (simp add: overwrite_def)
    have wr: "writable m (set (datas h (a # sl))) ?r" unfolding writable_def ds using r(1,2,4,5) dd0 by auto
    have agree: "\<And>x. x \<in> set (datas h sl) \<Longrightarrow> ?m x = m x" using dd(2) dd0 by auto
    have C': "seg_content h ?m sl = ?C" "solid env k ?m h sl"
      by (rule seg_content_cong[of h sl ?m m], erule agree) (rule solid_cong[OF st(3), of ?m], erule agree)
    have n0: "\<not> length ?B \<le> ?i" using False "2.prems"(5) u lB by linarith
    show ?thesis
    proof (cases "end \<le> ?hi")
      case True
      have rg: "seg_regions h (a # sl) lo start end = [?r]" using seg(1) False True by (simp add: Let_def)
      have n: "nat ?n = length bs" using True "2.prems"(8) by simp
      have sr: "store_regions m [?r] bs = ?m" using r(1,2,4) by simp
      have "?i + length bs \<le> length ?B" using True "2.prems"(5,6,8) u lB by linarith
      then have "seg_content h ?m (a # sl) = overwrite ?i bs (seg_content h m (a # sl))"
        unfolding C sB C'(1) using n n0 by (simp add: overwrite_append)
      then show ?thesis unfolding rg stores_def Let_def sr sol using r(6) C'(2) wr dd0 ds by simp
    next
      case F2: False
      let ?rs = "seg_regions h sl ?hi ?hi end" let ?bs = "drop (nat ?n) bs"
      have rg: "seg_regions h (a # sl) lo start end = ?r # ?rs" using seg(1) False F2 by (simp add: Let_def)
      have e: "min end ?hi = ?hi" using F2 by simp
      have n: "nat ?n = length ?B - ?i" "nat ?n < length bs" "length ?bs = nat (end - ?hi)" unfolding e using False F2 "2.prems"(5,6,8) u lB by (auto, linarith+)
      have IH: "stores env k ?m h sl (nat (?hi - ?hi)) ?bs ?rs"
        by (rule "2.IH"(2)[OF seg(1) refl False F2 seg(5) C'(2) dd(1)]) (use F2 "2.prems"(4,7) seg(3) n(3) in auto)
      have sr: "store_regions m (?r # ?rs) bs = store_regions ?m ?rs ?bs" using r(1,2,4) by simp
      let ?m2 = "store_regions ?m ?rs ?bs"
      have I: "seg_content h ?m2 sl = overwrite 0 ?bs ?C" "solid env k ?m2 h sl" "\<forall>x. x \<notin> set (datas h sl) \<longrightarrow> ?m2 x = ?m x"
        "\<forall>r \<in> set ?rs. writable ?m (set (datas h sl)) r" using IH C'(1) by (simp_all add: stores_def Let_def)
      have "?m2 d0 = ?m d0" using I(3) dd(2) by simp
      note kp = keep[of ?m2 ?m, OF this]
      have "?i + length bs \<le> length ?B + length ?C" using "2.prems"(5-8) lC lB u by linarith
      moreover have "\<not> ?i + length bs \<le> length ?B" using n(1,2) n0 by linarith
      ultimately have "seg_content h ?m2 (a # sl) = overwrite ?i bs (seg_content h m (a # sl))"
        unfolding C using kp sB I(1) n(1,2) n0 by (simp add: overwrite_append)
      moreover have "\<forall>x \<in> set ?rs. writable m (set (datas h (a # sl))) x"
        using I(4) writable_write[of m d b, OF r(4)] writable_mono[of m "set (datas h sl)" _ "set (datas h (a # sl))"] ds by fastforce
      moreover have "\<forall>x. x \<notin> set (datas h (a # sl)) \<longrightarrow> ?m2 x = m x" using I(3) ds dd0 by simp
      ultimately show ?thesis unfolding rg stores_def Let_def sr sol using kp r(6) I(2) wr by simp
    qed
  qed
qed

end
