(* ===== verification/Nvml_Write.thy ===== *)
theory Nvml_Write
  imports Nvml_Store
begin

text \<open>
  Writing: storage for the range is found or appended, and the bytes of the source vector end
  up at their offset in the contents of the file.
\<close>

section \<open>The environment\<close>

text \<open>
  What the code relies on: pools are mapped at different addresses with the length that was
  asked for, stale pools and pool directories can be removed, the pool directory can be
  created, and \<open>fuse_buf_copy\<close> copies memory.
\<close>

definition good_env :: "'w nvml_env \<Rightarrow> bool" where
  "good_env env \<longleftrightarrow> inj (ne_pool_addr env) \<and> (\<forall>n. ne_exists env n \<longrightarrow> ne_unlink env n) \<and>
     (\<forall>n sz. \<exists>pm. ne_map_file env n sz = Some (sz, pm)) \<and> pow2 (ne_segment_size env) \<and> memory_copy (ne_copy env) \<and>
     (ne_subdir_exists env \<longrightarrow> ne_remove_all env) \<and> ne_mkdir env"

section \<open>A new segment at the end\<close>

lemma tiles_cong: "(\<And>x. x \<in> set sl \<Longrightarrow> h' x = h x) \<Longrightarrow> tiles h' lo sl hi = tiles h lo sl hi"
  by (induction sl arbitrary: lo) auto

lemma seg_off_cong: "(\<And>x. x \<in> set sl \<Longrightarrow> h' x = h x) \<Longrightarrow> leaves_of h' sl alloc = leaves_of h sl alloc"
  by (simp add: leaves_of_def seg_off_def)

lemma datas_cong: "(\<And>x. x \<in> set sl \<Longrightarrow> h' x = h x) \<Longrightarrow> datas h' sl = datas h sl"
  unfolding datas_def by (intro arg_cong[of _ _ concat] map_cong) simp_all

lemma content_cong: "(\<And>x. x \<in> set sl \<Longrightarrow> h' x = h x) \<Longrightarrow> seg_content h' m sl = seg_content h m sl"
  unfolding seg_content_def by (intro arg_cong[of _ _ concat] map_cong) (simp_all add: seg_bytes_def)

lemma seg_regions_cong: "(\<And>x. x \<in> set sl \<Longrightarrow> h' x = h x) \<Longrightarrow> seg_regions h' sl lo start end = seg_regions h sl lo start end"
  by (induction sl arbitrary: lo start) (auto simp: Let_def split: option.splits)

lemma seg_regions_app:
  "tiles h lo sl mid \<Longrightarrow> lo \<le> start \<Longrightarrow> start < mid \<Longrightarrow> mid < end \<Longrightarrow>
   seg_regions h (sl @ ss) lo start end = seg_regions h sl lo start mid @ seg_regions h ss mid mid end"
proof (induction h lo sl mid arbitrary: start rule: tiles.induct)
  case (2 h lo a sl hi)
  then obtain seg where seg: "h a = Some seg" "tiles h (lo + uint (s_size seg)) sl hi" "0 < uint (s_size seg)" by auto
  let ?mid = "lo + uint (s_size seg)"
  have le: "?mid \<le> hi" by (rule tiles_le[OF seg(2)])
  consider "?mid \<le> start" | "start < ?mid" "?mid < hi" | "start < ?mid" "?mid = hi" using le by linarith
  then show ?case
  proof cases
    case 1
    then show ?thesis using "2.IH"[OF seg(2) 1 "2.prems"(3,4)] seg(1) by (simp add: Let_def)
  next
    case 2
    then show ?thesis using "2.IH"[OF seg(2) _ 2(2) "2.prems"(4)] "2.prems"(4) seg(1) by (simp add: Let_def)
  next
    case 3
    have "sl = []" using seg(2) 3(2) tiles_le by (cases sl) fastforce+
    then show ?thesis using 3 "2.prems"(4) seg(1) by (simp add: Let_def)
  qed
qed simp

lemma tiles_keys: "tiles h lo sl hi \<Longrightarrow> a \<in> set sl \<Longrightarrow> lo \<le> seg_off h a \<and> seg_off h a < hi"
proof (induction h lo sl hi rule: tiles.induct)
  case (2 h lo b sl hi)
  then obtain seg where seg: "h b = Some seg" "s_offset seg = lo" "tiles h (lo + uint (s_size seg)) sl hi" "0 < uint (s_size seg)" by auto
  then show ?case using "2.IH"[OF seg(3)] tiles_le[OF seg(3)] "2.prems"(2) by (auto simp: seg_off_def)
qed simp

lemma append_segment_run:
  assumes L: "layout env sl f m" and seg: "s_offset seg = f_alloc_offset f" "s_size seg = to_size n" "0 < n" "f_alloc_offset f + n < 2 ^ 62"
  shows "\<exists>t. append_segments (f\<lparr>f_segment_size := w, f_seg := (f_seg f)(f_next f \<mapsto> seg), f_next := Suc (f_next f), f_pools := k\<rparr>) [f_next f] =
      Some (f\<lparr>f_segment_size := w, f_seg := (f_seg f)(f_next f \<mapsto> seg), f_next := Suc (f_next f), f_pools := k, f_segments := t\<rparr>) \<and>
    tree_ok 0 off_max t \<and> m_valid_tree t \<and> m_leaves t = leaves_of ((f_seg f)(f_next f \<mapsto> seg)) (sl @ [f_next f]) (f_alloc_offset f + n)"
proof -
  note D = layoutD[OF L]
  let ?a = "f_next f" let ?h = "(f_seg f)(?a \<mapsto> seg)" let ?us = "map (\<lambda>a. (seg_off (f_seg f) a, Some a)) sl" let ?alloc = "f_alloc_offset f"
  have a: "?a \<notin> set sl" using D(11) by auto
  have al: "0 \<le> ?alloc" using D(6,7) by simp
  have u: "uint (to_size n) = n" using to_size_unat[of n] seg(3,4) al by simp
  have e: "segment_end seg = ?alloc + n" using segment_end_tile[of seg] seg al u by simp
  have p: "parted ?alloc (?alloc + n) ?us [(?alloc, None)] [(off_max, None)]"
    using seg(3,4) tiles_keys[OF D(1)] by (auto simp: parted_def off_max_def)
  have hi: "?alloc + n \<le> off_max" "?alloc + n \<noteq> off_max" using seg(4) by (auto simp: off_max_def)
  from insert_segment_run[OF D(5) al hi(1) p, of "Some ?a" False] obtain t where
    t: "insert_back (f_segments f) ?alloc (?alloc + n) (Some ?a) = Some t" "tree_ok 0 off_max t"
      "m_leaves t = starts ?us ?alloc (Some ?a) @ ends None (?alloc + n) (Some ?a) [(off_max, None)]"
    using D(3) by (auto simp: insert_back_def leaves_of_def)
  have "starts ?us ?alloc (Some ?a) = ?us @ [(?alloc, Some ?a)]" using a by (cases sl rule: rev_cases) (auto simp: starts_def)
  then have lv: "m_leaves t = leaves_of ?h (sl @ [?a]) (?alloc + n)"
    using t(3) hi(2) a seg(1) by (auto simp: ends_def leaves_of_def seg_off_def)
  have "m_leaves (build_tree t) = m_leaves t" "m_valid_tree (build_tree t)" by (simp_all add: build_tree_def)
  then show ?thesis using t lv e seg(1) build_tree_ok[OF t(2)] unfolding append_segments_def by auto
qed


lemma stored_mono: "stored env i m seg \<Longrightarrow> i \<le> j \<Longrightarrow> stored env j m seg"
  by (cases "s_is_gap seg") (simp_all add: stored_def, meson order_less_le_trans)

definition zero_block :: "size_t \<Rightarrow> block" where
  "zero_block n = \<lparr>blk_len = unat n, blk_byte = (\<lambda>_. 0)\<rparr>"

lemma appended_layout:
  assumes L: "layout env sl f m" and so: "solid env (f_pools f) m (f_seg f) sl" and fr: "d \<notin> set (datas (f_seg f) sl)"
    and p: "d = ne_pool_addr env i" "i < k" "f_pools f \<le> k"
    and seg: "s_offset seg = f_alloc_offset f" "s_size seg = to_size n" "0 < n" "f_alloc_offset f + n < 2 ^ 62" "\<not> s_is_gap seg" "seg_data seg = Some d"
    and b: "blk_len b = unat (s_size seg)"
    and t: "tree_ok 0 off_max t" "m_valid_tree t" "m_leaves t = leaves_of ((f_seg f)(f_next f \<mapsto> seg)) (sl @ [f_next f]) (f_alloc_offset f + n)"
    and w: "pow2 w"
  defines "h \<equiv> (f_seg f)(f_next f \<mapsto> seg)" and "m' \<equiv> m(d \<mapsto> b)" and "sl' \<equiv> sl @ [f_next f]"
  shows "layout env sl' (f\<lparr>f_segment_size := w, f_seg := h, f_next := Suc (f_next f), f_pools := k, f_segments := t, f_alloc_offset := f_alloc_offset f + n\<rparr>) m' \<and>
    solid env k m' h sl' \<and> seg_content h m' sl' = seg_content (f_seg f) m sl @ map (blk_byte b) [0..<blk_len b] \<and> datas h sl' = datas (f_seg f) sl @ [d]"
proof -
  note D = layoutD[OF L]
  have a: "f_next f \<notin> set sl" using D(11) by auto
  then have hh: "\<And>x. x \<in> set sl \<Longrightarrow> h x = f_seg f x" by (auto simp: h_def)
  have un: "uint (to_size n) = n" using to_size_unat[of n] seg(3,4) D(6,7) by simp
  have tl: "tiles h 0 sl' (f_alloc_offset f + n)"
    unfolding sl'_def tiles_append using tiles_cong[of sl h "f_seg f" 0 "f_alloc_offset f"] hh D(1) seg(1-4) un by (auto simp: h_def)
  have dt: "datas h sl' = datas (f_seg f) sl @ [d]"
    using datas_cong[of sl h "f_seg f"] hh seg(6) unfolding sl'_def datas_def by (simp add: h_def)
  have so': "solid env k m' h sl'"
  proof -
    have "stored env k m' x" if y: "y \<in> set sl" "f_seg f y = Some x" for x y
    proof -
      have "stored env (f_pools f) m x" using so y by (simp add: solid_def)
      moreover have "m' z = m z" if "seg_data x = Some z" for z
        using datas_in[of y sl "f_seg f" x z] y that fr unfolding m'_def by (metis fun_upd_other)
      ultimately have "stored env (f_pools f) m' x" by (rule stored_cong)
      then show ?thesis using p(3) by (rule stored_mono)
    qed
    moreover have "stored env k m' seg" using seg(5,6) p(1,2) b by (auto simp: stored_def m'_def)
    ultimately show ?thesis using so a hh seg(5) unfolding solid_def sl'_def by (auto simp: h_def)
  qed
  have cn: "seg_content h m' sl' = seg_content (f_seg f) m sl @ map (blk_byte b) [0..<blk_len b]"
  proof -
    have "seg_content h m' sl = seg_content (f_seg f) m' sl" by (rule content_cong) (rule hh)
    also have "\<dots> = seg_content (f_seg f) m sl" by (rule seg_content_cong) (use fr in \<open>auto simp: m'_def\<close>)
    moreover have "seg_bytes h m' (f_next f) = map (blk_byte b) [0..<blk_len b]"
      using seg(5,6) by (auto simp: seg_bytes_def h_def m'_def)
    ultimately show ?thesis unfolding sl'_def by (simp add: seg_content_def)
  qed
  have "layout env sl' (f\<lparr>f_segment_size := w, f_seg := h, f_next := Suc (f_next f), f_pools := k, f_segments := t, f_alloc_offset := f_alloc_offset f + n\<rparr>) m'"
    unfolding layout_def using tl t so' dt fr D(6,7,8,10,11,12) a w seg(3,4) by (auto simp: sl'_def h_def solid_def less_Suc_eq)
  then show ?thesis using so' cn dt by blast
qed

lemma extended_layout:
  assumes L: "layout env sl f m" and so: "solid env (f_pools f) m (f_seg f) sl" and g: "inj (ne_pool_addr env)"
    and seg: "s_offset seg = f_alloc_offset f" "s_size seg = to_size n" "0 < n" "f_alloc_offset f + n < 2 ^ 62" "\<not> s_is_gap seg" "seg_data seg = Some (ne_pool_addr env (f_pools f))"
    and t: "tree_ok 0 off_max t" "m_valid_tree t" "m_leaves t = leaves_of ((f_seg f)(f_next f \<mapsto> seg)) (sl @ [f_next f]) (f_alloc_offset f + n)"
    and w: "pow2 w"
  defines "h \<equiv> (f_seg f)(f_next f \<mapsto> seg)" and "m' \<equiv> m(ne_pool_addr env (f_pools f) \<mapsto> zero_block (s_size seg))" and "sl' \<equiv> sl @ [f_next f]"
  shows "layout env sl' (f\<lparr>f_segment_size := w, f_seg := h, f_next := Suc (f_next f), f_pools := Suc (f_pools f), f_segments := t, f_alloc_offset := f_alloc_offset f + n\<rparr>) m' \<and>
    solid env (Suc (f_pools f)) m' h sl' \<and> seg_content h m' sl' = seg_content (f_seg f) m sl @ replicate (nat n) 0"
proof -
  let ?p = "ne_pool_addr env (f_pools f)"
  have "seg_data x \<noteq> Some ?p" if y: "y \<in> set sl" "f_seg f y = Some x" for x y
  proof -
    obtain i where "i < f_pools f" "seg_data x = Some (ne_pool_addr env i)" using so y by (fastforce simp: solid_def stored_def)
    then show ?thesis using injD[OF g, of i "f_pools f"] by auto
  qed
  then have fr: "?p \<notin> set (datas (f_seg f) sl)" by (auto simp: datas_def split: option.splits) metis
  have n: "unat (s_size seg) = nat n" using to_size_nat[of n] seg(2-4) layoutD(6,7)[OF L] by simp
  have z: "blk_len (zero_block (s_size seg)) = unat (s_size seg)" by (simp add: zero_block_def)
  have "map (blk_byte (zero_block (s_size seg))) [0..<blk_len (zero_block (s_size seg))] = replicate (nat n) 0" using n by (simp add: zero_block_def map_replicate_const)
  then show ?thesis using appended_layout[OF L so fr refl lessI le_SucI[OF order_refl] seg z t w] unfolding h_def m'_def sl'_def by simp
qed


section \<open>Storage for a range\<close>

lemma pow2_double: "pow2 w \<Longrightarrow> pow2 v \<Longrightarrow> pow2 (min (w * 2) v)"
proof -
  assume "pow2 w" "pow2 v"
  then obtain k j where k: "12 \<le> k" "k < 60" "w = 2 ^ k" and j: "12 \<le> j" "j < 60" "v = 2 ^ j" by (auto simp: pow2_def)
  show ?thesis
  proof (cases "Suc k < 60")
    case True
    have "w * 2 = 2 ^ Suc k" using k by simp
    then have "pow2 (w * 2)" using True k(1) unfolding pow2_def by (metis Suc_leD Suc_le_mono le_SucI)
    then show ?thesis using \<open>pow2 v\<close> by (simp add: min_def)
  next
    case False
    then have "k = 59" using k by simp
    then have "unat (w * 2) = 2 ^ 60" using k(3) by simp
    moreover have "unat v \<le> 2 ^ 60"
    proof -
      have "v = of_nat (2 ^ j)" using j(3) by simp
      then have "unat v \<le> 2 ^ j" by (simp only: unsigned_of_nat of_nat_id take_bit_nat_less_eq_self)
      also have "(2 :: nat) ^ j \<le> 2 ^ 60" using j(2) by (intro power_increasing) auto
      finally show ?thesis .
    qed
    ultimately have "v \<le> w * 2" by (simp add: word_le_nat_alt)
    then have "min (w * 2) v = v" by (simp add: min_absorb2)
    then show ?thesis using j by (auto simp: pow2_def)
  qed
qed

lemma xalign_bounds:
  assumes "pow2 w" "0 \<le> x" "x < 2 ^ 61"
  shows "x < xalign x w \<and> xalign x w < 2 ^ 62"
proof -
  obtain k where k: "k < 60" "w = 2 ^ k" using assms(1) by (auto simp: pow2_def)
  have "(2 :: int) ^ k < 2 ^ 60" using k(1) by (intro power_strict_increasing) auto
  moreover have "0 \<le> x mod 2 ^ k" "x mod 2 ^ k < 2 ^ k" by simp_all
  moreover have "xalign x w = x - x mod 2 ^ k + 2 ^ k" unfolding k(2) by (rule xalign_pow2) (use k(1) assms(2,3) calculation(1) in auto)
  moreover have "(2 :: int) ^ 62 = 2 ^ 61 + 2 ^ 60 + 2 ^ 60" by simp
  ultimately show ?thesis using assms(3) by linarith
qed

definition fetched :: "'w nvml_env \<Rightarrow> addr list \<Rightarrow> nvml_file \<Rightarrow> 'w machine \<Rightarrow> off_t \<Rightarrow> addr list \<Rightarrow> nvml_file \<Rightarrow> 'w machine \<Rightarrow> bool" where
  "fetched env sl f s hi sl' f' s' \<longleftrightarrow> layout env sl' f' (mc_mem s') \<and> solid env (f_pools f') (mc_mem s') (f_seg f') sl' \<and> hi \<le> f_alloc_offset f' \<and>
     (\<exists>k. seg_content (f_seg f') (mc_mem s') sl' = seg_content (f_seg f) (mc_mem s) sl @ replicate k 0) \<and>
     f_used_offset f' = f_used_offset f \<and> f_attributes f' = f_attributes f \<and> f_range_mutex f' = f_range_mutex f \<and> f_initialized f' = f_initialized f \<and>
     f_type f' = f_type f \<and> mc_world s' = mc_world s \<and> (\<forall>x. x \<notin> range (ne_pool_addr env) \<longrightarrow> mc_mem s' x = mc_mem s x)"

lemma solid_no_gap: "tiles h lo sl hi \<Longrightarrow> solid env k m h sl \<Longrightarrow> r \<in> set (seg_regions h sl lo start end) \<Longrightarrow> \<not> r_is_gap r"
proof (induction h sl lo start "end" rule: seg_regions.induct)
  case (2 h a sl lo start "end")
  from "2.prems"(1) obtain seg where seg: "h a = Some seg" "tiles h (lo + uint (s_size seg)) sl hi" by auto
  have "\<not> s_is_gap seg" "solid env k m h sl" using "2.prems"(2) seg(1) by (auto simp: solid_def)
  then show ?case using "2.prems"(3) "2.IH"(1)[OF seg(1) refl _ seg(2)] "2.IH"(2)[OF seg(1) refl _ _ seg(2)] seg(1)
    by (auto simp: Let_def region_of_def split: if_splits)
qed simp

lemma solid_addressed: "tiles h lo sl hi \<Longrightarrow> solid env k m h sl \<Longrightarrow> r \<in> set (seg_regions h sl lo start end) \<Longrightarrow> r_address r \<noteq> None"
proof (induction h sl lo start "end" rule: seg_regions.induct)
  case (2 h a sl lo start "end")
  from "2.prems"(1) obtain seg where seg: "h a = Some seg" "tiles h (lo + uint (s_size seg)) sl hi" by auto
  have "stored env k m seg" and g: "\<not> s_is_gap seg" "solid env k m h sl" using "2.prems"(2) seg(1) by (auto simp: solid_def)
  then have "seg_data seg \<noteq> None" by (auto simp: stored_def)
  then show ?case using "2.prems"(3) "2.IH"(1)[OF seg(1) refl _ seg(2)] "2.IH"(2)[OF seg(1) refl _ _ seg(2)] seg(1) g
    by (auto simp: Let_def region_of_def split: if_splits)
qed simp

lemma lookup_segments_run:
  assumes L: "layout env sl f m" and so: "solid env (f_pools f) m (f_seg f) sl" and r: "0 \<le> off" "off < end" "end \<le> f_alloc_offset f"
  shows "lookup_segments env f s off end rs = Some (Inr (rs @ seg_regions (f_seg f) sl 0 off end, f, s))"
proof -
  note D = layoutD[OF L]
  have "\<forall>r \<in> set (seg_regions (f_seg f) sl 0 off end). \<not> r_is_gap r" using solid_no_gap[OF D(1) so] by blast
  then show ?thesis using lookup_helper_run[OF L r, of True s rs] r D(4) by (simp add: lookup_segments_def)
qed

lemma extend_run:
  assumes L: "layout env sl f (mc_mem s)" and so: "solid env (f_pools f) (mc_mem s) (f_seg f) sl" and g: "good_env env"
    and r: "0 \<le> off" "off \<le> f_alloc_offset f" "f_alloc_offset f < off + uint sz" "off + uint sz < 2 ^ 61"
  shows "\<exists>f' s'. extend_storage env f s off sz rs = Some (Inr (rs @ seg_regions (f_seg f') [f_next f] (f_alloc_offset f) (f_alloc_offset f) (off + uint sz), f', s')) \<and>
    fetched env sl f s (off + uint sz) (sl @ [f_next f]) f' s' \<and> (\<forall>a \<in> set sl. f_seg f' a = f_seg f a)"
proof -
  note D = layoutD[OF L]
  let ?al = "f_alloc_offset f" let ?w = "min (f_segment_size f * 2) (ne_segment_size env)" let ?e = "off + uint sz" let ?p = "ne_pool_addr env (f_pools f)"
  have w: "pow2 ?w" using pow2_double[OF D(9)] g by (simp add: good_env_def)
  have e: "to_off (to_size off + sz) = ?e" by (rule end_of_range) (use r in auto)
  define n where "n = xalign ?e ?w - ?al"
  have n: "0 < n" "?e < ?al + n" "?al + n < 2 ^ 62" using xalign_bounds[OF w, of ?e] r by (auto simp: n_def)
  obtain pm where pm: "ne_map_file env (f_pools f) (to_size n) = Some (to_size n, pm)" using g unfolding good_env_def by metis
  let ?seg = "\<lparr>s_offset = ?al, s_size = to_size n, s_is_gap = False,
      s_pool = \<lparr>p_path = Some (f_pools f), p_data = Some ?p, p_length = to_size n, p_is_pmem = pm\<rparr>, s_bytes = 0\<rparr>"
  let ?s = "s\<lparr>mc_mem := (mc_mem s)(?p \<mapsto> zero_block (to_size n))\<rparr>"
  let ?f = "f\<lparr>f_segment_size := ?w, f_seg := (f_seg f)(f_next f \<mapsto> ?seg), f_next := Suc (f_next f), f_pools := Suc (f_pools f)\<rparr>"
  have cs: "create_segment env (f\<lparr>f_segment_size := ?w\<rparr>) s ?al (to_size n) False = Some (Inr (f_next f, ?f, ?s))"
    using pm g by (simp add: create_segment_def new_segment_def pool_allocate_def new_pool_def good_env_def zero_block_def)
  obtain t where t: "append_segments ?f [f_next f] = Some (?f\<lparr>f_segments := t\<rparr>)" "tree_ok 0 off_max t" "m_valid_tree t"
      "m_leaves t = leaves_of ((f_seg f)(f_next f \<mapsto> ?seg)) (sl @ [f_next f]) (?al + n)"
    using append_segment_run[OF L, where seg = ?seg and n = n and w = ?w and k = "Suc (f_pools f)"] n(1,3) by auto
  let ?f' = "?f\<lparr>f_segments := t, f_alloc_offset := ?al + n\<rparr>"
  have al: "0 \<le> ?al" using D(6,7) by simp
  have na: "to_off (to_size ?al + to_size n) = ?al + n" using end_of_range[of ?al "to_size n"] to_size_unat[of n] n al by simp
  have rg: "seg_regions (f_seg ?f') [f_next f] ?al ?al ?e = [\<lparr>r_address = Some (?p, 0), r_size = to_size off + sz - to_size ?al, r_is_gap = False, r_is_pmem = pm\<rparr>]"
    using n al to_size_unat[of n] by (simp add: Let_def region_of_def seg_data_def is_pmem_def to_size_def)
  have lv: "2 \<le> length (m_leaves (f_segments f))" "m_leaves (f_segments f) ! (length (m_leaves (f_segments f)) - 2) = (?al, None)"
    using D(3) by (simp_all add: leaves_of_def nth_append)
  have run: "extend_storage env f s off sz rs = Some (Inr (rs @ seg_regions (f_seg ?f') [f_next f] ?al ?al ?e, ?f', ?s))"
    unfolding extend_storage_def rg using lv r(2) e cs t(1) na by (simp add: Let_def n_def[symmetric] to_size_def[of 0] seg_data_def is_pmem_def)
  have fe: "fetched env sl f s ?e (sl @ [f_next f]) ?f' ?s"
    using extended_layout[OF L so _ _ _ n(1,3), where seg = ?seg and t = t and w = ?w] t(2-4) w g n(2) unfolding fetched_def good_env_def
    by (auto simp: seg_data_def)
  show ?thesis
    by (rule exI[of _ ?f'], rule exI[of _ ?s], intro conjI run fe) (use D(11) in auto)
qed


lemma fetch_run:
  assumes L: "layout env sl f (mc_mem s)" and so: "solid env (f_pools f) (mc_mem s) (f_seg f) sl" and g: "good_env env"
    and r: "0 \<le> off" "off \<le> f_alloc_offset f" "0 < uint sz" "off + uint sz < 2 ^ 61"
  shows "\<exists>sl' f' s'. fetch_storage env f s off sz = Some (Inr (seg_regions (f_seg f') sl' 0 off (off + uint sz), f', s')) \<and> fetched env sl f s (off + uint sz) sl' f' s'"
proof -
  note D = layoutD[OF L]
  let ?al = "f_alloc_offset f" let ?e = "off + uint sz"
  have e: "to_off (to_size off + sz) = ?e" by (rule end_of_range) (use r in auto)
  have sz: "to_off sz = uint sz" by (rule to_off_tile) (use r in auto)
  show ?thesis
  proof (cases "?e \<le> ?al")
    case True
    have "fetch_storage env f s off sz = Some (Inr (seg_regions (f_seg f) sl 0 off ?e, f, s))"
      using True lookup_segments_run[OF L so r(1) _ True, of s "[]"] r(3) by (simp add: fetch_storage_def e sz)
    moreover have "fetched env sl f s ?e sl f s" using L so True unfolding fetched_def by (auto intro: exI[of _ 0])
    ultimately show ?thesis by blast
  next
    case False
    let ?rs = "if off < ?al then seg_regions (f_seg f) sl 0 off ?al else []"
    from extend_run[OF L so g r(1,2) _ r(4), of ?rs] False obtain f' s' where
      x: "extend_storage env f s off sz ?rs = Some (Inr (?rs @ seg_regions (f_seg f') [f_next f] ?al ?al ?e, f', s'))"
        "fetched env sl f s ?e (sl @ [f_next f]) f' s'" "\<forall>a \<in> set sl. f_seg f' a = f_seg f a" by auto
    have t': "tiles (f_seg f') 0 sl ?al" using tiles_cong[of sl "f_seg f'" "f_seg f" 0 ?al] x(3) D(1) by simp
    have "?rs @ seg_regions (f_seg f') [f_next f] ?al ?al ?e = seg_regions (f_seg f') (sl @ [f_next f]) 0 off ?e"
    proof (cases "off < ?al")
      case True
      then show ?thesis using seg_regions_app[OF t' r(1) True] False seg_regions_cong[of sl "f_seg f'" "f_seg f" 0 off ?al] x(3) by simp
    next
      case F2: False
      then show ?thesis using seg_regions_skip[OF t', of off "[f_next f]" ?e] r(2) by simp
    qed
    moreover have "fetch_storage env f s off sz = extend_storage env f s off sz ?rs"
      using False D(4) r lookup_segments_run[OF L so r(1) _ order_refl, of s "[]"] unfolding fetch_storage_def e sz by simp
    ultimately show ?thesis using x(1,2) by metis
  qed
qed


section \<open>Writing a range\<close>

text \<open>A file as a sequence of bytes: writing beyond the end fills the hole with zeros.\<close>

definition pwrite :: "nat \<Rightarrow> byte list \<Rightarrow> byte list \<Rightarrow> byte list" where
  "pwrite off bs c = take off c @ replicate (off - length c) 0 @ bs @ drop (off + length bs) c"

definition file_ok :: "'w nvml_env \<Rightarrow> addr list \<Rightarrow> nvml_file \<Rightarrow> memory \<Rightarrow> bool" where
  "file_ok env sl f m \<longleftrightarrow> layout env sl f m \<and> solid env (f_pools f) m (f_seg f) sl \<and> idle (f_range_mutex f) \<and>
     st_size (f_attributes f) = f_used_offset f \<and> (\<exists>k. seg_content (f_seg f) m sl = file_content sl f m @ replicate k 0)"

lemma pwrite_tail:
  assumes "off + length bs \<le> length c + k"
  shows "overwrite off bs (c @ replicate k 0) = pwrite off bs c @ replicate (length c + k - max (length c) (off + length bs)) 0"
  using assms by (auto simp: overwrite_def pwrite_def max_def min_def)

lemma pwrite_length: "length (pwrite off bs c) = max (length c) (off + length bs)"
  by (simp add: pwrite_def max_def min_def)

lemma mem_vec_cong:
  assumes "mem_vec m A v" "\<And>x. x \<notin> A \<Longrightarrow> m' x = m x"
  shows "mem_vec m' A v" "src_bytes m' v = src_bytes m v"
proof -
  have *: "mem_buf m' A b \<and> buf_bytes m' b = buf_bytes m b" if "mem_buf m A b" for b
  proof -
    obtain p where p: "fb_mem b = Some p" "fst p \<notin> A" using \<open>mem_buf m A b\<close> by (auto simp: mem_buf_def)
    then have "mem_read m' p (fb_size b) = mem_read m p (fb_size b)" using assms(2) by (simp add: mem_read_def)
    then show ?thesis using that p by (auto simp: mem_buf_def buf_bytes_def)
  qed
  show "mem_vec m' A v" using assms(1) * by (simp add: mem_vec_def)
  have "map (buf_bytes m') (drop (bv_idx v) (bv_buf v)) = map (buf_bytes m) (drop (bv_idx v) (bv_buf v))" using assms(1) * by (simp add: mem_vec_def)
  then show "src_bytes m' v = src_bytes m v" unfolding src_bytes_def by (simp only:)
qed

lemma solid_datas: "solid env k m h sl \<Longrightarrow> set (datas h sl) \<subseteq> range (ne_pool_addr env)"
proof
  fix d
  assume s: "solid env k m h sl" and "d \<in> set (datas h sl)"
  then obtain a seg where a: "a \<in> set sl" "h a = Some seg" "seg_data seg = Some d" by (force simp: datas_def split: option.splits)
  then have "stored env k m seg" "\<not> s_is_gap seg" using s by (auto simp: solid_def)
  then show "d \<in> range (ne_pool_addr env)" using a(3) by (auto simp: stored_def)
qed

lemma file_content_length:
  assumes "layout env sl f m"
  shows "length (file_content sl f m) = nat (f_used_offset f)"
  using tiles_content[OF layoutD(1,2)[OF assms]] layoutD(6,7)[OF assms] by (simp add: file_content_def)


lemma init_subdir_run: "good_env env \<Longrightarrow> init_subdir env f = Some (Inr (f\<lparr>f_initialized := True\<rparr>))"
  by (auto simp: init_subdir_def good_env_def)

lemma initialized_ok [simp]:
  "layout env sl (f\<lparr>f_initialized := b\<rparr>) m = layout env sl f m" "file_content sl (f\<lparr>f_initialized := b\<rparr>) m = file_content sl f m"
  "file_ok env sl (f\<lparr>f_initialized := b\<rparr>) m = file_ok env sl f m"
  by (simp_all add: layout_def file_content_def file_ok_def)

lemma layout_write:
  assumes "layout env sl f m" "solid env (f_pools f) m' (f_seg f) sl" "f_used_offset f \<le> u" "u \<le> f_alloc_offset f"
  shows "layout env sl (f\<lparr>f_range_mutex := t, f_used_offset := u, f_attributes := st\<rparr>) m'"
  using assms by (auto simp: layout_def solid_def)

lemma update_size_run:
  assumes "st_size (f_attributes f) = f_used_offset f" "0 \<le> e" "e < 2 ^ 62"
  shows "\<exists>st. update_size f (to_size e) = f\<lparr>f_used_offset := max (f_used_offset f) e, f_attributes := st\<rparr> \<and> st_size st = max (f_used_offset f) e"
  using assms to_off_mid[of e] by (auto simp: update_size_def max_def intro: exI[of _ "f_attributes f"])

lemma put_data_run:
  assumes F: "file_ok env sl f (mc_mem s)" and g: "good_env env" and r: "0 \<le> off" "off \<le> f_alloc_offset f" "0 < sz" "off + uint sz < 2 ^ 61"
    and v: "mem_vec (mc_mem s) (range (ne_pool_addr env)) v" "length (src_bytes (mc_mem s) v) = unat sz"
  shows "\<exists>v' sl' f' s'. put_data env f s off sz v = Some (Inr (uint sz, v', f', s')) \<and> file_ok env sl' f' (mc_mem s') \<and>
    file_content sl' f' (mc_mem s') = pwrite (nat off) (src_bytes (mc_mem s) v) (file_content sl f (mc_mem s)) \<and>
    (\<forall>x. x \<notin> range (ne_pool_addr env) \<longrightarrow> mc_mem s' x = mc_mem s x) \<and> mc_world s' = mc_world s"
proof -
  let ?bs = "src_bytes (mc_mem s) v" let ?e = "off + uint sz" let ?A = "range (ne_pool_addr env)" let ?fi = "f\<lparr>f_initialized := True\<rparr>"
  have p: "0 < uint sz" using r(3) by (simp add: word_less_def)
  have e: "to_off (to_size off + sz) = ?e" by (rule end_of_range) (use r in auto)
  from F have L: "layout env sl ?fi (mc_mem s)" and so: "solid env (f_pools ?fi) (mc_mem s) (f_seg ?fi) sl" and i: "idle (f_range_mutex f)"
    and st: "st_size (f_attributes f) = f_used_offset f" by (auto simp: file_ok_def)
  from F obtain k0 where k0: "seg_content (f_seg f) (mc_mem s) sl = file_content sl f (mc_mem s) @ replicate k0 0" by (auto simp: file_ok_def)
  from fetch_run[OF L so g r(1) _ p r(4)] r(2) obtain sl' f1 s1 where
    x: "fetch_storage env ?fi s off sz = Some (Inr (seg_regions (f_seg f1) sl' 0 off ?e, f1, s1))" "fetched env sl ?fi s ?e sl' f1 s1" by auto
  then obtain k1 where f1: "layout env sl' f1 (mc_mem s1)" "solid env (f_pools f1) (mc_mem s1) (f_seg f1) sl'" "?e \<le> f_alloc_offset f1"
    "seg_content (f_seg f1) (mc_mem s1) sl' = (file_content sl f (mc_mem s) @ replicate k0 0) @ replicate k1 0"
    "f_used_offset f1 = f_used_offset f" "f_attributes f1 = f_attributes f" "f_range_mutex f1 = f_range_mutex f"
    "mc_world s1 = mc_world s" "\<And>x. x \<notin> ?A \<Longrightarrow> mc_mem s1 x = mc_mem s x" using k0 by (auto simp: fetched_def)
  note D = layoutD[OF f1(1)]
  let ?rs = "seg_regions (f_seg f1) sl' 0 off ?e"
  have "off < ?e" "off_ok off" "off_ok ?e" using p r by (auto simp: off_ok_def)
  from idle_lock[OF i this, of Writer] obtain t1 rl ns rl' t2 where
    lk: "lock_range (f_range_mutex f) off ?e Writer = Some (t1, Inr rl)" "unlock_range t1 rl = Some (ns, rl', t2)" "destroy_range_lock t2 rl' = Some t2" "idle t2" by blast
  have v1: "mem_vec (mc_mem s1) ?A v" "src_bytes (mc_mem s1) v = ?bs" using mem_vec_cong[OF v(1) f1(9)] by auto
  have "length ?bs = nat (?e - off)" using v(2) by simp
  then have sto: "stores env (f_pools f1) (mc_mem s1) (f_seg f1) sl' (nat (off - 0)) ?bs ?rs"
    using seg_regions_stores[OF D(1) f1(2) D(12) order_refl r(1) _ f1(3)] p by simp
  let ?m = "store_regions (mc_mem s1) ?rs ?bs"
  have S: "seg_content (f_seg f1) ?m sl' = overwrite (nat off) ?bs (seg_content (f_seg f1) (mc_mem s1) sl')" "solid env (f_pools f1) ?m (f_seg f1) sl'"
    "\<forall>r \<in> set ?rs. writable (mc_mem s1) (set (datas (f_seg f1) sl')) r" "\<forall>x. x \<notin> set (datas (f_seg f1) sl') \<longrightarrow> ?m x = mc_mem s1 x"
    using sto by (simp_all add: stores_def Let_def)
  have wr: "\<forall>r \<in> set ?rs. writable (mc_mem s1) ?A r" using S(3) writable_mono[OF _ solid_datas[OF f1(2)]] by blast
  have sum: "(\<Sum>r\<leftarrow>?rs. unat (r_size r)) = unat sz"
    using seg_regions_bytes[OF D(1,2) r(1) _ f1(3)] p by simp
  have cp: "memory_copy (ne_copy env)" using g by (simp add: good_env_def)
  from write_regions_run[OF cp wr v1(1), of 0] obtain v' where
    w: "write_regions env s1 0 v ?rs = Some (uint sz, v', s1\<lparr>mc_mem := ?m\<rparr>)" using v1(2) v(2) sum by auto
  have st1: "st_size (f_attributes (f1\<lparr>f_range_mutex := t1\<rparr>)) = f_used_offset (f1\<lparr>f_range_mutex := t1\<rparr>)" using st f1(5,6) by simp
  from update_size_run[OF st1, of ?e] obtain a where
    u: "update_size (f1\<lparr>f_range_mutex := t1\<rparr>) (to_size ?e) = f1\<lparr>f_range_mutex := t1, f_used_offset := max (f_used_offset f1) ?e, f_attributes := a\<rparr>"
      "st_size a = max (f_used_offset f1) ?e" using r by auto
  let ?f' = "f1\<lparr>f_range_mutex := t2, f_used_offset := max (f_used_offset f1) ?e, f_attributes := a\<rparr>"
  have run: "put_data env f s off sz v = Some (Inr (uint sz, v', ?f', s1\<lparr>mc_mem := ?m\<rparr>))"
    using x(1) lk(1-3) w u(1) f1(7) e unfolding put_data_def init_subdir_run[OF g] file_lock_range_def file_unlock_range_def by (simp add: Let_def)
  have lay: "layout env sl' ?f' ?m"
    using layout_write[OF f1(1) S(2), where u = "max (f_used_offset f1) ?e" and st = a and t = t2] f1(3) D(7) by simp
  let ?c = "file_content sl f (mc_mem s)"
  have lc: "length ?c = nat (f_used_offset f)" using file_content_length[of env sl f "mc_mem s"] F by (simp add: file_ok_def)
  have u0: "0 \<le> f_used_offset f" using D(6) f1(5) by simp
  have lt: "int (length (seg_content (f_seg f1) (mc_mem s1) sl')) = f_alloc_offset f1" using tiles_content[OF D(1,2)] by simp
  have ub: "int (unat sz) = uint sz" by simp
  have "length (seg_content (f_seg f1) (mc_mem s1) sl') = length ?c + (k0 + k1)" unfolding f1(4) by simp
  then have le: "nat off + length ?bs \<le> length ?c + (k0 + k1)" using lt f1(3) v(2) r(1) ub by linarith
  have mx: "nat (max (f_used_offset f1) ?e) = max (length ?c) (nat off + length ?bs)"
    unfolding f1(5) using lc u0 r(1) v(2) ub by linarith
  let ?k = "length ?c + (k0 + k1) - max (length ?c) (nat off + length ?bs)"
  have all: "seg_content (f_seg f1) ?m sl' = pwrite (nat off) ?bs ?c @ replicate ?k 0"
    unfolding S(1) f1(4) append_assoc replicate_add[symmetric] by (rule pwrite_tail[OF le])
  have fc: "file_content sl' ?f' ?m = pwrite (nat off) ?bs ?c"
    unfolding file_content_def[of sl' ?f' ?m] using all mx pwrite_length[of "nat off" ?bs ?c] by simp
  have "seg_content (f_seg ?f') ?m sl' = file_content sl' ?f' ?m @ replicate ?k 0" using all fc by simp
  then have "file_ok env sl' ?f' ?m" unfolding file_ok_def using lay S(2) lk(4) u(2) by auto
  moreover have "?m x = mc_mem s x" if "x \<notin> ?A" for x using S(4) solid_datas[OF f1(2)] f1(9)[OF that] that by (metis subsetD)
  ultimately show ?thesis using run fc f1(8) by (intro exI[of _ v'] exI[of _ sl'] exI[of _ ?f'] exI[of _ "s1\<lparr>mc_mem := ?m\<rparr>"]) simp
qed

end
