(* ===== verification/Nvml_Props.thy ===== *)
theory Nvml_Props
  imports Nvml_Write
begin

text \<open>
  What a file of the NVML back end promises to the file system: it is a sequence of bytes that
  writes overwrite and extend and reads give back.
\<close>

section \<open>A new file\<close>

lemma file_ok_new: "file_ok env [] (new_file ty n) m" "file_content [] (new_file ty n) m = []"
proof -
  have "tree_ok 0 off_max (new_segment_tree 0 off_max None)" by (simp add: tree_ok_def leaves_ok_def new_segment_tree_def off_max_def)
  then have t: "tree_ok 0 off_max (build_tree (new_segment_tree 0 off_max None))" by (rule build_tree_ok)
  have "pow2 4096" unfolding pow2_def by (intro exI[of _ 12]) simp
  then show "file_ok env [] (new_file ty n) m" "file_content [] (new_file ty n) m = []"
    using t idle_init by (simp_all add: file_ok_def layout_def new_file_def file_content_def seg_content_def solid_def build_tree_def new_segment_tree_def leaves_of_def datas_def null_stat_def)
qed

section \<open>Sequences of writes\<close>

type_synonym write_request = "off_t \<times> fuse_bufvec"

text \<open>Writes one after the other, each of all bytes of its vector.\<close>

fun put_all :: "'w nvml_env \<Rightarrow> nvml_file \<Rightarrow> 'w machine \<Rightarrow> write_request list \<Rightarrow> (stop + (nvml_file \<times> 'w machine)) option" where
  "put_all env f s [] = Some (Inr (f, s))"
| "put_all env f s ((off, v) # ws) =
     ebind (put_data env f s off (of_nat (length (src_bytes (mc_mem s) v))) v) (\<lambda>(n, v, f, s). put_all env f s ws)"

text \<open>The same on a sequence of bytes.  A write starts at most at the end of the file.\<close>

fun writes_spec :: "memory \<Rightarrow> write_request list \<Rightarrow> byte list \<Rightarrow> byte list" where
  "writes_spec m [] c = c"
| "writes_spec m ((off, v) # ws) c = writes_spec m ws (pwrite (nat off) (src_bytes m v) c)"

fun writes_ok :: "memory \<Rightarrow> addr set \<Rightarrow> write_request list \<Rightarrow> byte list \<Rightarrow> bool" where
  "writes_ok m A [] c \<longleftrightarrow> True"
| "writes_ok m A ((off, v) # ws) c \<longleftrightarrow> 0 \<le> off \<and> off \<le> int (length c) \<and> src_bytes m v \<noteq> [] \<and> off + int (length (src_bytes m v)) < 2 ^ 61 \<and> mem_vec m A v \<and>
     writes_ok m A ws (pwrite (nat off) (src_bytes m v) c)"

lemma writes_cong:
  assumes "\<And>x. x \<notin> A \<Longrightarrow> m' x = m x"
  shows "writes_ok m A ws c \<Longrightarrow> writes_ok m' A ws c \<and> writes_spec m' ws c = writes_spec m ws c"
proof (induction ws arbitrary: c)
  case (Cons w ws)
  obtain off v where w: "w = (off, v)" by (cases w)
  then have v: "mem_vec m A v" using Cons.prems by simp
  show ?case using Cons mem_vec_cong[OF v assms] w by simp
qed simp

lemma put_all_run:
  "good_env env \<Longrightarrow> file_ok env sl f (mc_mem s) \<Longrightarrow> writes_ok (mc_mem s) (range (ne_pool_addr env)) ws (file_content sl f (mc_mem s)) \<Longrightarrow>
   \<exists>sl' f' s'. put_all env f s ws = Some (Inr (f', s')) \<and> file_ok env sl' f' (mc_mem s') \<and>
     file_content sl' f' (mc_mem s') = writes_spec (mc_mem s) ws (file_content sl f (mc_mem s))"
proof (induction ws arbitrary: sl f s)
  case (Cons w ws)
  obtain off v where w: "w = (off, v)" by (cases w)
  let ?bs = "src_bytes (mc_mem s) v" let ?A = "range (ne_pool_addr env)" let ?c = "file_content sl f (mc_mem s)"
  have W: "0 \<le> off" "off \<le> int (length ?c)" "?bs \<noteq> []" "off + int (length ?bs) < 2 ^ 61" "mem_vec (mc_mem s) ?A v"
    "writes_ok (mc_mem s) ?A ws (pwrite (nat off) ?bs ?c)" using Cons.prems(3) w by simp_all
  let ?sz = "of_nat (length ?bs) :: size_t"
  have u: "unat ?sz = length ?bs" using W(1,4) by (simp add: unsigned_of_nat take_bit_nat_eq_self_iff)
  have ui: "uint ?sz = int (length ?bs)" using u by (metis size_nat)
  have L: "layout env sl f (mc_mem s)" using Cons.prems(2) by (simp add: file_ok_def)
  have "off \<le> f_alloc_offset f" using W(2) file_content_length[OF L] layoutD(6,7)[OF L] by simp
  moreover have "0 < ?sz" using u W(3) by (simp add: word_gt_0 word_unat_eq_iff)
  ultimately obtain v' sl' f' s' where
    p: "put_data env f s off ?sz v = Some (Inr (uint ?sz, v', f', s'))" "file_ok env sl' f' (mc_mem s')"
      "file_content sl' f' (mc_mem s') = pwrite (nat off) ?bs ?c" "\<forall>x. x \<notin> ?A \<longrightarrow> mc_mem s' x = mc_mem s x"
    using put_data_run[OF Cons.prems(2,1) W(1) _ _ _ W(5), of ?sz] u ui W(4) by auto
  have "writes_ok (mc_mem s') ?A ws (pwrite (nat off) ?bs ?c)" "writes_spec (mc_mem s') ws (pwrite (nat off) ?bs ?c) = writes_spec (mc_mem s) ws (pwrite (nat off) ?bs ?c)"
    using writes_cong[of ?A "mc_mem s'" "mc_mem s" ws] p(4) W(6) by auto
  then show ?case using Cons.IH[OF Cons.prems(1) p(2)] p(1,3) w by auto
qed auto


section \<open>Reading\<close>

text \<open>A file depends only on the memory of its pools.\<close>

lemma file_ok_agree:
  assumes F: "file_ok env sl f m" and agree: "\<And>d. d \<in> set (datas (f_seg f) sl) \<Longrightarrow> m' d = m d"
  shows "file_ok env sl f m'" "file_content sl f m' = file_content sl f m"
proof -
  have so: "solid env (f_pools f) m (f_seg f) sl" using F by (simp add: file_ok_def)
  have cn: "seg_content (f_seg f) m' sl = seg_content (f_seg f) m sl" by (rule seg_content_cong) (rule agree)
  have so': "solid env (f_pools f) m' (f_seg f) sl" by (rule solid_cong[OF so]) (rule agree)
  have lay: "layout env sl f m'" using F so' by (auto simp: file_ok_def layout_def solid_def)
  show fc: "file_content sl f m' = file_content sl f m" using cn by (simp add: file_content_def)
  show "file_ok env sl f m'" using F lay so' cn fc by (auto simp: file_ok_def)
qed

lemma file_datas:
  assumes "file_ok env sl f m" "d \<in> set (datas (f_seg f) sl)"
  shows "d \<in> range (ne_pool_addr env)" "m d \<noteq> None"
proof -
  have so: "solid env (f_pools f) m (f_seg f) sl" using assms(1) by (simp add: file_ok_def)
  then show "d \<in> range (ne_pool_addr env)" using solid_datas assms(2) by blast
  obtain x seg where "x \<in> set sl" "f_seg f x = Some seg" "seg_data seg = Some d" using assms(2) by (force simp: datas_def split: option.splits)
  then have "stored env (f_pools f) m seg" "\<not> s_is_gap seg" "seg_data seg = Some d" using so by (auto simp: solid_def)
  then show "m d \<noteq> None" by (auto simp: stored_def)
qed

lemma get_data_frame:
  assumes F: "file_ok env sl f (mc_mem s)" and g: "good_env env" and r: "0 \<le> off" "off < f_used_offset f" "0 < sz" "off + uint sz < 2 ^ 62"
    and v: "bv_buf v \<noteq> []" and len: "len = min (f_used_offset f - off) (uint sz)" and al: "ne_memalign env s (to_size len) = Some a" "mc_mem s a = None"
  shows "\<exists>v' f' s'. get_data env f s off sz v = Some (Inr (0, v', f', s')) \<and> file_ok env sl f' (mc_mem s') \<and>
    file_content sl f' (mc_mem s') = file_content sl f (mc_mem s) \<and> fb_mem (hd (bv_buf v')) = Some (a, 0) \<and> fb_size (hd (bv_buf v')) = nat len \<and>
    mem_read (mc_mem s') (a, 0) (nat len) = Some (extent (nat off) (nat len) (file_content sl f (mc_mem s))) \<and> (\<forall>x. x \<noteq> a \<longrightarrow> mc_mem s' x = mc_mem s x)"
proof -
  let ?fi = "f\<lparr>f_initialized := True\<rparr>"
  obtain b0 bs where b: "bv_buf v = b0 # bs" using v by (cases "bv_buf v") auto
  have F': "layout env sl ?fi (mc_mem s)" "idle (f_range_mutex ?fi)" "f_initialized ?fi" using F by (simp_all add: file_ok_def)
  have init: "get_data env f s off sz v = get_data env ?fi s off sz v" 
  proof -
    have "init_subdir env ?fi = init_subdir env f" by (simp add: init_subdir_run[OF g])
    then show ?thesis unfolding get_data_def by (simp only:)
  qed
  have len': "len = min (f_used_offset ?fi - off) (uint sz)" "off < f_used_offset ?fi" using len r(2) by simp_all
  from get_data_run[OF F' r(1) len'(2) r(3,4) b len'(1) al] obtain f' s' t where
    G: "get_data env ?fi s off sz v = Some (Inr (0, v\<lparr>bv_buf := b0\<lparr>fb_is_fd := False, fb_fd_seek := True, fb_fd_retry := True, fb_mem := Some (a, 0), fb_size := nat len\<rparr> # bs\<rparr>, f', s'))"
      "f' = ?fi\<lparr>f_range_mutex := t\<rparr>" "idle t" "mem_read (mc_mem s') (a, 0) (nat len) = Some (extent (nat off) (nat len) (file_content sl f (mc_mem s)))"
      "\<forall>x. x \<noteq> a \<longrightarrow> mc_mem s' x = mc_mem s x" by auto
  have agree: "mc_mem s' d = mc_mem s d" if "d \<in> set (datas (f_seg f) sl)" for d using file_datas(2)[OF F that] G(5) al(2) by metis
  note A = file_ok_agree[OF F agree]
  have fc: "file_content sl f' (mc_mem s') = file_content sl f (mc_mem s)" using A(2) G(2) by (simp add: file_content_def)
  moreover have "file_ok env sl f' (mc_mem s')" using A(1) G(2,3) by (simp add: file_ok_def file_content_def)
  ultimately show ?thesis using init G(1,4,5) by auto
qed

lemma get_data_ok:
  assumes "file_ok env sl f (mc_mem s)" "good_env env" "0 \<le> off" "off < f_used_offset f" "0 < sz" "off + uint sz < 2 ^ 62"
    "bv_buf v \<noteq> []" "len = min (f_used_offset f - off) (uint sz)" "ne_memalign env s (to_size len) = Some a" "mc_mem s a = None"
  shows "\<exists>v' f' s'. get_data env f s off sz v = Some (Inr (0, v', f', s')) \<and> file_ok env sl f' (mc_mem s') \<and>
    file_content sl f' (mc_mem s') = file_content sl f (mc_mem s) \<and> fb_mem (hd (bv_buf v')) = Some (a, 0) \<and> fb_size (hd (bv_buf v')) = nat len \<and>
    mem_read (mc_mem s') (a, 0) (nat len) = Some (extent (nat off) (nat len) (file_content sl f (mc_mem s)))"
  using get_data_frame[OF assms] by blast

lemma pwrite_extent: "extent off (length bs) (pwrite off bs c) = bs"
  by (simp add: extent_def pwrite_def)

section \<open>Properties\<close>

text \<open>
  C20: Writing a file is writing a sequence of bytes.  Any sequence of writes that start at or
  before the end of the file, from memory buffers outside the pools, succeeds, and leaves the
  contents that the same writes leave on a plain sequence of bytes; the layout
  invariant of the file holds again afterwards.
\<close>

theorem file_writes:
  assumes "good_env env" "file_ok env sl f (mc_mem s)" "writes_ok (mc_mem s) (range (ne_pool_addr env)) ws (file_content sl f (mc_mem s))"
  shows "\<exists>sl' f' s'. put_all env f s ws = Some (Inr (f', s')) \<and> file_ok env sl' f' (mc_mem s') \<and>
    file_content sl' f' (mc_mem s') = writes_spec (mc_mem s) ws (file_content sl f (mc_mem s))"
  by (rule put_all_run[OF assms])

definition sample_calls :: "unit syscalls" where
  "sample_calls = \<lparr>sc_read = (\<lambda>w _ _ _. (Inl 5, w)), sc_write = (\<lambda>w _ _ _. (Inl 5, w)), sc_splice = (\<lambda>w _ _ _ _ _. (Inl 5, w))\<rparr>"

definition sample_env :: "unit nvml_env" where
  "sample_env = \<lparr>ne_calls = sample_calls, ne_have_splice = True, ne_tmp = 0, ne_copy = fuse_buf_copy_pmem False True sample_calls 0,
     ne_pool_addr = (\<lambda>i. 2 * i + 1), ne_exists = (\<lambda>_. False), ne_unlink = (\<lambda>_. True), ne_map_file = (\<lambda>_ sz. Some (sz, True)),
     ne_subdir_exists = False, ne_remove_all = True, ne_mkdir = True, ne_memalign = (\<lambda>_ n. if n < 2 ^ 62 then Some 1000 else None), ne_time = 0,
     ne_segment_size = 2 ^ 29\<rparr>"

definition sample_machine :: "unit machine" where
  "sample_machine = \<lparr>mc_world = (), mc_mem = [0 \<mapsto> \<lparr>blk_len = 4, blk_byte = (\<lambda>i. of_nat (i + 1))\<rparr>]\<rparr>"

definition sample_vec :: fuse_bufvec where
  "sample_vec = \<lparr>bv_idx = 0, bv_off = 0, bv_buf = [\<lparr>fb_size = 4, fb_is_fd = False, fb_fd_seek = False, fb_fd_retry = False, fb_mem = Some (0, 0), fb_fd = 0, fb_pos = 0\<rparr>]\<rparr>"

lemma sample_good: "good_env sample_env"
proof -
  have "inj (\<lambda>i :: nat. 2 * i + 1)" by (simp add: inj_def)
  moreover have "pow2 (2 ^ 29)" unfolding pow2_def by (intro exI[of _ 29]) simp
  ultimately show ?thesis using pmem.memory_copy_axioms[of True sample_calls 0] by (auto simp: good_env_def sample_env_def)
qed

lemma sample_src: "src_bytes (mc_mem sample_machine) sample_vec = [1, 2, 3, 4]" "mem_vec (mc_mem sample_machine) (range (ne_pool_addr sample_env)) sample_vec"
proof -
  show "src_bytes (mc_mem sample_machine) sample_vec = [1, 2, 3, 4]"
    by (simp add: src_bytes_def sample_vec_def sample_machine_def buf_bytes_def mem_read_def upt_rec[of _ 4])
  have "(0 :: nat) \<notin> range (\<lambda>i. 2 * i + 1)" by auto
  then show "mem_vec (mc_mem sample_machine) (range (ne_pool_addr sample_env)) sample_vec"
    by (simp add: mem_vec_def mem_buf_def sample_vec_def sample_machine_def sample_env_def mem_read_def)
qed

theorem file_writes_witness:
  "\<exists>sl' f' s'. put_all sample_env (new_file persistent 0) sample_machine [(0, sample_vec), (2, sample_vec)] = Some (Inr (f', s')) \<and>
    file_ok sample_env sl' f' (mc_mem s') \<and> file_content sl' f' (mc_mem s') = [1, 2, 1, 2, 3, 4]"
proof -
  have "writes_ok (mc_mem sample_machine) (range (ne_pool_addr sample_env)) [(0, sample_vec), (2, sample_vec)] []"
    using sample_src by (simp add: pwrite_def)
  moreover have "writes_spec (mc_mem sample_machine) [(0, sample_vec), (2, sample_vec)] [] = [1, 2, 1, 2, 3, 4]"
    using sample_src by (simp add: pwrite_def)
  ultimately show ?thesis using file_writes[OF sample_good file_ok_new(1), of sample_machine "[(0, sample_vec), (2, sample_vec)]" persistent 0]
    by (simp add: file_ok_new(2))
qed


text \<open>
  C21: A read inside a file returns the bytes of the file from its offset, at most up to the end
  of the file, in a newly allocated buffer, and leaves the contents of the file as they are.
\<close>

theorem file_read:
  assumes "file_ok env sl f (mc_mem s)" "good_env env" "0 \<le> off" "off < f_used_offset f" "0 < sz" "off + uint sz < 2 ^ 62"
    "bv_buf v \<noteq> []" "len = min (f_used_offset f - off) (uint sz)" "ne_memalign env s (to_size len) = Some a" "mc_mem s a = None"
  shows "\<exists>v' f' s'. get_data env f s off sz v = Some (Inr (0, v', f', s')) \<and> file_ok env sl f' (mc_mem s') \<and>
    file_content sl f' (mc_mem s') = file_content sl f (mc_mem s) \<and> fb_mem (hd (bv_buf v')) = Some (a, 0) \<and> fb_size (hd (bv_buf v')) = nat len \<and>
    mem_read (mc_mem s') (a, 0) (nat len) = Some (extent (nat off) (nat len) (file_content sl f (mc_mem s)))"
  by (rule get_data_ok[OF assms])

definition sample_written :: "(stop + (nvml_file \<times> unit machine)) option" where
  "sample_written = put_all sample_env (new_file persistent 0) sample_machine [(0, sample_vec)]"

lemma sample_written_ok:
  "\<exists>sl f s. sample_written = Some (Inr (f, s)) \<and> file_ok sample_env sl f (mc_mem s) \<and> file_content sl f (mc_mem s) = [1, 2, 3, 4] \<and> f_used_offset f = 4 \<and> mc_mem s 1000 = None"
proof -
  have e: "(1000 :: nat) \<notin> range (ne_pool_addr sample_env)" by (auto simp: sample_env_def) presburger
  have a0: "f_alloc_offset (new_file persistent 0) = 0" by (simp add: new_file_def)
  from put_data_run[OF file_ok_new(1)[of sample_env persistent 0 "mc_mem sample_machine"] sample_good, where off = 0 and sz = 4 and v = sample_vec] sample_src obtain v' sl f s where
    p: "put_data sample_env (new_file persistent 0) sample_machine 0 4 sample_vec = Some (Inr (4, v', f, s))" "file_ok sample_env sl f (mc_mem s)"
      "file_content sl f (mc_mem s) = [1, 2, 3, 4]" "mc_mem s 1000 = mc_mem sample_machine 1000"
    using e a0 by (auto simp: file_ok_new(2) pwrite_def)
  have "length (file_content sl f (mc_mem s)) = nat (f_used_offset f)" "0 \<le> f_used_offset f"
    using file_content_length layoutD(6) p(2) unfolding file_ok_def by blast+
  then have "f_used_offset f = 4" using p(3) by simp
  then show ?thesis using p sample_src(1) by (auto simp: sample_written_def sample_machine_def)
qed

theorem file_read_witness:
  "\<exists>f s v' f' s'. sample_written = Some (Inr (f, s)) \<and> get_data sample_env f s 1 10 sample_vec = Some (Inr (0, v', f', s')) \<and>
    mem_read (mc_mem s') (1000, 0) 3 = Some [2, 3, 4]"
proof -
  obtain sl f s where w: "sample_written = Some (Inr (f, s))" "file_ok sample_env sl f (mc_mem s)" "file_content sl f (mc_mem s) = [1, 2, 3, 4]" "f_used_offset f = 4" "mc_mem s 1000 = None"
    using sample_written_ok by blast
  have "ne_memalign sample_env s (to_size 3) = Some 1000" by (simp add: sample_env_def to_size_def)
  moreover have "bv_buf sample_vec \<noteq> []" by (simp add: sample_vec_def)
  ultimately have "\<exists>v' f' s'. get_data sample_env f s 1 10 sample_vec = Some (Inr (0, v', f', s')) \<and> mem_read (mc_mem s') (1000, 0) 3 = Some [2, 3, 4]"
    using file_read[OF w(2) sample_good, of 1 10 sample_vec 3 1000] w(3-5) by (auto simp: extent_def)
  then show ?thesis using w(1) by blast
qed

text \<open>
  What was written is read back: a write inside or at the end of the allocated part of a
  file followed by a read of the same range gives exactly the bytes that were written.
\<close>

theorem write_read_roundtrip:
  assumes "file_ok env sl f (mc_mem s)" "good_env env" "0 \<le> off" "off \<le> f_alloc_offset f" "0 < sz" "off + uint sz < 2 ^ 61"
    "mem_vec (mc_mem s) (range (ne_pool_addr env)) v" "length (src_bytes (mc_mem s) v) = unat sz"
    "bv_buf rv \<noteq> []" "\<And>s. ne_memalign env s sz = Some a" "mc_mem s a = None" "a \<notin> range (ne_pool_addr env)"
  shows "\<exists>v1 f1 s1 v2 f2 s2. put_data env f s off sz v = Some (Inr (uint sz, v1, f1, s1)) \<and>
    get_data env f1 s1 off sz rv = Some (Inr (0, v2, f2, s2)) \<and> fb_mem (hd (bv_buf v2)) = Some (a, 0) \<and> fb_size (hd (bv_buf v2)) = unat sz \<and>
    mem_read (mc_mem s2) (a, 0) (unat sz) = Some (src_bytes (mc_mem s) v)"
proof -
  from put_data_run[OF assms(1-8)] obtain v1 sl1 f1 s1 where
    p: "put_data env f s off sz v = Some (Inr (uint sz, v1, f1, s1))" "file_ok env sl1 f1 (mc_mem s1)"
      "file_content sl1 f1 (mc_mem s1) = pwrite (nat off) (src_bytes (mc_mem s) v) (file_content sl f (mc_mem s))"
      "\<forall>x. x \<notin> range (ne_pool_addr env) \<longrightarrow> mc_mem s1 x = mc_mem s x" by blast
  have L: "layout env sl1 f1 (mc_mem s1)" using p(2) by (simp add: file_ok_def)
  have "nat (f_used_offset f1) = max (length (file_content sl f (mc_mem s))) (nat off + unat sz)"
    using file_content_length[OF L] p(3) assms(8) by (simp add: pwrite_length)
  moreover have u: "int (unat sz) = uint sz" "nat (uint sz) = unat sz" by simp_all
  ultimately have used: "off + uint sz \<le> f_used_offset f1" using layoutD(6)[OF L] assms(3) by linarith
  then have len: "uint sz = min (f_used_offset f1 - off) (uint sz)" "off < f_used_offset f1" using assms(5) by (simp_all add: word_less_def)
  have "to_size (uint sz) = sz" by (simp add: to_size_def)
  then have al: "ne_memalign env s1 (to_size (uint sz)) = Some a" "mc_mem s1 a = None" using assms(10-12) p(4) by auto
  have "off + uint sz < 2 ^ 62" using assms(6) by simp
  from get_data_ok[OF p(2) assms(2,3) len(2) assms(5) this assms(9) len(1) al] obtain v2 f2 s2 where
    "get_data env f1 s1 off sz rv = Some (Inr (0, v2, f2, s2))" "fb_mem (hd (bv_buf v2)) = Some (a, 0)" "fb_size (hd (bv_buf v2)) = unat sz"
      "mem_read (mc_mem s2) (a, 0) (unat sz) = Some (extent (nat off) (unat sz) (file_content sl1 f1 (mc_mem s1)))" unfolding u(2) by blast
  then show ?thesis using p(1,3) pwrite_extent[of "nat off" "src_bytes (mc_mem s) v"] assms(8) by auto
qed

theorem write_read_roundtrip_witness:
  "\<exists>v1 f1 s1 v2 f2 s2. put_data sample_env (new_file persistent 0) sample_machine 0 4 sample_vec = Some (Inr (4, v1, f1, s1)) \<and>
    get_data sample_env f1 s1 0 4 sample_vec = Some (Inr (0, v2, f2, s2)) \<and> mem_read (mc_mem s2) (1000, 0) 4 = Some [1, 2, 3, 4]"
proof -
  have "(1000 :: nat) \<notin> range (ne_pool_addr sample_env)" by (auto simp: sample_env_def) presburger
  moreover have "ne_memalign sample_env s 4 = Some 1000" for s by (simp add: sample_env_def)
  moreover have "mc_mem sample_machine 1000 = None" "bv_buf sample_vec \<noteq> []" "f_alloc_offset (new_file persistent 0) = 0"
    by (simp_all add: sample_machine_def sample_vec_def new_file_def)
  ultimately show ?thesis
    using write_read_roundtrip[OF file_ok_new(1)[of sample_env persistent 0 "mc_mem sample_machine"] sample_good, where off = 0 and sz = 4 and v = sample_vec and rv = sample_vec and a = 1000] sample_src by auto
qed

end
