(* ===== verification/Nvml_Errors.thy ===== *)
theory Nvml_Errors
  imports Nvml_Props
begin

text \<open>
  Where a file of the NVML back end does not behave as a sequence of bytes: reads behind the
  end of the file and writes behind the end of the allocated part.
\<close>

section \<open>Reading behind the end\<close>

lemma lookup_behind_end:
  assumes L: "layout env sl f m" and r: "0 \<le> e" "e < off" "off < f_alloc_offset f"
  shows "\<exists>r. lookup_helper env f s off e False [] = Some (Inr ([r], f, s)) \<and> r_size r = to_size (e - off)"
proof -
  note D = layoutD[OF L]
  have r1: "0 \<le> off" using r by simp
  from tiles_find[OF D(1) r1 r(3)] obtain ps a ss seg mid where
    d: "sl = ps @ a # ss" "tiles (f_seg f) 0 ps mid" "tiles (f_seg f) mid (a # ss) (f_alloc_offset f)" "f_seg f a = Some seg" "mid \<le> off" "off < mid + uint (s_size seg)"
    by blast
  have seg: "s_offset seg = mid" "mid + uint (s_size seg) < 2 ^ 62" using d(3,4) by auto
  have m0: "0 \<le> mid" by (rule tiles_le[OF d(2)])
  have sz: "to_off (s_size seg) = uint (s_size seg)" using seg(2) m0 by (intro to_off_tile) linarith
  have se: "segment_end seg = mid + uint (s_size seg)" using segment_end_tile[of seg] seg m0 by simp
  have rq: "to_off (to_size (e - off)) = e - off" by (rule to_off_to_size) (use r D(8) in auto)
  have "to_size (e - off) \<noteq> 0"
  proof
    assume "to_size (e - off) = 0"
    then have "to_off (to_size (e - off)) = to_off 0" by simp
    then show False using rq r(2) by (simp add: to_off_def)
  qed
  moreover have "lookup_loop env f s (length ps) off (to_size (e - off)) e False [] =
      Some (Inr ([\<lparr>r_address = r_address (region_of seg (off - mid) 0), r_size = to_size (e - off), r_is_gap = s_is_gap seg, r_is_pmem = is_pmem seg\<rparr>], f, s))"
  proof -
    have "region_address seg (off - mid) = Some (r_address (region_of seg (off - mid) 0))"
      by (rule region_address_of[of env "f_pools f" m]) (use D(2) d in auto)
    moreover have "min (e - off) (uint (s_size seg) - (off - mid)) = e - off" "off - mid \<noteq> uint (s_size seg)" "e \<le> mid + uint (s_size seg)" using r d(5,6) by auto
    moreover have "m_leaves (f_segments f) ! length ps = (seg_off (f_seg f) a, Some a)" using leaf_at[of f "f_seg f" ps a ss "f_alloc_offset f"] D(3) d(1) by simp
    ultimately show ?thesis using d(4) seg sz se rq by (subst lookup_loop.simps) (simp add: Let_def)
  qed
  ultimately show ?thesis using layout_search[OF L d] unfolding lookup_helper_def by (simp add: Let_def)
qed

lemma to_size_neg:
  assumes "- (2 ^ 62) < x" "x < 0"
  shows "uint (to_size x) = x + 2 ^ 64"
proof -
  have "uint (to_size x) = x mod 2 ^ 64" by (simp add: to_size_def uint_word_of_int)
  also have "\<dots> = (x + 2 ^ 64) mod 2 ^ 64" by simp
  also have "\<dots> = x + 2 ^ 64" using assms by (intro mod_pos_pos_trivial) auto
  finally show ?thesis .
qed

lemma get_data_behind_end:
  assumes F: "file_ok env sl f (mc_mem s)" and g: "good_env env" and r: "f_used_offset f < off" "off < f_alloc_offset f" "0 < sz" "off + uint sz < 2 ^ 62"
    and al: "\<And>n. 2 ^ 63 \<le> n \<Longrightarrow> ne_memalign env s n = None"
  shows "\<exists>f'. get_data env f s off sz v = Some (Inr (- ENOMEM, v, f', s))"
proof -
  let ?e = "off + uint sz" let ?fi = "f\<lparr>f_initialized := True\<rparr>"
  have L: "layout env sl f (mc_mem s)" and i: "idle (f_range_mutex f)" using F by (auto simp: file_ok_def)
  note D = layoutD[OF L]
  have p: "0 < uint sz" using r(3) by (simp add: word_less_def)
  have e: "to_off (to_size off + sz) = ?e" by (rule end_of_range) (use r D(6) in auto)
  have "off < ?e" "off_ok off" "off_ok ?e" using p r D(6,8) by (auto simp: off_ok_def)
  from idle_lock[OF i this, of Reader] obtain t1 rl ns rl' t2 where
    lk: "lock_range (f_range_mutex f) off ?e Reader = Some (t1, Inr rl)" "unlock_range t1 rl = Some (ns, rl', t2)" "destroy_range_lock t2 rl' = Some t2" by blast
  let ?ft = "f\<lparr>f_initialized := True, f_range_mutex := t1\<rparr>"
  obtain rg where rg: "lookup_helper env ?ft s off (f_used_offset f) False [] = Some (Inr ([rg], ?ft, s))" "r_size rg = to_size (f_used_offset f - off)"
    using lookup_behind_end[of env sl ?ft "mc_mem s" "f_used_offset f" off s] L D(6) r(1,2) by auto
  have ld: "lookup_data env ?ft s off ?e [] = Some (Inr ([rg], ?ft, s))"
    using rg(1) D(4,6) r p by (simp add: lookup_data_def Let_def)
  have "- (2 ^ 62) < f_used_offset f - off" "f_used_offset f - off < 0" using D(6,8) r by auto
  then have "2 ^ 63 \<le> uint (to_size (f_used_offset f - off))" using to_size_neg[of "f_used_offset f - off"] by simp
  then have "ne_memalign env s (total_size [rg]) = None" using rg(2) by (intro al) (simp add: total_size_def word_le_def)
  then have "get_data env f s off sz v = Some (Inr (- ENOMEM, v, f\<lparr>f_initialized := True, f_range_mutex := t2\<rparr>, s))"
    using e p lk ld unfolding get_data_def init_subdir_run[OF g] file_lock_range_def file_unlock_range_def by simp
  then show ?thesis by blast
qed


section \<open>Writing behind the allocated part\<close>

lemma sparse_append:
  assumes L: "layout env sl f m" and al: "0 < f_alloc_offset f" and n: "f_alloc_offset f < n" "n < 2 ^ 62"
    and h: "h g = Some gseg" "s_offset gseg = f_alloc_offset f" "s_size gseg = to_size (- f_alloc_offset f)"
      "h a = Some seg" "s_offset seg = 0" "s_size seg = to_size n"
  shows "\<exists>t. append_segments (f\<lparr>f_segment_size := w, f_seg := h, f_next := k, f_pools := j\<rparr>) [g, a] =
      Some (f\<lparr>f_segment_size := w, f_seg := h, f_next := k, f_pools := j, f_segments := t\<rparr>) \<and>
    tree_ok 0 off_max t \<and> m_valid_tree t \<and> m_leaves t = leaves_of h [a] n"
proof -
  note D = layoutD[OF L]
  let ?al = "f_alloc_offset f" let ?ms = "map (\<lambda>a. (seg_off (f_seg f) a, Some a)) sl @ [(?al, None)]"
  have e1: "segment_end gseg = 0" unfolding segment_end_def h(2,3) by (simp add: to_size_def to_off_def)
  have i1: "insert_back (f_segments f) ?al 0 (Some g) = Some (f_segments f)"
    using al by (simp add: insert_back_def insert_segment_impl_def adjust_segment_range_def)
  have u: "uint (to_size n) = n" using to_size_unat[of n] n al by simp
  have e2: "segment_end seg = n" using segment_end_tile[of seg] h(5,6) u n by simp
  obtain b sl2 where sl: "sl = b # sl2" using D(1) al by (cases sl) auto
  then have "seg_off (f_seg f) b = 0" using D(1) by (auto simp: seg_off_def)
  then have p: "parted 0 n [] ?ms [(off_max, None)]"
    using tiles_keys[OF D(1)] n al sl by (fastforce simp: parted_def off_max_def)
  have "m_leaves (f_segments f) = [] @ ?ms @ [(off_max, None)]" using D(3) by (simp add: leaves_of_def)
  from insert_segment_run[OF D(5) _ _ p this, of "Some a" False] obtain t where
    t: "insert_back (f_segments f) 0 n (Some a) = Some t" "tree_ok 0 off_max t" "m_leaves t = starts [] 0 (Some a) @ ends None n (Some a) [(off_max, None)]"
    using n by (auto simp: insert_back_def off_max_def)
  have "n \<noteq> off_max" using n by (simp add: off_max_def)
  then have lv: "m_leaves t = leaves_of h [a] n" using t(3) h(4,5) by (simp add: starts_def ends_def leaves_of_def seg_off_def)
  have "m_leaves (build_tree t) = m_leaves t" "m_valid_tree (build_tree t)" by (simp_all add: build_tree_def)
  then show ?thesis using t lv e1 e2 i1 h build_tree_ok[OF t(2)] unfolding append_segments_def by auto
qed


lemma uint_pow2:
  assumes "k < 64"
  shows "uint (2 ^ k :: size_t) = 2 ^ k"
proof -
  have "uint (word_of_int (2 ^ k) :: size_t) = 2 ^ k mod 2 ^ 64" by (simp only: uint_word_of_int) simp
  moreover have "(2 :: int) ^ k < 2 ^ 64" using assms by (intro power_strict_increasing) auto
  ultimately have "uint (word_of_int (2 ^ k) :: size_t) = 2 ^ k" by (simp only: mod_pos_pos_trivial zero_le_power zero_le_numeral)
  then show ?thesis by simp
qed

lemma sparse_fetch:
  assumes L: "layout env sl f (mc_mem s)" and g: "good_env env" and w: "w = min (f_segment_size f * 2) (ne_segment_size env)"
    and r: "0 < f_alloc_offset f" "f_alloc_offset f < off" "off < uint w" "0 < uint sz" "off + uint sz < 2 ^ 61"
  shows "\<exists>n pm seg t h a. let p = ne_pool_addr env (f_pools f);
      f' = f\<lparr>f_segment_size := w, f_seg := h, f_next := Suc (Suc (f_next f)), f_pools := Suc (f_pools f), f_segments := t, f_alloc_offset := n\<rparr>;
      s' = s\<lparr>mc_mem := (mc_mem s)(p \<mapsto> zero_block (to_size n))\<rparr>
    in fetch_storage env f s off sz = Some (Inr ([\<lparr>r_address = Some (p, nat off), r_size = to_size off + sz, r_is_gap = False, r_is_pmem = pm\<rparr>], f', s')) \<and>
      off + uint sz < n \<and> n < 2 ^ 62 \<and> h a = Some seg \<and> s_offset seg = 0 \<and> s_size seg = to_size n \<and> \<not> s_is_gap seg \<and> seg_data seg = Some p \<and>
      tree_ok 0 off_max t \<and> m_valid_tree t \<and> m_leaves t = leaves_of h [a] n \<and> a < Suc (Suc (f_next f)) \<and> pow2 w"
proof -
  note D = layoutD[OF L]
  let ?al = "f_alloc_offset f" let ?p = "ne_pool_addr env (f_pools f)" let ?g = "f_next f" let ?a = "Suc (f_next f)"
  have w2: "pow2 w" unfolding w using pow2_double[OF D(9)] g by (simp add: good_env_def)
  obtain k where k: "k < 60" "w = 2 ^ k" using w2 by (auto simp: pow2_def)
  have "uint w = 2 ^ k" unfolding k(2) using k(1) by (intro uint_pow2) simp
  then have al0: "align off w = 0" using align_pow2[of off k] r k by simp
  have e: "to_off (to_size off + sz) = off + uint sz" by (rule end_of_range) (use r in auto)
  have sz: "to_off sz = uint sz" by (rule to_off_tile) (use r in auto)
  define n where "n = xalign (off + uint sz) w"
  have n: "off + uint sz < n" "n < 2 ^ 62" using xalign_bounds[OF w2, of "off + uint sz"] r by (auto simp: n_def)
  obtain pm where pm: "ne_map_file env (f_pools f) (to_size n) = Some (to_size n, pm)" using g unfolding good_env_def by metis
  let ?gseg = "\<lparr>s_offset = ?al, s_size = to_size (- ?al), s_is_gap = True, s_pool = new_pool, s_bytes = 0\<rparr>"
  let ?seg = "\<lparr>s_offset = 0, s_size = to_size n, s_is_gap = False,
      s_pool = \<lparr>p_path = Some (f_pools f), p_data = Some ?p, p_length = to_size n, p_is_pmem = pm\<rparr>, s_bytes = 0\<rparr>"
  let ?h = "(f_seg f)(?g \<mapsto> ?gseg, ?a \<mapsto> ?seg)"
  let ?f1 = "f\<lparr>f_segment_size := w, f_seg := (f_seg f)(?g \<mapsto> ?gseg), f_next := ?a\<rparr>"
  let ?f2 = "f\<lparr>f_segment_size := w, f_seg := ?h, f_next := Suc ?a, f_pools := Suc (f_pools f)\<rparr>"
  let ?s = "s\<lparr>mc_mem := (mc_mem s)(?p \<mapsto> zero_block (to_size n))\<rparr>"
  have c1: "create_segment env (f\<lparr>f_segment_size := w\<rparr>) s ?al (to_size (- ?al)) True = Some (Inr (?g, ?f1, s))"
    by (simp add: create_segment_def new_segment_def)
  have c2: "create_segment env ?f1 s 0 (to_size n) False = Some (Inr (?a, ?f2, ?s))"
    using pm g by (simp add: create_segment_def new_segment_def pool_allocate_def new_pool_def good_env_def zero_block_def)
  obtain t where t: "append_segments ?f2 [?g, ?a] = Some (?f2\<lparr>f_segments := t\<rparr>)" "tree_ok 0 off_max t" "m_valid_tree t" "m_leaves t = leaves_of ?h [?a] n"
    using sparse_append[OF L r(1) _ n(2), where h = ?h and g = ?g and gseg = ?gseg and a = ?a and seg = ?seg and w = w and k = "Suc ?a" and j = "Suc (f_pools f)"] n(1) r by auto
  have ga: "to_size (- ?al) \<noteq> 0" using to_size_neg[of "- ?al"] r(1) D(8) by fastforce
  have na: "to_off (to_size n) = n" using to_off_mid[of n] n r by simp
  have no: "unat (to_size off) = nat off" using to_size_nat[of off] r by simp
  have lv: "2 \<le> length (m_leaves (f_segments f))" "m_leaves (f_segments f) ! (length (m_leaves (f_segments f)) - 2) = (?al, None)"
    using D(3) by (simp_all add: leaves_of_def nth_append)
  have "extend_storage env f s off sz [] = Some (Inr ([\<lparr>r_address = Some (?p, nat off), r_size = to_size off + sz, r_is_gap = False, r_is_pmem = pm\<rparr>],
      ?f2\<lparr>f_segments := t, f_alloc_offset := n\<rparr>, ?s))"
    using lv r(2) e c1 c2 t(1) ga na no unfolding extend_storage_def w[symmetric] by (simp add: Let_def n_def[symmetric] al0 to_size_def[of 0] seg_data_def is_pmem_def)
  moreover have "fetch_storage env f s off sz = extend_storage env f s off sz []"
    using r D(4) unfolding fetch_storage_def e sz by simp
  ultimately show ?thesis using n t(2-4) w2
    by (intro exI[of _ n] exI[of _ pm] exI[of _ ?seg] exI[of _ t] exI[of _ ?h] exI[of _ ?a]) (simp add: Let_def seg_data_def)
qed


lemma single_file_ok:
  assumes st: "tree_ok 0 off_max t" "m_valid_tree t" "m_leaves t = leaves_of h [a] n" "pow2 w" "a < nx" "i < pools"
    and seg: "h a = Some seg" "s_offset seg = 0" "s_size seg = to_size n" "\<not> s_is_gap seg" "seg_data seg = Some (ne_pool_addr env i)"
    and n: "0 < n" "n < 2 ^ 62" and m: "m (ne_pool_addr env i) = Some b" "blk_len b = nat n"
    and c: "map (blk_byte b) [0..<blk_len b] = c @ replicate j 0" "int (length c) = u" "u \<le> n"
    and f: "f_segments f = t" "f_seg f = h" "f_next f = nx" "f_pools f = pools" "f_segment_size f = w" "f_alloc_offset f = n" "f_used_offset f = u"
      "st_size (f_attributes f) = u" "idle (f_range_mutex f)"
  shows "file_ok env [a] f m \<and> file_content [a] f m = c"
proof -
  have un: "uint (to_size n) = n" "unat (to_size n) = nat n" using to_size_unat[of n] to_size_nat[of n] n by simp_all
  have stored: "stored env pools m seg" using seg m st(6) un(2) by (auto simp: stored_def)
  have con: "seg_content h m [a] = c @ replicate j 0" using seg(1,4,5) m(1) c(1) by (simp add: seg_content_def seg_bytes_def)
  then have fc: "file_content [a] f m = c" using f(2,7) c(2) by (auto simp: file_content_def)
  have "layout env [a] f m" unfolding layout_def using st seg n un stored c f by (auto simp: datas_def)
  then show ?thesis using fc con stored seg f by (auto simp: file_ok_def solid_def)
qed

lemma sparse_put:
  assumes F: "file_ok env sl f (mc_mem s)" and g: "good_env env" and w: "w = min (f_segment_size f * 2) (ne_segment_size env)"
    and r: "0 < f_alloc_offset f" "f_alloc_offset f < off" "off < uint w" "0 < sz" "off + uint sz < 2 ^ 61"
    and v: "mem_vec (mc_mem s) (range (ne_pool_addr env)) v" "length (src_bytes (mc_mem s) v) = unat sz"
  shows "\<exists>v' sl' f' s'. put_data env f s off sz v = Some (Inr (uint sz, v', f', s')) \<and> file_ok env sl' f' (mc_mem s') \<and>
    file_content sl' f' (mc_mem s') = replicate (nat off) 0 @ src_bytes (mc_mem s) v"
proof -
  let ?bs = "src_bytes (mc_mem s) v" let ?e = "off + uint sz" let ?A = "range (ne_pool_addr env)" let ?fi = "f\<lparr>f_initialized := True\<rparr>" let ?p = "ne_pool_addr env (f_pools f)"
  have L: "layout env sl ?fi (mc_mem s)" and i: "idle (f_range_mutex f)" and st: "st_size (f_attributes f) = f_used_offset f" using F by (auto simp: file_ok_def)
  have D: "0 \<le> f_used_offset f" "f_used_offset f \<le> f_alloc_offset f" using layoutD(6,7)[OF L] by simp_all
  have p: "0 < uint sz" using r(4) by (simp add: word_less_def)
  have ub: "int (unat sz) = uint sz" by simp
  have e: "to_off (to_size off + sz) = ?e" by (rule end_of_range) (use r in auto)
  from sparse_fetch[OF L g, of w off sz] w r p obtain n pm seg t h a where
    x: "fetch_storage env ?fi s off sz = Some (Inr ([\<lparr>r_address = Some (?p, nat off), r_size = to_size off + sz, r_is_gap = False, r_is_pmem = pm\<rparr>],
        ?fi\<lparr>f_segment_size := w, f_seg := h, f_next := Suc (Suc (f_next f)), f_pools := Suc (f_pools f), f_segments := t, f_alloc_offset := n\<rparr>,
        s\<lparr>mc_mem := (mc_mem s)(?p \<mapsto> zero_block (to_size n))\<rparr>))"
      "?e < n" "n < 2 ^ 62" "h a = Some seg" "s_offset seg = 0" "s_size seg = to_size n" "\<not> s_is_gap seg" "seg_data seg = Some ?p"
      "tree_ok 0 off_max t" "m_valid_tree t" "m_leaves t = leaves_of h [a] n" "a < Suc (Suc (f_next f))" "pow2 w" by (auto simp: Let_def)
  let ?f1 = "?fi\<lparr>f_segment_size := w, f_seg := h, f_next := Suc (Suc (f_next f)), f_pools := Suc (f_pools f), f_segments := t, f_alloc_offset := n\<rparr>"
  let ?z = "zero_block (to_size n)" let ?s1 = "s\<lparr>mc_mem := (mc_mem s)(?p \<mapsto> ?z)\<rparr>"
  let ?r = "\<lparr>r_address = Some (?p, nat off), r_size = to_size off + sz, r_is_gap = False, r_is_pmem = pm\<rparr>"
  have "off < ?e" "off_ok off" "off_ok ?e" using p r by (auto simp: off_ok_def)
  from idle_lock[OF i this, of Writer] obtain t1 rl ns rl' t2 where
    lk: "lock_range (f_range_mutex f) off ?e Writer = Some (t1, Inr rl)" "unlock_range t1 rl = Some (ns, rl', t2)" "destroy_range_lock t2 rl' = Some t2" "idle t2" by blast
  have zl: "blk_len ?z = nat n" using to_size_nat[of n] x(2,3) r p by (simp add: zero_block_def)
  have v1: "mem_vec (mc_mem ?s1) ?A v" "src_bytes (mc_mem ?s1) v = ?bs" using mem_vec_write[OF v(1), of ?p "Some ?z"] by auto
  have rs: "unat (to_size off + sz) = nat ?e" unfolding to_size_add using to_size_nat[of ?e] r p by simp
  have "unat sz \<le> nat ?e" using ub r by linarith
  then have db: "\<not> fb_is_fd (dst_buf ?r)" "fb_mem (dst_buf ?r) = Some (?p, nat off)" "unat sz = min (length (src_bytes (mc_mem ?s1) v)) (fb_size (dst_buf ?r))"
    using v1(2) v(2) rs by (simp_all add: dst_buf_def)
  have bound: "nat off + unat sz \<le> blk_len ?z" using zl x(2) r ub by linarith
  let ?b = "blk_write ?z (nat off) (take (unat sz) (src_bytes (mc_mem ?s1) v))" let ?m = "(mc_mem ?s1)(?p \<mapsto> ?b)"
  have step: "\<exists>dv v'. c ?s1 (one_buf (dst_buf ?r) 0) v splice_move = Some (int (unat sz), dv, v', ?s1\<lparr>mc_mem := ?m\<rparr>)" if "memory_copy c" for c
    using memory_copy.copy_bytes[OF that v1(1) rangeI db(1,2) _ db(3) bound, of splice_move] by auto
  have cp: "memory_copy (ne_copy env)" using g by (simp add: good_env_def)
  obtain v' where wr: "write_regions env ?s1 0 v [?r] = Some (uint sz, v', ?s1\<lparr>mc_mem := ?m\<rparr>)"
    using step[OF pmem.memory_copy_axioms[of "ne_have_splice env" "ne_calls env" "ne_tmp env"]] step[OF cp] by (cases pm) auto
  have st1: "st_size (f_attributes (?f1\<lparr>f_range_mutex := t1\<rparr>)) = f_used_offset (?f1\<lparr>f_range_mutex := t1\<rparr>)" using st by simp
  have mx: "max (f_used_offset (?f1\<lparr>f_range_mutex := t1\<rparr>)) ?e = ?e" using D r p by simp
  from update_size_run[OF st1, of ?e, unfolded mx] obtain att where
    u: "update_size (?f1\<lparr>f_range_mutex := t1\<rparr>) (to_size ?e) = ?f1\<lparr>f_range_mutex := t1, f_used_offset := ?e, f_attributes := att\<rparr>" "st_size att = ?e" using r by auto
  let ?f' = "?f1\<lparr>f_range_mutex := t2, f_used_offset := ?e, f_attributes := att\<rparr>"
  have run: "put_data env f s off sz v = Some (Inr (uint sz, v', ?f', ?s1\<lparr>mc_mem := ?m\<rparr>))"
    using x(1) lk(1-3) wr u(1) e unfolding put_data_def init_subdir_run[OF g] file_lock_range_def file_unlock_range_def by (simp add: Let_def del: write_regions.simps)
  have bs: "take (unat sz) (src_bytes (mc_mem ?s1) v) = ?bs" using v1(2) v(2) by simp
  have "map (blk_byte ?b) [0..<blk_len ?b] = take (nat off) (replicate (nat n) 0) @ ?bs @ drop (nat off + unat sz) (replicate (nat n) 0)"
    unfolding bs using blk_write_bytes[of "nat off" ?bs ?z] bound v(2) zl by (simp add: zero_block_def map_replicate_const)
  also have "\<dots> = (replicate (nat off) 0 @ ?bs) @ replicate (nat n - (nat off + unat sz)) 0" using x(2) r p by (simp add: min_def)
  finally have con: "map (blk_byte ?b) [0..<blk_len ?b] = (replicate (nat off) 0 @ ?bs) @ replicate (nat n - (nat off + unat sz)) 0" .
  have "file_ok env [a] ?f' ?m \<and> file_content [a] ?f' ?m = replicate (nat off) 0 @ ?bs"
    by (rule single_file_ok[where h = h and a = a and m = ?m and u = ?e, OF x(9-11,13,12) lessI x(4-8) _ x(3) _ _ con]) (use x(2) r p v(2) ub zl u(2) lk(4) in auto)
  then show ?thesis using run by (intro exI[of _ v'] exI[of _ "[a]"] exI[of _ ?f'] exI[of _ "?s1\<lparr>mc_mem := ?m\<rparr>"]) simp
qed


text \<open>A file of four bytes in one segment of 8192 bytes, as a first write of four bytes leaves it.\<close>

definition sample_file :: nvml_file where
  "sample_file = (new_file persistent 1)\<lparr>f_attributes := null_stat\<lparr>st_size := 4\<rparr>, f_alloc_offset := 8192, f_used_offset := 4, f_segment_size := 8192,
     f_segments := build_tree \<lparr>m_leaves = [(0, Some 0), (8192, None), (off_max, None)], m_root_node = None, m_init_val = None, m_valid_tree = False\<rparr>, f_initialized := True,
     f_seg := [0 \<mapsto> \<lparr>s_offset = 0, s_size = 8192, s_is_gap = False, s_pool = \<lparr>p_path = Some 0, p_data = Some 1, p_length = 8192, p_is_pmem = True\<rparr>, s_bytes = 0\<rparr>],
     f_next := 1\<rparr>"

definition sample_disk :: "unit machine" where
  "sample_disk = \<lparr>mc_world = (), mc_mem = [0 \<mapsto> \<lparr>blk_len = 4, blk_byte = (\<lambda>i. of_nat (i + 1))\<rparr>, 1 \<mapsto> blk_write (zero_block 8192) 0 [1, 2, 3, 4]]\<rparr>"

lemma sample_file_ok: "file_ok sample_env [0] sample_file (mc_mem sample_disk) \<and> file_content [0] sample_file (mc_mem sample_disk) = [1, 2, 3, 4]"
proof -
  let ?t = "\<lparr>m_leaves = [(0, Some 0), (8192, None), (off_max, None)], m_root_node = None, m_init_val = None, m_valid_tree = False\<rparr>"
  have "tree_ok 0 off_max ?t" by (simp add: tree_ok_def leaves_ok_def off_max_def)
  then have t: "tree_ok 0 off_max (build_tree ?t)" by (rule build_tree_ok)
  have w: "pow2 8192" unfolding pow2_def by (intro exI[of _ 13]) simp
  have zb: "blk_len (zero_block 8192) = 8192" by (simp add: zero_block_def)
  have "map (blk_byte (blk_write (zero_block 8192) 0 [1, 2, 3, 4])) [0..<blk_len (zero_block 8192)] = [1, 2, 3, 4] @ drop (length [1 :: byte, 2, 3, 4]) (map (blk_byte (zero_block 8192)) [0..<8192])"
    using blk_write_bytes[of 0 "[1, 2, 3, 4]" "zero_block 8192"] zb by simp
  also have "map (blk_byte (zero_block 8192)) [0..<8192] = replicate 8192 0" by (simp add: zero_block_def map_replicate_const)
  finally have b: "map (blk_byte (blk_write (zero_block 8192) 0 [1, 2, 3, 4])) [0..<blk_len (blk_write (zero_block 8192) 0 [1, 2, 3, 4])] = [1, 2, 3, 4] @ replicate 8188 0"
    by simp
  show ?thesis
    by (rule single_file_ok[where h = "f_seg sample_file" and a = 0 and m = "mc_mem sample_disk" and n = 8192 and i = 0 and u = 4 and nx = 1 and pools = 1
        and seg = "\<lparr>s_offset = 0, s_size = 8192, s_is_gap = False, s_pool = \<lparr>p_path = Some 0, p_data = Some 1, p_length = 8192, p_is_pmem = True\<rparr>, s_bytes = 0\<rparr>", OF t _ _ w _ _ _ _ _ _ _ _ _ _ _ b])
      (use idle_init zb in \<open>simp_all add: sample_file_def sample_disk_def build_tree_def leaves_of_def seg_off_def new_file_def seg_data_def to_size_def sample_env_def\<close>)
qed

lemma sample_disk_src: "src_bytes (mc_mem sample_disk) sample_vec = [1, 2, 3, 4]" "mem_vec (mc_mem sample_disk) (range (ne_pool_addr sample_env)) sample_vec"
proof -
  have "x \<notin> range (ne_pool_addr sample_env) \<Longrightarrow> mc_mem sample_disk x = mc_mem sample_machine x" for x
    by (auto simp: sample_disk_def sample_machine_def sample_env_def)
  from mem_vec_cong[OF sample_src(2) this] show "src_bytes (mc_mem sample_disk) sample_vec = [1, 2, 3, 4]" "mem_vec (mc_mem sample_disk) (range (ne_pool_addr sample_env)) sample_vec"
    using sample_src(1) by simp_all
qed

section \<open>Properties\<close>

text \<open>
  C34: A read that starts behind the end of a file, but inside its allocated part, fails with
  \<open>ENOMEM\<close> whenever the allocator refuses requests of half the address space or more: the
  length of the range is computed as a negative number and converted to an unsigned one.  By
  the convention of \<open>read\<close> such a read returns no bytes and no error.
\<close>

theorem read_behind_end_fails:
  assumes "file_ok env sl f (mc_mem s)" "good_env env" "f_used_offset f < off" "off < f_alloc_offset f" "0 < sz" "off + uint sz < 2 ^ 62"
    "\<And>n. 2 ^ 63 \<le> n \<Longrightarrow> ne_memalign env s n = None"
  shows "\<exists>f'. get_data env f s off sz v = Some (Inr (- ENOMEM, v, f', s))"
  by (rule get_data_behind_end[OF assms])

theorem read_behind_end_fails_witness:
  "\<exists>f'. get_data sample_env sample_file sample_disk 100 10 sample_vec = Some (Inr (- ENOMEM, sample_vec, f', sample_disk))"
proof (rule read_behind_end_fails[where sl = "[0]"])
  show "ne_memalign sample_env sample_disk n = None" if "2 ^ 63 \<le> n" for n
    using that by (auto simp: sample_env_def word_less_def word_le_def)
qed (use sample_file_ok sample_good in \<open>simp_all add: sample_file_def new_file_def\<close>)

text \<open>
  C35: A write behind the allocated part of a non-empty file, at an offset below the size of the
  next segment, destroys the file: the offset is aligned to zero, the gap segment gets a size that
  wraps around and is not inserted, the new segment replaces all segments of the file, and
  every byte before the write reads as zero afterwards.
\<close>

theorem sparse_write_loses_data:
  assumes "file_ok env sl f (mc_mem s)" "good_env env" "w = min (f_segment_size f * 2) (ne_segment_size env)"
    "0 < f_alloc_offset f" "f_alloc_offset f < off" "off < uint w" "0 < sz" "off + uint sz < 2 ^ 61"
    "mem_vec (mc_mem s) (range (ne_pool_addr env)) v" "length (src_bytes (mc_mem s) v) = unat sz"
  shows "\<exists>v' sl' f' s'. put_data env f s off sz v = Some (Inr (uint sz, v', f', s')) \<and> file_ok env sl' f' (mc_mem s') \<and>
    file_content sl' f' (mc_mem s') = replicate (nat off) 0 @ src_bytes (mc_mem s) v"
  by (rule sparse_put[OF assms])

theorem sparse_write_loses_data_witness:
  "file_content [0] sample_file (mc_mem sample_disk) = [1, 2, 3, 4] \<and>
   (\<exists>v' sl' f' s'. put_data sample_env sample_file sample_disk 8200 4 sample_vec = Some (Inr (4, v', f', s')) \<and> file_ok sample_env sl' f' (mc_mem s') \<and>
     file_content sl' f' (mc_mem s') = replicate 8200 0 @ [1, 2, 3, 4])"
proof -
  have "f_segment_size sample_file = 8192" "f_alloc_offset sample_file = 8192" "ne_segment_size sample_env = 2 ^ 29"
    by (simp_all add: sample_file_def sample_env_def)
  then show ?thesis
    using sparse_write_loses_data[of sample_env "[0]" sample_file sample_disk 16384 8200 4 sample_vec] sample_file_ok sample_good sample_disk_src by simp
qed

end
