(* ===== verification/Nvml_Loading.thy ===== *)
theory Nvml_Loading
  imports Nvml_Errors
begin

text \<open>Loading the contents of a file from the underlying file system.\<close>

section \<open>Reading a descriptor to its end\<close>

text \<open>
  The bytes that reading \<open>fd\<close> from the state \<open>w\<close> of the world to the end of the file gives; a
  read may be short or interrupted.
\<close>

inductive streams :: "'w syscalls \<Rightarrow> int \<Rightarrow> 'w \<Rightarrow> byte list \<Rightarrow> 'w \<Rightarrow> bool" for sc :: "'w syscalls" and fd :: int where
  at_end: "sc_read sc w fd NVML_TRANSFER_SIZE None = (Inr [], w') \<Longrightarrow> streams sc fd w [] w'"
| interrupted: "sc_read sc w fd NVML_TRANSFER_SIZE None = (Inl EINTR, w1) \<Longrightarrow> streams sc fd w1 bs w' \<Longrightarrow> streams sc fd w bs w'"
| chunk: "sc_read sc w fd NVML_TRANSFER_SIZE None = (Inr c, w1) \<Longrightarrow> c \<noteq> [] \<Longrightarrow> streams sc fd w1 bs w' \<Longrightarrow> streams sc fd w (c @ bs) w'"

lemma copy_data_run:
  assumes "streams sc fd w bs w'" "mc_world s = w" "mc_mem s a = Some blk" "n + length bs \<le> blk_len blk"
  shows "copy_data sc fd a n s = Some (int (n + length bs), s\<lparr>mc_world := w', mc_mem := (mc_mem s)(a \<mapsto> blk_write blk n bs)\<rparr>)"
  using assms
proof (induction arbitrary: s blk n rule: streams.induct)
  case (at_end w w')
  then show ?case by (subst copy_data.simps) (simp add: fun_upd_idem)
next
  case (interrupted w w1 bs w')
  let ?s = "s\<lparr>mc_world := w1\<rparr>"
  have "copy_data sc fd a n s = copy_data sc fd a n ?s" using interrupted.hyps(1) interrupted.prems(1) by (subst copy_data.simps) simp
  then show ?case using interrupted.IH[of ?s blk n] interrupted.prems by simp
next
  case (chunk w c w1 bs w')
  let ?m = "(mc_mem s)(a \<mapsto> blk_write blk n c)" let ?s = "s\<lparr>mc_world := w1, mc_mem := ?m\<rparr>"
  have w: "mem_write (mc_mem s) (a, n) c = Some ?m" using chunk.prems by (simp add: mem_write_def)
  have "copy_data sc fd a n s = copy_data sc fd a (n + length c) ?s"
    using chunk.hyps(1,2) chunk.prems(1) w by (subst copy_data.simps) simp
  also have "\<dots> = Some (int (n + length c + length bs), ?s\<lparr>mc_world := w', mc_mem := (mc_mem ?s)(a \<mapsto> blk_write (blk_write blk n c) (n + length c) bs)\<rparr>)"
    by (rule chunk.IH) (use chunk.prems in simp_all)
  also have "\<dots> = Some (int (n + length (c @ bs)), s\<lparr>mc_world := w', mc_mem := (mc_mem s)(a \<mapsto> blk_write blk n (c @ bs))\<rparr>)"
    by (cases s) (auto simp: fun_eq_iff blk_write_append)
  finally show ?case .
qed

section \<open>A loaded file\<close>

lemma fill_from_run:
  assumes st: "streams sc fd (mc_world s) bs w'" and a: "seg_data seg = Some a" "\<not> s_is_gap seg" "mc_mem s a = Some (zero_block (s_size seg))"
    and n: "int (length bs) \<le> uint (s_size seg)" "uint (s_size seg) < 2 ^ 62"
  shows "\<exists>b. fill_from sc seg fd s = Some (to_size (int (length bs)), seg\<lparr>s_bytes := to_size (int (length bs))\<rparr>, s\<lparr>mc_world := w', mc_mem := (mc_mem s)(a \<mapsto> b)\<rparr>) \<and>
    blk_len b = unat (s_size seg) \<and> map (blk_byte b) [0..<blk_len b] = bs @ replicate (unat (s_size seg) - length bs) 0"
proof -
  let ?z = "zero_block (s_size seg)" let ?b1 = "blk_write ?z 0 bs" let ?n = "to_size (int (length bs))"
  have u: "int (unat (s_size seg)) = uint (s_size seg)" by simp
  have "length bs \<le> unat (s_size seg)" using n(1) u by linarith
  then have len: "length bs \<le> blk_len ?z" by (simp add: zero_block_def)
  from copy_data_run[OF st refl a(3), of 0] len
  have cp: "copy_data sc fd a 0 s = Some (int (length bs), s\<lparr>mc_world := w', mc_mem := (mc_mem s)(a \<mapsto> ?b1)\<rparr>)" by simp
  let ?s = "s\<lparr>mc_world := w', mc_mem := (mc_mem s)(a \<mapsto> ?b1)\<rparr>"
  have off: "to_off ?n = int (length bs)" by (rule to_off_mid) (use n in auto)
  have un: "unat ?n = length bs" using to_size_nat[of "int (length bs)"] n by simp
  have ui: "uint ?n = int (length bs)" using un by (metis size_nat)
  have sub: "unat (s_size seg - ?n) = unat (s_size seg) - length bs"
    using unat_sub[of ?n "s_size seg"] ui n(1) un by (simp add: word_le_def)
  let ?zs = "replicate (unat (s_size seg) - length bs) 0" let ?b = "blk_write ?b1 (length bs) ?zs"
  have fit: "to_size (to_off ?n) + (s_size seg - ?n) \<le> s_size seg" unfolding off by simp
  have wr: "mem_write (mc_mem ?s) (a, length bs) ?zs = Some ((mc_mem ?s)(a \<mapsto> ?b))" using len by (simp add: mem_write_def zero_block_def)
  have zf: "zero_fill (seg\<lparr>s_bytes := ?n\<rparr>) (to_off ?n) (s_size seg - ?n) ?s = Some (?s\<lparr>mc_mem := (mc_mem ?s)(a \<mapsto> ?b)\<rparr>)"
    using fit wr a(1,2) off sub unfolding zero_fill_def by (simp add: seg_data_def)
  have run: "fill_from sc seg fd s = Some (?n, seg\<lparr>s_bytes := ?n\<rparr>, s\<lparr>mc_world := w', mc_mem := (mc_mem s)(a \<mapsto> ?b)\<rparr>)"
    using a(1) cp zf unfolding fill_from_def by simp
  have "blk_write ?b1 (0 + length bs) ?zs = blk_write ?z 0 (bs @ ?zs)" by (rule blk_write_append)
  then have b: "?b = blk_write ?z 0 (bs @ ?zs)" by simp
  have full: "length (bs @ ?zs) = blk_len ?z" using len by (simp add: zero_block_def)
  have "map (blk_byte ?b) [0..<blk_len ?b] = bs @ ?zs"
    unfolding b using blk_write_bytes[of 0 "bs @ ?zs" ?z] full by simp
  moreover have "blk_len ?b = unat (s_size seg)" by (simp add: zero_block_def)
  ultimately show ?thesis using run by blast
qed

lemma load_file_run:
  assumes g: "good_env env" and st: "streams (ne_calls env) fd (mc_world s) bs w'" "st_size stbuf = int (length bs)" "int (length bs) < 2 ^ 61"
  shows "\<exists>f s'. load_file env ty k ino (Some fd) stbuf s = Some (Inr (f, s')) \<and> file_ok env [0] f (mc_mem s') \<and> file_content [0] f (mc_mem s') = bs \<and>
    f_type f = ty \<and> file_stat f = stbuf\<lparr>st_ino := ino\<rparr> \<and> mc_world s' = w' \<and> (\<forall>x. x \<noteq> ne_pool_addr env k \<longrightarrow> mc_mem s' x = mc_mem s x)"
proof -
  let ?p = "ne_pool_addr env k" let ?f0 = "(new_file ty k)\<lparr>f_segments := new_segment_tree 0 off_max None\<rparr>"
  have w: "pow2 4096" unfolding pow2_def by (intro exI[of _ 12]) simp
  define n where "n = xalign (int (length bs)) 4096"
  have n: "int (length bs) < n" "n < 2 ^ 62" using xalign_bounds[OF w, of "int (length bs)"] st(3) by (auto simp: n_def)
  have un: "uint (to_size n) = n" "unat (to_size n) = nat n" using to_size_unat[of n] to_size_nat[of n] n by simp_all
  obtain pm where pm: "ne_map_file env k (to_size n) = Some (to_size n, pm)" using g unfolding good_env_def by metis
  let ?seg = "\<lparr>s_offset = 0, s_size = to_size n, s_is_gap = False, s_pool = \<lparr>p_path = Some k, p_data = Some ?p, p_length = to_size n, p_is_pmem = pm\<rparr>, s_bytes = 0\<rparr>"
  let ?s1 = "s\<lparr>mc_mem := (mc_mem s)(?p \<mapsto> zero_block (to_size n))\<rparr>"
  let ?f1 = "?f0\<lparr>f_seg := [0 \<mapsto> ?seg], f_next := 1, f_pools := Suc k\<rparr>"
  have cs: "create_segment env ?f0 s 0 (to_size n) False = Some (Inr (0, ?f1, ?s1))"
    using pm g by (simp add: create_segment_def new_segment_def pool_allocate_def new_pool_def good_env_def zero_block_def new_file_def)
  have t0: "tree_ok 0 off_max (new_segment_tree 0 off_max None)" by (simp add: tree_ok_def leaves_ok_def new_segment_tree_def off_max_def)
  have p: "parted 0 n [] [(0, None)] [(off_max, None :: addr option)]" using n by (auto simp: parted_def off_max_def)
  have "m_leaves (new_segment_tree 0 off_max None) = [] @ [(0, None)] @ [(off_max, None :: addr option)]" by (simp add: new_segment_tree_def)
  from insert_segment_run[OF t0 _ _ p this, of "Some 0" False] obtain t where
    t: "insert_back (new_segment_tree 0 off_max None) 0 n (Some (0 :: addr)) = Some t" "tree_ok 0 off_max t" "m_leaves t = starts [] 0 (Some 0) @ ends None n (Some 0) [(off_max, None)]"
    using n by (auto simp: insert_back_def off_max_def)
  have "n \<noteq> off_max" using n by (simp add: off_max_def)
  then have lv: "m_leaves t = leaves_of h [0] n" if "h 0 = Some seg" "s_offset seg = 0" for h seg using t(3) that by (simp add: starts_def ends_def leaves_of_def seg_off_def)
  have se: "segment_end ?seg = n" using segment_end_tile[of ?seg] un n by simp
  have ap: "append_segments ?f1 [0] = Some (?f1\<lparr>f_segments := build_tree t\<rparr>)" using t(1) se unfolding append_segments_def by (simp add: new_file_def)
  from fill_from_run[of "ne_calls env" fd ?s1 bs w' ?seg ?p] st(1) n un obtain b where
    b: "fill_from (ne_calls env) ?seg fd ?s1 = Some (to_size (int (length bs)), ?seg\<lparr>s_bytes := to_size (int (length bs))\<rparr>, s\<lparr>mc_world := w', mc_mem := (mc_mem s)(?p \<mapsto> b)\<rparr>)"
      "blk_len b = nat n" "map (blk_byte b) [0..<blk_len b] = bs @ replicate (nat n - length bs) 0" by (auto simp: seg_data_def)
  have o: "to_off (to_size (int (length bs))) = int (length bs)" "to_off (to_size n) = n" using to_off_mid n by auto
  let ?seg' = "?seg\<lparr>s_bytes := to_size (int (length bs))\<rparr>"
  let ?f = "?f1\<lparr>f_segments := build_tree t, f_alloc_offset := n, f_seg := [0 \<mapsto> ?seg'], f_used_offset := int (length bs), f_attributes := stbuf\<lparr>st_ino := ino\<rparr>, f_initialized := True\<rparr>"
  let ?s = "s\<lparr>mc_world := w', mc_mem := (mc_mem s)(?p \<mapsto> b)\<rparr>"
  have sz: "f_segment_size ?f0 = 4096" by (simp add: new_file_def)
  have xn: "to_size (xalign (st_size (stbuf\<lparr>st_ino := ino\<rparr>)) (f_segment_size ?f0)) = to_size n" using st(2) by (simp add: n_def new_file_def)
  have sub: "(ne_subdir_exists env \<longrightarrow> ne_remove_all env) \<and> ne_mkdir env" using g by (simp add: good_env_def)
  have run: "load_file env ty k ino (Some fd) stbuf s = Some (Inr (?f, ?s))"
    using sub cs ap b(1) o xn unfolding load_file_def Let_def by (simp add: save_attributes_def)
  have "file_ok env [0] ?f (mc_mem ?s) \<and> file_content [0] ?f (mc_mem ?s) = bs"
    by (rule single_file_ok[where t = "build_tree t" and h = "f_seg ?f" and a = 0 and m = "mc_mem ?s" and n = n and i = k and u = "int (length bs)" and nx = 1 and pools = "Suc k"
          and seg = ?seg' and b = b and w = 4096 and j = "nat n - length bs", OF build_tree_ok[OF t(2)]])
      (use n b w idle_init st(2) lv[of "[0 \<mapsto> ?seg']" ?seg'] in \<open>simp_all add: build_tree_def seg_data_def new_file_def\<close>)
  then show ?thesis using run by (auto simp: new_file_def file_stat_def)
qed

end
