(* ===== verification/Nvml_Names_Props.thy ===== *)
theory Nvml_Names_Props
  imports Nvml_Load Nvml_Loading
begin

text \<open>What the name space promises to the file system, as an interface, and where it does not hold.\<close>

section \<open>The interface\<close>

locale name_space =
  fixes inv :: "'b \<Rightarrow> bool" and files :: "'b \<Rightarrow> string set" and dirs :: "'b \<Rightarrow> string set"
    and create :: "'b \<Rightarrow> string \<Rightarrow> (int \<times> 'b) option" and unlink :: "'b \<Rightarrow> string \<Rightarrow> (int \<times> 'b) option"
    and mkdir :: "'b \<Rightarrow> string \<Rightarrow> (int \<times> 'b) option" and rmdir :: "'b \<Rightarrow> string \<Rightarrow> (int \<times> 'b) option"
    and readdir :: "'b \<Rightarrow> string \<Rightarrow> string list"
  assumes create_ok: "inv b \<Longrightarrow> p \<in> dirs b \<Longrightarrow> valid_name n \<Longrightarrow> p @ n \<notin> files b \<Longrightarrow> p @ n @ [slash] \<notin> dirs b \<Longrightarrow>
      \<exists>b'. create b (p @ n) = Some (0, b') \<and> inv b' \<and> files b' = insert (p @ n) (files b) \<and> dirs b' = dirs b"
    and unlink_ok: "inv b \<Longrightarrow> f \<in> files b \<Longrightarrow> \<exists>b'. unlink b f = Some (0, b') \<and> inv b' \<and> files b' = files b - {f} \<and> dirs b' = dirs b"
    and mkdir_ok: "inv b \<Longrightarrow> p \<in> dirs b \<Longrightarrow> valid_name n \<Longrightarrow> p @ n \<notin> files b \<Longrightarrow> p @ n @ [slash] \<notin> dirs b \<Longrightarrow>
      \<exists>b'. mkdir b (p @ n) = Some (0, b') \<and> inv b' \<and> files b' = files b \<and> dirs b' = insert (p @ n @ [slash]) (dirs b)"
    and rmdir_ok: "inv b \<Longrightarrow> p \<in> dirs b \<Longrightarrow> valid_name n \<Longrightarrow> p @ n @ [slash] \<in> dirs b \<Longrightarrow>
      {m. valid_name m \<and> ((p @ n @ [slash]) @ m \<in> files b \<or> (p @ n @ [slash]) @ m @ [slash] \<in> dirs b)} = {} \<Longrightarrow>
      \<exists>b'. rmdir b (p @ n) = Some (0, b') \<and> inv b' \<and> files b' = files b \<and> dirs b' = dirs b - {p @ n @ [slash]}"
    and readdir_ok: "inv b \<Longrightarrow> p \<in> dirs b \<Longrightarrow> \<exists>xs. readdir b p = [''.'', ''..''] @ xs \<and> distinct xs \<and>
      set xs = {n. valid_name n \<and> (p @ n \<in> files b \<or> p @ n @ [slash] \<in> dirs b)}"
    and dirs_closed: "inv b \<Longrightarrow> p \<in> dirs b \<Longrightarrow> dir_path p" "inv b \<Longrightarrow> tree_closed (files b) (dirs b)"
begin

lemma create_listed:
  assumes "inv b" "p \<in> dirs b" "valid_name n" "p @ n \<notin> files b" "p @ n @ [slash] \<notin> dirs b"
  shows "\<exists>b'. create b (p @ n) = Some (0, b') \<and> inv b' \<and> n \<in> set (readdir b' p)"
proof -
  obtain b' where b': "create b (p @ n) = Some (0, b')" "inv b'" "files b' = insert (p @ n) (files b)" "dirs b' = dirs b" using create_ok[OF assms] by blast
  from readdir_ok[of b' p] b' assms(2,3) show ?thesis by auto
qed

lemma create_unlink:
  assumes "inv b" "p \<in> dirs b" "valid_name n" "p @ n \<notin> files b" "p @ n @ [slash] \<notin> dirs b"
  shows "\<exists>b' b''. create b (p @ n) = Some (0, b') \<and> unlink b' (p @ n) = Some (0, b'') \<and> inv b'' \<and> files b'' = files b \<and> dirs b'' = dirs b"
proof -
  obtain b' where b': "create b (p @ n) = Some (0, b')" "inv b'" "files b' = insert (p @ n) (files b)" "dirs b' = dirs b" using create_ok[OF assms] by blast
  from unlink_ok[of b' "p @ n"] b' assms(4) show ?thesis by auto
qed

lemma mkdir_rmdir:
  assumes "inv b" "p \<in> dirs b" "valid_name n" "p @ n \<notin> files b" "p @ n @ [slash] \<notin> dirs b"
  shows "\<exists>b' b''. mkdir b (p @ n) = Some (0, b') \<and> readdir b' (p @ n @ [slash]) = [''.'', ''..''] \<and> rmdir b' (p @ n) = Some (0, b'') \<and> inv b'' \<and>
    files b'' = files b \<and> dirs b'' = dirs b"
proof -
  let ?q = "p @ n @ [slash]"
  obtain b' where b': "mkdir b (p @ n) = Some (0, b')" "inv b'" "files b' = files b" "dirs b' = insert ?q (dirs b)" using mkdir_ok[OF assms] by blast
  have "?q @ m \<notin> files b \<and> ?q @ m @ [slash] \<notin> dirs b" if "valid_name m" for m
    by (rule no_entries[OF dirs_closed(2)[OF assms(1)] dirs_closed(1)[OF assms(1)] _ assms(5) that]) simp_all
  moreover have "?q @ m @ [slash] \<noteq> ?q" for m by simp
  ultimately have e: "{m. valid_name m \<and> (?q @ m \<in> files b' \<or> ?q @ m @ [slash] \<in> dirs b')} = {}" unfolding b'(3,4) by blast
  have "readdir b' ?q = [''.'', ''..'']" using readdir_ok[OF b'(2), of ?q] b'(4) unfolding e by auto
  moreover obtain b'' where "rmdir b' (p @ n) = Some (0, b'')" "inv b''" "files b'' = files b'" "dirs b'' = dirs b' - {?q}"
    using rmdir_ok[OF b'(2) _ assms(3) _ e] b'(4) assms(2) by auto
  ultimately show ?thesis using b' assms(5) by auto
qed

end

definition create_at :: "'w host \<Rightarrow> nat \<Rightarrow> backend \<Rightarrow> string \<Rightarrow> (int \<times> backend) option" where
  "create_at h mode b f = (case do_create h b f mode of (r, i, b') \<Rightarrow> Some (r, b'))"

lemma empty_listing:
  assumes ok: "ns_ok b" and d: "map_of (b_dirs b) q = Some d" and e: "{m. valid_name m \<and> (q @ m \<in> ns_files b \<or> q @ m @ [slash] \<in> ns_dirs b)} = {}"
  shows "d_files d = []"
proof -
  have "n \<notin> set (d_files d)" for n using ns_okD(1)[OF ok] d e unfolding listing_ok_def ns_dirs_def by blast
  then show ?thesis by (cases "d_files d") auto
qed

interpretation nvml: name_space ns_ok ns_files ns_dirs "create_at h cmode" "\<lambda>b f. Some (do_unlink h b f)" "\<lambda>b f. do_mkdir h b f dmode" "do_rmdir h" do_readdir
  for h :: "'w host" and cmode dmode
proof (unfold_locales, goal_cases)
  case (1 b p n)
  from do_create_run[OF this, of h cmode] show ?case by (auto simp: create_at_def)
next
  case (2 b f)
  from do_unlink_run[OF this, of h] show ?case by auto
next
  case (3 b p n)
  from do_mkdir_run[OF this, of h dmode] show ?case by auto
next
  case (4 b p n)
  then obtain d where d: "map_of (b_dirs b) (p @ n @ [slash]) = Some d" by (auto simp: ns_dirs_def)
  have "d_files d = []" by (rule empty_listing[OF 4(1) d]) (use 4(5) in simp)
  then show ?case using do_rmdir_run[OF 4(1) ns_dir_path[OF 4(1,2)] 4(3) d, of h] by auto
next
  case (5 b p)
  then show ?case by (rule do_readdir_run)
next
  case (6 b p)
  then show ?case by (rule ns_dir_path)
next
  case (7 b)
  then show ?case by (rule ns_okD(2))
qed

section \<open>Renaming a directory\<close>

lemma ns_dirsD: "p \<in> ns_dirs b \<Longrightarrow> \<exists>d. map_of (b_dirs b) p = Some d"
  by (auto simp: ns_dirs_def)

lemma find_s_dir: "dir_path p \<Longrightarrow> find_s b p = (case map_of (b_dirs b) p of None \<Rightarrow> [] | Some d \<Rightarrow> d_files d)"
  by (auto simp: find_s_def dir_path_def list_files_def split: option.splits)

lemma renamedir_orphan:
  assumes ok: "ns_ok b" and old: "p \<in> ns_dirs b" "valid_name n" "p @ n @ [slash] \<in> ns_dirs b"
    and t: "p' \<in> ns_dirs b" "valid_name n'" "p' \<noteq> p @ n @ [slash]" "p' @ n' \<notin> ns_files b" "p' @ n' @ [slash] \<notin> ns_dirs b"
  shows "\<exists>b'. do_rename h b (p @ n) (p' @ n') = Some (0, b') \<and> n \<in> set (find_s b' p) \<and> n' \<notin> set (find_s b' p') \<and>
    do_stat b' (p @ n) = (- ENOENT, None)"
proof -
  let ?q = "p @ n @ [slash]" let ?q' = "p' @ n' @ [slash]"
  have dp: "dir_path p" "dir_path p'" using ns_dir_path[OF ok] old(1) t(1) by auto
  have len: "length (p @ n) > 1" "length (p' @ n') > 1" using dp old(2) t(2) by (cases p; cases n; cases p'; cases n'; auto simp: dir_path_def valid_name_def)+
  then have sl: "slashed (p @ n) = ?q" "slashed (p' @ n') = ?q'" by (simp_all add: slashed_def)
  obtain d where d: "map_of (b_dirs b) ?q = Some d" using old(3) by (auto simp: ns_dirs_def)
  have nq: "map_of (b_dirs b) ?q' = None" using t(5) by (auto simp: ns_dirs_def)
  then have ne: "?q \<noteq> ?q'" using d by (metis option.distinct(1))
  obtain c where run: "do_rename h b (p @ n) (p' @ n') = Some (0, b\<lparr>b_dirs := AList.delete ?q ((?q', c) # b_dirs b)\<rparr>)"
    using d nq by (auto simp: do_rename_def do_renamedir_def sl emplace_def Let_def)
  let ?b = "b\<lparr>b_dirs := AList.delete ?q ((?q', c) # b_dirs b)\<rparr>"
  obtain e e' where e: "map_of (b_dirs b) p = Some e" "map_of (b_dirs b) p' = Some e'" using old(1) t(1) by (auto simp: ns_dirs_def)
  have "p \<noteq> ?q" "p \<noteq> ?q'" "p' \<noteq> ?q'" "p' \<noteq> ?q" using t(1,3,5) old(1) by auto
  then have m: "map_of (b_dirs ?b) p = Some e" "map_of (b_dirs ?b) p' = Some e'" "map_of (b_dirs ?b) ?q = None" using e by simp_all
  have L: "listing_ok (ns_files b) (b_dirs b)" by (rule ns_okD(1)[OF ok])
  have "n \<in> set (d_files e)" "n' \<notin> set (d_files e')" using L e old(2,3) t(2,4,5) unfolding listing_ok_def ns_dirs_def by blast+
  moreover have "p @ n \<notin> ns_files b" using ns_okD(2)[OF ok] old(3) unfolding tree_closed_def by (metis append_assoc)
  then have "do_stat ?b (p @ n) = (- ENOENT, None)" using m(3) by (auto simp: do_stat_def sl ns_files_def split: option.splits)
  ultimately show ?thesis using run m(1,2) by (auto simp: find_s_dir[OF dp(1)] find_s_dir[OF dp(2)])
qed


section \<open>Properties\<close>

text \<open>
  C19: In every name space that the operations reach from a new back end, reading a directory
  gives the two special entries and then, without repetition, exactly the names of the
  files and directories in it, and its link count is one more than their number.
\<close>

theorem directory_contents:
  assumes "new_backend h i0 cap rd = Inr b0" "(ns_step h)\<^sup>*\<^sup>* b0 b" "map_of (b_dirs b) p = Some d"
  shows "\<exists>xs. do_readdir b p = [''.'', ''..''] @ xs \<and> distinct xs \<and> set xs = {n. valid_name n \<and> (exists_file b (p @ n) \<or> map_of (b_dirs b) (p @ n @ [slash]) \<noteq> None)} \<and>
    st_nlink (dir_stat d) = of_nat (Suc (length xs))"
proof -
  have ok: "ns_ok b" using ns_reach[OF assms(2)] new_backend_ok[OF assms(1)] by blast
  have l: "distinct (d_files d)" "st_nlink (d_attributes d) = of_nat (Suc (length (d_files d)))"
    "\<forall>n. n \<in> set (d_files d) \<longleftrightarrow> valid_name n \<and> (p @ n \<in> ns_files b \<or> p @ n @ [slash] \<in> ns_dirs b)"
    using ns_okD(1)[OF ok] assms(3) unfolding listing_ok_def ns_dirs_def by blast+
  have "p \<in> ns_dirs b" using assms(3) by (auto simp: ns_dirs_def)
  from do_readdir_run[OF ok this] obtain xs where
    xs: "do_readdir b p = [''.'', ''..''] @ xs" "distinct xs" "set xs = {n. valid_name n \<and> (p @ n \<in> ns_files b \<or> p @ n @ [slash] \<in> ns_dirs b)}" by blast
  have "set xs = set (d_files d)" using l(3) xs(3) by blast
  then have "length xs = length (d_files d)" using l(1) xs(2) by (metis distinct_card)
  then show ?thesis using xs l(2) by (auto simp: exists_file_def ns_files_def ns_dirs_def dir_stat_def)
qed

definition sample_host :: "unit host" where
  "sample_host = \<lparr>h_uid = 7, h_gid = 8, h_time = 9, h_exists = (\<lambda>_. True), h_is_directory = (\<lambda>_. False), h_entries = (\<lambda>_. []), h_open = (\<lambda>_. Some 3),
     h_fstat = (\<lambda>_. null_stat), h_mkdir = (\<lambda>w _. (0, w)), h_output = (\<lambda>w _ _. w), h_nvml = (\<lambda>_. sample_env)\<rparr>"

definition sample_backend :: backend where
  "sample_backend = \<lparr>b_capacity = 0, b_root_dir = ''/r/'', b_files = [], b_objs = (\<lambda>_. None), b_next = 0,
     b_dirs = [(''/'', new_dir ''/'' 1 null_stat persistent True)], b_inode = 2\<rparr>"

lemma sample_backend_new: "new_backend sample_host 1 0 ''/r/'' = Inr sample_backend"
  by (simp add: new_backend_def sample_host_def sample_backend_def new_inode_def)

lemma sample_backend_ok: "ns_ok sample_backend" "ns_files sample_backend = {}" "ns_dirs sample_backend = {''/''}"
  using new_backend_ok[OF sample_backend_new] by auto

theorem directory_contents_witness:
  "\<exists>b d xs. do_mkdir sample_host sample_backend ''/a'' 493 = Some (0, b) \<and> map_of (b_dirs b) ''/'' = Some d \<and>
    do_readdir b ''/'' = [''.'', ''..''] @ xs \<and> set xs = {n. valid_name n \<and> (exists_file b (''/'' @ n) \<or> map_of (b_dirs b) (''/'' @ n @ [slash]) \<noteq> None)} \<and>
    st_nlink (dir_stat d) = of_nat (Suc (length xs))"
proof -
  have v: "valid_name ''a''" by (simp add: valid_name_def)
  from do_mkdir_run[OF sample_backend_ok(1) _ v, of "''/''" sample_host 493] sample_backend_ok obtain b where
    b: "do_mkdir sample_host sample_backend ''/a'' 493 = Some (0, b)" "ns_dirs b = {''/a/'', ''/''}" by auto
  have "ns_step sample_host sample_backend b"
    using ns_step.mkdir[of "''/''" sample_backend "''a''" sample_host 493 0 b] b(1) v sample_backend_ok by simp
  then have r: "(ns_step sample_host)\<^sup>*\<^sup>* sample_backend b" by simp
  obtain d where d: "map_of (b_dirs b) ''/'' = Some d" using ns_dirsD[of "''/''" b] b(2) by auto
  from directory_contents[OF sample_backend_new r d] b(1) d show ?thesis by blast
qed

text \<open>
  C22: Creating a file and removing it gives back the name space, and so does creating a
  directory, which is empty, and removing it.
\<close>

theorem create_remove_roundtrip:
  assumes "ns_ok b" "p \<in> ns_dirs b" "valid_name n" "p @ n \<notin> ns_files b" "p @ n @ [slash] \<notin> ns_dirs b"
  shows "(\<exists>b' b''. create_at h cmode b (p @ n) = Some (0, b') \<and> Some (do_unlink h b' (p @ n)) = Some (0, b'') \<and> ns_ok b'' \<and> ns_files b'' = ns_files b \<and> ns_dirs b'' = ns_dirs b) \<and>
    (\<exists>b' b''. do_mkdir h b (p @ n) dmode = Some (0, b') \<and> do_readdir b' (p @ n @ [slash]) = [''.'', ''..''] \<and> do_rmdir h b' (p @ n) = Some (0, b'') \<and> ns_ok b'' \<and>
      ns_files b'' = ns_files b \<and> ns_dirs b'' = ns_dirs b)"
  using nvml.create_unlink[OF assms] nvml.mkdir_rmdir[OF assms] by blast

theorem create_remove_roundtrip_witness:
  "(\<exists>b' b''. create_at sample_host 420 sample_backend ''/a'' = Some (0, b') \<and> Some (do_unlink sample_host b' ''/a'') = Some (0, b'') \<and> ns_ok b'' \<and>
      ns_files b'' = {} \<and> ns_dirs b'' = {''/''}) \<and>
    (\<exists>b' b''. do_mkdir sample_host sample_backend ''/a'' 493 = Some (0, b') \<and> do_readdir b' ''/a/'' = [''.'', ''..''] \<and> do_rmdir sample_host b' ''/a'' = Some (0, b'') \<and> ns_ok b'' \<and>
      ns_files b'' = {} \<and> ns_dirs b'' = {''/''})"
  using create_remove_roundtrip[of sample_backend "''/''" "''a''" sample_host 420 493] sample_backend_ok by (simp add: valid_name_def)

text \<open>
  C23: Renaming a file moves the object under its new name, replaces a file that had it, and
  changes nothing else in the name space.
\<close>

theorem rename_file:
  assumes "ns_ok b" "map_of (b_files b) f = Some i" "p \<in> ns_dirs b" "valid_name n" "p @ n \<noteq> f" "p @ n @ [slash] \<notin> ns_dirs b"
  shows "\<exists>b'. do_rename h b f (p @ n) = Some (0, b') \<and> ns_ok b' \<and> ns_files b' = insert (p @ n) (ns_files b - {f}) \<and> ns_dirs b' = ns_dirs b \<and> find_file b' (p @ n) = Some i"
  using do_rename_run[OF assms, of h] by (simp add: find_file_def)

theorem rename_file_witness:
  "\<exists>b b'. do_create sample_host sample_backend ''/a'' 420 = (0, Some 0, b) \<and> do_rename sample_host b ''/a'' ''/b'' = Some (0, b') \<and> ns_ok b' \<and> ns_files b' = {''/b''} \<and>
    find_file b' ''/b'' = Some 0"
proof -
  have v: "valid_name ''a''" "valid_name ''b''" by (simp_all add: valid_name_def)
  have "b_next sample_backend = 0" by (simp add: sample_backend_def)
  with do_create_run[OF sample_backend_ok(1) _ v(1), of "''/''" sample_host 420] sample_backend_ok obtain b where
    b: "do_create sample_host sample_backend ''/a'' 420 = (0, Some 0, b)" "ns_ok b" "ns_files b = {''/a''}" "ns_dirs b = {''/''}" "map_of (b_files b) ''/a'' = Some 0" by auto
  from rename_file[OF b(2,5), of "''/''" "''b''" sample_host] b v(2) show ?thesis by auto
qed

text \<open>
  A directory that is not empty cannot be removed: the call fails with \<open>ENOTEMPTY\<close> and
  changes nothing.
\<close>

theorem rmdir_not_empty:
  assumes "ns_ok b" "dir_path p" "valid_name n" "map_of (b_dirs b) (p @ n @ [slash]) = Some d" "length (d_files d) < 2 ^ 64"
    "valid_name m" "p @ n @ [slash] @ m \<in> ns_files b \<or> p @ n @ [slash] @ m @ [slash] \<in> ns_dirs b"
  shows "do_rmdir h b (p @ n) = Some (- ENOTEMPTY, b)"
proof -
  have "m \<in> set (d_files d)" using ns_okD(1)[OF assms(1)] assms(4,6,7) unfolding listing_ok_def ns_dirs_def by (metis append_assoc)
  then have "d_files d \<noteq> []" by auto
  then show ?thesis using do_rmdir_run[OF assms(1-5), of h] by simp
qed

theorem rmdir_not_empty_witness:
  "\<exists>b b'. do_mkdir sample_host sample_backend ''/a'' 493 = Some (0, b) \<and> create_at sample_host 420 b ''/a/x'' = Some (0, b') \<and>
    do_rmdir sample_host b' ''/a'' = Some (- ENOTEMPTY, b')"
proof -
  have v: "valid_name ''a''" "valid_name ''x''" by (simp_all add: valid_name_def)
  from do_mkdir_run[OF sample_backend_ok(1) _ v(1), of "''/''" sample_host 493] sample_backend_ok obtain b where
    b: "do_mkdir sample_host sample_backend ''/a'' 493 = Some (0, b)" "ns_ok b" "ns_files b = {}" "ns_dirs b = {''/a/'', ''/''}" by auto
  from do_create_run[OF b(2) _ v(2), of "''/a/''" sample_host 420] b obtain b' i where
    b': "do_create sample_host b ''/a/x'' 420 = (0, i, b')" "ns_ok b'" "ns_files b' = {''/a/x''}" "ns_dirs b' = {''/a/'', ''/''}" by auto
  obtain d where d: "map_of (b_dirs b') ''/a/'' = Some d" using ns_dirsD[of "''/a/''" b'] b'(4) by auto
  have l: "distinct (d_files d)" "\<forall>n. n \<in> set (d_files d) \<longleftrightarrow> valid_name n \<and> (''/a/'' @ n \<in> ns_files b' \<or> ''/a/'' @ n @ [slash] \<in> ns_dirs b')"
    using ns_okD(1)[OF b'(2)] d unfolding listing_ok_def ns_dirs_def by blast+
  then have "set (d_files d) \<subseteq> {''x''}" using b'(3,4) by auto
  then have "length (d_files d) \<le> 1" using l(1) distinct_card[of "d_files d"] card_mono[of "{''x''}" "set (d_files d)"] by simp
  then have "length (d_files d) < 2 ^ 64" by simp
  then show ?thesis using rmdir_not_empty[OF b'(2) _ v(1) _ _ v(2), of "''/''" d sample_host] d b b' by (auto simp: create_at_def dir_path_def)
qed

text \<open>
  C24: Loading a file creates the directories on its way that are missing, lists it in the last
  of them, and makes the bytes that reading it gives the contents of a file object under its
  path without the root directory.
\<close>

theorem load_lists_file:
  assumes "ns_ok b" "remove_root b pathname = Some (file_path (ns @ [n]))" "\<forall>x \<in> set ns. valid_name x" "valid_name n"
    "file_path (ns @ [n]) \<notin> ns_files b" "dirs_path (ns @ [n]) \<notin> ns_dirs b" "way_free (ns_files b) [slash] ns"
    "\<forall>p. h_open h p \<noteq> None" "h_exists h pathname" "\<not> h_is_directory h pathname" "h_open h pathname = Some fd" "good_env (h_nvml h pathname)"
    "streams (ne_calls (h_nvml h pathname)) fd (mc_world s) bs w'" "st_size (h_fstat h pathname) = int (length bs)" "int (length bs) < 2 ^ 61"
  shows "\<exists>b' s' i f. load h b s pathname ty = Some (Inr (success, b', s')) \<and> ns_ok b' \<and> ns_files b' = insert (file_path (ns @ [n])) (ns_files b) \<and>
    dirs_path ns \<in> ns_dirs b' \<and> ns_dirs b \<subseteq> ns_dirs b' \<and> find_file b' (file_path (ns @ [n])) = Some i \<and> b_objs b' i = Some f \<and>
    file_ok (h_nvml h pathname) [0] f (mc_mem s') \<and> file_content [0] f (mc_mem s') = bs"
proof -
  from load_file_run[OF assms(12-15), of ty 0 "fst (new_inode b)"] obtain f s' where
    f: "load_file (h_nvml h pathname) ty 0 (fst (new_inode b)) (h_open h pathname) (h_fstat h pathname) s = Some (Inr (f, s'))"
      "file_ok (h_nvml h pathname) [0] f (mc_mem s')" "file_content [0] f (mc_mem s') = bs" unfolding assms(11) by blast
  from load_one_run[OF assms(1-8) f(1)] obtain b' i where
    "load_one h b s pathname ty = Some (Inr (success, b', s'))" "ns_ok b'" "ns_files b' = insert (file_path (ns @ [n])) (ns_files b)" "dirs_path ns \<in> ns_dirs b'"
    "ns_dirs b \<subseteq> ns_dirs b'" "map_of (b_files b') (file_path (ns @ [n])) = Some i" "b_objs b' i = Some f" by blast
  moreover have "load h b s pathname ty = load_one h b s pathname ty" using assms(2,9,10) by (simp add: load_def)
  ultimately show ?thesis using f(2,3) unfolding find_file_def by metis
qed

definition sample_load_calls :: "nat syscalls" where
  "sample_load_calls = \<lparr>sc_read = (\<lambda>w _ _ _. if w = 0 then (Inr [1, 2, 3], 1) else (Inr [], w)), sc_write = (\<lambda>w _ _ _. (Inl 5, w)), sc_splice = (\<lambda>w _ _ _ _ _. (Inl 5, w))\<rparr>"

definition sample_load_env :: "nat nvml_env" where
  "sample_load_env = \<lparr>ne_calls = sample_load_calls, ne_have_splice = True, ne_tmp = 0, ne_copy = fuse_buf_copy_pmem False True sample_load_calls 0,
     ne_pool_addr = (\<lambda>i. 2 * i + 1), ne_exists = (\<lambda>_. False), ne_unlink = (\<lambda>_. True), ne_map_file = (\<lambda>_ sz. Some (sz, True)),
     ne_subdir_exists = False, ne_remove_all = True, ne_mkdir = True, ne_memalign = (\<lambda>_ _. None), ne_time = 0, ne_segment_size = 2 ^ 29\<rparr>"

definition sample_load_host :: "nat host" where
  "sample_load_host = \<lparr>h_uid = 7, h_gid = 8, h_time = 9, h_exists = (\<lambda>_. True), h_is_directory = (\<lambda>_. False), h_entries = (\<lambda>_. []), h_open = (\<lambda>_. Some 3),
     h_fstat = (\<lambda>_. null_stat\<lparr>st_size := 3\<rparr>), h_mkdir = (\<lambda>w _. (0, w)), h_output = (\<lambda>w _ _. w), h_nvml = (\<lambda>_. sample_load_env)\<rparr>"

lemma sample_load_good: "good_env sample_load_env"
proof -
  have "inj (\<lambda>i :: nat. 2 * i + 1)" by (simp add: inj_def)
  moreover have "pow2 (2 ^ 29)" unfolding pow2_def by (intro exI[of _ 29]) simp
  ultimately show ?thesis using pmem.memory_copy_axioms[of True sample_load_calls 0] by (auto simp: good_env_def sample_load_env_def)
qed

lemma sample_streams: "streams sample_load_calls 3 0 [1, 2, 3] 1"
proof -
  have s1: "streams sample_load_calls 3 1 [] 1" by (rule streams.at_end) (simp add: sample_load_calls_def)
  have "streams sample_load_calls 3 0 ([1, 2, 3] @ []) 1" by (rule streams.chunk[OF _ _ s1]) (simp_all add: sample_load_calls_def)
  then show ?thesis by simp
qed

theorem load_lists_file_witness:
  "\<exists>b' s' i f. load sample_load_host sample_backend \<lparr>mc_world = 0, mc_mem = (\<lambda>_. None)\<rparr> ''/r/d/f'' persistent = Some (Inr (success, b', s')) \<and> ns_ok b' \<and>
    ns_files b' = {''/d/f''} \<and> ''/d/'' \<in> ns_dirs b' \<and> find_file b' ''/d/f'' = Some i \<and> b_objs b' i = Some f \<and> file_content [0] f (mc_mem s') = [1, 2, 3]"
proof -
  have st: "streams (ne_calls (h_nvml sample_load_host ''/r/d/f'')) 3 (mc_world \<lparr>mc_world = 0, mc_mem = (\<lambda>_. None)\<rparr>) [1, 2, 3] 1"
    using sample_streams by (simp add: sample_load_host_def sample_load_env_def)
  have rr: "remove_root sample_backend ''/r/d/f'' = Some (file_path ([''d''] @ [''f'']))" by (simp add: remove_root_def sample_backend_def file_path_def)
  have v: "\<forall>x \<in> set [''d'']. valid_name x" "valid_name ''f''" by (simp_all add: valid_name_def)
  have g: "good_env (h_nvml sample_load_host ''/r/d/f'')" using sample_load_good by (simp add: sample_load_host_def)
  have h: "\<forall>p. h_open sample_load_host p \<noteq> None" "h_exists sample_load_host ''/r/d/f''" "\<not> h_is_directory sample_load_host ''/r/d/f''"
    "h_open sample_load_host ''/r/d/f'' = Some 3" "st_size (h_fstat sample_load_host ''/r/d/f'') = int (length [1 :: byte, 2, 3])"
    by (simp_all add: sample_load_host_def null_stat_def)
  have f: "file_path ([''d''] @ [''f'']) = ''/d/f''" "dirs_path [''d''] = ''/d/''" "dirs_path ([''d''] @ [''f'']) = ''/d/f/''" by (simp_all add: file_path_def dirs_path_def)
  have n: "file_path ([''d''] @ [''f'']) \<notin> ns_files sample_backend" "dirs_path ([''d''] @ [''f'']) \<notin> ns_dirs sample_backend"
    "way_free (ns_files sample_backend) [slash] [''d'']" unfolding f sample_backend_ok(2,3) by simp_all
  have l: "int (length [1 :: byte, 2, 3]) < 2 ^ 61" by simp
  note r = load_lists_file[OF sample_backend_ok(1) rr v n h(1-4) g st h(5) l, where ty = persistent]
  then show ?thesis unfolding f sample_backend_ok(2) by (elim exE conjE, intro exI conjI)
qed

text \<open>
  C36: Renaming a directory succeeds but leaves the name space broken: the old name stays in its
  directory although nothing is there any more, and the new name is not entered.
\<close>

theorem renamed_directory_lost:
  assumes "ns_ok b" "p \<in> ns_dirs b" "valid_name n" "p @ n @ [slash] \<in> ns_dirs b"
    "p' \<in> ns_dirs b" "valid_name n'" "p' \<noteq> p @ n @ [slash]" "p' @ n' \<notin> ns_files b" "p' @ n' @ [slash] \<notin> ns_dirs b"
  shows "\<exists>b'. do_rename h b (p @ n) (p' @ n') = Some (0, b') \<and> n \<in> set (find_s b' p) \<and> n' \<notin> set (find_s b' p') \<and> do_stat b' (p @ n) = (- ENOENT, None)"
  by (rule renamedir_orphan[OF assms])

theorem renamed_directory_lost_witness:
  "\<exists>b b'. do_mkdir sample_host sample_backend ''/a'' 493 = Some (0, b) \<and> do_rename sample_host b ''/a'' ''/b'' = Some (0, b') \<and>
    ''a'' \<in> set (find_s b' ''/'') \<and> ''b'' \<notin> set (find_s b' ''/'') \<and> do_stat b' ''/a'' = (- ENOENT, None)"
proof -
  have v: "valid_name ''a''" "valid_name ''b''" by (simp_all add: valid_name_def)
  from do_mkdir_run[OF sample_backend_ok(1) _ v(1), of "''/''" sample_host 493] sample_backend_ok obtain b where
    b: "do_mkdir sample_host sample_backend ''/a'' 493 = Some (0, b)" "ns_ok b" "ns_files b = {}" "ns_dirs b = {''/a/'', ''/''}" by auto
  from renamed_directory_lost[OF b(2) _ v(1) _ _ v(2), of "''/''" "''/''" sample_host] b show ?thesis by auto
qed

end
