(* ===== verification/Thread_Pool.thy ===== *)
theory Thread_Pool
  imports Prelude "HOL-Library.Multiset"
begin

text \<open>
  The pool of worker threads (\<open>src/src/thread-pool.h\<close>) and its queue
  (\<open>src/src/thread-pool-queue.h\<close>).  The methods of the queue run under its mutex and are
  functions on its state; waiting on the condition variable is a state of a worker.  The
  threads interleave between critical sections, as steps of a relation.  A task is a value;
  running it is one step, and tasks do not throw.
\<close>

section \<open>The queue\<close>

record 't queue =
  m_queue :: "'t list"
  m_valid :: bool

definition new_queue :: "'t queue" where
  "new_queue = \<lparr>m_queue = [], m_valid = True\<rparr>"

definition try_pop :: "'t queue \<Rightarrow> 't option \<times> 't queue" where
  "try_pop q =
     (if m_queue q = [] \<or> \<not> m_valid q then (None, q)
      else (Some (hd (m_queue q)), q\<lparr>m_queue := tl (m_queue q)\<rparr>))"

text \<open>
  The outcome of \<open>wait_pop\<close> when a thread holds the mutex: its predicate is false and it goes
  to sleep, it returns false, or it returns a value.
\<close>

datatype 't pop_result = Blocks | Fails | Pops 't

definition wait_pop :: "'t queue \<Rightarrow> 't pop_result \<times> 't queue" where
  "wait_pop q =
     (if \<not> (m_queue q \<noteq> [] \<or> \<not> m_valid q) then (Blocks, q)
      else if \<not> m_valid q then (Fails, q)
      else (Pops (hd (m_queue q)), q\<lparr>m_queue := tl (m_queue q)\<rparr>))"

definition push :: "'t queue \<Rightarrow> 't \<Rightarrow> 't queue" where
  "push q v = q\<lparr>m_queue := m_queue q @ [v]\<rparr>"

definition queue_empty :: "'t queue \<Rightarrow> bool" where
  "queue_empty q \<longleftrightarrow> m_queue q = []"

definition clear_queue :: "'t queue \<Rightarrow> 't queue" where
  "clear_queue q = q\<lparr>m_queue := []\<rparr>"

definition invalidate :: "'t queue \<Rightarrow> 't queue" where
  "invalidate q = q\<lparr>m_valid := False\<rparr>"

definition is_valid :: "'t queue \<Rightarrow> bool" where
  "is_valid q = m_valid q"

text \<open>What the workers rely on: values leave the queue in the order in which they entered it.\<close>

locale fifo =
  fixes enq :: "'q \<Rightarrow> 't \<Rightarrow> 'q"
    and deq :: "'q \<Rightarrow> 't pop_result \<times> 'q"
    and items :: "'q \<Rightarrow> 't list"
    and usable :: "'q \<Rightarrow> bool"
  assumes enq_items: "items (enq q t) = items q @ [t]"
    and deq_pops: "deq q = (Pops t, q') \<Longrightarrow> items q = t # items q'"
    and deq_keeps: "deq q = (r, q') \<Longrightarrow> r = Blocks \<or> r = Fails \<Longrightarrow> items q' = items q"
    and deq_usable: "deq q = (r, q') \<Longrightarrow> usable q' = usable q \<and> (r = Blocks \<longleftrightarrow> items q = [] \<and> usable q)"
begin

lemma taken: "deq q = (r, q') \<Longrightarrow> items q = (case r of Pops t \<Rightarrow> [t] | _ \<Rightarrow> []) @ items q'"
  using deq_pops deq_keeps by (cases r) auto

lemma awake: "items q \<noteq> [] \<Longrightarrow> deq q = (r, q') \<Longrightarrow> r \<noteq> Blocks"
  using deq_usable by blast

end

interpretation wq: fifo push wait_pop m_queue m_valid
  by unfold_locales (auto simp: push_def wait_pop_def split: if_splits)

section \<open>The pool\<close>

text \<open>
  Where a worker is: before the test of \<open>m_done\<close>, before the mutex of the queue, asleep on the
  condition variable, woken and before the mutex again, running a task, or at its end.
\<close>

datatype 't worker = Testing | Entering | Waiting | Woken | Running 't | Finished

record 't thread_pool =
  m_done :: bool
  m_work_queue :: "'t queue"
  m_threads :: "'t worker list"

definition new_thread_pool :: "nat \<Rightarrow> 't thread_pool" where
  "new_thread_pool num_threads = \<lparr>m_done = False, m_work_queue = new_queue, m_threads = replicate num_threads Testing\<rparr>"

definition default_threads :: "32 word \<Rightarrow> 32 word" where
  "default_threads hardware_concurrency = max hardware_concurrency 2 - 1"

definition notify_all :: "'t worker list \<Rightarrow> 't worker list" where
  "notify_all ws = map (\<lambda>w. if w = Waiting then Woken else w) ws"

text \<open>One worker runs to its next critical section; a task that it takes is reported.\<close>

definition worker_step :: "'t thread_pool \<Rightarrow> nat \<Rightarrow> 't option \<times> 't thread_pool" where
  "worker_step p i =
     (let ws = m_threads p in
      case ws ! i of
        Testing \<Rightarrow> (None, p\<lparr>m_threads := ws[i := (if m_done p then Finished else Entering)]\<rparr>)
      | Running t \<Rightarrow> (None, p\<lparr>m_threads := ws[i := Testing]\<rparr>)
      | Waiting \<Rightarrow> (None, p)
      | Finished \<Rightarrow> (None, p)
      | _ \<Rightarrow> (case wait_pop (m_work_queue p) of
          (Blocks, q) \<Rightarrow> (None, p\<lparr>m_threads := ws[i := Waiting], m_work_queue := q\<rparr>)
        | (Fails, q) \<Rightarrow> (None, p\<lparr>m_threads := ws[i := Testing], m_work_queue := q\<rparr>)
        | (Pops t, q) \<Rightarrow> (Some t, p\<lparr>m_threads := ws[i := Running t], m_work_queue := q\<rparr>)))"

text \<open>
  \<open>submit_and_forget\<close> and \<open>submit_and_track\<close> push a task, and the notification wakes one waiting
  worker, here the one that is passed, or none.
\<close>

definition submit :: "'t thread_pool \<Rightarrow> 't \<Rightarrow> nat option \<Rightarrow> 't thread_pool" where
  "submit p t wake =
     p\<lparr>m_work_queue := push (m_work_queue p) t, m_threads := (case wake of None \<Rightarrow> m_threads p | Some i \<Rightarrow> (m_threads p)[i := Woken])\<rparr>"

definition wakes :: "'t worker list \<Rightarrow> nat option \<Rightarrow> bool" where
  "wakes ws wake = (case wake of None \<Rightarrow> Waiting \<notin> set ws | Some i \<Rightarrow> i < length ws \<and> ws ! i = Waiting)"

text \<open>\<open>destroy\<close>, in its two critical parts; it then joins the workers.\<close>

definition set_done :: "'t thread_pool \<Rightarrow> 't thread_pool" where
  "set_done p = p\<lparr>m_done := True\<rparr>"

definition invalidate_all :: "'t thread_pool \<Rightarrow> 't thread_pool" where
  "invalidate_all p = p\<lparr>m_work_queue := invalidate (m_work_queue p), m_threads := notify_all (m_threads p)\<rparr>"

definition joined :: "'t thread_pool \<Rightarrow> bool" where
  "joined p \<longleftrightarrow> (\<forall>w \<in> set (m_threads p). w = Finished)"

section \<open>Interleavings\<close>

text \<open>
  The states that are reachable with \<open>n\<close> workers, with the tasks submitted and the tasks taken
  so far, in order.
\<close>

inductive pool_reach :: "nat \<Rightarrow> 't thread_pool \<Rightarrow> 't list \<Rightarrow> 't list \<Rightarrow> bool" for n where
  start: "pool_reach n (new_thread_pool n) [] []"
| submitted: "pool_reach n p sub tak \<Longrightarrow> wakes (m_threads p) wake \<Longrightarrow> pool_reach n (submit p t wake) (sub @ [t]) tak"
| works: "pool_reach n p sub tak \<Longrightarrow> i < n \<Longrightarrow> worker_step p i = (r, p') \<Longrightarrow> pool_reach n p' sub (tak @ (case r of None \<Rightarrow> [] | Some t \<Rightarrow> [t]))"
| spurious: "pool_reach n p sub tak \<Longrightarrow> i < n \<Longrightarrow> m_threads p ! i = Waiting \<Longrightarrow> pool_reach n (p\<lparr>m_threads := (m_threads p)[i := Woken]\<rparr>) sub tak"
| stopping: "pool_reach n p sub tak \<Longrightarrow> pool_reach n (set_done p) sub tak"
| stopped: "pool_reach n p sub tak \<Longrightarrow> m_done p \<Longrightarrow> pool_reach n (invalidate_all p) sub tak"

definition woken :: "'t worker list \<Rightarrow> nat" where
  "woken ws = length (filter (\<lambda>w. w = Woken) ws)"

definition pool_inv :: "nat \<Rightarrow> 't thread_pool \<Rightarrow> bool" where
  "pool_inv n p \<longleftrightarrow> length (m_threads p) = n \<and> (Finished \<in> set (m_threads p) \<longrightarrow> m_done p) \<and> (\<not> m_valid (m_work_queue p) \<longrightarrow> m_done p) \<and>
     (Waiting \<in> set (m_threads p) \<longrightarrow> m_valid (m_work_queue p) \<and> length (m_queue (m_work_queue p)) \<le> woken (m_threads p))"

lemma woken_update:
  "i < length ws \<Longrightarrow> woken (ws[i := w]) = woken ws - (if ws ! i = Woken then 1 else 0) + (if w = Woken then 1 else 0)"
  "i < length ws \<Longrightarrow> ws ! i = Woken \<Longrightarrow> 0 < woken ws"
proof (induction ws arbitrary: i)
  case (Cons x xs)
  { case 1 then show ?case using Cons(1,2) by (cases i) (auto simp: woken_def) }
  { case 2 then show ?case using Cons(2) by (cases i) (auto simp: woken_def) }
qed auto

lemma set_updateD: "x \<in> set (ws[i := w]) \<Longrightarrow> x = w \<or> x \<in> set ws"
  using set_update_subset_insert by fast

lemmas pool_simps = pool_inv_def submit_def push_def set_done_def invalidate_all_def invalidate_def

lemma pool_step_inv:
  assumes "pool_inv n p" "i < n" "worker_step p i = (r, p')"
  shows "pool_inv n p'"
proof -
  let ?ws = "m_threads p"
  have i: "i < length ?ws" using assms(1,2) by (simp add: pool_inv_def)
  note W = woken_update(1)[OF i] woken_update(2)[OF i]
  show ?thesis
  proof (cases "?ws ! i")
    case Entering
    then show ?thesis using assms i W
      by (auto simp: worker_step_def Let_def pool_inv_def wait_pop_def split: if_splits dest!: set_updateD)
  next
    case Woken
    then show ?thesis using assms i W
      by (auto simp: worker_step_def Let_def pool_inv_def wait_pop_def split: if_splits dest!: set_updateD)
  qed (use assms i W in \<open>auto simp: worker_step_def Let_def pool_inv_def split: if_splits dest!: set_updateD\<close>)
qed

lemma submit_inv:
  assumes "pool_inv n p" "wakes (m_threads p) wake"
  shows "pool_inv n (submit p t wake)"
proof (cases wake)
  case None
  then show ?thesis using assms by (auto simp: pool_simps wakes_def)
next
  case (Some i)
  then have i: "i < length (m_threads p)" "m_threads p ! i = Waiting" using assms(2) by (auto simp: wakes_def)
  then have "Waiting \<in> set (m_threads p)" by (metis nth_mem)
  then show ?thesis using assms(1) i Some woken_update(1)[OF i(1), of Woken] by (auto simp: pool_simps dest!: set_updateD)
qed

lemma pool_reach_inv: "pool_reach n p sub tak \<Longrightarrow> pool_inv n p"
proof (induction rule: pool_reach.induct)
  case (submitted p sub tak wake t)
  show ?case by (rule submit_inv[OF submitted(3,2)])
next
  case (works p sub tak i r p')
  show ?case by (rule pool_step_inv[OF works(4,2,3)])
next
  case (spurious p sub tak i)
  then have i: "i < length (m_threads p)" by (simp add: pool_inv_def)
  then show ?case using spurious(3,4) woken_update(1)[OF i, of Woken] by (auto simp: pool_inv_def dest!: set_updateD)
qed (auto simp: pool_simps new_thread_pool_def new_queue_def notify_all_def)

lemma step_fifo:
  "worker_step p i = (r, p') \<Longrightarrow> m_queue (m_work_queue p) = (case r of None \<Rightarrow> [] | Some t \<Rightarrow> [t]) @ m_queue (m_work_queue p')"
  using wq.taken[of "m_work_queue p"]
  by (auto simp: worker_step_def Let_def split: worker.splits prod.splits pop_result.splits if_splits)

lemma reach_fifo: "pool_reach n p sub tak \<Longrightarrow> sub = tak @ m_queue (m_work_queue p)"
proof (induction rule: pool_reach.induct)
  case (works p sub tak i r p')
  then show ?case using step_fifo[OF works(3)] by simp
qed (simp_all add: submit_def wq.enq_items set_done_def invalidate_all_def invalidate_def new_thread_pool_def new_queue_def)

section \<open>Stopping\<close>

fun stop_next :: "'t worker \<Rightarrow> 't worker" where
  "stop_next Testing = Finished"
| "stop_next Finished = Finished"
| "stop_next Waiting = Waiting"
| "stop_next w = Testing"

lemma stop_step:
  assumes "m_done p" "\<not> m_valid (m_work_queue p)" "i < length (m_threads p)"
  shows "worker_step p i = (None, p\<lparr>m_threads := (m_threads p)[i := stop_next (m_threads p ! i)]\<rparr>)"
  using assms list_update_id[of "m_threads p" i] by (cases "m_threads p ! i") (auto simp: worker_step_def Let_def wait_pop_def)

definition run_workers :: "'t thread_pool \<Rightarrow> nat list \<Rightarrow> 't thread_pool" where
  "run_workers = foldl (\<lambda>p i. snd (worker_step p i))"

lemma stop_run:
  assumes "m_done p" "\<not> m_valid (m_work_queue p)" "\<forall>i \<in> set sch. i < length (m_threads p)"
  shows "m_work_queue (run_workers p sch) = m_work_queue p \<and> length (m_threads (run_workers p sch)) = length (m_threads p) \<and>
    (\<forall>k < length (m_threads p). m_threads (run_workers p sch) ! k = (stop_next ^^ count_list sch k) (m_threads p ! k))"
  using assms
proof (induction sch arbitrary: p)
  case (Cons i sch)
  let ?p = "p\<lparr>m_threads := (m_threads p)[i := stop_next (m_threads p ! i)]\<rparr>"
  have "snd (worker_step p i) = ?p" using stop_step[of p i] Cons(2-4) by simp
  then have "run_workers p (i # sch) = run_workers ?p sch" by (simp add: run_workers_def)
  then show ?case using Cons(1)[of ?p] Cons(2-4) by (auto simp: nth_list_update funpow_swap1)
qed (simp add: run_workers_def)

lemma stop_next_ends: "2 \<le> k \<Longrightarrow> w \<noteq> Waiting \<Longrightarrow> (stop_next ^^ k) w = Finished"
proof -
  have f: "(stop_next ^^ d) Finished = Finished" for d by (induction d) auto
  assume k: "2 \<le> k" "w \<noteq> Waiting"
  then obtain d where d: "k = Suc (Suc d)" by (metis One_nat_def Suc_1 Suc_le_D Suc_le_mono)
  have "(stop_next ^^ k) w = (stop_next ^^ d) (stop_next (stop_next w))" unfolding d by (simp only: funpow_Suc_right comp_apply)
  moreover have "stop_next (stop_next w) = Finished" using k(2) by (cases w) auto
  ultimately show ?thesis using f by simp
qed

section \<open>Properties\<close>

text \<open>
  C17: The workers take the tasks in the order in which they were submitted, each of them once:
  in every reachable state the tasks submitted are the tasks taken followed by the queue.
  No wake-up is lost: while a task is queued and the pool is not stopped, either no worker is
  asleep, or at least as many are woken as there are tasks in the queue.
\<close>

theorem pool_serves_tasks:
  assumes "pool_reach n p sub tak"
  shows "sub = tak @ m_queue (m_work_queue p) \<and>
    (Waiting \<in> set (m_threads p) \<longrightarrow> length (m_queue (m_work_queue p)) \<le> length (filter (\<lambda>w. w = Woken) (m_threads p))) \<and>
    (0 < n \<and> m_queue (m_work_queue p) \<noteq> [] \<and> \<not> m_done p \<longrightarrow> (\<exists>i < n. m_threads p ! i \<notin> {Waiting, Finished}))"
proof (intro conjI impI)
  have I: "pool_inv n p" by (rule pool_reach_inv[OF assms])
  show "sub = tak @ m_queue (m_work_queue p)" by (rule reach_fifo[OF assms])
  show w: "length (m_queue (m_work_queue p)) \<le> length (filter (\<lambda>w. w = Woken) (m_threads p))" if "Waiting \<in> set (m_threads p)"
    using that I by (simp add: pool_inv_def woken_def)
  show "\<exists>i < n. m_threads p ! i \<notin> {Waiting, Finished}" if a: "0 < n \<and> m_queue (m_work_queue p) \<noteq> [] \<and> \<not> m_done p"
  proof (rule ccontr)
    assume c: "\<not> (\<exists>i < n. m_threads p ! i \<notin> {Waiting, Finished})"
    have l: "length (m_threads p) = n" "Finished \<notin> set (m_threads p)" using I a by (auto simp: pool_inv_def)
    then have all: "\<forall>x \<in> set (m_threads p). x = Waiting" using c by (auto simp: in_set_conv_nth)
    then have "Waiting \<in> set (m_threads p)" using a l(1) by (cases "m_threads p") auto
    from w[OF this] have "filter (\<lambda>w. w = Woken) (m_threads p) \<noteq> []" using a by auto
    then show False using all by (auto simp: filter_empty_conv)
  qed
qed

text \<open>
  C18: Stopping ends: once the queue is invalid, every schedule that lets each worker run twice
  brings all of them to their end, so that \<open>join\<close> returns.  The tasks that are still queued
  are not run.
\<close>

theorem pool_stops:
  assumes "pool_reach n p sub tak" "m_done p" "\<forall>i \<in> set sch. i < n" "\<forall>i < n. 2 \<le> count_list sch i"
  shows "joined (run_workers (invalidate_all p) sch) \<and> m_queue (m_work_queue (run_workers (invalidate_all p) sch)) = m_queue (m_work_queue p)"
proof -
  let ?p = "invalidate_all p"
  have l: "length (m_threads ?p) = n" "m_done ?p" "\<not> m_valid (m_work_queue ?p)" "m_queue (m_work_queue ?p) = m_queue (m_work_queue p)"
    using pool_reach_inv[OF assms(1)] assms(2) by (auto simp: pool_simps notify_all_def)
  have w: "m_threads ?p ! k \<noteq> Waiting" if "k < n" for k using l(1) that by (auto simp: invalidate_all_def notify_all_def)
  note r = stop_run[OF l(2,3), of sch, unfolded l(1), OF assms(3)]
  then have "m_threads (run_workers ?p sch) ! k = Finished" if "k < n" for k using that assms(4) stop_next_ends[OF _ w[OF that]] by auto
  then have "joined (run_workers ?p sch)" using r by (auto simp: joined_def in_set_conv_nth)
  then show ?thesis using r l(4) by simp
qed

lemma sample_reach: "pool_reach 2 (submit (new_thread_pool 2) ''load'' None) [''load''] []"
  using pool_reach.submitted[OF pool_reach.start, of 2 None "''load''"] by (simp add: wakes_def new_thread_pool_def)

theorem pool_serves_tasks_witness:
  "[''load''] = [] @ m_queue (m_work_queue (submit (new_thread_pool 2) ''load'' None)) \<and>
   (\<exists>i < 2. m_threads (submit (new_thread_pool 2) ''load'' None) ! i \<notin> {Waiting, Finished})"
  using pool_serves_tasks[OF sample_reach] by (auto simp: submit_def push_def new_thread_pool_def)

theorem pool_stops_witness:
  "joined (run_workers (invalidate_all (set_done (submit (new_thread_pool 2) ''load'' None))) [0, 1, 1, 0]) \<and>
   m_queue (m_work_queue (run_workers (invalidate_all (set_done (submit (new_thread_pool 2) ''load'' None))) [0, 1, 1, 0])) = [''load'']"
  using pool_stops[OF pool_reach.stopping[OF sample_reach], of "[0, 1, 1, 0]"]
  by (simp add: submit_def push_def new_thread_pool_def new_queue_def set_done_def less_2_cases_iff)

end
