(* ===== verification/Efs_Ops.thy ===== *)
theory Efs_Ops
  imports Nvml_Names
begin

unbundle bit_operations_syntax

text \<open>
  The operations that the FUSE library calls, \<open>src/src/efs-ng.cpp\<close>, and the records of open
  files, \<open>src/src/metadata/files.cpp\<close>, as they are built for FUSE 2.  The operations work on the
  first back end of the context; \<open>env i\<close> is what the file object \<open>i\<close> of that back end gets from
  the system, such as the pools in its directory.  The private data that FUSE hands to every
  operation is the record \<open>efs_context\<close>, and the global variable \<open>fastlink\<close> is a part of it.
\<close>

section \<open>Open files\<close>

record File =
  fl_inode :: size_t
  fl_fd :: int
  fl_mode :: nat
  fl_ptr :: "nat option"

definition new_File :: "size_t \<Rightarrow> int \<Rightarrow> nat \<Rightarrow> File" where
  "new_File inode fd mode = \<lparr>fl_inode = inode, fl_fd = fd, fl_mode = mode, fl_ptr = None\<rparr>"

definition set_ptr :: "File \<Rightarrow> nat option \<Rightarrow> File" where
  "set_ptr r p = r\<lparr>fl_ptr := p\<rparr>"

section \<open>Context\<close>

text \<open>The back ends are ordered by their names, and \<open>begin()\<close> is the first of them.\<close>

record 'w efs_context =
  cx_backends :: "(string \<times> backend) list"
  cx_open :: "nat \<rightharpoonup> File"
  cx_fresh :: nat
  cx_fastlink :: "(string \<times> string) list"
  cx_machine :: "'w machine"

definition first_backend :: "'w efs_context \<Rightarrow> backend option" where
  "first_backend cx = (case cx_backends cx of [] \<Rightarrow> None | (_, b) # _ \<Rightarrow> Some b)"

definition put_backend :: "'w efs_context \<Rightarrow> backend \<Rightarrow> 'w efs_context" where
  "put_backend cx b = cx\<lparr>cx_backends := (case cx_backends cx of [] \<Rightarrow> [] | (n, _) # bs \<Rightarrow> (n, b) # bs)\<rparr>"

definition resolve :: "'w efs_context \<Rightarrow> string \<Rightarrow> string" where
  "resolve cx pathname = (case map_of (cx_fastlink cx) pathname of None \<Rightarrow> pathname | Some p \<Rightarrow> p)"

definition EOPNOTSUPP :: int where "EOPNOTSUPP = 95"
definition O_RDONLY :: nat where "O_RDONLY = 0"
definition O_WRONLY :: nat where "O_WRONLY = 1"
definition O_RDWR :: nat where "O_RDWR = 2"

definition to_int :: "int \<Rightarrow> int" where
  "to_int n = signed_take_bit 31 n"

text \<open>The file object behind a handle, and its update.\<close>

definition handle :: "'w efs_context \<Rightarrow> nat \<Rightarrow> (backend \<times> nat \<times> nvml_file) option" where
  "handle cx fh = do { r \<leftarrow> cx_open cx fh; i \<leftarrow> fl_ptr r; b \<leftarrow> first_backend cx; f \<leftarrow> b_objs b i; Some (b, i, f) }"

definition put_object :: "'w efs_context \<Rightarrow> nat \<Rightarrow> nvml_file \<Rightarrow> 'w efs_context" where
  "put_object cx i f = (case first_backend cx of None \<Rightarrow> cx | Some b \<Rightarrow> put_backend cx (b\<lparr>b_objs := (b_objs b)(i \<mapsto> f)\<rparr>))"

section \<open>Names\<close>

definition efsng_getattr :: "'w efs_context \<Rightarrow> string \<Rightarrow> (int \<times> stat option) option" where
  "efsng_getattr cx pathname = map_option (\<lambda>b. do_stat b (resolve cx pathname)) (first_backend cx)"

definition efsng_access :: "'w efs_context \<Rightarrow> string \<Rightarrow> int option" where
  "efsng_access cx pathname = do {
     b \<leftarrow> first_backend cx;
     let err = fst (do_stat b (resolve cx pathname));
     Some (if err \<noteq> 0 then - ENOENT else err) }"

definition efsng_mkdir :: "'w host \<Rightarrow> 'w efs_context \<Rightarrow> string \<Rightarrow> nat \<Rightarrow> (int \<times> 'w efs_context) option" where
  "efsng_mkdir h cx pathname mode = do { b \<leftarrow> first_backend cx; (r, b) \<leftarrow> do_mkdir h b pathname mode; Some (r, put_backend cx b) }"

text \<open>
  With an entry of the link map, \<open>path\<close> points into the string of that entry, which is erased
  before \<open>path\<close> is used.
\<close>

definition efsng_unlink :: "'w host \<Rightarrow> 'w efs_context \<Rightarrow> string \<Rightarrow> (int \<times> 'w efs_context) option" where
  "efsng_unlink h cx pathname = (if map_of (cx_fastlink cx) pathname \<noteq> None then None
     else do {
       b \<leftarrow> first_backend cx;
       let (r, b) = do_unlink h b pathname;
       Some (r, put_backend cx b) })"

definition efsng_rmdir :: "'w host \<Rightarrow> 'w efs_context \<Rightarrow> string \<Rightarrow> (int \<times> 'w efs_context) option" where
  "efsng_rmdir h cx pathname = do { b \<leftarrow> first_backend cx; (r, b) \<leftarrow> do_rmdir h b (resolve cx pathname); Some (r, put_backend cx b) }"

text \<open>FUSE passes the contents of the link first and its name second.\<close>

definition efsng_symlink :: "'w efs_context \<Rightarrow> string \<Rightarrow> string \<Rightarrow> int \<times> 'w efs_context" where
  "efsng_symlink cx oldpath newpath = (0, cx\<lparr>cx_fastlink := AList.update oldpath newpath (cx_fastlink cx)\<rparr>)"

definition efsng_rename :: "'w host \<Rightarrow> 'w efs_context \<Rightarrow> string \<Rightarrow> string \<Rightarrow> (int \<times> 'w efs_context) option" where
  "efsng_rename h cx oldpath newpath = do { b \<leftarrow> first_backend cx; (r, b) \<leftarrow> do_rename h b oldpath newpath; Some (r, put_backend cx b) }"

definition efsng_chmod :: "'w host \<Rightarrow> 'w efs_context \<Rightarrow> string \<Rightarrow> nat \<Rightarrow> (int \<times> 'w efs_context) option" where
  "efsng_chmod h cx pathname mode = do { b \<leftarrow> first_backend cx; (r, b) \<leftarrow> do_chmod h b pathname mode; Some (r, put_backend cx b) }"

definition efsng_chown :: "'w host \<Rightarrow> 'w efs_context \<Rightarrow> string \<Rightarrow> nat \<Rightarrow> nat \<Rightarrow> (int \<times> 'w efs_context) option" where
  "efsng_chown h cx pathname owner grp = do { b \<leftarrow> first_backend cx; (r, b) \<leftarrow> do_chown h b pathname owner grp; Some (r, put_backend cx b) }"

definition efsng_utimens :: "'w efs_context \<Rightarrow> string \<Rightarrow> int \<Rightarrow> int \<Rightarrow> (int \<times> 'w efs_context) option" where
  "efsng_utimens cx pathname atime mtime = do {
     b \<leftarrow> first_backend cx;
     case find_file b (resolve cx pathname) of
       None \<Rightarrow> Some (- ENOENT, cx)
     | Some i \<Rightarrow> do { f \<leftarrow> b_objs b i; Some (0, put_object cx i (save_attributes f ((file_stat f)\<lparr>st_atime := atime, st_mtime := mtime\<rparr>))) } }"

definition efsng_readdir :: "'w efs_context \<Rightarrow> string \<Rightarrow> string list option" where
  "efsng_readdir cx pathname = map_option (\<lambda>b. do_readdir b (resolve cx pathname)) (first_backend cx)"

section \<open>Opening and closing\<close>

definition open_flags :: "nat \<Rightarrow> nat" where
  "open_flags fl = (if fl AND O_RDONLY \<noteq> 0 then O_RDONLY else 0) OR (if fl AND O_WRONLY \<noteq> 0 then O_WRONLY else 0) OR (if fl AND O_RDWR \<noteq> 0 then O_RDWR else 0)"

text \<open>A new record of an open file, whose address becomes the handle.\<close>

definition new_record :: "'w efs_context \<Rightarrow> size_t \<Rightarrow> nat \<Rightarrow> nat \<Rightarrow> nat \<times> 'w efs_context" where
  "new_record cx inode flags i =
     (cx_fresh cx, cx\<lparr>cx_open := (cx_open cx)(cx_fresh cx \<mapsto> set_ptr (new_File inode 42 flags) (Some i)), cx_fresh := Suc (cx_fresh cx)\<rparr>)"

definition efsng_open :: "'w efs_context \<Rightarrow> string \<Rightarrow> nat \<Rightarrow> (int \<times> nat option \<times> 'w efs_context) option" where
  "efsng_open cx pathname flags = do {
     b \<leftarrow> first_backend cx;
     case find_file b (resolve cx pathname) of
       None \<Rightarrow> Some (- ENOENT, None, cx)
     | Some i \<Rightarrow> do {
         f \<leftarrow> b_objs b i;
         let (fh, cx) = new_record cx (st_ino (file_stat f)) (open_flags flags) i;
         Some (0, Some fh, cx) } }"

text \<open>If the file is not created, its pointer is null and \<open>stat\<close> is called on it.\<close>

definition efsng_create :: "'w host \<Rightarrow> 'w efs_context \<Rightarrow> string \<Rightarrow> nat \<Rightarrow> nat \<Rightarrow> (int \<times> nat \<times> 'w efs_context) option" where
  "efsng_create h cx pathname mode flags = do {
     b \<leftarrow> first_backend cx;
     let (r, p, b) = do_create h b pathname mode;
     let cx = put_backend cx b;
     i \<leftarrow> p;
     f \<leftarrow> b_objs b i;
     let (fh, cx) = new_record cx (st_ino (file_stat f)) (open_flags flags) i;
     Some (r, fh, cx) }"

definition efsng_release :: "'w efs_context \<Rightarrow> nat \<Rightarrow> (int \<times> 'w efs_context) option" where
  "efsng_release cx fh = do { _ \<leftarrow> cx_open cx fh; Some (0, cx\<lparr>cx_open := (cx_open cx)(fh := None)\<rparr>) }"

section \<open>Data\<close>

definition efsng_fgetattr :: "'w efs_context \<Rightarrow> nat \<Rightarrow> (int \<times> stat) option" where
  "efsng_fgetattr cx fh = map_option (\<lambda>(b, i, f). (0, file_stat f)) (handle cx fh)"

definition efsng_write_buf :: "(nat \<Rightarrow> 'w nvml_env) \<Rightarrow> 'w efs_context \<Rightarrow> nat \<Rightarrow> fuse_bufvec \<Rightarrow> off_t \<Rightarrow> (stop + (int \<times> fuse_bufvec \<times> 'w efs_context)) option" where
  "efsng_write_buf env cx fh buf offset = do {
     (b, i, f) \<leftarrow> handle cx fh;
     let sz = of_nat (fuse_buf_size buf);
     ebind (put_data (env i) f (cx_machine cx) offset sz buf) (\<lambda>(rv, buf, f, s).
       Some (Inr (to_int rv, buf, (put_object cx i f)\<lparr>cx_machine := s\<rparr>))) }"

definition bufvec_init :: "nat \<Rightarrow> fuse_bufvec" where
  "bufvec_init sz = \<lparr>bv_idx = 0, bv_off = 0,
     bv_buf = [\<lparr>fb_size = sz, fb_is_fd = False, fb_fd_seek = False, fb_fd_retry = False, fb_mem = None, fb_fd = -1, fb_pos = 0\<rparr>]\<rparr>"

text \<open>\<open>dst\<close> says whether the vector itself can be allocated.\<close>

definition efsng_read_buf ::
  "(nat \<Rightarrow> 'w nvml_env) \<Rightarrow> bool \<Rightarrow> 'w efs_context \<Rightarrow> nat \<Rightarrow> size_t \<Rightarrow> off_t \<Rightarrow> (stop + (int \<times> fuse_bufvec option \<times> 'w efs_context)) option" where
  "efsng_read_buf env dst cx fh sz offset = do {
     (b, i, f) \<leftarrow> handle cx fh;
     if \<not> dst then Some (Inr (- ENOMEM, None, cx))
     else ebind (get_data (env i) f (cx_machine cx) offset sz (bufvec_init (unat sz))) (\<lambda>(rv, buf, f, s).
       Some (Inr (to_int rv, Some buf, (put_object cx i f)\<lparr>cx_machine := s\<rparr>))) }"

definition efsng_truncate :: "(nat \<Rightarrow> 'w nvml_env) \<Rightarrow> 'w efs_context \<Rightarrow> string \<Rightarrow> off_t \<Rightarrow> (stop + (int \<times> 'w efs_context)) option" where
  "efsng_truncate env cx pathname len =
     (if len < 0 then Some (Inr (- EINVAL, cx))
      else do {
        b \<leftarrow> first_backend cx;
        case find_file b pathname of
          None \<Rightarrow> Some (Inr (- ENOENT, cx))
        | Some i \<Rightarrow> do {
            f \<leftarrow> b_objs b i;
            ebind (file_truncate (env i) f (cx_machine cx) len) (\<lambda>(f, s). Some (Inr (0, (put_object cx i f)\<lparr>cx_machine := s\<rparr>))) } })"

definition efsng_ftruncate :: "(nat \<Rightarrow> 'w nvml_env) \<Rightarrow> 'w efs_context \<Rightarrow> nat \<Rightarrow> nat \<Rightarrow> off_t \<Rightarrow> (stop + (int \<times> 'w efs_context)) option" where
  "efsng_ftruncate env cx fh flags len =
     (if flags AND O_RDONLY \<noteq> 0 then Some (Inr (- EINVAL, cx))
      else do {
        (b, i, f) \<leftarrow> handle cx fh;
        ebind (file_truncate (env i) f (cx_machine cx) len) (\<lambda>(f, s). Some (Inr (0, (put_object cx i f)\<lparr>cx_machine := s\<rparr>))) })"

definition efsng_fallocate :: "(nat \<Rightarrow> 'w nvml_env) \<Rightarrow> 'w efs_context \<Rightarrow> nat \<Rightarrow> int \<Rightarrow> off_t \<Rightarrow> off_t \<Rightarrow> (stop + (int \<times> 'w efs_context)) option" where
  "efsng_fallocate env cx fh mode offset len =
     (if mode \<noteq> 0 then Some (Inr (- EOPNOTSUPP, cx))
      else do {
        (b, i, f) \<leftarrow> handle cx fh;
        ebind (file_allocate (env i) f (cx_machine cx) offset (to_size len)) (\<lambda>(rv, f, s). Some (Inr (to_int rv, (put_object cx i f)\<lparr>cx_machine := s\<rparr>))) })"

section \<open>Operations on the underlying system\<close>

text \<open>
  Reading into plain memory goes to the descriptor of the record and not to the file object.  The
  buffer is the list of the bytes that \<open>pread\<close> stores in it.
\<close>

definition efsng_read :: "'w syscalls \<Rightarrow> 'w efs_context \<Rightarrow> nat \<Rightarrow> size_t \<Rightarrow> off_t \<Rightarrow> (int \<times> byte list \<times> 'w efs_context) option" where
  "efsng_read sc cx fh count offset = do {
     r \<leftarrow> cx_open cx fh;
     let (res, w) = sc_read sc (mc_world (cx_machine cx)) (fl_fd r) (unat count) (Some offset);
     let cx = cx\<lparr>cx_machine := (cx_machine cx)\<lparr>mc_world := w\<rparr>\<rparr>;
     Some (case res of Inl errno \<Rightarrow> (- errno, [], cx) | Inr bs \<Rightarrow> (to_int (int (length bs)), bs, cx)) }"

text \<open>\<open>statvfs\<close> is the call with the credentials of the user, which gives the error or the statistics.\<close>

definition efsng_statfs :: "(string \<Rightarrow> int + 'v) \<Rightarrow> string \<Rightarrow> int \<times> 'v option" where
  "efsng_statfs statvfs pathname = (case statvfs pathname of Inl errno \<Rightarrow> (- errno, None) | Inr buf \<Rightarrow> (0, Some buf))"

section \<open>Operations without effect\<close>

definition efsng_readlink :: int where "efsng_readlink = - EOPNOTSUPP"
definition efsng_mknod :: int where "efsng_mknod = - EOPNOTSUPP"
definition efsng_link :: int where "efsng_link = - EOPNOTSUPP"
definition efsng_flock :: int where "efsng_flock = - EOPNOTSUPP"
definition efsng_bmap :: int where "efsng_bmap = - EOPNOTSUPP"
definition efsng_ioctl :: int where "efsng_ioctl = - EOPNOTSUPP"
definition efsng_poll :: int where "efsng_poll = - EOPNOTSUPP"
definition efsng_flush :: int where "efsng_flush = 0"
definition efsng_fsync :: int where "efsng_fsync = 0"
definition efsng_opendir :: int where "efsng_opendir = 0"
definition efsng_releasedir :: int where "efsng_releasedir = 0"
definition efsng_fsyncdir :: int where "efsng_fsyncdir = 0"
definition efsng_write :: int where "efsng_write = 0"
definition efsng_setxattr :: int where "efsng_setxattr = - EOPNOTSUPP"
definition efsng_getxattr :: int where "efsng_getxattr = - EOPNOTSUPP"
definition efsng_listxattr :: int where "efsng_listxattr = - EOPNOTSUPP"
definition efsng_removexattr :: int where "efsng_removexattr = 0"
definition efsng_lock :: int where "efsng_lock = - EOPNOTSUPP"

text \<open>Every handle that \<open>open\<close> returns has the same descriptor, which is not one of the file.\<close>

lemma read_fixed_descriptor:
  assumes "efsng_open cx pathname flags = Some (0, Some fh, cx')" "sc_read sc (mc_world (cx_machine cx')) 42 (unat n) (Some off) = (Inr bs, w)"
  shows "efsng_read sc cx' fh n off = Some (to_int (int (length bs)), bs, cx'\<lparr>cx_machine := (cx_machine cx')\<lparr>mc_world := w\<rparr>\<rparr>)"
proof -
  from assms(1) obtain r where "cx_open cx' fh = Some r" "fl_fd r = 42"
    by (auto simp: efsng_open_def new_record_def set_ptr_def new_File_def Let_def split: Option.bind_splits option.splits)
  then show ?thesis using assms(2) by (simp add: efsng_read_def)
qed

end
