(* ===== verification/Efs_Fs.thy ===== *)
theory Efs_Fs
  imports Efs_Ops Nvml_Names_Props "HOL-Library.Countable"
begin

text \<open>
  The file system as its users see it: every file object is a sequence of bytes, a handle
  stands for an object, and the operations of \<open>Efs_Ops\<close> on handles act on these sequences.
  The invariant \<open>fs_ok\<close> has the name space, the layout of every file, pools of different files
  in different places, and handles that refer to objects.
\<close>

section \<open>State\<close>

definition envs_ok :: "(nat \<Rightarrow> 'w nvml_env) \<Rightarrow> bool" where
  "envs_ok env \<longleftrightarrow> (\<forall>i. good_env (env i)) \<and> (\<forall>i j. i \<noteq> j \<longrightarrow> range (ne_pool_addr (env i)) \<inter> range (ne_pool_addr (env j)) = {})"

definition objects :: "'w efs_context \<Rightarrow> nat \<rightharpoonup> nvml_file" where
  "objects cx = (case first_backend cx of None \<Rightarrow> (\<lambda>_. None) | Some b \<Rightarrow> b_objs b)"

definition fs_ok :: "(nat \<Rightarrow> 'w nvml_env) \<Rightarrow> (nat \<Rightarrow> addr list) \<Rightarrow> 'w efs_context \<Rightarrow> bool" where
  "fs_ok env sls cx \<longleftrightarrow> envs_ok env \<and>
     (\<exists>b. first_backend cx = Some b \<and> ns_ok b \<and> (\<forall>i \<ge> b_next b. b_objs b i = None)) \<and>
     (\<forall>i f. objects cx i = Some f \<longrightarrow> file_ok (env i) (sls i) f (mc_mem (cx_machine cx))) \<and>
     (\<forall>fh r. cx_open cx fh = Some r \<longrightarrow> fh < cx_fresh cx \<and> (\<exists>i. fl_ptr r = Some i \<and> objects cx i \<noteq> None))"

definition contents :: "(nat \<Rightarrow> addr list) \<Rightarrow> 'w efs_context \<Rightarrow> nat \<Rightarrow> byte list option" where
  "contents sls cx i = map_option (\<lambda>f. file_content (sls i) f (mc_mem (cx_machine cx))) (objects cx i)"

lemma first_put [simp]: "first_backend cx \<noteq> None \<Longrightarrow> first_backend (put_backend cx b) = Some b"
  by (auto simp: first_backend_def put_backend_def split: list.splits)

lemma first_simps [simp]:
  "first_backend (cx\<lparr>cx_machine := s\<rparr>) = first_backend cx" "first_backend (cx\<lparr>cx_open := op\<rparr>) = first_backend cx"
  "first_backend (cx\<lparr>cx_fresh := n\<rparr>) = first_backend cx" "first_backend (cx\<lparr>cx_fastlink := l\<rparr>) = first_backend cx"
  by (simp_all add: first_backend_def)

lemma put_simps [simp]:
  "cx_open (put_backend cx b) = cx_open cx" "cx_fresh (put_backend cx b) = cx_fresh cx" "cx_machine (put_backend cx b) = cx_machine cx"
  "cx_fastlink (put_backend cx b) = cx_fastlink cx" "cx_fastlink (put_object cx i f) = cx_fastlink cx"
  "cx_open (put_object cx i f) = cx_open cx" "cx_fresh (put_object cx i f) = cx_fresh cx" "cx_machine (put_object cx i f) = cx_machine cx"
  by (simp_all add: put_backend_def put_object_def split: option.splits)

lemma handleD:
  assumes "handle cx fh = Some (b, i, f)"
  shows "first_backend cx = Some b" "b_objs b i = Some f" "objects cx i = Some f"
  using assms by (auto simp: handle_def objects_def split: option.splits Option.bind_splits)

lemma first_put_object [simp]: "first_backend cx = Some b \<Longrightarrow> first_backend (put_object cx i f) = Some (b\<lparr>b_objs := (b_objs b)(i \<mapsto> f)\<rparr>)"
  by (simp add: put_object_def)

lemma ns_ok_put: "ns_ok b \<Longrightarrow> ns_ok (b\<lparr>b_objs := (b_objs b)(i \<mapsto> f)\<rparr>)"
  by (auto simp: ns_ok_def ns_files_def ns_dirs_def)

section \<open>Replacing a file object\<close>

lemma fs_put:
  assumes ok: "fs_ok env sls cx" and b: "first_backend cx = Some b" "b_objs b i = Some f0"
    and f: "file_ok (env i) sl f (mc_mem s)" and agree: "\<And>d. mc_mem (cx_machine cx) d \<noteq> None \<Longrightarrow> d \<notin> range (ne_pool_addr (env i)) \<Longrightarrow> mc_mem s d = mc_mem (cx_machine cx) d"
  shows "fs_ok env (sls(i := sl)) ((put_object cx i f)\<lparr>cx_machine := s\<rparr>)"
    "contents (sls(i := sl)) ((put_object cx i f)\<lparr>cx_machine := s\<rparr>) = (contents sls cx)(i \<mapsto> file_content sl f (mc_mem s))"
proof -
  let ?cx = "(put_object cx i f)\<lparr>cx_machine := s\<rparr>"
  have o: "objects ?cx = (objects cx)(i \<mapsto> f)" "objects cx = b_objs b" using b by (simp_all add: objects_def)
  have E: "envs_ok env" using ok by (simp add: fs_ok_def)
  have other: "file_ok (env j) (sls j) g (mc_mem s) \<and> file_content (sls j) g (mc_mem s) = file_content (sls j) g (mc_mem (cx_machine cx))"
    if j: "j \<noteq> i" "objects cx j = Some g" for j g
  proof -
    have F: "file_ok (env j) (sls j) g (mc_mem (cx_machine cx))" using ok j(2) by (auto simp: fs_ok_def)
    have "mc_mem s d = mc_mem (cx_machine cx) d" if "d \<in> set (datas (f_seg g) (sls j))" for d
    proof (rule agree)
      show "mc_mem (cx_machine cx) d \<noteq> None" by (rule file_datas(2)[OF F that])
      show "d \<notin> range (ne_pool_addr (env i))" using file_datas(1)[OF F that] E j(1) unfolding envs_ok_def by blast
    qed
    then show ?thesis using file_ok_agree[OF F] by blast
  qed
  show "contents (sls(i := sl)) ?cx = (contents sls cx)(i \<mapsto> file_content sl f (mc_mem s))"
    using other o by (auto simp: contents_def fun_eq_iff split: option.splits intro: map_option_cong)
  have "file_ok (env j) ((sls(i := sl)) j) g (mc_mem s)" if "objects ?cx j = Some g" for j g using that other[of j g] f o(1) by (cases "j = i") auto
  moreover have "\<exists>k. fl_ptr r = Some k \<and> objects ?cx k \<noteq> None" if "cx_open ?cx fh = Some r" for fh r
  proof -
    have "cx_open cx fh = Some r" using that by simp
    then obtain k where "fl_ptr r = Some k" "objects cx k \<noteq> None" using ok unfolding fs_ok_def by blast
    then show ?thesis unfolding o(1) by auto
  qed
  moreover have "\<forall>k \<ge> b_next b. ((b_objs b)(i \<mapsto> f)) k = None" "ns_ok (b\<lparr>b_objs := (b_objs b)(i \<mapsto> f)\<rparr>)" using ok b ns_ok_put by (auto simp: fs_ok_def)
  ultimately show "fs_ok env (sls(i := sl)) ?cx" using ok b unfolding fs_ok_def by auto
qed

section \<open>Data\<close>

lemma to_int_small: "0 \<le> n \<Longrightarrow> n < 2 ^ 31 \<Longrightarrow> to_int n = n"
  by (simp add: to_int_def signed_take_bit_int_eq_self_iff)

lemma write_run:
  assumes ok: "fs_ok env sls cx" and h: "handle cx fh = Some (b, i, f)" and c: "contents sls cx i = Some c"
    and r: "0 \<le> off" "off \<le> int (length c)" "off < 2 ^ 60" and n: "n = fuse_buf_size v" "0 < n" "n < 2 ^ 31"
    and v: "mem_vec (mc_mem (cx_machine cx)) (range (ne_pool_addr (env i))) v" "length (src_bytes (mc_mem (cx_machine cx)) v) = n"
  shows "\<exists>v' cx' sls'. efsng_write_buf env cx fh v off = Some (Inr (int n, v', cx')) \<and> fs_ok env sls' cx' \<and>
    contents sls' cx' = (contents sls cx)(i \<mapsto> pwrite (nat off) (src_bytes (mc_mem (cx_machine cx)) v) c) \<and> cx_open cx' = cx_open cx \<and>
    (\<forall>x. x \<notin> range (ne_pool_addr (env i)) \<longrightarrow> mc_mem (cx_machine cx') x = mc_mem (cx_machine cx) x) \<and>
    (\<exists>f'. first_backend cx' = Some (b\<lparr>b_objs := (b_objs b)(i \<mapsto> f')\<rparr>)) \<and> cx_fastlink cx' = cx_fastlink cx"
proof -
  let ?s = "cx_machine cx" let ?w = "of_nat n :: size_t"
  note H = handleD[OF h]
  have F: "file_ok (env i) (sls i) f (mc_mem ?s)" and g: "good_env (env i)" using ok H(3) by (auto simp: fs_ok_def envs_ok_def)
  have cc: "c = file_content (sls i) f (mc_mem ?s)" using c H(3) by (simp add: contents_def)
  have w: "uint ?w = int n" "unat ?w = n" using n(3) by (simp_all add: unsigned_of_nat take_bit_nat_eq_self_iff take_bit_int_eq_self_iff)
  have L: "layout (env i) (sls i) f (mc_mem ?s)" using F by (simp add: file_ok_def)
  have "int (length c) \<le> f_used_offset f" using layoutD[OF L] by (simp add: cc file_content_def)
  then have o: "off \<le> f_alloc_offset f" using r(2) layoutD(7)[OF L] by linarith
  have z: "0 < ?w" "off + uint ?w < 2 ^ 61" using n r(3) w by (simp_all add: word_less_nat_alt)
  from put_data_run[OF F g r(1) o z v(1)] v(2) w obtain v' sl' f' s' where
    p: "put_data (env i) f ?s off ?w v = Some (Inr (int n, v', f', s'))" "file_ok (env i) sl' f' (mc_mem s')"
      "file_content sl' f' (mc_mem s') = pwrite (nat off) (src_bytes (mc_mem ?s) v) c" "\<forall>x. x \<notin> range (ne_pool_addr (env i)) \<longrightarrow> mc_mem s' x = mc_mem ?s x" unfolding cc by auto
  have "efsng_write_buf env cx fh v off = Some (Inr (int n, v', (put_object cx i f')\<lparr>cx_machine := s'\<rparr>))"
    using h p(1) n to_int_small[of "int n"] by (simp add: efsng_write_buf_def)
  then show ?thesis using fs_put[OF ok H(1,2) p(2)] p(3,4) H(1) by auto
qed

lemma read_run:
  assumes ok: "fs_ok env sls cx" and h: "handle cx fh = Some (b, i, f)" and c: "contents sls cx i = Some c"
    and r: "0 \<le> off" "off < int (length c)" "0 < sz" "off + uint sz < 2 ^ 62" and len: "len = min (length c - nat off) (unat sz)"
    and al: "ne_memalign (env i) (cx_machine cx) (of_nat len) = Some a" "mc_mem (cx_machine cx) a = None"
  shows "\<exists>v' cx'. efsng_read_buf env True cx fh sz off = Some (Inr (0, Some v', cx')) \<and> fs_ok env sls cx' \<and> contents sls cx' = contents sls cx \<and> cx_open cx' = cx_open cx \<and>
    fb_mem (hd (bv_buf v')) = Some (a, 0) \<and> fb_size (hd (bv_buf v')) = len \<and> mem_read (mc_mem (cx_machine cx')) (a, 0) len = Some (extent (nat off) len c)"
proof -
  let ?s = "cx_machine cx"
  note H = handleD[OF h]
  have F: "file_ok (env i) (sls i) f (mc_mem ?s)" and g: "good_env (env i)" using ok H(3) by (auto simp: fs_ok_def envs_ok_def)
  have cc: "c = file_content (sls i) f (mc_mem ?s)" using c H(3) by (simp add: contents_def)
  have L: "layout (env i) (sls i) f (mc_mem ?s)" using F by (simp add: file_ok_def)
  have u: "int (length c) = f_used_offset f" unfolding cc using file_content_length[OF L] layoutD(6)[OF L] by simp
  have "int (length c - nat off) = f_used_offset f - off" using r(1,2) u by linarith
  moreover have "int len = min (int (length c - nat off)) (int (unat sz))" unfolding len by (rule of_nat_min)
  ultimately have l: "int len = min (f_used_offset f - off) (uint sz)" by (simp only: size_nat)
  have z: "bv_buf (bufvec_init (unat sz)) \<noteq> []" "off < f_used_offset f" using r(2) u by (simp_all add: bufvec_init_def)
  have al': "ne_memalign (env i) ?s (to_size (int len)) = Some a" using al(1) by (simp add: to_size_def)
  from get_data_frame[OF F g r(1) z(2) r(3,4) z(1) l al' al(2)] obtain v' f' s' where
    p: "get_data (env i) f ?s off sz (bufvec_init (unat sz)) = Some (Inr (0, v', f', s'))" "file_ok (env i) (sls i) f' (mc_mem s')"
      "file_content (sls i) f' (mc_mem s') = c" "fb_mem (hd (bv_buf v')) = Some (a, 0)" "fb_size (hd (bv_buf v')) = len"
      "mem_read (mc_mem s') (a, 0) len = Some (extent (nat off) len c)" "\<forall>x. x \<noteq> a \<longrightarrow> mc_mem s' x = mc_mem ?s x" unfolding cc by auto
  have q: "efsng_read_buf env True cx fh sz off = Some (Inr (0, Some v', (put_object cx i f')\<lparr>cx_machine := s'\<rparr>))"
    using h p(1) to_int_small[of 0] by (simp add: efsng_read_buf_def)
  have "mc_mem s' d = mc_mem ?s d" if "mc_mem ?s d \<noteq> None" for d using that p(7) al(2) by metis
  note P = fs_put[OF ok H(1,2) p(2) this, simplified p(3)]
  have "(contents sls cx)(i \<mapsto> c) = contents sls cx" using c by auto
  then show ?thesis using q P p(4-6) by auto
qed

section \<open>Handles\<close>

lemma objects_simps [simp]:
  "objects (cx\<lparr>cx_open := op\<rparr>) = objects cx" "objects (cx\<lparr>cx_fresh := n\<rparr>) = objects cx" "objects (cx\<lparr>cx_machine := s\<rparr>) = objects cx"
  by (simp_all add: objects_def)

lemma new_record_run:
  assumes "fs_ok env sls cx" "first_backend cx = Some b" "b_objs b i = Some f" "new_record cx ino fl i = (fh, cx')"
  shows "fs_ok env sls cx'" "contents sls cx' = contents sls cx" "handle cx' fh = Some (b, i, f)" "first_backend cx' = Some b" "cx_machine cx' = cx_machine cx"
    "cx_fastlink cx' = cx_fastlink cx"
proof -
  have c: "fh = cx_fresh cx" "cx' = cx\<lparr>cx_open := (cx_open cx)(cx_fresh cx \<mapsto> set_ptr (new_File ino 42 fl) (Some i)), cx_fresh := Suc (cx_fresh cx)\<rparr>"
    using assms(4) by (auto simp: new_record_def)
  have o: "objects cx i = Some f" "objects cx' = objects cx" using assms(2,3) c(2) by (simp_all add: objects_def)
  have "r' = set_ptr (new_File ino 42 fl) (Some i) \<and> fh' = cx_fresh cx \<or> cx_open cx fh' = Some r'" if "cx_open cx' fh' = Some r'" for fh' r'
    using that c(2) by (auto split: if_splits)
  then have "\<forall>fh' r'. cx_open cx' fh' = Some r' \<longrightarrow> fh' < cx_fresh cx' \<and> (\<exists>k. fl_ptr r' = Some k \<and> objects cx' k \<noteq> None)"
    using assms(1) o c(2) unfolding fs_ok_def by (fastforce simp: set_ptr_def)
  then show "fs_ok env sls cx'" using assms(1) o(2) c(2) by (auto simp: fs_ok_def)
  show "contents sls cx' = contents sls cx" using o(2) c(2) by (simp add: contents_def fun_eq_iff)
  show "handle cx' fh = Some (b, i, f)" using c assms(2,3) by (simp add: handle_def set_ptr_def)
qed (use assms(2,4) in \<open>auto simp: new_record_def\<close>)

lemma open_run:
  assumes "fs_ok env sls cx" "first_backend cx = Some b" "find_file b (resolve cx path) = Some i"
  shows "\<exists>fh cx' f. efsng_open cx path flags = Some (0, Some fh, cx') \<and> fs_ok env sls cx' \<and> contents sls cx' = contents sls cx \<and>
    handle cx' fh = Some (b, i, f) \<and> cx_machine cx' = cx_machine cx"
proof -
  have "ns_ok b" using assms(1,2) by (auto simp: fs_ok_def)
  then obtain f where f: "b_objs b i = Some f" using assms(3) by (force simp: ns_ok_def find_file_def ran_def)
  obtain fh cx' where r: "new_record cx (st_ino (file_stat f)) (open_flags flags) i = (fh, cx')" by (cases "new_record cx (st_ino (file_stat f)) (open_flags flags) i")
  note N = new_record_run[OF assms(1,2) f r]
  have "efsng_open cx path flags = Some (0, Some fh, cx')" using assms(2,3) f r by (simp add: efsng_open_def)
  then show ?thesis using N by blast
qed

lemma release_run:
  assumes "fs_ok env sls cx" "handle cx fh \<noteq> None"
  shows "\<exists>cx'. efsng_release cx fh = Some (0, cx') \<and> fs_ok env sls cx' \<and> contents sls cx' = contents sls cx \<and> first_backend cx' = first_backend cx \<and>
    cx_machine cx' = cx_machine cx \<and> cx_fastlink cx' = cx_fastlink cx"
proof -
  obtain r where r: "cx_open cx fh = Some r" using assms(2) by (auto simp: handle_def split: Option.bind_splits)
  let ?cx = "cx\<lparr>cx_open := (cx_open cx)(fh := None)\<rparr>"
  have "fs_ok env sls ?cx" using assms(1) by (auto simp: fs_ok_def)
  moreover have "contents sls ?cx = contents sls cx" by (simp add: contents_def fun_eq_iff)
  ultimately show ?thesis using r by (simp add: efsng_release_def)
qed

lemma do_create_next: "do_create h b path mode = (0, Some i, b') \<Longrightarrow> b_next b' = Suc (b_next b)"
  by (auto simp: do_create_def Let_def list_in_def new_inode_def split: if_splits)

lemma new_object_ok:
  assumes "st_size st = 0"
  shows "file_ok env [] (save_attributes (new_file ty n) st) m" "file_content [] (save_attributes (new_file ty n) st) m = []"
proof -
  have "file_ok env [] (new_file ty n) m" "file_content [] (new_file ty n) m = []" by (rule file_ok_new)+
  then show "file_ok env [] (save_attributes (new_file ty n) st) m" "file_content [] (save_attributes (new_file ty n) st) m = []"
    using assms by (simp_all add: file_ok_def layout_def file_content_def save_attributes_def new_file_def null_stat_def)
qed

lemma create_run:
  assumes ok: "fs_ok env sls cx" and b: "first_backend cx = Some b" and p: "p \<in> ns_dirs b" "valid_name n" "p @ n \<notin> ns_files b" "p @ n @ [slash] \<notin> ns_dirs b"
  shows "\<exists>fh cx' b' f. efsng_create h cx (p @ n) mode flags = Some (0, fh, cx') \<and> fs_ok env (sls(b_next b := [])) cx' \<and>
    contents (sls(b_next b := [])) cx' = (contents sls cx)(b_next b \<mapsto> []) \<and> handle cx' fh = Some (b', b_next b, f) \<and> first_backend cx' = Some b' \<and>
    map_of (b_files b') = (map_of (b_files b))(p @ n \<mapsto> b_next b) \<and> ns_files b' = insert (p @ n) (ns_files b) \<and> ns_dirs b' = ns_dirs b \<and>
    cx_machine cx' = cx_machine cx \<and> cx_fastlink cx' = cx_fastlink cx"
proof -
  let ?i = "b_next b" let ?sls = "sls(b_next b := [])"
  have nb: "ns_ok b" "\<forall>i \<ge> b_next b. b_objs b i = None" using ok b by (auto simp: fs_ok_def)
  from do_create_run[OF nb(1) p, of h mode] obtain b' st where
    c: "do_create h b (p @ n) mode = (0, Some ?i, b')" "ns_ok b'" "ns_files b' = insert (p @ n) (ns_files b)" "ns_dirs b' = ns_dirs b"
      "map_of (b_files b') = (map_of (b_files b))(p @ n \<mapsto> ?i)" "b_objs b' = (b_objs b)(?i \<mapsto> save_attributes (new_file temporary 0) st)" "st_size st = 0" by blast
  let ?f = "save_attributes (new_file temporary 0) st" let ?cx = "put_backend cx b'"
  note f = new_object_ok[OF c(7), where ty = temporary and n = 0]
  have fb: "first_backend ?cx = Some b'" using b by simp
  have o: "objects ?cx = (objects cx)(?i \<mapsto> ?f)" using b fb c(6) by (simp add: objects_def)
  have N: "objects cx ?i = None" using b nb(2) by (simp add: objects_def)
  have "\<forall>k \<ge> b_next b'. b_objs b' k = None" using nb(2) c(6) do_create_next[OF c(1)] by simp
  moreover have "\<exists>k. fl_ptr r = Some k \<and> objects ?cx k \<noteq> None" if "cx_open ?cx fh = Some r" for fh r
  proof -
    have "cx_open cx fh = Some r" using that by simp
    then obtain k where "fl_ptr r = Some k" "objects cx k \<noteq> None" using ok unfolding fs_ok_def by blast
    then show ?thesis unfolding o by auto
  qed
  moreover have "file_ok (env k) (?sls k) g (mc_mem (cx_machine ?cx))" if "objects ?cx k = Some g" for k g
    using that ok f(1) unfolding o by (auto simp: fs_ok_def split: if_splits)
  ultimately have ok': "fs_ok env ?sls ?cx" using ok fb c(2) unfolding fs_ok_def by auto
  have ct: "contents ?sls ?cx = (contents sls cx)(?i \<mapsto> [])" using o f(2) N by (auto simp: contents_def fun_eq_iff)
  obtain fh cx' where r: "new_record ?cx (st_ino (file_stat ?f)) (open_flags flags) ?i = (fh, cx')" by (cases "new_record ?cx (st_ino (file_stat ?f)) (open_flags flags) ?i")
  have fo: "b_objs b' ?i = Some ?f" using c(6) by simp
  note R = new_record_run[OF ok' fb fo r]
  have "efsng_create h cx (p @ n) mode flags = Some (0, fh, cx')" using b c(1) fo r by (simp add: efsng_create_def)
  then show ?thesis using R ct c(3-5) by auto
qed

section \<open>Properties\<close>

text \<open>
  C11: Through the operations of the file system a file is a sequence of bytes.  Writing a vector
  of memory buffers through a handle, at or before the end of its file, succeeds, returns the
  number of bytes, and has the effect of the same write on the sequence of bytes; every other
  file keeps its contents, and the file system stays well formed.
\<close>

theorem fs_write:
  assumes "fs_ok env sls cx" "handle cx fh = Some (b, i, f)" "contents sls cx i = Some c" "0 \<le> off" "off \<le> int (length c)" "off < 2 ^ 60"
    "n = fuse_buf_size v" "0 < n" "n < 2 ^ 31"
    "mem_vec (mc_mem (cx_machine cx)) (range (ne_pool_addr (env i))) v" "length (src_bytes (mc_mem (cx_machine cx)) v) = n"
  shows "\<exists>v' cx' sls'. efsng_write_buf env cx fh v off = Some (Inr (int n, v', cx')) \<and> fs_ok env sls' cx' \<and>
    contents sls' cx' = (contents sls cx)(i \<mapsto> pwrite (nat off) (src_bytes (mc_mem (cx_machine cx)) v) c)"
  using write_run[OF assms] by blast

text \<open>
  C10: A file that is created, written through its handle, closed, opened again by its name and
  read gives back the bytes that were written; no other file has changed.
\<close>

theorem create_write_read:
  assumes "fs_ok env sls cx" "first_backend cx = Some b" "p \<in> ns_dirs b" "valid_name n" "p @ n \<notin> ns_files b" "p @ n @ [slash] \<notin> ns_dirs b"
    "map_of (cx_fastlink cx) (p @ n) = None" "k = fuse_buf_size v" "0 < k" "k < 2 ^ 31"
    "mem_vec (mc_mem (cx_machine cx)) (range (ne_pool_addr (env (b_next b)))) v" "length (src_bytes (mc_mem (cx_machine cx)) v) = k"
    "\<forall>s. ne_memalign (env (b_next b)) s (of_nat k) = Some a" "mc_mem (cx_machine cx) a = None" "a \<notin> range (ne_pool_addr (env (b_next b)))"
  shows "\<exists>fh cx1 v2 cx2 cx3 fh4 cx4 v5 cx5 sls'. efsng_create h cx (p @ n) mode fl = Some (0, fh, cx1) \<and>
    efsng_write_buf env cx1 fh v 0 = Some (Inr (int k, v2, cx2)) \<and> efsng_release cx2 fh = Some (0, cx3) \<and>
    efsng_open cx3 (p @ n) fl' = Some (0, Some fh4, cx4) \<and> efsng_read_buf env True cx4 fh4 (of_nat k) 0 = Some (Inr (0, Some v5, cx5)) \<and>
    fb_mem (hd (bv_buf v5)) = Some (a, 0) \<and> fb_size (hd (bv_buf v5)) = k \<and>
    mem_read (mc_mem (cx_machine cx5)) (a, 0) k = Some (src_bytes (mc_mem (cx_machine cx)) v) \<and>
    fs_ok env sls' cx5 \<and> contents sls' cx5 = (contents sls cx)(b_next b \<mapsto> src_bytes (mc_mem (cx_machine cx)) v)"
proof -
  let ?i = "b_next b" let ?bs = "src_bytes (mc_mem (cx_machine cx)) v"
  from create_run[OF assms(1-6), of h mode fl] obtain fh cx1 b1 f1 where
    c: "efsng_create h cx (p @ n) mode fl = Some (0, fh, cx1)" "fs_ok env (sls(?i := [])) cx1" "contents (sls(?i := [])) cx1 = (contents sls cx)(?i \<mapsto> [])"
      "handle cx1 fh = Some (b1, ?i, f1)" "first_backend cx1 = Some b1" "map_of (b_files b1) = (map_of (b_files b))(p @ n \<mapsto> ?i)"
      "cx_machine cx1 = cx_machine cx" "cx_fastlink cx1 = cx_fastlink cx" by blast
  have z: "contents (sls(?i := [])) cx1 ?i = Some []" using c(3) by simp
  have v: "mem_vec (mc_mem (cx_machine cx1)) (range (ne_pool_addr (env ?i))) v" "length (src_bytes (mc_mem (cx_machine cx1)) v) = k" using assms(11,12) c(7) by simp_all
  from write_run[OF c(2,4) z _ _ _ assms(8-10) v, of 0] c(3,7,8) obtain v2 cx2 sls2 f2 where
    w: "efsng_write_buf env cx1 fh v 0 = Some (Inr (int k, v2, cx2))" "fs_ok env sls2 cx2" "contents sls2 cx2 = (contents sls cx)(?i \<mapsto> pwrite 0 ?bs [])"
      "cx_open cx2 = cx_open cx1" "\<forall>x. x \<notin> range (ne_pool_addr (env ?i)) \<longrightarrow> mc_mem (cx_machine cx2) x = mc_mem (cx_machine cx) x"
      "first_backend cx2 = Some (b1\<lparr>b_objs := (b_objs b1)(?i \<mapsto> f2)\<rparr>)" "cx_fastlink cx2 = cx_fastlink cx" by auto
  have pw: "pwrite 0 ?bs [] = ?bs" by (simp add: pwrite_def)
  have "handle cx2 fh \<noteq> None" using c(4) w(4,6) by (auto simp: handle_def split: Option.bind_splits if_splits)
  from release_run[OF w(2) this] obtain cx3 where
    l: "efsng_release cx2 fh = Some (0, cx3)" "fs_ok env sls2 cx3" "contents sls2 cx3 = contents sls2 cx2" "first_backend cx3 = first_backend cx2"
      "cx_machine cx3 = cx_machine cx2" "cx_fastlink cx3 = cx_fastlink cx2" by blast
  have fb: "first_backend cx3 = Some (b1\<lparr>b_objs := (b_objs b1)(?i \<mapsto> f2)\<rparr>)" using l(4) w(6) by simp
  have fi: "find_file (b1\<lparr>b_objs := (b_objs b1)(?i \<mapsto> f2)\<rparr>) (resolve cx3 (p @ n)) = Some ?i"
    using c(6) l(6) w(7) assms(7) by (simp add: find_file_def resolve_def)
  from open_run[OF l(2) fb fi, of fl'] obtain fh4 cx4 f4 where
    e: "efsng_open cx3 (p @ n) fl' = Some (0, Some fh4, cx4)" "fs_ok env sls2 cx4" "contents sls2 cx4 = contents sls2 cx3"
      "handle cx4 fh4 = Some (b1\<lparr>b_objs := (b_objs b1)(?i \<mapsto> f2)\<rparr>, ?i, f4)" "cx_machine cx4 = cx_machine cx3" by blast
  have ct: "contents sls2 cx4 = (contents sls cx)(?i \<mapsto> ?bs)" using e(3) l(3) w(3) pw by simp
  have wk: "unat (of_nat k :: size_t) = k" "uint (of_nat k :: size_t) = int k" using assms(10) by (simp_all add: unsigned_of_nat take_bit_nat_eq_self_iff take_bit_int_eq_self_iff)
  have r: "contents sls2 cx4 ?i = Some ?bs" "(0 :: int) \<le> 0" "0 < int (length ?bs)" "0 < (of_nat k :: size_t)" "0 + uint (of_nat k :: size_t) < 2 ^ 62"
    "k = min (length ?bs - nat 0) (unat (of_nat k :: size_t))" "ne_memalign (env ?i) (cx_machine cx4) (of_nat k) = Some a" "mc_mem (cx_machine cx4) a = None"
    using ct assms(9,10,12-15) wk e(5) l(5) w(5) by (simp_all add: word_less_nat_alt)
  from read_run[OF e(2,4) r] obtain v5 cx5 where
    g: "efsng_read_buf env True cx4 fh4 (of_nat k) 0 = Some (Inr (0, Some v5, cx5))" "fs_ok env sls2 cx5" "contents sls2 cx5 = contents sls2 cx4"
      "fb_mem (hd (bv_buf v5)) = Some (a, 0)" "fb_size (hd (bv_buf v5)) = k" "mem_read (mc_mem (cx_machine cx5)) (a, 0) k = Some (extent (nat 0) k ?bs)" by blast
  have "extent (nat 0) k ?bs = ?bs" using assms(12) by (simp add: extent_def)
  then have m: "mem_read (mc_mem (cx_machine cx5)) (a, 0) k = Some ?bs" using g(6) by simp
  have ct5: "contents sls2 cx5 = (contents sls cx)(?i \<mapsto> ?bs)" using g(3) ct by simp
  show ?thesis by (intro exI conjI) (rule c(1) w(1) l(1) e(1) g(1,2,4,5) m ct5)+
qed

text \<open>
  C40: \<open>symlink\<close> records its arguments the wrong way round.  After a link to an existing path is
  made under a name that is free, the link still does not exist, and the path it should
  lead to is no longer found either.
\<close>

theorem symlink_reversed:
  assumes "first_backend cx = Some b" "fst (do_stat b target) = 0" "fst (do_stat b link) \<noteq> 0" "cx_fastlink cx = []"
  shows "\<exists>cx'. efsng_symlink cx target link = (0, cx') \<and> map_option fst (efsng_getattr cx target) = Some 0 \<and>
    efsng_getattr cx' link = Some (- ENOENT, None) \<and> efsng_getattr cx' target = Some (- ENOENT, None)"
proof -
  have l: "do_stat b link = (- ENOENT, None)" using assms(3) by (auto simp: do_stat_def split: option.splits)
  have "target \<noteq> link" using assms(2,3) by auto
  then show ?thesis using assms(1,2,4) l by (simp add: efsng_symlink_def efsng_getattr_def resolve_def first_backend_def split: list.splits)
qed

definition sample_envs :: "nat \<Rightarrow> unit nvml_env" where
  "sample_envs i = sample_env\<lparr>ne_pool_addr := (\<lambda>k. 2 * to_nat (i, k) + 1)\<rparr>"

definition sample_fs :: "unit efs_context" where
  "sample_fs = \<lparr>cx_backends = [(''nvml'', sample_backend)], cx_open = (\<lambda>_. None), cx_fresh = 0, cx_fastlink = [], cx_machine = sample_machine\<rparr>"

lemma sample_fs_ok: "fs_ok sample_envs (\<lambda>_. []) sample_fs" "first_backend sample_fs = Some sample_backend" "contents (\<lambda>_. []) sample_fs = (\<lambda>_. None)"
proof -
  show f: "first_backend sample_fs = Some sample_backend" by (simp add: sample_fs_def first_backend_def)
  have "inj (\<lambda>k. 2 * to_nat (i :: nat, k :: nat) + 1)" for i by (auto simp: inj_def)
  then have "good_env (sample_envs i)" for i using sample_good by (simp add: good_env_def sample_envs_def)
  moreover have "range (ne_pool_addr (sample_envs i)) \<inter> range (ne_pool_addr (sample_envs j)) = {}" if "i \<noteq> j" for i j
    using that by (auto simp: sample_envs_def)
  ultimately have "envs_ok sample_envs" by (simp add: envs_ok_def)
  moreover have o: "objects sample_fs = (\<lambda>_. None)" unfolding objects_def f by (simp add: sample_backend_def)
  moreover have "\<forall>i. b_objs sample_backend i = None" by (simp add: sample_backend_def)
  moreover have "\<forall>fh. cx_open sample_fs fh = None" by (simp add: sample_fs_def)
  ultimately show "fs_ok sample_envs (\<lambda>_. []) sample_fs" using f sample_backend_ok(1) by (simp add: fs_ok_def)
  show "contents (\<lambda>_. []) sample_fs = (\<lambda>_. None)" using o by (simp add: contents_def fun_eq_iff)
qed

lemma sample_fs_vec:
  "mem_vec (mc_mem (cx_machine sample_fs)) (range (ne_pool_addr (sample_envs i))) sample_vec" "src_bytes (mc_mem (cx_machine sample_fs)) sample_vec = [1, 2, 3, 4]"
  "fuse_buf_size sample_vec = 4" "mc_mem (cx_machine sample_fs) 1000 = None" "1000 \<notin> range (ne_pool_addr (sample_envs i))"
  "ne_memalign (sample_envs i) s 4 = Some 1000"
proof -
  have "(0 :: nat) \<notin> range (\<lambda>k. 2 * to_nat (i, k :: nat) + 1)" by auto
  then show "mem_vec (mc_mem (cx_machine sample_fs)) (range (ne_pool_addr (sample_envs i))) sample_vec"
    by (simp add: mem_vec_def mem_buf_def sample_vec_def sample_machine_def sample_envs_def sample_fs_def mem_read_def)
  show "src_bytes (mc_mem (cx_machine sample_fs)) sample_vec = [1, 2, 3, 4]" using sample_src(1) by (simp add: sample_fs_def)
  show "1000 \<notin> range (ne_pool_addr (sample_envs i))" by (auto simp: sample_envs_def) presburger
qed (simp_all add: fuse_buf_size_def sample_vec_def SIZE_MAX_def sample_fs_def sample_machine_def sample_envs_def sample_env_def)

theorem fs_write_witness:
  "\<exists>fh cx v' cx' sls'. efsng_create sample_host sample_fs ''/a'' 420 2 = Some (0, fh, cx) \<and> efsng_write_buf sample_envs cx fh sample_vec 0 = Some (Inr (4, v', cx')) \<and>
    fs_ok sample_envs sls' cx' \<and> contents sls' cx' 0 = Some [1, 2, 3, 4]"
proof -
  have v: "valid_name ''a''" by (simp add: valid_name_def)
  from create_run[OF sample_fs_ok(1,2) _ v, of "''/''" sample_host 420 2] sample_backend_ok obtain fh cx b f where
    c: "efsng_create sample_host sample_fs ''/a'' 420 2 = Some (0, fh, cx)" "fs_ok sample_envs ((\<lambda>_. [])(b_next sample_backend := [])) cx"
      "contents ((\<lambda>_. [])(b_next sample_backend := [])) cx = (contents (\<lambda>_. []) sample_fs)(b_next sample_backend \<mapsto> [])"
      "handle cx fh = Some (b, b_next sample_backend, f)" "cx_machine cx = cx_machine sample_fs" by auto
  have n: "b_next sample_backend = 0" by (simp add: sample_backend_def)
  have z: "contents ((\<lambda>_. [])(b_next sample_backend := [])) cx (b_next sample_backend) = Some []" using c(3) by simp
  from fs_write[OF c(2,4) z, where off = 0 and n = 4 and v = sample_vec] sample_fs_vec c(5) n
  obtain v' cx' sls' where w: "efsng_write_buf sample_envs cx fh sample_vec 0 = Some (Inr (4, v', cx'))" "fs_ok sample_envs sls' cx'"
    "contents sls' cx' = (contents ((\<lambda>_. [])(0 := [])) cx)(0 \<mapsto> [1, 2, 3, 4])" by (auto simp: pwrite_def)
  then have "contents sls' cx' 0 = Some [1, 2, 3, 4]" by simp
  then show ?thesis using c(1) w(1,2) by blast
qed

theorem create_write_read_witness:
  "\<exists>fh cx1 v2 cx2 cx3 fh4 cx4 v5 cx5 sls'. efsng_create sample_host sample_fs ''/a'' 420 2 = Some (0, fh, cx1) \<and>
    efsng_write_buf sample_envs cx1 fh sample_vec 0 = Some (Inr (4, v2, cx2)) \<and> efsng_release cx2 fh = Some (0, cx3) \<and>
    efsng_open cx3 ''/a'' 0 = Some (0, Some fh4, cx4) \<and> efsng_read_buf sample_envs True cx4 fh4 4 0 = Some (Inr (0, Some v5, cx5)) \<and>
    mem_read (mc_mem (cx_machine cx5)) (1000, 0) 4 = Some [1, 2, 3, 4] \<and> contents sls' cx5 = [0 \<mapsto> [1, 2, 3, 4]]"
proof -
  have v: "valid_name ''a''" by (simp add: valid_name_def)
  have l: "map_of (cx_fastlink sample_fs) (''/'' @ ''a'') = None" by (simp add: sample_fs_def)
  have m: "''/'' \<in> ns_dirs sample_backend" "''/'' @ ''a'' \<notin> ns_files sample_backend" "''/'' @ ''a'' @ [slash] \<notin> ns_dirs sample_backend" using sample_backend_ok by simp_all
  have n: "b_next sample_backend = 0" by (simp add: sample_backend_def)
  have k: "4 = fuse_buf_size sample_vec" "(0 :: nat) < 4" "(4 :: nat) < 2 ^ 31" "length (src_bytes (mc_mem (cx_machine sample_fs)) sample_vec) = 4"
    "\<forall>s. ne_memalign (sample_envs (b_next sample_backend)) s (of_nat 4) = Some 1000" using sample_fs_vec by simp_all
  from create_write_read[OF sample_fs_ok(1,2) m(1) v m(2,3) l k(1-3) sample_fs_vec(1) k(4,5) sample_fs_vec(4,5), of sample_host 420 2 0]
  obtain fh cx1 v2 cx2 cx3 fh4 cx4 v5 cx5 sls' where
    r: "efsng_create sample_host sample_fs (''/'' @ ''a'') 420 2 = Some (0, fh, cx1)" "efsng_write_buf sample_envs cx1 fh sample_vec 0 = Some (Inr (int 4, v2, cx2))"
      "efsng_release cx2 fh = Some (0, cx3)" "efsng_open cx3 (''/'' @ ''a'') 0 = Some (0, Some fh4, cx4)"
      "efsng_read_buf sample_envs True cx4 fh4 (of_nat 4) 0 = Some (Inr (0, Some v5, cx5))"
      "mem_read (mc_mem (cx_machine cx5)) (1000, 0) 4 = Some (src_bytes (mc_mem (cx_machine sample_fs)) sample_vec)"
      "contents sls' cx5 = (contents (\<lambda>_. []) sample_fs)(b_next sample_backend \<mapsto> src_bytes (mc_mem (cx_machine sample_fs)) sample_vec)" by blast
  show ?thesis by (intro exI conjI) (use r sample_fs_vec(2) sample_fs_ok(3) n in simp_all)
qed

theorem symlink_reversed_witness:
  "\<exists>fh cx cx'. efsng_create sample_host sample_fs ''/a'' 420 2 = Some (0, fh, cx) \<and> efsng_symlink cx ''/a'' ''/l'' = (0, cx') \<and>
    efsng_getattr cx' ''/l'' = Some (- ENOENT, None) \<and> efsng_getattr cx' ''/a'' = Some (- ENOENT, None)"
proof -
  have v: "valid_name ''a''" by (simp add: valid_name_def)
  from create_run[OF sample_fs_ok(1,2) _ v, of "''/''" sample_host 420 2] sample_backend_ok obtain fh cx b f where
    c: "efsng_create sample_host sample_fs ''/a'' 420 2 = Some (0, fh, cx)" "first_backend cx = Some b"
      "map_of (b_files b) = (map_of (b_files sample_backend))(''/a'' \<mapsto> b_next sample_backend)" "ns_dirs b = {''/''}" "cx_fastlink cx = cx_fastlink sample_fs" by auto
  have l: "cx_fastlink cx = []" using c(5) by (simp add: sample_fs_def)
  have "slashed ''/l'' \<notin> ns_dirs b" unfolding c(4) by (simp add: slashed_def)
  then have d: "map_of (b_dirs b) (slashed ''/l'') = None" by (simp add: ns_dirs_def domIff)
  have "fst (do_stat b ''/a'') = 0" "fst (do_stat b ''/l'') \<noteq> 0" using c(3) d by (simp_all add: do_stat_def sample_backend_def ENOENT_def)
  from symlink_reversed[OF c(2) this l] c(1) show ?thesis by blast
qed

end
