(* ===== verification/Api_Wire.thy ===== *)
theory Api_Wire
  imports Nvml_Segment
begin

unbundle bit_operations_syntax

text \<open>
  The bytes between a client and the daemon: the length of a message in network order
  (\<open>src/src/api/message.h\<close>, \<open>src/lib/communication.c\<close>) and the loops of the client library that
  send and receive bytes on a socket.  Reading and writing the socket are system calls, which
  may be short or be interrupted; \<open>errno\<close> is passed along, because a call that succeeds
  leaves it as it was.
\<close>

section \<open>Network order\<close>

definition bswap32 :: "32 word \<Rightarrow> 32 word" where
  "bswap32 x = push_bit 24 (x AND 0xFF) OR push_bit 8 (x AND 0xFF00) OR (drop_bit 8 x AND 0xFF00) OR drop_bit 24 x"

definition htonl :: "bool \<Rightarrow> 32 word \<Rightarrow> 32 word" where
  "htonl big_endian x = (if big_endian then x else bswap32 x)"

definition htonll :: "bool \<Rightarrow> size_t \<Rightarrow> size_t" where
  "htonll big_endian x =
     (if 1 = htonl big_endian 1 then x
      else push_bit 32 (ucast (htonl big_endian (ucast (x AND 0xFFFFFFFF)))) OR ucast (htonl big_endian (ucast (drop_bit 32 x))))"

definition ntohll :: "bool \<Rightarrow> size_t \<Rightarrow> size_t" where
  "ntohll big_endian x =
     (if 1 = htonl big_endian 1 then x
      else push_bit 32 (ucast (htonl big_endian (ucast (x AND 0xFFFFFFFF)))) OR ucast (htonl big_endian (ucast (drop_bit 32 x))))"

text \<open>The bytes of an integer in memory.\<close>

definition store64 :: "bool \<Rightarrow> size_t \<Rightarrow> byte list" where
  "store64 big_endian x = (let bs = map (\<lambda>i. ucast (drop_bit (8 * i) x)) [0..<8] in if big_endian then rev bs else bs)"

definition load64 :: "bool \<Rightarrow> byte list \<Rightarrow> size_t" where
  "load64 big_endian bs = foldr (\<lambda>b x. ucast b OR push_bit 8 x) (if big_endian then rev bs else bs) 0"

lemma bit_bswap32: "bit (bswap32 x) n = (n < 32 \<and> bit x (if n < 8 then n + 24 else if n < 16 then n + 8 else if n < 24 then n - 8 else n - 24))"
proof -
  have m: "(0xFF :: 32 word) = mask 8" "(0xFF00 :: 32 word) = push_bit 8 (mask 8)" by (simp_all add: mask_eq_exp_minus_1 push_bit_eq_mult)
  have "\<not> bit x (24 + n)" if "8 \<le> n" using that bit_imp_le_length[of x "24 + n"] by auto
  then show ?thesis unfolding bswap32_def m by (auto simp: bit_simps add.commute)
qed

lemma bswap32_twice: "bswap32 (bswap32 x) = x"
  by (rule bit_word_eqI) (auto simp: bit_bswap32)

lemma htonl_twice: "htonl e (htonl e x) = x"
  by (simp add: htonl_def bswap32_twice)

text \<open>The halves of a 64-bit word.\<close>

definition join :: "32 word \<Rightarrow> 32 word \<Rightarrow> size_t" where
  "join a b = push_bit 32 (ucast a) OR ucast b"

lemma mask_halves: "(0xFFFFFFFF :: size_t) = mask 32"
  by (simp add: mask_eq_exp_minus_1)

lemma join_halves: "ucast (join a b AND 0xFFFFFFFF) = b" "ucast (drop_bit 32 (join a b)) = a" "join (ucast (drop_bit 32 x)) (ucast (x AND 0xFFFFFFFF)) = x"
  unfolding mask_halves join_def by (rule bit_word_eqI; auto simp: bit_simps dest: bit_imp_le_length)+

lemma htonl_one: "(1 = htonl e 1) = e"
proof -
  have "bswap32 1 \<noteq> 1" by (simp add: bswap32_def)
  then show ?thesis by (auto simp: htonl_def)
qed

lemma ntohll_htonll: "ntohll e (htonll e x) = x"
proof (cases e)
  case False
  then have "htonll e x = join (htonl e (ucast (x AND 0xFFFFFFFF))) (htonl e (ucast (drop_bit 32 x)))" by (simp add: htonll_def htonl_one join_def)
  then have "ntohll e (htonll e x) = join (htonl e (htonl e (ucast (drop_bit 32 x)))) (htonl e (htonl e (ucast (x AND 0xFFFFFFFF))))"
    using False by (simp add: ntohll_def htonl_one join_halves(1,2) join_def[symmetric])
  then show ?thesis by (simp only: htonl_twice join_halves(3))
qed (simp add: ntohll_def htonll_def htonl_one)

lemma store64_length [simp]: "length (store64 e x) = 8"
  by (simp add: store64_def Let_def)

lemma load_bytes:
  "foldr (\<lambda>b y. ucast b OR push_bit 8 y) (map (\<lambda>i. ucast (drop_bit (8 * i) x) :: byte) [j..<j + k]) 0 = take_bit (8 * k) (drop_bit (8 * j) (x :: size_t))"
proof (induction k arbitrary: j)
  case (Suc k)
  have u: "[j..<j + Suc k] = j # [Suc j..<Suc j + k]" by (simp add: upt_rec)
  have "ucast (ucast (drop_bit (8 * j) x) :: byte) OR push_bit 8 (take_bit (8 * k) (drop_bit (8 * Suc j) x)) = take_bit (8 * Suc k) (drop_bit (8 * j) x)"
    by (rule bit_word_eqI) (auto simp: bit_simps algebra_simps)
  then show ?case using Suc[of "Suc j"] unfolding u by simp
qed simp

lemma load64_store64: "load64 e (store64 e x) = x"
proof -
  have "take_bit 64 x = x" by (rule bit_word_eqI) (simp add: bit_simps)
  then show ?thesis using load_bytes[of x 0 8] by (simp add: store64_def load64_def Let_def)
qed

section \<open>Sockets\<close>

text \<open>
  The loop of \<open>recv_data\<close> with the bytes received so far.  At the end of the stream \<open>read\<close>
  returns 0 and leaves \<open>errno\<close> alone, so an old \<open>EINTR\<close> makes the loop go on.
\<close>

partial_function (option) recv_data :: "'w syscalls \<Rightarrow> int \<Rightarrow> nat \<Rightarrow> 'w \<Rightarrow> int \<Rightarrow> byte list \<Rightarrow> (int \<times> byte list \<times> 'w \<times> int) option" where
  "recv_data sc conn sz w err got =
     (if length got < sz
      then case sc_read sc w conn (sz - length got) None of
          (Inl e, w) \<Rightarrow> if e = EINTR then recv_data sc conn sz w e got else Some (-1, got, w, e)
        | (Inr bs, w) \<Rightarrow>
            if bs = [] then if err = EINTR then recv_data sc conn sz w err got else Some (int (length got), got, w, err)
            else if length got + length bs > sz then None
            else recv_data sc conn sz w err (got @ bs)
      else Some (int (length got), got, w, err))"

declare recv_data.simps [code]

partial_function (option) send_data :: "'w syscalls \<Rightarrow> int \<Rightarrow> byte list \<Rightarrow> 'w \<Rightarrow> int \<Rightarrow> nat \<Rightarrow> (int \<times> 'w \<times> int) option" where
  "send_data sc conn data w err sent =
     (if sent < length data
      then case sc_write sc w conn (drop sent data) None of
          (Inl e, w) \<Rightarrow> if e = EINTR then send_data sc conn data w e sent else Some (-1, w, e)
        | (Inr n, w) \<Rightarrow> send_data sc conn data w err (sent + n)
      else Some (int sent, w, err))"

declare send_data.simps [code]

definition send_message :: "bool \<Rightarrow> 'w syscalls \<Rightarrow> int \<Rightarrow> byte list \<Rightarrow> 'w \<Rightarrow> int \<Rightarrow> (int \<times> 'w \<times> int) option" where
  "send_message e sc conn data w err =
     (if data = [] then Some (-1, w, err)
      else do {
        (r, w, err) \<leftarrow> send_data sc conn (store64 e (htonll e (of_nat (length data)))) w err 0;
        if r < 0 then Some (-1, w, err)
        else do {
          (r, w, err) \<leftarrow> send_data sc conn data w err 0;
          Some (if r < 0 then -1 else 0, w, err) } })"

text \<open>\<open>alloc\<close> gives the contents of newly allocated memory of a size, or \<open>None\<close> if there is none.\<close>

definition recv_message ::
  "bool \<Rightarrow> 'w syscalls \<Rightarrow> (nat \<Rightarrow> byte list option) \<Rightarrow> int \<Rightarrow> 'w \<Rightarrow> int \<Rightarrow> (int \<times> byte list \<times> 'w \<times> int) option" where
  "recv_message e sc alloc conn w err = do {
     (r, got, w, err) \<leftarrow> recv_data sc conn 8 w err [];
     if r < 0 then Some (-1, [], w, err)
     else do {
       let msg_size = ntohll e (load64 e (got @ replicate (8 - length got) 0));
       if msg_size = 0 then Some (-1, [], w, err)
       else case alloc (unat msg_size) of
           None \<Rightarrow> Some (-1, [], w, err)
         | Some mem \<Rightarrow> do {
             (r, got, w, err) \<leftarrow> recv_data sc conn (unat msg_size) w err [];
             Some (if r < 0 then (-1, [], w, err) else (0, got @ drop (length got) mem, w, err)) } } }"

text \<open>
  What the other end of a connection accepts and delivers: calls may be short or be interrupted,
  but the connection is not closed.
\<close>

inductive accepts :: "'w syscalls \<Rightarrow> int \<Rightarrow> 'w \<Rightarrow> byte list \<Rightarrow> 'w \<Rightarrow> bool" for sc conn where
  nothing: "accepts sc conn w [] w"
| interrupted: "bs \<noteq> [] \<Longrightarrow> sc_write sc w conn bs None = (Inl EINTR, w1) \<Longrightarrow> accepts sc conn w1 bs w' \<Longrightarrow> accepts sc conn w bs w'"
| part: "sc_write sc w conn (c @ bs) None = (Inr (length c), w1) \<Longrightarrow> c \<noteq> [] \<Longrightarrow> accepts sc conn w1 bs w' \<Longrightarrow> accepts sc conn w (c @ bs) w'"

inductive delivers :: "'w syscalls \<Rightarrow> int \<Rightarrow> 'w \<Rightarrow> byte list \<Rightarrow> 'w \<Rightarrow> bool" for sc conn where
  nothing: "delivers sc conn w [] w"
| interrupted: "bs \<noteq> [] \<Longrightarrow> sc_read sc w conn (length bs) None = (Inl EINTR, w1) \<Longrightarrow> delivers sc conn w1 bs w' \<Longrightarrow> delivers sc conn w bs w'"
| part: "sc_read sc w conn (length (c @ bs)) None = (Inr c, w1) \<Longrightarrow> c \<noteq> [] \<Longrightarrow> delivers sc conn w1 bs w' \<Longrightarrow> delivers sc conn w (c @ bs) w'"

lemma send_data_run:
  "accepts sc conn w bs w' \<Longrightarrow> data = xs @ bs \<Longrightarrow> \<exists>err'. send_data sc conn data w err (length xs) = Some (int (length data), w', err')"
proof (induction arbitrary: xs err rule: accepts.induct)
  case (nothing w)
  then show ?case by (subst send_data.simps) simp
next
  case (interrupted bs w w1 w')
  then show ?case by (subst send_data.simps) auto
next
  case (part w c bs w1 w')
  then show ?case using part.IH[of "xs @ c" err] by (subst send_data.simps) auto
qed

lemma recv_data_run:
  "delivers sc conn w bs w' \<Longrightarrow> sz = length xs + length bs \<Longrightarrow> \<exists>err'. recv_data sc conn sz w err xs = Some (int sz, xs @ bs, w', err')"
proof (induction arbitrary: xs err rule: delivers.induct)
  case (nothing w)
  then show ?case by (subst recv_data.simps) simp
next
  case (interrupted bs w w1 w')
  then show ?case by (subst recv_data.simps) auto
next
  case (part w c bs w1 w')
  then show ?case using part.IH[of "xs @ c" err] by (subst recv_data.simps) auto
qed

definition frame :: "bool \<Rightarrow> byte list \<Rightarrow> byte list" where
  "frame e body = store64 e (htonll e (of_nat (length body))) @ body"

lemma send_message_run:
  assumes "accepts sc conn w (store64 e (htonll e (of_nat (length data)))) w1" "accepts sc conn w1 data w2" "data \<noteq> []"
  shows "\<exists>err'. send_message e sc conn data w err = Some (0, w2, err')"
proof -
  from send_data_run[OF assms(1), of _ "[]" err] obtain e1 where "send_data sc conn (store64 e (htonll e (of_nat (length data)))) w err 0 = Some (8, w1, e1)" by auto
  moreover from send_data_run[OF assms(2), of _ "[]" e1] obtain e2 where "send_data sc conn data w1 e1 0 = Some (int (length data), w2, e2)" by auto
  ultimately show ?thesis using assms(3) by (simp add: send_message_def)
qed

lemma recv_message_run:
  assumes "delivers sc conn w (store64 e (htonll e (of_nat (length body)))) w1" "delivers sc conn w1 body w2" "body \<noteq> []" "length body < 2 ^ 64"
    "alloc (length body) = Some mem" "length mem = length body"
  shows "\<exists>err'. recv_message e sc alloc conn w err = Some (0, body, w2, err')"
proof -
  let ?h = "store64 e (htonll e (of_nat (length body)))" let ?n = "of_nat (length body) :: size_t"
  have n: "unat ?n = length body" using assms(4) by (simp add: unat_of_nat take_bit_nat_eq_self_iff)
  then have z: "?n \<noteq> 0" using assms(3) by (metis length_0_conv unsigned_0)
  from recv_data_run[OF assms(1), of 8 "[]" err] obtain e1 where "recv_data sc conn 8 w err [] = Some (8, ?h, w1, e1)" by auto
  moreover from recv_data_run[OF assms(2), of "length body" "[]" e1] obtain e2 where "recv_data sc conn (length body) w1 e1 [] = Some (int (length body), body, w2, e2)" by auto
  ultimately show ?thesis using n z assms(5,6) by (simp add: recv_message_def load64_store64 ntohll_htonll)
qed

end
