(* ===== verification/Api_Requests.thy ===== *)
theory Api_Requests
  imports Api_Wire Efs_Errors
begin

unbundle bit_operations_syntax

text \<open>
  Requests and responses of the API: the client library (\<open>src/lib/requests.c\<close>,
  \<open>src/lib/communication.c\<close>, \<open>src/lib/efs-api.c\<close>) and the daemon (\<open>src/src/api/requests.cpp\<close>,
  \<open>src/src/api/message.h\<close>, \<open>src/src/api/listener.h\<close>).  The messages are the ones of
  \<open>src/common/messages.proto\<close>; the code that packs and parses them is generated, so it is the
  parameter \<open>codec\<close>.  A value that the code does not initialise is \<open>None\<close>, and reading it makes
  the result \<open>None\<close>; so does a write behind an allocation.
\<close>

section \<open>Messages\<close>

datatype user_request_type = LOAD_PATH | UNLOAD_PATH | STATUS | GET_CONFIG | CHANGE_TYPE

record load_path_msg =
  lp_backend :: string
  lp_path :: string
  lp_is_directory :: bool
  lp_offset :: off_t
  lp_size :: size_t

record user_request =
  ur_type :: user_request_type
  ur_load_desc :: "load_path_msg option"
  ur_unload_desc :: "(string \<times> string) option"
  ur_change_desc :: "(string \<times> bool) option"
  ur_tid :: "size_t option"

datatype user_response_type = ACCEPTED | REJECTED

record user_response =
  us_type :: user_response_type
  us_tid :: "size_t option"
  us_status :: "32 word option"

record codec =
  pack_request :: "user_request \<Rightarrow> byte list"
  parse_request :: "byte list \<Rightarrow> user_request option"
  pack_response :: "user_response \<Rightarrow> byte list"
  parse_response :: "byte list \<Rightarrow> user_response option"

text \<open>What the code relies on: a packed message is parsed to itself, and is not empty.\<close>

definition codec_ok :: "codec \<Rightarrow> bool" where
  "codec_ok c \<longleftrightarrow> (\<forall>m. parse_request c (pack_request c m) = Some m \<and> pack_request c m \<noteq> []) \<and>
     (\<forall>m. parse_response c (pack_response c m) = Some m \<and> pack_response c m \<noteq> [])"

section \<open>Requests of the daemon\<close>

type_synonym task_id = "32 word"

datatype request_type = load_path | unload_path | status | get_config | change_file_type | bad_request_type

record request =
  rq_type :: "request_type option"
  rq_backend :: string
  rq_path :: string
  rq_is_directory :: bool
  rq_offset :: off_t
  rq_size :: size_t
  rq_tid :: task_id
  rq_is_persistent :: bool
  rq_dest :: string

text \<open>
  The constructors.  The ones for paths leave \<open>m_type\<close> uninitialised; the other members that
  a constructor does not set are never read.
\<close>

definition blank_request :: request where
  "blank_request = \<lparr>rq_type = None, rq_backend = [], rq_path = [], rq_is_directory = False, rq_offset = 0, rq_size = 0, rq_tid = 0, rq_is_persistent = False, rq_dest = []\<rparr>"

definition type_request :: "request_type \<Rightarrow> request" where
  "type_request ty = blank_request\<lparr>rq_type := Some ty\<rparr>"

definition load_request :: "string \<Rightarrow> string \<Rightarrow> bool \<Rightarrow> off_t \<Rightarrow> size_t \<Rightarrow> request" where
  "load_request backend path is_directory offset sz =
     blank_request\<lparr>rq_type := Some load_path, rq_backend := backend, rq_path := path, rq_is_directory := is_directory, rq_offset := offset, rq_size := sz\<rparr>"

definition status_request :: "task_id \<Rightarrow> request" where
  "status_request tid = blank_request\<lparr>rq_type := Some status, rq_tid := tid\<rparr>"

definition change_request :: "string \<Rightarrow> bool \<Rightarrow> request" where
  "change_request path is_persistent = blank_request\<lparr>rq_path := path, rq_is_persistent := is_persistent\<rparr>"

definition unload_request :: "string \<Rightarrow> string \<Rightarrow> request" where
  "unload_request path dest = blank_request\<lparr>rq_path := path, rq_dest := dest\<rparr>"

definition create_from_buffer :: "codec \<Rightarrow> byte list \<Rightarrow> nat \<Rightarrow> request" where
  "create_from_buffer c buffer sz = (case parse_request c (take sz buffer) of
       None \<Rightarrow> type_request bad_request_type
     | Some ur \<Rightarrow> (case ur_type ur of
         LOAD_PATH \<Rightarrow> (case ur_load_desc ur of
             Some d \<Rightarrow> load_request (lp_backend d) (lp_path d) (lp_is_directory d)
               (if lp_is_directory d then 0 else lp_offset d) (if lp_is_directory d then 0 else lp_size d)
           | None \<Rightarrow> type_request bad_request_type)
       | UNLOAD_PATH \<Rightarrow> (case ur_unload_desc ur of Some (path, dest) \<Rightarrow> unload_request path dest | None \<Rightarrow> type_request bad_request_type)
       | STATUS \<Rightarrow> (case ur_tid ur of Some tid \<Rightarrow> status_request (ucast tid) | None \<Rightarrow> type_request bad_request_type)
       | GET_CONFIG \<Rightarrow> type_request bad_request_type
       | CHANGE_TYPE \<Rightarrow> (case ur_change_desc ur of Some (path, persistent) \<Rightarrow> change_request path persistent | None \<Rightarrow> type_request bad_request_type)))"

section \<open>Responses of the daemon\<close>

datatype response_type = accepted | rejected

record response =
  rs_type :: response_type
  rs_tid :: "task_id option"
  rs_retval :: error_code

definition type_response :: "response_type \<Rightarrow> response" where
  "type_response ty = \<lparr>rs_type = ty, rs_tid = None, rs_retval = success\<rparr>"

definition retval_response :: "response_type \<Rightarrow> error_code \<Rightarrow> response" where
  "retval_response ty ec = \<lparr>rs_type = ty, rs_tid = None, rs_retval = ec\<rparr>"

definition tid_response :: "response_type \<Rightarrow> task_id \<Rightarrow> error_code \<Rightarrow> response" where
  "tid_response ty tid ec = \<lparr>rs_type = ty, rs_tid = Some tid, rs_retval = ec\<rparr>"

definition user_response_of :: "response \<Rightarrow> user_response" where
  "user_response_of r = \<lparr>us_type = (case rs_type r of accepted \<Rightarrow> ACCEPTED | rejected \<Rightarrow> REJECTED),
     us_tid = map_option ucast (rs_tid r), us_status = Some (word_of_int (make_api_error (rs_retval r)))\<rparr>"

definition store_to_buffer :: "codec \<Rightarrow> response \<Rightarrow> byte list \<Rightarrow> byte list" where
  "store_to_buffer c r buffer = buffer @ pack_response c (user_response_of r)"

section \<open>Sessions of the daemon\<close>

definition HEADER_LENGTH :: nat where "HEADER_LENGTH = 8"

record message =
  ms_header :: "byte list"
  ms_header_length :: nat
  ms_body :: "byte list"
  ms_body_length :: nat
  ms_expected_body_length :: size_t

definition new_message :: message where
  "new_message = \<lparr>ms_header = replicate HEADER_LENGTH 0, ms_header_length = 0, ms_body = [], ms_body_length = 0, ms_expected_body_length = 0\<rparr>"

definition clear_message :: message where
  "clear_message = \<lparr>ms_header = [], ms_header_length = 0, ms_body = [], ms_body_length = 0, ms_expected_body_length = 0\<rparr>"

text \<open>Resizing the body throws if there is no memory of that size; then the result is \<open>None\<close>.\<close>

definition decode_header :: "bool \<Rightarrow> (nat \<Rightarrow> bool) \<Rightarrow> message \<Rightarrow> nat \<Rightarrow> (bool \<times> message) option" where
  "decode_header e room m msg_length =
     (if msg_length \<noteq> HEADER_LENGTH then Some (False, m)
      else let n = ntohll e (load64 e (ms_header m))
        in if \<not> room (unat n) then None
           else Some (True, m\<lparr>ms_header_length := HEADER_LENGTH, ms_expected_body_length := n,
             ms_body := take (unat n) (ms_body m) @ replicate (unat n - length (ms_body m)) 0\<rparr>))"

definition decode_body :: "codec \<Rightarrow> message \<Rightarrow> nat \<Rightarrow> request" where
  "decode_body c m msg_length = create_from_buffer c (ms_body m) msg_length"

definition encode_response :: "bool \<Rightarrow> codec \<Rightarrow> message \<Rightarrow> response \<Rightarrow> message" where
  "encode_response e c m r =
     (let body = store_to_buffer c r (ms_body m)
      in m\<lparr>ms_body := body, ms_body_length := length body, ms_header := store64 e (htonll e (of_nat (length body))), ms_header_length := HEADER_LENGTH\<rparr>)"

text \<open>
  A session: the header is read, then as many bytes as it says; the request is handled and
  the response is written.  The result is what is written to the socket, nothing if the
  stream ends early or the body is empty.
\<close>

definition serve :: "bool \<Rightarrow> (nat \<Rightarrow> bool) \<Rightarrow> codec \<Rightarrow> (request \<Rightarrow> 'd \<Rightarrow> (response \<times> 'd) option) \<Rightarrow> byte list \<Rightarrow> 'd \<Rightarrow> (byte list \<times> 'd) option" where
  "serve e room c callback input d =
     (if length input < HEADER_LENGTH then Some ([], d)
      else do {
        let m = new_message\<lparr>ms_header := take HEADER_LENGTH input\<rparr>;
        (ok, m) \<leftarrow> decode_header e room m HEADER_LENGTH;
        let n = unat (ms_expected_body_length m);
        let rest = drop HEADER_LENGTH input;
        if \<not> ok \<or> n = 0 \<or> length rest < n then Some ([], d)
        else do {
          let m = m\<lparr>ms_body := take n rest\<rparr>;
          (resp, d) \<leftarrow> callback (decode_body c m n) d;
          let m = encode_response e c clear_message resp;
          Some (ms_header m @ ms_body m, d) } })"

section \<open>The client library\<close>

record efs_iocb =
  efs_backend :: "string option"
  efs_path :: "string option"
  efs_offset :: off_t
  efs_size :: size_t
  cb_tid :: "32 word"

datatype client_request = EFS_LOAD_PATH | EFS_UNLOAD_PATH | EFS_STATUS | EFS_GET_CONFIG

record response_t =
  r_type :: user_response_type
  r_tid :: "size_t option"
  r_status :: "32 word option"

definition remap_request_type :: "client_request \<Rightarrow> user_request_type option" where
  "remap_request_type ty = (case ty of EFS_LOAD_PATH \<Rightarrow> Some LOAD_PATH | EFS_UNLOAD_PATH \<Rightarrow> Some UNLOAD_PATH | EFS_STATUS \<Rightarrow> Some STATUS | EFS_GET_CONFIG \<Rightarrow> None)"

text \<open>A new message has the first type and no optional parts, and required fields have their defaults.\<close>

definition init_request :: user_request where
  "init_request = \<lparr>ur_type = LOAD_PATH, ur_load_desc = None, ur_unload_desc = None, ur_change_desc = None, ur_tid = None\<rparr>"

text \<open>
  \<open>xstrdup\<close>: the copy has room for the characters and the terminator, and the assignment after
  \<open>strncpy\<close> goes one byte further.
\<close>

definition put_char :: "string \<Rightarrow> nat \<Rightarrow> char \<Rightarrow> string option" where
  "put_char buf i c = (if i < length buf then Some (buf[i := c]) else None)"

definition xstrdup :: "string option \<Rightarrow> string option option" where
  "xstrdup str = (case str of
       None \<Rightarrow> Some None
     | Some s \<Rightarrow> do {
         let sz = length s + 1;
         let res = s @ [CHR 0x00];
         res \<leftarrow> put_char res sz (CHR 0x00);
         Some (Some (takeWhile (\<lambda>c. c \<noteq> CHR 0x00) res)) })"

text \<open>The outer \<open>None\<close> is undefined behaviour, the inner one a null pointer.\<close>

definition build_load_path_msg :: "efs_iocb \<Rightarrow> load_path_msg option option" where
  "build_load_path_msg cb = do {
     b \<leftarrow> xstrdup (efs_backend cb);
     case b of
       None \<Rightarrow> Some None
     | Some b \<Rightarrow> do {
         p \<leftarrow> xstrdup (efs_path cb);
         case p of
           None \<Rightarrow> Some None
         | Some p \<Rightarrow> Some (Some \<lparr>lp_backend = b, lp_path = p, lp_is_directory = False, lp_offset = efs_offset cb, lp_size = efs_size cb\<rparr>) } }"

definition build_request_msg :: "client_request \<Rightarrow> efs_iocb \<Rightarrow> user_request option option" where
  "build_request_msg ty cb = (let
       load_msg = (case remap_request_type ty of
           None \<Rightarrow> Some None
         | Some t \<Rightarrow> map_option (map_option (\<lambda>d. init_request\<lparr>ur_type := t, ur_load_desc := Some d\<rparr>)) (build_load_path_msg cb))
     in case ty of
       EFS_LOAD_PATH \<Rightarrow> load_msg
     | EFS_UNLOAD_PATH \<Rightarrow> load_msg
     | EFS_STATUS \<Rightarrow> Some (map_option (\<lambda>t. init_request\<lparr>ur_type := t, ur_tid := Some (scast (cb_tid cb))\<rparr>) (remap_request_type ty))
     | EFS_GET_CONFIG \<Rightarrow> Some (Some init_request))"

definition pack_to_buffer :: "codec \<Rightarrow> (nat \<Rightarrow> byte list option) \<Rightarrow> client_request \<Rightarrow> efs_iocb \<Rightarrow> (int \<times> byte list) option" where
  "pack_to_buffer c alloc ty cb = do {
     msg \<leftarrow> build_request_msg ty cb;
     Some (case msg of
       None \<Rightarrow> (EFS_API_ENOMEM, [])
     | Some m \<Rightarrow> (case alloc (length (pack_request c m)) of
         None \<Rightarrow> (EFS_API_ENOMEM, [])
       | Some _ \<Rightarrow> (EFS_API_SUCCESS, pack_request c m))) }"

definition unpack_from_buffer :: "codec \<Rightarrow> byte list \<Rightarrow> int \<times> response_t option" where
  "unpack_from_buffer c buf = (case parse_response c buf of
       None \<Rightarrow> (EFS_API_EUNPACKFAILED, None)
     | Some us \<Rightarrow>
         if us_tid us = None \<and> us_status us = None then (EFS_API_EUNPACKFAILED, None)
         else (EFS_API_SUCCESS, Some \<lparr>r_type = us_type us, r_tid = us_tid us, r_status = us_status us\<rparr>))"

record 'w client =
  ce_big_endian :: bool
  ce_codec :: codec
  ce_alloc :: "nat \<Rightarrow> byte list option"
  ce_calls :: "'w syscalls"
  ce_connect :: "'w \<Rightarrow> int \<times> 'w"

definition send_request :: "'w client \<Rightarrow> client_request \<Rightarrow> efs_iocb \<Rightarrow> 'w \<Rightarrow> int \<Rightarrow> (int \<times> response_t option \<times> 'w \<times> int) option" where
  "send_request ce ty cb w err =
     (if ty = EFS_GET_CONFIG then Some (EFS_API_ESNAFU, None, w, err)
      else do {
        (res, req) \<leftarrow> pack_to_buffer (ce_codec ce) (ce_alloc ce) ty cb;
        if res \<noteq> EFS_API_SUCCESS then Some (res, None, w, err)
        else let (conn, w) = ce_connect ce w
          in if conn = -1 then Some (EFS_API_ECONNFAILED, None, w, err)
             else do {
               (r, w, err) \<leftarrow> send_message (ce_big_endian ce) (ce_calls ce) conn req w err;
               if r < 0 then Some (EFS_API_ERPCSENDFAILED, None, w, err)
               else do {
                 (r, resp, w, err) \<leftarrow> recv_message (ce_big_endian ce) (ce_calls ce) (ce_alloc ce) conn w err;
                 if r < 0 then Some (EFS_API_ERPCRECVFAILED, None, w, err)
                 else case unpack_from_buffer (ce_codec ce) resp of (res, rt) \<Rightarrow> Some (res, rt, w, err) } } })"

definition send_load_request :: "'w client \<Rightarrow> efs_iocb \<Rightarrow> 'w \<Rightarrow> int \<Rightarrow> (int \<times> efs_iocb \<times> 'w \<times> int) option" where
  "send_load_request ce cb w err = do {
     (res, rt, w, err) \<leftarrow> send_request ce EFS_LOAD_PATH cb w err;
     if res \<noteq> EFS_API_SUCCESS then Some (res, cb, w, err)
     else do {
       resp \<leftarrow> rt;
       if r_type resp = ACCEPTED then do { tid \<leftarrow> r_tid resp; Some (EFS_API_SUCCESS, cb\<lparr>cb_tid := ucast tid\<rparr>, w, err) }
       else do { st \<leftarrow> r_status resp; Some (sint st, cb, w, err) } } }"

definition send_status_request :: "'w client \<Rightarrow> efs_iocb \<Rightarrow> 'w \<Rightarrow> int \<Rightarrow> (int \<times> 'w \<times> int) option" where
  "send_status_request ce cb w err = do {
     (res, rt, w, err) \<leftarrow> send_request ce EFS_STATUS cb w err;
     if res \<noteq> EFS_API_SUCCESS then Some (res, w, err)
     else do { resp \<leftarrow> rt; st \<leftarrow> r_status resp; Some (sint st, w, err) } }"

text \<open>The request to unload is packed, but not sent.\<close>

definition send_unload_request :: "'w client \<Rightarrow> efs_iocb \<Rightarrow> int option" where
  "send_unload_request ce cb = do {
     (res, _) \<leftarrow> pack_to_buffer (ce_codec ce) (ce_alloc ce) EFS_UNLOAD_PATH cb;
     Some (if res \<noteq> EFS_API_SUCCESS then res else EFS_API_SUCCESS) }"

definition efs_load :: "'w client \<Rightarrow> efs_iocb option \<Rightarrow> 'w \<Rightarrow> int \<Rightarrow> (int \<times> efs_iocb option \<times> 'w \<times> int) option" where
  "efs_load ce cbp w err = (case cbp of
       None \<Rightarrow> Some (EFS_API_EINVAL, None, w, err)
     | Some cb \<Rightarrow>
         if efs_path cb \<noteq> None \<and> efs_offset cb \<ge> 0
         then map_option (\<lambda>(r, cb, w, err). (r, Some cb, w, err)) (send_load_request ce cb w err)
         else Some (EFS_API_EINVAL, Some cb, w, err))"

definition efs_status :: "'w client \<Rightarrow> efs_iocb option \<Rightarrow> 'w \<Rightarrow> int \<Rightarrow> (int \<times> 'w \<times> int) option" where
  "efs_status ce cbp w err = (case cbp of None \<Rightarrow> Some (EFS_API_EINVAL, w, err) | Some cb \<Rightarrow> send_status_request ce cb w err)"

definition efs_unload :: "'w client \<Rightarrow> efs_iocb option \<Rightarrow> int option" where
  "efs_unload ce cbp = (case cbp of None \<Rightarrow> Some EFS_API_EINVAL | Some cb \<Rightarrow> send_unload_request ce cb)"

end
