(* ===== verification/Api_Tasks.thy ===== *)
theory Api_Tasks
  imports Api_Requests Nvml_Backend
begin

text \<open>
  The tasks of the daemon: the tracker of \<open>src/src/api/requests.h\<close> and the handler of requests,
  \<open>context::api_handler\<close> in \<open>src/src/context.cpp\<close>.  A request to load or unload becomes a task
  with a number; a worker of the thread pool runs it later, in two parts between which other
  requests are served, and records its progress in the tracker.
\<close>

section \<open>The tracker\<close>

type_synonym tracker = "task_id \<rightharpoonup> error_code"

text \<open>Adding a number twice fails an assertion.\<close>

definition tracker_add :: "tracker \<Rightarrow> task_id \<Rightarrow> error_code \<Rightarrow> tracker option" where
  "tracker_add m key st = (if m key \<noteq> None then None else Some (m(key \<mapsto> st)))"

definition tracker_get :: "tracker \<Rightarrow> task_id \<Rightarrow> error_code option" where
  "tracker_get m key = m key"

definition tracker_set :: "tracker \<Rightarrow> task_id \<Rightarrow> error_code \<Rightarrow> tracker" where
  "tracker_set m key st = (if m key = None then m else m(key \<mapsto> st))"

definition tracker_exists :: "tracker \<Rightarrow> task_id \<Rightarrow> bool" where
  "tracker_exists m key \<longleftrightarrow> m key \<noteq> None"

section \<open>The daemon\<close>

text \<open>
  \<open>dm_queue\<close> holds the tasks submitted to the pool and \<open>dm_running\<close> the ones a worker has
  started; \<open>dm_last_tid\<close> is the static counter of \<open>create_tid\<close>.
\<close>

record 'w daemon =
  dm_backends :: "(string \<times> backend) list"
  dm_machine :: "'w machine"
  dm_tracker :: tracker
  dm_last_tid :: task_id
  dm_queue :: "(task_id \<times> request) list"
  dm_running :: "(task_id \<times> request) list"

definition create_tid :: "'w daemon \<Rightarrow> task_id \<times> 'w daemon" where
  "create_tid d = (dm_last_tid d + 1, d\<lparr>dm_last_tid := dm_last_tid d + 1\<rparr>)"

definition api_handler :: "request \<Rightarrow> 'w daemon \<Rightarrow> (response \<times> 'w daemon) option" where
  "api_handler rq d = do {
     ty \<leftarrow> rq_type rq;
     if ty = bad_request_type then Some (retval_response rejected bad_request, d)
     else if ty = status
     then Some (retval_response accepted (case tracker_get (dm_tracker d) (rq_tid rq) of Some st \<Rightarrow> st | None \<Rightarrow> no_such_task), d)
     else do {
       let (tid, d) = create_tid d;
       if tracker_exists (dm_tracker d) tid then None
       else do {
         m \<leftarrow> tracker_add (dm_tracker d) tid task_pending;
         Some (tid_response accepted tid success, d\<lparr>dm_tracker := m, dm_queue := dm_queue d @ [(tid, rq)]\<rparr>) } } }"

text \<open>
  The first part of the task: a task with a known back end is marked as running, any other
  ends here.
\<close>

definition task_begin :: "task_id \<Rightarrow> request \<Rightarrow> 'w daemon \<Rightarrow> 'w daemon option" where
  "task_begin tid rq d = do {
     ty \<leftarrow> rq_type rq;
     Some (if (ty = load_path \<or> ty = unload_path) \<and> map_of (dm_backends d) (rq_backend rq) \<noteq> None
           then d\<lparr>dm_tracker := tracker_set (dm_tracker d) tid task_in_progress, dm_running := (tid, rq) # dm_running d\<rparr>
           else d) }"

text \<open>The second part: the back end does the work, and its result is recorded.\<close>

definition task_finish :: "'w host \<Rightarrow> task_id \<Rightarrow> request \<Rightarrow> 'w daemon \<Rightarrow> (stop + (error_code \<times> 'w daemon)) option" where
  "task_finish h tid rq d = do {
     ty \<leftarrow> rq_type rq;
     b \<leftarrow> map_of (dm_backends d) (rq_backend rq);
     ebind (if ty = load_path then load h b (dm_machine d) (rq_path rq) persistent else unload h b (dm_machine d) (rq_path rq)) (\<lambda>(ec, b, s).
       Some (Inr (ec, d\<lparr>dm_backends := AList.update (rq_backend rq) b (dm_backends d), dm_machine := s,
         dm_tracker := tracker_set (dm_tracker d) tid ec, dm_running := removeAll (tid, rq) (dm_running d)\<rparr>))) }"

section \<open>Interleavings\<close>

text \<open>
  The daemon after \<open>k\<close> asynchronous requests, with the results of the tasks that have ended:
  \<open>None\<close> for a task that ended without doing anything.
\<close>

inductive tasks_reach :: "'w host \<Rightarrow> 'w daemon \<Rightarrow> nat \<Rightarrow> 'w daemon \<Rightarrow> (task_id \<rightharpoonup> error_code option) \<Rightarrow> bool" for h d0 where
  start: "tasks_reach h d0 0 d0 (\<lambda>_. None)"
| sync_request: "tasks_reach h d0 k d res \<Longrightarrow> api_handler rq d = Some (r, d) \<Longrightarrow> tasks_reach h d0 k d res"
| async_request: "tasks_reach h d0 k d res \<Longrightarrow> api_handler rq d = Some (r, d') \<Longrightarrow> rs_tid r = Some tid \<Longrightarrow> tasks_reach h d0 (Suc k) d' res"
| begun: "tasks_reach h d0 k d res \<Longrightarrow> dm_queue d = (tid, rq) # q \<Longrightarrow> task_begin tid rq (d\<lparr>dm_queue := q\<rparr>) = Some d' \<Longrightarrow>
    tasks_reach h d0 k d' (if (tid, rq) \<in> set (dm_running d') then res else res(tid \<mapsto> None))"
| finished: "tasks_reach h d0 k d res \<Longrightarrow> (tid, rq) \<in> set (dm_running d) \<Longrightarrow> task_finish h tid rq d = Some (Inr (ec, d')) \<Longrightarrow>
    tasks_reach h d0 k d' (res(tid \<mapsto> Some ec))"

definition new_daemon :: "(string \<times> backend) list \<Rightarrow> 'w machine \<Rightarrow> 'w daemon" where
  "new_daemon bs s = \<lparr>dm_backends = bs, dm_machine = s, dm_tracker = (\<lambda>_. None), dm_last_tid = 0, dm_queue = [], dm_running = []\<rparr>"

text \<open>What the tracker says of a task that is queued, running, or at its end.\<close>

definition phase :: "task_id set \<Rightarrow> task_id set \<Rightarrow> (task_id \<rightharpoonup> error_code option) \<Rightarrow> task_id \<Rightarrow> error_code option" where
  "phase Q R res tid =
     (if tid \<in> Q then Some task_pending else if tid \<in> R then Some task_in_progress
      else map_option (\<lambda>r. case r of Some ec \<Rightarrow> ec | None \<Rightarrow> task_pending) (res tid))"

definition tasks_inv :: "nat \<Rightarrow> 'w daemon \<Rightarrow> (task_id \<rightharpoonup> error_code option) \<Rightarrow> bool" where
  "tasks_inv k d res \<longleftrightarrow> dm_last_tid d = of_nat k \<and> dom (dm_tracker d) = word_of_nat ` {1..k} \<and>
     distinct (map fst (dm_queue d)) \<and> distinct (map fst (dm_running d)) \<and> fst ` set (dm_queue d) \<inter> fst ` set (dm_running d) = {} \<and>
     (\<forall>tid \<in> fst ` set (dm_queue d) \<union> fst ` set (dm_running d). res tid = None) \<and>
     dm_tracker d = phase (fst ` set (dm_queue d)) (fst ` set (dm_running d)) res"

lemma phase_upd:
  "tid \<notin> Q \<Longrightarrow> tid \<notin> R \<Longrightarrow> res tid = None \<Longrightarrow> phase (insert tid Q) R res = (phase Q R res)(tid \<mapsto> task_pending)"
  "tid \<notin> Q \<Longrightarrow> tid \<notin> R \<Longrightarrow> res tid = None \<Longrightarrow> phase Q (insert tid R) res = (phase (insert tid Q) R res)(tid \<mapsto> task_in_progress)"
  "tid \<notin> Q \<Longrightarrow> tid \<notin> R \<Longrightarrow> res tid = None \<Longrightarrow> phase Q R (res(tid \<mapsto> None)) = phase (insert tid Q) R res"
  "tid \<notin> Q \<Longrightarrow> phase Q (R - {tid}) (res(tid \<mapsto> Some ec)) = (phase Q R res)(tid \<mapsto> ec)"
  by (auto simp: phase_def fun_eq_iff)

lemma phase_dom: "phase Q R res tid = None \<longleftrightarrow> tid \<notin> Q \<and> tid \<notin> R \<and> res tid = None"
  by (auto simp: phase_def)

lemma word_new:
  assumes "Suc k < 2 ^ 32"
  shows "(word_of_nat (Suc k) :: task_id) \<notin> word_of_nat ` {1..k}"
proof
  assume "(word_of_nat (Suc k) :: task_id) \<in> word_of_nat ` {1..k}"
  then obtain i where "i \<le> k" "(word_of_nat (Suc k) :: task_id) = word_of_nat i" by auto
  then have "unat (word_of_nat (Suc k) :: task_id) = unat (word_of_nat i :: task_id)" by simp
  then show False using assms \<open>i \<le> k\<close> by (simp add: unat_of_nat take_bit_nat_eq_self_iff take_bit_nat_eq_self del: of_nat_Suc)
qed

lemma async_handler:
  assumes "api_handler rq d = Some (r, d')" "rs_tid r = Some tid"
  shows "tid = dm_last_tid d + 1" "dm_tracker d tid = None"
    "d' = d\<lparr>dm_last_tid := tid, dm_tracker := (dm_tracker d)(tid \<mapsto> task_pending), dm_queue := dm_queue d @ [(tid, rq)]\<rparr>"
  using assms by (auto simp: api_handler_def create_tid_def tracker_exists_def tracker_add_def retval_response_def tid_response_def Let_def
    split: Option.bind_splits if_splits)

lemma tasks_invD:
  assumes "tasks_inv k d res"
  shows "dm_last_tid d = of_nat k" "dom (dm_tracker d) = word_of_nat ` {1..k}" "distinct (map fst (dm_queue d))" "distinct (map fst (dm_running d))"
    "fst ` set (dm_queue d) \<inter> fst ` set (dm_running d) = {}" "\<forall>tid \<in> fst ` set (dm_queue d) \<union> fst ` set (dm_running d). res tid = None"
    "dm_tracker d = phase (fst ` set (dm_queue d)) (fst ` set (dm_running d)) res"
  by (insert assms[unfolded tasks_inv_def], (elim conjE, assumption)+)

lemma tasks_invI:
  assumes "dm_last_tid d = of_nat k" "dom (dm_tracker d) = word_of_nat ` {1..k}" "distinct (map fst (dm_queue d))" "distinct (map fst (dm_running d))"
    "fst ` set (dm_queue d) \<inter> fst ` set (dm_running d) = {}" "\<forall>tid \<in> fst ` set (dm_queue d) \<union> fst ` set (dm_running d). res tid = None"
    "dm_tracker d = phase (fst ` set (dm_queue d)) (fst ` set (dm_running d)) res"
  shows "tasks_inv k d res"
  unfolding tasks_inv_def by (intro conjI) (fact assms)+

lemma async_inv:
  assumes I: "tasks_inv k d res" and r: "api_handler rq d = Some (r, d')" "rs_tid r = Some tid"
  shows "tasks_inv (Suc k) d' res"
proof -
  note A = async_handler[OF r]
  let ?Q = "fst ` set (dm_queue d)" let ?R = "fst ` set (dm_running d)"
  have t: "tid = word_of_nat (Suc k)" using A(1) I by (simp add: tasks_inv_def)
  have ph: "dm_tracker d = phase ?Q ?R res" using I by (simp add: tasks_inv_def)
  then have n: "tid \<notin> ?Q" "tid \<notin> ?R" "res tid = None" using A(2) phase_dom[of ?Q ?R res tid] by simp_all
  have "insert tid (word_of_nat ` {1..k}) = word_of_nat ` {1..Suc k}" unfolding t by (simp add: atLeastAtMostSuc_conv)
  moreover have "dom (dm_tracker d') = insert tid (word_of_nat ` {1..k})" using tasks_invD(2)[OF I] by (simp add: A(3))
  ultimately have D: "dom (dm_tracker d') = word_of_nat ` {1..Suc k}" by simp
  have "dm_tracker d' = phase (fst ` set (dm_queue d')) (fst ` set (dm_running d')) res" using phase_upd(1)[OF n(1,2), of res, OF n(3)] ph A(3) by simp
  from tasks_invI[OF _ D _ _ _ _ this] show ?thesis using tasks_invD(3-6)[OF I] n t by (auto simp: A(3) simp del: of_nat_Suc)
qed

lemma begin_inv:
  assumes I: "tasks_inv k d res" and q: "dm_queue d = (tid, rq) # q" and b: "task_begin tid rq (d\<lparr>dm_queue := q\<rparr>) = Some d'"
  shows "tasks_inv k d' (if (tid, rq) \<in> set (dm_running d') then res else res(tid \<mapsto> None))"
proof -
  let ?Q = "fst ` set q" let ?R = "fst ` set (dm_running d)"
  have n: "tid \<notin> ?Q" "tid \<notin> ?R" "res tid = None" using I q by (auto simp: tasks_inv_def)
  have ph: "dm_tracker d = phase (insert tid ?Q) ?R res" using I q by (simp add: tasks_inv_def)
  have D: "dom (dm_tracker d) = word_of_nat ` {1..k}" by (rule tasks_invD(2)[OF I])
  have nr: "(tid, rq) \<notin> set (dm_running d)" using n(2) by force
  have pe: "dm_tracker d tid = Some task_pending" using ph by (simp add: phase_def)
  show ?thesis
  proof (cases "(tid, rq) \<in> set (dm_running d')")
    case True
    then have d': "d' = d\<lparr>dm_queue := q, dm_tracker := (dm_tracker d)(tid \<mapsto> task_in_progress), dm_running := (tid, rq) # dm_running d\<rparr>"
      using b nr pe by (auto simp: task_begin_def tracker_set_def split: Option.bind_splits if_splits)
    have "dm_tracker d' = phase (fst ` set (dm_queue d')) (fst ` set (dm_running d')) res" using phase_upd(2)[OF n(1,2), of res, OF n(3)] ph d' by simp
    moreover have "tid \<in> dom (dm_tracker d)" using pe by auto
    then have "dom (dm_tracker d') = word_of_nat ` {1..k}" using D by (simp add: d' insert_absorb)
    ultimately have "tasks_inv k d' res" using tasks_invD(1,3-6)[OF I] q n by (intro tasks_invI) (auto simp: d')
    then show ?thesis using True by simp
  next
    case False
    then have d': "d' = d\<lparr>dm_queue := q\<rparr>" using b by (auto simp: task_begin_def split: Option.bind_splits if_splits)
    then have "dm_tracker d' = phase (fst ` set (dm_queue d')) (fst ` set (dm_running d')) (res(tid \<mapsto> None))" using phase_upd(3)[OF n(1,2), of res, OF n(3)] ph by simp
    moreover have "dom (dm_tracker d') = word_of_nat ` {1..k}" using D by (simp add: d')
    ultimately have "tasks_inv k d' (res(tid \<mapsto> None))" using tasks_invD(1,3-6)[OF I] q n by (intro tasks_invI) (auto simp: d')
    then show ?thesis using False by simp
  qed
qed

lemma finish_inv:
  assumes I: "tasks_inv k d res" and m: "(tid, rq) \<in> set (dm_running d)" and f: "task_finish h tid rq d = Some (Inr (ec, d'))"
  shows "tasks_inv k d' (res(tid \<mapsto> Some ec))"
proof -
  let ?Q = "fst ` set (dm_queue d)" let ?R = "fst ` set (dm_running d)"
  have t: "tid \<in> ?R" using m by force
  then have n: "tid \<notin> ?Q" using I by (auto simp: tasks_inv_def)
  have ph: "dm_tracker d = phase ?Q ?R res" and di: "distinct (map fst (dm_running d))" using I by (simp_all add: tasks_inv_def)
  have p: "dm_tracker d tid = Some task_in_progress" using ph n t by (simp add: phase_def)
  obtain bs s where d': "d' = d\<lparr>dm_backends := bs, dm_machine := s, dm_tracker := (dm_tracker d)(tid \<mapsto> ec), dm_running := removeAll (tid, rq) (dm_running d)\<rparr>"
    using f p by (auto simp: task_finish_def ebind_def tracker_set_def split: Option.bind_splits option.splits sum.splits)
  have u: "(tid, rq') \<in> set (dm_running d) \<Longrightarrow> rq' = rq" for rq' using di m by (metis eq_key_imp_eq_value)
  have R: "fst ` set (removeAll (tid, rq) (dm_running d)) = ?R - {tid}" using u by force
  have "distinct (map fst (removeAll (tid, rq) (dm_running d)))" using di by (simp add: removeAll_filter_not_eq distinct_map_filter)
  moreover have "dm_tracker d' = phase (fst ` set (dm_queue d')) (fst ` set (dm_running d')) (res(tid \<mapsto> Some ec))" using phase_upd(4)[OF n] ph R d' by simp
  moreover have "tid \<in> dom (dm_tracker d)" using p by auto
  then have "dom (dm_tracker d') = word_of_nat ` {1..k}" using tasks_invD(2)[OF I] by (simp add: d' insert_absorb)
  ultimately show ?thesis using tasks_invD(1,3,5,6)[OF I] n R by (intro tasks_invI) (auto simp: d')
qed

lemma tasks_reach_inv: "tasks_reach h d0 k d res \<Longrightarrow> d0 = new_daemon bs s \<Longrightarrow> tasks_inv k d res"
proof (induction rule: tasks_reach.induct)
  case start
  then show ?case by (simp add: tasks_inv_def new_daemon_def phase_def fun_eq_iff)
qed (auto simp: async_inv begin_inv finish_inv)

end
