(* ===== verification/Api_Sample.thy ===== *)
theory Api_Sample
  imports Api_Requests
begin

text \<open>
  A codec and a client for the examples of the API.  A message is a list of fields, a field is a
  list of numbers, and a number is written as a row of ones; the connection of the client has
  the bytes it will deliver, and takes all it is sent.
\<close>

section \<open>Fields\<close>

definition put_field :: "nat list \<Rightarrow> byte list" where
  "put_field ns = concat (map (\<lambda>n. replicate n 1 @ [2]) ns) @ [3]"

definition put_fields :: "nat list list \<Rightarrow> byte list" where
  "put_fields fs = 0 # concat (map put_field fs)"

fun get_fields :: "byte list \<Rightarrow> nat \<Rightarrow> nat list \<Rightarrow> nat list list" where
  "get_fields [] n ns = []"
| "get_fields (b # bs) n ns =
     (if b = 1 then get_fields bs (Suc n) ns else if b = 2 then get_fields bs 0 (ns @ [n]) else if b = 3 then ns # get_fields bs 0 [] else get_fields bs n ns)"

lemma get_number: "get_fields (replicate k 1 @ bs) n ns = get_fields bs (n + k) ns"
  by (induction k arbitrary: n) auto

lemma get_field: "get_fields (concat (map (\<lambda>n. replicate n 1 @ [2]) ms) @ 3 # bs) 0 ns = (ns @ ms) # get_fields bs 0 []"
  by (induction ms arbitrary: ns) (simp_all add: get_number)

lemma get_put_fields: "get_fields (put_fields fs) 0 [] = fs"
proof -
  have "get_fields (concat (map put_field fs)) 0 [] = fs" by (induction fs) (simp_all add: put_field_def get_field)
  then show ?thesis by (simp add: put_fields_def)
qed

section \<open>Messages\<close>

definition put_string :: "string \<Rightarrow> nat list" where "put_string = map of_char"
definition get_string :: "nat list \<Rightarrow> string" where "get_string = map char_of"
definition put_int :: "int \<Rightarrow> nat list" where "put_int i = [of_bool (i < 0), nat \<bar>i\<bar>]"
definition get_int :: "nat list \<Rightarrow> int" where "get_int ns = (if ns ! 0 = 1 then - int (ns ! 1) else int (ns ! 1))"
definition put_opt :: "('a::len word) option \<Rightarrow> nat list" where "put_opt x = (case x of None \<Rightarrow> [] | Some w \<Rightarrow> [unat w])"
definition get_opt :: "nat list \<Rightarrow> ('a::len word) option" where "get_opt ns = (case ns of [] \<Rightarrow> None | n # _ \<Rightarrow> Some (of_nat n))"

lemma get_put [simp]: "get_string (put_string s) = s" "get_int (put_int i) = i" "get_opt (put_opt x) = x"
  by (simp_all add: get_string_def put_string_def comp_def get_int_def put_int_def get_opt_def put_opt_def split: option.split)

definition type_codes :: "(user_request_type \<times> nat) list" where
  "type_codes = [(LOAD_PATH, 0), (UNLOAD_PATH, 1), (STATUS, 2), (GET_CONFIG, 3), (CHANGE_TYPE, 4)]"

definition sample_pack :: "user_request \<Rightarrow> byte list" where
  "sample_pack m = put_fields
     ([the (map_of type_codes (ur_type m))] # put_opt (ur_tid m)
      # (case ur_load_desc m of None \<Rightarrow> [[], [], [], []]
         | Some d \<Rightarrow> [put_string (lp_backend d), put_string (lp_path d), put_int (lp_offset d), [unat (lp_size d), of_bool (lp_is_directory d)]])
      @ (case ur_unload_desc m of None \<Rightarrow> [[], [], []] | Some (p, q) \<Rightarrow> [[1], put_string p, put_string q])
      @ (case ur_change_desc m of None \<Rightarrow> [[], []] | Some (p, b) \<Rightarrow> [put_string p, [of_bool b]]))"

definition sample_parse :: "byte list \<Rightarrow> user_request option" where
  "sample_parse bs = (case get_fields bs 0 [] of
       [ty, tid, b, p, off, sz, u, from, dest, cp, cb] \<Rightarrow> Some \<lparr>
         ur_type = fst (type_codes ! (ty ! 0)),
         ur_load_desc = (if sz = [] then None else Some \<lparr>lp_backend = get_string b, lp_path = get_string p, lp_is_directory = (sz ! 1 = 1), lp_offset = get_int off, lp_size = of_nat (sz ! 0)\<rparr>),
         ur_unload_desc = (if u = [] then None else Some (get_string from, get_string dest)),
         ur_change_desc = (if cb = [] then None else Some (get_string cp, cb ! 0 = 1)),
         ur_tid = get_opt tid\<rparr>
     | _ \<Rightarrow> None)"

definition sample_pack_response :: "user_response \<Rightarrow> byte list" where
  "sample_pack_response m = put_fields [[case us_type m of ACCEPTED \<Rightarrow> 0 | REJECTED \<Rightarrow> 1], put_opt (us_tid m), put_opt (us_status m)]"

definition sample_parse_response :: "byte list \<Rightarrow> user_response option" where
  "sample_parse_response bs = (case get_fields bs 0 [] of
       [ty, tid, st] \<Rightarrow> Some \<lparr>us_type = (if ty ! 0 = 0 then ACCEPTED else REJECTED), us_tid = get_opt tid, us_status = get_opt st\<rparr>
     | _ \<Rightarrow> None)"

definition sample_codec :: codec where
  "sample_codec = \<lparr>pack_request = sample_pack, parse_request = sample_parse, pack_response = sample_pack_response, parse_response = sample_parse_response\<rparr>"

lemma sample_codec_ok: "codec_ok sample_codec"
proof -
  have "sample_parse (sample_pack m) = Some m" for m
  proof -
    have "fst (type_codes ! the (map_of type_codes (ur_type m))) = ur_type m" by (cases "ur_type m") (simp_all add: type_codes_def)
    then show ?thesis unfolding sample_parse_def sample_pack_def get_put_fields
      by (cases m, cases "ur_load_desc m", auto simp: option.case_eq_if split: option.splits prod.splits)
  qed
  moreover have "sample_parse_response (sample_pack_response m) = Some m" for m
    unfolding sample_parse_response_def sample_pack_response_def get_put_fields by (cases m) (auto split: user_response_type.splits)
  moreover have "put_fields fs \<noteq> []" for fs by (simp add: put_fields_def)
  ultimately show ?thesis by (simp add: codec_ok_def sample_codec_def sample_pack_def sample_pack_response_def)
qed

section \<open>A client\<close>

definition socket_calls :: "byte list syscalls" where
  "socket_calls = \<lparr>sc_read = (\<lambda>w _ n _. (Inr (take n w), drop n w)), sc_write = (\<lambda>w _ bs _. (Inr (length bs), w)), sc_splice = (\<lambda>w _ _ _ _ _. (Inl 5, w))\<rparr>"

definition sample_client :: "byte list client" where
  "sample_client = \<lparr>ce_big_endian = False, ce_codec = sample_codec, ce_alloc = (\<lambda>n. Some (replicate n 0)), ce_calls = socket_calls, ce_connect = (\<lambda>w. (3, w))\<rparr>"

definition sample_cb :: efs_iocb where
  "sample_cb = \<lparr>efs_backend = Some ''n'', efs_path = Some ''/a'', efs_offset = 0, efs_size = 5, cb_tid = 0\<rparr>"

lemma sample_accepts: "accepts socket_calls c w bs w"
proof (cases "bs = []")
  case True
  then show ?thesis by (simp add: accepts.nothing)
next
  case False
  then show ?thesis using accepts.part[of socket_calls w c bs "[]" w w] by (simp add: socket_calls_def accepts.nothing)
qed

lemma sample_delivers: "delivers socket_calls c (bs @ w) bs w"
proof (cases "bs = []")
  case True
  then show ?thesis by (simp add: delivers.nothing)
next
  case False
  then show ?thesis using delivers.part[of socket_calls "bs @ w" c bs "[]" w w] by (simp add: socket_calls_def delivers.nothing)
qed

end
