(* ===== verification/Api_Props.thy ===== *)
theory Api_Props
  imports Api_Tasks Api_Sample Nvml_Names_Props
begin

text \<open>
  The API from end to end: what a client asks for with \<open>efs_status\<close> is what the daemon handles,
  and its answer comes back; the socket may transfer the bytes in pieces.  A request to load is
  handled by the daemon as it was packed, but packing it in the client library writes behind
  an allocation.
\<close>

section \<open>One exchange\<close>

lemma serve_run:
  assumes "codec_ok c" "body = pack_request c m" "length body < 2 ^ 31" "room (length body)"
  shows "serve e room c callback (frame e body) d = map_option (\<lambda>(r, d). (frame e (pack_response c (user_response_of r)), d)) (callback (create_from_buffer c body (length body)) d)"
proof -
  let ?n = "of_nat (length body) :: size_t"
  have n: "unat ?n = length body" using assms(3) by (simp add: unat_of_nat take_bit_nat_eq_self_iff)
  have b: "body \<noteq> []" using assms(1,2) by (simp add: codec_ok_def)
  have "ntohll e (load64 e (store64 e (htonll e ?n))) = ?n" by (simp add: load64_store64 ntohll_htonll)
  then show ?thesis using b n assms(4)
    by (cases "callback (create_from_buffer c body (length body)) d")
      (auto simp: serve_def frame_def HEADER_LENGTH_def decode_header_def new_message_def decode_body_def encode_response_def clear_message_def store_to_buffer_def Let_def)
qed

lemma exchange_run:
  assumes c: "codec_ok (ce_codec ce)" and al: "\<forall>n. \<exists>mem. ce_alloc ce n = Some mem \<and> length mem = n" and ty: "ty \<noteq> EFS_GET_CONFIG" "build_request_msg ty cb = Some (Some m)"
    and cn: "ce_connect ce w = (conn, w0)" "conn \<noteq> -1"
    and sn: "accepts (ce_calls ce) conn w0 (store64 (ce_big_endian ce) (htonll (ce_big_endian ce) (of_nat (length (pack_request (ce_codec ce) m))))) w1"
      "accepts (ce_calls ce) conn w1 (pack_request (ce_codec ce) m) w2"
    and rv: "body = pack_response (ce_codec ce) us" "length body < 2 ^ 31" "us_status us \<noteq> None"
      "delivers (ce_calls ce) conn w2 (store64 (ce_big_endian ce) (htonll (ce_big_endian ce) (of_nat (length body)))) w3" "delivers (ce_calls ce) conn w3 body w4"
  shows "\<exists>err'. send_request ce ty cb w err = Some (EFS_API_SUCCESS, Some \<lparr>r_type = us_type us, r_tid = us_tid us, r_status = us_status us\<rparr>, w4, err')"
proof -
  have q: "pack_request (ce_codec ce) m \<noteq> []" "body \<noteq> []" "parse_response (ce_codec ce) body = Some us" using c rv(1) by (auto simp: codec_ok_def)
  obtain mem where mem: "ce_alloc ce (length body) = Some mem" "length mem = length body" using al by blast
  obtain mem' where "ce_alloc ce (length (pack_request (ce_codec ce) m)) = Some mem'" using al by blast
  then have p: "pack_to_buffer (ce_codec ce) (ce_alloc ce) ty cb = Some (EFS_API_SUCCESS, pack_request (ce_codec ce) m)" using ty(2) by (simp add: pack_to_buffer_def)
  from send_message_run[OF sn q(1), of err] obtain e1 where
    s: "send_message (ce_big_endian ce) (ce_calls ce) conn (pack_request (ce_codec ce) m) w0 err = Some (0, w2, e1)" by blast
  have l: "length body < 2 ^ 64" using rv(2) by simp
  from recv_message_run[where alloc = "ce_alloc ce" and err = e1, OF rv(4,5) q(2) l mem] obtain e2 where
    r: "recv_message (ce_big_endian ce) (ce_calls ce) (ce_alloc ce) conn w2 e1 = Some (0, body, w4, e2)" by blast
  show ?thesis using ty(1) p cn s r q(3) rv(3) by (auto simp: send_request_def unpack_from_buffer_def)
qed

lemma tid_there_and_back: "ucast (ucast (t :: task_id) :: size_t) = t" "ucast (scast (t :: task_id) :: size_t) = t"
  by (rule bit_word_eqI; auto simp: bit_simps)+

lemma api_error_word: "sint (word_of_int (make_api_error ec) :: 32 word) = make_api_error ec"
  by (cases ec) (simp_all add: api_codes)

section \<open>Tasks that do nothing\<close>

lemma idle_persists:
  "tasks_reach h d0 k d res \<Longrightarrow> dm_tracker d0 tid = Some st \<Longrightarrow> tid \<notin> fst ` set (dm_queue d0) \<union> fst ` set (dm_running d0) \<Longrightarrow>
    dm_tracker d tid = Some st \<and> tid \<notin> fst ` set (dm_queue d) \<union> fst ` set (dm_running d)"
proof (induction rule: tasks_reach.induct)
  case (async_request k d res rq r d' t)
  then show ?case using async_handler[OF async_request.hyps(2,3)] by auto
next
  case (begun k d res t rq q d')
  then have a: "dm_tracker d tid = Some st" "tid \<noteq> t" "tid \<notin> fst ` set q" "tid \<notin> fst ` set (dm_running d)" by auto
  have "d' = d\<lparr>dm_queue := q\<rparr> \<or> d' = d\<lparr>dm_queue := q, dm_tracker := tracker_set (dm_tracker d) t task_in_progress, dm_running := (t, rq) # dm_running d\<rparr>"
    using begun.hyps(3) by (auto simp: task_begin_def split: Option.bind_splits if_splits)
  then show ?case using a by (auto simp: tracker_set_def)
next
  case (finished k d res t rq ec d')
  then have a: "dm_tracker d tid = Some st" "tid \<noteq> t" "tid \<notin> fst ` set (dm_queue d)" "tid \<notin> fst ` set (dm_running d)" by force+
  obtain bs s where "d' = d\<lparr>dm_backends := bs, dm_machine := s, dm_tracker := tracker_set (dm_tracker d) t ec, dm_running := removeAll (t, rq) (dm_running d)\<rparr>"
    using finished.hyps(3) by (auto simp: task_finish_def ebind_def split: Option.bind_splits option.splits sum.splits)
  then show ?case using a by (auto simp: tracker_set_def)
qed simp_all

text \<open>
  The client library: every copy of a string is undefined, so \<open>efs_load\<close> is undefined for every
  valid request that names a back end, and so is \<open>efs_unload\<close>.
\<close>

lemma xstrdup_overruns: "xstrdup (Some s) = None"
  by (simp add: xstrdup_def put_char_def)

lemma load_undefined:
  assumes "efs_backend cb = Some b"
  shows "efs_path cb = Some p \<Longrightarrow> 0 \<le> efs_offset cb \<Longrightarrow> efs_load ce (Some cb) w err = None" "efs_unload ce (Some cb) = None"
proof -
  have "build_load_path_msg cb = None" using assms by (simp add: build_load_path_msg_def xstrdup_overruns)
  then have n: "pack_to_buffer c al EFS_LOAD_PATH cb = None" "pack_to_buffer c al EFS_UNLOAD_PATH cb = None" for c al
    by (simp_all add: pack_to_buffer_def build_request_msg_def remap_request_type_def)
  show "efs_path cb = Some p \<Longrightarrow> 0 \<le> efs_offset cb \<Longrightarrow> efs_load ce (Some cb) w err = None"
    by (simp add: efs_load_def send_load_request_def send_request_def n)
  show "efs_unload ce (Some cb) = None" by (simp add: efs_unload_def send_unload_request_def n)
qed

text \<open>
  Requests to unload never arrive: a message of that type without the part the daemon looks for,
  as the client library has it, would be refused, and is not sent; and the daemon reads the
  type of a complete one, which it has not set.
\<close>

lemma unload_lost:
  assumes "codec_ok c"
  shows "ur_type m = UNLOAD_PATH \<Longrightarrow> ur_unload_desc m = None \<Longrightarrow> create_from_buffer c (pack_request c m) (length (pack_request c m)) = type_request bad_request_type"
    "ur_type m = UNLOAD_PATH \<Longrightarrow> ur_unload_desc m \<noteq> None \<Longrightarrow> api_handler (create_from_buffer c (pack_request c m) (length (pack_request c m))) d = None"
    "ur_type m = CHANGE_TYPE \<Longrightarrow> ur_change_desc m \<noteq> None \<Longrightarrow> api_handler (create_from_buffer c (pack_request c m) (length (pack_request c m))) d = None"
  using assms by (auto simp: codec_ok_def create_from_buffer_def unload_request_def change_request_def blank_request_def api_handler_def)

section \<open>Properties\<close>

text \<open>
  C12: A client that asks for the status of a task with \<open>efs_status\<close> gets the error code of what the
  daemon's tracker has for the number of that task, or of \<open>no_such_task\<close> if there is none; the
  daemon is not changed.  The request is encoded, framed, sent in pieces, received and decoded
  on the way, and so is the answer.
\<close>

theorem status_served:
  assumes "codec_ok (ce_codec ce)" "\<forall>n. \<exists>mem. ce_alloc ce n = Some mem \<and> length mem = n"
    "body = pack_request (ce_codec ce) (init_request\<lparr>ur_type := STATUS, ur_tid := Some (scast (cb_tid cb))\<rparr>)" "length body < 2 ^ 31" "room (length body)"
    "ec = (case dm_tracker d (cb_tid cb) of Some st \<Rightarrow> st | None \<Rightarrow> no_such_task)"
    "resp = pack_response (ce_codec ce) (user_response_of (retval_response accepted ec))" "length resp < 2 ^ 31"
  shows "serve (ce_big_endian ce) room (ce_codec ce) api_handler (frame (ce_big_endian ce) body) d = Some (frame (ce_big_endian ce) resp, d) \<and>
    (\<forall>w conn w0 w1 w2 w3 w4 err. ce_connect ce w = (conn, w0) \<and> conn \<noteq> -1 \<and>
      accepts (ce_calls ce) conn w0 (take 8 (frame (ce_big_endian ce) body)) w1 \<and> accepts (ce_calls ce) conn w1 (drop 8 (frame (ce_big_endian ce) body)) w2 \<and>
      delivers (ce_calls ce) conn w2 (take 8 (frame (ce_big_endian ce) resp)) w3 \<and> delivers (ce_calls ce) conn w3 (drop 8 (frame (ce_big_endian ce) resp)) w4 \<longrightarrow>
      (\<exists>err'. efs_status ce (Some cb) w err = Some (make_api_error ec, w4, err')))"
proof (rule conjI)
  let ?m = "init_request\<lparr>ur_type := STATUS, ur_tid := Some (scast (cb_tid cb))\<rparr>"
  have bm: "build_request_msg EFS_STATUS cb = Some (Some ?m)" by (simp add: build_request_msg_def remap_request_type_def)
  have rq: "create_from_buffer (ce_codec ce) body (length body) = status_request (cb_tid cb)"
    using assms(1,3) by (simp add: create_from_buffer_def codec_ok_def tid_there_and_back)
  have h: "api_handler (status_request (cb_tid cb)) d = Some (retval_response accepted ec, d)"
    using assms(6) by (simp add: api_handler_def status_request_def tracker_get_def)
  show "serve (ce_big_endian ce) room (ce_codec ce) api_handler (frame (ce_big_endian ce) body) d = Some (frame (ce_big_endian ce) resp, d)"
    using serve_run[where room = room and e = "ce_big_endian ce" and callback = api_handler and d = d, OF assms(1,3-5)] rq h assms(7) by simp
  have us: "us_status (user_response_of (retval_response accepted ec)) \<noteq> None" by (simp add: user_response_of_def)
  have f: "take 8 (frame e bs) = store64 e (htonll e (of_nat (length bs)))" "drop 8 (frame e bs) = bs" for e bs by (simp_all add: frame_def)
  have ty: "EFS_STATUS \<noteq> EFS_GET_CONFIG" by simp
  have "\<exists>err'. efs_status ce (Some cb) w err = Some (make_api_error ec, w4, err')"
    if a: "ce_connect ce w = (conn, w0)" "conn \<noteq> -1"
      "accepts (ce_calls ce) conn w0 (take 8 (frame (ce_big_endian ce) body)) w1" "accepts (ce_calls ce) conn w1 (drop 8 (frame (ce_big_endian ce) body)) w2"
      "delivers (ce_calls ce) conn w2 (take 8 (frame (ce_big_endian ce) resp)) w3" "delivers (ce_calls ce) conn w3 (drop 8 (frame (ce_big_endian ce) resp)) w4" for w conn w0 w1 w2 w3 w4 err
    using exchange_run[where err = err, OF assms(1,2) ty bm a(1,2) a(3,4)[unfolded f assms(3)] assms(7,8) us a(5,6)[unfolded f]]
    by (auto simp: efs_status_def send_status_request_def user_response_of_def retval_response_def api_error_word)
  then show "\<forall>w conn w0 w1 w2 w3 w4 err. ce_connect ce w = (conn, w0) \<and> conn \<noteq> -1 \<and>
      accepts (ce_calls ce) conn w0 (take 8 (frame (ce_big_endian ce) body)) w1 \<and> accepts (ce_calls ce) conn w1 (drop 8 (frame (ce_big_endian ce) body)) w2 \<and>
      delivers (ce_calls ce) conn w2 (take 8 (frame (ce_big_endian ce) resp)) w3 \<and> delivers (ce_calls ce) conn w3 (drop 8 (frame (ce_big_endian ce) resp)) w4 \<longrightarrow>
      (\<exists>err'. efs_status ce (Some cb) w err = Some (make_api_error ec, w4, err'))" by blast
qed

text \<open>
  A packed request to load a file is queued by the daemon under a new number, for the back end,
  path, offset and size it names, and the answer has that number.
\<close>

theorem load_queued:
  assumes "codec_ok c" "m = init_request\<lparr>ur_load_desc := Some \<lparr>lp_backend = b, lp_path = p, lp_is_directory = False, lp_offset = off, lp_size = sz\<rparr>\<rparr>"
    "body = pack_request c m" "length body < 2 ^ 31" "room (length body)" "tid = dm_last_tid d + 1" "dm_tracker d tid = None"
  shows "\<exists>d'. serve e room c api_handler (frame e body) d = Some (frame e (pack_response c (user_response_of (tid_response accepted tid success))), d') \<and>
    dm_queue d' = dm_queue d @ [(tid, load_request b p False off sz)] \<and> dm_tracker d' = (dm_tracker d)(tid \<mapsto> task_pending)"
proof -
  let ?rq = "load_request b p False off sz"
  have rq: "create_from_buffer c body (length body) = ?rq"
    using assms(1-3) by (simp add: create_from_buffer_def codec_ok_def init_request_def)
  let ?d = "d\<lparr>dm_last_tid := tid, dm_tracker := (dm_tracker d)(tid \<mapsto> task_pending), dm_queue := dm_queue d @ [(tid, ?rq)]\<rparr>"
  have h: "api_handler ?rq d = Some (tid_response accepted tid success, ?d)"
    using assms(6,7) by (simp add: api_handler_def load_request_def create_tid_def tracker_exists_def tracker_add_def)
  then show ?thesis using serve_run[where room = room and e = e and callback = api_handler and d = d, OF assms(1,3-5)] rq by simp
qed

text \<open>
  C13: After any interleaving of requests with the work of the pool, a request for the status of a
  task is answered as follows: with \<open>no_such_task\<close> if its number was never given, with
  \<open>task_pending\<close> if it waits, with \<open>task_in_progress\<close> if it runs, with its result if it has ended
  with one, and with \<open>task_pending\<close> also if it has ended without a result, which is what happens
  to a task whose back end is unknown.  The next task gets a number that is not in use, as long
  as fewer than \<open>2 ^ 32 - 1\<close> tasks have been submitted.
\<close>

theorem task_status:
  assumes "tasks_reach h (new_daemon bs s) k d res" "Suc k < 2 ^ 32"
  shows "api_handler (status_request tid) d = Some (retval_response accepted
      (if tid \<notin> word_of_nat ` {1..k} then no_such_task
       else if tid \<in> fst ` set (dm_queue d) then task_pending
       else if tid \<in> fst ` set (dm_running d) then task_in_progress
       else case res tid of Some (Some ec) \<Rightarrow> ec | _ \<Rightarrow> task_pending), d) \<and>
    (rq_type rq \<notin> {None, Some status, Some bad_request_type} \<longrightarrow>
      (\<exists>d' tid'. api_handler rq d = Some (tid_response accepted tid' success, d') \<and> dm_tracker d tid' = None \<and> dm_queue d' = dm_queue d @ [(tid', rq)]))"
proof (intro conjI impI)
  note T = tasks_invD[OF tasks_reach_inv[OF assms(1) refl]]
  have "tid \<in> word_of_nat ` {1..k} \<longleftrightarrow> dm_tracker d tid \<noteq> None" using T(2) by (auto simp: dom_def)
  then show "api_handler (status_request tid) d = Some (retval_response accepted
      (if tid \<notin> word_of_nat ` {1..k} then no_such_task
       else if tid \<in> fst ` set (dm_queue d) then task_pending
       else if tid \<in> fst ` set (dm_running d) then task_in_progress
       else case res tid of Some (Some ec) \<Rightarrow> ec | _ \<Rightarrow> task_pending), d)"
    by (auto simp: api_handler_def status_request_def tracker_get_def T(7) phase_def split: option.splits)
  assume "rq_type rq \<notin> {None, Some status, Some bad_request_type}"
  moreover have "dm_tracker d (dm_last_tid d + 1) = None" using word_new[OF assms(2)] T(1,2) by (auto simp: add.commute)
  ultimately show "\<exists>d' tid'. api_handler rq d = Some (tid_response accepted tid' success, d') \<and> dm_tracker d tid' = None \<and> dm_queue d' = dm_queue d @ [(tid', rq)]"
    by (auto simp: api_handler_def create_tid_def tracker_exists_def tracker_add_def)
qed

text \<open>
  A task for a back end that does not exist ends without a result: from then on it is reported
  as pending, whatever the daemon does.
\<close>

theorem lost_tasks:
  assumes "tasks_reach h (new_daemon bs s) k d res" "dm_queue d = (tid, rq) # q" "rq_type rq = Some load_path" "map_of (dm_backends d) (rq_backend rq) = None"
  shows "\<exists>d'. task_begin tid rq (d\<lparr>dm_queue := q\<rparr>) = Some d' \<and>
    (\<forall>k' d'' res'. tasks_reach h d' k' d'' res' \<longrightarrow> api_handler (status_request tid) d'' = Some (retval_response accepted task_pending, d''))"
proof -
  have I: "tasks_inv k d res" by (rule tasks_reach_inv[OF assms(1) refl])
  have t: "dm_tracker d tid = Some task_pending" using tasks_invD(7)[OF I] assms(2) by (simp add: phase_def)
  have n: "tid \<notin> fst ` set q \<union> fst ` set (dm_running d)" using tasks_invD(3,5)[OF I] assms(2) by auto
  have "api_handler (status_request tid) d'' = Some (retval_response accepted task_pending, d'')" if "tasks_reach h (d\<lparr>dm_queue := q\<rparr>) k' d'' res'" for k' d'' res'
    using idle_persists[OF that, of tid task_pending] t n by (simp add: api_handler_def status_request_def tracker_get_def)
  then show ?thesis using assms(3,4) by (intro exI[of _ "d\<lparr>dm_queue := q\<rparr>"]) (auto simp: task_begin_def)
qed

section \<open>Examples\<close>

definition sample_query :: user_request where
  "sample_query = init_request\<lparr>ur_type := STATUS, ur_tid := Some 1\<rparr>"

definition sample_answer :: user_response where
  "sample_answer = user_response_of (retval_response accepted success)"

definition sample_daemon :: "unit daemon" where
  "sample_daemon = new_daemon [(''nvml'', sample_backend)] sample_machine"

text \<open>A daemon whose first task has ended with success, and a client that has its number.\<close>

definition done_daemon :: "unit daemon" where
  "done_daemon = sample_daemon\<lparr>dm_last_tid := 1, dm_tracker := [1 \<mapsto> success]\<rparr>"

definition done_cb :: efs_iocb where
  "done_cb = sample_cb\<lparr>cb_tid := 1\<rparr>"

lemma sample_lengths: "length (sample_pack sample_query) < 2 ^ 31" "length (sample_pack_response sample_answer) < 2 ^ 31"
  by (simp_all add: sample_pack_def sample_query_def init_request_def type_codes_def put_fields_def put_field_def put_opt_def put_string_def put_int_def
    sample_pack_response_def sample_answer_def user_response_of_def retval_response_def api_codes)

theorem status_served_witness:
  "\<exists>err'. serve False (\<lambda>_. True) sample_codec api_handler (frame False (sample_pack sample_query)) done_daemon =
      Some (frame False (sample_pack_response sample_answer), done_daemon) \<and>
    efs_status sample_client (Some done_cb) (frame False (sample_pack_response sample_answer)) 0 = Some (make_api_error success, [], err')"
proof -
  let ?f = "frame False (sample_pack_response sample_answer)"
  have s: "ce_codec sample_client = sample_codec" "ce_big_endian sample_client = False" "ce_calls sample_client = socket_calls" "ce_connect sample_client w = (3, w)"
    "pack_request sample_codec = sample_pack" "pack_response sample_codec = sample_pack_response" for w by (simp_all add: sample_client_def sample_codec_def)
  have d: "dm_tracker done_daemon = [1 \<mapsto> success]" "cb_tid done_cb = 1" by (simp_all add: done_daemon_def done_cb_def)
  have v: "delivers socket_calls 3 ?f (take 8 ?f) (drop 8 ?f)" "delivers socket_calls 3 (drop 8 ?f) (drop 8 ?f) []"
    using sample_delivers[of 3 "take 8 ?f" "drop 8 ?f"] sample_delivers[of 3 "drop 8 ?f" "[]"] by simp_all
  have a: "\<forall>n. \<exists>mem. ce_alloc sample_client n = Some mem \<and> length mem = n" by (simp add: sample_client_def)
  have "serve False (\<lambda>_. True) sample_codec api_handler (frame False (sample_pack sample_query)) done_daemon = Some (?f, done_daemon) \<and>
    (\<forall>w conn w0 w1 w2 w3 w4 err. (3, w) = (conn, w0) \<and> conn \<noteq> -1 \<and> accepts socket_calls conn w0 (take 8 (frame False (sample_pack sample_query))) w1 \<and>
      accepts socket_calls conn w1 (drop 8 (frame False (sample_pack sample_query))) w2 \<and> delivers socket_calls conn w2 (take 8 ?f) w3 \<and> delivers socket_calls conn w3 (drop 8 ?f) w4 \<longrightarrow>
      (\<exists>err'. efs_status sample_client (Some done_cb) w err = Some (make_api_error success, w4, err')))"
    using status_served[where ce = sample_client and cb = done_cb and body = "sample_pack sample_query" and ec = success
        and room = "\<lambda>_. True" and d = done_daemon and resp = "sample_pack_response sample_answer", unfolded s d]
      sample_codec_ok sample_lengths a by (auto simp: sample_query_def sample_answer_def)
  then have r: "serve False (\<lambda>_. True) sample_codec api_handler (frame False (sample_pack sample_query)) done_daemon = Some (?f, done_daemon)"
    "\<And>w w1 w2 w3 w4 err. accepts socket_calls 3 w (take 8 (frame False (sample_pack sample_query))) w1 \<Longrightarrow>
      accepts socket_calls 3 w1 (drop 8 (frame False (sample_pack sample_query))) w2 \<Longrightarrow> delivers socket_calls 3 w2 (take 8 ?f) w3 \<Longrightarrow> delivers socket_calls 3 w3 (drop 8 ?f) w4 \<Longrightarrow>
      \<exists>err'. efs_status sample_client (Some done_cb) w err = Some (make_api_error success, w4, err')" by auto
  from r(2)[OF sample_accepts sample_accepts v, of 0] r(1) show ?thesis by blast
qed

lemma sample_async:
  assumes "rq_type rq = Some load_path" "dm_tracker d (dm_last_tid d + 1) = None"
  shows "api_handler rq d = Some (tid_response accepted (dm_last_tid d + 1) success, d\<lparr>dm_last_tid := dm_last_tid d + 1,
    dm_tracker := (dm_tracker d)(dm_last_tid d + 1 \<mapsto> task_pending), dm_queue := dm_queue d @ [(dm_last_tid d + 1, rq)]\<rparr>)"
  using assms by (simp add: api_handler_def create_tid_def tracker_exists_def tracker_add_def)

lemma sample_tasks:
  fixes rq rq'
  defines "rq \<equiv> load_request ''nvml'' ''/a'' False 0 5" and "rq' \<equiv> load_request ''n'' ''/a'' False 0 5"
  shows "tasks_reach sample_host sample_daemon 2 (sample_daemon\<lparr>dm_last_tid := 2, dm_tracker := [1 \<mapsto> task_in_progress, 2 \<mapsto> task_pending],
    dm_queue := [(2, rq')], dm_running := [(1, rq)]\<rparr>) (\<lambda>_. None)"
proof -
  have t: "rq_type rq = Some load_path" "rq_type rq' = Some load_path" "rq_backend rq = ''nvml''" by (simp_all add: rq_def rq'_def load_request_def)
  have d: "dm_last_tid sample_daemon = 0" "dm_tracker sample_daemon = (\<lambda>_. None)" "dm_queue sample_daemon = []" "dm_running sample_daemon = []"
    "map_of (dm_backends sample_daemon) ''nvml'' \<noteq> None" by (simp_all add: sample_daemon_def new_daemon_def)
  let ?d1 = "sample_daemon\<lparr>dm_last_tid := 1, dm_tracker := [1 \<mapsto> task_pending], dm_queue := [(1, rq)]\<rparr>"
  let ?d2 = "sample_daemon\<lparr>dm_last_tid := 2, dm_tracker := [1 \<mapsto> task_pending, 2 \<mapsto> task_pending], dm_queue := [(1, rq), (2, rq')]\<rparr>"
  have "api_handler rq sample_daemon = Some (tid_response accepted 1 success, ?d1)" using sample_async[of rq sample_daemon] t d by simp
  from tasks_reach.async_request[OF tasks_reach.start this] have 1: "tasks_reach sample_host sample_daemon 1 ?d1 (\<lambda>_. None)" by (simp add: tid_response_def)
  have "api_handler rq' ?d1 = Some (tid_response accepted 2 success, ?d2)" using sample_async[of rq' ?d1] t by simp
  from tasks_reach.async_request[OF 1 this] have 2: "tasks_reach sample_host sample_daemon 2 ?d2 (\<lambda>_. None)" by (simp add: tid_response_def numeral_2_eq_2)
  have "task_begin 1 rq (?d2\<lparr>dm_queue := [(2, rq')]\<rparr>) = Some (sample_daemon\<lparr>dm_last_tid := 2, dm_tracker := [1 \<mapsto> task_in_progress, 2 \<mapsto> task_pending],
    dm_queue := [(2, rq')], dm_running := [(1, rq)]\<rparr>)" using t d by (auto simp: task_begin_def tracker_set_def fun_upd_twist)
  from tasks_reach.begun[OF 2 _ this] show ?thesis by simp
qed

theorem task_status_witness:
  "\<exists>k d res. tasks_reach sample_host sample_daemon k d res \<and> api_handler (status_request 1) d = Some (retval_response accepted task_in_progress, d) \<and>
    api_handler (status_request 2) d = Some (retval_response accepted task_pending, d) \<and> api_handler (status_request 3) d = Some (retval_response accepted no_such_task, d)"
proof -
  have "{1..2 :: nat} = {1, 2}" by auto
  then show ?thesis using sample_tasks task_status[OF sample_tasks[unfolded sample_daemon_def], folded sample_daemon_def] by (intro exI) (auto simp: sample_daemon_def)
qed

theorem lost_tasks_witness:
  "\<exists>d. task_begin 1 (load_request ''n'' ''/a'' False 0 5) (sample_daemon\<lparr>dm_last_tid := 1, dm_tracker := [1 \<mapsto> task_pending]\<rparr>) = Some d \<and>
    (\<forall>k' d' res'. tasks_reach sample_host d k' d' res' \<longrightarrow> api_handler (status_request 1) d' = Some (retval_response accepted task_pending, d'))"
proof -
  let ?rq = "load_request ''n'' ''/a'' False 0 5"
  let ?d = "sample_daemon\<lparr>dm_last_tid := 1, dm_tracker := [1 \<mapsto> task_pending], dm_queue := [(1, ?rq)]\<rparr>"
  have d: "dm_last_tid sample_daemon = 0" "dm_tracker sample_daemon = (\<lambda>_. None)" "dm_queue sample_daemon = []"
    "map_of (dm_backends sample_daemon) ''n'' = None" "sample_daemon\<lparr>dm_last_tid := 1, dm_tracker := [1 \<mapsto> task_pending], dm_queue := []\<rparr> = sample_daemon\<lparr>dm_last_tid := 1, dm_tracker := [1 \<mapsto> task_pending]\<rparr>"
    by (simp_all add: sample_daemon_def new_daemon_def)
  have t: "rq_type ?rq = Some load_path" "rq_backend ?rq = ''n''" by (simp_all add: load_request_def)
  have "api_handler ?rq sample_daemon = Some (tid_response accepted 1 success, ?d)" using sample_async[of ?rq sample_daemon] t d by simp
  from tasks_reach.async_request[OF tasks_reach.start this] have "tasks_reach sample_host sample_daemon 1 ?d (\<lambda>_. None)" by (simp add: tid_response_def)
  from lost_tasks[OF this[unfolded sample_daemon_def], folded sample_daemon_def, of 1 ?rq "[]"] t d show ?thesis by simp
qed

end
