(* ===== verification/Parsers.thy ===== *)
theory Parsers
  imports Efs_Common
begin

text \<open>
  Values of the configuration file: the parsers of \<open>src/src/settings/parsers.cpp\<close> and
  \<open>backend::parse_size\<close> of \<open>src/src/backends/backend-base.cpp\<close>.  An exception is an \<open>Inl\<close>.  A
  result \<open>None\<close> is one the language leaves undefined, the conversion of a number that does not
  fit its integer type.
\<close>

section \<open>Strings\<close>

definition isspace :: "char \<Rightarrow> bool" where
  "isspace c \<longleftrightarrow> c = CHR 0x20 \<or> of_char c \<in> {9..13 :: nat}"

definition isdigit :: "char \<Rightarrow> bool" where
  "isdigit c \<longleftrightarrow> of_char c \<in> {48..57 :: nat}"

definition dec :: "string \<Rightarrow> nat" where
  "dec s = foldl (\<lambda>n c. 10 * n + (of_char c - 48)) 0 s"

fun find_sub :: "string \<Rightarrow> string \<Rightarrow> nat option" where
  "find_sub pat [] = (if pat = [] then Some 0 else None)"
| "find_sub pat (c # s) = (if take (length pat) (c # s) = pat then Some 0 else map_option Suc (find_sub pat s))"

definition remove_spaces :: "string \<Rightarrow> string" where
  "remove_spaces s = filter (\<lambda>c. \<not> isspace c) s"

text \<open>\<open>std::stoi\<close>: the number at the start of a string, if there is one and it is an \<open>int\<close>.\<close>

definition stoi :: "string \<Rightarrow> int option" where
  "stoi s =
     (let s = dropWhile isspace s;
        neg = (take 1 s = ''-'');
        s = (if take 1 s \<in> {''-'', ''+''} then drop 1 s else s);
        ds = takeWhile isdigit s;
        v = (if neg then - int (dec ds) else int (dec ds))
      in if ds = [] \<or> v < - (2 ^ 31) \<or> 2 ^ 31 \<le> v then None else Some v)"

section \<open>Settings\<close>

datatype parse_error = not_a_number | not_positive | number_out_of_range

definition number_parser :: "string \<Rightarrow> parse_error + 32 word" where
  "number_parser val = (case stoi val of
       None \<Rightarrow> Inl not_a_number
     | Some optval \<Rightarrow> if optval \<le> 0 then Inl not_positive else Inr (word_of_int optval))"

definition conversions :: "(string \<times> nat) list" where
  "conversions = [(''GiB'', 2 ^ 30), (''GB'', 10 ^ 9), (''G'', 10 ^ 9), (''MiB'', 2 ^ 20), (''MB'', 10 ^ 6), (''M'', 10 ^ 6),
     (''KiB'', 2 ^ 10), (''KB'', 10 ^ 3), (''K'', 10 ^ 3), (''B'', 1)]"

fun find_units :: "(string \<times> nat) list \<Rightarrow> string \<Rightarrow> nat option \<times> nat" where
  "find_units [] s = (None, 1)"
| "find_units ((suffix, f) # cs) s = (case find_sub suffix s of
       Some pos \<Rightarrow> if suffix \<noteq> drop pos s then find_units cs s else (Some pos, f)
     | None \<Rightarrow> find_units cs s)"

text \<open>
  \<open>std::stod\<close> rounds the digits to a \<open>double\<close> and throws if they are out of its range; the product
  is rounded again.  Both are exact below \<open>2 ^ 53\<close>, and a product of at least \<open>2 ^ 32\<close>
  stays one when it is rounded, so it does not fit the result.
\<close>

definition double_limit :: nat where
  "double_limit = 2 ^ 1024 - 2 ^ 970"

definition size_parser :: "string \<Rightarrow> (parse_error + 32 word) option" where
  "size_parser val =
     (let scopy = remove_spaces val;
        (pos, factor) = find_units conversions scopy;
        number_str = (case pos of None \<Rightarrow> scopy | Some p \<Rightarrow> take p scopy)
      in if number_str = [] \<or> \<not> list_all isdigit number_str then Some (Inl not_a_number)
         else if double_limit \<le> dec number_str then Some (Inl number_out_of_range)
         else if dec number_str * factor < 2 ^ 32 then Some (Inr (of_nat (dec number_str * factor)))
         else None)"

section \<open>Options of back ends\<close>

text \<open>
  Here the units may be followed by anything, and what precedes them need not be digits.
  \<open>std::stod\<close> throws if there is no number at the start; the result is \<open>None\<close> for signs,
  fractions, exponents and other notations, and for products that are not exact.
\<close>

definition stod_digits :: "string \<Rightarrow> (parse_error + nat) option" where
  "stod_digits s =
     (let ds = takeWhile isdigit s; r = dropWhile isdigit s
      in if s = [] then Some (Inl not_a_number)
         else if r \<noteq> [] \<and> hd r \<in> set ''+-.eExXiInNpP'' then None
         else if ds = [] then Some (Inl not_a_number)
         else if dec ds < 2 ^ 53 then Some (Inr (dec ds)) else None)"

fun find_first :: "(string \<times> nat) list \<Rightarrow> string \<Rightarrow> (nat \<times> nat) option" where
  "find_first [] s = None"
| "find_first ((suffix, f) # cs) s = (case find_sub suffix s of Some pos \<Rightarrow> Some (pos, f) | None \<Rightarrow> find_first cs s)"

definition parse_size :: "string \<Rightarrow> (parse_error + int) option" where
  "parse_size str =
     (let scopy = remove_spaces str
      in case find_first [(''KB'', 10 ^ 3), (''KiB'', 2 ^ 10), (''MB'', 10 ^ 6), (''MiB'', 2 ^ 20), (''GB'', 10 ^ 9), (''GiB'', 2 ^ 30)] scopy of
         None \<Rightarrow> if \<not> list_all isdigit scopy then Some (Inr (-1)) else map_option (map_sum id int) (stod_digits scopy)
       | Some (pos, factor) \<Rightarrow> (case stod_digits (take pos scopy) of
           None \<Rightarrow> None
         | Some (Inl e) \<Rightarrow> Some (Inl e)
         | Some (Inr n) \<Rightarrow> if n * factor < 2 ^ 53 then Some (Inr (int (n * factor))) else None))"

section \<open>Units\<close>

lemma digit_start: "pat \<noteq> [] \<Longrightarrow> \<not> isdigit (hd pat) \<Longrightarrow> isdigit c \<Longrightarrow> take (length pat) (c # s) \<noteq> pat"
  by (cases pat) auto

lemma find_after_digits:
  assumes "pat \<noteq> []" "\<not> isdigit (hd pat)" "list_all isdigit ds"
  shows "find_sub pat (ds @ u) = map_option ((+) (length ds)) (find_sub pat u)"
  using assms(3)
proof (induction ds)
  case Nil
  then show ?case by (cases "find_sub pat u") simp_all
next
  case (Cons c ds)
  then show ?case using digit_start[OF assms(1,2), of c "ds @ u"] by (cases "find_sub pat u") simp_all
qed

lemma units_after_digits:
  assumes "list_all isdigit ds" "\<forall>(suf, f) \<in> set cs. suf \<noteq> [] \<and> \<not> isdigit (hd suf)"
  shows "find_units cs (ds @ u) = (case find_units cs u of (pos, f) \<Rightarrow> (map_option ((+) (length ds)) pos, f))"
  using assms(2)
proof (induction cs)
  case (Cons x cs)
  obtain suf f where x: "x = (suf, f)" by (cases x)
  have n: "suf \<noteq> []" "\<not> isdigit (hd suf)" using Cons.prems x by auto
  show ?case using find_after_digits[OF n assms(1), of u] Cons x by (auto split: option.splits)
qed simp

lemma conversions_start: "\<forall>(suf, f) \<in> set conversions. suf \<noteq> [] \<and> \<not> isdigit (hd suf)"
  by (simp add: conversions_def isdigit_def)

lemma units_of_suffix: "(u, f) \<in> set conversions \<Longrightarrow> find_units conversions u = (Some 0, f)"
  by (auto simp: conversions_def)

lemma units_found: "find_units cs s = (pos, f) \<Longrightarrow> (case pos of None \<Rightarrow> f = 1 | Some p \<Rightarrow> (drop p s, f) \<in> set cs)"
  by (induction cs s rule: find_units.induct) (auto split: option.splits if_splits)

lemma double_limit_large: "2 ^ 32 < double_limit"
proof -
  have "(2 :: nat) ^ 971 = 2 ^ 970 + 2 ^ 970" by (simp add: power_Suc[symmetric, of _ 970] del: power_Suc)
  moreover have "(2 :: nat) ^ 971 \<le> 2 ^ 1024" "(2 :: nat) ^ 32 < 2 ^ 970" by (rule power_increasing power_strict_increasing; simp)+
  ultimately show ?thesis unfolding double_limit_def by linarith
qed

text \<open>A row of digits and one of the units or none.\<close>

definition size_form :: "string \<Rightarrow> string \<Rightarrow> nat \<Rightarrow> bool" where
  "size_form s ds f \<longleftrightarrow> ds \<noteq> [] \<and> list_all isdigit ds \<and> (\<exists>u. s = ds @ u \<and> (u, f) \<in> insert ([], 1) (set conversions))"

lemma size_of_form:
  assumes "size_form (remove_spaces s) ds f"
  shows "size_parser s = (if double_limit \<le> dec ds then Some (Inl number_out_of_range)
    else if dec ds * f < 2 ^ 32 then Some (Inr (of_nat (dec ds * f))) else None)"
proof -
  from assms obtain u where r: "remove_spaces s = ds @ u" "ds \<noteq> []" "list_all isdigit ds" "(u, f) \<in> insert ([], 1) (set conversions)" by (auto simp: size_form_def)
  have "find_units conversions (ds @ u) = (if u = [] then None else Some (length ds), f)"
  proof (cases "u = []")
    case True
    moreover have "find_units conversions [] = (None, 1)" by (simp add: conversions_def)
    moreover have "f = 1" using True r(4) by (auto simp: conversions_def)
    ultimately show ?thesis using units_after_digits[OF r(3) conversions_start, of u] by simp
  next
    case False
    then have "(u, f) \<in> set conversions" using r(4) by simp
    then show ?thesis using False units_after_digits[OF r(3) conversions_start, of u] units_of_suffix[of u f] by simp
  qed
  then show ?thesis using r(1-3) by (cases "u = []") (simp_all add: size_parser_def)
qed

lemma size_has_form:
  assumes "size_parser s \<noteq> Some (Inl not_a_number)"
  shows "\<exists>ds f. size_form (remove_spaces s) ds f"
proof -
  obtain pos f where u: "find_units conversions (remove_spaces s) = (pos, f)" by fastforce
  define n where "n = (case pos of None \<Rightarrow> remove_spaces s | Some p \<Rightarrow> take p (remove_spaces s))"
  have a: "n \<noteq> []" "list_all isdigit n" using assms u by (auto simp: size_parser_def n_def Let_def split: if_splits)
  have "\<exists>v. remove_spaces s = n @ v \<and> (v, f) \<in> insert ([], 1) (set conversions)"
  proof (cases pos)
    case (Some p)
    then have "remove_spaces s = n @ drop p (remove_spaces s)" "(drop p (remove_spaces s), f) \<in> set conversions" using units_found[OF u] by (simp_all add: n_def)
    then show ?thesis by blast
  qed (use units_found[OF u] in \<open>simp add: n_def\<close>)
  then show ?thesis using a by (auto simp: size_form_def)
qed

lemma size_fits:
  assumes "size_form s ds f" "dec ds * f < 2 ^ 32"
  shows "dec ds < double_limit"
proof -
  have "1 \<le> f" using assms(1) by (auto simp: size_form_def conversions_def)
  then have "dec ds \<le> dec ds * f" by simp
  then show ?thesis using assms(2) double_limit_large by linarith
qed

section \<open>Properties\<close>

text \<open>
  C33: A size is a row of digits with one of the units or none, with spaces anywhere.  Its value is
  the number times the unit if that fits the 32 bits of the result.  If it does not fit (and
  the number is one that \<open>std::stod\<close> can read), the size is not refused either: its conversion is
  undefined.  Everything else is answered with an exception.
\<close>

theorem size_parser_units:
  "(size_parser s = Some (Inr w) \<longleftrightarrow> (\<exists>ds f. size_form (remove_spaces s) ds f \<and> dec ds * f < 2 ^ 32 \<and> w = of_nat (dec ds * f))) \<and>
   (size_parser s = None \<longleftrightarrow> (\<exists>ds f. size_form (remove_spaces s) ds f \<and> dec ds < double_limit \<and> 2 ^ 32 \<le> dec ds * f))"
proof (cases "\<exists>ds f. size_form (remove_spaces s) ds f")
  case True
  then obtain ds f where F: "size_form (remove_spaces s) ds f" by blast
  show ?thesis
  proof (intro conjI iffI)
    assume "size_parser s = Some (Inr w)"
    then have "dec ds * f < 2 ^ 32" "w = of_nat (dec ds * f)" using size_of_form[OF F] by (simp_all split: if_splits)
    then show "\<exists>ds f. size_form (remove_spaces s) ds f \<and> dec ds * f < 2 ^ 32 \<and> w = of_nat (dec ds * f)" using F by blast
  next
    assume "size_parser s = None"
    then have "dec ds < double_limit" "2 ^ 32 \<le> dec ds * f" using size_of_form[OF F] by (simp_all split: if_splits)
    then show "\<exists>ds f. size_form (remove_spaces s) ds f \<and> dec ds < double_limit \<and> 2 ^ 32 \<le> dec ds * f" using F by blast
  next
    assume "\<exists>ds f. size_form (remove_spaces s) ds f \<and> dec ds * f < 2 ^ 32 \<and> w = of_nat (dec ds * f)"
    then show "size_parser s = Some (Inr w)" using size_of_form size_fits by (metis not_le)
  next
    assume "\<exists>ds f. size_form (remove_spaces s) ds f \<and> dec ds < double_limit \<and> 2 ^ 32 \<le> dec ds * f"
    then show "size_parser s = None" using size_of_form by (metis not_le)
  qed
next
  case False
  then have "size_parser s = Some (Inl not_a_number)" using size_has_form by blast
  then show ?thesis using False by auto
qed

text \<open>What a number may be followed by, and sizes that do not fit.\<close>

lemma parser_examples:
  "number_parser ''8 threads'' = Inr 8" "number_parser ''-8'' = Inl not_positive" "size_parser ''12 GiB'' = None" "size_parser ''1 GiB'' = Some (Inr 1073741824)"
  "size_parser ''1 GiBs'' = Some (Inl not_a_number)" "parse_size ''64 MBs'' = Some (Inr 64000000)" "parse_size ''64M'' = Some (Inr (-1))"
proof -
  have "\<not> double_limit \<le> n" if "n < 2 ^ 32" for n using that double_limit_large by linarith
  from this[of 12] this[of 1] show "size_parser ''12 GiB'' = None" "size_parser ''1 GiB'' = Some (Inr 1073741824)"
    by (simp_all add: size_parser_def remove_spaces_def isspace_def conversions_def isdigit_def dec_def)
qed (simp_all add: number_parser_def stoi_def isspace_def isdigit_def dec_def size_parser_def remove_spaces_def conversions_def parse_size_def stod_digits_def)

end
