(* ===== verification/Config_File.thy ===== *)
theory Config_File
  imports Parsers
begin

text \<open>
  Configuration files: the schema of a file (\<open>src/src/settings/file_options/file-schema.h\<close>), the
  values read from one (\<open>options-map.h\<close>), the visitors that read a file by its schema
  (\<open>yaml-parser.h\<close>), and the schema of the settings (\<open>src/src/settings/config-schema.h\<close>).

  The YAML library is a parameter: how a node is iterated over, as a sequence or as a map, its
  text, the entries of the document and the document of a file.  What the library throws is
  \<open>None\<close> there, and \<open>yaml_error\<close> here.  A \<open>std::map\<close> is an association list.
\<close>

record 'n yaml =
  y_items :: "'n \<Rightarrow> 'n list"
  y_pairs :: "'n \<Rightarrow> ('n \<times> 'n) list"
  y_string :: "'n \<Rightarrow> string option"
  y_get :: "'n \<Rightarrow> string \<Rightarrow> 'n option"
  y_load :: "string \<Rightarrow> 'n option"

datatype config_error = yaml_error | unknown_option | missing_option | missing_block | bad_value parse_error | bad_any_cast |
  same_directories | invalid_option | missing_parameter

section \<open>Values\<close>

text \<open>\<open>boost::any\<close> with the types that occur.\<close>

datatype any = APath string | ANumber "32 word" | AString string

type_synonym options_group = "(string \<times> any) list"

definition get_any :: "options_group \<Rightarrow> string \<Rightarrow> (any \<Rightarrow> 'a option) \<Rightarrow> (config_error + 'a) option" where
  "get_any g opt_name cast = Some (case map_of g opt_name of
       None \<Rightarrow> Inl missing_option
     | Some v \<Rightarrow> (case cast v of None \<Rightarrow> Inl bad_any_cast | Some x \<Rightarrow> Inr x))"

definition as_path :: "any \<Rightarrow> string option" where "as_path v = (case v of APath p \<Rightarrow> Some p | _ \<Rightarrow> None)"
definition as_number :: "any \<Rightarrow> 32 word option" where "as_number v = (case v of ANumber n \<Rightarrow> Some n | _ \<Rightarrow> None)"
definition as_string :: "any \<Rightarrow> string option" where "as_string v = (case v of AString s \<Rightarrow> Some s | _ \<Rightarrow> None)"

datatype section_value = Group options_group | Groups "options_group list"

section \<open>Schemas\<close>

record option_schema =
  os_mandatory :: bool
  os_default :: "any option"
  os_converter :: "(string \<Rightarrow> (config_error + any) option) option"

type_synonym group_schema = "(string \<times> option_schema) list"

datatype schema = group_schema group_schema | list_schema group_schema

definition declare_option :: "string \<Rightarrow> bool \<Rightarrow> any option \<Rightarrow> (string \<Rightarrow> (config_error + any) option) option \<Rightarrow> string \<times> option_schema" where
  "declare_option opt_name mandatory default_value parser = (opt_name, \<lparr>os_mandatory = mandatory, os_default = default_value, os_converter = parser\<rparr>)"

definition path_parser :: "string \<Rightarrow> (config_error + any) option" where
  "path_parser val = Some (Inr (APath val))"

definition number_option :: "string \<Rightarrow> (config_error + any) option" where
  "number_option val = Some (map_sum bad_value ANumber (number_parser val))"

definition size_option :: "string \<Rightarrow> (config_error + any) option" where
  "size_option val = map_option (map_sum bad_value ANumber) (size_parser val)"

definition match_any :: string where "match_any = ''.*''"

text \<open>The sections in the order of their names.\<close>

definition config_schema :: "(string \<times> bool \<times> schema) list" where
  "config_schema =
    [(''backends'', True, list_schema
       [declare_option ''id'' True None None, declare_option ''type'' True None None, declare_option ''capacity'' True None (Some size_option),
        declare_option match_any False None None]),
     (''global-settings'', True, group_schema
       [declare_option ''root-dir'' True None (Some path_parser), declare_option ''mount-dir'' True None (Some path_parser),
        declare_option ''results-dir'' False None (Some path_parser), declare_option ''log-file'' False None (Some path_parser),
        declare_option ''workers'' False (Some (ANumber 8)) (Some number_option),
        declare_option ''transfer-size'' False (Some (ANumber (128 * 1024))) (Some size_option)]),
     (''resources'', True, list_schema
       [declare_option ''path'' True None None, declare_option ''backend'' True None None, declare_option ''flags'' True None None])]"

section \<open>Visitors\<close>

definition convert_value :: "option_schema \<Rightarrow> string \<Rightarrow> (config_error + any) option" where
  "convert_value os text_value = (case os_converter os of Some f \<Rightarrow> f text_value | None \<Rightarrow> Some (Inr (AString text_value)))"

fun parse_pairs :: "'n yaml \<Rightarrow> (string \<Rightarrow> option_schema option) \<Rightarrow> ('n \<times> 'n) list \<Rightarrow> options_group \<Rightarrow> (config_error + options_group) option" where
  "parse_pairs y sch [] g = Some (Inr g)"
| "parse_pairs y sch ((k, v) # kvs) g = (case y_string y k of
       None \<Rightarrow> Some (Inl yaml_error)
     | Some key \<Rightarrow> (case y_string y v of
         None \<Rightarrow> Some (Inl yaml_error)
       | Some text_value \<Rightarrow> (case sch key of
           None \<Rightarrow> Some (Inl unknown_option)
         | Some os \<Rightarrow> ebind (convert_value os text_value) (\<lambda>val. parse_pairs y sch kvs (emplace key val g)))))"

fun fill_defaults :: "group_schema \<Rightarrow> options_group \<Rightarrow> options_group" where
  "fill_defaults [] g = g"
| "fill_defaults ((n, os) # sch) g = fill_defaults sch (case os_default os of None \<Rightarrow> g | Some v \<Rightarrow> emplace n v g)"

definition visit_group :: "'n yaml \<Rightarrow> group_schema \<Rightarrow> 'n \<Rightarrow> (config_error + options_group) option" where
  "visit_group y sch config =
     ebind (parse_pairs y (map_of sch) (concat (map (y_pairs y) (y_items y config))) []) (\<lambda>g.
       if list_ex (\<lambda>(n, os). os_mandatory os \<and> map_of g n = None) sch then Some (Inl missing_option)
       else Some (Inr (fill_defaults sch g)))"

definition find_option :: "group_schema \<Rightarrow> string \<Rightarrow> option_schema option" where
  "find_option sch key = (case map_of sch key of None \<Rightarrow> map_of sch match_any | Some os \<Rightarrow> Some os)"

fun visit_entries :: "'n yaml \<Rightarrow> group_schema \<Rightarrow> 'n list \<Rightarrow> options_group list \<Rightarrow> (config_error + options_group list) option" where
  "visit_entries y sch [] gs = Some (Inr gs)"
| "visit_entries y sch (e # es) gs =
     ebind (parse_pairs y (find_option sch) (concat (map (y_pairs y) (y_items y e))) []) (\<lambda>g. visit_entries y sch es (gs @ [g]))"

definition visit_list :: "'n yaml \<Rightarrow> group_schema \<Rightarrow> 'n \<Rightarrow> (config_error + options_group list) option" where
  "visit_list y sch config = visit_entries y sch (y_items y config) []"

definition visit :: "'n yaml \<Rightarrow> schema \<Rightarrow> 'n \<Rightarrow> (config_error + section_value) option" where
  "visit y sch config = (case sch of
       group_schema os \<Rightarrow> ebind (visit_group y os config) (\<lambda>g. Some (Inr (Group g)))
     | list_schema os \<Rightarrow> ebind (visit_list y os config) (\<lambda>gs. Some (Inr (Groups gs))))"

fun parse_sections :: "'n yaml \<Rightarrow> 'n \<Rightarrow> (string \<times> bool \<times> schema) list \<Rightarrow> (string \<times> section_value) list \<Rightarrow> (config_error + (string \<times> section_value) list) option" where
  "parse_sections y config [] m = Some (Inr m)"
| "parse_sections y config ((n, mandatory, sch) # ss) m = (case y_get y config n of
       None \<Rightarrow> if mandatory then Some (Inl missing_block) else parse_sections y config ss m
     | Some node \<Rightarrow> ebind (visit y sch node) (\<lambda>v. parse_sections y config ss (emplace n v m)))"

definition parse_yaml_file :: "'n yaml \<Rightarrow> string \<Rightarrow> (string \<times> bool \<times> schema) list \<Rightarrow> (config_error + (string \<times> section_value) list) option" where
  "parse_yaml_file y yaml_file sch = (case y_load y yaml_file of
       None \<Rightarrow> Some (Inl yaml_error)
     | Some config \<Rightarrow> parse_sections y config sch [])"

end
