(* ===== verification/Settings.thy ===== *)
theory Settings
  imports Config_File Paths
begin

text \<open>
  Settings of the daemon (\<open>src/src/settings/settings.cpp\<close>): the command line and the configuration
  file.  The results of \<open>getopt_long\<close>, the option and its argument, are a list; the arguments
  that are not options follow it.  The program ends when the command line is refused, so an
  error has no settings; the copy that is put back before the exception is thrown on is
  therefore left out.
\<close>

section \<open>Settings\<close>

record backend_options =
  bo_id :: string
  bo_type :: string
  bo_capacity :: "32 word"
  bo_root_dir :: string
  bo_mount_dir :: string
  bo_results_dir :: string
  bo_extra_options :: "(string \<times> string) list"

record settings =
  se_exec_name :: string
  se_daemonize :: bool
  se_debug :: bool
  se_root_dir :: string
  se_mount_dir :: string
  se_results_dir :: string
  se_config_file :: string
  se_log_file :: string
  se_workers :: "32 word"
  se_transfer_size :: "32 word"
  se_api_sockfile :: string
  se_backend_opts :: "(string \<times> backend_options) list"
  se_resources :: "(string \<times> string) list list"
  se_fuse_argc :: nat
  se_fuse_argv :: "string option list"

definition s_max_fuse_args :: nat where "s_max_fuse_args = 32"

text \<open>The path of the socket is fixed when the program is built.\<close>

definition new_settings :: "string \<Rightarrow> settings" where
  "new_settings api_sockfile = \<lparr>se_exec_name = ''none'', se_daemonize = False, se_debug = False, se_root_dir = ''none'', se_mount_dir = ''none'', se_results_dir = ''none'',
     se_config_file = ''none'', se_log_file = ''none'', se_workers = 0, se_transfer_size = 0, se_api_sockfile = api_sockfile, se_backend_opts = [], se_resources = [],
     se_fuse_argc = 0, se_fuse_argv = replicate s_max_fuse_args None\<rparr>"

section \<open>Configuration file\<close>

definition get_group :: "(string \<times> section_value) list \<Rightarrow> string \<Rightarrow> (config_error + options_group) option" where
  "get_group m n = Some (case map_of m n of None \<Rightarrow> Inl missing_option | Some (Group g) \<Rightarrow> Inr g | Some (Groups _) \<Rightarrow> Inl bad_any_cast)"

definition get_groups :: "(string \<times> section_value) list \<Rightarrow> string \<Rightarrow> (config_error + options_group list) option" where
  "get_groups m n = Some (case map_of m n of None \<Rightarrow> Inl missing_option | Some (Groups gs) \<Rightarrow> Inr gs | Some (Group _) \<Rightarrow> Inl bad_any_cast)"

definition take_path :: "bool \<Rightarrow> options_group \<Rightarrow> string \<Rightarrow> (string \<Rightarrow> settings) \<Rightarrow> settings \<Rightarrow> (config_error + settings) option" where
  "take_path c g k upd st = (if c then ebind (get_any g k as_path) (\<lambda>p. Some (Inr (upd p))) else Some (Inr st))"

definition load_globals :: "options_group \<Rightarrow> settings \<Rightarrow> (config_error + settings) option" where
  "load_globals g st =
     ebind (take_path (se_root_dir st = ''none'') g ''root-dir'' (\<lambda>p. st\<lparr>se_root_dir := p\<rparr>) st) (\<lambda>st.
     ebind (take_path (se_mount_dir st = ''none'') g ''mount-dir'' (\<lambda>p. st\<lparr>se_mount_dir := p\<rparr>) st) (\<lambda>st.
     ebind (take_path (se_results_dir st = ''none'' \<and> map_of g ''results-dir'' \<noteq> None) g ''results-dir'' (\<lambda>p. st\<lparr>se_results_dir := p\<rparr>) st) (\<lambda>st.
     ebind (take_path (se_log_file st = ''none'' \<and> map_of g ''log-file'' \<noteq> None \<and> \<not> se_debug st) g ''log-file'' (\<lambda>p. st\<lparr>se_log_file := p\<rparr>) st) (\<lambda>st.
     ebind (get_any g ''workers'' as_number) (\<lambda>w.
     ebind (get_any g ''transfer-size'' as_number) (\<lambda>t.
     Some (Inr (st\<lparr>se_workers := w, se_transfer_size := t\<rparr>))))))))"

fun strings_of :: "options_group \<Rightarrow> (string \<times> string) list \<Rightarrow> (config_error + (string \<times> string) list) option" where
  "strings_of [] kv = Some (Inr kv)"
| "strings_of ((k, v) # g) kv = (case as_string v of None \<Rightarrow> Some (Inl bad_any_cast) | Some s \<Rightarrow> strings_of g (emplace k s kv))"

fun load_backends :: "options_group list \<Rightarrow> settings \<Rightarrow> (config_error + settings) option" where
  "load_backends [] st = Some (Inr st)"
| "load_backends (pb # pbs) st =
     ebind (get_any pb ''id'' as_string) (\<lambda>i.
     ebind (get_any pb ''type'' as_string) (\<lambda>ty.
     ebind (get_any pb ''capacity'' as_number) (\<lambda>capacity.
     ebind (strings_of (filter (\<lambda>(k, _). k \<notin> {''id'', ''type'', ''capacity''}) pb) []) (\<lambda>extra_opts.
     load_backends pbs (st\<lparr>se_backend_opts := emplace i \<lparr>bo_id = i, bo_type = ty, bo_capacity = capacity, bo_root_dir = se_root_dir st,
       bo_mount_dir = se_mount_dir st, bo_results_dir = se_results_dir st, bo_extra_options = extra_opts\<rparr> (se_backend_opts st)\<rparr>)))))"

fun load_resources :: "options_group list \<Rightarrow> settings \<Rightarrow> (config_error + settings) option" where
  "load_resources [] st = Some (Inr st)"
| "load_resources (r # rs) st = ebind (strings_of r []) (\<lambda>res_opts. load_resources rs (st\<lparr>se_resources := se_resources st @ [res_opts]\<rparr>))"

definition load_from_yaml_file :: "'n yaml \<Rightarrow> string \<Rightarrow> settings \<Rightarrow> (config_error + settings) option" where
  "load_from_yaml_file y config_file st =
     ebind (parse_yaml_file y config_file config_schema) (\<lambda>m.
     ebind (get_group m ''global-settings'') (\<lambda>g.
     ebind (load_globals g st) (\<lambda>st.
     ebind (get_groups m ''backends'') (\<lambda>bs.
     ebind (load_backends bs st) (\<lambda>st.
     ebind (get_groups m ''resources'') (\<lambda>rs.
     load_resources rs st))))))"

section \<open>Command line\<close>

datatype cmdline_stop = Exits | Throws config_error

text \<open>The result is \<open>None\<close> if the assertion on the number of arguments fails.\<close>

definition push_arg :: "string option \<Rightarrow> settings \<Rightarrow> settings option" where
  "push_arg arg st = (if se_fuse_argc st < s_max_fuse_args
     then Some (st\<lparr>se_fuse_argv := (se_fuse_argv st)[se_fuse_argc st := arg], se_fuse_argc := Suc (se_fuse_argc st)\<rparr>) else None)"

definition push_arg_at :: "string \<Rightarrow> nat \<Rightarrow> settings \<Rightarrow> settings option" where
  "push_arg_at arg pos st = (if se_fuse_argc st < s_max_fuse_args
     then Some (if pos \<ge> s_max_fuse_args then st else st\<lparr>se_fuse_argv := (se_fuse_argv st)[pos := Some arg]\<rparr>) else None)"

definition process_option :: "char \<Rightarrow> string \<Rightarrow> settings \<Rightarrow> (cmdline_stop + settings) option" where
  "process_option rv optarg st =
     (if rv = CHR ''r'' then Some (Inr (st\<lparr>se_root_dir := optarg\<rparr>))
      else if rv = CHR ''m'' then Some (Inr (st\<lparr>se_mount_dir := optarg\<rparr>))
      else if rv = CHR ''c'' then Some (Inr (st\<lparr>se_config_file := optarg\<rparr>))
      else if rv = CHR ''h'' \<or> rv = CHR ''H'' \<or> rv = CHR ''V'' then Some (Inl Exits)
      else if rv = CHR ''f'' then map_option Inr (push_arg (Some ''-f'') (st\<lparr>se_daemonize := False\<rparr>))
      else if rv = CHR ''d'' then map_option Inr (push_arg (Some ''-f'') (st\<lparr>se_daemonize := False, se_debug := True\<rparr>))
      else if rv = CHR ''l'' then Some (Inr (st\<lparr>se_log_file := optarg\<rparr>))
      else if rv = CHR ''D'' then map_option Inr (push_arg (Some ''-d'') st)
      else if rv = CHR ''S'' then map_option Inr (push_arg (Some ''-s'') st)
      else if rv = CHR ''o'' then map_option Inr (Option.bind (push_arg (Some ''-o'') st) (push_arg (Some optarg)))
      else if rv = CHR ''?'' then Some (Inl (Throws invalid_option))
      else if rv = CHR '':'' then Some (Inl (Throws missing_parameter))
      else Some (Inr st))"

fun process_options :: "(char \<times> string) list \<Rightarrow> settings \<Rightarrow> (cmdline_stop + settings) option" where
  "process_options [] st = Some (Inr st)"
| "process_options ((rv, optarg) # opts) st = ebind (process_option rv optarg st) (process_options opts)"

definition load_config :: "'n yaml \<Rightarrow> settings \<Rightarrow> (cmdline_stop + settings) option" where
  "load_config y st = (if se_config_file st \<noteq> ''none'' then map_option (map_sum Throws id) (load_from_yaml_file y (se_config_file st) st) else Some (Inr st))"

definition default_backend :: "settings \<Rightarrow> settings" where
  "default_backend st = (if se_config_file st = ''none''
     then st\<lparr>se_backend_opts := emplace ''nvml://'' \<lparr>bo_id = ''nvml://'', bo_type = ''NVRAM-NVML'', bo_capacity = 12000000, bo_root_dir = se_root_dir st,
       bo_mount_dir = se_mount_dir st, bo_results_dir = se_results_dir st, bo_extra_options = [(''daxfs'', ''/tmp'')]\<rparr> (se_backend_opts st)\<rparr>
     else st)"

definition push_rest :: "string list \<Rightarrow> settings \<Rightarrow> settings option" where
  "push_rest rest st = do {
     st \<leftarrow> push_arg (Some ''-o'') st;
     st \<leftarrow> push_arg (Some ''nonempty,attr_timeout=0,big_writes'') st;
     st \<leftarrow> (case rest of [] \<Rightarrow> Some st | a # _ \<Rightarrow> push_arg (Some a) st);
     push_arg_at (se_mount_dir st) 1 st }"

definition from_cmdline :: "'n yaml \<Rightarrow> string \<Rightarrow> (char \<times> string) list \<Rightarrow> string list \<Rightarrow> settings \<Rightarrow> (cmdline_stop + settings) option" where
  "from_cmdline y exec_name opts rest st = do {
     st \<leftarrow> push_arg (Some exec_name) (st\<lparr>se_exec_name := exec_name\<rparr>);
     st \<leftarrow> push_arg None (st\<lparr>se_daemonize := True\<rparr>);
     ebind (process_options opts st) (\<lambda>st. ebind (load_config y st) (\<lambda>st.
       if same_path (se_root_dir st) (se_mount_dir st) then Some (Inl (Throws same_directories))
       else map_option Inr (push_rest rest (default_backend st)))) }"

end
