(* ===== verification/Settings_Props.thy ===== *)
theory Settings_Props
  imports Settings
begin

text \<open>
  What the settings are: the values read from a configuration file have the types its schema
  declares, the command line goes before the file, and the arguments for FUSE fit their array.
\<close>

section \<open>Values by their schema\<close>

lemma set_emplace: "set (emplace k v al) \<subseteq> insert (k, v) (set al)"
  by (auto simp: emplace_def)

lemma emplace_keeps: "map_of al k = Some v \<Longrightarrow> map_of (emplace n x al) k = Some v"
  by (auto simp: emplace_def)

lemma parse_pairs_typed:
  "parse_pairs y sch kvs g = Some (Inr g') \<Longrightarrow> (k, v) \<in> set g' \<Longrightarrow> (k, v) \<in> set g \<or> (\<exists>os t. sch k = Some os \<and> convert_value os t = Some (Inr v))"
proof (induction y sch kvs g rule: parse_pairs.induct)
  case (2 y sch a b kvs g)
  then obtain key t os x where k: "y_string y a = Some key" "y_string y b = Some t" "sch key = Some os" "convert_value os t = Some (Inr x)"
    "parse_pairs y sch kvs (emplace key x g) = Some (Inr g')"
    by (auto simp: ebind_def split: option.splits sum.splits)
  from 2(1)[OF k 2(3)] have "(k, v) \<in> set (emplace key x g) \<or> (\<exists>os t. sch k = Some os \<and> convert_value os t = Some (Inr v))" .
  then show ?case using k(3,4) set_emplace[of key x g] by blast
qed simp

lemma fill_defaults_set: "(k, v) \<in> set (fill_defaults sch g) \<Longrightarrow> (k, v) \<in> set g \<or> (\<exists>os. (k, os) \<in> set sch \<and> os_default os = Some v)"
proof (induction sch g rule: fill_defaults.induct)
  case (2 n os sch g)
  then show ?case using set_emplace[of n _ g] by (fastforce split: option.splits)
qed simp

lemma fill_defaults_keeps: "map_of g k = Some v \<Longrightarrow> map_of (fill_defaults sch g) k = Some v"
proof (induction sch g rule: fill_defaults.induct)
  case (2 n os sch g)
  then show ?case using emplace_keeps[of g k v n] by (auto split: option.splits)
qed simp

lemma fill_defaults_fills: "(k, os) \<in> set sch \<Longrightarrow> os_default os = Some v \<Longrightarrow> map_of (fill_defaults sch g) k \<noteq> None"
proof (induction sch g rule: fill_defaults.induct)
  case (2 n os' sch g)
  show ?case
  proof (cases "(k, os) \<in> set sch")
    case False
    then have "map_of (emplace n v g) k \<noteq> None" "n = k" "os' = os" using 2 by (auto simp: map_of_emplace_all)
    then show ?thesis using 2(3) fill_defaults_keeps[of "emplace n v g" k] by auto
  qed (use 2 in auto)
qed simp

lemma visit_group_run:
  assumes "visit_group y sch c = Some (Inr g)"
  shows "(k, v) \<in> set g \<Longrightarrow> (\<exists>os t. map_of sch k = Some os \<and> convert_value os t = Some (Inr v)) \<or> (\<exists>os. (k, os) \<in> set sch \<and> os_default os = Some v)"
    "(k, os) \<in> set sch \<Longrightarrow> os_mandatory os \<or> os_default os \<noteq> None \<Longrightarrow> map_of g k \<noteq> None"
proof -
  obtain g0 where g: "parse_pairs y (map_of sch) (concat (map (y_pairs y) (y_items y c))) [] = Some (Inr g0)" "g = fill_defaults sch g0"
    "\<not> list_ex (\<lambda>(n, os). os_mandatory os \<and> map_of g0 n = None) sch"
    using assms by (auto simp: visit_group_def ebind_def split: option.splits sum.splits if_splits)
  show "(k, v) \<in> set g \<Longrightarrow> (\<exists>os t. map_of sch k = Some os \<and> convert_value os t = Some (Inr v)) \<or> (\<exists>os. (k, os) \<in> set sch \<and> os_default os = Some v)"
    using fill_defaults_set[of k v sch g0] parse_pairs_typed[OF g(1), of k v] g(2) by auto
  show "(k, os) \<in> set sch \<Longrightarrow> os_mandatory os \<or> os_default os \<noteq> None \<Longrightarrow> map_of g k \<noteq> None"
    using g(3) fill_defaults_keeps[of g0 k _ sch] fill_defaults_fills[of k os sch] unfolding g(2) by (fastforce simp: list_ex_iff)
qed

lemma visit_entries_run:
  "visit_entries y sch es gs = Some (Inr gs') \<Longrightarrow> g \<in> set gs' \<Longrightarrow> (k, v) \<in> set g \<Longrightarrow> g \<in> set gs \<or> (\<exists>os t. find_option sch k = Some os \<and> convert_value os t = Some (Inr v))"
proof (induction y sch es gs rule: visit_entries.induct)
  case (2 y sch e es gs)
  then obtain g0 where g: "parse_pairs y (find_option sch) (concat (map (y_pairs y) (y_items y e))) [] = Some (Inr g0)" "visit_entries y sch es (gs @ [g0]) = Some (Inr gs')"
    by (auto simp: ebind_def split: option.splits sum.splits)
  from 2(1)[OF g 2(3,4)] show ?case using parse_pairs_typed[OF g(1), of k v] 2(4) by auto
qed simp

section \<open>The schema of the settings\<close>

lemma convert_types:
  assumes "convert_value os t = Some (Inr v)"
  shows "os_converter os = Some path_parser \<Longrightarrow> \<exists>p. v = APath p" "os_converter os = Some number_option \<Longrightarrow> \<exists>n. v = ANumber n"
    "os_converter os = Some size_option \<Longrightarrow> \<exists>n. v = ANumber n" "os_converter os = None \<Longrightarrow> \<exists>s. v = AString s"
proof -
  have m: "map_sum bad_value ANumber x = Inr v \<Longrightarrow> \<exists>n. v = ANumber n" for x by (cases x) auto
  show "os_converter os = Some number_option \<Longrightarrow> \<exists>n. v = ANumber n" "os_converter os = Some size_option \<Longrightarrow> \<exists>n. v = ANumber n"
    using m assms by (auto simp: convert_value_def number_option_def size_option_def)
qed (use assms in \<open>auto simp: convert_value_def path_parser_def\<close>)

definition backends_schema :: group_schema where
  "backends_schema = [declare_option ''id'' True None None, declare_option ''type'' True None None, declare_option ''capacity'' True None (Some size_option),
     declare_option match_any False None None]"

definition globals_schema :: group_schema where
  "globals_schema = [declare_option ''root-dir'' True None (Some path_parser), declare_option ''mount-dir'' True None (Some path_parser),
     declare_option ''results-dir'' False None (Some path_parser), declare_option ''log-file'' False None (Some path_parser),
     declare_option ''workers'' False (Some (ANumber 8)) (Some number_option), declare_option ''transfer-size'' False (Some (ANumber (128 * 1024))) (Some size_option)]"

definition resources_schema :: group_schema where
  "resources_schema = [declare_option ''path'' True None None, declare_option ''backend'' True None None, declare_option ''flags'' True None None]"

lemma config_schema_sections:
  "config_schema = [(''backends'', True, list_schema backends_schema), (''global-settings'', True, group_schema globals_schema), (''resources'', True, list_schema resources_schema)]"
  by (simp add: config_schema_def backends_schema_def globals_schema_def resources_schema_def)

lemma schema_converters:
  "find_option backends_schema k = Some os \<Longrightarrow> os_converter os = (if k = ''capacity'' then Some size_option else None)"
  "find_option resources_schema k = Some os \<Longrightarrow> os_converter os = None"
  "(k, os) \<in> set globals_schema \<Longrightarrow> os_converter os = (if k = ''workers'' then Some number_option else if k = ''transfer-size'' then Some size_option else Some path_parser)"
  "(k, os) \<in> set globals_schema \<Longrightarrow> os_default os = (if k = ''workers'' then Some (ANumber 8) else if k = ''transfer-size'' then Some (ANumber (128 * 1024)) else None)"
proof -
  show "find_option backends_schema k = Some os \<Longrightarrow> os_converter os = (if k = ''capacity'' then Some size_option else None)"
    by (cases "k = ''capacity''") (auto simp: find_option_def backends_schema_def declare_option_def match_any_def split: if_splits)
  show "find_option resources_schema k = Some os \<Longrightarrow> os_converter os = None"
    by (auto simp: find_option_def resources_schema_def declare_option_def match_any_def split: if_splits)
  have "list_all (\<lambda>(k, os). os_converter os = (if k = ''workers'' then Some number_option else if k = ''transfer-size'' then Some size_option else Some path_parser) \<and>
    os_default os = (if k = ''workers'' then Some (ANumber 8) else if k = ''transfer-size'' then Some (ANumber (128 * 1024)) else None)) globals_schema"
    by (simp add: globals_schema_def declare_option_def)
  then show "(k, os) \<in> set globals_schema \<Longrightarrow> os_converter os = (if k = ''workers'' then Some number_option else if k = ''transfer-size'' then Some size_option else Some path_parser)"
    "(k, os) \<in> set globals_schema \<Longrightarrow> os_default os = (if k = ''workers'' then Some (ANumber 8) else if k = ''transfer-size'' then Some (ANumber (128 * 1024)) else None)"
    by (fastforce simp: list_all_iff)+
qed

definition typed_globals :: "options_group \<Rightarrow> bool" where
  "typed_globals g \<longleftrightarrow> (\<forall>k \<in> {''root-dir'', ''mount-dir''}. \<exists>p. map_of g k = Some (APath p)) \<and> (\<forall>k \<in> {''workers'', ''transfer-size''}. \<exists>n. map_of g k = Some (ANumber n)) \<and>
     (\<forall>k \<in> {''results-dir'', ''log-file''}. \<forall>v. map_of g k = Some v \<longrightarrow> (\<exists>p. v = APath p))"

definition typed_backend :: "options_group \<Rightarrow> bool" where
  "typed_backend g \<longleftrightarrow> (\<forall>(k, v) \<in> set g. if k = ''capacity'' then \<exists>n. v = ANumber n else \<exists>s. v = AString s)"

definition typed_resource :: "options_group \<Rightarrow> bool" where
  "typed_resource g \<longleftrightarrow> (\<forall>(k, v) \<in> set g. \<exists>s. v = AString s)"

lemma parse_section:
  assumes "parse_sections y c ((n, True, sch) # ss) m = Some (Inr m')"
  shows "\<exists>node v. visit y sch node = Some (Inr v) \<and> parse_sections y c ss (emplace n v m) = Some (Inr m')"
  using assms by (auto simp: ebind_def split: option.splits sum.splits)

lemma visit_run:
  "visit y (list_schema os) node = Some (Inr v) \<Longrightarrow> \<exists>gs. v = Groups gs \<and> visit_list y os node = Some (Inr gs)"
  "visit y (group_schema os) node = Some (Inr v) \<Longrightarrow> \<exists>g. v = Group g \<and> visit_group y os node = Some (Inr g)"
  by (auto simp: visit_def ebind_def split: option.splits sum.splits)

lemma typed_globals_visit:
  assumes "visit_group y globals_schema c = Some (Inr g)"
  shows "typed_globals g"
proof -
  have t: "if k \<in> {''workers'', ''transfer-size''} then \<exists>n. v = ANumber n else \<exists>p. v = APath p" if "(k, v) \<in> set g" for k v
    using visit_group_run(1)[OF assms that]
  proof (elim disjE exE conjE)
    fix os t
    assume "map_of globals_schema k = Some os" "convert_value os t = Some (Inr v)"
    then show ?thesis using schema_converters(3)[OF map_of_SomeD] convert_types[of os t v] by (simp split: if_splits)
  next
    fix os
    assume "(k, os) \<in> set globals_schema" "os_default os = Some v"
    then show ?thesis using schema_converters(4) by (auto split: if_splits)
  qed
  have "list_all (\<lambda>(k, os). os_mandatory os \<or> os_default os \<noteq> None \<longrightarrow> map_of g k \<noteq> None) globals_schema"
    unfolding list_all_iff using visit_group_run(2)[OF assms] by blast
  then have n: "map_of g ''root-dir'' \<noteq> None" "map_of g ''mount-dir'' \<noteq> None" "map_of g ''workers'' \<noteq> None" "map_of g ''transfer-size'' \<noteq> None"
    by (simp_all add: globals_schema_def declare_option_def)
  have p: "\<exists>p. v = APath p" if "map_of g k = Some v" "k \<notin> {''workers'', ''transfer-size''}" for k v using t[OF map_of_SomeD[OF that(1)]] that(2) by (simp only: if_False)
  have q: "\<exists>n. v = ANumber n" if "map_of g k = Some v" "k \<in> {''workers'', ''transfer-size''}" for k v using t[OF map_of_SomeD[OF that(1)]] that(2) by (simp only: if_True)
  have "\<exists>p. map_of g ''root-dir'' = Some (APath p)" using n(1) p[of "''root-dir''"] by fastforce
  moreover have "\<exists>p. map_of g ''mount-dir'' = Some (APath p)" using n(2) p[of "''mount-dir''"] by fastforce
  moreover have "\<exists>m. map_of g ''workers'' = Some (ANumber m)" using n(3) q[of "''workers''"] by fastforce
  moreover have "\<exists>m. map_of g ''transfer-size'' = Some (ANumber m)" using n(4) q[of "''transfer-size''"] by fastforce
  moreover have "\<forall>v. map_of g ''results-dir'' = Some v \<longrightarrow> (\<exists>p. v = APath p)" using p[of "''results-dir''"] by simp
  moreover have "\<forall>v. map_of g ''log-file'' = Some v \<longrightarrow> (\<exists>p. v = APath p)" using p[of "''log-file''"] by simp
  ultimately show ?thesis by (simp only: typed_globals_def ball_simps simp_thms)
qed

lemma config_sections:
  assumes "parse_yaml_file y f config_schema = Some (Inr m)"
  shows "\<exists>g bs rs. map_of m ''global-settings'' = Some (Group g) \<and> map_of m ''backends'' = Some (Groups bs) \<and> map_of m ''resources'' = Some (Groups rs) \<and>
    typed_globals g \<and> (\<forall>b \<in> set bs. typed_backend b) \<and> (\<forall>r \<in> set rs. typed_resource r)"
proof -
  obtain c where "parse_sections y c config_schema [] = Some (Inr m)" using assms by (auto simp: parse_yaml_file_def split: option.splits)
  from parse_section[OF this[unfolded config_schema_sections]] obtain bn bv where 1: "visit y (list_schema backends_schema) bn = Some (Inr bv)"
    "parse_sections y c [(''global-settings'', True, group_schema globals_schema), (''resources'', True, list_schema resources_schema)] [(''backends'', bv)] = Some (Inr m)"
    by (auto simp: emplace_def)
  from parse_section[OF 1(2)] obtain gn gv where 2: "visit y (group_schema globals_schema) gn = Some (Inr gv)"
    "parse_sections y c [(''resources'', True, list_schema resources_schema)] [(''global-settings'', gv), (''backends'', bv)] = Some (Inr m)" by (auto simp: emplace_def)
  from parse_section[OF 2(2)] obtain rn rv where 3: "visit y (list_schema resources_schema) rn = Some (Inr rv)" "m = [(''resources'', rv), (''global-settings'', gv), (''backends'', bv)]"
    by (auto simp: emplace_def)
  from visit_run(1)[OF 1(1)] visit_run(2)[OF 2(1)] visit_run(1)[OF 3(1)] obtain bs g rs where
    s: "visit_list y backends_schema bn = Some (Inr bs)" "visit_group y globals_schema gn = Some (Inr g)" "visit_list y resources_schema rn = Some (Inr rs)"
      and v: "bv = Groups bs" "gv = Group g" "rv = Groups rs" by blast
  have "typed_backend b" if "b \<in> set bs" for b unfolding typed_backend_def
    using visit_entries_run[OF s(1)[unfolded visit_list_def] that] schema_converters(1) convert_types(3,4) by (auto split: prod.split) metis+
  moreover have "typed_resource r" if "r \<in> set rs" for r unfolding typed_resource_def
    using visit_entries_run[OF s(3)[unfolded visit_list_def] that] schema_converters(2) convert_types(4) by (auto split: prod.split) metis
  moreover have "map_of m ''global-settings'' = Some (Group g)" "map_of m ''backends'' = Some (Groups bs)" "map_of m ''resources'' = Some (Groups rs)" using 3(2) v by simp_all
  ultimately show ?thesis using typed_globals_visit[OF s(2)] by blast
qed

end
