(* ===== verification/Settings_Load.thy ===== *)
theory Settings_Load
  imports Settings_Props
begin

text \<open>Loading the settings from a file, and the options of the command line.\<close>

section \<open>Loading\<close>

lemma get_any_run: "map_of g k = Some v \<Longrightarrow> cast v = Some x \<Longrightarrow> get_any g k cast = Some (Inr x)" "map_of g k = None \<Longrightarrow> get_any g k cast = Some (Inl missing_option)"
  by (simp_all add: get_any_def)

lemma strings_of_run: "\<forall>(k, v) \<in> set g. \<exists>s. v = AString s \<Longrightarrow> \<exists>kv'. strings_of g kv = Some (Inr kv')"
  by (induction g kv rule: strings_of.induct) (auto simp: as_string_def)

text \<open>The settings of the file that the command line has not set.\<close>

definition globals_from :: "options_group \<Rightarrow> settings \<Rightarrow> settings \<Rightarrow> bool" where
  "globals_from g st st' \<longleftrightarrow>
     (if se_root_dir st = ''none'' then map_of g ''root-dir'' = Some (APath (se_root_dir st')) else se_root_dir st' = se_root_dir st) \<and>
     (if se_mount_dir st = ''none'' then map_of g ''mount-dir'' = Some (APath (se_mount_dir st')) else se_mount_dir st' = se_mount_dir st) \<and>
     (if se_results_dir st = ''none'' \<and> map_of g ''results-dir'' \<noteq> None then map_of g ''results-dir'' = Some (APath (se_results_dir st')) else se_results_dir st' = se_results_dir st) \<and>
     (if se_log_file st = ''none'' \<and> map_of g ''log-file'' \<noteq> None \<and> \<not> se_debug st then map_of g ''log-file'' = Some (APath (se_log_file st')) else se_log_file st' = se_log_file st) \<and>
     map_of g ''workers'' = Some (ANumber (se_workers st')) \<and> map_of g ''transfer-size'' = Some (ANumber (se_transfer_size st'))"

definition same_rest :: "settings \<Rightarrow> settings \<Rightarrow> bool" where
  "same_rest st st' \<longleftrightarrow> se_exec_name st' = se_exec_name st \<and> se_daemonize st' = se_daemonize st \<and> se_debug st' = se_debug st \<and> se_config_file st' = se_config_file st \<and>
     se_api_sockfile st' = se_api_sockfile st \<and> se_fuse_argc st' = se_fuse_argc st \<and> se_fuse_argv st' = se_fuse_argv st"

definition path_at :: "options_group \<Rightarrow> string \<Rightarrow> string" where
  "path_at g k = (case map_of g k of Some (APath p) \<Rightarrow> p | _ \<Rightarrow> [])"

lemma take_path_run: "(c \<Longrightarrow> map_of g k = Some (APath (path_at g k))) \<Longrightarrow> take_path c g k f st = Some (Inr (if c then f (path_at g k) else st))"
  by (simp add: take_path_def get_any_def as_path_def)

lemma from_if: "x' = (if c then path_at g k else x) \<Longrightarrow> (c \<Longrightarrow> map_of g k = Some (APath (path_at g k))) \<Longrightarrow> if c then map_of g k = Some (APath x') else x' = x"
  by simp

lemma load_globals_run:
  assumes "typed_globals g"
  shows "\<exists>st'. load_globals g st = Some (Inr st') \<and> globals_from g st st' \<and> same_rest st st' \<and> se_backend_opts st' = se_backend_opts st \<and> se_resources st' = se_resources st"
proof -
  have p: "map_of g k = Some (APath (path_at g k))" if "k \<in> {''root-dir'', ''mount-dir''}" for k using assms that by (auto simp: typed_globals_def path_at_def)
  have q: "map_of g k = Some (APath (path_at g k))" if "k \<in> {''results-dir'', ''log-file''}" "map_of g k \<noteq> None" for k using assms that by (fastforce simp: typed_globals_def path_at_def)
  obtain w t where v: "map_of g ''workers'' = Some (ANumber w)" "map_of g ''transfer-size'' = Some (ANumber t)" using assms by (auto simp: typed_globals_def)
  define st1 where "st1 = (if se_root_dir st = ''none'' then st\<lparr>se_root_dir := path_at g ''root-dir''\<rparr> else st)"
  define st2 where "st2 = (if se_mount_dir st1 = ''none'' then st1\<lparr>se_mount_dir := path_at g ''mount-dir''\<rparr> else st1)"
  define st3 where "st3 = (if se_results_dir st2 = ''none'' \<and> map_of g ''results-dir'' \<noteq> None then st2\<lparr>se_results_dir := path_at g ''results-dir''\<rparr> else st2)"
  define st4 where "st4 = (if se_log_file st3 = ''none'' \<and> map_of g ''log-file'' \<noteq> None \<and> \<not> se_debug st3 then st3\<lparr>se_log_file := path_at g ''log-file''\<rparr> else st3)"
  have 1: "take_path (se_root_dir st = ''none'') g ''root-dir'' (\<lambda>p. st\<lparr>se_root_dir := p\<rparr>) st = Some (Inr st1)" unfolding st1_def by (rule take_path_run) (simp add: p)
  have 2: "take_path (se_mount_dir st1 = ''none'') g ''mount-dir'' (\<lambda>p. st1\<lparr>se_mount_dir := p\<rparr>) st1 = Some (Inr st2)" unfolding st2_def by (rule take_path_run) (simp add: p)
  have 3: "take_path (se_results_dir st2 = ''none'' \<and> map_of g ''results-dir'' \<noteq> None) g ''results-dir'' (\<lambda>p. st2\<lparr>se_results_dir := p\<rparr>) st2 = Some (Inr st3)"
    unfolding st3_def by (rule take_path_run) (simp add: q)
  have 4: "take_path (se_log_file st3 = ''none'' \<and> map_of g ''log-file'' \<noteq> None \<and> \<not> se_debug st3) g ''log-file'' (\<lambda>p. st3\<lparr>se_log_file := p\<rparr>) st3 = Some (Inr st4)"
    unfolding st4_def by (rule take_path_run) (simp add: q)
  let ?st = "st4\<lparr>se_workers := w, se_transfer_size := t\<rparr>"
  have l: "load_globals g st = Some (Inr ?st)" unfolding load_globals_def 1 ebind_simps 2 3 4 using v by (simp add: get_any_def as_number_def)
  have f1: "se_root_dir st1 = (if se_root_dir st = ''none'' then path_at g ''root-dir'' else se_root_dir st)" "se_mount_dir st1 = se_mount_dir st" "se_results_dir st1 = se_results_dir st"
    "se_log_file st1 = se_log_file st" "same_rest st st1" "se_backend_opts st1 = se_backend_opts st" "se_resources st1 = se_resources st" by (simp_all add: st1_def same_rest_def)
  have f2: "se_root_dir st2 = se_root_dir st1" "se_mount_dir st2 = (if se_mount_dir st1 = ''none'' then path_at g ''mount-dir'' else se_mount_dir st1)" "se_results_dir st2 = se_results_dir st1"
    "se_log_file st2 = se_log_file st1" "same_rest st1 st2" "se_backend_opts st2 = se_backend_opts st1" "se_resources st2 = se_resources st1" by (simp_all add: st2_def same_rest_def)
  have f3: "se_root_dir st3 = se_root_dir st2" "se_mount_dir st3 = se_mount_dir st2" "se_results_dir st3 = (if se_results_dir st2 = ''none'' \<and> map_of g ''results-dir'' \<noteq> None then path_at g ''results-dir'' else se_results_dir st2)"
    "se_log_file st3 = se_log_file st2" "same_rest st2 st3" "se_backend_opts st3 = se_backend_opts st2" "se_resources st3 = se_resources st2" by (auto simp: st3_def same_rest_def)
  have f4: "se_root_dir st4 = se_root_dir st3" "se_mount_dir st4 = se_mount_dir st3" "se_results_dir st4 = se_results_dir st3"
    "se_log_file st4 = (if se_log_file st3 = ''none'' \<and> map_of g ''log-file'' \<noteq> None \<and> \<not> se_debug st3 then path_at g ''log-file'' else se_log_file st3)"
    "same_rest st3 st4" "se_backend_opts st4 = se_backend_opts st3" "se_resources st4 = se_resources st3" by (auto simp: st4_def same_rest_def)
  have s: "same_rest st ?st" "se_debug st3 = se_debug st" using f1(5) f2(5) f3(5) f4(5) by (simp_all add: same_rest_def)
  have e: "se_root_dir ?st = se_root_dir st4" "se_mount_dir ?st = se_mount_dir st4" "se_results_dir ?st = se_results_dir st4" "se_log_file ?st = se_log_file st4" by simp_all
  have F: "se_root_dir ?st = (if se_root_dir st = ''none'' then path_at g ''root-dir'' else se_root_dir st)"
    "se_mount_dir ?st = (if se_mount_dir st = ''none'' then path_at g ''mount-dir'' else se_mount_dir st)"
    "se_results_dir ?st = (if se_results_dir st = ''none'' \<and> map_of g ''results-dir'' \<noteq> None then path_at g ''results-dir'' else se_results_dir st)"
    "se_log_file ?st = (if se_log_file st = ''none'' \<and> map_of g ''log-file'' \<noteq> None \<and> \<not> se_debug st then path_at g ''log-file'' else se_log_file st)"
    by (simp_all only: e f4(1-4) f3(1-4) f2(1-4) f1(1-4) s(2))
  have "map_of g ''workers'' = Some (ANumber (se_workers ?st))" "map_of g ''transfer-size'' = Some (ANumber (se_transfer_size ?st))" using v by simp_all
  with from_if[OF F(1)] from_if[OF F(2)] from_if[OF F(3)] from_if[OF F(4)] p q have "globals_from g st ?st" unfolding globals_from_def by blast
  then show ?thesis using l s(1) f1(6,7) f2(6,7) f3(6,7) f4(6,7) by simp
qed

definition complete :: "options_group \<Rightarrow> bool" where
  "complete b \<longleftrightarrow> map_of b ''id'' \<noteq> None \<and> map_of b ''type'' \<noteq> None \<and> map_of b ''capacity'' \<noteq> None"

lemma typed_backend_get:
  assumes "typed_backend b" "map_of b k = Some v"
  shows "if k = ''capacity'' then \<exists>n. v = ANumber n else \<exists>s. v = AString s"
  using assms map_of_SomeD[OF assms(2)] by (auto simp: typed_backend_def)

definition backends_from :: "options_group list \<Rightarrow> settings \<Rightarrow> settings \<Rightarrow> bool" where
  "backends_from bs st st' \<longleftrightarrow> fst ` set (se_backend_opts st') = fst ` set (se_backend_opts st) \<union> {i. \<exists>b \<in> set bs. map_of b ''id'' = Some (AString i)} \<and>
     (\<forall>(i, bo) \<in> set (se_backend_opts st'). (i, bo) \<in> set (se_backend_opts st) \<or> (bo_id bo = i \<and> bo_root_dir bo = se_root_dir st \<and> bo_mount_dir bo = se_mount_dir st \<and>
       (\<exists>b \<in> set bs. map_of b ''id'' = Some (AString i) \<and> map_of b ''type'' = Some (AString (bo_type bo)) \<and> map_of b ''capacity'' = Some (ANumber (bo_capacity bo)))))"

lemma load_backends_run:
  "\<forall>b \<in> set bs. typed_backend b \<Longrightarrow>
    if \<forall>b \<in> set bs. complete b
    then \<exists>st'. load_backends bs st = Some (Inr st') \<and> st' = st\<lparr>se_backend_opts := se_backend_opts st'\<rparr> \<and> backends_from bs st st'
    else load_backends bs st = Some (Inl missing_option)"
proof (induction bs arbitrary: st)
  case Nil
  then show ?case by (simp add: backends_from_def)
next
  case (Cons b bs)
  show ?case
  proof (cases "complete b")
    case True
    then obtain vi vt vc where "map_of b ''id'' = Some vi" "map_of b ''type'' = Some vt" "map_of b ''capacity'' = Some vc" by (auto simp: complete_def)
    then obtain i t n where v: "map_of b ''id'' = Some (AString i)" "map_of b ''type'' = Some (AString t)" "map_of b ''capacity'' = Some (ANumber n)"
      using typed_backend_get[of b "''id''" vi] typed_backend_get[of b "''type''" vt] typed_backend_get[of b "''capacity''" vc] Cons.prems by auto
    have "\<forall>(k, v) \<in> set (filter (\<lambda>(k, _). k \<notin> {''id'', ''type'', ''capacity''}) b). \<exists>s. v = AString s" using Cons.prems by (auto simp: typed_backend_def split: if_splits)
    from strings_of_run[OF this, of "[]"] obtain ex where ex: "strings_of (filter (\<lambda>(k, _). k \<notin> {''id'', ''type'', ''capacity''}) b) [] = Some (Inr ex)" by blast
    define bo where "bo = \<lparr>bo_id = i, bo_type = t, bo_capacity = n, bo_root_dir = se_root_dir st, bo_mount_dir = se_mount_dir st, bo_results_dir = se_results_dir st, bo_extra_options = ex\<rparr>"
    let ?st = "st\<lparr>se_backend_opts := emplace i bo (se_backend_opts st)\<rparr>"
    have l: "load_backends (b # bs) st = load_backends bs ?st" using v ex by (simp add: get_any_def as_string_def as_number_def bo_def)
    have b: "(bo_id bo = i \<and> bo_root_dir bo = se_root_dir st \<and> bo_mount_dir bo = se_mount_dir st) \<and> map_of b ''type'' = Some (AString (bo_type bo)) \<and> map_of b ''capacity'' = Some (ANumber (bo_capacity bo))"
      using v by (simp add: bo_def)
    have k: "fst ` set (emplace i bo (se_backend_opts st)) = insert i (fst ` set (se_backend_opts st))"
      by (auto simp: emplace_def map_of_eq_None_iff image_iff)
    have "backends_from (b # bs) st st'" if "backends_from bs ?st st'" for st'
      using that k b v(1) set_emplace[of i bo "se_backend_opts st"] unfolding backends_from_def by (auto; blast)
    then show ?thesis using Cons.IH[of ?st] Cons.prems True unfolding l by (auto split: if_splits)
  next
    case False
    then show ?thesis using typed_backend_get[of b "''id''"] typed_backend_get[of b "''type''"] Cons.prems
      by (cases "map_of b ''id''"; cases "map_of b ''type''") (auto simp: complete_def get_any_def as_string_def)
  qed
qed

lemma load_resources_run:
  "\<forall>r \<in> set rs. typed_resource r \<Longrightarrow> \<exists>st'. load_resources rs st = Some (Inr st') \<and> st' = st\<lparr>se_resources := se_resources st'\<rparr> \<and> length (se_resources st') = length (se_resources st) + length rs"
proof (induction rs arbitrary: st)
  case (Cons r rs)
  from strings_of_run[of r "[]"] Cons.prems obtain kv where kv: "strings_of r [] = Some (Inr kv)" by (auto simp: typed_resource_def)
  from Cons.IH[of "st\<lparr>se_resources := se_resources st @ [kv]\<rparr>"] Cons.prems kv show ?case by auto
qed simp

lemma config_load_run:
  assumes "parse_yaml_file y f config_schema = Some (Inr m)"
  shows "\<exists>g bs. map_of m ''global-settings'' = Some (Group g) \<and> map_of m ''backends'' = Some (Groups bs) \<and> typed_globals g \<and> (\<forall>b \<in> set bs. typed_backend b) \<and>
    (if \<forall>b \<in> set bs. complete b
     then \<exists>st'. load_from_yaml_file y f st = Some (Inr st') \<and> globals_from g st st' \<and> same_rest st st' \<and>
       fst ` set (se_backend_opts st') = fst ` set (se_backend_opts st) \<union> {i. \<exists>b \<in> set bs. map_of b ''id'' = Some (AString i)}
     else load_from_yaml_file y f st = Some (Inl missing_option))"
proof -
  from config_sections[OF assms] obtain g bs rs where
    s: "map_of m ''global-settings'' = Some (Group g)" "map_of m ''backends'' = Some (Groups bs)" "map_of m ''resources'' = Some (Groups rs)"
      "typed_globals g" "\<forall>b \<in> set bs. typed_backend b" "\<forall>r \<in> set rs. typed_resource r" by blast
  from load_globals_run[OF s(4), of st] obtain st1 where
    1: "load_globals g st = Some (Inr st1)" "globals_from g st st1" "same_rest st st1" "se_backend_opts st1 = se_backend_opts st" by blast
  have l: "load_from_yaml_file y f st = ebind (load_backends bs st1) (load_resources rs)"
    using assms s(1-3) 1(1) by (simp add: load_from_yaml_file_def get_group_def get_groups_def)
  show ?thesis
  proof (cases "\<forall>b \<in> set bs. complete b")
    case True
    then obtain st2 where 2: "load_backends bs st1 = Some (Inr st2)" "st2 = st1\<lparr>se_backend_opts := se_backend_opts st2\<rparr>" "backends_from bs st1 st2"
      using load_backends_run[OF s(5), of st1] by auto
    from load_resources_run[OF s(6), of st2] obtain st3 where 3: "load_resources rs st2 = Some (Inr st3)" "st3 = st2\<lparr>se_resources := se_resources st3\<rparr>" by blast
    have f: "globals_from g st st3" "same_rest st st3" using 1(2,3) by (subst 3(2), subst 2(2), simp add: globals_from_def same_rest_def)+
    have "se_backend_opts st3 = se_backend_opts st2" by (subst 3(2)) simp
    then have "fst ` set (se_backend_opts st3) = fst ` set (se_backend_opts st) \<union> {i. \<exists>b \<in> set bs. map_of b ''id'' = Some (AString i)}"
      using 2(3) 1(4) by (simp add: backends_from_def)
    then show ?thesis using True s(1,2,4,5) l 2(1) 3(1) f by (intro exI[of _ g] exI[of _ bs]) simp
  next
    case False
    then have "load_backends bs st1 = Some (Inl missing_option)" using load_backends_run[OF s(5), of st1] by auto
    then show ?thesis using False s(1,2,4,5) l by (intro exI[of _ g] exI[of _ bs]) simp
  qed
qed

section \<open>The command line\<close>

definition arg_of :: "char \<Rightarrow> (char \<times> string) list \<Rightarrow> string \<Rightarrow> string" where
  "arg_of c opts d = foldl (\<lambda>a (k, v). if k = c then v else a) d opts"

fun flags_of :: "(char \<times> string) list \<Rightarrow> string list" where
  "flags_of [] = []"
| "flags_of ((k, v) # opts) = (if k \<in> {CHR ''f'', CHR ''d''} then [''-f''] else if k = CHR ''D'' then [''-d''] else if k = CHR ''S'' then [''-s'']
     else if k = CHR ''o'' then [''-o'', v] else []) @ flags_of opts"

definition fuse_args :: "string option list \<Rightarrow> settings \<Rightarrow> bool" where
  "fuse_args args st \<longleftrightarrow> se_fuse_argc st = length args \<and> length args \<le> s_max_fuse_args \<and> se_fuse_argv st = args @ replicate (s_max_fuse_args - length args) None"

lemma push_arg_run:
  assumes "fuse_args args st"
  shows "push_arg a st = (if length args < s_max_fuse_args then Some (st\<lparr>se_fuse_argv := args @ a # replicate (s_max_fuse_args - Suc (length args)) None, se_fuse_argc := Suc (length args)\<rparr>) else None)"
    "push_arg a st = Some st' \<Longrightarrow> fuse_args (args @ [a]) st'"
proof -
  have "length args < s_max_fuse_args \<Longrightarrow> (args @ replicate (s_max_fuse_args - length args) None)[length args := a] = args @ a # replicate (s_max_fuse_args - Suc (length args)) None"
    by (simp add: list_update_append Suc_diff_Suc[symmetric])
  then show r: "push_arg a st = (if length args < s_max_fuse_args then Some (st\<lparr>se_fuse_argv := args @ a # replicate (s_max_fuse_args - Suc (length args)) None, se_fuse_argc := Suc (length args)\<rparr>) else None)"
    using assms by (simp add: push_arg_def fuse_args_def)
  show "push_arg a st = Some st' \<Longrightarrow> fuse_args (args @ [a]) st'" unfolding r by (auto simp: fuse_args_def split: if_splits)
qed

end
