(* ===== verification/Settings_Cmdline.thy ===== *)
theory Settings_Cmdline
  imports Settings_Load
begin

text \<open>The command line as a whole: where the settings come from, and what FUSE is given.\<close>

definition from_options :: "(char \<times> string) list \<Rightarrow> settings \<Rightarrow> settings \<Rightarrow> bool" where
  "from_options opts st st' \<longleftrightarrow> se_root_dir st' = arg_of CHR ''r'' opts (se_root_dir st) \<and> se_mount_dir st' = arg_of CHR ''m'' opts (se_mount_dir st) \<and>
     se_config_file st' = arg_of CHR ''c'' opts (se_config_file st) \<and> se_log_file st' = arg_of CHR ''l'' opts (se_log_file st) \<and>
     se_debug st' = (se_debug st \<or> CHR ''d'' \<in> fst ` set opts) \<and> se_daemonize st' = (se_daemonize st \<and> CHR ''f'' \<notin> fst ` set opts \<and> CHR ''d'' \<notin> fst ` set opts) \<and>
     se_results_dir st' = se_results_dir st \<and> se_backend_opts st' = se_backend_opts st \<and> se_exec_name st' = se_exec_name st"

lemma push_arg_fields:
  assumes "push_arg a st = Some st'"
  shows "se_root_dir st' = se_root_dir st" "se_mount_dir st' = se_mount_dir st" "se_config_file st' = se_config_file st" "se_log_file st' = se_log_file st" "se_debug st' = se_debug st"
    "se_daemonize st' = se_daemonize st" "se_results_dir st' = se_results_dir st" "se_backend_opts st' = se_backend_opts st" "se_exec_name st' = se_exec_name st"
    "se_workers st' = se_workers st" "se_transfer_size st' = se_transfer_size st"
  using assms by (auto simp: push_arg_def split: if_splits)

lemma process_option_run:
  assumes f: "fuse_args args st" and p: "process_option rv a st = Some (Inr st')"
  shows "fuse_args (args @ map Some (flags_of [(rv, a)])) st'" "from_options [(rv, a)] st st'"
proof -
  have u: "fuse_args args (st\<lparr>se_daemonize := x\<rparr>)" "fuse_args args (st\<lparr>se_daemonize := x, se_debug := True\<rparr>)" for x using f by (simp_all add: fuse_args_def)
  have g: "fuse_args args (st\<lparr>se_root_dir := x\<rparr>)" "fuse_args args (st\<lparr>se_mount_dir := x\<rparr>)" "fuse_args args (st\<lparr>se_config_file := x\<rparr>)" "fuse_args args (st\<lparr>se_log_file := x\<rparr>)" for x
    using f by (simp_all add: fuse_args_def)
  have o2: "fuse_args (args @ [b, c]) st2" if "push_arg b st = Some st1" "push_arg c st1 = Some st2" for b c st1 st2
    using push_arg_run(2)[OF push_arg_run(2)[OF f that(1)] that(2)] by simp
  show "fuse_args (args @ map Some (flags_of [(rv, a)])) st'"
    using p f g o2 push_arg_run(2)[OF f] push_arg_run(2)[OF u(1)] push_arg_run(2)[OF u(2)]
    by (auto simp: process_option_def split: if_splits Option.bind_splits)
  show "from_options [(rv, a)] st st'" using p
    by (auto simp: process_option_def from_options_def arg_of_def push_arg_fields split: if_splits Option.bind_splits)
qed

lemma from_options_append: "from_options xs st st' \<Longrightarrow> from_options ys st' st'' \<Longrightarrow> from_options (xs @ ys) st st''"
  unfolding from_options_def arg_of_def by (elim conjE, intro conjI) (simp_all add: image_Un, blast)

lemma process_options_run:
  "fuse_args args st \<Longrightarrow> process_options opts st = Some (Inr st') \<Longrightarrow> fuse_args (args @ map Some (flags_of opts)) st' \<and> from_options opts st st'"
proof (induction opts arbitrary: args st)
  case Nil
  then show ?case by (simp add: from_options_def arg_of_def)
next
  case (Cons x opts)
  obtain rv a where x: "x = (rv, a)" by (cases x)
  then obtain st1 where 1: "process_option rv a st = Some (Inr st1)" "process_options opts st1 = Some (Inr st')"
    using Cons.prems(2) by (auto simp: ebind_def split: option.splits sum.splits)
  note r = process_option_run[OF Cons.prems(1) 1(1)]
  have "flags_of (x # opts) = flags_of [(rv, a)] @ flags_of opts" using x by simp
  then show ?case using Cons.IH[OF r(1) 1(2)] from_options_append[OF r(2), of opts st'] x by simp
qed

lemma push_rest_run:
  assumes f: "fuse_args (a # b # args) st" and p: "push_rest rest st = Some st'"
  defines "all \<equiv> a # Some (se_mount_dir st) # args @ map Some ([''-o'', ''nonempty,attr_timeout=0,big_writes''] @ take 1 rest)"
  shows "fuse_args all st'" "length all < s_max_fuse_args" "from_options [] st st'" "se_workers st' = se_workers st \<and> se_transfer_size st' = se_transfer_size st"
proof -
  obtain st1 st2 st3 where q: "push_arg (Some ''-o'') st = Some st1" "push_arg (Some ''nonempty,attr_timeout=0,big_writes'') st1 = Some st2"
    "(case rest of [] \<Rightarrow> Some st2 | c # _ \<Rightarrow> push_arg (Some c) st2) = Some st3" "push_arg_at (se_mount_dir st3) 1 st3 = Some st'"
    using p by (auto simp: push_rest_def split: Option.bind_splits)
  note f2 = push_arg_run(2)[OF push_arg_run(2)[OF f q(1)] q(2)]
  have f3: "fuse_args (a # b # args @ map Some ([''-o'', ''nonempty,attr_timeout=0,big_writes''] @ take 1 rest)) st3"
    using f2 q(3) push_arg_run(2)[OF f2] by (cases rest) auto
  have e: "from_options [] st st3 \<and> se_workers st3 = se_workers st \<and> se_transfer_size st3 = se_transfer_size st"
    using push_arg_fields[OF q(1)] push_arg_fields[OF q(2)] q(3) push_arg_fields[of _ st2 st3] by (cases rest) (simp_all add: from_options_def arg_of_def)
  then have m: "se_mount_dir st3 = se_mount_dir st" by (simp add: from_options_def arg_of_def)
  have l: "se_fuse_argc st3 < s_max_fuse_args" and s: "st' = st3\<lparr>se_fuse_argv := (se_fuse_argv st3)[1 := Some (se_mount_dir st)]\<rparr>"
    using q(4) m by (auto simp: push_arg_at_def s_max_fuse_args_def split: if_splits)
  show "fuse_args all st'" using f3 unfolding s all_def by (simp add: fuse_args_def)
  show "length all < s_max_fuse_args" using f3 l by (simp add: fuse_args_def all_def)
  show "from_options [] st st'" "se_workers st' = se_workers st \<and> se_transfer_size st' = se_transfer_size st" using e unfolding s by (simp_all add: from_options_def arg_of_def)
qed

lemma from_cmdline_run:
  assumes "from_cmdline y ex opts rest (new_settings sock) = Some (Inr st)"
  shows "\<exists>st1 st2. fuse_args ([Some ex, None] @ map Some (flags_of opts)) st1 \<and> from_options opts (new_settings sock\<lparr>se_exec_name := ex, se_daemonize := True\<rparr>) st1 \<and>
    load_config y st1 = Some (Inr st2) \<and> se_root_dir st2 \<noteq> se_mount_dir st2 \<and> push_rest rest (default_backend st2) = Some st"
proof -
  let ?n = "new_settings sock\<lparr>se_exec_name := ex\<rparr>"
  have n: "fuse_args [] ?n" by (simp add: fuse_args_def new_settings_def)
  obtain sa sb st1 st2 where q: "push_arg (Some ex) ?n = Some sa" "push_arg None (sa\<lparr>se_daemonize := True\<rparr>) = Some sb" "process_options opts sb = Some (Inr st1)"
    "load_config y st1 = Some (Inr st2)" "\<not> same_path (se_root_dir st2) (se_mount_dir st2)" "push_rest rest (default_backend st2) = Some st"
    using assms by (auto simp: from_cmdline_def ebind_def split: Option.bind_splits option.splits sum.splits if_splits)
  have ne: "se_root_dir st2 \<noteq> se_mount_dir st2" using q(5) same_path_refl by metis
  have "fuse_args [Some ex] (sa\<lparr>se_daemonize := True\<rparr>)" using push_arg_run(2)[OF n q(1)] by (simp add: fuse_args_def)
  from push_arg_run(2)[OF this q(2)] have fb: "fuse_args [Some ex, None] sb" by simp
  have "from_options [] (?n\<lparr>se_daemonize := True\<rparr>) sb" using push_arg_fields[OF q(1)] push_arg_fields[OF q(2)] by (simp add: from_options_def arg_of_def)
  then show ?thesis using process_options_run[OF fb q(3)] from_options_append[of "[]" "?n\<lparr>se_daemonize := True\<rparr>" sb opts st1] q(4,6) ne by auto
qed

lemma load_config_run:
  assumes "load_config y st1 = Some (Inr st2)"
  shows "same_rest st1 st2" "if se_config_file st1 = ''none'' then st2 = st1
    else \<exists>m g. parse_yaml_file y (se_config_file st1) config_schema = Some (Inr m) \<and> map_of m ''global-settings'' = Some (Group g) \<and> globals_from g st1 st2"
proof -
  let ?c = "se_config_file st1"
  have "\<exists>m g. parse_yaml_file y ?c config_schema = Some (Inr m) \<and> map_of m ''global-settings'' = Some (Group g) \<and> globals_from g st1 st2 \<and> same_rest st1 st2" if c: "?c \<noteq> ''none''"
  proof -
    obtain z where z: "load_from_yaml_file y ?c st1 = Some z" "map_sum Throws id z = Inr st2" using assms c by (auto simp: load_config_def)
    then have l: "load_from_yaml_file y ?c st1 = Some (Inr st2)" by (cases z) auto
    then obtain m where m: "parse_yaml_file y ?c config_schema = Some (Inr m)"
      by (cases "parse_yaml_file y ?c config_schema"; cases "the (parse_yaml_file y ?c config_schema)") (auto simp: load_from_yaml_file_def)
    from config_load_run[OF m, of st1] l show ?thesis using m by (auto split: if_splits)
  qed
  moreover have "st2 = st1" if "?c = ''none''" using assms that by (simp add: load_config_def)
  ultimately show "same_rest st1 st2" "if ?c = ''none'' then st2 = st1
    else \<exists>m g. parse_yaml_file y ?c config_schema = Some (Inr m) \<and> map_of m ''global-settings'' = Some (Group g) \<and> globals_from g st1 st2"
    by (cases "?c = ''none''"; auto simp: same_rest_def)+
qed

lemma cmdline_end:
  assumes "from_cmdline y ex opts rest (new_settings sock) = Some (Inr st)"
  shows "\<exists>st1 st2. from_options opts (new_settings sock\<lparr>se_exec_name := ex, se_daemonize := True\<rparr>) st1 \<and> load_config y st1 = Some (Inr st2) \<and>
    se_root_dir st2 \<noteq> se_mount_dir st2 \<and> from_options [] st2 (st\<lparr>se_backend_opts := se_backend_opts st2\<rparr>) \<and> se_workers st = se_workers st2 \<and> se_transfer_size st = se_transfer_size st2 \<and>
    fuse_args (map Some ([ex, se_mount_dir st] @ flags_of opts @ [''-o'', ''nonempty,attr_timeout=0,big_writes''] @ take 1 rest)) st \<and> se_fuse_argc st < s_max_fuse_args"
proof -
  from from_cmdline_run[OF assms] obtain st1 st2 where q: "fuse_args ([Some ex, None] @ map Some (flags_of opts)) st1"
    "from_options opts (new_settings sock\<lparr>se_exec_name := ex, se_daemonize := True\<rparr>) st1" "load_config y st1 = Some (Inr st2)"
    "se_root_dir st2 \<noteq> se_mount_dir st2" "push_rest rest (default_backend st2) = Some st" by blast
  have "fuse_args (Some ex # None # map Some (flags_of opts)) (default_backend st2)"
    using load_config_run(1)[OF q(3)] q(1) by (simp add: same_rest_def fuse_args_def default_backend_def)
  note p = push_rest_run[OF this q(5)]
  have e: "from_options [] st2 (st\<lparr>se_backend_opts := se_backend_opts st2\<rparr>)" "se_mount_dir (default_backend st2) = se_mount_dir st"
    "se_workers st = se_workers st2 \<and> se_transfer_size st = se_transfer_size st2"
    using p(3,4) by (simp_all add: from_options_def arg_of_def default_backend_def split: if_splits)
  show ?thesis using q(2-4) e p(1,2) by (intro exI[of _ st1] exI[of _ st2]) (simp add: fuse_args_def)
qed

section \<open>Properties\<close>

text \<open>
  C30: The values of a configuration file that was read have the types of its schema, and every
  required or defaulted global setting is there.  Loading it succeeds if every back end has an
  identifier, a type and a capacity, and then the settings have exactly the back ends of the
  file; otherwise it fails with a missing option.
\<close>

theorem config_file_loads:
  assumes "parse_yaml_file y f config_schema = Some (Inr m)"
  shows "\<exists>g bs. map_of m ''global-settings'' = Some (Group g) \<and> map_of m ''backends'' = Some (Groups bs) \<and> typed_globals g \<and> (\<forall>b \<in> set bs. typed_backend b) \<and>
    (if \<forall>b \<in> set bs. complete b
     then \<exists>st'. load_from_yaml_file y f st = Some (Inr st') \<and>
       fst ` set (se_backend_opts st') = fst ` set (se_backend_opts st) \<union> {i. \<exists>b \<in> set bs. map_of b ''id'' = Some (AString i)}
     else load_from_yaml_file y f st = Some (Inl missing_option))"
  using config_load_run[OF assms, of st] by (elim exE conjE, intro exI conjI) (assumption+, auto split: if_splits)

text \<open>
  C29: The command line goes before the configuration file: the root directory, the mount point and
  the log file are the ones of the last such option; what is not given comes from the file, and
  a log file only if debugging is off.  The number of workers and the transfer size come from the
  file.  The root directory and the mount point differ.
\<close>

theorem settings_sources:
  assumes "from_cmdline y ex opts rest (new_settings sock) = Some (Inr st)"
    "r = arg_of CHR ''r'' opts ''none''" "mt = arg_of CHR ''m'' opts ''none''" "l = arg_of CHR ''l'' opts ''none''" "c = arg_of CHR ''c'' opts ''none''"
  shows "se_root_dir st \<noteq> se_mount_dir st \<and>
    (if c = ''none'' then se_root_dir st = r \<and> se_mount_dir st = mt \<and> se_log_file st = l
     else \<exists>m g. parse_yaml_file y c config_schema = Some (Inr m) \<and> map_of m ''global-settings'' = Some (Group g) \<and>
       (if r = ''none'' then map_of g ''root-dir'' = Some (APath (se_root_dir st)) else se_root_dir st = r) \<and>
       (if mt = ''none'' then map_of g ''mount-dir'' = Some (APath (se_mount_dir st)) else se_mount_dir st = mt) \<and>
       (if l = ''none'' \<and> map_of g ''log-file'' \<noteq> None \<and> CHR ''d'' \<notin> fst ` set opts then map_of g ''log-file'' = Some (APath (se_log_file st)) else se_log_file st = l) \<and>
       map_of g ''workers'' = Some (ANumber (se_workers st)) \<and> map_of g ''transfer-size'' = Some (ANumber (se_transfer_size st)))"
proof -
  from cmdline_end[OF assms(1)] obtain st1 st2 where q: "from_options opts (new_settings sock\<lparr>se_exec_name := ex, se_daemonize := True\<rparr>) st1"
    "load_config y st1 = Some (Inr st2)" "se_root_dir st2 \<noteq> se_mount_dir st2" "from_options [] st2 (st\<lparr>se_backend_opts := se_backend_opts st2\<rparr>)"
    "se_workers st = se_workers st2" "se_transfer_size st = se_transfer_size st2" by blast
  have o: "se_root_dir st1 = r" "se_mount_dir st1 = mt" "se_log_file st1 = l" "se_config_file st1 = c" "se_debug st1 = (CHR ''d'' \<in> fst ` set opts)"
    using q(1) assms(2-5) by (simp_all add: from_options_def new_settings_def)
  have e: "se_root_dir st = se_root_dir st2" "se_mount_dir st = se_mount_dir st2" "se_log_file st = se_log_file st2" using q(4) by (simp_all add: from_options_def arg_of_def)
  show ?thesis
  proof (cases "c = ''none''")
    case True
    then show ?thesis using load_config_run(2)[OF q(2), unfolded o(4)] q(3) o(1-3) unfolding e by simp
  next
    case False
    then obtain m g where "parse_yaml_file y c config_schema = Some (Inr m)" "map_of m ''global-settings'' = Some (Group g)" "globals_from g st1 st2"
      using load_config_run(2)[OF q(2), unfolded o(4)] by auto
    then show ?thesis using False q(3) unfolding globals_from_def o e q(5,6) if_not_P[OF False] by blast
  qed
qed

text \<open>
  FUSE is started with the name of the program, the mount point, the flags the options stand
  for, the fixed options of the file system and the first argument that is not an option, and
  these are fewer than 32.
\<close>

theorem fuse_arguments:
  assumes "from_cmdline y ex opts rest (new_settings sock) = Some (Inr st)"
    "args = [ex, se_mount_dir st] @ flags_of opts @ [''-o'', ''nonempty,attr_timeout=0,big_writes''] @ take 1 rest"
  shows "se_fuse_argc st = length args \<and> length args < 32 \<and> se_fuse_argv st = map Some args @ replicate (32 - length args) None"
  using cmdline_end[OF assms(1)] unfolding assms(2) fuse_args_def s_max_fuse_args_def by (elim exE conjE) simp

section \<open>Examples\<close>

datatype ynode = YScalar string | YSeq "ynode list" | YMap "(ynode \<times> ynode) list"

definition sample_document :: ynode where
  "sample_document = YMap
    [(YScalar ''global-settings'', YSeq [YMap [(YScalar ''root-dir'', YScalar ''/r'')], YMap [(YScalar ''mount-dir'', YScalar ''/m'')], YMap [(YScalar ''workers'', YScalar ''4'')]]),
     (YScalar ''backends'', YSeq [YSeq [YMap [(YScalar ''id'', YScalar ''ram'')], YMap [(YScalar ''type'', YScalar ''DRAM'')], YMap [(YScalar ''capacity'', YScalar ''1 GiB'')]]]),
     (YScalar ''resources'', YSeq [])]"

definition sample_yaml :: "ynode yaml" where
  "sample_yaml = \<lparr>y_items = (\<lambda>n. case n of YSeq ns \<Rightarrow> ns | _ \<Rightarrow> []), y_pairs = (\<lambda>n. case n of YMap kvs \<Rightarrow> kvs | _ \<Rightarrow> []), y_string = (\<lambda>n. case n of YScalar s \<Rightarrow> Some s | _ \<Rightarrow> None),
     y_get = (\<lambda>n k. case n of YMap kvs \<Rightarrow> map_of kvs (YScalar k) | _ \<Rightarrow> None), y_load = (\<lambda>f. if f = ''conf'' then Some sample_document else None)\<rparr>"

lemma sample_parse:
  "parse_yaml_file sample_yaml ''conf'' config_schema = Some (Inr [(''resources'', Groups []),
     (''global-settings'', Group [(''transfer-size'', ANumber 131072), (''workers'', ANumber 4), (''mount-dir'', APath ''/m''), (''root-dir'', APath ''/r'')]),
     (''backends'', Groups [[(''capacity'', ANumber 1073741824), (''type'', AString ''DRAM''), (''id'', AString ''ram'')]])])"
proof -
  let ?y = sample_yaml
  have y: "y_items ?y (YSeq ns) = ns" "y_pairs ?y (YMap kvs) = kvs" "y_string ?y (YScalar x) = Some x" "y_get ?y (YMap kvs) k = map_of kvs (YScalar k)" "y_load ?y ''conf'' = Some sample_document"
    for ns kvs x k by (simp_all add: sample_yaml_def)
  have c: "number_parser ''4'' = Inr 4" by (simp add: number_parser_def stoi_def isspace_def isdigit_def dec_def)
  have b: "visit_list ?y backends_schema (YSeq [YSeq [YMap [(YScalar ''id'', YScalar ''ram'')], YMap [(YScalar ''type'', YScalar ''DRAM'')], YMap [(YScalar ''capacity'', YScalar ''1 GiB'')]]]) =
    Some (Inr [[(''capacity'', ANumber 1073741824), (''type'', AString ''DRAM''), (''id'', AString ''ram'')]])"
    by (simp add: visit_list_def y backends_schema_def declare_option_def find_option_def convert_value_def size_option_def parser_examples(4) emplace_def)
  have g: "visit_group ?y globals_schema (YSeq [YMap [(YScalar ''root-dir'', YScalar ''/r'')], YMap [(YScalar ''mount-dir'', YScalar ''/m'')], YMap [(YScalar ''workers'', YScalar ''4'')]]) =
    Some (Inr [(''transfer-size'', ANumber 131072), (''workers'', ANumber 4), (''mount-dir'', APath ''/m''), (''root-dir'', APath ''/r'')])"
    by (simp add: visit_group_def y globals_schema_def declare_option_def convert_value_def path_parser_def number_option_def c emplace_def)
  have r: "visit_list ?y resources_schema (YSeq []) = Some (Inr [])" by (simp add: visit_list_def y)
  show ?thesis unfolding config_schema_sections by (simp add: parse_yaml_file_def y sample_document_def visit_def b g r emplace_def)
qed

theorem config_file_loads_witness:
  "\<exists>st. load_from_yaml_file sample_yaml ''conf'' (new_settings ''/s'') = Some (Inr st) \<and> fst ` set (se_backend_opts st) = {''ram''}"
proof -
  have c: "complete [(''capacity'', ANumber 1073741824), (''type'', AString ''DRAM''), (''id'', AString ''ram'')]" by (simp add: complete_def)
  show ?thesis using config_file_loads[OF sample_parse, of "new_settings ''/s''"] c by (auto simp: new_settings_def)
qed

text \<open>A command line with a mount point of its own.\<close>

definition sample_options :: "(char \<times> string) list" where
  "sample_options = [(CHR ''m'', ''/mnt''), (CHR ''c'', ''conf''), (CHR ''f'', [])]"

lemma sample_cmdline: "\<exists>st. from_cmdline sample_yaml ''echofs'' sample_options [] (new_settings ''/s'') = Some (Inr st)"
proof -
  let ?st = "new_settings ''/s''\<lparr>se_exec_name := ''echofs'', se_daemonize := False, se_mount_dir := ''/mnt'', se_config_file := ''conf'', se_fuse_argc := 3,
    se_fuse_argv := [Some ''echofs'', None, Some ''-f''] @ replicate 29 None\<rparr>"
  have c: "complete [(''capacity'', ANumber 1073741824), (''type'', AString ''DRAM''), (''id'', AString ''ram'')]" by (simp add: complete_def)
  let ?g = "[(''transfer-size'', ANumber 131072), (''workers'', ANumber 4), (''mount-dir'', APath ''/m''), (''root-dir'', APath ''/r'')]"
  from config_load_run[OF sample_parse, of ?st] c obtain st where
    k: "load_from_yaml_file sample_yaml ''conf'' ?st = Some (Inr st)" "globals_from ?g ?st st" "same_rest ?st st" by auto
  have "se_root_dir ?st = ''none''" "se_mount_dir ?st \<noteq> ''none''" "se_mount_dir ?st = ''/mnt''" by (simp_all add: new_settings_def)
  then have l: "load_from_yaml_file sample_yaml ''conf'' ?st = Some (Inr st)" "se_root_dir st = ''/r''" "se_mount_dir st = ''/mnt''" "same_rest ?st st"
    using k by (simp_all add: globals_from_def)
  have s: "se_fuse_argc st = 3" "se_config_file st = ''conf''" using l(4) by (simp_all add: same_rest_def)
  have "push_rest [] st \<noteq> None" using s by (simp add: push_rest_def push_arg_def push_arg_at_def s_max_fuse_args_def)
  moreover have "\<not> same_path ''/r'' ''/mnt''" by code_simp
  moreover have "from_cmdline sample_yaml ''echofs'' sample_options [] (new_settings ''/s'') = map_option Inr (push_rest [] st)"
    using l s(2) calculation(2) by (simp add: from_cmdline_def sample_options_def push_arg_def process_option_def new_settings_def s_max_fuse_args_def load_config_def default_backend_def numeral_eq_Suc)
  ultimately show ?thesis by auto
qed

theorem settings_sources_witness:
  "\<exists>st. from_cmdline sample_yaml ''echofs'' sample_options [] (new_settings ''/s'') = Some (Inr st) \<and> se_root_dir st = ''/r'' \<and> se_mount_dir st = ''/mnt'' \<and>
    se_workers st = 4 \<and> se_transfer_size st = 131072"
proof -
  obtain st where s: "from_cmdline sample_yaml ''echofs'' sample_options [] (new_settings ''/s'') = Some (Inr st)" using sample_cmdline by blast
  show ?thesis using s settings_sources[OF s refl refl refl refl] sample_parse by (auto simp: sample_options_def arg_of_def)
qed

theorem fuse_arguments_witness:
  "\<exists>st. from_cmdline sample_yaml ''echofs'' sample_options [] (new_settings ''/s'') = Some (Inr st) \<and> se_fuse_argc st = 5"
proof -
  obtain st where s: "from_cmdline sample_yaml ''echofs'' sample_options [] (new_settings ''/s'') = Some (Inr st)" using sample_cmdline by blast
  show ?thesis using s fuse_arguments[OF s refl] by (simp add: sample_options_def)
qed

end
