(* ===== verification/Devdax_Pool.thy ===== *)
theory Devdax_Pool
  imports Prelude Efs_Common
begin

text \<open>
  The allocator of the devdax backend (\<open>big_pool\<close> and \<open>pool\<close> in
  \<open>src/src/backends/nvram-devdax/segment.h\<close> and \<open>segment.cpp\<close>).  The device is mapped once
  and divided into units of the segment size; a bit set says which units are taken, and an
  allocation looks for a run of free units, first after the last allocation and then from the
  start.  Sizes, offsets and addresses are natural numbers with the wrap-around of
  \<open>size_t\<close> written out; the loop counters of type \<open>unsigned int\<close> are 32-bit words.  The value
  \<open>None\<close> stands for the exception that \<open>std::bitset\<close> throws for a position outside of the set,
  for a division by zero, and for a loop that does not end.
\<close>

section \<open>The device\<close>

definition NVML_MAPPINGS :: nat where "NVML_MAPPINGS = 16777216"

record big_pool =
  bp_bitset :: "nat \<Rightarrow> bool"
  bp_offset :: nat
  bp_address :: nat
  bp_init :: bool
  bp_length :: nat
  bp_size_of_segment :: nat
  bp_MAPPINGS :: nat

definition new_big_pool :: big_pool where
  "new_big_pool = \<lparr>bp_bitset = (\<lambda>_. False), bp_offset = 0, bp_address = 0, bp_init = False, bp_length = 0, bp_size_of_segment = 0, bp_MAPPINGS = 0\<rparr>"

definition init_pool :: "nat \<Rightarrow> nat \<Rightarrow> nat \<Rightarrow> big_pool \<Rightarrow> big_pool option" where
  "init_pool s_segment_size mapped len p =
     (if s_segment_size = 0 then None
      else Some (p\<lparr>bp_offset := 0, bp_length := len, bp_size_of_segment := s_segment_size, bp_MAPPINGS := len div s_segment_size,
        bp_address := mapped, bp_init := True\<rparr>))"

text \<open>
  The test of the units from \<open>start\<close> on: the position of the first one that is taken, if any.
\<close>

function free_run :: "(nat \<Rightarrow> bool) \<Rightarrow> nat \<Rightarrow> nat \<Rightarrow> nat \<Rightarrow> nat option option" where
  "free_run b start n i =
     (if i < n then
        let k = (i + start) mod 2 ^ 64
        in if k \<ge> NVML_MAPPINGS then None else if b k then Some (Some i) else free_run b start n (i + 1)
      else Some None)"
  by pat_completeness auto
termination by (relation "measure (\<lambda>(b, start, n, i). n - i)") auto

declare free_run.simps [simp del]

lemma free_run_taken: "free_run b start n i = Some (Some k) \<Longrightarrow> i \<le> k \<and> k < n \<and> (k + start) mod 2 ^ 64 < NVML_MAPPINGS \<and> b ((k + start) mod 2 ^ 64)"
proof (induction b start n i rule: free_run.induct)
  case (1 b start n i)
  show ?case using 1 by (subst (asm) (2) free_run.simps) (auto simp: Let_def split: if_splits)
qed

lemma scan_next:
  fixes j n :: "32 word"
  assumes "free_run b (unat j) (unat n) 0 = Some (Some i)"
  shows "unat (word_of_nat (unat j + i + 1) + 1 :: 32 word) = unat j + i + 2"
proof -
  have i: "i < unat n" "(i + unat j) mod 2 ^ 64 < NVML_MAPPINGS" using free_run_taken[OF assms] by auto
  have l: "unat j < 2 ^ 32" "unat n < 2 ^ 32" using unsigned_less[of j, where ?'a = nat] unsigned_less[of n, where ?'a = nat] by simp_all
  then have "i + unat j < 2 ^ 64" using i(1) by simp
  then have "i + unat j < NVML_MAPPINGS" using i(2) by simp
  then have b: "unat j + i + 2 < 2 ^ 32" by (simp add: NVML_MAPPINGS_def)
  have "word_of_nat (unat j + i + 1) + 1 = (word_of_nat (unat j + i + 2) :: 32 word)" by simp
  then have "unat (word_of_nat (unat j + i + 1) + 1 :: 32 word) = (unat j + i + 2) mod 2 ^ 32" by (simp only: unat_of_nat take_bit_nat_def) simp
  then show ?thesis using b by simp
qed

text \<open>
  The search from the start of the device.  After a unit that is taken the counter is set behind
  it and incremented once more, so that one candidate is skipped.
\<close>

function scan :: "(nat \<Rightarrow> bool) \<Rightarrow> 32 word \<Rightarrow> nat \<Rightarrow> 32 word \<Rightarrow> nat option option" where
  "scan b n mappings j =
     (if unat j < mappings then
        if (unat n + unat j) mod 2 ^ 64 < mappings then
          case free_run b (unat j) (unat n) 0 of
            None \<Rightarrow> None
          | Some None \<Rightarrow> Some (Some (unat j))
          | Some (Some i) \<Rightarrow> scan b n mappings (word_of_nat (unat j + i + 1) + 1)
        else Some None
      else Some None)"
  by pat_completeness auto
termination
proof (relation "measure (\<lambda>(b, n, mappings, j :: 32 word). 2 ^ 32 - unat j)", goal_cases)
  case (2 b n mappings j x2 i)
  then have "unat (word_of_nat (unat j + i + 1) + 1 :: 32 word) = unat j + i + 2" by (intro scan_next) auto
  moreover have "unat j < 2 ^ 32" using unsigned_less[of j, where ?'a = nat] by simp
  ultimately show ?case by simp
qed auto

declare scan.simps [simp del]

text \<open>
  The place of an allocation: after the last one if the units there are free, otherwise the
  first that the search finds.  A device without units passes the search with its first
  candidate.
\<close>

definition find_place :: "big_pool \<Rightarrow> 32 word \<Rightarrow> nat option option" where
  "find_place p n = do {
     first \<leftarrow> (if (unat n + bp_offset p) mod 2 ^ 64 < bp_MAPPINGS p
               then map_option (\<lambda>r. if r = None then Some (bp_offset p) else None) (free_run (bp_bitset p) (bp_offset p) (unat n) 0)
               else Some None);
     case first of
       Some s \<Rightarrow> Some (Some s)
     | None \<Rightarrow> if bp_MAPPINGS p = 0 then Some (Some 0) else scan (bp_bitset p) n (bp_MAPPINGS p) 0 }"

definition reserve :: "nat \<Rightarrow> nat \<Rightarrow> big_pool \<Rightarrow> (nat \<times> big_pool) option" where
  "reserve n s p =
     (if \<exists>i < n. (i + s) mod 2 ^ 64 \<ge> NVML_MAPPINGS then None
      else Some ((bp_address p + s * bp_size_of_segment p) mod 2 ^ 64,
        p\<lparr>bp_bitset := (\<lambda>k. bp_bitset p k \<or> (\<exists>i < n. k = (i + s) mod 2 ^ 64)), bp_offset := (n + s + 1) mod 2 ^ 64\<rparr>))"

definition start_over :: "big_pool \<Rightarrow> big_pool" where
  "start_over p = (if ((bp_offset p + (2 ^ 64 - 1)) mod 2 ^ 64 * bp_size_of_segment p) mod 2 ^ 64 \<ge> bp_length p then p\<lparr>bp_offset := 0\<rparr> else p)"

definition bp_allocate :: "nat \<Rightarrow> big_pool \<Rightarrow> (nat \<times> big_pool) option" where
  "bp_allocate sz p =
     (if bp_size_of_segment p = 0 then None
      else do {
        let n = (word_of_nat (sz div bp_size_of_segment p) :: 32 word);
        found \<leftarrow> find_place p n;
        (ret, p) \<leftarrow> (case found of Some s \<Rightarrow> reserve (unat n) s p | None \<Rightarrow> Some (0, p));
        Some (ret, start_over p)
      })"

definition unit_of :: "big_pool \<Rightarrow> nat \<Rightarrow> nat \<Rightarrow> nat" where
  "unit_of p address i = ((address + (2 ^ 64 - bp_address p mod 2 ^ 64)) mod 2 ^ 64 + i * bp_size_of_segment p) mod 2 ^ 64 div bp_size_of_segment p"

definition bp_deallocate :: "nat \<Rightarrow> nat \<Rightarrow> big_pool \<Rightarrow> big_pool option" where
  "bp_deallocate address len p =
     (if bp_size_of_segment p = 0 then None
      else let n = len div bp_size_of_segment p
        in if n \<ge> 2 ^ 32 \<or> (\<exists>i < n. unit_of p address i \<ge> NVML_MAPPINGS) then None
        else Some (p\<lparr>bp_bitset := (\<lambda>k. bp_bitset p k \<and> \<not> (\<exists>i < n. k = unit_of p address i))\<rparr>))"

section \<open>The pool of a segment\<close>

record dev_pool =
  dp_data :: nat
  dp_length :: nat
  dp_is_pmem :: bool

definition DEVICE_LENGTH :: nat where "DEVICE_LENGTH = 1024 * 1024 * 1024 * 600"

definition new_dev_pool :: "nat \<Rightarrow> nat \<Rightarrow> big_pool \<Rightarrow> (dev_pool \<times> big_pool) option" where
  "new_dev_pool s_segment_size mapped p = do {
     p \<leftarrow> (if bp_init p then Some p else init_pool s_segment_size mapped DEVICE_LENGTH p);
     Some (\<lparr>dp_data = 0, dp_length = 0, dp_is_pmem = False\<rparr>, p) }"

definition dev_allocate :: "nat \<Rightarrow> dev_pool \<Rightarrow> big_pool \<Rightarrow> (dev_pool \<times> big_pool) option" where
  "dev_allocate sz d p =
     (if dp_data d \<noteq> 0 then None
      else do { (a, p) \<leftarrow> bp_allocate sz p; Some (d\<lparr>dp_data := a, dp_length := sz, dp_is_pmem := False\<rparr>, p) })"

definition dev_deallocate :: "dev_pool \<Rightarrow> big_pool \<Rightarrow> (dev_pool \<times> big_pool) option" where
  "dev_deallocate d p =
     (if dp_data d \<noteq> 0 then map_option (\<lambda>p. (d\<lparr>dp_data := 0\<rparr>, p)) (bp_deallocate (dp_data d) (dp_length d) p) else Some (d, p))"

definition dev_destroy :: "dev_pool \<Rightarrow> big_pool \<Rightarrow> big_pool option" where
  "dev_destroy d p = (if dp_data d \<noteq> 0 then bp_deallocate (dp_data d) (dp_length d) p else Some p)"

end
