(* ===== verification/Devdax_Segment.thy ===== *)
theory Devdax_Segment
  imports Devdax_Pool Nvml_Segment
begin

text \<open>
  Segments of the devdax back end (\<open>segment\<close> in \<open>src/src/backends/nvram-devdax/segment.cpp\<close>): a
  region of a file that lies in a run of units of the device, or a gap.  Data pointers are the
  addresses that the allocator of \<open>Devdax_Pool\<close> returns, and 0 is the null pointer.

  The mapping of the device is one block of the memory, \<open>de_block\<close>; an address is read as a
  position in it relative to the start of the mapping, so that an address outside of the mapping
  is a position outside of the block.  Allocating does not change the memory: unlike a new
  pool file, a unit of the device keeps the bytes it had.  The system calls, the address that
  \<open>mmap\<close> returns, the effect of \<open>pmem_unmap\<close> on the memory, \<open>posix_memalign\<close>, the clock and
  \<open>fuse_buf_copy\<close> are parameters; \<open>de_segment_size\<close> is the static member \<open>s_segment_size\<close>.
\<close>

section \<open>The environment\<close>

record 'w dev_env =
  de_calls :: "'w syscalls"
  de_have_splice :: bool
  de_tmp :: addr
  de_copy :: "'w machine \<Rightarrow> fuse_bufvec \<Rightarrow> fuse_bufvec \<Rightarrow> copy_flags \<Rightarrow> (int \<times> fuse_bufvec \<times> fuse_bufvec \<times> 'w machine) option"
  de_block :: addr
  de_mmap :: nat
  de_unmap :: "nat \<Rightarrow> nat \<Rightarrow> memory \<Rightarrow> memory"
  de_memalign :: "'w machine \<Rightarrow> size_t \<Rightarrow> addr option"
  de_time :: int
  de_segment_size :: size_t

definition dev_ptr :: "'w dev_env \<Rightarrow> big_pool \<Rightarrow> nat \<Rightarrow> ptr" where
  "dev_ptr env p x = (de_block env, (x + (2 ^ 64 - bp_address p mod 2 ^ 64)) mod 2 ^ 64)"

section \<open>Segments\<close>

record dev_segment =
  ds_offset :: off_t
  ds_size :: size_t
  ds_is_gap :: bool
  ds_pool :: dev_pool
  ds_is_free :: bool
  ds_bytes :: size_t

definition new_dev_segment :: "'w dev_env \<Rightarrow> off_t \<Rightarrow> size_t \<Rightarrow> bool \<Rightarrow> big_pool \<Rightarrow> (dev_segment \<times> big_pool) option" where
  "new_dev_segment env offset sz is_gap p = do {
     (d, p) \<leftarrow> new_dev_pool (unat (de_segment_size env)) (de_mmap env) p;
     let seg = \<lparr>ds_offset = offset, ds_size = sz, ds_is_gap = is_gap, ds_pool = d, ds_is_free = False, ds_bytes = 0\<rparr>;
     if is_gap then Some (seg, p)
     else do { (d, p) \<leftarrow> dev_allocate (unat sz) (ds_pool seg) p; Some (seg\<lparr>ds_pool := d\<rparr>, p) } }"

definition dev_segment_allocate :: "dev_segment \<Rightarrow> off_t \<Rightarrow> size_t \<Rightarrow> big_pool \<Rightarrow> (dev_segment \<times> big_pool) option" where
  "dev_segment_allocate seg offset sz p = do {
     (d, p) \<leftarrow> dev_allocate (unat sz) (ds_pool seg) p;
     Some (seg\<lparr>ds_offset := offset, ds_size := sz, ds_is_gap := False, ds_pool := d\<rparr>, p) }"

definition dev_segment_deallocate :: "dev_segment \<Rightarrow> big_pool \<Rightarrow> (dev_segment \<times> big_pool) option" where
  "dev_segment_deallocate seg p = do { (d, p) \<leftarrow> dev_deallocate (ds_pool seg) p; Some (seg\<lparr>ds_pool := d\<rparr>, p) }"

definition dev_is_pmem :: "dev_segment \<Rightarrow> bool" where
  "dev_is_pmem seg = dp_is_pmem (ds_pool seg)"

definition dev_data :: "dev_segment \<Rightarrow> nat" where
  "dev_data seg = dp_data (ds_pool seg)"

text \<open>An address at a displacement, as the conversion to \<open>uintptr_t\<close> adds it.\<close>

definition displaced :: "nat \<Rightarrow> off_t \<Rightarrow> nat" where
  "displaced x delta = nat ((int x + delta) mod 2 ^ 64)"

definition dev_zero_fill :: "'w dev_env \<Rightarrow> big_pool \<Rightarrow> dev_segment \<Rightarrow> off_t \<Rightarrow> size_t \<Rightarrow> 'w machine \<Rightarrow> 'w machine option" where
  "dev_zero_fill env p seg offset sz s =
     (if ds_is_gap seg then Some s
      else if \<not> to_size offset + sz \<le> ds_size seg then None
      else do {
        m \<leftarrow> mem_write (mc_mem s) (dev_ptr env p (displaced (dev_data seg) offset)) (replicate (unat sz) 0);
        Some (s\<lparr>mc_mem := m\<rparr>) })"

partial_function (option) dev_copy_data :: "'w syscalls \<Rightarrow> int \<Rightarrow> ptr \<Rightarrow> nat \<Rightarrow> 'w machine \<Rightarrow> (int \<times> 'w machine) option" where
  "dev_copy_data sc fd q sofar s = do {
     let (res, w) = sc_read sc (mc_world s) fd NVML_TRANSFER_SIZE None;
     let s = s\<lparr>mc_world := w\<rparr>;
     case res of
       Inl errno \<Rightarrow> if errno \<noteq> EINTR then Some (-1, s) else dev_copy_data sc fd q sofar s
     | Inr bs \<Rightarrow> if bs = [] then Some (int sofar, s)
         else do {
           m \<leftarrow> mem_write (mc_mem s) (ptr_add q sofar) bs;
           dev_copy_data sc fd q (sofar + length bs) (s\<lparr>mc_mem := m\<rparr>) } }"

declare dev_copy_data.simps [code]

definition dev_fill_from :: "'w dev_env \<Rightarrow> big_pool \<Rightarrow> dev_segment \<Rightarrow> int \<Rightarrow> 'w machine \<Rightarrow> (size_t \<times> dev_segment \<times> 'w machine) option" where
  "dev_fill_from env p seg fd s = do {
     (n, s) \<leftarrow> dev_copy_data (de_calls env) fd (dev_ptr env p (dev_data seg)) 0 s;
     let seg = seg\<lparr>ds_bytes := to_size n\<rparr>;
     s \<leftarrow> dev_zero_fill env p seg (to_off (ds_bytes seg)) (ds_size seg - ds_bytes seg) s;
     Some (ds_bytes seg, seg, s) }"

text \<open>The destructor of a segment ends with that of its pool.\<close>

definition dev_segment_destroy :: "dev_segment \<Rightarrow> big_pool \<Rightarrow> big_pool option" where
  "dev_segment_destroy seg p = dev_destroy (ds_pool seg) p"

end
