(* ===== verification/Devdax_File.thy ===== *)
theory Devdax_File
  imports Devdax_Segment Nvml_File
begin

text \<open>
  A file of the devdax back end, \<open>src/src/backends/nvram-devdax/file.cpp\<close>.  The class is that of
  the NVML back end (\<open>Nvml_File\<close>) over segments of the device: there is no pool directory, all
  files take their storage from one allocator, which is threaded through the operations, and
  nothing throws.  The struct \<open>file_region\<close>, the attributes and the lock manager are shared with
  \<open>Nvml_File\<close>.
\<close>

section \<open>State\<close>

record dev_file =
  df_type :: file_type
  df_attributes :: stat
  df_alloc_offset :: off_t
  df_used_offset :: off_t
  df_segment_size :: size_t
  df_segments :: "addr option flat_segment_tree"
  df_initialized :: bool
  df_range_mutex :: range_tree
  df_seg :: "addr \<rightharpoonup> dev_segment"
  df_next :: addr

definition new_dev_file :: "file_type \<Rightarrow> dev_file" where
  "new_dev_file ty = \<lparr>df_type = ty, df_attributes = null_stat, df_alloc_offset = 0, df_used_offset = 0, df_segment_size = 4096,
     df_segments = build_tree (new_segment_tree 0 off_max None), df_initialized = False, df_range_mutex = lock_manager,
     df_seg = (\<lambda>_. None), df_next = 0\<rparr>"

definition dev_stat :: "dev_file \<Rightarrow> stat" where
  "dev_stat f = df_attributes f"

definition dev_save_attributes :: "dev_file \<Rightarrow> stat \<Rightarrow> dev_file" where
  "dev_save_attributes f stbuf = f\<lparr>df_attributes := stbuf\<rparr>"

definition dev_change_type :: "dev_file \<Rightarrow> file_type \<Rightarrow> dev_file" where
  "dev_change_type f ty = f\<lparr>df_type := ty\<rparr>"

definition dev_size :: "dev_file \<Rightarrow> size_t" where
  "dev_size f = to_size (st_size (df_attributes f))"

definition dev_update_size :: "dev_file \<Rightarrow> size_t \<Rightarrow> dev_file" where
  "dev_update_size f sz =
     (if st_size (df_attributes f) < to_off sz
      then f\<lparr>df_used_offset := to_off sz,
             df_attributes := (df_attributes f)\<lparr>st_size := to_off sz, st_blocks := uint (sz div 512)\<rparr>\<rparr>
      else f)"

definition dev_lock_range :: "dev_file \<Rightarrow> off_t \<Rightarrow> off_t \<Rightarrow> operation \<Rightarrow> (stop + (range_lock \<times> dev_file)) option" where
  "dev_lock_range f start end op = do {
     (t, r) \<leftarrow> lock_range (df_range_mutex f) start end (if op = op_read then Reader else Writer);
     case r of Inl cv \<Rightarrow> Some (Inl (Blocked cv)) | Inr rl \<Rightarrow> Some (Inr (rl, f\<lparr>df_range_mutex := t\<rparr>)) }"

definition dev_unlock_range :: "dev_file \<Rightarrow> range_lock \<Rightarrow> dev_file option" where
  "dev_unlock_range f rl = do {
     (_, rl, t) \<leftarrow> unlock_range (df_range_mutex f) rl;
     t \<leftarrow> destroy_range_lock t rl;
     Some (f\<lparr>df_range_mutex := t\<rparr>) }"

section \<open>Segments\<close>

definition dev_create_segment :: "'w dev_env \<Rightarrow> dev_file \<Rightarrow> big_pool \<Rightarrow> off_t \<Rightarrow> size_t \<Rightarrow> bool \<Rightarrow> (addr \<times> dev_file \<times> big_pool) option" where
  "dev_create_segment env f p base_offset sz is_gap = do {
     (seg, p) \<leftarrow> new_dev_segment env base_offset sz is_gap p;
     Some (df_next f, f\<lparr>df_seg := (df_seg f)(df_next f \<mapsto> seg), df_next := Suc (df_next f)\<rparr>, p) }"

definition dev_segment_end :: "dev_segment \<Rightarrow> off_t" where
  "dev_segment_end seg = to_off (to_size (ds_offset seg) + ds_size seg)"

fun dev_insert_all ::
  "(addr option flat_segment_tree \<Rightarrow> off_t \<Rightarrow> off_t \<Rightarrow> addr option \<Rightarrow> addr option flat_segment_tree option) \<Rightarrow>
   (addr \<rightharpoonup> dev_segment) \<Rightarrow> addr list \<Rightarrow> addr option flat_segment_tree \<Rightarrow> addr option flat_segment_tree option" where
  "dev_insert_all ins h [] t = Some t"
| "dev_insert_all ins h (a # sl) t = do { seg \<leftarrow> h a; t \<leftarrow> ins t (ds_offset seg) (dev_segment_end seg) (Some a); dev_insert_all ins h sl t }"

definition dev_append_segments :: "dev_file \<Rightarrow> addr list \<Rightarrow> dev_file option" where
  "dev_append_segments f sl = do { t \<leftarrow> dev_insert_all insert_back (df_seg f) sl (df_segments f); Some (f\<lparr>df_segments := build_tree t\<rparr>) }"

definition dev_insert_segments :: "dev_file \<Rightarrow> addr list \<Rightarrow> dev_file option" where
  "dev_insert_segments f sl = do { t \<leftarrow> dev_insert_all insert_front (df_seg f) sl (df_segments f); Some (f\<lparr>df_segments := build_tree t\<rparr>) }"

text \<open>The address of a region: null for a gap, otherwise the data pointer of the segment plus a displacement.\<close>

definition dev_region_address :: "'w dev_env \<Rightarrow> big_pool \<Rightarrow> dev_segment \<Rightarrow> off_t \<Rightarrow> ptr option" where
  "dev_region_address env p seg op_delta =
     (let x = displaced (dev_data seg) op_delta in if ds_is_gap seg \<or> x = 0 then None else Some (dev_ptr env p x))"

definition dev_allocate_gap ::
  "'w dev_env \<Rightarrow> dev_file \<Rightarrow> big_pool \<Rightarrow> addr \<Rightarrow> dev_segment \<Rightarrow> off_t \<Rightarrow> size_t \<Rightarrow> (off_t \<times> dev_file \<times> big_pool) option" where
  "dev_allocate_gap env f p sid seg range_start req_size = (
     let s_start = ds_offset seg;
         s_end = dev_segment_end seg;
         seg_offset = align range_start (de_segment_size env);
         seg_size = (if to_size range_start + req_size < to_size (ds_offset seg) + ds_size seg
                     then to_size (xalign (to_off (to_size range_start + req_size)) (de_segment_size env) - seg_offset)
                     else to_size (ds_offset seg) + ds_size seg - to_size seg_offset)
     in do {
        (seg', p) \<leftarrow> dev_segment_allocate seg seg_offset seg_size p;
        let f = f\<lparr>df_seg := (df_seg f)(sid \<mapsto> seg')\<rparr>;
        let start_gap_offset = s_start;
        let start_gap_size = to_size (seg_offset - s_start);
        (sl, f, p) \<leftarrow> (if start_gap_size \<noteq> 0
                       then do { (a, f, p) \<leftarrow> dev_create_segment env f p start_gap_offset start_gap_size True; Some ([a], f, p) }
                       else Some ([], f, p));
        let op_delta = to_off (to_size range_start - (to_size start_gap_offset + start_gap_size));
        let end_gap_offset = to_off (to_size seg_offset + seg_size);
        let end_gap_size = to_size s_end - (to_size seg_offset + seg_size);
        (sl, f, p) \<leftarrow> (if end_gap_size \<noteq> 0
                       then do { (a, f, p) \<leftarrow> dev_create_segment env f p end_gap_offset end_gap_size True; Some (sl @ [a], f, p) }
                       else Some (sl, f, p));
        f \<leftarrow> dev_insert_segments f sl;
        Some (op_delta, f, p) })"

partial_function (option) dev_lookup_loop ::
  "'w dev_env \<Rightarrow> dev_file \<Rightarrow> big_pool \<Rightarrow> nat \<Rightarrow> off_t \<Rightarrow> size_t \<Rightarrow> off_t \<Rightarrow> bool \<Rightarrow> file_region list \<Rightarrow>
     (file_region list \<times> dev_file \<times> big_pool) option" where
  "dev_lookup_loop env f p it range_start req_size range_end alloc_gaps regions =
     (case snd (m_leaves (df_segments f) ! it) of
        None \<Rightarrow> Some (regions, f, p)
      | Some sid \<Rightarrow> do {
          seg \<leftarrow> df_seg f sid;
          let s_end = dev_segment_end seg;
          let op_delta = range_start - ds_offset seg;
          if op_delta = to_off (ds_size seg) then None
          else do {
            let op_size = min (to_off req_size) (to_off (ds_size seg) - op_delta);
            (op_delta, f, p) \<leftarrow> (if alloc_gaps \<and> ds_is_gap seg then dev_allocate_gap env f p sid seg range_start req_size else Some (op_delta, f, p));
            seg \<leftarrow> df_seg f sid;
            let regions = regions @ [\<lparr>r_address = dev_region_address env p seg op_delta, r_size = to_size op_size,
                                      r_is_gap = ds_is_gap seg, r_is_pmem = dev_is_pmem seg\<rparr>];
            if s_end \<ge> range_end then Some (regions, f, p)
            else dev_lookup_loop env f p (if it + 1 < length (m_leaves (df_segments f)) then it + 1 else it)
                   s_end (req_size - to_size op_size) range_end alloc_gaps regions } })"

declare dev_lookup_loop.simps [code]

definition dev_lookup_helper ::
  "'w dev_env \<Rightarrow> dev_file \<Rightarrow> big_pool \<Rightarrow> off_t \<Rightarrow> off_t \<Rightarrow> bool \<Rightarrow> file_region list \<Rightarrow> (file_region list \<times> dev_file \<times> big_pool) option" where
  "dev_lookup_helper env f p range_start range_end alloc_gaps regions =
     (let req_size = to_size (range_end - range_start)
      in if req_size = 0 then Some (regions, f, p)
         else do {
           (it, _) \<leftarrow> search_tree (df_segments f) range_start;
           dev_lookup_loop env f p it range_start req_size range_end alloc_gaps regions })"

definition dev_lookup_segments ::
  "'w dev_env \<Rightarrow> dev_file \<Rightarrow> big_pool \<Rightarrow> off_t \<Rightarrow> off_t \<Rightarrow> file_region list \<Rightarrow> (file_region list \<times> dev_file \<times> big_pool) option" where
  "dev_lookup_segments env f p range_start range_end regions =
     (if \<not> (range_start \<ge> 0 \<and> range_start \<le> range_end \<and> m_valid_tree (df_segments f)) then None
      else dev_lookup_helper env f p range_start range_end True regions)"

definition dev_lookup_data ::
  "'w dev_env \<Rightarrow> dev_file \<Rightarrow> big_pool \<Rightarrow> off_t \<Rightarrow> off_t \<Rightarrow> file_region list \<Rightarrow> (file_region list \<times> dev_file \<times> big_pool) option" where
  "dev_lookup_data env f p range_start range_end regions =
     (if \<not> (range_start \<ge> 0 \<and> range_start \<le> range_end \<and> m_valid_tree (df_segments f)) then None
      else let range_end = (if range_end > df_used_offset f then df_used_offset f else range_end)
           in dev_lookup_helper env f p range_start range_end False regions)"

definition dev_extend_storage ::
  "'w dev_env \<Rightarrow> dev_file \<Rightarrow> big_pool \<Rightarrow> off_t \<Rightarrow> size_t \<Rightarrow> file_region list \<Rightarrow> (file_region list \<times> dev_file \<times> big_pool) option" where
  "dev_extend_storage env f p offset sz regions = (
     let ls = m_leaves (df_segments f);
         alloc = df_alloc_offset f
     in if length ls < 2 \<or> ls ! (length ls - 2) \<noteq> (alloc, None) then None
        else do {
          let seg_sz = min (df_segment_size f * 2) (de_segment_size env);
          let f = f\<lparr>df_segment_size := seg_sz\<rparr>;
          let new_segment_offset = (if offset \<le> alloc then alloc else align offset seg_sz);
          let gap_size = to_size (new_segment_offset - alloc);
          let new_segment_size = to_size (xalign (to_off (to_size offset + sz)) seg_sz - new_segment_offset);
          (sl, f, p) \<leftarrow> (if gap_size \<noteq> 0
                         then if \<not> offset > alloc then None
                              else do { (a, f, p) \<leftarrow> dev_create_segment env f p alloc gap_size True; Some ([a], f, p) }
                         else Some ([], f, p));
          (a, f, p) \<leftarrow> dev_create_segment env f p new_segment_offset new_segment_size False;
          f \<leftarrow> dev_append_segments f (sl @ [a]);
          seg \<leftarrow> df_seg f a;
          let op_delta = (if offset \<le> alloc then 0 else to_size (offset - new_segment_offset));
          let x = (dev_data seg + unat op_delta) mod 2 ^ 64;
          let regions = regions @ [\<lparr>r_address = (if x = 0 then None else Some (dev_ptr env p x)), r_size = to_size offset + sz - to_size new_segment_offset,
                                    r_is_gap = False, r_is_pmem = dev_is_pmem seg\<rparr>];
          Some (regions, f\<lparr>df_alloc_offset := to_off (to_size new_segment_offset + new_segment_size)\<rparr>, p) })"

definition dev_fetch_storage ::
  "'w dev_env \<Rightarrow> dev_file \<Rightarrow> big_pool \<Rightarrow> off_t \<Rightarrow> size_t \<Rightarrow> (file_region list \<times> dev_file \<times> big_pool) option" where
  "dev_fetch_storage env f p offset sz =
     (if offset + to_off sz \<le> df_alloc_offset f
      then dev_lookup_segments env f p offset (to_off (to_size offset + sz)) []
      else if \<not> (offset \<le> to_off (to_size offset + sz) \<and> m_valid_tree (df_segments f)) then None
      else do {
        (regions, f, p) \<leftarrow> (if offset < df_alloc_offset f then dev_lookup_segments env f p offset (df_alloc_offset f) [] else Some ([], f, p));
        dev_extend_storage env f p offset sz regions })"

section \<open>Operations\<close>

definition dev_get_data ::
  "'w dev_env \<Rightarrow> dev_file \<Rightarrow> big_pool \<Rightarrow> 'w machine \<Rightarrow> off_t \<Rightarrow> size_t \<Rightarrow> fuse_bufvec \<Rightarrow> (stop + (int \<times> fuse_bufvec \<times> dev_file \<times> 'w machine)) option" where
  "dev_get_data env f p s start_offset sz fuse_buffer = (
     let end_offset = to_off (to_size start_offset + sz)
     in if \<not> start_offset < end_offset then None
        else let f = f\<lparr>df_initialized := True\<rparr>
        in ebind (dev_lock_range f start_offset end_offset op_read) (\<lambda>(rl, f). do {
          (regions, f, p) \<leftarrow> dev_lookup_data env f p start_offset end_offset [];
          if regions = [] then do {
            v \<leftarrow> set_buf0 fuse_buffer None 0;
            f \<leftarrow> dev_unlock_range f rl;
            Some (Inr (0, v, f, s)) }
          else case de_memalign env s (total_size regions) of
              None \<Rightarrow> do { f \<leftarrow> dev_unlock_range f rl; Some (Inr (- ENOMEM, fuse_buffer, f, s)) }
            | Some buffer \<Rightarrow> do {
                let m = (mc_mem s)(buffer \<mapsto> \<lparr>blk_len = unat (total_size regions), blk_byte = (\<lambda>_. 0)\<rparr>);
                (n, m) \<leftarrow> copy_regions m buffer 0 regions;
                if n \<noteq> unat (total_size regions) then None
                else do {
                  v \<leftarrow> set_buf0 fuse_buffer (Some (buffer, 0)) (unat (total_size regions));
                  f \<leftarrow> dev_unlock_range f rl;
                  Some (Inr (0, v, f, s\<lparr>mc_mem := m\<rparr>)) } } }))"

fun dev_write_regions :: "'w dev_env \<Rightarrow> 'w machine \<Rightarrow> int \<Rightarrow> fuse_bufvec \<Rightarrow> file_region list \<Rightarrow> (int \<times> fuse_bufvec \<times> 'w machine) option" where
  "dev_write_regions env s n v [] = Some (n, v, s)"
| "dev_write_regions env s n v (r # rs) = do {
     (res, _, v, s) \<leftarrow> (if r_is_pmem r
        then fuse_buf_copy_pmem False (de_have_splice env) (de_calls env) (de_tmp env) s (one_buf (dst_buf r) 0) v splice_move
        else de_copy env s (one_buf (dst_buf r) 0) v splice_move);
     dev_write_regions env s (n + res) v rs }"

definition dev_put_data ::
  "'w dev_env \<Rightarrow> dev_file \<Rightarrow> big_pool \<Rightarrow> 'w machine \<Rightarrow> off_t \<Rightarrow> size_t \<Rightarrow> fuse_bufvec \<Rightarrow> (stop + (int \<times> fuse_bufvec \<times> dev_file \<times> big_pool \<times> 'w machine)) option" where
  "dev_put_data env f p s start_offset sz fuse_buffer = (
     let f = f\<lparr>df_initialized := True\<rparr>;
         end_offset = to_off (to_size start_offset + sz)
     in do {
       (regions, f, p) \<leftarrow> dev_fetch_storage env f p start_offset sz;
       ebind (dev_lock_range f start_offset end_offset op_write) (\<lambda>(rl, f). do {
         (n, v, s) \<leftarrow> dev_write_regions env s 0 fuse_buffer regions;
         let f = dev_update_size f (to_size end_offset);
         f \<leftarrow> dev_unlock_range f rl;
         Some (Inr (n, v, f, p, s)) }) })"

definition dev_append_data :: "dev_file \<Rightarrow> off_t \<Rightarrow> size_t \<Rightarrow> fuse_bufvec \<Rightarrow> int" where
  "dev_append_data f start_offset sz fuse_buffer = 0"

definition dev_file_allocate :: "'w dev_env \<Rightarrow> dev_file \<Rightarrow> big_pool \<Rightarrow> off_t \<Rightarrow> size_t \<Rightarrow> (int \<times> dev_file \<times> big_pool) option" where
  "dev_file_allocate env f p start_offset sz = do {
     let f = f\<lparr>df_initialized := True\<rparr>;
     (regions, f, p) \<leftarrow> dev_fetch_storage env f p start_offset sz;
     let f = dev_update_size f (to_size start_offset + sz);
     Some (0, f\<lparr>df_attributes := (df_attributes f)\<lparr>st_ctime := de_time env\<rparr>\<rparr>, p) }"

text \<open>The units of a dropped segment are unmapped, but the allocator is not told.\<close>

fun dev_truncate_loop :: "'w dev_env \<Rightarrow> off_t \<Rightarrow> (addr option) list \<Rightarrow> off_t \<Rightarrow> bool \<Rightarrow> (addr \<rightharpoonup> dev_segment) \<Rightarrow> memory \<Rightarrow> ((addr \<rightharpoonup> dev_segment) \<times> memory) option" where
  "dev_truncate_loop env end_offset [] sz was_cut h m = Some (h, m)"
| "dev_truncate_loop env end_offset (None # vs) sz was_cut h m = dev_truncate_loop env end_offset vs sz was_cut h m"
| "dev_truncate_loop env end_offset (Some a # vs) sz was_cut h m = do {
     seg \<leftarrow> h a;
     let sz = sz + to_off (if ds_bytes seg \<noteq> 0 then ds_bytes seg else ds_size seg);
     if sz > end_offset
     then if \<not> was_cut
          then dev_truncate_loop env end_offset vs sz True (h(a \<mapsto> seg\<lparr>ds_bytes := to_size (sz - end_offset)\<rparr>)) m
          else dev_truncate_loop env end_offset vs sz was_cut
                 (h(a \<mapsto> seg\<lparr>ds_pool := (ds_pool seg)\<lparr>dp_data := 0\<rparr>, ds_is_gap := True\<rparr>))
                 (de_unmap env (dev_data seg) (dp_length (ds_pool seg)) m)
     else dev_truncate_loop env end_offset vs sz was_cut h m }"

definition dev_truncate :: "'w dev_env \<Rightarrow> dev_file \<Rightarrow> big_pool \<Rightarrow> 'w machine \<Rightarrow> off_t \<Rightarrow> (stop + (dev_file \<times> big_pool \<times> 'w machine)) option" where
  "dev_truncate env f p s end_offset =
     (if (ucast (to_size end_offset) :: 32 word) > ucast (dev_size f)
      then do { (_, f, p) \<leftarrow> dev_file_allocate env f p 0 (to_size end_offset); Some (Inr (f, p, s)) }
      else ebind (dev_lock_range f end_offset (to_off (dev_size f)) op_write) (\<lambda>(rl, f). do {
        (h, m) \<leftarrow> dev_truncate_loop env end_offset (map snd (m_leaves (df_segments f))) 0 False (df_seg f) (mc_mem s);
        let f = f\<lparr>df_seg := h, df_used_offset := end_offset,
                  df_attributes := (df_attributes f)\<lparr>st_size := end_offset, st_blocks := end_offset div 512, st_ctime := de_time env\<rparr>\<rparr>;
        f \<leftarrow> dev_unlock_range f rl;
        Some (Inr (f, p, s\<lparr>mc_mem := m\<rparr>)) }))"

definition dev_unload :: "'w dev_env \<Rightarrow> dev_file \<Rightarrow> big_pool \<Rightarrow> 'w machine \<Rightarrow> (stop + (int \<times> byte list \<times> dev_file)) option" where
  "dev_unload env f p s =
     (if df_type f = temporary then Some (Inr (-1, [], f))
      else ebind (dev_lock_range f 0 (to_off (dev_size f)) op_read) (\<lambda>(rl, f). do {
             (regions, f, p) \<leftarrow> dev_lookup_data env f p 0 (to_off (dev_size f)) [];
             bs \<leftarrow> output_regions (mc_mem s) regions;
             f \<leftarrow> dev_unlock_range f rl;
             Some (Inr (0, bs, f)) }))"

text \<open>The constructor for a file that is loaded from the underlying file system.\<close>

definition dev_load_file ::
  "'w dev_env \<Rightarrow> file_type \<Rightarrow> size_t \<Rightarrow> int option \<Rightarrow> stat \<Rightarrow> big_pool \<Rightarrow> 'w machine \<Rightarrow> (stop + (dev_file \<times> big_pool \<times> 'w machine)) option" where
  "dev_load_file env ty inode fd stbuf p s =
     (let f = (new_dev_file ty)\<lparr>df_segments := new_segment_tree 0 off_max None\<rparr>
      in case fd of
             None \<Rightarrow> Some (Inl (Threw Opening_file))
           | Some fd \<Rightarrow> do {
               let stbuf = stbuf\<lparr>st_ino := inode\<rparr>;
               let seg_size = to_size (xalign (st_size stbuf) (df_segment_size f));
               (a, f, p) \<leftarrow> dev_create_segment env f p 0 seg_size False;
               f \<leftarrow> dev_append_segments f [a];
               seg \<leftarrow> df_seg f a;
               let f = f\<lparr>df_alloc_offset := to_off (ds_size seg)\<rparr>;
               (n, seg, s) \<leftarrow> dev_fill_from env p seg fd s;
               let f = f\<lparr>df_seg := (df_seg f)(a \<mapsto> seg), df_used_offset := to_off n\<rparr>;
               Some (Inr ((dev_save_attributes f stbuf)\<lparr>df_initialized := True\<rparr>, p, s)) })"

text \<open>The destructor: the tree lets go of its segments, each of which gives its units back.\<close>

fun dev_destroy_segments :: "(addr \<rightharpoonup> dev_segment) \<Rightarrow> addr list \<Rightarrow> big_pool \<Rightarrow> big_pool option" where
  "dev_destroy_segments h [] p = Some p"
| "dev_destroy_segments h (a # sl) p = do { seg \<leftarrow> h a; p \<leftarrow> dev_segment_destroy seg p; dev_destroy_segments h sl p }"

definition dev_file_destroy :: "dev_file \<Rightarrow> big_pool \<Rightarrow> big_pool option" where
  "dev_file_destroy f p = dev_destroy_segments (df_seg f) (remdups (List.map_filter snd (m_leaves (df_segments f)))) p"

end
