(* ===== verification/Devdax_Backend.thy ===== *)
theory Devdax_Backend
  imports Devdax_File Nvml_Backend
begin

unbundle bit_operations_syntax

text \<open>
  The name space of the devdax back end, \<open>src/src/backends/nvram-devdax/nvram-devdax.cpp\<close>.  Its
  class is a copy of the one of the NVML back end over its own files; the class of directories,
  \<open>dir.cpp\<close>, and the functions on paths are the same and are shared with \<open>Nvml_Backend\<close>.  The
  allocator \<open>pool::m_bpool\<close> is a static object, \<open>db_pool\<close>.

  A file object is destroyed with its last owner, and its destructor gives units of the device
  back.  The owners are the entries of \<open>m_files\<close> and the records of open files; the set \<open>held\<close>
  has the objects with such a record.
\<close>

section \<open>State\<close>

record dev_backend =
  db_capacity :: size_t
  db_root_dir :: string
  db_files :: "(string \<times> nat) list"
  db_objs :: "nat \<rightharpoonup> dev_file"
  db_next :: nat
  db_dirs :: "(string \<times> dir) list"
  db_inode :: size_t
  db_pool :: big_pool

definition dd_new_inode :: "dev_backend \<Rightarrow> size_t \<times> dev_backend" where
  "dd_new_inode b = (scast (ucast (db_inode b) :: 32 word), b\<lparr>db_inode := db_inode b + 1\<rparr>)"

definition new_dev_backend :: "'w host \<Rightarrow> size_t \<Rightarrow> size_t \<Rightarrow> string \<Rightarrow> big_pool \<Rightarrow> stop + dev_backend" where
  "new_dev_backend h inode0 capacity root_dir p = (case h_open h root_dir of
       None \<Rightarrow> Inl (Threw Opening_file)
     | Some _ \<Rightarrow>
         let (ino, b) = dd_new_inode \<lparr>db_capacity = capacity, db_root_dir = root_dir, db_files = [], db_objs = (\<lambda>_. None), db_next = 0, db_dirs = [],
                          db_inode = inode0, db_pool = p\<rparr>
         in Inr (b\<lparr>db_dirs := [(''/'', new_dir ''/'' ino (h_fstat h root_dir) persistent True)]\<rparr>))"

section \<open>Owners of file objects\<close>

text \<open>An owner of object \<open>i\<close> lets go of it; without another one the destructor runs.\<close>

definition dd_release :: "nat set \<Rightarrow> dev_backend \<Rightarrow> nat \<Rightarrow> dev_backend option" where
  "dd_release held b i =
     (if i \<in> held \<or> i \<in> set (map snd (db_files b)) then Some b
      else do {
        f \<leftarrow> db_objs b i;
        p \<leftarrow> dev_file_destroy f (db_pool b);
        Some (b\<lparr>db_objs := (db_objs b)(i := None), db_pool := p\<rparr>) })"

definition dd_erase :: "nat set \<Rightarrow> dev_backend \<Rightarrow> string \<Rightarrow> dev_backend option" where
  "dd_erase held b path = (case map_of (db_files b) path of
       None \<Rightarrow> Some b
     | Some i \<Rightarrow> dd_release held (b\<lparr>db_files := AList.delete path (db_files b)\<rparr>) i)"

section \<open>Files\<close>

definition dd_exists :: "dev_backend \<Rightarrow> string \<Rightarrow> bool" where
  "dd_exists b pathname \<longleftrightarrow> map_of (db_files b) pathname \<noteq> None"

definition dd_find :: "dev_backend \<Rightarrow> string \<Rightarrow> nat option" where
  "dd_find b path = map_of (db_files b) path"

definition dd_stat :: "dev_backend \<Rightarrow> string \<Rightarrow> int \<times> stat option" where
  "dd_stat b path = (case map_of (db_files b) path of
       Some i \<Rightarrow> (0, map_option dev_stat (db_objs b i))
     | None \<Rightarrow> (case map_of (db_dirs b) (slashed path) of
           Some d \<Rightarrow> (0, Some (dir_stat d))
         | None \<Rightarrow> (- ENOENT, None)))"

definition dd_list_in :: "'w host \<Rightarrow> dev_backend \<Rightarrow> string \<Rightarrow> dev_backend" where
  "dd_list_in h b path = b\<lparr>db_dirs := AList.map_entry (parent_of path) (\<lambda>d. add_file (h_time h) d (base_part path)) (db_dirs b)\<rparr>"

definition dd_unlist_in :: "'w host \<Rightarrow> dev_backend \<Rightarrow> string \<Rightarrow> dev_backend" where
  "dd_unlist_in h b path = b\<lparr>db_dirs := AList.map_entry (parent_of path) (\<lambda>d. remove_file (h_time h) d (base_part path)) (db_dirs b)\<rparr>"

definition dd_create :: "'w host \<Rightarrow> dev_backend \<Rightarrow> string \<Rightarrow> nat \<Rightarrow> int \<times> nat option \<times> dev_backend" where
  "dd_create h b pathname mode =
     (if map_of (db_files b) pathname \<noteq> None then (-1, None, b)
      else if map_of (db_dirs b) (parent_of pathname) = None then (-1, None, b)
      else let b = dd_list_in h b pathname;
               i = db_next b;
               (ino, b) = dd_new_inode b;
               stbuf = \<lparr>st_ino = ino, st_mode = mode, st_nlink = 1, st_uid = h_uid h, st_gid = h_gid h, st_size = 0, st_blocks = 0,
                        st_atime = h_time h, st_mtime = h_time h, st_ctime = h_time h\<rparr>
           in (0, Some i, b\<lparr>db_files := emplace pathname i (db_files b), db_objs := (db_objs b)(i \<mapsto> dev_save_attributes (new_dev_file temporary) stbuf),
                            db_next := Suc i\<rparr>))"

definition dd_unlink :: "'w host \<Rightarrow> nat set \<Rightarrow> dev_backend \<Rightarrow> string \<Rightarrow> (int \<times> dev_backend) option" where
  "dd_unlink h held b path =
     (if map_of (db_files b) path = None then Some (- ENOENT, b)
      else do { b \<leftarrow> dd_erase held b path; Some (0, dd_unlist_in h b path) })"

definition dd_renamedir :: "'w host \<Rightarrow> dev_backend \<Rightarrow> string \<Rightarrow> string \<Rightarrow> int \<times> dev_backend" where
  "dd_renamedir h b opath npath =
     (if map_of (db_dirs b) npath \<noteq> None then (- EEXIST, b)
      else case map_of (db_dirs b) opath of
          None \<Rightarrow> (- ENOENT, b)
        | Some d \<Rightarrow>
            let stbuf = (dir_stat d)\<lparr>st_mtime := h_time h, st_ctime := h_time h\<rparr>
            in (0, b\<lparr>db_dirs := AList.delete opath (emplace npath (dir_save_attributes d stbuf) (db_dirs b))\<rparr>))"

text \<open>The entry of a file at the new path is erased first; the renamed object always keeps an owner.\<close>

definition dd_rename :: "'w host \<Rightarrow> nat set \<Rightarrow> dev_backend \<Rightarrow> string \<Rightarrow> string \<Rightarrow> (int \<times> dev_backend) option" where
  "dd_rename h held b opath npath =
     (if map_of (db_dirs b) (slashed opath) \<noteq> None then Some (dd_renamedir h b (slashed opath) (slashed npath))
      else if map_of (db_files b) opath = None then Some (- ENOENT, b)
      else do {
        b \<leftarrow> (if map_of (db_files b) npath \<noteq> None
               then map_option (\<lambda>b. dd_unlist_in h b npath) (dd_erase held b npath) else Some b);
        i \<leftarrow> map_of (db_files b) opath;
        f \<leftarrow> db_objs b i;
        let stbuf = (dev_stat f)\<lparr>st_ctime := h_time h, st_mtime := h_time h\<rparr>;
        let b = b\<lparr>db_objs := (db_objs b)(i \<mapsto> dev_save_attributes f stbuf), db_files := AList.delete opath (emplace npath i (db_files b))\<rparr>;
        Some (0, dd_list_in h (dd_unlist_in h b opath) npath) })"

section \<open>Directory operations\<close>

definition dd_mkdir :: "'w host \<Rightarrow> dev_backend \<Rightarrow> string \<Rightarrow> nat \<Rightarrow> (int \<times> dev_backend) option" where
  "dd_mkdir h b pathname mode = (
     let p = ensure_slash pathname
     in if map_of (db_dirs b) p \<noteq> None then Some (-1, b)
        else let (ino, b) = dd_new_inode b;
                 d = new_dir p ino null_stat temporary False;
                 stbuf = (dir_stat d)\<lparr>st_uid := h_uid h, st_gid := h_gid h, st_mode := mode OR S_IFDIR,
                           st_atime := h_time h, st_mtime := h_time h, st_ctime := h_time h\<rparr>;
                 b = b\<lparr>db_dirs := emplace p (dir_save_attributes d stbuf) (db_dirs b)\<rparr>;
                 q = butlast p
             in if map_of (db_dirs b) (dir_part q) = None then None
                else Some (0, b\<lparr>db_dirs := AList.map_entry (dir_part q) (\<lambda>d. add_file (h_time h) d (base_part q)) (db_dirs b)\<rparr>))"

definition dd_rmdir :: "'w host \<Rightarrow> dev_backend \<Rightarrow> string \<Rightarrow> (int \<times> dev_backend) option" where
  "dd_rmdir h b pathname = (
     let p = ensure_slash pathname
     in case map_of (db_dirs b) p of
          None \<Rightarrow> Some (- ENOENT, b)
        | Some d \<Rightarrow>
            if st_nlink (dir_stat d) \<noteq> 1 then Some (- ENOTEMPTY, b)
            else let b = b\<lparr>db_dirs := AList.delete p (db_dirs b)\<rparr>;
                     q = butlast p
                 in if map_of (db_dirs b) (dir_part q) = None then None
                    else Some (0, b\<lparr>db_dirs := AList.map_entry (dir_part q) (\<lambda>d. remove_file (h_time h) d (base_part q)) (db_dirs b)\<rparr>))"

definition dd_change_attributes :: "'w host \<Rightarrow> dev_backend \<Rightarrow> string \<Rightarrow> (stat \<Rightarrow> stat) \<Rightarrow> (int \<times> dev_backend) option" where
  "dd_change_attributes h b pathname g =
     (if pathname = [] then None
      else let upd = (\<lambda>st. (g st)\<lparr>st_ctime := h_time h\<rparr>)
           in case map_of (db_dirs b) (ensure_slash pathname) of
             Some d \<Rightarrow> Some (0, b\<lparr>db_dirs := AList.map_entry (ensure_slash pathname) (\<lambda>d. dir_save_attributes d (upd (dir_stat d))) (db_dirs b)\<rparr>)
           | None \<Rightarrow> (case map_of (db_files b) pathname of
               None \<Rightarrow> Some (- ENOENT, b)
             | Some i \<Rightarrow> do { f \<leftarrow> db_objs b i; Some (0, b\<lparr>db_objs := (db_objs b)(i \<mapsto> dev_save_attributes f (upd (dev_stat f)))\<rparr>) }))"

definition dd_chmod :: "'w host \<Rightarrow> dev_backend \<Rightarrow> string \<Rightarrow> nat \<Rightarrow> (int \<times> dev_backend) option" where
  "dd_chmod h b pathname mode = dd_change_attributes h b pathname (\<lambda>st. st\<lparr>st_mode := mode\<rparr>)"

definition dd_chown :: "'w host \<Rightarrow> dev_backend \<Rightarrow> string \<Rightarrow> nat \<Rightarrow> nat \<Rightarrow> (int \<times> dev_backend) option" where
  "dd_chown h b pathname owner grp = dd_change_attributes h b pathname (\<lambda>st. st\<lparr>st_uid := owner, st_gid := grp\<rparr>)"

definition dd_find_s :: "dev_backend \<Rightarrow> string \<Rightarrow> string list" where
  "dd_find_s b path = (let tmp_path = (if path \<noteq> [] \<and> last path \<noteq> slash then path @ [slash] else path)
     in case map_of (db_dirs b) tmp_path of None \<Rightarrow> [] | Some d \<Rightarrow> list_files d)"

definition dd_readdir :: "dev_backend \<Rightarrow> string \<Rightarrow> string list" where
  "dd_readdir b path = [''.'', ''..''] @ map (\<lambda>f. if f \<noteq> [] \<and> last f = slash then butlast f else f) (dd_find_s b path)"

section \<open>Loading and unloading\<close>

definition dd_remove_root :: "dev_backend \<Rightarrow> string \<Rightarrow> string option" where
  "dd_remove_root b pathname = (case find_sub (db_root_dir b) pathname of
       None \<Rightarrow> Some (slash # path_filename pathname)
     | Some rdir \<Rightarrow> if db_root_dir b = [] then None else Some (drop (rdir + length (db_root_dir b) - 1) pathname))"

fun dd_load_dirs :: "'w host \<Rightarrow> dev_backend \<Rightarrow> string \<Rightarrow> string list \<Rightarrow> (stop + (string \<times> dev_backend)) option" where
  "dd_load_dirs h b path [] = Some (Inr (path, b))"
| "dd_load_dirs h b path (part # parts) = (
     let path = path @ part @ [slash]
     in if map_of (db_dirs b) path \<noteq> None then dd_load_dirs h b path parts
        else let (ino, b) = dd_new_inode b
             in case h_open h (db_root_dir b @ path) of
                  None \<Rightarrow> Some (Inl (Threw Opening_file))
                | Some _ \<Rightarrow>
                    let b = b\<lparr>db_dirs := emplace path (new_dir path ino (h_fstat h (db_root_dir b @ path)) persistent True) (db_dirs b)\<rparr>;
                        parent = (case rfind_sub part path of Some i \<Rightarrow> take i path | None \<Rightarrow> path)
                    in if map_of (db_dirs b) parent = None then None
                       else dd_load_dirs h (b\<lparr>db_dirs := AList.map_entry parent (\<lambda>d. add_file (h_time h) d part) (db_dirs b)\<rparr>) path parts)"

definition dd_load_one :: "'w dev_env \<Rightarrow> 'w host \<Rightarrow> dev_backend \<Rightarrow> 'w machine \<Rightarrow> string \<Rightarrow> file_type \<Rightarrow> (stop + (error_code \<times> dev_backend \<times> 'w machine)) option" where
  "dd_load_one env h b s pathname ty = do {
     path_wo_root \<leftarrow> dd_remove_root b pathname;
     if map_of (db_files b) path_wo_root \<noteq> None then Some (Inr (path_already_imported, b, s))
     else let (ino, b) = dd_new_inode b
          in ebind (dev_load_file env ty ino (h_open h pathname) (h_fstat h pathname) (db_pool b) s) (\<lambda>(f, p, s).
             let i = db_next b;
                 b = b\<lparr>db_files := emplace path_wo_root i (db_files b), db_objs := (db_objs b)(i \<mapsto> f), db_next := Suc i, db_pool := p\<rparr>;
                 m_path = path_parts path_wo_root
             in if m_path = [] then None
                else ebind (dd_load_dirs h b [slash] (tl (butlast m_path))) (\<lambda>(path, b).
                  if map_of (db_dirs b) path = None then Some (Inr (internal_error, b, s))
                  else Some (Inr (success, b\<lparr>db_dirs := AList.map_entry path (\<lambda>d. add_file (h_time h) d (last m_path)) (db_dirs b)\<rparr>, s)))) }"

fun dd_load_entries ::
  "'w dev_env \<Rightarrow> 'w host \<Rightarrow> dev_backend \<Rightarrow> 'w machine \<Rightarrow> string list \<Rightarrow> file_type \<Rightarrow> (stop + (error_code \<times> dev_backend \<times> 'w machine)) option" where
  "dd_load_entries env h b s [] ty = Some (Inr (success, b, s))"
| "dd_load_entries env h b s (e # es) ty =
     (if h_is_directory h e then dd_load_entries env h b s es ty
      else if \<not> h_exists h e then Some (Inr (no_such_path, b, s))
      else ebind (dd_load_one env h b s e ty) (\<lambda>(ec, b, s). if ec \<noteq> success then Some (Inr (ec, b, s)) else dd_load_entries env h b s es ty))"

definition dd_load :: "'w dev_env \<Rightarrow> 'w host \<Rightarrow> dev_backend \<Rightarrow> 'w machine \<Rightarrow> string \<Rightarrow> file_type \<Rightarrow> (stop + (error_code \<times> dev_backend \<times> 'w machine)) option" where
  "dd_load env h b s pathname ty =
     (if \<not> h_exists h pathname then Some (Inr (no_such_path, b, s))
      else do {
        _ \<leftarrow> dd_remove_root b pathname;
        if h_is_directory h pathname then dd_load_entries env h b s (h_entries h pathname) ty
        else dd_load_one env h b s pathname ty })"

fun dd_unload_files ::
  "'w dev_env \<Rightarrow> 'w host \<Rightarrow> dev_backend \<Rightarrow> 'w machine \<Rightarrow> string \<Rightarrow> (string \<times> nat) list \<Rightarrow> (stop + (error_code \<times> dev_backend \<times> 'w machine)) option" where
  "dd_unload_files env h b s pathname [] = Some (Inr (success, b, s))"
| "dd_unload_files env h b s pathname ((p, i) # fs) = do {
     (err, w) \<leftarrow> mkdir_p h (mc_world s) (pathname @ before_slash p);
     let s = s\<lparr>mc_world := w\<rparr>;
     if err < 0 then Some (Inr (internal_error, b, s))
     else if p = [] then None
     else do {
       f \<leftarrow> db_objs b i;
       ebind (dev_unload env f (db_pool b) s) (\<lambda>(rv, bs, f).
         let s = (if rv < 0 then s else s\<lparr>mc_world := h_output h (mc_world s) (pathname @ tl p) bs\<rparr>)
         in dd_unload_files env h (b\<lparr>db_objs := (db_objs b)(i \<mapsto> f)\<rparr>) s pathname fs) } }"

definition dd_unload :: "'w dev_env \<Rightarrow> 'w host \<Rightarrow> dev_backend \<Rightarrow> 'w machine \<Rightarrow> string \<Rightarrow> (stop + (error_code \<times> dev_backend \<times> 'w machine)) option" where
  "dd_unload env h b s pathname = dd_unload_files env h b s pathname (db_files b)"

definition dd_change_type :: "dev_backend \<Rightarrow> string \<Rightarrow> file_type \<Rightarrow> dev_backend option" where
  "dd_change_type b path ty = do {
     p \<leftarrow> dd_remove_root b path;
     case map_of (db_files b) p of
       None \<Rightarrow> Some b
     | Some i \<Rightarrow> do { f \<leftarrow> db_objs b i; Some (b\<lparr>db_objs := (db_objs b)(i \<mapsto> dev_change_type f ty)\<rparr>) } }"

end
