(* ===== verification/Devdax_Props.thy ===== *)
theory Devdax_Props
  imports Devdax_Pool
begin

text \<open>
  What the devdax allocator promises: storage that is taken is given out once, as long as the
  requests are for whole segments.  The contract is the locale \<open>allocator\<close>, whose client is
  any sequence of requests and releases, and the bit set implements it.  Requests smaller than
  a segment, which new files make, are not protected.
\<close>

section \<open>Searching\<close>

lemma free_run_free:
  assumes "start + n \<le> NVML_MAPPINGS"
  shows "free_run b start n i = (if \<exists>k < n. i \<le> k \<and> b (k + start) then Some (Some (LEAST k. i \<le> k \<and> k < n \<and> b (k + start))) else Some None)"
  using assms
proof (induction "n - i" arbitrary: i)
  case 0
  then show ?case by (auto simp: free_run.simps[of _ _ _ i])
next
  case (Suc d)
  have s: "i < n" "(i + start) mod 2 ^ 64 = i + start" "i + start < NVML_MAPPINGS" using Suc(2,3) by (auto simp: NVML_MAPPINGS_def)
  show ?case
  proof (cases "b (i + start)")
    case True
    then have "(LEAST k. i \<le> k \<and> k < n \<and> b (k + start)) = i" using s by (intro Least_equality) auto
    then show ?thesis using s True by (subst free_run.simps) (auto simp: Let_def)
  next
    case False
    then have "(i \<le> k \<and> k < n \<and> b (k + start)) = (i + 1 \<le> k \<and> k < n \<and> b (k + start))" for k by (metis Suc_eq_plus1 le_antisym not_less_eq_eq Suc_leD)
    then show ?thesis using s False Suc(1)[of "i + 1"] Suc(2,3) by (subst free_run.simps) (auto simp: Let_def)
  qed
qed

lemma free_run_none:
  assumes "start + n \<le> NVML_MAPPINGS"
  shows "free_run b start n 0 \<noteq> None" "free_run b start n 0 = Some None \<longleftrightarrow> (\<forall>k < n. \<not> b (k + start))"
  unfolding free_run_free[OF assms] by (auto split: if_splits)

lemma scan_run:
  assumes "mappings \<le> NVML_MAPPINGS"
  shows "\<exists>r. scan b n mappings j = Some r \<and> (\<forall>s. r = Some s \<longrightarrow> unat n + s < mappings \<and> (\<forall>k < unat n. \<not> b (k + s)))"
  using assms
proof (induction b n mappings j rule: scan.induct)
  case (1 b n mappings j)
  have "unat n < 2 ^ 32" "unat j < 2 ^ 32" using unsigned_less[of j, where ?'a = nat] unsigned_less[of n, where ?'a = nat] by simp_all
  then have m: "(unat n + unat j) mod 2 ^ 64 = unat n + unat j" by simp
  show ?case
  proof (cases "unat j < mappings \<and> unat n + unat j < mappings")
    case True
    then have l: "unat j + unat n \<le> NVML_MAPPINGS" using 1(2) by simp
    from free_run_none(1)[OF l, of b] obtain q where q: "free_run b (unat j) (unat n) 0 = Some q" by blast
    show ?thesis
    proof (cases q)
      case None
      then show ?thesis using True q m free_run_none(2)[OF l, of b] by (subst scan.simps) auto
    next
      case (Some i)
      then show ?thesis using True q m 1(1)[of q i] 1(2) by (subst scan.simps) auto
    qed
  qed (use m in \<open>auto simp: scan.simps[of b n mappings j]\<close>)
qed

section \<open>The contract of an allocator\<close>

datatype pool_op = Alloc nat | Free nat

fun run_pool :: "(nat \<Rightarrow> 's \<Rightarrow> (nat \<times> 's) option) \<Rightarrow> (nat \<Rightarrow> nat \<Rightarrow> 's \<Rightarrow> 's option) \<Rightarrow> pool_op list \<Rightarrow> 's \<Rightarrow> (nat \<times> nat) list \<Rightarrow> ('s \<times> (nat \<times> nat) list) option" where
  "run_pool al de [] s live = Some (s, live)"
| "run_pool al de (Alloc sz # ops) s live =
     (case al sz s of None \<Rightarrow> None | Some (x, s') \<Rightarrow> run_pool al de ops s' (if x = 0 then live else (x, sz) # live))"
| "run_pool al de (Free i # ops) s live =
     (if i < length live
      then case de (fst (live ! i)) (snd (live ! i)) s of None \<Rightarrow> None | Some s' \<Rightarrow> run_pool al de ops s' (take i live @ drop (Suc i) live)
      else run_pool al de ops s live)"

definition separate :: "nat \<times> nat \<Rightarrow> nat \<times> nat \<Rightarrow> bool" where
  "separate u v \<longleftrightarrow> fst u + snd u \<le> fst v \<or> fst v + snd v \<le> fst u"

locale allocator =
  fixes al :: "nat \<Rightarrow> 's \<Rightarrow> (nat \<times> 's) option"
    and de :: "nat \<Rightarrow> nat \<Rightarrow> 's \<Rightarrow> 's option"
    and ok :: "'s \<Rightarrow> (nat \<times> nat) list \<Rightarrow> bool"
    and dev :: "'s \<Rightarrow> 'd"
    and fits :: "'d \<Rightarrow> nat \<Rightarrow> bool"
  assumes allocated: "ok s live \<Longrightarrow> fits (dev s) sz \<Longrightarrow> \<exists>x s'. al sz s = Some (x, s') \<and> ok s' (if x = 0 then live else (x, sz) # live) \<and> dev s' = dev s"
    and released: "ok s live \<Longrightarrow> i < length live \<Longrightarrow>
      \<exists>s'. de (fst (live ! i)) (snd (live ! i)) s = Some s' \<and> ok s' (take i live @ drop (Suc i) live) \<and> dev s' = dev s"
    and exclusive: "ok s live \<Longrightarrow> sorted_wrt separate live"
begin

lemma runs: "ok s live \<Longrightarrow> (\<And>sz. Alloc sz \<in> set ops \<Longrightarrow> fits (dev s) sz) \<Longrightarrow> \<exists>s' live'. run_pool al de ops s live = Some (s', live') \<and> ok s' live' \<and> dev s' = dev s"
proof (induction ops arbitrary: s live)
  case (Cons op ops)
  show ?case
  proof (cases op)
    case (Alloc sz)
    then show ?thesis using allocated[OF Cons(2), of sz] Cons(1,3) by fastforce
  next
    case (Free i)
    then show ?thesis using released[OF Cons(2), of i] Cons by fastforce
  qed
qed auto

end

section \<open>The bit set implements it\<close>

definition units_of :: "big_pool \<Rightarrow> nat \<times> nat \<Rightarrow> nat set" where
  "units_of p u = {(fst u - bp_address p) div bp_size_of_segment p ..< (fst u - bp_address p) div bp_size_of_segment p + snd u div bp_size_of_segment p}"

definition whole :: "big_pool \<Rightarrow> nat \<times> nat \<Rightarrow> bool" where
  "whole p u \<longleftrightarrow> (\<exists>s n. fst u = bp_address p + s * bp_size_of_segment p \<and> snd u = n * bp_size_of_segment p \<and> 0 < n \<and> s + n \<le> bp_MAPPINGS p \<and> s + n \<le> NVML_MAPPINGS)"

text \<open>
  The dimensions of a mapped device; on a device with at most as many units as the bit set has
  bits, the search never leaves the bit set.
\<close>

definition pool_dim :: "big_pool \<Rightarrow> bool" where
  "pool_dim p \<longleftrightarrow> 0 < bp_size_of_segment p \<and> bp_MAPPINGS p = bp_length p div bp_size_of_segment p \<and> 0 < bp_MAPPINGS p \<and>
     0 < bp_address p \<and> bp_address p + bp_length p < 2 ^ 64 \<and> bp_offset p < 2 ^ 64"

definition pool_ok :: "big_pool \<Rightarrow> bool" where
  "pool_ok p \<longleftrightarrow> pool_dim p \<and> bp_MAPPINGS p \<le> NVML_MAPPINGS \<and> bp_offset p \<le> bp_MAPPINGS p"

text \<open>The bits that are set are those of the storage in use, and no bit is used twice.\<close>

definition taken :: "big_pool \<Rightarrow> (nat \<times> nat) list \<Rightarrow> bool" where
  "taken p live \<longleftrightarrow> (\<forall>u \<in> set live. whole p u) \<and> {k. bp_bitset p k} = (\<Union>u \<in> set live. units_of p u) \<and>
     sorted_wrt (\<lambda>u v. units_of p u \<inter> units_of p v = {}) live"

definition live_ok :: "big_pool \<Rightarrow> (nat \<times> nat) list \<Rightarrow> bool" where
  "live_ok p live \<longleftrightarrow> pool_ok p \<and> taken p live"

definition device :: "big_pool \<Rightarrow> nat \<times> nat \<times> nat" where
  "device p = (bp_address p, bp_size_of_segment p, bp_length p)"

definition whole_size :: "nat \<times> nat \<times> nat \<Rightarrow> nat \<Rightarrow> bool" where
  "whole_size d sz \<longleftrightarrow> (case d of (a, seg, len) \<Rightarrow> 0 < sz \<and> seg dvd sz \<and> sz div seg < 2 ^ 32)"

lemma units_whole:
  assumes "0 < bp_size_of_segment p"
  shows "units_of p (bp_address p + s * bp_size_of_segment p, n * bp_size_of_segment p) = {s ..< s + n}"
  using assms by (simp add: units_of_def)

lemma units_apart:
  assumes "0 < bp_size_of_segment p" "whole p u" "whole p v" "units_of p u \<inter> units_of p v = {}"
  shows "separate u v"
proof -
  obtain s n where u: "u = (bp_address p + s * bp_size_of_segment p, n * bp_size_of_segment p)" "0 < n" using assms(2) by (auto simp: whole_def prod_eq_iff)
  obtain t m where v: "v = (bp_address p + t * bp_size_of_segment p, m * bp_size_of_segment p)" "0 < m" using assms(3) by (auto simp: whole_def prod_eq_iff)
  have "{s ..< s + n} \<inter> {t ..< t + m} = {}" using assms(4) unfolding u v units_whole[OF assms(1)] .
  then have "max s t \<notin> {s ..< s + n} \<inter> {t ..< t + m}" by simp
  then have "s + n \<le> t \<or> t + m \<le> s" using u(2) v(2) by (auto simp: max_def split: if_splits)
  then have "(s + n) * bp_size_of_segment p \<le> t * bp_size_of_segment p \<or> (t + m) * bp_size_of_segment p \<le> s * bp_size_of_segment p" using mult_le_mono1 by blast
  then show ?thesis unfolding u v separate_def by (auto simp: add_mult_distrib)
qed

lemma place_found:
  assumes "pool_ok p"
  shows "\<exists>r. find_place p n = Some r \<and> (\<forall>s. r = Some s \<longrightarrow> unat n + s < bp_MAPPINGS p \<and> (\<forall>k < unat n. \<not> bp_bitset p (k + s)))"
proof -
  have M: "bp_MAPPINGS p \<le> NVML_MAPPINGS" "0 < bp_MAPPINGS p" "bp_offset p \<le> bp_MAPPINGS p" using assms by (auto simp: pool_ok_def pool_dim_def)
  have "unat n < 2 ^ 32" using unsigned_less[of n, where ?'a = nat] by simp
  then have "unat n + bp_offset p < 2 ^ 64" using M unfolding NVML_MAPPINGS_def by simp
  then have m: "(unat n + bp_offset p) mod 2 ^ 64 = unat n + bp_offset p" by simp
  from scan_run[OF M(1), of "bp_bitset p" n 0] obtain r where
    r: "scan (bp_bitset p) n (bp_MAPPINGS p) 0 = Some r" "\<forall>s. r = Some s \<longrightarrow> unat n + s < bp_MAPPINGS p \<and> (\<forall>k < unat n. \<not> bp_bitset p (k + s))" by blast
  show ?thesis
  proof (cases "unat n + bp_offset p < bp_MAPPINGS p")
    case True
    then have l: "bp_offset p + unat n \<le> NVML_MAPPINGS" using M by simp
    from free_run_none(1)[OF l, of "bp_bitset p"] obtain q where q: "free_run (bp_bitset p) (bp_offset p) (unat n) 0 = Some q" by blast
    show ?thesis using True q r m M free_run_none(2)[OF l, of "bp_bitset p"] unfolding find_place_def by (cases q) simp_all
  next
    case False
    then show ?thesis using r m M unfolding find_place_def by simp
  qed
qed

text \<open>An allocation returns the null pointer, or the units from \<open>s\<close> on, all of which were free.\<close>

definition same_dims :: "big_pool \<Rightarrow> big_pool \<Rightarrow> bool" where
  "same_dims p p' \<longleftrightarrow> bp_address p' = bp_address p \<and> bp_size_of_segment p' = bp_size_of_segment p \<and> bp_MAPPINGS p' = bp_MAPPINGS p \<and> bp_length p' = bp_length p \<and> bp_init p' = bp_init p"

lemma same_dimsD:
  assumes "same_dims p p'"
  shows "units_of p' = units_of p" "whole p' = whole p" "device p' = device p"
  using assms unfolding same_dims_def by (auto simp: units_of_def whole_def device_def fun_eq_iff)

definition same_device :: "big_pool \<Rightarrow> big_pool \<Rightarrow> bool" where
  "same_device p p' \<longleftrightarrow> pool_ok p' \<and> same_dims p p'"

lemma taken_add:
  assumes "taken p live" "0 < bp_size_of_segment p" "same_dims p p'" "bp_bitset p' = (\<lambda>k. bp_bitset p k \<or> s \<le> k \<and> k < s + n)"
    "\<forall>k < n. \<not> bp_bitset p (k + s)" "0 < n" "s + n \<le> bp_MAPPINGS p" "s + n \<le> NVML_MAPPINGS"
  shows "taken p' ((bp_address p + s * bp_size_of_segment p, n * bp_size_of_segment p) # live)"
proof -
  note S = same_dimsD[OF assms(3)]
  let ?u = "(bp_address p + s * bp_size_of_segment p, n * bp_size_of_segment p)"
  have u: "units_of p ?u = {s ..< s + n}" by (rule units_whole[OF assms(2)])
  have w: "whole p ?u" using assms(6-8) unfolding whole_def by (intro exI[of _ s] exI[of _ n]) simp
  have f: "\<not> bp_bitset p k" if "k \<in> {s ..< s + n}" for k
  proof -
    have "k - s < n" "k - s + s = k" using that by auto
    then show ?thesis using assms(5) by metis
  qed
  have L: "{k. bp_bitset p k} = (\<Union>u \<in> set live. units_of p u)" using assms(1) by (simp add: taken_def)
  have "units_of p ?u \<inter> units_of p v = {}" if "v \<in> set live" for v using f L that unfolding u by blast
  moreover have "{k. bp_bitset p' k} = {s ..< s + n} \<union> (\<Union>u \<in> set live. units_of p u)" unfolding assms(4) L[symmetric] by auto
  ultimately show ?thesis using assms(1) S u w by (simp add: taken_def)
qed

lemma taken_remove:
  assumes "taken p live" "i < length live" "same_dims p p'" "bp_bitset p' = (\<lambda>k. bp_bitset p k \<and> k \<notin> units_of p (live ! i))"
  shows "taken p' (take i live @ drop (Suc i) live)"
proof -
  let ?u = "live ! i" let ?l = "take i live @ drop (Suc i) live"
  have l: "live = take i live @ ?u # drop (Suc i) live" using assms(2) by (simp add: id_take_nth_drop)
  have d: "sorted_wrt (\<lambda>u v. units_of p u \<inter> units_of p v = {}) (take i live @ ?u # drop (Suc i) live)" using assms(1) l by (simp add: taken_def)
  have "\<forall>v \<in> set ?l. units_of p v \<inter> units_of p ?u = {}" using d by (auto simp: sorted_wrt_append)
  moreover have "{k. bp_bitset p k} = units_of p ?u \<union> (\<Union>v \<in> set ?l. units_of p v)"
    using assms(1) l unfolding taken_def by (metis (no_types, lifting) UN_insert Un_insert_right list.simps(15) set_append)
  ultimately have "{k. bp_bitset p' k} = (\<Union>v \<in> set ?l. units_of p v)" unfolding assms(4) by auto
  moreover have "\<forall>v \<in> set ?l. whole p v" using assms(1) by (auto simp: taken_def dest: in_set_takeD in_set_dropD)
  moreover have "sorted_wrt (\<lambda>u v. units_of p u \<inter> units_of p v = {}) ?l" using d by (simp add: sorted_wrt_append)
  ultimately show ?thesis using same_dimsD[OF assms(3)] unfolding taken_def by metis
qed

lemma start_over_same: "pool_ok p \<Longrightarrow> same_device p (start_over p) \<and> bp_bitset (start_over p) = bp_bitset p"
  by (simp add: start_over_def same_device_def same_dims_def pool_ok_def pool_dim_def)

lemma reserve_run:
  assumes "pool_ok p" "n + s < bp_MAPPINGS p"
  shows "\<exists>p'. reserve n s p = Some (bp_address p + s * bp_size_of_segment p, p') \<and> same_device p p' \<and> bp_bitset p' = (\<lambda>k. bp_bitset p k \<or> s \<le> k \<and> k < s + n)"
proof -
  have P: "0 < bp_size_of_segment p" "bp_MAPPINGS p \<le> NVML_MAPPINGS" "bp_address p + bp_length p < 2 ^ 64"
    "bp_MAPPINGS p * bp_size_of_segment p \<le> bp_length p" using assms(1) by (auto simp: pool_ok_def pool_dim_def)
  have "s * bp_size_of_segment p \<le> bp_MAPPINGS p * bp_size_of_segment p" using assms(2) by (intro mult_le_mono1) simp
  then have "bp_address p + s * bp_size_of_segment p < 2 ^ 64" using P(3,4) by linarith
  then have a: "(bp_address p + s * bp_size_of_segment p) mod 2 ^ 64 = bp_address p + s * bp_size_of_segment p" by simp
  have i: "(i + s) mod 2 ^ 64 = i + s" "i + s < NVML_MAPPINGS" if "i < n" for i using that assms(2) P(2) by (auto simp: NVML_MAPPINGS_def)
  have o': "(n + s + 1) mod 2 ^ 64 = n + s + 1" using assms(2) P(2) by (simp add: NVML_MAPPINGS_def)
  have "(\<exists>i < n. k = (i + s) mod 2 ^ 64) = (s \<le> k \<and> k < s + n)" for k
  proof
    assume "s \<le> k \<and> k < s + n"
    then have "k - s < n \<and> k = (k - s + s) mod 2 ^ 64" using i(1)[of "k - s"] by auto
    then show "\<exists>i < n. k = (i + s) mod 2 ^ 64" by blast
  qed (use i(1) in auto)
  moreover have "\<not> (\<exists>i < n. (i + s) mod 2 ^ 64 \<ge> NVML_MAPPINGS)" using i by (auto simp: not_le)
  ultimately show ?thesis using assms P o' unfolding reserve_def a by (simp add: same_device_def same_dims_def pool_ok_def pool_dim_def)
qed

lemma allocate_run:
  assumes "pool_ok p" "n = sz div bp_size_of_segment p mod 2 ^ 32"
  shows "\<exists>x p'. bp_allocate sz p = Some (x, p') \<and> same_device p p' \<and>
    (if x = 0 then bp_bitset p' = bp_bitset p
     else \<exists>s. x = bp_address p + s * bp_size_of_segment p \<and> n + s < bp_MAPPINGS p \<and> (\<forall>k < n. \<not> bp_bitset p (k + s)) \<and>
       bp_bitset p' = (\<lambda>k. bp_bitset p k \<or> s \<le> k \<and> k < s + n))"
proof -
  let ?n = "word_of_nat (sz div bp_size_of_segment p) :: 32 word"
  have n: "unat ?n = n" unfolding assms(2) by (simp add: unat_of_nat take_bit_nat_def)
  have P: "0 < bp_size_of_segment p" "0 < bp_address p" using assms(1) by (auto simp: pool_ok_def pool_dim_def)
  from place_found[OF assms(1), of ?n] obtain r where r: "find_place p ?n = Some r"
    and f: "\<forall>s. r = Some s \<longrightarrow> n + s < bp_MAPPINGS p \<and> (\<forall>k < n. \<not> bp_bitset p (k + s))" unfolding n by blast
  show ?thesis
  proof (cases r)
    case None
    then show ?thesis using r P start_over_same[OF assms(1)] by (simp add: bp_allocate_def)
  next
    case (Some s)
    from reserve_run[OF assms(1), of n s] f Some obtain p' where
      p': "reserve n s p = Some (bp_address p + s * bp_size_of_segment p, p')" "same_device p p'" "bp_bitset p' = (\<lambda>k. bp_bitset p k \<or> s \<le> k \<and> k < s + n)" by blast
    have "same_device p (start_over p') \<and> bp_bitset (start_over p') = bp_bitset p'" using start_over_same[of p'] p'(2) by (auto simp: same_device_def same_dims_def)
    moreover have "bp_allocate sz p = Some (bp_address p + s * bp_size_of_segment p, start_over p')" using r Some p'(1) P n by (simp add: bp_allocate_def)
    ultimately show ?thesis using f Some P p'(3) by simp
  qed
qed

lemma unit_of_whole:
  assumes "pool_dim p" "s + i < bp_MAPPINGS p"
  shows "unit_of p (bp_address p + s * bp_size_of_segment p) i = s + i"
proof -
  have P: "0 < bp_size_of_segment p" "bp_address p + bp_length p < 2 ^ 64" "bp_MAPPINGS p * bp_size_of_segment p \<le> bp_length p" using assms(1) by (auto simp: pool_dim_def)
  have "(s + i) * bp_size_of_segment p \<le> bp_MAPPINGS p * bp_size_of_segment p" using assms(2) by (intro mult_le_mono1) simp
  then have l: "s * bp_size_of_segment p + i * bp_size_of_segment p < 2 ^ 64" "bp_address p < 2 ^ 64" using P by (simp_all add: add_mult_distrib)
  then have "bp_address p + s * bp_size_of_segment p + (2 ^ 64 - bp_address p mod 2 ^ 64) = s * bp_size_of_segment p + 2 ^ 64" by simp
  then have "(bp_address p + s * bp_size_of_segment p + (2 ^ 64 - bp_address p mod 2 ^ 64)) mod 2 ^ 64 = s * bp_size_of_segment p" using l(1) by simp
  then have "unit_of p (bp_address p + s * bp_size_of_segment p) i = (s * bp_size_of_segment p + i * bp_size_of_segment p) mod 2 ^ 64 div bp_size_of_segment p" unfolding unit_of_def by presburger
  also have "\<dots> = (s + i) * bp_size_of_segment p div bp_size_of_segment p" using l(1) by (simp add: add_mult_distrib)
  finally show ?thesis using P(1) by simp
qed

lemma deallocate_run:
  assumes "pool_dim p" "whole p u"
  shows "bp_deallocate (fst u) (snd u) p = Some (p\<lparr>bp_bitset := (\<lambda>k. bp_bitset p k \<and> k \<notin> units_of p u)\<rparr>)"
proof -
  obtain s n where u: "u = (bp_address p + s * bp_size_of_segment p, n * bp_size_of_segment p)" "0 < n" "s + n \<le> bp_MAPPINGS p" "s + n \<le> NVML_MAPPINGS"
    using assms(2) by (auto simp: whole_def prod_eq_iff)
  have P: "0 < bp_size_of_segment p" using assms(1) by (auto simp: pool_dim_def)
  have U: "unit_of p (fst u) i = s + i" if "i < n" for i using unit_of_whole[OF assms(1), of s i] that u by simp
  have e: "(\<exists>i < n. k = unit_of p (fst u) i) = (k \<in> units_of p u)" for k
  proof -
    have "(\<exists>i < n. k = unit_of p (fst u) i) = (\<exists>i < n. k = s + i)" using U by auto
    also have "\<dots> = (k \<in> {s ..< s + n})" by (auto intro!: exI[of _ "k - s"])
    finally show ?thesis unfolding u(1) units_whole[OF P] .
  qed
  have b: "\<not> (\<exists>i < n. unit_of p (fst u) i \<ge> NVML_MAPPINGS)" "\<not> n \<ge> 2 ^ 32" using U u by (auto simp: NVML_MAPPINGS_def)
  have "snd u div bp_size_of_segment p = n" using u(1) P by simp
  then show ?thesis using P b by (simp only: bp_deallocate_def Let_def e) simp
qed

lemma live_allocate:
  assumes "live_ok p live" "whole_size (device p) sz"
  shows "\<exists>x p'. bp_allocate sz p = Some (x, p') \<and> live_ok p' (if x = 0 then live else (x, sz) # live) \<and> device p' = device p"
proof -
  let ?n = "sz div bp_size_of_segment p"
  have P: "pool_ok p" "0 < bp_size_of_segment p" "bp_MAPPINGS p \<le> NVML_MAPPINGS" "taken p live" using assms(1) by (auto simp: live_ok_def pool_ok_def pool_dim_def)
  have n: "?n mod 2 ^ 32 = ?n" "sz = ?n * bp_size_of_segment p" "0 < ?n" using assms(2) P(2) by (auto simp: whole_size_def device_def dvd_def)
  from allocate_run[OF P(1) refl, of sz] obtain x p' where a: "bp_allocate sz p = Some (x, p')" "same_device p p'"
    "if x = 0 then bp_bitset p' = bp_bitset p
     else \<exists>s. x = bp_address p + s * bp_size_of_segment p \<and> ?n + s < bp_MAPPINGS p \<and> (\<forall>k < ?n. \<not> bp_bitset p (k + s)) \<and>
       bp_bitset p' = (\<lambda>k. bp_bitset p k \<or> s \<le> k \<and> k < s + ?n)" unfolding n(1) by blast
  have S: "pool_ok p'" "same_dims p p'" using a(2) by (auto simp: same_device_def)
  have "taken p' (if x = 0 then live else (x, sz) # live)"
  proof (cases "x = 0")
    case True
    then show ?thesis using a(3) P(4) same_dimsD[OF S(2)] by (simp add: taken_def)
  next
    case False
    with a(3) obtain s where s: "x = bp_address p + s * bp_size_of_segment p" "?n + s < bp_MAPPINGS p" "\<forall>k < ?n. \<not> bp_bitset p (k + s)"
      "bp_bitset p' = (\<lambda>k. bp_bitset p k \<or> s \<le> k \<and> k < s + ?n)" by auto
    have "s + ?n \<le> bp_MAPPINGS p" "s + ?n \<le> NVML_MAPPINGS" using s(2) P(3) by simp_all
    from taken_add[OF P(4,2) S(2) s(4,3) n(3) this] have "taken p' ((x, sz) # live)" unfolding s(1) using n(2) by simp
    then show ?thesis using False by simp
  qed
  then show ?thesis using a(1) S same_dimsD(3)[OF S(2)] by (auto simp: live_ok_def)
qed

text \<open>A device with more units than bits: an allocation that returns storage is as good.\<close>

lemma free_run_all:
  "free_run b start n i = Some None \<Longrightarrow> \<forall>k. i \<le> k \<and> k < n \<longrightarrow> (k + start) mod 2 ^ 64 < NVML_MAPPINGS \<and> \<not> b ((k + start) mod 2 ^ 64)"
proof (induction b start n i rule: free_run.induct)
  case (1 b start n i)
  show ?case
  proof (cases "i < n")
    case True
    from True 1(2) have h: "(i + start) mod 2 ^ 64 < NVML_MAPPINGS" "\<not> b ((i + start) mod 2 ^ 64)" "free_run b start n (i + 1) = Some None"
      by (subst (asm) free_run.simps, auto simp: Let_def split: if_splits)+
    from 1(1)[OF True refl _ _ h(3)] h(1,2) show ?thesis by (metis Suc_eq_plus1 le_neq_implies_less not_le less_eq_Suc_le)
  qed auto
qed

lemma scan_some: "scan b n mappings j = Some (Some s) \<Longrightarrow> \<exists>j :: 32 word. s = unat j \<and> (unat n + s) mod 2 ^ 64 < mappings \<and> free_run b s (unat n) 0 = Some None"
proof (induction b n mappings j rule: scan.induct)
  case (1 b n mappings j)
  from 1(2) have j: "unat j < mappings" "(unat n + unat j) mod 2 ^ 64 < mappings" by (subst (asm) scan.simps, simp split: if_splits)+
  with 1(2) obtain r where r: "free_run b (unat j) (unat n) 0 = Some r" by (subst (asm) scan.simps) (auto split: option.splits)
  show ?case
  proof (cases r)
    case None
    then have "s = unat j" using 1(2) j r by (subst (asm) scan.simps) simp
    then show ?thesis using j r None by blast
  next
    case (Some i)
    then have "scan b n mappings (word_of_nat (unat j + i + 1) + 1) = Some (Some s)" using 1(2) j r by (subst (asm) scan.simps) simp
    with 1(1)[OF j] r Some show ?thesis by blast
  qed
qed

lemma place_cases:
  assumes "find_place p n = Some (Some s)" "0 < bp_MAPPINGS p"
  shows "s = bp_offset p \<and> (unat n + bp_offset p) mod 2 ^ 64 < bp_MAPPINGS p \<and> free_run (bp_bitset p) (bp_offset p) (unat n) 0 = Some None \<or>
    scan (bp_bitset p) n (bp_MAPPINGS p) 0 = Some (Some s)"
proof (cases "(unat n + bp_offset p) mod 2 ^ 64 < bp_MAPPINGS p")
  case True
  with assms obtain r where r: "free_run (bp_bitset p) (bp_offset p) (unat n) 0 = Some r" unfolding find_place_def by (cases "free_run (bp_bitset p) (bp_offset p) (unat n) 0") auto
  then show ?thesis using True assms unfolding find_place_def by (cases r) auto
qed (use assms in \<open>simp add: find_place_def\<close>)

lemma granted:
  assumes "pool_dim p" "bp_allocate sz p = Some (x, p')" "x \<noteq> 0" "whole_size (device p) sz"
  shows "same_dims p p' \<and> pool_dim p' \<and> (taken p live \<longrightarrow> taken p' ((x, sz) # live)) \<and> whole p (x, sz)"
proof -
  let ?w = "word_of_nat (sz div bp_size_of_segment p) :: 32 word" let ?n = "sz div bp_size_of_segment p"
  have P: "0 < bp_size_of_segment p" "0 < bp_MAPPINGS p" "bp_address p + bp_length p < 2 ^ 64" "bp_offset p < 2 ^ 64" "bp_MAPPINGS p * bp_size_of_segment p \<le> bp_length p"
    using assms(1) by (auto simp: pool_dim_def)
  have n: "?n < 2 ^ 32" "sz = ?n * bp_size_of_segment p" "0 < ?n" using assms(4) P(1) by (auto simp: whole_size_def device_def dvd_def)
  have u: "unat ?w = ?n" using n(1) by (simp add: unat_of_nat take_bit_nat_eq_self)
  from assms(2,3) obtain s p1 where f: "find_place p ?w = Some (Some s)" "reserve ?n s p = Some (x, p1)" "p' = start_over p1"
    unfolding bp_allocate_def by (auto split: option.splits if_splits simp: Let_def u elim!: bind_eq_SomeE)
  have "s < 2 ^ 64 \<and> (?n + s) mod 2 ^ 64 < bp_MAPPINGS p \<and> free_run (bp_bitset p) s ?n 0 = Some None"
  proof -
    from f(1) consider "s = bp_offset p" "(?n + bp_offset p) mod 2 ^ 64 < bp_MAPPINGS p" "free_run (bp_bitset p) (bp_offset p) ?n 0 = Some None"
      | "scan (bp_bitset p) ?w (bp_MAPPINGS p) 0 = Some (Some s)"
      using P(2) place_cases[of p ?w s] unfolding u by blast
    then show ?thesis
    proof cases
      case 2
      from scan_some[OF this] obtain j :: "32 word" where "s = unat j" "(?n + s) mod 2 ^ 64 < bp_MAPPINGS p" "free_run (bp_bitset p) s ?n 0 = Some None" unfolding u by blast
      moreover have "unat j < 2 ^ 32" using unsigned_less[of j, where ?'a = nat] by simp
      ultimately show ?thesis by simp
    qed (use P(4) in auto)
  qed
  then have r: "s < 2 ^ 64" "(?n + s) mod 2 ^ 64 < bp_MAPPINGS p" "\<And>k. k < ?n \<Longrightarrow> (k + s) mod 2 ^ 64 < NVML_MAPPINGS \<and> \<not> bp_bitset p ((k + s) mod 2 ^ 64)"
    using free_run_all[of "bp_bitset p" s ?n 0] by auto
  have "s < NVML_MAPPINGS" using r(3)[of 0] n(3) r(1) by simp
  then have l: "k + s < 2 ^ 64" if "k \<le> ?n" for k using that n(1) by (simp add: NVML_MAPPINGS_def)
  have m: "(k + s) mod 2 ^ 64 = k + s" if "k \<le> ?n" for k using l[OF that] by simp
  have fr: "\<forall>k < ?n. \<not> bp_bitset p (k + s)" using r(3) m by (metis less_imp_le)
  have b: "s + ?n \<le> bp_MAPPINGS p" "s + ?n \<le> NVML_MAPPINGS" using r(2) m[of ?n] r(3)[of "?n - 1"] m[of "?n - 1"] n(3) by auto
  have "s * bp_size_of_segment p \<le> bp_MAPPINGS p * bp_size_of_segment p" using b(1) by (intro mult_le_mono1) simp
  then have "bp_address p + s * bp_size_of_segment p < 2 ^ 64" using P(3,5) by linarith
  then have a: "(bp_address p + s * bp_size_of_segment p) mod 2 ^ 64 = bp_address p + s * bp_size_of_segment p" by simp
  have e: "(\<exists>i < ?n. k = (i + s) mod 2 ^ 64) = (s \<le> k \<and> k < s + ?n)" for k
  proof -
    have "(\<exists>i < ?n. k = (i + s) mod 2 ^ 64) = (\<exists>i < ?n. k = i + s)" using m by (metis less_imp_le)
    also have "\<dots> = (s \<le> k \<and> k < s + ?n)" by (auto intro!: exI[of _ "k - s"])
    finally show ?thesis .
  qed
  from f(2) have x: "x = bp_address p + s * bp_size_of_segment p" "p1 = p\<lparr>bp_bitset := (\<lambda>k. bp_bitset p k \<or> s \<le> k \<and> k < s + ?n), bp_offset := (?n + s + 1) mod 2 ^ 64\<rparr>"
    unfolding reserve_def e a by (auto split: if_splits)
  have S: "same_dims p p'" "pool_dim p'" "bp_bitset p' = (\<lambda>k. bp_bitset p k \<or> s \<le> k \<and> k < s + ?n)"
    using assms(1) unfolding f(3) x(2) by (simp_all add: start_over_def same_dims_def pool_dim_def)
  have "taken p' ((x, sz) # live)" if "taken p live" using taken_add[OF that P(1) S(1,3) fr n(3) b] n(2) x(1) by simp
  moreover have "whole p (x, sz)" using x(1) n b unfolding whole_def by (intro exI[of _ s] exI[of _ ?n]) simp
  ultimately show ?thesis using S by blast
qed

lemma live_deallocate:
  assumes "live_ok p live" "i < length live"
  shows "\<exists>p'. bp_deallocate (fst (live ! i)) (snd (live ! i)) p = Some p' \<and> live_ok p' (take i live @ drop (Suc i) live) \<and> device p' = device p"
proof -
  let ?u = "live ! i"
  let ?p = "p\<lparr>bp_bitset := (\<lambda>k. bp_bitset p k \<and> k \<notin> units_of p ?u)\<rparr>"
  have P: "pool_ok p" "pool_dim p" "taken p live" "whole p ?u" using assms by (auto simp: live_ok_def pool_ok_def taken_def)
  have S: "same_dims p ?p" "pool_ok ?p" using P(1) by (simp_all add: same_dims_def pool_ok_def pool_dim_def)
  have "taken ?p (take i live @ drop (Suc i) live)" by (rule taken_remove[OF P(3) assms(2) S(1)]) simp
  then show ?thesis using deallocate_run[OF P(2,4)] S same_dimsD(3)[OF S(1)] by (auto simp: live_ok_def)
qed

lemma taken_apart:
  assumes "taken p live" "0 < bp_size_of_segment p"
  shows "sorted_wrt separate live"
proof (rule sorted_wrt_mono_rel)
  show "sorted_wrt (\<lambda>u v. units_of p u \<inter> units_of p v = {}) live" using assms by (simp add: taken_def)
qed (use assms units_apart in \<open>auto simp: taken_def\<close>)

lemma live_apart:
  assumes "live_ok p live"
  shows "sorted_wrt separate live"
  using assms by (intro taken_apart[of p]) (auto simp: live_ok_def pool_ok_def pool_dim_def)

lemma whole_inside:
  assumes "pool_dim p" "whole p u"
  shows "bp_address p \<le> fst u" "fst u + snd u \<le> bp_address p + bp_length p"
proof -
  obtain s n where u: "u = (bp_address p + s * bp_size_of_segment p, n * bp_size_of_segment p)" "s + n \<le> bp_MAPPINGS p"
    using assms(2) by (auto simp: whole_def prod_eq_iff)
  have "(s + n) * bp_size_of_segment p \<le> bp_MAPPINGS p * bp_size_of_segment p" using u(2) by (rule mult_le_mono1)
  also have "\<dots> \<le> bp_length p" using assms(1) by (simp add: pool_dim_def)
  finally show "bp_address p \<le> fst u" "fst u + snd u \<le> bp_address p + bp_length p" using u(1) by (simp_all add: add_mult_distrib)
qed

interpretation bits: allocator bp_allocate bp_deallocate live_ok device whole_size
  by unfold_locales (rule live_allocate live_deallocate live_apart; assumption)+

lemma init_live_ok:
  assumes "init_pool seg a len new_big_pool = Some p" "0 < seg" "seg \<le> len" "len div seg \<le> NVML_MAPPINGS" "0 < a" "a + len < 2 ^ 64"
  shows "live_ok p []" "bp_size_of_segment p = seg" "bp_address p = a" "bp_length p = len" "bp_MAPPINGS p = len div seg" "0 < len div seg" "bp_bitset p = (\<lambda>_. False)"
proof -
  show "0 < len div seg" using assms(2,3) by (simp add: div_greater_zero_iff)
  then show "live_ok p []" using assms by (auto simp: init_pool_def new_big_pool_def live_ok_def pool_ok_def pool_dim_def taken_def)
qed (use assms in \<open>auto simp: init_pool_def new_big_pool_def\<close>)

section \<open>Small requests\<close>

lemma small_allocate:
  assumes "live_ok p []" "sz < bp_size_of_segment p" "k \<le> bp_MAPPINGS p"
  shows "bp_allocate sz (p\<lparr>bp_offset := k\<rparr>) =
    Some (if k < bp_MAPPINGS p then (bp_address p + k * bp_size_of_segment p, p\<lparr>bp_offset := k + 1\<rparr>) else (bp_address p, p\<lparr>bp_offset := 1\<rparr>))"
proof -
  have P: "0 < bp_size_of_segment p" "bp_MAPPINGS p \<le> NVML_MAPPINGS" "bp_address p + bp_length p < 2 ^ 64" "bp_MAPPINGS p * bp_size_of_segment p \<le> bp_length p"
    "0 < bp_MAPPINGS p" using assms(1) by (auto simp: live_ok_def pool_ok_def pool_dim_def)
  have M: "k < 2 ^ 64" "k + 1 < 2 ^ 64" using assms(3) P(2) by (auto simp: NVML_MAPPINGS_def)
  have z: "sz div bp_size_of_segment p = 0" using assms(2) by simp
  have fr: "free_run b s 0 0 = Some None" for b s by (simp add: free_run.simps)
  have sc: "scan b 0 (bp_MAPPINGS p) 0 = Some (Some 0)" for b using P(5) fr by (subst scan.simps) simp
  let ?s = "if k < bp_MAPPINGS p then k else 0"
  have f: "find_place (p\<lparr>bp_offset := k\<rparr>) 0 = Some (Some ?s)" using M P(5) fr sc by (simp add: find_place_def)
  have k: "?s < bp_MAPPINGS p" "?s + 1 < 2 ^ 64" using P(2,5) by (auto simp: NVML_MAPPINGS_def)
  have "?s * bp_size_of_segment p < bp_MAPPINGS p * bp_size_of_segment p" using k(1) P(1) by simp
  then have l: "?s * bp_size_of_segment p < bp_length p" "bp_address p + ?s * bp_size_of_segment p < 2 ^ 64" using P(3,4) by linarith+
  have r: "reserve 0 ?s (p\<lparr>bp_offset := k\<rparr>) = Some (bp_address p + ?s * bp_size_of_segment p, p\<lparr>bp_offset := ?s + 1\<rparr>)"
    using l(2) k(2) by (simp add: reserve_def)
  have "(?s + 1 + (2 ^ 64 - 1)) mod 2 ^ 64 = ?s" using k(2) by simp
  then have "start_over (p\<lparr>bp_offset := ?s + 1\<rparr>) = p\<lparr>bp_offset := ?s + 1\<rparr>" using l P(3) by (simp add: start_over_def)
  then show ?thesis using f r z P(1) by (simp add: bp_allocate_def split: if_splits)
qed

lemma small_runs:
  assumes "live_ok p []" "sz < bp_size_of_segment p"
  shows "k + d \<le> bp_MAPPINGS p \<Longrightarrow> run_pool bp_allocate bp_deallocate (replicate d (Alloc sz)) (p\<lparr>bp_offset := k\<rparr>) live =
    Some (p\<lparr>bp_offset := k + d\<rparr>, rev (map (\<lambda>i. (bp_address p + i * bp_size_of_segment p, sz)) [k..<k + d]) @ live)"
proof (induction d arbitrary: k live)
  case (Suc d)
  have "0 < bp_address p" using assms(1) by (simp add: live_ok_def pool_ok_def pool_dim_def)
  moreover have "[k..<k + Suc d] = k # [Suc k..<Suc k + d]" by (simp add: upt_rec)
  ultimately show ?case using small_allocate[OF assms, of k] Suc(1)[of "k + 1"] Suc(2) by simp
qed simp

section \<open>Properties\<close>

text \<open>
  C16: On a freshly mapped device whose units all have a bit, any sequence of requests for whole
  segments and of releases runs to its end without an exception; every storage that is given
  out lies inside the device, and no two that are in use overlap.
\<close>

theorem pool_exclusive:
  assumes "init_pool seg a len new_big_pool = Some p" "0 < seg" "seg \<le> len" "len div seg \<le> NVML_MAPPINGS" "0 < a" "a + len < 2 ^ 64"
    "\<forall>sz. Alloc sz \<in> set ops \<longrightarrow> 0 < sz \<and> seg dvd sz \<and> sz div seg < 2 ^ 32"
  shows "\<exists>p' live. run_pool bp_allocate bp_deallocate ops p [] = Some (p', live) \<and> sorted_wrt separate live \<and>
    (\<forall>u \<in> set live. a \<le> fst u \<and> fst u + snd u \<le> a + len)"
proof -
  note i = init_live_ok[OF assms(1-6)]
  have "whole_size (device p) sz" if "Alloc sz \<in> set ops" for sz using that assms(7) i(2) by (simp add: whole_size_def device_def)
  from bits.runs[OF i(1) this] obtain p' live where r: "run_pool bp_allocate bp_deallocate ops p [] = Some (p', live)" "live_ok p' live" "device p' = device p" by blast
  have d: "bp_address p' = a" "bp_length p' = len" using r(3) i(3,4) by (simp_all add: device_def)
  have "a \<le> fst u \<and> fst u + snd u \<le> a + len" if "u \<in> set live" for u using whole_inside[of p' u] r(2) that d by (auto simp: live_ok_def pool_ok_def taken_def)
  then show ?thesis using r(1) bits.exclusive[OF r(2)] by blast
qed

theorem pool_exclusive_witness:
  "\<exists>p' live. run_pool bp_allocate bp_deallocate [Alloc 4096, Alloc 8192, Free 1, Alloc 8192]
      \<lparr>bp_bitset = (\<lambda>_. False), bp_offset = 0, bp_address = 1048576, bp_init = True, bp_length = 65536, bp_size_of_segment = 4096, bp_MAPPINGS = 16\<rparr> [] = Some (p', live) \<and>
    sorted_wrt separate live \<and> (\<forall>u \<in> set live. 1048576 \<le> fst u \<and> fst u + snd u \<le> 1048576 + 65536)"
  by (rule pool_exclusive[of 4096]) (auto simp: init_pool_def new_big_pool_def NVML_MAPPINGS_def)

text \<open>
  C39: Requests smaller than a segment reserve nothing: after as many of them as the device has
  units, the next one returns the start of the device again, although the first request still
  uses it.  The first segment of a new file is such a request.
\<close>

theorem small_allocations_overlap:
  assumes "init_pool seg a len new_big_pool = Some p" "0 < seg" "seg \<le> len" "len div seg \<le> NVML_MAPPINGS" "0 < a" "a + len < 2 ^ 64" "sz < seg"
  shows "\<exists>p' live p''. run_pool bp_allocate bp_deallocate (replicate (len div seg) (Alloc sz)) p [] = Some (p', live) \<and>
    (a, sz) \<in> set live \<and> bp_allocate sz p' = Some (a, p'')"
proof -
  note i = init_live_ok[OF assms(1-6)]
  have z: "p\<lparr>bp_offset := 0\<rparr> = p" using assms(1) by (auto simp: init_pool_def split: if_splits)
  have s: "sz < bp_size_of_segment p" using assms(7) i(2) by simp
  have "(a, sz) = (\<lambda>i. (bp_address p + i * bp_size_of_segment p, sz)) 0" using i(3) by simp
  then have m: "(a, sz) \<in> set (rev (map (\<lambda>i. (bp_address p + i * bp_size_of_segment p, sz)) [0..<0 + bp_MAPPINGS p]))"
    using i(5,6) by (metis (no_types, lifting) add_0 atLeastLessThan_iff image_eqI le0 set_map set_rev set_upt)
  have "\<exists>p''. bp_allocate sz (p\<lparr>bp_offset := bp_MAPPINGS p\<rparr>) = Some (a, p'')" using small_allocate[OF i(1) s, of "bp_MAPPINGS p"] i(3) by simp
  then show ?thesis using small_runs[OF i(1) s, of 0 "bp_MAPPINGS p" "[]"] m z i(5) by simp
qed

theorem small_allocations_overlap_witness:
  "\<exists>p' live p''. run_pool bp_allocate bp_deallocate (replicate (65536 div 4096) (Alloc 100))
      \<lparr>bp_bitset = (\<lambda>_. False), bp_offset = 0, bp_address = 1048576, bp_init = True, bp_length = 65536, bp_size_of_segment = 4096, bp_MAPPINGS = 16\<rparr> [] = Some (p', live) \<and>
    (1048576, 100) \<in> set live \<and> bp_allocate 100 p' = Some (1048576, p'')"
  by (rule small_allocations_overlap) (auto simp: init_pool_def new_big_pool_def NVML_MAPPINGS_def)

end
