(* ===== verification/Devdax_Layout.thy ===== *)
theory Devdax_Layout
  imports Devdax_File Devdax_Props Nvml_Write
begin

text \<open>
  Files of the device as files of the NVML back end.  A file of the device is an NVML file whose
  pools are the regions of the device that its segments use: the address of a region is the
  name of its pool.  The loops of both back ends then do the same.
\<close>

section \<open>The abstraction\<close>

definition abs_seg :: "dev_segment \<Rightarrow> segment" where
  "abs_seg seg = \<lparr>s_offset = ds_offset seg, s_size = ds_size seg, s_is_gap = ds_is_gap seg,
     s_pool = \<lparr>p_path = None, p_data = (if dev_data seg = 0 then None else Some (dev_data seg)), p_length = of_nat (dp_length (ds_pool seg)), p_is_pmem = dev_is_pmem seg\<rparr>,
     s_bytes = ds_bytes seg\<rparr>"

lemma abs_seg_simps [simp]:
  "s_offset (abs_seg seg) = ds_offset seg" "s_size (abs_seg seg) = ds_size seg" "s_is_gap (abs_seg seg) = ds_is_gap seg"
  "s_bytes (abs_seg seg) = ds_bytes seg" "is_pmem (abs_seg seg) = dev_is_pmem seg" "seg_data (abs_seg seg) = (if dev_data seg = 0 then None else Some (dev_data seg))"
  "segment_end (abs_seg seg) = dev_segment_end seg"
  by (simp_all add: abs_seg_def is_pmem_def seg_data_def segment_end_def dev_segment_end_def)

definition abs_heap :: "(addr \<rightharpoonup> dev_segment) \<Rightarrow> addr \<rightharpoonup> segment" where
  "abs_heap h = map_option abs_seg \<circ> h"

lemma abs_heap_app [simp]: "abs_heap h a = map_option abs_seg (h a)" "abs_heap (h(a \<mapsto> seg)) = (abs_heap h)(a \<mapsto> abs_seg seg)"
  by (auto simp: abs_heap_def)

definition abs_file :: "nat \<Rightarrow> dev_file \<Rightarrow> nvml_file" where
  "abs_file k f = \<lparr>f_type = df_type f, f_attributes = df_attributes f, f_alloc_offset = df_alloc_offset f, f_used_offset = df_used_offset f,
     f_segment_size = df_segment_size f, f_segments = df_segments f, f_initialized = df_initialized f, f_range_mutex = df_range_mutex f,
     f_seg = abs_heap (df_seg f), f_next = df_next f, f_pools = k\<rparr>"

lemma abs_file_simps [simp]:
  "f_type (abs_file k f) = df_type f" "f_attributes (abs_file k f) = df_attributes f" "f_alloc_offset (abs_file k f) = df_alloc_offset f"
  "f_used_offset (abs_file k f) = df_used_offset f" "f_segment_size (abs_file k f) = df_segment_size f" "f_segments (abs_file k f) = df_segments f"
  "f_initialized (abs_file k f) = df_initialized f" "f_range_mutex (abs_file k f) = df_range_mutex f" "f_seg (abs_file k f) = abs_heap (df_seg f)"
  "f_next (abs_file k f) = df_next f" "f_pools (abs_file k f) = k"
  by (simp_all add: abs_file_def)

definition abs_env :: "'w dev_env \<Rightarrow> 'w nvml_env" where
  "abs_env env = \<lparr>ne_calls = de_calls env, ne_have_splice = de_have_splice env, ne_tmp = de_tmp env, ne_copy = de_copy env, ne_pool_addr = (\<lambda>x. x),
     ne_exists = (\<lambda>_. False), ne_unlink = (\<lambda>_. True), ne_map_file = (\<lambda>_ _. None), ne_subdir_exists = False, ne_remove_all = True, ne_mkdir = True,
     ne_memalign = de_memalign env, ne_time = de_time env, ne_segment_size = de_segment_size env\<rparr>"

lemma abs_env_simps [simp]:
  "ne_pool_addr (abs_env env) = (\<lambda>x. x)" "ne_copy (abs_env env) = de_copy env" "ne_calls (abs_env env) = de_calls env"
  "ne_have_splice (abs_env env) = de_have_splice env" "ne_tmp (abs_env env) = de_tmp env"
  by (simp_all add: abs_env_def)

lemma abs_insert_all: "insert_all ins (abs_heap h) sl t = dev_insert_all ins h sl t"
  by (induction sl arbitrary: t) (auto simp: bind_map_option comp_def intro!: bind_option_cong)

lemma abs_append: "append_segments (abs_file k f) sl = map_option (abs_file k) (dev_append_segments f sl)"
  by (simp add: append_segments_def dev_append_segments_def abs_insert_all map_option_bind comp_def) (simp add: abs_file_def)

lemma abs_write_regions: "dev_write_regions env s n v rs = write_regions (abs_env env) s n v rs"
  by (induction rs arbitrary: s n v) auto

text \<open>The address of a region in the abstract file is a pool and a position in it.\<close>

definition conc :: "'w dev_env \<Rightarrow> big_pool \<Rightarrow> file_region \<Rightarrow> file_region" where
  "conc env p r = r\<lparr>r_address := (case r_address r of None \<Rightarrow> None | Some (x, d) \<Rightarrow>
     if (x + d) mod 2 ^ 64 = 0 then None else Some (dev_ptr env p ((x + d) mod 2 ^ 64)))\<rparr>"

lemma conc_simps [simp]: "r_size (conc env p r) = r_size r" "r_is_gap (conc env p r) = r_is_gap r" "r_is_pmem (conc env p r) = r_is_pmem r"
  by (simp_all add: conc_def)

lemma displaced_nat:
  assumes "0 \<le> delta"
  shows "displaced x delta = (x + nat delta) mod 2 ^ 64"
proof -
  have "int x + delta = int (x + nat delta)" using assms by simp
  then have "(int x + delta) mod 2 ^ 64 = int ((x + nat delta) mod 2 ^ 64)" by (simp only: zmod_int of_nat_power of_nat_numeral)
  then show ?thesis unfolding displaced_def by (simp only: nat_int)
qed

lemma conc_address:
  assumes "region_address (abs_seg seg) delta = Some a"
  shows "dev_region_address env p seg delta = r_address (conc env p \<lparr>r_address = a, r_size = n, r_is_gap = g, r_is_pmem = pm\<rparr>)"
proof (cases "ds_is_gap seg")
  case True
  then show ?thesis using assms by (simp add: region_address_def dev_region_address_def conc_def Let_def)
next
  case False
  then have d: "dev_data seg \<noteq> 0" "0 \<le> delta" "a = Some (dev_data seg, nat delta)" using assms by (auto simp: region_address_def split: if_splits)
  then show ?thesis using False displaced_nat[OF d(2), of "dev_data seg"] by (simp add: dev_region_address_def conc_def Let_def)
qed

lemma abs_lookup_loop:
  assumes "lookup_loop nenv nf s it start req end ag rs = Some y"
  shows "nf = abs_file k f \<Longrightarrow> (\<forall>a seg. ag \<and> df_seg f a = Some seg \<longrightarrow> \<not> ds_is_gap seg) \<Longrightarrow>
    \<exists>rs'. y = Inr (rs', nf, s) \<and> dev_lookup_loop env f p it start req end ag (map (conc env p) rs) = Some (map (conc env p) rs', f, p)"
  using assms
proof (induction rule: lookup_loop.raw_induct[rotated -1, consumes 1])
  case (1 loop nenv nf s it start req "end" ag rs y)
  show ?case
  proof (cases "snd (m_leaves (df_segments f) ! it)")
    case None
    then show ?thesis using 1(2,3) by (subst dev_lookup_loop.simps) auto
  next
    case (Some sid)
    note body = 1(2)[unfolded 1(3) abs_file_simps Some]
    then obtain seg where seg: "df_seg f sid = Some seg" by (auto elim!: bind_eq_SomeE)
    have ng: "\<not> (ag \<and> ds_is_gap seg)" using 1(4) seg by blast
    let ?d = "start - ds_offset seg" let ?n = "min (to_off req) (to_off (ds_size seg) - ?d)"
    from body seg ng have nd: "?d \<noteq> to_off (ds_size seg)" by (auto simp: Let_def)
    from body seg ng nd obtain a where a: "region_address (abs_seg seg) ?d = Some a" by (auto simp: Let_def elim!: bind_eq_SomeE)
    let ?r = "\<lparr>r_address = a, r_size = to_size ?n, r_is_gap = ds_is_gap seg, r_is_pmem = dev_is_pmem seg\<rparr>"
    have r: "\<lparr>r_address = dev_region_address env p seg ?d, r_size = to_size ?n, r_is_gap = ds_is_gap seg, r_is_pmem = dev_is_pmem seg\<rparr> = conc env p ?r"
      using conc_address[OF a, of env p "to_size ?n" "ds_is_gap seg" "dev_is_pmem seg"] by (simp add: conc_def)
    show ?thesis
    proof (cases "end \<le> dev_segment_end seg")
      case True
      then show ?thesis using body seg ng nd a r Some by (subst dev_lookup_loop.simps) (auto simp: Let_def 1(3))
    next
      case False
      then have "loop nenv nf s (if it + 1 < length (m_leaves (df_segments f)) then it + 1 else it) (dev_segment_end seg) (req - to_size ?n) end ag (rs @ [?r]) = Some y"
        using body seg ng nd a by (auto simp: Let_def 1(3))
      from 1(1)[OF this 1(3,4)] show ?thesis using False seg ng nd r Some by (subst dev_lookup_loop.simps) (auto simp: Let_def)
    qed
  qed
qed

end
