(* ===== verification/Devdax_View.thy ===== *)
theory Devdax_View
  imports Devdax_Layout Nvml_Props
begin

text \<open>
  The device as the memory of pools: every region in use is a block of its own.  Reading and
  writing through the addresses of the device reads and writes these blocks, because regions
  in use do not overlap.
\<close>

definition dev_view :: "addr \<Rightarrow> nat \<Rightarrow> (nat \<times> nat) list \<Rightarrow> memory \<Rightarrow> memory" where
  "dev_view blk base live m = (\<lambda>x. case map_of live x of None \<Rightarrow> None | Some n \<Rightarrow> (case m blk of None \<Rightarrow> None
     | Some b \<Rightarrow> Some \<lparr>blk_len = n, blk_byte = (\<lambda>i. if i < n then blk_byte b (x - base + i) else 0)\<rparr>))"

abbreviation view_of :: "'w dev_env \<Rightarrow> big_pool \<Rightarrow> (nat \<times> nat) list \<Rightarrow> memory \<Rightarrow> memory" where
  "view_of env p live m \<equiv> dev_view (de_block env) (bp_address p) live m"

text \<open>The block of the device is mapped, and the regions in use lie inside of it and do not overlap.\<close>

definition dev_mem :: "'w dev_env \<Rightarrow> big_pool \<Rightarrow> (nat \<times> nat) list \<Rightarrow> memory \<Rightarrow> bool" where
  "dev_mem env p live m \<longleftrightarrow> pool_dim p \<and> taken p live \<and> (\<exists>b. m (de_block env) = Some b \<and> blk_len b = bp_length p)"

lemma apart_sym: "separate u v = separate v u"
  by (auto simp: separate_def)

lemma sorted_apart: "sorted_wrt separate us \<Longrightarrow> u \<in> set us \<Longrightarrow> v \<in> set us \<Longrightarrow> u \<noteq> v \<Longrightarrow> separate u v"
proof (induction us)
  case (Cons w us)
  then show ?case using apart_sym by (cases "u = w"; cases "v = w") auto
qed simp

lemma live_region:
  assumes "dev_mem env p live m" "map_of live x = Some n"
  shows "0 < bp_address p" "bp_address p \<le> x" "x + n \<le> bp_address p + bp_length p" "bp_address p + bp_length p < 2 ^ 64" "whole p (x, n)"
    "\<And>y k. map_of live y = Some k \<Longrightarrow> y \<noteq> x \<Longrightarrow> x + n \<le> y \<or> y + k \<le> x"
proof -
  have P: "pool_dim p" "taken p live" and m: "(x, n) \<in> set live" using assms by (auto simp: dev_mem_def dest: map_of_SomeD)
  then show w: "whole p (x, n)" by (simp add: taken_def)
  show "0 < bp_address p" "bp_address p + bp_length p < 2 ^ 64" using P(1) by (auto simp: pool_dim_def)
  show "bp_address p \<le> x" "x + n \<le> bp_address p + bp_length p" using whole_inside[OF P(1) w] by auto
  show "x + n \<le> y \<or> y + k \<le> x" if "map_of live y = Some k" "y \<noteq> x" for y k
    using sorted_apart[OF taken_apart[OF P(2)] m, of "(y, k)"] P(1) map_of_SomeD[OF that(1)] that(2) by (auto simp: separate_def pool_dim_def)
qed

lemma dev_ptr_live:
  assumes "dev_mem env p live m" "map_of live x = Some n" "d \<le> n"
  shows "(x + d) mod 2 ^ 64 \<noteq> 0" "dev_ptr env p ((x + d) mod 2 ^ 64) = (de_block env, x - bp_address p + d)"
proof -
  note R = live_region[OF assms(1,2)]
  have l: "x + d < 2 ^ 64" "bp_address p < 2 ^ 64" using R assms(3) by linarith+
  then show "(x + d) mod 2 ^ 64 \<noteq> 0" using R(1,2) by simp
  have "x + d + (2 ^ 64 - bp_address p mod 2 ^ 64) = (x - bp_address p + d) + 2 ^ 64" using l R(2) by simp
  moreover have "x - bp_address p + d < 2 ^ 64" using l R(2) by linarith
  ultimately show "dev_ptr env p ((x + d) mod 2 ^ 64) = (de_block env, x - bp_address p + d)" using l(1) by (simp add: dev_ptr_def)
qed

lemma view_block:
  assumes "dev_mem env p live m" "view_of env p live m x = Some vb"
  obtains b where "m (de_block env) = Some b" "map_of live x = Some (blk_len vb)" "x - bp_address p + blk_len vb \<le> blk_len b"
    "\<And>i. i < blk_len vb \<Longrightarrow> blk_byte vb i = blk_byte b (x - bp_address p + i)"
proof -
  obtain b where b: "m (de_block env) = Some b" "blk_len b = bp_length p" using assms(1) by (auto simp: dev_mem_def)
  then obtain n where n: "map_of live x = Some n" "vb = \<lparr>blk_len = n, blk_byte = (\<lambda>i. if i < n then blk_byte b (x - bp_address p + i) else 0)\<rparr>"
    using assms(2) by (auto simp: dev_view_def split: option.splits)
  have "x - bp_address p + n \<le> blk_len b" using live_region(2,3)[OF assms(1) n(1)] b(2) by linarith
  then show ?thesis using b n by (intro that[of b]) auto
qed

lemma conc_some:
  assumes "dev_mem env p live m" "r_address r = Some (x, d)" "map_of live x = Some n" "d \<le> n"
  shows "r_address (conc env p r) = Some (de_block env, x - bp_address p + d)"
  using assms dev_ptr_live[OF assms(1,3,4)] by (simp add: conc_def)

lemma view_read:
  assumes "dev_mem env p live m" "mem_read (view_of env p live m) (x, d) n = Some bs"
  shows "mem_read m (de_block env, x - bp_address p + d) n = Some bs"
proof -
  obtain vb where vb: "view_of env p live m x = Some vb" "d + n \<le> blk_len vb" "bs = map (blk_byte vb) [d..<d + n]"
    using assms(2) by (auto simp: mem_read_def split: option.splits if_splits)
  obtain b where b: "m (de_block env) = Some b" "x - bp_address p + blk_len vb \<le> blk_len b" "\<And>i. i < blk_len vb \<Longrightarrow> blk_byte vb i = blk_byte b (x - bp_address p + i)"
    using view_block[OF assms(1) vb(1)] by metis
  have "map (blk_byte b) [x - bp_address p + d..<x - bp_address p + d + n] = bs"
    using vb(2,3) b(3) by (intro nth_equalityI) (simp_all add: add.assoc)
  then show ?thesis using b(1,2) vb(2) by (simp add: mem_read_def)
qed

lemma conc_read:
  assumes "dev_mem env p live m" "readable (view_of env p live m) r"
  shows "readable m (conc env p r) \<and> region_bytes m (conc env p r) = region_bytes (view_of env p live m) r"
proof (cases "r_address r")
  case None
  then show ?thesis by (simp add: readable_def region_bytes_def conc_def)
next
  case (Some q)
  obtain x d where q: "q = (x, d)" by (cases q)
  obtain bs where bs: "mem_read (view_of env p live m) (x, d) (unat (r_size r)) = Some bs" using assms(2) Some q by (auto simp: readable_def)
  then obtain n where "map_of live x = Some n" "d \<le> n" by (auto simp: mem_read_def dev_view_def split: option.splits if_splits)
  note c = conc_some[OF assms(1) Some[unfolded q] this]
  show ?thesis using c view_read[OF assms(1) bs] bs Some q by (simp add: readable_def region_bytes_def)
qed

lemma conc_addressed:
  assumes "dev_mem env p live m" "readable (view_of env p live m) r" "r_address r \<noteq> None"
  shows "r_address (conc env p r) \<noteq> None"
proof -
  obtain x d where q: "r_address r = Some (x, d)" using assms(3) by auto
  then obtain bs where "mem_read (view_of env p live m) (x, d) (unat (r_size r)) = Some bs" using assms(2) by (auto simp: readable_def)
  then obtain n where "map_of live x = Some n" "d \<le> n" by (auto simp: mem_read_def dev_view_def split: option.splits if_splits)
  then show ?thesis using conc_some[OF assms(1) q] by simp
qed

lemma view_write:
  assumes "dev_mem env p live m" "view_of env p live m x = Some vb" "d + length bs \<le> blk_len vb" "m (de_block env) = Some b"
  shows "(view_of env p live m)(x \<mapsto> blk_write vb d bs) = view_of env p live (m(de_block env \<mapsto> blk_write b (x - bp_address p + d) bs))"
proof
  fix y
  have x: "map_of live x = Some (blk_len vb)" "\<And>i. i < blk_len vb \<Longrightarrow> blk_byte vb i = blk_byte b (x - bp_address p + i)"
    using view_block[OF assms(1,2)] assms(4) by (metis option.inject)+
  have z: "blk_byte vb i = 0" if "\<not> i < blk_len vb" for i using assms(2) that by (auto simp: dev_view_def split: option.splits)
  note R = live_region[OF assms(1) x(1)]
  show "((view_of env p live m)(x \<mapsto> blk_write vb d bs)) y = view_of env p live (m(de_block env \<mapsto> blk_write b (x - bp_address p + d) bs)) y"
  proof (cases "y = x")
    case True
    have "blk_write vb d bs = \<lparr>blk_len = blk_len vb, blk_byte = (\<lambda>i. if i < blk_len vb then blk_byte (blk_write b (x - bp_address p + d) bs) (x - bp_address p + i) else 0)\<rparr>"
      using assms(3) x(2) z by (auto simp: blk_write_def fun_eq_iff intro!: block.equality)
    then show ?thesis using True x(1) by (simp add: dev_view_def)
  next
    case False
    show ?thesis
    proof (cases "map_of live y")
      case (Some k)
      have "\<not> (x - bp_address p + d \<le> y - bp_address p + i \<and> y - bp_address p + i < x - bp_address p + d + length bs)" if "i < k" for i
        using R(6)[OF Some False] R(2) live_region(2)[OF assms(1) Some] assms(3) that by linarith
      then show ?thesis using False Some assms(4) by (auto simp: dev_view_def blk_write_def fun_eq_iff)
    qed (use False in \<open>simp add: dev_view_def\<close>)
  qed
qed

lemma dev_mem_write: "dev_mem env p live m \<Longrightarrow> m (de_block env) = Some b \<Longrightarrow> dev_mem env p live (m(de_block env \<mapsto> blk_write b k bs))"
  by (auto simp: dev_mem_def)

lemma conc_write:
  assumes "dev_mem env p live m" "writable (view_of env p live m) A r"
  obtains x d vb b where "r_address r = Some (x, d)" "view_of env p live m x = Some vb" "m (de_block env) = Some b" "d + unat (r_size r) \<le> blk_len vb"
    "r_address (conc env p r) = Some (de_block env, x - bp_address p + d)" "x - bp_address p + d + unat (r_size r) \<le> blk_len b"
proof -
  obtain x d vb where r: "r_address r = Some (x, d)" "view_of env p live m x = Some vb" "d + unat (r_size r) \<le> blk_len vb" using assms(2) by (auto simp: writable_def)
  obtain b where b: "m (de_block env) = Some b" "map_of live x = Some (blk_len vb)" "x - bp_address p + blk_len vb \<le> blk_len b" using view_block[OF assms(1) r(2)] by metis
  then show ?thesis using r conc_some[OF assms(1) r(1) b(2)] by (intro that[of x d vb b]) auto
qed

lemma store_view:
  "dev_mem env p live m \<Longrightarrow> \<forall>r \<in> set rs. writable (view_of env p live m) A r \<Longrightarrow>
   store_regions (view_of env p live m) rs bs = view_of env p live (store_regions m (map (conc env p) rs) bs) \<and>
   dev_mem env p live (store_regions m (map (conc env p) rs) bs) \<and> (\<forall>r \<in> set rs. writable m {de_block env} (conc env p r)) \<and>
   (\<forall>z. z \<noteq> de_block env \<longrightarrow> store_regions m (map (conc env p) rs) bs z = m z)"
proof (induction rs arbitrary: m bs)
  case (Cons r rs)
  let ?bs = "take (unat (r_size r)) bs"
  have "writable (view_of env p live m) A r" using Cons.prems(2) by simp
  then obtain x d vb b where
    r: "r_address r = Some (x, d)" "view_of env p live m x = Some vb" "m (de_block env) = Some b" "d + unat (r_size r) \<le> blk_len vb"
      "r_address (conc env p r) = Some (de_block env, x - bp_address p + d)" "x - bp_address p + d + unat (r_size r) \<le> blk_len b" by (rule conc_write[OF Cons.prems(1)])
  let ?m = "m(de_block env \<mapsto> blk_write b (x - bp_address p + d) ?bs)"
  have v: "(view_of env p live m)(x \<mapsto> blk_write vb d ?bs) = view_of env p live ?m" by (rule view_write[OF Cons.prems(1) r(2) _ r(3)]) (use r(4) in simp)
  have m: "dev_mem env p live ?m" by (rule dev_mem_write[OF Cons.prems(1) r(3)])
  have "\<forall>r \<in> set rs. writable (view_of env p live ?m) A r" unfolding v[symmetric] using Cons.prems(2) r(2) by (simp add: writable_write)
  note IH = Cons.IH[OF m this, of "drop (unat (r_size r)) bs"]
  let ?m' = "store_regions ?m (map (conc env p) rs) (drop (unat (r_size r)) bs)"
  have e: "store_regions (view_of env p live m) (r # rs) bs = store_regions (view_of env p live ?m) rs (drop (unat (r_size r)) bs)"
    "store_regions m (map (conc env p) (r # rs)) bs = ?m'" using r(1,2,3,5) v by simp_all
  have "writable ?m {de_block env} q = writable m {de_block env} q" for q using r(3) by (simp add: writable_write)
  moreover have "writable m {de_block env} (conc env p r)" using r(3,5,6) by (auto simp: writable_def)
  ultimately have w: "\<forall>q \<in> set (r # rs). writable m {de_block env} (conc env p q)" using IH by (metis set_ConsD)
  have o: "?m' z = m z" if "z \<noteq> de_block env" for z using IH that by (metis fun_upd_other)
  show ?case unfolding e using IH w o by blast
qed simp

end
