(* ===== verification/Devdax_Files.thy ===== *)
theory Devdax_Files
  imports Devdax_View
begin

text \<open>
  The invariant of a file of the device and what its operations do under it: looking up,
  allocating storage, writing and reading.
\<close>

section \<open>A file on the device\<close>

text \<open>Addresses are below \<open>2 ^ 64\<close>, the number of pools of the abstract file.\<close>

definition all_addrs :: nat where
  "all_addrs = 2 ^ 64"

abbreviation abs_f :: "dev_file \<Rightarrow> nvml_file" where
  "abs_f f \<equiv> abs_file all_addrs f"

definition dev_layout :: "'w dev_env \<Rightarrow> memory \<Rightarrow> addr list \<Rightarrow> dev_file \<Rightarrow> bool" where
  "dev_layout env V sl f \<longleftrightarrow> layout (abs_env env) sl (abs_f f) V \<and> solid (abs_env env) all_addrs V (abs_heap (df_seg f)) sl \<and>
     4096 dvd df_alloc_offset f \<and> df_segment_size f = 4096 \<and>
     (\<forall>a seg. df_seg f a = Some seg \<longrightarrow> \<not> ds_is_gap seg \<and> dp_length (ds_pool seg) = unat (ds_size seg) \<and> uint (ds_bytes seg) < 2 ^ 62)"

definition dev_file_ok :: "'w dev_env \<Rightarrow> memory \<Rightarrow> addr list \<Rightarrow> dev_file \<Rightarrow> bool" where
  "dev_file_ok env V sl f \<longleftrightarrow> dev_layout env V sl f \<and> idle (df_range_mutex f) \<and> st_size (df_attributes f) = df_used_offset f"

definition dev_content :: "memory \<Rightarrow> addr list \<Rightarrow> dev_file \<Rightarrow> byte list" where
  "dev_content V sl f = file_content sl (abs_f f) V"

abbreviation dev_datas :: "addr list \<Rightarrow> dev_file \<Rightarrow> addr list" where
  "dev_datas sl f \<equiv> datas (abs_heap (df_seg f)) sl"

lemma abs_upd: "abs_file k (f\<lparr>df_initialized := b\<rparr>) = (abs_file k f)\<lparr>f_initialized := b\<rparr>" "abs_file k (f\<lparr>df_range_mutex := t\<rparr>) = (abs_file k f)\<lparr>f_range_mutex := t\<rparr>"
  by (simp_all add: abs_file_def)

lemma dev_layout_upd [simp]:
  "dev_layout env V sl (f\<lparr>df_initialized := b\<rparr>) = dev_layout env V sl f" "dev_layout env V sl (f\<lparr>df_range_mutex := t\<rparr>) = dev_layout env V sl f"
  "dev_content V sl (f\<lparr>df_initialized := b\<rparr>) = dev_content V sl f" "dev_content V sl (f\<lparr>df_range_mutex := t\<rparr>) = dev_content V sl f"
  by (simp_all add: dev_layout_def dev_content_def abs_upd)

lemma dev_layout_agree:
  assumes "dev_layout env V sl f" "\<And>d. d \<in> set (dev_datas sl f) \<Longrightarrow> V' d = V d"
  shows "dev_layout env V' sl f" "seg_content (abs_heap (df_seg f)) V' sl = seg_content (abs_heap (df_seg f)) V sl"
proof -
  have "solid (abs_env env) all_addrs V' (abs_heap (df_seg f)) sl" using assms unfolding dev_layout_def by (blast intro: solid_cong)
  then show "dev_layout env V' sl f" using assms(1) by (auto simp: dev_layout_def layout_def solid_def)
  show "seg_content (abs_heap (df_seg f)) V' sl = seg_content (abs_heap (df_seg f)) V sl" by (rule seg_content_cong) (rule assms(2))
qed

lemma dev_file_agree:
  assumes "dev_file_ok env V sl f" "\<And>d. d \<in> set (dev_datas sl f) \<Longrightarrow> V' d = V d"
  shows "dev_file_ok env V' sl f" "dev_content V' sl f = dev_content V sl f"
  using assms dev_layout_agree[of env V sl f V'] by (auto simp: dev_file_ok_def dev_content_def file_content_def)

lemma dev_new_file: "dev_file_ok env V [] (new_dev_file ty)" "dev_content V [] (new_dev_file ty) = []"
proof -
  have e: "abs_f (new_dev_file ty) = new_file ty all_addrs" by (simp add: abs_file_def new_dev_file_def new_file_def abs_heap_def comp_def)
  show "dev_content V [] (new_dev_file ty) = []" unfolding dev_content_def e by (rule file_ok_new)
  have "layout (abs_env env) [] (new_file ty all_addrs) V" using file_ok_new(1)[of "abs_env env" ty all_addrs V] unfolding file_ok_def by blast
  then show "dev_file_ok env V [] (new_dev_file ty)" using idle_init e by (simp add: dev_file_ok_def dev_layout_def solid_def) (simp add: new_dev_file_def null_stat_def)
qed

section \<open>Looking up\<close>

lemma dev_lookup_run:
  assumes L: "dev_layout env V sl f" and r: "0 \<le> start" "start < end" "end \<le> df_alloc_offset f"
  shows "dev_lookup_helper env f p start end ag [] = Some (map (conc env p) (seg_regions (abs_heap (df_seg f)) sl 0 start end), f, p)"
proof -
  have A: "layout (abs_env env) sl (abs_f f) V" "solid (abs_env env) all_addrs V (abs_heap (df_seg f)) sl" "\<forall>a seg. ag \<and> df_seg f a = Some seg \<longrightarrow> \<not> ds_is_gap seg"
    using L by (auto simp: dev_layout_def)
  note D = layoutD[OF A(1)]
  let ?rs = "seg_regions (abs_heap (df_seg f)) sl 0 start end" and ?s = "undefined :: 'a machine"
  have ng: "\<forall>r \<in> set ?rs. \<not> r_is_gap r" using solid_no_gap[OF D(1), simplified, OF A(2)] by blast
  have nz: "to_size (end - start) \<noteq> 0" using to_size_nat[of "end - start"] r D(8) by auto
  have "lookup_helper (abs_env env) (abs_f f) ?s start end ag [] = Some (Inr (?rs, abs_f f, ?s))"
    using lookup_helper_run[OF A(1), of start "end" ag ?s "[]"] r ng by simp
  then obtain it x where l: "search_tree (df_segments f) start = Some (it, x)"
    "lookup_loop (abs_env env) (abs_f f) ?s it start (to_size (end - start)) end ag [] = Some (Inr (?rs, abs_f f, ?s))"
    using nz by (auto simp: lookup_helper_def Let_def elim!: bind_eq_SomeE)
  from abs_lookup_loop[OF l(2) refl A(3), of env p] show ?thesis using l(1) nz by (simp add: dev_lookup_helper_def Let_def)
qed

section \<open>Storage\<close>

text \<open>The device has room for the bytes of a file up to \<open>e\<close>.\<close>

definition dev_room :: "dev_file \<Rightarrow> big_pool \<Rightarrow> off_t \<Rightarrow> bool" where
  "dev_room f p e \<longleftrightarrow> e \<le> df_alloc_offset f \<or>
     (case bp_allocate (nat (xalign e 4096 - df_alloc_offset f)) p of Some (x, _) \<Rightarrow> x \<noteq> 0 | None \<Rightarrow> False)"

definition units_4k :: "big_pool \<Rightarrow> bool" where
  "units_4k p \<longleftrightarrow> bp_init p \<and> bp_size_of_segment p = 4096"

lemma abs_append_run: "append_segments (abs_file k f) sl = Some nf \<Longrightarrow> dev_append_segments f sl = Some (f\<lparr>df_segments := f_segments nf\<rparr>)"
  unfolding abs_append by (auto simp: dev_append_segments_def elim!: bind_eq_SomeE)

lemma xalign_4k:
  assumes "0 \<le> x" "x < 2 ^ 61"
  shows "x < xalign x 4096" "xalign x 4096 \<le> x + 4096" "4096 dvd xalign x 4096"
proof -
  have "(4096 :: size_t) = 2 ^ 12" by simp
  then have e: "xalign x 4096 = x - x mod 2 ^ 12 + 2 ^ 12" using xalign_pow2[of x 12] assms by simp
  then show "x < xalign x 4096" "xalign x 4096 \<le> x + 4096" by simp_all
  show "4096 dvd xalign x 4096" unfolding e by (simp add: dvd_minus_mod)
qed

text \<open>What allocating storage for the bytes up to \<open>e\<close> leaves: the file as it was, followed by bytes that are on the device.\<close>

definition dev_fetched ::
  "'w dev_env \<Rightarrow> addr list \<Rightarrow> dev_file \<Rightarrow> big_pool \<Rightarrow> (nat \<times> nat) list \<Rightarrow> memory \<Rightarrow> off_t \<Rightarrow> addr list \<Rightarrow> dev_file \<Rightarrow> big_pool \<Rightarrow> (nat \<times> nat) list \<Rightarrow> bool" where
  "dev_fetched env sl f p live m e sl' f' p' live' \<longleftrightarrow> sl' = (if e \<le> df_alloc_offset f then sl else sl @ [df_next f]) \<and> dev_mem env p' live' m \<and> same_dims p p' \<and> dev_layout env (view_of env p' live' m) sl' f' \<and> e \<le> df_alloc_offset f' \<and>
     (\<exists>xs k b. seg_content (abs_heap (df_seg f')) (view_of env p' live' m) sl' = seg_content (abs_heap (df_seg f)) (view_of env p live m) sl @ xs \<and>
       m (de_block env) = Some b \<and> xs = map (blk_byte b) [k..<k + length xs]) \<and>
     df_used_offset f' = df_used_offset f \<and> df_attributes f' = df_attributes f \<and> df_range_mutex f' = df_range_mutex f \<and>
     (\<forall>x. map_of live x \<noteq> None \<longrightarrow> map_of live' x = map_of live x) \<and>
     (\<forall>x \<in> set (dev_datas sl' f'). x \<in> set (dev_datas sl f) \<or> map_of live x = None) \<and>
     (\<forall>a seg. a \<in> set sl' - set sl \<and> df_seg f' a = Some seg \<longrightarrow> map_of live (dev_data seg) = None)"

lemma conc_dims:
  assumes "same_dims p p'"
  shows "conc env p' = conc env p"
proof -
  have "dev_ptr env p' = dev_ptr env p" using assms by (simp add: dev_ptr_def same_dims_def fun_eq_iff)
  then show ?thesis by (intro ext) (simp only: conc_def)
qed

lemma solid_mapped:
  assumes "solid env k m h sl" "d \<in> set (datas h sl)"
  shows "m d \<noteq> None"
proof -
  obtain x seg where "x \<in> set sl" "h x = Some seg" "seg_data seg = Some d" using assms(2) by (force simp: datas_def split: option.splits)
  then have "stored env k m seg" "\<not> s_is_gap seg" "seg_data seg = Some d" using assms(1) by (auto simp: solid_def)
  then show ?thesis by (auto simp: stored_def)
qed

lemma solid_view:
  assumes "solid env k (dev_view blk base live m) h sl" "d \<in> set (datas h sl)"
  shows "map_of live d \<noteq> None"
  using solid_mapped[OF assms] by (auto simp: dev_view_def split: option.splits)

lemma whole_fresh:
  assumes "dev_mem env p live m" "taken p' ((x, n) # live)" "same_dims p p'"
  shows "map_of live x = None"
proof (rule ccontr)
  assume "map_of live x \<noteq> None"
  then obtain k where "(x, k) \<in> set live" by (auto dest: map_of_SomeD)
  then have "units_of p' (x, n) \<inter> units_of p' (x, k) = {}" "whole p' (x, n)" "whole p' (x, k)" using assms(2) by (auto simp: taken_def)
  moreover have "0 < bp_size_of_segment p'" using assms(1,3) by (simp add: dev_mem_def pool_dim_def same_dims_def)
  ultimately show False by (auto simp: units_of_def whole_def)
qed

text \<open>The segment that an allocation at \<open>x\<close> gives a file, and what \<open>fetch_storage\<close> makes of it; \<open>x\<close> may be null.\<close>

definition dev_new_seg :: "off_t \<Rightarrow> off_t \<Rightarrow> nat \<Rightarrow> dev_segment" where
  "dev_new_seg al n x = \<lparr>ds_offset = al, ds_size = to_size n, ds_is_gap = False, ds_pool = \<lparr>dp_data = x, dp_length = nat n, dp_is_pmem = False\<rparr>, ds_is_free = False, ds_bytes = 0\<rparr>"

lemma dev_new_seg_simps [simp]:
  "ds_offset (dev_new_seg al n x) = al" "ds_size (dev_new_seg al n x) = to_size n" "\<not> ds_is_gap (dev_new_seg al n x)" "dev_data (dev_new_seg al n x) = x"
  "dp_length (ds_pool (dev_new_seg al n x)) = nat n" "\<not> dev_is_pmem (dev_new_seg al n x)" "ds_bytes (dev_new_seg al n x) = 0"
  by (simp_all add: dev_new_seg_def dev_data_def dev_is_pmem_def)

definition dev_extended :: "dev_file \<Rightarrow> off_t \<Rightarrow> nat \<Rightarrow> addr option flat_segment_tree \<Rightarrow> dev_file" where
  "dev_extended f n x t = f\<lparr>df_segment_size := 4096, df_seg := (df_seg f)(df_next f \<mapsto> dev_new_seg (df_alloc_offset f) n x), df_next := Suc (df_next f),
     df_segments := t, df_alloc_offset := df_alloc_offset f + n\<rparr>"

lemma extension_bounds:
  assumes L: "dev_layout env V sl f" and r: "0 \<le> off" "off \<le> df_alloc_offset f" "df_alloc_offset f < e" "e < 2 ^ 43" and n: "n = xalign e 4096 - df_alloc_offset f"
  shows "0 < n" "e < df_alloc_offset f + n" "df_alloc_offset f + n < 2 ^ 44" "n < 2 ^ 44" "4096 dvd n" "unat (to_size n) = nat n" "uint (to_size n) = n" "0 \<le> df_alloc_offset f"
proof -
  have al: "4096 dvd df_alloc_offset f" "0 \<le> df_alloc_offset f" using L r(1,2) by (auto simp: dev_layout_def)
  then show n1: "0 < n" "e < df_alloc_offset f + n" "4096 dvd n" "df_alloc_offset f + n < 2 ^ 44" "0 \<le> df_alloc_offset f" using xalign_4k[of e] r by (auto simp: n)
  then show "n < 2 ^ 44" by simp
  then show "unat (to_size n) = nat n" "uint (to_size n) = n" using to_size_nat[of n] to_size_unat[of n] n1(1) by auto
qed

lemma dev_extend_gen:
  assumes L: "dev_layout env V sl f" and u: "units_4k p" "de_segment_size env = 4096"
    and r: "0 \<le> off" "off \<le> df_alloc_offset f" "df_alloc_offset f < off + uint sz" "off + uint sz < 2 ^ 43"
    and n: "n = xalign (off + uint sz) 4096 - df_alloc_offset f" and x: "bp_allocate (nat n) p = Some (x, p')" "x < 2 ^ 64"
  shows "\<exists>t. dev_extend_storage env f p off sz rs = Some (rs @ [\<lparr>r_address = (if x = 0 then None else Some (dev_ptr env p' x)),
        r_size = to_size off + sz - to_size (df_alloc_offset f), r_is_gap = False, r_is_pmem = False\<rparr>], dev_extended f n x t, p') \<and>
    tree_ok 0 off_max t \<and> m_valid_tree t \<and>
    m_leaves t = leaves_of ((abs_heap (df_seg f))(df_next f \<mapsto> abs_seg (dev_new_seg (df_alloc_offset f) n x))) (sl @ [df_next f]) (df_alloc_offset f + n)"
proof -
  let ?al = "df_alloc_offset f" let ?e = "off + uint sz" let ?a = "df_next f" let ?seg = "dev_new_seg ?al n x"
  note N = extension_bounds[OF L r n]
  have A: "layout (abs_env env) sl (abs_f f) V" "df_segment_size f = 4096" using L by (auto simp: dev_layout_def)
  note D = layoutD[OF A(1), unfolded abs_file_simps]
  have e: "to_off (to_size off + sz) = ?e" by (rule end_of_range) (use r in auto)
  let ?f = "f\<lparr>df_segment_size := 4096, df_seg := (df_seg f)(?a \<mapsto> ?seg), df_next := Suc ?a\<rparr>"
  have cs: "dev_create_segment env (f\<lparr>df_segment_size := 4096\<rparr>) p ?al (to_size n) False = Some (?a, ?f, p')"
    using x(1) u(1) N(6) by (simp add: dev_create_segment_def new_dev_segment_def new_dev_pool_def dev_allocate_def units_4k_def dev_new_seg_def)
  have "?al + n < 2 ^ 62" using N(3) by simp
  from append_segment_run[OF A(1), where seg = "abs_seg ?seg" and n = n and w = 4096 and k = all_addrs] N(1) this obtain t where
    t: "append_segments ((abs_f f)\<lparr>f_segment_size := 4096, f_seg := (abs_heap (df_seg f))(?a \<mapsto> abs_seg ?seg), f_next := Suc ?a, f_pools := all_addrs\<rparr>) [?a] =
        Some ((abs_f f)\<lparr>f_segment_size := 4096, f_seg := (abs_heap (df_seg f))(?a \<mapsto> abs_seg ?seg), f_next := Suc ?a, f_pools := all_addrs, f_segments := t\<rparr>)"
      "tree_ok 0 off_max t" "m_valid_tree t" "m_leaves t = leaves_of ((abs_heap (df_seg f))(?a \<mapsto> abs_seg ?seg)) (sl @ [?a]) (?al + n)" by auto
  have "(abs_f f)\<lparr>f_segment_size := 4096, f_seg := (abs_heap (df_seg f))(?a \<mapsto> abs_seg ?seg), f_next := Suc ?a, f_pools := all_addrs\<rparr> = abs_f ?f" by (simp add: abs_file_def)
  note t1 = t(1)[unfolded this]
  have ap: "dev_append_segments ?f [?a] = Some (?f\<lparr>df_segments := t\<rparr>)" using abs_append_run[OF t1] by simp
  have na: "to_off (to_size ?al + to_size n) = ?al + n" using end_of_range[of ?al "to_size n"] N by simp
  have lv: "2 \<le> length (m_leaves (df_segments f))" "m_leaves (df_segments f) ! (length (m_leaves (df_segments f)) - 2) = (?al, None)"
    using D(3) by (simp_all add: leaves_of_def nth_append)
  have "dev_extend_storage env f p off sz rs = Some (rs @ [\<lparr>r_address = (if x = 0 then None else Some (dev_ptr env p' x)),
        r_size = to_size off + sz - to_size ?al, r_is_gap = False, r_is_pmem = False\<rparr>], dev_extended f n x t, p')"
    unfolding dev_extend_storage_def using lv r(2) e cs ap na A(2) u(2) x(2) by (simp add: Let_def n[symmetric] to_size_def[of 0] dev_extended_def)
  then show ?thesis using t(2-4) by blast
qed

text \<open>What an allocation gives, whatever the file does with it.\<close>

lemma granted_mem:
  assumes M: "dev_mem env p live m" and u: "units_4k p" and n: "0 < n" "n < 2 ^ 44" "4096 dvd n" and x: "bp_allocate (nat n) p = Some (x, p')" "x \<noteq> 0"
  shows "dev_mem env p' ((x, nat n) # live) m" "same_dims p p'" "map_of live x = None" "x < 2 ^ 64"
proof -
  have "nat n div 4096 < 2 ^ 32" using n(1,2) by auto
  moreover have "4096 dvd nat n" using n(1,3) by (metis dvd_imp_le_int int_dvd_int_iff int_nat_eq less_le of_nat_numeral)
  ultimately have w: "whole_size (device p) (nat n)" using u n(1) by (auto simp: whole_size_def device_def units_4k_def)
  have P: "pool_dim p" "taken p live" using M by (auto simp: dev_mem_def)
  from granted[OF P(1) x w, of live] P(2) have g: "same_dims p p'" "pool_dim p'" "taken p' ((x, nat n) # live)" by auto
  show "same_dims p p'" by (rule g(1))
  show M': "dev_mem env p' ((x, nat n) # live) m" using M g by (auto simp: dev_mem_def same_dims_def)
  show "map_of live x = None" by (rule whole_fresh[OF M g(3,1)])
  show "x < 2 ^ 64" using live_region(2-4)[OF M', of x "nat n"] by simp
qed

lemma granted_layout:
  assumes M: "dev_mem env p live m" and L: "dev_layout env (view_of env p live m) sl f" and u: "units_4k p"
    and n: "0 < n" "df_alloc_offset f + n < 2 ^ 44" "4096 dvd n" and x: "bp_allocate (nat n) p = Some (x, p')" "x \<noteq> 0"
    and t: "tree_ok 0 off_max t" "m_valid_tree t" "m_leaves t = leaves_of ((abs_heap (df_seg f))(df_next f \<mapsto> abs_seg (dev_new_seg (df_alloc_offset f) n x))) (sl @ [df_next f]) (df_alloc_offset f + n)"
  shows "dev_layout env (view_of env p' ((x, nat n) # live) m) (sl @ [df_next f]) (dev_extended f n x t)"
    and "\<exists>b. m (de_block env) = Some b \<and> seg_content (abs_heap (df_seg (dev_extended f n x t))) (view_of env p' ((x, nat n) # live) m) (sl @ [df_next f]) =
      seg_content (abs_heap (df_seg f)) (view_of env p live m) sl @ map (blk_byte b) [x - bp_address p..<x - bp_address p + nat n]"
    and "dev_datas (sl @ [df_next f]) (dev_extended f n x t) = dev_datas sl f @ [x]"
proof -
  let ?al = "df_alloc_offset f" let ?V = "view_of env p live m" let ?a = "df_next f"
  have A: "layout (abs_env env) sl (abs_f f) ?V" "solid (abs_env env) all_addrs ?V (abs_heap (df_seg f)) sl" "4096 dvd ?al"
    "\<forall>a seg. df_seg f a = Some seg \<longrightarrow> \<not> ds_is_gap seg \<and> dp_length (ds_pool seg) = unat (ds_size seg) \<and> uint (ds_bytes seg) < 2 ^ 62" using L by (auto simp: dev_layout_def)
  note D = layoutD[OF A(1), unfolded abs_file_simps]
  have al: "0 \<le> ?al" "n < 2 ^ 44" using D(6,7) n(2) by simp_all
  note G = granted_mem[OF M u n(1) al(2) n(3) x]
  have un: "unat (to_size n) = nat n" "uint (to_size n) = n" using to_size_nat[of n] to_size_unat[of n] n(1) al(2) by auto
  let ?live = "(x, nat n) # live" let ?seg = "dev_new_seg ?al n x"
  have b: "bp_address p' = bp_address p" using G(2) by (simp add: same_dims_def)
  obtain b0 where b0: "m (de_block env) = Some b0" using M by (auto simp: dev_mem_def)
  obtain blk where blk: "view_of env p' ?live m x = Some blk" "blk_len blk = nat n" "\<And>i. i < nat n \<Longrightarrow> blk_byte blk i = blk_byte b0 (x - bp_address p + i)"
    using b0 b by (simp add: dev_view_def)
  have xs: "map (blk_byte blk) [0..<blk_len blk] = map (blk_byte b0) [x - bp_address p..<x - bp_address p + nat n]"
    using blk(2,3) by (intro nth_equalityI) auto
  have V': "view_of env p' ?live m = ?V(x \<mapsto> blk)" using blk(1) by (auto simp: fun_eq_iff dev_view_def b)
  let ?f' = "dev_extended f n x t"
  have f': "df_seg ?f' = (df_seg f)(?a \<mapsto> ?seg)" "df_alloc_offset ?f' = ?al + n" "df_segment_size ?f' = 4096" by (simp_all add: dev_extended_def)
  have "pow2 4096" unfolding pow2_def by (intro exI[of _ 12]) simp
  moreover have "x \<notin> set (datas (abs_heap (df_seg f)) sl)" using solid_view[OF A(2)] G(3) by blast
  moreover have "x < all_addrs" using G(4) by (simp add: all_addrs_def)
  ultimately have ly: "layout (abs_env env) (sl @ [?a]) (abs_f ?f') (?V(x \<mapsto> blk)) \<and> solid (abs_env env) all_addrs (?V(x \<mapsto> blk)) (abs_heap (df_seg ?f')) (sl @ [?a]) \<and>
      seg_content (abs_heap (df_seg ?f')) (?V(x \<mapsto> blk)) (sl @ [?a]) = seg_content (abs_heap (df_seg f)) ?V sl @ map (blk_byte blk) [0..<blk_len blk] \<and>
      datas (abs_heap (df_seg ?f')) (sl @ [?a]) = datas (abs_heap (df_seg f)) sl @ [x]"
    using appended_layout[OF A(1), where d = x and i = x and k = all_addrs and seg = "abs_seg ?seg" and n = n and b = blk and t = t and w = 4096] A(2) x(2) n al un blk(2) t
    by (simp add: abs_file_def dev_extended_def)
  show "dev_layout env (view_of env p' ?live m) (sl @ [?a]) ?f'" unfolding V' dev_layout_def using ly A(3,4) n(3) un f' by auto
  show "\<exists>b. m (de_block env) = Some b \<and> seg_content (abs_heap (df_seg ?f')) (view_of env p' ?live m) (sl @ [?a]) =
      seg_content (abs_heap (df_seg f)) ?V sl @ map (blk_byte b) [x - bp_address p..<x - bp_address p + nat n]" using ly V' b0 xs by simp
  show "dev_datas (sl @ [?a]) ?f' = dev_datas sl f @ [x]" using ly by blast
qed

lemma dev_extend_run:
  assumes M: "dev_mem env p live m" and L: "dev_layout env (view_of env p live m) sl f" and u: "units_4k p" "de_segment_size env = 4096"
    and r: "0 \<le> off" "off \<le> df_alloc_offset f" "df_alloc_offset f < off + uint sz" "off + uint sz < 2 ^ 43" and room: "dev_room f p (off + uint sz)"
  shows "\<exists>f' p' live'. dev_extend_storage env f p off sz rs =
      Some (rs @ map (conc env p) (seg_regions (abs_heap (df_seg f')) [df_next f] (df_alloc_offset f) (df_alloc_offset f) (off + uint sz)), f', p') \<and>
    dev_fetched env sl f p live m (off + uint sz) (sl @ [df_next f]) f' p' live' \<and> (\<forall>a \<in> set sl. df_seg f' a = df_seg f a)"
proof -
  let ?al = "df_alloc_offset f" let ?e = "off + uint sz" let ?a = "df_next f"
  have "layout (abs_env env) sl (abs_f f) (view_of env p live m)" using L by (auto simp: dev_layout_def)
  note D = layoutD[OF this, unfolded abs_file_simps]
  define n where "n = xalign ?e 4096 - ?al"
  note N = extension_bounds[OF L r n_def]
  from room r(3) obtain x p' where x: "bp_allocate (nat n) p = Some (x, p')" "x \<noteq> 0" by (auto simp: dev_room_def n_def split: option.splits)
  note G = granted_mem[OF M u(1) N(1,4,5) x]
  from dev_extend_gen[OF L u r n_def x(1) G(4), of rs] x(2) obtain t where
    t: "dev_extend_storage env f p off sz rs = Some (rs @ [\<lparr>r_address = Some (dev_ptr env p' x), r_size = to_size off + sz - to_size ?al, r_is_gap = False, r_is_pmem = False\<rparr>], dev_extended f n x t, p')"
      "tree_ok 0 off_max t" "m_valid_tree t" "m_leaves t = leaves_of ((abs_heap (df_seg f))(?a \<mapsto> abs_seg (dev_new_seg ?al n x))) (sl @ [?a]) (?al + n)" by auto
  let ?f' = "dev_extended f n x t" let ?live = "(x, nat n) # live"
  note Y = granted_layout[OF M L u(1) N(1,3,5) x t(2-4)]
  have f': "df_seg ?f' = (df_seg f)(?a \<mapsto> dev_new_seg ?al n x)" "df_alloc_offset ?f' = ?al + n" "df_used_offset ?f' = df_used_offset f"
    "df_attributes ?f' = df_attributes f" "df_range_mutex ?f' = df_range_mutex f" by (simp_all add: dev_extended_def)
  have rg: "map (conc env p) (seg_regions (abs_heap (df_seg ?f')) [?a] ?al ?al ?e) =
      [\<lparr>r_address = Some (dev_ptr env p' x), r_size = to_size off + sz - to_size ?al, r_is_gap = False, r_is_pmem = False\<rparr>]"
  proof -
    have "(x + 0) mod 2 ^ 64 = x" using G(4) by simp
    moreover have "dev_ptr env p x = dev_ptr env p' x" using G(2) by (simp add: dev_ptr_def same_dims_def)
    ultimately show ?thesis using N x(2) f'(1) by (simp add: Let_def region_of_def conc_def to_size_def)
  qed
  have "\<forall>y. map_of live y \<noteq> None \<longrightarrow> map_of ?live y = map_of live y" using G(3) by auto
  then have fe: "dev_fetched env sl f p live m ?e (sl @ [?a]) ?f' p' ?live"
    unfolding dev_fetched_def using G(1-3) N(2) r(3) Y f' by (auto intro!: exI[of _ "x - bp_address p"])
  show ?thesis
    by (rule exI[of _ ?f'], rule exI[of _ p'], rule exI[of _ ?live], intro conjI fe) (use t(1) rg f'(1) D(11) in auto)
qed

lemma dev_lookup_segments_run:
  assumes L: "dev_layout env V sl f" and r: "0 \<le> start" "start < end" "end \<le> df_alloc_offset f"
  shows "dev_lookup_segments env f p start end [] = Some (map (conc env p) (seg_regions (abs_heap (df_seg f)) sl 0 start end), f, p)"
proof -
  have "m_valid_tree (df_segments f)" using L layoutD(4)[of "abs_env env" sl "abs_f f" V] by (simp add: dev_layout_def)
  then show ?thesis using dev_lookup_run[OF assms, of p True] r by (simp add: dev_lookup_segments_def)
qed

lemma dev_fetch_run:
  assumes M: "dev_mem env p live m" and L: "dev_layout env (view_of env p live m) sl f" and u: "units_4k p" "de_segment_size env = 4096"
    and r: "0 \<le> off" "off \<le> df_alloc_offset f" "0 < uint sz" "off + uint sz < 2 ^ 43" and room: "dev_room f p (off + uint sz)"
  shows "\<exists>sl' f' p' live'. dev_fetch_storage env f p off sz = Some (map (conc env p) (seg_regions (abs_heap (df_seg f')) sl' 0 off (off + uint sz)), f', p') \<and>
    dev_fetched env sl f p live m (off + uint sz) sl' f' p' live'"
proof -
  let ?al = "df_alloc_offset f" let ?e = "off + uint sz"
  have A: "layout (abs_env env) sl (abs_f f) (view_of env p live m)" using L by (simp add: dev_layout_def)
  note D = layoutD[OF A, simplified]
  have e: "to_off (to_size off + sz) = ?e" by (rule end_of_range) (use r in auto)
  have sz: "to_off sz = uint sz" by (rule to_off_tile) (use r in auto)
  show ?thesis
  proof (cases "?e \<le> ?al")
    case True
    have "dev_fetch_storage env f p off sz = Some (map (conc env p) (seg_regions (abs_heap (df_seg f)) sl 0 off ?e), f, p)"
      using True dev_lookup_segments_run[OF L r(1) _ True, of p] r(3) by (simp add: dev_fetch_storage_def e sz)
    moreover have "dev_fetched env sl f p live m ?e sl f p live" using M L True unfolding dev_fetched_def by (auto simp: same_dims_def dev_mem_def)
    ultimately show ?thesis by blast
  next
    case False
    let ?rg = "if off < ?al then seg_regions (abs_heap (df_seg f)) sl 0 off ?al else []"
    from dev_extend_run[OF M L u r(1,2) _ r(4) room, of "map (conc env p) ?rg"] False obtain f' p' live' where
      x: "dev_extend_storage env f p off sz (map (conc env p) ?rg) = Some (map (conc env p) ?rg @ map (conc env p) (seg_regions (abs_heap (df_seg f')) [df_next f] ?al ?al ?e), f', p')"
        "dev_fetched env sl f p live m ?e (sl @ [df_next f]) f' p' live'" "\<forall>a \<in> set sl. df_seg f' a = df_seg f a" by auto
    have same: "\<And>a. a \<in> set sl \<Longrightarrow> abs_heap (df_seg f') a = abs_heap (df_seg f) a" using x(3) by simp
    have t': "tiles (abs_heap (df_seg f')) 0 sl ?al" using tiles_cong[of sl "abs_heap (df_seg f')" "abs_heap (df_seg f)" 0 ?al] same D(1) by simp
    have "?rg @ seg_regions (abs_heap (df_seg f')) [df_next f] ?al ?al ?e = seg_regions (abs_heap (df_seg f')) (sl @ [df_next f]) 0 off ?e"
    proof (cases "off < ?al")
      case True
      then show ?thesis using seg_regions_app[OF t' r(1) True] False seg_regions_cong[of sl "abs_heap (df_seg f')" "abs_heap (df_seg f)" 0 off ?al] same by simp
    next
      case F2: False
      then show ?thesis using seg_regions_skip[OF t', of off "[df_next f]" ?e] r(2) by simp
    qed
    moreover have "dev_fetch_storage env f p off sz = dev_extend_storage env f p off sz (map (conc env p) ?rg)"
      using False D(4) r dev_lookup_segments_run[OF L r(1) _ order_refl, of p] unfolding dev_fetch_storage_def e sz by simp
    ultimately show ?thesis using x(1,2) unfolding map_append[symmetric] by metis
  qed
qed

section \<open>Writing and reading\<close>

lemma overwrite_take:
  assumes "off \<le> length c" "k = max (length c) (off + length bs)"
  shows "take k (overwrite off bs (c @ ys)) = pwrite off bs c"
  using assms by (auto simp: overwrite_def pwrite_def max_def min_def)

lemma dev_update_run:
  assumes "st_size (df_attributes f) = df_used_offset f" "0 \<le> e" "e < 2 ^ 62"
  shows "\<exists>st. dev_update_size f (to_size e) = f\<lparr>df_used_offset := max (df_used_offset f) e, df_attributes := st\<rparr> \<and> st_size st = max (df_used_offset f) e"
  using assms to_off_mid[of e] by (auto simp: dev_update_size_def max_def intro: exI[of _ "df_attributes f"])

lemma dev_layout_used:
  assumes "dev_layout env V sl f" "solid (abs_env env) all_addrs V' (abs_heap (df_seg f)) sl" "0 \<le> u" "u \<le> df_alloc_offset f"
  shows "dev_layout env V' sl (f\<lparr>df_range_mutex := t, df_used_offset := u, df_attributes := st\<rparr>)"
  using assms by (auto simp: dev_layout_def layout_def solid_def)

text \<open>What the environment promises: \<open>fuse_buf_copy\<close> copies memory, and the units have 4096 bytes.\<close>

definition good_dev :: "'w dev_env \<Rightarrow> bool" where
  "good_dev env \<longleftrightarrow> memory_copy (de_copy env) \<and> de_segment_size env = 4096"

lemma dev_put_run:
  assumes M: "dev_mem env p live (mc_mem s)" and F: "dev_file_ok env (view_of env p live (mc_mem s)) sl f" and u: "units_4k p" and g: "good_dev env"
    and r: "0 \<le> off" "off \<le> df_used_offset f" "0 < sz" "off + uint sz < 2 ^ 43" and room: "dev_room f p (off + uint sz)"
    and v: "mem_vec (mc_mem s) {de_block env} v" "length (src_bytes (mc_mem s) v) = unat sz"
  shows "\<exists>v' sl' f' p' live' s'. dev_put_data env f p s off sz v = Some (Inr (uint sz, v', f', p', s')) \<and> dev_mem env p' live' (mc_mem s') \<and> same_dims p p' \<and>
    dev_file_ok env (view_of env p' live' (mc_mem s')) sl' f' \<and>
    dev_content (view_of env p' live' (mc_mem s')) sl' f' = pwrite (nat off) (src_bytes (mc_mem s) v) (dev_content (view_of env p live (mc_mem s)) sl f) \<and>
    (\<forall>x. map_of live x \<noteq> None \<and> x \<notin> set (dev_datas sl f) \<longrightarrow> view_of env p' live' (mc_mem s') x = view_of env p live (mc_mem s) x \<and> x \<notin> set (dev_datas sl' f')) \<and>
    (\<forall>z. z \<noteq> de_block env \<longrightarrow> mc_mem s' z = mc_mem s z) \<and> mc_world s' = mc_world s"
proof -
  let ?m = "mc_mem s" let ?bs = "src_bytes ?m v" let ?e = "off + uint sz" let ?V = "view_of env p live ?m" let ?fi = "f\<lparr>df_initialized := True\<rparr>"
  have pz: "0 < uint sz" using r(3) by (simp add: word_less_def)
  have e: "to_off (to_size off + sz) = ?e" by (rule end_of_range) (use r in auto)
  have L: "dev_layout env ?V sl ?fi" and i: "idle (df_range_mutex f)" and st: "st_size (df_attributes f) = df_used_offset f"
    using F by (auto simp: dev_file_ok_def dev_layout_def layout_def)
  have A: "layout (abs_env env) sl (abs_f f) ?V" using F by (simp add: dev_file_ok_def dev_layout_def)
  have D0: "0 \<le> df_used_offset f" "df_used_offset f \<le> df_alloc_offset f" using layoutD(6,7)[OF A] by simp_all
  from dev_fetch_run[OF M L u _ r(1) _ pz r(4)] D0 r(2) g room obtain sl' f1 p' live' where
    x: "dev_fetch_storage env ?fi p off sz = Some (map (conc env p) (seg_regions (abs_heap (df_seg f1)) sl' 0 off ?e), f1, p')" "dev_fetched env sl ?fi p live ?m ?e sl' f1 p' live'"
    by (auto simp: good_dev_def dev_room_def)
  let ?V1 = "view_of env p' live' ?m" let ?h = "abs_heap (df_seg f1)" let ?rs = "seg_regions ?h sl' 0 off ?e"
  from x(2) obtain xs where f1: "dev_mem env p' live' ?m" "same_dims p p'" "dev_layout env ?V1 sl' f1" "?e \<le> df_alloc_offset f1"
    "seg_content ?h ?V1 sl' = seg_content (abs_heap (df_seg f)) ?V sl @ xs" "df_used_offset f1 = df_used_offset f" "df_attributes f1 = df_attributes f" "df_range_mutex f1 = df_range_mutex f"
    "\<forall>x. map_of live x \<noteq> None \<longrightarrow> map_of live' x = map_of live x" "\<forall>x \<in> set (dev_datas sl' f1). x \<in> set (dev_datas sl f) \<or> map_of live x = None"
    unfolding dev_fetched_def by auto
  have L1: "layout (abs_env env) sl' (abs_f f1) ?V1" "solid (abs_env env) all_addrs ?V1 ?h sl'" using f1(3) by (auto simp: dev_layout_def)
  note D = layoutD[OF L1(1), unfolded abs_file_simps]
  have "off < ?e" "off_ok off" "off_ok ?e" using pz r by (auto simp: off_ok_def)
  from idle_lock[OF i this, of Writer] obtain t1 rl ns rl' t2 where
    lk: "lock_range (df_range_mutex f) off ?e Writer = Some (t1, Inr rl)" "unlock_range t1 rl = Some (ns, rl', t2)" "destroy_range_lock t2 rl' = Some t2" "idle t2" by blast
  have "length ?bs = nat (?e - off)" using v(2) by simp
  then have sto: "stores (abs_env env) all_addrs ?V1 ?h sl' (nat (off - 0)) ?bs ?rs"
    using seg_regions_stores[OF D(1) L1(2) D(12) order_refl r(1) _ f1(4)] pz by simp
  let ?W = "store_regions ?V1 ?rs ?bs"
  have S: "seg_content ?h ?W sl' = overwrite (nat off) ?bs (seg_content ?h ?V1 sl')" "solid (abs_env env) all_addrs ?W ?h sl'"
    "\<forall>r \<in> set ?rs. writable ?V1 (set (datas ?h sl')) r" "\<forall>x. x \<notin> set (datas ?h sl') \<longrightarrow> ?W x = ?V1 x" using sto by (simp_all add: stores_def Let_def)
  let ?m' = "store_regions ?m (map (conc env p') ?rs) ?bs"
  note T = store_view[OF f1(1) S(3), of ?bs]
  have sum: "(\<Sum>r\<leftarrow>map (conc env p') ?rs. unat (r_size r)) = unat sz" using seg_regions_bytes[where h = ?h, OF D(1,2) r(1) _ f1(4)] pz by (simp add: comp_def del: abs_heap_app)
  have "memory_copy (ne_copy (abs_env env))" using g by (simp add: good_dev_def)
  from write_regions_run[OF this _ v(1), of "map (conc env p') ?rs" 0] T sum v(2) obtain v' where
    w: "dev_write_regions env s 0 v (map (conc env p) ?rs) = Some (uint sz, v', s\<lparr>mc_mem := ?m'\<rparr>)" unfolding abs_write_regions conc_dims[OF f1(2), symmetric] by auto
  have st1: "st_size (df_attributes (f1\<lparr>df_range_mutex := t1\<rparr>)) = df_used_offset (f1\<lparr>df_range_mutex := t1\<rparr>)" using st f1(6,7) by simp
  from dev_update_run[OF st1, of ?e] obtain a where
    a: "dev_update_size (f1\<lparr>df_range_mutex := t1\<rparr>) (to_size ?e) = f1\<lparr>df_range_mutex := t1, df_used_offset := max (df_used_offset f1) ?e, df_attributes := a\<rparr>"
      "st_size a = max (df_used_offset f1) ?e" using r by auto
  let ?f' = "f1\<lparr>df_range_mutex := t2, df_used_offset := max (df_used_offset f1) ?e, df_attributes := a\<rparr>"
  have run: "dev_put_data env f p s off sz v = Some (Inr (uint sz, v', ?f', p', s\<lparr>mc_mem := ?m'\<rparr>))"
    using x(1) lk(1-3) w a(1) f1(8) e unfolding dev_put_data_def dev_lock_range_def dev_unlock_range_def by (simp add: Let_def)
  have W: "view_of env p' live' ?m' = ?W" "dev_mem env p' live' ?m'" using T by simp_all
  have "0 \<le> max (df_used_offset f1) ?e" "max (df_used_offset f1) ?e \<le> df_alloc_offset f1" using f1(4) D(6,7) by auto
  from dev_layout_used[OF f1(3) S(2) this, where t = t2 and st = a] have ok: "dev_file_ok env (view_of env p' live' ?m') sl' ?f'" using W(1) lk(4) a(2) by (simp add: dev_file_ok_def)
  let ?c = "dev_content ?V sl f"
  have lc: "length ?c = nat (df_used_offset f)" using file_content_length[OF A] by (simp add: dev_content_def)
  have "seg_content ?h ?V1 sl' = ?c @ (drop (nat (df_used_offset f)) (seg_content (abs_heap (df_seg f)) ?V sl) @ xs)"
    unfolding f1(5) by (simp add: dev_content_def file_content_def)
  moreover have ub: "int (unat sz) = uint sz" by simp
  moreover have "nat (max (df_used_offset f1) ?e) = max (length ?c) (nat off + length ?bs)" "nat off \<le> length ?c" using f1(6) lc D0(1) r(1,2) v(2) ub by linarith+
  ultimately have fc: "dev_content (view_of env p' live' ?m') sl' ?f' = pwrite (nat off) ?bs ?c"
    unfolding W(1) dev_content_def[of ?W] file_content_def[of sl' "abs_f ?f'"] using S(1) overwrite_take[of "nat off" ?c _ ?bs] by simp
  have fr: "view_of env p' live' ?m' y = ?V y \<and> y \<notin> set (dev_datas sl' ?f')" if "map_of live y \<noteq> None" "y \<notin> set (dev_datas sl f)" for y
  proof -
    have y: "y \<notin> set (dev_datas sl' f1)" using f1(10) that by (metis (lifting))
    then have "?W y = ?V1 y" using S(4) by blast
    also have "\<dots> = ?V y" using f1(2,9) that(1) by (simp add: dev_view_def same_dims_def)
    finally show ?thesis using W(1) y by simp
  qed
  show ?thesis
    by (rule exI[of _ v'], rule exI[of _ sl'], rule exI[of _ ?f'], rule exI[of _ p'], rule exI[of _ live'], rule exI[of _ "s\<lparr>mc_mem := ?m'\<rparr>"])
      (use run W(2) f1(2) ok fc fr T in auto)
qed

lemma dev_range_regions:
  assumes M: "dev_mem env p live m" and L: "dev_layout env (view_of env p live m) sl f" and r: "0 \<le> off" "off < e" "e \<le> df_used_offset f"
  shows "\<exists>cs. dev_lookup_helper env f p off e False [] = Some (cs, f, p) \<and> concat (map (region_bytes m) cs) = extent (nat off) (nat (e - off)) (dev_content (view_of env p live m) sl f) \<and>
    (\<forall>r \<in> set cs. readable m r \<and> r_address r \<noteq> None) \<and> (\<Sum>r\<leftarrow>cs. unat (r_size r)) = nat (e - off) \<and> cs \<noteq> []"
proof -
  let ?V = "view_of env p live m" let ?h = "abs_heap (df_seg f)" let ?rs = "seg_regions ?h sl 0 off e"
  have A: "layout (abs_env env) sl (abs_f f) ?V" "solid (abs_env env) all_addrs ?V ?h sl" using L by (simp_all add: dev_layout_def)
  note D = layoutD[OF A(1), unfolded abs_file_simps]
  from seg_regions_bytes[where h = ?h, OF D(1,2) r(1,2) order_trans[OF r(3) D(7)]] have
    b: "concat (map (region_bytes ?V) ?rs) = extent (nat off) (nat (e - off)) (seg_content ?h ?V sl)" "\<forall>r \<in> set ?rs. readable ?V r"
      "(\<Sum>r\<leftarrow>?rs. unat (r_size r)) = nat (e - off)" "?rs \<noteq> []" by (simp_all del: abs_heap_app)
  have ad: "\<forall>r \<in> set ?rs. r_address r \<noteq> None" using solid_addressed[OF D(1) A(2)] by blast
  have "extent (nat off) (nat (e - off)) (dev_content ?V sl f) = extent (nat off) (nat (e - off)) (seg_content ?h ?V sl)"
    unfolding dev_content_def file_content_def abs_file_simps by (rule extent_take) (use r in linarith)
  moreover have "map (region_bytes m) (map (conc env p) ?rs) = map (region_bytes ?V) ?rs" using b(2) conc_read[OF M] by simp
  ultimately have "concat (map (region_bytes m) (map (conc env p) ?rs)) = extent (nat off) (nat (e - off)) (dev_content ?V sl f)" using b(1) by (simp only:)
  moreover have "\<forall>r \<in> set (map (conc env p) ?rs). readable m r \<and> r_address r \<noteq> None" using b(2) ad conc_read[OF M] conc_addressed[OF M] by auto
  moreover have "dev_lookup_helper env f p off e False [] = Some (map (conc env p) ?rs, f, p)" by (rule dev_lookup_run[OF L r(1,2)]) (use r(3) D(7) in linarith)
  ultimately show ?thesis using b(3,4) by (intro exI[of _ "map (conc env p) ?rs"]) (simp add: comp_def)
qed

lemma dev_get_run:
  assumes M: "dev_mem env p live (mc_mem s)" and F: "dev_file_ok env (view_of env p live (mc_mem s)) sl f"
    and r: "0 \<le> off" "off < df_used_offset f" "0 < sz" "off + uint sz < 2 ^ 62"
    and v: "bv_buf v = b0 # bs" and len: "len = min (df_used_offset f - off) (uint sz)" and al: "de_memalign env s (to_size len) = Some a" "mc_mem s a = None"
  shows "\<exists>v' f' s' t. dev_get_data env f p s off sz v = Some (Inr (0, v', f', s')) \<and> f' = f\<lparr>df_initialized := True, df_range_mutex := t\<rparr> \<and> idle t \<and>
    fb_mem (hd (bv_buf v')) = Some (a, 0) \<and> fb_size (hd (bv_buf v')) = nat len \<and>
    mem_read (mc_mem s') (a, 0) (nat len) = Some (extent (nat off) (nat len) (dev_content (view_of env p live (mc_mem s)) sl f)) \<and>
    (\<forall>x. x \<noteq> a \<longrightarrow> mc_mem s' x = mc_mem s x) \<and> mc_world s' = mc_world s"
proof -
  let ?V = "view_of env p live (mc_mem s)" let ?h = "abs_heap (df_seg f)"
  have L: "dev_layout env ?V sl f" and i: "idle (df_range_mutex f)" using F by (auto simp: dev_file_ok_def)
  then have A: "layout (abs_env env) sl (abs_f f) ?V" by (simp add: dev_layout_def)
  note D = layoutD[OF A, unfolded abs_file_simps]
  let ?e = "off + uint sz" let ?e' = "off + len"
  have p: "0 < uint sz" using r(3) by (simp add: word_less_def)
  have e: "to_off (to_size off + sz) = ?e" by (rule end_of_range[OF r(1,4)])
  have "off < ?e" "off_ok off" "off_ok ?e" using p r D(7,8) by (auto simp: off_ok_def)
  from idle_lock[OF i this, of Reader] obtain t1 rl ns rl' t2 where
    lk: "lock_range (df_range_mutex f) off ?e Reader = Some (t1, Inr rl)" "unlock_range t1 rl = Some (ns, rl', t2)" "destroy_range_lock t2 rl' = Some t2" "idle t2" by blast
  let ?f = "f\<lparr>df_initialized := True, df_range_mutex := t1\<rparr>"
  have L': "dev_layout env ?V sl ?f" using L by simp
  have e': "(if df_used_offset f < ?e then df_used_offset f else ?e) = ?e'" "off < ?e'" "?e' \<le> df_used_offset f" using len p r(2) by auto
  from dev_range_regions[OF M L' r(1) e'(2)] e'(3) obtain cs where
    ld: "dev_lookup_helper env ?f p off ?e' False [] = Some (cs, ?f, p)" and ne: "cs \<noteq> []"
    and c: "concat (map (region_bytes (mc_mem s)) cs) = extent (nat off) (nat len) (dev_content ?V sl ?f)" "\<forall>r \<in> set cs. readable (mc_mem s) r" "(\<Sum>r\<leftarrow>cs. unat (r_size r)) = nat len"
    by auto
  have ld: "dev_lookup_data env ?f p off ?e [] = Some (cs, ?f, p)" using ld D(4) r(1) p e'(1) unfolding dev_lookup_data_def by (auto simp: Let_def split: if_splits)
  have ts: "unat (total_size cs) = nat len" using sum_words[of cs] c(3) e'(3) D(7,8) r(1) by simp
  have tz: "total_size cs = to_size len" using ts e'(2,3) D(7,8) r(1) to_size_nat[of len] by (simp add: word_unat_eq_iff)
  let ?b = "\<lparr>blk_len = nat len, blk_byte = (\<lambda>_. 0)\<rparr>" let ?m = "(mc_mem s)(a \<mapsto> ?b)"
  have aw: "\<forall>r \<in> set cs. readable ?m r \<and> away a r" using c(2) al(2) readable_away[of "mc_mem s" _ a] by (auto simp: away_bytes)
  then have mp: "map (region_bytes ?m) cs = map (region_bytes (mc_mem s)) cs" by (auto simp: away_bytes)
  have cp: "copy_regions ?m a 0 cs = Some (nat len, ?m(a \<mapsto> blk_write ?b 0 (concat (map (region_bytes (mc_mem s)) cs))))"
    using copy_regions_run[OF aw, of ?b 0] c(3) mp by simp
  let ?X = "extent (nat off) (nat len) (dev_content ?V sl ?f)"
  have "length ?X = nat len" using tiles_content[where h = ?h, OF D(1,2)] e'(3) D(7) r(1) by (simp add: extent_def dev_content_def file_content_def)
  then have rd: "mem_read (?m(a \<mapsto> blk_write ?b 0 (concat (map (region_bytes (mc_mem s)) cs)))) (a, 0) (nat len) = Some ?X"
    unfolding c(1) using blk_write_read[of ?b 0 ?X] by (simp add: mem_read_def)
  have fc: "dev_content ?V sl ?f = dev_content ?V sl f" by (simp add: dev_content_def file_content_def)
  have "dev_get_data env f p s off sz v = Some (Inr (0, v\<lparr>bv_buf := b0\<lparr>fb_is_fd := False, fb_fd_seek := True, fb_fd_retry := True, fb_mem := Some (a, 0), fb_size := nat len\<rparr> # bs\<rparr>,
      f\<lparr>df_initialized := True, df_range_mutex := t2\<rparr>, s\<lparr>mc_mem := ?m(a \<mapsto> blk_write ?b 0 (concat (map (region_bytes (mc_mem s)) cs)))\<rparr>))"
    using e p lk ld ne al(1) ts cp v unfolding dev_get_data_def dev_lock_range_def dev_unlock_range_def by (simp add: tz set_buf0_def)
  then show ?thesis using lk(4) rd fc by auto
qed

lemma dev_allocate_run:
  assumes M: "dev_mem env p live m" and F: "dev_file_ok env (view_of env p live m) sl f" and u: "units_4k p" and g: "good_dev env"
    and r: "0 \<le> off" "off \<le> df_alloc_offset f" "0 < sz" "off + uint sz < 2 ^ 43" and room: "dev_room f p (off + uint sz)"
  shows "\<exists>sl' f' p' live'. dev_file_allocate env f p off sz = Some (0, f', p') \<and> dev_fetched env sl (f\<lparr>df_initialized := True\<rparr>) p live m (off + uint sz) sl' (f'\<lparr>df_used_offset := df_used_offset f, df_attributes := df_attributes f\<rparr>) p' live' \<and>
    dev_file_ok env (view_of env p' live' m) sl' f' \<and> df_used_offset f' = max (df_used_offset f) (off + uint sz)"
proof -
  let ?fi = "f\<lparr>df_initialized := True\<rparr>" and ?e = "off + uint sz"
  have L: "dev_layout env (view_of env p live m) sl ?fi" and i: "idle (df_range_mutex f)" and st: "st_size (df_attributes f) = df_used_offset f" using F by (auto simp: dev_file_ok_def)
  have pz: "0 < uint sz" using r(3) by (simp add: word_less_def)
  from dev_fetch_run[OF M L u _ r(1) _ pz r(4)] r(2) g room obtain sl' f1 p' live' where
    x: "dev_fetch_storage env ?fi p off sz = Some (map (conc env p) (seg_regions (abs_heap (df_seg f1)) sl' 0 off ?e), f1, p')" "dev_fetched env sl ?fi p live m ?e sl' f1 p' live'"
    by (auto simp: good_dev_def dev_room_def)
  let ?V = "view_of env p' live' m"
  from x(2) have f1: "dev_layout env ?V sl' f1" "?e \<le> df_alloc_offset f1" "df_used_offset f1 = df_used_offset f" "df_attributes f1 = df_attributes f" "df_range_mutex f1 = df_range_mutex f"
    unfolding dev_fetched_def by auto
  have A: "layout (abs_env env) sl' (abs_f f1) ?V" "solid (abs_env env) all_addrs ?V (abs_heap (df_seg f1)) sl'" using f1(1) by (auto simp: dev_layout_def)
  note D = layoutD[OF A(1), unfolded abs_file_simps]
  let ?u = "max (df_used_offset f) ?e"
  from dev_update_run[of f1 ?e] st f1(3,4) r pz obtain a where
    a: "dev_update_size f1 (to_size ?e) = f1\<lparr>df_used_offset := ?u, df_attributes := a\<rparr>" "st_size a = ?u" by auto
  let ?a = "a\<lparr>st_ctime := de_time env\<rparr>" let ?g = "f1\<lparr>df_range_mutex := df_range_mutex f, df_used_offset := ?u, df_attributes := ?a\<rparr>"
  have g: "f1\<lparr>df_used_offset := ?u, df_attributes := ?a\<rparr> = ?g" using f1(5) by simp
  have "to_size off + sz = to_size ?e" by (rule to_size_add)
  then have run: "dev_file_allocate env f p off sz = Some (0, ?g, p')" using x(1) a(1) g unfolding dev_file_allocate_def by (simp add: Let_def)
  have "dev_layout env ?V sl' ?g" by (rule dev_layout_used[OF f1(1) A(2)]) (use r(1) pz f1(2,3) D(7) in auto)
  then have ok: "dev_file_ok env ?V sl' ?g" using i a(2) by (simp add: dev_file_ok_def)
  have "?g\<lparr>df_used_offset := df_used_offset f, df_attributes := df_attributes f\<rparr> = f1" using f1(3-5) by (cases f1) simp
  then show ?thesis using run x(2) ok by (intro exI[of _ sl'] exI[of _ ?g] exI[of _ p'] exI[of _ live']) simp
qed

end
