(* ===== verification/Op_Store.thy ===== *)
theory Op_Store
  imports Nvml_Props
begin

text \<open>
  Sequences of operations against an abstract specification.  A store keeps contents of type
  \<open>'c\<close>; \<open>spec\<close> says what an operation does to them, \<open>ok\<close> when it may be called and \<open>fits\<close> when
  the store has room for it.  Buffers that are written come from blocks of memory outside of
  \<open>own\<close>, the blocks of the store.
\<close>

fun ops_ok :: "(memory \<Rightarrow> 'o \<Rightarrow> 'c \<Rightarrow> 'c) \<Rightarrow> (memory \<Rightarrow> addr set \<Rightarrow> 'c \<Rightarrow> 'o \<Rightarrow> bool) \<Rightarrow> memory \<Rightarrow> addr set \<Rightarrow> 'c \<Rightarrow> 'o list \<Rightarrow> bool" where
  "ops_ok spec ok m A c [] \<longleftrightarrow> True"
| "ops_ok spec ok m A c (op # ops) \<longleftrightarrow> ok m A c op \<and> ops_ok spec ok m A (spec m op c) ops"

definition ops_spec :: "(memory \<Rightarrow> 'o \<Rightarrow> 'c \<Rightarrow> 'c) \<Rightarrow> memory \<Rightarrow> 'o list \<Rightarrow> 'c \<Rightarrow> 'c" where
  "ops_spec spec m ops c = fold (spec m) ops c"

fun run_ops :: "('s \<Rightarrow> 'o \<Rightarrow> 's option) \<Rightarrow> 's \<Rightarrow> 'o list \<Rightarrow> 's option" where
  "run_ops ex s [] = Some s"
| "run_ops ex s (op # ops) = (case ex s op of None \<Rightarrow> None | Some s \<Rightarrow> run_ops ex s ops)"

fun run_fits :: "('s \<Rightarrow> 'o \<Rightarrow> 's option) \<Rightarrow> ('s \<Rightarrow> 'o \<Rightarrow> bool) \<Rightarrow> 's \<Rightarrow> 'o list \<Rightarrow> bool" where
  "run_fits ex fits s [] \<longleftrightarrow> True"
| "run_fits ex fits s (op # ops) \<longleftrightarrow> fits s op \<and> (case ex s op of None \<Rightarrow> True | Some s \<Rightarrow> run_fits ex fits s ops)"

locale op_store =
  fixes spec :: "memory \<Rightarrow> 'o \<Rightarrow> 'c \<Rightarrow> 'c"
    and ok :: "memory \<Rightarrow> addr set \<Rightarrow> 'c \<Rightarrow> 'o \<Rightarrow> bool"
    and ex :: "'s \<Rightarrow> 'o \<Rightarrow> 's option"
    and bufs :: "'s \<Rightarrow> memory"
    and own :: "addr set"
    and fits :: "'s \<Rightarrow> 'o \<Rightarrow> bool"
    and holds :: "'s \<Rightarrow> 'c \<Rightarrow> bool"
  assumes foreign: "(\<And>z. z \<notin> own \<Longrightarrow> m' z = m z) \<Longrightarrow> ok m own c op \<Longrightarrow> ok m' own c op \<and> spec m' op c = spec m op c"
    and executes: "holds s c \<Longrightarrow> ok (bufs s) own c op \<Longrightarrow> fits s op \<Longrightarrow>
      \<exists>s'. ex s op = Some s' \<and> holds s' (spec (bufs s) op c) \<and> (\<forall>z. z \<notin> own \<longrightarrow> bufs s' z = bufs s z)"
begin

lemma foreign_all:
  assumes "\<And>z. z \<notin> own \<Longrightarrow> m' z = m z"
  shows "ops_ok spec ok m own c ops \<Longrightarrow> ops_ok spec ok m' own c ops \<and> ops_spec spec m' ops c = ops_spec spec m ops c"
proof (induction ops arbitrary: c)
  case (Cons op ops)
  then have "ok m' own c op \<and> spec m' op c = spec m op c" using foreign[of m' m c op] assms by simp
  then show ?case using Cons by (simp add: ops_spec_def)
qed (simp add: ops_spec_def)

lemma runs_ops:
  "holds s c \<Longrightarrow> ops_ok spec ok (bufs s) own c ops \<Longrightarrow> run_fits ex fits s ops \<Longrightarrow>
   \<exists>s'. run_ops ex s ops = Some s' \<and> holds s' (ops_spec spec (bufs s) ops c) \<and> (\<forall>z. z \<notin> own \<longrightarrow> bufs s' z = bufs s z)"
proof (induction ops arbitrary: s c)
  case (Cons op ops)
  then obtain s' where s': "ex s op = Some s'" "holds s' (spec (bufs s) op c)" "\<forall>z. z \<notin> own \<longrightarrow> bufs s' z = bufs s z" using executes[of s c op] by auto
  have ok: "ops_ok spec ok (bufs s') own (spec (bufs s) op c) ops" "ops_spec spec (bufs s') ops (spec (bufs s) op c) = ops_spec spec (bufs s) ops (spec (bufs s) op c)"
    using foreign_all[of "bufs s'" "bufs s" "spec (bufs s) op c" ops] s'(3) Cons.prems(2) by auto
  from Cons.IH[OF s'(2) ok(1)] Cons.prems(3) s'(1) obtain s2 where
    "run_ops ex s' ops = Some s2" "holds s2 (ops_spec spec (bufs s') ops (spec (bufs s) op c))" "\<forall>z. z \<notin> own \<longrightarrow> bufs s2 z = bufs s' z" by auto
  then show ?case using s'(1,3) ok(2) by (auto simp: ops_spec_def)
qed (auto simp: ops_spec_def)

end

end
