(* ===== verification/Devdax_Store.thy ===== *)
theory Devdax_Store
  imports Devdax_Files Op_Store
begin

text \<open>
  The files of the device together: creating, writing and deleting files, with one allocator
  for all of them.
\<close>

section \<open>Deleting a file\<close>

lemma taken_distinct:
  assumes "taken p live" "0 < bp_size_of_segment p"
  shows "distinct (map fst live)"
proof -
  have "sorted_wrt (\<lambda>u v. fst u \<noteq> fst v) live"
  proof (rule sorted_wrt_mono_rel)
    show "sorted_wrt separate live" by (rule taken_apart[OF assms])
    show "fst u \<noteq> fst v" if "u \<in> set live" "v \<in> set live" "separate u v" for u v
      using that assms by (auto simp: taken_def whole_def separate_def)
  qed
  then show ?thesis by (induction live) auto
qed

lemma map_of_drop_one:
  assumes "distinct (map fst live)" "i < length live" "live ! i = (x, n)"
  shows "map_of (take i live @ drop (Suc i) live) = (map_of live)(x := None)"
proof -
  have l: "live = take i live @ (x, n) # drop (Suc i) live" using assms(2,3) by (metis id_take_nth_drop)
  have "distinct (map fst (take i live @ (x, n) # drop (Suc i) live))" using assms(1) l by metis
  then have "x \<notin> fst ` set (take i live @ drop (Suc i) live)" by auto
  then have "map_of (take i live @ drop (Suc i) live) x = None" by (simp add: map_of_eq_None_iff del: set_append map_of_append)
  moreover have "map_of live y = map_of (take i live @ drop (Suc i) live) y" if "y \<noteq> x" for y
    using that by (subst l) (simp add: map_add_def fun_upd_other split: option.splits)
  ultimately show ?thesis by (auto simp: fun_eq_iff)
qed

lemma dev_destroy_run:
  assumes "taken p live" "pool_dim p" "\<forall>a \<in> set sl. \<exists>seg. h a = Some seg \<and> dev_data seg \<noteq> 0 \<and> map_of live (dev_data seg) = Some (dp_length (ds_pool seg))"
    "distinct (datas (abs_heap h) sl)"
  shows "\<exists>p' live'. dev_destroy_segments h sl p = Some p' \<and> same_dims p p' \<and> pool_dim p' \<and> taken p' live' \<and>
    (\<forall>x. x \<notin> set (datas (abs_heap h) sl) \<longrightarrow> map_of live' x = map_of live x)"
  using assms
proof (induction sl arbitrary: p live)
  case Nil
  then show ?case by (auto simp: same_dims_def)
next
  case (Cons a sl)
  obtain seg where seg: "h a = Some seg" "dev_data seg \<noteq> 0" "map_of live (dev_data seg) = Some (dp_length (ds_pool seg))" using Cons.prems(3) by auto
  let ?x = "dev_data seg" and ?n = "dp_length (ds_pool seg)"
  have ds: "datas (abs_heap h) (a # sl) = ?x # datas (abs_heap h) sl" using seg by (subst datas_Cons[of _ _ "abs_seg seg"]) auto
  obtain i where i: "i < length live" "live ! i = (?x, ?n)" using map_of_SomeD[OF seg(3)] by (auto simp: in_set_conv_nth)
  let ?p = "p\<lparr>bp_bitset := (\<lambda>k. bp_bitset p k \<and> k \<notin> units_of p (?x, ?n))\<rparr>" and ?live = "take i live @ drop (Suc i) live"
  have w: "whole p (?x, ?n)" using Cons.prems(1) map_of_SomeD[OF seg(3)] by (simp add: taken_def)
  have S: "same_dims p ?p" "pool_dim ?p" using Cons.prems(2) by (simp_all add: same_dims_def pool_dim_def)
  have t: "taken ?p ?live" by (rule taken_remove[OF Cons.prems(1) i(1) S(1)]) (simp add: i(2))
  have d: "dev_segment_destroy seg p = Some ?p" using deallocate_run[OF Cons.prems(2) w] seg(2) by (simp add: dev_segment_destroy_def dev_destroy_def dev_data_def)
  have "0 < bp_size_of_segment p" using Cons.prems(2) by (simp add: pool_dim_def)
  then have mo: "map_of ?live = (map_of live)(?x := None)" using map_of_drop_one[OF taken_distinct[OF Cons.prems(1)] i] by simp
  have dd: "?x \<notin> set (datas (abs_heap h) sl)" "distinct (datas (abs_heap h) sl)" using Cons.prems(4) ds by (simp_all del: abs_heap_app)
  have "\<forall>b \<in> set sl. \<exists>seg. h b = Some seg \<and> dev_data seg \<noteq> 0 \<and> map_of ?live (dev_data seg) = Some (dp_length (ds_pool seg))"
  proof
    fix b
    assume b: "b \<in> set sl"
    then obtain sg where sg: "h b = Some sg" "dev_data sg \<noteq> 0" "map_of live (dev_data sg) = Some (dp_length (ds_pool sg))" using Cons.prems(3) by auto
    then have "dev_data sg \<in> set (datas (abs_heap h) sl)" using datas_in[OF b, of "abs_heap h" "abs_seg sg"] by simp
    then show "\<exists>seg. h b = Some seg \<and> dev_data seg \<noteq> 0 \<and> map_of ?live (dev_data seg) = Some (dp_length (ds_pool seg))" using sg mo dd(1) by auto
  qed
  from Cons.IH[OF t S(2) this dd(2)] obtain p' live' where
    p': "dev_destroy_segments h sl ?p = Some p'" "same_dims ?p p'" "pool_dim p'" "taken p' live'" "\<forall>x. x \<notin> set (datas (abs_heap h) sl) \<longrightarrow> map_of live' x = map_of ?live x" by blast
  have "same_dims p p'" using p'(2) by (simp add: same_dims_def)
  moreover have "dev_destroy_segments h (a # sl) p = Some p'" using seg(1) d p'(1) by simp
  ultimately show ?case using p'(3-5) mo ds by (intro exI[of _ p'] exI[of _ live']) (auto simp del: abs_heap_app)
qed

lemma leaves_segments: "List.map_filter snd (leaves_of h sl al) = sl"
  by (simp add: leaves_of_def map_filter_def comp_def)

lemma tiles_dom:
  assumes "tiles h lo sl hi" "0 \<le> lo" "a \<in> set sl"
  shows "\<exists>seg. h a = Some seg \<and> 0 < uint (s_size seg) \<and> uint (s_size seg) < 2 ^ 62"
  using assms
proof (induction sl arbitrary: lo)
  case (Cons b sl)
  then obtain seg where seg: "h b = Some seg" "0 < uint (s_size seg)" "lo + uint (s_size seg) < 2 ^ 62" "tiles h (lo + uint (s_size seg)) sl hi" by auto
  then show ?case using Cons.IH[OF seg(4)] Cons.prems(2,3) by auto
qed simp

lemma dev_segment_live:
  assumes M: "dev_mem env p live m" and L: "dev_layout env (view_of env p live m) sl f" and a: "a \<in> set sl"
  shows "\<exists>seg. df_seg f a = Some seg \<and> dev_data seg \<noteq> 0 \<and> map_of live (dev_data seg) = Some (dp_length (ds_pool seg)) \<and> dev_data seg \<in> set (dev_datas sl f) \<and>
    0 < to_off (if ds_bytes seg \<noteq> 0 then ds_bytes seg else ds_size seg)"
proof -
  let ?V = "view_of env p live m"
  have A: "layout (abs_env env) sl (abs_f f) ?V" "solid (abs_env env) all_addrs ?V (abs_heap (df_seg f)) sl"
    "\<forall>a seg. df_seg f a = Some seg \<longrightarrow> \<not> ds_is_gap seg \<and> dp_length (ds_pool seg) = unat (ds_size seg) \<and> uint (ds_bytes seg) < 2 ^ 62" using L by (auto simp: dev_layout_def)
  note D = layoutD[OF A(1), unfolded abs_file_simps]
  obtain seg where seg: "df_seg f a = Some seg" "0 < uint (ds_size seg)" "uint (ds_size seg) < 2 ^ 62" using tiles_dom[OF D(1) _ a] by auto
  then have "stored (abs_env env) all_addrs ?V (abs_seg seg)" using A(2) a by (auto simp: solid_def)
  then obtain b where b: "dev_data seg \<noteq> 0" "?V (dev_data seg) = Some b" "blk_len b = unat (ds_size seg)" using A(3) seg by (auto simp: stored_def split: if_splits)
  from view_block[OF M b(2)] have m: "map_of live (dev_data seg) = Some (blk_len b)" by metis
  have "dev_data seg \<in> set (dev_datas sl f)" using datas_in[OF a, of "abs_heap (df_seg f)" "abs_seg seg"] seg(1) b(1) by simp
  moreover have "0 < to_off (if ds_bytes seg \<noteq> 0 then ds_bytes seg else ds_size seg)"
  proof -
    have "0 < uint (ds_bytes seg)" if "ds_bytes seg \<noteq> 0" using that uint_lt_0[of "ds_bytes seg"] by (metis linorder_neqE_linordered_idom uint_0_iff)
    then show ?thesis using A(3) seg to_off_tile[of "ds_bytes seg"] to_off_tile[of "ds_size seg"] by auto
  qed
  ultimately show ?thesis using seg(1) b m A(3) by auto
qed

lemma dev_delete_run:
  assumes M: "dev_mem env p live m" and L: "dev_layout env (view_of env p live m) sl f"
  shows "\<exists>p' live'. dev_file_destroy f p = Some p' \<and> same_dims p p' \<and> dev_mem env p' live' m \<and>
    (\<forall>x. x \<notin> set (dev_datas sl f) \<longrightarrow> map_of live' x = map_of live x)"
proof -
  let ?V = "view_of env p live m"
  have A: "layout (abs_env env) sl (abs_f f) ?V" using L by (auto simp: dev_layout_def)
  note D = layoutD[OF A, unfolded abs_file_simps]
  have st: "\<forall>a \<in> set sl. \<exists>seg. df_seg f a = Some seg \<and> dev_data seg \<noteq> 0 \<and> map_of live (dev_data seg) = Some (dp_length (ds_pool seg))"
    using dev_segment_live[OF M L] by blast
  have P: "taken p live" "pool_dim p" using M by (auto simp: dev_mem_def)
  from dev_destroy_run[OF P st D(12)] obtain p' live' where
    p': "dev_destroy_segments (df_seg f) sl p = Some p'" "same_dims p p'" "pool_dim p'" "taken p' live'" "\<forall>x. x \<notin> set (dev_datas sl f) \<longrightarrow> map_of live' x = map_of live x" by blast
  have "dev_file_destroy f p = Some p'" using p'(1) D(3,10) by (simp add: dev_file_destroy_def leaves_segments distinct_remdups_id)
  moreover have "dev_mem env p' live' m" using M p'(2-4) by (simp add: dev_mem_def same_dims_def)
  ultimately show ?thesis using p'(2,5) by blast
qed

section \<open>All files\<close>

text \<open>The device holds the files \<open>F\<close> with the contents \<open>C\<close>: every file is laid out on regions of its own.\<close>

definition dev_holds :: "'w dev_env \<Rightarrow> (nat \<rightharpoonup> dev_file) \<Rightarrow> big_pool \<Rightarrow> memory \<Rightarrow> (nat \<rightharpoonup> byte list) \<Rightarrow> bool" where
  "dev_holds env F p m C \<longleftrightarrow> units_4k p \<and> dom F = dom C \<and> (\<exists>live T. dev_mem env p live m \<and>
     (\<forall>i f. F i = Some f \<longrightarrow> dev_file_ok env (view_of env p live m) (T i) f \<and> C i = Some (dev_content (view_of env p live m) (T i) f)) \<and>
     (\<forall>i j f g. F i = Some f \<longrightarrow> F j = Some g \<longrightarrow> i \<noteq> j \<longrightarrow> set (dev_datas (T i) f) \<inter> set (dev_datas (T j) g) = {}))"

lemma units_dims: "units_4k p \<Longrightarrow> same_dims p p' \<Longrightarrow> units_4k p'"
  by (simp add: units_4k_def same_dims_def)

text \<open>An operation that changes one file, and no region of another.\<close>

lemma dev_holds_update:
  assumes H: "units_4k p" "dom F = dom C" "\<forall>j g. F j = Some g \<longrightarrow> dev_file_ok env V (T j) g \<and> C j = Some (dev_content V (T j) g)"
      "\<forall>j k g h. F j = Some g \<longrightarrow> F k = Some h \<longrightarrow> j \<noteq> k \<longrightarrow> set (dev_datas (T j) g) \<inter> set (dev_datas (T k) h) = {}"
    and M: "dev_mem env p' live' m'" "same_dims p p'"
    and F: "case f' of None \<Rightarrow> c = None | Some f' \<Rightarrow> dev_file_ok env (view_of env p' live' m') sl' f' \<and> c = Some (dev_content (view_of env p' live' m') sl' f')"
    and o: "\<And>j g x. F j = Some g \<Longrightarrow> j \<noteq> i \<Longrightarrow> x \<in> set (dev_datas (T j) g) \<Longrightarrow> view_of env p' live' m' x = V x \<and> (\<forall>f. f' = Some f \<longrightarrow> x \<notin> set (dev_datas sl' f))"
  shows "dev_holds env (F(i := f')) p' m' (C(i := c))"
  unfolding dev_holds_def
proof (intro conjI exI[of _ live'] exI[of _ "T(i := sl')"] allI impI)
  let ?V = "view_of env p' live' m'"
  show "units_4k p'" by (rule units_dims[OF H(1) M(2)])
  show "dom (F(i := f')) = dom (C(i := c))" using H(2) F by (auto split: option.splits)
  show "dev_mem env p' live' m'" by (rule M(1))
  fix j g
  assume g: "(F(i := f')) j = Some g"
  have A: "dev_file_ok env ?V (T j) g" "dev_content ?V (T j) g = dev_content V (T j) g" if "j \<noteq> i"
    using dev_file_agree[of env V "T j" g ?V] H(3) o[of j g] g that by auto
  show "dev_file_ok env ?V ((T(i := sl')) j) g" "(C(i := c)) j = Some (dev_content ?V ((T(i := sl')) j) g)"
    using A g F H(3) by (auto split: if_splits)
next
  fix j k g h
  assume "(F(i := f')) j = Some g" "(F(i := f')) k = Some h" "j \<noteq> k"
  then show "set (dev_datas ((T(i := sl')) j) g) \<inter> set (dev_datas ((T(i := sl')) k) h) = {}"
    using H(4) o by (cases "j = i"; cases "k = i") (auto; blast)+
qed

section \<open>A store of files\<close>

text \<open>The specification: files are sequences of bytes under numbers.\<close>

datatype file_op = File_Create nat | File_Write nat off_t fuse_bufvec | File_Delete nat

fun op_spec :: "memory \<Rightarrow> file_op \<Rightarrow> (nat \<rightharpoonup> byte list) \<Rightarrow> (nat \<rightharpoonup> byte list)" where
  "op_spec m (File_Create i) C = C(i \<mapsto> [])"
| "op_spec m (File_Write i off v) C = C(i := map_option (pwrite (nat off) (src_bytes m v)) (C i))"
| "op_spec m (File_Delete i) C = C(i := None)"

text \<open>What may be written to a file: something, from memory, at or before its end.\<close>

definition write_ok :: "memory \<Rightarrow> addr set \<Rightarrow> byte list option \<Rightarrow> off_t \<Rightarrow> fuse_bufvec \<Rightarrow> bool" where
  "write_ok m A c off v \<longleftrightarrow> (case c of None \<Rightarrow> False | Some c \<Rightarrow> 0 \<le> off \<and> off \<le> int (length c) \<and> src_bytes m v \<noteq> [] \<and>
     off + int (length (src_bytes m v)) < 2 ^ 43 \<and> mem_vec m A v)"

fun op_ok :: "memory \<Rightarrow> addr set \<Rightarrow> (nat \<rightharpoonup> byte list) \<Rightarrow> file_op \<Rightarrow> bool" where
  "op_ok m A C (File_Create i) \<longleftrightarrow> C i = None"
| "op_ok m A C (File_Write i off v) \<longleftrightarrow> write_ok m A (C i) off v"
| "op_ok m A C (File_Delete i) \<longleftrightarrow> C i \<noteq> None"

lemma write_foreign:
  assumes "\<And>z. z \<notin> A \<Longrightarrow> m' z = m z" "write_ok m A c off v"
  shows "write_ok m' A c off v \<and> src_bytes m' v = src_bytes m v"
proof -
  have v: "mem_vec m A v" using assms(2) by (auto simp: write_ok_def split: option.splits)
  show ?thesis using assms(2) mem_vec_cong[OF v assms(1)] by (auto simp: write_ok_def split: option.splits)
qed

lemma op_foreign:
  assumes "\<And>z. z \<notin> A \<Longrightarrow> m' z = m z"
  shows "op_ok m A C op \<Longrightarrow> op_ok m' A C op \<and> op_spec m' op C = op_spec m op C"
  using write_foreign[of A m' m] assms by (cases op) auto

section \<open>The device implements it\<close>

type_synonym 'w dev_state = "(nat \<rightharpoonup> dev_file) \<times> big_pool \<times> 'w machine"

fun dev_exec :: "'w dev_env \<Rightarrow> 'w dev_state \<Rightarrow> file_op \<Rightarrow> 'w dev_state option" where
  "dev_exec env (F, p, s) (File_Create i) = Some (F(i \<mapsto> new_dev_file temporary), p, s)"
| "dev_exec env (F, p, s) (File_Write i off v) = do {
     f \<leftarrow> F i;
     r \<leftarrow> dev_put_data env f p s off (of_nat (length (src_bytes (mc_mem s) v))) v;
     case r of Inl _ \<Rightarrow> None | Inr (n, v, f, p, s) \<Rightarrow> Some (F(i \<mapsto> f), p, s) }"
| "dev_exec env (F, p, s) (File_Delete i) = do { f \<leftarrow> F i; p \<leftarrow> dev_file_destroy f p; Some (F(i := None), p, s) }"

fun dev_fits :: "'w dev_state \<Rightarrow> file_op \<Rightarrow> bool" where
  "dev_fits (F, p, s) (File_Write i off v) \<longleftrightarrow> (case F i of None \<Rightarrow> True | Some f \<Rightarrow> dev_room f p (off + int (length (src_bytes (mc_mem s) v))))"
| "dev_fits (F, p, s) op \<longleftrightarrow> True"

definition dev_store :: "'w dev_env \<Rightarrow> 'w dev_state \<Rightarrow> (nat \<rightharpoonup> byte list) \<Rightarrow> bool" where
  "dev_store env st C \<longleftrightarrow> (case st of (F, p, s) \<Rightarrow> dev_holds env F p (mc_mem s) C)"

lemma dev_executes:
  assumes g: "good_dev env" and H: "dev_holds env F p (mc_mem s) C" and ok: "op_ok (mc_mem s) {de_block env} C op" and fit: "dev_fits (F, p, s) op"
  shows "\<exists>F' p' s'. dev_exec env (F, p, s) op = Some (F', p', s') \<and> dev_holds env F' p' (mc_mem s') (op_spec (mc_mem s) op C) \<and> (\<forall>z. z \<noteq> de_block env \<longrightarrow> mc_mem s' z = mc_mem s z)"
proof -
  let ?m = "mc_mem s"
  from H obtain live T where H': "units_4k p" "dom F = dom C" "dev_mem env p live ?m"
    "\<forall>i f. F i = Some f \<longrightarrow> dev_file_ok env (view_of env p live ?m) (T i) f \<and> C i = Some (dev_content (view_of env p live ?m) (T i) f)"
    "\<forall>i j f g. F i = Some f \<longrightarrow> F j = Some g \<longrightarrow> i \<noteq> j \<longrightarrow> set (dev_datas (T i) f) \<inter> set (dev_datas (T j) g) = {}" unfolding dev_holds_def by auto
  let ?V = "view_of env p live ?m"
  have same: "same_dims p p" by (simp add: same_dims_def)
  have mapped: "map_of live x \<noteq> None" if "F j = Some g" "x \<in> set (dev_datas (T j) g)" for j g x
    using solid_view[of "abs_env env" all_addrs "de_block env" "bp_address p" live ?m _ "T j" x] H'(4) that unfolding dev_file_ok_def dev_layout_def by blast
  show ?thesis
  proof (cases op)
    case (File_Create i)
    then have fr: "C i = None" using ok by simp
    have "dev_holds env (F(i := Some (new_dev_file temporary))) p ?m (C(i := Some []))"
      by (rule dev_holds_update[OF H'(1,2,4,5,3) same, where sl' = "[]"]) (auto simp: dev_new_file datas_def)
    then show ?thesis using File_Create by auto
  next
    case (File_Write i off v)
    with ok obtain c where c: "C i = Some c" "0 \<le> off" "off \<le> int (length c)" "src_bytes ?m v \<noteq> []" "off + int (length (src_bytes ?m v)) < 2 ^ 43" "mem_vec ?m {de_block env} v"
      by (auto simp: write_ok_def split: option.splits)
    obtain f where f: "F i = Some f" using c(1) H'(2) by (metis domD domI)
    have fo: "dev_file_ok env ?V (T i) f" "c = dev_content ?V (T i) f" using H'(4) f c(1) by auto
    have A: "layout (abs_env env) (T i) (abs_f f) ?V" using fo(1) by (simp add: dev_file_ok_def dev_layout_def)
    let ?sz = "of_nat (length (src_bytes ?m v)) :: size_t"
    have u: "unat ?sz = length (src_bytes ?m v)" using c(2,5) by (simp add: unsigned_of_nat take_bit_nat_eq_self_iff)
    then have ui: "uint ?sz = int (length (src_bytes ?m v))" by (metis size_nat)
    have "off \<le> df_used_offset f" using c(3) file_content_length[OF A] layoutD(6)[OF A] fo(2) by (simp add: dev_content_def)
    moreover have "0 < ?sz" using u c(4) by (simp add: word_gt_0 word_unat_eq_iff)
    moreover have "dev_room f p (off + uint ?sz)" using fit f ui File_Write by simp
    ultimately obtain v' sl' f' p' live' s' where r:
      "dev_put_data env f p s off ?sz v = Some (Inr (uint ?sz, v', f', p', s'))" "dev_mem env p' live' (mc_mem s')" "same_dims p p'"
      "dev_file_ok env (view_of env p' live' (mc_mem s')) sl' f'" "dev_content (view_of env p' live' (mc_mem s')) sl' f' = pwrite (nat off) (src_bytes ?m v) c"
      "\<forall>x. map_of live x \<noteq> None \<and> x \<notin> set (dev_datas (T i) f) \<longrightarrow> view_of env p' live' (mc_mem s') x = ?V x \<and> x \<notin> set (dev_datas sl' f')"
      "\<forall>z. z \<noteq> de_block env \<longrightarrow> mc_mem s' z = ?m z"
      using dev_put_run[OF H'(3) fo(1) H'(1) g c(2), of ?sz v] c(5,6) u ui fo(2) by auto
    have "dev_holds env (F(i := Some f')) p' (mc_mem s') (C(i := Some (pwrite (nat off) (src_bytes ?m v) c)))"
    proof (rule dev_holds_update[OF H'(1,2,4,5) r(2,3), where sl' = sl'])
      fix j g x
      assume j: "F j = Some g" "j \<noteq> i" "x \<in> set (dev_datas (T j) g)"
      then have "x \<notin> set (dev_datas (T i) f)" using H'(5) f by blast
      then show "view_of env p' live' (mc_mem s') x = ?V x \<and> (\<forall>h. Some f' = Some h \<longrightarrow> x \<notin> set (dev_datas sl' h))" using r(6) mapped[OF j(1,3)] by blast
    qed (use r(4,5) in simp)
    then show ?thesis using r(1,7) f c(1) File_Write by auto
  next
    case (File_Delete i)
    then obtain f where f: "F i = Some f" using ok H'(2) by (metis domD domIff op_ok.simps(3))
    have "dev_layout env ?V (T i) f" using H'(4) f by (auto simp: dev_file_ok_def)
    from dev_delete_run[OF H'(3) this] obtain p' live' where
      d: "dev_file_destroy f p = Some p'" "same_dims p p'" "dev_mem env p' live' ?m" "\<forall>x. x \<notin> set (dev_datas (T i) f) \<longrightarrow> map_of live' x = map_of live x" by blast
    have "dev_holds env (F(i := None)) p' ?m (C(i := None))"
    proof (rule dev_holds_update[OF H'(1,2,4,5) d(3,2)])
      fix j g x
      assume j: "F j = Some g" "j \<noteq> i" "x \<in> set (dev_datas (T j) g)"
      then have "x \<notin> set (dev_datas (T i) f)" using H'(5) f by blast
      then show "view_of env p' live' ?m x = ?V x \<and> (\<forall>h. None = Some h \<longrightarrow> x \<notin> set (dev_datas undefined h))" using d(2,4) by (simp add: dev_view_def same_dims_def)
    qed simp
    then show ?thesis using d(1) f File_Delete by auto
  qed
qed

interpretation device: op_store op_spec op_ok "dev_exec env" "\<lambda>(F, p, s). mc_mem s" "{de_block env}" dev_fits "\<lambda>st C. good_dev env \<and> dev_store env st C" for env :: "'w dev_env"
proof (unfold_locales, goal_cases)
  case (1 m' m c op)
  then show ?case using op_foreign[of "{de_block env}" m' m c op] by blast
next
  case (2 st C op)
  obtain F p s where st: "st = (F, p, s)" by (cases st)
  then show ?case using 2 dev_executes[of env F p s C op] unfolding st dev_store_def by auto
qed

end
