(* ===== verification/Devdax_Names.thy ===== *)
theory Devdax_Names
  imports Devdax_Backend Devdax_Store Nvml_Names_Props
begin

text \<open>
  The name space of the device: every operation does to the names what the one of the NVML back
  end does, and the objects behind the names are files of the device.
\<close>

section \<open>The names of a back end\<close>

definition names :: "dev_backend \<Rightarrow> backend" where
  "names d = \<lparr>b_capacity = db_capacity d, b_root_dir = db_root_dir d, b_files = db_files d, b_objs = (\<lambda>i. map_option (abs_file 0) (db_objs d i)),
     b_next = db_next d, b_dirs = db_dirs d, b_inode = db_inode d\<rparr>"

lemma names_simps [simp]:
  "b_capacity (names d) = db_capacity d" "b_root_dir (names d) = db_root_dir d" "b_files (names d) = db_files d" "b_objs (names d) i = map_option (abs_file 0) (db_objs d i)"
  "b_next (names d) = db_next d" "b_dirs (names d) = db_dirs d" "b_inode (names d) = db_inode d"
  by (simp_all add: names_def)

lemma abs_attributes: "abs_file k (dev_save_attributes f st) = save_attributes (abs_file k f) st" "file_stat (abs_file k f) = dev_stat f"
  by (simp_all add: abs_file_def dev_save_attributes_def save_attributes_def file_stat_def dev_stat_def)

lemma abs_new: "abs_file k (new_dev_file ty) = new_file ty k"
  by (simp add: abs_file_def new_dev_file_def new_file_def abs_heap_def comp_def)

lemma names_list: "names (dd_list_in h d p) = list_in h (names d) p" "names (dd_unlist_in h d p) = unlist_in h (names d) p"
  by (simp_all add: names_def dd_list_in_def list_in_def dd_unlist_in_def unlist_in_def)

lemma names_inode: "new_inode (names d) = (fst (dd_new_inode d), names (snd (dd_new_inode d)))"
  by (simp add: names_def new_inode_def dd_new_inode_def)

lemma names_upd: "names (d\<lparr>db_objs := (db_objs d)(i \<mapsto> f), db_files := fl\<rparr>) = (names d)\<lparr>b_objs := (b_objs (names d))(i \<mapsto> abs_file 0 f), b_files := fl\<rparr>"
  by (auto simp: names_def fun_eq_iff)

lemma names_create: "do_create h (names d) p mode = (case dd_create h d p mode of (r, i, d') \<Rightarrow> (r, i, names d'))"
  by (auto simp: do_create_def dd_create_def Let_def names_inode names_list[symmetric] dd_new_inode_def dd_list_in_def list_in_def new_inode_def
      names_def fun_eq_iff abs_attributes abs_new)

lemma names_mkdir: "do_mkdir h (names d) p mode = map_option (apsnd names) (dd_mkdir h d p mode)"
  by (auto simp: do_mkdir_def dd_mkdir_def Let_def new_inode_def dd_new_inode_def names_def)

lemma names_rmdir: "do_rmdir h (names d) p = map_option (apsnd names) (dd_rmdir h d p)"
  by (auto simp: do_rmdir_def dd_rmdir_def Let_def names_def split: option.splits)

lemma names_readdir: "do_readdir (names d) p = dd_readdir d p"
  by (simp add: do_readdir_def dd_readdir_def find_s_def dd_find_s_def)

lemma names_stat: "do_stat (names d) p = dd_stat d p"
  by (auto simp: do_stat_def dd_stat_def option.map_comp comp_def abs_attributes split: option.splits)

lemma names_attributes: "change_attributes h (names d) p g = map_option (apsnd names) (dd_change_attributes h d p g)"
  by (auto simp: change_attributes_def dd_change_attributes_def Let_def names_def fun_eq_iff abs_attributes split: option.splits Option.bind_splits)

lemma names_renamedir: "do_renamedir h (names d) p q = apsnd names (dd_renamedir h d p q)"
  by (auto simp: do_renamedir_def dd_renamedir_def Let_def names_def split: option.splits)

lemma ns_names: "ns_files (names d) = dom (map_of (db_files d))" "ns_dirs (names d) = dom (map_of (db_dirs d))"
  by (simp_all add: ns_files_def ns_dirs_def)

text \<open>The objects that no name leads to do not matter to the name space.\<close>

lemma ns_ok_names:
  assumes "ns_ok b" "b_files b = db_files d" "b_dirs b = db_dirs d" "\<forall>i \<in> ran (map_of (db_files d)). db_objs d i \<noteq> None"
  shows "ns_ok (names d)"
  using assms by (auto simp: ns_ok_def ns_files_def ns_dirs_def)

section \<open>Named files\<close>

text \<open>
  The back end holds the contents \<open>P\<close>, by path, and the directories \<open>D\<close>.  Every object has exactly
  one name: no file is open.
\<close>

definition dev_named :: "'w dev_env \<Rightarrow> dev_backend \<Rightarrow> memory \<Rightarrow> (string \<rightharpoonup> byte list) \<times> string set \<Rightarrow> bool" where
  "dev_named env d m PD \<longleftrightarrow> (case PD of (P, D) \<Rightarrow> ns_ok (names d) \<and> D = ns_dirs (names d) \<and> distinct (map fst (db_files d)) \<and>
     inj_on (map_of (db_files d)) (dom (map_of (db_files d))) \<and> dom (db_objs d) = ran (map_of (db_files d)) \<and> (\<forall>i \<ge> db_next d. db_objs d i = None) \<and>
     (\<exists>C. dev_holds env (db_objs d) (db_pool d) m C \<and> P = map_comp C (map_of (db_files d))))"

lemma dev_namedD:
  assumes "dev_named env d m (P, D)"
  obtains C where "ns_ok (names d)" "D = ns_dirs (names d)" "distinct (map fst (db_files d))" "inj_on (map_of (db_files d)) (dom (map_of (db_files d)))"
    "dom (db_objs d) = ran (map_of (db_files d))" "\<forall>i \<ge> db_next d. db_objs d i = None" "dev_holds env (db_objs d) (db_pool d) m C" "P = map_comp C (map_of (db_files d))"
    "dom C = dom (db_objs d)" "dom P = dom (map_of (db_files d))"
proof -
  from assms obtain C where C: "ns_ok (names d)" "D = ns_dirs (names d)" "distinct (map fst (db_files d))" "inj_on (map_of (db_files d)) (dom (map_of (db_files d)))"
    "dom (db_objs d) = ran (map_of (db_files d))" "\<forall>i \<ge> db_next d. db_objs d i = None" "dev_holds env (db_objs d) (db_pool d) m C" "P = map_comp C (map_of (db_files d))"
    by (auto simp: dev_named_def)
  have dc: "dom C = dom (db_objs d)" using C(7) by (simp add: dev_holds_def)
  have "dom P = dom (map_of (db_files d))"
  proof (intro set_eqI iffI)
    show "x \<in> dom (map_of (db_files d))" if "x \<in> dom P" for x using that C(8) by (auto simp: map_comp_def split: option.splits)
    fix x
    assume "x \<in> dom (map_of (db_files d))"
    then obtain i where i: "map_of (db_files d) x = Some i" by auto
    then have "i \<in> dom C" using dc C(5) by (auto simp: ran_def)
    then show "x \<in> dom P" using i C(8) by (auto simp: map_comp_def)
  qed
  then show thesis using that C dc by blast
qed

lemma ran_snd: "distinct (map fst al) \<Longrightarrow> set (map snd al) = ran (map_of al)"
  by (simp add: ran_distinct)

lemma inj_owner:
  assumes "inj_on f (dom f)" "f x = Some i"
  shows "i \<notin> ran (f(x := None))"
  using assms by (auto simp: ran_def split: if_splits) (metis domI inj_onD)

lemma ran_drop:
  assumes "m x = Some i" "i \<notin> ran (m(x := None))"
  shows "ran (m(x := None)) = ran m - {i}"
proof -
  have "m = (m(x := None))(x \<mapsto> i)" using assms(1) by auto
  then have "ran m = insert i (ran (m(x := None)))" by (metis fun_upd_same ran_map_upd)
  then show ?thesis using assms(2) by auto
qed

lemma comp_drop:
  assumes "i \<notin> ran (m(x := None))"
  shows "(map_comp C m)(x := None) = map_comp (C(i := None)) (m(x := None))"
proof
  fix y
  have "m y \<noteq> Some i" if "y \<noteq> x" using assms that by (metis fun_upd_other ranI)
  then show "((map_comp C m)(x := None)) y = map_comp (C(i := None)) (m(x := None)) y" by (auto simp: map_comp_def split: option.splits)
qed

text \<open>Attributes other than the size do not matter to the contents.\<close>

lemma dev_holds_attributes:
  assumes H: "dev_holds env F p m C" and f: "F i = Some f" "st_size st = st_size (df_attributes f)"
  shows "dev_holds env (F(i \<mapsto> dev_save_attributes f st)) p m C"
proof -
  let ?f = "dev_save_attributes f st"
  have a: "dev_datas sl ?f = dev_datas sl f" "dev_content V sl ?f = dev_content V sl f" "dev_file_ok env V sl ?f = dev_file_ok env V sl f" for V sl
    using f(2) by (auto simp: dev_save_attributes_def dev_content_def file_content_def dev_file_ok_def dev_layout_def layout_def)
  from H obtain live T where H': "units_4k p" "dom F = dom C" "dev_mem env p live m"
    "\<forall>i f. F i = Some f \<longrightarrow> dev_file_ok env (view_of env p live m) (T i) f \<and> C i = Some (dev_content (view_of env p live m) (T i) f)"
    "\<forall>i j f g. F i = Some f \<longrightarrow> F j = Some g \<longrightarrow> i \<noteq> j \<longrightarrow> set (dev_datas (T i) f) \<inter> set (dev_datas (T j) g) = {}" unfolding dev_holds_def by auto
  have "dom (F(i \<mapsto> ?f)) = dom C" using H'(2) f(1) by auto
  moreover have "\<forall>j g. (F(i \<mapsto> ?f)) j = Some g \<longrightarrow> dev_file_ok env (view_of env p live m) (T j) g \<and> C j = Some (dev_content (view_of env p live m) (T j) g)" using H'(4) f(1) a by auto
  moreover have "\<forall>j k g h. (F(i \<mapsto> ?f)) j = Some g \<longrightarrow> (F(i \<mapsto> ?f)) k = Some h \<longrightarrow> j \<noteq> k \<longrightarrow> set (dev_datas (T j) g) \<inter> set (dev_datas (T k) h) = {}" using H'(5) f(1) a(1) by auto
  ultimately show ?thesis unfolding dev_holds_def using H'(1,3) by blast
qed

section \<open>Creating and removing\<close>

lemma dd_create_fields:
  assumes "dd_create h d f mode = (0, Some i, d')"
  shows "\<exists>st. i = db_next d \<and> db_files d' = (f, i) # db_files d \<and> db_objs d' = (db_objs d)(i \<mapsto> dev_save_attributes (new_dev_file temporary) st) \<and> st_size st = 0 \<and>
    db_next d' = Suc i \<and> db_pool d' = db_pool d \<and> map_of (db_files d) f = None"
  using assms by (auto simp: dd_create_def Let_def dd_list_in_def dd_new_inode_def emplace_def split: if_splits)

lemma create_named:
  fixes env :: "'w dev_env" and s :: "'w machine"
  assumes N: "dev_named env d (mc_mem s) (P, D)" and g: "good_dev env" and p: "p \<in> D" "valid_name n" "p @ n \<notin> dom P" "p @ n @ [slash] \<notin> D"
  shows "\<exists>d'. dd_create h d (p @ n) mode = (0, Some (db_next d), d') \<and> dev_named env d' (mc_mem s) (P(p @ n \<mapsto> []), D)"
proof -
  from N obtain C where C: "ns_ok (names d)" "D = ns_dirs (names d)" "distinct (map fst (db_files d))" "inj_on (map_of (db_files d)) (dom (map_of (db_files d)))"
    "dom (db_objs d) = ran (map_of (db_files d))" "\<forall>i \<ge> db_next d. db_objs d i = None" "dev_holds env (db_objs d) (db_pool d) (mc_mem s) C" "P = map_comp C (map_of (db_files d))"
    "dom C = dom (db_objs d)" "dom P = dom (map_of (db_files d))" by (rule dev_namedD)
  let ?i = "db_next d" and ?f = "p @ n"
  from do_create_run[OF C(1), of p n h mode] p C(2,10) obtain d' where
    d': "dd_create h d ?f mode = (0, Some ?i, d')" "ns_ok (names d')" "ns_dirs (names d') = ns_dirs (names d)" unfolding names_create by (auto simp: ns_names split: prod.splits)
  from dd_create_fields[OF d'(1)] obtain st where
    x: "db_files d' = (?f, ?i) # db_files d" "db_objs d' = (db_objs d)(?i \<mapsto> dev_save_attributes (new_dev_file temporary) st)" "st_size st = 0" "db_next d' = Suc ?i" "db_pool d' = db_pool d" "map_of (db_files d) ?f = None" by blast
  have ni: "?i \<notin> ran (map_of (db_files d))" "C ?i = None" using C(5,6,9) by auto
  from dev_executes[OF g C(7), of "File_Create ?i"] ni(2) have h: "dev_holds env ((db_objs d)(?i \<mapsto> new_dev_file temporary)) (db_pool d) (mc_mem s) (C(?i \<mapsto> []))" by auto
  have "dev_holds env (((db_objs d)(?i \<mapsto> new_dev_file temporary))(?i \<mapsto> dev_save_attributes (new_dev_file temporary) st)) (db_pool d) (mc_mem s) (C(?i \<mapsto> []))"
    by (rule dev_holds_attributes[OF h]) (simp_all add: x(3), simp add: new_dev_file_def null_stat_def)
  then have "dev_holds env (db_objs d') (db_pool d') (mc_mem s) (C(?i \<mapsto> []))" using x(2,5) by simp
  moreover have "P(?f \<mapsto> []) = map_comp (C(?i \<mapsto> [])) (map_of (db_files d'))" using C(8) x(1) ni(1) by (auto simp: fun_eq_iff map_comp_def ran_def split: option.splits)
  moreover have "inj_on (map_of (db_files d')) (dom (map_of (db_files d')))" using C(4) x(1) ni(1) by (auto simp: inj_on_def ran_def)
  moreover have "dom (db_objs d') = ran (map_of (db_files d'))" using C(5) x(1,2,6) by simp
  moreover have "distinct (map fst (db_files d'))" using C(3) x(1,6) by (simp add: map_of_eq_None_iff)
  moreover have "\<forall>i \<ge> db_next d'. db_objs d' i = None" using C(6) x(2,4) by simp
  ultimately show ?thesis unfolding dev_named_def using d' C(2) by auto
qed

lemma erase_named:
  fixes env :: "'w dev_env" and s :: "'w machine"
  assumes N: "dev_named env d (mc_mem s) (P, D)" and g: "good_dev env" and f: "map_of (db_files d) f = Some i"
  shows "\<exists>p'. dd_erase {} d f = Some (d\<lparr>db_files := AList.delete f (db_files d), db_objs := (db_objs d)(i := None), db_pool := p'\<rparr>) \<and>
    (\<exists>C. dev_holds env ((db_objs d)(i := None)) p' (mc_mem s) C \<and> P(f := None) = map_comp C ((map_of (db_files d))(f := None)))"
proof -
  from N obtain C where C: "distinct (map fst (db_files d))" "inj_on (map_of (db_files d)) (dom (map_of (db_files d)))"
    "dom (db_objs d) = ran (map_of (db_files d))" "dev_holds env (db_objs d) (db_pool d) (mc_mem s) C" "P = map_comp C (map_of (db_files d))" "dom C = dom (db_objs d)" by (rule dev_namedD)
  have ni: "i \<notin> ran ((map_of (db_files d))(f := None))" by (rule inj_owner[OF C(2) f])
  have "C i \<noteq> None" using C(3,6) f by (auto simp: ran_def)
  with dev_executes[OF g C(4), of "File_Delete i"] obtain ob p' where
    x: "db_objs d i = Some ob" "dev_file_destroy ob (db_pool d) = Some p'" "dev_holds env ((db_objs d)(i := None)) p' (mc_mem s) (C(i := None))" by (auto elim!: bind_eq_SomeE)
  have "distinct (map fst (AList.delete f (db_files d)))" using C(1) by (simp add: distinct_delete)
  then have "i \<notin> set (map snd (AList.delete f (db_files d)))" using ran_snd[of "AList.delete f (db_files d)"] ni by simp
  then have "dd_erase {} d f = Some (d\<lparr>db_files := AList.delete f (db_files d), db_objs := (db_objs d)(i := None), db_pool := p'\<rparr>)"
    using f x(1,2) by (simp add: dd_erase_def dd_release_def)
  moreover have "P(f := None) = map_comp (C(i := None)) ((map_of (db_files d))(f := None))"
    unfolding C(5) by (rule comp_drop[OF ni])
  ultimately show ?thesis using x(3) by blast
qed

lemma named_remove:
  fixes env :: "'w dev_env" and s :: "'w machine"
  assumes N: "dev_named env d (mc_mem s) (P, D)" and f: "map_of (db_files d) f = Some i"
  shows "distinct (map fst (AList.delete f (db_files d)))" "inj_on ((map_of (db_files d))(f := None)) (dom (map_of (db_files d)) - {f})"
    "dom ((db_objs d)(i := None)) = ran ((map_of (db_files d))(f := None))"
proof -
  from N obtain C where C: "distinct (map fst (db_files d))" "inj_on (map_of (db_files d)) (dom (map_of (db_files d)))" "dom (db_objs d) = ran (map_of (db_files d))" by (rule dev_namedD)
  show "distinct (map fst (AList.delete f (db_files d)))" using C(1) by (simp add: distinct_delete)
  show "inj_on ((map_of (db_files d))(f := None)) (dom (map_of (db_files d)) - {f})" using C(2) by (auto simp: inj_on_def)
  have ni: "i \<notin> ran ((map_of (db_files d))(f := None))" by (rule inj_owner[OF C(2) f])
  then have "ran ((map_of (db_files d))(f := None)) = ran (map_of (db_files d)) - {i}" by (rule ran_drop[where m = "map_of (db_files d)", OF f])
  then show "dom ((db_objs d)(i := None)) = ran ((map_of (db_files d))(f := None))" using C(3) by auto
qed

lemma unlink_named:
  fixes env :: "'w dev_env" and s :: "'w machine"
  assumes N: "dev_named env d (mc_mem s) (P, D)" and g: "good_dev env" and f: "f \<in> dom P"
  shows "\<exists>d'. dd_unlink h {} d f = Some (0, d') \<and> dev_named env d' (mc_mem s) (P(f := None), D)"
proof -
  from N obtain C where C: "ns_ok (names d)" "D = ns_dirs (names d)" "\<forall>i \<ge> db_next d. db_objs d i = None" "dom P = dom (map_of (db_files d))" by (rule dev_namedD)
  obtain i where i: "map_of (db_files d) f = Some i" using f C(4) by auto
  from erase_named[OF N g i] obtain p' C' where e:
    "dd_erase {} d f = Some (d\<lparr>db_files := AList.delete f (db_files d), db_objs := (db_objs d)(i := None), db_pool := p'\<rparr>)"
    "dev_holds env ((db_objs d)(i := None)) p' (mc_mem s) C'" "P(f := None) = map_comp C' ((map_of (db_files d))(f := None))" by blast
  let ?d = "dd_unlist_in h (d\<lparr>db_files := AList.delete f (db_files d), db_objs := (db_objs d)(i := None), db_pool := p'\<rparr>) f"
  have run: "dd_unlink h {} d f = Some (0, ?d)" using i e(1) by (simp add: dd_unlink_def)
  have fs: "db_files ?d = AList.delete f (db_files d)" "db_objs ?d = (db_objs d)(i := None)" "db_pool ?d = p'" "db_next ?d = db_next d" by (simp_all add: dd_unlist_in_def)
  note R = named_remove[OF N i]
  from do_unlink_run[OF C(1), of f h] f C(4) obtain b where
    b: "do_unlink h (names d) f = (0, b)" "ns_ok b" "ns_dirs b = ns_dirs (names d)" by (auto simp: ns_names)
  then have bf: "b_files b = db_files ?d" "b_dirs b = db_dirs ?d" using i by (auto simp: do_unlink_def unlist_in_def dd_unlist_in_def)
  have ok: "ns_ok (names ?d)" by (rule ns_ok_names[OF b(2) bf]) (use R(3) fs(1,2) in auto)
  have ds: "ns_dirs (names ?d) = D" using b(3) bf(2) C(2) by (simp add: ns_dirs_def)
  have "dom (map_of (db_files d)) - {f} = dom (map_of (db_files ?d))" using fs(1) by auto
  then have "dev_named env ?d (mc_mem s) (P(f := None), D)" unfolding dev_named_def
    using ok ds R e(2,3) C(3) fs by (auto simp del: fun_upd_apply dom_fun_upd) (auto split: if_splits)
  then show ?thesis using run by blast
qed

section \<open>Renaming, directories and writing\<close>

lemma rename_named_free:
  fixes env :: "'w dev_env" and s :: "'w machine"
  assumes N: "dev_named env d (mc_mem s) (P, D)" and f: "f \<in> dom P" and t: "p \<in> D" "valid_name n" "p @ n \<noteq> f" "p @ n @ [slash] \<notin> D" "p @ n \<notin> dom P"
  shows "\<exists>i ob st. map_of (db_files d) f = Some i \<and> db_objs d i = Some ob \<and> st = (dev_stat ob)\<lparr>st_ctime := h_time h, st_mtime := h_time h\<rparr> \<and>
    dev_named env (dd_list_in h (dd_unlist_in h (d\<lparr>db_objs := (db_objs d)(i \<mapsto> dev_save_attributes ob st), db_files := AList.delete f (emplace (p @ n) i (db_files d))\<rparr>) f) (p @ n))
      (mc_mem s) (P(p @ n := P f, f := None), D)"
proof -
  from N obtain C where C: "ns_ok (names d)" "D = ns_dirs (names d)" "distinct (map fst (db_files d))" "inj_on (map_of (db_files d)) (dom (map_of (db_files d)))"
    "dom (db_objs d) = ran (map_of (db_files d))" "\<forall>i \<ge> db_next d. db_objs d i = None" "dev_holds env (db_objs d) (db_pool d) (mc_mem s) C" "P = map_comp C (map_of (db_files d))"
    "dom C = dom (db_objs d)" "dom P = dom (map_of (db_files d))" by (rule dev_namedD)
  let ?t = "p @ n"
  obtain i where i: "map_of (db_files d) f = Some i" using f C(10) by auto
  have nt: "map_of (db_files d) ?t = None" using t(5) C(10) by auto
  obtain ob where ob: "db_objs d i = Some ob" using C(5) i by (metis domD ranI)
  let ?st = "(dev_stat ob)\<lparr>st_ctime := h_time h, st_mtime := h_time h\<rparr>"
  let ?d = "dd_list_in h (dd_unlist_in h (d\<lparr>db_objs := (db_objs d)(i \<mapsto> dev_save_attributes ob ?st), db_files := AList.delete f (emplace ?t i (db_files d))\<rparr>) f) ?t"
  have fs: "db_files ?d = AList.delete f ((?t, i) # db_files d)" "db_objs ?d = (db_objs d)(i \<mapsto> dev_save_attributes ob ?st)" "db_pool ?d = db_pool d" "db_next ?d = db_next d"
    using nt by (simp_all add: dd_list_in_def dd_unlist_in_def emplace_def)
  have mf: "map_of (db_files ?d) = (map_of (db_files d))(?t \<mapsto> i, f := None)" unfolding fs(1) by (simp add: fun_eq_iff)
  have "do_rename h (names d) f ?t = Some (0, names ?d)"
    using file_not_dir[OF C(1), of f] f C(10) i ob nt by (simp add: do_rename_def Let_def names_list names_upd ns_names abs_attributes)
  with do_rename_run[OF C(1), of f i p n h] i t C(2) have ok: "ns_ok (names ?d)" "ns_dirs (names ?d) = D" by (auto simp: ns_names)
  have ni: "i \<notin> ran ((map_of (db_files d))(f := None))" by (rule inj_owner[OF C(4) i])
  have "map_of (db_files ?d) = ((map_of (db_files d))(f := None))(?t \<mapsto> i)" using mf t(3) by (auto simp: fun_eq_iff)
  moreover have "((map_of (db_files d))(f := None)) ?t = None" using nt by simp
  ultimately have rn: "ran (map_of (db_files ?d)) = insert i (ran ((map_of (db_files d))(f := None)))" by (simp only: ran_map_upd)
  also have "\<dots> = dom (db_objs d)" using ran_drop[where m = "map_of (db_files d)", OF i ni] i C(5) by (auto simp: ranI)
  also have "\<dots> = dom (db_objs ?d)" using fs(2) ob by auto
  finally have "dom (db_objs ?d) = ran (map_of (db_files ?d))" ..
  moreover have "inj_on (map_of (db_files ?d)) (dom (map_of (db_files ?d)))"
    using C(4) i nt unfolding mf by (auto simp: inj_on_def dom_def split: if_splits)
  moreover have "distinct (map fst (db_files ?d))" unfolding fs(1) using C(3) nt by (intro distinct_delete) (simp add: map_of_eq_None_iff)
  moreover have "dev_holds env (db_objs ?d) (db_pool ?d) (mc_mem s) C" unfolding fs by (rule dev_holds_attributes[OF C(7) ob]) (simp add: dev_stat_def)
  moreover have "P(?t := P f, f := None) = map_comp C (map_of (db_files ?d))" using C(8) i by (auto simp: fun_eq_iff map_comp_def mf)
  moreover have "\<forall>j \<ge> db_next ?d. db_objs ?d j = None" using C(6) fs(2,4) ob by auto
  ultimately have "dev_named env ?d (mc_mem s) (P(?t := P f, f := None), D)" unfolding dev_named_def using ok by blast
  then show ?thesis using i ob by blast
qed

lemma rename_named:
  fixes env :: "'w dev_env" and s :: "'w machine"
  assumes N: "dev_named env d (mc_mem s) (P, D)" and g: "good_dev env" and f: "f \<in> dom P" and t: "p \<in> D" "valid_name n" "p @ n \<noteq> f" "p @ n @ [slash] \<notin> D"
  shows "\<exists>d'. dd_rename h {} d f (p @ n) = Some (0, d') \<and> dev_named env d' (mc_mem s) (P(p @ n := P f, f := None), D)"
proof -
  let ?t = "p @ n" let ?P = "P(?t := None)"
  from N obtain C where C: "ns_ok (names d)" "dom P = dom (map_of (db_files d))" by (rule dev_namedD)
  have nd: "map_of (db_dirs d) (slashed f) = None" "map_of (db_files d) f \<noteq> None" using file_not_dir[OF C(1), of f] f C(2) by (auto simp: ns_names)
  obtain d1 where d1: "(if map_of (db_files d) ?t \<noteq> None then map_option (\<lambda>b. dd_unlist_in h b ?t) (dd_erase {} d ?t) else Some d) = Some d1" "dev_named env d1 (mc_mem s) (?P, D)"
  proof (cases "?t \<in> dom P")
    case True
    from unlink_named[OF N g True, of h] obtain d1 where "dd_unlink h {} d ?t = Some (0, d1)" "dev_named env d1 (mc_mem s) (?P, D)" by blast
    then show ?thesis using that True C(2) by (fastforce simp: dd_unlink_def split: if_splits elim!: bind_eq_SomeE)
  next
    case False
    then have "?P = P" by (auto simp: fun_eq_iff)
    then show ?thesis using that[of d] N False C(2) by auto
  qed
  have "f \<in> dom ?P" using f t(3) by auto
  from rename_named_free[OF d1(2) this t, where h = h] obtain i ob st where
    x: "map_of (db_files d1) f = Some i" "db_objs d1 i = Some ob" "st = (dev_stat ob)\<lparr>st_ctime := h_time h, st_mtime := h_time h\<rparr>"
      "dev_named env (dd_list_in h (dd_unlist_in h (d1\<lparr>db_objs := (db_objs d1)(i \<mapsto> dev_save_attributes ob st), db_files := AList.delete f (emplace ?t i (db_files d1))\<rparr>) f) ?t)
        (mc_mem s) (?P(?t := ?P f, f := None), D)" by auto
  have "?P(?t := ?P f, f := None) = P(?t := P f, f := None)" using t(3) by (auto simp: fun_eq_iff)
  then show ?thesis using nd d1(1) x unfolding dd_rename_def by (auto simp: Let_def)
qed

text \<open>Operations that change directories only.\<close>

lemma dirs_named:
  assumes "dev_named env d m (P, D)" "ns_ok (names d')" "ns_dirs (names d') = D'" "db_files d' = db_files d" "db_objs d' = db_objs d" "db_next d' = db_next d" "db_pool d' = db_pool d"
  shows "dev_named env d' m (P, D')"
  using assms by (auto simp: dev_named_def)

lemma mkdir_named:
  assumes N: "dev_named env d m (P, D)" and p: "p \<in> D" "valid_name n" "p @ n \<notin> dom P" "p @ n @ [slash] \<notin> D"
  shows "\<exists>d'. dd_mkdir h d (p @ n) mode = Some (0, d') \<and> dev_named env d' m (P, insert (p @ n @ [slash]) D)"
proof -
  from N obtain C where C: "ns_ok (names d)" "D = ns_dirs (names d)" "dom P = dom (map_of (db_files d))" by (rule dev_namedD)
  from do_mkdir_run[OF C(1), of p n h mode] p C(2,3) obtain d' where
    d': "dd_mkdir h d (p @ n) mode = Some (0, d')" "ns_ok (names d')" "ns_dirs (names d') = insert (p @ n @ [slash]) D" unfolding names_mkdir by (auto simp: ns_names)
  then have "db_files d' = db_files d" "db_objs d' = db_objs d" "db_next d' = db_next d" "db_pool d' = db_pool d" by (auto simp: dd_mkdir_def Let_def dd_new_inode_def split: if_splits)
  then show ?thesis using dirs_named[OF N d'(2,3)] d'(1) by blast
qed

lemma rmdir_named:
  assumes N: "dev_named env d m (P, D)" and p: "p \<in> D" "valid_name n" "p @ n @ [slash] \<in> D"
    and e: "{x. valid_name x \<and> ((p @ n @ [slash]) @ x \<in> dom P \<or> (p @ n @ [slash]) @ x @ [slash] \<in> D)} = {}"
  shows "\<exists>d'. dd_rmdir h d (p @ n) = Some (0, d') \<and> dev_named env d' m (P, D - {p @ n @ [slash]})"
proof -
  from N obtain C where C: "ns_ok (names d)" "D = ns_dirs (names d)" "dom P = dom (map_of (db_files d))" by (rule dev_namedD)
  have "dom P = ns_files (names d)" using C(3) by (simp add: ns_names)
  from nvml.rmdir_ok[OF C(1) p(1)[unfolded C(2)] p(2) p(3)[unfolded C(2)] e[unfolded this C(2)], of h] obtain d' where
    d': "dd_rmdir h d (p @ n) = Some (0, d')" "ns_ok (names d')" "ns_dirs (names d') = D - {p @ n @ [slash]}" unfolding names_rmdir C(2) by auto
  from d'(1) have "db_files d' = db_files d \<and> db_objs d' = db_objs d \<and> db_next d' = db_next d \<and> db_pool d' = db_pool d"
    unfolding dd_rmdir_def Let_def by (auto split: if_splits option.splits)
  then show ?thesis using dirs_named[OF N d'(2,3)] d'(1) by blast
qed

end
