(* ===== verification/Devdax_File_Props.thy ===== *)
theory Devdax_File_Props
  imports Devdax_Store
begin

text \<open>What files on the device promise, and where the promise ends.\<close>

section \<open>An empty device\<close>

lemma init_holds:
  assumes "init_pool 4096 a len new_big_pool = Some p" "4096 \<le> len" "0 < a" "a + len < 2 ^ 64" "m (de_block env) = Some b" "blk_len b = len"
  shows "dev_holds env Map.empty p m Map.empty"
proof -
  have "pool_dim p" "taken p []" "units_4k p" "bp_length p = len"
    using assms(1-4) by (auto simp: init_pool_def new_big_pool_def pool_dim_def taken_def units_4k_def div_greater_zero_iff)
  then have "dev_mem env p [] m" "units_4k p" using assms(5,6) by (auto simp: dev_mem_def)
  then show ?thesis unfolding dev_holds_def by auto
qed

lemma holds_read:
  assumes H: "dev_holds env F p (mc_mem s) C" and f: "F i = Some f" "C i = Some c" "c \<noteq> []" "length c < 2 ^ 61" and v: "bv_buf v \<noteq> []"
    and al: "de_memalign env s (of_nat (length c)) = Some q" "mc_mem s q = None"
  shows "\<exists>v' f' s'. dev_get_data env f p s 0 (of_nat (length c)) v = Some (Inr (0, v', f', s')) \<and>
    fb_mem (hd (bv_buf v')) = Some (q, 0) \<and> fb_size (hd (bv_buf v')) = length c \<and> mem_read (mc_mem s') (q, 0) (length c) = Some c"
proof -
  from H f obtain live sl where M: "dev_mem env p live (mc_mem s)" and F: "dev_file_ok env (view_of env p live (mc_mem s)) sl f"
    and c: "c = dev_content (view_of env p live (mc_mem s)) sl f" unfolding dev_holds_def by fastforce
  have A: "layout (abs_env env) sl (abs_f f) (view_of env p live (mc_mem s))" using F by (simp add: dev_file_ok_def dev_layout_def)
  have u: "df_used_offset f = int (length c)" using file_content_length[OF A] layoutD(6)[OF A] c by (simp add: dev_content_def)
  let ?sz = "of_nat (length c) :: size_t"
  have z: "unat ?sz = length c" using f(4) by (simp add: unsigned_of_nat take_bit_nat_eq_self_iff)
  then have ui: "uint ?sz = int (length c)" by (metis size_nat)
  have t: "to_size (int (length c)) = ?sz" by (simp add: to_size_def)
  obtain b0 bs where b: "bv_buf v = b0 # bs" using v by (cases "bv_buf v") auto
  have "0 < ?sz" using z f(3) by (simp add: word_gt_0 word_unat_eq_iff)
  from dev_get_run[OF M F order_refl _ this _ b _ _ al(2), of "int (length c)"] show ?thesis using u ui f(3,4) al(1) t c by (auto simp: extent_def)
qed

section \<open>Truncating to nothing\<close>

text \<open>After the cut, every further segment is dropped; the allocator keeps its units.\<close>

lemma dev_drop_loop:
  assumes "\<forall>b \<in> set sl. \<exists>seg. h b = Some seg \<and> 0 < to_off (if ds_bytes seg \<noteq> 0 then ds_bytes seg else ds_size seg)" "0 \<le> sz"
  shows "\<exists>h' m'. dev_truncate_loop env 0 (map Some sl @ [None, None]) sz True h m = Some (h', m') \<and>
    (\<forall>b \<in> set sl. \<exists>seg. h' b = Some seg \<and> dev_data seg = 0) \<and> (\<forall>b. b \<notin> set sl \<longrightarrow> h' b = h b)"
  using assms
proof (induction sl arbitrary: sz h m)
  case (Cons a sl)
  then obtain seg where seg: "h a = Some seg" "0 < to_off (if ds_bytes seg \<noteq> 0 then ds_bytes seg else ds_size seg)" by auto
  let ?h = "h(a \<mapsto> seg\<lparr>ds_pool := (ds_pool seg)\<lparr>dp_data := 0\<rparr>, ds_is_gap := True\<rparr>)" and ?sz = "sz + to_off (if ds_bytes seg \<noteq> 0 then ds_bytes seg else ds_size seg)"
  have "\<forall>b \<in> set sl. \<exists>seg. ?h b = Some seg \<and> 0 < to_off (if ds_bytes seg \<noteq> 0 then ds_bytes seg else ds_size seg)" "0 \<le> ?sz" using Cons.prems seg by auto
  from Cons.IH[OF this, of "de_unmap env (dev_data seg) (dp_length (ds_pool seg)) m"] obtain h' m' where
    "dev_truncate_loop env 0 (map Some sl @ [None, None]) ?sz True ?h (de_unmap env (dev_data seg) (dp_length (ds_pool seg)) m) = Some (h', m')"
    "\<forall>b \<in> set sl. \<exists>seg. h' b = Some seg \<and> dev_data seg = 0" "\<forall>b. b \<notin> set sl \<longrightarrow> h' b = ?h b" by blast
  moreover have "0 < ?sz" using Cons.prems(2) seg(2) by linarith
  ultimately show ?case using seg(1) by (cases "a \<in> set sl") (auto simp: Let_def dev_data_def)
qed simp

lemma dev_destroy_dropped: "\<forall>b \<in> set sl. \<exists>seg. h b = Some seg \<and> dev_data seg = 0 \<Longrightarrow> dev_destroy_segments h sl p = Some p"
  by (induction sl) (auto simp: dev_segment_destroy_def dev_destroy_def dev_data_def)

lemma taken_disjoint:
  assumes "taken p live" "u \<in> set live" "v \<in> set live" "u \<noteq> v"
  shows "units_of p u \<inter> units_of p v = {}"
proof -
  have "sorted_wrt (\<lambda>u v. units_of p u \<inter> units_of p v = {}) live" using assms(1) by (simp add: taken_def)
  then show ?thesis using assms(2-4) by (induction live) auto
qed

lemma dev_empty_run:
  assumes M: "dev_mem env p live (mc_mem s)" and F: "dev_file_ok env (view_of env p live (mc_mem s)) (a # sl) f" and u: "0 < df_used_offset f" and b: "b \<in> set sl"
  shows "\<exists>f' s' p' seg. dev_truncate env f p s 0 = Some (Inr (f', p, s')) \<and> dev_file_destroy f' p = Some p' \<and>
    df_seg f b = Some seg \<and> dev_data seg \<in> set (dev_datas sl f) \<and> map_of live (dev_data seg) = Some (dp_length (ds_pool seg)) \<and>
    (\<forall>k \<in> units_of p (dev_data seg, dp_length (ds_pool seg)). bp_bitset p' k)"
proof -
  let ?V = "view_of env p live (mc_mem s)"
  have L: "dev_layout env ?V (a # sl) f" and i: "idle (df_range_mutex f)" and st: "st_size (df_attributes f) = df_used_offset f" using F by (auto simp: dev_file_ok_def)
  then have A: "layout (abs_env env) (a # sl) (abs_f f) ?V" by (simp add: dev_layout_def)
  note D = layoutD[OF A, unfolded abs_file_simps]
  note S = dev_segment_live[OF M L]
  obtain sa where sa: "df_seg f a = Some sa" "dev_data sa \<noteq> 0" "map_of live (dev_data sa) = Some (dp_length (ds_pool sa))"
    "0 < to_off (if ds_bytes sa \<noteq> 0 then ds_bytes sa else ds_size sa)" using S[of a] by auto
  let ?sz = "to_off (if ds_bytes sa \<noteq> 0 then ds_bytes sa else ds_size sa)" let ?h = "(df_seg f)(a \<mapsto> sa\<lparr>ds_bytes := to_size ?sz\<rparr>)"
  have na: "a \<notin> set sl" "distinct sl" using D(10) by auto
  have dr: "\<forall>b \<in> set sl. \<exists>seg. ?h b = Some seg \<and> 0 < to_off (if ds_bytes seg \<noteq> 0 then ds_bytes seg else ds_size seg)" using S na by fastforce
  from dev_drop_loop[OF dr less_imp_le[OF sa(4)], of env "mc_mem s"] obtain h m where
    h: "dev_truncate_loop env 0 (map Some sl @ [None, None]) ?sz True ?h (mc_mem s) = Some (h, m)"
      "\<forall>b \<in> set sl. \<exists>seg. h b = Some seg \<and> dev_data seg = 0" "\<forall>b. b \<notin> set sl \<longrightarrow> h b = ?h b" by blast
  have ml: "map snd (m_leaves (df_segments f)) = Some a # map Some sl @ [None, None]" using D(3) by (simp add: leaves_of_def)
  have lp: "dev_truncate_loop env 0 (map snd (m_leaves (df_segments f))) 0 False (df_seg f) (mc_mem s) = Some (h, m)" using h(1) sa unfolding ml by (simp add: Let_def)
  have sz: "to_off (dev_size f) = df_used_offset f" using st D(6-8) u by (simp add: dev_size_def to_off_mid)
  have "0 < df_used_offset f" "off_ok 0" "off_ok (df_used_offset f)" using u D(7,8) by (auto simp: off_ok_def)
  from idle_lock[OF i this, of Writer] obtain t1 rl ns rl' t2 where
    lk: "lock_range (df_range_mutex f) 0 (df_used_offset f) Writer = Some (t1, Inr rl)" "unlock_range t1 rl = Some (ns, rl', t2)" "destroy_range_lock t2 rl' = Some t2" by blast
  obtain f' where f': "dev_truncate env f p s 0 = Some (Inr (f', p, s\<lparr>mc_mem := m\<rparr>))" "df_seg f' = h" "df_segments f' = df_segments f"
    using lp lk sz unfolding dev_truncate_def dev_lock_range_def dev_unlock_range_def by (simp add: Let_def to_size_def[of 0])
  let ?u = "(dev_data sa, dp_length (ds_pool sa))" let ?p = "p\<lparr>bp_bitset := (\<lambda>k. bp_bitset p k \<and> k \<notin> units_of p ?u)\<rparr>"
  have P: "pool_dim p" "taken p live" using M by (auto simp: dev_mem_def)
  have ua: "?u \<in> set live" using map_of_SomeD[OF sa(3)] .
  then have w: "whole p ?u" using P(2) by (simp add: taken_def)
  have "h a = Some (sa\<lparr>ds_bytes := to_size ?sz\<rparr>)" using h(3) na by simp
  then have "dev_destroy_segments h (a # sl) p = Some ?p" using deallocate_run[OF P(1) w] sa(2) dev_destroy_dropped[OF h(2)]
    by (simp add: dev_segment_destroy_def dev_destroy_def dev_data_def)
  moreover have "List.map_filter snd (m_leaves (df_segments f)) = a # sl" using D(3) leaves_segments[of _ "a # sl"] by (simp del: map_filter_simps)
  ultimately have ds: "dev_file_destroy f' p = Some ?p" using f'(2,3) na by (simp add: dev_file_destroy_def distinct_remdups_id)
  obtain seg where seg: "df_seg f b = Some seg" "dev_data seg \<noteq> 0" "map_of live (dev_data seg) = Some (dp_length (ds_pool seg))" using S[of b] b by auto
  have db: "dev_data seg \<in> set (dev_datas sl f)" using datas_in[OF b, of "abs_heap (df_seg f)" "abs_seg seg"] seg by simp
  have "abs_heap (df_seg f) a = Some (abs_seg sa)" using sa(1) by simp
  from datas_Cons[where h = "abs_heap (df_seg f)", OF this, of sl] have "dev_data sa \<notin> set (dev_datas sl f)" using D(12) sa(2) by (simp del: abs_heap_app)
  then have ne: "dev_data seg \<noteq> dev_data sa" using db by auto
  let ?v = "(dev_data seg, dp_length (ds_pool seg))"
  have vl: "?v \<in> set live" using map_of_SomeD[OF seg(3)] .
  have "units_of p ?u \<inter> units_of p ?v = {}" using taken_disjoint[OF P(2) ua vl] ne by simp
  moreover have "units_of p ?v \<subseteq> {k. bp_bitset p k}" using P(2) vl by (auto simp: taken_def)
  ultimately have "\<forall>k \<in> units_of p ?v. bp_bitset ?p k" by auto
  then show ?thesis using f'(1) ds seg db by blast
qed

section \<open>Properties\<close>

text \<open>
  Files on the device are sequences of bytes.  On a freshly mapped device with units of 4096
  bytes, any sequence of creations, writes at or before the end of a file and deletions, for
  which the device has room, runs to its end; afterwards the files are the ones that the same
  operations leave on plain sequences of bytes, and reading a file returns exactly its sequence.
  So no write to a file changes another, and storage that a deleted file gave back can be
  used again.
\<close>

theorem device_files:
  assumes "init_pool 4096 a len new_big_pool = Some p" "4096 \<le> len" "0 < a" "a + len < 2 ^ 64" "good_dev env" "mc_mem s (de_block env) = Some b" "blk_len b = len"
    "ops_ok op_spec op_ok (mc_mem s) {de_block env} Map.empty ops" "run_fits (dev_exec env) dev_fits (Map.empty, p, s) ops"
    "\<And>s n. n < 2 ^ 62 \<Longrightarrow> de_memalign env s n = Some q" "mc_mem s q = None" "bv_buf v \<noteq> []"
  shows "\<exists>F p' s'. run_ops (dev_exec env) (Map.empty, p, s) ops = Some (F, p', s') \<and> dom F = dom (ops_spec op_spec (mc_mem s) ops Map.empty) \<and>
    (\<forall>i f c. F i = Some f \<and> ops_spec op_spec (mc_mem s) ops Map.empty i = Some c \<and> c \<noteq> [] \<and> length c < 2 ^ 61 \<longrightarrow>
      (\<exists>v' f' s''. dev_get_data env f p' s' 0 (of_nat (length c)) v = Some (Inr (0, v', f', s'')) \<and>
        fb_mem (hd (bv_buf v')) = Some (q, 0) \<and> fb_size (hd (bv_buf v')) = length c \<and> mem_read (mc_mem s'') (q, 0) (length c) = Some c))"
proof -
  have "good_dev env \<and> dev_store env (Map.empty, p, s) Map.empty" using init_holds[OF assms(1-4), of "mc_mem s" env b] assms(6,7) assms(5) by (simp add: dev_store_def)
  from device.runs_ops[OF this, of ops] assms(8,9) obtain F p' s' where
    r: "run_ops (dev_exec env) (Map.empty, p, s) ops = Some (F, p', s')" "dev_holds env F p' (mc_mem s') (ops_spec op_spec (mc_mem s) ops Map.empty)"
      "\<forall>z. z \<noteq> de_block env \<longrightarrow> mc_mem s' z = mc_mem s z" by (auto simp: dev_store_def)
  have "q \<noteq> de_block env" using assms(6,11) by auto
  then have q: "mc_mem s' q = None" using r(3) assms(11) by simp
  have "de_memalign env s' (of_nat k) = Some q" if "k < 2 ^ 61" for k
    using that by (intro assms(10)) (simp add: word_less_nat_alt unsigned_of_nat take_bit_nat_def)
  then show ?thesis using r(1,2) holds_read[OF r(2) _ _ _ _ assms(12) _ q] by (auto simp: dev_holds_def)
qed

text \<open>
  C38: A file that is grown by \<open>truncate\<close> shows what is on the device: the bytes of the new part are
  not zero, as POSIX has it, but those that the storage had before, from a deleted file for
  example.
\<close>

theorem grown_file_shows_old_bytes:
  assumes "dev_holds env F p (mc_mem s) C" "good_dev env" "0 < e" "e < 2 ^ 32" "dev_room (new_dev_file ty) p e" "mc_mem s (de_block env) = Some b"
    "de_memalign env s (to_size e) = Some q" "mc_mem s q = None" "bv_buf v \<noteq> []"
  shows "\<exists>f p' v' f' s' k. dev_truncate env (new_dev_file ty) p s e = Some (Inr (f, p', s)) \<and> st_size (df_attributes f) = e \<and>
    dev_get_data env f p' s 0 (to_size e) v = Some (Inr (0, v', f', s')) \<and> fb_size (hd (bv_buf v')) = nat e \<and>
    mem_read (mc_mem s') (q, 0) (nat e) = Some (map (blk_byte b) [k..<k + nat e])"
proof -
  let ?f = "new_dev_file ty" and ?m = "mc_mem s" and ?sz = "to_size e"
  from assms(1) obtain live where M: "dev_mem env p live ?m" and u: "units_4k p" unfolding dev_holds_def by auto
  have z: "uint ?sz = e" "0 < ?sz" using to_size_unat[of e] assms(3,4) by (simp_all add: word_less_def)
  have n: "df_alloc_offset ?f = 0" "df_used_offset ?f = 0" "df_seg ?f = Map.empty" by (simp_all add: new_dev_file_def)
  from dev_allocate_run[OF M dev_new_file(1)[of _ _ ty] u assms(2) order_refl _ z(2)] assms(4,5) z(1) n obtain sl g p' live' where
    x: "dev_file_allocate env ?f p 0 ?sz = Some (0, g, p')" "dev_file_ok env (view_of env p' live' ?m) sl g" "df_used_offset g = max 0 e"
      "dev_fetched env [] (?f\<lparr>df_initialized := True\<rparr>) p live ?m e sl (g\<lparr>df_used_offset := 0, df_attributes := df_attributes ?f\<rparr>) p' live'" by auto
  let ?V = "view_of env p' live' ?m"
  from x(4) assms(6) n obtain xs k where f1: "dev_mem env p' live' ?m" "e \<le> df_alloc_offset g"
    "seg_content (abs_heap (df_seg g)) ?V sl = xs" "xs = map (blk_byte b) [k..<k + length xs]" unfolding dev_fetched_def by (auto simp: seg_content_def)
  have A: "layout (abs_env env) sl (abs_f g) ?V" and st: "st_size (df_attributes g) = e" using x(2,3) assms(3) by (auto simp: dev_file_ok_def dev_layout_def)
  note D = layoutD[OF A, unfolded abs_file_simps]
  have lx: "int (length xs) = df_alloc_offset g" using tiles_content[where h = "abs_heap (df_seg g)", OF D(1,2)] f1(3) by simp
  have t: "dev_truncate env ?f p s e = Some (Inr (g, p', s))"
  proof -
    have "unat ?sz = nat e" using to_size_nat[of e] assms(3,4) by simp
    then have "unat (ucast ?sz :: 32 word) = nat e" using assms(3,4) by (simp add: unsigned_ucast_eq take_bit_nat_def)
    then have "(ucast ?sz :: 32 word) > ucast (dev_size ?f)"
      using assms(3) by (simp add: word_less_nat_alt dev_size_def new_dev_file_def null_stat_def to_size_def)
    then show ?thesis using x(1) unfolding dev_truncate_def by simp
  qed
  have c: "dev_content ?V sl g = map (blk_byte b) [k..<k + nat e]"
  proof -
    have "dev_content ?V sl g = take (nat e) (map (blk_byte b) [k..<k + length xs])" using f1(3,4) x(3) assms(3) by (simp add: dev_content_def file_content_def)
    also have "\<dots> = map (blk_byte b) [k..<k + nat e]" using lx f1(2) by (simp add: take_map take_upt)
    finally show ?thesis .
  qed
  obtain b0 bs where b: "bv_buf v = b0 # bs" using assms(9) by (cases "bv_buf v") auto
  from dev_get_run[OF f1(1) x(2) order_refl _ z(2) _ b _ assms(7,8)] x(3) show ?thesis using t st c z(1) assms(3,4) by (auto simp: extent_def)
qed

definition sample_dev :: "unit dev_env" where
  "sample_dev = \<lparr>de_calls = sample_calls, de_have_splice = True, de_tmp = 0, de_copy = fuse_buf_copy_pmem False True sample_calls 0, de_block = 7, de_mmap = 1048576,
     de_unmap = (\<lambda>_ _ m. m), de_memalign = (\<lambda>_ _. Some 1000), de_time = 0, de_segment_size = 4096\<rparr>"

text \<open>A device of 16 units that are filled with nines.\<close>

definition sample_device :: "unit machine" where
  "sample_device = \<lparr>mc_world = (), mc_mem = [0 \<mapsto> \<lparr>blk_len = 4, blk_byte = (\<lambda>i. of_nat (i + 1))\<rparr>, 7 \<mapsto> \<lparr>blk_len = 65536, blk_byte = (\<lambda>_. 9)\<rparr>]\<rparr>"

definition sample_pool :: big_pool where
  "sample_pool = \<lparr>bp_bitset = (\<lambda>_. False), bp_offset = 0, bp_address = 1048576, bp_init = True, bp_length = 65536, bp_size_of_segment = 4096, bp_MAPPINGS = 16\<rparr>"

lemma sample_pool_init: "init_pool 4096 1048576 65536 new_big_pool = Some sample_pool"
  by (simp add: init_pool_def new_big_pool_def sample_pool_def)

lemma sample_dev_good: "good_dev sample_dev"
  using pmem.memory_copy_axioms[of True sample_calls 0] by (simp add: good_dev_def sample_dev_def)

lemma sample_device_mem: "mc_mem sample_device (de_block sample_dev) = Some \<lparr>blk_len = 65536, blk_byte = (\<lambda>_. 9)\<rparr>" "mc_mem sample_device 1000 = None"
  "src_bytes (mc_mem sample_device) sample_vec = [1, 2, 3, 4]" "mem_vec (mc_mem sample_device) {de_block sample_dev} sample_vec"
  by (simp_all add: sample_device_def sample_dev_def src_bytes_def sample_vec_def buf_bytes_def mem_read_def mem_vec_def mem_buf_def upt_rec[of _ 4])

lemma sample_unit:
  assumes "0 \<le> e" "e < 4096"
  shows "\<exists>p'. bp_allocate (nat (xalign e 4096)) sample_pool = Some (1048576, p')"
proof -
  have "(4096 :: size_t) = 2 ^ 12" by simp
  then have "xalign e 4096 = 4096" using xalign_pow2[of e 12] assms by simp
  then show ?thesis by (simp add: bp_allocate_def sample_pool_def find_place_def free_run.simps NVML_MAPPINGS_def reserve_def)
qed

lemma sample_room:
  assumes "0 \<le> e" "e < 4096"
  shows "dev_room (new_dev_file ty) sample_pool e"
  using sample_unit[OF assms] by (auto simp: dev_room_def new_dev_file_def)

theorem device_files_witness:
  "\<exists>F p' s'. run_ops (dev_exec sample_dev) (Map.empty, sample_pool, sample_device) [File_Create 0, File_Create 1, File_Delete 1, File_Write 0 0 sample_vec] = Some (F, p', s') \<and> dom F = {0} \<and>
    (\<forall>f. F 0 = Some f \<longrightarrow> (\<exists>v' f' s''. dev_get_data sample_dev f p' s' 0 4 sample_vec = Some (Inr (0, v', f', s'')) \<and> mem_read (mc_mem s'') (1000, 0) 4 = Some [1, 2, 3, 4]))"
proof -
  let ?ops = "[File_Create 0, File_Create 1, File_Delete 1, File_Write 0 0 sample_vec]"
  have e: "dev_file_destroy (new_dev_file temporary) sample_pool = Some sample_pool"
    by (simp add: dev_file_destroy_def new_dev_file_def build_tree_def new_segment_tree_def map_filter_simps)
  have spec: "ops_spec op_spec (mc_mem sample_device) ?ops Map.empty = [0 \<mapsto> [1, 2, 3, 4]]" using sample_device_mem by (simp add: ops_spec_def pwrite_def fun_eq_iff)
  have ok: "ops_ok op_spec op_ok (mc_mem sample_device) {de_block sample_dev} Map.empty ?ops" using sample_device_mem by (simp add: write_ok_def)
  have fits: "run_fits (dev_exec sample_dev) dev_fits (Map.empty, sample_pool, sample_device) ?ops"
    using e sample_room[of 4 temporary] sample_device_mem by (simp split: option.splits)
  have al: "de_memalign sample_dev s n = Some 1000" for s n by (simp add: sample_dev_def)
  have "bv_buf sample_vec \<noteq> []" by (simp add: sample_vec_def)
  from device_files[OF sample_pool_init _ _ _ sample_dev_good sample_device_mem(1) _ ok fits al sample_device_mem(2) this, unfolded spec]
  obtain F p' s' where r: "run_ops (dev_exec sample_dev) (Map.empty, sample_pool, sample_device) ?ops = Some (F, p', s')" "dom F = {0}"
    "\<forall>i f c. F i = Some f \<and> [0 \<mapsto> [1, 2, 3, 4]] i = Some c \<and> c \<noteq> [] \<and> length c < 2 ^ 61 \<longrightarrow>
      (\<exists>v' f' s''. dev_get_data sample_dev f p' s' 0 (of_nat (length c)) sample_vec = Some (Inr (0, v', f', s'')) \<and>
        fb_mem (hd (bv_buf v')) = Some (1000, 0) \<and> fb_size (hd (bv_buf v')) = length c \<and> mem_read (mc_mem s'') (1000, 0) (length c) = Some c)" by auto
  have len: "length [1, 2, 3, 4 :: byte] = 4" by simp
  have "\<exists>v' f' s''. dev_get_data sample_dev f p' s' 0 4 sample_vec = Some (Inr (0, v', f', s'')) \<and> mem_read (mc_mem s'') (1000, 0) 4 = Some [1, 2, 3, 4]" if "F 0 = Some f" for f
    using r(3)[rule_format, of 0 f "[1, 2, 3, 4]", unfolded len] that by auto
  then show ?thesis using r(1,2) by blast
qed

theorem grown_file_shows_old_bytes_witness:
  "\<exists>f p' v' f' s'. dev_truncate sample_dev (new_dev_file temporary) sample_pool sample_device 3 = Some (Inr (f, p', sample_device)) \<and>
    dev_get_data sample_dev f p' sample_device 0 3 sample_vec = Some (Inr (0, v', f', s')) \<and> mem_read (mc_mem s') (1000, 0) 3 = Some [9, 9, 9]"
proof -
  have h: "dev_holds sample_dev Map.empty sample_pool (mc_mem sample_device) Map.empty"
    using init_holds[OF sample_pool_init, of "mc_mem sample_device" sample_dev] sample_device_mem(1) by simp
  have r: "dev_room (new_dev_file temporary) sample_pool 3" by (rule sample_room) simp_all
  have al: "de_memalign sample_dev sample_device (to_size 3) = Some 1000" "bv_buf sample_vec \<noteq> []" by (simp_all add: sample_dev_def sample_vec_def)
  from grown_file_shows_old_bytes[OF h sample_dev_good _ _ r sample_device_mem(1) al(1) sample_device_mem(2) al(2)] obtain f p' v' f' s' k where
    x: "dev_truncate sample_dev (new_dev_file temporary) sample_pool sample_device 3 = Some (Inr (f, p', sample_device))"
      "dev_get_data sample_dev f p' sample_device 0 (to_size 3) sample_vec = Some (Inr (0, v', f', s'))"
      "mem_read (mc_mem s') (1000, 0) (nat 3) = Some (map (blk_byte \<lparr>blk_len = 65536, blk_byte = (\<lambda>_. 9)\<rparr>) [k..<k + nat 3])" by auto
  have "map (blk_byte \<lparr>blk_len = 65536, blk_byte = (\<lambda>_. 9)\<rparr>) [k..<k + nat 3] = replicate 3 9" by (simp add: map_replicate_const)
  also have "replicate 3 9 = [9, 9, 9 :: byte]" by (simp add: numeral_3_eq_3)
  finally have "map (blk_byte \<lparr>blk_len = 65536, blk_byte = (\<lambda>_. 9)\<rparr>) [k..<k + nat 3] = [9, 9, 9]" .
  moreover have "to_size 3 = 3" by (simp add: to_size_def)
  ultimately show ?thesis using x by fastforce
qed

text \<open>
  A full device is not reported.  When the allocator finds no room, preallocating a range
  returns 0 and the file has the new size, but its last segment has a null data pointer.
\<close>

theorem full_device_not_reported:
  assumes "dev_holds env F p (mc_mem s) C" "F i = Some f" "good_dev env" "0 \<le> off" "off \<le> df_alloc_offset f" "df_alloc_offset f < off + uint sz" "off + uint sz < 2 ^ 43"
    "bp_allocate (nat (xalign (off + uint sz) 4096 - df_alloc_offset f)) p = Some (0, p')"
  shows "\<exists>f' a seg. dev_file_allocate env f p off sz = Some (0, f', p') \<and> st_size (df_attributes f') = off + uint sz \<and>
    df_seg f' a = Some seg \<and> \<not> ds_is_gap seg \<and> dev_data seg = 0"
proof -
  let ?fi = "f\<lparr>df_initialized := True\<rparr>" and ?e = "off + uint sz" and ?al = "df_alloc_offset f"
  from assms(1,2) obtain live sl where F: "dev_file_ok env (view_of env p live (mc_mem s)) sl f" and u: "units_4k p" unfolding dev_holds_def by blast
  let ?V = "view_of env p live (mc_mem s)"
  have L: "dev_layout env ?V sl ?fi" and st: "st_size (df_attributes f) = df_used_offset f" using F by (auto simp: dev_file_ok_def)
  then have A: "layout (abs_env env) sl (abs_f f) ?V" by (simp add: dev_layout_def abs_upd)
  note D = layoutD[OF A, unfolded abs_file_simps]
  have p: "0 < uint sz" using assms(5,6) by linarith
  have e: "to_off (to_size off + sz) = ?e" by (rule end_of_range) (use assms(4,7) in auto)
  have sz: "to_off sz = uint sz" by (rule to_off_tile) (use assms(4,7) in auto)
  let ?rs = "if off < ?al then map (conc env p) (seg_regions (abs_heap (df_seg f)) sl 0 off ?al) else []"
  let ?n = "xalign ?e 4096 - df_alloc_offset ?fi"
  have "de_segment_size env = 4096" using assms(3) by (simp add: good_dev_def)
  from dev_extend_gen[OF L u this assms(4), of sz ?n 0 p' ?rs] assms(5-8) obtain r t where
    x: "dev_extend_storage env ?fi p off sz ?rs = Some (?rs @ [r], dev_extended ?fi ?n 0 t, p')" by auto
  have f: "dev_fetch_storage env ?fi p off sz = Some (?rs @ [r], dev_extended ?fi ?n 0 t, p')"
  proof (cases "off < ?al")
    case True
    then show ?thesis using dev_lookup_segments_run[OF L assms(4) _ order_refl, of p] x assms(6) D(4) p unfolding dev_fetch_storage_def e sz by simp
  next
    case False
    then show ?thesis using x assms(6) D(4) p unfolding dev_fetch_storage_def e sz by simp
  qed
  let ?g = "dev_extended ?fi ?n 0 t"
  have g: "df_attributes ?g = df_attributes f" "df_used_offset ?g = df_used_offset f" "df_seg ?g (df_next f) = Some (dev_new_seg ?al ?n 0)" by (simp_all add: dev_extended_def)
  have "st_size (df_attributes ?g) = df_used_offset ?g" using st g by simp
  from dev_update_run[OF this, of ?e] obtain a where
    a: "dev_update_size ?g (to_size ?e) = ?g\<lparr>df_used_offset := max (df_used_offset f) ?e, df_attributes := a\<rparr>" "st_size a = ?e"
    using assms(4,6,7) D(7) p g(2) by (auto simp: max_def)
  have "to_size off + sz = to_size ?e" by (rule to_size_add)
  then show ?thesis using f a g(3) unfolding dev_file_allocate_def by (auto simp: Let_def intro!: exI[of _ "df_next f"])
qed

theorem full_device_not_reported_witness:
  "\<exists>f' p' a seg. dev_file_allocate sample_dev (new_dev_file temporary) sample_pool 0 65537 = Some (0, f', p') \<and> st_size (df_attributes f') = 65537 \<and>
    df_seg f' a = Some seg \<and> \<not> ds_is_gap seg \<and> dev_data seg = 0"
proof -
  have h: "dev_holds sample_dev Map.empty sample_pool (mc_mem sample_device) Map.empty"
    using init_holds[OF sample_pool_init, of "mc_mem sample_device" sample_dev] sample_device_mem(1) by simp
  let ?f = "new_dev_file temporary" and ?m = "mc_mem sample_device"
  obtain C where h: "dev_holds sample_dev [0 \<mapsto> ?f] sample_pool ?m C"
    using dev_executes[OF sample_dev_good h, of "File_Create 0"] by auto
  have "xalign 65537 4096 = 69632"
  proof -
    have "(4096 :: size_t) = 2 ^ 12" by simp
    then show ?thesis using xalign_pow2[of 65537 12] by simp
  qed
  then have n: "bp_allocate (nat (xalign (0 + uint (65537 :: size_t)) 4096 - df_alloc_offset ?f)) sample_pool = Some (0, sample_pool)"
    by (simp add: new_dev_file_def bp_allocate_def sample_pool_def find_place_def free_run.simps NVML_MAPPINGS_def reserve_def scan.simps[of _ 17] start_over_def)
  have a: "df_alloc_offset ?f = 0" by (simp add: new_dev_file_def)
  show ?thesis using full_device_not_reported[OF h _ sample_dev_good _ _ _ _ n, of 0] a by auto
qed

text \<open>
  C37: Truncating a file loses units of the device.  A file that has storage and is grown by a
  second allocation, then truncated to nothing and deleted, does not give back all of its
  units: a unit that was free before the file was grown is still taken after the file is gone.
\<close>

theorem truncated_units_lost:
  assumes "dev_holds env F p (mc_mem s) C" "F i = Some f" "good_dev env" "0 < df_alloc_offset f" "df_alloc_offset f < e" "e < 2 ^ 43" "dev_room f p e"
  shows "\<exists>f1 p1 f2 s2 p2 k. dev_file_allocate env f p 0 (to_size e) = Some (0, f1, p1) \<and> dev_truncate env f1 p1 s 0 = Some (Inr (f2, p1, s2)) \<and>
    dev_file_destroy f2 p1 = Some p2 \<and> bp_bitset p2 k \<and> \<not> bp_bitset p k"
proof -
  let ?m = "mc_mem s" let ?sz = "to_size e"
  from assms(1,2) obtain live sl where M: "dev_mem env p live ?m" and F: "dev_file_ok env (view_of env p live ?m) sl f" and u: "units_4k p" unfolding dev_holds_def by blast
  have z: "uint ?sz = e" "0 < ?sz" using to_size_unat[of e] assms(4-6) by (simp_all add: word_less_def)
  from dev_allocate_run[OF M F u assms(3) order_refl _ z(2)] assms(4-7) z(1) obtain sl' f1 p1 live' where
    x: "dev_file_allocate env f p 0 ?sz = Some (0, f1, p1)" "dev_file_ok env (view_of env p1 live' ?m) sl' f1" "df_used_offset f1 = max (df_used_offset f) e"
      "dev_fetched env sl (f\<lparr>df_initialized := True\<rparr>) p live ?m e sl' (f1\<lparr>df_used_offset := df_used_offset f, df_attributes := df_attributes f\<rparr>) p1 live'" by auto
  from x(4) assms(5) have y: "sl' = sl @ [df_next f]" "dev_mem env p1 live' ?m" "same_dims p p1" "\<forall>x. map_of live x \<noteq> None \<longrightarrow> map_of live' x = map_of live x"
    "\<forall>a seg. a \<in> set sl' - set sl \<and> df_seg f1 a = Some seg \<longrightarrow> map_of live (dev_data seg) = None" unfolding dev_fetched_def by auto
  have A: "layout (abs_env env) sl (abs_f f) (view_of env p live ?m)" "layout (abs_env env) sl' (abs_f f1) (view_of env p1 live' ?m)"
    using F x(2) by (auto simp: dev_file_ok_def dev_layout_def)
  have "sl \<noteq> []" using layoutD(1)[OF A(1)] assms(4) by auto
  then obtain a ss where sl: "sl = a # ss" by (cases sl) auto
  have nx: "df_next f \<notin> set sl" using layoutD(10)[OF A(2)] y(1) by simp
  have "dev_file_ok env (view_of env p1 live' ?m) (a # (ss @ [df_next f])) f1" using x(2) y(1) sl by simp
  moreover have "0 < df_used_offset f1" using x(3) assms(4,5) by simp
  ultimately obtain f2 s2 p2 seg where
    t: "dev_truncate env f1 p1 s 0 = Some (Inr (f2, p1, s2))" "dev_file_destroy f2 p1 = Some p2" "df_seg f1 (df_next f) = Some seg"
      "map_of live' (dev_data seg) = Some (dp_length (ds_pool seg))" "\<forall>k \<in> units_of p1 (dev_data seg, dp_length (ds_pool seg)). bp_bitset p2 k"
    using dev_empty_run[OF y(2), of a "ss @ [df_next f]" f1 "df_next f"] by auto
  have fr: "map_of live (dev_data seg) = None" using y(1,5) t(3) nx by auto
  let ?u = "(dev_data seg, dp_length (ds_pool seg))"
  have P: "taken p live" "taken p1 live'" "0 < bp_size_of_segment p" using M y(2) by (auto simp: dev_mem_def pool_dim_def)
  have ul: "?u \<in> set live'" using map_of_SomeD[OF t(4)] .
  then have "whole p1 ?u" using P(2) by (simp add: taken_def)
  then have "units_of p1 ?u \<noteq> {}" using P(3) y(3) by (auto simp: whole_def units_of_def same_dims_def)
  then obtain k where k: "k \<in> units_of p1 ?u" by blast
  have "k \<notin> units_of p v" if v: "v \<in> set live" for v
  proof -
    have "map_of live (fst v) = Some (snd v)" using map_of_is_SomeI[OF taken_distinct[OF P(1,3)], of "fst v" "snd v"] v by simp
    then have "v \<in> set live'" "v \<noteq> ?u" using y(4) map_of_SomeD[of live' "fst v" "snd v"] fr by auto
    then have "units_of p1 ?u \<inter> units_of p1 v = {}" using taken_disjoint[OF P(2) ul] by blast
    then show ?thesis using k y(3) by (auto simp: units_of_def same_dims_def)
  qed
  then have "k \<notin> (\<Union>u \<in> set live. units_of p u)" by blast
  then have "\<not> bp_bitset p k" using P(1) unfolding taken_def by blast
  then show ?thesis using x(1) t(1,2,5) k by blast
qed

text \<open>The pool after one unit is taken.\<close>

definition sample_pool1 :: big_pool where
  "sample_pool1 = sample_pool\<lparr>bp_bitset := (\<lambda>k. k = 0), bp_offset := 2\<rparr>"

lemma sample_allocate: "bp_allocate 4096 sample_pool = Some (1048576, sample_pool1)" "\<exists>p. bp_allocate 4096 sample_pool1 = Some (1056768, p)"
  by (simp_all add: bp_allocate_def sample_pool_def sample_pool1_def find_place_def free_run.simps NVML_MAPPINGS_def reserve_def start_over_def)

lemma sample_grown:
  "\<exists>f C. dev_holds sample_dev [0 \<mapsto> f] sample_pool1 (mc_mem sample_device) C \<and> df_alloc_offset f = 4096"
proof -
  let ?f = "new_dev_file temporary" let ?fi = "?f\<lparr>df_initialized := True\<rparr>" let ?m = "mc_mem sample_device" let ?e = sample_dev
  have h: "dev_holds ?e Map.empty sample_pool ?m Map.empty"
    using init_holds[OF sample_pool_init, of ?m ?e] sample_device_mem(1) by simp
  then obtain live where M: "dev_mem ?e sample_pool live ?m" and u: "units_4k sample_pool" unfolding dev_holds_def by auto
  have F: "dev_file_ok ?e V [] ?f" for V by (rule dev_new_file)
  have L: "dev_layout ?e (view_of ?e sample_pool live ?m) [] ?fi" using F by (simp add: dev_file_ok_def)
  then have A: "layout (abs_env ?e) [] (abs_f ?fi) (view_of ?e sample_pool live ?m)" by (simp add: dev_layout_def)
  have x: "xalign 1 4096 = 4096" using xalign_pow2[of 1 12] by simp
  have n: "df_alloc_offset ?f = 0" by (simp add: new_dev_file_def)
  have "de_segment_size ?e = 4096" by (simp add: sample_dev_def)
  from dev_extend_gen[OF L u this, of 0 1 4096 1048576 sample_pool1 "[]"] sample_allocate(1) x n obtain rs t where
    ex: "dev_extend_storage ?e ?fi sample_pool 0 1 [] = Some (rs, dev_extended ?fi 4096 1048576 t, sample_pool1)" by auto
  have room: "dev_room ?f sample_pool (0 + uint (1 :: size_t))" using sample_room[of 1 temporary] by simp
  from dev_allocate_run[OF M F u sample_dev_good order_refl _ _ _ room] n obtain sl f p' live' where
    r: "dev_file_allocate ?e ?f sample_pool 0 1 = Some (0, f, p')" "dev_mem ?e p' live' ?m" "dev_file_ok ?e (view_of ?e p' live' ?m) sl f" "same_dims sample_pool p'"
    unfolding dev_fetched_def by auto
  have "dev_fetch_storage ?e ?fi sample_pool 0 1 = Some (rs, dev_extended ?fi 4096 1048576 t, sample_pool1)"
    using ex n layoutD(4)[OF A] by (simp add: dev_fetch_storage_def to_size_def to_off_def)
  then have p': "p' = sample_pool1" "df_alloc_offset f = 4096" using r(1) n by (auto simp: dev_file_allocate_def dev_extended_def Let_def dev_update_size_def)
  have "dev_holds ?e [0 \<mapsto> f] p' ?m [0 \<mapsto> dev_content (view_of ?e p' live' ?m) sl f]"
    unfolding dev_holds_def using units_dims[OF u r(4)] r(2,3) by auto
  then show ?thesis using p' by blast
qed

theorem truncated_units_lost_witness:
  "\<exists>f f1 p1 f2 s2 p2 k. dev_file_allocate sample_dev f sample_pool1 0 4097 = Some (0, f1, p1) \<and> dev_truncate sample_dev f1 p1 sample_device 0 = Some (Inr (f2, p1, s2)) \<and>
    dev_file_destroy f2 p1 = Some p2 \<and> bp_bitset p2 k \<and> \<not> bp_bitset sample_pool1 k"
proof -
  obtain f C where f: "dev_holds sample_dev [0 \<mapsto> f] sample_pool1 (mc_mem sample_device) C" "df_alloc_offset f = 4096" using sample_grown by blast
  have "xalign 4097 4096 = 8192" using xalign_pow2[of 4097 12] by simp
  then have "dev_room f sample_pool1 4097" using f(2) sample_allocate(2) by (auto simp: dev_room_def)
  then show ?thesis using truncated_units_lost[OF f(1) _ sample_dev_good, of 0 f 4097] f(2) by (fastforce simp: to_size_def)
qed

end
