(* ===== verification/Devdax_Names_Props.thy ===== *)
theory Devdax_Names_Props
  imports Devdax_Names Devdax_File_Props
begin

text \<open>The whole back end of the device against its specification: named files with directories.\<close>

section \<open>The specification\<close>

datatype name_op = Name_Create string nat | Name_Write string off_t fuse_bufvec | Name_Unlink string | Name_Rename string string | Name_Mkdir string nat | Name_Rmdir string

type_synonym named_files = "(string \<rightharpoonup> byte list) \<times> string set"

fun name_spec :: "memory \<Rightarrow> name_op \<Rightarrow> named_files \<Rightarrow> named_files" where
  "name_spec m (Name_Create f mode) (P, D) = (P(f \<mapsto> []), D)"
| "name_spec m (Name_Write f off v) (P, D) = (P(f := map_option (pwrite (nat off) (src_bytes m v)) (P f)), D)"
| "name_spec m (Name_Unlink f) (P, D) = (P(f := None), D)"
| "name_spec m (Name_Rename f g) (P, D) = (P(g := P f, f := None), D)"
| "name_spec m (Name_Mkdir f mode) (P, D) = (P, insert (f @ [slash]) D)"
| "name_spec m (Name_Rmdir f) (P, D) = (P, D - {f @ [slash]})"

text \<open>
  The calls as the kernel makes them: a path is a directory and a name, an entry that is made
  does not exist yet, and a directory that is removed is empty.
\<close>

definition entry_ok :: "string set \<Rightarrow> string \<Rightarrow> bool" where
  "entry_ok D f \<longleftrightarrow> dir_part f \<in> D \<and> valid_name (base_part f)"

fun name_ok :: "memory \<Rightarrow> addr set \<Rightarrow> named_files \<Rightarrow> name_op \<Rightarrow> bool" where
  "name_ok m A (P, D) (Name_Create f mode) \<longleftrightarrow> entry_ok D f \<and> P f = None \<and> f @ [slash] \<notin> D"
| "name_ok m A (P, D) (Name_Write f off v) \<longleftrightarrow> write_ok m A (P f) off v"
| "name_ok m A (P, D) (Name_Unlink f) \<longleftrightarrow> P f \<noteq> None"
| "name_ok m A (P, D) (Name_Rename f g) \<longleftrightarrow> P f \<noteq> None \<and> entry_ok D g \<and> g \<noteq> f \<and> g @ [slash] \<notin> D"
| "name_ok m A (P, D) (Name_Mkdir f mode) \<longleftrightarrow> entry_ok D f \<and> P f = None \<and> f @ [slash] \<notin> D"
| "name_ok m A (P, D) (Name_Rmdir f) \<longleftrightarrow> entry_ok D f \<and> f @ [slash] \<in> D \<and>
     {x. valid_name x \<and> ((f @ [slash]) @ x \<in> dom P \<or> (f @ [slash]) @ x @ [slash] \<in> D)} = {}"

section \<open>The back end implements it\<close>

type_synonym 'w named_state = "dev_backend \<times> 'w machine"

definition done_ok :: "'w machine \<Rightarrow> (int \<times> dev_backend) option \<Rightarrow> 'w named_state option" where
  "done_ok s r = (case r of Some (rv, d) \<Rightarrow> if rv = 0 then Some (d, s) else None | None \<Rightarrow> None)"

fun dd_exec :: "'w dev_env \<Rightarrow> 'w host \<Rightarrow> 'w named_state \<Rightarrow> name_op \<Rightarrow> 'w named_state option" where
  "dd_exec env h (d, s) (Name_Create f mode) = (case dd_create h d f mode of (rv, _, d) \<Rightarrow> done_ok s (Some (rv, d)))"
| "dd_exec env h (d, s) (Name_Write f off v) = do {
     i \<leftarrow> dd_find d f;
     ob \<leftarrow> db_objs d i;
     r \<leftarrow> dev_put_data env ob (db_pool d) s off (of_nat (length (src_bytes (mc_mem s) v))) v;
     case r of Inl _ \<Rightarrow> None | Inr (n, v, ob, p, s) \<Rightarrow> Some (d\<lparr>db_objs := (db_objs d)(i \<mapsto> ob), db_pool := p\<rparr>, s) }"
| "dd_exec env h (d, s) (Name_Unlink f) = done_ok s (dd_unlink h {} d f)"
| "dd_exec env h (d, s) (Name_Rename f g) = done_ok s (dd_rename h {} d f g)"
| "dd_exec env h (d, s) (Name_Mkdir f mode) = done_ok s (dd_mkdir h d f mode)"
| "dd_exec env h (d, s) (Name_Rmdir f) = done_ok s (dd_rmdir h d f)"

fun dd_fits :: "'w named_state \<Rightarrow> name_op \<Rightarrow> bool" where
  "dd_fits (d, s) (Name_Write f off v) \<longleftrightarrow> (case Option.bind (dd_find d f) (db_objs d) of None \<Rightarrow> True
     | Some ob \<Rightarrow> dev_room ob (db_pool d) (off + int (length (src_bytes (mc_mem s) v))))"
| "dd_fits (d, s) op \<longleftrightarrow> True"

lemma path_split: "dir_part f @ base_part f = f"
  by (metis base_part_def dir_part_def rev_append rev_rev_ident takeWhile_dropWhile_id)

lemma write_named:
  fixes env :: "'w dev_env" and s :: "'w machine"
  assumes N: "dev_named env d (mc_mem s) (P, D)" and g: "good_dev env" and w: "write_ok (mc_mem s) {de_block env} (P f) off v" and fit: "dd_fits (d, s) (Name_Write f off v)"
  shows "\<exists>d' s'. dd_exec env h (d, s) (Name_Write f off v) = Some (d', s') \<and> dev_named env d' (mc_mem s') (name_spec (mc_mem s) (Name_Write f off v) (P, D)) \<and>
    (\<forall>z. z \<noteq> de_block env \<longrightarrow> mc_mem s' z = mc_mem s z)"
proof -
  from N obtain C where C: "ns_ok (names d)" "D = ns_dirs (names d)" "distinct (map fst (db_files d))" "inj_on (map_of (db_files d)) (dom (map_of (db_files d)))"
    "dom (db_objs d) = ran (map_of (db_files d))" "\<forall>i \<ge> db_next d. db_objs d i = None" "dev_holds env (db_objs d) (db_pool d) (mc_mem s) C" "P = map_comp C (map_of (db_files d))"
    "dom C = dom (db_objs d)" "dom P = dom (map_of (db_files d))" by (rule dev_namedD)
  have "P f \<noteq> None" using w by (auto simp: write_ok_def split: option.splits)
  then obtain i where i: "map_of (db_files d) f = Some i" "P f = C i" using C(8,10) by (auto simp: map_comp_def split: option.splits)
  obtain ob where ob: "db_objs d i = Some ob" using i(1) C(5) by (metis domD ranI)
  have "dev_fits (db_objs d, db_pool d, s) (File_Write i off v)" using fit i(1) ob by (simp add: dd_find_def)
  with dev_executes[OF g C(7), of "File_Write i off v"] w i(2) obtain F' p' s' where
    x: "dev_exec env (db_objs d, db_pool d, s) (File_Write i off v) = Some (F', p', s')"
      "dev_holds env F' p' (mc_mem s') (C(i := map_option (pwrite (nat off) (src_bytes (mc_mem s) v)) (C i)))" "\<forall>z. z \<noteq> de_block env \<longrightarrow> mc_mem s' z = mc_mem s z" by auto
  from x(1) ob obtain ob' where F': "F' = (db_objs d)(i \<mapsto> ob')" and run: "dd_exec env h (d, s) (Name_Write f off v) = Some (d\<lparr>db_objs := F', db_pool := p'\<rparr>, s')"
    using i(1) by (auto simp: dd_find_def split: sum.splits elim!: bind_eq_SomeE)
  let ?d = "d\<lparr>db_objs := F', db_pool := p'\<rparr>"
  have ok: "ns_ok (names ?d)" by (rule ns_ok_names[OF C(1)]) (use C(5) F' in \<open>auto simp: dom_def ran_def\<close>)
  have "P(f := map_option (pwrite (nat off) (src_bytes (mc_mem s) v)) (P f)) = map_comp (C(i := map_option (pwrite (nat off) (src_bytes (mc_mem s) v)) (C i))) (map_of (db_files d))"
  proof
    fix y
    have "map_of (db_files d) y \<noteq> Some i" if "y \<noteq> f" using inj_owner[OF C(4) i(1)] that by (metis fun_upd_other ranI)
    then show "(P(f := map_option (pwrite (nat off) (src_bytes (mc_mem s) v)) (P f))) y = map_comp (C(i := map_option (pwrite (nat off) (src_bytes (mc_mem s) v)) (C i))) (map_of (db_files d)) y"
      using C(8) i by (auto simp: map_comp_def split: option.splits)
  qed
  moreover have "dom F' = ran (map_of (db_files d))" "\<forall>j \<ge> db_next d. F' j = None" using C(5,6) F' ob by auto
  ultimately have "dev_named env ?d (mc_mem s') (name_spec (mc_mem s) (Name_Write f off v) (P, D))" unfolding dev_named_def using ok C(2-4) x(2) by (auto simp: ns_dirs_def)
  then show ?thesis using run x(3) by blast
qed

lemma name_foreign:
  assumes "\<And>z. z \<notin> A \<Longrightarrow> m' z = m z"
  shows "name_ok m A PD op \<Longrightarrow> name_ok m' A PD op \<and> name_spec m' op PD = name_spec m op PD"
  using write_foreign[of A m' m] assms by (cases PD; cases op) auto

lemma dd_executes:
  fixes env :: "'w dev_env" and s :: "'w machine"
  assumes g: "good_dev env" and N: "dev_named env d (mc_mem s) (P, D)" and ok: "name_ok (mc_mem s) {de_block env} (P, D) op" and fit: "dd_fits (d, s) op"
  shows "\<exists>d' s'. dd_exec env h (d, s) op = Some (d', s') \<and> dev_named env d' (mc_mem s') (name_spec (mc_mem s) op (P, D)) \<and> (\<forall>z. z \<noteq> de_block env \<longrightarrow> mc_mem s' z = mc_mem s z)"
proof (cases op)
  case (Name_Create f mode)
  then show ?thesis using create_named[OF N g, of "dir_part f" "base_part f" h mode] ok by (auto simp: entry_ok_def path_split done_ok_def domIff append_assoc[symmetric] simp del: append_assoc)
next
  case (Name_Write f off v)
  then show ?thesis using write_named[OF N g, of f off v h] ok fit by simp
next
  case (Name_Unlink f)
  then show ?thesis using unlink_named[OF N g, of f h] ok by (auto simp: done_ok_def domIff)
next
  case (Name_Rename f t)
  then show ?thesis using rename_named[OF N g, of f "dir_part t" "base_part t" h] ok by (auto simp: entry_ok_def path_split done_ok_def domIff append_assoc[symmetric] simp del: append_assoc)
next
  case (Name_Mkdir f mode)
  then show ?thesis using mkdir_named[OF N, of "dir_part f" "base_part f" h mode] ok by (auto simp: entry_ok_def path_split done_ok_def domIff append_assoc[symmetric] simp del: append_assoc)
next
  case (Name_Rmdir f)
  then show ?thesis using rmdir_named[OF N, of "dir_part f" "base_part f" h] ok by (simp add: entry_ok_def path_split done_ok_def append_assoc[symmetric] del: append_assoc) auto
qed

definition dd_holds :: "'w dev_env \<Rightarrow> 'w named_state \<Rightarrow> named_files \<Rightarrow> bool" where
  "dd_holds env st PD \<longleftrightarrow> good_dev env \<and> dev_named env (fst st) (mc_mem (snd st)) PD"

interpretation named: op_store name_spec name_ok "dd_exec env h" "\<lambda>(d, s). mc_mem s" "{de_block env}" dd_fits "dd_holds env"
  for env :: "'w dev_env" and h :: "'w host"
proof (unfold_locales, goal_cases)
  case (1 m' m c op)
  then show ?case using name_foreign[of "{de_block env}" m' m c op] by blast
next
  case (2 st PD op)
  obtain d s where st: "st = (d, s)" by (cases st)
  obtain P D where PD: "PD = (P, D)" by (cases PD)
  show ?case using 2 dd_executes[of env d s P D op h] unfolding st PD by (auto simp: dd_holds_def)
qed

section \<open>Properties\<close>

lemma names_new: "new_dev_backend h i0 cap rd p = Inr d \<Longrightarrow> new_backend h i0 cap rd = Inr (names d) \<and> db_files d = [] \<and> db_objs d = Map.empty \<and> db_pool d = p"
  by (auto simp: new_dev_backend_def new_backend_def Let_def dd_new_inode_def new_inode_def names_def split: option.splits)

lemma named_new:
  assumes "new_dev_backend h i0 cap rd p = Inr d" "dev_holds env Map.empty p m Map.empty"
  shows "dev_named env d m (Map.empty, {[slash]})"
proof -
  note n = names_new[OF assms(1)]
  then have "ns_ok (names d) \<and> ns_dirs (names d) = {[slash]}" using new_backend_ok[of h i0 cap rd "names d"] by blast
  then show ?thesis using n assms(2) by (auto simp: dev_named_def map_comp_def)
qed

text \<open>What a back end that holds \<open>P\<close> and \<open>D\<close> shows.\<close>

lemma named_shows:
  fixes env :: "'w dev_env" and s :: "'w machine"
  assumes N: "dev_named env d (mc_mem s) (P, D)"
  shows "dd_exists d f \<longleftrightarrow> P f \<noteq> None"
    and "p \<in> D \<Longrightarrow> \<exists>xs. dd_readdir d p = [''.'', ''..''] @ xs \<and> distinct xs \<and> set xs = {n. valid_name n \<and> (P (p @ n) \<noteq> None \<or> p @ n @ [slash] \<in> D)}"
    and "P f = Some c \<Longrightarrow> \<exists>st. dd_stat d f = (0, Some st) \<and> st_size st = int (length c)"
    and "P f = Some c \<Longrightarrow> c \<noteq> [] \<Longrightarrow> length c < 2 ^ 61 \<Longrightarrow> bv_buf v \<noteq> [] \<Longrightarrow> de_memalign env s (of_nat (length c)) = Some q \<Longrightarrow> mc_mem s q = None \<Longrightarrow>
      \<exists>i ob v' ob' s'. dd_find d f = Some i \<and> db_objs d i = Some ob \<and> dev_get_data env ob (db_pool d) s 0 (of_nat (length c)) v = Some (Inr (0, v', ob', s')) \<and>
        fb_mem (hd (bv_buf v')) = Some (q, 0) \<and> fb_size (hd (bv_buf v')) = length c \<and> mem_read (mc_mem s') (q, 0) (length c) = Some c"
proof -
  from N obtain C where C: "ns_ok (names d)" "D = ns_dirs (names d)" "dom (db_objs d) = ran (map_of (db_files d))"
    "dev_holds env (db_objs d) (db_pool d) (mc_mem s) C" "P = map_comp C (map_of (db_files d))" "dom P = dom (map_of (db_files d))" by (rule dev_namedD)
  have dp: "dom P = ns_files (names d)" using C(6) by (simp add: ns_names)
  show "dd_exists d f \<longleftrightarrow> P f \<noteq> None" using C(6) by (auto simp: dd_exists_def)
  show "\<exists>xs. dd_readdir d p = [''.'', ''..''] @ xs \<and> distinct xs \<and> set xs = {n. valid_name n \<and> (P (p @ n) \<noteq> None \<or> p @ n @ [slash] \<in> D)}" if "p \<in> D"
    using do_readdir_run[OF C(1), of p] that unfolding names_readdir dp[symmetric] C(2)[symmetric] by (simp add: domIff)
  have ob: "\<exists>i ob. map_of (db_files d) f = Some i \<and> db_objs d i = Some ob \<and> C i = Some c" if "P f = Some c"
    using that C(3,5) by (auto simp: map_comp_def split: option.splits) (metis domD ranI)
  show "\<exists>st. dd_stat d f = (0, Some st) \<and> st_size st = int (length c)" if "P f = Some c"
  proof -
    from ob[OF that] obtain i ob where o: "map_of (db_files d) f = Some i" "db_objs d i = Some ob" "C i = Some c" by blast
    from C(4) o obtain V sl where V: "dev_file_ok env V sl ob" "c = dev_content V sl ob" unfolding dev_holds_def by fastforce
    then have A: "layout (abs_env env) sl (abs_f ob) V" by (simp add: dev_file_ok_def dev_layout_def)
    have "st_size (df_attributes ob) = int (length c)" using V file_content_length[OF A] layoutD(6)[OF A] by (simp add: dev_file_ok_def dev_content_def)
    then show ?thesis using o by (simp add: dd_stat_def dev_stat_def)
  qed
  assume c: "P f = Some c" "c \<noteq> []" "length c < 2 ^ 61" and v: "bv_buf v \<noteq> []" and al: "de_memalign env s (of_nat (length c)) = Some q" "mc_mem s q = None"
  obtain i b where o: "map_of (db_files d) f = Some i" "db_objs d i = Some b" "C i = Some c" using ob[OF c(1)] by blast
  show "\<exists>i ob v' ob' s'. dd_find d f = Some i \<and> db_objs d i = Some ob \<and> dev_get_data env ob (db_pool d) s 0 (of_nat (length c)) v = Some (Inr (0, v', ob', s')) \<and>
        fb_mem (hd (bv_buf v')) = Some (q, 0) \<and> fb_size (hd (bv_buf v')) = length c \<and> mem_read (mc_mem s') (q, 0) (length c) = Some c"
    using holds_read[OF C(4) o(2,3) c(2,3) v al] o(1,2) by (auto simp: dd_find_def)
qed

text \<open>
  C14: The back end of the device is a store of named files.  On a freshly mapped device with
  units of 4096 bytes, any sequence of calls that create, write, rename and unlink files and make
  and remove directories, as the kernel makes them, with every write at or before the end of
  its file and with room for what is written, runs to its end.  Afterwards the files are those of the specification, with their sizes; reading one
  returns exactly its bytes, and every directory lists exactly what is in it.
\<close>

theorem device_name_space:
  assumes "init_pool 4096 a len new_big_pool = Some p" "4096 \<le> len" "0 < a" "a + len < 2 ^ 64" "good_dev env" "mc_mem s (de_block env) = Some b" "blk_len b = len"
    "new_dev_backend h i0 cap rd p = Inr d" "ops_ok name_spec name_ok (mc_mem s) {de_block env} (Map.empty, {[slash]}) ops" "run_fits (dd_exec env h) dd_fits (d, s) ops"
    "\<And>s n. n < 2 ^ 62 \<Longrightarrow> de_memalign env s n = Some q" "mc_mem s q = None" "bv_buf v \<noteq> []"
  shows "\<exists>d' s' P D. run_ops (dd_exec env h) (d, s) ops = Some (d', s') \<and> ops_spec name_spec (mc_mem s) ops (Map.empty, {[slash]}) = (P, D) \<and>
    (\<forall>f. dd_exists d' f \<longleftrightarrow> P f \<noteq> None) \<and>
    (\<forall>f c. P f = Some c \<longrightarrow> (\<exists>st. dd_stat d' f = (0, Some st) \<and> st_size st = int (length c))) \<and>
    (\<forall>p \<in> D. \<exists>xs. dd_readdir d' p = [''.'', ''..''] @ xs \<and> distinct xs \<and> set xs = {n. valid_name n \<and> (P (p @ n) \<noteq> None \<or> p @ n @ [slash] \<in> D)}) \<and>
    (\<forall>f c. P f = Some c \<and> c \<noteq> [] \<and> length c < 2 ^ 61 \<longrightarrow> (\<exists>i ob v' ob' s''. dd_find d' f = Some i \<and> db_objs d' i = Some ob \<and>
      dev_get_data env ob (db_pool d') s' 0 (of_nat (length c)) v = Some (Inr (0, v', ob', s'')) \<and>
      fb_mem (hd (bv_buf v')) = Some (q, 0) \<and> fb_size (hd (bv_buf v')) = length c \<and> mem_read (mc_mem s'') (q, 0) (length c) = Some c))"
proof -
  have "dev_holds env Map.empty p (mc_mem s) Map.empty" using init_holds[OF assms(1-4)] assms(6,7) by blast
  then have "dd_holds env (d, s) (Map.empty, {[slash]})" using named_new[OF assms(8)] assms(5) by (simp add: dd_holds_def)
  from named.runs_ops[OF this, of ops h] assms(9,10) obtain d' s' where
    r: "run_ops (dd_exec env h) (d, s) ops = Some (d', s')" "dev_named env d' (mc_mem s') (ops_spec name_spec (mc_mem s) ops (Map.empty, {[slash]}))"
      "\<forall>z. z \<noteq> de_block env \<longrightarrow> mc_mem s' z = mc_mem s z" by (auto simp: dd_holds_def)
  obtain P D where PD: "ops_spec name_spec (mc_mem s) ops (Map.empty, {[slash]}) = (P, D)" by (cases "ops_spec name_spec (mc_mem s) ops (Map.empty, {[slash]})")
  note S = named_shows[OF r(2)[unfolded PD]]
  have "q \<noteq> de_block env" using assms(6,12) by auto
  then have q: "mc_mem s' q = None" using r(3) assms(12) by simp
  have al: "de_memalign env s' (of_nat k) = Some q" if "k < 2 ^ 61" for k
    using that by (intro assms(11)) (simp add: word_less_nat_alt unsigned_of_nat take_bit_nat_def)
  show ?thesis
    by (rule exI[of _ d'], rule exI[of _ s'], rule exI[of _ P], rule exI[of _ D]) (use r(1) PD S(1-3) S(4)[OF _ _ _ assms(13) al q] in blast)
qed

text \<open>A directory with a file that is written, renamed and unlinked again, next to one that stays.\<close>

definition sample_name_ops :: "name_op list" where
  "sample_name_ops = [Name_Mkdir ''/a'' 493, Name_Create ''/a/x'' 420, Name_Write ''/a/x'' 0 sample_vec, Name_Create ''/y'' 420, Name_Rename ''/a/x'' ''/z'', Name_Unlink ''/y'', Name_Rmdir ''/a'']"

definition sample_dev_backend :: dev_backend where
  "sample_dev_backend = \<lparr>db_capacity = 0, db_root_dir = ''/r/'', db_files = [], db_objs = (\<lambda>_. None), db_next = 0,
     db_dirs = [(''/'', new_dir ''/'' 1 null_stat persistent True)], db_inode = 2, db_pool = sample_pool\<rparr>"

lemma sample_dev_backend_new: "new_dev_backend sample_host 1 0 ''/r/'' sample_pool = Inr sample_dev_backend"
  by (simp add: new_dev_backend_def sample_host_def sample_dev_backend_def dd_new_inode_def)

fun is_write :: "name_op \<Rightarrow> bool" where
  "is_write (Name_Write f off v) \<longleftrightarrow> True"
| "is_write op \<longleftrightarrow> False"

lemma fits_rest: "list_all (\<lambda>op. \<not> is_write op) ops \<Longrightarrow> run_fits (dd_exec env h) dd_fits st ops"
proof (induction ops arbitrary: st)
  case (Cons op ops)
  then have "dd_fits st op" by (cases st; cases op) auto
  then show ?case using Cons by (simp split: option.splits)
qed simp

lemma sample_names_ok: "ops_ok name_spec name_ok (mc_mem sample_device) {de_block sample_dev} (Map.empty, {[slash]}) sample_name_ops"
  using sample_device_mem by (simp add: sample_name_ops_def entry_ok_def dir_part_def base_part_def valid_name_def write_ok_def)

lemma sample_names_spec: "ops_spec name_spec (mc_mem sample_device) sample_name_ops (Map.empty, {[slash]}) = ([''/z'' \<mapsto> [1, 2, 3, 4]], {''/''})"
  using sample_device_mem by (auto simp: sample_name_ops_def ops_spec_def pwrite_def fun_eq_iff)

lemma sample_names_fit: "run_fits (dd_exec sample_dev sample_host) dd_fits (sample_dev_backend, sample_device) sample_name_ops"
proof -
  have r: "dev_room ob sample_pool 4" if "df_alloc_offset ob = 0" for ob
    using that sample_room[of 4 temporary] by (simp add: dev_room_def new_dev_file_def)
  have al: "df_alloc_offset (dev_save_attributes (new_dev_file temporary) st) = 0" for st by (simp add: dev_save_attributes_def new_dev_file_def)
  have "list_all (\<lambda>op. \<not> is_write op) [Name_Create ''/y'' 420, Name_Rename ''/a/x'' ''/z'', Name_Unlink ''/y'', Name_Rmdir ''/a'']" by simp
  then have rest: "run_fits (dd_exec sample_dev sample_host) dd_fits st [Name_Create ''/y'' 420, Name_Rename ''/a/x'' ''/z'', Name_Unlink ''/y'', Name_Rmdir ''/a'']" for st by (rule fits_rest)
  obtain d1 where d1: "dd_exec sample_dev sample_host (sample_dev_backend, sample_device) (Name_Mkdir ''/a'' 493) = Some (d1, sample_device)"
      "map_of (db_dirs d1) ''/a/'' \<noteq> None" "db_files d1 = []" "db_pool d1 = sample_pool"
    by (simp add: done_ok_def dd_mkdir_def sample_dev_backend_def ensure_slash_def dd_new_inode_def emplace_def dir_part_def base_part_def Let_def)
  obtain d2 where d2: "dd_exec sample_dev sample_host (d1, sample_device) (Name_Create ''/a/x'' 420) = Some (d2, sample_device)"
      "map_of (db_files d2) ''/a/x'' = Some (db_next d1)" "df_alloc_offset (the (db_objs d2 (db_next d1))) = 0" "db_objs d2 (db_next d1) \<noteq> None" "db_pool d2 = sample_pool"
    using d1(2-4) by (simp add: done_ok_def dd_create_def parent_of_def ensure_slash_def dir_part_def base_part_def Let_def dd_list_in_def dd_new_inode_def emplace_def al)
  have "dd_fits (d2, sample_device) (Name_Write ''/a/x'' 0 sample_vec)" using d2 r sample_device_mem(3) by (auto simp: dd_find_def)
  then show ?thesis using d1(1) d2(1) rest unfolding sample_name_ops_def by (simp del: dd_exec.simps split: option.splits)
qed

theorem device_name_space_witness:
  "\<exists>d s. run_ops (dd_exec sample_dev sample_host) (sample_dev_backend, sample_device) sample_name_ops = Some (d, s) \<and> (\<forall>f. dd_exists d f \<longleftrightarrow> f = ''/z'') \<and>
    (\<exists>i ob v' ob' s'. dd_find d ''/z'' = Some i \<and> db_objs d i = Some ob \<and> dev_get_data sample_dev ob (db_pool d) s 0 4 sample_vec = Some (Inr (0, v', ob', s')) \<and>
      mem_read (mc_mem s') (1000, 0) 4 = Some [1, 2, 3, 4])"
proof -
  have al: "de_memalign sample_dev s n = Some 1000" for s n by (simp add: sample_dev_def)
  have v: "bv_buf sample_vec \<noteq> []" by (simp add: sample_vec_def)
  have len: "length [1, 2, 3, 4 :: byte] = 4" by simp
  have nm: "4096 \<le> (65536 :: nat)" "0 < (1048576 :: nat)" "1048576 + 65536 < (2 ^ 64 :: nat)" "blk_len \<lparr>blk_len = 65536, blk_byte = \<lambda>_. 9\<rparr> = 65536" by simp_all
  from device_name_space[OF sample_pool_init nm(1-3) sample_dev_good sample_device_mem(1) nm(4) sample_dev_backend_new sample_names_ok sample_names_fit al sample_device_mem(2) v, unfolded sample_names_spec]
  obtain d s P D where r: "run_ops (dd_exec sample_dev sample_host) (sample_dev_backend, sample_device) sample_name_ops = Some (d, s)"
    "([''/z'' \<mapsto> [1, 2, 3, 4]], {''/''}) = (P, D)" "\<forall>f. dd_exists d f \<longleftrightarrow> P f \<noteq> None"
    "\<forall>f c. P f = Some c \<and> c \<noteq> [] \<and> length c < 2 ^ 61 \<longrightarrow> (\<exists>i ob v' ob' s'. dd_find d f = Some i \<and> db_objs d i = Some ob \<and>
      dev_get_data sample_dev ob (db_pool d) s 0 (of_nat (length c)) sample_vec = Some (Inr (0, v', ob', s')) \<and>
      fb_mem (hd (bv_buf v')) = Some (1000, 0) \<and> fb_size (hd (bv_buf v')) = length c \<and> mem_read (mc_mem s') (1000, 0) (length c) = Some c)" by (elim exE conjE) (rule that)
  have P: "P = [''/z'' \<mapsto> [1, 2, 3, 4]]" using r(2) by blast
  have e: "dd_exists d f \<longleftrightarrow> f = ''/z''" for f using r(3) unfolding P by (simp split: if_splits)
  have "P ''/z'' = Some [1, 2, 3, 4] \<and> [1, 2, 3, 4 :: byte] \<noteq> [] \<and> length [1, 2, 3, 4 :: byte] < 2 ^ 61" unfolding P by simp
  from r(4)[rule_format, OF this, unfolded len] have x: "\<exists>i ob v' ob' s'. dd_find d ''/z'' = Some i \<and> db_objs d i = Some ob \<and>
      dev_get_data sample_dev ob (db_pool d) s 0 4 sample_vec = Some (Inr (0, v', ob', s')) \<and> mem_read (mc_mem s') (1000, 0) 4 = Some [1, 2, 3, 4]"
    unfolding of_nat_numeral by blast
  show ?thesis by (rule exI[of _ d], rule exI[of _ s], intro conjI allI, rule r(1), rule e, rule x)
qed

end
