(* ===== verification/Devdax_Loading.thy ===== *)
theory Devdax_Loading
  imports Devdax_Names_Props
begin

text \<open>Loading a file of the underlying file system onto the device.\<close>

section \<open>Filling a segment\<close>

lemma dev_copy_run:
  assumes "streams sc fd w bs w'" "mc_world s = w" "mc_mem s a = Some blk" "k + n + length bs \<le> blk_len blk"
  shows "dev_copy_data sc fd (a, k) n s = Some (int (n + length bs), s\<lparr>mc_world := w', mc_mem := (mc_mem s)(a \<mapsto> blk_write blk (k + n) bs)\<rparr>)"
  using assms
proof (induction arbitrary: s blk n rule: streams.induct)
  case (at_end w w')
  then show ?case by (subst dev_copy_data.simps) (simp add: fun_upd_idem)
next
  case (interrupted w w1 bs w')
  let ?s = "s\<lparr>mc_world := w1\<rparr>"
  have "dev_copy_data sc fd (a, k) n s = dev_copy_data sc fd (a, k) n ?s" using interrupted.hyps(1) interrupted.prems(1) by (subst dev_copy_data.simps) simp
  then show ?case using interrupted.IH[of ?s blk n] interrupted.prems by simp
next
  case (chunk w c w1 bs w')
  let ?m = "(mc_mem s)(a \<mapsto> blk_write blk (k + n) c)" let ?s = "s\<lparr>mc_world := w1, mc_mem := ?m\<rparr>"
  have w: "mem_write (mc_mem s) (a, k + n) c = Some ?m" using chunk.prems by (simp add: mem_write_def)
  have "dev_copy_data sc fd (a, k) n s = dev_copy_data sc fd (a, k) (n + length c) ?s"
    using chunk.hyps(1,2) chunk.prems(1) w by (subst dev_copy_data.simps) (simp add: ptr_add_def)
  also have "\<dots> = Some (int (n + length c + length bs), ?s\<lparr>mc_world := w', mc_mem := (mc_mem ?s)(a \<mapsto> blk_write (blk_write blk (k + n) c) (k + (n + length c)) bs)\<rparr>)"
    by (rule chunk.IH) (use chunk.prems in simp_all)
  also have "\<dots> = Some (int (n + length (c @ bs)), s\<lparr>mc_world := w', mc_mem := (mc_mem s)(a \<mapsto> blk_write blk (k + n) (c @ bs))\<rparr>)"
    using blk_write_append[of blk "k + n" c bs] by (cases s) (auto simp: fun_eq_iff add.assoc)
  finally show ?case .
qed

lemma dev_fill_run:
  assumes st: "streams (de_calls env) fd (mc_world s) bs w'" and M: "dev_mem env p live (mc_mem s)" and x: "map_of live (dev_data seg) = Some (unat (ds_size seg))" "\<not> ds_is_gap seg"
    and n: "int (length bs) \<le> uint (ds_size seg)" "uint (ds_size seg) < 2 ^ 62" and b: "mc_mem s (de_block env) = Some b"
  shows "dev_fill_from env p seg fd s = Some (to_size (int (length bs)), seg\<lparr>ds_bytes := to_size (int (length bs))\<rparr>,
    s\<lparr>mc_world := w', mc_mem := (mc_mem s)(de_block env \<mapsto> blk_write b (dev_data seg - bp_address p) (bs @ replicate (unat (ds_size seg) - length bs) 0))\<rparr>)"
proof -
  let ?x = "dev_data seg" let ?n = "to_size (int (length bs))" let ?k = "?x - bp_address p" let ?N = "unat (ds_size seg)"
  have u: "int ?N = uint (ds_size seg)" by simp
  have le: "length bs \<le> ?N" using n(1) u by linarith
  note R = live_region[OF M x(1)]
  have bl: "blk_len b = bp_length p" using M b by (auto simp: dev_mem_def)
  have fit: "?k + ?N \<le> blk_len b" using R(2,3) bl by linarith
  have l: "?x < 2 ^ 64" "?x + length bs < 2 ^ 64" using R le by linarith+
  have q: "dev_ptr env p ?x = (de_block env, ?k)" using dev_ptr_live(2)[OF M x(1), of 0] l(1) by simp
  have q2: "dev_ptr env p (?x + length bs) = (de_block env, ?k + length bs)" using dev_ptr_live(2)[OF M x(1) le] l(2) by simp
  have off: "to_off ?n = int (length bs)" by (rule to_off_mid) (use n in auto)
  have un: "unat ?n = length bs" using to_size_nat[of "int (length bs)"] n by simp
  then have ui: "uint ?n = int (length bs)" by (metis size_nat)
  have sub: "unat (ds_size seg - ?n) = ?N - length bs" using unat_sub[of ?n "ds_size seg"] ui n(1) un by (simp add: word_le_def)
  let ?b1 = "blk_write b ?k bs" let ?zs = "replicate (?N - length bs) 0" let ?s = "s\<lparr>mc_world := w', mc_mem := (mc_mem s)(de_block env \<mapsto> ?b1)\<rparr>"
  have cp: "dev_copy_data (de_calls env) fd (dev_ptr env p ?x) 0 s = Some (int (length bs), ?s)"
    using dev_copy_run[OF st refl b, of ?k 0] fit le unfolding q by simp
  have dp: "displaced ?x (int (length bs)) = ?x + length bs" using displaced_nat[of "int (length bs)" ?x] l(2) by simp
  have ok: "to_size (to_off ?n) + (ds_size seg - ?n) \<le> ds_size seg" unfolding off by simp
  have "mem_write (mc_mem ?s) (de_block env, ?k + length bs) ?zs = Some ((mc_mem ?s)(de_block env \<mapsto> blk_write ?b1 (?k + length bs) ?zs))" using fit le by (simp add: mem_write_def)
  then have zf: "dev_zero_fill env p (seg\<lparr>ds_bytes := ?n\<rparr>) (to_off ?n) (ds_size seg - ?n) ?s = Some (?s\<lparr>mc_mem := (mc_mem ?s)(de_block env \<mapsto> blk_write b ?k (bs @ ?zs))\<rparr>)"
    using ok x(2) sub dp q2 off unfolding dev_zero_fill_def blk_write_append by (simp add: dev_data_def)
  show ?thesis using cp zf unfolding dev_fill_from_def by simp
qed

section \<open>A loaded file\<close>

lemma dev_data_bytes [simp]: "dev_data (seg\<lparr>ds_bytes := k\<rparr>) = dev_data seg"
  by (simp add: dev_data_def)

lemma dev_load_run:
  assumes M: "dev_mem env p live (mc_mem s)" and u: "units_4k p" and n: "n = xalign (int (length bs)) 4096" and x: "bp_allocate (nat n) p = Some (x, p')" "x \<noteq> 0"
    and st: "streams (de_calls env) fd (mc_world s) bs w'" "st_size stbuf = int (length bs)" "int (length bs) < 2 ^ 43"
  defines "live' \<equiv> (x, nat n) # live"
  shows "\<exists>f s'. dev_load_file env ty ino (Some fd) stbuf p s = Some (Inr (f, p', s')) \<and> dev_mem env p' live' (mc_mem s') \<and> same_dims p p' \<and> map_of live x = None \<and>
    dev_file_ok env (view_of env p' live' (mc_mem s')) [0] f \<and> dev_content (view_of env p' live' (mc_mem s')) [0] f = bs \<and> dev_datas [0] f = [x] \<and>
    (\<forall>y. map_of live y \<noteq> None \<longrightarrow> view_of env p' live' (mc_mem s') y = view_of env p live (mc_mem s) y) \<and> (\<forall>z. z \<noteq> de_block env \<longrightarrow> mc_mem s' z = mc_mem s z) \<and> mc_world s' = w' \<and> df_type f = ty"
proof -
  let ?m = "mc_mem s" let ?f0 = "(new_dev_file ty)\<lparr>df_segments := new_segment_tree 0 off_max None\<rparr>" let ?seg = "dev_new_seg 0 n x"
  have nb: "int (length bs) < n" "0 < n" "n < 2 ^ 44" "4096 dvd n" using xalign_4k[of "int (length bs)"] st(3) by (auto simp: n)
  have un: "uint (to_size n) = n" "unat (to_size n) = nat n" using to_size_unat[of n] to_size_nat[of n] nb by simp_all
  note G = granted_mem[OF M u nb(2-4) x]
  have bp: "bp_address p' = bp_address p" using G(2) by (simp add: same_dims_def)
  let ?f1 = "?f0\<lparr>df_seg := [0 \<mapsto> ?seg], df_next := 1\<rparr>"
  have cs: "dev_create_segment env ?f0 p 0 (to_size n) False = Some (0, ?f1, p')"
    using x(1) u un(2) by (simp add: dev_create_segment_def new_dev_segment_def new_dev_pool_def dev_allocate_def units_4k_def dev_new_seg_def new_dev_file_def)
  have t0: "tree_ok 0 off_max (new_segment_tree 0 off_max None)" by (simp add: tree_ok_def leaves_ok_def new_segment_tree_def off_max_def)
  have pt: "parted 0 n [] [(0, None)] [(off_max, None :: addr option)]" using nb by (auto simp: parted_def off_max_def)
  have "m_leaves (new_segment_tree 0 off_max None) = [] @ [(0, None)] @ [(off_max, None :: addr option)]" by (simp add: new_segment_tree_def)
  from insert_segment_run[OF t0 _ _ pt this, of "Some 0" False] obtain t where
    t: "insert_back (new_segment_tree 0 off_max None) 0 n (Some (0 :: addr)) = Some t" "tree_ok 0 off_max t" "m_leaves t = starts [] 0 (Some 0) @ ends None n (Some 0) [(off_max, None)]"
    using nb by (auto simp: insert_back_def off_max_def)
  have "n \<noteq> off_max" using nb by (simp add: off_max_def)
  then have lv: "m_leaves t = leaves_of h [0] n" if "h 0 = Some sg" "s_offset sg = 0" for h sg using t(3) that by (simp add: starts_def ends_def leaves_of_def seg_off_def)
  have o: "to_off (to_size (int (length bs))) = int (length bs)" "to_off (to_size n) = n" using to_off_mid nb by auto
  have se: "dev_segment_end ?seg = n" using o(2) by (simp add: dev_segment_end_def to_size_def[of 0])
  have ap: "dev_append_segments ?f1 [0] = Some (?f1\<lparr>df_segments := build_tree t\<rparr>)" using t(1) se unfolding dev_append_segments_def by (simp add: new_dev_file_def)
  obtain b where b: "?m (de_block env) = Some b" using M by (auto simp: dev_mem_def)
  let ?k = "x - bp_address p" let ?c = "bs @ replicate (nat n - length bs) 0" let ?m' = "?m(de_block env \<mapsto> blk_write b ?k ?c)" let ?s = "s\<lparr>mc_world := w', mc_mem := ?m'\<rparr>"
  let ?seg' = "?seg\<lparr>ds_bytes := to_size (int (length bs))\<rparr>"
  have M': "dev_mem env p' live' ?m" "map_of live' x = Some (nat n)" using G(1) by (simp_all add: live'_def)
  have fl: "dev_fill_from env p' ?seg fd s = Some (to_size (int (length bs)), ?seg', ?s)"
    using dev_fill_run[OF st(1) M'(1) _ _ _ _ b, of ?seg] M'(2) un nb bp by simp
  let ?F = "?f1\<lparr>df_segments := build_tree t, df_alloc_offset := n, df_seg := [0 \<mapsto> ?seg'], df_used_offset := int (length bs), df_attributes := stbuf\<lparr>st_ino := ino\<rparr>, df_initialized := True\<rparr>"
  have xn: "to_size (xalign (st_size (stbuf\<lparr>st_ino := ino\<rparr>)) (df_segment_size ?f0)) = to_size n" using st(2) by (simp add: n new_dev_file_def)
  have run: "dev_load_file env ty ino (Some fd) stbuf p s = Some (Inr (?F, p', ?s))" using cs ap fl o xn unfolding dev_load_file_def Let_def by (simp add: dev_save_attributes_def)
  let ?V = "view_of env p' live' ?m"
  obtain vb where vb: "?V x = Some vb" "blk_len vb = nat n" using b M'(2) by (simp add: dev_view_def)
  have lc: "length ?c = nat n" using nb(1) by simp
  have vw: "?V(x \<mapsto> blk_write vb 0 ?c) = view_of env p' live' ?m'" using view_write[OF M'(1) vb(1) _ b, of 0 ?c] lc vb(2) bp by simp
  have bytes: "map (blk_byte (blk_write vb 0 ?c)) [0..<blk_len (blk_write vb 0 ?c)] = ?c" using blk_write_bytes[of 0 ?c vb] lc vb(2) by simp
  have "pow2 4096" unfolding pow2_def by (intro exI[of _ 12]) simp
  then have ok: "file_ok (abs_env env) [0] (abs_f ?F) (view_of env p' live' ?m') \<and> file_content [0] (abs_f ?F) (view_of env p' live' ?m') = bs"
    by (intro single_file_ok[where t = "build_tree t" and h = "abs_heap (df_seg ?F)" and a = 0 and n = n and i = x and u = "int (length bs)" and nx = 1 and pools = all_addrs
          and seg = "abs_seg ?seg'" and b = "blk_write vb 0 ?c" and w = 4096 and j = "nat n - length bs", OF build_tree_ok[OF t(2)]])
      (use nb bytes vb(2) st(2) x(2) idle_init G(4) lv[of "abs_heap (df_seg ?F)" "abs_seg ?seg'"] vw[symmetric] in
        \<open>simp_all add: build_tree_def new_dev_file_def all_addrs_def\<close>)
  have A: "layout (abs_env env) [0] (abs_f ?F) (view_of env p' live' ?m')" using ok by (simp add: file_ok_def)
  have so: "solid (abs_env env) all_addrs (view_of env p' live' ?m') (abs_heap (df_seg ?F)) [0]"
    using A by (simp add: solid_def layout_def)
  have "dev_layout env (view_of env p' live' ?m') [0] ?F" unfolding dev_layout_def
    using A so nb(4) un o(1) nb st(3) to_size_unat[of "int (length bs)"] by (auto simp: new_dev_file_def)
  then have "dev_file_ok env (view_of env p' live' ?m') [0] ?F" using idle_init st(2) by (simp add: dev_file_ok_def new_dev_file_def)
  moreover have "dev_datas [0] ?F = [x]" using x(2) by (simp add: datas_def)
  moreover have "view_of env p' live' ?m' y = view_of env p live ?m y" if "map_of live y \<noteq> None" for y
  proof -
    have "y \<noteq> x" using that G(3) by auto
    then have "view_of env p' live' ?m' y = ?V y" using vw by (metis fun_upd_other)
    also have "\<dots> = view_of env p live ?m y" using that bp \<open>y \<noteq> x\<close> by (simp add: dev_view_def live'_def)
    finally show ?thesis .
  qed
  ultimately show ?thesis using run G(2,3) dev_mem_write[OF M'(1) b] ok
    by (intro exI[of _ ?F] exI[of _ ?s]) (simp add: dev_content_def new_dev_file_def)
qed

lemma load_holds:
  assumes H: "dev_holds env F p (mc_mem s) C" and i: "F i = None" and n: "n = xalign (int (length bs)) 4096" and x: "bp_allocate (nat n) p = Some (x, p')" "x \<noteq> 0"
    and st: "streams (de_calls env) fd (mc_world s) bs w'" "st_size stbuf = int (length bs)" "int (length bs) < 2 ^ 43"
  shows "\<exists>f s'. dev_load_file env ty ino (Some fd) stbuf p s = Some (Inr (f, p', s')) \<and> dev_holds env (F(i \<mapsto> f)) p' (mc_mem s') (C(i \<mapsto> bs)) \<and>
    (\<forall>z. z \<noteq> de_block env \<longrightarrow> mc_mem s' z = mc_mem s z) \<and> mc_world s' = w' \<and> df_type f = ty"
proof -
  from H obtain live T where H': "units_4k p" "dom F = dom C" "dev_mem env p live (mc_mem s)"
    "\<forall>i f. F i = Some f \<longrightarrow> dev_file_ok env (view_of env p live (mc_mem s)) (T i) f \<and> C i = Some (dev_content (view_of env p live (mc_mem s)) (T i) f)"
    "\<forall>i j f g. F i = Some f \<longrightarrow> F j = Some g \<longrightarrow> i \<noteq> j \<longrightarrow> set (dev_datas (T i) f) \<inter> set (dev_datas (T j) g) = {}" unfolding dev_holds_def by auto
  let ?V = "view_of env p live (mc_mem s)" let ?live = "(x, nat n) # live"
  have mapped: "map_of live y \<noteq> None" if "F j = Some g" "y \<in> set (dev_datas (T j) g)" for j g y
    using solid_view[of "abs_env env" all_addrs "de_block env" "bp_address p" live "mc_mem s" _ "T j" y] H'(4) that unfolding dev_file_ok_def dev_layout_def by blast
  from dev_load_run[OF H'(3,1) n x st, of ty ino] obtain f s' where
    r: "dev_load_file env ty ino (Some fd) stbuf p s = Some (Inr (f, p', s'))" "dev_mem env p' ?live (mc_mem s')" "same_dims p p'" "map_of live x = None"
      "dev_file_ok env (view_of env p' ?live (mc_mem s')) [0] f" "dev_content (view_of env p' ?live (mc_mem s')) [0] f = bs" "dev_datas [0] f = [x]"
      "\<forall>y. map_of live y \<noteq> None \<longrightarrow> view_of env p' ?live (mc_mem s') y = ?V y" "\<forall>z. z \<noteq> de_block env \<longrightarrow> mc_mem s' z = mc_mem s z" "mc_world s' = w'" "df_type f = ty" by blast
  have "dev_holds env (F(i := Some f)) p' (mc_mem s') (C(i := Some bs))"
  proof (rule dev_holds_update[OF H'(1,2,4,5) r(2,3), where sl' = "[0]"])
    fix j g y
    assume j: "F j = Some g" "j \<noteq> i" "y \<in> set (dev_datas (T j) g)"
    have m: "map_of live y \<noteq> None" by (rule mapped[OF j(1,3)])
    then have "y \<noteq> x" using r(4) by auto
    then show "view_of env p' ?live (mc_mem s') y = ?V y \<and> (\<forall>h. Some f = Some h \<longrightarrow> y \<notin> set (dev_datas [0] h))" using r(7,8) m by auto
  qed (use r(5,6) in simp)
  then show ?thesis using r(1,9-11) by blast
qed

section \<open>Loading through the name space\<close>

lemma names_dirs: "(names d)\<lparr>b_dirs := ds\<rparr> = names (d\<lparr>db_dirs := ds\<rparr>)" "(names d)\<lparr>b_inode := k, b_dirs := ds\<rparr> = names (d\<lparr>db_inode := k, db_dirs := ds\<rparr>)"
  by (simp_all add: names_def)

lemma names_load_dirs: "load_dirs h (names d) path ns = map_option (map_sum id (apsnd names)) (dd_load_dirs h d path ns)"
proof (induction ns arbitrary: d path)
  case (Cons n ns)
  then show ?case by (simp add: Let_def new_inode_def dd_new_inode_def names_dirs split: option.splits)
qed simp

lemma mapped_result:
  assumes "map_option (map_sum id (apsnd g)) r = Some (Inr (a, b))"
  obtains c where "r = Some (Inr (a, c))" "b = g c"
proof -
  from assms obtain v where v: "r = Some v" "map_sum id (apsnd g) v = Inr (a, b)" by auto
  then show ?thesis by (cases v) (auto intro: that)
qed

lemma dd_load_dirs_fields:
  "dd_load_dirs h d path ns = Some (Inr (q, d')) \<Longrightarrow> db_files d' = db_files d \<and> db_objs d' = db_objs d \<and> db_next d' = db_next d \<and> db_pool d' = db_pool d"
proof (induction ns arbitrary: d path)
  case (Cons n ns)
  from Cons.prems show ?case by (auto simp: Let_def dd_new_inode_def split: if_splits option.splits dest!: Cons.IH)
qed simp

lemma dd_load_one_run:
  fixes env :: "'w dev_env" and s :: "'w machine"
  assumes N: "dev_named env d (mc_mem s) (P, D)" and p: "dd_remove_root d pathname = Some (file_path (ns @ [n]))" "\<forall>x \<in> set ns. valid_name x" "valid_name n"
    and free: "file_path (ns @ [n]) \<notin> dom P" "dirs_path (ns @ [n]) \<notin> D" "way_free (dom P) [slash] ns" and host: "\<forall>p. h_open h p \<noteq> None" "h_open h pathname = Some fd"
    and x: "bp_allocate (nat (xalign (int (length bs)) 4096)) (db_pool d) = Some (x, p')" "x \<noteq> 0"
    and st: "streams (de_calls env) fd (mc_world s) bs w'" "st_size (h_fstat h pathname) = int (length bs)" "int (length bs) < 2 ^ 43"
  shows "\<exists>d' s' D'. dd_load_one env h d s pathname ty = Some (Inr (success, d', s')) \<and> dev_named env d' (mc_mem s') (P(file_path (ns @ [n]) \<mapsto> bs), D') \<and> D \<subseteq> D' \<and> dirs_path ns \<in> D' \<and>
    (\<forall>z. z \<noteq> de_block env \<longrightarrow> mc_mem s' z = mc_mem s z) \<and> mc_world s' = w' \<and> (\<exists>f. df_type f = ty \<and> db_objs d' = (db_objs d)(db_next d \<mapsto> f))"
proof -
  from N obtain C where C: "ns_ok (names d)" "D = ns_dirs (names d)" "distinct (map fst (db_files d))" "inj_on (map_of (db_files d)) (dom (map_of (db_files d)))"
    "dom (db_objs d) = ran (map_of (db_files d))" "\<forall>i \<ge> db_next d. db_objs d i = None" "dev_holds env (db_objs d) (db_pool d) (mc_mem s) C" "P = map_comp C (map_of (db_files d))"
    "dom C = dom (db_objs d)" "dom P = dom (map_of (db_files d))" by (rule dev_namedD)
  let ?fp = "file_path (ns @ [n])" let ?i = "db_next d"
  have dp: "dom P = ns_files (names d)" using C(10) by (simp add: ns_names)
  have ni: "?i \<notin> ran (map_of (db_files d))" "db_objs d ?i = None" using C(5,6) by auto
  have nf: "map_of (db_files d) ?fp = None" using free(1) C(10) by auto
  from load_holds[OF C(7) ni(2) refl x st, of ty "fst (dd_new_inode d)"] obtain f s' where
    f: "dev_load_file env ty (fst (dd_new_inode d)) (Some fd) (h_fstat h pathname) (db_pool d) s = Some (Inr (f, p', s'))"
      "dev_holds env ((db_objs d)(?i \<mapsto> f)) p' (mc_mem s') (C(?i \<mapsto> bs))" "\<forall>z. z \<noteq> de_block env \<longrightarrow> mc_mem s' z = mc_mem s z" "df_type f = ty" "mc_world s' = w'" by blast
  let ?d1 = "d\<lparr>db_inode := db_inode d + 1, db_files := (?fp, ?i) # db_files d, db_objs := (db_objs d)(?i \<mapsto> f), db_next := Suc ?i, db_pool := p'\<rparr>"
  have b1: "b_objs (names ?d1) = (b_objs (names d))(?i \<mapsto> abs_file 0 f)" by (auto simp: names_def fun_eq_iff)
  from loaded_names[OF C(1) p(2,3) _ _ _ host(1), of "names ?d1" ?i "abs_file 0 f"] free b1 obtain b2 where
    b2: "load_dirs h (names ?d1) [slash] ns = Some (Inr (dirs_path ns, b2))" "dirs_path ns \<in> ns_dirs b2" "ns_dirs (names d) \<subseteq> ns_dirs b2"
      "ns_ok (b2\<lparr>b_dirs := AList.map_entry (dirs_path ns) (\<lambda>d. add_file (h_time h) d n) (b_dirs b2)\<rparr>)" unfolding dp C(2) by auto
  obtain d2 where d2: "dd_load_dirs h ?d1 [slash] ns = Some (Inr (dirs_path ns, d2))" "b2 = names d2" by (rule mapped_result[OF b2(1)[unfolded names_load_dirs]])
  let ?d' = "d2\<lparr>db_dirs := AList.map_entry (dirs_path ns) (\<lambda>d. add_file (h_time h) d n) (db_dirs d2)\<rparr>"
  have pp: "path_parts ?fp = [slash] # ns @ [n]" by (rule path_parts_file[OF p(2,3)])
  have run: "dd_load_one env h d s pathname ty = Some (Inr (success, ?d', s'))"
    using p(1) nf host(2) f(1) pp d2 b2(2) by (auto simp: dd_load_one_def emplace_def Let_def butlast_append ns_dirs_def dd_new_inode_def)
  have fs: "db_files ?d' = (?fp, ?i) # db_files d" "db_objs ?d' = (db_objs d)(?i \<mapsto> f)" "db_next ?d' = Suc ?i" "db_pool ?d' = p'" using dd_load_dirs_fields[OF d2(1)] by simp_all
  have "ns_ok (names ?d')" using b2(4) d2(2) by (simp add: names_dirs)
  moreover have "ns_dirs (names ?d') = ns_dirs b2" using d2(2) by (simp add: ns_dirs_def)
  moreover have "P(?fp \<mapsto> bs) = map_comp (C(?i \<mapsto> bs)) (map_of (db_files ?d'))" using C(8) fs(1) ni(1) by (auto simp: fun_eq_iff map_comp_def ran_def split: option.splits)
  moreover have "inj_on (map_of (db_files ?d')) (dom (map_of (db_files ?d')))" using C(4) fs(1) ni(1) by (auto simp: inj_on_def ran_def)
  moreover have "dom (db_objs ?d') = ran (map_of (db_files ?d'))" using C(5) fs(1,2) nf by simp
  moreover have "distinct (map fst (db_files ?d'))" using C(3) fs(1) nf by (simp add: map_of_eq_None_iff)
  moreover have "\<forall>i \<ge> db_next ?d'. db_objs ?d' i = None" using C(6) fs(2,3) by simp
  ultimately have "dev_named env ?d' (mc_mem s') (P(?fp \<mapsto> bs), ns_dirs b2)" unfolding dev_named_def using f(2) fs(2,4) by auto
  then show ?thesis using run b2(2,3) C(2) f(3-5) fs(2) by blast
qed

text \<open>
  C15: Loading a file onto the device creates the directories on its way that are missing, and
  makes the bytes that reading it gives the contents of a file under its path without the root
  directory; every other file keeps its contents.
\<close>

theorem device_load:
  fixes env :: "'w dev_env" and s :: "'w machine"
  assumes "dev_named env d (mc_mem s) (P, D)" "dd_remove_root d pathname = Some (file_path (ns @ [n]))" "\<forall>x \<in> set ns. valid_name x" "valid_name n"
    "file_path (ns @ [n]) \<notin> dom P" "dirs_path (ns @ [n]) \<notin> D" "way_free (dom P) [slash] ns" "\<forall>p. h_open h p \<noteq> None" "h_open h pathname = Some fd"
    "bp_allocate (nat (xalign (int (length bs)) 4096)) (db_pool d) = Some (x, p')" "x \<noteq> 0"
    "streams (de_calls env) fd (mc_world s) bs w'" "st_size (h_fstat h pathname) = int (length bs)" "int (length bs) < 2 ^ 43" "h_exists h pathname" "\<not> h_is_directory h pathname"
  shows "\<exists>d' s' D'. dd_load env h d s pathname ty = Some (Inr (success, d', s')) \<and> dev_named env d' (mc_mem s') (P(file_path (ns @ [n]) \<mapsto> bs), D') \<and> D \<subseteq> D' \<and> dirs_path ns \<in> D'"
proof -
  have "dd_load env h d s pathname ty = dd_load_one env h d s pathname ty" using assms(2,15,16) by (simp add: dd_load_def)
  then show ?thesis using dd_load_one_run[OF assms(1-14), of ty] by metis
qed

definition sample_load_dev :: "nat dev_env" where
  "sample_load_dev = \<lparr>de_calls = sample_load_calls, de_have_splice = True, de_tmp = 0, de_copy = fuse_buf_copy_pmem False True sample_load_calls 0, de_block = 7, de_mmap = 1048576,
     de_unmap = (\<lambda>_ _ m. m), de_memalign = (\<lambda>_ _. Some 1000), de_time = 0, de_segment_size = 4096\<rparr>"

definition sample_load_device :: "nat machine" where
  "sample_load_device = \<lparr>mc_world = 0, mc_mem = [7 \<mapsto> \<lparr>blk_len = 65536, blk_byte = (\<lambda>_. 9)\<rparr>]\<rparr>"

theorem device_load_witness:
  "\<exists>d' s' D'. dd_load sample_load_dev sample_load_host sample_dev_backend sample_load_device ''/r/d/f'' persistent = Some (Inr (success, d', s')) \<and>
    dev_named sample_load_dev d' (mc_mem s') ([''/d/f'' \<mapsto> [1, 2, 3]], D') \<and> {''/''} \<subseteq> D' \<and> ''/d/'' \<in> D'"
proof -
  have "dev_holds sample_load_dev Map.empty sample_pool (mc_mem sample_load_device) Map.empty"
    using init_holds[OF sample_pool_init, of "mc_mem sample_load_device" sample_load_dev] by (simp add: sample_load_device_def sample_load_dev_def)
  then have N: "dev_named sample_load_dev sample_dev_backend (mc_mem sample_load_device) (Map.empty, {[slash]})" by (rule named_new[OF sample_dev_backend_new])
  have st: "streams (de_calls sample_load_dev) 3 (mc_world sample_load_device) [1, 2, 3] 1" using sample_streams by (simp add: sample_load_dev_def sample_load_device_def)
  have rr: "dd_remove_root sample_dev_backend ''/r/d/f'' = Some (file_path ([''d''] @ [''f'']))" by (simp add: dd_remove_root_def sample_dev_backend_def file_path_def)
  have v: "\<forall>x \<in> set [''d'']. valid_name x" "valid_name ''f''" by (simp_all add: valid_name_def)
  have h: "\<forall>p. h_open sample_load_host p \<noteq> None" "h_open sample_load_host ''/r/d/f'' = Some 3" "h_exists sample_load_host ''/r/d/f''" "\<not> h_is_directory sample_load_host ''/r/d/f''"
    "st_size (h_fstat sample_load_host ''/r/d/f'') = int (length [1 :: byte, 2, 3])" by (simp_all add: sample_load_host_def null_stat_def)
  have f: "file_path ([''d''] @ [''f'']) = ''/d/f''" "dirs_path [''d''] = ''/d/''" "dirs_path ([''d''] @ [''f'']) = ''/d/f/''" by (simp_all add: file_path_def dirs_path_def)
  have n: "file_path ([''d''] @ [''f'']) \<notin> dom Map.empty" "dirs_path ([''d''] @ [''f'']) \<notin> {[slash]}" "way_free (dom Map.empty) [slash] [''d'']" unfolding f by simp_all
  obtain p' where al: "bp_allocate (nat (xalign (int (length [1 :: byte, 2, 3])) 4096)) (db_pool sample_dev_backend) = Some (1048576, p')"
    using sample_unit[of "int (length [1 :: byte, 2, 3])"] by (auto simp: sample_dev_backend_def)
  have l: "(1048576 :: nat) \<noteq> 0" "int (length [1 :: byte, 2, 3]) < 2 ^ 43" by simp_all
  note r = device_load[OF N rr v n h(1,2) al l(1) st h(5) l(2) h(3,4), where ty = persistent]
  then show ?thesis unfolding f by simp
qed

end
