(* ===== verification/Host_Store.thy ===== *)
theory Host_Store
  imports Nvml_Backend "HOL-Library.Sublist"
begin

text \<open>
  The underlying file system as the code that writes files out relies on it: directories and
  files under lists of path components.  A directory is made in an existing directory, and a
  file is written in an existing directory; \<open>mkdir_p\<close> makes the directories on the way.
\<close>

section \<open>The part up to the last slash\<close>

text \<open>A path is its part up to the last slash and a name.\<close>

lemma dir_base: "dir_part p @ base_part p = p" "slash \<notin> set (base_part p)"
proof -
  have "rev (base_part p) @ rev (dir_part p) = rev p" by (simp add: dir_part_def base_part_def)
  then show "dir_part p @ base_part p = p" by (metis rev_append rev_rev_ident)
  show "slash \<notin> set (base_part p)" unfolding base_part_def by (auto dest: set_takeWhileD)
qed

lemma dir_part_cases: "dir_part p = [] \<or> (\<exists>u. dir_part p = u @ [slash])"
proof (cases "dropWhile (\<lambda>c. c \<noteq> slash) (rev p)")
  case (Cons c x)
  then have "c = slash" using hd_dropWhile[of "\<lambda>c. c \<noteq> slash" "rev p"] by simp
  then show ?thesis using Cons by (simp add: dir_part_def)
qed (simp add: dir_part_def)

lemma comps_dir_base: "comps p = comps (dir_part p) @ (if base_part p = [] then [] else [base_part p])"
proof -
  have n: "comps (base_part p) = (if base_part p = [] then [] else [base_part p])" by (rule comps_name[OF dir_base(2)])
  show ?thesis using dir_part_cases[of p]
  proof (elim disjE exE)
    assume e: "dir_part p = []"
    then have "base_part p = p" using dir_base(1)[of p] by simp
    then show ?thesis using e n by simp
  next
    fix u assume u: "dir_part p = u @ [slash]"
    then have "p = u @ slash # base_part p" using dir_base(1)[of p] by simp
    then have "comps p = comps u @ comps (base_part p)" by (metis comps_append)
    then show ?thesis using u n by simp
  qed
qed

lemma dir_part_snoc: "dir_part (p @ [c]) = (if c = slash then p @ [slash] else dir_part p)"
  by (simp add: dir_part_def)

section \<open>Directories and files of the host\<close>

datatype host_entry = HostDir | HostFile "byte list"

text \<open>Absolute paths without the components \<open>.\<close> and \<open>..\<close>.\<close>

definition plain_path :: "string \<Rightarrow> bool" where
  "plain_path q \<longleftrightarrow> q \<noteq> [] \<and> hd q = slash \<and> ''.'' \<notin> set (comps q) \<and> ''..'' \<notin> set (comps q)"

text \<open>
  What is relied on: \<open>mkdir\<close> of a directory that is there answers \<open>EEXIST\<close>, \<open>mkdir\<close> of a name that
  is not taken in a directory that is there makes it, and an output stream on a name in a
  directory that is there, if the name is not a directory, replaces the contents of the file.
  (So the process may write there, there is room, and no symbolic link is on the way.)  Nothing
  is assumed of a path whose directory does not exist.
\<close>

definition host_store :: "'w host \<Rightarrow> ('w \<Rightarrow> string list \<rightharpoonup> host_entry) \<Rightarrow> bool" where
  "host_store h look \<longleftrightarrow>
     (\<forall>w q. plain_path q \<and> look w (comps q) = Some HostDir \<longrightarrow>
        fst (h_mkdir h w q) = EEXIST \<and> look (snd (h_mkdir h w q)) = look w) \<and>
     (\<forall>w q. plain_path q \<and> comps q \<noteq> [] \<and> look w (comps q) = None \<and> look w (butlast (comps q)) = Some HostDir \<longrightarrow>
        fst (h_mkdir h w q) = 0 \<and> look (snd (h_mkdir h w q)) = (look w)(comps q \<mapsto> HostDir)) \<and>
     (\<forall>w q bs. plain_path q \<and> last q \<noteq> slash \<and> look w (butlast (comps q)) = Some HostDir \<and> look w (comps q) \<noteq> Some HostDir \<longrightarrow>
        look (h_output h w q bs) = (look w)(comps q \<mapsto> HostFile bs))"

text \<open>The directories on the way to \<open>c\<close> exist, and nothing else is changed.\<close>

definition made :: "(string list \<rightharpoonup> host_entry) \<Rightarrow> string list \<Rightarrow> (string list \<rightharpoonup> host_entry)" where
  "made W c = (\<lambda>x. if prefix x c then Some HostDir else W x)"

definition no_file_on :: "(string list \<rightharpoonup> host_entry) \<Rightarrow> string list \<Rightarrow> bool" where
  "no_file_on W c \<longleftrightarrow> (\<forall>x. prefix x c \<longrightarrow> W x = None \<or> W x = Some HostDir)"

lemma made_snoc: "made W (c @ [x]) = (made W c)(c @ [x] \<mapsto> HostDir)"
  by (auto simp: made_def fun_eq_iff)

lemma made_there: "W (c @ [x]) = Some HostDir \<Longrightarrow> made W (c @ [x]) = made W c"
  by (auto simp: made_def fun_eq_iff)

lemma made_Nil: "W [] = Some HostDir \<Longrightarrow> made W [] = W"
  by (auto simp: made_def fun_eq_iff)

lemma plain_take: "plain_path (u @ slash # v) \<Longrightarrow> u \<noteq> [] \<Longrightarrow> plain_path u"
  by (auto simp: plain_path_def comps_append)

text \<open>One \<open>mkdir\<close> of the loop, on the path up to a slash or on the whole path.\<close>

lemma mkdir_step:
  assumes h: "host_store h look" and p: "plain_path p" and w: "look w = made W (comps (dir_part p))" and n: "no_file_on W (comps p)"
  shows "fst (h_mkdir h w p) \<in> {0, EEXIST} \<and> look (snd (h_mkdir h w p)) = made W (comps p)"
proof (cases "base_part p = []")
  case True
  then have c: "comps p = comps (dir_part p)" using comps_dir_base[of p] by simp
  have "look w (comps p) = Some HostDir" by (simp add: w c made_def)
  then show ?thesis using h p w c by (auto simp: host_store_def)
next
  case False
  let ?c = "comps (dir_part p)" let ?x = "base_part p"
  have c: "comps p = ?c @ [?x]" using False comps_dir_base[of p] by simp
  have lw: "look w (?c @ [?x]) = W (?c @ [?x])" "look w ?c = Some HostDir" by (simp_all add: w made_def)
  from n have "W (?c @ [?x]) = None \<or> W (?c @ [?x]) = Some HostDir" unfolding no_file_on_def c by simp
  then show ?thesis
  proof
    assume "W (?c @ [?x]) = None"
    then show ?thesis using h p lw unfolding host_store_def made_snoc c w[symmetric] by (metis butlast_snoc c insertCI snoc_eq_iff_butlast)
  next
    assume d: "W (?c @ [?x]) = Some HostDir"
    then show ?thesis using h p lw w unfolding host_store_def made_there[of W ?c ?x, OF d] c by (metis c insertCI)
  qed
qed

lemma mkdir_loop_run:
  assumes "host_store h look" "plain_path path" "1 \<le> i" "i \<le> length path" "look w = made W (comps (dir_part (take i path)))"
    "no_file_on W (comps path)"
  shows "\<exists>w'. mkdir_loop h w path i = (0, w') \<and> look w' = made W (comps path)"
  using assms
proof (induction h w path i rule: mkdir_loop.induct)
  case (1 h w path i)
  show ?case
  proof (cases "i < length path")
    case False
    then have e: "take i path = path" using "1.prems"(4) by simp
    from mkdir_step[OF "1.prems"(1,2) "1.prems"(5)[unfolded e] "1.prems"(6)] show ?thesis using False
      by (subst mkdir_loop.simps) (cases "h_mkdir h w path"; auto)
  next
    case True
    let ?p = "take i path"
    have tk: "take (Suc i) path = ?p @ [path ! i]" by (rule take_Suc_conv_app_nth[OF True])
    show ?thesis
    proof (cases "path ! i = slash")
      case False
      have "look w = made W (comps (dir_part (take (Suc i) path)))" using "1.prems"(5) False by (simp add: tk dir_part_snoc)
      from "1.IH"(2)[OF True False "1.prems"(1,2) _ _ this "1.prems"(6)] show ?thesis using True False
        by (subst mkdir_loop.simps) simp
    next
      case sl: True
      have path: "path = ?p @ slash # drop (Suc i) path" using id_take_nth_drop[OF True] sl by simp
      have ne: "?p \<noteq> []" using "1.prems"(3,4) True by auto
      have pl: "plain_path ?p" using plain_take[of ?p "drop (Suc i) path"] "1.prems"(2) path ne by metis
      have "comps path = comps ?p @ comps (drop (Suc i) path)" by (subst path) (rule comps_append)
      then have nf: "no_file_on W (comps ?p)" using "1.prems"(6) by (auto simp: no_file_on_def intro: prefix_order.trans)
      from mkdir_step[OF "1.prems"(1) pl "1.prems"(5) nf] obtain e w1 where
        m: "h_mkdir h w ?p = (e, w1)" "e = 0 \<or> e = EEXIST" "look w1 = made W (comps ?p)" by (cases "h_mkdir h w ?p") auto
      have "look w1 = made W (comps (dir_part (take (Suc i) path)))" using m(3) sl by (simp add: tk dir_part_snoc)
      from "1.IH"(1)[OF True sl m(1)[symmetric] _ "1.prems"(1,2) _ _ this "1.prems"(6)] m(2) True obtain w' where
        "mkdir_loop h w1 path (Suc i) = (0, w')" "look w' = made W (comps path)" by auto
      then show ?thesis using True sl m by (subst mkdir_loop.simps) auto
    qed
  qed
qed

lemma mkdir_p_run:
  assumes "host_store h look" "plain_path path" "length path \<le> PATH_MAX - 1" "look w [] = Some HostDir" "no_file_on (look w) (comps path)"
  shows "\<exists>w'. mkdir_p h w path = Some (0, w') \<and> look w' = made (look w) (comps path)"
proof -
  from assms(2) obtain x where x: "path = slash # x" by (cases path) (auto simp: plain_path_def)
  have "dir_part (take 1 path) = [slash]" using x by (simp add: dir_part_def)
  moreover have "comps [slash] = []" using comps_slash(1)[of "[]"] by simp
  ultimately have "look w = made (look w) (comps (dir_part (take 1 path)))" using made_Nil[of "look w", OF assms(4)] by simp
  from mkdir_loop_run[OF assms(1,2) _ _ this assms(5)] x assms(3) show ?thesis by (auto simp: mkdir_p_def)
qed

section \<open>Where a file is written\<close>

text \<open>
  With a directory that ends with a slash, the file \<open>q\<close> is written to the directory that was
  made for it; without that slash it would be a name beside the directory.
\<close>

lemma comps_below:
  assumes "q = slash # tl q"
  shows "comps ((dir @ [slash]) @ tl q) = comps dir @ comps q" "comps ((dir @ [slash]) @ before_slash q) = comps dir @ comps (dir_part q)"
proof -
  have "comps (tl q) = comps q" by (subst (2) assms) simp
  then show "comps ((dir @ [slash]) @ tl q) = comps dir @ comps q" using comps_append[of dir "tl q"] by simp
  have s: "slash \<in> set q" by (metis assms list.set_intros(1))
  then have "dir_part q \<noteq> []" using dir_base[of q] by (metis append_Nil)
  then obtain u where u: "dir_part q = u @ [slash]" using dir_part_cases[of q] by blast
  then have "before_slash q = u" using s by (simp add: before_slash_def)
  then show "comps ((dir @ [slash]) @ before_slash q) = comps dir @ comps (dir_part q)" using comps_append[of dir u] u by simp
qed

end
