(* ===== verification/Devdax_Unloading.thy ===== *)
theory Devdax_Unloading
  imports Devdax_Loading Host_Store
begin

text \<open>
  Unloading: writing the persistent files of the device into a directory of the underlying file
  system, as it is done when the file system is unmounted.
\<close>

section \<open>Writing a file out\<close>

lemma output_regions_run:
  "\<forall>r \<in> set rs. readable m r \<and> r_address r \<noteq> None \<Longrightarrow> output_regions m rs = Some (concat (map (region_bytes m) rs))"
  by (induction rs) (auto simp: readable_def region_bytes_def)

lemma dev_unload_run:
  assumes M: "dev_mem env p live (mc_mem s)" and F: "dev_file_ok env (view_of env p live (mc_mem s)) sl f" and t: "df_type f = persistent"
    and c: "dev_content (view_of env p live (mc_mem s)) sl f = c" "c \<noteq> []"
  shows "\<exists>f'. dev_unload env f p s = Some (Inr (0, c, f'))"
proof -
  let ?V = "view_of env p live (mc_mem s)"
  have L: "dev_layout env ?V sl f" and i: "idle (df_range_mutex f)" and sz: "st_size (df_attributes f) = df_used_offset f" using F by (auto simp: dev_file_ok_def)
  then have A: "layout (abs_env env) sl (abs_f f) ?V" by (simp add: dev_layout_def)
  note D = layoutD[OF A, unfolded abs_file_simps]
  let ?e = "df_used_offset f"
  have "length (seg_content (abs_heap (df_seg f)) ?V sl) = nat (df_alloc_offset f)" using tiles_content[where h = "abs_heap (df_seg f)", OF D(1,2)] by simp
  then have lc: "length c = nat ?e" using c(1) D(7) by (auto simp: dev_content_def file_content_def)
  moreover have "0 < length c" using c(2) by simp
  ultimately have "0 < ?e" by linarith
  then have e: "0 < ?e" "off_ok 0" "off_ok ?e" using D(7,8) by (auto simp: off_ok_def)
  have sz': "to_off (dev_size f) = ?e" unfolding dev_size_def sz by (rule to_off_mid) (use e D(7,8) in auto)
  from idle_lock[OF i e, of Reader] obtain t1 rl ns rl' t2 where
    lk: "lock_range (df_range_mutex f) 0 ?e Reader = Some (t1, Inr rl)" "unlock_range t1 rl = Some (ns, rl', t2)" "destroy_range_lock t2 rl' = Some t2" by blast
  let ?f = "f\<lparr>df_range_mutex := t1\<rparr>"
  have L': "dev_layout env ?V sl ?f" using L by simp
  from dev_range_regions[OF M L', of 0 ?e] e(1) obtain cs where
    cs: "dev_lookup_helper env ?f p 0 ?e False [] = Some (cs, ?f, p)" "concat (map (region_bytes (mc_mem s)) cs) = extent 0 (nat ?e) (dev_content ?V sl ?f)"
      "\<forall>r \<in> set cs. readable (mc_mem s) r \<and> r_address r \<noteq> None" by auto
  have "dev_content ?V sl ?f = c" using c(1) by (simp add: dev_content_def file_content_def)
  then have "output_regions (mc_mem s) cs = Some c" using output_regions_run[OF cs(3)] cs(2) lc by (simp add: extent_def)
  moreover have "dev_lookup_data env ?f p 0 ?e [] = Some (cs, ?f, p)" using cs(1) D(4) e(1) by (simp add: dev_lookup_data_def)
  moreover have "dev_size ?f = dev_size f" by (simp add: dev_size_def)
  ultimately show ?thesis using t lk sz' by (simp add: dev_unload_def dev_lock_range_def dev_unlock_range_def)
qed

section \<open>Where the files of a device go\<close>

text \<open>
  The file \<open>q\<close> of a device goes below the directory \<open>dir\<close>.  The host is ready for the files \<open>F\<close> if
  no file is in the place of a directory that is needed, no directory is in the place of a
  file, and no file of \<open>F\<close> is on the way to another one.
\<close>

definition spot :: "string \<Rightarrow> string \<Rightarrow> string list" where
  "spot dir q = comps dir @ comps q"

definition host_ready :: "(string list \<rightharpoonup> host_entry) \<Rightarrow> string \<Rightarrow> string set \<Rightarrow> bool" where
  "host_ready W dir F \<longleftrightarrow> W [] = Some HostDir \<and>
     (\<forall>q \<in> F. plain_path (dir @ q) \<and> q = slash # tl q \<and> last q \<noteq> slash \<and> length (dir @ [slash] @ q) < PATH_MAX \<and>
        no_file_on W (butlast (spot dir q)) \<and> W (spot dir q) \<noteq> Some HostDir) \<and>
     (\<forall>q \<in> F. \<forall>q' \<in> F. q \<noteq> q' \<longrightarrow> \<not> prefix (spot dir q) (spot dir q'))"

lemma host_readyD:
  assumes "host_ready W dir F" "q \<in> F"
  shows "W [] = Some HostDir" "plain_path (dir @ q)" "q = slash # tl q" "last q \<noteq> slash" "length (dir @ [slash] @ q) < PATH_MAX"
    "no_file_on W (butlast (spot dir q))" "W (spot dir q) \<noteq> Some HostDir" "q' \<in> F \<Longrightarrow> q \<noteq> q' \<Longrightarrow> \<not> prefix (spot dir q) (spot dir q')"
  using assms unfolding host_ready_def by blast+

lemma spot_split:
  assumes "q = slash # tl q" "last q \<noteq> slash"
  shows "butlast (spot dir q) = comps dir @ comps (dir_part q)" "spot dir q \<noteq> []"
proof -
  have "base_part q \<noteq> []"
  proof
    assume "base_part q = []"
    then have "dir_part q = q" using dir_base(1)[of q] by simp
    then show False using dir_part_cases[of q] assms by (metis last_snoc list.distinct(1))
  qed
  then show "butlast (spot dir q) = comps dir @ comps (dir_part q)" "spot dir q \<noteq> []"
    using comps_dir_base[of q] by (simp_all add: spot_def butlast_append)
qed

lemma not_prefix_butlast: "xs \<noteq> [] \<Longrightarrow> \<not> prefix xs (butlast xs)"
  using prefix_length_le[of xs "butlast xs"] by (cases xs) auto

lemma plain_comps: "plain_path p \<Longrightarrow> q \<noteq> [] \<Longrightarrow> hd q = slash \<Longrightarrow> set (comps q) \<subseteq> set (comps p) \<Longrightarrow> plain_path q"
  by (auto simp: plain_path_def)

text \<open>Making the directories for \<open>q\<close> and writing it.\<close>

lemma put_file:
  assumes hs: "host_store h look" and r: "host_ready (look w) dir F" "q \<in> F"
  shows "\<exists>w1. mkdir_p h w ((dir @ [slash]) @ before_slash q) = Some (0, w1) \<and> look w1 = made (look w) (butlast (spot dir q)) \<and>
    look (h_output h w1 ((dir @ [slash]) @ tl q) bs) = (look w1)(spot dir q \<mapsto> HostFile bs)"
proof -
  note D = host_readyD[OF r]
  note C = comps_below[OF D(3), of dir] and S = spot_split[OF D(3,4), of dir]
  have hd: "hd (dir @ [slash]) = slash" using D(2,3) by (cases dir) (auto simp: plain_path_def)
  have "dir @ q = dir @ slash # tl q" using D(3) by simp
  then have cq: "comps (dir @ q) = spot dir q" using C(1) by (simp add: spot_def)
  have p1: "plain_path ((dir @ [slash]) @ before_slash q)" by (rule plain_comps[OF D(2)])
      (use hd C(2) cq comps_dir_base[of q] in \<open>auto simp: spot_def hd_append\<close>)
  have p2: "plain_path ((dir @ [slash]) @ tl q)" by (rule plain_comps[OF D(2)]) (use hd C(1) cq in \<open>auto simp: spot_def hd_append\<close>)
  have "length (before_slash q) \<le> length q"
    using dir_base(1)[of q] by (auto simp: before_slash_def) (metis length_append le_add1 diff_le_self order_trans)
  then have "length ((dir @ [slash]) @ before_slash q) \<le> PATH_MAX - 1" using D(5) by simp
  from mkdir_p_run[OF hs p1 this D(1)] D(6) obtain w1 where
    w1: "mkdir_p h w ((dir @ [slash]) @ before_slash q) = Some (0, w1)" "look w1 = made (look w) (butlast (spot dir q))" using C(2) S(1) by auto
  have "look w1 (butlast (spot dir q)) = Some HostDir" by (simp add: w1(2) made_def)
  moreover have "\<not> prefix (spot dir q) (butlast (spot dir q))" by (rule not_prefix_butlast[OF S(2)])
  then have "look w1 (spot dir q) \<noteq> Some HostDir" using D(7) by (simp add: w1(2) made_def)
  moreover have "last ((dir @ [slash]) @ tl q) \<noteq> slash" using D(3,4) by (metis last_ConsL last_ConsR last_appendR append_self_conv)
  ultimately have "look (h_output h w1 ((dir @ [slash]) @ tl q) bs) = (look w1)(spot dir q \<mapsto> HostFile bs)"
    using hs p2 C(1) unfolding host_store_def spot_def by auto
  then show ?thesis using w1 by blast
qed

text \<open>Then the host is ready for the other files, and only names on the way to \<open>q\<close> have changed.\<close>

lemma host_ready_rest:
  assumes r: "host_ready W dir (insert q F)" "q \<notin> F" and e: "e \<noteq> Some HostDir"
    and W': "W' = made W (butlast (spot dir q)) \<or> W' = (made W (butlast (spot dir q)))(spot dir q := e)"
  shows "host_ready W' dir F" "\<not> prefix x (spot dir q) \<Longrightarrow> W' x = W x" "q' \<in> F \<Longrightarrow> W' (spot dir q') = W (spot dir q')"
proof -
  have q: "q \<in> insert q F" by simp
  note D = host_readyD[OF r(1) q]
  note S = spot_split[OF D(3,4), of dir]
  have pb: "prefix x (butlast (spot dir q)) \<Longrightarrow> prefix x (spot dir q)" for x by (rule prefix_order.trans[OF _ prefixeq_butlast])
  have v: "W' x = W x" if "\<not> prefix x (butlast (spot dir q))" "x \<noteq> spot dir q" for x using W' that by (elim disjE) (simp_all add: made_def)
  have d: "W' x = Some HostDir" if "prefix x (butlast (spot dir q))" "x \<noteq> spot dir q" for x using W' that by (elim disjE) (simp_all add: made_def)
  show other: "W' x = W x" if "\<not> prefix x (spot dir q)" for x
  proof (rule v)
    show "\<not> prefix x (butlast (spot dir q))" using that pb by metis
    show "x \<noteq> spot dir q" using that by (metis prefix_order.refl)
  qed
  have apart: "\<not> prefix (spot dir q) (spot dir q')" "\<not> prefix (spot dir q') (spot dir q)" if "q' \<in> F" for q'
    using host_readyD(8)[OF r(1), of q q'] host_readyD(8)[OF r(1), of q' q] that r(2) by auto
  show same: "W' (spot dir q') = W (spot dir q')" if "q' \<in> F" for q' using other apart(2)[OF that] .
  have "no_file_on W' (butlast (spot dir q'))" if "q' \<in> F" for q'
    unfolding no_file_on_def
  proof (intro allI impI)
    fix x assume x: "prefix x (butlast (spot dir q'))"
    then have n: "x \<noteq> spot dir q" using apart(1)[OF that] prefixeq_butlast[of "spot dir q'"] prefix_order.trans by metis
    have "W x = None \<or> W x = Some HostDir" using host_readyD(6)[OF r(1), of q'] that x by (simp add: no_file_on_def)
    then show "W' x = None \<or> W' x = Some HostDir" using v[OF _ n] d[OF _ n] by (cases "prefix x (butlast (spot dir q))") simp_all
  qed
  moreover have "W' [] = Some HostDir" using S(2) by (intro d) simp_all
  moreover have "W' (spot dir q') \<noteq> Some HostDir" if "q' \<in> F" for q' using same[OF that] host_readyD(7)[OF r(1), of q'] that by simp
  ultimately show "host_ready W' dir F" unfolding host_ready_def using host_readyD(2-5,8)[OF r(1)] by (metis insertCI)
qed

lemma dd_unload_run:
  assumes hs: "host_store h look" and M: "dev_mem env p live m"
    and fs: "distinct (map fst fs)" "distinct (map snd fs)" "host_ready (look (mc_world s)) dir (fst ` set fs)"
    and ok: "\<forall>(q, i) \<in> set fs. \<exists>f. db_objs b i = Some f \<and> dev_file_ok env (view_of env p live m) (T i) f \<and>
      (df_type f = persistent \<longrightarrow> dev_content (view_of env p live m) (T i) f \<noteq> [])" and s: "mc_mem s = m" "db_pool b = p"
  shows "\<exists>b' w'. dd_unload_files env h b s (dir @ [slash]) fs = Some (Inr (success, b', s\<lparr>mc_world := w'\<rparr>)) \<and>
    (\<forall>q i f. (q, i) \<in> set fs \<longrightarrow> db_objs b i = Some f \<longrightarrow>
      look w' (spot dir q) = (if df_type f = persistent then Some (HostFile (dev_content (view_of env p live m) (T i) f)) else look (mc_world s) (spot dir q))) \<and>
    (\<forall>x. (\<forall>q \<in> fst ` set fs. \<not> prefix x (spot dir q)) \<longrightarrow> look w' x = look (mc_world s) x)"
  using fs ok s
proof (induction fs arbitrary: b s)
  case Nil
  have "s\<lparr>mc_world := mc_world s\<rparr> = s" by simp
  then show ?case by (intro exI[of _ b] exI[of _ "mc_world s"]) simp
next
  case (Cons y fs)
  obtain q i where y: "y = (q, i)" by (cases y)
  let ?V = "view_of env p live m" let ?dir = "dir @ [slash]" let ?W = "look (mc_world s)" let ?F = "fst ` set fs"
  obtain f where f: "db_objs b i = Some f" "dev_file_ok env ?V (T i) f" "df_type f = persistent \<longrightarrow> dev_content ?V (T i) f \<noteq> []" using Cons.prems(4) y by auto
  have R: "host_ready ?W dir (insert q ?F)" and ni: "i \<notin> snd ` set fs" "q \<notin> ?F" using Cons.prems(1-3) y by auto
  let ?c = "if df_type f = persistent then dev_content ?V (T i) f else []"
  have qi: "q \<in> insert q ?F" by simp
  note Q = host_readyD[OF R qi]
  from put_file[OF hs R qi, of ?c] obtain w1 where w1: "mkdir_p h (mc_world s) (?dir @ before_slash q) = Some (0, w1)"
    "look w1 = made ?W (butlast (spot dir q))" "look (h_output h w1 (?dir @ tl q) ?c) = (look w1)(spot dir q \<mapsto> HostFile ?c)" by blast
  let ?s1 = "s\<lparr>mc_world := w1\<rparr>"
  have m1: "mc_mem ?s1 = m" using Cons.prems(5) by simp
  let ?w2 = "if df_type f = persistent then h_output h w1 (?dir @ tl q) ?c else w1"
  obtain rv f' where u: "dev_unload env f p ?s1 = Some (Inr (rv, ?c, f'))" "rv < 0 \<longleftrightarrow> df_type f \<noteq> persistent"
  proof (cases "df_type f = persistent")
    case True
    from dev_unload_run[of env p live ?s1 "T i" f] M f(2,3) True obtain f' where
      "dev_unload env f p ?s1 = Some (Inr (0, dev_content ?V (T i) f, f'))" unfolding m1 by blast
    then show ?thesis using True by (intro that[of 0 f']) auto
  next
    case False
    then have "df_type f = temporary" by (cases "df_type f") auto
    then show ?thesis by (intro that[of "-1" f]) (auto simp: dev_unload_def)
  qed
  let ?b = "b\<lparr>db_objs := (db_objs b)(i \<mapsto> f')\<rparr>" let ?s2 = "s\<lparr>mc_world := ?w2\<rparr>"
  have step: "dd_unload_files env h b s ?dir (y # fs) = dd_unload_files env h ?b ?s2 ?dir fs"
    using w1(1) Q(3) f(1) u Cons.prems(6) y by (cases q) (auto simp: Let_def)
  let ?e = "if df_type f = persistent then Some (HostFile ?c) else ?W (spot dir q)"
  have W2: "look ?w2 = made ?W (butlast (spot dir q)) \<or> look ?w2 = (made ?W (butlast (spot dir q)))(spot dir q := ?e)"
  proof (cases "df_type f = persistent")
    case True
    then show ?thesis using w1(3) unfolding w1(2) by simp
  next
    case False
    then show ?thesis using w1(2) by simp
  qed
  have e: "?e \<noteq> Some HostDir" using Q(7) by simp
  note H = host_ready_rest[OF R ni(2) e W2]
  have at: "look ?w2 (spot dir q) = ?e"
  proof -
    have "\<not> prefix (spot dir q) (butlast (spot dir q))" by (rule not_prefix_butlast[OF spot_split(2)[OF Q(3,4)]])
    then show ?thesis using w1(2,3) by (cases "df_type f = persistent") (simp_all add: made_def)
  qed
  have o: "db_objs ?b j = db_objs b j" if "(x, j) \<in> set fs" for x j using ni(1) that by force
  have "\<exists>b' w'. dd_unload_files env h ?b ?s2 ?dir fs = Some (Inr (success, b', ?s2\<lparr>mc_world := w'\<rparr>)) \<and>
    (\<forall>q i f. (q, i) \<in> set fs \<longrightarrow> db_objs ?b i = Some f \<longrightarrow>
      look w' (spot dir q) = (if df_type f = persistent then Some (HostFile (dev_content ?V (T i) f)) else look (mc_world ?s2) (spot dir q))) \<and>
    (\<forall>x. (\<forall>q \<in> ?F. \<not> prefix x (spot dir q)) \<longrightarrow> look w' x = look (mc_world ?s2) x)"
  proof (rule Cons.IH)
    show "\<forall>(q, i) \<in> set fs. \<exists>f. db_objs ?b i = Some f \<and> dev_file_ok env ?V (T i) f \<and> (df_type f = persistent \<longrightarrow> dev_content ?V (T i) f \<noteq> [])"
    proof (intro ballI, clarify)
      fix x j
      assume x: "(x, j) \<in> set fs"
      then show "\<exists>f. db_objs ?b j = Some f \<and> dev_file_ok env ?V (T j) f \<and> (df_type f = persistent \<longrightarrow> dev_content ?V (T j) f \<noteq> [])"
        unfolding o[OF x] using Cons.prems(4) by auto
    qed
    show "host_ready (look (mc_world ?s2)) dir ?F" using H(1) by simp
  qed (use Cons.prems in simp_all)
  then obtain b' w' where r: "dd_unload_files env h ?b ?s2 ?dir fs = Some (Inr (success, b', ?s2\<lparr>mc_world := w'\<rparr>))"
    "\<forall>q i f. (q, i) \<in> set fs \<longrightarrow> db_objs ?b i = Some f \<longrightarrow>
      look w' (spot dir q) = (if df_type f = persistent then Some (HostFile (dev_content ?V (T i) f)) else look (mc_world ?s2) (spot dir q))"
    "\<forall>x. (\<forall>q \<in> ?F. \<not> prefix x (spot dir q)) \<longrightarrow> look w' x = look (mc_world ?s2) x" by blast
  have "look w' (spot dir x) = (if df_type g = persistent then Some (HostFile (dev_content ?V (T j) g)) else ?W (spot dir x))"
    if "(x, j) \<in> set (y # fs)" "db_objs b j = Some g" for x j g
  proof (cases "(x, j) \<in> set fs")
    case True
    then have "x \<in> ?F" by force
    then show ?thesis using r(2)[rule_format, OF True, of g] o[OF True] that(2) H(3)[of x] by simp
  next
    case False
    then have "x = q" "j = i" "g = f" using that y f(1) by auto
    moreover have "\<forall>q' \<in> ?F. \<not> prefix (spot dir q) (spot dir q')" using Q(8) ni(2) by auto
    ultimately show ?thesis using r(3) at by simp
  qed
  moreover have "look w' x = ?W x" if "\<forall>q \<in> fst ` set (y # fs). \<not> prefix x (spot dir q)" for x
    using r(3)[rule_format, of x] H(2)[of x] that y by simp
  ultimately show ?case using r(1) step by (intro exI[of _ b'] exI[of _ w']) simp
qed

section \<open>Unloading a device\<close>

text \<open>
  Unloading a device writes every persistent file that is not empty below the given directory
  of the underlying file system, whose name ends with a slash, with its contents and under its
  name; temporary files are not written, and nothing but the directories on the way to the files
  is changed there.
\<close>

lemma device_unload:
  fixes env :: "'w dev_env" and s :: "'w machine"
  assumes "dev_named env d (mc_mem s) (P, D)" "host_store h look" "host_ready (look (mc_world s)) dir (dom P)"
    and ty: "\<forall>q c. P q = Some c \<longrightarrow> (\<exists>i f. dd_find d q = Some i \<and> db_objs d i = Some f \<and> (df_type f = persistent \<longleftrightarrow> q \<in> K))" and ne: "\<forall>q \<in> K. P q \<noteq> Some []"
  shows "\<exists>d' s'. dd_unload env h d s (dir @ [slash]) = Some (Inr (success, d', s')) \<and>
    (\<forall>q c. P q = Some c \<longrightarrow> look (mc_world s') (spot dir q) = (if q \<in> K then Some (HostFile c) else look (mc_world s) (spot dir q))) \<and>
    (\<forall>x. (\<forall>q \<in> dom P. \<not> prefix x (spot dir q)) \<longrightarrow> look (mc_world s') x = look (mc_world s) x)"
proof -
  from assms(1) obtain C where C: "ns_ok (names d)" "D = ns_dirs (names d)" "distinct (map fst (db_files d))" "inj_on (map_of (db_files d)) (dom (map_of (db_files d)))"
    "dom (db_objs d) = ran (map_of (db_files d))" "\<forall>i \<ge> db_next d. db_objs d i = None" "dev_holds env (db_objs d) (db_pool d) (mc_mem s) C" "P = map_comp C (map_of (db_files d))"
    "dom C = dom (db_objs d)" "dom P = dom (map_of (db_files d))" by (rule dev_namedD)
  from C(7) obtain live T where H: "dev_mem env (db_pool d) live (mc_mem s)"
    "\<forall>i f. db_objs d i = Some f \<longrightarrow> dev_file_ok env (view_of env (db_pool d) live (mc_mem s)) (T i) f \<and> C i = Some (dev_content (view_of env (db_pool d) live (mc_mem s)) (T i) f)"
    unfolding dev_holds_def by auto
  let ?V = "view_of env (db_pool d) live (mc_mem s)" let ?fs = "db_files d"
  have mo: "map_of ?fs q = Some i" if "(q, i) \<in> set ?fs" for q i using that C(3) by simp
  have fil: "\<exists>f. db_objs d i = Some f \<and> P q = Some (dev_content ?V (T i) f) \<and> (df_type f = persistent \<longleftrightarrow> q \<in> K)" if "(q, i) \<in> set ?fs" for q i
  proof -
    have q: "map_of ?fs q = Some i" by (rule mo[OF that])
    then obtain c where c: "P q = Some c" using C(10) by blast
    from ty[rule_format, OF c] q obtain f where f: "db_objs d i = Some f" "df_type f = persistent \<longleftrightarrow> q \<in> K" by (auto simp: dd_find_def)
    then show ?thesis using H(2) C(8) q by (auto simp: map_comp_def)
  qed
  have "inj_on snd (set ?fs)"
  proof (rule inj_onI)
    fix y y'
    assume y: "y \<in> set ?fs" "y' \<in> set ?fs" "snd y = snd y'"
    have "map_of ?fs (fst y) = Some (snd y)" "map_of ?fs (fst y') = Some (snd y)" using mo[of "fst y" "snd y", unfolded prod.collapse] mo[of "fst y'" "snd y'", unfolded prod.collapse] y(1,2) unfolding y(3) by blast+
    then show "y = y'" using inj_onD[OF C(4), of "fst y" "fst y'"] y(3) by (auto simp: prod_eq_iff)
  qed
  then have ds: "distinct (map snd ?fs)" using C(3) by (simp add: distinct_map)
  have "fst ` set ?fs = dom P" using C(10) by (simp add: dom_map_of_conv_image_fst)
  then have F: "fst ` set ?fs = dom P" "host_ready (look (mc_world s)) dir (fst ` set ?fs)" using assms(3) by simp_all
  have b: "\<forall>(q, i) \<in> set ?fs. \<exists>f. db_objs d i = Some f \<and> dev_file_ok env ?V (T i) f \<and> (df_type f = persistent \<longrightarrow> dev_content ?V (T i) f \<noteq> [])"
    using fil ne H(2) by fastforce
  from dd_unload_run[OF assms(2) H(1) C(3) ds F(2) b refl refl] obtain d' w' where
    r: "dd_unload_files env h d s (dir @ [slash]) ?fs = Some (Inr (success, d', s\<lparr>mc_world := w'\<rparr>))"
      "\<forall>q i f. (q, i) \<in> set ?fs \<longrightarrow> db_objs d i = Some f \<longrightarrow> look w' (spot dir q) =
        (if df_type f = persistent then Some (HostFile (dev_content ?V (T i) f)) else look (mc_world s) (spot dir q))"
      "\<forall>x. (\<forall>q \<in> dom P. \<not> prefix x (spot dir q)) \<longrightarrow> look w' x = look (mc_world s) x" unfolding F(1) by blast
  have w: "look w' (spot dir q) = (if q \<in> K then Some (HostFile c) else look (mc_world s) (spot dir q))" if Pq: "P q = Some c" for q c
  proof -
    have "q \<in> dom (map_of ?fs)" unfolding C(10)[symmetric] using Pq by (rule domI)
    then obtain i where "map_of ?fs q = Some i" by blast
    then have i: "(q, i) \<in> set ?fs" by (rule map_of_SomeD)
    from fil[OF i] obtain f where "db_objs d i = Some f" "P q = Some (dev_content ?V (T i) f)" "df_type f = persistent \<longleftrightarrow> q \<in> K" by blast
    then show ?thesis using r(2)[rule_format, OF i, of f] Pq by simp
  qed
  show ?thesis using r(1,3) w by (intro exI[of _ d'] exI[of _ "s\<lparr>mc_world := w'\<rparr>"]) (simp add: dd_unload_def)
qed

end
