(* ===== verification/Startup.thy ===== *)
theory Startup
  imports Settings_Cmdline Devdax_Unloading "HOL-Library.List_Lexorder" "HOL-Library.Char_ord"
begin

text \<open>
  Starting and stopping the file system: the back ends made from the settings
  (\<open>src/src/backends/backend-base.cpp\<close>), \<open>context::initialize\<close> and \<open>context::teardown\<close>
  (\<open>src/src/context.cpp\<close>).  The resources are imported one after the other, in the order they
  are submitted to the pool; the listener of the API and the log are left out.  Calling a method
  of a null pointer is \<open>None\<close>.  The static members of the sources, which all back ends of a kind
  share, are parts of the record \<open>startup\<close>: the sizes of segments, and the allocator of the device,
  which the first segment on it initialises.
\<close>

section \<open>Back ends\<close>

datatype storage = Dram size_t | Nvml backend | Devdax dev_backend

datatype startup_error = no_daxfs | bad_segment_size | backend_fault stop | no_backends | missing_key | import_failed

text \<open>
  \<open>su_segment_size\<close> and \<open>su_dev_segment_size\<close> are the static members \<open>segment::s_segment_size\<close>, and
  \<open>su_dev_pool\<close> is \<open>pool::m_bpool\<close>; a back end gets the allocator with every call.
\<close>

record 'w startup =
  su_backends :: "(string \<times> storage) list"
  su_segment_size :: size_t
  su_dev_segment_size :: size_t
  su_dev_pool :: big_pool
  su_machine :: "'w machine"

text \<open>The size of segments that the options ask for, -1 if they do not.\<close>

definition segment_size_option :: "backend_options \<Rightarrow> (startup_error + int) option" where
  "segment_size_option opts = (case map_of (bo_extra_options opts) ''segment-size'' of
       None \<Rightarrow> Some (Inr (-1))
     | Some s \<Rightarrow> map_option (map_sum (\<lambda>_. bad_segment_size) id) (parse_size s))"

definition nvml_constructor :: "'w host \<Rightarrow> size_t \<Rightarrow> backend_options \<Rightarrow> int \<Rightarrow> 'w startup \<Rightarrow> (startup_error + storage option) \<times> 'w startup" where
  "nvml_constructor h inode0 opts ssize su =
     (map_sum backend_fault (\<lambda>b. Some (Nvml b)) (new_backend h inode0 (ucast (bo_capacity opts)) (bo_root_dir opts)),
      if ssize \<noteq> -1 then su\<lparr>su_segment_size := word_of_int ssize\<rparr> else su)"

definition devdax_constructor :: "'w host \<Rightarrow> size_t \<Rightarrow> backend_options \<Rightarrow> int \<Rightarrow> 'w startup \<Rightarrow> (startup_error + storage option) \<times> 'w startup" where
  "devdax_constructor h inode0 opts ssize su =
     (map_sum backend_fault (\<lambda>b. Some (Devdax b)) (new_dev_backend h inode0 (ucast (bo_capacity opts)) (bo_root_dir opts) (su_dev_pool su)),
      if ssize \<noteq> -1 then su\<lparr>su_dev_segment_size := word_of_int ssize\<rparr> else su)"

definition create_from_options :: "'w host \<Rightarrow> size_t \<Rightarrow> backend_options \<Rightarrow> 'w startup \<Rightarrow> ((startup_error + storage option) \<times> 'w startup) option" where
  "create_from_options h inode0 opts su =
     (if bo_type opts = ''DRAM'' then Some (Inr (Some (Dram (ucast (bo_capacity opts)))), su)
      else if bo_type opts = ''NVRAM-NVML''
      then if map_of (bo_extra_options opts) ''daxfs'' = None then Some (Inl no_daxfs, su)
           else do {
             r \<leftarrow> segment_size_option opts;
             Some (case r of Inl e \<Rightarrow> (Inl e, su) | Inr ssize \<Rightarrow> nvml_constructor h inode0 opts ssize su) }
      else if bo_type opts = ''NVRAM-DEVDAX''
      then if map_of (bo_extra_options opts) ''daxfs'' = None then Some (Inl no_daxfs, su)
           else do {
             r \<leftarrow> segment_size_option opts;
             Some (case r of Inl e \<Rightarrow> (Inl e, su) | Inr ssize \<Rightarrow> devdax_constructor h inode0 opts ssize su) }
      else Some (Inr None, su))"

section \<open>Initialisation\<close>

fun insert_backend :: "string \<Rightarrow> storage \<Rightarrow> (string \<times> storage) list \<Rightarrow> (string \<times> storage) list" where
  "insert_backend i b [] = [(i, b)]"
| "insert_backend i b ((j, c) # bs) = (if i < j then (i, b) # (j, c) # bs else if i = j then (j, c) # bs else (j, c) # insert_backend i b bs)"

fun deploy_backends :: "'w host \<Rightarrow> size_t \<Rightarrow> (string \<times> backend_options) list \<Rightarrow> 'w startup \<Rightarrow> 'w startup option" where
  "deploy_backends h inode0 [] su = Some su"
| "deploy_backends h inode0 ((i, opts) # bos) su = do {
     (r, su) \<leftarrow> create_from_options h inode0 opts su;
     case r of
       Inl e \<Rightarrow> deploy_backends h inode0 bos su
     | Inr None \<Rightarrow> None
     | Inr (Some b) \<Rightarrow> deploy_backends h inode0 bos (su\<lparr>su_backends := insert_backend i b (su_backends su)\<rparr>) }"

fun import_tasks :: "(string \<times> storage) list \<Rightarrow> (string \<times> string) list list \<Rightarrow> startup_error + (string \<times> string \<times> file_type) list" where
  "import_tasks bs [] = Inr []"
| "import_tasks bs (kv # kvs) = (case (map_of kv ''path'', map_of kv ''backend'', map_of kv ''flags'') of
       (Some pathname, Some target, Some flag) \<Rightarrow>
         if map_of bs target = None then import_tasks bs kvs
         else map_sum id (\<lambda>ts. (target, pathname, if flag = ''temporary'' then temporary else persistent) # ts) (import_tasks bs kvs)
     | _ \<Rightarrow> Inl missing_key)"

text \<open>The back end in memory is a stub.\<close>

definition dram_load :: "size_t \<Rightarrow> error_code \<times> size_t" where "dram_load b = (success, b)"

definition sized_host :: "'w host \<Rightarrow> 'w startup \<Rightarrow> 'w host" where
  "sized_host h su = h\<lparr>h_nvml := (\<lambda>p. (h_nvml h p)\<lparr>ne_segment_size := su_segment_size su\<rparr>)\<rparr>"

definition sized_dev :: "'w dev_env \<Rightarrow> 'w startup \<Rightarrow> 'w dev_env" where
  "sized_dev env su = env\<lparr>de_segment_size := su_dev_segment_size su\<rparr>"

definition load_storage ::
  "'w dev_env \<Rightarrow> 'w host \<Rightarrow> 'w startup \<Rightarrow> storage \<Rightarrow> string \<Rightarrow> file_type \<Rightarrow> (stop + (error_code \<times> storage \<times> 'w startup)) option" where
  "load_storage env h su b pathname ty = (case b of
       Dram c \<Rightarrow> Some (Inr (case dram_load c of (ec, c) \<Rightarrow> (ec, Dram c, su)))
     | Nvml nb \<Rightarrow> ebind (load (sized_host h su) nb (su_machine su) pathname ty) (\<lambda>(ec, nb, s). Some (Inr (ec, Nvml nb, su\<lparr>su_machine := s\<rparr>)))
     | Devdax d \<Rightarrow> ebind (dd_load (sized_dev env su) h (d\<lparr>db_pool := su_dev_pool su\<rparr>) (su_machine su) pathname ty) (\<lambda>(ec, d, s).
         Some (Inr (ec, Devdax d, su\<lparr>su_dev_pool := db_pool d, su_machine := s\<rparr>))))"

text \<open>Every task runs, and afterwards one that failed makes the start fail.\<close>

fun run_imports :: "'w dev_env \<Rightarrow> 'w host \<Rightarrow> (string \<times> string \<times> file_type) list \<Rightarrow> 'w startup \<Rightarrow> bool \<Rightarrow> (startup_error + 'w startup) option" where
  "run_imports env h [] su ok = Some (if ok then Inr su else Inl import_failed)"
| "run_imports env h ((target, pathname, ty) # ts) su ok = do {
     b \<leftarrow> map_of (su_backends su) target;
     r \<leftarrow> load_storage env h su b pathname ty;
     case r of
       Inl _ \<Rightarrow> run_imports env h ts su False
     | Inr (ec, b, su) \<Rightarrow> run_imports env h ts (su\<lparr>su_backends := AList.update target b (su_backends su)\<rparr>) (ok \<and> ec = success) }"

definition initialize :: "'w dev_env \<Rightarrow> 'w host \<Rightarrow> size_t \<Rightarrow> settings \<Rightarrow> 'w startup \<Rightarrow> (startup_error + 'w startup) option" where
  "initialize env h inode0 st su = do {
     su \<leftarrow> deploy_backends h inode0 (se_backend_opts st) su;
     if su_backends su = [] then Some (Inl no_backends)
     else case import_tasks (su_backends su) (se_resources st) of
         Inl e \<Rightarrow> Some (Inl e)
       | Inr ts \<Rightarrow> run_imports env h ts su True }"

section \<open>Teardown\<close>



section \<open>The program\<close>

text \<open>
  FUSE calls \<open>efsng_init\<close> when the file system is mounted and \<open>efsng_destroy\<close> when it is unmounted; an
  exception while the context is initialised ends the program.  \<open>fuse_main\<close> stands for the library,
  and the options are those that \<open>getopt\<close> finds.
\<close>

definition EXIT_FAILURE :: int where "EXIT_FAILURE = 1"
definition EXIT_SUCCESS :: int where "EXIT_SUCCESS = 0"



definition main :: "(settings \<Rightarrow> int) \<Rightarrow> 'n yaml \<Rightarrow> nat \<Rightarrow> string \<Rightarrow> (char \<times> string) list \<Rightarrow> string list \<Rightarrow> settings \<Rightarrow> int option" where
  "main fuse_main y argc exec_name opts rest m_user_opts =
     (if argc = 1 then Some EXIT_FAILURE
      else map_option (\<lambda>r. case r of Inl Exits \<Rightarrow> EXIT_SUCCESS | Inl (Throws e) \<Rightarrow> EXIT_FAILURE | Inr st \<Rightarrow> fuse_main st)
        (from_cmdline y exec_name opts rest m_user_opts))"

section \<open>Usable back ends\<close>

definition known_type :: "backend_options \<Rightarrow> bool" where
  "known_type opts \<longleftrightarrow> bo_type opts \<in> {''DRAM'', ''NVRAM-NVML'', ''NVRAM-DEVDAX''}"

definition usable :: "'w host \<Rightarrow> backend_options \<Rightarrow> bool" where
  "usable h opts \<longleftrightarrow> bo_type opts = ''DRAM'' \<or>
     bo_type opts \<in> {''NVRAM-NVML'', ''NVRAM-DEVDAX''} \<and> map_of (bo_extra_options opts) ''daxfs'' \<noteq> None \<and> (\<exists>n. segment_size_option opts = Some (Inr n)) \<and> h_open h (bo_root_dir opts) \<noteq> None"

lemma create_from_options_run:
  assumes "segment_size_option opts \<noteq> None"
  shows "\<exists>r su'. create_from_options h inode0 opts su = Some (r, su') \<and> su_backends su' = su_backends su \<and>
    (if known_type opts then (if usable h opts then \<exists>b. r = Inr (Some b) else \<exists>e. r = Inl e) else r = Inr None)"
proof -
  obtain z where z: "segment_size_option opts = Some z" using assms by auto
  have n: "\<exists>e. new_backend h inode0 (ucast (bo_capacity opts)) (bo_root_dir opts) = Inl e" if "h_open h (bo_root_dir opts) = None" using that by (simp add: new_backend_def)
  have m: "\<exists>b. new_backend h inode0 (ucast (bo_capacity opts)) (bo_root_dir opts) = Inr b" if "h_open h (bo_root_dir opts) \<noteq> None" using that by (auto simp: new_backend_def split: prod.splits)
  have n': "\<exists>e. new_dev_backend h inode0 (ucast (bo_capacity opts)) (bo_root_dir opts) (su_dev_pool su) = Inl e" if "h_open h (bo_root_dir opts) = None"
    using that by (simp add: new_dev_backend_def)
  have m': "\<exists>b. new_dev_backend h inode0 (ucast (bo_capacity opts)) (bo_root_dir opts) (su_dev_pool su) = Inr b" if "h_open h (bo_root_dir opts) \<noteq> None"
    using that by (auto simp: new_dev_backend_def split: prod.splits)
  show ?thesis
    using z n m n' m' by (cases z; cases "h_open h (bo_root_dir opts)"; cases "map_of (bo_extra_options opts) ''daxfs''")
      (auto simp: create_from_options_def known_type_def usable_def nvml_constructor_def devdax_constructor_def)
qed

lemma insert_backend_run:
  assumes "sorted_wrt (<) (map fst bs)" "i \<notin> fst ` set bs"
  shows "sorted_wrt (<) (map fst (insert_backend i b bs)) \<and> fst ` set (insert_backend i b bs) = insert i (fst ` set bs)"
  using assms
proof (induction bs rule: insert_backend.induct)
  case (2 i b j c bs)
  then show ?case by (auto; force)
qed simp

lemma deploy_run:
  assumes "distinct (map fst bos)" "\<forall>(i, bo) \<in> set bos. segment_size_option bo \<noteq> None" "sorted_wrt (<) (map fst (su_backends su))" "fst ` set (su_backends su) \<inter> fst ` set bos = {}"
  shows "if \<forall>(i, bo) \<in> set bos. known_type bo
    then \<exists>su'. deploy_backends h n bos su = Some su' \<and> sorted_wrt (<) (map fst (su_backends su')) \<and>
      fst ` set (su_backends su') = fst ` set (su_backends su) \<union> {i. \<exists>bo. (i, bo) \<in> set bos \<and> usable h bo}
    else deploy_backends h n bos su = None"
  using assms
proof (induction bos arbitrary: su)
  case (Cons x bos)
  obtain i bo where x: "x = (i, bo)" by (cases x)
  have "segment_size_option bo \<noteq> None" using Cons.prems(2) x by simp
  from create_from_options_run[OF this, of h n su] obtain r su1 where c: "create_from_options h n bo su = Some (r, su1)" "su_backends su1 = su_backends su"
    "if known_type bo then (if usable h bo then \<exists>b. r = Inr (Some b) else \<exists>e. r = Inl e) else r = Inr None" by blast
  have p: "distinct (map fst bos)" "\<forall>(i, bo) \<in> set bos. segment_size_option bo \<noteq> None" using Cons.prems x by auto
  consider (unknown) "\<not> known_type bo" | (bad) e where "known_type bo" "\<not> usable h bo" "r = Inl e" | (good) b where "known_type bo" "usable h bo" "r = Inr (Some b)"
    using c(3) by (auto split: if_splits)
  then show ?case
  proof cases
    case unknown
    then show ?thesis using c x by auto
  next
    case bad
    have "sorted_wrt (<) (map fst (su_backends su1))" "fst ` set (su_backends su1) \<inter> fst ` set bos = {}" using Cons.prems(3,4) c(2) x by auto
    from Cons.IH[OF p this] show ?thesis using bad c x by (auto split: if_splits)
  next
    case good
    let ?su = "su1\<lparr>su_backends := insert_backend i b (su_backends su1)\<rparr>"
    have "i \<notin> fst ` set (su_backends su)" using Cons.prems(4) x by auto
    note ib = insert_backend_run[OF Cons.prems(3) this, of b]
    have "sorted_wrt (<) (map fst (su_backends ?su))" "fst ` set (su_backends ?su) \<inter> fst ` set bos = {}" using ib Cons.prems(1,4) c(2) x by auto
    from Cons.IH[OF p this] show ?thesis using good c x ib by (auto split: if_splits)
  qed
qed simp

section \<open>Properties\<close>

text \<open>
  C31: With settings that name no resources to import, and back ends with distinct names whose sizes
  of segments are not written with signs, fractions or exponents and are below \<open>2 ^ 53\<close>, the file
  system starts with the usable back ends of the settings, ordered by their names, and fails to
  start if there is none.  A back end of a type the program does not know makes it call a method of a null
  pointer.
\<close>

theorem startup_backends:
  assumes "distinct (map fst (se_backend_opts st))" "\<forall>(i, bo) \<in> set (se_backend_opts st). segment_size_option bo \<noteq> None" "su_backends su = []" "se_resources st = []"
    "U = {i. \<exists>bo. (i, bo) \<in> set (se_backend_opts st) \<and> usable h bo}"
  shows "if \<forall>(i, bo) \<in> set (se_backend_opts st). known_type bo
    then if U = {} then initialize env h n st su = Some (Inl no_backends)
      else \<exists>su'. initialize env h n st su = Some (Inr su') \<and> sorted_wrt (<) (map fst (su_backends su')) \<and> fst ` set (su_backends su') = U
    else initialize env h n st su = None"
proof -
  have s: "sorted_wrt (<) (map fst (su_backends su))" "fst ` set (su_backends su) \<inter> fst ` set (se_backend_opts st) = {}" using assms(3) by simp_all
  note d = deploy_run[OF assms(1,2) s, of h n]
  show ?thesis
  proof (cases "\<forall>(i, bo) \<in> set (se_backend_opts st). known_type bo")
    case True
    then obtain su' where su': "deploy_backends h n (se_backend_opts st) su = Some su'" "sorted_wrt (<) (map fst (su_backends su'))" "fst ` set (su_backends su') = U"
      using d assms(3,5) by (auto split: if_splits)
    then show ?thesis using True assms(4) by (cases "su_backends su' = []") (auto simp: initialize_def)
  next
    case False
    then show ?thesis using d by (auto simp: initialize_def split: if_splits)
  qed
qed

definition sample_startup :: "unit startup" where
  "sample_startup = \<lparr>su_backends = [], su_segment_size = 1, su_dev_segment_size = 1, su_dev_pool = new_big_pool, su_machine = sample_machine\<rparr>"

definition sample_bo :: "string \<Rightarrow> string \<Rightarrow> (string \<times> string) list \<Rightarrow> backend_options" where
  "sample_bo i ty ex = \<lparr>bo_id = i, bo_type = ty, bo_capacity = 5, bo_root_dir = ''/r/'', bo_mount_dir = ''/m'', bo_results_dir = ''none'', bo_extra_options = ex\<rparr>"

theorem startup_backends_witness:
  "\<exists>su. initialize sample_dev sample_host 1 (new_settings ''/s''\<lparr>se_backend_opts := [(''ram'', sample_bo ''ram'' ''DRAM'' []), (''bad'', sample_bo ''bad'' ''NVRAM-NVML'' []),
      (''nvml'', sample_bo ''nvml'' ''NVRAM-NVML'' [(''daxfs'', ''/tmp'')])]\<rparr>) sample_startup = Some (Inr su) \<and>
    sorted_wrt (<) (map fst (su_backends su)) \<and> fst ` set (su_backends su) = {''nvml'', ''ram''}"
proof -
  let ?bos = "[(''ram'', sample_bo ''ram'' ''DRAM'' []), (''bad'', sample_bo ''bad'' ''NVRAM-NVML'' []), (''nvml'', sample_bo ''nvml'' ''NVRAM-NVML'' [(''daxfs'', ''/tmp'')])]"
  have u: "usable sample_host (sample_bo ''ram'' ''DRAM'' [])" "\<not> usable sample_host (sample_bo ''bad'' ''NVRAM-NVML'' [])"
    "usable sample_host (sample_bo ''nvml'' ''NVRAM-NVML'' [(''daxfs'', ''/tmp'')])"
    by (simp_all add: usable_def sample_bo_def segment_size_option_def sample_host_def)
  have U: "{''nvml'', ''ram''} = {i. \<exists>bo. (i, bo) \<in> set ?bos \<and> usable sample_host bo}" using u by auto
  have a: "\<forall>(i, bo) \<in> set ?bos. known_type bo" "\<forall>(i, bo) \<in> set ?bos. segment_size_option bo \<noteq> None" by (simp_all add: known_type_def sample_bo_def segment_size_option_def)
  let ?st = "new_settings ''/s''\<lparr>se_backend_opts := ?bos\<rparr>"
  have b: "se_backend_opts ?st = ?bos" "se_resources ?st = []" "su_backends sample_startup = []" by (simp_all add: new_settings_def sample_startup_def)
  have d: "distinct (map fst ?bos)" by simp
  from startup_backends[where env = sample_dev and st = ?st and h = sample_host and n = 1, unfolded b(1), OF d a(2) b(3,2) U] show ?thesis unfolding if_P[OF a(1)] by (simp split: if_splits)
qed

section \<open>Importing onto a device\<close>



lemma remove_root_pool [simp]: "dd_remove_root (d\<lparr>db_pool := q\<rparr>) pathname = dd_remove_root d pathname"
  by (simp add: dd_remove_root_def split: option.splits)





















end
