(* ===== verification/Spec2Isabelle.thy ===== *)
theory Spec2Isabelle
  imports Avl_Destroy Range_Lock_Props Segment_Map Efs_Common Nvml_Names_Props Thread_Pool Efs_Fs Api_Props Startup
begin

text \<open>
  Verification of \<open>echofs\<close>, an ephemeral file system that keeps the files of a job in
  non-volatile memory.  Paths below are those of the repository, under \<open>src/\<close>.

  \<^bold>\<open>The program.\<close>  A daemon, \<open>src/efs-ng.cpp\<close>, registers its operations with FUSE.  They look up a
  file in a back end (\<open>src/backends/\<close>), which keeps the names of files and directories, and
  move bytes between the buffers of FUSE and the segments of the file.  The segments of a file
  are found through a flat segment tree (\<open>src/mdds/\<close>); a segment lies in a pool, which is a mapped
  file or a run of units of a DAX device.  Reads and writes lock ranges of the file
  (\<open>src/range_lock.cpp\<close>), and the ranges are in an AVL tree (\<open>src/avl.hpp\<close>).  A client
  library (\<open>lib/\<close>) asks the daemon over a socket to load files; the daemon (\<open>src/api/\<close>,
  \<open>src/context.cpp\<close>) runs these requests as tasks of a thread pool.  What the daemon serves is
  told by its command line and a configuration file (\<open>src/settings/\<close>).

  \<^bold>\<open>Conventions.\<close>  \<open>Prelude\<close> has the shared vocabulary.  A result \<open>None\<close> is undefined behaviour, a
  failed assertion or a loop that does not end; an exception is an \<open>Inl\<close>.  Pointers are keys of
  stores.  Machine integers are words where they wrap, file offsets are \<open>int\<close>.  System calls
  and libraries that are not in the repository are parameters: records of functions, and
  predicates such as \<open>good_env\<close>, \<open>good_dev\<close>, \<open>host_store\<close>, \<open>codec_ok\<close>, \<open>accepts\<close> and \<open>delivers\<close> say what
  is relied on; each has an instance in the examples that follow the properties.  The build is the one for
  FUSE 2.

  \<^bold>\<open>AVL tree\<close> (\<open>src/avl.hpp\<close>): \<open>Avl\<close> (nodes in a store, search), \<open>Avl_Insert\<close>, \<open>Avl_Remove\<close> and
  \<open>Avl_Rotation\<close> model the operations on linked nodes with their parent pointers; \<open>Avl_Shape\<close>,
  \<open>Avl_Index\<close>, \<open>Avl_Swap\<close> and \<open>Avl_Search\<close> relate a store to a tree.  \<open>remove_node\<close> of a node with two
  children is undefined: it uses the local variable \<open>tmp\<close> after its block.  \<open>Avl_Props\<close> shows
  that any sequence of insertions and removals either comes to such a removal or runs to its
  end, and then implements a sorted set in a tree of logarithmic height; and what \<open>find\<close>, \<open>add\<close>,
  \<open>remove_node\<close> and the neighbour functions return.  \<open>Avl_Destroy\<close> shows that the destructor
  deletes every node once.  The loops climb or descend a tree of known height, so that they end.

  \<^bold>\<open>Range locks\<close> (\<open>src/range_lock.cpp\<close>): \<open>Range_Lock\<close> and \<open>Range_Lock_Ops\<close> model the manager over
  the AVL tree, with condition variables as the set of waiting threads; \<open>Range_Lock_Tree\<close> has the
  locale of the sorted container the manager relies on, which the AVL tree interprets;
  \<open>Range_Cut\<close>, \<open>Range_Lock_Add\<close>, \<open>Range_Lock_Release\<close> and \<open>Range_Lock_Safe\<close> prove what splitting,
  locking and unlocking do; \<open>Range_Lock_Steps\<close> interleaves the threads.  \<open>Range_Lock_Props\<close>:
  writers exclude others, free ranges are granted, no wake-up is lost, and which calls are
  undefined: releasing the range of a node with two children, which unlocking a writer and
  replacing a reader by a shared range may do; and three examples of defects.

  \<^bold>\<open>Segment tree\<close> (\<open>src/mdds/\<close>): \<open>Segment_Tree\<close> models construction, insertion, linear and tree
  search; \<open>Segment_Map\<close> shows that the tree is a map from keys to values, and that the tree
  search equals the linear one.

  \<^bold>\<open>Buffers and helpers\<close>: \<open>Efs_Common\<close> (\<open>src/efs-common.h\<close>), \<open>Buffers\<close>
  (\<open>fuse_buf_copy_pmem.cpp\<close>: copying between vectors of memory and descriptors, with short
  transfers and interruptions).

  \<^bold>\<open>NVML back end\<close> (\<open>src/backends/nvram-nvml/\<close>): \<open>Nvml_Segment\<close> (\<open>segment.cpp\<close>), \<open>Nvml_File\<close>
  (\<open>file.cpp\<close>), \<open>Nvml_Layout\<close>, \<open>Nvml_Read\<close>, \<open>Nvml_Store\<close>, \<open>Nvml_Write\<close> (the invariant of a file and
  what its operations do to it), \<open>Nvml_Props\<close> (a file is a sequence of bytes), \<open>Nvml_Errors\<close>
  (two defects); \<open>Paths\<close> (path components), \<open>Nvml_Backend\<close> (\<open>nvram-nvml.cpp\<close>, \<open>dir.cpp\<close>), \<open>Nvml_Names\<close>, \<open>Nvml_Load\<close>,
  \<open>Nvml_Loading\<close> and \<open>Nvml_Names_Props\<close> (the name space: directories list exactly what is below
  them; creating, renaming, removing and loading files).

  \<^bold>\<open>DAX device\<close> (\<open>src/backends/nvram-devdax/\<close>): \<open>Devdax_Pool\<close> is the allocator of \<open>segment.cpp\<close> with
  its bit set, 32-bit counters and search; \<open>Devdax_Props\<close> has the locale of an allocator,
  interpreted by it: regions of whole units never overlap, smaller ones do.  \<open>Devdax_Segment\<close> and
  \<open>Devdax_File\<close> are the segments and files (\<open>segment.cpp\<close>, \<open>file.cpp\<close>), \<open>Devdax_Backend\<close> the name
  space (\<open>nvram-devdax.cpp\<close>).  The device is one block of memory; \<open>Devdax_View\<close> reads the regions
  that are allocated on it as blocks of their own, and \<open>Devdax_Layout\<close> maps a file to one of the
  NVML back end over these blocks, so that \<open>Devdax_Files\<close> gets the effect of looking up, reading
  and writing from the NVML theories.  \<open>Op_Store\<close> has the locale of a store with operations
  that refine those of a specification; \<open>Devdax_Store\<close> interprets it by the files of a device,
  \<open>Devdax_Names\<close> and \<open>Devdax_Names_Props\<close> by its named files: any sequence of calls on a fresh
  device leaves the names and bytes of the specification.  \<open>Devdax_File_Props\<close> has three defects;
  \<open>Devdax_Loading\<close> shows that a loaded file has the bytes read from it.  \<open>Host_Store\<close> says what is
  relied on when files are written out: a host with directories and files, where \<open>mkdir\<close> and output
  streams need the directory above; \<open>Devdax_Unloading\<close> shows that unloading into a directory
  whose name ends with a slash makes the directories and writes the persistent files below it.

  \<^bold>\<open>File system\<close> (\<open>src/efs-ng.cpp\<close>, \<open>src/metadata/files.cpp\<close>): \<open>Efs_Ops\<close> has the FUSE operations over
  the first back end; \<open>Efs_Fs\<close> composes names, handles and files: writes through a handle
  refine writes of a sequence of bytes, and what is created, written, closed, opened and read
  comes back.

  \<^bold>\<open>Thread pool\<close> (\<open>src/thread-pool.h\<close>, \<open>src/thread-pool-queue.h\<close>): \<open>Thread_Pool\<close> steps the workers
  between the points where they may be interrupted; tasks start in order, waiting tasks have a
  worker that can go on, and stopping ends every worker.

  \<^bold>\<open>API\<close> (\<open>src/api/\<close>, \<open>lib/\<close>, \<open>common/messages.proto\<close>, \<open>src/errors.cpp\<close>): \<open>Efs_Errors\<close> (codes),
  \<open>Api_Wire\<close> (network order, the loops on the socket), \<open>Api_Requests\<close> (messages, sessions, the
  client), \<open>Api_Tasks\<close> (\<open>context::api_handler\<close>, the tracker, interleaved tasks), \<open>Api_Props\<close> (a
  client that asks for the status of a task gets what the tracker has for it; a load request is
  queued as it was decoded, but the client's packing of one is undefined, because \<open>xstrdup\<close>
  writes behind its allocation; the status of a task is what became of it, unless its back end
  is unknown), \<open>Api_Sample\<close> (a codec for the examples).

  \<^bold>\<open>Settings and start\<close> (\<open>src/settings/\<close>, \<open>src/backends/backend-base.cpp\<close>, \<open>src/context.cpp\<close>):
  \<open>Parsers\<close>, \<open>Config_File\<close> (schemas and visitors), \<open>Settings\<close> (command line and file),
  \<open>Settings_Props\<close>, \<open>Settings_Load\<close> and \<open>Settings_Cmdline\<close> (types of the values, precedence of
  the command line, arguments for FUSE), \<open>Startup\<close> (back ends made from the settings, imports,
  teardown and the main function; a resource that is imported onto a device when the file system
  is mounted is written to the results when it is unmounted).

  \<^bold>\<open>Bounds.\<close>  The properties of the trees hold for fewer than \<open>2 ^ 32\<close> operations and those of the locks for fewer
  than \<open>2 ^ 31\<close> steps, because the sources count in 32 bits; offsets of files stay below \<open>2 ^ 60\<close> and transfers below \<open>2 ^ 31\<close>, so that
  no offset wraps; on a device the units have 4096 bytes and offsets stay below \<open>2 ^ 43\<close>; task
  numbers are unique for the first \<open>2 ^ 32 - 2\<close> tasks.  The properties of writing are about writes
  that start at or before the end of the file; what writes further behind do is shown as a defect.

  \<^bold>\<open>Not modelled.\<close>  The files \<open>dir.cpp\<close> and \<open>fuse_buf_copy_pmem.cpp\<close> of the DAX back end repeat those
  of the NVML one and share their definitions.  The stubs of the DRAM back end other than
  loading; snapshots, which nothing uses; iterators, shifts and comparison of segment trees,
  which the file system does not call; futures of tracked tasks; the logger; the calls of
  \<open>libfuse\<close> in \<open>src/fuse-mount-helper.cpp\<close>; the vendored \<open>src/spdlog/\<close> and the tests.  The locks
  that protect the tables of a back end are taken and released within one operation, and
  operations of a back end are atomic here.
\<close>

end
